(* ===== verification/Prelude.thy ===== *)
theory Prelude
  imports Main "HOL-Library.Word"
begin

text \<open>
  The shared vocabulary of the development: Rust's fixed-width integers as words, the
  checked and saturating operations the sources call on them, \<open>Result\<close> as a sum with the
  error on the left, and the generic facts about them that the component theories use.

  A function \<open>fn f(&mut self, ..) -> Result<T, E>\<close> is a function from the state to a pair of
  the result and the state after the call, so that what an early return leaves behind is
  part of the model.
\<close>

named_theorems checked_simps \<open>characterisations of the checked operations\<close>
named_theorems result_simps \<open>rewrite rules for results and the question mark operator\<close>

section \<open>Integers\<close>

type_synonym u8 = "8 word"
type_synonym u16 = "16 word"
type_synonym u32 = "32 word"
type_synonym u64 = "64 word"
type_synonym u128 = "128 word"
type_synonym i32 = "32 word" \<comment> \<open>read with \<^const>\<open>sint\<close>\<close>
type_synonym i64 = "64 word" \<comment> \<open>read with \<^const>\<open>sint\<close>\<close>
type_synonym usize = nat

definition checked_add :: "'a::len word \<Rightarrow> 'a word \<Rightarrow> 'a word option" where
  "checked_add a b = (if unat a + unat b < 2 ^ LENGTH('a) then Some (a + b) else None)"

definition checked_sub :: "'a::len word \<Rightarrow> 'a word \<Rightarrow> 'a word option" where
  "checked_sub a b = (if b \<le> a then Some (a - b) else None)"

definition checked_mul :: "'a::len word \<Rightarrow> 'a word \<Rightarrow> 'a word option" where
  "checked_mul a b = (if unat a * unat b < 2 ^ LENGTH('a) then Some (a * b) else None)"

definition saturating_add :: "'a::len word \<Rightarrow> 'a word \<Rightarrow> 'a word" where
  "saturating_add a b = (if unat a + unat b < 2 ^ LENGTH('a) then a + b else - 1)"

definition saturating_sub :: "'a::len word \<Rightarrow> 'a word \<Rightarrow> 'a word" where
  "saturating_sub a b = (if b \<le> a then a - b else 0)"

text \<open>\<open>T::try_from\<close> of a wider unsigned value.\<close>

definition word_try_from :: "nat \<Rightarrow> 'a::len word option" where
  "word_try_from n = (if n < 2 ^ LENGTH('a) then Some (of_nat n) else None)"

text \<open>Unsigned and signed 128-bit intermediate results, range-checked.\<close>

definition u128_checked :: "nat \<Rightarrow> nat option" where
  "u128_checked n = (if n < 2 ^ 128 then Some n else None)"

definition i128_checked :: "int \<Rightarrow> int option" where
  "i128_checked x = (if - (2 ^ 127) \<le> x \<and> x < 2 ^ 127 then Some x else None)"

definition i64_try_from :: "int \<Rightarrow> i64 option" where
  "i64_try_from x = (if - (2 ^ 63) \<le> x \<and> x < 2 ^ 63 then Some (word_of_int x) else None)"

text \<open>Rust's integer division and remainder truncate towards zero.\<close>

definition trunc_div :: "int \<Rightarrow> int \<Rightarrow> int" where
  "trunc_div a b = sgn a * sgn b * (\<bar>a\<bar> div \<bar>b\<bar>)"

definition trunc_rem :: "int \<Rightarrow> int \<Rightarrow> int" where
  "trunc_rem a b = a - b * trunc_div a b"

text \<open>Signed 128-bit saturating addition; \<open>clamp\<close>, which panics when its bounds are reversed.\<close>

definition i128_saturating :: "int \<Rightarrow> int" where
  "i128_saturating x = max (- (2 ^ 127)) (min x (2 ^ 127 - 1))"

definition clamp :: "int \<Rightarrow> int \<Rightarrow> int \<Rightarrow> int option" where
  "clamp x lo hi = (if lo \<le> hi then Some (max lo (min x hi)) else None)"

lemma checked_add_Some [checked_simps]:
  "checked_add a b = Some c \<longleftrightarrow> unat c = unat a + unat b" for a b c :: "'a::len word"
proof
  assume "checked_add a b = Some c"
  then show "unat c = unat a + unat b"
    by (auto simp: checked_add_def unat_word_ariths split: if_splits)
next
  assume c: "unat c = unat a + unat b"
  have "unat a + unat b < 2 ^ LENGTH('a)" using unsigned_less [of c, where 'a = nat] c by simp
  moreover have "c = a + b"
    using arg_cong [OF c, of "of_nat :: nat \<Rightarrow> 'a word"] by simp
  ultimately show "checked_add a b = Some c" by (simp add: checked_add_def)
qed

lemma checked_add_None [checked_simps]:
  "checked_add a b = None \<longleftrightarrow> 2 ^ LENGTH('a) \<le> unat a + unat b" for a b :: "'a::len word"
  by (auto simp: checked_add_def)

lemma checked_sub_Some [checked_simps]:
  "checked_sub a b = Some c \<longleftrightarrow> unat a = unat b + unat c" for a b c :: "'a::len word"
proof
  assume "checked_sub a b = Some c"
  then have "b \<le> a" "c = a - b" by (auto simp: checked_sub_def split: if_splits)
  then show "unat a = unat b + unat c"
    by (simp add: unat_sub word_le_nat_alt)
next
  assume h: "unat a = unat b + unat c"
  have "a = b + c"
    using arg_cong [OF h, of "of_nat :: nat \<Rightarrow> 'a word"] by simp
  moreover from h have "b \<le> a" by (simp add: word_le_nat_alt)
  ultimately show "checked_sub a b = Some c" by (simp add: checked_sub_def)
qed

lemma checked_sub_None [checked_simps]:
  "checked_sub a b = None \<longleftrightarrow> unat a < unat b"
  by (auto simp: checked_sub_def word_le_nat_alt)

lemma checked_mul_Some [checked_simps]:
  "checked_mul a b = Some c \<longleftrightarrow> unat c = unat a * unat b" for a b c :: "'a::len word"
proof
  assume "checked_mul a b = Some c"
  then show "unat c = unat a * unat b"
    by (auto simp: checked_mul_def unat_word_ariths split: if_splits)
next
  assume c: "unat c = unat a * unat b"
  have "unat a * unat b < 2 ^ LENGTH('a)" using unsigned_less [of c, where 'a = nat] c by simp
  moreover have "c = a * b"
    using arg_cong [OF c, of "of_nat :: nat \<Rightarrow> 'a word"] by simp
  ultimately show "checked_mul a b = Some c" by (simp add: checked_mul_def)
qed

lemma unat_saturating_add:
  "unat (saturating_add a b) = min (unat a + unat b) (2 ^ LENGTH('a) - 1)" for a b :: "'a::len word"
  by (auto simp: saturating_add_def unat_word_ariths unsigned_minus_1_eq_mask
    mask_eq_exp_minus_1)

lemma word_try_from_Some [checked_simps]:
  "word_try_from n = Some w \<longleftrightarrow> unat w = n"
proof
  assume "word_try_from n = Some w"
  then show "unat w = n"
    by (auto simp: word_try_from_def unat_of_nat split: if_splits)
next
  assume "unat w = n"
  moreover have "unat w < 2 ^ LENGTH('a)" by (rule unsigned_less)
  ultimately show "word_try_from n = Some w" by (auto simp: word_try_from_def)
qed

lemma word_try_from_None [checked_simps]:
  "(word_try_from n :: 'a::len word option) = None \<longleftrightarrow> 2 ^ LENGTH('a) \<le> n"
  by (auto simp: word_try_from_def)

lemma u128_checked_Some [checked_simps]: "u128_checked n = Some m \<longleftrightarrow> m = n \<and> n < 2 ^ 128"
  by (auto simp: u128_checked_def)

lemma i128_checked_Some [checked_simps]:
  "i128_checked x = Some y \<longleftrightarrow> y = x \<and> - (2 ^ 127) \<le> x \<and> x < 2 ^ 127"
  by (auto simp: i128_checked_def)

lemma i64_try_from_Some [checked_simps]: "i64_try_from x = Some w \<longleftrightarrow> sint w = x"
proof
  assume "i64_try_from x = Some w"
  then have w: "w = word_of_int x" and r: "- (2 ^ 63) \<le> x" "x < 2 ^ 63"
    by (auto simp: i64_try_from_def split: if_splits)
  have "sint (word_of_int x :: 64 word) = signed_take_bit 63 x" by (simp add: signed_of_int)
  also have "\<dots> = x" by (rule signed_take_bit_int_eq_self) (use r in simp_all)
  finally show "sint w = x" using w by simp
next
  assume s: "sint w = x"
  have "- (2 ^ 63) \<le> sint w" "sint w < 2 ^ 63"
    using sint_greater_eq [of w] sint_less [of w] by simp_all
  with s show "i64_try_from x = Some w" by (auto simp: i64_try_from_def)
qed

lemma i64_range: "- (2 ^ 63) \<le> sint (w :: i64)" "sint (w :: i64) < 2 ^ 63"
  using sint_greater_eq [of w] sint_less [of w] by simp_all

lemma unat_u64_less: "unat (w :: u64) < 18446744073709551616"
  using unsigned_less [of w, where 'a = nat] by simp

lemma unat_u32_less: "unat (w :: u32) < 4294967296"
  using unsigned_less [of w, where 'a = nat] by simp

lemma word_eq_unatI: "unat a = unat b \<Longrightarrow> a = b" for a b :: "'a::len word"
  by (rule unsigned_word_eqI)

lemma unat_lt2p_any: "unat (x :: 'a::len word) < 2 ^ LENGTH('a)"
  by simp

lemma ex_word_unat: "n < 2 ^ LENGTH('a) \<Longrightarrow> \<exists>w::'a::len word. unat w = n"
  by (rule exI [of _ "of_nat n"]) (simp add: unat_of_nat)

lemma word_less_unat: "a < b \<longleftrightarrow> unat a < unat b" "a \<le> b \<longleftrightarrow> unat a \<le> unat b" for a b :: "'a::len word"
  by (simp_all add: word_less_nat_alt word_le_nat_alt)

lemma trunc_div_nonneg: "0 \<le> a \<Longrightarrow> 0 < b \<Longrightarrow> trunc_div a b = a div b"
  by (cases "a = 0") (auto simp: trunc_div_def)

lemma trunc_div_neg: "a < 0 \<Longrightarrow> 0 < b \<Longrightarrow> trunc_div a b = - ((- a) div b)"
  by (simp add: trunc_div_def)

section \<open>Characters\<close>

text \<open>A \<open>char\<close> is its Unicode scalar value; a string is the list of its characters.\<close>

definition is_ascii_lowercase :: "nat \<Rightarrow> bool" where
  "is_ascii_lowercase c \<longleftrightarrow> 97 \<le> c \<and> c \<le> 122"

definition is_ascii_digit :: "nat \<Rightarrow> bool" where
  "is_ascii_digit c \<longleftrightarrow> 48 \<le> c \<and> c \<le> 57"

text \<open>The \<open>Display\<close> of an unsigned integer: its decimal digits.\<close>

fun decimal :: "nat \<Rightarrow> nat list" where
  "decimal n = (if n < 10 then [48 + n] else decimal (n div 10) @ [48 + n mod 10])"

declare decimal.simps [simp del]

definition digits :: "nat \<Rightarrow> string" where
  "digits n = map char_of (decimal n)"

lemma decimal_value: "foldl (\<lambda>a d. 10 * a + (d - 48)) 0 (decimal n) = n"
  by (induction n rule: decimal.induct) (subst decimal.simps, auto)

lemma decimal_digit: "d \<in> set (decimal n) \<Longrightarrow> 48 \<le> d \<and> d < 58"
  by (induction n rule: decimal.induct) (subst (asm) (2) decimal.simps, auto split: if_splits)

lemma decimal_chars: "map of_char (map char_of (decimal n)) = (decimal n :: nat list)"
  by (simp add: comp_def) (rule map_idI, auto dest: decimal_digit)

section \<open>Results\<close>

definition ok_or :: "'a option \<Rightarrow> 'e \<Rightarrow> 'e + 'a" where
  "ok_or x e = (case x of None \<Rightarrow> Inl e | Some a \<Rightarrow> Inr a)"

text \<open>The question mark operator: an error is returned, a value is passed on.\<close>

definition and_then :: "'e + 'a \<Rightarrow> ('a \<Rightarrow> 'e + 'b) \<Rightarrow> 'e + 'b" where
  "and_then r f = (case r of Inl e \<Rightarrow> Inl e | Inr a \<Rightarrow> f a)"

definition is_some_and :: "'a option \<Rightarrow> ('a \<Rightarrow> bool) \<Rightarrow> bool" where
  "is_some_and x P = (case x of None \<Rightarrow> False | Some a \<Rightarrow> P a)"

lemma ok_or_simps [simp]: "ok_or None e = Inl e" "ok_or (Some a) e = Inr a"
  by (simp_all add: ok_or_def)

lemma and_then_simps [simp]: "and_then (Inl e) f = Inl e" "and_then (Inr a) f = f a"
  by (simp_all add: and_then_def)

lemma ok_or_Inr [result_simps]: "ok_or x e = Inr a \<longleftrightarrow> x = Some a"
  by (cases x) auto

lemma ok_or_Inl [result_simps]: "ok_or x e = Inl f \<longleftrightarrow> x = None \<and> f = e"
  by (cases x) auto

lemma and_then_Inr [result_simps]: "and_then r f = Inr b \<longleftrightarrow> (\<exists>a. r = Inr a \<and> f a = Inr b)"
  by (cases r) auto

lemma and_then_Inl [result_simps]:
  "and_then r f = Inl e \<longleftrightarrow> r = Inl e \<or> (\<exists>a. r = Inr a \<and> f a = Inl e)"
  by (cases r) auto

lemma and_then_cong [fundef_cong]:
  "r = s \<Longrightarrow> (\<And>a. s = Inr a \<Longrightarrow> f a = g a) \<Longrightarrow> and_then r f = and_then s g"
  by (cases s) auto

text \<open>A call with a mutable receiver: the result and the receiver after the call.\<close>

type_synonym ('e, 'a, 's) meth = "'s \<Rightarrow> ('e + 'a) \<times> 's"

section \<open>Lists\<close>

lemma map_filter_Nil: "List.map_filter f xs = [] \<longleftrightarrow> (\<forall>x \<in> set xs. f x = None)"
  by (auto simp: List.map_filter_def filter_empty_conv)

lemma filter_key: "distinct (map f xs) \<Longrightarrow> x \<in> set xs \<Longrightarrow> filter (\<lambda>y. f y = f x) xs = [x]"
proof (induction xs)
  case (Cons z zs)
  then have "z \<noteq> x \<Longrightarrow> f z \<noteq> f x" by auto
  moreover have "z = x \<Longrightarrow> filter (\<lambda>y. f y = f x) zs = []" using Cons.prems by (auto simp: filter_empty_conv) (metis image_eqI)
  ultimately show ?case using Cons by auto
qed simp

lemma map_of_zip_nth:
  "length xs = length ys \<Longrightarrow> distinct xs \<Longrightarrow> map_of (zip xs ys) a = Some v \<longleftrightarrow> (\<exists>k < length xs. xs ! k = a \<and> ys ! k = v)"
  by (subst map_of_eq_Some_iff) (auto simp: set_zip)

end
