(* ===== verification/Command.thy ===== *)
theory Command
  imports Prelude
begin

text \<open>
  The crate \<open>crates/foundation/fm-command\<close>, durable half: checked counters
  (\<open>counters.rs\<close>), command envelopes, rejections and receipts (\<open>envelope.rs\<close>), bounded
  transactions (\<open>transaction.rs\<close>), and the single-writer idempotent state machine
  \<open>CommandState\<close> with its two-phase prepare and commit (\<open>machine.rs\<close>).

  A \<open>Mutation\<close> is a function of the draft and the event buffer that returns the result, the
  draft and the buffer after the call. The closures \<open>prepare\<close> passed to the machine are
  parameters of the operations.
\<close>

section \<open>Counters, envelopes and receipts\<close>

type_synonym revision = u64
type_synonym state_epoch = u64
type_synonym event_sequence = u64
type_synonym command_id = string
type_synonym idempotency_key = string

datatype counter_overflow = CounterOverflow

definition checked_next :: "u64 \<Rightarrow> counter_overflow + u64" where
  "checked_next c = ok_or (checked_add c 1) CounterOverflow"

definition is_exceeded_at :: "u64 \<Rightarrow> u64 \<Rightarrow> bool" where
  "is_exceeded_at deadline now_millis \<longleftrightarrow> now_millis > deadline"

record 'c command_envelope =
  env_id :: command_id
  env_key :: idempotency_key
  env_expected :: "revision option"
  env_deadline :: "u64 option"
  env_command :: 'c

definition envelope_new :: "command_id \<Rightarrow> idempotency_key \<Rightarrow> 'c \<Rightarrow> 'c command_envelope" where
  "envelope_new cid key c =
     \<lparr>env_id = cid, env_key = key, env_expected = None, env_deadline = None, env_command = c\<rparr>"

definition envelope_expecting :: "revision \<Rightarrow> 'c command_envelope \<Rightarrow> 'c command_envelope" where
  "envelope_expecting r env = env\<lparr>env_expected := Some r\<rparr>"

definition envelope_with_deadline :: "u64 \<Rightarrow> 'c command_envelope \<Rightarrow> 'c command_envelope" where
  "envelope_with_deadline d env = env\<lparr>env_deadline := Some d\<rparr>"

datatype rejection_code =
    PermissionDenied | DeadlineExceeded | RevisionConflict | InvalidCommand | NotFound
  | Conflict | Unavailable | ResourceExhausted | Internal

fun rejection_code_as_str :: "rejection_code \<Rightarrow> string" where
  "rejection_code_as_str PermissionDenied = ''permission_denied''"
| "rejection_code_as_str DeadlineExceeded = ''deadline_exceeded''"
| "rejection_code_as_str RevisionConflict = ''revision_conflict''"
| "rejection_code_as_str InvalidCommand = ''invalid_command''"
| "rejection_code_as_str NotFound = ''not_found''"
| "rejection_code_as_str Conflict = ''conflict''"
| "rejection_code_as_str Unavailable = ''unavailable''"
| "rejection_code_as_str ResourceExhausted = ''resource_exhausted''"
| "rejection_code_as_str Internal = ''internal''"

record field_issue =
  fi_field :: string
  fi_code :: string
  fi_message :: string

record rejection =
  rej_code :: rejection_code
  rej_message :: string
  rej_fields :: "field_issue list"
  rej_retryable :: bool

definition rejection_new :: "rejection_code \<Rightarrow> string \<Rightarrow> rejection" where
  "rejection_new code message =
     \<lparr>rej_code = code, rej_message = message, rej_fields = [], rej_retryable = False\<rparr>"

definition rejection_with_field :: "field_issue \<Rightarrow> rejection \<Rightarrow> rejection" where
  "rejection_with_field issue r = r\<lparr>rej_fields := rej_fields r @ [issue]\<rparr>"

definition rejection_set_retryable :: "bool \<Rightarrow> rejection \<Rightarrow> rejection" where
  "rejection_set_retryable v r = r\<lparr>rej_retryable := v\<rparr>"

record 'r accepted_receipt =
  acc_revision :: revision
  acc_result :: 'r

record rejected_receipt =
  rejd_rejection :: rejection
  rejd_current_revision :: revision

datatype 'r command_receipt =
    ReceiptAccepted command_id "'r accepted_receipt"
  | ReceiptRejected command_id rejected_receipt

fun receipt_command_id :: "'r command_receipt \<Rightarrow> command_id" where
  "receipt_command_id (ReceiptAccepted cid _) = cid"
| "receipt_command_id (ReceiptRejected cid _) = cid"

fun receipt_accepted :: "'r command_receipt \<Rightarrow> 'r accepted_receipt option" where
  "receipt_accepted (ReceiptAccepted _ a) = Some a"
| "receipt_accepted (ReceiptRejected _ _) = None"

fun receipt_rejected :: "'r command_receipt \<Rightarrow> rejected_receipt option" where
  "receipt_rejected (ReceiptAccepted _ _) = None"
| "receipt_rejected (ReceiptRejected _ r) = Some r"

section \<open>Transactions\<close>

definition MAX_TRANSACTION_COMMANDS :: usize where "MAX_TRANSACTION_COMMANDS = 256"

datatype transaction_error = TransactionEmpty | TooManyCommands usize

fun transaction_collect :: "'c list \<Rightarrow> 'c list \<Rightarrow> transaction_error + 'c list" where
  "transaction_collect bounded [] = Inr bounded"
| "transaction_collect bounded (c # cs) =
     (if length bounded = MAX_TRANSACTION_COMMANDS then Inl (TooManyCommands MAX_TRANSACTION_COMMANDS)
      else transaction_collect (bounded @ [c]) cs)"

definition transaction_new :: "'c list \<Rightarrow> transaction_error + 'c list" where
  "transaction_new commands =
     and_then (transaction_collect [] commands)
       (\<lambda>bounded. if bounded = [] then Inl TransactionEmpty else Inr bounded)"

section \<open>The command state machine\<close>

type_synonym ('s, 'e, 'r) mutation = "'s \<Rightarrow> 'e list \<Rightarrow> (rejection + 'r) \<times> 's \<times> 'e list"

record 'e durable_event =
  dev_epoch :: state_epoch
  dev_sequence :: event_sequence
  dev_revision :: revision
  dev_payload :: 'e

record ('r, 'e) apply_outcome =
  out_receipt :: "'r command_receipt"
  out_events :: "'e durable_event list"
  out_replayed :: bool

datatype commit_counter = RevisionCounter | EventSequenceCounter

datatype commit_error =
    StaleAuthority revision revision event_sequence event_sequence
  | CounterExhausted commit_counter

datatype prepared_kind = KindAccepted revision event_sequence | KindRejected

record ('s, 'r, 'e) prepared_commit =
  pc_draft :: 's
  pc_events :: "'e durable_event list"
  pc_receipt :: "'r command_receipt"
  pc_key :: idempotency_key
  pc_epoch :: state_epoch
  pc_base_revision :: revision
  pc_base_sequence :: event_sequence
  pc_kind :: prepared_kind

datatype ('s, 'r, 'e) prepare_outcome =
    Prepared "('s, 'r, 'e) prepared_commit"
  | Replayed "('r, 'e) apply_outcome"

record ('s, 'r) command_state =
  st_state :: 's
  st_epoch :: state_epoch
  st_revision :: revision
  st_sequence :: event_sequence
  st_receipts :: "idempotency_key \<rightharpoonup> 'r command_receipt"

definition command_state_new :: "'s \<Rightarrow> state_epoch \<Rightarrow> ('s, 'r) command_state" where
  "command_state_new s epoch =
     \<lparr>st_state = s, st_epoch = epoch, st_revision = 0, st_sequence = 0, st_receipts = Map.empty\<rparr>"

definition command_state_restore ::
  "'s \<Rightarrow> state_epoch \<Rightarrow> revision \<Rightarrow> event_sequence \<Rightarrow> ('s, 'r) command_state" where
  "command_state_restore s epoch rv sq =
     \<lparr>st_state = s, st_epoch = epoch, st_revision = rv, st_sequence = sq, st_receipts = Map.empty\<rparr>"

text \<open>Collecting pairs into a \<open>HashMap\<close>: a later pair replaces an earlier one.\<close>

definition restore_with_receipts ::
  "'s \<Rightarrow> state_epoch \<Rightarrow> revision \<Rightarrow> event_sequence \<Rightarrow> (idempotency_key \<times> 'r command_receipt) list
   \<Rightarrow> ('s, 'r) command_state" where
  "restore_with_receipts s epoch rv sq receipts =
     \<lparr>st_state = s, st_epoch = epoch, st_revision = rv, st_sequence = sq,
      st_receipts = fold (\<lambda>(k, r) m. m(k \<mapsto> r)) receipts Map.empty\<rparr>"

definition prepared_rejection ::
  "('s, 'r) command_state \<Rightarrow> command_id \<Rightarrow> idempotency_key \<Rightarrow> rejection \<Rightarrow> ('s, 'r, 'e) prepared_commit" where
  "prepared_rejection cs cid key rej =
     \<lparr>pc_draft = st_state cs, pc_events = [],
      pc_receipt = ReceiptRejected cid \<lparr>rejd_rejection = rej, rejd_current_revision = st_revision cs\<rparr>,
      pc_key = key, pc_epoch = st_epoch cs, pc_base_revision = st_revision cs,
      pc_base_sequence = st_sequence cs, pc_kind = KindRejected\<rparr>"

text \<open>The loop that numbers the emitted payloads.\<close>

fun number_events ::
  "state_epoch \<Rightarrow> revision \<Rightarrow> event_sequence \<Rightarrow> 'e list \<Rightarrow> ('e durable_event list \<times> event_sequence) option" where
  "number_events epoch rv sq [] = Some ([], sq)"
| "number_events epoch rv sq (p # ps) =
     (case checked_next sq of
        Inl _ \<Rightarrow> None
      | Inr nxt \<Rightarrow>
          (case number_events epoch rv nxt ps of
             None \<Rightarrow> None
           | Some (evs, sq') \<Rightarrow>
               Some (\<lparr>dev_epoch = epoch, dev_sequence = nxt, dev_revision = rv, dev_payload = p\<rparr> # evs, sq')))"

definition prepared_mutation ::
  "('s, 'r) command_state \<Rightarrow> command_id \<Rightarrow> idempotency_key \<Rightarrow> ('s, 'e, 'r) mutation
   \<Rightarrow> ('s, 'r, 'e) prepared_commit" where
  "prepared_mutation cs cid key mutation =
     (case mutation (st_state cs) [] of
        (Inl rej, _, _) \<Rightarrow> prepared_rejection cs cid key rej
      | (Inr result, draft, payloads) \<Rightarrow>
          (case checked_next (st_revision cs) of
             Inl _ \<Rightarrow> prepared_rejection cs cid key
                (rejection_new ResourceExhausted ''durable revision space exhausted'')
           | Inr rv \<Rightarrow>
               (case number_events (st_epoch cs) rv (st_sequence cs) payloads of
                  None \<Rightarrow> prepared_rejection cs cid key
                    (rejection_new ResourceExhausted ''durable event sequence space exhausted'')
                | Some (evs, sq) \<Rightarrow>
                    \<lparr>pc_draft = draft, pc_events = evs,
                     pc_receipt = ReceiptAccepted cid \<lparr>acc_revision = rv, acc_result = result\<rparr>,
                     pc_key = key, pc_epoch = st_epoch cs, pc_base_revision = st_revision cs,
                     pc_base_sequence = st_sequence cs, pc_kind = KindAccepted rv sq\<rparr>)))"

definition prepare_command ::
  "('s \<Rightarrow> 'c \<Rightarrow> rejection + ('s, 'e, 'r) mutation) \<Rightarrow> 'c command_envelope \<Rightarrow> u64
   \<Rightarrow> ('s, 'r) command_state \<Rightarrow> ('s, 'r, 'e) prepare_outcome" where
  "prepare_command prepare env now_millis cs =
     (case st_receipts cs (env_key env) of
        Some receipt \<Rightarrow> Replayed \<lparr>out_receipt = receipt, out_events = [], out_replayed = True\<rparr>
      | None \<Rightarrow>
          if (case env_deadline env of Some d \<Rightarrow> is_exceeded_at d now_millis | None \<Rightarrow> False)
          then Prepared (prepared_rejection cs (env_id env) (env_key env)
                 (rejection_new DeadlineExceeded ''command deadline exceeded''))
          else if (case env_expected env of Some r \<Rightarrow> r \<noteq> st_revision cs | None \<Rightarrow> False)
          then Prepared (prepared_rejection cs (env_id env) (env_key env)
                 (rejection_set_retryable True
                    (rejection_new RevisionConflict ''expected revision does not match current revision'')))
          else case prepare (st_state cs) (env_command env) of
              Inl rej \<Rightarrow> Prepared (prepared_rejection cs (env_id env) (env_key env) rej)
            | Inr mutation \<Rightarrow> Prepared (prepared_mutation cs (env_id env) (env_key env) mutation))"

definition commit_current ::
  "('s, 'r, 'e) prepared_commit \<Rightarrow> ('s, 'r) command_state \<Rightarrow> ('r, 'e) apply_outcome \<times> ('s, 'r) command_state" where
  "commit_current p cs =
     (let cs' = (case pc_kind p of
                   KindAccepted rv sq \<Rightarrow>
                     cs\<lparr>st_state := pc_draft p, st_revision := rv, st_sequence := sq\<rparr>
                 | KindRejected \<Rightarrow> cs)
      in (\<lparr>out_receipt = pc_receipt p, out_events = pc_events p, out_replayed = False\<rparr>,
          cs'\<lparr>st_receipts := (st_receipts cs')(pc_key p \<mapsto> pc_receipt p)\<rparr>))"

text \<open>The loop of \<open>commit\<close> that advances the sequence once per prepared event.\<close>

fun advance_sequence :: "'e durable_event list \<Rightarrow> event_sequence \<Rightarrow> event_sequence option" where
  "advance_sequence [] sq = Some sq"
| "advance_sequence (_ # evs) sq =
     (case checked_next sq of Inl _ \<Rightarrow> None | Inr nxt \<Rightarrow> advance_sequence evs nxt)"

definition commit ::
  "('s, 'r, 'e) prepared_commit \<Rightarrow> (commit_error, ('r, 'e) apply_outcome, ('s, 'r) command_state) meth" where
  "commit p cs =
     (case st_receipts cs (pc_key p) of
        Some receipt \<Rightarrow> (Inr \<lparr>out_receipt = receipt, out_events = [], out_replayed = True\<rparr>, cs)
      | None \<Rightarrow>
          if pc_epoch p \<noteq> st_epoch cs \<or> pc_base_revision p \<noteq> st_revision cs
             \<or> pc_base_sequence p \<noteq> st_sequence cs
          then (Inl (StaleAuthority (pc_base_revision p) (st_revision cs)
                       (pc_base_sequence p) (st_sequence cs)), cs)
          else
            (case (case pc_kind p of
                     KindRejected \<Rightarrow> None
                   | KindAccepted rv sq \<Rightarrow>
                       (case checked_next (st_revision cs) of
                          Inl _ \<Rightarrow> Some (CounterExhausted RevisionCounter)
                        | Inr checked_rev \<Rightarrow>
                            if checked_rev \<noteq> rv
                            then Some (StaleAuthority rv (st_revision cs) sq (st_sequence cs))
                            else case advance_sequence (pc_events p) (st_sequence cs) of
                                None \<Rightarrow> Some (CounterExhausted EventSequenceCounter)
                              | Some checked_sq \<Rightarrow>
                                  if checked_sq \<noteq> sq
                                  then Some (StaleAuthority rv (st_revision cs) sq (st_sequence cs))
                                  else None)) of
               Some e \<Rightarrow> (Inl e, cs)
             | None \<Rightarrow> (case commit_current p cs of (out, cs') \<Rightarrow> (Inr out, cs'))))"

definition apply_command ::
  "('s \<Rightarrow> 'c \<Rightarrow> rejection + ('s, 'e, 'r) mutation) \<Rightarrow> 'c command_envelope \<Rightarrow> u64
   \<Rightarrow> ('s, 'r) command_state \<Rightarrow> ('r, 'e) apply_outcome \<times> ('s, 'r) command_state" where
  "apply_command prepare env now_millis cs =
     (case prepare_command prepare env now_millis cs of
        Replayed out \<Rightarrow> (out, cs)
      | Prepared p \<Rightarrow> commit_current p cs)"

text \<open>The closure that \<open>prepare_transaction\<close> hands to \<open>prepare\<close>: each command is prepared
  against the draft left by the commands before it.\<close>

fun run_transaction ::
  "('s \<Rightarrow> 'c \<Rightarrow> rejection + ('s, 'e, 'r) mutation) \<Rightarrow> 'c list \<Rightarrow> 'r list \<Rightarrow> ('s, 'e, 'r list) mutation" where
  "run_transaction prepare [] results draft events = (Inr results, draft, events)"
| "run_transaction prepare (c # cs) results draft events =
     (case prepare draft c of
        Inl rej \<Rightarrow> (Inl rej, draft, events)
      | Inr mutation \<Rightarrow>
          (case mutation draft events of
             (Inl rej, draft', events') \<Rightarrow> (Inl rej, draft', events')
           | (Inr r, draft', events') \<Rightarrow> run_transaction prepare cs (results @ [r]) draft' events'))"

definition prepare_transaction ::
  "('s \<Rightarrow> 'c \<Rightarrow> rejection + ('s, 'e, 'r) mutation) \<Rightarrow> 'c list command_envelope \<Rightarrow> u64
   \<Rightarrow> ('s, 'r list) command_state \<Rightarrow> ('s, 'r list, 'e) prepare_outcome" where
  "prepare_transaction prepare env now_millis cs =
     prepare_command (\<lambda>_ transaction. Inr (run_transaction prepare transaction [])) env now_millis cs"

section \<open>Numbering\<close>

lemma checked_next_Inr [checked_simps]: "checked_next c = Inr n \<longleftrightarrow> unat n = Suc (unat c)"
  by (simp add: checked_next_def result_simps checked_simps)

text \<open>A list of events numbered without gaps from the successor of a base.\<close>

fun contiguous :: "nat \<Rightarrow> 'e durable_event list \<Rightarrow> bool" where
  "contiguous b [] = True"
| "contiguous b (ev # evs) = (unat (dev_sequence ev) = Suc b \<and> contiguous (Suc b) evs)"

lemma contiguous_append [simp]:
  "contiguous b (xs @ ys) \<longleftrightarrow> contiguous b xs \<and> contiguous (b + length xs) ys"
  by (induction b xs rule: contiguous.induct) auto

lemma contiguous_nth:
  "contiguous b evs \<Longrightarrow> i < length evs \<Longrightarrow> unat (dev_sequence (evs ! i)) = b + Suc i"
  by (induction b evs arbitrary: i rule: contiguous.induct) (auto simp: nth_Cons split: nat.splits)

lemma number_events_Some:
  "number_events ep rv sq ps = Some (evs, sq') \<Longrightarrow>
     unat sq' = unat sq + length evs \<and> map dev_payload evs = ps \<and> contiguous (unat sq) evs
     \<and> (\<forall>ev\<in>set evs. dev_revision ev = rv \<and> dev_epoch ev = ep)"
proof (induction ep rv sq ps arbitrary: evs sq' rule: number_events.induct)
  case (1 ep rv sq)
  then show ?case by simp
next
  case (2 ep rv sq p ps)
  then obtain nxt evs' where nxt: "checked_next sq = Inr nxt"
      and rest: "number_events ep rv nxt ps = Some (evs', sq')"
      and evs: "evs = \<lparr>dev_epoch = ep, dev_sequence = nxt, dev_revision = rv, dev_payload = p\<rparr> # evs'"
    by (auto split: sum.splits option.splits)
  have "unat nxt = Suc (unat sq)" using nxt by (simp add: checked_simps)
  with 2(1) [OF nxt rest] evs show ?case by auto
qed

lemma advance_sequence_Some:
  "advance_sequence evs sq = Some sq' \<longleftrightarrow> unat sq' = unat sq + length evs"
proof (induction evs sq rule: advance_sequence.induct)
  case (1 sq)
  then show ?case by (auto simp: word_unat_eq_iff)
next
  case (2 ev evs sq)
  show ?case
  proof (cases "checked_next sq")
    case (Inl e)
    then have "2 ^ 64 \<le> Suc (unat sq)" by (simp add: checked_next_def result_simps checked_simps)
    with Inl unat_u64_less [of sq'] show ?thesis by simp
  next
    case (Inr nxt)
    moreover from Inr have "unat nxt = Suc (unat sq)" by (simp add: checked_simps)
    ultimately show ?thesis using 2 by simp
  qed
qed

section \<open>What a prepared commit carries\<close>

definition prepared_wf :: "('s, 'r, 'e) prepared_commit \<Rightarrow> bool" where
  "prepared_wf p \<longleftrightarrow>
     (case pc_kind p of
        KindAccepted rv sq \<Rightarrow>
          unat rv = Suc (unat (pc_base_revision p))
          \<and> unat sq = unat (pc_base_sequence p) + length (pc_events p)
          \<and> contiguous (unat (pc_base_sequence p)) (pc_events p)
          \<and> (\<forall>ev\<in>set (pc_events p). dev_revision ev = rv \<and> dev_epoch ev = pc_epoch p)
          \<and> (\<exists>cid a. pc_receipt p = ReceiptAccepted cid a \<and> acc_revision a = rv)
      | KindRejected \<Rightarrow> pc_events p = [] \<and> (\<exists>cid r. pc_receipt p = ReceiptRejected cid r))"

definition prepared_from :: "('s, 'r) command_state \<Rightarrow> ('s, 'r, 'e) prepared_commit \<Rightarrow> bool" where
  "prepared_from cs p \<longleftrightarrow> pc_epoch p = st_epoch cs \<and> pc_base_revision p = st_revision cs
     \<and> pc_base_sequence p = st_sequence cs"

lemma prepared_rejection_wf:
  "prepared_wf (prepared_rejection cs cid key rej)"
  "prepared_from cs (prepared_rejection cs cid key rej)"
  "pc_key (prepared_rejection cs cid key rej) = key"
  by (simp_all add: prepared_rejection_def prepared_wf_def prepared_from_def)

lemma prepared_mutation_wf:
  "prepared_wf (prepared_mutation cs cid key m) \<and> prepared_from cs (prepared_mutation cs cid key m)
   \<and> pc_key (prepared_mutation cs cid key m) = key"
proof (cases "m (st_state cs) []")
  case (fields res draft payloads)
  show ?thesis
  proof (cases res)
    case (Inl rej)
    with fields show ?thesis by (simp add: prepared_mutation_def prepared_rejection_wf)
  next
    case (Inr result)
    show ?thesis
    proof (cases "checked_next (st_revision cs)")
      case (Inl e)
      with fields Inr show ?thesis by (simp add: prepared_mutation_def prepared_rejection_wf)
    next
      case rv: (Inr rv)
      show ?thesis
      proof (cases "number_events (st_epoch cs) rv (st_sequence cs) payloads")
        case None
        with fields Inr rv show ?thesis by (simp add: prepared_mutation_def prepared_rejection_wf)
      next
        case (Some es)
        obtain evs sq where es: "es = (evs, sq)" by (cases es)
        have "unat rv = Suc (unat (st_revision cs))" using rv by (simp add: checked_simps)
        with number_events_Some [OF Some [unfolded es]] fields Inr rv Some es show ?thesis
          by (simp add: prepared_mutation_def prepared_wf_def prepared_from_def)
      qed
    qed
  qed
qed

lemma prepare_command_Prepared:
  assumes "prepare_command prepare env now cs = Prepared p"
  shows "prepared_wf p" "prepared_from cs p" "pc_key p = env_key env" "st_receipts cs (env_key env) = None"
  using assms prepared_mutation_wf [of cs "env_id env" "env_key env"]
  by (auto simp: prepare_command_def prepared_rejection_wf split: option.splits sum.splits if_splits)

lemma prepare_command_Replayed:
  "prepare_command prepare env now cs = Replayed out \<longleftrightarrow>
     (\<exists>r. st_receipts cs (env_key env) = Some r
        \<and> out = \<lparr>out_receipt = r, out_events = [], out_replayed = True\<rparr>)"
  by (auto simp: prepare_command_def split: option.splits sum.splits)

lemma commit_prepared:
  assumes "prepared_wf p" "prepared_from cs p" "st_receipts cs (pc_key p) = None"
  shows "commit p cs = (Inr (fst (commit_current p cs)), snd (commit_current p cs))"
proof (cases "pc_kind p")
  case KindRejected
  with assms show ?thesis by (simp add: commit_def prepared_from_def split: prod.splits)
next
  case (KindAccepted rv sq)
  have "checked_next (st_revision cs) = Inr rv" "advance_sequence (pc_events p) (st_sequence cs) = Some sq"
    using assms KindAccepted
    by (simp_all add: checked_simps advance_sequence_Some prepared_wf_def prepared_from_def)
  with assms KindAccepted show ?thesis by (simp add: commit_def prepared_from_def split: prod.splits)
qed

lemma prepared_mutation_accepted:
  assumes "pc_kind (prepared_mutation cs cid key m) = KindAccepted rv sq"
  shows "\<exists>result. m (st_state cs) [] =
      (Inr result, pc_draft (prepared_mutation cs cid key m),
       map dev_payload (pc_events (prepared_mutation cs cid key m)))
    \<and> pc_receipt (prepared_mutation cs cid key m)
        = ReceiptAccepted cid \<lparr>acc_revision = rv, acc_result = result\<rparr>"
  using assms
  by (auto simp: prepared_mutation_def prepared_rejection_def
      split: prod.splits sum.splits option.splits dest: number_events_Some)

lemma prepare_command_accepted:
  assumes "prepare_command prepare env now cs = Prepared p" "pc_kind p = KindAccepted rv sq"
  shows "\<exists>m result. prepare (st_state cs) (env_command env) = Inr m
    \<and> m (st_state cs) [] = (Inr result, pc_draft p, map dev_payload (pc_events p))
    \<and> pc_receipt p = ReceiptAccepted (env_id env) \<lparr>acc_revision = rv, acc_result = result\<rparr>"
  using assms prepared_mutation_accepted [of cs "env_id env" "env_key env" _ rv sq]
  by (auto simp: prepare_command_def prepared_rejection_def
      split: option.splits sum.splits if_splits)

section \<open>Atomic application\<close>

lemma apply_command_eq:
  "apply_command prepare env now cs =
     (case st_receipts cs (env_key env) of
        Some r \<Rightarrow> (\<lparr>out_receipt = r, out_events = [], out_replayed = True\<rparr>, cs)
      | None \<Rightarrow> (case prepare_command prepare env now cs of
            Prepared p \<Rightarrow> commit_current p cs | Replayed out \<Rightarrow> (out, cs)))"
  by (auto simp: apply_command_def prepare_command_def split: option.splits)

text \<open>C7: An application that is not a replay either commits everything together (the draft, the
  next revision, and the emitted payloads as events numbered without gaps from the current
  sequence) or, on rejection, changes nothing but the recorded receipt.\<close>

theorem apply_command_atomic:
  assumes "apply_command prepare env now cs = (out, cs')" and "\<not> out_replayed out"
  shows "(\<exists>cid a m. out_receipt out = ReceiptAccepted cid a
      \<and> unat (st_revision cs') = Suc (unat (st_revision cs)) \<and> acc_revision a = st_revision cs'
      \<and> prepare (st_state cs) (env_command env) = Inr m
      \<and> m (st_state cs) [] = (Inr (acc_result a), st_state cs', map dev_payload (out_events out))
      \<and> contiguous (unat (st_sequence cs)) (out_events out)
      \<and> unat (st_sequence cs') = unat (st_sequence cs) + length (out_events out))
    \<or> (\<exists>cid r. out_receipt out = ReceiptRejected cid r \<and> out_events out = []
      \<and> cs' = cs\<lparr>st_receipts := (st_receipts cs)(env_key env \<mapsto> out_receipt out)\<rparr>)"
proof -
  obtain p where p: "prepare_command prepare env now cs = Prepared p" and c: "commit_current p cs = (out, cs')"
    using assms by (auto simp: apply_command_eq prepare_command_Replayed
        split: option.splits prepare_outcome.splits)
  note wf = prepare_command_Prepared [OF p]
  show ?thesis
  proof (cases "pc_kind p")
    case KindRejected
    with wf c show ?thesis by (auto simp: prepared_wf_def commit_current_def)
  next
    case (KindAccepted rv sq)
    then obtain m result where m: "prepare (st_state cs) (env_command env) = Inr m"
        "m (st_state cs) [] = (Inr result, pc_draft p, map dev_payload (pc_events p))"
        "pc_receipt p = ReceiptAccepted (env_id env) \<lparr>acc_revision = rv, acc_result = result\<rparr>"
      using prepare_command_accepted [OF p] by blast
    have "unat rv = Suc (unat (st_revision cs))" "contiguous (unat (st_sequence cs)) (pc_events p)"
        "unat sq = unat (st_sequence cs) + length (pc_events p)"
      using wf(1,2) KindAccepted by (auto simp: prepared_wf_def prepared_from_def)
    with m c KindAccepted show ?thesis by (auto simp: commit_current_def)
  qed
qed

text \<open>A small command language for evaluating the machine on concrete inputs: the state is a
  total, a zero command is rejected, any other is added and emitted.\<close>

definition demo_prepare :: "nat \<Rightarrow> nat \<Rightarrow> rejection + (nat, nat, nat) mutation" where
  "demo_prepare s c =
     (if c = 0 then Inl (rejection_new InvalidCommand ''zero'')
      else Inr (\<lambda>t evs. (Inr (t + c), t + c, evs @ [c])))"

definition demo_state :: "(nat, nat) command_state" where
  "demo_state = command_state_new 10 1"

lemmas demo_eval = apply_command_def prepare_command_def prepared_mutation_def prepared_rejection_def
  commit_current_def demo_prepare_def demo_state_def command_state_new_def envelope_new_def
  checked_next_def checked_add_def rejection_new_def commit_def envelope_expecting_def
  rejection_set_retryable_def is_exceeded_at_def envelope_with_deadline_def Let_def

lemma demo_apply:
  "apply_command demo_prepare (envelope_new ''a'' ''k'' 5) 0 demo_state =
     (\<lparr>out_receipt = ReceiptAccepted ''a'' \<lparr>acc_revision = 1, acc_result = 15\<rparr>,
       out_events = [\<lparr>dev_epoch = 1, dev_sequence = 1, dev_revision = 1, dev_payload = 5\<rparr>],
       out_replayed = False\<rparr>,
      \<lparr>st_state = 15, st_epoch = 1, st_revision = 1, st_sequence = 1,
       st_receipts = [''k'' \<mapsto> ReceiptAccepted ''a'' \<lparr>acc_revision = 1, acc_result = 15\<rparr>]\<rparr>)"
  by (simp add: demo_eval)

theorem apply_command_atomic_witness:
  "\<exists>out cs'. apply_command demo_prepare (envelope_new ''a'' ''k'' 5) 0 demo_state = (out, cs') \<and>
    ((\<exists>cid a m. out_receipt out = ReceiptAccepted cid a
      \<and> unat (st_revision cs') = Suc (unat (st_revision demo_state)) \<and> acc_revision a = st_revision cs'
      \<and> demo_prepare (st_state demo_state) 5 = Inr m
      \<and> m (st_state demo_state) [] = (Inr (acc_result a), st_state cs', map dev_payload (out_events out))
      \<and> contiguous (unat (st_sequence demo_state)) (out_events out)
      \<and> unat (st_sequence cs') = unat (st_sequence demo_state) + length (out_events out))
    \<or> (\<exists>cid r. out_receipt out = ReceiptRejected cid r \<and> out_events out = []
      \<and> cs' = demo_state\<lparr>st_receipts := (st_receipts demo_state)(''k'' \<mapsto> out_receipt out)\<rparr>))"
  using apply_command_atomic [OF demo_apply] demo_apply by (auto simp: envelope_new_def)

text \<open>C9: Preparing a command and committing it against the unchanged state succeeds, and has
  the outcome and the effect of applying the command in one step.\<close>

theorem prepare_commit_is_apply:
  assumes "prepare_command prepare env now cs = Prepared p"
  shows "commit p cs = (Inr (fst (apply_command prepare env now cs)),
                        snd (apply_command prepare env now cs))"
  using assms prepare_command_Prepared [OF assms] by (simp add: apply_command_def commit_prepared)

theorem prepare_commit_is_apply_witness:
  "\<exists>p. commit p demo_state =
     (Inr (fst (apply_command demo_prepare (envelope_new ''a'' ''k'' 5) 0 demo_state)),
      snd (apply_command demo_prepare (envelope_new ''a'' ''k'' 5) 0 demo_state))"
proof -
  obtain p where "prepare_command demo_prepare (envelope_new ''a'' ''k'' 5) 0 demo_state = Prepared p"
    by (simp add: demo_eval)
  then show ?thesis using prepare_commit_is_apply by blast
qed

section \<open>Idempotency\<close>

text \<open>The contract of a receiver that remembers the reply it gave for a key.\<close>

locale idempotent_receiver =
  fixes submit :: "'q \<Rightarrow> 's \<Rightarrow> 'o \<times> 's"
    and key_of :: "'q \<Rightarrow> 'k"
    and receipt_of :: "'s \<Rightarrow> 'k \<Rightarrow> 'r option"
    and reply :: "'o \<Rightarrow> 'r"
  assumes recorded: "receipt_of (snd (submit q s)) (key_of q) = Some (reply (fst (submit q s)))"
    and kept: "receipt_of s k = Some r \<Longrightarrow> receipt_of (snd (submit q s)) k = Some r"
    and replay: "receipt_of s (key_of q) = Some r \<Longrightarrow> snd (submit q s) = s \<and> reply (fst (submit q s)) = r"
begin

lemma run_kept:
  "receipt_of s k = Some r \<Longrightarrow> receipt_of (fold (\<lambda>q s. snd (submit q s)) qs s) k = Some r"
  by (induction qs arbitrary: s) (auto intro: kept)

lemma resubmit:
  assumes "key_of q' = key_of q" "s' = fold (\<lambda>q s. snd (submit q s)) qs (snd (submit q s))"
  shows "reply (fst (submit q' s')) = reply (fst (submit q s)) \<and> snd (submit q' s') = s'"
  using run_kept [OF recorded [of q s], of qs] replay assms by metis

end

interpretation machine: idempotent_receiver
  "\<lambda>(env, now). apply_command prepare env now" "\<lambda>(env, now). env_key env" st_receipts out_receipt
  for prepare
proof unfold_locales
  show "st_receipts (snd ((\<lambda>(env, now). apply_command prepare env now) q s)) ((\<lambda>(env, now). env_key env) q)
      = Some (out_receipt (fst ((\<lambda>(env, now). apply_command prepare env now) q s)))" for q s
    by (cases q) (auto simp: apply_command_eq commit_current_def Let_def prepare_command_Replayed
        dest: prepare_command_Prepared(3) split: option.splits prepare_outcome.splits prepared_kind.splits)
  show "st_receipts s k = Some r \<Longrightarrow>
      st_receipts (snd ((\<lambda>(env, now). apply_command prepare env now) q s)) k = Some r" for s k r q
    by (cases q) (auto simp: apply_command_eq commit_current_def Let_def prepare_command_Replayed
        dest: prepare_command_Prepared(3) split: option.splits prepare_outcome.splits prepared_kind.splits)
  show "st_receipts s ((\<lambda>(env, now). env_key env) q) = Some r \<Longrightarrow>
      snd ((\<lambda>(env, now). apply_command prepare env now) q s) = s
      \<and> out_receipt (fst ((\<lambda>(env, now). apply_command prepare env now) q s)) = r" for s q r
    by (cases q) (auto simp: apply_command_eq)
qed

text \<open>C8: However many commands are applied in between, a second application under a key that
  was already used returns the receipt of the first, emits nothing and leaves the state as it
  is.\<close>

theorem apply_command_idempotent:
  assumes "env_key env' = env_key env"
    and "cs' = fold (\<lambda>(e, t) c. snd (apply_command prepare e t c)) later
                 (snd (apply_command prepare env now cs))"
  shows "out_receipt (fst (apply_command prepare env' now' cs'))
      = out_receipt (fst (apply_command prepare env now cs))
    \<and> out_events (fst (apply_command prepare env' now' cs')) = []
    \<and> snd (apply_command prepare env' now' cs') = cs'"
proof -
  have run: "cs' = fold (\<lambda>q c. snd ((\<lambda>(e, t). apply_command prepare e t) q c)) later
      (snd ((\<lambda>(e, t). apply_command prepare e t) (env, now) cs))"
    using assms(2) by (simp add: case_prod_beta')
  have r: "st_receipts cs' (env_key env') = Some (out_receipt (fst (apply_command prepare env now cs)))"
    using machine.run_kept [OF machine.recorded [of prepare "(env, now)" cs], where qs = later] run assms(1)
    by simp
  then show ?thesis by (simp add: apply_command_eq)
qed

theorem apply_command_idempotent_witness:
  "let cs' = fold (\<lambda>(e, t) c. snd (apply_command demo_prepare e t c)) [(envelope_new ''b'' ''l'' 7, 1)]
               (snd (apply_command demo_prepare (envelope_new ''a'' ''k'' 5) 0 demo_state))
   in out_receipt (fst (apply_command demo_prepare (envelope_new ''a2'' ''k'' 9) 2 cs'))
        = out_receipt (fst (apply_command demo_prepare (envelope_new ''a'' ''k'' 5) 0 demo_state))
      \<and> out_events (fst (apply_command demo_prepare (envelope_new ''a2'' ''k'' 9) 2 cs')) = []
      \<and> snd (apply_command demo_prepare (envelope_new ''a2'' ''k'' 9) 2 cs') = cs'"
  unfolding Let_def by (rule apply_command_idempotent [OF _ refl]) (simp add: envelope_new_def)

section \<open>Interleaved prepares and commits\<close>

text \<open>
  Several prepared decisions can be outstanding while others commit. A session is the machine,
  the prepared values not yet consumed and the log of every event that a commit handed out; a
  step prepares a command, commits or aborts an outstanding value, or applies a command in one
  step.
\<close>

record ('s, 'r, 'e) session =
  ses_machine :: "('s, 'r) command_state"
  ses_pending :: "('s, 'r, 'e) prepared_commit list"
  ses_log :: "'e durable_event list"

inductive session_step ::
  "('s \<Rightarrow> 'c \<Rightarrow> rejection + ('s, 'e, 'r) mutation) \<Rightarrow> ('s, 'r, 'e) session \<Rightarrow> ('s, 'r, 'e) session \<Rightarrow> bool"
  for prepare where
  prepare: "prepare_command prepare env now (ses_machine s) = Prepared p \<Longrightarrow>
    session_step prepare s (s\<lparr>ses_pending := p # ses_pending s\<rparr>)"
| commit: "p \<in> set (ses_pending s) \<Longrightarrow> commit p (ses_machine s) = (Inr out, cs') \<Longrightarrow>
    session_step prepare s (s\<lparr>ses_machine := cs', ses_pending := remove1 p (ses_pending s),
                              ses_log := ses_log s @ out_events out\<rparr>)"
| refuse: "p \<in> set (ses_pending s) \<Longrightarrow> commit p (ses_machine s) = (Inl e, cs') \<Longrightarrow>
    session_step prepare s (s\<lparr>ses_machine := cs', ses_pending := remove1 p (ses_pending s)\<rparr>)"
| abort: "p \<in> set (ses_pending s) \<Longrightarrow>
    session_step prepare s (s\<lparr>ses_pending := remove1 p (ses_pending s)\<rparr>)"
| apply_now: "apply_command prepare env now (ses_machine s) = (out, cs') \<Longrightarrow>
    session_step prepare s (s\<lparr>ses_machine := cs', ses_log := ses_log s @ out_events out\<rparr>)"

definition session_start :: "'s \<Rightarrow> state_epoch \<Rightarrow> ('s, 'r, 'e) session" where
  "session_start st ep = \<lparr>ses_machine = command_state_new st ep, ses_pending = [], ses_log = []\<rparr>"

inductive session_reachable ::
  "('s \<Rightarrow> 'c \<Rightarrow> rejection + ('s, 'e, 'r) mutation) \<Rightarrow> ('s, 'r, 'e) session \<Rightarrow> bool"
  for prepare where
  start: "session_reachable prepare (session_start st ep)"
| step: "session_reachable prepare s \<Longrightarrow> session_step prepare s t \<Longrightarrow> session_reachable prepare t"

definition accepted_keys :: "('s, 'r) command_state \<Rightarrow> idempotency_key set" where
  "accepted_keys cs = {k. \<exists>cid a. st_receipts cs k = Some (ReceiptAccepted cid a)}"

definition accepted_revision :: "('s, 'r) command_state \<Rightarrow> idempotency_key \<Rightarrow> nat" where
  "accepted_revision cs k =
     (case st_receipts cs k of Some (ReceiptAccepted _ a) \<Rightarrow> unat (acc_revision a) | _ \<Rightarrow> 0)"

definition machine_inv :: "('s, 'r) command_state \<Rightarrow> 'e durable_event list \<Rightarrow> bool" where
  "machine_inv cs log \<longleftrightarrow>
     contiguous 0 log \<and> unat (st_sequence cs) = length log
     \<and> sorted (map (unat \<circ> dev_revision) log)
     \<and> (\<forall>ev\<in>set log. unat (dev_revision ev) \<le> unat (st_revision cs))
     \<and> bij_betw (accepted_revision cs) (accepted_keys cs) {1..unat (st_revision cs)}"

lemma machine_inv_new: "machine_inv (command_state_new st ep) []"
  by (simp add: machine_inv_def command_state_new_def accepted_keys_def bij_betw_def)

lemma machine_inv_commit_current:
  assumes inv: "machine_inv cs log" and wf: "prepared_wf p" and base: "prepared_from cs p"
    and new: "st_receipts cs (pc_key p) = None" and c: "commit_current p cs = (out, cs')"
  shows "machine_inv cs' (log @ out_events out)"
proof (cases "pc_kind p")
  case KindRejected
  with wf obtain cid r where r: "pc_receipt p = ReceiptRejected cid r" "pc_events p = []"
    by (auto simp: prepared_wf_def)
  have keys: "accepted_keys cs' = accepted_keys cs"
    using c KindRejected r new by (auto simp: commit_current_def accepted_keys_def split: if_splits)
  have "accepted_revision cs' k = accepted_revision cs k" if "k \<in> accepted_keys cs" for k
    using that c KindRejected new by (auto simp: commit_current_def accepted_keys_def accepted_revision_def)
  then have "bij_betw (accepted_revision cs') (accepted_keys cs) {1..unat (st_revision cs)}"
    using inv unfolding machine_inv_def by (metis (no_types, lifting) bij_betw_cong)
  then show ?thesis using inv c KindRejected r keys by (auto simp: machine_inv_def commit_current_def)
next
  case (KindAccepted rv sq)
  with wf obtain cid a where a: "pc_receipt p = ReceiptAccepted cid a" "acc_revision a = rv"
    by (auto simp: prepared_wf_def)
  have n: "unat rv = Suc (unat (st_revision cs))" "unat sq = unat (st_sequence cs) + length (pc_events p)"
      "contiguous (unat (st_sequence cs)) (pc_events p)" "\<forall>ev\<in>set (pc_events p). dev_revision ev = rv"
    using wf base KindAccepted by (auto simp: prepared_wf_def prepared_from_def)
  have cs': "cs' = cs\<lparr>st_state := pc_draft p, st_revision := rv, st_sequence := sq,
      st_receipts := (st_receipts cs)(pc_key p \<mapsto> pc_receipt p)\<rparr>" and out: "out_events out = pc_events p"
    using c KindAccepted by (auto simp: commit_current_def)
  have fresh: "pc_key p \<notin> accepted_keys cs" using new by (auto simp: accepted_keys_def)
  have keys: "accepted_keys cs' = insert (pc_key p) (accepted_keys cs)"
    using cs' a by (auto simp: accepted_keys_def)
  have eq: "accepted_revision cs' k = accepted_revision cs k" if "k \<in> accepted_keys cs" for k
    using that cs' fresh by (auto simp: accepted_revision_def)
  have "bij_betw (accepted_revision cs') (accepted_keys cs) {1..unat (st_revision cs)}"
    using inv eq unfolding machine_inv_def by (metis (no_types, lifting) bij_betw_cong)
  moreover have at: "accepted_revision cs' (pc_key p) = Suc (unat (st_revision cs))"
    using cs' a n by (simp add: accepted_revision_def)
  ultimately have "bij_betw (accepted_revision cs') (accepted_keys cs \<union> {pc_key p})
      ({1..unat (st_revision cs)} \<union> {Suc (unat (st_revision cs))})"
    using notIn_Un_bij_betw [OF fresh, of "accepted_revision cs'"] at by simp
  moreover have "{1..unat (st_revision cs)} \<union> {Suc (unat (st_revision cs))} = {1..unat rv}"
    using n by auto
  ultimately have "bij_betw (accepted_revision cs') (accepted_keys cs') {1..unat rv}" using keys by simp
  moreover have "map (unat \<circ> dev_revision) (pc_events p) = replicate (length (pc_events p)) (unat rv)"
    using n(4) by (simp flip: map_replicate_const)
  then have "sorted (map (unat \<circ> dev_revision) (log @ pc_events p))"
    using inv n by (auto simp: machine_inv_def sorted_append)
  moreover have "\<forall>ev\<in>set (log @ pc_events p). unat (dev_revision ev) \<le> unat rv"
    using inv n by (auto simp: machine_inv_def)
  ultimately show ?thesis using inv n cs' out by (simp add: machine_inv_def)
qed

definition session_inv :: "('s, 'r, 'e) session \<Rightarrow> bool" where
  "session_inv s \<longleftrightarrow> machine_inv (ses_machine s) (ses_log s) \<and> (\<forall>p\<in>set (ses_pending s). prepared_wf p)"

lemma commit_Inr_cases:
  assumes "commit p cs = (Inr out, cs')"
  obtains (replayed) r where "st_receipts cs (pc_key p) = Some r" "out_events out = []" "cs' = cs"
    | (committed) "st_receipts cs (pc_key p) = None" "prepared_from cs p" "commit_current p cs = (out, cs')"
  using assms
  by (auto simp: commit_def prepared_from_def split: option.splits if_splits prod.splits)

lemma commit_Inl_unchanged: "commit p cs = (Inl e, cs') \<Longrightarrow> cs' = cs"
  by (auto simp: commit_def split: option.splits if_splits prod.splits)

lemma apply_command_cases:
  assumes "apply_command prepare env now cs = (out, cs')"
  obtains (replayed) r where "st_receipts cs (env_key env) = Some r" "out_events out = []" "cs' = cs"
    | (committed) p where "prepare_command prepare env now cs = Prepared p" "commit_current p cs = (out, cs')"
  using assms
  by (auto simp: apply_command_eq prepare_command_Replayed split: option.splits prepare_outcome.splits)

lemma session_step_inv: "session_step prepare s t \<Longrightarrow> session_inv s \<Longrightarrow> session_inv t"
proof (induction rule: session_step.induct)
  case (prepare env now s p)
  then show ?case by (auto simp: session_inv_def dest: prepare_command_Prepared)
next
  case (commit p s out cs')
  then have wf: "prepared_wf p" "machine_inv (ses_machine s) (ses_log s)" by (auto simp: session_inv_def)
  from commit(2) have "machine_inv cs' (ses_log s @ out_events out)"
    by (cases rule: commit_Inr_cases) (use wf machine_inv_commit_current in auto)
  with commit(3) show ?case by (auto simp: session_inv_def dest: set_remove1_subset [THEN subsetD])
next
  case (refuse p s e cs')
  then show ?case
    by (auto simp: session_inv_def dest: commit_Inl_unchanged set_remove1_subset [THEN subsetD])
next
  case (abort p s)
  then show ?case by (auto simp: session_inv_def dest: set_remove1_subset [THEN subsetD])
next
  case (apply_now env now s out cs')
  then have inv: "machine_inv (ses_machine s) (ses_log s)" by (simp add: session_inv_def)
  from apply_now(1) have "machine_inv cs' (ses_log s @ out_events out)"
  proof (cases rule: apply_command_cases)
    case (committed p)
    with prepare_command_Prepared [OF committed(1)] inv show ?thesis
      by (metis machine_inv_commit_current)
  qed (use inv in simp)
  with apply_now show ?case by (simp add: session_inv_def)
qed

lemma session_reachable_inv: "session_reachable prepare s \<Longrightarrow> session_inv s"
proof (induction rule: session_reachable.induct)
  case (start st ep)
  then show ?case by (simp add: session_inv_def session_start_def machine_inv_new)
next
  case (step s t)
  then show ?case by (blast intro: session_step_inv)
qed

text \<open>C10: In every interleaving of prepares, commits, aborts and direct applications the emitted
  events are numbered one, two, three and so on in the order they were handed out, with
  revisions that never decrease, and the accepted receipts are in one-to-one correspondence with
  the revisions up to the current one.\<close>

theorem interleaved_log_is_linear:
  assumes "session_reachable prepare s"
  shows "(\<forall>i<length (ses_log s). unat (dev_sequence (ses_log s ! i)) = Suc i)
    \<and> unat (st_sequence (ses_machine s)) = length (ses_log s)
    \<and> sorted (map (unat \<circ> dev_revision) (ses_log s))
    \<and> bij_betw (accepted_revision (ses_machine s)) (accepted_keys (ses_machine s))
        {1..unat (st_revision (ses_machine s))}"
  using session_reachable_inv [OF assms] contiguous_nth [of 0 "ses_log s"]
  by (auto simp: session_inv_def machine_inv_def)

lemma demo_session:
  "\<exists>s. session_reachable demo_prepare s \<and> length (ses_log s) = 1"
proof -
  obtain out cs' where a: "apply_command demo_prepare (envelope_new ''a'' ''k'' 5) 0
      (ses_machine (session_start 10 1 :: (nat, nat, nat) session)) = (out, cs')" "length (out_events out) = 1"
    using demo_apply by (simp add: session_start_def demo_state_def)
  from session_reachable.step [OF session_reachable.start session_step.apply_now [OF a(1)]] a(2)
  show ?thesis by (intro exI conjI) (assumption, simp add: session_start_def)
qed

theorem interleaved_log_is_linear_witness:
  "\<exists>s :: (nat, nat, nat) session. length (ses_log s) = 1
    \<and> (\<forall>i<length (ses_log s). unat (dev_sequence (ses_log s ! i)) = Suc i)
    \<and> unat (st_sequence (ses_machine s)) = length (ses_log s)
    \<and> sorted (map (unat \<circ> dev_revision) (ses_log s))
    \<and> bij_betw (accepted_revision (ses_machine s)) (accepted_keys (ses_machine s))
        {1..unat (st_revision (ses_machine s))}"
  using demo_session interleaved_log_is_linear [of demo_prepare] by blast

text \<open>Of two decisions prepared against the same state under different keys, once an
  accepted one is committed the other is refused as stale and the refusal changes nothing.\<close>

theorem stale_commit_refused:
  assumes "prepare_command prepare env now cs = Prepared p"
    and "prepare_command prepare env2 now2 cs = Prepared p2"
    and "env_key env \<noteq> env_key env2" and "pc_kind p = KindAccepted rv sq"
    and "commit p cs = (Inr out, cs')"
  shows "commit p2 cs' = (Inl (StaleAuthority (st_revision cs) rv (st_sequence cs) sq), cs')"
proof -
  note wf = prepare_command_Prepared [OF assms(1)] and wf2 = prepare_command_Prepared [OF assms(2)]
  have "commit_current p cs = (out, cs')" using assms(5) commit_prepared [OF wf(1,2)] wf by (auto simp: prod_eq_iff)
  then have cs': "cs' = cs\<lparr>st_state := pc_draft p, st_revision := rv, st_sequence := sq,
      st_receipts := (st_receipts cs)(pc_key p \<mapsto> pc_receipt p)\<rparr>"
    using assms(4) by (auto simp: commit_current_def)
  have "rv \<noteq> st_revision cs"
    using wf(1,2) assms(4) by (auto simp: prepared_wf_def prepared_from_def)
  moreover have "st_receipts cs' (pc_key p2) = None" using cs' wf wf2 assms(3) by simp
  ultimately show ?thesis using wf2(2) cs' by (auto simp: commit_def prepared_from_def)
qed

theorem stale_commit_refused_witness:
  "\<exists>(p2 :: (nat, nat, nat) prepared_commit) cs'. commit p2 cs' = (Inl (StaleAuthority (st_revision demo_state) 1 (st_sequence demo_state) 1), cs')"
proof -
  obtain p where p: "prepare_command demo_prepare (envelope_new ''a'' ''k'' 5) 0 demo_state = Prepared p"
      "pc_kind p = KindAccepted 1 1"
    by (simp add: demo_eval)
  obtain p2 where p2: "prepare_command demo_prepare (envelope_new ''b'' ''l'' 6) 0 demo_state = Prepared p2"
    by (simp add: demo_eval)
  obtain out cs' where "commit p demo_state = (Inr out, cs')"
    using prepare_command_Prepared [OF p(1)] commit_prepared [of p demo_state] by auto
  from stale_commit_refused [OF p(1) p2 _ p(2) this] show ?thesis
    by (auto simp: envelope_new_def)
qed

section \<open>Transactions are all or nothing\<close>

lemma transaction_collect_eq:
  "length acc \<le> MAX_TRANSACTION_COMMANDS \<Longrightarrow>
   transaction_collect acc cs =
     (if length acc + length cs \<le> MAX_TRANSACTION_COMMANDS then Inr (acc @ cs)
      else Inl (TooManyCommands MAX_TRANSACTION_COMMANDS))"
  by (induction acc cs rule: transaction_collect.induct) auto

lemma transaction_new_eq:
  "transaction_new cs =
     (if length cs > MAX_TRANSACTION_COMMANDS then Inl (TooManyCommands MAX_TRANSACTION_COMMANDS)
      else if cs = [] then Inl TransactionEmpty else Inr cs)"
  by (auto simp: transaction_new_def transaction_collect_eq)

lemma run_transaction_append:
  "run_transaction prepare (xs @ ys) rs s evs =
     (case run_transaction prepare xs rs s evs of
        (Inr rs', s', evs') \<Rightarrow> run_transaction prepare ys rs' s' evs'
      | (Inl e, s', evs') \<Rightarrow> (Inl e, s', evs'))"
  by (induction prepare xs rs s evs rule: run_transaction.induct)
     (auto split: sum.splits prod.splits)

lemma run_transaction_results:
  "run_transaction prepare xs rs s evs = (Inr rs', s', evs') \<Longrightarrow> length rs' = length rs + length xs"
  by (induction prepare xs rs s evs rule: run_transaction.induct)
     (auto split: sum.splits prod.splits)

text \<open>C11: If some command of a transaction is rejected against the draft left by the commands
  before it, the whole transaction is rejected with that rejection: the state, the revision
  and the event sequence stay as they were and no event is emitted.\<close>

theorem transaction_all_or_nothing:
  assumes new: "transaction_new (xs @ c # ys) = Inr tx"
    and env: "env_command env = tx" "env_expected env = None" "env_deadline env = None"
      "st_receipts cs (env_key env) = None"
    and before: "run_transaction prepare xs [] (st_state cs) [] = (Inr rs, s', evs')"
    and rejects: "prepare s' c = Inl rej \<or> (\<exists>m s'' evs''. prepare s' c = Inr m \<and> m s' evs' = (Inl rej, s'', evs''))"
    and p: "prepare_transaction prepare env now cs = Prepared p"
  shows "\<exists>out. commit p cs =
    (Inr out, cs\<lparr>st_receipts := (st_receipts cs)(env_key env \<mapsto> out_receipt out)\<rparr>)
    \<and> out_events out = []
    \<and> out_receipt out = ReceiptRejected (env_id env) \<lparr>rejd_rejection = rej, rejd_current_revision = st_revision cs\<rparr>"
proof -
  have tx: "tx = xs @ c # ys" using new by (auto simp: transaction_new_eq split: if_splits)
  have "\<exists>s'' evs''. run_transaction prepare tx [] (st_state cs) [] = (Inl rej, s'', evs'')"
    using before rejects by (auto simp: tx run_transaction_append)
  then have "p = prepared_rejection cs (env_id env) (env_key env) rej"
    using p env by (auto simp: prepare_transaction_def prepare_command_def prepared_mutation_def)
  moreover from this have "commit p cs = (Inr (fst (commit_current p cs)), snd (commit_current p cs))"
    using env(4) by (intro commit_prepared) (simp_all add: prepared_rejection_wf)
  ultimately show ?thesis by (auto simp: commit_current_def prepared_rejection_def)
qed

definition demo_tx_state :: "(nat, nat list) command_state" where
  "demo_tx_state = command_state_new 10 1"

theorem transaction_all_or_nothing_witness:
  "\<exists>(p :: (nat, nat list, nat) prepared_commit) out. commit p demo_tx_state =
     (Inr out, demo_tx_state\<lparr>st_receipts := (st_receipts demo_tx_state)(''k'' \<mapsto> out_receipt out)\<rparr>)
    \<and> out_events out = []
    \<and> out_receipt out = ReceiptRejected ''t''
        \<lparr>rejd_rejection = rejection_new InvalidCommand ''zero'', rejd_current_revision = 0\<rparr>"
proof -
  let ?env = "envelope_new ''t'' ''k'' [3, 0, 4 :: nat]"
  obtain p where p: "prepare_transaction demo_prepare ?env 0 demo_tx_state = Prepared p"
    by (simp add: prepare_transaction_def demo_eval demo_tx_state_def)
  have "transaction_new ([3] @ 0 # [4 :: nat]) = Inr [3, 0, 4]"
    by (simp add: transaction_new_eq MAX_TRANSACTION_COMMANDS_def)
  moreover have "run_transaction demo_prepare [3] [] (st_state demo_tx_state) [] = (Inr [13], 13, [3])"
    by (simp add: demo_prepare_def demo_tx_state_def command_state_new_def)
  ultimately show ?thesis
    using transaction_all_or_nothing [of "[3]" 0 "[4]" "[3, 0, 4]" ?env demo_tx_state demo_prepare
        "[13]" 13 "[3]" "rejection_new InvalidCommand ''zero''" 0 p] p
    by (auto simp: envelope_new_def demo_tx_state_def command_state_new_def demo_prepare_def)
qed

end
