(* ===== verification/Lifecycle.thy ===== *)
theory Lifecycle
  imports Command "HOL-Library.AList"
begin

text \<open>
  The crate \<open>crates/foundation/fm-command\<close>, runtime half (\<open>lifecycle.rs\<close>): what happens to a
  revision after it was accepted. The set of scheduled clock domains is a set, the map of
  realized domains an association list with distinct keys, whose length is the map's size.
\<close>

type_synonym runtime_generation = u64
type_synonym runtime_sequence = u64

datatype failure_disposition = RolledBack | RetainedForRetry | FallbackRealized

datatype lifecycle_phase =
    PhaseAccepted | PhasePreparing | PhaseScheduled | PhaseRealized | PhaseFailed | PhaseSuperseded

definition is_terminal :: "lifecycle_phase \<Rightarrow> bool" where
  "is_terminal ph \<longleftrightarrow> ph = PhaseRealized \<or> ph = PhaseFailed \<or> ph = PhaseSuperseded"

record 'd scheduled_domain =
  sd_domain :: 'd
  sd_boundary :: u64

datatype ('d, 'f) lifecycle_event =
    EvAccepted
  | EvPreparing
  | EvScheduled "'d scheduled_domain list"
  | EvRealized 'd runtime_generation
  | EvFailed 'f failure_disposition
  | EvSuperseded revision

record ('d, 'f) lifecycle_record =
  lr_revision :: revision
  lr_sequence :: runtime_sequence
  lr_event :: "('d, 'f) lifecycle_event"

datatype lifecycle_error =
    InvalidTransition lifecycle_phase lifecycle_phase
  | EmptySchedule
  | DuplicateDomain
  | UnknownDomain
  | DomainAlreadyRealized
  | InvalidSupersedingRevision
  | LifecycleSequenceExhausted

record ('d, 'f) lifecycle =
  lc_revision :: revision
  lc_phase :: lifecycle_phase
  lc_sequence :: runtime_sequence
  lc_scheduled :: "'d set"
  lc_realized :: "('d \<times> runtime_generation) list"
  lc_records :: "('d, 'f) lifecycle_record list"

definition lifecycle_new :: "revision \<Rightarrow> ('d, 'f) lifecycle" where
  "lifecycle_new r =
     \<lparr>lc_revision = r, lc_phase = PhaseAccepted, lc_sequence = 1, lc_scheduled = {}, lc_realized = [],
      lc_records = [\<lparr>lr_revision = r, lr_sequence = 1, lr_event = EvAccepted\<rparr>]\<rparr>"

definition require_transition ::
  "lifecycle_phase \<Rightarrow> lifecycle_phase list \<Rightarrow> ('d, 'f) lifecycle \<Rightarrow> lifecycle_error + unit" where
  "require_transition target allowed lc =
     (if lc_phase lc \<in> set allowed then Inr () else Inl (InvalidTransition (lc_phase lc) target))"

definition lifecycle_push ::
  "('d, 'f) lifecycle_event \<Rightarrow> (lifecycle_error, unit, ('d, 'f) lifecycle) meth" where
  "lifecycle_push ev lc =
     (case checked_next (lc_sequence lc) of
        Inl _ \<Rightarrow> (Inl LifecycleSequenceExhausted, lc)
      | Inr sq \<Rightarrow>
          (Inr (), lc\<lparr>lc_sequence := sq,
                     lc_records := lc_records lc
                       @ [\<lparr>lr_revision = lc_revision lc, lr_sequence = sq, lr_event = ev\<rparr>]\<rparr>))"

definition begin_preparing :: "(lifecycle_error, unit, ('d, 'f) lifecycle) meth" where
  "begin_preparing lc =
     (case require_transition PhasePreparing [PhaseAccepted] lc of
        Inl e \<Rightarrow> (Inl e, lc)
      | Inr _ \<Rightarrow>
          (case lifecycle_push EvPreparing lc of
             (Inl e, lc') \<Rightarrow> (Inl e, lc')
           | (Inr _, lc') \<Rightarrow> (Inr (), lc'\<lparr>lc_phase := PhasePreparing\<rparr>)))"

definition lifecycle_schedule ::
  "'d scheduled_domain list \<Rightarrow> (lifecycle_error, unit, ('d, 'f) lifecycle) meth" where
  "lifecycle_schedule domains lc =
     (case require_transition PhaseScheduled [PhasePreparing] lc of
        Inl e \<Rightarrow> (Inl e, lc)
      | Inr _ \<Rightarrow>
          if domains = [] then (Inl EmptySchedule, lc)
          else let scheduled = set (map sd_domain domains) in
            if card scheduled \<noteq> length domains then (Inl DuplicateDomain, lc)
            else case lifecycle_push (EvScheduled domains) lc of
                (Inl e, lc') \<Rightarrow> (Inl e, lc')
              | (Inr _, lc') \<Rightarrow> (Inr (), lc'\<lparr>lc_scheduled := scheduled, lc_phase := PhaseScheduled\<rparr>))"

definition lifecycle_realize ::
  "'d \<Rightarrow> runtime_generation \<Rightarrow> (lifecycle_error, unit, ('d, 'f) lifecycle) meth" where
  "lifecycle_realize d gen lc =
     (case require_transition PhaseRealized [PhaseScheduled] lc of
        Inl e \<Rightarrow> (Inl e, lc)
      | Inr _ \<Rightarrow>
          if d \<notin> lc_scheduled lc then (Inl UnknownDomain, lc)
          else if map_of (lc_realized lc) d \<noteq> None then (Inl DomainAlreadyRealized, lc)
          else case lifecycle_push (EvRealized d gen) lc of
              (Inl e, lc') \<Rightarrow> (Inl e, lc')
            | (Inr _, lc') \<Rightarrow>
                let realized = AList.update d gen (lc_realized lc');
                    lc'' = lc'\<lparr>lc_realized := realized\<rparr>
                in (Inr (), if length realized = card (lc_scheduled lc'')
                            then lc''\<lparr>lc_phase := PhaseRealized\<rparr> else lc''))"

definition lifecycle_fail ::
  "'f \<Rightarrow> failure_disposition \<Rightarrow> (lifecycle_error, unit, ('d, 'f) lifecycle) meth" where
  "lifecycle_fail failure disposition lc =
     (case require_transition PhaseFailed [PhaseAccepted, PhasePreparing, PhaseScheduled] lc of
        Inl e \<Rightarrow> (Inl e, lc)
      | Inr _ \<Rightarrow>
          (case lifecycle_push (EvFailed failure disposition) lc of
             (Inl e, lc') \<Rightarrow> (Inl e, lc')
           | (Inr _, lc') \<Rightarrow> (Inr (), lc'\<lparr>lc_phase := PhaseFailed\<rparr>)))"

definition lifecycle_supersede ::
  "revision \<Rightarrow> (lifecycle_error, unit, ('d, 'f) lifecycle) meth" where
  "lifecycle_supersede by_revision lc =
     (case require_transition PhaseSuperseded [PhaseAccepted, PhasePreparing, PhaseScheduled] lc of
        Inl e \<Rightarrow> (Inl e, lc)
      | Inr _ \<Rightarrow>
          if by_revision \<le> lc_revision lc then (Inl InvalidSupersedingRevision, lc)
          else case lifecycle_push (EvSuperseded by_revision) lc of
              (Inl e, lc') \<Rightarrow> (Inl e, lc')
            | (Inr _, lc') \<Rightarrow> (Inr (), lc'\<lparr>lc_phase := PhaseSuperseded\<rparr>))"

section \<open>Runs of the lifecycle\<close>

datatype ('d, 'f) lifecycle_op =
    CallBegin | CallSchedule "'d scheduled_domain list" | CallRealize 'd runtime_generation
  | CallFail 'f failure_disposition | CallSupersede revision

fun lifecycle_call :: "('d, 'f) lifecycle_op \<Rightarrow> (lifecycle_error, unit, ('d, 'f) lifecycle) meth" where
  "lifecycle_call CallBegin = begin_preparing"
| "lifecycle_call (CallSchedule ds) = lifecycle_schedule ds"
| "lifecycle_call (CallRealize d g) = lifecycle_realize d g"
| "lifecycle_call (CallFail f x) = lifecycle_fail f x"
| "lifecycle_call (CallSupersede r) = lifecycle_supersede r"

definition lifecycle_run :: "('d, 'f) lifecycle_op list \<Rightarrow> ('d, 'f) lifecycle \<Rightarrow> ('d, 'f) lifecycle" where
  "lifecycle_run calls lc = fold (\<lambda>c l. snd (lifecycle_call c l)) calls lc"

lemmas lifecycle_defs = begin_preparing_def lifecycle_schedule_def lifecycle_realize_def
  lifecycle_fail_def lifecycle_supersede_def require_transition_def

lemma lifecycle_push_cases:
  obtains (exhausted) "lifecycle_push ev lc = (Inl LifecycleSequenceExhausted, lc)"
  | (pushed) sq where "unat sq = Suc (unat (lc_sequence lc))"
      "lifecycle_push ev lc = (Inr (), lc\<lparr>lc_sequence := sq, lc_records := lc_records lc
         @ [\<lparr>lr_revision = lc_revision lc, lr_sequence = sq, lr_event = ev\<rparr>]\<rparr>)"
  by (cases "checked_next (lc_sequence lc)") (auto simp: lifecycle_push_def checked_simps)

lemma lifecycle_call_error:
  "fst (lifecycle_call c lc) = Inl e \<Longrightarrow> snd (lifecycle_call c lc) = lc"
  by (cases c; cases "checked_next (lc_sequence lc)")
     (auto simp: lifecycle_defs lifecycle_push_def Let_def split: if_splits)

definition numbered_records :: "('d, 'f) lifecycle \<Rightarrow> bool" where
  "numbered_records lc \<longleftrightarrow> length (lc_records lc) = unat (lc_sequence lc)
     \<and> (\<forall>i<length (lc_records lc). unat (lr_sequence (lc_records lc ! i)) = Suc i
          \<and> lr_revision (lc_records lc ! i) = lc_revision lc)"

definition domains_agree :: "('d, 'f) lifecycle \<Rightarrow> bool" where
  "domains_agree lc \<longleftrightarrow>
     finite (lc_scheduled lc) \<and> distinct (map fst (lc_realized lc))
     \<and> fst ` set (lc_realized lc) \<subseteq> lc_scheduled lc
     \<and> (lc_phase lc = PhaseAccepted \<or> lc_phase lc = PhasePreparing \<longrightarrow> lc_scheduled lc = {})
     \<and> (lc_phase lc = PhaseScheduled \<longrightarrow> fst ` set (lc_realized lc) \<noteq> lc_scheduled lc)
     \<and> (lc_phase lc = PhaseRealized \<longrightarrow> lc_scheduled lc \<noteq> {} \<and> fst ` set (lc_realized lc) = lc_scheduled lc)"

lemma numbered_push:
  "numbered_records lc \<Longrightarrow> numbered_records (snd (lifecycle_push ev lc))"
  by (cases rule: lifecycle_push_cases [of ev lc])
     (auto simp: numbered_records_def nth_append less_Suc_eq)

lemma numbered_call: "numbered_records lc \<Longrightarrow> numbered_records (snd (lifecycle_call c lc))"
proof (cases c)
  case CallBegin
  assume "numbered_records lc"
  with CallBegin numbered_push [of lc EvPreparing] show ?thesis
    by (auto simp: lifecycle_defs numbered_records_def split: prod.splits sum.splits)
next
  case (CallSchedule ds)
  assume "numbered_records lc"
  with CallSchedule numbered_push [of lc "EvScheduled ds"] show ?thesis
    by (auto simp: lifecycle_defs Let_def numbered_records_def split: prod.splits sum.splits)
next
  case (CallRealize d g)
  assume "numbered_records lc"
  with CallRealize numbered_push [of lc "EvRealized d g"] show ?thesis
    by (auto simp: lifecycle_defs Let_def numbered_records_def split: prod.splits sum.splits)
next
  case (CallFail f x)
  assume "numbered_records lc"
  with CallFail numbered_push [of lc "EvFailed f x"] show ?thesis
    by (auto simp: lifecycle_defs numbered_records_def split: prod.splits sum.splits)
next
  case (CallSupersede r)
  assume "numbered_records lc"
  with CallSupersede numbered_push [of lc "EvSuperseded r"] show ?thesis
    by (auto simp: lifecycle_defs numbered_records_def split: prod.splits sum.splits)
qed

lemma domains_agree_call: "domains_agree lc \<Longrightarrow> domains_agree (snd (lifecycle_call c lc))"
proof (cases c)
  case (CallRealize d g)
  assume inv: "domains_agree lc"
  show ?thesis
  proof (cases rule: lifecycle_push_cases [of "EvRealized d g" lc])
    case exhausted
    with CallRealize inv show ?thesis by (auto simp: lifecycle_realize_def split: sum.splits)
  next
    case (pushed sq)
    show ?thesis
    proof (cases "lc_phase lc = PhaseScheduled \<and> d \<in> lc_scheduled lc \<and> map_of (lc_realized lc) d = None")
      case True
      then have new: "d \<notin> fst ` set (lc_realized lc)" by (simp add: map_of_eq_None_iff)
      let ?r = "AList.update d g (lc_realized lc)"
      have r: "distinct (map fst ?r)" "fst ` set ?r = insert d (fst ` set (lc_realized lc))"
        using inv by (simp_all add: domains_agree_def AList.distinct_update dom_map_of_conv_image_fst [symmetric] update_conv')
      have len: "length ?r = card (fst ` set ?r)" using r(1) by (metis distinct_card length_map set_map)
      have sub: "fst ` set ?r \<subseteq> lc_scheduled lc" using r inv True by (auto simp: domains_agree_def)
      then have "length ?r = card (lc_scheduled lc) \<longleftrightarrow> fst ` set ?r = lc_scheduled lc"
        using len inv by (metis card_subset_eq domains_agree_def)
      with True CallRealize pushed inv r sub show ?thesis
        by (auto simp: lifecycle_realize_def require_transition_def Let_def domains_agree_def)
    next
      case False
      with CallRealize inv pushed show ?thesis
        by (auto simp: lifecycle_realize_def require_transition_def)
    qed
  qed
next
  case (CallSchedule ds)
  assume "domains_agree lc"
  with CallSchedule show ?thesis
    by (cases rule: lifecycle_push_cases [of "EvScheduled ds" lc])
       (auto simp: lifecycle_schedule_def require_transition_def Let_def domains_agree_def)
qed (auto simp: lifecycle_defs lifecycle_push_def domains_agree_def split: sum.splits prod.splits)

lemma revision_call [simp]: "lc_revision (snd (lifecycle_call c lc)) = lc_revision lc"
  by (cases c; cases "checked_next (lc_sequence lc)")
     (auto simp: lifecycle_defs lifecycle_push_def Let_def)

lemma lifecycle_run_simps [simp]:
  "lifecycle_run [] lc = lc"
  "lifecycle_run (c # cs) lc = lifecycle_run cs (snd (lifecycle_call c lc))"
  "lifecycle_run (cs @ ds) lc = lifecycle_run ds (lifecycle_run cs lc)"
  by (simp_all add: lifecycle_run_def)

lemma lifecycle_run_invariants:
  assumes "numbered_records lc" "domains_agree lc"
  shows "numbered_records (lifecycle_run cs lc) \<and> domains_agree (lifecycle_run cs lc)
         \<and> lc_revision (lifecycle_run cs lc) = lc_revision lc"
  using assms by (induction cs arbitrary: lc) (auto simp: numbered_call domains_agree_call)

lemma lifecycle_new_invariants: "numbered_records (lifecycle_new r)" "domains_agree (lifecycle_new r)"
  by (simp_all add: lifecycle_new_def numbered_records_def domains_agree_def)

lemma terminal_call_refused:
  assumes "is_terminal (lc_phase lc)"
  shows "\<exists>target. lifecycle_call c lc = (Inl (InvalidTransition (lc_phase lc) target), lc)"
  using assms by (cases c) (auto simp: lifecycle_defs is_terminal_def)

lemma terminal_run: "is_terminal (lc_phase lc) \<Longrightarrow> lifecycle_run cs lc = lc"
proof (induction cs)
  case (Cons c cs)
  then show ?case using terminal_call_refused [of lc c] by auto
qed simp

lemma checked_next_room:
  "unat s < 2 ^ 64 - 1 \<Longrightarrow> \<exists>n :: u64. checked_next s = Inr n \<and> unat n = Suc (unat s)"
  using ex_word_unat [of "Suc (unat s)", where ?'a = 64] by (auto simp: checked_simps)

text \<open>One successful realization: the domain joins the realized ones and the phase follows.\<close>

lemma realize_step:
  assumes inv: "domains_agree lc" and "lc_phase lc = PhaseScheduled" "d \<in> lc_scheduled lc"
    and "d \<notin> fst ` set (lc_realized lc)" "unat (lc_sequence lc) < 2 ^ 64 - 1"
  obtains lc' where "lifecycle_realize d g lc = (Inr (), lc')" "domains_agree lc'"
    "fst ` set (lc_realized lc') = insert d (fst ` set (lc_realized lc))"
    "lc_scheduled lc' = lc_scheduled lc" "unat (lc_sequence lc') = Suc (unat (lc_sequence lc))"
    "lc_phase lc' = PhaseRealized \<or> lc_phase lc' = PhaseScheduled"
    "map_of (lc_realized lc') = (map_of (lc_realized lc))(d \<mapsto> g)"
proof -
  obtain n :: u64 where n: "checked_next (lc_sequence lc) = Inr n" "unat n = Suc (unat (lc_sequence lc))"
    using checked_next_room assms(5) by blast
  let ?r = "lifecycle_realize d g lc"
  have "fst ?r = Inr ()" "fst ` set (lc_realized (snd ?r)) = insert d (fst ` set (lc_realized lc))"
    "lc_scheduled (snd ?r) = lc_scheduled lc" "unat (lc_sequence (snd ?r)) = Suc (unat (lc_sequence lc))"
    "lc_phase (snd ?r) = PhaseRealized \<or> lc_phase (snd ?r) = PhaseScheduled"
    "map_of (lc_realized (snd ?r)) = (map_of (lc_realized lc))(d \<mapsto> g)"
    using assms n
    by (simp_all add: lifecycle_realize_def require_transition_def lifecycle_push_def Let_def update_conv'
        map_of_eq_None_iff dom_map_of_conv_image_fst [symmetric])
  moreover have "domains_agree (snd ?r)"
    using domains_agree_call [OF inv, of "CallRealize d g"] by simp
  ultimately show thesis using that [of "snd ?r"] by (metis surjective_pairing)
qed

lemma realize_all:
  assumes "domains_agree lc" "lc_phase lc = PhaseScheduled" "distinct ds"
    and "lc_scheduled lc = fst ` set (lc_realized lc) \<union> set ds" "fst ` set (lc_realized lc) \<inter> set ds = {}"
    and "unat (lc_sequence lc) + length ds < 2 ^ 64"
  shows "lc_phase (lifecycle_run (map (\<lambda>d. CallRealize d (gen d)) ds) lc) = PhaseRealized
    \<and> map_of (lc_realized (lifecycle_run (map (\<lambda>d. CallRealize d (gen d)) ds) lc))
        = (\<lambda>d. if d \<in> set ds then Some (gen d) else map_of (lc_realized lc) d)"
  using assms
proof (induction ds arbitrary: lc)
  case Nil
  then show ?case by (auto simp: domains_agree_def)
next
  case (Cons d ds)
  obtain lc' where step: "lifecycle_realize d (gen d) lc = (Inr (), lc')" "domains_agree lc'"
    "fst ` set (lc_realized lc') = insert d (fst ` set (lc_realized lc))"
    "lc_scheduled lc' = lc_scheduled lc" "unat (lc_sequence lc') = Suc (unat (lc_sequence lc))"
    "lc_phase lc' = PhaseRealized \<or> lc_phase lc' = PhaseScheduled"
    "map_of (lc_realized lc') = (map_of (lc_realized lc))(d \<mapsto> gen d)"
    by (rule realize_step [of lc d "gen d"]) (use Cons.prems in auto)
  show ?case
  proof (cases "ds = []")
    case True
    with step Cons.prems show ?thesis by (auto simp: domains_agree_def)
  next
    case False
    have "lc_phase lc' = PhaseScheduled"
    proof (rule ccontr)
      assume "lc_phase lc' \<noteq> PhaseScheduled"
      with step have "insert d (fst ` set (lc_realized lc)) = lc_scheduled lc"
        by (auto simp: domains_agree_def)
      then have "set ds \<subseteq> insert d (fst ` set (lc_realized lc))" using Cons.prems(4) by auto
      then have "set ds \<subseteq> {}" using Cons.prems(3,5) by fastforce
      with False show False by simp
    qed
    with Cons.IH [of lc'] Cons.prems step show ?thesis by (auto simp: fun_eq_iff)
  qed
qed

lemma schedule_from_new:
  assumes "ds \<noteq> []" "distinct (map sd_domain ds)"
  shows "lifecycle_run [CallBegin, CallSchedule ds] (lifecycle_new r) =
    \<lparr>lc_revision = r, lc_phase = PhaseScheduled, lc_sequence = 3, lc_scheduled = sd_domain ` set ds,
     lc_realized = [], lc_records = [\<lparr>lr_revision = r, lr_sequence = 1, lr_event = EvAccepted\<rparr>,
       \<lparr>lr_revision = r, lr_sequence = 2, lr_event = EvPreparing\<rparr>,
       \<lparr>lr_revision = r, lr_sequence = 3, lr_event = EvScheduled ds\<rparr>]\<rparr>"
proof -
  have next2: "checked_next (1 :: u64) = Inr 2" "checked_next (2 :: u64) = Inr 3"
    by (simp_all add: checked_next_def checked_add_def)
  have "card (sd_domain ` set ds) = length ds" using assms(2) distinct_card [of "map sd_domain ds"] by simp
  with assms(1) show ?thesis
    by (simp add: lifecycle_new_def lifecycle_defs lifecycle_push_def next2 Let_def)
qed

text \<open>whatever sequence of transition calls is made on a fresh lifecycle, in any order and with any
  arguments, its records carry the revision of the lifecycle and are numbered 1, 2, 3 and so on
  without a gap; a call that fails leaves the lifecycle as it was; no domain is ever realized that
  was not scheduled, while the revision is scheduled at least one scheduled domain is outstanding,
  and once it is realized none is.
\<close>
theorem lifecycle_run_consistent:
  assumes "lc = lifecycle_run calls (lifecycle_new r)"
  shows "map (unat \<circ> lr_sequence) (lc_records lc) = [1..<Suc (length (lc_records lc))]
    \<and> (\<forall>x \<in> set (lc_records lc). lr_revision x = r)
    \<and> (\<forall>c e. fst (lifecycle_call c lc) = Inl e \<longrightarrow> snd (lifecycle_call c lc) = lc)
    \<and> fst ` set (lc_realized lc) \<subseteq> lc_scheduled lc
    \<and> (lc_phase lc = PhaseScheduled \<longrightarrow> fst ` set (lc_realized lc) \<noteq> lc_scheduled lc)
    \<and> (lc_phase lc = PhaseRealized \<longrightarrow>
         lc_scheduled lc \<noteq> {} \<and> fst ` set (lc_realized lc) = lc_scheduled lc)"
proof -
  have inv: "numbered_records lc" "domains_agree lc" "lc_revision lc = r"
    using lifecycle_run_invariants [OF lifecycle_new_invariants, of calls] assms
    by (simp_all add: lifecycle_new_def)
  have "map (unat \<circ> lr_sequence) (lc_records lc) = [1..<Suc (length (lc_records lc))]"
    using inv(1) by (intro nth_equalityI) (auto simp: numbered_records_def simp del: upt_Suc)
  moreover have "\<forall>x \<in> set (lc_records lc). lr_revision x = r"
    using inv(1,3) by (auto simp: numbered_records_def in_set_conv_nth)
  ultimately show ?thesis
    using inv(2) lifecycle_call_error by (auto simp: domains_agree_def)
qed

text \<open>a revision that is prepared and scheduled on a non-empty list of distinct domains becomes
  realized as soon as every one of them has been realized, in whatever order the domains report
  (the record counter has room for them), each with the generation it reported; from then on the
  lifecycle is finished: every further call is refused as an invalid transition and changes nothing.
\<close>
theorem lifecycle_realizes:
  assumes "ds \<noteq> []" "distinct (map sd_domain ds)" "distinct order" "set order = sd_domain ` set ds"
    and "length order + 3 < 2 ^ 64"
    and "lc = lifecycle_run ([CallBegin, CallSchedule ds] @ map (\<lambda>d. CallRealize d (gen d)) order)
                (lifecycle_new r)"
  shows "lc_phase lc = PhaseRealized
    \<and> (\<forall>d \<in> set order. map_of (lc_realized lc) d = Some (gen d))
    \<and> (\<forall>c. \<exists>target. lifecycle_call c lc = (Inl (InvalidTransition PhaseRealized target), lc))
    \<and> (\<forall>more. lifecycle_run more lc = lc)"
proof -
  define s where "s = lifecycle_run [CallBegin, CallSchedule ds] (lifecycle_new r :: ('a, 'b) lifecycle)"
  have "domains_agree s" unfolding s_def using lifecycle_run_invariants [OF lifecycle_new_invariants] by blast
  moreover have "lc_phase s = PhaseScheduled" "lc_scheduled s = set order" "lc_realized s = []" "lc_sequence s = 3"
    unfolding s_def schedule_from_new [OF assms(1,2)] using assms(4) by simp_all
  moreover have "lc = lifecycle_run (map (\<lambda>d. CallRealize d (gen d)) order) s"
    unfolding s_def assms(6) by (rule lifecycle_run_simps(3))
  ultimately have "lc_phase lc = PhaseRealized \<and>
      (\<forall>d \<in> set order. map_of (lc_realized lc) d = Some (gen d))"
    using realize_all [of s order gen] assms(3,5) by simp
  then show ?thesis using terminal_call_refused [of lc] terminal_run [of lc]
    by (simp add: is_terminal_def)
qed

theorem lifecycle_run_consistent_witness:
  "\<exists>lc. lc = lifecycle_run [CallBegin, CallSchedule [\<lparr>sd_domain = (7 :: nat), sd_boundary = 4\<rparr>],
        CallBegin, CallRealize 7 1, CallFail ''late'' RolledBack] (lifecycle_new 5)
    \<and> map (unat \<circ> lr_sequence) (lc_records lc) = [1..<Suc (length (lc_records lc))]
    \<and> (\<forall>x \<in> set (lc_records lc). lr_revision x = 5)
    \<and> lc_phase lc = PhaseRealized \<and> length (lc_records lc) = 4"
proof -
  let ?calls = "[CallBegin, CallSchedule [\<lparr>sd_domain = (7 :: nat), sd_boundary = 4\<rparr>],
        CallBegin, CallRealize 7 1, CallFail ''late'' RolledBack]"
  have "lc_phase (lifecycle_run ?calls (lifecycle_new 5)) = PhaseRealized"
    and "length (lc_records (lifecycle_run ?calls (lifecycle_new 5))) = 4"
    by (simp_all add: lifecycle_new_def lifecycle_defs lifecycle_push_def Let_def checked_next_def checked_add_def)
  with lifecycle_run_consistent [OF refl, of ?calls 5] show ?thesis by metis
qed

theorem lifecycle_realizes_witness:
  "lc_phase (lifecycle_run ([CallBegin, CallSchedule [\<lparr>sd_domain = 1 :: nat, sd_boundary = 4\<rparr>,
       \<lparr>sd_domain = 2, sd_boundary = 5\<rparr>]] @ map (\<lambda>d. CallRealize d 9) [2, 1]) (lifecycle_new 5)) = PhaseRealized"
  using lifecycle_realizes [of "[\<lparr>sd_domain = 1 :: nat, sd_boundary = 4\<rparr>, \<lparr>sd_domain = 2, sd_boundary = 5\<rparr>]"
      "[2, 1]", OF _ _ _ _ _ refl, of "\<lambda>_. 9" 5] by auto

end
