(* ===== verification/Media_Types.thy ===== *)
theory Media_Types
  imports Prelude "HOL-Library.Multiset"
begin

text \<open>
  The portable domain types of \<open>crates/foundation/fm-types\<close>: rational rates in lowest
  terms, timecodes, audio and video formats with the compatibility of colour metadata and
  pixel formats, input names and the validation of a reordered input list.

  Identifiers are non-zero 128-bit values in the source; the model keeps the width and does
  not use the missing zero. Strings whose byte length or white space matters are lists of
  Unicode scalar values.
\<close>

section \<open>Identifiers and time\<close>

type_synonym input_id = u128
type_synonym output_id = u128
type_synonym ustr = "nat list"

datatype rate_error = ZeroNumerator | ZeroDenominator

record frame_rate =
  numerator :: u32
  denominator :: u32

function gcd_u32 :: "u32 \<Rightarrow> u32 \<Rightarrow> u32" where
  "gcd_u32 left right = (if right \<noteq> 0 then gcd_u32 right (left mod right) else left)"
  by pat_completeness auto
termination
  by (relation "measure (\<lambda>(left, right). unat right)") (auto simp: unat_mod unat_gt_0)

declare gcd_u32.simps [simp del]

definition rate_new :: "u32 \<Rightarrow> u32 \<Rightarrow> rate_error + frame_rate" where
  "rate_new n d =
     (if n = 0 then Inl ZeroNumerator
      else if d = 0 then Inl ZeroDenominator
      else let divisor = gcd_u32 n d in
        Inr \<lparr>numerator = n div divisor, denominator = d div divisor\<rparr>)"

record timecode =
  tc_hours :: u8
  tc_minutes :: u8
  tc_seconds :: u8
  tc_frames :: u8

datatype timecode_error = HoursOutOfRange | MinutesOutOfRange | SecondsOutOfRange | FrameOutOfRange

definition timecode_new :: "u8 \<Rightarrow> u8 \<Rightarrow> u8 \<Rightarrow> u8 \<Rightarrow> u8 \<Rightarrow> timecode_error + timecode" where
  "timecode_new hours minutes seconds frames nominal =
     (if hours \<ge> 24 then Inl HoursOutOfRange
      else if minutes \<ge> 60 then Inl MinutesOutOfRange
      else if seconds \<ge> 60 then Inl SecondsOutOfRange
      else if frames \<ge> nominal then Inl FrameOutOfRange
      else Inr \<lparr>tc_hours = hours, tc_minutes = minutes, tc_seconds = seconds, tc_frames = frames\<rparr>)"

section \<open>Audio and video formats\<close>

definition sample_rate_new :: "u32 \<Rightarrow> u32 option" where
  "sample_rate_new hertz = (if hertz = 0 then None else Some hertz)"

datatype channel = Mono | LeftChannel | RightChannel | CenterChannel | LowFrequency
  | LeftSurround | RightSurround

definition channel_layout_new :: "channel list \<Rightarrow> channel list option" where
  "channel_layout_new channels = (if channels = [] then None else Some channels)"

record video_dimensions =
  dim_width :: u32
  dim_height :: u32

definition video_dimensions_new :: "u32 \<Rightarrow> u32 \<Rightarrow> video_dimensions option" where
  "video_dimensions_new w h =
     (if w = 0 \<or> h = 0 then None else Some \<lparr>dim_width = w, dim_height = h\<rparr>)"

datatype alpha_mode = Straight | Premultiplied
datatype color_primaries = PrimBt601 | PrimBt709 | PrimBt2020 | DisplayP3
datatype transfer_function = Linear | Srgb | TransBt709 | Bt1886 | Hlg | Pq
datatype matrix_coefficients = Identity | MatBt601 | MatBt709 | Bt2020NonConstant
datatype signal_range = FullRange | LimitedRange
datatype chroma_location = ChromaLeft | ChromaCenter | ChromaTopLeft
datatype pixel_format = Rgba8 | Bgra8 | Rgba16Float | Nv12 | P010 | Yuv422

record color_metadata =
  cm_primaries :: color_primaries
  cm_transfer :: transfer_function
  cm_matrix :: matrix_coefficients
  cm_range :: signal_range
  cm_chroma :: chroma_location

definition color_metadata_default :: color_metadata where
  "color_metadata_default =
     \<lparr>cm_primaries = PrimBt709, cm_transfer = Bt1886, cm_matrix = MatBt709,
      cm_range = LimitedRange, cm_chroma = ChromaLeft\<rparr>"

record video_frame_metadata =
  vfm_color :: color_metadata
  vfm_alpha :: "alpha_mode option"

datatype video_frame_metadata_error =
    RgbMatrixMustBeIdentity pixel_format matrix_coefficients
  | RgbAlphaModeRequired pixel_format
  | YuvMatrixMustNotBeIdentity pixel_format
  | YuvAlphaModeNotAllowed pixel_format alpha_mode

definition validate_for ::
  "video_frame_metadata \<Rightarrow> pixel_format \<Rightarrow> video_frame_metadata_error + unit" where
  "validate_for m pf =
     (if pf = Rgba8 \<or> pf = Bgra8 \<or> pf = Rgba16Float then
        (if cm_matrix (vfm_color m) \<noteq> Identity
         then Inl (RgbMatrixMustBeIdentity pf (cm_matrix (vfm_color m)))
         else if vfm_alpha m = None then Inl (RgbAlphaModeRequired pf)
         else Inr ())
      else
        (if cm_matrix (vfm_color m) = Identity then Inl (YuvMatrixMustNotBeIdentity pf)
         else case vfm_alpha m of
             Some alpha \<Rightarrow> Inl (YuvAlphaModeNotAllowed pf alpha)
           | None \<Rightarrow> Inr ()))"

section \<open>Input names and input order\<close>

definition MAX_INPUT_NAME_BYTES :: usize where "MAX_INPUT_NAME_BYTES = 128"

text \<open>\<open>str::trim\<close> removes the characters with the Unicode property White\_Space at both ends;
  \<open>str::len\<close> counts the bytes of the UTF-8 encoding.\<close>

definition is_white_space :: "nat \<Rightarrow> bool" where
  "is_white_space c \<longleftrightarrow>
     9 \<le> c \<and> c \<le> 13 \<or> c = 32 \<or> c = 133 \<or> c = 160 \<or> c = 5760 \<or> 8192 \<le> c \<and> c \<le> 8202
     \<or> c = 8232 \<or> c = 8233 \<or> c = 8239 \<or> c = 8287 \<or> c = 12288"

definition str_trim :: "ustr \<Rightarrow> ustr" where
  "str_trim s = rev (dropWhile is_white_space (rev (dropWhile is_white_space s)))"

definition utf8_len :: "nat \<Rightarrow> nat" where
  "utf8_len c = (if c < 128 then 1 else if c < 2048 then 2 else if c < 65536 then 3 else 4)"

definition str_len :: "ustr \<Rightarrow> usize" where
  "str_len s = sum_list (map utf8_len s)"

datatype rename_input_error =
    RenameUnknownInput input_id | EmptyName | NameTooLong | DuplicateName

definition validate_input_name :: "ustr \<Rightarrow> rename_input_error + unit" where
  "validate_input_name name =
     (if str_trim name = [] then Inl EmptyName
      else if str_len name > MAX_INPUT_NAME_BYTES then Inl NameTooLong
      else Inr ())"

datatype input_order_error =
    EmptyOrder
  | WrongLength usize usize
  | OrderUnknownInput input_id
  | DuplicateInput input_id

text \<open>The second loop: the first element that occurs before its own index.\<close>

fun first_repeated :: "'a list \<Rightarrow> 'a list \<Rightarrow> 'a option" where
  "first_repeated before [] = None"
| "first_repeated before (x # xs) =
     (if x \<in> set before then Some x else first_repeated (before @ [x]) xs)"

definition validate_input_order :: "input_id list \<Rightarrow> input_id list \<Rightarrow> input_order_error + unit" where
  "validate_input_order current requested =
     (if requested = [] then Inl EmptyOrder
      else if length requested \<noteq> length current
        then Inl (WrongLength (length current) (length requested))
      else case find (\<lambda>i. i \<notin> set current) requested of
          Some i \<Rightarrow> Inl (OrderUnknownInput i)
        | None \<Rightarrow> (case first_repeated [] requested of
              Some i \<Rightarrow> Inl (DuplicateInput i)
            | None \<Rightarrow> Inr ()))"

section \<open>Rates are in lowest terms\<close>

lemma unat_gcd_u32: "unat (gcd_u32 a b) = gcd (unat a) (unat b)"
proof (induction a b rule: gcd_u32.induct)
  case (1 a b)
  show ?case
  proof (cases "b = 0")
    case True
    then show ?thesis by (simp add: gcd_u32.simps [of a 0])
  next
    case False
    then have "unat (gcd_u32 b (a mod b)) = gcd (unat b) (unat a mod unat b)"
      using 1 by (simp add: unat_mod)
    also have "\<dots> = gcd (unat a) (unat b)" by (metis gcd.commute gcd_red_nat)
    finally show ?thesis using False by (simp add: gcd_u32.simps [of a b])
  qed
qed

definition rate_wf :: "frame_rate \<Rightarrow> bool" where
  "rate_wf r \<longleftrightarrow> 0 < unat (numerator r) \<and> 0 < unat (denominator r)
     \<and> coprime (unat (numerator r)) (unat (denominator r))"

lemma rate_new_Inr:
  "rate_new n d = Inr r \<longleftrightarrow>
     n \<noteq> 0 \<and> d \<noteq> 0
     \<and> unat (numerator r) = unat n div gcd (unat n) (unat d)
     \<and> unat (denominator r) = unat d div gcd (unat n) (unat d)"
  by (cases r) (auto simp: rate_new_def Let_def unat_div unat_gcd_u32 word_unat_eq_iff)

lemma rate_new_wf: "rate_new n d = Inr r \<Longrightarrow> rate_wf r"
  by (auto simp: rate_new_Inr rate_wf_def unat_gt_0 div_gcd_coprime
      intro!: div_greater_zero_iff [THEN iffD2] gcd_le1_nat gcd_le2_nat)

lemma coprime_cross_eq_nat:
  fixes a b c d :: nat
  assumes "coprime a b" "coprime c d" "a * d = c * b"
  shows "a = c \<and> b = d"
proof -
  have "a dvd c" using assms by (metis coprime_dvd_mult_left_iff dvd_triv_left)
  moreover have "c dvd a" using assms by (metis coprime_dvd_mult_left_iff dvd_triv_left)
  ultimately have "a = c" by (rule dvd_antisym)
  moreover have "b dvd d" using assms
    by (metis coprime_commute coprime_dvd_mult_right_iff dvd_triv_right)
  moreover have "d dvd b" using assms
    by (metis coprime_commute coprime_dvd_mult_right_iff dvd_triv_right)
  ultimately show ?thesis using dvd_antisym by blast
qed

lemma rate_new_ratio:
  "rate_new n d = Inr r \<Longrightarrow> unat n * unat (denominator r) = unat (numerator r) * unat d"
  by (auto simp: rate_new_Inr div_mult_swap mult.commute)

lemma cross_ratio_transfer:
  fixes n d n' d' a b a' b' :: nat
  assumes "n * b = a * d" "n' * b' = a' * d'" "0 < d" "0 < d'" "0 < b" "0 < b'"
  shows "n * d' = n' * d \<longleftrightarrow> a * b' = a' * b"
proof -
  have "n * d' = n' * d \<longleftrightarrow> (n * b) * (d' * b') = (n' * b') * (d * b)"
    using assms(5,6) by (simp add: ac_simps)
  also have "\<dots> \<longleftrightarrow> (d * d') * (a * b') = (d * d') * (a' * b)"
    using assms(1,2) by (simp add: ac_simps)
  also have "\<dots> \<longleftrightarrow> a * b' = a' * b" using assms(3,4) by simp
  finally show ?thesis .
qed

text \<open>For non-zero parts the constructor of a rational rate returns a rate in lowest
  terms, and two requests give equal rates exactly when they denote the same ratio.\<close>

lemma rate_new_canonical:
  assumes "n \<noteq> 0" "d \<noteq> 0" "n' \<noteq> 0" "d' \<noteq> 0"
  shows "\<exists>r r'. rate_new n d = Inr r \<and> rate_new n' d' = Inr r'
    \<and> coprime (unat (numerator r)) (unat (denominator r))
    \<and> (r = r' \<longleftrightarrow> unat n * unat d' = unat n' * unat d)"
proof -
  obtain r r' where r: "rate_new n d = Inr r" and r': "rate_new n' d' = Inr r'"
    using assms by (auto simp: rate_new_def Let_def)
  have wf: "rate_wf r" "rate_wf r'" using r r' by (auto dest: rate_new_wf)
  have "unat n * unat d' = unat n' * unat d \<longleftrightarrow>
      unat (numerator r) * unat (denominator r') = unat (numerator r') * unat (denominator r)"
    using rate_new_ratio [OF r] rate_new_ratio [OF r'] wf assms
    by (intro cross_ratio_transfer) (auto simp: rate_wf_def unat_gt_0)
  also have "\<dots> \<longleftrightarrow> r = r'"
    using coprime_cross_eq_nat wf
    by (cases r; cases r') (auto simp: rate_wf_def word_unat_eq_iff)
  finally show ?thesis using r r' wf by (auto simp: rate_wf_def)
qed

section \<open>Reordering inputs\<close>

lemma first_repeated_None:
  "distinct before \<Longrightarrow> first_repeated before xs = None \<longleftrightarrow> distinct (before @ xs)"
  by (induction before xs rule: first_repeated.induct) (auto simp: distinct_append)

lemma validate_input_order_Inr:
  "validate_input_order current requested = Inr () \<longleftrightarrow>
     requested \<noteq> [] \<and> length requested = length current \<and> set requested \<subseteq> set current
     \<and> distinct requested"
proof -
  have "find (\<lambda>i. i \<notin> set current) requested = None \<longleftrightarrow> set requested \<subseteq> set current"
    by (auto simp: find_None_iff)
  moreover have "first_repeated [] requested = None \<longleftrightarrow> distinct requested"
    by (simp add: first_repeated_None)
  ultimately show ?thesis
    by (cases "find (\<lambda>i. i \<notin> set current) requested"; cases "first_repeated [] requested")
       (auto simp: validate_input_order_def)
qed

text \<open>A requested order passes validation against a duplicate-free current order exactly
  when it is a non-empty permutation of it.\<close>

theorem validate_input_order_permutation:
  assumes "distinct current"
  shows "validate_input_order current requested = Inr () \<longleftrightarrow>
    requested \<noteq> [] \<and> mset requested = mset current"
proof -
  have "length requested = length current \<and> set requested \<subseteq> set current \<and> distinct requested
      \<longleftrightarrow> mset requested = mset current"
  proof
    assume h: "length requested = length current \<and> set requested \<subseteq> set current \<and> distinct requested"
    then have "set requested = set current"
      using assms by (metis card_subset_eq distinct_card finite_set)
    with h assms show "mset requested = mset current" by (simp add: set_eq_iff_mset_eq_distinct)
  next
    assume m: "mset requested = mset current"
    then show "length requested = length current \<and> set requested \<subseteq> set current \<and> distinct requested"
      using assms by (metis mset_eq_imp_distinct_iff mset_eq_length mset_eq_setD order_refl)
  qed
  then show ?thesis by (auto simp: validate_input_order_Inr)
qed

theorem validate_input_order_permutation_witness:
  "validate_input_order [1, 2, 3] [3, 1, 2] = Inr () \<longleftrightarrow>
    [3, 1, 2 :: input_id] \<noteq> [] \<and> mset [3, 1, 2 :: input_id] = mset [1, 2, 3]"
  by (rule validate_input_order_permutation) simp

end
