(* ===== verification/Clock.thy ===== *)
theory Clock
  imports Media_Types
begin

text \<open>
  The crate \<open>crates/media/fm-clock\<close>: nanosecond clock times, the monotone manual clock and
  its deadlines (\<open>clock.rs\<close>), the exact rational frame cadence (\<open>cadence.rs\<close>), and the affine
  mapping between two clock domains with its drift estimator (\<open>mapping.rs\<close>).

  The 128-bit intermediate values of the source are mathematical integers passed through
  range checks at the places where the source calls a checked operation.
\<close>

section \<open>Clock times and the manual clock\<close>

type_synonym clock_time = u64
type_synonym clock_duration = u64
type_synonym clock_domain_id = u128

record clock_snapshot =
  cs_domain :: clock_domain_id
  cs_time :: clock_time

datatype clock_error = ClockOverflow | TimeRegression clock_time clock_time

definition clock_time_checked_add :: "clock_time \<Rightarrow> clock_duration \<Rightarrow> clock_error + clock_time" where
  "clock_time_checked_add t d = ok_or (checked_add t d) ClockOverflow"

definition duration_since :: "clock_time \<Rightarrow> clock_time \<Rightarrow> clock_duration option" where
  "duration_since t earlier = checked_sub t earlier"

record manual_clock =
  mc_snapshot :: clock_snapshot

definition manual_clock_new :: "clock_domain_id \<Rightarrow> clock_time \<Rightarrow> manual_clock" where
  "manual_clock_new domain t = \<lparr>mc_snapshot = \<lparr>cs_domain = domain, cs_time = t\<rparr>\<rparr>"

definition manual_clock_advance ::
  "clock_duration \<Rightarrow> (clock_error, clock_snapshot, manual_clock) meth" where
  "manual_clock_advance d clk =
     (case clock_time_checked_add (cs_time (mc_snapshot clk)) d of
        Inl e \<Rightarrow> (Inl e, clk)
      | Inr t \<Rightarrow>
          let snap = \<lparr>cs_domain = cs_domain (mc_snapshot clk), cs_time = t\<rparr>
          in (Inr snap, clk\<lparr>mc_snapshot := snap\<rparr>))"

definition manual_clock_set ::
  "clock_time \<Rightarrow> (clock_error, clock_snapshot, manual_clock) meth" where
  "manual_clock_set t clk =
     (if t < cs_time (mc_snapshot clk)
      then (Inl (TimeRegression (cs_time (mc_snapshot clk)) t), clk)
      else let snap = \<lparr>cs_domain = cs_domain (mc_snapshot clk), cs_time = t\<rparr>
           in (Inr snap, clk\<lparr>mc_snapshot := snap\<rparr>))"

datatype deadline_status = Pending clock_duration | Due | Missed clock_duration

definition clock_deadline_after :: "clock_time \<Rightarrow> clock_duration \<Rightarrow> clock_error + clock_time" where
  "clock_deadline_after now d = clock_time_checked_add now d"

definition deadline_status_at :: "clock_time \<Rightarrow> clock_time \<Rightarrow> deadline_status" where
  "deadline_status_at deadline now =
     (if now < deadline then Pending (deadline - now)
      else if now = deadline then Due
      else Missed (now - deadline))"

definition deadline_is_due :: "clock_time \<Rightarrow> clock_time \<Rightarrow> bool" where
  "deadline_is_due deadline now \<longleftrightarrow> now \<ge> deadline"

section \<open>Frame cadence\<close>

definition NANOS_PER_SECOND :: nat where "NANOS_PER_SECOND = 1000000000"

datatype cadence_error = CadenceOverflow | BeforeOrigin

record frame_cadence =
  cad_rate :: frame_rate
  cad_origin :: clock_time

definition offset_of_frame :: "frame_cadence \<Rightarrow> u64 \<Rightarrow> cadence_error + u64" where
  "offset_of_frame c frame =
     and_then
       (ok_or (Option.bind (u128_checked (unat frame * unat (denominator (cad_rate c))))
                 (\<lambda>v. u128_checked (v * NANOS_PER_SECOND)))
          CadenceOverflow)
       (\<lambda>num. ok_or (word_try_from (num div unat (numerator (cad_rate c)))) CadenceOverflow)"

definition time_of_frame :: "frame_cadence \<Rightarrow> u64 \<Rightarrow> cadence_error + clock_time" where
  "time_of_frame c frame =
     and_then (offset_of_frame c frame)
       (\<lambda>offset. ok_or (checked_add (cad_origin c) offset) CadenceOverflow)"

definition duration_of_frame :: "frame_cadence \<Rightarrow> u64 \<Rightarrow> cadence_error + clock_duration" where
  "duration_of_frame c frame =
     and_then (ok_or (checked_add frame 1) CadenceOverflow) (\<lambda>nxt.
     and_then (offset_of_frame c frame) (\<lambda>start.
     and_then (offset_of_frame c nxt) (\<lambda>end_offset. Inr (end_offset - start))))"

definition frame_at_or_before :: "frame_cadence \<Rightarrow> clock_time \<Rightarrow> cadence_error + u64" where
  "frame_at_or_before c t =
     and_then (ok_or (checked_sub t (cad_origin c)) BeforeOrigin) (\<lambda>elapsed.
     and_then
       (ok_or (Option.bind (u128_checked (unat elapsed + 1))
                 (\<lambda>v. u128_checked (v * unat (numerator (cad_rate c)))))
          CadenceOverflow) (\<lambda>num.
     let den = min (unat (denominator (cad_rate c)) * NANOS_PER_SECOND) (2 ^ 128 - 1) in
     and_then (if num = 0 then Inl CadenceOverflow else Inr ((num - 1) div den)) (\<lambda>frame.
     ok_or (word_try_from frame) CadenceOverflow)))"

section \<open>Clock mapping and drift estimation\<close>

definition PARTS_PER_BILLION :: int where "PARTS_PER_BILLION = 1000000000"

datatype mapping_error =
    DomainMismatch | NonMonotonicSamples | InsufficientSamples | InvalidRate | MappingOverflow

record clock_mapping =
  cm_source_anchor :: clock_snapshot
  cm_master_anchor :: clock_snapshot
  cm_drift_ppb :: i64

definition clock_mapping_new ::
  "clock_snapshot \<Rightarrow> clock_snapshot \<Rightarrow> i64 \<Rightarrow> mapping_error + clock_mapping" where
  "clock_mapping_new src mst drift =
     (if sint drift \<le> - PARTS_PER_BILLION then Inl InvalidRate
      else Inr \<lparr>cm_source_anchor = src, cm_master_anchor = mst, cm_drift_ppb = drift\<rparr>)"

definition floor_div :: "int \<Rightarrow> int \<Rightarrow> mapping_error + int" where
  "floor_div num den =
     (if den \<le> 0 then Inl InvalidRate
      else let quotient = trunc_div num den; remainder = trunc_rem num den in
        if remainder < 0 then ok_or (i128_checked (quotient - 1)) MappingOverflow
        else Inr quotient)"

definition map_source_nanos :: "clock_mapping \<Rightarrow> i64 \<Rightarrow> mapping_error + i64" where
  "map_source_nanos m source_nanos =
     and_then
       (ok_or (i128_checked (sint source_nanos - int (unat (cs_time (cm_source_anchor m)))))
          MappingOverflow) (\<lambda>source_delta.
     let scale = PARTS_PER_BILLION + sint (cm_drift_ppb m) in
     and_then (ok_or (i128_checked (source_delta * scale)) MappingOverflow) (\<lambda>num.
     and_then (floor_div num PARTS_PER_BILLION) (\<lambda>master_delta.
     and_then
       (ok_or (i128_checked (int (unat (cs_time (cm_master_anchor m))) + master_delta))
          MappingOverflow) (\<lambda>mapped.
     ok_or (i64_try_from mapped) MappingOverflow))))"

definition source_nanos_at_master :: "clock_mapping \<Rightarrow> i64 \<Rightarrow> mapping_error + i64" where
  "source_nanos_at_master m master_nanos =
     and_then
       (ok_or (i128_checked (sint master_nanos - int (unat (cs_time (cm_master_anchor m)))))
          MappingOverflow) (\<lambda>master_delta.
     and_then (ok_or (i128_checked (master_delta * PARTS_PER_BILLION)) MappingOverflow) (\<lambda>num.
     let scale = PARTS_PER_BILLION + sint (cm_drift_ppb m) in
     and_then (floor_div num scale) (\<lambda>source_delta.
     and_then
       (ok_or (i128_checked (int (unat (cs_time (cm_source_anchor m))) + source_delta))
          MappingOverflow) (\<lambda>src.
     ok_or (i64_try_from src) MappingOverflow))))"

definition clock_mapping_map :: "clock_mapping \<Rightarrow> clock_snapshot \<Rightarrow> mapping_error + clock_snapshot" where
  "clock_mapping_map m src =
     (if cs_domain src \<noteq> cs_domain (cm_source_anchor m) then Inl DomainMismatch
      else and_then (ok_or (i64_try_from (int (unat (cs_time src)))) MappingOverflow) (\<lambda>source_nanos.
        and_then (map_source_nanos m source_nanos) (\<lambda>mapped.
        and_then (if sint mapped < 0 then Inl MappingOverflow
                  else ok_or (word_try_from (nat (sint mapped))) MappingOverflow) (\<lambda>nanos.
        Inr \<lparr>cs_domain = cs_domain (cm_master_anchor m), cs_time = nanos\<rparr>))))"

record drift_estimator =
  de_source_domain :: clock_domain_id
  de_master_domain :: clock_domain_id
  de_first :: "(clock_snapshot \<times> clock_snapshot) option"
  de_latest :: "(clock_snapshot \<times> clock_snapshot) option"

definition drift_estimator_new :: "clock_domain_id \<Rightarrow> clock_domain_id \<Rightarrow> drift_estimator" where
  "drift_estimator_new src mst =
     \<lparr>de_source_domain = src, de_master_domain = mst, de_first = None, de_latest = None\<rparr>"

definition drift_observe ::
  "clock_snapshot \<Rightarrow> clock_snapshot \<Rightarrow> (mapping_error, unit, drift_estimator) meth" where
  "drift_observe src mst de =
     (if cs_domain src \<noteq> de_source_domain de \<or> cs_domain mst \<noteq> de_master_domain de
      then (Inl DomainMismatch, de)
      else if (case de_latest de of
                 Some (ps, pm) \<Rightarrow> cs_time src \<le> cs_time ps \<or> cs_time mst \<le> cs_time pm
               | None \<Rightarrow> False)
      then (Inl NonMonotonicSamples, de)
      else (Inr (), de\<lparr>de_first := (if de_first de = None then Some (src, mst) else de_first de),
                       de_latest := Some (src, mst)\<rparr>))"

definition estimated_drift_ppb :: "drift_estimator \<Rightarrow> mapping_error + int" where
  "estimated_drift_ppb de =
     and_then (ok_or (de_first de) InsufficientSamples) (\<lambda>(first_source, first_master).
     and_then (ok_or (de_latest de) InsufficientSamples) (\<lambda>(latest_source, latest_master).
     and_then (ok_or (duration_since (cs_time latest_source) (cs_time first_source))
                 NonMonotonicSamples) (\<lambda>source_delta.
     and_then (ok_or (duration_since (cs_time latest_master) (cs_time first_master))
                 NonMonotonicSamples) (\<lambda>master_delta.
     if source_delta = 0 then Inl InsufficientSamples
     else and_then (ok_or (i128_checked (int (unat master_delta) * PARTS_PER_BILLION))
                     MappingOverflow) (\<lambda>scaled.
       Inr (trunc_div scaled (int (unat source_delta)) - PARTS_PER_BILLION))))))"

definition drift_mapping :: "drift_estimator \<Rightarrow> mapping_error + clock_mapping" where
  "drift_mapping de =
     and_then (ok_or (de_first de) InsufficientSamples) (\<lambda>(first_source, first_master).
     and_then (estimated_drift_ppb de) (\<lambda>drift.
     and_then (ok_or (i64_try_from drift) MappingOverflow) (\<lambda>drift_ppb.
     clock_mapping_new first_source first_master drift_ppb)))"

section \<open>The manual clock never runs backwards\<close>

lemma manual_clock_steps:
  "cs_time (mc_snapshot clk) \<le> cs_time (mc_snapshot (snd (manual_clock_advance d clk)))"
  "cs_time (mc_snapshot clk) \<le> cs_time (mc_snapshot (snd (manual_clock_set t clk)))"
  by (auto simp: manual_clock_advance_def manual_clock_set_def clock_time_checked_add_def Let_def
      result_simps checked_simps word_less_unat split: sum.splits)

lemma manual_clock_domain:
  "cs_domain (mc_snapshot (snd (manual_clock_advance d clk))) = cs_domain (mc_snapshot clk)"
  "cs_domain (mc_snapshot (snd (manual_clock_set t clk))) = cs_domain (mc_snapshot clk)"
  by (auto simp: manual_clock_advance_def manual_clock_set_def Let_def split: sum.splits)

section \<open>Exact positions of the cadence\<close>

definition frame_offset_ns :: "frame_rate \<Rightarrow> nat \<Rightarrow> nat" where
  "frame_offset_ns r n = n * unat (denominator r) * NANOS_PER_SECOND div unat (numerator r)"

lemma frame_product_fits_u128: "unat (f :: u64) * unat (d :: u32) * NANOS_PER_SECOND < 2 ^ 128"
proof -
  have "unat f * unat d \<le> 18446744073709551616 * 4294967296"
    using unat_u64_less [of f] unat_u32_less [of d] by (intro mult_mono) simp_all
  then show ?thesis by (simp add: NANOS_PER_SECOND_def)
qed

lemma offset_of_frame_Inr:
  "offset_of_frame c f = Inr off \<longleftrightarrow> unat off = frame_offset_ns (cad_rate c) (unat f)"
proof -
  have "unat f * unat (denominator (cad_rate c)) < 2 ^ 128"
    using frame_product_fits_u128 [of f "denominator (cad_rate c)"]
    by (simp add: NANOS_PER_SECOND_def)
  then show ?thesis
    using frame_product_fits_u128 [of f "denominator (cad_rate c)"]
    by (simp add: offset_of_frame_def u128_checked_def result_simps checked_simps frame_offset_ns_def)
qed

lemma time_of_frame_Inr:
  "time_of_frame c f = Inr t \<longleftrightarrow>
     unat t = unat (cad_origin c) + frame_offset_ns (cad_rate c) (unat f)"
proof
  assume "time_of_frame c f = Inr t"
  then show "unat t = unat (cad_origin c) + frame_offset_ns (cad_rate c) (unat f)"
    by (auto simp: time_of_frame_def result_simps checked_simps offset_of_frame_Inr)
next
  assume t: "unat t = unat (cad_origin c) + frame_offset_ns (cad_rate c) (unat f)"
  then obtain off :: u64 where "unat off = frame_offset_ns (cad_rate c) (unat f)"
    using ex_word_unat [of "frame_offset_ns (cad_rate c) (unat f)", where 'a = 64] unat_u64_less [of t]
    by auto
  with t show "time_of_frame c f = Inr t"
    by (auto simp: time_of_frame_def result_simps checked_simps offset_of_frame_Inr)
qed

lemma frame_offset_le_iff:
  assumes "rate_wf r"
  shows "frame_offset_ns r n \<le> e \<longleftrightarrow>
    n \<le> ((e + 1) * unat (numerator r) - 1) div (unat (denominator r) * NANOS_PER_SECOND)"
proof -
  let ?N = "unat (numerator r)" and ?M = "unat (denominator r) * NANOS_PER_SECOND"
  have N: "0 < ?N" and M: "0 < ?M" using assms by (auto simp: rate_wf_def NANOS_PER_SECOND_def)
  have "frame_offset_ns r n \<le> e \<longleftrightarrow> n * ?M div ?N < e + 1"
    by (simp add: frame_offset_ns_def mult.assoc less_Suc_eq_le)
  also have "\<dots> \<longleftrightarrow> n * ?M < (e + 1) * ?N" using N by (rule div_less_iff_less_mult)
  also have "\<dots> \<longleftrightarrow> n * ?M \<le> (e + 1) * ?N - 1" using N by (cases "(e + 1) * ?N") auto
  also have "\<dots> \<longleftrightarrow> n \<le> ((e + 1) * ?N - 1) div ?M" using M by (simp add: less_eq_div_iff_mult_less_eq)
  finally show ?thesis .
qed

lemma frame_at_or_before_Inr:
  assumes "rate_wf (cad_rate c)"
  shows "frame_at_or_before c t = Inr f \<longleftrightarrow> unat (cad_origin c) \<le> unat t \<and>
    unat f = ((unat t - unat (cad_origin c) + 1) * unat (numerator (cad_rate c)) - 1)
               div (unat (denominator (cad_rate c)) * NANOS_PER_SECOND)"
proof (cases "checked_sub t (cad_origin c)")
  case None
  moreover from None have "unat t < unat (cad_origin c)" by (simp add: checked_simps)
  ultimately show ?thesis by (simp add: frame_at_or_before_def)
next
  case (Some e)
  then have e: "unat t = unat (cad_origin c) + unat e" by (simp add: checked_simps)
  let ?N = "unat (numerator (cad_rate c))" and ?D = "unat (denominator (cad_rate c))"
  have "(unat e + 1) * ?N \<le> 18446744073709551616 * 4294967296"
    using unat_u64_less [of e] unat_u32_less [of "numerator (cad_rate c)"]
    by (intro mult_mono) simp_all
  then have "unat e + 1 < 2 ^ 128" "(unat e + 1) * ?N < 2 ^ 128"
    using unat_u64_less [of e] by simp_all
  moreover have "0 < (unat e + 1) * ?N" using assms by (simp add: rate_wf_def)
  moreover have "min (?D * NANOS_PER_SECOND) (2 ^ 128 - 1) = ?D * NANOS_PER_SECOND"
    using frame_product_fits_u128 [of 1 "denominator (cad_rate c)"] by simp
  ultimately have "frame_at_or_before c t =
      ok_or (word_try_from (((unat e + 1) * ?N - 1) div (?D * NANOS_PER_SECOND))) CadenceOverflow"
    using Some by (simp add: frame_at_or_before_def u128_checked_def Let_def del: mult_Suc mult_Suc_right)
  then show ?thesis using e by (auto simp: result_simps checked_simps)
qed

lemma frame_offset_mono: "m \<le> n \<Longrightarrow> frame_offset_ns r m \<le> frame_offset_ns r n"
  unfolding frame_offset_ns_def by (intro div_le_mono mult_le_mono) simp_all

text \<open>A successful \<open>frame_at_or_before\<close> returns the latest frame whose start is not later
  than the given time: that frame starts at or before the time, and every frame that does so
  has a number that is not larger.\<close>

theorem frame_at_or_before_latest:
  assumes wf: "rate_wf (cad_rate c)" and f: "frame_at_or_before c t = Inr f"
  shows "\<exists>s. time_of_frame c f = Inr s \<and> s \<le> t
    \<and> (\<forall>g s'. time_of_frame c g = Inr s' \<and> s' \<le> t \<longrightarrow> g \<le> f)"
proof -
  let ?off = "\<lambda>n. frame_offset_ns (cad_rate c) n"
  have o: "unat (cad_origin c) \<le> unat t"
    and le: "\<And>n. ?off n \<le> unat t - unat (cad_origin c) \<longleftrightarrow> n \<le> unat f"
    using f frame_at_or_before_Inr [OF wf] frame_offset_le_iff [OF wf] by auto
  have b: "?off (unat f) \<le> unat t - unat (cad_origin c)" by (simp add: le)
  then have "unat (cad_origin c) + ?off (unat f) < 2 ^ 64" using o unat_u64_less [of t] by simp
  then obtain s :: u64 where s: "unat s = unat (cad_origin c) + ?off (unat f)"
    using ex_word_unat [of "unat (cad_origin c) + ?off (unat f)", where 'a = 64] by auto
  moreover have "s \<le> t" using s b o by (simp add: word_le_nat_alt)
  moreover have "g \<le> f" if "time_of_frame c g = Inr s'" "s' \<le> t" for g s'
  proof -
    have "?off (unat g) \<le> unat t - unat (cad_origin c)"
      using that by (simp add: time_of_frame_Inr word_le_nat_alt)
    then show ?thesis by (simp add: le word_le_nat_alt)
  qed
  ultimately show ?thesis by (auto simp: time_of_frame_Inr)
qed

definition ntsc_60 :: frame_cadence where
  "ntsc_60 = \<lparr>cad_rate = \<lparr>numerator = 60000, denominator = 1001\<rparr>, cad_origin = 7\<rparr>"

lemmas ntsc_60_eval = ntsc_60_def frame_offset_ns_def NANOS_PER_SECOND_def

lemma ntsc_60_rate: "rate_wf (cad_rate ntsc_60)"
  by (simp add: ntsc_60_def rate_wf_def coprime_iff_gcd_eq_1 gcd_non_0_nat)

theorem frame_at_or_before_latest_witness:
  "\<exists>s. time_of_frame ntsc_60 1 = Inr s \<and> s \<le> 20000000
    \<and> (\<forall>g s'. time_of_frame ntsc_60 g = Inr s' \<and> s' \<le> 20000000 \<longrightarrow> g \<le> 1)"
  by (rule frame_at_or_before_latest [OF ntsc_60_rate])
     (simp add: frame_at_or_before_Inr [OF ntsc_60_rate], simp add: ntsc_60_eval)

text \<open>C16: The start time of a frame is looked up as that frame, at every rate of at most one
  frame per nanosecond.\<close>

theorem frame_time_roundtrip:
  assumes wf: "rate_wf (cad_rate c)"
    and rate: "unat (numerator (cad_rate c)) \<le> unat (denominator (cad_rate c)) * NANOS_PER_SECOND"
    and t: "time_of_frame c f = Inr t"
  shows "frame_at_or_before c t = Inr f"
proof -
  let ?N = "unat (numerator (cad_rate c))" and ?M = "unat (denominator (cad_rate c)) * NANOS_PER_SECOND"
  let ?q = "frame_offset_ns (cad_rate c) (unat f)"
  have N: "0 < ?N" using wf by (simp add: rate_wf_def)
  have q: "?q = unat f * ?M div ?N" by (simp add: frame_offset_ns_def mult.assoc)
  have "unat f \<le> ((?q + 1) * ?N - 1) div ?M" using frame_offset_le_iff [OF wf, of "unat f" ?q] by simp
  moreover have "((?q + 1) * ?N - 1) div ?M < unat f + 1"
  proof -
    have "?q * ?N \<le> unat f * ?M" unfolding q by simp
    then have "(?q + 1) * ?N - 1 < (unat f + 1) * ?M"
      using rate N by (simp add: add.commute [of ?N])
    then show ?thesis using less_mult_imp_div_less by blast
  qed
  ultimately have "unat f = ((?q + 1) * ?N - 1) div ?M" by simp
  with t show ?thesis by (simp add: frame_at_or_before_Inr [OF wf] time_of_frame_Inr)
qed

theorem frame_time_roundtrip_witness: "frame_at_or_before ntsc_60 16683340 = Inr 1"
  by (rule frame_time_roundtrip [OF ntsc_60_rate]) (simp_all add: time_of_frame_Inr ntsc_60_eval)

lemma duration_of_frame_offset:
  assumes "offset_of_frame c (of_nat (Suc k)) = Inr off" "Suc k < 2 ^ 64"
  shows "\<exists>d. duration_of_frame c (of_nat k) = Inr d \<and>
    unat d + frame_offset_ns (cad_rate c) k = frame_offset_ns (cad_rate c) (Suc k)"
proof -
  have off: "unat off = frame_offset_ns (cad_rate c) (Suc k)"
    using assms by (simp add: offset_of_frame_Inr unat_of_nat del: of_nat_Suc)
  have mono: "frame_offset_ns (cad_rate c) k \<le> unat off" unfolding off by (rule frame_offset_mono) simp
  then obtain st :: u64 where st: "unat st = frame_offset_ns (cad_rate c) k"
    using ex_word_unat [of "frame_offset_ns (cad_rate c) k", where 'a = 64] unat_u64_less [of off] by auto
  have "offset_of_frame c (of_nat k) = Inr st"
    using st assms by (simp add: offset_of_frame_Inr unat_of_nat)
  moreover have "checked_add (of_nat k) 1 = Some (of_nat (Suc k) :: u64)"
    using assms by (simp add: checked_simps unat_of_nat del: of_nat_Suc)
  ultimately have "duration_of_frame c (of_nat k) = Inr (off - st)"
    using assms(1) by (simp add: duration_of_frame_def)
  moreover have "unat (off - st) = unat off - unat st"
    using mono st by (simp add: unat_sub word_le_nat_alt)
  ultimately show ?thesis using off mono st by auto
qed

text \<open>The integer-nanosecond durations of the frames before a frame add up exactly to its
  start time, so the cadence accumulates no drift.\<close>

theorem frame_durations_telescope:
  assumes "time_of_frame c (of_nat n) = Inr t" and "n < 2 ^ 64"
  shows "\<exists>ds. length ds = n \<and> (\<forall>k<n. duration_of_frame c (of_nat k) = Inr (ds ! k))
    \<and> unat (cad_origin c) + sum_list (map unat ds) = unat t"
proof -
  have t: "unat t = unat (cad_origin c) + frame_offset_ns (cad_rate c) n"
    using assms by (simp add: time_of_frame_Inr unat_of_nat)
  have "\<exists>ds. length ds = m \<and> (\<forall>k<m. duration_of_frame c (of_nat k) = Inr (ds ! k))
      \<and> sum_list (map unat ds) = frame_offset_ns (cad_rate c) m" if "m \<le> n" for m
    using that
  proof (induction m)
    case 0
    show ?case by (simp add: frame_offset_ns_def)
  next
    case (Suc m)
    then obtain ds where ds: "length ds = m" "\<forall>k<m. duration_of_frame c (of_nat k) = Inr (ds ! k)"
        "sum_list (map unat ds) = frame_offset_ns (cad_rate c) m" by auto
    have "frame_offset_ns (cad_rate c) (Suc m) < 2 ^ 64"
      using frame_offset_mono [OF Suc.prems, of "cad_rate c"] t unat_u64_less [of t] by simp
    then obtain off :: u64 where "unat off = frame_offset_ns (cad_rate c) (Suc m)"
      using ex_word_unat [of "frame_offset_ns (cad_rate c) (Suc m)", where 'a = 64] by auto
    then have "offset_of_frame c (of_nat (Suc m)) = Inr off"
      using Suc.prems assms(2) by (simp add: offset_of_frame_Inr unat_of_nat del: of_nat_Suc)
    then obtain d where "duration_of_frame c (of_nat m) = Inr d"
        "unat d + frame_offset_ns (cad_rate c) m = frame_offset_ns (cad_rate c) (Suc m)"
      using duration_of_frame_offset Suc.prems assms(2) by fastforce
    then show ?case using ds
      by (intro exI [of _ "ds @ [d]"]) (auto simp: nth_append less_Suc_eq)
  qed
  from this [of n] t show ?thesis by auto
qed

theorem frame_durations_telescope_witness:
  "\<exists>ds. length ds = 3 \<and> (\<forall>k<3. duration_of_frame ntsc_60 (of_nat k) = Inr (ds ! k))
    \<and> unat (cad_origin ntsc_60) + sum_list (map unat ds) = unat (50050007 :: u64)"
  by (rule frame_durations_telescope) (simp_all add: time_of_frame_Inr ntsc_60_eval)

section \<open>The affine mapping\<close>

lemma trunc_rem_neg_iff:
  assumes "0 < d"
  shows "trunc_rem n d < 0 \<longleftrightarrow> n < 0 \<and> n mod d \<noteq> 0"
proof (cases "n < 0")
  case True
  have e: "trunc_rem n d = n + d * ((- n) div d)"
    using assms True by (simp add: trunc_rem_def trunc_div_neg)
  have m: "d * ((- n) div d) + (- n) mod d = - n" by (rule mult_div_mod_eq)
  have "0 \<le> (- n) mod d" using assms by simp
  moreover have "(- n) mod d = 0 \<longleftrightarrow> n mod d = 0" by (simp add: mod_eq_0_iff_dvd)
  ultimately show ?thesis using e m True by linarith
next
  case False
  then have "trunc_rem n d = n mod d"
    using assms by (simp add: trunc_rem_def trunc_div_nonneg minus_mult_div_eq_mod)
  moreover have "0 \<le> n mod d" using assms by simp
  ultimately show ?thesis using False by simp
qed

lemma int_div_bounds:
  fixes x B :: int
  assumes "0 < B"
  shows "(x div B) * B \<le> x" and "x < (x div B) * B + B"
proof -
  have "(x div B) * B + x mod B = x" by (rule div_mult_mod_eq)
  moreover have "0 \<le> x mod B" "x mod B < B" using assms by simp_all
  ultimately show "(x div B) * B \<le> x" "x < (x div B) * B + B" by linarith+
qed

lemma floor_div_exact:
  assumes "0 < d" "i128_checked n = Some n"
  shows "floor_div n d = Inr (n div d)"
proof -
  have r: "- (2 ^ 127) \<le> n" using assms(2) by (simp add: checked_simps)
  show ?thesis
  proof (cases "n < 0 \<and> n mod d \<noteq> 0")
    case True
    have q: "trunc_div n d - 1 = n div d"
      using True assms by (simp add: trunc_div_neg zdiv_zminus1_eq_if)
    have neg: "n div d < 0" using True assms by (simp add: pos_imp_zdiv_neg_iff)
    then have "(n div d + 1) * d \<le> (n div d + 1) * 1" using assms by (intro mult_left_mono_neg) simp_all
    then have "n \<le> n div d" using int_div_bounds(2) [OF assms(1), of n] by (simp add: algebra_simps)
    then have "i128_checked (n div d) = Some (n div d)" using r neg by (simp add: checked_simps)
    then show ?thesis using True assms q
      by (simp add: floor_div_def Let_def trunc_rem_neg_iff)
  next
    case False
    have "trunc_div n d = n div d"
    proof (cases "n < 0")
      case True
      then show ?thesis using False assms by (simp add: trunc_div_neg zdiv_zminus1_eq_if)
    next
      case False
      then show ?thesis using assms by (simp add: trunc_div_nonneg)
    qed
    then show ?thesis using False assms
      by (auto simp: floor_div_def Let_def trunc_rem_neg_iff)
  qed
qed

definition mapping_scale :: "clock_mapping \<Rightarrow> int" where
  "mapping_scale m = PARTS_PER_BILLION + sint (cm_drift_ppb m)"

definition mapping_wf :: "clock_mapping \<Rightarrow> bool" where
  "mapping_wf m \<longleftrightarrow> 0 < mapping_scale m"

abbreviation source_ns :: "clock_mapping \<Rightarrow> int" where
  "source_ns m \<equiv> int (unat (cs_time (cm_source_anchor m)))"

abbreviation master_ns :: "clock_mapping \<Rightarrow> int" where
  "master_ns m \<equiv> int (unat (cs_time (cm_master_anchor m)))"

lemma clock_mapping_new_wf: "clock_mapping_new src mst d = Inr m \<Longrightarrow> mapping_wf m"
  by (auto simp: clock_mapping_new_def mapping_wf_def mapping_scale_def split: if_splits)

lemma ppb_pos: "0 < PARTS_PER_BILLION"
  by (simp add: PARTS_PER_BILLION_def)

lemma map_source_nanos_Inr:
  "map_source_nanos m s = Inr x \<Longrightarrow>
     sint x = master_ns m + (sint s - source_ns m) * mapping_scale m div PARTS_PER_BILLION"
  by (auto simp: map_source_nanos_def Let_def mapping_scale_def result_simps checked_simps
      floor_div_exact [OF ppb_pos])

lemma source_nanos_at_master_Inr:
  "mapping_wf m \<Longrightarrow> source_nanos_at_master m x = Inr s \<Longrightarrow>
     sint s = source_ns m + (sint x - master_ns m) * PARTS_PER_BILLION div mapping_scale m"
  by (auto simp: source_nanos_at_master_def Let_def mapping_scale_def mapping_wf_def result_simps
      checked_simps floor_div_exact)

text \<open>Both directions are total up to the range of the result: the only error of a mapping that
  the constructor accepted is arithmetic overflow.\<close>

lemma mapping_errors:
  assumes "mapping_wf m"
  shows "map_source_nanos m s = Inl e \<Longrightarrow> e = MappingOverflow"
    and "source_nanos_at_master m s = Inl e \<Longrightarrow> e = MappingOverflow"
  using assms
  by (auto simp: map_source_nanos_def source_nanos_at_master_def Let_def mapping_wf_def
      mapping_scale_def result_simps checked_simps floor_div_exact ppb_pos)

lemma floor_inverse_bounds:
  fixes d k B :: int
  assumes "0 < k" "0 < B"
  shows "(d * k div B) * B div k \<le> d" and "d - (d * k div B) * B div k \<le> B div k + 1"
proof -
  define q where "q = d * k div B"
  have q: "q * B \<le> d * k" "d * k < q * B + B"
    unfolding q_def by (rule int_div_bounds [OF assms(2)])+
  define e where "e = q * B div k"
  have e: "e * k \<le> q * B" "q * B < e * k + k"
    unfolding e_def by (rule int_div_bounds [OF assms(1)])+
  have "e * k \<le> d * k" using e q by linarith
  then show "(d * k div B) * B div k \<le> d" using assms by (simp add: e_def q_def)
  have "(d - e - 1) * k \<le> B" using e q by (simp add: algebra_simps)
  then have "(d - e - 1) * k div k \<le> B div k" using assms by (intro zdiv_mono1)
  then have "d - e - 1 \<le> B div k" using assms by simp
  then show "d - (d * k div B) * B div k \<le> B div k + 1" by (simp add: e_def q_def)
qed

lemma map_source_nanos_mono:
  assumes "mapping_wf m" "map_source_nanos m s = Inr x" "map_source_nanos m s' = Inr x'"
    and "sint s \<le> sint s'"
  shows "sint x \<le> sint x'"
proof -
  have "(sint s - source_ns m) * mapping_scale m \<le> (sint s' - source_ns m) * mapping_scale m"
    using assms by (intro mult_right_mono) (auto simp: mapping_wf_def)
  then show ?thesis
    using assms by (simp add: map_source_nanos_Inr zdiv_mono1 ppb_pos)
qed

text \<open>A mapping accepted by the constructor is monotone, and mapping a position to the
  master clock and back never moves it forward and loses at most one step of the slower
  clock.\<close>

theorem clock_mapping_inverse:
  assumes new: "clock_mapping_new src mst drift = Inr m"
    and x: "map_source_nanos m s = Inr x" and s': "source_nanos_at_master m x = Inr s'"
  shows "sint s' \<le> sint s \<and> sint s - sint s' \<le> PARTS_PER_BILLION div mapping_scale m + 1
    \<and> (\<forall>t y. map_source_nanos m t = Inr y \<and> sint s \<le> sint t \<longrightarrow> sint x \<le> sint y)"
proof -
  have wf: "mapping_wf m" using new by (rule clock_mapping_new_wf)
  have s'_eq: "sint s' = source_ns m + ((sint s - source_ns m) * mapping_scale m div PARTS_PER_BILLION)
      * PARTS_PER_BILLION div mapping_scale m"
    using source_nanos_at_master_Inr [OF wf s'] map_source_nanos_Inr [OF x] by simp
  show ?thesis
    using floor_inverse_bounds [of "mapping_scale m" PARTS_PER_BILLION "sint s - source_ns m"]
      wf s'_eq map_source_nanos_mono [OF wf x] by (auto simp: mapping_wf_def ppb_pos)
qed

theorem clock_mapping_inverse_witness:
  "\<exists>m. sint (998 :: i64) \<le> sint (999 :: i64)
    \<and> sint (999 :: i64) - sint (998 :: i64) \<le> PARTS_PER_BILLION div mapping_scale m + 1
    \<and> (\<forall>t y. map_source_nanos m t = Inr y \<and> sint (999 :: i64) \<le> sint t \<longrightarrow> sint (9998 :: i64) \<le> sint y)"
proof -
  let ?s = "\<lparr>cs_domain = 1, cs_time = 1000\<rparr>" and ?m = "\<lparr>cs_domain = 2, cs_time = 10000\<rparr>"
  let ?map = "\<lparr>cm_source_anchor = ?s, cm_master_anchor = ?m, cm_drift_ppb = 500000000\<rparr>"
  have "clock_mapping_new ?s ?m 500000000 = Inr ?map"
    by (simp add: clock_mapping_new_def PARTS_PER_BILLION_def)
  moreover have "map_source_nanos ?map 999 = Inr 9998"
    by (simp add: map_source_nanos_def i128_checked_def floor_div_def trunc_div_def trunc_rem_def
        i64_try_from_def PARTS_PER_BILLION_def)
  moreover have "source_nanos_at_master ?map 9998 = Inr 998"
    by (simp add: source_nanos_at_master_def i128_checked_def floor_div_def trunc_div_def trunc_rem_def
        i64_try_from_def PARTS_PER_BILLION_def)
  ultimately show ?thesis using clock_mapping_inverse by blast
qed

section \<open>The drift estimator\<close>

definition estimator_inv :: "drift_estimator \<Rightarrow> bool" where
  "estimator_inv de \<longleftrightarrow>
     (case (de_first de, de_latest de) of
        (None, None) \<Rightarrow> True
      | (Some (fs, fm), Some (ls, lm)) \<Rightarrow>
          cs_domain fs = de_source_domain de \<and> cs_domain ls = de_source_domain de
          \<and> cs_domain fm = de_master_domain de \<and> cs_domain lm = de_master_domain de
          \<and> cs_time fs \<le> cs_time ls \<and> cs_time fm \<le> cs_time lm
      | _ \<Rightarrow> False)"

lemma estimator_inv_new: "estimator_inv (drift_estimator_new src mst)"
  by (simp add: estimator_inv_def drift_estimator_new_def)

lemma estimator_inv_observe: "estimator_inv de \<Longrightarrow> estimator_inv (snd (drift_observe src mst de))"
proof (cases "de_first de"; cases "de_latest de")
  fix f l
  assume inv: "estimator_inv de" and some: "de_first de = Some f" "de_latest de = Some l"
  then show ?thesis
    by (cases f; cases l) (simp add: estimator_inv_def drift_observe_def, auto)
qed (simp_all add: estimator_inv_def drift_observe_def split: prod.splits)

lemma drift_observe_error: "fst (drift_observe src mst de) = Inl e \<Longrightarrow> snd (drift_observe src mst de) = de"
  by (auto simp: drift_observe_def split: if_splits)

definition drift_run :: "(clock_snapshot \<times> clock_snapshot) list \<Rightarrow> drift_estimator \<Rightarrow> drift_estimator" where
  "drift_run samples de = fold (\<lambda>(src, mst) d. snd (drift_observe src mst d)) samples de"

lemma estimator_inv_run: "estimator_inv de \<Longrightarrow> estimator_inv (drift_run samples de)"
  by (induction samples arbitrary: de) (auto simp: drift_run_def intro: estimator_inv_observe)

lemma drift_mapping_Inr:
  assumes inv: "estimator_inv de" and m: "drift_mapping de = Inr m"
    and latest: "de_latest de = Some (ls, lm)"
  shows "\<exists>sd md. 0 < sd \<and> mapping_wf m
    \<and> int (unat (cs_time ls)) = source_ns m + sd \<and> int (unat (cs_time lm)) = master_ns m + md
    \<and> mapping_scale m = md * PARTS_PER_BILLION div sd"
proof -
  from m obtain fs fm drift ppb where f: "de_first de = Some (fs, fm)"
      and e: "estimated_drift_ppb de = Inr drift" and p: "sint (ppb :: i64) = drift"
      and new: "clock_mapping_new fs fm ppb = Inr m"
    by (auto simp: drift_mapping_def result_simps checked_simps)
  from e f latest obtain sd md where "duration_since (cs_time ls) (cs_time fs) = Some sd"
      and "duration_since (cs_time lm) (cs_time fm) = Some md" and "sd \<noteq> 0"
      and d: "drift = trunc_div (int (unat md) * PARTS_PER_BILLION) (int (unat sd)) - PARTS_PER_BILLION"
    by (auto simp: estimated_drift_ppb_def result_simps i128_checked_Some split: if_splits)
  then have sd: "unat (cs_time ls) = unat (cs_time fs) + unat sd" "sd \<noteq> 0"
      and md: "unat (cs_time lm) = unat (cs_time fm) + unat md"
    by (simp_all add: duration_since_def checked_simps)
  have "0 < unat sd" using sd(2) by (simp add: unat_gt_0)
  then have "0 < int (unat sd)" by (simp only: of_nat_0_less_iff)
  moreover have "mapping_scale m = int (unat md) * PARTS_PER_BILLION div int (unat sd)"
    using new p d calculation ppb_pos
    by (auto simp: clock_mapping_new_def mapping_scale_def trunc_div_nonneg split: if_splits)
  moreover have "cm_source_anchor m = fs" "cm_master_anchor m = fm"
    using new by (auto simp: clock_mapping_new_def split: if_splits)
  ultimately show ?thesis
    using sd(1) md clock_mapping_new_wf [OF new] by fastforce
qed

text \<open>The mapping estimated from any sequence of observations maps the latest source
  sample to at most the latest master sample, short of it by at most one nanosecond per second
  of observed source time plus one.\<close>

theorem drift_mapping_hits_latest_sample:
  assumes "drift_mapping (drift_run samples (drift_estimator_new a b)) = Inr m"
    and "de_latest (drift_run samples (drift_estimator_new a b)) = Some (ls, lm)"
    and "sint s = int (unat (cs_time ls))" and "map_source_nanos m s = Inr x"
  shows "sint x \<le> int (unat (cs_time lm))
    \<and> int (unat (cs_time lm)) - sint x \<le> (sint s - source_ns m) div PARTS_PER_BILLION + 1"
proof -
  have "estimator_inv (drift_run samples (drift_estimator_new a b))"
    by (intro estimator_inv_run estimator_inv_new)
  from drift_mapping_Inr [OF this assms(1,2)] obtain sd md where
    sd: "0 < sd" "int (unat (cs_time ls)) = source_ns m + sd"
    and md: "int (unat (cs_time lm)) = master_ns m + md"
    and k: "mapping_scale m = md * PARTS_PER_BILLION div sd" by auto
  have "sint x = master_ns m + (md * PARTS_PER_BILLION div sd) * sd div PARTS_PER_BILLION"
    using map_source_nanos_Inr [OF assms(4)] assms(3) sd(2) k by (simp add: mult.commute)
  then show ?thesis
    using floor_inverse_bounds [OF ppb_pos sd(1), of md] md assms(3) sd(2) by simp
qed

theorem drift_mapping_hits_latest_sample_witness:
  "\<exists>m. sint (1006000 :: i64) \<le> int (unat (1006000 :: u64))
    \<and> int (unat (1006000 :: u64)) - sint (1006000 :: i64)
        \<le> (sint (1001000 :: i64) - source_ns m) div PARTS_PER_BILLION + 1"
proof -
  let ?snap = "\<lambda>d t. \<lparr>cs_domain = d, cs_time = t\<rparr>"
  let ?samples = "[(?snap 1 1000, ?snap 2 5000), (?snap 1 1001000, ?snap 2 1006000)]"
  let ?m = "\<lparr>cm_source_anchor = ?snap 1 1000, cm_master_anchor = ?snap 2 5000, cm_drift_ppb = 1000000\<rparr>"
  have 1: "drift_mapping (drift_run ?samples (drift_estimator_new 1 2)) = Inr ?m"
    by (simp add: drift_run_def drift_observe_def drift_estimator_new_def drift_mapping_def
        estimated_drift_ppb_def duration_since_def checked_sub_def i128_checked_def trunc_div_def
        i64_try_from_def clock_mapping_new_def PARTS_PER_BILLION_def)
  have 2: "de_latest (drift_run ?samples (drift_estimator_new 1 2)) = Some (?snap 1 1001000, ?snap 2 1006000)"
    by (simp add: drift_run_def drift_observe_def drift_estimator_new_def)
  have 3: "map_source_nanos ?m 1001000 = Inr 1006000"
    by (simp add: map_source_nanos_def i128_checked_def floor_div_def trunc_div_def trunc_rem_def
        i64_try_from_def PARTS_PER_BILLION_def)
  show ?thesis
    using drift_mapping_hits_latest_sample [OF 1 2 _ 3] by (intro exI [of _ ?m]) simp
qed

end
