(* ===== verification/BTree.thy ===== *)
theory BTree
  imports Prelude "HOL-Library.Product_Lexorder"
begin

text \<open>
  The standard library's \<open>BTreeMap\<close> as the crates use it: an association list in strictly
  ascending key order. Its iteration order is the order of the list; a lookup is \<^const>\<open>map_of\<close>.
  Pairs are compared lexicographically, as the derived \<open>Ord\<close> of a Rust tuple compares them.
\<close>

named_theorems btree_simps \<open>lookup and key set of ordered maps\<close>

type_synonym ('k, 'v) btree = "('k \<times> 'v) list"

abbreviation bt_keys :: "('k, 'v) btree \<Rightarrow> 'k set" where
  "bt_keys m \<equiv> fst ` set m"

definition bt_sorted :: "('k::linorder, 'v) btree \<Rightarrow> bool" where
  "bt_sorted m \<longleftrightarrow> sorted_wrt (<) (map fst m)"

fun bt_insert :: "'k::linorder \<Rightarrow> 'v \<Rightarrow> ('k, 'v) btree \<Rightarrow> ('k, 'v) btree" where
  "bt_insert k v [] = [(k, v)]"
| "bt_insert k v ((k', v') # m) =
     (if k < k' then (k, v) # (k', v') # m
      else if k = k' then (k, v) # m
      else (k', v') # bt_insert k v m)"

definition bt_remove :: "'k \<Rightarrow> ('k, 'v) btree \<Rightarrow> ('k, 'v) btree" where
  "bt_remove k m = filter (\<lambda>(k', _). k' \<noteq> k) m"

definition bt_range_to :: "'k::linorder \<Rightarrow> ('k, 'v) btree \<Rightarrow> ('k, 'v) btree" where
  "bt_range_to bound m = filter (\<lambda>(k, _). k \<le> bound) m"

text \<open>Writing through \<open>get_mut\<close>: the value of a key that is present.\<close>

fun bt_set :: "'k \<Rightarrow> 'v \<Rightarrow> ('k, 'v) btree \<Rightarrow> ('k, 'v) btree" where
  "bt_set k v [] = []"
| "bt_set k v ((k', v') # m) = (if k' = k then (k', v) # m else (k', v') # bt_set k v m)"

lemma bt_sorted_Nil [simp]: "bt_sorted []"
  by (simp add: bt_sorted_def)

lemma bt_sorted_Cons [simp]: "bt_sorted ((k, v) # m) \<longleftrightarrow> (\<forall>k' \<in> bt_keys m. k < k') \<and> bt_sorted m"
  by (auto simp: bt_sorted_def)

lemma bt_sorted_distinct: "bt_sorted m \<Longrightarrow> distinct (map fst m)"
  by (induction m) (auto simp: bt_sorted_def)

lemma map_of_bt_insert [btree_simps]: "map_of (bt_insert k v m) = (map_of m)(k \<mapsto> v)"
  by (induction k v m rule: bt_insert.induct) auto

lemma bt_keys_insert [btree_simps]: "bt_keys (bt_insert k v m) = insert k (bt_keys m)"
  by (induction k v m rule: bt_insert.induct) auto

lemma bt_sorted_insert [simp]: "bt_sorted m \<Longrightarrow> bt_sorted (bt_insert k v m)"
  by (induction k v m rule: bt_insert.induct) (auto simp: bt_keys_insert)

lemma map_of_bt_set [btree_simps]: "map_of m k \<noteq> None \<Longrightarrow> map_of (bt_set k v m) = (map_of m)(k \<mapsto> v)"
  by (induction k v m rule: bt_set.induct) (auto simp: fun_eq_iff)

lemma map_of_filter_key: "map_of (filter (\<lambda>(k, _). P k) m) = (\<lambda>k. if P k then map_of m k else None)"
  by (induction m) auto

lemma map_of_bt_remove [btree_simps]: "map_of (bt_remove k m) = (map_of m)(k := None)"
  by (auto simp: bt_remove_def map_of_filter_key [of "\<lambda>k'. k' \<noteq> k"])

lemma bt_keys_remove [btree_simps]: "bt_keys (bt_remove k m) = bt_keys m - {k}"
  by (force simp: bt_remove_def)

lemma bt_sorted_filter [simp]: "bt_sorted m \<Longrightarrow> bt_sorted (filter P m)"
  by (induction m) auto

lemma bt_sorted_remove [simp]: "bt_sorted m \<Longrightarrow> bt_sorted (bt_remove k m)"
  by (simp add: bt_remove_def)

lemma bt_mem_iff: "bt_sorted m \<Longrightarrow> (k, v) \<in> set m \<longleftrightarrow> map_of m k = Some v"
  by (simp add: bt_sorted_distinct)

lemma bt_ball: "bt_sorted m \<Longrightarrow> (\<forall>x \<in> set m. P x) \<longleftrightarrow> (\<forall>k v. map_of m k = Some v \<longrightarrow> P (k, v))"
  using bt_mem_iff [of m] by (metis surj_pair)

lemma bt_key_iff: "k \<in> bt_keys m \<longleftrightarrow> map_of m k \<noteq> None"
  by (simp add: map_of_eq_None_iff)

lemma bt_insert_last: "\<forall>k' \<in> bt_keys m. k' < k \<Longrightarrow> bt_insert k v m = m @ [(k, v)]"
  by (induction m) auto

lemma bt_remove_last: "\<forall>k' \<in> bt_keys m. k' \<noteq> k \<Longrightarrow> bt_remove k (m @ [(k, v)]) = m"
  by (auto simp: bt_remove_def intro!: filter_True)

lemma bt_keys_set [btree_simps]: "bt_keys (bt_set k v m) = bt_keys m"
  by (induction k v m rule: bt_set.induct) auto

lemma map_fst_bt_set: "map fst (bt_set k v m) = map fst m"
  by (induction k v m rule: bt_set.induct) auto

lemma bt_sorted_set [simp]: "bt_sorted m \<Longrightarrow> bt_sorted (bt_set k v m)"
  by (simp add: bt_sorted_def map_fst_bt_set)

text \<open>Collecting pairs into a map: a later pair replaces an earlier one.\<close>

definition bt_collect :: "('k::linorder \<times> 'v) list \<Rightarrow> ('k, 'v) btree" where
  "bt_collect ps = fold (\<lambda>(k, v) m. bt_insert k v m) ps []"

lemma bt_fold_insert:
  "bt_sorted m \<Longrightarrow> bt_sorted (fold (\<lambda>(k, v) m. bt_insert k v m) ps m)"
  "bt_keys (fold (\<lambda>(k, v) m. bt_insert k v m) ps m) = fst ` set ps \<union> bt_keys m"
  "map_of (fold (\<lambda>(k, v) m. bt_insert k v m) ps m) = fold (\<lambda>(k, v) m. m(k \<mapsto> v)) ps (map_of m)"
  by (induction ps arbitrary: m) (simp_all add: split_beta btree_simps)

lemma bt_sorted_collect [simp]: "bt_sorted (bt_collect ps)"
  by (simp add: bt_collect_def bt_fold_insert(1))

lemma bt_keys_collect [btree_simps]: "bt_keys (bt_collect ps) = fst ` set ps"
  by (simp add: bt_collect_def bt_fold_insert(2))

lemma map_of_bt_collect: "map_of (bt_collect ps) = fold (\<lambda>(k, v) m. m(k \<mapsto> v)) ps Map.empty"
  by (simp add: bt_collect_def bt_fold_insert(3))

lemma bt_fold_append:
  "bt_sorted (m @ ps) \<Longrightarrow> fold (\<lambda>(k, v) m. bt_insert k v m) ps m = m @ ps"
proof (induction ps arbitrary: m)
  case (Cons p ps)
  obtain k v where p: "p = (k, v)" by fastforce
  have "\<forall>k' \<in> bt_keys m. k' < k" using Cons.prems by (auto simp: bt_sorted_def sorted_wrt_append p)
  then have "bt_insert k v m = m @ [(k, v)]" by (rule bt_insert_last)
  then show ?case using Cons.IH [of "m @ [(k, v)]"] Cons.prems by (simp add: p)
qed simp

lemma bt_collect_sorted: "bt_sorted ps \<Longrightarrow> bt_collect ps = ps"
  using bt_fold_append [of "[]" ps] by (simp add: bt_collect_def)

end
