(* ===== verification/Scheduler_Queues.thy ===== *)
theory Scheduler_Queues
  imports BTree
begin

text \<open>
  The crate \<open>crates/media/fm-scheduler\<close>, its queues: the queue of actions scheduled for a frame
  (\<open>action.rs\<close>) and the bounded frame queues of the inputs (\<open>queue.rs\<close>). A \<open>HashMap\<close> is a partial
  function, the \<open>BTreeMap\<close> an ordered association list, a \<open>VecDeque\<close> a list whose head is the front.
\<close>

type_synonym frame_number = u64
type_synonym action_id = u64
type_synonym plan_generation = u64

record frame_deadline =
  fd_frame :: frame_number
  fd_at_ns :: u64

section \<open>Scheduled actions\<close>

datatype action_error = ActionSequenceExhausted | UnknownAction action_id

record 'a scheduled_action =
  sa_id :: action_id
  sa_target_frame :: frame_number
  sa_action :: 'a

record 'a action_queue =
  aq_next_sequence :: u64
  aq_ordered :: "(frame_number \<times> action_id, 'a scheduled_action) btree"
  aq_by_id :: "action_id \<rightharpoonup> frame_number \<times> action_id"

definition action_queue_default :: "'a action_queue" where
  "action_queue_default = \<lparr>aq_next_sequence = 0, aq_ordered = [], aq_by_id = Map.empty\<rparr>"

definition action_queue_len :: "'a action_queue \<Rightarrow> nat" where
  "action_queue_len q = length (aq_ordered q)"

definition action_queue_is_empty :: "'a action_queue \<Rightarrow> bool" where
  "action_queue_is_empty q \<longleftrightarrow> aq_ordered q = []"

definition allocate_id :: "(action_error, action_id, 'a action_queue) meth" where
  "allocate_id q =
     (case ok_or (checked_add (aq_next_sequence q) 1) ActionSequenceExhausted of
        Inl e \<Rightarrow> (Inl e, q)
      | Inr n \<Rightarrow> (Inr n, q\<lparr>aq_next_sequence := n\<rparr>))"

definition insert_action :: "action_id \<Rightarrow> frame_number \<Rightarrow> 'a \<Rightarrow> 'a action_queue \<Rightarrow> 'a action_queue" where
  "insert_action i target a q =
     (let key = (target, i) in
      q\<lparr>aq_by_id := (aq_by_id q)(i \<mapsto> key),
        aq_ordered := bt_insert key \<lparr>sa_id = i, sa_target_frame = target, sa_action = a\<rparr> (aq_ordered q)\<rparr>)"

definition schedule_action :: "frame_number \<Rightarrow> 'a \<Rightarrow> (action_error, action_id, 'a action_queue) meth" where
  "schedule_action target a q =
     (case allocate_id q of
        (Inl e, q') \<Rightarrow> (Inl e, q')
      | (Inr i, q') \<Rightarrow> (Inr i, insert_action i target a q'))"

definition cancel_action :: "action_id \<Rightarrow> 'a action_queue \<Rightarrow> 'a scheduled_action option \<times> 'a action_queue" where
  "cancel_action i q =
     (case aq_by_id q i of
        None \<Rightarrow> (None, q)
      | Some key \<Rightarrow>
          (map_of (aq_ordered q) key,
           q\<lparr>aq_by_id := (aq_by_id q)(i := None), aq_ordered := bt_remove key (aq_ordered q)\<rparr>))"

definition supersede_action ::
  "action_id \<Rightarrow> frame_number \<Rightarrow> 'a \<Rightarrow> (action_error, action_id \<times> 'a scheduled_action, 'a action_queue) meth" where
  "supersede_action superseded target a q =
     (if aq_by_id q superseded = None then (Inl (UnknownAction superseded), q)
      else case allocate_id q of
          (Inl e, q') \<Rightarrow> (Inl e, q')
        | (Inr i, q') \<Rightarrow>
            (case cancel_action superseded q' of
               (None, q'') \<Rightarrow> (Inl (UnknownAction superseded), q'')
             | (Some previous, q'') \<Rightarrow> (Inr (i, previous), insert_action i target a q'')))"

text \<open>The loop of \<open>drain_due\<close>: \<open>filter_map\<close> with \<open>cancel\<close> over the collected keys.\<close>

fun cancel_keys ::
  "(frame_number \<times> action_id) list \<Rightarrow> 'a action_queue \<Rightarrow> 'a scheduled_action list \<times> 'a action_queue" where
  "cancel_keys [] q = ([], q)"
| "cancel_keys ((_, i) # ks) q =
     (case cancel_action i q of
        (None, q') \<Rightarrow> cancel_keys ks q'
      | (Some x, q') \<Rightarrow> (case cancel_keys ks q' of (xs, q'') \<Rightarrow> (x # xs, q'')))"

definition drain_due :: "frame_number \<Rightarrow> 'a action_queue \<Rightarrow> 'a scheduled_action list \<times> 'a action_queue" where
  "drain_due frame q = cancel_keys (map fst (bt_range_to (frame, - 1) (aq_ordered q))) q"

section \<open>Bounded queues\<close>

datatype queue_policy = DropOldest | DropNewest | BlockProducer

datatype queue_config_error = ZeroCapacity | DuplicateInput

datatype 't queue_push = Enqueued "'t option" | DroppedNewest 't

fun push_dropped :: "'t queue_push \<Rightarrow> bool" where
  "push_dropped (Enqueued (Some _)) = True"
| "push_dropped (DroppedNewest _) = True"
| "push_dropped (Enqueued None) = False"

datatype 't input_queue_error = UnknownInput 't | WouldBlock 't

record 't bounded_queue =
  bq_capacity :: usize
  bq_policy :: queue_policy
  bq_items :: "'t list"

definition bounded_queue_new :: "usize \<Rightarrow> queue_policy \<Rightarrow> queue_config_error + 't bounded_queue" where
  "bounded_queue_new capacity policy =
     (if capacity = 0 then Inl ZeroCapacity
      else Inr \<lparr>bq_capacity = capacity, bq_policy = policy, bq_items = []\<rparr>)"

definition bounded_queue_push :: "'t \<Rightarrow> ('t input_queue_error, 't queue_push, 't bounded_queue) meth" where
  "bounded_queue_push item q =
     (if length (bq_items q) < bq_capacity q
      then (Inr (Enqueued None), q\<lparr>bq_items := bq_items q @ [item]\<rparr>)
      else case bq_policy q of
          DropOldest \<Rightarrow>
            (case bq_items q of
               [] \<Rightarrow> (Inr (Enqueued None), q\<lparr>bq_items := [item]\<rparr>)
             | front # rest \<Rightarrow> (Inr (Enqueued (Some front)), q\<lparr>bq_items := rest @ [item]\<rparr>))
        | DropNewest \<Rightarrow> (Inr (DroppedNewest item), q)
        | BlockProducer \<Rightarrow> (Inl (WouldBlock item), q))"

definition bounded_queue_pop :: "'t bounded_queue \<Rightarrow> 't option \<times> 't bounded_queue" where
  "bounded_queue_pop q =
     (case bq_items q of [] \<Rightarrow> (None, q) | front # rest \<Rightarrow> (Some front, q\<lparr>bq_items := rest\<rparr>))"

type_synonym ('i, 't) input_queues = "'i \<rightharpoonup> 't bounded_queue"

definition input_queues_register ::
  "'i \<Rightarrow> usize \<Rightarrow> queue_policy \<Rightarrow> (queue_config_error, unit, ('i, 't) input_queues) meth" where
  "input_queues_register input capacity policy qs =
     (if qs input \<noteq> None then (Inl DuplicateInput, qs)
      else case bounded_queue_new capacity policy of
          Inl e \<Rightarrow> (Inl e, qs)
        | Inr q \<Rightarrow> (Inr (), qs(input \<mapsto> q)))"

definition input_queues_push ::
  "'i \<Rightarrow> 't \<Rightarrow> ('t input_queue_error, 't queue_push, ('i, 't) input_queues) meth" where
  "input_queues_push input item qs =
     (case qs input of
        None \<Rightarrow> (Inl (UnknownInput item), qs)
      | Some q \<Rightarrow> (case bounded_queue_push item q of (r, q') \<Rightarrow> (r, qs(input \<mapsto> q'))))"

definition input_queues_pop :: "'i \<Rightarrow> ('i, 't) input_queues \<Rightarrow> 't option \<times> ('i, 't) input_queues" where
  "input_queues_pop input qs =
     (case qs input of
        None \<Rightarrow> (None, qs)
      | Some q \<Rightarrow> (case bounded_queue_pop q of (r, q') \<Rightarrow> (r, qs(input \<mapsto> q'))))"

definition input_queues_len :: "'i \<Rightarrow> ('i, 't) input_queues \<Rightarrow> nat option" where
  "input_queues_len input qs = map_option (\<lambda>q. length (bq_items q)) (qs input)"

section \<open>The action queue implements a timed store\<close>

text \<open>What a client sees of an action queue: which action waits under an identifier, and for when.\<close>

type_synonym 'a timed_store = "action_id \<rightharpoonup> frame_number \<times> 'a"

definition queue_store :: "'a action_queue \<Rightarrow> 'a timed_store" where
  "queue_store q i =
     (case aq_by_id q i of
        None \<Rightarrow> None
      | Some key \<Rightarrow> map_option (\<lambda>x. (sa_target_frame x, sa_action x)) (map_of (aq_ordered q) key))"

definition queue_inv :: "'a action_queue \<Rightarrow> bool" where
  "queue_inv q \<longleftrightarrow> bt_sorted (aq_ordered q)
     \<and> (\<forall>f i x. map_of (aq_ordered q) (f, i) = Some x \<longrightarrow>
          sa_target_frame x = f \<and> sa_id x = i \<and> i \<le> aq_next_sequence q \<and> aq_by_id q i = Some (f, i))
     \<and> (\<forall>i k. aq_by_id q i = Some k \<longrightarrow> snd k = i \<and> map_of (aq_ordered q) k \<noteq> None)"

lemma queue_inv_ordered:
  assumes "queue_inv q" "map_of (aq_ordered q) (f, i) = Some x"
  shows "sa_target_frame x = f" "sa_id x = i" "i \<le> aq_next_sequence q" "aq_by_id q i = Some (f, i)"
  using assms by (auto simp: queue_inv_def)

lemma queue_inv_by_id:
  assumes "queue_inv q" "aq_by_id q i = Some k"
  obtains f a where "k = (f, i)" "i \<le> aq_next_sequence q"
    "map_of (aq_ordered q) (f, i) = Some \<lparr>sa_id = i, sa_target_frame = f, sa_action = a\<rparr>"
proof -
  obtain f x where x: "k = (f, i)" "map_of (aq_ordered q) (f, i) = Some x"
    using assms unfolding queue_inv_def by (metis not_None_eq prod.collapse)
  note q = queue_inv_ordered [OF assms(1) x(2)]
  have "x = \<lparr>sa_id = i, sa_target_frame = f, sa_action = sa_action x\<rparr>" using q(1,2) by simp
  with x q(3) show thesis using that [of f "sa_action x"] by simp
qed

lemma queue_inv_default: "queue_inv action_queue_default"
  by (simp add: queue_inv_def action_queue_default_def)

lemma queue_store_default: "queue_store action_queue_default = Map.empty"
  by (simp add: queue_store_def action_queue_default_def fun_eq_iff)

lemma queue_store_Some:
  assumes "queue_inv q"
  shows "queue_store q i = Some (f, a) \<longleftrightarrow>
    map_of (aq_ordered q) (f, i) = Some \<lparr>sa_id = i, sa_target_frame = f, sa_action = a\<rparr>"
proof
  assume "queue_store q i = Some (f, a)"
  then obtain k x where k: "aq_by_id q i = Some k" "map_of (aq_ordered q) k = Some x"
    "f = sa_target_frame x" "a = sa_action x"
    by (auto simp: queue_store_def split: option.splits)
  show "map_of (aq_ordered q) (f, i) = Some \<lparr>sa_id = i, sa_target_frame = f, sa_action = a\<rparr>"
    by (rule queue_inv_by_id [OF assms k(1)]) (use k in auto)
next
  assume *: "map_of (aq_ordered q) (f, i) = Some \<lparr>sa_id = i, sa_target_frame = f, sa_action = a\<rparr>"
  with queue_inv_ordered(4) [OF assms *] show "queue_store q i = Some (f, a)" by (simp add: queue_store_def)
qed

lemma queue_store_None: "queue_inv q \<Longrightarrow> queue_store q i = None \<longleftrightarrow> aq_by_id q i = None"
  by (auto simp: queue_store_def queue_inv_def split: option.splits)

lemma allocate_id_cases:
  obtains (exhausted) "aq_next_sequence q = - 1" "allocate_id q = (Inl ActionSequenceExhausted, q)"
  | (fresh) n where "unat n = Suc (unat (aq_next_sequence q))" "aq_next_sequence q < n"
      "allocate_id q = (Inr n, q\<lparr>aq_next_sequence := n\<rparr>)"
proof (cases "checked_add (aq_next_sequence q) 1")
  case None
  then have "unat (aq_next_sequence q) = 2 ^ 64 - 1"
    using unat_u64_less [of "aq_next_sequence q"] by (simp add: checked_simps)
  then have "unat (aq_next_sequence q) = unat (- 1 :: u64)"
    by (simp add: unsigned_minus_1_eq_mask mask_eq_exp_minus_1)
  then have "aq_next_sequence q = - 1" by (rule unsigned_word_eqI)
  with None show thesis by (intro exhausted) (simp_all add: allocate_id_def ok_or_def)
next
  case (Some n)
  then have "unat n = Suc (unat (aq_next_sequence q))" by (simp add: checked_simps)
  with Some show thesis by (intro fresh [of n]) (simp_all add: allocate_id_def ok_or_def word_less_unat)
qed

lemma queue_insert:
  fixes f a
  assumes "queue_inv q" "aq_next_sequence q < n"
  defines "q' \<equiv> insert_action n f a (q\<lparr>aq_next_sequence := n\<rparr>)"
  shows "queue_inv q'" "queue_store q' = (queue_store q)(n \<mapsto> (f, a))"
proof -
  have fresh: "aq_by_id q n = None"
    using queue_inv_by_id [OF assms(1), of n] assms(2) by (metis leD not_None_eq)
  then have nokey: "map_of (aq_ordered q) (g, n) = None" for g
    using queue_inv_ordered(4) [OF assms(1), of g n] by fastforce
  have le: "map_of (aq_ordered q) (g, i) = Some x \<Longrightarrow> i \<le> n" for g i x
    using queue_inv_ordered(3) [OF assms(1)] assms(2) by fastforce
  show "queue_inv q'"
    using assms(1) fresh nokey le
    by (auto simp: queue_inv_def q'_def insert_action_def Let_def btree_simps split: if_splits)
  have "queue_store q' i = ((queue_store q)(n \<mapsto> (f, a))) i" for i
  proof (cases "i = n \<or> aq_by_id q i = None")
    case False
    then obtain k where k: "aq_by_id q i = Some k" by auto
    then have "k \<noteq> (f, n)" using queue_inv_by_id [OF assms(1) k] False by (metis prod.inject)
    with False k show ?thesis
      by (simp add: queue_store_def q'_def insert_action_def Let_def btree_simps)
  qed (auto simp: queue_store_def q'_def insert_action_def Let_def btree_simps)
  then show "queue_store q' = (queue_store q)(n \<mapsto> (f, a))" ..
qed

lemma queue_cancel:
  fixes i
  assumes "queue_inv q"
  defines "q' \<equiv> snd (cancel_action i q)"
  shows "queue_inv q'" "queue_store q' = (queue_store q)(i := None)"
    "aq_next_sequence q' = aq_next_sequence q"
    "fst (cancel_action i q) = map_option (\<lambda>(f, a). \<lparr>sa_id = i, sa_target_frame = f, sa_action = a\<rparr>) (queue_store q i)"
proof -
  have "queue_inv q' \<and> queue_store q' = (queue_store q)(i := None)
    \<and> aq_next_sequence q' = aq_next_sequence q
    \<and> fst (cancel_action i q) = map_option (\<lambda>(f, a). \<lparr>sa_id = i, sa_target_frame = f, sa_action = a\<rparr>) (queue_store q i)"
  proof (cases "aq_by_id q i")
    case None
    then show ?thesis
      using assms(1) by (simp add: q'_def cancel_action_def queue_store_def fun_upd_idem)
  next
    case (Some k)
    then obtain f a where k: "k = (f, i)"
      "map_of (aq_ordered q) (f, i) = Some \<lparr>sa_id = i, sa_target_frame = f, sa_action = a\<rparr>"
      using queue_inv_by_id [OF assms(1) Some] by metis
    have q': "q' = q\<lparr>aq_by_id := (aq_by_id q)(i := None), aq_ordered := bt_remove (f, i) (aq_ordered q)\<rparr>"
      using Some k by (simp add: q'_def cancel_action_def)
    have other: "aq_by_id q j = Some (g, l) \<Longrightarrow> l = j" for j g l
      using assms(1) by (auto simp: queue_inv_def)
    have sole: "g \<noteq> f \<Longrightarrow> map_of (aq_ordered q) (g, i) = None" for g
      using queue_inv_ordered(4) [OF assms(1), of g i] Some k by fastforce
    have "queue_inv q'"
      using assms(1) sole other unfolding q' queue_inv_def
      by (auto simp: btree_simps split: if_splits; blast)
    moreover have "queue_store q' j = ((queue_store q)(i := None)) j" for j
      using other [of j]
      by (cases "aq_by_id q j") (auto simp: q' queue_store_def btree_simps)
    ultimately show ?thesis
      using Some k by (auto simp: q' cancel_action_def queue_store_def)
  qed
  then show "queue_inv q'" "queue_store q' = (queue_store q)(i := None)"
    "aq_next_sequence q' = aq_next_sequence q"
    "fst (cancel_action i q) = map_option (\<lambda>(f, a). \<lparr>sa_id = i, sa_target_frame = f, sa_action = a\<rparr>) (queue_store q i)"
    by blast+
qed

text \<open>What the queue promises of each operation, in terms of the store.\<close>

lemma queue_schedule:
  assumes "queue_inv q"
  shows "(schedule_action f a q = (Inl ActionSequenceExhausted, q) \<and> aq_next_sequence q = - 1)
    \<or> (\<exists>n q'. schedule_action f a q = (Inr n, q') \<and> queue_inv q' \<and> aq_next_sequence q < n
         \<and> aq_next_sequence q' = n \<and> queue_store q n = None \<and> queue_store q' = (queue_store q)(n \<mapsto> (f, a)))"
proof (cases rule: allocate_id_cases [of q])
  case exhausted
  then show ?thesis by (simp add: schedule_action_def)
next
  case (fresh n)
  have "aq_by_id q n = None"
    using queue_inv_by_id [OF assms, of n] fresh(2) by (metis leD not_None_eq)
  then show ?thesis
    using fresh queue_insert [OF assms fresh(2), of f a] assms
    by (simp add: schedule_action_def queue_store_None) (simp add: insert_action_def Let_def)
qed

lemma schedule_action_cases:
  assumes "queue_inv q"
  obtains (exhausted) "schedule_action f a q = (Inl ActionSequenceExhausted, q)" "aq_next_sequence q = - 1"
  | (scheduled) n q' where "schedule_action f a q = (Inr n, q')" "queue_inv q'" "queue_store q n = None"
      "queue_store q' = (queue_store q)(n \<mapsto> (f, a))" "aq_next_sequence q < n" "aq_next_sequence q' = n"
  using queue_schedule [OF assms, of f a] by blast

lemma queue_supersede:
  assumes "queue_inv q"
  shows "(supersede_action i f a q = (Inl (UnknownAction i), q) \<and> queue_store q i = None)
    \<or> (supersede_action i f a q = (Inl ActionSequenceExhausted, q) \<and> aq_next_sequence q = - 1)
    \<or> (\<exists>n q' g b. supersede_action i f a q
             = (Inr (n, \<lparr>sa_id = i, sa_target_frame = g, sa_action = b\<rparr>), q')
         \<and> queue_store q i = Some (g, b) \<and> queue_inv q' \<and> aq_next_sequence q < n \<and> aq_next_sequence q' = n
         \<and> queue_store q n = None \<and> queue_store q' = (queue_store q)(i := None, n \<mapsto> (f, a)))"
proof (cases "queue_store q i")
  case None
  with assms show ?thesis by (simp add: supersede_action_def queue_store_None)
next
  case (Some ga)
  then have known: "aq_by_id q i \<noteq> None" using queue_store_None [OF assms, of i] by simp
  show ?thesis
  proof (cases rule: allocate_id_cases [of q])
    case exhausted
    with known show ?thesis by (auto simp: supersede_action_def)
  next
    case (fresh n)
    define q1 where "q1 = q\<lparr>aq_next_sequence := n\<rparr>"
    define q2 where "q2 = snd (cancel_action i q)"
    have q2': "snd (cancel_action i q1) = q2\<lparr>aq_next_sequence := n\<rparr>" "fst (cancel_action i q1) = fst (cancel_action i q)"
      by (auto simp: q1_def q2_def cancel_action_def split: option.splits)
    note c = queue_cancel [OF assms, of i, folded q2_def]
    have ins: "queue_inv (insert_action n f a (q2\<lparr>aq_next_sequence := n\<rparr>))"
      "queue_store (insert_action n f a (q2\<lparr>aq_next_sequence := n\<rparr>)) = (queue_store q2)(n \<mapsto> (f, a))"
      using queue_insert [OF c(1), of n f a] fresh(2) c(3) by simp_all
    have nn: "queue_store q n = None"
      using queue_inv_by_id [OF assms, of n] fresh(2) queue_store_None [OF assms] by (metis leD not_None_eq)
    obtain g b where gb: "ga = (g, b)" by fastforce
    have "cancel_action i q1 = (Some \<lparr>sa_id = i, sa_target_frame = g, sa_action = b\<rparr>, q2\<lparr>aq_next_sequence := n\<rparr>)"
      using q2' c(4) Some gb by (simp add: prod_eq_iff)
    then have "supersede_action i f a q = (Inr (n, \<lparr>sa_id = i, sa_target_frame = g, sa_action = b\<rparr>),
        insert_action n f a (q2\<lparr>aq_next_sequence := n\<rparr>))"
      using known fresh(3) by (simp add: supersede_action_def q1_def)
    moreover have "aq_next_sequence (insert_action n f a (q2\<lparr>aq_next_sequence := n\<rparr>)) = n"
      by (simp add: insert_action_def Let_def)
    ultimately show ?thesis using ins c(2) Some gb nn fresh(2) by auto
  qed
qed

lemma queue_cancel_keys:
  assumes "queue_inv q" "distinct (map snd ks)" "\<forall>(f, i) \<in> set ks. \<exists>a. queue_store q i = Some (f, a)"
  shows "queue_inv (snd (cancel_keys ks q))
    \<and> aq_next_sequence (snd (cancel_keys ks q)) = aq_next_sequence q
    \<and> queue_store (snd (cancel_keys ks q)) = queue_store q |` (- snd ` set ks)
    \<and> fst (cancel_keys ks q)
      = map (\<lambda>(f, i). \<lparr>sa_id = i, sa_target_frame = f, sa_action = snd (the (queue_store q i))\<rparr>) ks"
  using assms
proof (induction ks arbitrary: q)
  case Nil
  then show ?case by simp
next
  case (Cons k ks)
  obtain f i a where k: "k = (f, i)" and a: "queue_store q i = Some (f, a)" using Cons.prems(3) by auto
  define q1 where "q1 = snd (cancel_action i q)"
  note c = queue_cancel [OF Cons.prems(1), of i, folded q1_def]
  have step: "cancel_action i q = (Some \<lparr>sa_id = i, sa_target_frame = f, sa_action = a\<rparr>, q1)"
    using c(4) a by (simp add: q1_def prod_eq_iff)
  have i: "i \<notin> snd ` set ks" using Cons.prems(2) k by simp
  then have "\<forall>(g, j) \<in> set ks. \<exists>a. queue_store q1 j = Some (g, a)"
    using Cons.prems(3) unfolding c(2) by force
  from Cons.IH [OF c(1) _ this] Cons.prems(2) have "queue_inv (snd (cancel_keys ks q1))
    \<and> aq_next_sequence (snd (cancel_keys ks q1)) = aq_next_sequence q1
    \<and> queue_store (snd (cancel_keys ks q1)) = queue_store q1 |` (- snd ` set ks)
    \<and> fst (cancel_keys ks q1)
      = map (\<lambda>(f, i). \<lparr>sa_id = i, sa_target_frame = f, sa_action = snd (the (queue_store q1 i))\<rparr>) ks"
    by simp
  moreover have "queue_store q1 |` (- snd ` set ks) = queue_store q |` (- snd ` set (k # ks))"
    unfolding c(2) k by (auto simp: restrict_map_def fun_eq_iff)
  moreover have "map (\<lambda>(f, i). \<lparr>sa_id = i, sa_target_frame = f, sa_action = snd (the (queue_store q1 i))\<rparr>) ks
      = map (\<lambda>(f, i). \<lparr>sa_id = i, sa_target_frame = f, sa_action = snd (the (queue_store q i))\<rparr>) ks"
    using i unfolding c(2) by auto force
  ultimately show ?case
    using c(3) a by (cases "cancel_keys ks q1") (simp add: k step)
qed

lemma queue_mem_ordered:
  "queue_inv q \<Longrightarrow> (k, x) \<in> set (aq_ordered q) \<longleftrightarrow> map_of (aq_ordered q) k = Some x"
  by (simp add: queue_inv_def bt_mem_iff)

abbreviation action_key :: "'a scheduled_action \<Rightarrow> frame_number \<times> action_id" where
  "action_key x \<equiv> (sa_target_frame x, sa_id x)"

text \<open>The actions that wait in a store and are due at a frame.\<close>

definition due_actions :: "'a timed_store \<Rightarrow> frame_number \<Rightarrow> 'a scheduled_action set" where
  "due_actions st f = {x. st (sa_id x) = Some (sa_target_frame x, sa_action x) \<and> sa_target_frame x \<le> f}"

definition drop_due :: "'a timed_store \<Rightarrow> frame_number \<Rightarrow> 'a timed_store" where
  "drop_due st f = (\<lambda>i. case st i of None \<Rightarrow> None | Some (g, a) \<Rightarrow> if g \<le> f then None else Some (g, a))"

lemma due_actions_ids: "a \<in> sa_id ` due_actions st f \<longleftrightarrow> (\<exists>g x. st a = Some (g, x) \<and> g \<le> f)"
proof
  assume "\<exists>g x. st a = Some (g, x) \<and> g \<le> f"
  then obtain g x where "\<lparr>sa_id = a, sa_target_frame = g, sa_action = x\<rparr> \<in> due_actions st f"
    by (auto simp: due_actions_def)
  then show "a \<in> sa_id ` due_actions st f" by force
qed (auto simp: due_actions_def)

lemma drop_due_restrict: "st |` (- (sa_id ` due_actions st f)) = drop_due st f"
  by (auto simp: restrict_map_def drop_due_def due_actions_ids fun_eq_iff split: option.split)

lemma u64_le_max [simp]: "x \<le> (- 1 :: u64)"
  by simp

lemma mem_map_pair: "x \<in> set (map (\<lambda>(g, i). h g i) ps) \<longleftrightarrow> (\<exists>g i. (g, i) \<in> set ps \<and> x = h g i)"
  by force

lemma queue_drain:
  assumes "queue_inv q"
  shows "queue_inv (snd (drain_due f q))"
    and "aq_next_sequence (snd (drain_due f q)) = aq_next_sequence q"
    and "queue_store (snd (drain_due f q)) = drop_due (queue_store q) f"
    and "set (fst (drain_due f q)) = due_actions (queue_store q) f"
    and "sorted_wrt (\<lambda>x y. action_key x < action_key y) (fst (drain_due f q))"
proof -
  let ?ks = "map fst (bt_range_to (f, - 1) (aq_ordered q))"
  have ks: "(g, i) \<in> set ?ks \<longleftrightarrow> g \<le> f \<and> (\<exists>a. queue_store q i = Some (g, a))" for g i
  proof -
    have "(g, i) \<in> set ?ks \<longleftrightarrow> g \<le> f \<and> (\<exists>x. map_of (aq_ordered q) (g, i) = Some x)"
      using assms by (force simp: bt_range_to_def queue_mem_ordered less_le)
    also have "\<dots> \<longleftrightarrow> g \<le> f \<and> (\<exists>a. queue_store q i = Some (g, a))"
    proof -
      have "map_of (aq_ordered q) (g, i) = Some x \<Longrightarrow> queue_store q i = Some (g, sa_action x)" for x
        using queue_inv_ordered [OF assms, of g i x] by (simp add: queue_store_def)
      then show ?thesis using queue_store_Some [OF assms] by blast
    qed
    finally show ?thesis .
  qed
  have sorted: "sorted_wrt (<) ?ks"
    using assms bt_sorted_filter [of "aq_ordered q"] by (simp add: queue_inv_def bt_range_to_def bt_sorted_def)
  have "distinct (map snd ?ks)"
  proof -
    have "distinct ?ks" using sorted by (simp add: strict_sorted_iff)
    moreover have "inj_on snd (set ?ks)" using ks by (intro inj_onI) (metis prod.collapse option.inject prod.inject)
    ultimately show ?thesis using distinct_map [of snd ?ks] by blast
  qed
  from queue_cancel_keys [OF assms this] have drained:
    "queue_inv (snd (drain_due f q))" "aq_next_sequence (snd (drain_due f q)) = aq_next_sequence q"
    "queue_store (snd (drain_due f q)) = queue_store q |` (- snd ` set ?ks)"
    "fst (drain_due f q)
      = map (\<lambda>(f, i). \<lparr>sa_id = i, sa_target_frame = f, sa_action = snd (the (queue_store q i))\<rparr>) ?ks"
    using ks unfolding drain_due_def by (auto simp only: split_paired_all prod.case)
  show "queue_inv (snd (drain_due f q))" "aq_next_sequence (snd (drain_due f q)) = aq_next_sequence q"
    by fact+
  have snds: "i \<in> snd ` set ?ks \<longleftrightarrow> (\<exists>g a. g \<le> f \<and> queue_store q i = Some (g, a))" for i
  proof -
    have "i \<in> snd ` S \<longleftrightarrow> (\<exists>g. (g, i) \<in> S)" for S :: "(frame_number \<times> action_id) set" by force
    then show ?thesis by (simp only: ks) blast
  qed
  show "queue_store (snd (drain_due f q)) = drop_due (queue_store q) f"
  proof
    fix i
    show "queue_store (snd (drain_due f q)) i = drop_due (queue_store q) f i"
      unfolding drained(3) restrict_map_def Compl_iff snds
      by (cases "queue_store q i") (auto simp: drop_due_def)
  qed
  show "set (fst (drain_due f q)) = due_actions (queue_store q) f"
  proof (rule set_eqI)
    fix x
    have "x \<in> set (fst (drain_due f q)) \<longleftrightarrow>
        (\<exists>g i. (g, i) \<in> set ?ks \<and> x = \<lparr>sa_id = i, sa_target_frame = g, sa_action = snd (the (queue_store q i))\<rparr>)"
      unfolding drained(4) by (rule mem_map_pair)
    also have "\<dots> \<longleftrightarrow> x \<in> due_actions (queue_store q) f"
      unfolding ks by (cases x) (auto simp: due_actions_def)
    finally show "x \<in> set (fst (drain_due f q)) \<longleftrightarrow> x \<in> due_actions (queue_store q) f" .
  qed
  show "sorted_wrt (\<lambda>x y. action_key x < action_key y) (fst (drain_due f q))"
  proof -
    have "map action_key (fst (drain_due f q)) = ?ks"
      unfolding drained(4) by (simp add: comp_def split_beta)
    with sorted have "sorted_wrt (<) (map action_key (fst (drain_due f q)))" by (simp only:)
    then show ?thesis by (simp only: sorted_wrt_map)
  qed
qed

section \<open>Delivery of timed actions\<close>

text \<open>A client that drains the queue at a list of frames, one after the other.\<close>

fun drain_frames :: "(frame_number \<Rightarrow> 's \<Rightarrow> 'x list \<times> 's) \<Rightarrow> frame_number list \<Rightarrow> 's \<Rightarrow> 'x list list \<times> 's" where
  "drain_frames drain [] s = ([], s)"
| "drain_frames drain (f # fs) s =
     (case drain f s of (xs, s') \<Rightarrow> (case drain_frames drain fs s' of (xss, s'') \<Rightarrow> (xs # xss, s'')))"

text \<open>The contract of a queue of timed actions towards such a client.\<close>

locale timed_queue =
  fixes inv :: "'s \<Rightarrow> bool"
    and store :: "'s \<Rightarrow> 'a timed_store"
    and drain :: "frame_number \<Rightarrow> 's \<Rightarrow> 'a scheduled_action list \<times> 's"
  assumes drain_inv: "inv s \<Longrightarrow> inv (snd (drain f s))"
    and drain_store: "inv s \<Longrightarrow> store (snd (drain f s)) = drop_due (store s) f"
    and drain_due_set: "inv s \<Longrightarrow> set (fst (drain f s)) = due_actions (store s) f"
    and drain_order: "inv s \<Longrightarrow> sorted_wrt (\<lambda>x y. action_key x < action_key y) (fst (drain f s))"
begin

lemma drained_not_stored:
  assumes "inv s" "x \<in> set (fst (drain f s))"
  shows "store (snd (drain f s)) (sa_id x) = None"
  using assms by (simp add: drain_store drain_due_set due_actions_def drop_due_def)

lemma drained_distinct_ids: "inv s \<Longrightarrow> distinct (map sa_id (fst (drain f s)))"
proof -
  assume s: "inv s"
  have "distinct (fst (drain f s))"
  proof -
    have "sorted_wrt (<) (map action_key (fst (drain f s)))"
      unfolding sorted_wrt_map by (rule drain_order [OF s])
    then show ?thesis by (simp only: strict_sorted_iff distinct_map)
  qed
  moreover have "inj_on sa_id (set (fst (drain f s)))"
    unfolding drain_due_set [OF s] due_actions_def by (rule inj_onI) (auto intro: scheduled_action.equality)
  ultimately show ?thesis by (simp add: distinct_map)
qed

lemma drain_frames_inv: "inv s \<Longrightarrow> inv (snd (drain_frames drain fs s))"
proof (induction fs arbitrary: s)
  case (Cons f fs)
  then show ?case using Cons.IH [OF drain_inv [OF Cons.prems, of f]] by (simp add: split_beta)
qed simp

lemma drain_frames_delivers:
  assumes "inv s" "sorted_wrt (<) fs" "n < length fs"
  shows "set (fst (drain_frames drain fs s) ! n)
    = {x \<in> due_actions (store s) (fs ! n). \<forall>m<n. fs ! m < sa_target_frame x}"
  using assms
proof (induction fs arbitrary: s n)
  case (Cons f fs)
  define s' where "s' = snd (drain f s)"
  have s': "inv s'" "store s' = drop_due (store s) f" using Cons.prems by (simp_all add: s'_def drain_inv drain_store)
  have unfold_drain: "fst (drain_frames drain (f # fs) s) = fst (drain f s) # fst (drain_frames drain fs s')"
    by (simp add: s'_def split: prod.splits)
  show ?case
  proof (cases n)
    case 0
    then show ?thesis using Cons.prems(1) by (simp add: unfold_drain drain_due_set del: drain_frames.simps)
  next
    case (Suc m)
    then have "set (fst (drain_frames drain (f # fs) s) ! n)
        = {x \<in> due_actions (store s') (fs ! m). \<forall>k<m. fs ! k < sa_target_frame x}"
      using Cons.IH [OF s'(1), of m] Cons.prems by (simp add: unfold_drain del: drain_frames.simps)
    moreover have "x \<in> due_actions (store s') g \<longleftrightarrow> x \<in> due_actions (store s) g \<and> f < sa_target_frame x" for x g
      by (auto simp: s'(2) due_actions_def drop_due_def split: option.splits if_splits)
    ultimately show ?thesis using Suc by (auto simp: nth_Cons less_Suc_eq_0_disj)
  qed
qed simp

end

interpretation aq: timed_queue queue_inv queue_store drain_due
  by unfold_locales (fact queue_drain)+

section \<open>Bounded queues are first in, first out\<close>

text \<open>
  A history of calls on one queue. The bookkeeping lists are what the queue took in, what left it
  (popped by the consumer or evicted by a later push, oldest first), and what the consumer popped.
\<close>

datatype 't queue_call = CallPush 't | CallPop

record 't queue_history =
  qh_taken :: "'t list"
  qh_left :: "'t list"
  qh_popped :: "'t list"

fun queue_call_step :: "'t queue_call \<Rightarrow> 't queue_history \<times> 't bounded_queue \<Rightarrow> 't queue_history \<times> 't bounded_queue" where
  "queue_call_step (CallPush x) (h, q) =
     (case bounded_queue_push x q of
        (Inr (Enqueued None), q') \<Rightarrow> (h\<lparr>qh_taken := qh_taken h @ [x]\<rparr>, q')
      | (Inr (Enqueued (Some y)), q') \<Rightarrow> (h\<lparr>qh_taken := qh_taken h @ [x], qh_left := qh_left h @ [y]\<rparr>, q')
      | (Inr (DroppedNewest _), q') \<Rightarrow> (h, q')
      | (Inl _, q') \<Rightarrow> (h, q'))"
| "queue_call_step CallPop (h, q) =
     (case bounded_queue_pop q of
        (None, q') \<Rightarrow> (h, q')
      | (Some y, q') \<Rightarrow> (h\<lparr>qh_left := qh_left h @ [y], qh_popped := qh_popped h @ [y]\<rparr>, q'))"

definition queue_calls :: "'t queue_call list \<Rightarrow> 't bounded_queue \<Rightarrow> 't queue_history \<times> 't bounded_queue" where
  "queue_calls cs q = fold queue_call_step cs (\<lparr>qh_taken = [], qh_left = [], qh_popped = []\<rparr>, q)"

definition fifo_inv :: "'t queue_history \<times> 't bounded_queue \<Rightarrow> bool" where
  "fifo_inv = (\<lambda>(h, q). qh_taken h = qh_left h @ bq_items q \<and> 0 < bq_capacity q
     \<and> length (bq_items q) \<le> bq_capacity q
     \<and> (bq_policy q \<noteq> DropOldest \<longrightarrow> qh_popped h = qh_left h))"

lemma fifo_inv_step: "fifo_inv hq \<Longrightarrow> fifo_inv (queue_call_step c hq)"
  by (cases hq; cases c)
     (auto simp: fifo_inv_def bounded_queue_push_def bounded_queue_pop_def
       split: list.splits queue_policy.splits if_splits)

lemma queue_call_frame:
  "bq_capacity (snd (queue_call_step c hq)) = bq_capacity (snd hq)"
  "bq_policy (snd (queue_call_step c hq)) = bq_policy (snd hq)"
  by (cases hq; cases c; auto simp: bounded_queue_push_def bounded_queue_pop_def
       split: list.splits queue_policy.splits if_splits)+

lemma fifo_inv_run:
  assumes "fifo_inv hq"
  shows "fifo_inv (fold queue_call_step cs hq) \<and> bq_capacity (snd (fold queue_call_step cs hq)) = bq_capacity (snd hq)
    \<and> bq_policy (snd (fold queue_call_step cs hq)) = bq_policy (snd hq)"
  using assms by (induction cs arbitrary: hq) (simp_all add: fifo_inv_step queue_call_frame)

text \<open>in every history of pushes and pops on a queue that was created with a capacity and a policy,
  the queue never holds more than its capacity, items leave it in the order in which it took them
  (what was taken is what left, followed by what is still queued), and under the policies that do
  not drop the oldest item everything that left was handed to the consumer.
\<close>
theorem bounded_queue_fifo:
  assumes "bounded_queue_new capacity policy = Inr q0" "queue_calls cs q0 = (h, q)"
  shows "qh_taken h = qh_left h @ bq_items q \<and> length (bq_items q) \<le> capacity
    \<and> (policy \<noteq> DropOldest \<longrightarrow> qh_popped h = qh_left h)"
proof -
  have q0: "q0 = \<lparr>bq_capacity = capacity, bq_policy = policy, bq_items = []\<rparr>" "0 < capacity"
    using assms(1) by (auto simp: bounded_queue_new_def split: if_splits)
  have "fifo_inv (\<lparr>qh_taken = [], qh_left = [], qh_popped = []\<rparr>, q0)" by (simp add: fifo_inv_def q0)
  from fifo_inv_run [OF this, of cs] assms(2) show ?thesis
    by (simp add: queue_calls_def fifo_inv_def q0)
qed

theorem bounded_queue_fifo_witness:
  "bounded_queue_new 2 DropOldest = Inr \<lparr>bq_capacity = 2, bq_policy = DropOldest, bq_items = [] :: nat list\<rparr> \<and>
   (\<exists>h q. queue_calls [CallPush 1, CallPush 2, CallPush 3, CallPop, CallPush 4 :: nat queue_call]
       \<lparr>bq_capacity = 2, bq_policy = DropOldest, bq_items = []\<rparr> = (h, q)
     \<and> qh_taken h = qh_left h @ bq_items q \<and> bq_items q = [3, 4] \<and> qh_left h = [1, 2] \<and> qh_popped h = [2])"
proof -
  let ?q = "\<lparr>bq_capacity = 2, bq_policy = DropOldest, bq_items = [] :: nat list\<rparr>"
  let ?cs = "[CallPush 1, CallPush 2, CallPush 3, CallPop, CallPush 4 :: nat queue_call]"
  have new: "bounded_queue_new 2 DropOldest = Inr ?q" by (simp add: bounded_queue_new_def)
  have run: "queue_calls ?cs ?q = (\<lparr>qh_taken = [1, 2, 3, 4], qh_left = [1, 2], qh_popped = [2]\<rparr>,
      \<lparr>bq_capacity = 2, bq_policy = DropOldest, bq_items = [3, 4]\<rparr>)"
    by (simp add: queue_calls_def bounded_queue_push_def bounded_queue_pop_def)
  from bounded_queue_fifo [OF new run] new run show ?thesis by simp
qed

end
