(* ===== verification/Scheduler.thy ===== *)
theory Scheduler
  imports Clock Scheduler_Queues
begin

text \<open>
  The crate \<open>crates/media/fm-scheduler\<close>: the frame pacer (\<open>pacing.rs\<close>), the manager of plan
  generations (\<open>plan.rs\<close>), the counters (\<open>telemetry.rs\<close>) and the frame scheduler that joins them
  with the queues (\<open>scheduler.rs\<close>). The unchecked products of the pacer are taken modulo \<open>2 ^ 128\<close>,
  the width the code computes them in.
\<close>

section \<open>Pacing\<close>

datatype pacing_error = DeadlineOverflow | FrameNumberExhausted

record frame_pacer =
  fp_frame_rate :: frame_rate
  fp_origin_ns :: u64
  fp_next_frame :: frame_number

definition frame_pacer_new :: "frame_rate \<Rightarrow> u64 \<Rightarrow> frame_pacer" where
  "frame_pacer_new rate origin = \<lparr>fp_frame_rate = rate, fp_origin_ns = origin, fp_next_frame = 0\<rparr>"

definition deadline_for :: "frame_pacer \<Rightarrow> frame_number \<Rightarrow> pacing_error + frame_deadline" where
  "deadline_for p frame =
     (let offset = ((unat frame * unat (denominator (fp_frame_rate p))) mod 2 ^ 128 * NANOS_PER_SECOND) mod 2 ^ 128
                     div unat (numerator (fp_frame_rate p)) in
      and_then (ok_or (Option.bind (u128_checked (unat (fp_origin_ns p) + offset)) word_try_from) DeadlineOverflow)
        (\<lambda>at_ns. Inr \<lparr>fd_frame = frame, fd_at_ns = at_ns\<rparr>))"

definition next_deadline :: "frame_pacer \<Rightarrow> pacing_error + frame_deadline" where
  "next_deadline p = deadline_for p (fp_next_frame p)"

definition frame_pacer_restore :: "frame_rate \<Rightarrow> u64 \<Rightarrow> frame_number \<Rightarrow> pacing_error + frame_pacer" where
  "frame_pacer_restore rate origin nxt =
     (let pacer = \<lparr>fp_frame_rate = rate, fp_origin_ns = origin, fp_next_frame = nxt\<rparr> in
      and_then (next_deadline pacer) (\<lambda>_.
      and_then (ok_or (checked_add nxt 1) FrameNumberExhausted) (\<lambda>_. Inr pacer)))"

definition frame_pacer_advance :: "(pacing_error, frame_deadline, frame_pacer) meth" where
  "frame_pacer_advance p =
     (case next_deadline p of
        Inl e \<Rightarrow> (Inl e, p)
      | Inr deadline \<Rightarrow>
          (case ok_or (checked_add (fp_next_frame p) 1) FrameNumberExhausted of
             Inl e \<Rightarrow> (Inl e, p)
           | Inr nxt \<Rightarrow> (Inr deadline, p\<lparr>fp_next_frame := nxt\<rparr>)))"

section \<open>Plan generations\<close>

datatype plan_error =
    StaleGeneration plan_generation plan_generation
  | BoundaryNotFuture frame_number frame_number
  | NonMonotonicBoundary frame_number frame_number

record 'p pending_plan =
  pp_generation :: plan_generation
  pp_target_frame :: frame_number
  pp_plan :: 'p

record plan_activation =
  pa_previous_generation :: plan_generation
  pa_generation :: plan_generation
  pa_target_frame :: frame_number
  pa_activated_frame :: frame_number

record 'p plan_manager =
  pm_generation :: plan_generation
  pm_current :: 'p
  pm_pending :: "'p pending_plan option"
  pm_last_boundary :: "frame_number option"

definition plan_manager_restore :: "plan_generation \<Rightarrow> 'p \<Rightarrow> frame_number option \<Rightarrow> 'p plan_manager" where
  "plan_manager_restore generation plan last_boundary =
     \<lparr>pm_generation = generation, pm_current = plan, pm_pending = None, pm_last_boundary = last_boundary\<rparr>"

definition plan_manager_new :: "plan_generation \<Rightarrow> 'p \<Rightarrow> 'p plan_manager" where
  "plan_manager_new generation plan =
     \<lparr>pm_generation = generation, pm_current = plan, pm_pending = None, pm_last_boundary = None\<rparr>"

definition plan_schedule ::
  "plan_generation \<Rightarrow> frame_number \<Rightarrow> 'p \<Rightarrow> (plan_error, 'p pending_plan option, 'p plan_manager) meth" where
  "plan_schedule generation target plan m =
     (let newest = (case pm_pending m of None \<Rightarrow> pm_generation m | Some pending \<Rightarrow> pp_generation pending);
          replaced = (Inr (pm_pending m),
            m\<lparr>pm_pending := Some \<lparr>pp_generation = generation, pp_target_frame = target, pp_plan = plan\<rparr>\<rparr>)
      in if generation \<le> newest then (Inl (StaleGeneration newest generation), m)
         else case pm_last_boundary m of
             Some last_seen \<Rightarrow>
               if target \<le> last_seen then (Inl (BoundaryNotFuture last_seen target), m) else replaced
           | None \<Rightarrow> replaced)"

definition plan_cancel_pending :: "'p plan_manager \<Rightarrow> 'p pending_plan option \<times> 'p plan_manager" where
  "plan_cancel_pending m = (pm_pending m, m\<lparr>pm_pending := None\<rparr>)"

definition activate_pending ::
  "frame_number \<Rightarrow> 'p plan_manager \<Rightarrow> plan_activation option \<times> 'p plan_manager" where
  "activate_pending frame m =
     (case pm_pending m of
        None \<Rightarrow> (None, m)
      | Some pending \<Rightarrow>
          if \<not> pp_target_frame pending \<le> frame then (None, m)
          else (Some \<lparr>pa_previous_generation = pm_generation m, pa_generation = pp_generation pending,
                      pa_target_frame = pp_target_frame pending, pa_activated_frame = frame\<rparr>,
                m\<lparr>pm_pending := None, pm_generation := pp_generation pending, pm_current := pp_plan pending\<rparr>))"

definition advance_boundary ::
  "frame_number \<Rightarrow> (plan_error, plan_activation option, 'p plan_manager) meth" where
  "advance_boundary frame m =
     (let stamped = (case activate_pending frame (m\<lparr>pm_last_boundary := Some frame\<rparr>) of (r, m') \<Rightarrow> (Inr r, m'))
      in case pm_last_boundary m of
           Some last_seen \<Rightarrow>
             if frame \<le> last_seen then (Inl (NonMonotonicBoundary last_seen frame), m) else stamped
         | None \<Rightarrow> stamped)"

section \<open>Telemetry\<close>

record scheduler_telemetry =
  tm_late_frames :: u64
  tm_dropped_frames :: u64
  tm_realized_frames :: u64

definition telemetry_default :: scheduler_telemetry where
  "telemetry_default = \<lparr>tm_late_frames = 0, tm_dropped_frames = 0, tm_realized_frames = 0\<rparr>"

definition record_late :: "scheduler_telemetry \<Rightarrow> scheduler_telemetry" where
  "record_late t = t\<lparr>tm_late_frames := saturating_add (tm_late_frames t) 1\<rparr>"

definition record_dropped :: "scheduler_telemetry \<Rightarrow> scheduler_telemetry" where
  "record_dropped t = t\<lparr>tm_dropped_frames := saturating_add (tm_dropped_frames t) 1\<rparr>"

definition record_realized :: "scheduler_telemetry \<Rightarrow> scheduler_telemetry" where
  "record_realized t = t\<lparr>tm_realized_frames := saturating_add (tm_realized_frames t) 1\<rparr>"

section \<open>The frame scheduler\<close>

datatype tick_error = TooEarly u64 u64 | TickPacing pacing_error | TickPlan plan_error

record ('a, 'p) frame_tick =
  ft_deadline :: frame_deadline
  ft_late :: bool
  ft_actions :: "'a scheduled_action list"
  ft_plan_generation :: plan_generation
  ft_plan :: 'p
  ft_activation :: "plan_activation option"

record ('i, 'f, 'a, 'p) frame_scheduler =
  fs_pacer :: frame_pacer
  fs_inputs :: "('i, 'f) input_queues"
  fs_actions :: "'a action_queue"
  fs_plans :: "'p plan_manager"
  fs_telemetry :: scheduler_telemetry

definition frame_scheduler_new ::
  "frame_rate \<Rightarrow> u64 \<Rightarrow> plan_generation \<Rightarrow> 'p \<Rightarrow> ('i, 'f, 'a, 'p) frame_scheduler" where
  "frame_scheduler_new rate origin generation plan =
     \<lparr>fs_pacer = frame_pacer_new rate origin, fs_inputs = Map.empty, fs_actions = action_queue_default,
      fs_plans = plan_manager_new generation plan, fs_telemetry = telemetry_default\<rparr>"

definition frame_scheduler_restore ::
  "frame_rate \<Rightarrow> u64 \<Rightarrow> frame_number \<Rightarrow> plan_generation \<Rightarrow> 'p \<Rightarrow>
   pacing_error + ('i, 'f, 'a, 'p) frame_scheduler" where
  "frame_scheduler_restore rate origin nxt generation plan =
     and_then (frame_pacer_restore rate origin nxt) (\<lambda>pacer.
       Inr \<lparr>fs_pacer = pacer, fs_inputs = Map.empty, fs_actions = action_queue_default,
            fs_plans = plan_manager_restore generation plan (checked_sub nxt 1),
            fs_telemetry = telemetry_default\<rparr>)"

definition fs_schedule_action ::
  "frame_number \<Rightarrow> 'a \<Rightarrow> (action_error, action_id, ('i, 'f, 'a, 'p) frame_scheduler) meth" where
  "fs_schedule_action target a s =
     (case schedule_action target a (fs_actions s) of (r, q) \<Rightarrow> (r, s\<lparr>fs_actions := q\<rparr>))"

definition fs_cancel_action ::
  "action_id \<Rightarrow> ('i, 'f, 'a, 'p) frame_scheduler \<Rightarrow> 'a scheduled_action option \<times> ('i, 'f, 'a, 'p) frame_scheduler" where
  "fs_cancel_action i s = (case cancel_action i (fs_actions s) of (r, q) \<Rightarrow> (r, s\<lparr>fs_actions := q\<rparr>))"

definition fs_supersede_action ::
  "action_id \<Rightarrow> frame_number \<Rightarrow> 'a \<Rightarrow>
   (action_error, action_id \<times> 'a scheduled_action, ('i, 'f, 'a, 'p) frame_scheduler) meth" where
  "fs_supersede_action i target a s =
     (case supersede_action i target a (fs_actions s) of (r, q) \<Rightarrow> (r, s\<lparr>fs_actions := q\<rparr>))"

definition fs_schedule_plan ::
  "plan_generation \<Rightarrow> frame_number \<Rightarrow> 'p \<Rightarrow>
   (plan_error, 'p pending_plan option, ('i, 'f, 'a, 'p) frame_scheduler) meth" where
  "fs_schedule_plan generation target plan s =
     (case plan_schedule generation target plan (fs_plans s) of (r, m) \<Rightarrow> (r, s\<lparr>fs_plans := m\<rparr>))"

definition fs_cancel_pending_plan ::
  "('i, 'f, 'a, 'p) frame_scheduler \<Rightarrow> 'p pending_plan option \<times> ('i, 'f, 'a, 'p) frame_scheduler" where
  "fs_cancel_pending_plan s = (case plan_cancel_pending (fs_plans s) of (r, m) \<Rightarrow> (r, s\<lparr>fs_plans := m\<rparr>))"

definition tick :: "u64 \<Rightarrow> (tick_error, ('a, 'p) frame_tick, ('i, 'f, 'a, 'p) frame_scheduler) meth" where
  "tick now_ns s =
     (case next_deadline (fs_pacer s) of
        Inl e \<Rightarrow> (Inl (TickPacing e), s)
      | Inr d \<Rightarrow>
          if now_ns < fd_at_ns d then (Inl (TooEarly now_ns (fd_at_ns d)), s)
          else case frame_pacer_advance (fs_pacer s) of
              (Inl e, pacer) \<Rightarrow> (Inl (TickPacing e), s\<lparr>fs_pacer := pacer\<rparr>)
            | (Inr deadline, pacer) \<Rightarrow>
                (case advance_boundary (fd_frame deadline) (fs_plans s) of
                   (Inl e, plans) \<Rightarrow> (Inl (TickPlan e), s\<lparr>fs_pacer := pacer, fs_plans := plans\<rparr>)
                 | (Inr activation, plans) \<Rightarrow>
                     (case drain_due (fd_frame deadline) (fs_actions s) of
                        (actions, queue) \<Rightarrow>
                          let late = (now_ns > fd_at_ns deadline);
                              telemetry = (if late then record_late (fs_telemetry s) else fs_telemetry s)
                          in (Inr \<lparr>ft_deadline = deadline, ft_late = late, ft_actions = actions,
                                   ft_plan_generation = pm_generation plans, ft_plan = pm_current plans,
                                   ft_activation = activation\<rparr>,
                              s\<lparr>fs_pacer := pacer, fs_plans := plans, fs_actions := queue,
                                fs_telemetry := record_realized telemetry\<rparr>))))"

definition fs_register_input ::
  "'i \<Rightarrow> usize \<Rightarrow> queue_policy \<Rightarrow> (queue_config_error, unit, ('i, 'f, 'a, 'p) frame_scheduler) meth" where
  "fs_register_input input capacity policy s =
     (case input_queues_register input capacity policy (fs_inputs s) of (r, qs) \<Rightarrow> (r, s\<lparr>fs_inputs := qs\<rparr>))"

definition fs_push_frame ::
  "'i \<Rightarrow> 'f \<Rightarrow> ('f input_queue_error, 'f queue_push, ('i, 'f, 'a, 'p) frame_scheduler) meth" where
  "fs_push_frame input frame s =
     (case input_queues_push input frame (fs_inputs s) of
        (Inl e, qs) \<Rightarrow> (Inl e, s\<lparr>fs_inputs := qs\<rparr>)
      | (Inr outcome, qs) \<Rightarrow>
          (Inr outcome, s\<lparr>fs_inputs := qs,
             fs_telemetry := (if push_dropped outcome then record_dropped (fs_telemetry s) else fs_telemetry s)\<rparr>))"

definition fs_pop_frame ::
  "'i \<Rightarrow> ('i, 'f, 'a, 'p) frame_scheduler \<Rightarrow> 'f option \<times> ('i, 'f, 'a, 'p) frame_scheduler" where
  "fs_pop_frame input s = (case input_queues_pop input (fs_inputs s) of (r, qs) \<Rightarrow> (r, s\<lparr>fs_inputs := qs\<rparr>))"

definition fs_input_depth :: "'i \<Rightarrow> ('i, 'f, 'a, 'p) frame_scheduler \<Rightarrow> nat option" where
  "fs_input_depth input s = input_queues_len input (fs_inputs s)"

section \<open>Facts about the parts\<close>

lemma deadline_for_Inr:
  "deadline_for p f = Inr d \<longleftrightarrow> fd_frame d = f
     \<and> unat (fd_at_ns d) = unat (fp_origin_ns p) + frame_offset_ns (fp_frame_rate p) (unat f)"
proof -
  let ?r = "fp_frame_rate p"
  have fits: "unat f * unat (denominator ?r) * NANOS_PER_SECOND < 2 ^ 128" by (rule frame_product_fits_u128)
  then have "unat f * unat (denominator ?r) < 2 ^ 128" by (simp add: NANOS_PER_SECOND_def)
  with fits have eq: "deadline_for p f =
      and_then (ok_or (Option.bind (u128_checked (unat (fp_origin_ns p) + frame_offset_ns ?r (unat f))) word_try_from)
        DeadlineOverflow) (\<lambda>at_ns. Inr \<lparr>fd_frame = f, fd_at_ns = at_ns\<rparr>)"
    by (simp add: deadline_for_def frame_offset_ns_def)
  have "unat (fp_origin_ns p) + frame_offset_ns ?r (unat f) < 2 ^ 128"
    if "unat (fd_at_ns d) = unat (fp_origin_ns p) + frame_offset_ns ?r (unat f)"
    using that unat_u64_less [of "fd_at_ns d"] by simp
  then show ?thesis
    unfolding eq by (cases d) (auto simp: result_simps checked_simps u128_checked_def)
qed

lemma pacer_advance_cases:
  obtains (failed) e where "frame_pacer_advance p = (Inl e, p)"
  | (advanced) d nxt where "next_deadline p = Inr d" "fd_frame d = fp_next_frame p"
      "unat nxt = Suc (unat (fp_next_frame p))"
      "frame_pacer_advance p = (Inr d, p\<lparr>fp_next_frame := nxt\<rparr>)"
proof (cases "next_deadline p")
  case (Inl e)
  then show thesis by (intro failed [of e]) (simp add: frame_pacer_advance_def)
next
  case (Inr d)
  then have "fd_frame d = fp_next_frame p" by (simp add: next_deadline_def deadline_for_Inr)
  show thesis
  proof (cases "checked_add (fp_next_frame p) 1")
    case None
    with Inr show thesis by (intro failed) (simp add: frame_pacer_advance_def ok_or_def)
  next
    case (Some nxt)
    then have "unat nxt = Suc (unat (fp_next_frame p))" by (simp add: checked_simps)
    with Inr Some \<open>fd_frame d = fp_next_frame p\<close> show thesis
      by (intro advanced) (simp_all add: frame_pacer_advance_def ok_or_def)
  qed
qed

section \<open>Runs of the scheduler\<close>

datatype ('i, 'f, 'a, 'p) scheduler_call =
    ScheduleAction frame_number 'a
  | CancelAction action_id
  | SupersedeAction action_id frame_number 'a
  | SchedulePlan plan_generation frame_number 'p
  | CancelPendingPlan
  | Tick u64
  | RegisterInput 'i usize queue_policy
  | PushFrame 'i 'f
  | PopFrame 'i

text \<open>One call, with the frame it realizes (if it is a successful tick) as its output.\<close>

fun scheduler_step :: "('i, 'f, 'a, 'p) scheduler_call \<Rightarrow> ('i, 'f, 'a, 'p) frame_scheduler
    \<Rightarrow> ('a, 'p) frame_tick list \<times> ('i, 'f, 'a, 'p) frame_scheduler" where
  "scheduler_step (ScheduleAction f a) s = ([], snd (fs_schedule_action f a s))"
| "scheduler_step (CancelAction i) s = ([], snd (fs_cancel_action i s))"
| "scheduler_step (SupersedeAction i f a) s = ([], snd (fs_supersede_action i f a s))"
| "scheduler_step (SchedulePlan g f p) s = ([], snd (fs_schedule_plan g f p s))"
| "scheduler_step CancelPendingPlan s = ([], snd (fs_cancel_pending_plan s))"
| "scheduler_step (Tick now) s =
     (case tick now s of (Inl _, s') \<Rightarrow> ([], s') | (Inr t, s') \<Rightarrow> ([t], s'))"
| "scheduler_step (RegisterInput i c p) s = ([], snd (fs_register_input i c p s))"
| "scheduler_step (PushFrame i f) s = ([], snd (fs_push_frame i f s))"
| "scheduler_step (PopFrame i) s = ([], snd (fs_pop_frame i s))"

fun scheduler_run :: "('i, 'f, 'a, 'p) scheduler_call list \<Rightarrow> ('i, 'f, 'a, 'p) frame_scheduler
    \<Rightarrow> ('a, 'p) frame_tick list \<times> ('i, 'f, 'a, 'p) frame_scheduler" where
  "scheduler_run [] s = ([], s)"
| "scheduler_run (c # cs) s =
     (case scheduler_step c s of (ts, s') \<Rightarrow>
        (case scheduler_run cs s' of (us, s'') \<Rightarrow> (ts @ us, s'')))"

definition boundary_before :: "frame_number option \<Rightarrow> frame_number \<Rightarrow> bool" where
  "boundary_before b n \<longleftrightarrow> (case b of None \<Rightarrow> n = 0 | Some l \<Rightarrow> unat n = Suc (unat l))"

definition pending_newer :: "plan_generation \<Rightarrow> 'p pending_plan option \<Rightarrow> bool" where
  "pending_newer g p \<longleftrightarrow> (case p of None \<Rightarrow> True | Some q \<Rightarrow> g < pp_generation q)"

definition scheduler_inv :: "('i, 'f, 'a, 'p) frame_scheduler \<Rightarrow> bool" where
  "scheduler_inv s \<longleftrightarrow> queue_inv (fs_actions s)
     \<and> boundary_before (pm_last_boundary (fs_plans s)) (fp_next_frame (fs_pacer s))
     \<and> pending_newer (pm_generation (fs_plans s)) (pm_pending (fs_plans s))"

text \<open>A scheduler as the program starts it: fresh at frame 0, or restored at a frame.\<close>

definition scheduler_started ::
  "frame_rate \<Rightarrow> u64 \<Rightarrow> frame_number \<Rightarrow> plan_generation \<Rightarrow> 'p \<Rightarrow> ('i, 'f, 'a, 'p) frame_scheduler \<Rightarrow> bool" where
  "scheduler_started rate origin n generation plan s \<longleftrightarrow>
     n = 0 \<and> s = frame_scheduler_new rate origin generation plan
     \<or> frame_scheduler_restore rate origin n generation plan = Inr s"

lemma started_inv:
  assumes "scheduler_started rate origin n generation plan s"
  shows "scheduler_inv s" "fs_actions s = action_queue_default"
    "fs_pacer s = \<lparr>fp_frame_rate = rate, fp_origin_ns = origin, fp_next_frame = n\<rparr>"
    "pm_generation (fs_plans s) = generation"
proof -
  have pred: "checked_sub n 1 = Some b \<Longrightarrow> unat n = Suc (unat b)" "checked_sub n 1 = None \<Longrightarrow> n = 0" for b
    by (simp_all add: checked_simps unat_eq_zero)
  show "scheduler_inv s" "fs_actions s = action_queue_default"
    "fs_pacer s = \<lparr>fp_frame_rate = rate, fp_origin_ns = origin, fp_next_frame = n\<rparr>"
    "pm_generation (fs_plans s) = generation"
    using assms pred
    by (auto simp: scheduler_started_def frame_scheduler_new_def frame_scheduler_restore_def
        frame_pacer_restore_def frame_pacer_new_def result_simps Let_def scheduler_inv_def queue_inv_default
        plan_manager_new_def plan_manager_restore_def boundary_before_def pending_newer_def split: option.splits)
qed

lemma advance_boundary_next:
  assumes "boundary_before (pm_last_boundary m) f"
  shows "advance_boundary f m = (case activate_pending f (m\<lparr>pm_last_boundary := Some f\<rparr>) of (r, m') \<Rightarrow> (Inr r, m'))"
  using assms by (auto simp: advance_boundary_def boundary_before_def word_less_unat Let_def split: option.splits)

lemma activate_pending_facts:
  assumes "pending_newer (pm_generation m) (pm_pending m)"
    and "activate_pending f m = (r, m')"
  shows "pm_generation m \<le> pm_generation m'" "pm_last_boundary m' = pm_last_boundary m"
    "pending_newer (pm_generation m') (pm_pending m')"
  using assms by (auto simp: activate_pending_def pending_newer_def split: option.splits if_splits)

text \<open>A tick either fails and changes nothing, or realizes the next frame.\<close>

lemma tick_cases:
  assumes inv: "scheduler_inv s"
  obtains (failed) e where "tick now s = (Inl e, s)" "\<And>pe. e \<noteq> TickPlan pe"
  | (realized) t s' where "tick now s = (Inr t, s')" "scheduler_inv s'"
      "fd_frame (ft_deadline t) = fp_next_frame (fs_pacer s)"
      "deadline_for (fs_pacer s) (fp_next_frame (fs_pacer s)) = Inr (ft_deadline t)"
      "fd_at_ns (ft_deadline t) \<le> now" "ft_late t \<longleftrightarrow> fd_at_ns (ft_deadline t) < now"
      "unat (fp_next_frame (fs_pacer s')) = Suc (unat (fp_next_frame (fs_pacer s)))"
      "fs_pacer s' = (fs_pacer s)\<lparr>fp_next_frame := fp_next_frame (fs_pacer s')\<rparr>"
      "(ft_actions t, fs_actions s') = drain_due (fp_next_frame (fs_pacer s)) (fs_actions s)"
      "pm_generation (fs_plans s) \<le> ft_plan_generation t" "ft_plan_generation t = pm_generation (fs_plans s')"
proof (cases rule: pacer_advance_cases [of "fs_pacer s"])
  case (failed e)
  have "\<exists>e. tick now s = (Inl e, s) \<and> (\<forall>pe. e \<noteq> TickPlan pe)"
    by (cases "next_deadline (fs_pacer s)") (simp_all add: tick_def failed)
  then show thesis using that(1) by blast
next
  case (advanced d nxt)
  let ?f = "fp_next_frame (fs_pacer s)"
  show thesis
  proof (cases "now < fd_at_ns d")
    case True
    with advanced show thesis by (auto simp: tick_def intro: that(1))
  next
    case False
    define m where "m = (fs_plans s)\<lparr>pm_last_boundary := Some ?f\<rparr>"
    obtain act m' where act: "activate_pending ?f m = (act, m')" by fastforce
    have pend: "pending_newer (pm_generation m) (pm_pending m)"
      using inv by (simp add: scheduler_inv_def m_def)
    note plan = activate_pending_facts [OF pend act]
    have boundary: "advance_boundary ?f (fs_plans s) = (Inr act, m')"
      using act inv by (simp add: advance_boundary_next m_def scheduler_inv_def)
    obtain acts q where q: "drain_due ?f (fs_actions s) = (acts, q)" by fastforce
    have qinv: "queue_inv q" using queue_drain(1) [of "fs_actions s" ?f] inv q by (simp add: scheduler_inv_def)
    let ?late = "fd_at_ns d < now"
    let ?t = "\<lparr>ft_deadline = d, ft_late = ?late, ft_actions = acts, ft_plan_generation = pm_generation m',
               ft_plan = pm_current m', ft_activation = act\<rparr>"
    let ?s = "s\<lparr>fs_pacer := (fs_pacer s)\<lparr>fp_next_frame := nxt\<rparr>, fs_plans := m', fs_actions := q,
               fs_telemetry := record_realized (if ?late then record_late (fs_telemetry s) else fs_telemetry s)\<rparr>"
    have tick: "tick now s = (Inr ?t, ?s)"
      using advanced False boundary q by (simp add: tick_def Let_def)
    have "scheduler_inv ?s"
      using qinv plan advanced(3) by (simp add: scheduler_inv_def m_def boundary_before_def)
    then show thesis
      using that(2) [OF tick] advanced False q plan(1) by (simp add: next_deadline_def m_def)
  qed
qed

lemma tick_succeeds:
  assumes inv: "scheduler_inv s" and d: "next_deadline (fs_pacer s) = Inr d" "fd_at_ns d \<le> now"
    and room: "unat (fp_next_frame (fs_pacer s)) + 1 < 2 ^ 64"
  shows "\<exists>t s'. tick now s = (Inr t, s')"
proof -
  obtain nxt :: u64 where "unat nxt = unat (fp_next_frame (fs_pacer s)) + 1"
    using ex_word_unat [of "unat (fp_next_frame (fs_pacer s)) + 1", where 'a = 64] room by auto
  then have "frame_pacer_advance (fs_pacer s) = (Inr d, (fs_pacer s)\<lparr>fp_next_frame := nxt\<rparr>)"
    using d(1) checked_add_Some [of "fp_next_frame (fs_pacer s)" 1 nxt] by (simp add: frame_pacer_advance_def ok_or_def)
  moreover have "fd_frame d = fp_next_frame (fs_pacer s)" using d(1) by (simp add: next_deadline_def deadline_for_Inr)
  ultimately show ?thesis
    using d inv by (auto simp: tick_def advance_boundary_next scheduler_inv_def Let_def split_beta)
qed

text \<open>The calls other than a tick leave the pacer and the plan generation alone.\<close>

lemma plan_schedule_facts:
  assumes "plan_schedule g f p m = (r, m')"
    and "pending_newer (pm_generation m) (pm_pending m)"
  shows "pm_generation m' = pm_generation m" "pm_last_boundary m' = pm_last_boundary m"
    "pending_newer (pm_generation m') (pm_pending m')"
  using assms by (auto simp: plan_schedule_def pending_newer_def Let_def split: option.splits if_splits)

lemma scheduler_step_other:
  assumes "scheduler_inv s" "\<And>now. c \<noteq> Tick now"
  shows "fst (scheduler_step c s) = []" "fs_pacer (snd (scheduler_step c s)) = fs_pacer s"
    "pm_generation (fs_plans (snd (scheduler_step c s))) = pm_generation (fs_plans s)"
    "scheduler_inv (snd (scheduler_step c s))"
proof -
  have q: "queue_inv (fs_actions s)" using assms by (simp add: scheduler_inv_def)
  have qa: "queue_inv (snd (schedule_action f a (fs_actions s)))" for f a
    using queue_schedule [OF q, of f a] q by auto
  have qs: "queue_inv (snd (supersede_action i f a (fs_actions s)))" for i f a
    using queue_supersede [OF q, of i f a] q by auto
  have plan: "pm_generation (snd (plan_schedule g f p (fs_plans s))) = pm_generation (fs_plans s)
      \<and> pm_last_boundary (snd (plan_schedule g f p (fs_plans s))) = pm_last_boundary (fs_plans s)
      \<and> pending_newer (pm_generation (fs_plans s)) (pm_pending (snd (plan_schedule g f p (fs_plans s))))" for g f p
    using plan_schedule_facts [of g f p "fs_plans s", OF surjective_pairing] assms(1)
    by (metis scheduler_inv_def)
  note defs = fs_schedule_action_def fs_cancel_action_def fs_supersede_action_def fs_schedule_plan_def
    fs_cancel_pending_plan_def fs_register_input_def fs_push_frame_def fs_pop_frame_def plan_cancel_pending_def
  show "fst (scheduler_step c s) = []" "fs_pacer (snd (scheduler_step c s)) = fs_pacer s"
    using assms(2) by (cases c; auto simp: defs split_beta split: sum.splits prod.splits)+
  show "pm_generation (fs_plans (snd (scheduler_step c s))) = pm_generation (fs_plans s)"
    using assms(2) plan by (cases c) (auto simp: defs split_beta split: sum.splits)
  show "scheduler_inv (snd (scheduler_step c s))"
    using assms qa qs plan queue_cancel(1) [OF q] unfolding scheduler_inv_def
    by (cases c) (auto simp: defs split_beta pending_newer_def [of _ None] split: sum.splits)
qed

lemma scheduler_run_append:
  "scheduler_run (cs @ ds) s =
     (case scheduler_run cs s of (ts, s') \<Rightarrow> (case scheduler_run ds s' of (us, s'') \<Rightarrow> (ts @ us, s'')))"
  by (induction cs arbitrary: s) (simp_all add: split_beta)

lemma scheduler_step_inv: "scheduler_inv s \<Longrightarrow> scheduler_inv (snd (scheduler_step c s))"
proof (cases "\<exists>now. c = Tick now")
  case True
  then obtain now where c: "c = Tick now" ..
  assume inv: "scheduler_inv s"
  then show ?thesis by (cases rule: tick_cases [of s now]) (simp_all add: c inv)
qed (use scheduler_step_other(4) in blast)

lemma scheduler_run_inv: "scheduler_inv s \<Longrightarrow> scheduler_inv (snd (scheduler_run cs s))"
proof (induction cs arbitrary: s)
  case (Cons c cs)
  then show ?case using Cons.IH [OF scheduler_step_inv [OF Cons.prems, of c]] by (simp add: split_beta)
qed simp

abbreviation tick_frame :: "('a, 'p) frame_tick \<Rightarrow> frame_number" where
  "tick_frame t \<equiv> fd_frame (ft_deadline t)"

abbreviation next_frame :: "('i, 'f, 'a, 'p) frame_scheduler \<Rightarrow> nat" where
  "next_frame s \<equiv> unat (fp_next_frame (fs_pacer s))"

lemma deadline_for_next [simp]: "deadline_for (p\<lparr>fp_next_frame := n\<rparr>) f = deadline_for p f"
  by (simp add: deadline_for_def)

lemma scheduler_step_ticks:
  assumes inv: "scheduler_inv s" and step: "scheduler_step c s = (ts, s')"
  obtains (quiet) "ts = []" "fs_pacer s' = fs_pacer s" "pm_generation (fs_plans s') = pm_generation (fs_plans s)"
  | (ticked) t now where "c = Tick now" "ts = [t]" "unat (tick_frame t) = next_frame s" "next_frame s' = Suc (next_frame s)"
      "fs_pacer s' = (fs_pacer s)\<lparr>fp_next_frame := fp_next_frame (fs_pacer s')\<rparr>"
      "deadline_for (fs_pacer s) (tick_frame t) = Inr (ft_deadline t)"
      "pm_generation (fs_plans s) \<le> ft_plan_generation t" "ft_plan_generation t = pm_generation (fs_plans s')"
      "(ft_actions t, fs_actions s') = drain_due (tick_frame t) (fs_actions s)"
proof (cases "\<exists>now. c = Tick now")
  case True
  then obtain now where c: "c = Tick now" ..
  show thesis
  proof (cases rule: tick_cases [OF inv, of now])
    case (1 e)
    with c step show thesis by (intro quiet) auto
  next
    case (2 t u)
    with c step show thesis by (intro ticked [of now t]) simp_all
  qed
next
  case False
  then have "\<And>now. c \<noteq> Tick now" by blast
  from scheduler_step_other [OF inv this] step show thesis by (intro quiet) simp_all
qed

lemma scheduler_run_ticks:
  assumes "scheduler_inv s" "scheduler_run cs s = (ts, s')"
  shows "map (unat \<circ> tick_frame) ts = [next_frame s..<next_frame s'] \<and> next_frame s \<le> next_frame s'
    \<and> fp_frame_rate (fs_pacer s') = fp_frame_rate (fs_pacer s) \<and> fp_origin_ns (fs_pacer s') = fp_origin_ns (fs_pacer s)
    \<and> (\<forall>t \<in> set ts. deadline_for (fs_pacer s) (tick_frame t) = Inr (ft_deadline t)
         \<and> pm_generation (fs_plans s) \<le> ft_plan_generation t)
    \<and> sorted (map ft_plan_generation ts) \<and> pm_generation (fs_plans s) \<le> pm_generation (fs_plans s')"
  using assms
proof (induction cs arbitrary: s ts)
  case Nil
  then show ?case by simp
next
  case (Cons c cs)
  obtain ts1 s1 where step: "scheduler_step c s = (ts1, s1)" by fastforce
  obtain ts2 where rest: "scheduler_run cs s1 = (ts2, s')" "ts = ts1 @ ts2"
    using Cons.prems(2) step by (auto split: prod.splits)
  have inv1: "scheduler_inv s1" using scheduler_step_inv [OF Cons.prems(1), of c] step by simp
  note IH = Cons.IH [OF inv1 rest(1)]
  show ?case
  proof (cases rule: scheduler_step_ticks [OF Cons.prems(1) step])
    case 1
    with IH rest show ?thesis by simp
  next
    case (2 t now)
    have "deadline_for (fs_pacer s1) f = deadline_for (fs_pacer s) f" for f
      by (subst 2(5)) simp
    moreover have "fp_frame_rate (fs_pacer s1) = fp_frame_rate (fs_pacer s)"
      "fp_origin_ns (fs_pacer s1) = fp_origin_ns (fs_pacer s)" by (subst 2(5), simp)+
    ultimately show ?thesis using IH rest 2 by (auto simp: upt_conv_Cons intro: order.trans)
  qed
qed

text \<open>the deadlines of the frame pacer are the start times of the frame cadence: for every rate,
  origin and frame, both computations succeed together and give the same time.
\<close>
theorem pacer_matches_cadence:
  "deadline_for p f =
     (case time_of_frame \<lparr>cad_rate = fp_frame_rate p, cad_origin = fp_origin_ns p\<rparr> f of
        Inl _ \<Rightarrow> Inl DeadlineOverflow
      | Inr t \<Rightarrow> Inr \<lparr>fd_frame = f, fd_at_ns = t\<rparr>)"
proof (cases "deadline_for p f")
  case (Inl e)
  have "e = DeadlineOverflow"
    using Inl by (auto simp: deadline_for_def Let_def and_then_def ok_or_def split: sum.splits option.splits)
  moreover have "time_of_frame \<lparr>cad_rate = fp_frame_rate p, cad_origin = fp_origin_ns p\<rparr> f \<noteq> Inr t" for t
    using Inl deadline_for_Inr [of p f "\<lparr>fd_frame = f, fd_at_ns = t\<rparr>"] by (simp add: time_of_frame_Inr)
  ultimately show ?thesis using Inl by (auto split: sum.splits)
next
  case (Inr d)
  then have "time_of_frame \<lparr>cad_rate = fp_frame_rate p, cad_origin = fp_origin_ns p\<rparr> f = Inr (fd_at_ns d)"
    and "fd_frame d = f" by (auto simp: time_of_frame_Inr deadline_for_Inr)
  with Inr show ?thesis by simp
qed

text \<open>C12: however its operations are called, in any order, a scheduler that was started at frame n
  realizes the frames n, n + 1, n + 2 and so on, each exactly once and with its exact deadline;
  the plan generation of the realized frames never decreases; a tick never fails because of a
  plan boundary, and a tick that fails changes nothing. A tick at or after the deadline of the next
  frame succeeds, as long as frame numbers are left.
\<close>
theorem scheduler_realizes_frames_in_order:
  assumes "scheduler_started rate origin n generation plan s0" "scheduler_run calls s0 = (ticks, s)"
  shows "map (unat \<circ> tick_frame) ticks = [unat n..<unat n + length ticks]
    \<and> (\<forall>t \<in> set ticks. deadline_for (fs_pacer s) (tick_frame t) = Inr (ft_deadline t))
    \<and> sorted (map ft_plan_generation ticks)
    \<and> (\<forall>now e. fst (tick now s) = Inl e \<longrightarrow> (\<forall>pe. e \<noteq> TickPlan pe) \<and> snd (tick now s) = s)
    \<and> (\<forall>now d. next_deadline (fs_pacer s) = Inr d \<and> fd_at_ns d \<le> now \<and> next_frame s + 1 < 2 ^ 64
         \<longrightarrow> (\<exists>t s'. tick now s = (Inr t, s')))"
proof -
  note start = started_inv [OF assms(1)]
  note run = scheduler_run_ticks [OF start(1) assms(2)]
  have inv: "scheduler_inv s" using scheduler_run_inv [OF start(1), of calls] assms(2) by simp
  have n: "next_frame s0 = unat n" using start(3) by simp
  with run have "length ticks = next_frame s - unat n" by (metis length_map length_upt)
  with run n have "map (unat \<circ> tick_frame) ticks = [unat n..<unat n + length ticks]" by simp
  moreover have "deadline_for (fs_pacer s) f = deadline_for (fs_pacer s0) f" for f
    using run by (simp add: deadline_for_def)
  moreover have "fst (tick now s) = Inl e \<Longrightarrow> (\<forall>pe. e \<noteq> TickPlan pe) \<and> snd (tick now s) = s" for now e
    by (cases rule: tick_cases [OF inv, of now]) auto
  ultimately show ?thesis using run tick_succeeds [OF inv] by simp
qed

section \<open>Delivery of scheduled actions\<close>

abbreviation action_store :: "('i, 'f, 'a, 'p) frame_scheduler \<Rightarrow> 'a timed_store" where
  "action_store s \<equiv> queue_store (fs_actions s)"

fun withdraws :: "action_id \<Rightarrow> ('i, 'f, 'a, 'p) scheduler_call \<Rightarrow> bool" where
  "withdraws i (CancelAction j) \<longleftrightarrow> j = i"
| "withdraws i (SupersedeAction j _ _) \<longleftrightarrow> j = i"
| "withdraws i _ \<longleftrightarrow> False"

definition action_gone :: "action_id \<Rightarrow> ('i, 'f, 'a, 'p) frame_scheduler \<Rightarrow> bool" where
  "action_gone i s \<longleftrightarrow> action_store s i = None \<and> i \<le> aq_next_sequence (fs_actions s)"

lemma quiet_step_store:
  assumes inv: "scheduler_inv s" and "\<And>now. c \<noteq> Tick now"
  defines "s' \<equiv> snd (scheduler_step c s)"
  shows "\<not> withdraws i c \<Longrightarrow> action_store s i = Some fa \<Longrightarrow> action_store s' i = Some fa"
    and "action_gone i s \<Longrightarrow> action_gone i s'"
proof -
  have q: "queue_inv (fs_actions s)" using inv by (simp add: scheduler_inv_def)
  note defs = s'_def fs_schedule_action_def fs_cancel_action_def fs_supersede_action_def fs_schedule_plan_def
    fs_cancel_pending_plan_def fs_register_input_def fs_push_frame_def fs_pop_frame_def action_gone_def
  note cancel = queue_cancel(2,3) [OF q]
  show "action_store s' i = Some fa" if "\<not> withdraws i c" "action_store s i = Some fa"
  proof (cases c)
    case (ScheduleAction f a)
    with queue_schedule [OF q, of f a] that show ?thesis by (auto simp: defs)
  next
    case (SupersedeAction j f a)
    with queue_supersede [OF q, of j f a] that show ?thesis by (auto simp: defs)
  qed (use that assms(2) cancel in \<open>auto simp: defs split_beta split: sum.splits\<close>)
  show "action_gone i s'" if "action_gone i s"
  proof (cases c)
    case (ScheduleAction f a)
    with queue_schedule [OF q, of f a] that show ?thesis by (auto simp: defs)
  next
    case (SupersedeAction j f a)
    with queue_supersede [OF q, of j f a] that show ?thesis by (auto simp: defs)
  qed (use that assms(2) cancel in \<open>auto simp: defs split_beta split: sum.splits\<close>)
qed

lemma step_gone:
  assumes inv: "scheduler_inv s" and step: "scheduler_step c s = (ts, s')" and gone: "action_gone i s"
  shows "action_gone i s' \<and> (\<forall>t \<in> set ts. \<forall>x \<in> set (ft_actions t). sa_id x \<noteq> i)"
proof (cases rule: scheduler_step_ticks [OF inv step])
  case 1
  show ?thesis
  proof (cases "\<exists>now. c = Tick now")
    case True
    then obtain now where "c = Tick now" ..
    with 1 step gone show ?thesis by (cases rule: tick_cases [OF inv, of now]) auto
  next
    case False
    with quiet_step_store(2) [OF inv, of c, OF _ gone] 1 step show ?thesis by auto
  qed
next
  case (2 t now)
  have q: "queue_inv (fs_actions s)" using inv by (simp add: scheduler_inv_def)
  note drain = queue_drain [OF q, of "tick_frame t"]
  from 2(9) have d: "fst (drain_due (tick_frame t) (fs_actions s)) = ft_actions t"
    "snd (drain_due (tick_frame t) (fs_actions s)) = fs_actions s'" by (metis fst_conv, metis snd_conv)
  from gone drain(2,3,4) show ?thesis
    unfolding d 2(2) by (auto simp: action_gone_def drop_due_def due_actions_def)
qed

lemma step_waiting:
  assumes inv: "scheduler_inv s" and step: "scheduler_step c s = (ts, s')"
    and wait: "action_store s i = Some (f, a)" and "\<not> withdraws i c"
  shows "ts = [] \<and> action_store s' i = Some (f, a)
    \<or> (\<exists>t. ts = [t] \<and> (if f \<le> tick_frame t
          then action_gone i s' \<and> {x \<in> set (ft_actions t). sa_id x = i} = {\<lparr>sa_id = i, sa_target_frame = f, sa_action = a\<rparr>}
          else action_store s' i = Some (f, a) \<and> (\<forall>x \<in> set (ft_actions t). sa_id x \<noteq> i)))"
proof (cases rule: scheduler_step_ticks [OF inv step])
  case 1
  show ?thesis
  proof (cases "\<exists>now. c = Tick now")
    case True
    then obtain now where "c = Tick now" ..
    with 1 step wait show ?thesis by (cases rule: tick_cases [OF inv, of now]) auto
  next
    case False
    with quiet_step_store(1) [OF inv, of c, OF _ assms(4) wait] 1 step show ?thesis by auto
  qed
next
  case (2 t now)
  have q: "queue_inv (fs_actions s)" using inv by (simp add: scheduler_inv_def)
  note drain = queue_drain [OF q, of "tick_frame t"]
  from 2(9) have d: "fst (drain_due (tick_frame t) (fs_actions s)) = ft_actions t"
    "snd (drain_due (tick_frame t) (fs_actions s)) = fs_actions s'" by (metis fst_conv, metis snd_conv)
  have "i \<le> aq_next_sequence (fs_actions s)"
    using wait queue_inv_ordered(3) [OF q] queue_store_Some [OF q] by blast
  moreover have "{x \<in> set (ft_actions t). sa_id x = i}
      = (if f \<le> tick_frame t then {\<lparr>sa_id = i, sa_target_frame = f, sa_action = a\<rparr>} else {})" (is "?l = ?r")
  proof (rule set_eqI)
    fix x
    show "x \<in> ?l \<longleftrightarrow> x \<in> ?r"
      using wait drain(4) unfolding d by (cases x) (auto simp: due_actions_def)
  qed
  moreover have "action_store s' i = (if f \<le> tick_frame t then None else Some (f, a))"
    using wait drain(3) unfolding d by (simp add: drop_due_def)
  ultimately show ?thesis
    using drain(2) unfolding d 2(2) by (cases "f \<le> tick_frame t") (auto simp: action_gone_def)
qed

lemma run_gone:
  assumes "scheduler_inv s" "scheduler_run cs s = (ts, s')" "action_gone i s"
  shows "action_gone i s' \<and> (\<forall>t \<in> set ts. \<forall>x \<in> set (ft_actions t). sa_id x \<noteq> i)"
  using assms
proof (induction cs arbitrary: s ts)
  case (Cons c cs)
  obtain ts1 s1 where step: "scheduler_step c s = (ts1, s1)" by fastforce
  obtain ts2 where rest: "scheduler_run cs s1 = (ts2, s')" "ts = ts1 @ ts2"
    using Cons.prems(2) step by (auto split: prod.splits)
  have inv1: "scheduler_inv s1" using scheduler_step_inv [OF Cons.prems(1), of c] step by simp
  from step_gone [OF Cons.prems(1) step Cons.prems(3)] Cons.IH [OF inv1 rest(1)] rest(2) show ?case by auto
qed simp

lemma run_tick_bounds:
  assumes "scheduler_inv s" "scheduler_run cs s = (ts, s')"
  shows "next_frame s \<le> next_frame s'"
    and "\<And>t. t \<in> set ts \<Longrightarrow> next_frame s \<le> unat (tick_frame t) \<and> unat (tick_frame t) < next_frame s'"
proof -
  note run = scheduler_run_ticks [OF assms]
  show "next_frame s \<le> next_frame s'" using run by blast
  fix t assume "t \<in> set ts"
  then have "unat (tick_frame t) \<in> set (map (unat \<circ> tick_frame) ts)" by simp
  with run show "next_frame s \<le> unat (tick_frame t) \<and> unat (tick_frame t) < next_frame s'" by (metis atLeastLessThan_iff set_upt)
qed

lemma run_waiting:
  assumes "scheduler_inv s" "scheduler_run cs s = (ts, s')" "action_store s i = Some (f, a)"
    and "\<forall>c \<in> set cs. \<not> withdraws i c"
  shows "(\<forall>t \<in> set ts. {x \<in> set (ft_actions t). sa_id x = i}
        = (if unat (tick_frame t) = max (unat f) (next_frame s)
           then {\<lparr>sa_id = i, sa_target_frame = f, sa_action = a\<rparr>} else {}))
    \<and> (if max (unat f) (next_frame s) < next_frame s' then action_gone i s' else action_store s' i = Some (f, a))"
  using assms
proof (induction cs arbitrary: s ts)
  case Nil
  then show ?case by simp
next
  case (Cons c cs)
  obtain ts1 s1 where step: "scheduler_step c s = (ts1, s1)" by fastforce
  obtain ts2 where rest: "scheduler_run cs s1 = (ts2, s')" "ts = ts1 @ ts2"
    using Cons.prems(2) step by (auto split: prod.splits)
  have inv1: "scheduler_inv s1" using scheduler_step_inv [OF Cons.prems(1), of c] step by simp
  have keep: "\<not> withdraws i c" "\<forall>c \<in> set cs. \<not> withdraws i c" using Cons.prems(4) by simp_all
  note IH = Cons.IH [OF inv1 rest(1) _ keep(2)]
  note waiting = step_waiting [OF Cons.prems(1) step Cons.prems(3) keep(1)]
  note bounds = run_tick_bounds [OF inv1 rest(1)]
  show ?case
  proof (cases rule: scheduler_step_ticks [OF Cons.prems(1) step])
    case 1
    with waiting IH rest(2) show ?thesis by simp
  next
    case (2 t now)
    show ?thesis
    proof (cases "f \<le> tick_frame t")
      case True
      with waiting 2(2) have gone: "action_gone i s1"
        and now: "{x \<in> set (ft_actions t). sa_id x = i} = {\<lparr>sa_id = i, sa_target_frame = f, sa_action = a\<rparr>}"
        by auto
      have m: "max (unat f) (next_frame s) = next_frame s" using True 2(3) by (simp add: word_less_unat)
      have later: "action_gone i s'" "\<forall>u \<in> set ts2. {x \<in> set (ft_actions u). sa_id x = i} = {}"
        using run_gone [OF inv1 rest(1) gone] by auto
      have "\<forall>u \<in> set ts2. unat (tick_frame u) \<noteq> next_frame s" using bounds(2) 2(4) by fastforce
      with later now rest(2) 2 bounds(1) show ?thesis unfolding m by simp
    next
      case False
      with waiting 2(2) have wait: "action_store s1 i = Some (f, a)"
        and now: "{x \<in> set (ft_actions t). sa_id x = i} = {}" by auto
      have "next_frame s < unat f" using False 2(3) by (simp add: word_less_unat)
      then have "max (unat f) (next_frame s) = unat f" "max (unat f) (next_frame s1) = unat f"
        using 2(4) by simp_all
      with IH [OF wait] now rest(2) 2(2,3) \<open>next_frame s < unat f\<close> show ?thesis by simp
    qed
  qed
qed

text \<open>C13: an action that the scheduler accepted for a frame, and that is not cancelled or superseded, is
  delivered by the tick that realizes its target frame, or, if that frame has already passed, by the
  next tick, and by no other: whatever else is called, no other tick delivers an action with its
  identifier, and as long as the frame is not realized the action stays in the queue.
\<close>
theorem scheduled_action_delivered_once:
  assumes "scheduler_started rate origin n generation plan s0" "scheduler_run before s0 = (ticks0, s)"
    and "fs_schedule_action f a s = (Inr i, s1)"
    and "\<forall>c \<in> set calls. \<not> withdraws i c" "scheduler_run calls s1 = (ticks, s')"
  shows "(\<forall>t \<in> set ticks. {x \<in> set (ft_actions t). sa_id x = i}
        = (if unat (tick_frame t) = max (unat f) (next_frame s)
           then {\<lparr>sa_id = i, sa_target_frame = f, sa_action = a\<rparr>} else {}))
    \<and> (if max (unat f) (next_frame s) < next_frame s'
       then \<exists>t \<in> set ticks. \<lparr>sa_id = i, sa_target_frame = f, sa_action = a\<rparr> \<in> set (ft_actions t)
       else queue_store (fs_actions s') i = Some (f, a))"
proof -
  have inv: "scheduler_inv s" using scheduler_run_inv [OF started_inv(1) [OF assms(1)], of before] assms(2) by simp
  have inv1: "scheduler_inv s1" and pacer: "fs_pacer s1 = fs_pacer s"
    using scheduler_step_other [OF inv, of "ScheduleAction f a"] assms(3) by simp_all
  have "queue_inv (fs_actions s)" using inv by (simp add: scheduler_inv_def)
  from queue_schedule [OF this, of f a] have wait: "action_store s1 i = Some (f, a)"
    using assms(3) by (auto simp: fs_schedule_action_def)
  note run = run_waiting [OF inv1 assms(5) wait assms(4)]
  have "\<exists>t \<in> set ticks. \<lparr>sa_id = i, sa_target_frame = f, sa_action = a\<rparr> \<in> set (ft_actions t)"
    if "max (unat f) (next_frame s) < next_frame s'"
  proof -
    have "max (unat f) (next_frame s) \<in> set [next_frame s1..<next_frame s']" using that pacer by simp
    then obtain t where t: "t \<in> set ticks" "unat (tick_frame t) = max (unat f) (next_frame s1)"
      using scheduler_run_ticks [OF inv1 assms(5)] pacer
      by (metis (no_types, lifting) comp_apply image_iff list.set_map)
    with run have "{x \<in> set (ft_actions t). sa_id x = i} = {\<lparr>sa_id = i, sa_target_frame = f, sa_action = a\<rparr>}" by simp
    with t(1) show ?thesis by blast
  qed
  with run show ?thesis unfolding pacer by simp
qed

text \<open>A scheduler at one frame per second with an action for frame 1, ticked three times.\<close>

definition demo_scheduler :: "(nat, nat, string, nat) frame_scheduler" where
  "demo_scheduler = frame_scheduler_new \<lparr>numerator = 1, denominator = 1\<rparr> 0 1 0"

definition demo_calls :: "(nat, nat, string, nat) scheduler_call list" where
  "demo_calls = [Tick 0, SchedulePlan 2 1 7, CancelAction 9, Tick 1000000001, Tick 5, Tick 2000000000]"

lemma demo_schedule:
  "fs_schedule_action 1 ''cut'' demo_scheduler = (Inr 1, demo_scheduler\<lparr>fs_actions :=
     \<lparr>aq_next_sequence = 1, aq_ordered = [((1, 1), \<lparr>sa_id = 1, sa_target_frame = 1, sa_action = ''cut''\<rparr>)],
      aq_by_id = [1 \<mapsto> (1, 1)]\<rparr>\<rparr>)"
  by (simp add: fs_schedule_action_def demo_scheduler_def frame_scheduler_new_def action_queue_default_def
      schedule_action_def allocate_id_def checked_add_def ok_or_def insert_action_def Let_def)

theorem scheduled_action_delivered_once_witness:
  "\<exists>s1 ticks s'. fs_schedule_action 1 ''cut'' demo_scheduler = (Inr 1, s1) \<and> scheduler_run demo_calls s1 = (ticks, s')
    \<and> (\<forall>t \<in> set ticks. {x \<in> set (ft_actions t). sa_id x = 1}
        = (if unat (tick_frame t) = 1 then {\<lparr>sa_id = 1, sa_target_frame = 1, sa_action = ''cut''\<rparr>} else {}))"
proof -
  let ?s1 = "snd (fs_schedule_action 1 ''cut'' demo_scheduler)"
  have start: "scheduler_started \<lparr>numerator = 1, denominator = 1\<rparr> 0 0 1 0 demo_scheduler"
    by (simp add: scheduler_started_def demo_scheduler_def)
  have none: "scheduler_run [] demo_scheduler = ([], demo_scheduler)" by simp
  have sched: "fs_schedule_action 1 ''cut'' demo_scheduler = (Inr 1, ?s1)" by (simp add: demo_schedule)
  have keep: "\<forall>c \<in> set demo_calls. \<not> withdraws 1 c" by (simp add: demo_calls_def)
  obtain ticks s' where run: "scheduler_run demo_calls ?s1 = (ticks, s')" by fastforce
  have "next_frame demo_scheduler = 0"
    by (simp add: demo_scheduler_def frame_scheduler_new_def frame_pacer_new_def)
  then have m: "max (unat (1 :: u64)) (next_frame demo_scheduler) = 1" by simp
  show ?thesis
    using scheduled_action_delivered_once [OF start none sched keep run] sched run unfolding m by blast
qed

theorem scheduler_realizes_frames_in_order_witness:
  "\<exists>ticks s. scheduler_run demo_calls demo_scheduler = (ticks, s)
    \<and> map (unat \<circ> tick_frame) ticks = [0..<length ticks] \<and> sorted (map ft_plan_generation ticks)"
proof -
  have start: "scheduler_started \<lparr>numerator = 1, denominator = 1\<rparr> 0 0 1 0 demo_scheduler"
    by (simp add: scheduler_started_def demo_scheduler_def)
  obtain ticks s where run: "scheduler_run demo_calls demo_scheduler = (ticks, s)" by fastforce
  with scheduler_realizes_frames_in_order [OF start run] show ?thesis by simp
qed

end
