(* ===== verification/Switcher_Fades.thy ===== *)
theory Switcher_Fades
  imports Media_Types
begin

text \<open>
  The crate \<open>crates/features/fm-switcher\<close>, the parts that move with the frame clock: transitions and
  the T-bar (\<open>transition.rs\<close>), Fade-to-Black (\<open>fade_to_black.rs\<close>) and the overlay channels
  (\<open>overlay.rs\<close>). Arithmetic that panics when it overflows (\<open>+\<close>, \<open>*\<close> and \<open>expect\<close>) returns an option
  whose \<open>None\<close> is the panic, so that a result \<open>Some\<close> says that the code does not panic.
\<close>

named_theorems switcher_simps \<open>unfolding rules of the switcher operations\<close>

section \<open>Transitions\<close>

type_synonym stinger_slot_id = u8
type_synonym overlay_channel_id = u8

datatype transition_kind = Fade | Wipe | Slide | Zoom | AlphaFade | Stinger stinger_slot_id

definition TBAR_MAX :: u16 where
  "TBAR_MAX = 10000"

type_synonym t_bar_position = u16

definition t_bar_position_new :: "u16 \<Rightarrow> t_bar_position option" where
  "t_bar_position_new basis_points = (if basis_points \<le> TBAR_MAX then Some basis_points else None)"

record t_bar_state =
  tb_kind :: transition_kind
  tb_from :: input_id
  tb_to :: input_id
  tb_interval_start :: t_bar_position
  tb_position :: t_bar_position

definition t_bar_new :: "transition_kind \<Rightarrow> input_id \<Rightarrow> input_id \<Rightarrow> t_bar_state" where
  "t_bar_new kind src dst =
     \<lparr>tb_kind = kind, tb_from = src, tb_to = dst, tb_interval_start = 0, tb_position = 0\<rparr>"

definition t_bar_restore ::
  "transition_kind \<Rightarrow> input_id \<Rightarrow> input_id \<Rightarrow> t_bar_position \<Rightarrow> t_bar_position \<Rightarrow> t_bar_state" where
  "t_bar_restore kind src dst start pos =
     \<lparr>tb_kind = kind, tb_from = src, tb_to = dst, tb_interval_start = start, tb_position = pos\<rparr>"

definition set_position :: "t_bar_position \<Rightarrow> t_bar_state \<Rightarrow> t_bar_state" where
  "set_position p b = b\<lparr>tb_position := p\<rparr>"

definition settle_frame :: "t_bar_state \<Rightarrow> t_bar_state" where
  "settle_frame b = b\<lparr>tb_interval_start := tb_position b\<rparr>"

record transition_state =
  tr_kind :: transition_kind
  tr_from :: input_id
  tr_to :: input_id
  tr_duration_frames :: u32
  tr_elapsed_frames :: u32

definition transition_new :: "transition_kind \<Rightarrow> input_id \<Rightarrow> input_id \<Rightarrow> u32 \<Rightarrow> transition_state" where
  "transition_new kind src dst duration =
     \<lparr>tr_kind = kind, tr_from = src, tr_to = dst, tr_duration_frames = duration, tr_elapsed_frames = 0\<rparr>"

definition mix_end_numerator :: "transition_state \<Rightarrow> u32" where
  "mix_end_numerator t =
     (let nxt = saturating_add (tr_elapsed_frames t) 1 in
      if nxt < tr_duration_frames t then nxt else tr_duration_frames t)"

definition transition_advance :: "transition_state \<Rightarrow> (bool \<times> transition_state) option" where
  "transition_advance t =
     map_option (\<lambda>e. (e \<ge> tr_duration_frames t, t\<lparr>tr_elapsed_frames := e\<rparr>)) (checked_add (tr_elapsed_frames t) 1)"

section \<open>Linear interpolation\<close>

text \<open>
  The body that \<open>AutomaticFadeToBlack::position_at\<close> (on \<open>u16\<close>) and
  \<open>AutomaticOverlayTransition::opacity_at\<close> (on \<open>u8\<close>) share: the product is a checked \<open>u32\<close>
  product, the offset is narrowed with \<open>try_from(..).expect(..)\<close>, the last sum is checked.
\<close>

definition abs_diff :: "'a::len word \<Rightarrow> 'a word \<Rightarrow> 'a word" where
  "abs_diff a b = (if a \<le> b then b - a else a - b)"

definition interpolate :: "'a::len word \<Rightarrow> 'a word \<Rightarrow> u32 \<Rightarrow> u32 \<Rightarrow> 'a word option" where
  "interpolate start target elapsed duration =
     (let distance = abs_diff start target in
      Option.bind (checked_mul (ucast distance :: u32) elapsed) (\<lambda>product.
      Option.bind (if duration = 0 then None else Some (unat product div unat duration)) (\<lambda>quotient.
      Option.bind (word_try_from quotient) (\<lambda>offset.
        if target \<ge> start then checked_add start offset else checked_sub start offset))))"

section \<open>Fade to black\<close>

definition MAX_FADE_TO_BLACK_DURATION_FRAMES :: u32 where
  "MAX_FADE_TO_BLACK_DURATION_FRAMES = 3600"

type_synonym fade_to_black_position = u16

abbreviation FTB_LIVE :: fade_to_black_position where "FTB_LIVE \<equiv> 0"
abbreviation FTB_BLACK :: fade_to_black_position where "FTB_BLACK \<equiv> - 1"

datatype fade_to_black_target = Live | Black

definition from_active :: "bool \<Rightarrow> fade_to_black_target" where
  "from_active active = (if active then Black else Live)"

definition target_active :: "fade_to_black_target \<Rightarrow> bool" where
  "target_active t \<longleftrightarrow> t = Black"

fun target_position :: "fade_to_black_target \<Rightarrow> fade_to_black_position" where
  "target_position Live = FTB_LIVE"
| "target_position Black = FTB_BLACK"

record fade_to_black_frame =
  ff_interval_start :: fade_to_black_position
  ff_interval_end :: fade_to_black_position
  ff_target :: fade_to_black_target
  ff_progress_start_numerator :: u32
  ff_progress_end_numerator :: u32
  ff_progress_denominator :: u32

record fade_to_black_started =
  fst_from :: fade_to_black_position
  fst_target :: fade_to_black_target
  fst_duration_frames :: u32

datatype fade_to_black_request =
    FtbUnchanged | FtbStarted fade_to_black_started | FtbCompleted fade_to_black_target

record fade_to_black_advance =
  fa_position_changed :: "fade_to_black_position option"
  fa_completed :: "fade_to_black_target option"

record automatic_fade_to_black =
  af_start :: fade_to_black_position
  af_target :: fade_to_black_target
  af_duration_frames :: u32
  af_elapsed_frames :: u32

definition position_at :: "automatic_fade_to_black \<Rightarrow> u32 \<Rightarrow> fade_to_black_position option" where
  "position_at a elapsed = interpolate (af_start a) (target_position (af_target a)) elapsed (af_duration_frames a)"

definition automatic_frame :: "automatic_fade_to_black \<Rightarrow> fade_to_black_frame option" where
  "automatic_frame a =
     (let progress_end = saturating_add (af_elapsed_frames a) 1;
          progress_end = (if progress_end < af_duration_frames a then progress_end else af_duration_frames a)
      in Option.bind (position_at a (af_elapsed_frames a)) (\<lambda>interval_start.
         Option.bind (position_at a progress_end) (\<lambda>interval_end.
           Some \<lparr>ff_interval_start = interval_start, ff_interval_end = interval_end, ff_target = af_target a,
                 ff_progress_start_numerator = af_elapsed_frames a, ff_progress_end_numerator = progress_end,
                 ff_progress_denominator = af_duration_frames a\<rparr>)))"

record fade_to_black_controller =
  fc_position :: fade_to_black_position
  fc_target :: fade_to_black_target
  fc_automatic :: "automatic_fade_to_black option"

definition ftb_default :: fade_to_black_controller where
  "ftb_default = \<lparr>fc_position = FTB_LIVE, fc_target = Live, fc_automatic = None\<rparr>"

definition ftb_settled :: "fade_to_black_target \<Rightarrow> fade_to_black_controller" where
  "ftb_settled target = \<lparr>fc_position = target_position target, fc_target = target, fc_automatic = None\<rparr>"

definition ftb_frame :: "fade_to_black_controller \<Rightarrow> fade_to_black_frame option" where
  "ftb_frame c =
     (case fc_automatic c of
        Some a \<Rightarrow> automatic_frame a
      | None \<Rightarrow> Some \<lparr>ff_interval_start = fc_position c, ff_interval_end = fc_position c, ff_target = fc_target c,
                      ff_progress_start_numerator = 0, ff_progress_end_numerator = 0,
                      ff_progress_denominator = 1\<rparr>)"

datatype fade_to_black_error = FtbZeroDuration | FtbDurationLimit u32 u32

definition validate_duration :: "u32 \<Rightarrow> fade_to_black_error + unit" where
  "validate_duration d =
     (if d = 0 then Inl FtbZeroDuration
      else if d > MAX_FADE_TO_BLACK_DURATION_FRAMES then Inl (FtbDurationLimit d MAX_FADE_TO_BLACK_DURATION_FRAMES)
      else Inr ())"

definition ftb_request ::
  "fade_to_black_target \<Rightarrow> u32 \<Rightarrow> (fade_to_black_error, fade_to_black_request, fade_to_black_controller) meth" where
  "ftb_request target duration c =
     (case validate_duration duration of
        Inl e \<Rightarrow> (Inl e, c)
      | Inr _ \<Rightarrow>
          if fc_target c = target then (Inr FtbUnchanged, c)
          else if fc_position c = target_position target
          then (Inr (FtbCompleted target), c\<lparr>fc_target := target, fc_automatic := None\<rparr>)
          else (Inr (FtbStarted \<lparr>fst_from = fc_position c, fst_target = target, fst_duration_frames = duration\<rparr>),
                c\<lparr>fc_target := target,
                  fc_automatic := Some \<lparr>af_start = fc_position c, af_target = target,
                                        af_duration_frames = duration, af_elapsed_frames = 0\<rparr>\<rparr>))"

definition ftb_advance :: "fade_to_black_controller \<Rightarrow> (fade_to_black_advance \<times> fade_to_black_controller) option" where
  "ftb_advance c =
     (case fc_automatic c of
        None \<Rightarrow> Some (\<lparr>fa_position_changed = None, fa_completed = None\<rparr>, c)
      | Some a \<Rightarrow>
          Option.bind (checked_add (af_elapsed_frames a) 1) (\<lambda>elapsed.
          let a = a\<lparr>af_elapsed_frames := elapsed\<rparr> in
          Option.bind (position_at a elapsed) (\<lambda>pos.
          let completed = (elapsed \<ge> af_duration_frames a);
              c' = (if completed
                    then c\<lparr>fc_position := target_position (af_target a), fc_automatic := None\<rparr>
                    else c\<lparr>fc_position := pos, fc_automatic := Some a\<rparr>)
          in Some (\<lparr>fa_position_changed = (if fc_position c' = fc_position c then None else Some (fc_position c')),
                    fa_completed = (if completed then Some (af_target a) else None)\<rparr>, c'))))"

section \<open>Overlay channels\<close>

definition OVERLAY_CHANNEL_COUNT :: usize where "OVERLAY_CHANNEL_COUNT = 8"
definition MAX_OVERLAY_TRANSITION_DURATION_FRAMES :: u32 where "MAX_OVERLAY_TRANSITION_DURATION_FRAMES = 3600"
definition MAX_OVERLAY_QUEUE_DEPTH :: usize where "MAX_OVERLAY_QUEUE_DEPTH = 64"

datatype overlay_transition_kind = OverlayCut | OverlayFade
datatype overlay_position_preset = FullFrame | TopLeft | TopRight | BottomLeft | BottomRight
datatype overlay_border_preset = BorderNone | ThinWhite | ThickWhite

record automatic_overlay_transition =
  ao_start_opacity :: u8
  ao_target_opacity :: u8
  ao_target_active :: bool
  ao_duration_frames :: u32
  ao_elapsed_frames :: u32

definition opacity_at :: "automatic_overlay_transition \<Rightarrow> u32 \<Rightarrow> u8 option" where
  "opacity_at a elapsed = interpolate (ao_start_opacity a) (ao_target_opacity a) elapsed (ao_duration_frames a)"

record overlay_transition_advance =
  oa_opacity_changed :: "u8 option"
  oa_completed :: "bool option"

definition overlay_channel_new :: "u8 \<Rightarrow> overlay_channel_id option" where
  "overlay_channel_new number = (if number \<ge> 1 \<and> number \<le> 8 then Some number else None)"

definition overlay_channel_from_index :: "usize \<Rightarrow> overlay_channel_id option" where
  "overlay_channel_from_index index =
     (if index < OVERLAY_CHANNEL_COUNT
      then Option.bind (word_try_from index) (\<lambda>i. checked_add i 1) else None)"

definition OVERLAY_CHANNELS :: "overlay_channel_id list" where
  "OVERLAY_CHANNELS = [1, 2, 3, 4, 5, 6, 7, 8]"

definition channel_index :: "u8 \<Rightarrow> usize" where
  "channel_index c = unat (c - 1)"

record overlay_channel_state =
  ov_source :: "input_id option"
  ov_active :: bool
  ov_opacity :: u8
  ov_transition :: overlay_transition_kind
  ov_duration_frames :: u32
  ov_position :: overlay_position_preset
  ov_border :: overlay_border_preset
  ov_queue :: "input_id list"
  ov_automatic :: "automatic_overlay_transition option"
  ov_included_outputs :: "output_id list"

definition overlay_empty :: overlay_channel_state where
  "overlay_empty =
     \<lparr>ov_source = None, ov_active = False, ov_opacity = 0, ov_transition = OverlayCut, ov_duration_frames = 1,
      ov_position = FullFrame, ov_border = BorderNone, ov_queue = [], ov_automatic = None,
      ov_included_outputs = []\<rparr>"

definition overlay_take :: "input_id \<Rightarrow> overlay_channel_state \<Rightarrow> overlay_channel_state" where
  "overlay_take source ch = ch\<lparr>ov_source := Some source, ov_active := True, ov_opacity := - 1, ov_automatic := None\<rparr>"

definition overlay_update :: "input_id \<Rightarrow> overlay_channel_state \<Rightarrow> overlay_channel_state" where
  "overlay_update source ch = ch\<lparr>ov_source := Some source\<rparr>"

definition overlay_off :: "overlay_channel_state \<Rightarrow> overlay_channel_state" where
  "overlay_off ch = ch\<lparr>ov_active := False, ov_opacity := 0, ov_automatic := None\<rparr>"

definition overlay_configure_transition ::
  "overlay_transition_kind \<Rightarrow> u32 \<Rightarrow> overlay_channel_state \<Rightarrow> overlay_channel_state" where
  "overlay_configure_transition transition duration ch =
     ch\<lparr>ov_transition := transition, ov_duration_frames := duration\<rparr>"

definition overlay_configure_appearance ::
  "overlay_position_preset \<Rightarrow> overlay_border_preset \<Rightarrow> overlay_channel_state \<Rightarrow> overlay_channel_state" where
  "overlay_configure_appearance pos border ch = ch\<lparr>ov_position := pos, ov_border := border\<rparr>"

definition overlay_enqueue :: "input_id \<Rightarrow> overlay_channel_state \<Rightarrow> bool \<times> overlay_channel_state" where
  "overlay_enqueue source ch =
     (if length (ov_queue ch) \<ge> MAX_OVERLAY_QUEUE_DEPTH then (False, ch)
      else (True, ch\<lparr>ov_queue := ov_queue ch @ [source]\<rparr>))"

definition overlay_take_next :: "overlay_channel_state \<Rightarrow> input_id option \<times> overlay_channel_state" where
  "overlay_take_next ch =
     (case ov_queue ch of
        [] \<Rightarrow> (None, ch)
      | source # rest \<Rightarrow> (Some source, overlay_take source (ch\<lparr>ov_queue := rest\<rparr>)))"

definition overlay_request_take :: "input_id \<Rightarrow> overlay_channel_state \<Rightarrow> overlay_channel_state" where
  "overlay_request_take source ch =
     (let ch = ch\<lparr>ov_source := Some source, ov_active := True\<rparr> in
      case ov_transition ch of
        OverlayCut \<Rightarrow> ch\<lparr>ov_opacity := - 1, ov_automatic := None\<rparr>
      | OverlayFade \<Rightarrow>
          ch\<lparr>ov_opacity := 0,
            ov_automatic := Some \<lparr>ao_start_opacity = 0, ao_target_opacity = - 1, ao_target_active = True,
                                  ao_duration_frames = ov_duration_frames ch, ao_elapsed_frames = 0\<rparr>\<rparr>)"

definition overlay_request_take_next :: "overlay_channel_state \<Rightarrow> input_id option \<times> overlay_channel_state" where
  "overlay_request_take_next ch =
     (case ov_queue ch of
        [] \<Rightarrow> (None, ch)
      | source # rest \<Rightarrow> (Some source, overlay_request_take source (ch\<lparr>ov_queue := rest\<rparr>)))"

definition overlay_request_off :: "overlay_channel_state \<Rightarrow> overlay_channel_state" where
  "overlay_request_off ch =
     (if ov_transition ch = OverlayFade \<and> ov_active ch
      then ch\<lparr>ov_automatic := Some \<lparr>ao_start_opacity = ov_opacity ch, ao_target_opacity = 0, ao_target_active = False,
                                   ao_duration_frames = ov_duration_frames ch, ao_elapsed_frames = 0\<rparr>\<rparr>
      else overlay_off ch)"

definition overlay_advance ::
  "overlay_channel_state \<Rightarrow> (overlay_transition_advance \<times> overlay_channel_state) option" where
  "overlay_advance ch =
     (case ov_automatic ch of
        None \<Rightarrow> Some (\<lparr>oa_opacity_changed = None, oa_completed = None\<rparr>, ch)
      | Some a \<Rightarrow>
          Option.bind (checked_add (ao_elapsed_frames a) 1) (\<lambda>elapsed.
          let a = a\<lparr>ao_elapsed_frames := elapsed\<rparr> in
          Option.bind (opacity_at a elapsed) (\<lambda>opacity.
          let completed = (elapsed \<ge> ao_duration_frames a);
              ch' = (if completed
                    then ch\<lparr>ov_opacity := ao_target_opacity a, ov_active := ao_target_active a, ov_automatic := None\<rparr>
                    else ch\<lparr>ov_opacity := opacity, ov_automatic := Some a\<rparr>)
          in Some (\<lparr>oa_opacity_changed = (if ov_opacity ch' \<noteq> ov_opacity ch then Some (ov_opacity ch') else None),
                    oa_completed = (if completed then Some (ao_target_active a) else None)\<rparr>, ch'))))"

definition overlay_set_output_inclusion ::
  "output_id \<Rightarrow> bool \<Rightarrow> overlay_channel_state \<Rightarrow> overlay_channel_state" where
  "overlay_set_output_inclusion output included ch =
     (if included
      then if output \<in> set (ov_included_outputs ch) then ch
           else ch\<lparr>ov_included_outputs := ov_included_outputs ch @ [output]\<rparr>
      else ch\<lparr>ov_included_outputs := filter (\<lambda>candidate. candidate \<noteq> output) (ov_included_outputs ch)\<rparr>)"

section \<open>What the interpolation computes\<close>

definition lerp :: "nat \<Rightarrow> nat \<Rightarrow> nat \<Rightarrow> nat \<Rightarrow> nat" where
  "lerp s t e d = (if s \<le> t then s + (t - s) * e div d else s - (s - t) * e div d)"

lemma lerp_start [simp]: "lerp s t 0 d = s"
  by (simp add: lerp_def)

lemma lerp_end [simp]: "0 < d \<Longrightarrow> lerp s t d d = t"
  by (simp add: lerp_def)

lemma lerp_offset_le: "e \<le> d \<Longrightarrow> x * e div d \<le> x" for x e d :: nat
  by (cases "d = 0") (auto intro: order.trans [OF div_le_mono [OF mult_le_mono2]])

lemma lerp_mono:
  assumes "e \<le> f" "f \<le> d"
  shows "s \<le> t \<Longrightarrow> lerp s t e d \<le> lerp s t f d \<and> lerp s t f d \<le> t"
    and "t \<le> s \<Longrightarrow> lerp s t f d \<le> lerp s t e d \<and> t \<le> lerp s t f d"
proof -
  have step: "x * e div d \<le> x * f div d" "x * f div d \<le> x" for x
    using assms lerp_offset_le [of f d x] by (simp_all add: div_le_mono)
  show "s \<le> t \<Longrightarrow> lerp s t e d \<le> lerp s t f d \<and> lerp s t f d \<le> t"
    using step [of "t - s"] by (simp add: lerp_def)
  show "t \<le> s \<Longrightarrow> lerp s t f d \<le> lerp s t e d \<and> t \<le> lerp s t f d"
    using step [of "s - t"] by (auto simp: lerp_def)
qed

lemma unat_abs_diff: "unat (abs_diff a b) = (if unat a \<le> unat b then unat b - unat a else unat a - unat b)"
  by (auto simp: abs_diff_def word_less_unat unat_sub)

lemma interpolate_lerp:
  fixes s t :: "'a::len word"
  assumes small: "LENGTH('a) \<le> 16" and d: "0 < d" "d \<le> 3600" and e: "e \<le> d"
  obtains w where "interpolate s t e d = Some w" "unat w = lerp (unat s) (unat t) (unat e) (unat d)"
proof -
  have bound: "unat x < 65536" for x :: "'a word"
  proof -
    have "unat x < 2 ^ LENGTH('a)" by simp
    also have "\<dots> \<le> (2 :: nat) ^ 16" using small by (intro power_increasing) simp_all
    finally show ?thesis by simp
  qed
  have dn: "0 < unat d" "unat d \<le> 3600" "unat e \<le> unat d"
    using d e by (simp_all add: word_less_unat)
  let ?dist = "abs_diff s t"
  have cast: "unat (ucast ?dist :: u32) = unat ?dist"
    using bound [of ?dist] by (simp add: unsigned_ucast_eq take_bit_nat_eq_self)
  have "unat ?dist * unat e \<le> 65536 * 3600" using bound [of ?dist] dn by (intro mult_mono) simp_all
  then have "unat ?dist * unat e < 2 ^ 32" by simp
  then obtain p :: u32 where p: "unat p = unat ?dist * unat e"
    using ex_word_unat [of "unat ?dist * unat e", where 'a = 32] by auto
  then have mul: "checked_mul (ucast ?dist :: u32) e = Some p" by (simp add: checked_simps cast)
  let ?q = "unat p div unat d"
  have q: "?q \<le> unat ?dist" using p dn(3) lerp_offset_le by simp
  then have "?q < 2 ^ LENGTH('a)" using unat_lt2p_any [of ?dist] by linarith
  then obtain off :: "'a word" where off: "unat off = ?q" using ex_word_unat by blast
  then have narrow: "word_try_from ?q = Some off" by (simp add: checked_simps)
  have nz: "d \<noteq> 0" using d by auto
  show thesis
  proof (cases "s \<le> t")
    case True
    then have "unat s + ?q \<le> unat t" using q by (simp add: unat_abs_diff word_less_unat)
    then have "unat s + ?q < 2 ^ LENGTH('a)" using unat_lt2p_any [of t] by linarith
    then obtain w :: "'a word" where w: "unat w = unat s + ?q" using ex_word_unat by blast
    then have "checked_add s off = Some w" using off by (simp add: checked_simps)
    with True have "interpolate s t e d = Some w" by (simp add: interpolate_def Let_def mul narrow nz)
    moreover have "unat w = lerp (unat s) (unat t) (unat e) (unat d)"
      using True w p by (simp add: lerp_def word_less_unat unat_abs_diff)
    ultimately show thesis by (rule that)
  next
    case False
    then have le: "?q \<le> unat s" using q by (simp add: unat_abs_diff word_less_unat)
    have "unat s - ?q < 2 ^ LENGTH('a)" using unat_lt2p_any [of s] by linarith
    then obtain w :: "'a word" where w: "unat w = unat s - ?q" using ex_word_unat by blast
    then have "checked_sub s off = Some w" using off le by (simp add: checked_simps)
    with False have "interpolate s t e d = Some w" by (simp add: interpolate_def Let_def mul narrow nz)
    moreover have "unat w = lerp (unat s) (unat t) (unat e) (unat d)"
      using False w p by (simp add: lerp_def word_less_unat unat_abs_diff)
    ultimately show thesis by (rule that)
  qed
qed

lemma successor_u32:
  assumes "e < d" obtains n :: u32 where "checked_add e 1 = Some n" "unat n = Suc (unat e)" "n \<le> d"
proof -
  have "Suc (unat e) < 2 ^ 32" using assms unat_u32_less [of d] by (simp add: word_less_unat)
  then obtain n :: u32 where n: "unat n = Suc (unat e)"
    using ex_word_unat [of "Suc (unat e)", where 'a = 32] by auto
  then have "checked_add e 1 = Some n" by (simp add: checked_simps)
  with n assms show thesis by (intro that [of n]) (simp_all add: word_less_unat)
qed

text \<open>One more frame of an interpolation from \<open>s\<close> to \<open>t\<close> that stands at \<open>x\<close>.\<close>

definition interpolates_to :: "'a::len word \<Rightarrow> 'a word \<Rightarrow> u32 \<Rightarrow> u32 \<Rightarrow> 'a word \<Rightarrow> u32 \<Rightarrow> 'a word \<Rightarrow> bool" where
  "interpolates_to s t e d x n y \<longleftrightarrow>
     checked_add e 1 = Some n \<and> unat n = Suc (unat e) \<and> n \<le> d \<and> (n \<noteq> d \<longrightarrow> unat n < unat d)
     \<and> interpolate s t n d = Some y \<and> (n = d \<longrightarrow> y = t)
     \<and> (unat x \<le> unat t \<longrightarrow> unat x \<le> unat y \<and> unat y \<le> unat t)
     \<and> (unat t \<le> unat x \<longrightarrow> unat y \<le> unat x \<and> unat t \<le> unat y)"

lemma interpolate_next:
  fixes s t :: "'a::len word"
  assumes small: "LENGTH('a) \<le> 16" and d: "0 < d" "d \<le> 3600" and e: "e < d" and x: "interpolate s t e d = Some x"
  shows "\<exists>n y. interpolates_to s t e d x n y"
proof -
  obtain n :: u32 where n: "checked_add e 1 = Some n" "unat n = Suc (unat e)" "n \<le> d"
    using successor_u32 [OF e] .
  obtain y where y: "interpolate s t n d = Some y" "unat y = lerp (unat s) (unat t) (unat n) (unat d)"
    using interpolate_lerp [OF small d n(3)] by blast
  have xl: "unat x = lerp (unat s) (unat t) (unat e) (unat d)"
    using interpolate_lerp [OF small d less_imp_le [OF e], of s t] x by (metis option.inject)
  have le: "unat e \<le> unat n" "unat n \<le> unat d" using n by (simp_all add: word_less_unat)
  have "unat n < unat d" if "n \<noteq> d" using that n(3) by (metis order_le_imp_less_or_eq word_less_unat(1))
  moreover have "y = t" if "n = d"
    using y(2) that d(1) by (intro word_eq_unatI) (simp add: word_less_unat)
  moreover have "(unat x \<le> unat t \<longrightarrow> unat x \<le> unat y \<and> unat y \<le> unat t)
      \<and> (unat t \<le> unat x \<longrightarrow> unat y \<le> unat x \<and> unat t \<le> unat y)"
    using lerp_mono [OF le, where s = "unat s" and t = "unat t"] y(2) xl by (cases "unat s \<le> unat t") auto
  ultimately show ?thesis using n y(1) unfolding interpolates_to_def by blast
qed

section \<open>Moves that count down frames\<close>

fun advance_frames :: "('s \<Rightarrow> 's option) \<Rightarrow> nat \<Rightarrow> 's \<Rightarrow> 's option" where
  "advance_frames advance 0 s = Some s"
| "advance_frames advance (Suc n) s = Option.bind (advance s) (advance_frames advance n)"

lemma advance_frames_add:
  "advance_frames adv (m + n) s = Option.bind (advance_frames adv m s) (advance_frames adv n)"
proof (induction m arbitrary: s)
  case (Suc m)
  then show ?case by (cases "adv s") simp_all
qed simp

text \<open>A component with a move in progress that takes a known number of frames, and never panics.\<close>

locale frame_countdown =
  fixes inv :: "'s \<Rightarrow> bool" and remaining :: "'s \<Rightarrow> nat" and advance :: "'s \<Rightarrow> 's option"
  assumes advance_step: "inv s \<Longrightarrow> \<exists>s'. advance s = Some s' \<and> inv s' \<and> remaining s' = remaining s - 1"
begin

lemma advance_frames_total:
  "inv s \<Longrightarrow> \<exists>s'. advance_frames advance n s = Some s' \<and> inv s' \<and> remaining s' = remaining s - n"
proof (induction n arbitrary: s)
  case (Suc n)
  obtain s1 where s1: "advance s = Some s1" "inv s1" "remaining s1 = remaining s - 1"
    using advance_step [OF Suc.prems] by blast
  obtain s2 where "advance_frames advance n s1 = Some s2" "inv s2" "remaining s2 = remaining s1 - n"
    using Suc.IH [OF s1(2)] by blast
  with s1 show ?case by simp
qed simp

end

text \<open>A move of a level towards a goal that it reaches with the last frame.\<close>

locale automatic_fade = frame_countdown +
  fixes level :: "'s \<Rightarrow> nat" and goal :: "'s \<Rightarrow> nat"
  assumes goal_kept: "inv s \<Longrightarrow> advance s = Some s' \<Longrightarrow> goal s' = goal s"
    and settled: "inv s \<Longrightarrow> remaining s = 0 \<Longrightarrow> level s = goal s"
    and rises: "inv s \<Longrightarrow> advance s = Some s' \<Longrightarrow> level s \<le> goal s \<Longrightarrow> level s \<le> level s' \<and> level s' \<le> goal s"
    and falls: "inv s \<Longrightarrow> advance s = Some s' \<Longrightarrow> goal s \<le> level s \<Longrightarrow> level s' \<le> level s \<and> goal s \<le> level s'"
begin

lemma fade_towards_goal:
  assumes "inv s" "advance_frames advance n s = Some s'"
  shows "goal s' = goal s \<and> (level s \<le> goal s \<longrightarrow> level s \<le> level s' \<and> level s' \<le> goal s)
    \<and> (goal s \<le> level s \<longrightarrow> level s' \<le> level s \<and> goal s \<le> level s')"
  using assms
proof (induction n arbitrary: s)
  case (Suc n)
  then obtain s1 where s1: "advance s = Some s1" "advance_frames advance n s1 = Some s'"
    by (auto simp: bind_eq_Some_conv)
  have "inv s1" using advance_step [OF Suc.prems(1)] s1 by auto
  from Suc.IH [OF this s1(2)] show ?case
    using goal_kept [OF Suc.prems(1) s1(1)] rises [OF Suc.prems(1) s1(1)] falls [OF Suc.prems(1) s1(1)] by auto
qed simp

lemma fade_completes:
  assumes "inv s" "remaining s \<le> n"
  shows "\<exists>s'. advance_frames advance n s = Some s' \<and> inv s' \<and> remaining s' = 0 \<and> level s' = goal s"
proof -
  obtain s' where "advance_frames advance n s = Some s'" "inv s'" "remaining s' = remaining s - n"
    using advance_frames_total [OF assms(1)] by blast
  moreover have "level s' = goal s" using fade_towards_goal [OF assms(1)] settled [of s'] calculation assms(2) by simp
  ultimately show ?thesis using assms(2) by auto
qed

end

section \<open>Fade to black as an automatic fade\<close>

definition ftb_inv :: "fade_to_black_controller \<Rightarrow> bool" where
  "ftb_inv c \<longleftrightarrow>
     (case fc_automatic c of
        None \<Rightarrow> fc_position c = target_position (fc_target c)
      | Some a \<Rightarrow> af_target a = fc_target c \<and> 0 < af_duration_frames a \<and> af_duration_frames a \<le> 3600
          \<and> af_elapsed_frames a < af_duration_frames a
          \<and> position_at a (af_elapsed_frames a) = Some (fc_position c))"

definition ftb_remaining :: "fade_to_black_controller \<Rightarrow> nat" where
  "ftb_remaining c =
     (case fc_automatic c of None \<Rightarrow> 0 | Some a \<Rightarrow> unat (af_duration_frames a) - unat (af_elapsed_frames a))"

definition ftb_step :: "fade_to_black_controller \<Rightarrow> fade_to_black_controller option" where
  "ftb_step c = map_option snd (ftb_advance c)"

abbreviation ftb_level :: "fade_to_black_controller \<Rightarrow> nat" where
  "ftb_level c \<equiv> unat (fc_position c)"

abbreviation ftb_goal :: "fade_to_black_controller \<Rightarrow> nat" where
  "ftb_goal c \<equiv> unat (target_position (fc_target c))"

lemma ftb_advance_running:
  assumes inv: "ftb_inv c" and auto: "fc_automatic c = Some a"
  obtains n p where "interpolates_to (af_start a) (target_position (fc_target c)) (af_elapsed_frames a) (af_duration_frames a)
      (fc_position c) n p"
    "ftb_advance c = Some
       (\<lparr>fa_position_changed = (if p = fc_position c then None else Some p),
         fa_completed = (if n = af_duration_frames a then Some (fc_target c) else None)\<rparr>,
        c\<lparr>fc_position := p,
          fc_automatic := (if n = af_duration_frames a then None else Some (a\<lparr>af_elapsed_frames := n\<rparr>))\<rparr>)"
proof -
  note a = inv [unfolded ftb_inv_def auto option.case position_at_def]
  obtain n p where np: "interpolates_to (af_start a) (target_position (fc_target c)) (af_elapsed_frames a)
      (af_duration_frames a) (fc_position c) n p"
    using a interpolate_next [where d = "af_duration_frames a" and e = "af_elapsed_frames a" and s = "af_start a"
        and t = "target_position (fc_target c)" and x = "fc_position c"] by auto
  show thesis
    by (rule that [OF np]) (use np a in \<open>auto simp: ftb_advance_def auto position_at_def Let_def interpolates_to_def\<close>)
qed

lemma ftb_advance_inv:
  assumes "ftb_inv c"
  shows "\<exists>r c'. ftb_advance c = Some (r, c') \<and> ftb_inv c' \<and> ftb_remaining c' = ftb_remaining c - 1
    \<and> fc_target c' = fc_target c
    \<and> (ftb_level c \<le> ftb_goal c \<longrightarrow> ftb_level c \<le> ftb_level c' \<and> ftb_level c' \<le> ftb_goal c)
    \<and> (ftb_goal c \<le> ftb_level c \<longrightarrow> ftb_level c' \<le> ftb_level c \<and> ftb_goal c \<le> ftb_level c')"
proof (cases "fc_automatic c")
  case None
  with assms show ?thesis by (simp add: ftb_advance_def ftb_inv_def ftb_remaining_def)
next
  case (Some a)
  note a = assms [unfolded ftb_inv_def Some option.case]
  show ?thesis
    by (rule ftb_advance_running [OF assms Some])
       (use a Some in \<open>auto simp: ftb_inv_def ftb_remaining_def position_at_def interpolates_to_def word_less_unat\<close>)
qed

interpretation ftb: automatic_fade ftb_inv ftb_remaining ftb_step ftb_level ftb_goal
proof
  fix s assume s: "ftb_inv s"
  from ftb_advance_inv [OF s] show "\<exists>s'. ftb_step s = Some s' \<and> ftb_inv s' \<and> ftb_remaining s' = ftb_remaining s - 1"
    by (auto simp: ftb_step_def)
  show "ftb_remaining s = 0 \<Longrightarrow> ftb_level s = ftb_goal s"
    using s by (auto simp: ftb_remaining_def ftb_inv_def word_less_unat split: option.splits)
  fix s' assume "ftb_step s = Some s'"
  then show "ftb_goal s' = ftb_goal s"
    and "ftb_level s \<le> ftb_goal s \<Longrightarrow> ftb_level s \<le> ftb_level s' \<and> ftb_level s' \<le> ftb_goal s"
    and "ftb_goal s \<le> ftb_level s \<Longrightarrow> ftb_level s' \<le> ftb_level s \<and> ftb_goal s \<le> ftb_level s'"
    using ftb_advance_inv [OF s] by (auto simp: ftb_step_def)
qed

text \<open>The position while a fade is under way: the exact interpolation, one step per frame.\<close>

lemma ftb_frames_running:
  assumes "ftb_inv c" "fc_automatic c = Some a" "unat (af_elapsed_frames a) + n < unat (af_duration_frames a)"
  shows "\<exists>m p. unat m = unat (af_elapsed_frames a) + n \<and> position_at a m = Some p
    \<and> advance_frames ftb_step n c
        = Some (c\<lparr>fc_position := p, fc_automatic := Some (a\<lparr>af_elapsed_frames := m\<rparr>)\<rparr>)"
  using assms
proof (induction n arbitrary: c a)
  case 0
  then show ?case
    by (intro exI [of _ "af_elapsed_frames a"] exI [of _ "fc_position c"]) (simp add: ftb_inv_def)
next
  case (Suc n)
  obtain k p where k: "interpolates_to (af_start a) (target_position (fc_target c)) (af_elapsed_frames a)
      (af_duration_frames a) (fc_position c) k p"
    and step: "ftb_advance c = Some (\<lparr>fa_position_changed = (if p = fc_position c then None else Some p),
         fa_completed = (if k = af_duration_frames a then Some (fc_target c) else None)\<rparr>,
        c\<lparr>fc_position := p,
          fc_automatic := (if k = af_duration_frames a then None else Some (a\<lparr>af_elapsed_frames := k\<rparr>))\<rparr>)"
    using ftb_advance_running [OF Suc.prems(1,2)] .
  let ?a = "a\<lparr>af_elapsed_frames := k\<rparr>" and ?c = "c\<lparr>fc_position := p, fc_automatic := Some (a\<lparr>af_elapsed_frames := k\<rparr>)\<rparr>"
  have "k \<noteq> af_duration_frames a" "unat k = Suc (unat (af_elapsed_frames a))"
    using k Suc.prems(3) by (auto simp: interpolates_to_def)
  with step have step': "ftb_step c = Some ?c" by (simp add: ftb_step_def)
  have "ftb_inv ?c" using ftb.advance_step [OF Suc.prems(1)] step' by simp
  from Suc.IH [OF this, of ?a] Suc.prems(3) \<open>unat k = Suc (unat (af_elapsed_frames a))\<close>
  obtain m p' where m: "unat m = unat k + n" "position_at ?a m = Some p'"
    "advance_frames ftb_step n ?c = Some (?c\<lparr>fc_position := p', fc_automatic := Some (?a\<lparr>af_elapsed_frames := m\<rparr>)\<rparr>)"
    by auto
  then show ?case
    using step' \<open>unat k = Suc (unat (af_elapsed_frames a))\<close>
    by (intro exI [of _ m] exI [of _ p']) (simp add: position_at_def)
qed

section \<open>Runs of the fade controller\<close>

datatype ftb_call = FtbRequest fade_to_black_target u32 | FtbAdvance

fun ftb_run :: "ftb_call list \<Rightarrow> fade_to_black_controller \<Rightarrow> fade_to_black_controller option" where
  "ftb_run [] c = Some c"
| "ftb_run (FtbRequest t d # cs) c = ftb_run cs (snd (ftb_request t d c))"
| "ftb_run (FtbAdvance # cs) c = Option.bind (ftb_advance c) (\<lambda>(_, c'). ftb_run cs c')"

lemma validate_duration_Inr:
  "validate_duration d = Inr u \<longleftrightarrow> 0 < d \<and> d \<le> 3600"
  by (auto simp: validate_duration_def MAX_FADE_TO_BLACK_DURATION_FRAMES_def word_neq_0_conv [symmetric] simp del: word_neq_0_conv)

lemma interpolate_0:
  assumes "LENGTH('a::len) \<le> 16" "0 < d" "d \<le> 3600"
  shows "interpolate s t 0 d = Some (s :: 'a word)"
proof -
  obtain w where "interpolate s t 0 d = Some w" "unat w = lerp (unat s) (unat t) (unat (0 :: u32)) (unat d)"
    using interpolate_lerp [OF assms(1-3), of 0 s t] assms(2) by auto
  then show ?thesis by (simp add: word_eq_unatI)
qed

lemma ftb_request_inv:
  assumes "ftb_inv c"
  shows "ftb_inv (snd (ftb_request t d c))"
proof (cases "validate_duration d")
  case (Inl e)
  with assms show ?thesis by (simp add: ftb_request_def)
next
  case (Inr u)
  then have d: "0 < d" "d \<le> 3600" by (simp_all add: validate_duration_Inr)
  show ?thesis
  proof (cases "fc_target c = t")
    case True
    with Inr assms show ?thesis by (simp add: ftb_request_def)
  next
    case False
    with Inr show ?thesis by (simp add: ftb_request_def ftb_inv_def position_at_def interpolate_0 d)
  qed
qed

lemma ftb_started_inv: "ftb_inv ftb_default" "ftb_inv (ftb_settled t)"
  by (simp_all add: ftb_inv_def ftb_default_def ftb_settled_def)

lemma ftb_run_total: "ftb_inv c \<Longrightarrow> \<exists>c'. ftb_run cs c = Some c' \<and> ftb_inv c'"
proof (induction cs arbitrary: c)
  case (Cons x cs)
  show ?case
  proof (cases x)
    case (FtbRequest t d)
    then show ?thesis using Cons.IH [OF ftb_request_inv [OF Cons.prems]] by simp
  next
    case FtbAdvance
    then show ?thesis using Cons.IH ftb_advance_inv [OF Cons.prems] by fastforce
  qed
qed simp

lemma target_position_inj: "target_position s = target_position t \<longleftrightarrow> s = t"
  by (cases s; cases t) simp_all

lemma ftb_frame_interval:
  assumes "ftb_inv c"
  shows "\<exists>fr r c'. ftb_frame c = Some fr \<and> ftb_advance c = Some (r, c')
    \<and> ff_interval_start fr = fc_position c \<and> ff_interval_end fr = fc_position c'
    \<and> ff_progress_start_numerator fr \<le> ff_progress_end_numerator fr
    \<and> ff_progress_end_numerator fr \<le> ff_progress_denominator fr"
proof (cases "fc_automatic c")
  case None
  then show ?thesis by (simp add: ftb_frame_def ftb_advance_def)
next
  case (Some a)
  note a = assms [unfolded ftb_inv_def Some option.case]
  obtain n p where np: "interpolates_to (af_start a) (target_position (fc_target c)) (af_elapsed_frames a)
      (af_duration_frames a) (fc_position c) n p"
    and step: "ftb_advance c = Some (\<lparr>fa_position_changed = (if p = fc_position c then None else Some p),
         fa_completed = (if n = af_duration_frames a then Some (fc_target c) else None)\<rparr>,
        c\<lparr>fc_position := p,
          fc_automatic := (if n = af_duration_frames a then None else Some (a\<lparr>af_elapsed_frames := n\<rparr>))\<rparr>)"
    using ftb_advance_running [OF assms Some] .
  have "unat (saturating_add (af_elapsed_frames a) 1) = Suc (unat (af_elapsed_frames a))"
    using np unat_u32_less [of n] by (simp add: unat_saturating_add interpolates_to_def)
  then have sat: "saturating_add (af_elapsed_frames a) 1 = n"
    using np by (intro word_eq_unatI) (simp add: interpolates_to_def)
  have "(if n < af_duration_frames a then n else af_duration_frames a) = n"
    using np by (auto simp: interpolates_to_def)
  moreover have "af_target a = fc_target c" "position_at a (af_elapsed_frames a) = Some (fc_position c)"
    using a by blast+
  moreover have "position_at a n = Some p" using np a by (simp add: interpolates_to_def position_at_def)
  ultimately have "automatic_frame a = Some \<lparr>ff_interval_start = fc_position c, ff_interval_end = p,
      ff_target = fc_target c, ff_progress_start_numerator = af_elapsed_frames a,
      ff_progress_end_numerator = n, ff_progress_denominator = af_duration_frames a\<rparr>"
    by (simp add: automatic_frame_def Let_def sat)
  with step np show ?thesis by (simp add: ftb_frame_def Some interpolates_to_def word_less_unat)
qed

text \<open>whatever requests and frames a fade controller sees after it was created, it never panics; the
  interval it reports for a frame starts at its position, ends at the position it has after the
  frame, and its progress stays within the denominator.
\<close>
theorem fade_to_black_frames_join:
  "\<exists>c fr adv c'. ftb_run calls (ftb_settled t) = Some c \<and> ftb_frame c = Some fr \<and> ftb_advance c = Some (adv, c')
    \<and> ff_interval_start fr = fc_position c \<and> ff_interval_end fr = fc_position c'
    \<and> ff_progress_start_numerator fr \<le> ff_progress_end_numerator fr
    \<and> ff_progress_end_numerator fr \<le> ff_progress_denominator fr"
  using ftb_run_total [OF ftb_started_inv(2), of calls t] ftb_frame_interval by metis

text \<open>a fade to black or back to live that was started over d frames stands, after n frames without
  another request, at the linear interpolation between where it started and its endpoint, rounded
  towards the start, as long as n is less than d; after d frames, and however many more, it rests
  exactly at its endpoint.
\<close>
theorem fade_to_black_completes:
  assumes "ftb_run calls (ftb_settled t0) = Some c" "ftb_request t d c = (Inr (FtbStarted st), c1)"
  shows "\<exists>c2. advance_frames ftb_step n c1 = Some c2 \<and> fc_target c2 = t
    \<and> (if n < unat d
       then fc_automatic c2 \<noteq> None
         \<and> unat (fc_position c2) = lerp (unat (fc_position c)) (unat (target_position t)) n (unat d)
       else fc_automatic c2 = None \<and> fc_position c2 = target_position t)"
proof -
  have inv: "ftb_inv c" using ftb_run_total [OF ftb_started_inv(2), of calls t0] assms(1) by auto
  have inv1: "ftb_inv c1" using ftb_request_inv [OF inv, of t d] assms(2) by simp
  obtain u where "validate_duration d = Inr u"
    using assms(2) by (cases "validate_duration d") (auto simp: ftb_request_def)
  then have d: "0 < d" "d \<le> 3600" by (simp_all add: validate_duration_Inr)
  let ?a = "\<lparr>af_start = fc_position c, af_target = t, af_duration_frames = d, af_elapsed_frames = 0\<rparr>"
  have c1: "fc_automatic c1 = Some ?a" "fc_target c1 = t"
    using assms(2) by (auto simp: ftb_request_def split: if_splits sum.splits)
  show ?thesis
  proof (cases "n < unat d")
    case True
    then obtain m p where m: "unat m = n" "position_at ?a m = Some p"
      "advance_frames ftb_step n c1 = Some (c1\<lparr>fc_position := p, fc_automatic := Some (?a\<lparr>af_elapsed_frames := m\<rparr>)\<rparr>)"
      using ftb_frames_running [OF inv1 c1(1), of n] by auto
    have "m \<le> d" using m(1) True by (simp add: word_less_unat)
    then have "unat p = lerp (unat (fc_position c)) (unat (target_position t)) n (unat d)"
      using interpolate_lerp [where d = d and e = m and s = "fc_position c" and t = "target_position t"] d m(1,2)
      by (force simp: position_at_def)
    with m(3) True c1 show ?thesis by simp
  next
    case False
    have "ftb_remaining c1 \<le> n" using False c1 by (simp add: ftb_remaining_def)
    then obtain c2 where c2: "advance_frames ftb_step n c1 = Some c2" "ftb_inv c2" "ftb_remaining c2 = 0"
      "ftb_level c2 = ftb_goal c1" using ftb.fade_completes [OF inv1] by blast
    have "fc_automatic c2 = None"
      using c2(2,3) by (auto simp: ftb_inv_def ftb_remaining_def word_less_unat split: option.splits)
    moreover have "ftb_goal c2 = ftb_goal c1" using ftb.fade_towards_goal [OF inv1 c2(1)] by blast
    then have "fc_target c2 = t" using c1(2) by (simp add: word_eq_unatI flip: target_position_inj)
    ultimately show ?thesis using False c2 c1(2) by (auto intro: word_eq_unatI)
  qed
qed

theorem fade_to_black_completes_witness:
  "\<exists>c1 c2. ftb_request Black 4 (ftb_settled Live)
       = (Inr (FtbStarted \<lparr>fst_from = 0, fst_target = Black, fst_duration_frames = 4\<rparr>), c1)
     \<and> advance_frames ftb_step 2 c1 = Some c2 \<and> unat (fc_position c2) = lerp 0 65535 2 4"
proof -
  let ?c = "ftb_settled Live" and ?st = "\<lparr>fst_from = 0, fst_target = Black, fst_duration_frames = 4\<rparr>"
  have run: "ftb_run [] ?c = Some ?c" by simp
  obtain c1 where req: "ftb_request Black 4 ?c = (Inr (FtbStarted ?st), c1)"
    by (simp add: ftb_request_def validate_duration_def MAX_FADE_TO_BLACK_DURATION_FRAMES_def ftb_settled_def)
  have "unat (fc_position ?c) = 0" "unat (- 1 :: u16) = 65535"
    by (simp_all add: ftb_settled_def unsigned_minus_1_eq_mask mask_eq_exp_minus_1)
  with fade_to_black_completes [OF run req, of 2] req show ?thesis by auto
qed

section \<open>Overlay channels as automatic fades\<close>

definition overlay_motion_inv :: "overlay_channel_state \<Rightarrow> bool" where
  "overlay_motion_inv ch \<longleftrightarrow> (\<not> ov_active ch \<longrightarrow> ov_opacity ch = 0) \<and>
     (case ov_automatic ch of
        None \<Rightarrow> True
      | Some a \<Rightarrow> ov_active ch \<and> 0 < ao_duration_frames a \<and> ao_duration_frames a \<le> 3600
          \<and> ao_elapsed_frames a < ao_duration_frames a
          \<and> opacity_at a (ao_elapsed_frames a) = Some (ov_opacity ch)
          \<and> ao_target_opacity a = (if ao_target_active a then - 1 else 0))"

definition overlay_remaining :: "overlay_channel_state \<Rightarrow> nat" where
  "overlay_remaining ch =
     (case ov_automatic ch of None \<Rightarrow> 0 | Some a \<Rightarrow> unat (ao_duration_frames a) - unat (ao_elapsed_frames a))"

definition overlay_step :: "overlay_channel_state \<Rightarrow> overlay_channel_state option" where
  "overlay_step ch = map_option snd (overlay_advance ch)"

definition overlay_goal :: "overlay_channel_state \<Rightarrow> u8" where
  "overlay_goal ch = (case ov_automatic ch of None \<Rightarrow> ov_opacity ch | Some a \<Rightarrow> ao_target_opacity a)"

lemma overlay_advance_running:
  assumes inv: "overlay_motion_inv ch" and auto: "ov_automatic ch = Some a"
  obtains n p where "interpolates_to (ao_start_opacity a) (ao_target_opacity a) (ao_elapsed_frames a)
      (ao_duration_frames a) (ov_opacity ch) n p"
    "overlay_advance ch = Some
       (\<lparr>oa_opacity_changed = (if p \<noteq> ov_opacity ch then Some p else None),
         oa_completed = (if n = ao_duration_frames a then Some (ao_target_active a) else None)\<rparr>,
        ch\<lparr>ov_opacity := p, ov_active := (n = ao_duration_frames a \<longrightarrow> ao_target_active a),
           ov_automatic := (if n = ao_duration_frames a then None else Some (a\<lparr>ao_elapsed_frames := n\<rparr>))\<rparr>)"
proof -
  note a = inv [unfolded overlay_motion_inv_def auto option.case opacity_at_def]
  obtain n p where np: "interpolates_to (ao_start_opacity a) (ao_target_opacity a) (ao_elapsed_frames a)
      (ao_duration_frames a) (ov_opacity ch) n p"
    using a interpolate_next [where d = "ao_duration_frames a" and e = "ao_elapsed_frames a"
        and s = "ao_start_opacity a" and t = "ao_target_opacity a" and x = "ov_opacity ch"] by auto
  show thesis
    by (rule that [OF np])
       (use np a in \<open>auto simp: overlay_advance_def auto opacity_at_def Let_def interpolates_to_def\<close>)
qed

lemma overlay_advance_inv:
  assumes "overlay_motion_inv ch"
  shows "\<exists>r ch'. overlay_advance ch = Some (r, ch') \<and> overlay_motion_inv ch'
    \<and> overlay_remaining ch' = overlay_remaining ch - 1 \<and> overlay_goal ch' = overlay_goal ch
    \<and> (\<exists>p act au. ch' = ch\<lparr>ov_opacity := p, ov_active := act, ov_automatic := au\<rparr> \<and> (act \<longrightarrow> ov_active ch))
    \<and> (unat (ov_opacity ch) \<le> unat (overlay_goal ch) \<longrightarrow>
         unat (ov_opacity ch) \<le> unat (ov_opacity ch') \<and> unat (ov_opacity ch') \<le> unat (overlay_goal ch))
    \<and> (unat (overlay_goal ch) \<le> unat (ov_opacity ch) \<longrightarrow>
         unat (ov_opacity ch') \<le> unat (ov_opacity ch) \<and> unat (overlay_goal ch) \<le> unat (ov_opacity ch'))"
proof (cases "ov_automatic ch")
  case None
  have "\<exists>p act au. ch = ch\<lparr>ov_opacity := p, ov_active := act, ov_automatic := au\<rparr> \<and> (act \<longrightarrow> ov_active ch)"
    by (intro exI [of _ "ov_opacity ch"] exI [of _ "ov_active ch"] exI [of _ "ov_automatic ch"]) simp
  with None assms show ?thesis by (simp add: overlay_advance_def overlay_remaining_def overlay_goal_def)
next
  case (Some a)
  note a = assms [unfolded overlay_motion_inv_def Some option.case]
  show ?thesis
    by (rule overlay_advance_running [OF assms Some])
       (use a Some in \<open>auto simp: overlay_motion_inv_def overlay_remaining_def overlay_goal_def opacity_at_def
         interpolates_to_def word_less_unat\<close>)
qed

interpretation ovl: automatic_fade overlay_motion_inv overlay_remaining overlay_step
  "\<lambda>ch. unat (ov_opacity ch)" "\<lambda>ch. unat (overlay_goal ch)"
proof
  fix ch assume ch: "overlay_motion_inv ch"
  from overlay_advance_inv [OF ch]
  show "\<exists>ch'. overlay_step ch = Some ch' \<and> overlay_motion_inv ch' \<and> overlay_remaining ch' = overlay_remaining ch - 1"
    by (auto simp: overlay_step_def)
  show "overlay_remaining ch = 0 \<Longrightarrow> unat (ov_opacity ch) = unat (overlay_goal ch)"
    using ch by (auto simp: overlay_remaining_def overlay_goal_def overlay_motion_inv_def word_less_unat split: option.splits)
  fix ch' assume "overlay_step ch = Some ch'"
  then show "unat (overlay_goal ch') = unat (overlay_goal ch)"
    and "unat (ov_opacity ch) \<le> unat (overlay_goal ch) \<Longrightarrow>
      unat (ov_opacity ch) \<le> unat (ov_opacity ch') \<and> unat (ov_opacity ch') \<le> unat (overlay_goal ch)"
    and "unat (overlay_goal ch) \<le> unat (ov_opacity ch) \<Longrightarrow>
      unat (ov_opacity ch') \<le> unat (ov_opacity ch) \<and> unat (overlay_goal ch) \<le> unat (ov_opacity ch')"
    using overlay_advance_inv [OF ch] by (auto simp: overlay_step_def)
qed

text \<open>A channel in motion: the exact interpolation while it runs, the endpoint from then on.\<close>

lemma overlay_frames_running:
  assumes "overlay_motion_inv ch" "ov_automatic ch = Some a" "unat (ao_elapsed_frames a) + n < unat (ao_duration_frames a)"
  shows "\<exists>m p. unat m = unat (ao_elapsed_frames a) + n \<and> opacity_at a m = Some p
    \<and> advance_frames overlay_step n ch
        = Some (ch\<lparr>ov_opacity := p, ov_automatic := Some (a\<lparr>ao_elapsed_frames := m\<rparr>)\<rparr>)"
  using assms
proof (induction n arbitrary: ch a)
  case 0
  then show ?case
    by (intro exI [of _ "ao_elapsed_frames a"] exI [of _ "ov_opacity ch"]) (simp add: overlay_motion_inv_def)
next
  case (Suc n)
  obtain k p where k: "interpolates_to (ao_start_opacity a) (ao_target_opacity a) (ao_elapsed_frames a)
      (ao_duration_frames a) (ov_opacity ch) k p"
    and step: "overlay_advance ch = Some
       (\<lparr>oa_opacity_changed = (if p \<noteq> ov_opacity ch then Some p else None),
         oa_completed = (if k = ao_duration_frames a then Some (ao_target_active a) else None)\<rparr>,
        ch\<lparr>ov_opacity := p, ov_active := (k = ao_duration_frames a \<longrightarrow> ao_target_active a),
           ov_automatic := (if k = ao_duration_frames a then None else Some (a\<lparr>ao_elapsed_frames := k\<rparr>))\<rparr>)"
    using overlay_advance_running [OF Suc.prems(1,2)] .
  let ?a = "a\<lparr>ao_elapsed_frames := k\<rparr>" and ?ch = "ch\<lparr>ov_opacity := p, ov_automatic := Some (a\<lparr>ao_elapsed_frames := k\<rparr>)\<rparr>"
  have k': "k \<noteq> ao_duration_frames a" "unat k = Suc (unat (ao_elapsed_frames a))"
    using k Suc.prems(3) by (auto simp: interpolates_to_def)
  have "ov_active ch" using Suc.prems(1,2) by (simp add: overlay_motion_inv_def)
  then have "ch\<lparr>ov_opacity := p, ov_active := True, ov_automatic := x\<rparr> = ch\<lparr>ov_opacity := p, ov_automatic := x\<rparr>" for x
    by (cases ch) simp
  with step k' have step': "overlay_step ch = Some ?ch" by (simp add: overlay_step_def)
  have "overlay_motion_inv ?ch" using ovl.advance_step [OF Suc.prems(1)] step' by simp
  from Suc.IH [OF this, of ?a] Suc.prems(3) k'(2)
  obtain m p' where m: "unat m = unat k + n" "opacity_at ?a m = Some p'"
    "advance_frames overlay_step n ?ch = Some (?ch\<lparr>ov_opacity := p', ov_automatic := Some (?a\<lparr>ao_elapsed_frames := m\<rparr>)\<rparr>)"
    by auto
  then show ?case
    using step' k'(2) by (intro exI [of _ m] exI [of _ p']) (simp add: opacity_at_def)
qed

lemma overlay_frames_opacity:
  assumes "overlay_motion_inv ch" "ov_automatic ch = Some a" "n < unat (ao_duration_frames a)" "ao_elapsed_frames a = 0"
    and "advance_frames overlay_step n ch = Some ch'"
  shows "unat (ov_opacity ch') = lerp (unat (ao_start_opacity a)) (unat (ao_target_opacity a)) n (unat (ao_duration_frames a))"
proof -
  have d: "0 < ao_duration_frames a" "ao_duration_frames a \<le> 3600"
    using assms(1,2) by (auto simp: overlay_motion_inv_def)
  obtain m p where m: "unat m = n" "opacity_at a m = Some p" "ch' = ch\<lparr>ov_opacity := p, ov_automatic := Some (a\<lparr>ao_elapsed_frames := m\<rparr>)\<rparr>"
    using overlay_frames_running [OF assms(1,2), of n] assms(3-5) by auto
  have "m \<le> ao_duration_frames a" using m(1) assms(3) by (simp add: word_less_unat)
  then show ?thesis
    using interpolate_lerp [where d = "ao_duration_frames a" and e = m and s = "ao_start_opacity a"
        and t = "ao_target_opacity a"] d m by (force simp: opacity_at_def)
qed

lemma overlay_frames_idle: "ov_automatic ch = None \<Longrightarrow> advance_frames overlay_step n ch = Some ch"
  by (induction n) (simp_all add: overlay_step_def [of ch] overlay_advance_def)

lemma overlay_frames_end:
  assumes inv: "overlay_motion_inv ch" and a: "ov_automatic ch = Some a" "ao_elapsed_frames a = 0"
    and n: "unat (ao_duration_frames a) \<le> n"
  shows "advance_frames overlay_step n ch
    = Some (ch\<lparr>ov_opacity := ao_target_opacity a, ov_active := ao_target_active a, ov_automatic := None\<rparr>)"
proof -
  let ?d = "unat (ao_duration_frames a)"
  have d: "0 < ?d" using inv a by (simp add: overlay_motion_inv_def word_less_unat)
  obtain m p where m: "unat m = ?d - 1" "advance_frames overlay_step (?d - 1) ch
      = Some (ch\<lparr>ov_opacity := p, ov_automatic := Some (a\<lparr>ao_elapsed_frames := m\<rparr>)\<rparr>)"
    using overlay_frames_running [OF inv a(1), of "?d - 1"] a(2) d by auto
  let ?ch = "ch\<lparr>ov_opacity := p, ov_automatic := Some (a\<lparr>ao_elapsed_frames := m\<rparr>)\<rparr>"
  have "overlay_motion_inv ?ch" using ovl.advance_frames_total [OF inv, of "?d - 1"] m(2) by auto
  then obtain k q where k: "interpolates_to (ao_start_opacity a) (ao_target_opacity a) m (ao_duration_frames a) p k q"
    and step: "overlay_step ?ch = Some (?ch\<lparr>ov_opacity := q, ov_active := (k = ao_duration_frames a \<longrightarrow> ao_target_active a),
           ov_automatic := (if k = ao_duration_frames a then None else Some (a\<lparr>ao_elapsed_frames := k\<rparr>))\<rparr>)"
    by (rule overlay_advance_running [where a = "a\<lparr>ao_elapsed_frames := m\<rparr>"]) (auto simp: overlay_step_def)
  have "unat k = ?d" using k m(1) d by (simp add: interpolates_to_def)
  then have "k = ao_duration_frames a" by (rule word_eq_unatI)
  moreover from this have "q = ao_target_opacity a" using k by (simp add: interpolates_to_def)
  ultimately have last: "overlay_step ?ch
      = Some (ch\<lparr>ov_opacity := ao_target_opacity a, ov_active := ao_target_active a, ov_automatic := None\<rparr>)"
    using step by simp
  have "n = (?d - 1) + Suc (n - ?d)" using n d by simp
  then have "advance_frames overlay_step n ch = Option.bind (advance_frames overlay_step (?d - 1) ch)
      (advance_frames overlay_step (Suc (n - ?d)))" by (metis advance_frames_add)
  then show ?thesis using m(2) last overlay_frames_idle by simp
qed

end
