(* ===== verification/Switcher.thy ===== *)
theory Switcher
  imports Switcher_Fades
begin

text \<open>
  The crate \<open>crates/features/fm-switcher\<close>: stinger slots (\<open>stinger.rs\<close>), the stream inventory
  (\<open>stream.rs\<close>), commands and events (\<open>command.rs\<close>) and the switcher state with every operation on it
  (\<open>state.rs\<close>). The two arrays of eight are lists of length eight; a channel or slot number is the
  one-based number of the code, and the operations are given numbers from one to eight, the only ones
  the constructors of \<open>OverlayChannelId\<close> and \<open>StingerSlotId\<close> return.
\<close>

section \<open>Stingers and streams\<close>

definition STINGER_SLOT_COUNT :: usize where "STINGER_SLOT_COUNT = 8"

definition stinger_slot_new :: "u8 \<Rightarrow> stinger_slot_id option" where
  "stinger_slot_new number = (if number \<ge> 1 \<and> number \<le> 8 then Some number else None)"

definition stinger_slot_from_index :: "usize \<Rightarrow> stinger_slot_id option" where
  "stinger_slot_from_index index =
     (if index < STINGER_SLOT_COUNT
      then Option.bind (word_try_from index) (\<lambda>i. checked_add i 1) else None)"

definition slot_index :: "stinger_slot_id \<Rightarrow> usize" where
  "slot_index slot = unat (slot - 1)"

datatype stinger_audio_policy = Muted | StingerOnly | MixWithProgram
datatype missing_media_fallback = FallbackCut | FallbackFade | KeepProgram
datatype stinger_preload_state = NotRequested | Ready | Missing

record stinger_descriptor =
  sd_media_input :: input_id
  sd_preload :: bool
  sd_cut_point_frames :: u32
  sd_audio_policy :: stinger_audio_policy
  sd_missing_media_fallback :: missing_media_fallback

record stinger_slot_state =
  ss_descriptor :: "stinger_descriptor option"
  ss_preload_state :: stinger_preload_state

definition stinger_empty :: stinger_slot_state where
  "stinger_empty = \<lparr>ss_descriptor = None, ss_preload_state = NotRequested\<rparr>"

definition stinger_configure :: "stinger_descriptor \<Rightarrow> stinger_slot_state \<Rightarrow> stinger_slot_state" where
  "stinger_configure d s = s\<lparr>ss_descriptor := Some d, ss_preload_state := NotRequested\<rparr>"

definition stinger_set_preload_state :: "stinger_preload_state \<Rightarrow> stinger_slot_state \<Rightarrow> stinger_slot_state" where
  "stinger_set_preload_state p s = s\<lparr>ss_preload_state := p\<rparr>"

definition stinger_clear :: "stinger_slot_state \<Rightarrow> stinger_slot_state" where
  "stinger_clear s = s\<lparr>ss_descriptor := None, ss_preload_state := NotRequested\<rparr>"

datatype stinger_playback_decision = Play | Fallback missing_media_fallback | Unconfigured

type_synonym stream_target_id = u128

definition MAX_STREAM_COUNT :: usize where "MAX_STREAM_COUNT = 5"
definition MAX_STREAM_NAME_BYTES :: usize where "MAX_STREAM_NAME_BYTES = 128"

record desired_stream =
  ds_id :: stream_target_id
  ds_name :: ustr

section \<open>Commands, events and errors\<close>

datatype switcher_command =
    SelectPreview input_id
  | Cut
  | Transition transition_kind u32
  | WipeCommand u32
  | StartTBar transition_kind
  | SetTBarPosition t_bar_position
  | CommitTBar
  | CancelTBar
  | TakeOverlay overlay_channel_id input_id
  | UpdateOverlay overlay_channel_id input_id
  | OverlayOff overlay_channel_id
  | ConfigureOverlayTransition overlay_channel_id overlay_transition_kind u32
  | ConfigureOverlayAppearance overlay_channel_id overlay_position_preset overlay_border_preset
  | QueueOverlay overlay_channel_id input_id
  | TakeNextOverlay overlay_channel_id
  | SetOverlayOutputInclusion overlay_channel_id output_id bool
  | SetStreamRunning stream_target_id bool
  | SetRecordingDesired bool

datatype switcher_event =
    PreviewSelected input_id
  | ProgramChanged input_id input_id
  | TransitionStarted transition_kind input_id input_id u32
  | TransitionCompleted transition_kind input_id
  | TBarStarted transition_kind input_id input_id
  | TBarPositionChanged t_bar_position
  | TBarCancelled
  | FadeToBlackStarted fade_to_black_position fade_to_black_target u32
  | FadeToBlackPositionChanged fade_to_black_position
  | FadeToBlackCompleted bool
  | OverlayTaken overlay_channel_id input_id
  | OverlayUpdated overlay_channel_id input_id
  | OverlayTurnedOff overlay_channel_id
  | OverlayTransitionConfigured overlay_channel_id overlay_transition_kind u32
  | OverlayAppearanceConfigured overlay_channel_id overlay_position_preset overlay_border_preset
  | OverlayQueued overlay_channel_id input_id usize
  | OverlayQueueAdvanced overlay_channel_id input_id usize
  | OverlayOpacityChanged overlay_channel_id u8
  | OverlayTransitionCompleted overlay_channel_id bool
  | OverlayOutputInclusionChanged overlay_channel_id output_id bool
  | StingerPreloadChanged stinger_slot_id stinger_preload_state
  | StingerFallbackApplied stinger_slot_id missing_media_fallback
  | StreamRunningChanged stream_target_id bool
  | RecordingDesiredChanged bool

datatype switcher_error =
    SwUnknownInput input_id
  | TransitionInProgress
  | UnsupportedManualTransitionKind
  | InvalidManualTransitionRoute
  | ZeroDuration
  | InvalidOverlayTransitionDuration u32 u32
  | OverlayQueueFull overlay_channel_id usize
  | OverlayQueueEmpty overlay_channel_id
  | UnconfiguredStinger stinger_slot_id
  | StingerCutPointOutOfRange stinger_slot_id u32 u32
  | UnknownStreamTarget stream_target_id
  | DuplicateStreamTarget stream_target_id
  | InvalidStreamName
  | TooManyStreams usize usize

text \<open>The loop of \<open>collect_desired_streams\<close>, with the identifiers seen so far.\<close>

fun collect_streams :: "stream_target_id set \<Rightarrow> (stream_target_id \<times> ustr) list \<Rightarrow> switcher_error + desired_stream list" where
  "collect_streams seen [] = Inr []"
| "collect_streams seen ((i, name) # rest) =
     (if str_trim name = [] \<or> str_len name > MAX_STREAM_NAME_BYTES then Inl InvalidStreamName
      else if i \<in> seen then Inl (DuplicateStreamTarget i)
      else and_then (collect_streams (insert i seen) rest) (\<lambda>ds. Inr (\<lparr>ds_id = i, ds_name = name\<rparr> # ds)))"

definition collect_desired_streams :: "(stream_target_id \<times> ustr) list \<Rightarrow> switcher_error + desired_stream list" where
  "collect_desired_streams streams =
     (if length streams > MAX_STREAM_COUNT then Inl (TooManyStreams (length streams) MAX_STREAM_COUNT)
      else collect_streams {} streams)"

section \<open>The switcher\<close>

record program_frame =
  pf_primary :: input_id
  pf_secondary :: "input_id option"
  pf_transition_kind :: "transition_kind option"
  pf_mix_numerator :: u32
  pf_mix_denominator :: u32
  pf_mix_start_numerator :: u32
  pf_mix_end_numerator :: u32

record switcher_state =
  sw_inputs :: "input_id list"
  sw_preview :: input_id
  sw_program :: input_id
  sw_transition :: "transition_state option"
  sw_t_bar :: "t_bar_state option"
  sw_fade_to_black :: fade_to_black_controller
  sw_overlays :: "overlay_channel_state list"
  sw_stingers :: "stinger_slot_state list"
  sw_streams :: "desired_stream list"
  sw_streams_running :: "stream_target_id set"
  sw_recording_desired :: bool

definition require_input :: "input_id \<Rightarrow> switcher_state \<Rightarrow> switcher_error + unit" where
  "require_input i s = (if i \<in> set (sw_inputs s) then Inr () else Inl (SwUnknownInput i))"

definition require_idle :: "switcher_state \<Rightarrow> switcher_error + unit" where
  "require_idle s = (if sw_transition s = None \<and> sw_t_bar s = None then Inr () else Inl TransitionInProgress)"

definition switcher_new :: "input_id list \<Rightarrow> input_id \<Rightarrow> input_id \<Rightarrow> switcher_error + switcher_state" where
  "switcher_new inputs program preview =
     (let state = \<lparr>sw_inputs = inputs, sw_preview = preview, sw_program = program, sw_transition = None,
                   sw_t_bar = None, sw_fade_to_black = ftb_default,
                   sw_overlays = replicate OVERLAY_CHANNEL_COUNT overlay_empty,
                   sw_stingers = replicate STINGER_SLOT_COUNT stinger_empty,
                   sw_streams = [], sw_streams_running = {}, sw_recording_desired = False\<rparr>
      in and_then (require_input program state) (\<lambda>_.
         and_then (require_input preview state) (\<lambda>_. Inr state)))"

definition with_streams :: "(stream_target_id \<times> ustr) list \<Rightarrow> switcher_state \<Rightarrow> switcher_error + switcher_state" where
  "with_streams streams s =
     and_then (collect_desired_streams streams) (\<lambda>desired. Inr (s\<lparr>sw_streams := desired\<rparr>))"

definition reorder_inputs :: "input_id list \<Rightarrow> (input_order_error, unit, switcher_state) meth" where
  "reorder_inputs inputs s =
     (case validate_input_order (sw_inputs s) inputs of
        Inl e \<Rightarrow> (Inl e, s)
      | Inr _ \<Rightarrow> (Inr (), s\<lparr>sw_inputs := inputs\<rparr>))"

definition manual_transition_supported :: "transition_kind \<Rightarrow> bool" where
  "manual_transition_supported kind \<longleftrightarrow> kind \<in> {Fade, Wipe, AlphaFade, Slide}"

definition restore_t_bar :: "t_bar_state \<Rightarrow> (switcher_error, unit, switcher_state) meth" where
  "restore_t_bar b s =
     (case require_idle s of
        Inl e \<Rightarrow> (Inl e, s)
      | Inr _ \<Rightarrow>
          if \<not> manual_transition_supported (tb_kind b) then (Inl UnsupportedManualTransitionKind, s)
          else case and_then (require_input (tb_from b) s) (\<lambda>_. require_input (tb_to b) s) of
              Inl e \<Rightarrow> (Inl e, s)
            | Inr _ \<Rightarrow>
                if tb_from b \<noteq> sw_program s \<or> tb_to b \<noteq> sw_preview s then (Inl InvalidManualTransitionRoute, s)
                else (Inr (), s\<lparr>sw_t_bar := Some b\<rparr>))"

definition restore_settled_fade_to_black :: "bool \<Rightarrow> switcher_state \<Rightarrow> switcher_state" where
  "restore_settled_fade_to_black active s = s\<lparr>sw_fade_to_black := ftb_settled (from_active active)\<rparr>"

definition switcher_overlay :: "switcher_state \<Rightarrow> overlay_channel_id \<Rightarrow> overlay_channel_state" where
  "switcher_overlay s c = sw_overlays s ! channel_index c"

definition switcher_stinger :: "switcher_state \<Rightarrow> stinger_slot_id \<Rightarrow> stinger_slot_state" where
  "switcher_stinger s slot = sw_stingers s ! slot_index slot"

text \<open>\<open>self.overlays[channel.index()].f(..)\<close> and \<open>self.stingers[slot.index()].f(..)\<close>\<close>

definition update_channel ::
  "overlay_channel_id \<Rightarrow> (overlay_channel_state \<Rightarrow> overlay_channel_state) \<Rightarrow> switcher_state \<Rightarrow> switcher_state" where
  "update_channel c f s = s\<lparr>sw_overlays := (sw_overlays s)[channel_index c := f (switcher_overlay s c)]\<rparr>"

definition update_slot ::
  "stinger_slot_id \<Rightarrow> (stinger_slot_state \<Rightarrow> stinger_slot_state) \<Rightarrow> switcher_state \<Rightarrow> switcher_state" where
  "update_slot slot f s = s\<lparr>sw_stingers := (sw_stingers s)[slot_index slot := f (switcher_stinger s slot)]\<rparr>"

definition stream_running :: "switcher_state \<Rightarrow> stream_target_id \<Rightarrow> bool option" where
  "stream_running s target =
     (if target \<in> ds_id ` set (sw_streams s) then Some (target \<in> sw_streams_running s) else None)"

type_synonym switcher_op = "(switcher_error, switcher_event list, switcher_state) meth"

definition set_stream_running :: "stream_target_id \<Rightarrow> bool \<Rightarrow> switcher_op" where
  "set_stream_running target running s =
     (if target \<notin> ds_id ` set (sw_streams s) then (Inl (UnknownStreamTarget target), s)
      else (Inr [StreamRunningChanged target running],
            s\<lparr>sw_streams_running := (if running then insert target (sw_streams_running s)
                                      else sw_streams_running s - {target})\<rparr>))"

definition set_recording_desired :: "bool \<Rightarrow> switcher_op" where
  "set_recording_desired active s =
     (if sw_recording_desired s = active then (Inr [], s)
      else (Inr [RecordingDesiredChanged active], s\<lparr>sw_recording_desired := active\<rparr>))"

definition complete_take :: "switcher_state \<Rightarrow> switcher_event \<times> switcher_state" where
  "complete_take s =
     (ProgramChanged (sw_program s) (sw_preview s),
      s\<lparr>sw_program := sw_preview s, sw_preview := sw_program s\<rparr>)"

definition start_t_bar :: "transition_kind \<Rightarrow> switcher_op" where
  "start_t_bar kind s =
     (case require_idle s of
        Inl e \<Rightarrow> (Inl e, s)
      | Inr _ \<Rightarrow>
          if \<not> manual_transition_supported kind then (Inl UnsupportedManualTransitionKind, s)
          else (Inr [TBarStarted kind (sw_program s) (sw_preview s)],
                s\<lparr>sw_t_bar := Some (t_bar_new kind (sw_program s) (sw_preview s))\<rparr>))"

definition set_t_bar_position :: "t_bar_position \<Rightarrow> switcher_op" where
  "set_t_bar_position pos s =
     (case sw_t_bar s of
        None \<Rightarrow> (Inl TransitionInProgress, s)
      | Some b \<Rightarrow> (Inr [TBarPositionChanged pos], s\<lparr>sw_t_bar := Some (set_position pos b)\<rparr>))"

definition commit_t_bar :: switcher_op where
  "commit_t_bar s =
     (case sw_t_bar s of
        None \<Rightarrow> (Inl TransitionInProgress, s)
      | Some b \<Rightarrow>
          (case complete_take (s\<lparr>sw_t_bar := None\<rparr>) of
             (program_changed, s') \<Rightarrow>
               (Inr [program_changed, TransitionCompleted (tb_kind b) (sw_program s')], s')))"

definition cancel_t_bar :: switcher_op where
  "cancel_t_bar s =
     (case sw_t_bar s of
        None \<Rightarrow> (Inl TransitionInProgress, s)
      | Some _ \<Rightarrow> (Inr [TBarCancelled], s\<lparr>sw_t_bar := None\<rparr>))"

definition request_fade_to_black ::
  "bool \<Rightarrow> u32 \<Rightarrow> (fade_to_black_error, switcher_event list, switcher_state) meth" where
  "request_fade_to_black active duration s =
     (case ftb_request (from_active active) duration (sw_fade_to_black s) of
        (Inl e, c) \<Rightarrow> (Inl e, s\<lparr>sw_fade_to_black := c\<rparr>)
      | (Inr r, c) \<Rightarrow>
          (Inr (case r of
                  FtbUnchanged \<Rightarrow> []
                | FtbStarted started \<Rightarrow>
                    [FadeToBlackStarted (fst_from started) (fst_target started) (fst_duration_frames started)]
                | FtbCompleted target \<Rightarrow> [FadeToBlackCompleted (target_active target)]),
           s\<lparr>sw_fade_to_black := c\<rparr>))"

definition take_overlay :: "overlay_channel_id \<Rightarrow> input_id \<Rightarrow> switcher_op" where
  "take_overlay c source s =
     (case require_input source s of
        Inl e \<Rightarrow> (Inl e, s)
      | Inr _ \<Rightarrow> (Inr [OverlayTaken c source], update_channel c (overlay_take source) s))"

definition update_overlay :: "overlay_channel_id \<Rightarrow> input_id \<Rightarrow> switcher_op" where
  "update_overlay c source s =
     (case require_input source s of
        Inl e \<Rightarrow> (Inl e, s)
      | Inr _ \<Rightarrow> (Inr [OverlayUpdated c source], update_channel c (overlay_update source) s))"

definition switcher_overlay_off :: "overlay_channel_id \<Rightarrow> switcher_op" where
  "switcher_overlay_off c s = (Inr [OverlayTurnedOff c], update_channel c overlay_off s)"

definition configure_overlay_transition ::
  "overlay_channel_id \<Rightarrow> overlay_transition_kind \<Rightarrow> u32 \<Rightarrow> switcher_op" where
  "configure_overlay_transition c transition duration s =
     (if duration = 0 \<or> duration > MAX_OVERLAY_TRANSITION_DURATION_FRAMES
      then (Inl (InvalidOverlayTransitionDuration duration MAX_OVERLAY_TRANSITION_DURATION_FRAMES), s)
      else (Inr [OverlayTransitionConfigured c transition duration],
            update_channel c (overlay_configure_transition transition duration) s))"

definition request_overlay_take :: "overlay_channel_id \<Rightarrow> input_id \<Rightarrow> switcher_op" where
  "request_overlay_take c source s =
     (case require_input source s of
        Inl e \<Rightarrow> (Inl e, s)
      | Inr _ \<Rightarrow> (Inr [OverlayTaken c source], update_channel c (overlay_request_take source) s))"

definition configure_overlay_appearance ::
  "overlay_channel_id \<Rightarrow> overlay_position_preset \<Rightarrow> overlay_border_preset \<Rightarrow> switcher_op" where
  "configure_overlay_appearance c pos border s =
     (Inr [OverlayAppearanceConfigured c pos border], update_channel c (overlay_configure_appearance pos border) s)"

definition queue_overlay :: "overlay_channel_id \<Rightarrow> input_id \<Rightarrow> switcher_op" where
  "queue_overlay c source s =
     (case require_input source s of
        Inl e \<Rightarrow> (Inl e, s)
      | Inr _ \<Rightarrow>
          (case overlay_enqueue source (switcher_overlay s c) of
             (False, ch) \<Rightarrow> (Inl (OverlayQueueFull c MAX_OVERLAY_QUEUE_DEPTH), update_channel c (\<lambda>_. ch) s)
           | (True, ch) \<Rightarrow>
               (Inr [OverlayQueued c source (length (ov_queue ch))], update_channel c (\<lambda>_. ch) s)))"

definition take_next_overlay :: "overlay_channel_id \<Rightarrow> switcher_op" where
  "take_next_overlay c s =
     (case overlay_take_next (switcher_overlay s c) of
        (None, ch) \<Rightarrow> (Inl (OverlayQueueEmpty c), update_channel c (\<lambda>_. ch) s)
      | (Some source, ch) \<Rightarrow>
          (Inr [OverlayQueueAdvanced c source (length (ov_queue ch))], update_channel c (\<lambda>_. ch) s))"

definition request_overlay_take_next :: "overlay_channel_id \<Rightarrow> switcher_op" where
  "request_overlay_take_next c s =
     (case overlay_request_take_next (switcher_overlay s c) of
        (None, ch) \<Rightarrow> (Inl (OverlayQueueEmpty c), update_channel c (\<lambda>_. ch) s)
      | (Some source, ch) \<Rightarrow>
          (Inr [OverlayQueueAdvanced c source (length (ov_queue ch))], update_channel c (\<lambda>_. ch) s))"

definition request_overlay_off :: "overlay_channel_id \<Rightarrow> switcher_op" where
  "request_overlay_off c s = (Inr [OverlayTurnedOff c], update_channel c overlay_request_off s)"

definition overlays_in_motion :: "switcher_state \<Rightarrow> bool" where
  "overlays_in_motion s \<longleftrightarrow> (\<exists>ch \<in> set (sw_overlays s). ov_automatic ch \<noteq> None)"

definition set_overlay_output_inclusion :: "overlay_channel_id \<Rightarrow> output_id \<Rightarrow> bool \<Rightarrow> switcher_op" where
  "set_overlay_output_inclusion c output included s =
     (Inr [OverlayOutputInclusionChanged c output included],
      update_channel c (overlay_set_output_inclusion output included) s)"

definition configure_stinger ::
  "stinger_slot_id \<Rightarrow> stinger_descriptor \<Rightarrow> (switcher_error, unit, switcher_state) meth" where
  "configure_stinger slot d s =
     (case require_input (sd_media_input d) s of
        Inl e \<Rightarrow> (Inl e, s)
      | Inr _ \<Rightarrow> (Inr (), update_slot slot (stinger_configure d) s))"

definition remove_stinger :: "stinger_slot_id \<Rightarrow> switcher_state \<Rightarrow> switcher_state" where
  "remove_stinger slot s = update_slot slot stinger_clear s"

definition preload_stinger ::
  "stinger_slot_id \<Rightarrow> bool \<Rightarrow> (switcher_error, switcher_event, switcher_state) meth" where
  "preload_stinger slot media_available s =
     (if ss_descriptor (switcher_stinger s slot) = None then (Inl (UnconfiguredStinger slot), s)
      else let state = (if media_available then Ready else Missing) in
           (Inr (StingerPreloadChanged slot state), update_slot slot (stinger_set_preload_state state) s))"

definition playback_decision :: "switcher_state \<Rightarrow> stinger_slot_id \<Rightarrow> stinger_playback_decision" where
  "playback_decision s slot =
     (case ss_descriptor (switcher_stinger s slot) of
        None \<Rightarrow> Unconfigured
      | Some d \<Rightarrow>
          if ss_preload_state (switcher_stinger s slot) = Ready then Play
          else Fallback (sd_missing_media_fallback d))"

text \<open>
  \<open>start_transition\<close> and \<open>apply_stinger_fallback\<close> call each other; the second call starts a Fade, which
  is no stinger, so the recursion ends there. The descriptor of a playable stinger is read with
  \<open>expect\<close>; a decision to play is only made when there is one.
\<close>

function (sequential) start_transition :: "transition_kind \<Rightarrow> u32 \<Rightarrow> switcher_op"
  and apply_stinger_fallback :: "stinger_slot_id \<Rightarrow> missing_media_fallback \<Rightarrow> u32 \<Rightarrow> switcher_op" where
  "start_transition kind duration s =
     (let started = (Inr [TransitionStarted kind (sw_program s) (sw_preview s) duration],
            s\<lparr>sw_transition := Some (transition_new kind (sw_program s) (sw_preview s) duration)\<rparr>)
      in case kind of
           Stinger slot \<Rightarrow>
             (case playback_decision s slot of
                Fallback fallback \<Rightarrow> apply_stinger_fallback slot fallback duration s
              | Play \<Rightarrow>
                  let cut_point = sd_cut_point_frames (the (ss_descriptor (switcher_stinger s slot))) in
                  if cut_point > duration
                  then (Inl (StingerCutPointOutOfRange slot cut_point duration), s)
                  else started
              | Unconfigured \<Rightarrow> (Inl (UnconfiguredStinger slot), s))
         | _ \<Rightarrow> started)"
| "apply_stinger_fallback slot fallback duration s =
     (case fallback of
        FallbackCut \<Rightarrow>
          (case complete_take s of (e, s') \<Rightarrow> (Inr [StingerFallbackApplied slot fallback, e], s'))
      | FallbackFade \<Rightarrow>
          (case start_transition Fade duration s of
             (Inl e, s') \<Rightarrow> (Inl e, s')
           | (Inr events, s') \<Rightarrow> (Inr (StingerFallbackApplied slot fallback # events), s'))
      | KeepProgram \<Rightarrow> (Inr [StingerFallbackApplied slot fallback], s))"
  by pat_completeness auto
termination
  by (relation "measure (case_sum (\<lambda>(kind, _, _). case kind of Stinger _ \<Rightarrow> 2 | _ \<Rightarrow> 0) (\<lambda>_. 1))") auto

fun switcher_apply :: "switcher_command \<Rightarrow> switcher_op" where
  "switcher_apply (SelectPreview input) s =
     (case and_then (require_idle s) (\<lambda>_. require_input input s) of
        Inl e \<Rightarrow> (Inl e, s)
      | Inr _ \<Rightarrow> (Inr [PreviewSelected input], s\<lparr>sw_preview := input\<rparr>))"
| "switcher_apply Cut s =
     (case require_idle s of
        Inl e \<Rightarrow> (Inl e, s)
      | Inr _ \<Rightarrow> (case complete_take s of (ev, s') \<Rightarrow> (Inr [ev], s')))"
| "switcher_apply (Transition kind duration) s =
     (case require_idle s of
        Inl e \<Rightarrow> (Inl e, s)
      | Inr _ \<Rightarrow> if duration = 0 then (Inl ZeroDuration, s) else start_transition kind duration s)"
| "switcher_apply (WipeCommand duration) s =
     (case require_idle s of
        Inl e \<Rightarrow> (Inl e, s)
      | Inr _ \<Rightarrow> if duration = 0 then (Inl ZeroDuration, s) else start_transition Wipe duration s)"
| "switcher_apply (StartTBar kind) s = start_t_bar kind s"
| "switcher_apply (SetTBarPosition pos) s = set_t_bar_position pos s"
| "switcher_apply CommitTBar s = commit_t_bar s"
| "switcher_apply CancelTBar s = cancel_t_bar s"
| "switcher_apply (TakeOverlay c source) s = take_overlay c source s"
| "switcher_apply (UpdateOverlay c source) s = update_overlay c source s"
| "switcher_apply (OverlayOff c) s = switcher_overlay_off c s"
| "switcher_apply (ConfigureOverlayTransition c transition duration) s =
     configure_overlay_transition c transition duration s"
| "switcher_apply (ConfigureOverlayAppearance c pos border) s = configure_overlay_appearance c pos border s"
| "switcher_apply (QueueOverlay c source) s = queue_overlay c source s"
| "switcher_apply (TakeNextOverlay c) s = take_next_overlay c s"
| "switcher_apply (SetOverlayOutputInclusion c output included) s =
     set_overlay_output_inclusion c output included s"
| "switcher_apply (SetStreamRunning target running) s = set_stream_running target running s"
| "switcher_apply (SetRecordingDesired active) s = set_recording_desired active s"

definition switcher_program_frame :: "switcher_state \<Rightarrow> program_frame" where
  "switcher_program_frame s =
     (case sw_transition s of
        Some t \<Rightarrow>
          \<lparr>pf_primary = tr_from t, pf_secondary = Some (tr_to t), pf_transition_kind = Some (tr_kind t),
           pf_mix_numerator = tr_elapsed_frames t, pf_mix_denominator = tr_duration_frames t,
           pf_mix_start_numerator = tr_elapsed_frames t, pf_mix_end_numerator = mix_end_numerator t\<rparr>
      | None \<Rightarrow>
          (case sw_t_bar s of
             Some b \<Rightarrow>
               \<lparr>pf_primary = tb_from b, pf_secondary = Some (tb_to b), pf_transition_kind = Some (tb_kind b),
                pf_mix_numerator = ucast (tb_position b), pf_mix_denominator = ucast TBAR_MAX,
                pf_mix_start_numerator = ucast (tb_interval_start b), pf_mix_end_numerator = ucast (tb_position b)\<rparr>
           | None \<Rightarrow>
               \<lparr>pf_primary = sw_program s, pf_secondary = None, pf_transition_kind = None,
                pf_mix_numerator = 0, pf_mix_denominator = 1,
                pf_mix_start_numerator = 0, pf_mix_end_numerator = 0\<rparr>))"

definition fade_to_black_events :: "fade_to_black_advance \<Rightarrow> switcher_event list" where
  "fade_to_black_events adv =
     (case fa_position_changed adv of None \<Rightarrow> [] | Some p \<Rightarrow> [FadeToBlackPositionChanged p])
     @ (case fa_completed adv of None \<Rightarrow> [] | Some t \<Rightarrow> [FadeToBlackCompleted (target_active t)])"

definition advance_transition :: "switcher_state \<Rightarrow> (switcher_event list \<times> switcher_state) option" where
  "advance_transition s =
     (case sw_transition s of
        None \<Rightarrow> Some ([], s)
      | Some t \<Rightarrow>
          Option.bind (transition_advance t) (\<lambda>(finished, t').
            if finished
            then case complete_take (s\<lparr>sw_transition := None\<rparr>) of
                   (ev, s') \<Rightarrow> Some ([ev, TransitionCompleted (tr_kind t) (sw_program s')], s')
            else Some ([], s\<lparr>sw_transition := Some t'\<rparr>)))"

fun advance_overlays ::
  "(overlay_channel_id \<times> overlay_channel_state) list \<Rightarrow> (switcher_event list \<times> overlay_channel_state list) option" where
  "advance_overlays [] = Some ([], [])"
| "advance_overlays ((c, ch) # rest) =
     Option.bind (overlay_advance ch) (\<lambda>(adv, ch').
     Option.bind (advance_overlays rest) (\<lambda>(events, chs).
       Some ((case oa_opacity_changed adv of None \<Rightarrow> [] | Some opacity \<Rightarrow> [OverlayOpacityChanged c opacity])
             @ (case oa_completed adv of None \<Rightarrow> [] | Some active \<Rightarrow> [OverlayTransitionCompleted c active])
             @ events, ch' # chs)))"

definition advance_frame_events :: "switcher_state \<Rightarrow> (switcher_event list \<times> switcher_state) option" where
  "advance_frame_events s =
     Option.bind (ftb_advance (sw_fade_to_black s)) (\<lambda>(adv, c).
     let s1 = s\<lparr>sw_fade_to_black := c, sw_t_bar := map_option settle_frame (sw_t_bar s)\<rparr> in
     Option.bind (advance_transition s1) (\<lambda>(events, s2).
     Option.bind (advance_overlays (zip OVERLAY_CHANNELS (sw_overlays s2))) (\<lambda>(overlay_events, chs).
       Some (events @ fade_to_black_events adv @ overlay_events, s2\<lparr>sw_overlays := chs\<rparr>))))"

section \<open>The invariant of the switcher\<close>

definition overlay_inv :: "input_id set \<Rightarrow> overlay_channel_state \<Rightarrow> bool" where
  "overlay_inv inputs ch \<longleftrightarrow> overlay_motion_inv ch
     \<and> 0 < ov_duration_frames ch \<and> ov_duration_frames ch \<le> 3600
     \<and> (ov_active ch \<longrightarrow> ov_source ch \<noteq> None) \<and> set_option (ov_source ch) \<subseteq> inputs
     \<and> set (ov_queue ch) \<subseteq> inputs \<and> length (ov_queue ch) \<le> 64 \<and> distinct (ov_included_outputs ch)"

definition stinger_inv :: "input_id set \<Rightarrow> stinger_slot_state \<Rightarrow> bool" where
  "stinger_inv inputs st \<longleftrightarrow> (\<forall>d. ss_descriptor st = Some d \<longrightarrow> sd_media_input d \<in> inputs)
     \<and> (ss_preload_state st \<noteq> NotRequested \<longrightarrow> ss_descriptor st \<noteq> None)"

definition transition_inv :: "input_id \<Rightarrow> input_id \<Rightarrow> transition_state \<Rightarrow> bool" where
  "transition_inv program preview t \<longleftrightarrow>
     tr_from t = program \<and> tr_to t = preview \<and> tr_elapsed_frames t < tr_duration_frames t"

definition t_bar_inv :: "input_id \<Rightarrow> input_id \<Rightarrow> t_bar_state \<Rightarrow> bool" where
  "t_bar_inv program preview b \<longleftrightarrow>
     tb_from b = program \<and> tb_to b = preview \<and> manual_transition_supported (tb_kind b)
     \<and> tb_interval_start b \<le> TBAR_MAX \<and> tb_position b \<le> TBAR_MAX"

definition switcher_inv :: "switcher_state \<Rightarrow> bool" where
  "switcher_inv s \<longleftrightarrow>
     sw_program s \<in> set (sw_inputs s) \<and> sw_preview s \<in> set (sw_inputs s)
     \<and> (sw_transition s = None \<or> sw_t_bar s = None)
     \<and> pred_option (transition_inv (sw_program s) (sw_preview s)) (sw_transition s)
     \<and> pred_option (t_bar_inv (sw_program s) (sw_preview s)) (sw_t_bar s)
     \<and> ftb_inv (sw_fade_to_black s)
     \<and> length (sw_overlays s) = 8 \<and> list_all (overlay_inv (set (sw_inputs s))) (sw_overlays s)
     \<and> length (sw_stingers s) = 8 \<and> list_all (stinger_inv (set (sw_inputs s))) (sw_stingers s)
     \<and> length (sw_streams s) \<le> MAX_STREAM_COUNT \<and> distinct (map ds_id (sw_streams s))
     \<and> sw_streams_running s \<subseteq> ds_id ` set (sw_streams s)"

definition channel_ok :: "u8 \<Rightarrow> bool" where
  "channel_ok c \<longleftrightarrow> overlay_channel_new c = Some c"

lemma channel_ok_index: "channel_ok c \<Longrightarrow> channel_index c < 8 \<and> slot_index c < 8"
proof -
  assume "channel_ok c"
  then have "1 \<le> c" "c \<le> 8" by (auto simp: channel_ok_def overlay_channel_new_def split: if_splits)
  then have "unat (c - 1) < 8" by (simp add: unat_sub word_less_unat)
  then show ?thesis by (simp add: channel_index_def slot_index_def)
qed

lemma list_all_update: "list_all P xs \<Longrightarrow> P y \<Longrightarrow> list_all P (xs[i := y])"
  by (auto simp: list_all_iff dest: subsetD [OF set_update_subset_insert])

lemma update_channel_inv:
  assumes "switcher_inv s" "channel_ok c"
    and "overlay_inv (set (sw_inputs s)) (switcher_overlay s c) \<Longrightarrow>
         overlay_inv (set (sw_inputs s)) (f (switcher_overlay s c))"
  shows "switcher_inv (update_channel c f s)"
proof -
  have "overlay_inv (set (sw_inputs s)) (switcher_overlay s c)"
    using assms(1) channel_ok_index [OF assms(2)] by (simp add: switcher_inv_def switcher_overlay_def list_all_length)
  then have "list_all (overlay_inv (set (sw_inputs s))) (sw_overlays (update_channel c f s))"
    using assms(1,3) by (simp add: update_channel_def switcher_inv_def list_all_update)
  with assms(1) show ?thesis by (simp add: switcher_inv_def update_channel_def)
qed

lemma update_slot_inv:
  assumes "switcher_inv s" "channel_ok c"
    and "stinger_inv (set (sw_inputs s)) (switcher_stinger s c) \<Longrightarrow>
         stinger_inv (set (sw_inputs s)) (f (switcher_stinger s c))"
  shows "switcher_inv (update_slot c f s)"
proof -
  have "stinger_inv (set (sw_inputs s)) (switcher_stinger s c)"
    using assms(1) channel_ok_index [OF assms(2)] by (simp add: switcher_inv_def switcher_stinger_def list_all_length)
  then have "list_all (stinger_inv (set (sw_inputs s))) (sw_stingers (update_slot c f s))"
    using assms(1,3) by (simp add: update_slot_def switcher_inv_def list_all_update)
  with assms(1) show ?thesis by (simp add: switcher_inv_def update_slot_def)
qed

text \<open>The operations of one overlay channel keep its invariant.\<close>

lemma overlay_take_inv: "overlay_inv I ch \<Longrightarrow> i \<in> I \<Longrightarrow> overlay_inv I (overlay_take i ch)"
  by (simp add: overlay_inv_def overlay_take_def overlay_motion_inv_def)

lemma overlay_update_inv: "overlay_inv I ch \<Longrightarrow> i \<in> I \<Longrightarrow> overlay_inv I (overlay_update i ch)"
  by (auto simp: overlay_inv_def overlay_update_def overlay_motion_inv_def split: option.splits)

lemma overlay_off_inv: "overlay_inv I ch \<Longrightarrow> overlay_inv I (overlay_off ch)"
  by (simp add: overlay_inv_def overlay_off_def overlay_motion_inv_def)

lemma overlay_request_take_inv:
  "overlay_inv I ch \<Longrightarrow> i \<in> I \<Longrightarrow> overlay_inv I (overlay_request_take i ch)"
  by (auto simp: overlay_inv_def overlay_request_take_def overlay_motion_inv_def Let_def opacity_at_def interpolate_0
      split: overlay_transition_kind.splits)

lemma overlay_request_off_inv: "overlay_inv I ch \<Longrightarrow> overlay_inv I (overlay_request_off ch)"
  by (auto simp: overlay_inv_def overlay_request_off_def overlay_off_def overlay_motion_inv_def opacity_at_def
      interpolate_0)

lemma overlay_queue_tail_inv: "overlay_inv I ch \<Longrightarrow> ov_queue ch = i # is \<Longrightarrow> overlay_inv I (ch\<lparr>ov_queue := is\<rparr>)"
  by (auto simp: overlay_inv_def overlay_motion_inv_def split: option.splits)

lemma overlay_take_next_inv: "overlay_inv I ch \<Longrightarrow> overlay_inv I (snd (overlay_take_next ch))"
  by (cases "ov_queue ch")
     (auto simp: overlay_take_next_def overlay_queue_tail_inv overlay_inv_def [of I ch] intro!: overlay_take_inv)

lemma overlay_request_take_next_inv: "overlay_inv I ch \<Longrightarrow> overlay_inv I (snd (overlay_request_take_next ch))"
  by (cases "ov_queue ch")
     (auto simp: overlay_request_take_next_def overlay_queue_tail_inv overlay_inv_def [of I ch]
       intro!: overlay_request_take_inv)

lemma overlay_enqueue_inv: "overlay_inv I ch \<Longrightarrow> i \<in> I \<Longrightarrow> overlay_inv I (snd (overlay_enqueue i ch))"
  by (auto simp: overlay_enqueue_def overlay_inv_def MAX_OVERLAY_QUEUE_DEPTH_def overlay_motion_inv_def
      split: option.splits)

lemma overlay_configure_inv:
  "overlay_inv I ch \<Longrightarrow> 0 < d \<Longrightarrow> d \<le> 3600 \<Longrightarrow> overlay_inv I (overlay_configure_transition k d ch)"
  "overlay_inv I ch \<Longrightarrow> overlay_inv I (overlay_configure_appearance p b ch)"
  "overlay_inv I ch \<Longrightarrow> overlay_inv I (overlay_set_output_inclusion out inc ch)"
  by (auto simp: overlay_inv_def overlay_configure_transition_def overlay_configure_appearance_def
      overlay_set_output_inclusion_def overlay_motion_inv_def split: option.splits)

section \<open>Every operation keeps the invariant\<close>

text \<open>Values that the constructors of the identifier and position types return.\<close>

fun kind_ok :: "transition_kind \<Rightarrow> bool" where
  "kind_ok (Stinger slot) = channel_ok slot"
| "kind_ok _ = True"

fun command_ok :: "switcher_command \<Rightarrow> bool" where
  "command_ok (Transition kind _) = kind_ok kind"
| "command_ok (StartTBar kind) = kind_ok kind"
| "command_ok (SetTBarPosition pos) = (t_bar_position_new pos = Some pos)"
| "command_ok (TakeOverlay c _) = channel_ok c"
| "command_ok (UpdateOverlay c _) = channel_ok c"
| "command_ok (OverlayOff c) = channel_ok c"
| "command_ok (ConfigureOverlayTransition c _ _) = channel_ok c"
| "command_ok (ConfigureOverlayAppearance c _ _) = channel_ok c"
| "command_ok (QueueOverlay c _) = channel_ok c"
| "command_ok (TakeNextOverlay c) = channel_ok c"
| "command_ok (SetOverlayOutputInclusion c _ _) = channel_ok c"
| "command_ok _ = True"

lemma t_bar_position_ok: "t_bar_position_new p = Some p \<longleftrightarrow> p \<le> TBAR_MAX"
  by (simp add: t_bar_position_new_def)

lemma update_channel_same [simp]: "update_channel c (\<lambda>_. switcher_overlay s c) s = s"
  by (simp add: update_channel_def switcher_overlay_def)

lemma require_Inr [simp]:
  "require_input i s = Inr u \<longleftrightarrow> i \<in> set (sw_inputs s)"
  "require_idle s = Inr u \<longleftrightarrow> sw_transition s = None \<and> sw_t_bar s = None"
  by (simp_all add: require_input_def require_idle_def)

lemma complete_take_inv:
  assumes "switcher_inv s" "sw_transition s = None" "sw_t_bar s = None"
  shows "switcher_inv (snd (complete_take s))"
  using assms by (simp add: switcher_inv_def complete_take_def)

lemma start_plain_transition:
  assumes "\<And>slot. kind \<noteq> Stinger slot"
  shows "start_transition kind d s = (Inr [TransitionStarted kind (sw_program s) (sw_preview s) d],
    s\<lparr>sw_transition := Some (transition_new kind (sw_program s) (sw_preview s) d)\<rparr>)"
  using assms by (cases kind) auto

lemma begin_transition_inv:
  assumes "switcher_inv s" "sw_transition s = None" "sw_t_bar s = None" "d \<noteq> 0"
  shows "switcher_inv (s\<lparr>sw_transition := Some (transition_new kind (sw_program s) (sw_preview s) d)\<rparr>)"
  using assms by (simp add: switcher_inv_def transition_inv_def transition_new_def word_neq_0_conv)

lemma fallback_inv:
  assumes "switcher_inv s" "sw_transition s = None" "sw_t_bar s = None" "d \<noteq> 0"
  shows "switcher_inv (snd (apply_stinger_fallback slot fb d s))"
    "fst (apply_stinger_fallback slot fb d s) \<noteq> Inl e"
proof -
  have "start_transition Fade d s = (Inr [TransitionStarted Fade (sw_program s) (sw_preview s) d],
    s\<lparr>sw_transition := Some (transition_new Fade (sw_program s) (sw_preview s) d)\<rparr>)"
    by (rule start_plain_transition) simp
  then show "switcher_inv (snd (apply_stinger_fallback slot fb d s))"
    "fst (apply_stinger_fallback slot fb d s) \<noteq> Inl e"
    using complete_take_inv [OF assms(1-3)] begin_transition_inv [OF assms, of Fade] assms(1)
    by (cases fb; simp add: complete_take_def del: start_transition.simps)+
qed

lemma start_transition_inv:
  assumes "switcher_inv s" "sw_transition s = None" "sw_t_bar s = None" "d \<noteq> 0"
  shows "switcher_inv (snd (start_transition kind d s))"
    and "fst (start_transition kind d s) = Inl e \<Longrightarrow> snd (start_transition kind d s) = s"
proof -
  have "switcher_inv (snd (start_transition kind d s))
    \<and> (fst (start_transition kind d s) = Inl e \<longrightarrow> snd (start_transition kind d s) = s)"
  proof (cases "\<exists>slot. kind = Stinger slot")
    case True
    then obtain slot where "kind = Stinger slot" ..
    then show ?thesis
      using assms begin_transition_inv [OF assms, of kind] fallback_inv [OF assms, of slot]
      by (cases "playback_decision s slot") (auto simp: Let_def simp del: apply_stinger_fallback.simps)
  next
    case False
    then have "\<And>slot. kind \<noteq> Stinger slot" by blast
    from start_plain_transition [OF this] show ?thesis using begin_transition_inv [OF assms] by simp
  qed
  then show "switcher_inv (snd (start_transition kind d s))"
    and "fst (start_transition kind d s) = Inl e \<Longrightarrow> snd (start_transition kind d s) = s" by blast+
qed

lemmas overlay_op_invs = overlay_take_inv overlay_update_inv overlay_off_inv overlay_request_take_inv
  overlay_request_off_inv overlay_configure_inv overlay_take_next_inv overlay_request_take_next_inv
  overlay_enqueue_inv

lemmas overlay_command_defs = take_overlay_def update_overlay_def switcher_overlay_off_def
  configure_overlay_transition_def configure_overlay_appearance_def queue_overlay_def take_next_overlay_def
  set_overlay_output_inclusion_def request_overlay_take_def request_overlay_take_next_def request_overlay_off_def

lemma duration_bounds:
  "\<not> (d = 0 \<or> d > MAX_OVERLAY_TRANSITION_DURATION_FRAMES) \<longleftrightarrow> 0 < d \<and> d \<le> 3600"
  by (auto simp: MAX_OVERLAY_TRANSITION_DURATION_FRAMES_def word_neq_0_conv)

text \<open>The overlay commands: an error leaves the state alone, and the invariant is kept.\<close>

lemma overlay_commands_inv:
  assumes "switcher_inv s" "channel_ok c"
  shows "switcher_inv (snd (take_overlay c i s))" "switcher_inv (snd (update_overlay c i s))"
    "switcher_inv (snd (switcher_overlay_off c s))" "switcher_inv (snd (configure_overlay_transition c k d s))"
    "switcher_inv (snd (configure_overlay_appearance c p b s))" "switcher_inv (snd (queue_overlay c i s))"
    "switcher_inv (snd (take_next_overlay c s))" "switcher_inv (snd (set_overlay_output_inclusion c out inc s))"
    "switcher_inv (snd (request_overlay_take c i s))" "switcher_inv (snd (request_overlay_take_next c s))"
    "switcher_inv (snd (request_overlay_off c s))"
proof -
  note up = update_channel_inv [OF assms]
  show "switcher_inv (snd (take_overlay c i s))" "switcher_inv (snd (update_overlay c i s))"
    "switcher_inv (snd (request_overlay_take c i s))" "switcher_inv (snd (switcher_overlay_off c s))"
    "switcher_inv (snd (configure_overlay_appearance c p b s))"
    "switcher_inv (snd (set_overlay_output_inclusion c out inc s))" "switcher_inv (snd (request_overlay_off c s))"
    using assms(1) by (auto simp: overlay_command_defs require_input_def intro!: up overlay_op_invs)
  show "switcher_inv (snd (configure_overlay_transition c k d s))"
    using assms(1) duration_bounds [of d]
    by (auto simp: configure_overlay_transition_def intro!: up overlay_op_invs)
  show "switcher_inv (snd (queue_overlay c i s))"
  proof (cases "i \<in> set (sw_inputs s)")
    case True
    then show ?thesis
      using up [of "\<lambda>_. snd (overlay_enqueue i (switcher_overlay s c))"] overlay_enqueue_inv
      by (auto simp: queue_overlay_def require_input_def split: prod.splits bool.splits)
  qed (simp add: queue_overlay_def require_input_def assms(1))
  show "switcher_inv (snd (take_next_overlay c s))"
    using up [of "\<lambda>_. snd (overlay_take_next (switcher_overlay s c))"] overlay_take_next_inv
    by (auto simp: take_next_overlay_def split: prod.splits option.splits)
  show "switcher_inv (snd (request_overlay_take_next c s))"
    using up [of "\<lambda>_. snd (overlay_request_take_next (switcher_overlay s c))"] overlay_request_take_next_inv
    by (auto simp: request_overlay_take_next_def split: prod.splits option.splits)
qed

lemma switcher_apply_inv:
  assumes inv: "switcher_inv s" and ok: "command_ok cmd"
  shows "switcher_inv (snd (switcher_apply cmd s))"
proof (cases cmd)
  case (SelectPreview i)
  with inv show ?thesis
    by (auto simp: and_then_def switcher_inv_def split: sum.splits)
next
  case Cut
  with inv show ?thesis
    using complete_take_inv [OF inv] by (auto simp: complete_take_def split: sum.splits)
next
  case (Transition k d)
  with inv show ?thesis
    using start_transition_inv(1) [OF inv] by (auto simp del: start_transition.simps split: sum.splits)
next
  case (WipeCommand d)
  with inv show ?thesis
    using start_transition_inv(1) [OF inv] by (auto simp del: start_transition.simps split: sum.splits)
next
  case (StartTBar k)
  with inv show ?thesis
    by (auto simp: start_t_bar_def switcher_inv_def t_bar_inv_def t_bar_new_def split: sum.splits)
next
  case (SetTBarPosition p)
  with inv ok show ?thesis
    by (cases "sw_t_bar s")
       (auto simp: set_t_bar_position_def switcher_inv_def t_bar_inv_def set_position_def t_bar_position_ok)
next
  case CommitTBar
  with inv show ?thesis
    by (cases "sw_t_bar s") (auto simp: commit_t_bar_def complete_take_def switcher_inv_def)
next
  case CancelTBar
  with inv show ?thesis
    by (cases "sw_t_bar s") (auto simp: cancel_t_bar_def switcher_inv_def)
next
  case (SetStreamRunning t r)
  with inv show ?thesis by (auto simp: set_stream_running_def switcher_inv_def)
next
  case (SetRecordingDesired a)
  with inv show ?thesis by (auto simp: set_recording_desired_def switcher_inv_def)
qed (use ok overlay_commands_inv [OF inv] in simp_all)

lemma overlay_queue_errors:
  "\<not> fst (overlay_enqueue i ch) \<Longrightarrow> snd (overlay_enqueue i ch) = ch"
  "fst (overlay_take_next ch) = None \<Longrightarrow> snd (overlay_take_next ch) = ch"
  "fst (overlay_request_take_next ch) = None \<Longrightarrow> snd (overlay_request_take_next ch) = ch"
  by (auto simp: overlay_enqueue_def overlay_take_next_def overlay_request_take_next_def split: list.splits if_splits)

lemma overlay_command_errors:
  "fst (queue_overlay c i s) = Inl e \<Longrightarrow> snd (queue_overlay c i s) = s"
  "fst (take_next_overlay c s) = Inl e \<Longrightarrow> snd (take_next_overlay c s) = s"
  "fst (request_overlay_take_next c s) = Inl e \<Longrightarrow> snd (request_overlay_take_next c s) = s"
proof -
  show "fst (queue_overlay c i s) = Inl e \<Longrightarrow> snd (queue_overlay c i s) = s"
    using overlay_queue_errors(1) [of i "switcher_overlay s c"]
    by (auto simp: queue_overlay_def require_input_def simp del: require_Inr
        split: sum.splits prod.splits bool.splits if_splits)
  show "fst (take_next_overlay c s) = Inl e \<Longrightarrow> snd (take_next_overlay c s) = s"
    using overlay_queue_errors(2) [of "switcher_overlay s c"]
    by (auto simp: take_next_overlay_def split: prod.splits option.splits)
  show "fst (request_overlay_take_next c s) = Inl e \<Longrightarrow> snd (request_overlay_take_next c s) = s"
    using overlay_queue_errors(3) [of "switcher_overlay s c"]
    by (auto simp: request_overlay_take_next_def split: prod.splits option.splits)
qed

lemma switcher_apply_error:
  assumes inv: "switcher_inv s" and e: "fst (switcher_apply cmd s) = Inl e"
  shows "snd (switcher_apply cmd s) = s"
proof (cases cmd)
  case (Transition k d)
  with e show ?thesis
    using start_transition_inv(2) [OF inv, of d k e]
    by (auto simp: require_idle_def simp del: start_transition.simps require_Inr split: sum.splits if_splits)
next
  case (WipeCommand d)
  with e show ?thesis
    using start_transition_inv(2) [OF inv, of d Wipe e]
    by (auto simp: require_idle_def simp del: start_transition.simps require_Inr split: sum.splits if_splits)
next
  case (QueueOverlay c i)
  with e overlay_command_errors(1) show ?thesis by simp
next
  case (TakeNextOverlay c)
  with e overlay_command_errors(2) show ?thesis by simp
qed (use e in \<open>auto simp: complete_take_def start_t_bar_def set_t_bar_position_def commit_t_bar_def cancel_t_bar_def
   overlay_command_defs set_stream_running_def set_recording_desired_def require_idle_def require_input_def and_then_def
   simp del: require_Inr split: sum.splits option.splits if_splits\<close>)

section \<open>Advancing by one frame\<close>

definition switcher_step :: "switcher_state \<Rightarrow> switcher_state option" where
  "switcher_step s = map_option snd (advance_frame_events s)"

definition switcher_remaining :: "switcher_state \<Rightarrow> nat" where
  "switcher_remaining s =
     (case sw_transition s of None \<Rightarrow> 0 | Some t \<Rightarrow> unat (tr_duration_frames t) - unat (tr_elapsed_frames t))"

lemma overlay_step_inv:
  assumes "overlay_inv I ch"
  shows "\<exists>r ch'. overlay_advance ch = Some (r, ch') \<and> overlay_step ch = Some ch' \<and> overlay_inv I ch'"
proof -
  from assms have "overlay_motion_inv ch" by (simp add: overlay_inv_def)
  from overlay_advance_inv [OF this] obtain r ch' p act au where "overlay_advance ch = Some (r, ch')"
    "overlay_motion_inv ch'" "ch' = ch\<lparr>ov_opacity := p, ov_active := act, ov_automatic := au\<rparr>" "act \<longrightarrow> ov_active ch"
    by blast
  with assms show ?thesis by (auto simp: overlay_step_def overlay_inv_def)
qed

lemma advance_overlays_inv:
  assumes "list_all (overlay_inv I) chs" "length cs = length chs"
  shows "\<exists>ev chs'. advance_overlays (zip cs chs) = Some (ev, chs') \<and> length chs' = length chs
    \<and> list_all (overlay_inv I) chs' \<and> (\<forall>i<length chs. overlay_step (chs ! i) = Some (chs' ! i))"
  using assms
proof (induction chs arbitrary: cs)
  case (Cons ch chs)
  then obtain c cs' where cs: "cs = c # cs'" by (cases cs) auto
  obtain r ch' where ch': "overlay_advance ch = Some (r, ch')" "overlay_step ch = Some ch'" "overlay_inv I ch'"
    using overlay_step_inv [of I ch] Cons.prems(1) by auto
  obtain ev chs' where rest: "advance_overlays (zip cs' chs) = Some (ev, chs')" "length chs' = length chs"
    "list_all (overlay_inv I) chs'" "\<forall>i<length chs. overlay_step (chs ! i) = Some (chs' ! i)"
    using Cons.IH [of cs'] Cons.prems cs by auto
  then show ?case using ch' cs by (auto simp: nth_Cons split: nat.splits)
qed simp

lemma advance_transition_facts:
  assumes inv: "switcher_inv s"
  shows "\<exists>ev s'. advance_transition s = Some (ev, s') \<and> switcher_inv s'
    \<and> switcher_remaining s' = switcher_remaining s - 1
    \<and> sw_inputs s' = sw_inputs s \<and> sw_fade_to_black s' = sw_fade_to_black s \<and> sw_overlays s' = sw_overlays s
    \<and> sw_t_bar s' = sw_t_bar s
    \<and> (if switcher_remaining s = 1
       then sw_program s' = sw_preview s \<and> sw_preview s' = sw_program s \<and> sw_transition s' = None
         \<and> (\<exists>k. ev = [ProgramChanged (sw_program s) (sw_preview s), TransitionCompleted k (sw_preview s)])
       else sw_program s' = sw_program s \<and> sw_preview s' = sw_preview s \<and> ev = []
         \<and> sw_transition s' = map_option (\<lambda>t. t\<lparr>tr_elapsed_frames := tr_elapsed_frames t + 1\<rparr>) (sw_transition s))"
proof (cases "sw_transition s")
  case None
  with inv show ?thesis by (simp add: advance_transition_def switcher_remaining_def)
next
  case (Some t)
  have t: "transition_inv (sw_program s) (sw_preview s) t" "sw_t_bar s = None"
    using inv Some by (auto simp: switcher_inv_def)
  obtain n :: u32 where n: "checked_add (tr_elapsed_frames t) 1 = Some n" "unat n = Suc (unat (tr_elapsed_frames t))"
    "n \<le> tr_duration_frames t"
    using successor_u32 [of "tr_elapsed_frames t" "tr_duration_frames t"] t(1) by (auto simp: transition_inv_def)
  have "n = tr_elapsed_frames t + 1" using n(1) by (simp add: checked_add_def split: if_splits)
  note step = transition_advance_def advance_transition_def complete_take_def switcher_remaining_def
  show ?thesis
  proof (cases "tr_duration_frames t \<le> n")
    case True
    then have "n = tr_duration_frames t" using n(3) by simp
    then have "switcher_remaining s = 1" using n(2) Some by (simp add: switcher_remaining_def)
    with True Some n(1) inv t show ?thesis by (simp add: step switcher_inv_def)
  next
    case False
    then have "switcher_remaining s \<noteq> 1" "unat n < unat (tr_duration_frames t)"
      using n(2,3) Some by (simp_all add: switcher_remaining_def word_less_unat)
    with False Some n inv t \<open>n = tr_elapsed_frames t + 1\<close> show ?thesis
      by (auto simp: step switcher_inv_def transition_inv_def word_less_unat)
  qed
qed

lemma advance_frame_facts:
  assumes inv: "switcher_inv s"
  shows "\<exists>ev s'. advance_frame_events s = Some (ev, s') \<and> switcher_inv s'
    \<and> switcher_remaining s' = switcher_remaining s - 1 \<and> sw_inputs s' = sw_inputs s
    \<and> ftb_step (sw_fade_to_black s) = Some (sw_fade_to_black s')
    \<and> (\<forall>i<8. overlay_step (sw_overlays s ! i) = Some (sw_overlays s' ! i))
    \<and> sw_t_bar s' = map_option settle_frame (sw_t_bar s)
    \<and> (if switcher_remaining s = 1
       then sw_program s' = sw_preview s \<and> sw_preview s' = sw_program s \<and> sw_transition s' = None
         \<and> (\<exists>k rest. ev = ProgramChanged (sw_program s) (sw_preview s) # TransitionCompleted k (sw_preview s) # rest)
       else sw_program s' = sw_program s \<and> sw_preview s' = sw_preview s
         \<and> sw_transition s' = map_option (\<lambda>t. t\<lparr>tr_elapsed_frames := tr_elapsed_frames t + 1\<rparr>) (sw_transition s))"
proof -
  obtain adv c where c: "ftb_advance (sw_fade_to_black s) = Some (adv, c)" "ftb_inv c"
    using ftb_advance_inv [of "sw_fade_to_black s"] inv by (auto simp: switcher_inv_def)
  define s1 where "s1 = s\<lparr>sw_fade_to_black := c, sw_t_bar := map_option settle_frame (sw_t_bar s)\<rparr>"
  have inv1: "switcher_inv s1"
    using inv c(2) by (cases "sw_t_bar s") (auto simp: switcher_inv_def s1_def t_bar_inv_def settle_frame_def)
  have rem1: "switcher_remaining s1 = switcher_remaining s" by (simp add: s1_def switcher_remaining_def)
  obtain ev s2 where s2: "advance_transition s1 = Some (ev, s2)" "switcher_inv s2"
    "switcher_remaining s2 = switcher_remaining s1 - 1" "sw_inputs s2 = sw_inputs s1"
    "sw_fade_to_black s2 = sw_fade_to_black s1" "sw_overlays s2 = sw_overlays s1" "sw_t_bar s2 = sw_t_bar s1"
    and prog: "if switcher_remaining s1 = 1
       then sw_program s2 = sw_preview s1 \<and> sw_preview s2 = sw_program s1 \<and> sw_transition s2 = None
         \<and> (\<exists>k. ev = [ProgramChanged (sw_program s1) (sw_preview s1), TransitionCompleted k (sw_preview s1)])
       else sw_program s2 = sw_program s1 \<and> sw_preview s2 = sw_preview s1 \<and> ev = []
         \<and> sw_transition s2 = map_option (\<lambda>t. t\<lparr>tr_elapsed_frames := tr_elapsed_frames t + 1\<rparr>) (sw_transition s1)"
    using advance_transition_facts [OF inv1] by blast
  have ovs: "list_all (overlay_inv (set (sw_inputs s2))) (sw_overlays s2)" "length OVERLAY_CHANNELS = length (sw_overlays s2)"
    using s2(2) by (simp_all add: switcher_inv_def OVERLAY_CHANNELS_def)
  obtain oev chs where chs: "advance_overlays (zip OVERLAY_CHANNELS (sw_overlays s2)) = Some (oev, chs)"
    "length chs = length (sw_overlays s2)" "list_all (overlay_inv (set (sw_inputs s2))) chs"
    "\<forall>i<length (sw_overlays s2). overlay_step (sw_overlays s2 ! i) = Some (chs ! i)"
    using advance_overlays_inv [OF ovs] by blast
  have adv: "advance_frame_events s = Some (ev @ fade_to_black_events adv @ oev, s2\<lparr>sw_overlays := chs\<rparr>)"
    using c(1) s2(1) chs(1) by (simp add: advance_frame_events_def Let_def flip: s1_def)
  have "switcher_inv (s2\<lparr>sw_overlays := chs\<rparr>)" using s2(2) chs(2,3) by (simp add: switcher_inv_def)
  moreover have "switcher_remaining (s2\<lparr>sw_overlays := chs\<rparr>) = switcher_remaining s - 1"
    using s2(3) rem1 by (simp add: switcher_remaining_def)
  moreover have "\<forall>i<8. overlay_step (sw_overlays s ! i) = Some (chs ! i)"
    using chs(4) s2(2,6) by (simp add: switcher_inv_def s1_def)
  moreover have "ftb_step (sw_fade_to_black s) = Some (sw_fade_to_black s2)"
    using c(1) s2(5) by (simp add: ftb_step_def s1_def)
  ultimately show ?thesis
    using adv prog s2(4,7) rem1 by (auto simp: s1_def)
qed

interpretation sw: frame_countdown switcher_inv switcher_remaining switcher_step
proof
  fix s assume "switcher_inv s"
  from advance_frame_facts [OF this]
  show "\<exists>s'. switcher_step s = Some s' \<and> switcher_inv s' \<and> switcher_remaining s' = switcher_remaining s - 1"
    by (auto simp: switcher_step_def)
qed

section \<open>Runs of the switcher\<close>

datatype switcher_call =
    Apply switcher_command
  | ReorderInputs "input_id list"
  | RestoreTBar t_bar_state
  | RestoreFadeToBlack bool
  | RequestFadeToBlack bool u32
  | RequestOverlayTake overlay_channel_id input_id
  | RequestOverlayTakeNext overlay_channel_id
  | RequestOverlayOff overlay_channel_id
  | ConfigureStinger stinger_slot_id stinger_descriptor
  | RemoveStinger stinger_slot_id
  | PreloadStinger stinger_slot_id bool
  | AdvanceFrame

definition returned :: "('e + 'a) \<times> 's \<Rightarrow> (bool \<times> 's) option" where
  "returned r = Some (\<not> isl (fst r), snd r)"

text \<open>One call of the public interface: whether it succeeded, and the state after it.\<close>

fun switcher_do :: "switcher_call \<Rightarrow> switcher_state \<Rightarrow> (bool \<times> switcher_state) option" where
  "switcher_do (Apply cmd) s = returned (switcher_apply cmd s)"
| "switcher_do (ReorderInputs inputs) s = returned (reorder_inputs inputs s)"
| "switcher_do (RestoreTBar b) s = returned (restore_t_bar b s)"
| "switcher_do (RestoreFadeToBlack active) s = Some (True, restore_settled_fade_to_black active s)"
| "switcher_do (RequestFadeToBlack active d) s = returned (request_fade_to_black active d s)"
| "switcher_do (RequestOverlayTake c i) s = returned (request_overlay_take c i s)"
| "switcher_do (RequestOverlayTakeNext c) s = returned (request_overlay_take_next c s)"
| "switcher_do (RequestOverlayOff c) s = returned (request_overlay_off c s)"
| "switcher_do (ConfigureStinger slot d) s = returned (configure_stinger slot d s)"
| "switcher_do (RemoveStinger slot) s = Some (True, remove_stinger slot s)"
| "switcher_do (PreloadStinger slot available) s = returned (preload_stinger slot available s)"
| "switcher_do AdvanceFrame s = map_option (\<lambda>(_, s'). (True, s')) (advance_frame_events s)"

fun call_ok :: "switcher_call \<Rightarrow> bool" where
  "call_ok (Apply cmd) = command_ok cmd"
| "call_ok (RestoreTBar b) = (tb_interval_start b \<le> TBAR_MAX \<and> tb_position b \<le> TBAR_MAX)"
| "call_ok (RequestOverlayTake c _) = channel_ok c"
| "call_ok (RequestOverlayTakeNext c) = channel_ok c"
| "call_ok (RequestOverlayOff c) = channel_ok c"
| "call_ok (ConfigureStinger slot _) = channel_ok slot"
| "call_ok (RemoveStinger slot) = channel_ok slot"
| "call_ok (PreloadStinger slot _) = channel_ok slot"
| "call_ok _ = True"

fun switcher_run :: "switcher_call list \<Rightarrow> switcher_state \<Rightarrow> switcher_state option" where
  "switcher_run [] s = Some s"
| "switcher_run (c # cs) s = Option.bind (switcher_do c s) (\<lambda>(_, s'). switcher_run cs s')"

text \<open>A switcher as the program creates it.\<close>

definition switcher_started ::
  "input_id list \<Rightarrow> input_id \<Rightarrow> input_id \<Rightarrow> (stream_target_id \<times> ustr) list \<Rightarrow> switcher_state \<Rightarrow> bool" where
  "switcher_started inputs program preview streams s \<longleftrightarrow>
     and_then (switcher_new inputs program preview) (with_streams streams) = Inr s"

lemma collect_streams_Inr:
  "collect_streams seen xs = Inr ds \<Longrightarrow> map ds_id ds = map fst xs \<and> distinct (map fst xs) \<and> fst ` set xs \<inter> seen = {}"
  by (induction seen xs arbitrary: ds rule: collect_streams.induct)
     (auto simp: and_then_def split: if_splits sum.splits)

lemma switcher_started_inv:
  assumes "switcher_started inputs program preview streams s"
  shows "switcher_inv s" "sw_inputs s = inputs"
proof -
  obtain ds where ds: "collect_desired_streams streams = Inr ds"
    and s: "s = \<lparr>sw_inputs = inputs, sw_preview = preview, sw_program = program, sw_transition = None,
       sw_t_bar = None, sw_fade_to_black = ftb_default, sw_overlays = replicate 8 overlay_empty,
       sw_stingers = replicate 8 stinger_empty, sw_streams = ds, sw_streams_running = {}, sw_recording_desired = False\<rparr>"
    and p: "program \<in> set inputs" "preview \<in> set inputs"
    using assms by (auto simp: switcher_started_def switcher_new_def with_streams_def Let_def result_simps
        OVERLAY_CHANNEL_COUNT_def STINGER_SLOT_COUNT_def)
  have "length ds \<le> MAX_STREAM_COUNT" "distinct (map ds_id ds)"
    using ds collect_streams_Inr [of "{}" streams ds]
    by (auto simp: collect_desired_streams_def split: if_splits dest: arg_cong [where f = length])
  moreover have "overlay_inv I overlay_empty" "stinger_inv I stinger_empty" for I
    by (simp_all add: overlay_inv_def overlay_motion_inv_def overlay_empty_def stinger_inv_def stinger_empty_def)
  ultimately show "switcher_inv s" "sw_inputs s = inputs"
    using p ftb_started_inv(1) by (simp_all add: s switcher_inv_def list_all_iff)
qed

lemma reorder_inputs_inv:
  assumes "switcher_inv s"
  shows "switcher_inv (snd (reorder_inputs xs s))" "set (sw_inputs (snd (reorder_inputs xs s))) = set (sw_inputs s)"
proof -
  have "switcher_inv (snd (reorder_inputs xs s)) \<and> set (sw_inputs (snd (reorder_inputs xs s))) = set (sw_inputs s)"
  proof (cases "validate_input_order (sw_inputs s) xs")
    case (Inr u)
    then have xs: "length xs = length (sw_inputs s)" "set xs \<subseteq> set (sw_inputs s)" "distinct xs"
      by (auto simp: validate_input_order_Inr)
    then have "card (set (sw_inputs s)) \<le> card (set xs)" using card_length [of "sw_inputs s"] by (simp add: distinct_card)
    then have "set xs = set (sw_inputs s)" using xs(2) by (simp add: card_seteq)
    with Inr assms show ?thesis by (simp add: reorder_inputs_def switcher_inv_def)
  qed (simp add: reorder_inputs_def assms)
  then show "switcher_inv (snd (reorder_inputs xs s))" "set (sw_inputs (snd (reorder_inputs xs s))) = set (sw_inputs s)"
    by blast+
qed

lemma inputs_update [simp]:
  "sw_inputs (update_channel c f s) = sw_inputs s" "sw_inputs (update_slot c' g s) = sw_inputs s"
  by (simp_all add: update_channel_def update_slot_def)

lemma inputs_start_transition:
  "sw_inputs (snd (start_transition kind d s)) = sw_inputs s"
  "sw_inputs (snd (apply_stinger_fallback slot fb d s)) = sw_inputs s"
proof -
  have plain: "sw_inputs (snd (start_transition Fade d s)) = sw_inputs s" by simp
  show fb: "sw_inputs (snd (apply_stinger_fallback slot fb d s)) = sw_inputs s" for slot fb
    using plain by (cases fb) (auto simp: complete_take_def simp del: start_transition.simps split: prod.splits sum.splits)
  show "sw_inputs (snd (start_transition kind d s)) = sw_inputs s"
    using fb by (cases kind) (auto simp: Let_def simp del: apply_stinger_fallback.simps
        split: stinger_playback_decision.splits)
qed

lemma inputs_apply: "sw_inputs (snd (switcher_apply cmd s)) = sw_inputs s"
  by (cases cmd)
     (auto simp: complete_take_def start_t_bar_def set_t_bar_position_def commit_t_bar_def cancel_t_bar_def
       overlay_command_defs set_stream_running_def set_recording_desired_def inputs_start_transition
       simp del: start_transition.simps split: sum.splits option.splits prod.splits bool.splits)

lemma restore_t_bar_facts:
  assumes "switcher_inv s" "tb_interval_start b \<le> TBAR_MAX" "tb_position b \<le> TBAR_MAX"
  shows "switcher_inv (snd (restore_t_bar b s))" "fst (restore_t_bar b s) = Inl e \<Longrightarrow> snd (restore_t_bar b s) = s"
    "sw_inputs (snd (restore_t_bar b s)) = sw_inputs s"
  using assms
  by (auto simp: restore_t_bar_def require_idle_def require_input_def and_then_def switcher_inv_def t_bar_inv_def
      split: if_splits)

lemma request_ftb_facts:
  assumes "switcher_inv s"
  shows "switcher_inv (snd (request_fade_to_black a d s))"
    "fst (request_fade_to_black a d s) = Inl e \<Longrightarrow> snd (request_fade_to_black a d s) = s"
    "sw_inputs (snd (request_fade_to_black a d s)) = sw_inputs s"
proof -
  let ?r = "ftb_request (from_active a) d (sw_fade_to_black s)"
  have "ftb_inv (snd ?r)" using assms ftb_request_inv by (simp add: switcher_inv_def)
  moreover have "fst ?r = Inl e' \<Longrightarrow> snd ?r = sw_fade_to_black s" for e'
    by (auto simp: ftb_request_def split: sum.splits if_splits)
  ultimately show "switcher_inv (snd (request_fade_to_black a d s))"
    "fst (request_fade_to_black a d s) = Inl e \<Longrightarrow> snd (request_fade_to_black a d s) = s"
    "sw_inputs (snd (request_fade_to_black a d s)) = sw_inputs s"
    using assms by (auto simp: request_fade_to_black_def switcher_inv_def split: prod.splits sum.splits)
qed

lemma stinger_ops_inv:
  assumes "switcher_inv s" "channel_ok slot"
  shows "switcher_inv (snd (configure_stinger slot d s))" "switcher_inv (remove_stinger slot s)"
    "switcher_inv (snd (preload_stinger slot a s))"
  using assms
  by (auto simp: configure_stinger_def remove_stinger_def preload_stinger_def Let_def require_input_def
      stinger_inv_def stinger_configure_def stinger_clear_def stinger_set_preload_state_def
      intro!: update_slot_inv)

lemma returned_facts:
  "returned r = Some (ok, s') \<longleftrightarrow> s' = snd r \<and> (ok \<longleftrightarrow> \<not> isl (fst r))"
  by (auto simp: returned_def)

text \<open>One call: it does not panic, keeps the invariant and the set of inputs, and changes nothing if it fails.\<close>

lemma switcher_do_facts:
  assumes inv: "switcher_inv s" and ok: "call_ok c"
  shows "\<exists>success s'. switcher_do c s = Some (success, s') \<and> switcher_inv s' \<and> (\<not> success \<longrightarrow> s' = s)
    \<and> set (sw_inputs s') = set (sw_inputs s)"
proof (cases c)
  case (Apply cmd)
  then show ?thesis
    using switcher_apply_inv [OF inv, of cmd] switcher_apply_error [OF inv, of cmd] inputs_apply [of cmd s] ok
    by (auto simp: returned_facts isl_def)
next
  case (ReorderInputs xs)
  then show ?thesis
    using reorder_inputs_inv [OF inv, of xs]
    by (auto simp: returned_facts isl_def reorder_inputs_def split: sum.splits)
next
  case (RestoreTBar b)
  then show ?thesis
    using restore_t_bar_facts [OF inv, of b] ok by (auto simp: returned_facts isl_def)
next
  case (RestoreFadeToBlack a)
  then show ?thesis
    using inv ftb_started_inv(2) by (auto simp: restore_settled_fade_to_black_def switcher_inv_def)
next
  case (RequestFadeToBlack a d)
  then show ?thesis
    using request_ftb_facts [OF inv, of a d] by (auto simp: returned_facts isl_def)
next
  case (RequestOverlayTake ch i)
  then show ?thesis
    using overlay_commands_inv(9) [OF inv, of ch i] ok
    by (auto simp: returned_facts isl_def request_overlay_take_def require_input_def)
next
  case (RequestOverlayTakeNext ch)
  have "sw_inputs (snd (request_overlay_take_next ch s)) = sw_inputs s"
    by (auto simp: request_overlay_take_next_def split: prod.splits option.splits)
  then show ?thesis
    using overlay_commands_inv(10) [OF inv, of ch] ok overlay_command_errors(3) [of ch s] RequestOverlayTakeNext
    by (auto simp: returned_facts isl_def)
next
  case (RequestOverlayOff ch)
  then show ?thesis
    using overlay_commands_inv(11) [OF inv, of ch] ok
    by (auto simp: returned_facts isl_def request_overlay_off_def)
next
  case (ConfigureStinger slot d)
  then show ?thesis
    using stinger_ops_inv(1) [OF inv, of slot d] ok
    by (auto simp: returned_facts isl_def configure_stinger_def require_input_def)
next
  case (RemoveStinger slot)
  then show ?thesis
    using stinger_ops_inv(2) [OF inv, of slot] ok by (auto simp: remove_stinger_def)
next
  case (PreloadStinger slot a)
  then show ?thesis
    using stinger_ops_inv(3) [OF inv, of slot a] ok
    by (auto simp: returned_facts isl_def preload_stinger_def Let_def)
next
  case AdvanceFrame
  then show ?thesis using advance_frame_facts [OF inv] by auto
qed

lemma switcher_run_facts:
  assumes "switcher_inv s" "\<forall>c \<in> set cs. call_ok c"
  shows "\<exists>s'. switcher_run cs s = Some s' \<and> switcher_inv s' \<and> set (sw_inputs s') = set (sw_inputs s)"
  using assms
proof (induction cs arbitrary: s)
  case (Cons c cs)
  obtain dn s1 where "switcher_do c s = Some (dn, s1)" "switcher_inv s1" "set (sw_inputs s1) = set (sw_inputs s)"
    using switcher_do_facts [OF Cons.prems(1), of c] Cons.prems(2) by auto
  with Cons.IH [of s1] Cons.prems(2) show ?case by simp
qed simp

section \<open>What a composed frame looks like\<close>

lemma ucast_le_u32: "a \<le> b \<Longrightarrow> (ucast a :: u32) \<le> ucast b" for a b :: u16
proof -
  assume "a \<le> b"
  moreover have "unat (ucast x :: u32) = unat x" for x :: u16
    using unat_lt2p_any [of x] by (simp add: unsigned_ucast_eq take_bit_nat_eq_self)
  ultimately show ?thesis by (simp add: word_less_unat)
qed

lemma mix_end_le: "tr_elapsed_frames t < tr_duration_frames t \<Longrightarrow>
    tr_elapsed_frames t \<le> mix_end_numerator t \<and> mix_end_numerator t \<le> tr_duration_frames t"
proof -
  assume lt: "tr_elapsed_frames t < tr_duration_frames t"
  have "tr_elapsed_frames t \<le> saturating_add (tr_elapsed_frames t) 1"
    by (simp add: word_less_unat unat_saturating_add)
       (use unat_u32_less [of "tr_elapsed_frames t"] in linarith)
  with lt show ?thesis by (auto simp: mix_end_numerator_def Let_def)
qed

lemma program_frame_wf:
  assumes "switcher_inv s"
  defines "fr \<equiv> switcher_program_frame s"
  shows "pf_primary fr = sw_program s \<and> set_option (pf_secondary fr) \<subseteq> {sw_preview s}
    \<and> pf_mix_numerator fr \<le> pf_mix_denominator fr \<and> pf_mix_start_numerator fr \<le> pf_mix_denominator fr
    \<and> pf_mix_end_numerator fr \<le> pf_mix_denominator fr \<and> pf_mix_denominator fr \<noteq> 0"
proof -
  have bar: "ucast TBAR_MAX \<noteq> (0 :: u32)" by (simp add: TBAR_MAX_def)
  show ?thesis
    using assms(1) bar
    by (auto simp: fr_def switcher_program_frame_def switcher_inv_def transition_inv_def t_bar_inv_def mix_end_le
        ucast_le_u32 split: option.splits)
qed

text \<open>C14: a switcher that was created with its inputs and streams never panics and stays consistent,
  whatever sequence of commands, requests and frames it sees: Program and Preview are inputs of the
  mix, an automatic transition and a T-bar move are never active together, every active overlay
  channel shows an input of the mix, no overlay queue exceeds its bound, only inventoried streams
  run, and the frame to compose mixes Program and Preview with fractions between zero and one.
\<close>
theorem switcher_stays_consistent:
  assumes "switcher_started inputs program preview streams s0" "\<forall>c \<in> set calls. call_ok c"
  shows "\<exists>s. switcher_run calls s0 = Some s \<and> set (sw_inputs s) = set inputs
    \<and> sw_program s \<in> set inputs \<and> sw_preview s \<in> set inputs
    \<and> (sw_transition s = None \<or> sw_t_bar s = None)
    \<and> length (sw_overlays s) = 8
    \<and> (\<forall>ch \<in> set (sw_overlays s). (ov_active ch \<longrightarrow> (\<exists>i \<in> set inputs. ov_source ch = Some i))
         \<and> set (ov_queue ch) \<subseteq> set inputs \<and> length (ov_queue ch) \<le> 64)
    \<and> sw_streams_running s \<subseteq> ds_id ` set (sw_streams s)
    \<and> (let fr = switcher_program_frame s in
         pf_primary fr = sw_program s \<and> set_option (pf_secondary fr) \<subseteq> {sw_preview s}
         \<and> pf_mix_start_numerator fr \<le> pf_mix_denominator fr \<and> pf_mix_end_numerator fr \<le> pf_mix_denominator fr
         \<and> pf_mix_numerator fr \<le> pf_mix_denominator fr \<and> pf_mix_denominator fr \<noteq> 0)"
proof -
  note start = switcher_started_inv [OF assms(1)]
  obtain s where s: "switcher_run calls s0 = Some s" "switcher_inv s" "set (sw_inputs s) = set inputs"
    using switcher_run_facts [OF start(1) assms(2)] start(2) by auto
  have "\<forall>ch \<in> set (sw_overlays s). overlay_inv (set inputs) ch"
    using s(2,3) by (simp add: switcher_inv_def list_all_iff)
  then have "\<forall>ch \<in> set (sw_overlays s). (ov_active ch \<longrightarrow> (\<exists>i \<in> set inputs. ov_source ch = Some i))
         \<and> set (ov_queue ch) \<subseteq> set inputs \<and> length (ov_queue ch) \<le> 64"
    by (auto simp: overlay_inv_def)
  with s program_frame_wf [OF s(2)] show ?thesis
    by (intro exI [of _ s]) (simp add: Let_def switcher_inv_def [of s])
qed

text \<open>every call of the interface that reports an error leaves the switcher exactly as it was, after
  every history of calls.
\<close>
theorem switcher_errors_change_nothing:
  assumes "switcher_started inputs program preview streams s0" "\<forall>c \<in> set calls. call_ok c"
    and "switcher_run calls s0 = Some s" "call_ok c" "switcher_do c s = Some (False, s')"
  shows "s' = s"
proof -
  have "switcher_inv s"
    using switcher_run_facts [OF switcher_started_inv(1) [OF assms(1)] assms(2)] assms(3) by auto
  from switcher_do_facts [OF this assms(4)] assms(5) show ?thesis by auto
qed

section \<open>Moves complete on time\<close>

lemma advance_frames_step:
  "advance_frame_events s = Some (ev, s1) \<Longrightarrow>
   advance_frames switcher_step (Suc n) s = advance_frames switcher_step n s1"
  by (simp add: switcher_step_def [of s])

lemma frames_before_end:
  assumes "switcher_inv s" "sw_transition s = Some t" "n < switcher_remaining s" "advance_frames switcher_step n s = Some s'"
  shows "switcher_inv s' \<and> sw_program s' = sw_program s \<and> sw_preview s' = sw_preview s
    \<and> (\<exists>t'. sw_transition s' = Some t' \<and> unat (tr_elapsed_frames t') = unat (tr_elapsed_frames t) + n
         \<and> tr_duration_frames t' = tr_duration_frames t)"
  using assms
proof (induction n arbitrary: s t)
  case (Suc n)
  obtain ev s1 where s1: "advance_frame_events s = Some (ev, s1)" "switcher_inv s1"
    "switcher_remaining s1 = switcher_remaining s - 1" "sw_program s1 = sw_program s" "sw_preview s1 = sw_preview s"
    "sw_transition s1 = Some (t\<lparr>tr_elapsed_frames := tr_elapsed_frames t + 1\<rparr>)"
    using advance_frame_facts [OF Suc.prems(1)] Suc.prems(2,3) by auto
  have "tr_elapsed_frames t < tr_duration_frames t"
    using Suc.prems(1,2) by (simp add: switcher_inv_def transition_inv_def)
  then have "unat (tr_elapsed_frames t + 1) = Suc (unat (tr_elapsed_frames t))"
    by (metis successor_u32 checked_add_def option.inject option.distinct(1))
  moreover have "advance_frames switcher_step n s1 = Some s'"
    using Suc.prems(4) advance_frames_step [OF s1(1)] by simp
  ultimately show ?case using Suc.IH [OF s1(2,6)] Suc.prems(3) s1(3-5) by auto
qed simp

lemma frames_idle:
  assumes "switcher_inv s" "switcher_remaining s = 0" "advance_frames switcher_step n s = Some s'"
  shows "sw_program s' = sw_program s \<and> sw_preview s' = sw_preview s \<and> switcher_inv s' \<and> switcher_remaining s' = 0"
  using assms
proof (induction n arbitrary: s)
  case (Suc n)
  obtain ev s1 where s1: "advance_frame_events s = Some (ev, s1)" "switcher_inv s1" "switcher_remaining s1 = 0"
    "sw_program s1 = sw_program s" "sw_preview s1 = sw_preview s"
    using advance_frame_facts [OF Suc.prems(1)] Suc.prems(2) by auto
  with Suc.IH [OF s1(2,3)] Suc.prems(3) advance_frames_step [OF s1(1)] show ?case by simp
qed simp

lemma remaining_zero: "switcher_inv s \<Longrightarrow> switcher_remaining s = 0 \<longleftrightarrow> sw_transition s = None"
  by (auto simp: switcher_remaining_def switcher_inv_def transition_inv_def word_less_unat split: option.splits)

lemma frames_after_end:
  assumes inv: "switcher_inv s" and t: "sw_transition s = Some t" and n: "switcher_remaining s \<le> n"
    and run: "advance_frames switcher_step n s = Some s'"
  shows "sw_program s' = sw_preview s \<and> sw_preview s' = sw_program s \<and> sw_transition s' = None"
proof -
  let ?m = "switcher_remaining s - 1"
  have pos: "0 < switcher_remaining s" using inv t remaining_zero by fastforce
  then have split: "n = ?m + (1 + (n - switcher_remaining s))" using n by simp
  have "advance_frames switcher_step (?m + (1 + (n - switcher_remaining s))) s = Some s'"
    using run split by presburger
  then obtain s1 where s1: "advance_frames switcher_step ?m s = Some s1"
    "advance_frames switcher_step (1 + (n - switcher_remaining s)) s1 = Some s'"
    unfolding advance_frames_add bind_eq_Some_conv by blast
  have mid: "switcher_inv s1" "sw_program s1 = sw_program s" "sw_preview s1 = sw_preview s"
    using frames_before_end [OF inv t _ s1(1)] pos by auto
  have "switcher_remaining s1 = 1"
    using sw.advance_frames_total [OF inv, of ?m] s1(1) pos by auto
  then obtain ev s2 where s2: "advance_frame_events s1 = Some (ev, s2)" "switcher_inv s2" "switcher_remaining s2 = 0"
    "sw_program s2 = sw_preview s1" "sw_preview s2 = sw_program s1"
    using advance_frame_facts [OF mid(1)] by auto
  then have "advance_frames switcher_step (n - switcher_remaining s) s2 = Some s'"
    using s1(2) advance_frames_step [OF s2(1)] by simp
  from frames_idle [OF s2(2,3) this] s2(4,5) mid show ?thesis using remaining_zero by auto
qed

text \<open>C15: an automatic transition that a command started over d frames keeps Program and Preview for the
  next d - 1 frames, with the mix standing at n of d after n frames, and exchanges them with the
  d-th frame; from then on the new Program stays, however many frames follow.
\<close>
theorem transition_completes_on_time:
  assumes "switcher_started inputs program preview streams s0" "\<forall>c \<in> set calls. call_ok c"
    and "switcher_run calls s0 = Some s" "kind_ok kind"
    and "switcher_apply (Transition kind d) s = (Inr [TransitionStarted k a b d'], s1)"
  shows "\<exists>s2. advance_frames switcher_step n s1 = Some s2
    \<and> (if n < unat d
       then sw_program s2 = sw_program s \<and> sw_preview s2 = sw_preview s
         \<and> unat (pf_mix_numerator (switcher_program_frame s2)) = n \<and> pf_mix_denominator (switcher_program_frame s2) = d
       else sw_program s2 = sw_preview s \<and> sw_preview s2 = sw_program s \<and> sw_transition s2 = None)"
proof -
  have inv: "switcher_inv s"
    using switcher_run_facts [OF switcher_started_inv(1) [OF assms(1)] assms(2)] assms(3) by auto
  have inv1: "switcher_inv s1"
    using switcher_apply_inv [OF inv, of "Transition kind d"] assms(4,5) by simp
  have start: "start_transition kind d s = (Inr [TransitionStarted k a b d'], s1)"
    using assms(5) by (auto simp del: start_transition.simps split: sum.splits if_splits)
  have s1: "s1 = s\<lparr>sw_transition := Some (transition_new kind (sw_program s) (sw_preview s) d)\<rparr>"
  proof (cases "\<exists>slot. kind = Stinger slot")
    case True
    then obtain slot where slot: "kind = Stinger slot" ..
    have "apply_stinger_fallback slot fb d s \<noteq> (Inr [TransitionStarted k a b d'], s1)" for fb
      by (cases fb) (auto simp: complete_take_def)
    with start slot show ?thesis
      by (auto simp: Let_def simp del: apply_stinger_fallback.simps
          split: stinger_playback_decision.splits if_splits)
  next
    case False
    then have "\<And>slot. kind \<noteq> Stinger slot" by blast
    from start_plain_transition [OF this] start show ?thesis by (auto simp del: start_transition.simps)
  qed
  then have t: "sw_transition s1 = Some (transition_new kind (sw_program s) (sw_preview s) d)"
    and rem: "switcher_remaining s1 = unat d" and same: "sw_program s1 = sw_program s" "sw_preview s1 = sw_preview s"
    by (simp_all add: switcher_remaining_def transition_new_def)
  obtain s2 where s2: "advance_frames switcher_step n s1 = Some s2"
    using sw.advance_frames_total [OF inv1] by blast
  show ?thesis
  proof (cases "n < unat d")
    case True
    with frames_before_end [OF inv1 t _ s2] rem same s2 show ?thesis
      by (auto simp: switcher_program_frame_def transition_new_def)
  next
    case False
    with frames_after_end [OF inv1 t _ s2] rem same s2 show ?thesis by auto
  qed
qed

lemma frames_overlay:
  assumes "switcher_inv s" "advance_frames switcher_step n s = Some s'" "i < 8"
  shows "advance_frames overlay_step n (sw_overlays s ! i) = Some (sw_overlays s' ! i)"
  using assms
proof (induction n arbitrary: s)
  case (Suc n)
  obtain ev s1 where s1: "advance_frame_events s = Some (ev, s1)" "switcher_inv s1"
    "\<forall>i<8. overlay_step (sw_overlays s ! i) = Some (sw_overlays s1 ! i)"
    using advance_frame_facts [OF Suc.prems(1)] by blast
  with Suc.IH [OF s1(2)] Suc.prems(2,3) advance_frames_step [OF s1(1)] show ?case by simp
qed simp

lemma overlay_in_range: "switcher_inv s \<Longrightarrow> channel_ok c \<Longrightarrow> overlay_inv (set (sw_inputs s)) (switcher_overlay s c)"
  using channel_ok_index [of c] by (simp add: switcher_inv_def switcher_overlay_def list_all_length)

lemma switcher_overlay_update:
  "switcher_inv s \<Longrightarrow> channel_ok c \<Longrightarrow> switcher_overlay (update_channel c f s) c = f (switcher_overlay s c)"
  using channel_ok_index [of c] by (simp add: switcher_overlay_def update_channel_def switcher_inv_def)

text \<open>an overlay channel that is configured to fade over d frames and is taken on air becomes visible
  along the linear interpolation from transparent to opaque and stands fully opaque, showing the
  requested source, after d frames and for as long as nothing else is requested; the request to turn
  it off fades it back along the same line and leaves the channel inactive after d frames more.
\<close>
theorem overlay_fades_in_and_out:
  assumes "switcher_started inputs program preview streams s0" "\<forall>c \<in> set calls. call_ok c"
    and "switcher_run calls s0 = Some s" "channel_ok c"
    and "ov_transition (switcher_overlay s c) = OverlayFade" "d = unat (ov_duration_frames (switcher_overlay s c))"
    and "request_overlay_take c source s = (Inr ev, s1)"
  shows "\<exists>s2. advance_frames switcher_step n s1 = Some s2 \<and>
    (if n < d then unat (ov_opacity (switcher_overlay s2 c)) = lerp 0 255 n d
     else ov_opacity (switcher_overlay s2 c) = - 1 \<and> ov_active (switcher_overlay s2 c)
       \<and> ov_source (switcher_overlay s2 c) = Some source
       \<and> (\<exists>s3. advance_frames switcher_step m (snd (request_overlay_off c s2)) = Some s3 \<and>
            (if m < d then unat (ov_opacity (switcher_overlay s3 c)) = lerp 255 0 m d
             else ov_opacity (switcher_overlay s3 c) = 0 \<and> \<not> ov_active (switcher_overlay s3 c))))"
proof -
  let ?ch = "switcher_overlay s c"
  have inv: "switcher_inv s"
    using switcher_run_facts [OF switcher_started_inv(1) [OF assms(1)] assms(2)] assms(3) by auto
  have s1: "s1 = update_channel c (overlay_request_take source) s"
    using assms(7) by (simp add: request_overlay_take_def split: sum.splits)
  have inv1: "switcher_inv s1" using overlay_commands_inv(9) [OF inv assms(4), of source] assms(7) by simp
  define a where "a = \<lparr>ao_start_opacity = 0, ao_target_opacity = - 1, ao_target_active = True,
      ao_duration_frames = ov_duration_frames ?ch, ao_elapsed_frames = 0\<rparr>"
  have ch1: "switcher_overlay s1 c = ?ch\<lparr>ov_source := Some source, ov_active := True, ov_opacity := 0, ov_automatic := Some a\<rparr>"
    using switcher_overlay_update [OF inv assms(4)] s1 assms(5) by (simp add: overlay_request_take_def a_def)
  have mot1: "overlay_motion_inv (switcher_overlay s1 c)"
    using overlay_in_range [OF inv1 assms(4)] by (simp add: overlay_inv_def)
  have idx: "channel_index c < 8" using channel_ok_index [OF assms(4)] by simp
  obtain s2 where s2: "advance_frames switcher_step n s1 = Some s2" "switcher_inv s2"
    using sw.advance_frames_total [OF inv1] by blast
  have ov2: "advance_frames overlay_step n (switcher_overlay s1 c) = Some (switcher_overlay s2 c)"
    using frames_overlay [OF inv1 s2(1) idx] by (simp add: switcher_overlay_def)
  have max: "unat (- 1 :: u8) = 255" by (simp add: unsigned_minus_1_eq_mask mask_eq_exp_minus_1)
  show ?thesis
  proof (cases "n < d")
    case True
    with overlay_frames_opacity [OF mot1, of a n] ov2 ch1 assms(6) s2(1) max show ?thesis
      by (simp add: a_def)
  next
    case False
    have ch2: "switcher_overlay s2 c = ?ch\<lparr>ov_source := Some source, ov_opacity := - 1, ov_active := True, ov_automatic := None\<rparr>"
      using overlay_frames_end [OF mot1, of a n] ov2 ch1 False assms(6) by (simp add: a_def)
    define s3 where "s3 = snd (request_overlay_off c s2)"
    have inv3: "switcher_inv s3" using overlay_commands_inv(11) [OF s2(2) assms(4)] by (simp add: s3_def)
    define b where "b = \<lparr>ao_start_opacity = - 1, ao_target_opacity = 0, ao_target_active = False,
      ao_duration_frames = ov_duration_frames ?ch, ao_elapsed_frames = 0\<rparr>"
    have ch3: "switcher_overlay s3 c = (switcher_overlay s2 c)\<lparr>ov_automatic := Some b\<rparr>"
      using switcher_overlay_update [OF s2(2) assms(4)] ch2 assms(5)
      by (simp add: s3_def request_overlay_off_def overlay_request_off_def b_def)
    have mot3: "overlay_motion_inv (switcher_overlay s3 c)"
      using overlay_in_range [OF inv3 assms(4)] by (simp add: overlay_inv_def)
    obtain s4 where s4: "advance_frames switcher_step m s3 = Some s4" "switcher_inv s4"
      using sw.advance_frames_total [OF inv3] by blast
    have ov4: "advance_frames overlay_step m (switcher_overlay s3 c) = Some (switcher_overlay s4 c)"
      using frames_overlay [OF inv3 s4(1) idx] by (simp add: switcher_overlay_def)
    have "switcher_overlay s4 c = ?ch\<lparr>ov_source := Some source, ov_opacity := 0, ov_active := False, ov_automatic := None\<rparr>"
      if "\<not> m < d" using overlay_frames_end [OF mot3, of b m] ov4 ch3 ch2 assms(6) that by (simp add: b_def)
    moreover have "unat (ov_opacity (switcher_overlay s4 c)) = lerp 255 0 m d" if "m < d"
      using overlay_frames_opacity [OF mot3, of b m] ov4 ch3 ch2 assms(6) max that by (simp add: b_def)
    ultimately have "if m < d then unat (ov_opacity (switcher_overlay s4 c)) = lerp 255 0 m d
      else ov_opacity (switcher_overlay s4 c) = 0 \<and> \<not> ov_active (switcher_overlay s4 c)" by simp
    with False s2(1) ch2 s4(1) show ?thesis by (auto simp flip: s3_def)
  qed
qed

section \<open>A small mix\<close>

definition demo_switcher :: switcher_state where
  "demo_switcher =
     \<lparr>sw_inputs = [1, 2, 3], sw_preview = 2, sw_program = 1, sw_transition = None, sw_t_bar = None,
      sw_fade_to_black = ftb_default, sw_overlays = replicate 8 overlay_empty,
      sw_stingers = replicate 8 stinger_empty, sw_streams = [\<lparr>ds_id = 7, ds_name = [104, 105]\<rparr>],
      sw_streams_running = {}, sw_recording_desired = False\<rparr>"

lemma demo_started: "switcher_started [1, 2, 3] 1 2 [(7, [104, 105])] demo_switcher"
  by (simp add: switcher_started_def switcher_new_def with_streams_def Let_def result_simps and_then_def
      require_input_def OVERLAY_CHANNEL_COUNT_def STINGER_SLOT_COUNT_def collect_desired_streams_def
      MAX_STREAM_COUNT_def MAX_STREAM_NAME_BYTES_def str_trim_def str_len_def utf8_len_def is_white_space_def
      demo_switcher_def)

definition demo_take_calls :: "switcher_call list" where
  "demo_take_calls = [Apply (SelectPreview 3), Apply (Transition Fade 2), AdvanceFrame, Apply Cut, AdvanceFrame,
     Apply (ConfigureOverlayTransition 1 OverlayFade 4)]"

lemma demo_take_calls_ok: "\<forall>c \<in> set demo_take_calls. call_ok c"
  by (simp add: demo_take_calls_def channel_ok_def overlay_channel_new_def)

theorem switcher_stays_consistent_witness:
  "\<exists>s. switcher_run demo_take_calls demo_switcher = Some s \<and> set (sw_inputs s) = {1, 2, 3}
     \<and> sw_program s \<in> {1, 2, 3} \<and> (sw_transition s = None \<or> sw_t_bar s = None)"
  using switcher_stays_consistent [OF demo_started demo_take_calls_ok] by auto

theorem switcher_errors_change_nothing_witness:
  "\<exists>s'. switcher_do (Apply (SelectPreview 9)) demo_switcher = Some (False, s') \<and> s' = demo_switcher"
proof -
  have run: "switcher_run [] demo_switcher = Some demo_switcher" by simp
  obtain s' where fail: "switcher_do (Apply (SelectPreview 9)) demo_switcher = Some (False, s')"
    by (simp add: returned_def require_idle_def require_input_def and_then_def demo_switcher_def)
  have "s' = demo_switcher" by (rule switcher_errors_change_nothing [OF demo_started _ run _ fail]) simp_all
  with fail show ?thesis by blast
qed

theorem transition_completes_on_time_witness:
  "\<exists>s1 s2. switcher_apply (Transition Wipe 25) demo_switcher = (Inr [TransitionStarted Wipe 1 2 25], s1)
    \<and> advance_frames switcher_step 25 s1 = Some s2 \<and> sw_program s2 = 2 \<and> sw_preview s2 = 1 \<and> sw_transition s2 = None"
proof -
  have run: "switcher_run [] demo_switcher = Some demo_switcher" by simp
  obtain s1 where start: "switcher_apply (Transition Wipe 25) demo_switcher = (Inr [TransitionStarted Wipe 1 2 25], s1)"
    by (simp add: require_idle_def demo_switcher_def)
  show ?thesis
    using transition_completes_on_time [OF demo_started _ run _ start, of 25] start
    by (auto simp: demo_switcher_def)
qed

theorem overlay_fades_in_and_out_witness:
  "\<exists>s s1 s2 ev. switcher_run [Apply (ConfigureOverlayTransition 1 OverlayFade 4)] demo_switcher = Some s
    \<and> request_overlay_take 1 3 s = (Inr ev, s1)
    \<and> advance_frames switcher_step 2 s1 = Some s2 \<and> unat (ov_opacity (switcher_overlay s2 1)) = lerp 0 255 2 4"
proof -
  let ?calls = "[Apply (ConfigureOverlayTransition 1 OverlayFade 4)]"
  have c: "channel_ok 1" by (simp add: channel_ok_def overlay_channel_new_def)
  obtain s where run: "switcher_run ?calls demo_switcher = Some s"
    and s: "ov_transition (switcher_overlay s 1) = OverlayFade" "4 = unat (ov_duration_frames (switcher_overlay s 1))"
      "3 \<in> set (sw_inputs s)"
    by (simp add: returned_def configure_overlay_transition_def MAX_OVERLAY_TRANSITION_DURATION_FRAMES_def
        update_channel_def switcher_overlay_def channel_index_def overlay_configure_transition_def demo_switcher_def)
  obtain ev s1 where take: "request_overlay_take 1 3 s = (Inr ev, s1)"
    using s(3) by (simp add: request_overlay_take_def require_input_def)
  show ?thesis
    using overlay_fades_in_and_out [OF demo_started _ run c s(1,2) take, of 2] c run take by auto
qed

end
