(* ===== verification/Auth.thy ===== *)
theory Auth
  imports Media_Types
begin

unbundle bit_operations_syntax

text \<open>
  The crate \<open>crates/services/fm-auth\<close>: identities (\<open>id.rs\<close>), one-use pairing codes (\<open>pairing.rs\<close>) and
  role-based authorization (\<open>policy.rs\<close>). A pairing code is the list of its bytes; a \<open>BTreeSet\<close> that is
  only tested for membership is a set and the grants are a partial function.
\<close>

section \<open>Identities\<close>

datatype invalid_identity = IdentityEmpty | InvalidStart nat | InvalidCharacter nat

fun validate_identity :: "ustr \<Rightarrow> invalid_identity + unit" where
  "validate_identity [] = Inl IdentityEmpty"
| "validate_identity (first # characters) =
     (if \<not> is_ascii_lowercase first then Inl (InvalidStart first)
      else case find (\<lambda>c. \<not> is_ascii_lowercase c \<and> \<not> is_ascii_digit c \<and> c \<noteq> 95 \<and> c \<noteq> 45) characters of
          Some found \<Rightarrow> Inl (InvalidCharacter found)
        | None \<Rightarrow> Inr ())"

definition identity_new :: "ustr \<Rightarrow> invalid_identity + ustr" where
  "identity_new v = and_then (validate_identity v) (\<lambda>_. Inr v)"

section \<open>Pairing codes\<close>

definition MAX_PAIRING_LIFETIME_SECONDS :: u64 where
  "MAX_PAIRING_LIFETIME_SECONDS = 600"

type_synonym pairing_code = "u8 list"

datatype invalid_pairing_code = InvalidPairingCode

definition pairing_code_new :: "u8 list \<Rightarrow> invalid_pairing_code + pairing_code" where
  "pairing_code_new v = (if v = [] then Inl InvalidPairingCode else Inr v)"

definition code_matches :: "pairing_code \<Rightarrow> pairing_code \<Rightarrow> bool" where
  "code_matches code candidate \<longleftrightarrow>
     (if length code \<noteq> length candidate then False
      else fold (\<lambda>(left, right) difference. difference OR (left XOR right)) (zip code candidate) 0 = 0)"

record pairing_code_validator =
  pv_expected :: pairing_code
  pv_expires_at :: u64
  pv_consumed :: bool

datatype pairing_configuration_error = LifetimeTooLong u64 u64 | ExpiryOverflow

datatype pairing_error = PairingInvalid | PairingExpired | AlreadyConsumed

text \<open>The lifetime is a \<open>NonZeroU64\<close>.\<close>

definition validator_new ::
  "pairing_code \<Rightarrow> u64 \<Rightarrow> u64 \<Rightarrow> pairing_configuration_error + pairing_code_validator" where
  "validator_new expected issued_at lifetime =
     (if lifetime > MAX_PAIRING_LIFETIME_SECONDS
      then Inl (LifetimeTooLong lifetime MAX_PAIRING_LIFETIME_SECONDS)
      else and_then (ok_or (checked_add issued_at lifetime) ExpiryOverflow) (\<lambda>expires_at.
        Inr \<lparr>pv_expected = expected, pv_expires_at = expires_at, pv_consumed = False\<rparr>))"

definition consume :: "pairing_code \<Rightarrow> u64 \<Rightarrow> (pairing_error, unit, pairing_code_validator) meth" where
  "consume candidate now v =
     (if pv_consumed v then (Inl AlreadyConsumed, v)
      else if now \<ge> pv_expires_at v then (Inl PairingExpired, v)
      else if \<not> code_matches (pv_expected v) candidate then (Inl PairingInvalid, v)
      else (Inr (), v\<lparr>pv_consumed := True\<rparr>))"

section \<open>Policy\<close>

datatype role = Viewer | Graphics | Audio | Operator | Admin

datatype permission =
    PViewStatus | PSelectPreview | PTransition | PControlAudio | PEditProject | PManageUsers

datatype command_class = ViewStatus | SelectPreview | Transition | ControlAudio | EditProject | ManageUsers

fun required_permission :: "command_class \<Rightarrow> permission" where
  "required_permission ViewStatus = PViewStatus"
| "required_permission SelectPreview = PSelectPreview"
| "required_permission Transition = PTransition"
| "required_permission ControlAudio = PControlAudio"
| "required_permission EditProject = PEditProject"
| "required_permission ManageUsers = PManageUsers"

datatype principal_kind = Authenticated | DevelopmentOnly

record principal =
  pr_user_id :: ustr
  pr_session_id :: ustr
  pr_roles :: "role set"
  pr_kind :: principal_kind

definition principal_authenticated :: "ustr \<Rightarrow> ustr \<Rightarrow> role list \<Rightarrow> principal" where
  "principal_authenticated user session roles =
     \<lparr>pr_user_id = user, pr_session_id = session, pr_roles = set roles, pr_kind = Authenticated\<rparr>"

definition principal_development :: "ustr \<Rightarrow> ustr \<Rightarrow> role list \<Rightarrow> principal" where
  "principal_development user session roles =
     \<lparr>pr_user_id = user, pr_session_id = session, pr_roles = set roles, pr_kind = DevelopmentOnly\<rparr>"

record policy =
  po_grants :: "role \<rightharpoonup> permission set"
  po_allow_development_principals :: bool

definition policy_production :: policy where
  "policy_production =
     \<lparr>po_grants = Map.empty
        (Viewer \<mapsto> {PViewStatus},
         Graphics \<mapsto> {PViewStatus, PEditProject},
         Audio \<mapsto> {PViewStatus, PControlAudio},
         Operator \<mapsto> {PViewStatus, PSelectPreview, PTransition, PControlAudio},
         Admin \<mapsto> {PViewStatus, PSelectPreview, PTransition, PControlAudio, PEditProject, PManageUsers}),
      po_allow_development_principals = False\<rparr>"

definition policy_development :: policy where
  "policy_development = policy_production\<lparr>po_allow_development_principals := True\<rparr>"

definition effective_permissions :: "policy \<Rightarrow> principal \<Rightarrow> permission set" where
  "effective_permissions pol p =
     (\<Union>r \<in> pr_roles p. case po_grants pol r of None \<Rightarrow> {} | Some g \<Rightarrow> g)"

datatype denial_reason = MissingPermission | DevelopmentPrincipalDisabled

record authorization_denial =
  ad_command :: command_class
  ad_required :: permission
  ad_reason :: denial_reason

definition authorize :: "policy \<Rightarrow> principal \<Rightarrow> command_class \<Rightarrow> authorization_denial + unit" where
  "authorize pol p command =
     (if pr_kind p = DevelopmentOnly \<and> \<not> po_allow_development_principals pol
      then Inl \<lparr>ad_command = command, ad_required = required_permission command,
                ad_reason = DevelopmentPrincipalDisabled\<rparr>
      else let required = required_permission command in
        if required \<in> effective_permissions pol p then Inr ()
        else Inl \<lparr>ad_command = command, ad_required = required, ad_reason = MissingPermission\<rparr>)"

section \<open>Comparing codes in constant time\<close>

lemma fold_xor_zero:
  "fold (\<lambda>(l, r) d. d OR (l XOR r)) ps d = 0 \<longleftrightarrow> d = 0 \<and> (\<forall>(l, r) \<in> set ps. l = (r :: u8))"
proof (induction ps arbitrary: d)
  case (Cons p ps)
  obtain l r where p: "p = (l, r)" by fastforce
  have "l XOR r = 0 \<longleftrightarrow> l = r"
  proof
    assume "l XOR r = 0"
    then have "(l XOR r) XOR r = 0 XOR r" by (simp only:)
    then show "l = r" by (simp add: xor.assoc)
  qed simp
  then have "d OR (l XOR r) = 0 \<longleftrightarrow> d = 0 \<and> l = r" by (simp add: or_eq_0_iff)
  then show ?case using Cons by (auto simp: p)
qed simp

lemma code_matches_eq [simp]: "code_matches code candidate \<longleftrightarrow> candidate = code"
proof (cases "length code = length candidate")
  case True
  then have "(\<forall>(l, r) \<in> set (zip code candidate). l = r) \<longleftrightarrow> candidate = code"
    by (induction code candidate rule: list_induct2) auto
  with True show ?thesis by (simp add: code_matches_def fold_xor_zero)
qed (auto simp: code_matches_def)

text \<open>A sequence of attempts, each with a candidate and the time of the attempt.\<close>

fun attempts :: "(pairing_code \<times> u64) list \<Rightarrow> pairing_code_validator \<Rightarrow> (pairing_error + unit) list" where
  "attempts [] v = []"
| "attempts ((candidate, now) # as) v = (case consume candidate now v of (r, v') \<Rightarrow> r # attempts as v')"

definition valid_attempt :: "pairing_code \<Rightarrow> nat \<Rightarrow> pairing_code \<times> u64 \<Rightarrow> bool" where
  "valid_attempt expected expiry a \<longleftrightarrow> fst a = expected \<and> unat (snd a) < expiry"

lemma consume_cases:
  "consume c now v =
     (if pv_consumed v then (Inl AlreadyConsumed, v)
      else if valid_attempt (pv_expected v) (unat (pv_expires_at v)) (c, now) then (Inr (), v\<lparr>pv_consumed := True\<rparr>)
      else (Inl (if pv_expires_at v \<le> now then PairingExpired else PairingInvalid), v))"
  by (auto simp: consume_def valid_attempt_def word_less_unat)

lemma attempts_consumed: "pv_consumed v \<Longrightarrow> i < length as \<Longrightarrow> attempts as v ! i = Inl AlreadyConsumed"
proof (induction as arbitrary: i)
  case (Cons a as)
  then show ?case by (cases a; cases i) (simp_all add: consume_cases)
qed simp

lemma attempts_fresh:
  assumes "\<not> pv_consumed v" "i < length as"
  defines "valid \<equiv> valid_attempt (pv_expected v) (unat (pv_expires_at v))"
  shows "attempts as v ! i = Inr () \<longleftrightarrow> valid (as ! i) \<and> (\<forall>j<i. \<not> valid (as ! j))"
  using assms(1,2)
proof (induction as arbitrary: i)
  case (Cons a as)
  obtain c now where a: "a = (c, now)" by fastforce
  show ?case
  proof (cases "valid a")
    case True
    then have "consume c now v = (Inr (), v\<lparr>pv_consumed := True\<rparr>)"
      using Cons.prems by (simp add: consume_cases valid_def a)
    with True Cons.prems show ?thesis
      by (cases i) (auto simp: a attempts_consumed nth_Cons' split: if_splits)
  next
    case False
    then have "\<exists>e. consume c now v = (Inl e, v)" using Cons.prems by (simp add: consume_cases valid_def a)
    with False Cons show ?thesis
      by (cases i) (auto simp: a All_less_Suc2)
  qed
qed simp

text \<open>C17: a pairing code is accepted at most once and only in its lifetime: in every sequence of attempts
  against a validator, an attempt succeeds exactly if its candidate is the issued code, its time is
  before the issue time plus the lifetime, and no earlier attempt satisfied both. Failed attempts
  before that do not use the code up.
\<close>
theorem pairing_code_single_use:
  assumes "validator_new expected issued lifetime = Inr v" "i < length as"
  shows "attempts as v ! i = Inr () \<longleftrightarrow>
    (fst (as ! i) = expected \<and> unat (snd (as ! i)) < unat issued + unat lifetime)
    \<and> (\<forall>j<i. \<not> (fst (as ! j) = expected \<and> unat (snd (as ! j)) < unat issued + unat lifetime))"
proof -
  have "\<not> pv_consumed v" "pv_expected v = expected" "unat (pv_expires_at v) = unat issued + unat lifetime"
    using assms(1) by (auto simp: validator_new_def result_simps checked_simps split: if_splits)
  with attempts_fresh [of v i as] assms(2) show ?thesis by (simp add: valid_attempt_def)
qed

theorem pairing_code_single_use_witness:
  "\<exists>v. validator_new [55, 56] 100 60 = Inr v
    \<and> attempts [([55, 57], 110), ([55, 56], 120), ([55, 56], 130)] v ! 1 = Inr ()
    \<and> attempts [([55, 57], 110), ([55, 56], 120), ([55, 56], 130)] v ! 2 \<noteq> Inr ()"
proof -
  let ?as = "[([55, 57], 110), ([55, 56], 120), ([55, 56], 130)] :: (u8 list \<times> u64) list"
  obtain v where v: "validator_new [55, 56] 100 60 = Inr v"
    by (simp add: validator_new_def MAX_PAIRING_LIFETIME_SECONDS_def checked_add_def ok_or_def and_then_def)
  have "attempts ?as v ! 1 = Inr ()"
    using pairing_code_single_use [OF v, of 1 ?as] by (simp add: less_Suc_eq)
  moreover have "attempts ?as v ! 2 \<noteq> Inr ()"
  proof
    assume "attempts ?as v ! 2 = Inr ()"
    then have "\<forall>j<2. \<not> (fst (?as ! j) = [55, 56] \<and> unat (snd (?as ! j)) < unat (100 :: u64) + unat (60 :: u64))"
      using pairing_code_single_use [OF v, of 2 ?as] by simp
    from spec [OF this, of 1] show False by simp
  qed
  ultimately show ?thesis using v by blast
qed

section \<open>The production role matrix\<close>

text \<open>Which roles may issue which class of commands.\<close>

fun allowed_roles :: "command_class \<Rightarrow> role set" where
  "allowed_roles ViewStatus = UNIV"
| "allowed_roles SelectPreview = {Operator, Admin}"
| "allowed_roles Transition = {Operator, Admin}"
| "allowed_roles ControlAudio = {Audio, Operator, Admin}"
| "allowed_roles EditProject = {Graphics, Admin}"
| "allowed_roles ManageUsers = {Admin}"

lemma production_grants: "required_permission c \<in> the (po_grants policy_production r) \<longleftrightarrow> r \<in> allowed_roles c"
  "po_grants policy_production r \<noteq> None"
  by (cases c; cases r; simp add: policy_production_def)+

lemma production_effective:
  "required_permission c \<in> effective_permissions policy_production p \<longleftrightarrow> pr_roles p \<inter> allowed_roles c \<noteq> {}"
proof -
  have "(case po_grants policy_production r of None \<Rightarrow> {} | Some g \<Rightarrow> g) = the (po_grants policy_production r)" for r
    using production_grants(2) [of r] by (cases "po_grants policy_production r") auto
  then show ?thesis using production_grants(1) by (auto simp: effective_permissions_def)
qed

text \<open>under the production policy a command is authorized exactly if the principal is authenticated
  (never a development principal) and holds one of the roles the matrix allows for its class: anyone
  with a role may view status, only operators and administrators switch, only audio, operators and
  administrators control audio, only graphics and administrators edit the project, and only
  administrators manage users. A denial names the command, the missing permission and the reason. The
  development policy differs only in admitting development principals.
\<close>
theorem production_policy_matrix:
  "authorize policy_production p c =
     (if pr_kind p = DevelopmentOnly
      then Inl \<lparr>ad_command = c, ad_required = required_permission c, ad_reason = DevelopmentPrincipalDisabled\<rparr>
      else if pr_roles p \<inter> allowed_roles c \<noteq> {} then Inr ()
      else Inl \<lparr>ad_command = c, ad_required = required_permission c, ad_reason = MissingPermission\<rparr>)
   \<and> authorize policy_development p c =
      authorize policy_production (p\<lparr>pr_kind := Authenticated\<rparr>) c"
proof -
  have "effective_permissions policy_development p = effective_permissions policy_production p"
    "effective_permissions pol (p\<lparr>pr_kind := k\<rparr>) = effective_permissions pol p" for pol k
    by (simp_all add: policy_development_def effective_permissions_def)
  moreover have "\<not> po_allow_development_principals policy_production" "po_allow_development_principals policy_development"
    by (simp_all add: policy_production_def policy_development_def)
  ultimately show ?thesis by (simp add: authorize_def Let_def production_effective)
qed

end
