(* ===== verification/Graph_Search.thy ===== *)
theory Graph_Search
  imports BTree
begin

text \<open>
  The two graph algorithms of \<open>crates/media/fm-graph\<close>, over ordered adjacency maps: the depth-first
  search for a cycle (\<open>visit\<close> and \<open>find_cycle\<close> of \<open>validation.rs\<close>) and the ordering of the nodes by
  repeatedly taking the least node without open dependencies (\<open>topological_order\<close> of \<open>plan.rs\<close>). A
  \<open>BTreeSet\<close> that is iterated is its ascending list.

  The locale \<^verbatim>\<open>closed_digraph\<close> states what the search relies on, a finite node set that the
  successors do not leave; the graph compiler interprets it.
\<close>

section \<open>Adjacency maps\<close>

definition successors :: "('n, 'n list) btree \<Rightarrow> 'n \<Rightarrow> 'n list" where
  "successors adj n = (case map_of adj n of None \<Rightarrow> [] | Some ms \<Rightarrow> ms)"

definition arcs :: "('n, 'n list) btree \<Rightarrow> ('n \<times> 'n) set" where
  "arcs adj = {(m, n). n \<in> set (successors adj m)}"

definition preds :: "('n, 'n list) btree \<Rightarrow> 'n \<Rightarrow> 'n set" where
  "preds adj n = {m. n \<in> set (successors adj m)}"

lemma arcs_iff [simp]: "(m, n) \<in> arcs adj \<longleftrightarrow> n \<in> set (successors adj m)"
  by (simp add: arcs_def)

lemma preds_iff [simp]: "m \<in> preds adj n \<longleftrightarrow> n \<in> set (successors adj m)"
  by (simp add: preds_def)

lemma successors_key: "n \<in> set (successors adj m) \<Longrightarrow> m \<in> bt_keys adj"
  by (cases "map_of adj m") (auto simp: successors_def dest: map_of_SomeD intro: rev_image_eqI)

lemma finite_preds [simp]: "finite (preds adj n)"
  by (rule finite_subset [of _ "bt_keys adj"]) (auto dest: successors_key)

lemma finite_arcs: "finite (arcs adj)"
proof (rule finite_subset)
  show "arcs adj \<subseteq> (SIGMA m : bt_keys adj. set (successors adj m))" using successors_key by fastforce
qed simp

section \<open>Depth-first search for a cycle\<close>

record 'n dfs =
  dfs_visited :: "'n set"
  dfs_active :: "'n set"
  dfs_path :: "'n list"

text \<open>\<open>path.iter().position(..).unwrap_or(0)\<close>\<close>

definition position_or_zero :: "'n \<Rightarrow> 'n list \<Rightarrow> nat" where
  "position_or_zero n path = (if n \<in> set path then length (takeWhile (\<lambda>m. m \<noteq> n) path) else 0)"

text \<open>
  The recursion of the source is bounded by the number of nodes; the first argument is that bound on
  the depth and \<^const>\<open>None\<close> is exceeding it. \<open>visit_each\<close> is the loop over the successors and the
  loop over all nodes.
\<close>

fun visit :: "nat \<Rightarrow> ('n, 'n list) btree \<Rightarrow> 'n \<Rightarrow> 'n dfs \<Rightarrow> ('n list option \<times> 'n dfs) option"
  and visit_each :: "nat \<Rightarrow> ('n, 'n list) btree \<Rightarrow> 'n list \<Rightarrow> 'n dfs \<Rightarrow> ('n list option \<times> 'n dfs) option"
where
  "visit 0 adj node s = None"
| "visit (Suc depth) adj node s =
     (if node \<in> dfs_active s
      then let start = position_or_zero node (dfs_path s) in
        Some (Some (drop start (dfs_path s) @ [node]), s)
      else if node \<in> dfs_visited s then Some (None, s)
      else let s = s\<lparr>dfs_visited := insert node (dfs_visited s),
                     dfs_active := insert node (dfs_active s),
                     dfs_path := dfs_path s @ [node]\<rparr> in
        (case visit_each depth adj (successors adj node) s of
           None \<Rightarrow> None
         | Some (Some cycle, s) \<Rightarrow> Some (Some cycle, s)
         | Some (None, s) \<Rightarrow>
             Some (None, s\<lparr>dfs_path := butlast (dfs_path s), dfs_active := dfs_active s - {node}\<rparr>)))"
| "visit_each depth adj [] s = Some (None, s)"
| "visit_each depth adj (node # nodes) s =
     (case visit depth adj node s of
        None \<Rightarrow> None
      | Some (Some cycle, s) \<Rightarrow> Some (Some cycle, s)
      | Some (None, s) \<Rightarrow> visit_each depth adj nodes s)"

definition dfs_new :: "'n dfs" where
  "dfs_new = \<lparr>dfs_visited = {}, dfs_active = {}, dfs_path = []\<rparr>"

text \<open>A closed walk along arcs that repeats no node but its end.\<close>

definition is_cycle :: "('n, 'n list) btree \<Rightarrow> 'n list \<Rightarrow> bool" where
  "is_cycle adj c \<longleftrightarrow>
     2 \<le> length c \<and> hd c = last c \<and> distinct (tl c) \<and> successively (\<lambda>m n. (m, n) \<in> arcs adj) c"

lemma successively_trancl:
  "successively (\<lambda>m n. (m, n) \<in> r) (x # xs) \<Longrightarrow> xs \<noteq> [] \<Longrightarrow> (x, last xs) \<in> r\<^sup>+"
proof (induction xs arbitrary: x)
  case (Cons y ys)
  then show ?case by (cases ys) (auto intro: trancl_into_trancl2)
qed simp

lemma is_cycle_not_acyclic: "is_cycle adj c \<Longrightarrow> \<not> acyclic (arcs adj)"
proof
  assume c: "is_cycle adj c" and a: "acyclic (arcs adj)"
  obtain x xs where xs: "c = x # xs" "xs \<noteq> []" using c by (cases c; cases "tl c") (auto simp: is_cycle_def)
  then have "(x, last xs) \<in> (arcs adj)\<^sup>+"
    using c successively_trancl [of "arcs adj" x xs] unfolding is_cycle_def by blast
  moreover have "last xs = x" using c xs by (simp add: is_cycle_def)
  ultimately show False using a by (simp add: acyclic_def)
qed

text \<open>Nodes that are finished: visited and no longer on the path.\<close>

definition black :: "'n dfs \<Rightarrow> 'n set" where
  "black s = dfs_visited s - dfs_active s"

definition black_arcs :: "('n, 'n list) btree \<Rightarrow> 'n dfs \<Rightarrow> ('n \<times> 'n) set" where
  "black_arcs adj s = {(m, n). m \<in> black s \<and> n \<in> set (successors adj m)}"

lemma acyclic_extend:
  assumes "acyclic r" "n \<notin> A" "r \<subseteq> A \<times> A" "B \<subseteq> A"
  shows "acyclic (r \<union> Pair n ` B)"
proof -
  have r: "y \<in> A \<and> (x = n \<or> (x, y) \<in> r\<^sup>+)" if "(x, y) \<in> (r \<union> Pair n ` B)\<^sup>+" for x y
    using that
  proof (induction rule: trancl_induct)
    case (base y)
    then show ?case using assms by blast
  next
    case (step y z)
    then have "(y, z) \<in> r" using assms by blast
    then show ?case using step assms by (blast intro: trancl_into_trancl)
  qed
  show ?thesis
    unfolding acyclic_def
  proof safe
    fix x assume "(x, x) \<in> (r \<union> Pair n ` B)\<^sup>+"
    then show False using r [of x x] assms(1,2) by (auto simp: acyclic_def)
  qed
qed

locale closed_digraph =
  fixes adj :: "('n::linorder, 'n list) btree" and N :: "'n set"
  assumes finite_nodes: "finite N"
    and successors_in: "set (successors adj n) \<subseteq> N"
begin

definition dfs_inv :: "'n dfs \<Rightarrow> bool" where
  "dfs_inv s \<longleftrightarrow>
     dfs_visited s \<subseteq> N \<and> dfs_active s = set (dfs_path s) \<and> dfs_active s \<subseteq> dfs_visited s
     \<and> distinct (dfs_path s) \<and> successively (\<lambda>m n. (m, n) \<in> arcs adj) (dfs_path s)
     \<and> black_arcs adj s \<subseteq> black s \<times> black s \<and> acyclic (black_arcs adj s)"

definition open_end :: "'n dfs \<Rightarrow> 'n set" where
  "open_end s = (if dfs_path s = [] then N else set (successors adj (last (dfs_path s))))"

definition outcome :: "'n dfs \<Rightarrow> 'n set \<Rightarrow> ('n list option \<times> 'n dfs) option \<Rightarrow> bool" where
  "outcome s finished r \<longleftrightarrow>
     (case r of None \<Rightarrow> False
      | Some (Some c, _) \<Rightarrow> is_cycle adj c
      | Some (None, s') \<Rightarrow> dfs_inv s' \<and> dfs_path s' = dfs_path s \<and> dfs_visited s \<subseteq> dfs_visited s'
          \<and> finished \<subseteq> black s')"

lemma open_end_in: "open_end s \<subseteq> N"
  using successors_in by (auto simp: open_end_def)

lemma outcome_cases:
  assumes "outcome s finished r"
  obtains c s' where "r = Some (Some c, s')" "is_cycle adj c"
  | s' where "r = Some (None, s')" "dfs_inv s'" "dfs_path s' = dfs_path s" "dfs_visited s \<subseteq> dfs_visited s'"
      "finished \<subseteq> black s'"
  using assms by (auto simp: outcome_def split: option.splits prod.splits)

lemma inv_active: "dfs_inv s \<Longrightarrow> dfs_inv s' \<Longrightarrow> dfs_path s' = dfs_path s \<Longrightarrow> dfs_active s' = dfs_active s"
  by (simp add: dfs_inv_def)

lemma black_mono:
  "dfs_inv s \<Longrightarrow> dfs_inv s' \<Longrightarrow> dfs_path s' = dfs_path s \<Longrightarrow> dfs_visited s \<subseteq> dfs_visited s' \<Longrightarrow> black s \<subseteq> black s'"
  using inv_active [of s s'] by (auto simp: black_def)

lemma visited_card_mono: "V \<subseteq> V' \<Longrightarrow> card (N - V') \<le> card (N - V)"
  using finite_nodes by (intro card_mono) auto

lemma cycle_found:
  assumes "dfs_inv s" "node \<in> dfs_active s" "node \<in> open_end s"
  shows "is_cycle adj (drop (position_or_zero node (dfs_path s)) (dfs_path s) @ [node])"
proof -
  let ?p = "dfs_path s"
  have n: "node \<in> set ?p" using assms(1,2) by (simp add: dfs_inv_def)
  then have "drop (position_or_zero node ?p) ?p = dropWhile (\<lambda>m. m \<noteq> node) ?p"
    by (simp add: position_or_zero_def dropWhile_eq_drop)
  also obtain q where q: "dropWhile (\<lambda>m. m \<noteq> node) ?p = node # q"
    using n by (metis (mono_tags, lifting) dropWhile_eq_Nil_conv hd_dropWhile list.exhaust_sel)
  finally have d: "drop (position_or_zero node ?p) ?p = node # q" .
  have p: "?p = takeWhile (\<lambda>m. m \<noteq> node) ?p @ node # q" using q takeWhile_dropWhile_id by metis
  have "distinct ?p" "successively (\<lambda>m n. (m, n) \<in> arcs adj) ?p" using assms(1) by (simp_all add: dfs_inv_def)
  with p have dq: "distinct (node # q)" and sq: "successively (\<lambda>m n. (m, n) \<in> arcs adj) (node # q)"
    by (metis distinct_append, metis successively_append_iff)
  have l: "last ?p = last (node # q)" using p by (metis last_appendR list.distinct(1))
  have "?p \<noteq> []" using p by auto
  then have "node \<in> set (successors adj (last (node # q)))" using assms(3) l by (simp add: open_end_def)
  then have "successively (\<lambda>m n. (m, n) \<in> arcs adj) ((node # q) @ [node])"
    unfolding successively_append_iff using sq by simp
  with dq show ?thesis
    unfolding d by (simp add: is_cycle_def)
qed

lemma enter_inv:
  assumes "dfs_inv s" "node \<in> open_end s" "node \<notin> dfs_visited s"
  shows "dfs_inv (s\<lparr>dfs_visited := insert node (dfs_visited s), dfs_active := insert node (dfs_active s),
    dfs_path := dfs_path s @ [node]\<rparr>)" (is "dfs_inv ?s")
proof -
  have b: "black ?s = black s" using assms(3) by (auto simp: black_def)
  then have ba: "black_arcs adj ?s = black_arcs adj s" by (simp add: black_arcs_def)
  have "node \<in> N" using assms(2) open_end_in by blast
  moreover have "successively (\<lambda>m n. (m, n) \<in> arcs adj) (dfs_path s @ [node])"
    using assms(1,2) by (auto simp: dfs_inv_def open_end_def successively_append_iff split: if_splits)
  ultimately show ?thesis using assms(1,3) unfolding dfs_inv_def b ba by auto
qed

lemma leave_inv:
  assumes inv: "dfs_inv s" and path: "dfs_path s = p @ [node]" and finished: "set (successors adj node) \<subseteq> black s"
  defines "s' \<equiv> s\<lparr>dfs_path := butlast (dfs_path s), dfs_active := dfs_active s - {node}\<rparr>"
  shows "dfs_inv s' \<and> dfs_path s' = p \<and> node \<in> black s' \<and> black s \<subseteq> black s'"
proof -
  have node: "node \<in> dfs_active s" "node \<notin> set p" "node \<in> dfs_visited s" "node \<notin> black s"
    using inv path by (auto simp: dfs_inv_def black_def)
  have b: "black s' = insert node (black s)" using node by (auto simp: s'_def black_def)
  then have ba: "black_arcs adj s' = black_arcs adj s \<union> Pair node ` set (successors adj node)"
    by (auto simp: black_arcs_def)
  have "acyclic (black_arcs adj s')"
    unfolding ba using inv node(4) finished by (intro acyclic_extend [of _ _ "black s"]) (auto simp: dfs_inv_def)
  moreover have "black_arcs adj s' \<subseteq> black s' \<times> black s'"
    using inv finished unfolding ba b dfs_inv_def by blast
  moreover have "dfs_active s' = set p" "dfs_path s' = p" "dfs_visited s' = dfs_visited s"
    using inv path node by (auto simp: s'_def dfs_inv_def)
  ultimately show ?thesis
    using inv path b by (auto simp: dfs_inv_def successively_append_iff)
qed

lemma visit_each_outcome:
  assumes "\<And>n s. dfs_inv s \<Longrightarrow> n \<in> open_end s \<Longrightarrow> card (N - dfs_visited s) < depth \<Longrightarrow>
      outcome s {n} (visit depth adj n s)"
    and "dfs_inv s" "set nodes \<subseteq> open_end s" "card (N - dfs_visited s) < depth"
  shows "outcome s (set nodes) (visit_each depth adj nodes s)"
  using assms(2-)
proof (induction nodes arbitrary: s)
  case Nil
  then show ?case by (simp add: outcome_def)
next
  case (Cons n nodes)
  have "outcome s {n} (visit depth adj n s)" using assms(1) Cons.prems by simp
  then show ?case
  proof (cases rule: outcome_cases)
    case (2 s')
    have "open_end s' = open_end s" using 2 by (simp add: open_end_def)
    moreover have "card (N - dfs_visited s') < depth"
      using visited_card_mono [OF 2(4)] Cons.prems(3) by simp
    ultimately have "outcome s' (set nodes) (visit_each depth adj nodes s')"
      using Cons 2 by simp
    then show ?thesis
    proof (cases rule: outcome_cases)
      case (2 t)
      have "n \<in> black t" using black_mono [of s' t] 2 \<open>dfs_inv s'\<close> \<open>{n} \<subseteq> black s'\<close> by auto
      with 2 \<open>visit depth adj n s = Some (None, s')\<close> \<open>dfs_path s' = dfs_path s\<close>
        \<open>dfs_visited s \<subseteq> dfs_visited s'\<close> show ?thesis by (auto simp: outcome_def)
    qed (use 2 in \<open>simp add: outcome_def\<close>)
  qed (simp add: outcome_def)
qed

lemma visit_outcome:
  "dfs_inv s \<Longrightarrow> n \<in> open_end s \<Longrightarrow> card (N - dfs_visited s) < depth \<Longrightarrow> outcome s {n} (visit depth adj n s)"
proof (induction depth arbitrary: n s)
  case (Suc depth)
  consider "n \<in> dfs_active s" | "n \<notin> dfs_active s" "n \<in> dfs_visited s" | "n \<notin> dfs_active s" "n \<notin> dfs_visited s"
    by blast
  then show ?case
  proof cases
    case 1
    then show ?thesis using cycle_found [OF Suc.prems(1) 1 Suc.prems(2)] by (simp add: outcome_def Let_def)
  next
    case 2
    then show ?thesis using Suc.prems by (simp add: outcome_def black_def)
  next
    case 3
    define s1 where "s1 = s\<lparr>dfs_visited := insert n (dfs_visited s), dfs_active := insert n (dfs_active s),
      dfs_path := dfs_path s @ [n]\<rparr>"
    have inv: "dfs_inv s1" using enter_inv Suc.prems 3 by (simp add: s1_def)
    have "N - dfs_visited s1 = N - dfs_visited s - {n}" by (auto simp: s1_def)
    moreover have "n \<in> N - dfs_visited s" using 3 Suc.prems(2) open_end_in by blast
    ultimately have "card (N - dfs_visited s1) < depth"
      using Suc.prems(3) finite_nodes card_Suc_Diff1 [of "N - dfs_visited s" n] by simp
    then have "outcome s1 (set (successors adj n)) (visit_each depth adj (successors adj n) s1)"
      using visit_each_outcome [OF Suc.IH inv, of "successors adj n"] by (simp add: s1_def open_end_def)
    then show ?thesis
    proof (cases rule: outcome_cases)
      case (2 t)
      have "dfs_path t = dfs_path s @ [n]" using 2(3) by (simp add: s1_def)
      note l = leave_inv [OF 2(2) this 2(5)]
      have "dfs_visited s \<subseteq> dfs_visited t" using 2(4) by (auto simp: s1_def)
      with l 2(1) 3 show ?thesis by (auto simp: outcome_def simp flip: s1_def)
    qed (use 3 in \<open>simp add: outcome_def flip: s1_def\<close>)
  qed
qed simp

lemma search_outcome:
  assumes "set nodes = N" "card N < depth"
  shows "outcome dfs_new N (visit_each depth adj nodes dfs_new)"
proof -
  have "dfs_inv dfs_new" by (simp add: dfs_inv_def dfs_new_def black_def black_arcs_def acyclic_def)
  with visit_each_outcome [OF visit_outcome, where s = dfs_new and nodes = nodes and depth = depth] assms show ?thesis
    by (simp add: dfs_new_def open_end_def)
qed

lemma search_finds_cycle:
  assumes "set nodes = N" "card N < depth" "bt_keys adj \<subseteq> N"
  obtains c s where "visit_each depth adj nodes dfs_new = Some (Some c, s)" "is_cycle adj c"
  | s where "visit_each depth adj nodes dfs_new = Some (None, s)" "acyclic (arcs adj)"
  using search_outcome [OF assms(1,2)]
proof (cases rule: outcome_cases)
  case (2 s)
  then have "arcs adj \<subseteq> black_arcs adj s" using assms(3) successors_key by (fastforce simp: black_arcs_def)
  then have "acyclic (arcs adj)" using 2 acyclic_subset by (auto simp: dfs_inv_def)
  with 2 that show ?thesis by blast
qed (use that in blast)

end

section \<open>Topological order\<close>

text \<open>The counting loop: arcs are stored once, and each new one counts towards its target.\<close>

fun count_dependencies ::
  "('n \<times> 'n) list \<Rightarrow> ('n::linorder, nat) btree \<Rightarrow> ('n, 'n list) btree \<Rightarrow> ('n, nat) btree \<times> ('n, 'n list) btree"
where
  "count_dependencies [] indegree outgoing = (indegree, outgoing)"
| "count_dependencies ((a, b) # edges) indegree outgoing =
     (if b \<in> set (successors outgoing a) then count_dependencies edges indegree outgoing
      else count_dependencies edges
        (bt_insert b (Suc (case map_of indegree b of None \<Rightarrow> 0 | Some d \<Rightarrow> d)) indegree)
        (bt_insert a (insort b (successors outgoing a)) outgoing))"

text \<open>The inner loop. A missing target and a degree that would fall below zero are panics.\<close>

fun release_targets ::
  "'n list \<Rightarrow> ('n::linorder, nat) btree \<Rightarrow> 'n list \<Rightarrow> (('n, nat) btree \<times> 'n list) option"
where
  "release_targets [] indegree ready = Some (indegree, ready)"
| "release_targets (target # targets) indegree ready =
     (case map_of indegree target of
        None \<Rightarrow> None
      | Some 0 \<Rightarrow> None
      | Some (Suc degree) \<Rightarrow>
          release_targets targets (bt_set target degree indegree)
            (if degree = 0 then insort_insert target ready else ready))"

definition open_work :: "('n, nat) btree \<Rightarrow> 'n list \<Rightarrow> nat" where
  "open_work indegree ready = sum_list (map snd indegree) + length ready"

lemma sum_bt_set: "map_of m k = Some (Suc d) \<Longrightarrow> Suc (sum_list (map snd (bt_set k d m))) = sum_list (map snd m)"
  by (induction k d m rule: bt_set.induct) (auto split: if_splits)

lemma release_targets_work:
  "release_targets ts ind ready = Some (ind', ready') \<Longrightarrow> open_work ind' ready' \<le> open_work ind ready"
proof (induction ts ind ready rule: release_targets.induct)
  case (2 t ts ind ready)
  then obtain d where d: "map_of ind t = Some (Suc d)"
    by (auto split: option.splits nat.splits)
  let ?ready = "if d = 0 then insort_insert t ready else ready"
  have "open_work ind' ready' \<le> open_work (bt_set t d ind) ?ready"
    using 2 d by simp
  also have "\<dots> \<le> open_work ind ready"
    using sum_bt_set [OF d] by (auto simp: open_work_def insort_insert_key_def)
  finally show ?case .
qed simp

text \<open>The outer loop: pop the least ready node, append it and release its targets.\<close>

function kahn ::
  "('n::linorder, 'n list) btree \<Rightarrow> ('n, nat) btree \<Rightarrow> 'n list \<Rightarrow> 'n list \<Rightarrow> 'n list option"
where
  "kahn outgoing indegree [] order = Some order"
| "kahn outgoing indegree (node # ready) order =
     (case release_targets (successors outgoing node) indegree ready of
        None \<Rightarrow> None
      | Some (indegree', ready') \<Rightarrow> kahn outgoing indegree' ready' (order @ [node]))"
  by pat_completeness auto
termination
  by (relation "measure (\<lambda>(outgoing, indegree, ready, order). open_work indegree ready)")
    (auto dest!: release_targets_work simp: open_work_def)

definition kahn_order :: "'n::linorder list \<Rightarrow> ('n \<times> 'n) list \<Rightarrow> 'n list option" where
  "kahn_order nodes edges =
     (let (indegree, outgoing) = count_dependencies edges (map (\<lambda>n. (n, 0)) nodes) [];
          ready = map fst (filter (\<lambda>(_, degree). degree = 0) indegree)
      in kahn outgoing indegree ready [])"

subsection \<open>Counting\<close>

definition counts :: "('n, nat) btree \<Rightarrow> ('n, 'n list) btree \<Rightarrow> bool" where
  "counts ind out \<longleftrightarrow>
     (\<forall>n. map_of ind n = Some (card (preds out n)) \<or> map_of ind n = None \<and> preds out n = {})"

lemma successors_bt_insert: "successors (bt_insert a ms out) m = (if m = a then ms else successors out m)"
  by (simp add: successors_def btree_simps)

lemma counts_insert:
  assumes "counts ind out" "b \<notin> set (successors out a)"
  shows "counts (bt_insert b (Suc (case map_of ind b of None \<Rightarrow> 0 | Some d \<Rightarrow> d)) ind)
    (bt_insert a (insort b (successors out a)) out)" (is "counts ?ind ?out")
proof -
  have p: "preds ?out n = (if n = b then insert a (preds out n) else preds out n)" for n
    by (auto simp: successors_bt_insert set_insort_key split: if_splits)
  have "a \<notin> preds out b" using assms(2) by simp
  moreover have "map_of ind n = Some (card (preds out n)) \<or> map_of ind n = None \<and> preds out n = {}" for n
    using assms(1) by (simp add: counts_def)
  then have "(case map_of ind n of None \<Rightarrow> 0 | Some d \<Rightarrow> d) = card (preds out n)" for n
    by (metis card.empty option.case)
  ultimately show ?thesis
    using assms(1) unfolding counts_def p map_of_bt_insert by simp
qed

lemma count_dependencies_spec:
  assumes "count_dependencies es ind out = (ind', out')" "counts ind out" "bt_sorted ind"
    and "\<And>m. distinct (successors out m)"
  shows "counts ind' out' \<and> bt_sorted ind' \<and> (\<forall>m. distinct (successors out' m))
    \<and> bt_keys ind \<subseteq> bt_keys ind' \<and> bt_keys ind' \<subseteq> bt_keys ind \<union> snd ` set es
    \<and> arcs out' = arcs out \<union> set es"
  using assms
proof (induction es ind out rule: count_dependencies.induct)
  case (2 a b es ind out)
  show ?case
  proof (cases "b \<in> set (successors out a)")
    case True
    with 2 show ?thesis by (auto simp: arcs_def)
  next
    case False
    let ?out = "bt_insert a (insort b (successors out a)) out"
    have d: "distinct (successors ?out m)" for m
      using 2(6) False by (simp add: successors_bt_insert distinct_insort)
    have arcs: "arcs ?out = insert (a, b) (arcs out)"
      by (auto simp: successors_bt_insert set_insort_key split: if_splits)
    show ?thesis
      using 2(2) [OF False] 2(3-5) False counts_insert [OF 2(4) False] d arcs
      by (auto simp: bt_keys_insert)
  qed
qed auto

subsection \<open>Taking the least available node\<close>

definition available :: "'n set \<Rightarrow> ('n, 'n list) btree \<Rightarrow> 'n set \<Rightarrow> 'n set" where
  "available K out D = {n \<in> K. n \<notin> D \<and> preds out n \<subseteq> D}"

text \<open>Each element is the least node whose dependencies all precede it.\<close>

definition greedy :: "'n::linorder set \<Rightarrow> ('n, 'n list) btree \<Rightarrow> 'n list \<Rightarrow> bool" where
  "greedy K out xs \<longleftrightarrow>
     (\<forall>i < length xs. xs ! i \<in> available K out (set (take i xs))
        \<and> (\<forall>n \<in> available K out (set (take i xs)). xs ! i \<le> n))"

lemma greedy_Nil [simp]: "greedy K out []"
  by (simp add: greedy_def)

lemma greedy_snoc:
  "greedy K out (xs @ [x]) \<longleftrightarrow>
     greedy K out xs \<and> x \<in> available K out (set xs) \<and> (\<forall>n \<in> available K out (set xs). x \<le> n)"
  by (auto simp: greedy_def nth_append less_Suc_eq)

lemma greedy_closed:
  assumes "greedy K out xs"
  shows "distinct xs \<and> set xs \<subseteq> K \<and> (\<forall>n \<in> set xs. preds out n \<subseteq> set xs)"
  using assms by (induction xs rule: rev_induct) (auto simp: greedy_snoc available_def)

lemma greedy_before:
  assumes "greedy K out xs" "(m, n) \<in> arcs out" "j < length xs" "xs ! j = n"
  shows "\<exists>i < j. xs ! i = m"
proof -
  have "preds out n \<subseteq> set (take j xs)" using assms(1,3,4) by (auto simp: greedy_def available_def)
  moreover have "m \<in> preds out n" using assms(2) by simp
  ultimately have "m \<in> set (take j xs)" ..
  then show ?thesis using assms(3) by (auto simp: in_set_conv_nth)
qed

lemma greedy_unique:
  assumes "greedy K out xs" "greedy K out ys" "length xs = length ys"
  shows "xs = ys"
  using assms
proof (induction xs arbitrary: ys rule: rev_induct)
  case (snoc x xs)
  then obtain y zs where "ys = zs @ [y]" by (cases ys rule: rev_cases) auto
  moreover from this snoc have "xs = zs" by (auto simp: greedy_snoc)
  ultimately show ?case using snoc.prems by (auto simp: greedy_snoc intro: order.antisym)
qed simp

lemma greedy_complete:
  assumes g: "greedy K out xs" and stuck: "available K out (set xs) = {}"
    and acyc: "acyclic (arcs out)" and within: "arcs out \<subseteq> K \<times> K"
  shows "set xs = K"
proof (rule ccontr)
  assume "set xs \<noteq> K"
  then obtain k where k: "k \<in> K - set xs" using greedy_closed [OF g] by blast
  have "wf (arcs out)" using finite_arcs acyc by (rule finite_acyclic_wf)
  with k obtain z where z: "z \<in> K - set xs" "\<And>y. (y, z) \<in> arcs out \<Longrightarrow> y \<notin> K - set xs"
    by (meson wfE_min)
  then have "y \<in> set xs" if "(y, z) \<in> arcs out" for y using within that by blast
  then have "preds out z \<subseteq> set xs" by auto
  with z(1) have "z \<in> available K out (set xs)" by (simp add: available_def)
  with stuck show False by simp
qed

definition degrees :: "'n set \<Rightarrow> ('n, 'n list) btree \<Rightarrow> 'n set \<Rightarrow> 'n set \<Rightarrow> 'n \<Rightarrow> nat option" where
  "degrees K out D ts n =
     (if n \<in> K then Some (card (preds out n - D) + (if n \<in> ts then 1 else 0)) else None)"

lemma release_targets_spec:
  assumes "map_of ind = degrees K out D (set ts)" "set ts \<subseteq> K" "distinct ts" "sorted ready" "distinct ready"
  shows "\<exists>ind' ready'. release_targets ts ind ready = Some (ind', ready')
    \<and> map_of ind' = degrees K out D {} \<and> sorted ready' \<and> distinct ready'
    \<and> set ready' = set ready \<union> {t \<in> set ts. preds out t \<subseteq> D}"
  using assms
proof (induction ts arbitrary: ind ready)
  case (Cons t ts)
  let ?d = "card (preds out t - D)"
  let ?ready = "if ?d = 0 then insort_insert t ready else ready"
  have t: "map_of ind t = Some (Suc ?d)" using Cons.prems by (simp add: degrees_def)
  have zero: "?d = 0 \<longleftrightarrow> preds out t \<subseteq> D" by auto
  have "map_of (bt_set t ?d ind) = degrees K out D (set ts)"
    using Cons.prems t by (auto simp: btree_simps degrees_def fun_eq_iff)
  moreover have "sorted ?ready" "distinct ?ready" "set ?ready = set ready \<union> (if preds out t \<subseteq> D then {t} else {})"
    using Cons.prems zero by (auto simp: sorted_insort_insert distinct_insort_insert set_insort_insert)
  ultimately obtain ind' ready' where
    "release_targets ts (bt_set t ?d ind) ?ready = Some (ind', ready')"
    "map_of ind' = degrees K out D {}" "sorted ready'" "distinct ready'"
    "set ready' = set ready \<union> (if preds out t \<subseteq> D then {t} else {}) \<union> {t \<in> set ts. preds out t \<subseteq> D}"
    using Cons.IH [of "bt_set t ?d ind" ?ready] Cons.prems(2,3) by auto
  then show ?case using t by auto
qed simp

lemma available_step:
  assumes g: "greedy K out order" and n: "node \<in> available K out (set order)"
    and targets: "set (successors out node) \<subseteq> K"
  shows "available K out (insert node (set order)) =
    (available K out (set order) - {node})
    \<union> {t \<in> set (successors out node). preds out t \<subseteq> insert node (set order)}"
proof -
  have "t \<notin> set order" "t \<noteq> node" if "t \<in> set (successors out node)" for t
  proof -
    have "node \<in> preds out t" using that by simp
    then show "t \<notin> set order" "t \<noteq> node"
      using greedy_closed [OF g] n unfolding available_def by blast+
  qed
  then show ?thesis using targets n by (auto simp: available_def)
qed

lemma degrees_step:
  assumes "node \<notin> D"
  shows "degrees K out D {} = degrees K out (insert node D) (set (successors out node))"
proof -
  have "card (preds out n - D) = card (preds out n - insert node D) + (if n \<in> set (successors out node) then 1 else 0)" for n
  proof (cases "n \<in> set (successors out node)")
    case True
    then have "preds out n - insert node D = (preds out n - D) - {node}" "node \<in> preds out n - D"
      using assms by auto
    then show ?thesis using True card_Suc_Diff1 [of "preds out n - D" node] by simp
  next
    case False
    then have "preds out n - insert node D = preds out n - D" by auto
    then show ?thesis using False by simp
  qed
  then show ?thesis by (simp add: degrees_def fun_eq_iff)
qed

lemma kahn_spec:
  assumes "greedy K out order" "map_of ind = degrees K out (set order) {}"
    and "sorted ready" "distinct ready" "set ready = available K out (set order)"
    and "\<And>m. set (successors out m) \<subseteq> K" "\<And>m. distinct (successors out m)"
  shows "\<exists>xs. kahn out ind ready order = Some xs \<and> greedy K out xs \<and> available K out (set xs) = {}"
  using assms
proof (induction out ind ready order rule: kahn.induct)
  case (2 out ind node ready order)
  let ?D = "insert node (set order)"
  have node: "node \<in> available K out (set order)" using 2(6) by auto
  then have "node \<notin> set order" by (simp add: available_def)
  with 2(3) degrees_step have "map_of ind = degrees K out ?D (set (successors out node))" by metis
  with 2(4,5,7,8) obtain ind' ready' where r:
    "release_targets (successors out node) ind ready = Some (ind', ready')"
    "map_of ind' = degrees K out ?D {}" "sorted ready'" "distinct ready'"
    "set ready' = set ready \<union> {t \<in> set (successors out node). preds out t \<subseteq> ?D}"
    using release_targets_spec [of ind K out ?D "successors out node" ready] by auto
  have "set ready = available K out (set order) - {node}" using 2(5,6) by auto
  then have "set ready' = available K out ?D"
    using available_step [OF 2(2) node 2(7)] r(5) by simp
  moreover have "greedy K out (order @ [node])"
    using 2(2,4,6) node by (auto simp: greedy_snoc)
  ultimately show ?case using 2(1) [of "(ind', ready')" ind' ready'] r 2(7,8) by simp
qed simp

lemma kahn_order_spec:
  assumes "sorted_wrt (<) nodes"
  shows "\<exists>K out xs. kahn_order nodes edges = Some xs \<and> arcs out = set edges
    \<and> K = set nodes \<union> snd ` set edges \<and> greedy K out xs \<and> available K out (set xs) = {}"
proof -
  let ?ind0 = "map (\<lambda>n. (n, 0::nat)) nodes"
  obtain ind out where c: "count_dependencies edges ?ind0 [] = (ind, out)" by fastforce
  have k0: "map_of ?ind0 n = (if n \<in> set nodes then Some 0 else None)" for n
    by (induction nodes) auto
  have "counts ?ind0 []"
    by (simp add: counts_def k0 preds_def successors_def)
  moreover have "bt_sorted ?ind0" using assms by (simp add: bt_sorted_def comp_def)
  ultimately have s: "counts ind out" "bt_sorted ind" "\<And>m. distinct (successors out m)"
    "set nodes \<subseteq> bt_keys ind" "bt_keys ind \<subseteq> set nodes \<union> snd ` set edges" "arcs out = set edges"
    using count_dependencies_spec [OF c] by (auto simp: successors_def arcs_def image_image)
  have targets: "set (successors out m) \<subseteq> bt_keys ind" for m
  proof
    fix n assume "n \<in> set (successors out m)"
    then have "preds out n \<noteq> {}" by auto
    then have "map_of ind n \<noteq> None" using s(1) by (auto simp: counts_def)
    then show "n \<in> bt_keys ind" by (simp add: bt_key_iff)
  qed
  have K: "bt_keys ind = set nodes \<union> snd ` set edges"
  proof
    have "n \<in> bt_keys ind" if "(m, n) \<in> set edges" for m n
    proof -
      have "(m, n) \<in> arcs out" using that s(6) by (simp only:)
      then show ?thesis using targets [of m] by auto
    qed
    then show "set nodes \<union> snd ` set edges \<subseteq> bt_keys ind" using s(4) by auto
  qed (rule s(5))
  let ?ready = "map fst (filter (\<lambda>(_, degree). degree = 0) ind)"
  have ind: "map_of ind = degrees (bt_keys ind) out {} {}"
  proof
    fix n
    have "map_of ind n = None \<longleftrightarrow> n \<notin> bt_keys ind" by (simp add: map_of_eq_None_iff)
    then show "map_of ind n = degrees (bt_keys ind) out {} {} n"
      using s(1) by (auto simp: degrees_def counts_def)
  qed
  have "n \<in> set ?ready \<longleftrightarrow> map_of ind n = Some 0" for n
    using bt_mem_iff [OF s(2), of n 0] by (auto simp: image_iff Bex_def)
  moreover have "map_of ind n = Some 0 \<longleftrightarrow> n \<in> available (bt_keys ind) out {}" for n
    using fun_cong [OF ind, of n] by (simp add: degrees_def available_def)
  ultimately have "set ?ready = available (bt_keys ind) out {}" by blast
  moreover have "bt_sorted (filter (\<lambda>(_, degree). degree = 0) ind)" using s(2) by simp
  then have "sorted ?ready" "distinct ?ready"
    by (simp_all add: bt_sorted_distinct bt_sorted_def strict_sorted_iff)
  ultimately obtain xs where "kahn out ind ?ready [] = Some xs" "greedy (bt_keys ind) out xs"
    "available (bt_keys ind) out (set xs) = {}"
    using kahn_spec [of "bt_keys ind" out "[]" ind ?ready] ind targets s(3) by auto
  then show ?thesis using c K s(6) by (auto simp: kahn_order_def)
qed

end
