(* ===== verification/Capabilities.thy ===== *)
theory Capabilities
  imports Media_Types BTree "HOL-Library.List_Lexorder"
begin

text \<open>
  The crate \<open>crates/foundation/fm-capabilities\<close>: stable identifiers (\<open>key.rs\<close>), typed limit values
  (\<open>value.rs\<close>), capability descriptors (\<open>descriptor.rs\<close>), the matching of project requirements against
  a registry (\<open>matching.rs\<close>) and the registry itself (\<open>registry.rs\<close>). Strings are compared by their
  scalar values, which is the order of their UTF-8 bytes.
\<close>

section \<open>Keys\<close>

type_synonym stable_id = ustr
type_synonym capability_key = ustr

datatype invalid_key =
    KeyEmpty
  | NotHierarchical
  | EmptySegment usize
  | InvalidSegmentStart usize nat
  | KeyInvalidCharacter usize nat

text \<open>\<open>str::split('.')\<close>, which yields one segment more than there are dots.\<close>

fun split_dots :: "ustr \<Rightarrow> ustr list" where
  "split_dots [] = [[]]"
| "split_dots (c # s) =
     (if c = 46 then [] # split_dots s
      else case split_dots s of seg # segs \<Rightarrow> (c # seg) # segs | [] \<Rightarrow> [[c]])"

definition segment_character :: "nat \<Rightarrow> bool" where
  "segment_character c \<longleftrightarrow> is_ascii_lowercase c \<or> is_ascii_digit c \<or> c = 95 \<or> c = 45"

fun validate_segments :: "usize \<Rightarrow> ustr list \<Rightarrow> invalid_key + unit" where
  "validate_segments index [] = Inr ()"
| "validate_segments index ([] # segments) = Inl (EmptySegment index)"
| "validate_segments index ((first # chars) # segments) =
     (if \<not> is_ascii_lowercase first then Inl (InvalidSegmentStart index first)
      else case find (\<lambda>c. \<not> segment_character c) chars of
          Some found \<Rightarrow> Inl (KeyInvalidCharacter index found)
        | None \<Rightarrow> validate_segments (Suc index) segments)"

definition validate_key :: "ustr \<Rightarrow> bool \<Rightarrow> invalid_key + unit" where
  "validate_key v hierarchical =
     (if v = [] then Inl KeyEmpty
      else if hierarchical \<and> 46 \<notin> set v then Inl NotHierarchical
      else validate_segments 0 (split_dots v))"

definition stable_id_new :: "ustr \<Rightarrow> invalid_key + stable_id" where
  "stable_id_new v = and_then (validate_key v False) (\<lambda>_. Inr v)"

definition capability_key_new :: "ustr \<Rightarrow> invalid_key + capability_key" where
  "capability_key_new v = and_then (validate_key v True) (\<lambda>_. Inr v)"

section \<open>Limit values\<close>

datatype limit_value =
    LBoolean bool
  | LSigned i64
  | LUnsigned u64
  | LQuantity i64 stable_id

datatype value_kind = KBoolean | KSigned | KUnsigned | KQuantity

fun limit_kind :: "limit_value \<Rightarrow> value_kind" where
  "limit_kind (LBoolean _) = KBoolean"
| "limit_kind (LSigned _) = KSigned"
| "limit_kind (LUnsigned _) = KUnsigned"
| "limit_kind (LQuantity _ _) = KQuantity"

datatype ordering = Less | Equal | Greater

definition cmp :: "'a::linorder \<Rightarrow> 'a \<Rightarrow> ordering" where
  "cmp a b = (if a < b then Less else if a = b then Equal else Greater)"

fun typed_cmp :: "limit_value \<Rightarrow> limit_value \<Rightarrow> ordering option" where
  "typed_cmp (LBoolean left) (LBoolean right) = Some (cmp left right)"
| "typed_cmp (LSigned left) (LSigned right) = Some (cmp (sint left) (sint right))"
| "typed_cmp (LUnsigned left) (LUnsigned right) = Some (cmp left right)"
| "typed_cmp (LQuantity left left_unit) (LQuantity right right_unit) =
     (if left_unit = right_unit then Some (cmp (sint left) (sint right)) else None)"
| "typed_cmp _ _ = None"

datatype limit_comparison = AtLeast | AtMost | EqualTo

record limit_constraint =
  lc_comparison :: limit_comparison
  lc_value :: limit_value

definition constraint_matches :: "limit_constraint \<Rightarrow> limit_value \<Rightarrow> bool option" where
  "constraint_matches c actual =
     (case typed_cmp actual (lc_value c) of
        None \<Rightarrow> None
      | Some r \<Rightarrow> Some (case lc_comparison c of
            AtLeast \<Rightarrow> r \<noteq> Less
          | AtMost \<Rightarrow> r \<noteq> Greater
          | EqualTo \<Rightarrow> r = Equal))"

section \<open>Descriptors\<close>

definition provider_version_new :: "ustr \<Rightarrow> ustr option" where
  "provider_version_new v = (if str_trim v = [] then None else Some v)"

record provider =
  pv_id :: stable_id
  pv_version :: ustr

datatype health = Healthy | Degraded ustr | Unhealthy ustr

fun is_usable :: "health \<Rightarrow> bool" where
  "is_usable (Unhealthy _) = False"
| "is_usable _ = True"

fun is_healthy :: "health \<Rightarrow> bool" where
  "is_healthy Healthy = True"
| "is_healthy _ = False"

datatype health_requirement = RequireUsable | RequireHealthy

fun health_matches :: "health_requirement \<Rightarrow> health \<Rightarrow> bool" where
  "health_matches RequireUsable h = is_usable h"
| "health_matches RequireHealthy h = is_healthy h"

datatype format_value = FBoolean bool | FSigned i64 | FUnsigned u64 | FText ustr

record format_descriptor =
  fd_kind :: stable_id
  fd_fields :: "(stable_id, format_value) btree"

definition format_descriptor_new :: "stable_id \<Rightarrow> format_descriptor" where
  "format_descriptor_new kind = \<lparr>fd_kind = kind, fd_fields = []\<rparr>"

definition with_field :: "stable_id \<Rightarrow> format_value \<Rightarrow> format_descriptor \<Rightarrow> format_descriptor" where
  "with_field name v d = d\<lparr>fd_fields := bt_insert name v (fd_fields d)\<rparr>"

definition format_supports :: "format_descriptor \<Rightarrow> format_descriptor \<Rightarrow> bool" where
  "format_supports d required \<longleftrightarrow>
     fd_kind d = fd_kind required
     \<and> list_all (\<lambda>(name, v). map_of (fd_fields d) name = Some v) (fd_fields required)"

record latency_mode =
  lm_id :: stable_id
  lm_nominal_microseconds :: "u64 option"
  lm_maximum_microseconds :: "u64 option"

datatype exclusivity_mode = Shared | Exclusive | Configurable

definition mode_supports :: "exclusivity_mode \<Rightarrow> exclusivity_mode \<Rightarrow> bool" where
  "mode_supports m required \<longleftrightarrow> m = required \<or> m = Configurable"

record exclusivity =
  ex_mode :: exclusivity_mode
  ex_scope :: "stable_id option"

record capability =
  cap_key :: capability_key
  cap_provider :: provider
  cap_health :: health
  cap_limits :: "(stable_id, limit_value) btree"
  cap_formats :: "format_descriptor list"
  cap_memory_domains :: "stable_id set"
  cap_latency_modes :: "latency_mode list"
  cap_exclusivity :: exclusivity

definition capability_new :: "capability_key \<Rightarrow> provider \<Rightarrow> capability" where
  "capability_new key p =
     \<lparr>cap_key = key, cap_provider = p, cap_health = Healthy, cap_limits = [], cap_formats = [],
      cap_memory_domains = {}, cap_latency_modes = [],
      cap_exclusivity = \<lparr>ex_mode = Shared, ex_scope = None\<rparr>\<rparr>"

section \<open>The registry\<close>

type_synonym capability_registry = "(capability_key, capability) btree"

record duplicate_capability =
  dc_key :: capability_key
  dc_registered_provider :: provider
  dc_rejected_provider :: provider

definition register :: "capability \<Rightarrow> (duplicate_capability, unit, capability_registry) meth" where
  "register c reg =
     (case map_of reg (cap_key c) of
        Some existing \<Rightarrow>
          (Inl \<lparr>dc_key = cap_key c, dc_registered_provider = cap_provider existing,
                dc_rejected_provider = cap_provider c\<rparr>, reg)
      | None \<Rightarrow> (Inr (), bt_insert (cap_key c) c reg))"

section \<open>Matching\<close>

record provider_requirement =
  rq_provider_id :: "stable_id option"
  rq_provider_version :: "ustr option"

record capability_requirement =
  rq_key :: capability_key
  rq_health :: health_requirement
  rq_provider :: provider_requirement
  rq_limits :: "(stable_id, limit_constraint) btree"
  rq_formats :: "format_descriptor list"
  rq_memory_domains :: "stable_id set"
  rq_latency_modes :: "stable_id set"
  rq_exclusivity :: "exclusivity_mode option"

definition capability_requirement_new :: "capability_key \<Rightarrow> capability_requirement" where
  "capability_requirement_new key =
     \<lparr>rq_key = key, rq_health = RequireUsable,
      rq_provider = \<lparr>rq_provider_id = None, rq_provider_version = None\<rparr>, rq_limits = [],
      rq_formats = [], rq_memory_domains = {}, rq_latency_modes = {}, rq_exclusivity = None\<rparr>"

datatype limit_mismatch_kind = LimitMissing | Unsatisfied | Incomparable value_kind value_kind

record limit_mismatch =
  lx_name :: stable_id
  lx_required :: limit_constraint
  lx_actual :: "limit_value option"
  lx_kind :: limit_mismatch_kind

datatype compatibility_issue =
    MissingCapability
  | UnhealthyIssue health_requirement health
  | ProviderMismatch provider_requirement stable_id ustr
  | LimitMismatch limit_mismatch
  | FormatMismatch format_descriptor "format_descriptor list"
  | MemoryDomainMismatch "stable_id set" "stable_id set"
  | LatencyMismatch "stable_id set" "stable_id set"
  | ExclusivityMismatch exclusivity_mode exclusivity_mode

record requirement_report =
  rr_key :: capability_key
  rr_issues :: "compatibility_issue list"

text \<open>One round of the loop over the required limits.\<close>

definition limit_mismatch_of :: "capability \<Rightarrow> stable_id \<times> limit_constraint \<Rightarrow> limit_mismatch option" where
  "limit_mismatch_of c = (\<lambda>(name, required).
     (case map_of (cap_limits c) name of
        None \<Rightarrow> Some \<lparr>lx_name = name, lx_required = required, lx_actual = None, lx_kind = LimitMissing\<rparr>
      | Some actual \<Rightarrow>
          (case constraint_matches required actual of
             Some True \<Rightarrow> None
           | Some False \<Rightarrow>
               Some \<lparr>lx_name = name, lx_required = required, lx_actual = Some actual, lx_kind = Unsatisfied\<rparr>
           | None \<Rightarrow>
               Some \<lparr>lx_name = name, lx_required = required, lx_actual = Some actual,
                     lx_kind = Incomparable (limit_kind (lc_value required)) (limit_kind actual)\<rparr>)))"

definition append_limit_issues ::
  "capability \<Rightarrow> capability_requirement \<Rightarrow> compatibility_issue list \<Rightarrow> compatibility_issue list" where
  "append_limit_issues c rq issues =
     issues @ map LimitMismatch (List.map_filter (limit_mismatch_of c) (rq_limits rq))"

definition append_format_issues ::
  "capability \<Rightarrow> capability_requirement \<Rightarrow> compatibility_issue list \<Rightarrow> compatibility_issue list" where
  "append_format_issues c rq issues =
     issues @ map (\<lambda>required. FormatMismatch required (cap_formats c))
       (filter (\<lambda>required. \<not> list_ex (\<lambda>supported. format_supports supported required) (cap_formats c))
         (rq_formats rq))"

definition append_resource_issues ::
  "capability \<Rightarrow> capability_requirement \<Rightarrow> compatibility_issue list \<Rightarrow> compatibility_issue list" where
  "append_resource_issues c rq issues =
     issues
     @ (let missing = rq_memory_domains rq - cap_memory_domains c in
        if missing \<noteq> {} then [MemoryDomainMismatch missing (cap_memory_domains c)] else [])
     @ (if rq_latency_modes rq \<noteq> {}
        then let supported = set (map lm_id (cap_latency_modes c)) in
          if rq_latency_modes rq \<inter> supported = {}
          then [LatencyMismatch (rq_latency_modes rq) supported] else []
        else [])
     @ (case rq_exclusivity rq of
          Some required \<Rightarrow>
            if \<not> mode_supports (ex_mode (cap_exclusivity c)) required
            then [ExclusivityMismatch required (ex_mode (cap_exclusivity c))] else []
        | None \<Rightarrow> [])"

definition requirement_evaluate :: "capability_registry \<Rightarrow> capability_requirement \<Rightarrow> requirement_report" where
  "requirement_evaluate reg rq =
     (case map_of reg (rq_key rq) of
        None \<Rightarrow> \<lparr>rr_key = rq_key rq, rr_issues = [MissingCapability]\<rparr>
      | Some c \<Rightarrow>
          let issues = (if \<not> health_matches (rq_health rq) (cap_health c)
                        then [UnhealthyIssue (rq_health rq) (cap_health c)] else []);
              issues = issues @
                (if is_some_and (rq_provider_id (rq_provider rq)) (\<lambda>i. i \<noteq> pv_id (cap_provider c))
                    \<or> is_some_and (rq_provider_version (rq_provider rq)) (\<lambda>v. v \<noteq> pv_version (cap_provider c))
                 then [ProviderMismatch (rq_provider rq) (pv_id (cap_provider c)) (pv_version (cap_provider c))]
                 else []);
              issues = append_limit_issues c rq issues;
              issues = append_format_issues c rq issues;
              issues = append_resource_issues c rq issues
          in \<lparr>rr_key = rq_key rq, rr_issues = issues\<rparr>)"

definition is_met :: "requirement_report \<Rightarrow> bool" where
  "is_met r \<longleftrightarrow> rr_issues r = []"

type_synonym compatibility_report = "requirement_report list"

definition compatibility_evaluate ::
  "capability_registry \<Rightarrow> capability_requirement list \<Rightarrow> compatibility_report" where
  "compatibility_evaluate reg requirements = map (requirement_evaluate reg) requirements"

definition is_compatible :: "compatibility_report \<Rightarrow> bool" where
  "is_compatible r \<longleftrightarrow> list_all is_met r"

definition report_issues :: "compatibility_report \<Rightarrow> compatibility_issue list" where
  "report_issues r = concat (map rr_issues r)"

section \<open>Keys are dot-separated segments\<close>

definition well_formed_segment :: "ustr \<Rightarrow> bool" where
  "well_formed_segment seg \<longleftrightarrow>
     (case seg of [] \<Rightarrow> False | c # cs \<Rightarrow> is_ascii_lowercase c \<and> list_all segment_character cs)"

fun join_dots :: "ustr list \<Rightarrow> ustr" where
  "join_dots [] = []"
| "join_dots [seg] = seg"
| "join_dots (seg # segs) = seg @ 46 # join_dots segs"

lemma split_dots_neq_Nil [simp]: "split_dots s \<noteq> []"
  by (induction s) (auto split: list.splits)

lemma join_dots_Cons: "segs \<noteq> [] \<Longrightarrow> join_dots (seg # segs) = seg @ 46 # join_dots segs"
  by (cases segs) auto

lemma join_dots_cons_char: "join_dots ((c # seg) # segs) = c # join_dots (seg # segs)"
  by (cases segs) auto

lemma join_split_dots [simp]: "join_dots (split_dots s) = s"
  by (induction s) (auto simp: join_dots_Cons join_dots_cons_char split: list.splits)

lemma split_dots_append: "46 \<notin> set a \<Longrightarrow> split_dots (a @ 46 # s) = a # split_dots s"
  by (induction a) auto

lemma split_dots_plain: "46 \<notin> set a \<Longrightarrow> split_dots a = [a]"
  by (induction a) auto

lemma split_join_dots: "segs \<noteq> [] \<Longrightarrow> list_all (\<lambda>seg. 46 \<notin> set seg) segs \<Longrightarrow> split_dots (join_dots segs) = segs"
  by (induction segs rule: join_dots.induct) (auto simp: split_dots_append split_dots_plain)

lemma length_split_dots: "length (split_dots s) = Suc (count_list s 46)"
  by (induction s) (auto split: list.splits)

lemma well_formed_segment_no_dot: "well_formed_segment seg \<Longrightarrow> 46 \<notin> set seg"
  by (auto simp: well_formed_segment_def list_all_iff segment_character_def is_ascii_lowercase_def
      is_ascii_digit_def split: list.splits)

lemma validate_segments_iff: "validate_segments i segs = Inr u \<longleftrightarrow> list_all well_formed_segment segs"
  by (induction i segs rule: validate_segments.induct)
    (auto simp: well_formed_segment_def list_all_iff find_None_iff find_Some_iff split: option.splits)

lemma split_well_formed_iff:
  assumes "1 \<le> n"
  shows "list_all well_formed_segment (split_dots v) \<and> n \<le> length (split_dots v)
   \<longleftrightarrow> (\<exists>segs. n \<le> length segs \<and> list_all well_formed_segment segs \<and> v = join_dots segs)"
proof
  assume "\<exists>segs. n \<le> length segs \<and> list_all well_formed_segment segs \<and> v = join_dots segs"
  then obtain segs where s: "n \<le> length segs" "list_all well_formed_segment segs" "v = join_dots segs"
    by blast
  then have "split_dots v = segs" using assms
    by (simp add: split_join_dots list_all_iff well_formed_segment_no_dot flip: length_0_conv)
  with s show "list_all well_formed_segment (split_dots v) \<and> n \<le> length (split_dots v)" by simp
qed (metis join_split_dots)

lemma validate_key_iff:
  "validate_key v h = Inr u \<longleftrightarrow>
     list_all well_formed_segment (split_dots v) \<and> (if h then 2 else 1) \<le> length (split_dots v)"
proof (cases v)
  case Nil
  then show ?thesis by (simp add: validate_key_def well_formed_segment_def)
next
  case (Cons c s)
  have "46 \<in> set v \<longleftrightarrow> 1 \<le> count_list v 46"
    by (metis One_nat_def Suc_leI count_list_0_iff gr0I not_one_le_zero)
  then have "46 \<in> set v \<longleftrightarrow> 2 \<le> length (split_dots v)" "1 \<le> length (split_dots v)"
    by (simp_all add: length_split_dots)
  moreover have "v \<noteq> []" using Cons by simp
  ultimately show ?thesis by (auto simp: validate_key_def validate_segments_iff)
qed

text \<open>an identifier is accepted, unchanged, exactly if it is a dot-separated sequence of segments, each a
  lowercase letter followed by lowercase letters, digits, underscores and hyphens; a capability key
  is accepted exactly if it has at least two such segments.
\<close>
theorem key_grammar:
  "(stable_id_new v = Inr w \<longleftrightarrow>
      w = v \<and> (\<exists>segs. 1 \<le> length segs \<and> list_all well_formed_segment segs \<and> v = join_dots segs))
   \<and> (capability_key_new v = Inr w \<longleftrightarrow>
      w = v \<and> (\<exists>segs. 2 \<le> length segs \<and> list_all well_formed_segment segs \<and> v = join_dots segs))"
  using split_well_formed_iff [of 1 v] split_well_formed_iff [of 2 v]
  by (auto simp: stable_id_new_def capability_key_new_def result_simps validate_key_iff)

section \<open>Matching is satisfaction\<close>

text \<open>The order of limit values: values of one type, and quantities of one unit, are comparable.\<close>

fun limit_le :: "limit_value \<Rightarrow> limit_value \<Rightarrow> bool" where
  "limit_le (LBoolean a) (LBoolean b) \<longleftrightarrow> (a \<longrightarrow> b)"
| "limit_le (LSigned a) (LSigned b) \<longleftrightarrow> sint a \<le> sint b"
| "limit_le (LUnsigned a) (LUnsigned b) \<longleftrightarrow> unat a \<le> unat b"
| "limit_le (LQuantity a u) (LQuantity b v) \<longleftrightarrow> u = v \<and> sint a \<le> sint b"
| "limit_le _ _ \<longleftrightarrow> False"

definition limit_satisfied :: "limit_constraint \<Rightarrow> limit_value \<Rightarrow> bool" where
  "limit_satisfied c actual \<longleftrightarrow>
     (case lc_comparison c of
        AtLeast \<Rightarrow> limit_le (lc_value c) actual
      | AtMost \<Rightarrow> limit_le actual (lc_value c)
      | EqualTo \<Rightarrow> actual = lc_value c)"

definition covers :: "format_descriptor \<Rightarrow> format_descriptor \<Rightarrow> bool" where
  "covers d required \<longleftrightarrow>
     fd_kind d = fd_kind required \<and> map_of (fd_fields required) \<subseteq>\<^sub>m map_of (fd_fields d)"

text \<open>What a capability has to offer to satisfy a requirement.\<close>

definition satisfies :: "capability \<Rightarrow> capability_requirement \<Rightarrow> bool" where
  "satisfies c rq \<longleftrightarrow>
     (if rq_health rq = RequireHealthy then cap_health c = Healthy else \<forall>reason. cap_health c \<noteq> Unhealthy reason)
     \<and> rq_provider_id (rq_provider rq) \<in> {None, Some (pv_id (cap_provider c))}
     \<and> rq_provider_version (rq_provider rq) \<in> {None, Some (pv_version (cap_provider c))}
     \<and> (\<forall>name con. map_of (rq_limits rq) name = Some con \<longrightarrow>
          (\<exists>actual. map_of (cap_limits c) name = Some actual \<and> limit_satisfied con actual))
     \<and> (\<forall>f \<in> set (rq_formats rq). \<exists>d \<in> set (cap_formats c). covers d f)
     \<and> rq_memory_domains rq \<subseteq> cap_memory_domains c
     \<and> (rq_latency_modes rq = {} \<or> (\<exists>m \<in> set (cap_latency_modes c). lm_id m \<in> rq_latency_modes rq))
     \<and> (\<forall>mode. rq_exclusivity rq = Some mode \<longrightarrow> ex_mode (cap_exclusivity c) \<in> {mode, Configurable})"

text \<open>Requirements and descriptors hold ordered maps.\<close>

definition requirement_ok :: "capability_requirement \<Rightarrow> bool" where
  "requirement_ok rq \<longleftrightarrow>
     bt_sorted (rq_limits rq) \<and> list_all (\<lambda>f. bt_sorted (fd_fields f)) (rq_formats rq)"

lemma constraint_matches_iff: "constraint_matches con actual = Some True \<longleftrightarrow> limit_satisfied con actual"
proof (cases con)
  case (fields comparison required)
  show ?thesis
    by (cases "(actual, required)" rule: typed_cmp.cases; cases comparison)
      (auto simp: fields constraint_matches_def limit_satisfied_def cmp_def word_less_unat
        intro: signed_word_eqI word_eq_unatI)
qed

lemma limit_mismatch_None:
  "limit_mismatch_of c (name, con) = None \<longleftrightarrow>
     (\<exists>actual. map_of (cap_limits c) name = Some actual \<and> limit_satisfied con actual)"
  by (auto simp: limit_mismatch_of_def simp flip: constraint_matches_iff split: option.splits bool.splits)

lemma format_supports_covers: "bt_sorted (fd_fields f) \<Longrightarrow> format_supports d f \<longleftrightarrow> covers d f"
  unfolding format_supports_def covers_def list_all_iff by (auto simp: bt_ball map_le_def dom_def)

lemma limit_issues_Nil:
  "requirement_ok rq \<Longrightarrow> append_limit_issues c rq issues = [] \<longleftrightarrow> issues = [] \<and>
     (\<forall>name con. map_of (rq_limits rq) name = Some con \<longrightarrow>
        (\<exists>actual. map_of (cap_limits c) name = Some actual \<and> limit_satisfied con actual))"
  unfolding append_limit_issues_def requirement_ok_def
  by (simp add: map_filter_Nil bt_ball limit_mismatch_None)

lemma format_issues_Nil:
  "requirement_ok rq \<Longrightarrow> append_format_issues c rq issues = [] \<longleftrightarrow> issues = [] \<and>
     (\<forall>f \<in> set (rq_formats rq). \<exists>d \<in> set (cap_formats c). covers d f)"
  by (auto simp: append_format_issues_def filter_empty_conv list_ex_iff list_all_iff requirement_ok_def
      format_supports_covers)

lemma resource_issues_Nil:
  "append_resource_issues c rq issues = [] \<longleftrightarrow> issues = [] \<and>
     rq_memory_domains rq \<subseteq> cap_memory_domains c
     \<and> (rq_latency_modes rq = {} \<or> (\<exists>m \<in> set (cap_latency_modes c). lm_id m \<in> rq_latency_modes rq))
     \<and> (\<forall>mode. rq_exclusivity rq = Some mode \<longrightarrow> ex_mode (cap_exclusivity c) \<in> {mode, Configurable})"
  by (auto simp: append_resource_issues_def Let_def mode_supports_def split: option.splits)

lemma health_matches_iff:
  "health_matches r h \<longleftrightarrow> (if r = RequireHealthy then h = Healthy else \<forall>reason. h \<noteq> Unhealthy reason)"
  by (cases r; cases h) auto

lemma is_met_iff:
  "requirement_ok rq \<Longrightarrow> is_met (requirement_evaluate reg rq) \<longleftrightarrow>
     (\<exists>c. map_of reg (rq_key rq) = Some c \<and> satisfies c rq)"
  by (auto simp: is_met_def requirement_evaluate_def Let_def limit_issues_Nil format_issues_Nil
      resource_issues_Nil health_matches_iff is_some_and_def satisfies_def split: option.splits if_splits)

lemma is_compatible_iff:
  "list_all requirement_ok reqs \<Longrightarrow> is_compatible (compatibility_evaluate reg reqs) \<longleftrightarrow>
     (\<forall>rq \<in> set reqs. \<exists>c. map_of reg (rq_key rq) = Some c \<and> satisfies c rq)"
  by (auto simp: is_compatible_def compatibility_evaluate_def list_all_iff is_met_iff)

lemma issues_Nil_iff: "report_issues r = [] \<longleftrightarrow> is_compatible r"
  by (auto simp: report_issues_def is_compatible_def list_all_iff is_met_def)

text \<open>C18: a project is compatible with the registered capabilities exactly if the report has no issue, and
  exactly if for each of its requirements the capability with that key is registered and satisfies it:
  healthy enough, by the required provider, with every required limit present, comparable and within its
  bound, every required format covered by an advertised one, every memory domain advertised, one of the
  accepted latency modes, and a suitable concurrency mode.
\<close>
theorem compatible_iff_satisfied:
  assumes "list_all requirement_ok reqs"
  shows "(is_compatible (compatibility_evaluate reg reqs) \<longleftrightarrow>
      (\<forall>rq \<in> set reqs. \<exists>c. map_of reg (rq_key rq) = Some c \<and> satisfies c rq))
    \<and> (is_compatible (compatibility_evaluate reg reqs) \<longleftrightarrow>
      report_issues (compatibility_evaluate reg reqs) = [])"
  unfolding issues_Nil_iff using is_compatible_iff [OF assms] by blast

text \<open>A requirement of at least 4 inputs in a registry that offers 2 and one that offers 8.\<close>

definition mixer_key :: ustr where "mixer_key = [97, 46, 109]"

definition mixer_requirement :: capability_requirement where
  "mixer_requirement =
     (capability_requirement_new mixer_key)
       \<lparr>rq_limits := [([110], \<lparr>lc_comparison = AtLeast, lc_value = LUnsigned 4\<rparr>)]\<rparr>"

definition mixer_capability :: "u64 \<Rightarrow> capability" where
  "mixer_capability n =
     (capability_new mixer_key \<lparr>pv_id = [112], pv_version = [49]\<rparr>)\<lparr>cap_limits := [([110], LUnsigned n)]\<rparr>"

lemmas mixer_defs = mixer_key_def mixer_requirement_def mixer_capability_def capability_new_def
  capability_requirement_new_def requirement_ok_def

theorem compatible_iff_satisfied_witness:
  "\<not> is_compatible (compatibility_evaluate [(mixer_key, mixer_capability 2)] [mixer_requirement])
   \<and> is_compatible (compatibility_evaluate [(mixer_key, mixer_capability 8)] [mixer_requirement])"
proof -
  have ok: "list_all requirement_ok [mixer_requirement]" by (simp add: mixer_defs)
  show ?thesis
    unfolding conjunct1 [OF compatible_iff_satisfied [OF ok]]
    by (simp add: mixer_defs satisfies_def limit_satisfied_def)
qed

section \<open>Additional capabilities and detail never invalidate a project\<close>

text \<open>A capability that offers at least what another one offers.\<close>

definition health_rank :: "health \<Rightarrow> nat" where
  "health_rank h = (case h of Healthy \<Rightarrow> 2 | Degraded _ \<Rightarrow> 1 | Unhealthy _ \<Rightarrow> 0)"

definition offers_more :: "capability \<Rightarrow> capability \<Rightarrow> bool" where
  "offers_more c' c \<longleftrightarrow>
     cap_provider c' = cap_provider c
     \<and> health_rank (cap_health c) \<le> health_rank (cap_health c')
     \<and> map_of (cap_limits c) \<subseteq>\<^sub>m map_of (cap_limits c')
     \<and> (\<forall>d \<in> set (cap_formats c). \<exists>d' \<in> set (cap_formats c'). covers d' d)
     \<and> cap_memory_domains c \<subseteq> cap_memory_domains c'
     \<and> lm_id ` set (cap_latency_modes c) \<subseteq> lm_id ` set (cap_latency_modes c')
     \<and> ex_mode (cap_exclusivity c') \<in> {ex_mode (cap_exclusivity c), Configurable}"

lemma covers_refl [simp]: "covers d d" and covers_trans: "covers d' d \<Longrightarrow> covers d f \<Longrightarrow> covers d' f"
  by (auto simp: covers_def intro: map_le_trans)

lemma offers_more_refl [simp]: "offers_more c c"
  by (auto simp: offers_more_def intro: covers_refl)

lemma health_more:
  "health_rank h \<le> health_rank h' \<Longrightarrow> health_matches r h \<Longrightarrow> health_matches r h'"
  by (cases r; cases h; cases h') (auto simp: health_rank_def)

lemma satisfiesD:
  assumes "satisfies c rq"
  shows "map_of (rq_limits rq) name = Some con \<Longrightarrow>
      \<exists>actual. map_of (cap_limits c) name = Some actual \<and> limit_satisfied con actual"
    and "f \<in> set (rq_formats rq) \<Longrightarrow> \<exists>d \<in> set (cap_formats c). covers d f"
    and "rq_latency_modes rq \<noteq> {} \<Longrightarrow> \<exists>m \<in> set (cap_latency_modes c). lm_id m \<in> rq_latency_modes rq"
  using assms by (simp_all add: satisfies_def)

lemma satisfies_more:
  assumes more: "offers_more c' c" and sat: "satisfies c rq"
  shows "satisfies c' rq"
proof -
  have h: "if rq_health rq = RequireHealthy then cap_health c' = Healthy
      else \<forall>reason. cap_health c' \<noteq> Unhealthy reason"
    using health_more [of "cap_health c" "cap_health c'" "rq_health rq"] more sat
    by (simp add: health_matches_iff offers_more_def satisfies_def)
  have "map_of (cap_limits c) \<subseteq>\<^sub>m map_of (cap_limits c')" using more by (simp add: offers_more_def)
  then have keep: "map_of (cap_limits c) n = Some v \<Longrightarrow> map_of (cap_limits c') n = Some v" for n v
    by (auto simp: map_le_def dom_def)
  have l: "map_of (rq_limits rq) name = Some con \<Longrightarrow>
      \<exists>actual. map_of (cap_limits c') name = Some actual \<and> limit_satisfied con actual" for name con
    using satisfiesD(1) [OF sat] keep by blast
  have "\<exists>d' \<in> set (cap_formats c'). covers d' d" if "d \<in> set (cap_formats c)" for d
    using more that by (simp add: offers_more_def)
  then have f: "f \<in> set (rq_formats rq) \<Longrightarrow> \<exists>d \<in> set (cap_formats c'). covers d f" for f
    using satisfiesD(2) [OF sat] covers_trans by blast
  have "lm_id ` set (cap_latency_modes c) \<subseteq> lm_id ` set (cap_latency_modes c')"
    using more by (simp add: offers_more_def)
  then have m: "rq_latency_modes rq \<noteq> {} \<Longrightarrow> \<exists>m \<in> set (cap_latency_modes c'). lm_id m \<in> rq_latency_modes rq"
    using satisfiesD(3) [OF sat] by fastforce
  have "ex_mode (cap_exclusivity c') = ex_mode (cap_exclusivity c) \<or> ex_mode (cap_exclusivity c') = Configurable"
    using more by (simp add: offers_more_def)
  then have e: "rq_exclusivity rq = Some mode \<Longrightarrow> ex_mode (cap_exclusivity c') \<in> {mode, Configurable}" for mode
    using sat by (auto simp: satisfies_def)
  have r: "cap_provider c' = cap_provider c" "rq_memory_domains rq \<subseteq> cap_memory_domains c'"
    using more sat by (auto simp: offers_more_def satisfies_def)
  show ?thesis unfolding satisfies_def r(1) using h l f e r(2) sat m
    by (cases "rq_latency_modes rq = {}") (simp_all add: satisfies_def)
qed

text \<open>A sequence of registrations; rejected ones leave the registry as it was.\<close>

fun register_all :: "capability list \<Rightarrow> capability_registry \<Rightarrow> capability_registry" where
  "register_all [] reg = reg"
| "register_all (c # cs) reg = register_all cs (snd (register c reg))"

lemma register_keeps: "map_of reg k = Some c \<Longrightarrow> map_of (snd (register c' reg)) k = Some c"
  by (auto simp: register_def btree_simps split: option.splits)

lemma register_all_keeps: "map_of reg k = Some c \<Longrightarrow> map_of (register_all cs reg) k = Some c"
  by (induction cs arbitrary: reg) (auto simp: register_keeps)

lemma register_all_sorted: "bt_sorted reg \<Longrightarrow> bt_sorted (register_all cs reg)"
  by (induction cs arbitrary: reg) (auto simp: register_def split: option.splits)

lemma register_all_lookup:
  "map_of (register_all cs reg) k =
     (case map_of reg k of Some c \<Rightarrow> Some c | None \<Rightarrow> find (\<lambda>c. cap_key c = k) cs)"
  by (induction cs arbitrary: reg) (auto simp: register_def btree_simps split: option.splits)

text \<open>a registry holds for each key the capability that was registered first, in key order; later
  registrations of the key change nothing. A project that is
  compatible with a registry stays compatible after any further registrations, and after any capability
  gains detail: more limits, formats with more fields, memory domains, latency modes, better health or
  a configurable concurrency mode.
\<close>
theorem registrations_keep_compatibility:
  assumes ok: "list_all requirement_ok reqs"
    and compatible: "is_compatible (compatibility_evaluate reg reqs)"
    and more: "\<And>k c. map_of reg k = Some c \<Longrightarrow> \<exists>c'. map_of reg' k = Some c' \<and> offers_more c' c"
  shows "is_compatible (compatibility_evaluate (register_all cs reg') reqs)
    \<and> map_of (register_all cs []) k = find (\<lambda>c. cap_key c = k) cs
    \<and> bt_sorted (register_all cs [])"
proof (intro conjI)
  have "\<exists>c. map_of (register_all cs reg') (rq_key rq) = Some c \<and> satisfies c rq" if rq: "rq \<in> set reqs" for rq
  proof -
    from compatible rq have "\<exists>c. map_of reg (rq_key rq) = Some c \<and> satisfies c rq"
      unfolding is_compatible_iff [OF ok] ..
    then obtain c where c: "map_of reg (rq_key rq) = Some c" "satisfies c rq" by blast
    obtain c' where "map_of reg' (rq_key rq) = Some c'" "offers_more c' c" using more [OF c(1)] by blast
    with c(2) show ?thesis by (meson register_all_keeps satisfies_more)
  qed
  then show "is_compatible (compatibility_evaluate (register_all cs reg') reqs)"
    unfolding is_compatible_iff [OF ok] by (rule ballI)
  show "map_of (register_all cs []) k = find (\<lambda>c. cap_key c = k) cs"
    by (simp add: register_all_lookup)
  show "bt_sorted (register_all cs [])" by (simp add: register_all_sorted)
qed

theorem registrations_keep_compatibility_witness:
  "is_compatible (compatibility_evaluate
     (register_all [mixer_capability 2, (mixer_capability 2)\<lparr>cap_key := [98, 46, 109]\<rparr>]
       [(mixer_key, (mixer_capability 8)\<lparr>cap_memory_domains := {[103]}\<rparr>)]) [mixer_requirement])"
proof -
  have ok: "list_all requirement_ok [mixer_requirement]" by (simp add: mixer_defs)
  have comp: "is_compatible (compatibility_evaluate [(mixer_key, mixer_capability 8)] [mixer_requirement])"
    unfolding is_compatible_iff [OF ok] by (simp add: mixer_defs satisfies_def limit_satisfied_def)
  have more: "\<exists>c'. map_of [(mixer_key, (mixer_capability 8)\<lparr>cap_memory_domains := {[103]}\<rparr>)] k = Some c'
      \<and> offers_more c' c" if "map_of [(mixer_key, mixer_capability 8)] k = Some c" for k c
    using that by (auto simp: offers_more_def mixer_defs split: if_splits)
  show ?thesis
    by (rule conjunct1 [OF registrations_keep_compatibility [OF ok comp more]])
qed

end
