(* ===== verification/Graph.thy ===== *)
theory Graph
  imports Graph_Search Capabilities
begin

text \<open>
  The crate \<open>crates/media/fm-graph\<close>: identifiers (\<open>id.rs\<close>), the editable graph (\<open>model.rs\<close>), its
  validation (\<open>validation.rs\<close>) and the compilation to an execution plan within a resource budget
  (\<open>plan.rs\<close>). Port and node maps are ordered association lists; the two searches are those of
  \<^verbatim>\<open>Graph_Search\<close>. A panic of the source is \<^const>\<open>None\<close>.
\<close>

section \<open>Identifiers\<close>

datatype invalid_graph_id = GraphIdEmpty | GraphIdInvalidStart nat | GraphIdInvalidCharacter nat

fun validate_graph_id :: "ustr \<Rightarrow> invalid_graph_id + unit" where
  "validate_graph_id [] = Inl GraphIdEmpty"
| "validate_graph_id (first # characters) =
     (if \<not> is_ascii_lowercase first then Inl (GraphIdInvalidStart first)
      else case find (\<lambda>c. \<not> is_ascii_lowercase c \<and> \<not> is_ascii_digit c \<and> c \<noteq> 95 \<and> c \<noteq> 45) characters of
          Some found \<Rightarrow> Inl (GraphIdInvalidCharacter found)
        | None \<Rightarrow> Inr ())"

definition graph_id_new :: "ustr \<Rightarrow> invalid_graph_id + ustr" where
  "graph_id_new v = and_then (validate_graph_id v) (\<lambda>_. Inr v)"

section \<open>The editable graph\<close>

datatype media_kind = MVideo | MAudio | MTimedData | MControlData | MHealth | MCustom stable_id

record input_cardinality =
  ic_minimum :: usize
  ic_maximum :: "usize option"

definition cardinality_new :: "usize \<Rightarrow> usize option \<Rightarrow> (usize \<times> usize option) + input_cardinality" where
  "cardinality_new minimum maximum =
     (if is_some_and maximum (\<lambda>m. m < minimum) then Inl (minimum, maximum)
      else Inr \<lparr>ic_minimum = minimum, ic_maximum = maximum\<rparr>)"

definition accepts :: "input_cardinality \<Rightarrow> usize \<Rightarrow> bool" where
  "accepts c actual \<longleftrightarrow>
     actual \<ge> ic_minimum c \<and> (case ic_maximum c of None \<Rightarrow> True | Some maximum \<Rightarrow> actual \<le> maximum)"

record input_port =
  ip_id :: ustr
  ip_media_kind :: media_kind
  ip_cardinality :: input_cardinality

record output_port =
  op_id :: ustr
  op_media_kind :: media_kind

datatype cycle_policy = Reject | BreaksCycle

record resource_cost =
  rc_cpu_units :: u64
  rc_gpu_bytes :: u64
  rc_queue_frames :: u64

record graph_node =
  nd_id :: ustr
  nd_kind :: stable_id
  nd_inputs :: "(ustr, input_port) btree"
  nd_outputs :: "(ustr, output_port) btree"
  nd_capabilities :: "capability_requirement list"
  nd_resources :: resource_cost
  nd_cycle_policy :: cycle_policy

definition node_new :: "ustr \<Rightarrow> stable_id \<Rightarrow> graph_node" where
  "node_new i kind =
     \<lparr>nd_id = i, nd_kind = kind, nd_inputs = [], nd_outputs = [], nd_capabilities = [],
      nd_resources = \<lparr>rc_cpu_units = 0, rc_gpu_bytes = 0, rc_queue_frames = 0\<rparr>, nd_cycle_policy = Reject\<rparr>"

record duplicate_port =
  dp_node :: ustr
  dp_port :: ustr

definition ensure_new_port :: "ustr \<Rightarrow> graph_node \<Rightarrow> duplicate_port + unit" where
  "ensure_new_port port n =
     (if map_of (nd_inputs n) port \<noteq> None \<or> map_of (nd_outputs n) port \<noteq> None
      then Inl \<lparr>dp_node = nd_id n, dp_port = port\<rparr> else Inr ())"

definition add_input :: "input_port \<Rightarrow> (duplicate_port, unit, graph_node) meth" where
  "add_input port n =
     (case ensure_new_port (ip_id port) n of
        Inl e \<Rightarrow> (Inl e, n)
      | Inr _ \<Rightarrow> (Inr (), n\<lparr>nd_inputs := bt_insert (ip_id port) port (nd_inputs n)\<rparr>))"

definition add_output :: "output_port \<Rightarrow> (duplicate_port, unit, graph_node) meth" where
  "add_output port n =
     (case ensure_new_port (op_id port) n of
        Inl e \<Rightarrow> (Inl e, n)
      | Inr _ \<Rightarrow> (Inr (), n\<lparr>nd_outputs := bt_insert (op_id port) port (nd_outputs n)\<rparr>))"

record endpoint =
  ep_node :: ustr
  ep_port :: ustr

datatype queue_depth = Bounded u64 | Unbounded

datatype edge_overflow = EBlock | EDropNewest | EDropOldest

text \<open>The derived \<open>Ord\<close> of the enumerations: by variant, then by field.\<close>

definition depth_key :: "queue_depth \<Rightarrow> nat \<times> u64" where
  "depth_key d = (case d of Bounded n \<Rightarrow> (0, n) | Unbounded \<Rightarrow> (1, 0))"

definition overflow_key :: "edge_overflow \<Rightarrow> nat" where
  "overflow_key p = (case p of EBlock \<Rightarrow> 0 | EDropNewest \<Rightarrow> 1 | EDropOldest \<Rightarrow> 2)"

lemma depth_key_inj [simp]: "depth_key a = depth_key b \<longleftrightarrow> a = b"
  by (cases a; cases b) (auto simp: depth_key_def)

lemma overflow_key_inj [simp]: "overflow_key a = overflow_key b \<longleftrightarrow> a = b"
  by (cases a; cases b) (auto simp: overflow_key_def)

instantiation queue_depth :: linorder
begin
definition less_eq_queue_depth :: "queue_depth \<Rightarrow> queue_depth \<Rightarrow> bool" where
  "a \<le> b \<longleftrightarrow> depth_key a \<le> depth_key b"
definition less_queue_depth :: "queue_depth \<Rightarrow> queue_depth \<Rightarrow> bool" where
  "a < b \<longleftrightarrow> depth_key a < depth_key b"
instance
  by standard (auto simp: less_eq_queue_depth_def less_queue_depth_def simp flip: depth_key_inj)
end

instantiation edge_overflow :: linorder
begin
definition less_eq_edge_overflow :: "edge_overflow \<Rightarrow> edge_overflow \<Rightarrow> bool" where
  "a \<le> b \<longleftrightarrow> overflow_key a \<le> overflow_key b"
definition less_edge_overflow :: "edge_overflow \<Rightarrow> edge_overflow \<Rightarrow> bool" where
  "a < b \<longleftrightarrow> overflow_key a < overflow_key b"
instance
  by standard (auto simp: less_eq_edge_overflow_def less_edge_overflow_def simp flip: overflow_key_inj)
end

record edge =
  ed_from :: endpoint
  ed_to :: endpoint
  ed_queue_depth :: queue_depth
  ed_overflow_policy :: edge_overflow
  ed_memory_budget_bytes :: u64

definition DEFAULT_MEMORY_BUDGET_BYTES :: u64 where
  "DEFAULT_MEMORY_BUDGET_BYTES = 1048576"

definition edge_new :: "endpoint \<Rightarrow> endpoint \<Rightarrow> edge" where
  "edge_new a b =
     \<lparr>ed_from = a, ed_to = b, ed_queue_depth = Bounded 1, ed_overflow_policy = EBlock,
      ed_memory_budget_bytes = DEFAULT_MEMORY_BUDGET_BYTES\<rparr>"

definition with_queue :: "queue_depth \<Rightarrow> edge_overflow \<Rightarrow> u64 \<Rightarrow> edge \<Rightarrow> edge" where
  "with_queue depth overflow memory e =
     e\<lparr>ed_queue_depth := depth, ed_overflow_policy := overflow, ed_memory_budget_bytes := memory\<rparr>"

record editable_graph =
  gr_nodes :: "(ustr, graph_node) btree"
  gr_edges :: "edge list"

definition graph_new :: editable_graph where
  "graph_new = \<lparr>gr_nodes = [], gr_edges = []\<rparr>"

text \<open>The error is the identifier of the node that is already present.\<close>

definition add_node :: "graph_node \<Rightarrow> (ustr, unit, editable_graph) meth" where
  "add_node n g =
     (if map_of (gr_nodes g) (nd_id n) \<noteq> None then (Inl (nd_id n), g)
      else (Inr (), g\<lparr>gr_nodes := bt_insert (nd_id n) n (gr_nodes g)\<rparr>))"

definition connect :: "edge \<Rightarrow> editable_graph \<Rightarrow> editable_graph" where
  "connect e g = g\<lparr>gr_edges := gr_edges g @ [e]\<rparr>"

definition dependency_edges :: "editable_graph \<Rightarrow> edge list" where
  "dependency_edges g =
     filter (\<lambda>e. case map_of (gr_nodes g) (ep_node (ed_from e)) of
         None \<Rightarrow> True | Some n \<Rightarrow> nd_cycle_policy n \<noteq> BreaksCycle) (gr_edges g)"

text \<open>The derived \<open>Ord\<close> of an edge compares its fields in the order of their declaration.\<close>

definition edge_key :: "edge \<Rightarrow> (ustr \<times> ustr) \<times> (ustr \<times> ustr) \<times> queue_depth \<times> edge_overflow \<times> u64" where
  "edge_key e =
     ((ep_node (ed_from e), ep_port (ed_from e)), (ep_node (ed_to e), ep_port (ed_to e)),
      ed_queue_depth e, ed_overflow_policy e, ed_memory_budget_bytes e)"

definition unique_edges :: "editable_graph \<Rightarrow> edge list" where
  "unique_edges g = sort_key edge_key (remdups (gr_edges g))"

section \<open>Validation\<close>

datatype endpoint_role = Source | Destination

datatype port_direction = InputDirection | OutputDirection

datatype validation_issue =
    MissingNode usize endpoint_role ustr
  | MissingPort usize endpoint_role ustr ustr
  | DirectionMismatch usize endpoint_role ustr ustr port_direction port_direction
  | MediaMismatch usize media_kind media_kind
  | DuplicateConnection usize usize edge
  | UnboundedQueue usize
  | ZeroQueueDepth usize
  | ZeroMemoryBudget usize
  | InputCardinalityIssue ustr ustr usize "usize option" usize
  | CapabilityMismatch ustr compatibility_report
  | CycleIssue "ustr list"

definition output_kind ::
  "editable_graph \<Rightarrow> endpoint \<Rightarrow> usize \<Rightarrow> endpoint_role \<Rightarrow> media_kind option \<times> validation_issue list" where
  "output_kind g ep index endpoint_role =
     (case map_of (gr_nodes g) (ep_node ep) of
        None \<Rightarrow> (None, [MissingNode index endpoint_role (ep_node ep)])
      | Some n \<Rightarrow>
          (case map_of (nd_outputs n) (ep_port ep) of
             Some port \<Rightarrow> (Some (op_media_kind port), [])
           | None \<Rightarrow>
               if map_of (nd_inputs n) (ep_port ep) \<noteq> None
               then (None, [DirectionMismatch index endpoint_role (ep_node ep) (ep_port ep)
                             OutputDirection InputDirection])
               else (None, [MissingPort index endpoint_role (ep_node ep) (ep_port ep)])))"

definition input_port_of ::
  "editable_graph \<Rightarrow> endpoint \<Rightarrow> usize \<Rightarrow> endpoint_role \<Rightarrow> input_port option \<times> validation_issue list" where
  "input_port_of g ep index endpoint_role =
     (case map_of (gr_nodes g) (ep_node ep) of
        None \<Rightarrow> (None, [MissingNode index endpoint_role (ep_node ep)])
      | Some n \<Rightarrow>
          (case map_of (nd_inputs n) (ep_port ep) of
             Some port \<Rightarrow> (Some port, [])
           | None \<Rightarrow>
               if map_of (nd_outputs n) (ep_port ep) \<noteq> None
               then (None, [DirectionMismatch index endpoint_role (ep_node ep) (ep_port ep)
                             InputDirection OutputDirection])
               else (None, [MissingPort index endpoint_role (ep_node ep) (ep_port ep)])))"

text \<open>The connection of an edge, the key of the map of connections seen so far.\<close>

definition connection :: "edge \<Rightarrow> (ustr \<times> ustr) \<times> (ustr \<times> ustr)" where
  "connection e =
     ((ep_node (ed_from e), ep_port (ed_from e)), (ep_node (ed_to e), ep_port (ed_to e)))"

definition queue_issues :: "usize \<Rightarrow> edge \<Rightarrow> validation_issue list" where
  "queue_issues index e =
     (case ed_queue_depth e of
        Unbounded \<Rightarrow> [UnboundedQueue index]
      | Bounded d \<Rightarrow> if d = 0 then [ZeroQueueDepth index] else [])
     @ (if ed_memory_budget_bytes e = 0 then [ZeroMemoryBudget index] else [])"

definition endpoint_issues :: "editable_graph \<Rightarrow> usize \<Rightarrow> edge \<Rightarrow> validation_issue list" where
  "endpoint_issues g index e =
     (let (source, issues) = output_kind g (ed_from e) index Source;
          (destination, issues') = input_port_of g (ed_to e) index Destination
      in issues @ issues'
         @ (case (source, destination) of
              (Some a, Some b) \<Rightarrow> if a \<noteq> ip_media_kind b then [MediaMismatch index a (ip_media_kind b)] else []
            | _ \<Rightarrow> []))"

fun validate_edges_from ::
  "editable_graph \<Rightarrow> usize \<Rightarrow> ((ustr \<times> ustr) \<times> (ustr \<times> ustr), usize) btree \<Rightarrow> edge list \<Rightarrow> validation_issue list"
where
  "validate_edges_from g index seen [] = []"
| "validate_edges_from g index seen (e # edges) =
     (case map_of seen (connection e) of
        Some first \<Rightarrow> [DuplicateConnection first index e]
      | None \<Rightarrow> [])
     @ queue_issues index e
     @ endpoint_issues g index e
     @ validate_edges_from g (Suc index) (bt_insert (connection e) index seen) edges"

definition validate_edges :: "editable_graph \<Rightarrow> validation_issue list" where
  "validate_edges g = validate_edges_from g 0 [] (gr_edges g)"

text \<open>The first loop of \<open>validate_inputs\<close>: how many edges arrive at each input that exists.\<close>

fun count_connections ::
  "editable_graph \<Rightarrow> edge list \<Rightarrow> (ustr \<times> ustr, usize) btree \<Rightarrow> (ustr \<times> ustr, usize) btree" where
  "count_connections g [] connections = connections"
| "count_connections g (e # edges) connections =
     (let key = (ep_node (ed_to e), ep_port (ed_to e)) in
      if is_some_and (map_of (gr_nodes g) (fst key)) (\<lambda>n. map_of (nd_inputs n) (snd key) \<noteq> None)
      then count_connections g edges
        (bt_insert key (Suc (case map_of connections key of None \<Rightarrow> 0 | Some c \<Rightarrow> c)) connections)
      else count_connections g edges connections)"

definition validate_inputs :: "editable_graph \<Rightarrow> validation_issue list" where
  "validate_inputs g =
     (let connections = count_connections g (gr_edges g) [] in
      concat (map (\<lambda>(node_id, n).
        concat (map (\<lambda>(port_id, port).
          let actual = (case map_of connections (node_id, port_id) of None \<Rightarrow> 0 | Some c \<Rightarrow> c) in
          if \<not> accepts (ip_cardinality port) actual
          then [InputCardinalityIssue node_id port_id (ic_minimum (ip_cardinality port))
                 (ic_maximum (ip_cardinality port)) actual]
          else []) (nd_inputs n))) (gr_nodes g)))"

definition validate_capabilities :: "editable_graph \<Rightarrow> capability_registry \<Rightarrow> validation_issue list" where
  "validate_capabilities g reg =
     concat (map (\<lambda>(node_id, n).
       let report = compatibility_evaluate reg (nd_capabilities n) in
       if \<not> is_compatible report then [CapabilityMismatch node_id report] else []) (gr_nodes g))"

definition add_arc :: "'n::linorder \<Rightarrow> 'n \<Rightarrow> ('n, 'n list) btree \<Rightarrow> ('n, 'n list) btree" where
  "add_arc a b adj = bt_insert a (insort_insert b (successors adj a)) adj"

definition adjacency :: "editable_graph \<Rightarrow> (ustr, ustr list) btree" where
  "adjacency g =
     fold (\<lambda>e adj.
         if map_of (gr_nodes g) (ep_node (ed_to e)) \<noteq> None
            \<and> is_some_and (map_of (gr_nodes g) (ep_node (ed_from e))) (\<lambda>n. nd_cycle_policy n \<noteq> BreaksCycle)
         then add_arc (ep_node (ed_from e)) (ep_node (ed_to e)) adj
         else adj)
       (dependency_edges g) (map (\<lambda>(n, _). (n, [])) (gr_nodes g))"

text \<open>
  The search of \<open>find_cycle\<close>. Its depth is at most the number of nodes, so that the bound is never
  exceeded (lemma \<^verbatim>\<open>find_cycle_cases\<close> below).
\<close>

definition find_cycle :: "editable_graph \<Rightarrow> ustr list option" where
  "find_cycle g =
     (case visit_each (Suc (length (gr_nodes g))) (adjacency g) (map fst (gr_nodes g)) dfs_new of
        Some (cycle, _) \<Rightarrow> cycle
      | None \<Rightarrow> None)"

definition graph_validation :: "editable_graph \<Rightarrow> capability_registry \<Rightarrow> validation_issue list" where
  "graph_validation g reg =
     validate_edges g @ validate_inputs g @ validate_capabilities g reg
     @ (case find_cycle g of Some nodes \<Rightarrow> [CycleIssue nodes] | None \<Rightarrow> [])"

section \<open>Plans\<close>

record resources =
  rs_nodes :: u64
  rs_edges :: u64
  rs_cpu_units :: u64
  rs_gpu_bytes :: u64
  rs_memory_bytes :: u64
  rs_queue_frames :: u64

definition u64_try_from_or_max :: "nat \<Rightarrow> u64" where
  "u64_try_from_or_max n = (case word_try_from n of Some w \<Rightarrow> w | None \<Rightarrow> - 1)"

definition measure_node :: "graph_node \<Rightarrow> resources \<Rightarrow> resources" where
  "measure_node n usage =
     usage\<lparr>rs_cpu_units := saturating_add (rs_cpu_units usage) (rc_cpu_units (nd_resources n)),
           rs_gpu_bytes := saturating_add (rs_gpu_bytes usage) (rc_gpu_bytes (nd_resources n)),
           rs_queue_frames := saturating_add (rs_queue_frames usage) (rc_queue_frames (nd_resources n))\<rparr>"

definition measure_edge :: "edge \<Rightarrow> resources \<Rightarrow> resources" where
  "measure_edge e usage =
     (let usage = (case ed_queue_depth e of
                     Bounded depth \<Rightarrow> usage\<lparr>rs_queue_frames := saturating_add (rs_queue_frames usage) depth\<rparr>
                   | Unbounded \<Rightarrow> usage)
      in usage\<lparr>rs_memory_bytes := saturating_add (rs_memory_bytes usage) (ed_memory_budget_bytes e)\<rparr>)"

definition measure_graph :: "editable_graph \<Rightarrow> resources" where
  "measure_graph g =
     fold measure_edge (gr_edges g) (fold measure_node (map snd (gr_nodes g))
       \<lparr>rs_nodes = u64_try_from_or_max (length (gr_nodes g)),
        rs_edges = u64_try_from_or_max (length (gr_edges g)),
        rs_cpu_units = 0, rs_gpu_bytes = 0, rs_memory_bytes = 0, rs_queue_frames = 0\<rparr>)"

datatype resource_kind = RNodes | REdges | RCpuUnits | RGpuBytes | RMemoryBytes | RQueueFrames

record budget_exceeded =
  be_resource :: resource_kind
  be_required :: u64
  be_available :: u64

definition exceeded_by :: "resources \<Rightarrow> resources \<Rightarrow> budget_exceeded list" where
  "exceeded_by budget usage =
     map (\<lambda>(kind, required, available). \<lparr>be_resource = kind, be_required = required, be_available = available\<rparr>)
       (filter (\<lambda>(_, required, available). required > available)
         [(RNodes, rs_nodes usage, rs_nodes budget),
          (REdges, rs_edges usage, rs_edges budget),
          (RCpuUnits, rs_cpu_units usage, rs_cpu_units budget),
          (RGpuBytes, rs_gpu_bytes usage, rs_gpu_bytes budget),
          (RMemoryBytes, rs_memory_bytes usage, rs_memory_bytes budget),
          (RQueueFrames, rs_queue_frames usage, rs_queue_frames budget)])"

datatype compile_error = InvalidGraph "validation_issue list" | BudgetExceeded "budget_exceeded list"

record capability_choice =
  cc_node :: ustr
  cc_capability :: capability_key
  cc_provider :: stable_id
  cc_provider_version :: ustr

record plan_report =
  pr_text :: ustr
  pr_node_order :: "ustr list"
  pr_capability_choices :: "capability_choice list"
  pr_edges :: "edge list"
  pr_usage :: resources
  pr_validation_failures :: "validation_issue list"

text \<open>Text is written with the decimal digits of the numbers.\<close>

definition lit :: "string \<Rightarrow> ustr" where
  "lit s = map of_char s"

definition newline :: ustr where "newline = [10]"

fun overflow_policy_name :: "edge_overflow \<Rightarrow> ustr" where
  "overflow_policy_name EBlock = lit ''block''"
| "overflow_policy_name EDropNewest = lit ''drop-newest''"
| "overflow_policy_name EDropOldest = lit ''drop-oldest''"

definition choices_of :: "capability_registry \<Rightarrow> graph_node \<Rightarrow> capability_choice list" where
  "choices_of reg n =
     List.map_filter (\<lambda>rq. case map_of reg (rq_key rq) of
         None \<Rightarrow> None
       | Some c \<Rightarrow> Some \<lparr>cc_node = nd_id n, cc_capability = rq_key rq, cc_provider = pv_id (cap_provider c),
                        cc_provider_version = pv_version (cap_provider c)\<rparr>) (nd_capabilities n)"

definition choice_key :: "capability_choice \<Rightarrow> ustr \<times> ustr \<times> ustr \<times> ustr" where
  "choice_key c = (cc_node c, cc_capability c, cc_provider c, cc_provider_version c)"

definition node_line :: "nat \<times> graph_node \<Rightarrow> ustr" where
  "node_line = (\<lambda>(index, n).
     lit ''  '' @ decimal index @ lit '': '' @ nd_id n @ lit '' ('' @ nd_kind n @ lit '')'' @ newline)"

definition choice_line :: "capability_choice \<Rightarrow> ustr" where
  "choice_line c =
     lit ''  '' @ cc_node c @ lit '': '' @ cc_capability c @ lit '' -> '' @ cc_provider c @ lit ''@''
     @ cc_provider_version c @ newline"

definition edge_line :: "edge \<Rightarrow> ustr" where
  "edge_line e =
     (let depth = (case ed_queue_depth e of Bounded d \<Rightarrow> decimal (unat d) | Unbounded \<Rightarrow> lit ''unbounded'') in
      lit ''  '' @ ep_node (ed_from e) @ lit ''.'' @ ep_port (ed_from e) @ lit '' -> ''
      @ ep_node (ed_to e) @ lit ''.'' @ ep_port (ed_to e) @ lit '': depth='' @ depth @ lit '', overflow=''
      @ overflow_policy_name (ed_overflow_policy e) @ lit '', memory_budget_bytes=''
      @ decimal (unat (ed_memory_budget_bytes e)) @ newline)"

definition usage_line :: "resources \<Rightarrow> ustr" where
  "usage_line u =
     lit ''Aggregate usage: nodes='' @ decimal (unat (rs_nodes u)) @ lit '', edges='' @ decimal (unat (rs_edges u))
     @ lit '', cpu_units='' @ decimal (unat (rs_cpu_units u)) @ lit '', gpu_bytes='' @ decimal (unat (rs_gpu_bytes u))
     @ lit '', memory_bytes='' @ decimal (unat (rs_memory_bytes u)) @ lit '', queue_frames=''
     @ decimal (unat (rs_queue_frames u)) @ newline"

definition plan_report_build ::
  "graph_node list \<Rightarrow> edge list \<Rightarrow> capability_registry \<Rightarrow> resources \<Rightarrow> plan_report" where
  "plan_report_build nodes edges reg usage =
     (let node_order = map nd_id nodes;
          choices = sort_key choice_key (concat (map (choices_of reg) nodes));
          text = lit ''Execution plan report'' @ newline
            @ lit ''Validation failures: none'' @ newline
            @ lit ''Node order ('' @ decimal (length nodes) @ lit ''):'' @ newline
            @ concat (map node_line (enumerate 0 nodes))
            @ lit ''Capability choices ('' @ decimal (length choices) @ lit ''):'' @ newline
            @ concat (map choice_line choices)
            @ lit ''Edges ('' @ decimal (length edges) @ lit ''):'' @ newline
            @ concat (map edge_line edges)
            @ usage_line usage
      in \<lparr>pr_text = text, pr_node_order = node_order, pr_capability_choices = choices, pr_edges = edges,
          pr_usage = usage, pr_validation_failures = []\<rparr>)"

definition topological_order :: "editable_graph \<Rightarrow> ustr list option" where
  "topological_order g =
     kahn_order (map fst (gr_nodes g))
       (map (\<lambda>e. (ep_node (ed_from e), ep_node (ed_to e))) (dependency_edges g))"

record execution_plan =
  xp_nodes :: "graph_node list"
  xp_edges :: "edge list"
  xp_usage :: resources
  xp_report :: plan_report

definition compile_with_report ::
  "editable_graph \<Rightarrow> capability_registry \<Rightarrow> resources \<Rightarrow> (compile_error + execution_plan \<times> plan_report) option" where
  "compile_with_report g reg budget =
     (let validation = graph_validation g reg in
      if validation \<noteq> [] then Some (Inl (InvalidGraph validation))
      else let usage = measure_graph g; exceeded = exceeded_by budget usage in
        if exceeded \<noteq> [] then Some (Inl (BudgetExceeded exceeded))
        else case topological_order g of
            None \<Rightarrow> None
          | Some order \<Rightarrow>
              (case those (map (map_of (gr_nodes g)) order) of
                 None \<Rightarrow> None
               | Some nodes \<Rightarrow>
                   let edges = unique_edges g;
                       report = plan_report_build nodes edges reg usage
                   in Some (Inr (\<lparr>xp_nodes = nodes, xp_edges = edges, xp_usage = usage, xp_report = report\<rparr>,
                                 report))))"

definition compile :: "editable_graph \<Rightarrow> capability_registry \<Rightarrow> resources \<Rightarrow> (compile_error + execution_plan) option" where
  "compile g reg budget = map_option (map_sum id fst) (compile_with_report g reg budget)"

section \<open>Cycles\<close>

text \<open>\<open>b\<close> needs the output of \<open>a\<close> of the same tick.\<close>

definition depends :: "editable_graph \<Rightarrow> (ustr \<times> ustr) set" where
  "depends g =
     {(a, b). (\<exists>e \<in> set (gr_edges g). ep_node (ed_from e) = a \<and> ep_node (ed_to e) = b)
        \<and> b \<in> bt_keys (gr_nodes g)
        \<and> (\<exists>n. map_of (gr_nodes g) a = Some n \<and> nd_cycle_policy n = Reject)}"

lemma is_some_and_iff: "is_some_and x P \<longleftrightarrow> (\<exists>a. x = Some a \<and> P a)"
  by (cases x) (auto simp: is_some_and_def)

lemma policy_iff: "p \<noteq> BreaksCycle \<longleftrightarrow> p = Reject"
  by (cases p) auto

lemma arcs_add_arc: "arcs (add_arc a b adj) = insert (a, b) (arcs adj)"
  by (auto simp: add_arc_def successors_bt_insert set_insort_insert split: if_splits)

lemma bt_keys_add_arc: "bt_keys (add_arc a b adj) = insert a (bt_keys adj)"
  by (simp add: add_arc_def bt_keys_insert)

lemma arcs_fold:
  "arcs (fold (\<lambda>e adj. if P e then add_arc (a e) (b e) adj else adj) es adj) =
     arcs adj \<union> {(a e, b e) |e. e \<in> set es \<and> P e}"
  by (induction es arbitrary: adj) (auto simp: arcs_add_arc simp del: arcs_iff)

lemma bt_keys_fold:
  "bt_keys (fold (\<lambda>e adj. if P e then add_arc (a e) (b e) adj else adj) es adj) =
     bt_keys adj \<union> {a e |e. e \<in> set es \<and> P e}"
  by (induction es arbitrary: adj) (auto simp: bt_keys_add_arc)

lemma successors_isolated: "successors (map (\<lambda>(n, _). (n, [])) ns) m = []"
  by (induction ns) (auto simp: successors_def split: option.splits)

lemma dependency_edges_iff:
  "e \<in> set (dependency_edges g) \<longleftrightarrow> e \<in> set (gr_edges g)
     \<and> (\<forall>n. map_of (gr_nodes g) (ep_node (ed_from e)) = Some n \<longrightarrow> nd_cycle_policy n = Reject)"
  by (auto simp: dependency_edges_def policy_iff split: option.splits)

lemma arcs_adjacency: "arcs (adjacency g) = depends g"
proof -
  have "arcs (map (\<lambda>(n, _). (n, [])) (gr_nodes g)) = {}" by (simp add: arcs_def successors_isolated)
  then show ?thesis
    unfolding adjacency_def arcs_fold
    by (auto simp: depends_def dependency_edges_iff is_some_and_def policy_iff bt_key_iff split: option.splits)
qed

lemma bt_keys_adjacency: "bt_keys (adjacency g) \<subseteq> bt_keys (gr_nodes g)"
proof -
  have "bt_keys (map (\<lambda>(n, _). (n, [])) (gr_nodes g)) = bt_keys (gr_nodes g)"
    by (simp add: image_image split_beta)
  then show ?thesis
    unfolding adjacency_def bt_keys_fold
    by (auto simp: is_some_and_iff dest!: map_of_SomeD intro: rev_image_eqI)
qed

lemma depends_in: "depends g \<subseteq> bt_keys (gr_nodes g) \<times> bt_keys (gr_nodes g)"
  by (auto simp: depends_def dest!: map_of_SomeD intro: rev_image_eqI)

interpretation gd: closed_digraph "adjacency g" "bt_keys (gr_nodes g)" for g
proof
  show "set (successors (adjacency g) n) \<subseteq> bt_keys (gr_nodes g)" for n
  proof
    fix m assume "m \<in> set (successors (adjacency g) n)"
    then have "(n, m) \<in> depends g" by (simp flip: arcs_adjacency)
    then show "m \<in> bt_keys (gr_nodes g)" using depends_in by blast
  qed
qed simp

text \<open>The path of a reported cycle: it ends where it starts and repeats no other node.\<close>

definition dependency_cycle :: "editable_graph \<Rightarrow> ustr list \<Rightarrow> bool" where
  "dependency_cycle g c \<longleftrightarrow>
     2 \<le> length c \<and> hd c = last c \<and> distinct (tl c) \<and> successively (\<lambda>a b. (a, b) \<in> depends g) c"

lemma find_cycle_cases:
  obtains c where "find_cycle g = Some c" "dependency_cycle g c" "\<not> acyclic (depends g)"
  | "find_cycle g = None" "acyclic (depends g)"
proof -
  have "card (bt_keys (gr_nodes g)) < Suc (length (gr_nodes g))"
    by (metis card_image_le card_length finite_set le_imp_less_Suc order_trans)
  with set_map [of fst "gr_nodes g"] show thesis
  proof (rule gd.search_finds_cycle [OF _ _ bt_keys_adjacency])
    fix c s
    assume "visit_each (Suc (length (gr_nodes g))) (adjacency g) (map fst (gr_nodes g)) dfs_new = Some (Some c, s)"
      and c: "is_cycle (adjacency g) c"
    then have "find_cycle g = Some c" by (simp add: find_cycle_def)
    moreover have "dependency_cycle g c" using c unfolding is_cycle_def dependency_cycle_def arcs_adjacency .
    moreover have "\<not> acyclic (depends g)" using is_cycle_not_acyclic [OF c] by (simp add: arcs_adjacency)
    ultimately show thesis by (rule that(1))
  next
    fix s
    assume "visit_each (Suc (length (gr_nodes g))) (adjacency g) (map fst (gr_nodes g)) dfs_new = Some (None, s)"
      and "acyclic (arcs (adjacency g))"
    then show thesis using that(2) by (simp add: find_cycle_def arcs_adjacency)
  qed
qed

text \<open>the depth-first search terminates and decides acyclicity: it reports no cycle exactly if the
  same-tick dependencies between existing nodes are acyclic, and what it reports is a closed path of
  dependencies in which only the end repeats the start.
\<close>
theorem find_cycle_decides:
  "case find_cycle g of
     None \<Rightarrow> acyclic (depends g)
   | Some c \<Rightarrow> dependency_cycle g c \<and> \<not> acyclic (depends g)"
  by (rule find_cycle_cases [of g]) simp_all

section \<open>Validation is well-formedness\<close>

definition graph_ok :: "editable_graph \<Rightarrow> bool" where
  "graph_ok g \<longleftrightarrow>
     bt_sorted (gr_nodes g)
     \<and> (\<forall>k n. map_of (gr_nodes g) k = Some n \<longrightarrow> nd_id n = k \<and> bt_sorted (nd_inputs n) \<and> bt_sorted (nd_outputs n))"

definition edge_well_formed :: "editable_graph \<Rightarrow> edge \<Rightarrow> bool" where
  "edge_well_formed g e \<longleftrightarrow>
     (\<exists>a b output input. map_of (gr_nodes g) (ep_node (ed_from e)) = Some a
        \<and> map_of (gr_nodes g) (ep_node (ed_to e)) = Some b
        \<and> map_of (nd_outputs a) (ep_port (ed_from e)) = Some output
        \<and> map_of (nd_inputs b) (ep_port (ed_to e)) = Some input
        \<and> op_media_kind output = ip_media_kind input)
     \<and> (\<exists>d. ed_queue_depth e = Bounded d \<and> d \<noteq> 0)
     \<and> ed_memory_budget_bytes e \<noteq> 0"

definition arriving :: "editable_graph \<Rightarrow> ustr \<Rightarrow> ustr \<Rightarrow> nat" where
  "arriving g n p = length (filter (\<lambda>e. ep_node (ed_to e) = n \<and> ep_port (ed_to e) = p) (gr_edges g))"

definition well_formed :: "editable_graph \<Rightarrow> capability_registry \<Rightarrow> bool" where
  "well_formed g reg \<longleftrightarrow>
     distinct (map connection (gr_edges g))
     \<and> (\<forall>e \<in> set (gr_edges g). edge_well_formed g e)
     \<and> (\<forall>n nd p port. map_of (gr_nodes g) n = Some nd \<longrightarrow> map_of (nd_inputs nd) p = Some port
          \<longrightarrow> accepts (ip_cardinality port) (arriving g n p))
     \<and> (\<forall>n nd. map_of (gr_nodes g) n = Some nd \<longrightarrow> is_compatible (compatibility_evaluate reg (nd_capabilities nd)))
     \<and> acyclic (depends g)"

lemma edge_issues_Nil: "queue_issues i e @ endpoint_issues g i e = [] \<longleftrightarrow> edge_well_formed g e"
  by (auto simp: queue_issues_def endpoint_issues_def output_kind_def input_port_of_def edge_well_formed_def
      split: option.splits queue_depth.splits if_splits)

lemma validate_edges_from_Nil:
  "validate_edges_from g i seen es = [] \<longleftrightarrow>
     distinct (map connection es) \<and> connection ` set es \<inter> bt_keys seen = {} \<and> (\<forall>e \<in> set es. edge_well_formed g e)"
proof (induction es arbitrary: i seen)
  case (Cons e es)
  have "map_of seen (connection e) = None \<longleftrightarrow> connection e \<notin> bt_keys seen" by (simp add: map_of_eq_None_iff)
  then show ?case using Cons edge_issues_Nil [of i e g]
    by (auto simp: bt_keys_insert split: option.splits)
qed simp

lemma concat_map_Nil: "concat (map f xs) = [] \<longleftrightarrow> (\<forall>x \<in> set xs. f x = [])"
  by auto

lemma count_connections_lookup:
  assumes "map_of (gr_nodes g) n = Some nd" "map_of (nd_inputs nd) p \<noteq> None"
  shows "(case map_of (count_connections g es m) (n, p) of None \<Rightarrow> 0 | Some c \<Rightarrow> c) =
    (case map_of m (n, p) of None \<Rightarrow> 0 | Some c \<Rightarrow> c)
    + length (filter (\<lambda>e. ep_node (ed_to e) = n \<and> ep_port (ed_to e) = p) es)"
proof (induction es arbitrary: m)
  case (Cons e es)
  show ?case
  proof (cases "ep_node (ed_to e) = n \<and> ep_port (ed_to e) = p")
    case True
    then show ?thesis using Cons assms by (simp add: is_some_and_def btree_simps Let_def)
  next
    case False
    then show ?thesis using Cons by (auto simp: Let_def btree_simps)
  qed
qed simp

lemma validate_inputs_Nil:
  assumes "graph_ok g"
  shows "validate_inputs g = [] \<longleftrightarrow>
    (\<forall>n nd p port. map_of (gr_nodes g) n = Some nd \<longrightarrow> map_of (nd_inputs nd) p = Some port
       \<longrightarrow> accepts (ip_cardinality port) (arriving g n p))"
proof -
  let ?m = "count_connections g (gr_edges g) []"
  let ?actual = "\<lambda>n p. case map_of ?m (n, p) of None \<Rightarrow> 0 | Some c \<Rightarrow> c"
  have "validate_inputs g = [] \<longleftrightarrow>
    (\<forall>x \<in> set (gr_nodes g). \<forall>y \<in> set (nd_inputs (snd x)). accepts (ip_cardinality (snd y)) (?actual (fst x) (fst y)))"
    unfolding validate_inputs_def Let_def split_beta concat_map_Nil by simp
  also have "\<dots> \<longleftrightarrow> (\<forall>n nd. map_of (gr_nodes g) n = Some nd \<longrightarrow>
      (\<forall>y \<in> set (nd_inputs nd). accepts (ip_cardinality (snd y)) (?actual n (fst y))))"
    using assms by (simp add: bt_ball graph_ok_def)
  also have "\<dots> \<longleftrightarrow> (\<forall>n nd. map_of (gr_nodes g) n = Some nd \<longrightarrow>
      (\<forall>p port. map_of (nd_inputs nd) p = Some port \<longrightarrow> accepts (ip_cardinality port) (?actual n p)))"
    using assms by (auto simp: bt_ball graph_ok_def)
  also have "\<dots> \<longleftrightarrow> (\<forall>n nd p port. map_of (gr_nodes g) n = Some nd \<longrightarrow> map_of (nd_inputs nd) p = Some port
       \<longrightarrow> accepts (ip_cardinality port) (arriving g n p))"
    using count_connections_lookup [of g _ _ _ "gr_edges g" "[]"] by (auto simp: arriving_def)
  finally show ?thesis .
qed

lemma validate_capabilities_Nil:
  assumes "graph_ok g"
  shows "validate_capabilities g reg = [] \<longleftrightarrow>
    (\<forall>n nd. map_of (gr_nodes g) n = Some nd \<longrightarrow> is_compatible (compatibility_evaluate reg (nd_capabilities nd)))"
proof -
  have "validate_capabilities g reg = [] \<longleftrightarrow>
      (\<forall>x \<in> set (gr_nodes g). is_compatible (compatibility_evaluate reg (nd_capabilities (snd x))))"
    unfolding validate_capabilities_def Let_def split_beta concat_map_Nil by simp
  also have "\<dots> \<longleftrightarrow> (\<forall>n nd. map_of (gr_nodes g) n = Some nd \<longrightarrow>
      is_compatible (compatibility_evaluate reg (nd_capabilities nd)))"
    using assms by (simp add: bt_ball graph_ok_def)
  finally show ?thesis .
qed

lemma graph_validation_Nil:
  assumes "graph_ok g"
  shows "graph_validation g reg = [] \<longleftrightarrow> well_formed g reg"
proof -
  have "(case find_cycle g of Some nodes \<Rightarrow> [CycleIssue nodes] | None \<Rightarrow> []) = [] \<longleftrightarrow> acyclic (depends g)"
    by (rule find_cycle_cases [of g]) simp_all
  then show ?thesis
    unfolding graph_validation_def append_is_Nil_conv validate_inputs_Nil [OF assms]
      validate_capabilities_Nil [OF assms] well_formed_def validate_edges_def validate_edges_from_Nil
    by simp
qed

text \<open>C20: both searches return on every graph, valid or not: the depth-first search never needs more depth than
  there are nodes, and the ordering neither finds a target without a count nor lowers a count below
  zero, so neither the recursion nor the two expectations of the source can fail.
\<close>
theorem graph_searches_return:
  assumes "graph_ok g"
  shows "(\<exists>cycle s. visit_each (Suc (length (gr_nodes g))) (adjacency g) (map fst (gr_nodes g)) dfs_new
      = Some (cycle, s))
    \<and> (\<exists>order. topological_order g = Some order \<and> distinct order)"
proof
  have "card (bt_keys (gr_nodes g)) < Suc (length (gr_nodes g))"
    by (metis card_image_le card_length finite_set le_imp_less_Suc order_trans)
  with set_map [of fst "gr_nodes g"]
  show "\<exists>cycle s. visit_each (Suc (length (gr_nodes g))) (adjacency g) (map fst (gr_nodes g)) dfs_new
      = Some (cycle, s)"
    by (rule gd.search_finds_cycle [OF _ _ bt_keys_adjacency]) blast+
  have "sorted_wrt (<) (map fst (gr_nodes g))" using assms by (simp add: graph_ok_def bt_sorted_def)
  then show "\<exists>order. topological_order g = Some order \<and> distinct order"
    unfolding topological_order_def using kahn_order_spec greedy_closed by blast
qed

section \<open>The resource budget\<close>

fun total :: "resource_kind \<Rightarrow> editable_graph \<Rightarrow> nat" where
  "total RNodes g = length (gr_nodes g)"
| "total REdges g = length (gr_edges g)"
| "total RCpuUnits g = (\<Sum>n \<leftarrow> map snd (gr_nodes g). unat (rc_cpu_units (nd_resources n)))"
| "total RGpuBytes g = (\<Sum>n \<leftarrow> map snd (gr_nodes g). unat (rc_gpu_bytes (nd_resources n)))"
| "total RMemoryBytes g = (\<Sum>e \<leftarrow> gr_edges g. unat (ed_memory_budget_bytes e))"
| "total RQueueFrames g =
     (\<Sum>n \<leftarrow> map snd (gr_nodes g). unat (rc_queue_frames (nd_resources n)))
     + (\<Sum>e \<leftarrow> gr_edges g. case ed_queue_depth e of Bounded d \<Rightarrow> unat d | Unbounded \<Rightarrow> 0)"

fun amount :: "resource_kind \<Rightarrow> resources \<Rightarrow> u64" where
  "amount RNodes r = rs_nodes r"
| "amount REdges r = rs_edges r"
| "amount RCpuUnits r = rs_cpu_units r"
| "amount RGpuBytes r = rs_gpu_bytes r"
| "amount RMemoryBytes r = rs_memory_bytes r"
| "amount RQueueFrames r = rs_queue_frames r"

definition resource_kinds :: "resource_kind list" where
  "resource_kinds = [RNodes, REdges, RCpuUnits, RGpuBytes, RMemoryBytes, RQueueFrames]"

definition capped :: "nat \<Rightarrow> nat" where
  "capped n = min n (2 ^ 64 - 1)"

lemma unat_saturating: "unat (saturating_add a b :: u64) = capped (unat a + unat b)"
  by (simp add: unat_saturating_add capped_def)

lemma capped_add [simp]: "capped (capped a + b) = capped (a + b)"
  by (auto simp: capped_def)

lemma capped_unat [simp]: "capped (unat (a :: u64)) = unat a"
  using unat_u64_less [of a] by (simp add: capped_def)

lemma unat_try_from_or_max: "unat (u64_try_from_or_max n) = capped n"
  by (auto simp: u64_try_from_or_max_def capped_def word_try_from_def unat_of_nat unsigned_minus_1_eq_mask
      mask_eq_exp_minus_1 split: option.splits)

lemma measure_nodes:
  "rs_nodes (fold measure_node ns u) = rs_nodes u" "rs_edges (fold measure_node ns u) = rs_edges u"
  "rs_memory_bytes (fold measure_node ns u) = rs_memory_bytes u"
  "unat (rs_cpu_units (fold measure_node ns u)) =
     capped (unat (rs_cpu_units u) + (\<Sum>n \<leftarrow> ns. unat (rc_cpu_units (nd_resources n))))"
  "unat (rs_gpu_bytes (fold measure_node ns u)) =
     capped (unat (rs_gpu_bytes u) + (\<Sum>n \<leftarrow> ns. unat (rc_gpu_bytes (nd_resources n))))"
  "unat (rs_queue_frames (fold measure_node ns u)) =
     capped (unat (rs_queue_frames u) + (\<Sum>n \<leftarrow> ns. unat (rc_queue_frames (nd_resources n))))"
  by (induction ns arbitrary: u) (simp_all add: measure_node_def unat_saturating add.assoc)

lemma measure_edges:
  "rs_nodes (fold measure_edge es u) = rs_nodes u" "rs_edges (fold measure_edge es u) = rs_edges u"
  "rs_cpu_units (fold measure_edge es u) = rs_cpu_units u" "rs_gpu_bytes (fold measure_edge es u) = rs_gpu_bytes u"
  "unat (rs_memory_bytes (fold measure_edge es u)) =
     capped (unat (rs_memory_bytes u) + (\<Sum>e \<leftarrow> es. unat (ed_memory_budget_bytes e)))"
  "unat (rs_queue_frames (fold measure_edge es u)) =
     capped (unat (rs_queue_frames u) + (\<Sum>e \<leftarrow> es. case ed_queue_depth e of Bounded d \<Rightarrow> unat d | Unbounded \<Rightarrow> 0))"
  by (induction es arbitrary: u)
    (simp_all add: measure_edge_def Let_def unat_saturating add.assoc split: queue_depth.splits)

lemma measure_total: "unat (amount k (measure_graph g)) = capped (total k g)"
  by (cases k) (simp_all add: measure_graph_def measure_nodes measure_edges unat_try_from_or_max)

text \<open>the measured usage of every resource is the exact total over nodes and edges, or the largest
  64-bit value if the total is larger; it never wraps around. The budget is exceeded exactly in those
  resources whose measured usage is above the limit, reported in a fixed order with the required and the
  available amount.
\<close>
theorem budget_measures_totals:
  "unat (amount k (measure_graph g)) = min (total k g) (2 ^ 64 - 1)
   \<and> exceeded_by budget (measure_graph g) =
     map (\<lambda>k. \<lparr>be_resource = k, be_required = amount k (measure_graph g), be_available = amount k budget\<rparr>)
       (filter (\<lambda>k. unat (amount k budget) < min (total k g) (2 ^ 64 - 1)) resource_kinds)"
proof -
  have "unat (amount k budget) < min (total k g) (2 ^ 64 - 1) \<longleftrightarrow> amount k budget < amount k (measure_graph g)" for k
    using measure_total [of k g] by (simp add: word_less_unat capped_def)
  then show ?thesis
    by (simp add: measure_total capped_def exceeded_by_def resource_kinds_def)
qed

section \<open>Compilation\<close>

text \<open>Graphs built by the operations of the crate keep their maps ordered and keyed by the node.\<close>

definition node_ok :: "graph_node \<Rightarrow> bool" where
  "node_ok n \<longleftrightarrow> bt_sorted (nd_inputs n) \<and> bt_sorted (nd_outputs n)"

lemma node_ok_new: "node_ok (node_new i k)"
  by (simp add: node_ok_def node_new_def)

lemma node_ok_add_input: "node_ok n \<Longrightarrow> node_ok (snd (add_input port n))"
  and node_ok_add_output: "node_ok n \<Longrightarrow> node_ok (snd (add_output port' n))"
  by (auto simp: node_ok_def add_input_def add_output_def split: sum.splits)

lemma graph_ok_new: "graph_ok graph_new"
  by (simp add: graph_ok_def graph_new_def)

lemma graph_ok_add_node: "graph_ok g \<Longrightarrow> node_ok n \<Longrightarrow> graph_ok (snd (add_node n g))"
  by (auto simp: graph_ok_def node_ok_def add_node_def btree_simps)

lemma graph_ok_connect: "graph_ok g \<Longrightarrow> graph_ok (connect e g)"
  by (simp add: graph_ok_def connect_def)

lemmas graph_ok_intros = graph_ok_new graph_ok_add_node graph_ok_connect node_ok_new node_ok_add_input
  node_ok_add_output

text \<open>
  The order of a plan: every node once, after all its dependencies, and at each position the least of
  the nodes whose dependencies are already placed.
\<close>

definition plan_order :: "editable_graph \<Rightarrow> ustr list \<Rightarrow> bool" where
  "plan_order g xs \<longleftrightarrow>
     distinct xs \<and> set xs = bt_keys (gr_nodes g)
     \<and> (\<forall>a j. j < length xs \<longrightarrow> (a, xs ! j) \<in> depends g \<longrightarrow> (\<exists>i < j. xs ! i = a))
     \<and> (\<forall>i n. i < length xs \<longrightarrow> n \<in> bt_keys (gr_nodes g) - set (take i xs)
          \<longrightarrow> (\<forall>m. (m, n) \<in> depends g \<longrightarrow> m \<in> set (take i xs)) \<longrightarrow> xs ! i \<le> n)"

lemma well_formed_dependencies:
  assumes "well_formed g reg"
  shows "set (map (\<lambda>e. (ep_node (ed_from e), ep_node (ed_to e))) (dependency_edges g)) = depends g"
proof -
  have "\<exists>a b. map_of (gr_nodes g) (ep_node (ed_from e)) = Some a \<and> map_of (gr_nodes g) (ep_node (ed_to e)) = Some b"
    if "e \<in> set (gr_edges g)" for e
    using assms that by (auto simp: well_formed_def edge_well_formed_def)
  then show ?thesis
    by (fastforce simp: depends_def dependency_edges_iff bt_key_iff)
qed

lemma topological_order_plan:
  assumes "graph_ok g" "well_formed g reg"
  shows "\<exists>xs. topological_order g = Some xs \<and> plan_order g xs"
proof -
  let ?N = "bt_keys (gr_nodes g)"
  let ?es = "map (\<lambda>e. (ep_node (ed_from e), ep_node (ed_to e))) (dependency_edges g)"
  have "sorted_wrt (<) (map fst (gr_nodes g))" using assms(1) by (simp add: graph_ok_def bt_sorted_def)
  then obtain K out xs where r: "topological_order g = Some xs" "arcs out = set ?es"
      "K = set (map fst (gr_nodes g)) \<union> snd ` set ?es" "greedy K out xs" "available K out (set xs) = {}"
    using kahn_order_spec [of "map fst (gr_nodes g)" ?es] unfolding topological_order_def by blast
  have arcs: "arcs out = depends g" using r(2) well_formed_dependencies [OF assms(2)] by (simp only:)
  have "snd ` depends g \<subseteq> ?N" using depends_in [of g] by auto
  then have K: "K = ?N" unfolding r(3) well_formed_dependencies [OF assms(2)] by auto
  have "acyclic (arcs out)" using assms(2) by (simp add: arcs well_formed_def)
  then have set: "set xs = ?N"
    using greedy_complete [OF r(4,5)] depends_in by (simp add: arcs K)
  have before: "\<exists>i < j. xs ! i = a" if "j < length xs" "(a, xs ! j) \<in> depends g" for a j
    using greedy_before [OF r(4), of a "xs ! j" j] that by (simp only: arcs)
  have least: "xs ! i \<le> n" if i: "i < length xs" and n: "n \<in> ?N - set (take i xs)"
    and ready: "\<forall>m. (m, n) \<in> depends g \<longrightarrow> m \<in> set (take i xs)" for i n
  proof -
    have "preds out n \<subseteq> set (take i xs)" using ready by (auto simp flip: arcs)
    then have "n \<in> available K out (set (take i xs))" using n by (simp add: available_def K)
    then show ?thesis using r(4) i by (simp add: greedy_def)
  qed
  show ?thesis using r(1) greedy_closed [OF r(4)] set before least by (auto simp: plan_order_def)
qed

lemma those_map_lookup:
  assumes "set xs \<subseteq> bt_keys m"
  shows "\<exists>ys. those (map (map_of m) xs) = Some ys \<and> map (map_of m) xs = map Some ys"
  using assms
proof (induction xs)
  case (Cons x xs)
  then obtain ys y where "those (map (map_of m) xs) = Some ys" "map (map_of m) xs = map Some ys" "map_of m x = Some y"
    by (auto simp: bt_key_iff)
  then show ?case by (auto intro: exI [of _ "y # ys"])
qed simp

lemma edge_key_inj: "edge_key a = edge_key b \<Longrightarrow> a = b"
  by (cases a; cases b; cases "ed_from a"; cases "ed_from b"; cases "ed_to a"; cases "ed_to b")
    (simp add: edge_key_def)

lemma unique_edges_sorted:
  "set (unique_edges g) = set (gr_edges g)" "sorted_wrt (<) (map edge_key (unique_edges g))"
proof -
  have "distinct (map edge_key (unique_edges g))"
    by (simp add: unique_edges_def distinct_map inj_on_def edge_key_inj)
  then show "sorted_wrt (<) (map edge_key (unique_edges g))"
    by (simp add: strict_sorted_iff unique_edges_def)
qed (simp add: unique_edges_def)

definition within_budget :: "resources \<Rightarrow> editable_graph \<Rightarrow> bool" where
  "within_budget budget g \<longleftrightarrow> (\<forall>k. capped (total k g) \<le> unat (amount k budget))"

lemma all_resource_kinds:
  "(\<forall>k. P k) \<longleftrightarrow> P RNodes \<and> P REdges \<and> P RCpuUnits \<and> P RGpuBytes \<and> P RMemoryBytes \<and> P RQueueFrames"
  by (metis resource_kind.exhaust)

lemma exceeded_by_Nil: "exceeded_by budget (measure_graph g) = [] \<longleftrightarrow> within_budget budget g"
proof -
  have "within_budget budget g \<longleftrightarrow> (\<forall>k. amount k (measure_graph g) \<le> amount k budget)"
    by (simp add: within_budget_def word_less_unat measure_total)
  also have "\<dots> \<longleftrightarrow> list_all (\<lambda>k. amount k (measure_graph g) \<le> amount k budget) resource_kinds"
    unfolding all_resource_kinds by (simp add: resource_kinds_def)
  also have "\<dots> \<longleftrightarrow> exceeded_by budget (measure_graph g) = []"
    by (auto simp: resource_kinds_def exceeded_by_def not_less)
  finally show ?thesis by simp
qed

text \<open>A plan for a graph.\<close>

definition plans :: "editable_graph \<Rightarrow> execution_plan \<Rightarrow> bool" where
  "plans g p \<longleftrightarrow>
     plan_order g (map nd_id (xp_nodes p))
     \<and> (\<forall>n \<in> set (xp_nodes p). map_of (gr_nodes g) (nd_id n) = Some n)
     \<and> set (xp_edges p) = set (gr_edges g) \<and> sorted_wrt (<) (map edge_key (xp_edges p))
     \<and> xp_usage p = measure_graph g
     \<and> pr_node_order (xp_report p) = map nd_id (xp_nodes p) \<and> pr_edges (xp_report p) = xp_edges p
     \<and> pr_usage (xp_report p) = xp_usage p \<and> pr_validation_failures (xp_report p) = []"

lemma compile_builds_plan:
  assumes "graph_ok g" "well_formed g reg" "within_budget budget g"
  shows "\<exists>p. compile_with_report g reg budget = Some (Inr (p, xp_report p)) \<and> plans g p"
proof -
  obtain xs where xs: "topological_order g = Some xs" "plan_order g xs"
    using topological_order_plan [OF assms(1,2)] by blast
  then obtain ys where ys: "those (map (map_of (gr_nodes g)) xs) = Some ys" "map (map_of (gr_nodes g)) xs = map Some ys"
    using those_map_lookup [of xs "gr_nodes g"] by (auto simp: plan_order_def)
  have len: "length xs = length ys" using arg_cong [OF ys(2), of length] by simp
  have nth: "map_of (gr_nodes g) (xs ! i) = Some (ys ! i)" if "i < length xs" for i
    using arg_cong [OF ys(2), of "\<lambda>l. l ! i"] that len by simp
  then have ids: "nd_id (ys ! i) = xs ! i" if "i < length xs" for i
    using assms(1) that by (auto simp: graph_ok_def)
  then have order: "map nd_id ys = xs" using len by (simp add: list_eq_iff_nth_eq)
  have "map_of (gr_nodes g) (nd_id n) = Some n" if "n \<in> set ys" for n
    using that nth ids len by (auto simp: in_set_conv_nth)
  with xs ys order assms(1) show ?thesis
    by (simp add: compile_with_report_def Let_def graph_validation_Nil assms exceeded_by_Nil plans_def
        plan_report_build_def unique_edges_sorted)
qed

text \<open>C19: compilation of a graph never panics and has exactly three outcomes. An ill-formed graph (a
  duplicate connection, an edge with a missing endpoint, wrong direction, mismatched media or an unbounded
  or empty queue, an input with too few or too many connections, an unmet capability requirement, or a
  same-tick cycle) is rejected with its issues. A well-formed graph over budget is rejected with the
  exceeded resources. Every other graph is compiled: the plan holds each node once, after everything it
  depends on in the same tick, always taking the least node that is ready, and each edge once in order.
\<close>
theorem compile_plans_well_formed_graphs:
  assumes "graph_ok g"
  shows "if \<not> well_formed g reg
    then graph_validation g reg \<noteq> []
      \<and> compile_with_report g reg budget = Some (Inl (InvalidGraph (graph_validation g reg)))
    else if \<not> within_budget budget g
    then compile_with_report g reg budget = Some (Inl (BudgetExceeded (exceeded_by budget (measure_graph g))))
    else \<exists>p. compile_with_report g reg budget = Some (Inr (p, xp_report p)) \<and> plans g p"
  using compile_builds_plan [OF assms, of reg budget] graph_validation_Nil [OF assms, of reg]
    exceeded_by_Nil [of budget g]
  by (auto simp: compile_with_report_def)

text \<open>Two nodes that feed each other: rejected, unless the feedback output is of the prior tick.\<close>

definition video_in :: input_port where
  "video_in = \<lparr>ip_id = [105], ip_media_kind = MVideo, ip_cardinality = \<lparr>ic_minimum = 1, ic_maximum = Some 1\<rparr>\<rparr>"

definition video_out :: output_port where
  "video_out = \<lparr>op_id = [111], op_media_kind = MVideo\<rparr>"

definition feedback_node :: "ustr \<Rightarrow> cycle_policy \<Rightarrow> graph_node" where
  "feedback_node i p =
     (snd (add_output video_out (snd (add_input video_in (node_new i [107])))))\<lparr>nd_cycle_policy := p\<rparr>"

definition link :: "ustr \<Rightarrow> ustr \<Rightarrow> edge" where
  "link a b = edge_new \<lparr>ep_node = a, ep_port = [111]\<rparr> \<lparr>ep_node = b, ep_port = [105]\<rparr>"

definition feedback_graph :: "cycle_policy \<Rightarrow> editable_graph" where
  "feedback_graph p =
     connect (link [98] [97]) (connect (link [97] [98])
       (snd (add_node (feedback_node [98] p) (snd (add_node (feedback_node [97] Reject) graph_new)))))"

definition large_budget :: resources where
  "large_budget = \<lparr>rs_nodes = 9, rs_edges = 9, rs_cpu_units = 9, rs_gpu_bytes = 9, rs_memory_bytes = 4194304, rs_queue_frames = 9\<rparr>"

lemma feedback_graph_ok: "graph_ok (feedback_graph p)"
proof -
  have "node_ok (feedback_node i q)" for i q
  proof -
    have "node_ok (snd (add_output video_out (snd (add_input video_in (node_new i [107])))))"
      by (intro graph_ok_intros)
    then show ?thesis by (simp add: feedback_node_def node_ok_def)
  qed
  then show ?thesis unfolding feedback_graph_def by (intro graph_ok_intros) auto
qed

theorem compile_plans_well_formed_graphs_witness:
  "(\<exists>p. compile_with_report (feedback_graph BreaksCycle) [] large_budget = Some (Inr (p, xp_report p))
      \<and> plans (feedback_graph BreaksCycle) p)
   \<and> (\<exists>issues. compile_with_report (feedback_graph Reject) [] large_budget = Some (Inl (InvalidGraph issues)))"
proof -
  have "graph_validation (feedback_graph BreaksCycle) [] = []" by code_simp
  moreover have "within_budget large_budget (feedback_graph BreaksCycle)"
    unfolding within_budget_def all_resource_kinds capped_def
    by (simp add: large_budget_def feedback_graph_def connect_def add_node_def graph_new_def link_def edge_new_def
        feedback_node_def add_input_def add_output_def ensure_new_port_def node_new_def
        DEFAULT_MEMORY_BUDGET_BYTES_def)
  moreover have "graph_validation (feedback_graph Reject) [] \<noteq> []" by code_simp
  ultimately have "well_formed (feedback_graph BreaksCycle) []" "within_budget large_budget (feedback_graph BreaksCycle)"
    "\<not> well_formed (feedback_graph Reject) []"
    by (simp_all add: graph_validation_Nil feedback_graph_ok)
  then show ?thesis
    using compile_plans_well_formed_graphs [OF feedback_graph_ok, of BreaksCycle "[]" large_budget]
      compile_plans_well_formed_graphs [OF feedback_graph_ok, of Reject "[]" large_budget]
    by simp
qed

theorem graph_searches_return_witness:
  "\<exists>order. topological_order (feedback_graph Reject) = Some order \<and> distinct order"
  using graph_searches_return [OF feedback_graph_ok, of Reject] by blast

end
