(* ===== verification/Show.thy ===== *)
theory Show
  imports Switcher BTree
begin

text \<open>
  The durable show of the engine, \<open>crates/services/fm-engine/src/state.rs\<close>, with the errors it returns
  (\<open>error.rs\<close>): the inputs and their names, the outputs, the desired audio strip of every input and the
  desired switcher. A \<open>HashSet\<close> is a set; \<open>HashSet::insert\<close> returns whether the element was new.
\<close>

section \<open>The show\<close>

record input_audio_strip =
  as_gain_millidb :: i32
  as_balance_basis_points :: i32
  as_muted :: bool
  as_soloed :: bool
  as_follow_video :: bool
  as_delay_samples :: u32

definition input_audio_strip_default :: input_audio_strip where
  "input_audio_strip_default =
     \<lparr>as_gain_millidb = 0, as_balance_basis_points = 0, as_muted = False, as_soloed = False,
      as_follow_video = True, as_delay_samples = 0\<rparr>"

datatype show_error =
    ShowEmptyName
  | ShowEmptyInputName
  | ShowInputNameTooLong
  | ShowDuplicateInputName
  | ShowNoInputs
  | ShowDuplicateInput
  | ShowEmptyOutputName
  | ShowDuplicateOutputName
  | ShowDuplicateOutput output_id
  | ShowUnknownInput input_id
  | ShowSwitcher switcher_error

record show_state =
  sh_name :: ustr
  sh_inputs :: "input_id list"
  sh_input_names :: "ustr list"
  sh_outputs :: "(output_id \<times> ustr) list"
  sh_input_audio_strips :: "(input_id, input_audio_strip) btree"
  sh_desired_switcher :: switcher_state

definition map_err :: "('e \<Rightarrow> 'f) \<Rightarrow> 'e + 'a \<Rightarrow> 'f + 'a" where
  "map_err f r = (case r of Inl e \<Rightarrow> Inl (f e) | Inr a \<Rightarrow> Inr a)"

definition show_new ::
  "ustr \<Rightarrow> (input_id \<times> ustr) list \<Rightarrow> input_id \<Rightarrow> input_id \<Rightarrow> show_error + show_state" where
  "show_new name inputs program preview =
     (if str_trim name = [] then Inl ShowEmptyName
      else if inputs = [] then Inl ShowNoInputs
      else if \<exists>(_, n) \<in> set inputs. str_trim n = [] then Inl ShowEmptyInputName
      else if \<exists>(_, n) \<in> set inputs. str_len n > MAX_INPUT_NAME_BYTES then Inl ShowInputNameTooLong
      else if card (set (map snd inputs)) \<noteq> length inputs then Inl ShowDuplicateInputName
      else if card (set (map fst inputs)) \<noteq> length inputs then Inl ShowDuplicateInput
      else let input_ids = map fst inputs in
           and_then (map_err ShowSwitcher (switcher_new input_ids program preview)) (\<lambda>desired.
             Inr \<lparr>sh_name = name, sh_inputs = input_ids, sh_input_names = map snd inputs, sh_outputs = [],
                  sh_input_audio_strips = bt_collect (map (\<lambda>i. (i, input_audio_strip_default)) input_ids),
                  sh_desired_switcher = desired\<rparr>))"

definition to_ascii_lowercase :: "ustr \<Rightarrow> ustr" where
  "to_ascii_lowercase s = map (\<lambda>c. if 65 \<le> c \<and> c \<le> 90 then c + 32 else c) s"

text \<open>The loop of \<open>with_outputs\<close>, with the identifiers and the names seen so far.\<close>

fun check_outputs :: "output_id set \<Rightarrow> ustr set \<Rightarrow> (output_id \<times> ustr) list \<Rightarrow> show_error + unit" where
  "check_outputs identifiers names [] = Inr ()"
| "check_outputs identifiers names ((output, name) # rest) =
     (if str_trim name = [] then Inl ShowEmptyOutputName
      else if output \<in> identifiers then Inl (ShowDuplicateOutput output)
      else if to_ascii_lowercase name \<in> names then Inl ShowDuplicateOutputName
      else check_outputs (insert output identifiers) (insert (to_ascii_lowercase name) names) rest)"

definition with_outputs :: "(output_id \<times> ustr) list \<Rightarrow> show_state \<Rightarrow> show_error + show_state" where
  "with_outputs outputs s =
     and_then (check_outputs {} {} outputs) (\<lambda>_. Inr (s\<lparr>sh_outputs := outputs\<rparr>))"

definition show_with_streams :: "(stream_target_id \<times> ustr) list \<Rightarrow> show_state \<Rightarrow> show_error + show_state" where
  "show_with_streams streams s =
     and_then (map_err ShowSwitcher (with_streams streams (sh_desired_switcher s)))
       (\<lambda>desired. Inr (s\<lparr>sh_desired_switcher := desired\<rparr>))"

text \<open>A call through \<open>desired_switcher_mut\<close>.\<close>

definition on_desired :: "('e, 'a, switcher_state) meth \<Rightarrow> ('e, 'a, show_state) meth" where
  "on_desired f s = (case f (sh_desired_switcher s) of (r, sw) \<Rightarrow> (r, s\<lparr>sh_desired_switcher := sw\<rparr>))"

fun position :: "('a \<Rightarrow> bool) \<Rightarrow> 'a list \<Rightarrow> usize option" where
  "position P [] = None"
| "position P (x # xs) = (if P x then Some 0 else map_option Suc (position P xs))"

definition input_name :: "show_state \<Rightarrow> input_id \<Rightarrow> ustr option" where
  "input_name s input =
     map_option (\<lambda>index. sh_input_names s ! index) (position (\<lambda>candidate. candidate = input) (sh_inputs s))"

definition show_stream_running :: "show_state \<Rightarrow> stream_target_id \<Rightarrow> bool option" where
  "show_stream_running s target = stream_running (sh_desired_switcher s) target"

definition show_set_stream_running ::
  "stream_target_id \<Rightarrow> bool \<Rightarrow> (show_error, switcher_event list, show_state) meth" where
  "show_set_stream_running target running s =
     (case on_desired (set_stream_running target running) s of (r, s') \<Rightarrow> (map_err ShowSwitcher r, s'))"

text \<open>Names and inputs have the same length, so the index of an input is the index of its name.\<close>

definition rename_input :: "input_id \<Rightarrow> ustr \<Rightarrow> (rename_input_error, unit, show_state) meth" where
  "rename_input input name s =
     (case position (\<lambda>candidate. candidate = input) (sh_inputs s) of
        None \<Rightarrow> (Inl (RenameUnknownInput input), s)
      | Some index \<Rightarrow>
          (case validate_input_name name of
             Inl e \<Rightarrow> (Inl e, s)
           | Inr _ \<Rightarrow>
               if \<exists>(candidate_index, candidate) \<in> set (enumerate 0 (sh_input_names s)).
                    candidate_index \<noteq> index \<and> candidate = name
               then (Inl DuplicateName, s)
               else (Inr (), s\<lparr>sh_input_names := (sh_input_names s)[index := name]\<rparr>)))"

text \<open>The \<open>expect\<close> on the name of a validated input never fails: \<open>input_name_known\<close> below.\<close>

definition show_reorder_inputs :: "input_id list \<Rightarrow> (input_order_error, unit, show_state) meth" where
  "show_reorder_inputs inputs s =
     (case reorder_inputs inputs (sh_desired_switcher s) of
        (Inl e, _) \<Rightarrow> (Inl e, s)
      | (Inr _, desired) \<Rightarrow>
          (case validate_input_order (sh_inputs s) inputs of
             Inl e \<Rightarrow> (Inl e, s)
           | Inr _ \<Rightarrow>
               let names = map (\<lambda>input. the (input_name s input)) inputs in
               (Inr (), s\<lparr>sh_inputs := inputs, sh_input_names := names, sh_desired_switcher := desired\<rparr>)))"

definition show_audio_strip :: "show_state \<Rightarrow> input_id \<Rightarrow> input_audio_strip option" where
  "show_audio_strip s input = map_of (sh_input_audio_strips s) input"

definition set_input_audio_strip :: "input_id \<Rightarrow> input_audio_strip \<Rightarrow> (show_error, unit, show_state) meth" where
  "set_input_audio_strip input strip s =
     (case map_of (sh_input_audio_strips s) input of
        None \<Rightarrow> (Inl (ShowUnknownInput input), s)
      | Some _ \<Rightarrow> (Inr (), s\<lparr>sh_input_audio_strips := bt_set input strip (sh_input_audio_strips s)\<rparr>))"

definition restore_manual_transition :: "t_bar_state \<Rightarrow> (show_error, unit, show_state) meth" where
  "restore_manual_transition b s =
     (case on_desired (restore_t_bar b) s of (r, s') \<Rightarrow> (map_err ShowSwitcher r, s'))"

definition restore_fade_to_black :: "bool \<Rightarrow> show_state \<Rightarrow> show_state" where
  "restore_fade_to_black active s =
     s\<lparr>sh_desired_switcher := restore_settled_fade_to_black active (sh_desired_switcher s)\<rparr>"

definition show_configure_stinger ::
  "stinger_slot_id \<Rightarrow> stinger_descriptor \<Rightarrow> (show_error, unit, show_state) meth" where
  "show_configure_stinger slot d s =
     (case on_desired (configure_stinger slot d) s of (r, s') \<Rightarrow> (map_err ShowSwitcher r, s'))"

definition show_remove_stinger :: "stinger_slot_id \<Rightarrow> show_state \<Rightarrow> show_state" where
  "show_remove_stinger slot s = s\<lparr>sh_desired_switcher := remove_stinger slot (sh_desired_switcher s)\<rparr>"

definition show_preload_stinger ::
  "stinger_slot_id \<Rightarrow> bool \<Rightarrow> (show_error, switcher_event, show_state) meth" where
  "show_preload_stinger slot media_available s =
     (case on_desired (preload_stinger slot media_available) s of (r, s') \<Rightarrow> (map_err ShowSwitcher r, s'))"

section \<open>The type invariant of the show\<close>

definition show_inv :: "show_state \<Rightarrow> bool" where
  "show_inv s \<longleftrightarrow>
     str_trim (sh_name s) \<noteq> [] \<and> sh_inputs s \<noteq> [] \<and> distinct (sh_inputs s)
     \<and> length (sh_input_names s) = length (sh_inputs s) \<and> distinct (sh_input_names s)
     \<and> (\<forall>n \<in> set (sh_input_names s). validate_input_name n = Inr ())
     \<and> distinct (map fst (sh_outputs s)) \<and> distinct (map (to_ascii_lowercase \<circ> snd) (sh_outputs s))
     \<and> (\<forall>(_, n) \<in> set (sh_outputs s). str_trim n \<noteq> [])
     \<and> bt_sorted (sh_input_audio_strips s) \<and> bt_keys (sh_input_audio_strips s) = set (sh_inputs s)
     \<and> switcher_inv (sh_desired_switcher s) \<and> sw_inputs (sh_desired_switcher s) = sh_inputs s"

lemma map_err_simps [simp]: "map_err f (Inl e) = Inl (f e)" "map_err f (Inr a) = Inr a"
  by (simp_all add: map_err_def)

lemma map_err_Inr [result_simps]: "map_err f r = Inr a \<longleftrightarrow> r = Inr a"
  by (cases r) auto

lemma isl_map_err [simp]: "isl (map_err f r) = isl r"
  by (cases r) auto

lemma position_None: "position P xs = None \<longleftrightarrow> (\<forall>x \<in> set xs. \<not> P x)"
  by (induction xs) auto

lemma position_Some: "position P xs = Some i \<Longrightarrow> i < length xs \<and> P (xs ! i)"
  by (induction xs arbitrary: i) (auto split: if_splits)

lemma position_nth: "distinct xs \<Longrightarrow> i < length xs \<Longrightarrow> position (\<lambda>x. x = xs ! i) xs = Some i"
  by (induction xs arbitrary: i) (auto simp: nth_Cons split: nat.splits)

lemma input_name_known:
  assumes "show_inv s" "i < length (sh_inputs s)"
  shows "input_name s (sh_inputs s ! i) = Some (sh_input_names s ! i)"
  using assms by (simp add: input_name_def position_nth show_inv_def)

lemma card_distinct_iff: "card (set xs) = length xs \<longleftrightarrow> distinct xs"
  by (metis card_distinct distinct_card)

lemma show_new_inv:
  assumes "show_new name inputs program preview = Inr s"
  shows "show_inv s"
proof -
  obtain desired where d: "switcher_new (map fst inputs) program preview = Inr desired"
    and s: "s = \<lparr>sh_name = name, sh_inputs = map fst inputs, sh_input_names = map snd inputs, sh_outputs = [],
       sh_input_audio_strips = bt_collect (map (\<lambda>i. (i, input_audio_strip_default)) (map fst inputs)),
       sh_desired_switcher = desired\<rparr>"
    and ok: "str_trim name \<noteq> []" "inputs \<noteq> []" "\<forall>(_, n) \<in> set inputs. str_trim n \<noteq> []"
      "\<forall>(_, n) \<in> set inputs. \<not> str_len n > MAX_INPUT_NAME_BYTES"
      "card (set (map snd inputs)) = length (map snd inputs)" "card (set (map fst inputs)) = length (map fst inputs)"
    using assms by (auto simp: show_new_def Let_def result_simps split: if_splits)
  have "switcher_started (map fst inputs) program preview [] desired"
    using d by (force simp: switcher_started_def with_streams_def collect_desired_streams_def switcher_new_def
        result_simps Let_def)
  from switcher_started_inv [OF this] ok show ?thesis
    unfolding card_distinct_iff
    by (auto simp: s show_inv_def btree_simps validate_input_name_def image_image)
qed

lemma check_outputs_Inr:
  "check_outputs ids names os = Inr () \<Longrightarrow>
     distinct (map fst os) \<and> fst ` set os \<inter> ids = {} \<and> distinct (map (to_ascii_lowercase \<circ> snd) os)
     \<and> (to_ascii_lowercase \<circ> snd) ` set os \<inter> names = {} \<and> (\<forall>(_, n) \<in> set os. str_trim n \<noteq> [])"
  by (induction ids names os rule: check_outputs.induct) (auto split: if_splits)

lemma with_outputs_inv:
  assumes "show_inv s" "with_outputs os s = Inr s'"
  shows "show_inv s'"
proof -
  have "check_outputs {} {} os = Inr ()" "s' = s\<lparr>sh_outputs := os\<rparr>"
    using assms(2) by (auto simp: with_outputs_def result_simps)
  with check_outputs_Inr [OF this(1)] assms(1) show ?thesis by (simp add: show_inv_def)
qed

text \<open>An operation of the switcher that keeps its invariant and its inputs keeps the show well formed.\<close>

lemma show_inv_desired:
  "show_inv s \<Longrightarrow> switcher_inv sw \<Longrightarrow> sw_inputs sw = sh_inputs s \<Longrightarrow> show_inv (s\<lparr>sh_desired_switcher := sw\<rparr>)"
  by (simp add: show_inv_def)

lemma show_inv_switcher: "show_inv s \<Longrightarrow> switcher_inv (sh_desired_switcher s)"
  "show_inv s \<Longrightarrow> sw_inputs (sh_desired_switcher s) = sh_inputs s"
  by (simp_all add: show_inv_def)

lemma rename_input_inv:
  assumes "show_inv s"
  shows "show_inv (snd (rename_input i n s))" "fst (rename_input i n s) = Inl e \<Longrightarrow> snd (rename_input i n s) = s"
proof -
  have "show_inv (s\<lparr>sh_input_names := (sh_input_names s)[k := n]\<rparr>)"
    if k: "k < length (sh_inputs s)" and v: "validate_input_name n = Inr u"
      and uniq: "\<not> (\<exists>(j, c) \<in> set (enumerate 0 (sh_input_names s)). j \<noteq> k \<and> c = n)" for k u
  proof -
    have other: "sh_input_names s ! j \<noteq> n" if "j < length (sh_input_names s)" "j \<noteq> k" for j
    proof
      assume "sh_input_names s ! j = n"
      then have "(j, n) \<in> set (enumerate 0 (sh_input_names s))"
        using that(1) by (simp add: in_set_enumerate_eq)
      with uniq that(2) show False by blast
    qed
    then have "n \<notin> set (sh_input_names s) - {sh_input_names s ! k}"
      by (auto simp: in_set_conv_nth)
    then have "distinct ((sh_input_names s)[k := n])"
      using assms by (intro distinct_list_update) (simp_all add: show_inv_def)
    moreover have "\<forall>m \<in> set ((sh_input_names s)[k := n]). validate_input_name m = Inr ()"
      using assms v set_update_subset_insert [of "sh_input_names s" k n] by (auto simp: show_inv_def)
    ultimately show ?thesis using assms by (simp add: show_inv_def)
  qed
  then show "show_inv (snd (rename_input i n s))"
    using assms position_Some [of "\<lambda>c. c = i" "sh_inputs s"]
    by (auto simp: rename_input_def split: option.splits sum.splits)
  show "fst (rename_input i n s) = Inl e \<Longrightarrow> snd (rename_input i n s) = s"
    by (auto simp: rename_input_def split: option.splits sum.splits if_splits)
qed

lemma reorder_inputs_Inr:
  "reorder_inputs xs sw = (Inr u, sw') \<longleftrightarrow> validate_input_order (sw_inputs sw) xs = Inr () \<and> sw' = sw\<lparr>sw_inputs := xs\<rparr>"
  by (auto simp: reorder_inputs_def split: sum.splits)

lemma show_reorder_cases:
  assumes "show_inv s"
  obtains (refused) e where "show_reorder_inputs xs s = (Inl e, s)" "validate_input_order (sh_inputs s) xs = Inl e"
  | (reordered) names where "validate_input_order (sh_inputs s) xs = Inr ()"
      "names = map (\<lambda>i. the (input_name s i)) xs"
      "show_reorder_inputs xs s = (Inr (), s\<lparr>sh_inputs := xs, sh_input_names := names,
         sh_desired_switcher := (sh_desired_switcher s)\<lparr>sw_inputs := xs\<rparr>\<rparr>)"
proof (cases "validate_input_order (sh_inputs s) xs")
  case (Inl e)
  then show thesis
    using refused show_inv_switcher(2) [OF assms] by (simp add: show_reorder_inputs_def reorder_inputs_def)
next
  case (Inr u)
  then show thesis
    using reordered show_inv_switcher(2) [OF assms]
    by (simp add: show_reorder_inputs_def reorder_inputs_def Let_def)
qed

lemma permuted_names:
  assumes "show_inv s" "mset xs = mset (sh_inputs s)"
  shows "mset (map (\<lambda>i. the (input_name s i)) xs) = mset (sh_input_names s)"
proof -
  have "map (\<lambda>i. the (input_name s i)) (sh_inputs s) = sh_input_names s"
    using assms(1) input_name_known [OF assms(1)] by (intro nth_equalityI) (simp_all add: show_inv_def)
  then show ?thesis using assms(2) by (metis mset_map)
qed

lemma show_reorder_inv:
  assumes "show_inv s"
  shows "show_inv (snd (show_reorder_inputs xs s))"
proof (cases rule: show_reorder_cases [OF assms, of xs])
  case (2 names)
  let ?sw = "sh_desired_switcher s"
  have "snd (reorder_inputs xs ?sw) = ?sw\<lparr>sw_inputs := xs\<rparr>"
    using 2(1) show_inv_switcher(2) [OF assms] by (simp add: reorder_inputs_def)
  then have sw: "switcher_inv (?sw\<lparr>sw_inputs := xs\<rparr>)" and same: "set xs = set (sh_inputs s)"
    using reorder_inputs_inv [OF show_inv_switcher(1) [OF assms], of xs] show_inv_switcher(2) [OF assms] by simp_all
  have xs: "distinct xs" "length xs = length (sh_inputs s)" "xs \<noteq> []"
    using 2(1) by (auto simp: validate_input_order_Inr)
  have "mset xs = mset (sh_inputs s)"
    using same xs(1) assms by (simp add: show_inv_def set_eq_iff_mset_eq_distinct)
  from permuted_names [OF assms this] have "mset names = mset (sh_input_names s)" by (simp add: 2(2))
  then have "set names = set (sh_input_names s)" "distinct names" "length names = length xs"
    using assms xs(2) mset_eq_imp_distinct_iff [of names "sh_input_names s"] mset_eq_length [of names "sh_input_names s"]
    by (auto simp: show_inv_def dest: mset_eq_setD)
  with assms sw same xs show ?thesis by (simp add: 2(3) show_inv_def)
qed (use assms in simp)

section \<open>Runs of the show\<close>

datatype show_call =
    ShowSetStreamRunning stream_target_id bool
  | ShowRenameInput input_id ustr
  | ShowReorderInputs "input_id list"
  | ShowSetAudioStrip input_id input_audio_strip
  | ShowRestoreManual t_bar_state
  | ShowRestoreFadeToBlack bool
  | ShowConfigureStinger stinger_slot_id stinger_descriptor
  | ShowRemoveStinger stinger_slot_id
  | ShowPreloadStinger stinger_slot_id bool
  | ShowApply switcher_command

text \<open>One call of the interface: whether it succeeded, and the show after it.\<close>

fun show_do :: "show_call \<Rightarrow> show_state \<Rightarrow> bool \<times> show_state" where
  "show_do (ShowSetStreamRunning t r) s = (case show_set_stream_running t r s of (x, s') \<Rightarrow> (\<not> isl x, s'))"
| "show_do (ShowRenameInput i n) s = (case rename_input i n s of (x, s') \<Rightarrow> (\<not> isl x, s'))"
| "show_do (ShowReorderInputs xs) s = (case show_reorder_inputs xs s of (x, s') \<Rightarrow> (\<not> isl x, s'))"
| "show_do (ShowSetAudioStrip i a) s = (case set_input_audio_strip i a s of (x, s') \<Rightarrow> (\<not> isl x, s'))"
| "show_do (ShowRestoreManual b) s = (case restore_manual_transition b s of (x, s') \<Rightarrow> (\<not> isl x, s'))"
| "show_do (ShowRestoreFadeToBlack a) s = (True, restore_fade_to_black a s)"
| "show_do (ShowConfigureStinger k d) s = (case show_configure_stinger k d s of (x, s') \<Rightarrow> (\<not> isl x, s'))"
| "show_do (ShowRemoveStinger k) s = (True, show_remove_stinger k s)"
| "show_do (ShowPreloadStinger k a) s = (case show_preload_stinger k a s of (x, s') \<Rightarrow> (\<not> isl x, s'))"
| "show_do (ShowApply cmd) s = (case on_desired (switcher_apply cmd) s of (x, s') \<Rightarrow> (\<not> isl x, s'))"

text \<open>The call of the switcher that a call of the show makes, if any.\<close>

fun switcher_part :: "show_call \<Rightarrow> switcher_call option" where
  "switcher_part (ShowSetStreamRunning t r) = Some (Apply (SetStreamRunning t r))"
| "switcher_part (ShowRestoreManual b) = Some (RestoreTBar b)"
| "switcher_part (ShowRestoreFadeToBlack a) = Some (RestoreFadeToBlack a)"
| "switcher_part (ShowConfigureStinger k d) = Some (ConfigureStinger k d)"
| "switcher_part (ShowRemoveStinger k) = Some (RemoveStinger k)"
| "switcher_part (ShowPreloadStinger k a) = Some (PreloadStinger k a)"
| "switcher_part (ShowApply cmd) = Some (Apply cmd)"
| "switcher_part _ = None"

definition show_call_ok :: "show_call \<Rightarrow> bool" where
  "show_call_ok c \<longleftrightarrow> (case switcher_part c of None \<Rightarrow> True | Some sc \<Rightarrow> call_ok sc)"

lemma show_do_switcher:
  assumes "switcher_part c = Some sc"
  shows "switcher_do sc (sh_desired_switcher s) =
    Some (fst (show_do c s), sh_desired_switcher (snd (show_do c s)))
    \<and> snd (show_do c s) = s\<lparr>sh_desired_switcher := sh_desired_switcher (snd (show_do c s))\<rparr>"
  using assms
  by (cases c)
     (auto simp: show_set_stream_running_def restore_manual_transition_def restore_fade_to_black_def
       show_configure_stinger_def show_remove_stinger_def show_preload_stinger_def on_desired_def
       returned_facts split: prod.splits)

lemma inputs_do:
  assumes "switcher_do c s = Some (ok, s')" "\<And>xs. c \<noteq> ReorderInputs xs" "switcher_inv s" "call_ok c"
  shows "sw_inputs s' = sw_inputs s"
proof (cases c)
  case AdvanceFrame
  with assms(1) advance_frame_facts [OF assms(3)] show ?thesis by auto
qed (use assms in \<open>auto simp: returned_facts inputs_apply restore_t_bar_facts request_ftb_facts
  restore_settled_fade_to_black_def remove_stinger_def overlay_command_defs configure_stinger_def preload_stinger_def
  Let_def split: sum.splits prod.splits option.splits if_splits\<close>)

lemma show_do_facts:
  assumes inv: "show_inv s" and ok: "show_call_ok c"
  shows "show_inv (snd (show_do c s)) \<and> (\<not> fst (show_do c s) \<longrightarrow> snd (show_do c s) = s)
    \<and> set (sh_inputs (snd (show_do c s))) = set (sh_inputs s)"
proof (cases "switcher_part c")
  case (Some sc)
  note sw = show_do_switcher [OF Some, of s]
  have scok: "call_ok sc" "\<And>xs. sc \<noteq> ReorderInputs xs" using ok Some by (cases c; auto simp: show_call_ok_def)+
  from switcher_do_facts [OF show_inv_switcher(1) [OF inv] scok(1)] sw
  have facts: "switcher_inv (sh_desired_switcher (snd (show_do c s)))"
    "\<not> fst (show_do c s) \<longrightarrow> sh_desired_switcher (snd (show_do c s)) = sh_desired_switcher s" by auto
  have ins: "sw_inputs (sh_desired_switcher (snd (show_do c s))) = sh_inputs s"
    using inputs_do [OF conjunct1 [OF sw] scok(2) show_inv_switcher(1) [OF inv] scok(1)] show_inv_switcher(2) [OF inv]
    by simp
  have "show_inv (s\<lparr>sh_desired_switcher := sh_desired_switcher (snd (show_do c s))\<rparr>)"
    by (rule show_inv_desired [OF inv facts(1) ins])
  with sw facts(2) show ?thesis by (metis show_state.select_convs(2) show_state.surjective show_state.update_convs(6))
next
  case None
  then consider (ren) i n where "c = ShowRenameInput i n" | (reo) xs where "c = ShowReorderInputs xs"
    | (strip) i a where "c = ShowSetAudioStrip i a" by (cases c) auto
  then show ?thesis
  proof cases
    case ren
    have "sh_inputs (snd (rename_input i n s)) = sh_inputs s"
      by (auto simp: rename_input_def split: option.splits sum.splits)
    with rename_input_inv [OF inv, of i n] show ?thesis by (auto simp: ren split_beta isl_def)
  next
    case reo
    have "set (sh_inputs (snd (show_reorder_inputs xs s))) = set (sh_inputs s)"
      using show_reorder_inv [OF inv, of xs] reorder_inputs_inv(2) [OF show_inv_switcher(1) [OF inv], of xs]
        show_inv_switcher(2) [OF inv]
      by (cases rule: show_reorder_cases [OF inv, of xs]) (auto simp: reorder_inputs_def)
    then show ?thesis
      using show_reorder_inv [OF inv, of xs] by (cases rule: show_reorder_cases [OF inv, of xs]) (auto simp: reo)
  next
    case strip
    have "show_inv (s\<lparr>sh_input_audio_strips := bt_set i a (sh_input_audio_strips s)\<rparr>)"
      using inv by (simp add: show_inv_def btree_simps)
    then show ?thesis using inv by (simp add: strip set_input_audio_strip_def split: option.splits)
  qed
qed

definition show_run :: "show_call list \<Rightarrow> show_state \<Rightarrow> show_state" where
  "show_run calls s = fold (\<lambda>c. snd \<circ> show_do c) calls s"

text \<open>A show as the program builds it.\<close>

definition show_started ::
  "ustr \<Rightarrow> (input_id \<times> ustr) list \<Rightarrow> input_id \<Rightarrow> input_id \<Rightarrow> (output_id \<times> ustr) list \<Rightarrow> (stream_target_id \<times> ustr) list
   \<Rightarrow> show_state \<Rightarrow> bool" where
  "show_started name inputs program preview outputs streams s \<longleftrightarrow>
     and_then (and_then (show_new name inputs program preview) (with_outputs outputs)) (show_with_streams streams) = Inr s"

lemma show_started_inv:
  assumes "show_started name inputs program preview outputs streams s"
  shows "show_inv s" "sh_inputs s = map fst inputs"
    "\<exists>ss. switcher_started (map fst inputs) program preview ss (sh_desired_switcher s)"
proof -
  obtain s1 s2 ds where s1: "show_new name inputs program preview = Inr s1"
    and s2: "with_outputs outputs s1 = Inr s2"
    and ds: "with_streams streams (sh_desired_switcher s2) = Inr ds" and s: "s = s2\<lparr>sh_desired_switcher := ds\<rparr>"
    using assms by (auto simp: show_started_def show_with_streams_def result_simps)
  have in1: "sh_inputs s1 = map fst inputs" "switcher_new (map fst inputs) program preview = Inr (sh_desired_switcher s1)"
    using s1 by (auto simp: show_new_def Let_def result_simps split: if_splits)
  have in2: "sh_inputs s2 = map fst inputs" "sh_desired_switcher s2 = sh_desired_switcher s1"
    using s2 in1 by (auto simp: with_outputs_def result_simps)
  have st: "switcher_started (map fst inputs) program preview streams ds"
    using in1(2) in2(2) ds by (simp add: switcher_started_def)
  show "show_inv s"
    using show_inv_desired [OF with_outputs_inv [OF show_new_inv [OF s1] s2] switcher_started_inv(1) [OF st]]
      switcher_started_inv(2) [OF st] in2(1) by (simp add: s)
  show "sh_inputs s = map fst inputs" "\<exists>ss. switcher_started (map fst inputs) program preview ss (sh_desired_switcher s)"
    using in2(1) st by (auto simp: s)
qed

lemma show_run_facts:
  assumes "show_inv s" "\<forall>c \<in> set calls. show_call_ok c"
  shows "show_inv (show_run calls s) \<and> set (sh_inputs (show_run calls s)) = set (sh_inputs s)"
  using assms
proof (induction calls arbitrary: s)
  case (Cons c calls)
  with Cons.IH [of "snd (show_do c s)"] show_do_facts [OF Cons.prems(1), of c] show ?case by (simp add: show_run_def)
qed (simp add: show_run_def)

text \<open>C6: a show that was built stays well formed under every sequence of its operations: the inputs are
  the ones it was built with, in some order and without repetition, and the switcher mixes exactly
  them; every input has a valid name of its own, found at the index of the input, and an audio strip;
  Program and Preview are inputs of the show. An operation that reports an error changes nothing.
\<close>
theorem show_stays_well_formed:
  assumes "show_started name inputs program preview outputs streams s0" "\<forall>c \<in> set calls. show_call_ok c"
  defines "s \<equiv> show_run calls s0"
  shows "set (sh_inputs s) = set (map fst inputs) \<and> distinct (sh_inputs s)
    \<and> sw_inputs (sh_desired_switcher s) = sh_inputs s
    \<and> sw_program (sh_desired_switcher s) \<in> set (sh_inputs s) \<and> sw_preview (sh_desired_switcher s) \<in> set (sh_inputs s)
    \<and> distinct (sh_input_names s) \<and> (\<forall>n \<in> set (sh_input_names s). validate_input_name n = Inr ())
    \<and> (\<forall>i < length (sh_inputs s). input_name s (sh_inputs s ! i) = Some (sh_input_names s ! i))
    \<and> (\<forall>i. show_audio_strip s i \<noteq> None \<longleftrightarrow> i \<in> set (sh_inputs s))
    \<and> (\<forall>c. show_call_ok c \<and> \<not> fst (show_do c s) \<longrightarrow> snd (show_do c s) = s)"
proof -
  note start = show_started_inv [OF assms(1)]
  have inv: "show_inv s" and ins: "set (sh_inputs s) = set (map fst inputs)"
    using show_run_facts [OF start(1) assms(2)] start(2) by (simp_all add: s_def)
  have strip: "show_audio_strip s i \<noteq> None \<longleftrightarrow> i \<in> set (sh_inputs s)" for i
    using inv bt_key_iff [of i "sh_input_audio_strips s"] by (simp add: show_audio_strip_def show_inv_def)
  from inv have "switcher_inv (sh_desired_switcher s)" by (rule show_inv_switcher)
  then have "sw_program (sh_desired_switcher s) \<in> set (sh_inputs s)" "sw_preview (sh_desired_switcher s) \<in> set (sh_inputs s)"
    using show_inv_switcher(2) [OF inv] by (simp_all add: switcher_inv_def)
  with inv ins strip show ?thesis
    using input_name_known [OF inv] show_do_facts [OF inv] show_inv_switcher(2) [OF inv]
    by (simp add: show_inv_def)
qed

definition demo_show_switcher :: switcher_state where
  "demo_show_switcher = \<lparr>sw_inputs = [1, 2], sw_preview = 2, sw_program = 1, sw_transition = None, sw_t_bar = None,
     sw_fade_to_black = ftb_default, sw_overlays = replicate 8 overlay_empty, sw_stingers = replicate 8 stinger_empty,
     sw_streams = [\<lparr>ds_id = 9, ds_name = [69]\<rparr>], sw_streams_running = {}, sw_recording_desired = False\<rparr>"

definition demo_show :: show_state where
  "demo_show = \<lparr>sh_name = [65], sh_inputs = [1, 2], sh_input_names = [[66], [67]], sh_outputs = [(7, [68])],
     sh_input_audio_strips = [(1, input_audio_strip_default), (2, input_audio_strip_default)],
     sh_desired_switcher = demo_show_switcher\<rparr>"

lemma demo_text: "str_trim [c] = (if is_white_space c then [] else [c])" "c < 128 \<Longrightarrow> str_len [c] = 1"
  by (simp_all add: str_trim_def str_len_def utf8_len_def)

lemma demo_show_started: "show_started [65] [(1, [66]), (2, [67])] 1 2 [(7, [68])] [(9, [69])] demo_show"
  by (simp add: show_started_def show_new_def demo_text is_white_space_def MAX_INPUT_NAME_BYTES_def switcher_new_def
      require_input_def Let_def with_outputs_def show_with_streams_def with_streams_def collect_desired_streams_def
      MAX_STREAM_COUNT_def MAX_STREAM_NAME_BYTES_def OVERLAY_CHANNEL_COUNT_def STINGER_SLOT_COUNT_def demo_show_def
      demo_show_switcher_def bt_collect_def)

theorem show_stays_well_formed_witness:
  "show_started [65] [(1, [66]), (2, [67])] 1 2 [(7, [68])] [(9, [69])] demo_show
   \<and> sh_input_names (show_run [ShowRenameInput 1 [70], ShowReorderInputs [2, 1], ShowRenameInput 2 [70]] demo_show)
     = [[67], [70]]
   \<and> distinct (sh_input_names (show_run [ShowRenameInput 1 [70], ShowReorderInputs [2, 1], ShowRenameInput 2 [70]] demo_show))"
proof -
  let ?calls = "[ShowRenameInput 1 [70], ShowReorderInputs [2, 1], ShowRenameInput 2 [70]]"
  have ok: "\<forall>c \<in> set ?calls. show_call_ok c" by (simp add: show_call_ok_def)
  have "sh_input_names (show_run ?calls demo_show) = [[67], [70]]"
    by (simp add: show_run_def rename_input_def show_reorder_inputs_def reorder_inputs_def validate_input_order_def
        validate_input_name_def input_name_def demo_text is_white_space_def MAX_INPUT_NAME_BYTES_def demo_show_def
        demo_show_switcher_def)
  with demo_show_started show_stays_well_formed [OF demo_show_started ok] show ?thesis by blast
qed

end
