(* ===== verification/Engine.thy ===== *)
theory Engine
  imports Show Scheduler Command "HOL-Library.Char_ord" "HOL-Library.List_Lexorder"
begin

text \<open>
  The engine, \<open>crates/services/fm-engine/src/engine.rs\<close>: it owns the durable show behind the command
  machine of \<open>fm-command\<close>, the realized switcher, the scheduler and a manual clock. A command changes the
  desired switcher at once and is scheduled as an action of the next frame; \<open>tick\<close> renders that frame
  and applies the action to the realized switcher. Keys of receipts are compared as byte strings, the
  \<open>HashMap\<close> of the receipt history is an ordered map (it is only counted, and listed in key order).
  Where the code would panic (\<open>expect\<close>), the operation returns \<open>None\<close>.
\<close>

section \<open>Commands, events and errors\<close>

definition MAX_TRANSITION_DURATION_FRAMES :: u32 where "MAX_TRANSITION_DURATION_FRAMES = 3600"
definition MAX_INPUT_AUDIO_DELAY_SAMPLES :: u32 where "MAX_INPUT_AUDIO_DELAY_SAMPLES = 48000"
definition MIN_INPUT_AUDIO_GAIN_MILLIDB :: int where "MIN_INPUT_AUDIO_GAIN_MILLIDB = -96000"
definition MAX_INPUT_AUDIO_GAIN_MILLIDB :: int where "MAX_INPUT_AUDIO_GAIN_MILLIDB = 24000"
definition MIN_INPUT_AUDIO_BALANCE_BASIS_POINTS :: int where "MIN_INPUT_AUDIO_BALANCE_BASIS_POINTS = -10000"
definition MAX_INPUT_AUDIO_BALANCE_BASIS_POINTS :: int where "MAX_INPUT_AUDIO_BALANCE_BASIS_POINTS = 10000"

datatype engine_manual_kind = ManualFade | ManualWipe | ManualAlphaFade | ManualSlide

datatype engine_command =
    EReorderInputs "input_id list"
  | ERenameInput input_id ustr
  | ESetInputAudioStrip input_id input_audio_strip
  | ESelectPreview input_id
  | ECut
  | EFade u32
  | EAlphaFade u32
  | ESlide u32
  | EZoom u32
  | EStinger stinger_slot_id u32
  | EConfigureStinger stinger_slot_id stinger_descriptor
  | ERemoveStinger stinger_slot_id
  | ETakeOverlay overlay_channel_id input_id
  | EUpdateOverlay overlay_channel_id input_id
  | EOverlayOff overlay_channel_id
  | EConfigureOverlayTransition overlay_channel_id overlay_transition_kind u32
  | EConfigureOverlayAppearance overlay_channel_id overlay_position_preset overlay_border_preset
  | EQueueOverlay overlay_channel_id input_id
  | ETakeNextOverlay overlay_channel_id
  | ESetOverlayOutputInclusion overlay_channel_id output_id bool
  | EWipe u32
  | EFadeToBlack bool u32
  | EStartManualTransition engine_manual_kind
  | ESetManualTransitionPosition t_bar_position
  | ECommitManualTransition
  | ECancelManualTransition
  | EStreamStart stream_target_id
  | EStreamStop stream_target_id
  | ERecordStart
  | ERecordStop

record engine_acceptance =
  ea_target_frame :: frame_number

record engine_stream_status =
  es_target :: stream_target_id
  es_name :: ustr
  es_desired_running :: bool

datatype engine_event =
    DesiredSwitcherChanged engine_command
  | InputRenamed input_id ustr
  | InputOrderChanged "input_id list"
  | StreamsChanged "engine_stream_status list"
  | RecordingChanged bool

datatype snapshot_error =
    WorkInFlight
  | IncompatibleSwitcher
  | MismatchedSwitcherRouting
  | MismatchedManualTransition
  | InvalidFrameCounter
  | ClockTimeMismatch u64 u64
  | UnrealizedAcceptedReceipt u64 u64
  | CounterMismatch u64 u64 u64 u64

datatype engine_error =
    EngineClock clock_error
  | EngineSchedule action_error
  | EngineTick tick_error
  | RuntimeSwitcher switcher_error
  | EngineCounterExhausted
  | EngineSnapshotError snapshot_error
  | StalePreparation

section \<open>Rejections\<close>

fun switcher_error_message :: "switcher_error \<Rightarrow> string" where
  "switcher_error_message (SwUnknownInput i) = ''input '' @ digits (unat i) @ '' is not part of this mix''"
| "switcher_error_message TransitionInProgress = ''a transition is already in progress''"
| "switcher_error_message UnsupportedManualTransitionKind =
     ''manual transitions support only Fade, Wipe, AlphaFade, and Slide''"
| "switcher_error_message InvalidManualTransitionRoute =
     ''manual transition endpoints must match Program and Preview''"
| "switcher_error_message ZeroDuration = ''transition duration must be nonzero''"
| "switcher_error_message (InvalidOverlayTransitionDuration d m) =
     ''overlay transition duration '' @ digits (unat d) @ '' is outside 1..='' @ digits (unat m)"
| "switcher_error_message (OverlayQueueFull c m) =
     ''overlay channel '' @ digits (unat c) @ '' queue is full (maximum '' @ digits m @ '')''"
| "switcher_error_message (OverlayQueueEmpty c) = ''overlay channel '' @ digits (unat c) @ '' queue is empty''"
| "switcher_error_message (UnconfiguredStinger slot) =
     ''stinger slot '' @ digits (unat slot) @ '' is not configured''"
| "switcher_error_message (StingerCutPointOutOfRange slot p d) =
     ''stinger slot '' @ digits (unat slot) @ '' cut point '' @ digits (unat p) @ '' exceeds duration '' @ digits (unat d)"
| "switcher_error_message (UnknownStreamTarget t) =
     ''stream target '' @ digits (unat t) @ '' is not part of this mix''"
| "switcher_error_message (DuplicateStreamTarget t) =
     ''stream target '' @ digits (unat t) @ '' occurs more than once''"
| "switcher_error_message InvalidStreamName = ''stream name must be nonblank and within the byte limit''"
| "switcher_error_message (TooManyStreams r m) =
     ''stream inventory requests '' @ digits r @ '' targets; maximum is '' @ digits m"

fun switcher_error_code :: "switcher_error \<Rightarrow> rejection_code" where
  "switcher_error_code (SwUnknownInput _) = NotFound"
| "switcher_error_code (UnconfiguredStinger _) = NotFound"
| "switcher_error_code (UnknownStreamTarget _) = NotFound"
| "switcher_error_code TransitionInProgress = Conflict"
| "switcher_error_code _ = InvalidCommand"

definition switcher_rejection :: "switcher_error \<Rightarrow> rejection" where
  "switcher_rejection e = rejection_new (switcher_error_code e) (switcher_error_message e)"

fun rename_input_message :: "rename_input_error \<Rightarrow> string" where
  "rename_input_message (RenameUnknownInput i) = ''input '' @ digits (unat i) @ '' does not exist''"
| "rename_input_message EmptyName = ''input name must not be empty''"
| "rename_input_message NameTooLong = ''input name must not exceed '' @ digits MAX_INPUT_NAME_BYTES @ '' bytes''"
| "rename_input_message DuplicateName = ''input name is already in use''"

definition rename_input_rejection :: "rename_input_error \<Rightarrow> rejection" where
  "rename_input_rejection e =
     rejection_new (case e of RenameUnknownInput _ \<Rightarrow> NotFound | EmptyName \<Rightarrow> InvalidCommand
                            | NameTooLong \<Rightarrow> InvalidCommand | DuplicateName \<Rightarrow> Conflict)
       (rename_input_message e)"

fun input_order_message :: "input_order_error \<Rightarrow> string" where
  "input_order_message EmptyOrder = ''input order must not be empty''"
| "input_order_message (WrongLength expected actual) =
     ''input order must contain '' @ digits expected @ '' inputs, got '' @ digits actual"
| "input_order_message (OrderUnknownInput i) = ''input '' @ digits (unat i) @ '' does not exist''"
| "input_order_message (Media_Types.DuplicateInput i) = ''input '' @ digits (unat i) @ '' occurs more than once''"

definition reorder_inputs_rejection :: "input_order_error \<Rightarrow> rejection" where
  "reorder_inputs_rejection e =
     rejection_new (case e of OrderUnknownInput _ \<Rightarrow> NotFound | _ \<Rightarrow> InvalidCommand) (input_order_message e)"

definition validate_fade_to_black_duration :: "u32 \<Rightarrow> rejection + unit" where
  "validate_fade_to_black_duration d =
     (if d = 0 then Inl (rejection_new InvalidCommand ''Fade-to-Black duration must be nonzero'')
      else if d > MAX_FADE_TO_BLACK_DURATION_FRAMES
      then Inl (rejection_new InvalidCommand
             (''Fade-to-Black duration must not exceed '' @ digits (unat MAX_FADE_TO_BLACK_DURATION_FRAMES) @ '' frames''))
      else Inr ())"

definition validate_transition_duration :: "string \<Rightarrow> u32 \<Rightarrow> rejection + unit" where
  "validate_transition_duration name d =
     (if d = 0 then Inl (rejection_new InvalidCommand (name @ '' duration must be nonzero''))
      else if d > MAX_TRANSITION_DURATION_FRAMES
      then Inl (rejection_new InvalidCommand
             (name @ '' duration must not exceed '' @ digits (unat MAX_TRANSITION_DURATION_FRAMES) @ '' frames''))
      else Inr ())"

section \<open>The durable mutation\<close>

fun manual_transition_kind :: "engine_manual_kind \<Rightarrow> transition_kind" where
  "manual_transition_kind ManualFade = Fade"
| "manual_transition_kind ManualWipe = Wipe"
| "manual_transition_kind ManualAlphaFade = AlphaFade"
| "manual_transition_kind ManualSlide = Slide"

type_synonym engine_mut = "(show_state, engine_event, engine_acceptance) mutation"

text \<open>The end of \<open>EngineMutation::apply\<close>: the mapped command on the desired switcher.\<close>

definition apply_desired :: "engine_command \<Rightarrow> switcher_command \<Rightarrow> frame_number \<Rightarrow> engine_mut" where
  "apply_desired cmd switcher_command target state events =
     (case on_desired (switcher_apply switcher_command) state of
        (Inl e, state') \<Rightarrow> (Inl (switcher_rejection e), state', events)
      | (Inr _, state') \<Rightarrow>
          (Inr \<lparr>ea_target_frame = target\<rparr>, state', events @ [DesiredSwitcherChanged cmd]))"

text \<open>Fade, AlphaFade, Slide, Zoom and Wipe: the desired switcher cuts once the duration is valid.\<close>

definition apply_timed :: "string \<Rightarrow> engine_command \<Rightarrow> u32 \<Rightarrow> frame_number \<Rightarrow> engine_mut" where
  "apply_timed name cmd duration target state events =
     (case validate_transition_duration name duration of
        Inl r \<Rightarrow> (Inl r, state, events)
      | Inr _ \<Rightarrow> apply_desired cmd Cut target state events)"

definition apply_stinger :: "stinger_slot_id \<Rightarrow> u32 \<Rightarrow> frame_number \<Rightarrow> engine_mut" where
  "apply_stinger slot duration target state events =
     (let cmd = EStinger slot duration; desired = sh_desired_switcher state in
      case validate_transition_duration ''stinger'' duration of
        Inl r \<Rightarrow> (Inl r, state, events)
      | Inr _ \<Rightarrow>
          (case playback_decision desired slot of
             Play \<Rightarrow>
               let cut_point = sd_cut_point_frames (the (ss_descriptor (switcher_stinger desired slot))) in
               if cut_point > duration
               then (Inl (switcher_rejection (StingerCutPointOutOfRange slot cut_point duration)), state, events)
               else apply_desired cmd Cut target state events
           | Fallback KeepProgram \<Rightarrow>
               (Inr \<lparr>ea_target_frame = target\<rparr>, state, events @ [DesiredSwitcherChanged cmd])
           | Fallback _ \<Rightarrow> apply_desired cmd Cut target state events
           | Unconfigured \<Rightarrow> (Inl (switcher_rejection (UnconfiguredStinger slot)), state, events)))"

definition desired_stream_statuses :: "show_state \<Rightarrow> engine_stream_status list" where
  "desired_stream_statuses state =
     map (\<lambda>stream. \<lparr>es_target = ds_id stream, es_name = ds_name stream,
                    es_desired_running = the (show_stream_running state (ds_id stream))\<rparr>)
       (sw_streams (sh_desired_switcher state))"

definition apply_stream_mutation :: "stream_target_id \<Rightarrow> bool \<Rightarrow> frame_number \<Rightarrow> engine_mut" where
  "apply_stream_mutation stream running target state events =
     (case on_desired (set_stream_running stream running) state of
        (Inl e, state') \<Rightarrow> (Inl (switcher_rejection e), state', events)
      | (Inr _, state') \<Rightarrow>
          (Inr \<lparr>ea_target_frame = target\<rparr>, state', events @ [StreamsChanged (desired_stream_statuses state')]))"

definition apply_recording_mutation :: "bool \<Rightarrow> frame_number \<Rightarrow> engine_mut" where
  "apply_recording_mutation active target state events =
     (let previous = sw_recording_desired (sh_desired_switcher state) in
      case on_desired (set_recording_desired active) state of
        (Inl e, state') \<Rightarrow> (Inl (switcher_rejection e), state', events)
      | (Inr _, state') \<Rightarrow>
          (Inr \<lparr>ea_target_frame = target\<rparr>, state',
           if previous \<noteq> active then events @ [RecordingChanged active] else events))"

definition apply_fade_to_black_mutation :: "bool \<Rightarrow> u32 \<Rightarrow> frame_number \<Rightarrow> engine_mut" where
  "apply_fade_to_black_mutation active duration target state events =
     (case validate_fade_to_black_duration duration of
        Inl r \<Rightarrow> (Inl r, state, events)
      | Inr _ \<Rightarrow>
          (Inr \<lparr>ea_target_frame = target\<rparr>,
           state\<lparr>sh_desired_switcher := restore_settled_fade_to_black active (sh_desired_switcher state)\<rparr>,
           events @ [DesiredSwitcherChanged (EFadeToBlack active duration)]))"

fun is_overlay_command :: "engine_command \<Rightarrow> bool" where
  "is_overlay_command (ETakeOverlay _ _) = True"
| "is_overlay_command (EUpdateOverlay _ _) = True"
| "is_overlay_command (EOverlayOff _) = True"
| "is_overlay_command (EConfigureOverlayTransition _ _ _) = True"
| "is_overlay_command (EConfigureOverlayAppearance _ _ _) = True"
| "is_overlay_command (EQueueOverlay _ _) = True"
| "is_overlay_command (ETakeNextOverlay _) = True"
| "is_overlay_command (ESetOverlayOutputInclusion _ _ _) = True"
| "is_overlay_command _ = False"

definition apply_overlay_mutation :: "engine_command \<Rightarrow> switcher_command \<Rightarrow> frame_number \<Rightarrow> engine_mut" where
  "apply_overlay_mutation cmd switcher_command target state events =
     (case cmd of
        ESetOverlayOutputInclusion _ output _ \<Rightarrow>
          if output \<notin> fst ` set (sh_outputs state)
          then (Inl (rejection_new NotFound (''show does not contain output '' @ digits (unat output))), state, events)
          else apply_desired cmd switcher_command target state events
      | _ \<Rightarrow> apply_desired cmd switcher_command target state events)"

definition apply_configure_stinger :: "stinger_slot_id \<Rightarrow> stinger_descriptor \<Rightarrow> (switcher_error, unit, switcher_state) meth" where
  "apply_configure_stinger slot d sw =
     (case configure_stinger slot d sw of
        (Inl e, sw') \<Rightarrow> (Inl e, sw')
      | (Inr _, sw') \<Rightarrow>
          if sd_preload d
          then case preload_stinger slot True sw' of
              (Inl e, sw'') \<Rightarrow> (Inl e, sw'')
            | (Inr _, sw'') \<Rightarrow> (Inr (), sw'')
          else (Inr (), sw'))"

definition apply_stinger_mutation ::
  "engine_command \<Rightarrow> (switcher_error, unit, switcher_state) meth \<Rightarrow> frame_number \<Rightarrow> engine_mut" where
  "apply_stinger_mutation cmd change target state events =
     (if sw_t_bar (sh_desired_switcher state) \<noteq> None
      then (Inl (rejection_new Conflict ''Stinger slot configuration cannot change during a manual transition''),
            state, events)
      else case on_desired change state of
          (Inl e, state') \<Rightarrow> (Inl (switcher_rejection e), state', events)
        | (Inr _, state') \<Rightarrow>
            (Inr \<lparr>ea_target_frame = target\<rparr>, state', events @ [DesiredSwitcherChanged cmd]))"

definition apply_audio_strip_mutation :: "input_id \<Rightarrow> input_audio_strip \<Rightarrow> frame_number \<Rightarrow> engine_mut" where
  "apply_audio_strip_mutation input strip target state events =
     (if \<not> (MIN_INPUT_AUDIO_GAIN_MILLIDB \<le> sint (as_gain_millidb strip)
            \<and> sint (as_gain_millidb strip) \<le> MAX_INPUT_AUDIO_GAIN_MILLIDB)
      then (Inl (rejection_new InvalidCommand ''input audio gain must be between -96000 and 24000 millidB''),
            state, events)
      else if \<not> (MIN_INPUT_AUDIO_BALANCE_BASIS_POINTS \<le> sint (as_balance_basis_points strip)
                 \<and> sint (as_balance_basis_points strip) \<le> MAX_INPUT_AUDIO_BALANCE_BASIS_POINTS)
      then (Inl (rejection_new InvalidCommand ''input audio balance must be between -10000 and 10000 basis points''),
            state, events)
      else if as_delay_samples strip > MAX_INPUT_AUDIO_DELAY_SAMPLES
      then (Inl (rejection_new InvalidCommand ''input audio delay must not exceed 48000 samples''), state, events)
      else case set_input_audio_strip input strip state of
          (Inl _, state') \<Rightarrow>
            (Inl (rejection_new InvalidCommand (''input '' @ digits (unat input) @ '' is not part of this show'')),
             state', events)
        | (Inr _, state') \<Rightarrow>
            (Inr \<lparr>ea_target_frame = target\<rparr>, state',
             events @ [DesiredSwitcherChanged (ESetInputAudioStrip input strip)]))"

fun engine_mutation :: "engine_command \<Rightarrow> frame_number \<Rightarrow> engine_mut" where
  "engine_mutation (EConfigureStinger slot d) target =
     apply_stinger_mutation (EConfigureStinger slot d) (apply_configure_stinger slot d) target"
| "engine_mutation (ERemoveStinger slot) target =
     apply_stinger_mutation (ERemoveStinger slot) (\<lambda>sw. (Inr (), remove_stinger slot sw)) target"
| "engine_mutation (ERenameInput input name) target =
     (\<lambda>state events. case rename_input input name state of
          (Inl e, state') \<Rightarrow> (Inl (rename_input_rejection e), state', events)
        | (Inr _, state') \<Rightarrow> (Inr \<lparr>ea_target_frame = target\<rparr>, state', events @ [InputRenamed input name]))"
| "engine_mutation (EReorderInputs inputs) target =
     (\<lambda>state events. case show_reorder_inputs inputs state of
          (Inl e, state') \<Rightarrow> (Inl (reorder_inputs_rejection e), state', events)
        | (Inr _, state') \<Rightarrow> (Inr \<lparr>ea_target_frame = target\<rparr>, state', events @ [InputOrderChanged inputs]))"
| "engine_mutation (ESetInputAudioStrip input strip) target = apply_audio_strip_mutation input strip target"
| "engine_mutation (EStreamStart stream) target = apply_stream_mutation stream True target"
| "engine_mutation (EStreamStop stream) target = apply_stream_mutation stream False target"
| "engine_mutation ERecordStart target = apply_recording_mutation True target"
| "engine_mutation ERecordStop target = apply_recording_mutation False target"
| "engine_mutation (EFadeToBlack active d) target = apply_fade_to_black_mutation active d target"
| "engine_mutation (ESelectPreview input) target = apply_desired (ESelectPreview input) (SelectPreview input) target"
| "engine_mutation ECut target = apply_desired ECut Cut target"
| "engine_mutation (EFade d) target = apply_timed ''fade'' (EFade d) d target"
| "engine_mutation (EAlphaFade d) target = apply_timed ''alpha fade'' (EAlphaFade d) d target"
| "engine_mutation (ESlide d) target = apply_timed ''slide'' (ESlide d) d target"
| "engine_mutation (EZoom d) target = apply_timed ''zoom'' (EZoom d) d target"
| "engine_mutation (EWipe d) target = apply_timed ''wipe'' (EWipe d) d target"
| "engine_mutation (EStinger slot d) target = apply_stinger slot d target"
| "engine_mutation (EStartManualTransition kind) target =
     apply_desired (EStartManualTransition kind) (StartTBar (manual_transition_kind kind)) target"
| "engine_mutation (ESetManualTransitionPosition pos) target =
     apply_desired (ESetManualTransitionPosition pos) (SetTBarPosition pos) target"
| "engine_mutation ECommitManualTransition target = apply_desired ECommitManualTransition CommitTBar target"
| "engine_mutation ECancelManualTransition target = apply_desired ECancelManualTransition CancelTBar target"
| "engine_mutation (ETakeOverlay c i) target = apply_overlay_mutation (ETakeOverlay c i) (TakeOverlay c i) target"
| "engine_mutation (EUpdateOverlay c i) target = apply_overlay_mutation (EUpdateOverlay c i) (UpdateOverlay c i) target"
| "engine_mutation (EOverlayOff c) target = apply_overlay_mutation (EOverlayOff c) (OverlayOff c) target"
| "engine_mutation (EConfigureOverlayTransition c k d) target =
     apply_overlay_mutation (EConfigureOverlayTransition c k d) (ConfigureOverlayTransition c k d) target"
| "engine_mutation (EConfigureOverlayAppearance c p b) target =
     apply_overlay_mutation (EConfigureOverlayAppearance c p b) (ConfigureOverlayAppearance c p b) target"
| "engine_mutation (EQueueOverlay c i) target = apply_overlay_mutation (EQueueOverlay c i) (QueueOverlay c i) target"
| "engine_mutation (ETakeNextOverlay c) target =
     apply_overlay_mutation (ETakeNextOverlay c) (TakeNextOverlay c) target"
| "engine_mutation (ESetOverlayOutputInclusion c out inc) target =
     apply_overlay_mutation (ESetOverlayOutputInclusion c out inc) (SetOverlayOutputInclusion c out inc) target"

section \<open>The runtime action\<close>

text \<open>A call that returns: \<open>None\<close> is kept for a panic.\<close>

type_synonym ('e, 'a, 's) panicking = "'s \<Rightarrow> (('e + 'a) \<times> 's) option"

definition apply_runtime_configure :: "stinger_slot_id \<Rightarrow> stinger_descriptor \<Rightarrow> switcher_op" where
  "apply_runtime_configure slot d s =
     (case configure_stinger slot d s of
        (Inl e, s') \<Rightarrow> (Inl e, s')
      | (Inr _, s') \<Rightarrow>
          if sd_preload d
          then case preload_stinger slot True s' of
              (Inl e, s'') \<Rightarrow> (Inl e, s'')
            | (Inr ev, s'') \<Rightarrow> (Inr [ev], s'')
          else (Inr [], s'))"

fun apply_runtime :: "engine_command \<Rightarrow> (switcher_error, switcher_event list, switcher_state) panicking" where
  "apply_runtime (ERenameInput _ _) s = Some (Inr [], s)"
| "apply_runtime (ESetInputAudioStrip _ _) s = Some (Inr [], s)"
| "apply_runtime (EStreamStart stream) s = Some (set_stream_running stream True s)"
| "apply_runtime (EStreamStop stream) s = Some (set_stream_running stream False s)"
| "apply_runtime ERecordStart s = Some (set_recording_desired True s)"
| "apply_runtime ERecordStop s = Some (set_recording_desired False s)"
| "apply_runtime (EReorderInputs inputs) s =
     (case reorder_inputs inputs s of (Inl _, _) \<Rightarrow> None | (Inr _, s') \<Rightarrow> Some (Inr [], s'))"
| "apply_runtime (EFadeToBlack active d) s =
     (case request_fade_to_black active d s of (Inl _, _) \<Rightarrow> None | (Inr events, s') \<Rightarrow> Some (Inr events, s'))"
| "apply_runtime (ETakeOverlay c i) s = Some (request_overlay_take c i s)"
| "apply_runtime (EOverlayOff c) s = Some (request_overlay_off c s)"
| "apply_runtime (ETakeNextOverlay c) s = Some (request_overlay_take_next c s)"
| "apply_runtime (EUpdateOverlay c i) s = Some (switcher_apply (UpdateOverlay c i) s)"
| "apply_runtime (EConfigureOverlayTransition c k d) s = Some (switcher_apply (ConfigureOverlayTransition c k d) s)"
| "apply_runtime (EConfigureOverlayAppearance c p b) s = Some (switcher_apply (ConfigureOverlayAppearance c p b) s)"
| "apply_runtime (EQueueOverlay c i) s = Some (switcher_apply (QueueOverlay c i) s)"
| "apply_runtime (ESetOverlayOutputInclusion c out inc) s = Some (switcher_apply (SetOverlayOutputInclusion c out inc) s)"
| "apply_runtime (ESelectPreview i) s = Some (switcher_apply (SelectPreview i) s)"
| "apply_runtime ECut s = Some (switcher_apply Cut s)"
| "apply_runtime (EFade d) s = Some (switcher_apply (Transition Fade d) s)"
| "apply_runtime (EAlphaFade d) s = Some (switcher_apply (Transition AlphaFade d) s)"
| "apply_runtime (ESlide d) s = Some (switcher_apply (Transition Slide d) s)"
| "apply_runtime (EZoom d) s = Some (switcher_apply (Transition Zoom d) s)"
| "apply_runtime (EStinger slot d) s = Some (switcher_apply (Transition (Stinger slot) d) s)"
| "apply_runtime (EConfigureStinger slot d) s = Some (apply_runtime_configure slot d s)"
| "apply_runtime (ERemoveStinger slot) s = Some (Inr [], remove_stinger slot s)"
| "apply_runtime (EWipe d) s = Some (switcher_apply (WipeCommand d) s)"
| "apply_runtime (EStartManualTransition kind) s = Some (switcher_apply (StartTBar (manual_transition_kind kind)) s)"
| "apply_runtime (ESetManualTransitionPosition pos) s = Some (switcher_apply (SetTBarPosition pos) s)"
| "apply_runtime ECommitManualTransition s = Some (switcher_apply CommitTBar s)"
| "apply_runtime ECancelManualTransition s = Some (switcher_apply CancelTBar s)"

section \<open>The engine\<close>

type_synonym runtime_scheduler = "(unit, unit, engine_command, unit) frame_scheduler"
type_synonym engine_receipt = "engine_acceptance command_receipt"
type_synonym engine_outcome = "(engine_acceptance, engine_event) apply_outcome"

record engine =
  en_commands :: "(show_state, engine_acceptance) command_state"
  en_receipt_history :: "(idempotency_key, engine_receipt) btree"
  en_realized_switcher :: switcher_state
  en_scheduler :: runtime_scheduler
  en_clock :: manual_clock
  en_frame_rate :: frame_rate
  en_runtime_generation :: u64
  en_pending_actions :: usize
  en_transition_in_flight :: "transition_kind option"

definition engine_new :: "show_state \<Rightarrow> frame_rate \<Rightarrow> clock_domain_id \<Rightarrow> engine" where
  "engine_new show rate domain =
     \<lparr>en_commands = command_state_new show 1, en_receipt_history = [],
      en_realized_switcher = sh_desired_switcher show, en_scheduler = frame_scheduler_new rate 0 0 (),
      en_clock = manual_clock_new domain 0, en_frame_rate = rate, en_runtime_generation = 0,
      en_pending_actions = 0, en_transition_in_flight = None\<rparr>"

abbreviation engine_show :: "engine \<Rightarrow> show_state" where
  "engine_show e \<equiv> st_state (en_commands e)"

abbreviation engine_desired :: "engine \<Rightarrow> switcher_state" where
  "engine_desired e \<equiv> sh_desired_switcher (engine_show e)"

definition frame_cursor :: "engine \<Rightarrow> frame_number" where
  "frame_cursor e = fp_next_frame (fs_pacer (en_scheduler e))"

definition engine_clock_time :: "engine \<Rightarrow> clock_time" where
  "engine_clock_time e = cs_time (mc_snapshot (en_clock e))"

definition next_frame_deadline :: "engine \<Rightarrow> engine_error + clock_time" where
  "next_frame_deadline e =
     map_err (\<lambda>pe. EngineTick (TickPacing pe))
       (and_then (next_deadline (fs_pacer (en_scheduler e))) (\<lambda>d. Inr (fd_at_ns d)))"

text \<open>The name that a rejection gives to the transition in flight.\<close>

fun transition_name :: "transition_kind \<Rightarrow> string" where
  "transition_name Fade = ''fade''"
| "transition_name AlphaFade = ''alpha fade''"
| "transition_name Slide = ''slide''"
| "transition_name Zoom = ''zoom''"
| "transition_name Wipe = ''wipe''"
| "transition_name (Stinger _) = ''stinger''"

text \<open>The commands that are accepted while a transition is in flight.\<close>

fun allowed_in_flight :: "engine_command \<Rightarrow> bool" where
  "allowed_in_flight (EFadeToBlack _ _) = True"
| "allowed_in_flight (ERenameInput _ _) = True"
| "allowed_in_flight (EReorderInputs _) = True"
| "allowed_in_flight (EStreamStart _) = True"
| "allowed_in_flight (EStreamStop _) = True"
| "allowed_in_flight ERecordStart = True"
| "allowed_in_flight ERecordStop = True"
| "allowed_in_flight cmd = is_overlay_command cmd"

definition engine_prepare ::
  "transition_kind option \<Rightarrow> frame_number \<Rightarrow> show_state \<Rightarrow> engine_command \<Rightarrow> rejection + engine_mut" where
  "engine_prepare runtime_busy target _ cmd =
     (case runtime_busy of
        Some kind \<Rightarrow>
          if allowed_in_flight cmd then Inr (engine_mutation cmd target)
          else Inl (rejection_new Conflict (''a '' @ transition_name kind @ '' transition is already in flight''))
      | None \<Rightarrow> Inr (engine_mutation cmd target))"

definition stinger_runtime_transition :: "show_state \<Rightarrow> stinger_slot_id \<Rightarrow> transition_kind option" where
  "stinger_runtime_transition show slot =
     (case playback_decision (sh_desired_switcher show) slot of
        Play \<Rightarrow> Some (Stinger slot)
      | Fallback FallbackFade \<Rightarrow> Some Fade
      | Fallback _ \<Rightarrow> None
      | Unconfigured \<Rightarrow> None)"

text \<open>The transition that an accepted command puts in flight.\<close>

fun launched_transition :: "engine_command \<Rightarrow> show_state \<Rightarrow> transition_kind option" where
  "launched_transition (EFade _) show = Some Fade"
| "launched_transition (EAlphaFade _) show = Some AlphaFade"
| "launched_transition (ESlide _) show = Some Slide"
| "launched_transition (EZoom _) show = Some Zoom"
| "launched_transition (EWipe _) show = Some Wipe"
| "launched_transition (EStinger slot _) show = stinger_runtime_transition show slot"
| "launched_transition _ show = None"

definition execute_immediate ::
  "engine_command command_envelope \<Rightarrow> u64 \<Rightarrow> (engine_error, engine_outcome, engine) meth" where
  "execute_immediate env now_millis e =
     (let key = env_key env; cmd = env_command env; target = frame_cursor e;
          already_seen = (st_receipts (en_commands e) key \<noteq> None) in
      case (if already_seen then (Inr None, en_scheduler e)
            else case fs_schedule_action target cmd (en_scheduler e) of
                (Inl err, sch) \<Rightarrow> (Inl err, sch)
              | (Inr action, sch) \<Rightarrow> (Inr (Some action), sch)) of
        (Inl err, sch) \<Rightarrow> (Inl (EngineSchedule err), e\<lparr>en_scheduler := sch\<rparr>)
      | (Inr scheduled, sch) \<Rightarrow>
          (case apply_command (engine_prepare (en_transition_in_flight e) target) env now_millis (en_commands e) of
             (outcome, cs) \<Rightarrow>
               let history = (if out_replayed outcome then en_receipt_history e
                              else bt_insert key (out_receipt outcome) (en_receipt_history e));
                   e1 = e\<lparr>en_scheduler := sch, en_commands := cs, en_receipt_history := history\<rparr>
               in (Inr outcome,
                   if receipt_accepted (out_receipt outcome) \<noteq> None \<and> \<not> out_replayed outcome
                   then e1\<lparr>en_pending_actions := en_pending_actions e + 1,
                           en_transition_in_flight :=
                             (case launched_transition cmd (st_state cs) of
                                Some kind \<Rightarrow> Some kind
                              | None \<Rightarrow> en_transition_in_flight e)\<rparr>
                   else case scheduled of
                       Some action \<Rightarrow> e1\<lparr>en_scheduler := snd (fs_cancel_action action sch)\<rparr>
                     | None \<Rightarrow> e1)))"

record engine_preparation_base =
  pb_state_epoch :: state_epoch
  pb_revision :: revision
  pb_event_sequence :: event_sequence
  pb_durable_receipts :: usize
  pb_frame_cursor :: frame_number
  pb_clock_time :: clock_time
  pb_runtime_generation :: u64

definition preparation_base :: "engine \<Rightarrow> engine_preparation_base" where
  "preparation_base e =
     \<lparr>pb_state_epoch = st_epoch (en_commands e), pb_revision = st_revision (en_commands e),
      pb_event_sequence = st_sequence (en_commands e), pb_durable_receipts = length (en_receipt_history e),
      pb_frame_cursor = frame_cursor e, pb_clock_time = engine_clock_time e,
      pb_runtime_generation = en_runtime_generation e\<rparr>"

record prepared_execution =
  pe_staged :: engine
  pe_outcome :: engine_outcome
  pe_base :: engine_preparation_base

datatype engine_prepare_outcome =
    EngineReplayed engine_outcome
  | EnginePrepared prepared_execution

definition prepare_execute ::
  "engine_command command_envelope \<Rightarrow> u64 \<Rightarrow> engine \<Rightarrow> engine_error + engine_prepare_outcome" where
  "prepare_execute env now_millis e =
     (case st_receipts (en_commands e) (env_key env) of
        Some receipt \<Rightarrow>
          Inr (EngineReplayed \<lparr>out_receipt = receipt, out_events = [], out_replayed = True\<rparr>)
      | None \<Rightarrow>
          let base = preparation_base e in
          (case execute_immediate env now_millis e of
             (Inl err, _) \<Rightarrow> Inl err
           | (Inr outcome, staged) \<Rightarrow>
               Inr (EnginePrepared \<lparr>pe_staged = staged, pe_outcome = outcome, pe_base = base\<rparr>)))"

definition commit_execute :: "prepared_execution \<Rightarrow> (engine_error, engine_outcome, engine) meth" where
  "commit_execute prepared e =
     (if preparation_base e \<noteq> pe_base prepared then (Inl StalePreparation, e)
      else (Inr (pe_outcome prepared), pe_staged prepared))"

definition execute ::
  "engine_command command_envelope \<Rightarrow> u64 \<Rightarrow> (engine_error, engine_outcome, engine) meth" where
  "execute env now_millis e =
     (case prepare_execute env now_millis e of
        Inl err \<Rightarrow> (Inl err, e)
      | Inr (EngineReplayed outcome) \<Rightarrow> (Inr outcome, e)
      | Inr (EnginePrepared prepared) \<Rightarrow> commit_execute prepared e)"

section \<open>Rendering a frame\<close>

record frame_result =
  fr_frame :: frame_number
  fr_deadline :: clock_time
  fr_program :: program_frame
  fr_fade_to_black :: fade_to_black_frame
  fr_overlays :: "overlay_channel_state list"
  fr_events :: "switcher_event list"
  fr_input_audio_strip_updates :: "(input_id \<times> input_audio_strip) list"
  fr_revision :: revision
  fr_runtime_generation :: u64

text \<open>The loop of \<open>tick\<close> over the actions of the frame.\<close>

fun run_actions ::
  "engine_command list \<Rightarrow> switcher_event list \<Rightarrow> (input_id \<times> input_audio_strip) list
   \<Rightarrow> (engine_error, switcher_event list \<times> (input_id \<times> input_audio_strip) list, engine) panicking" where
  "run_actions [] events strips e = Some (Inr (events, strips), e)"
| "run_actions (action # rest) events strips e =
     (let strips = (case action of ESetInputAudioStrip input strip \<Rightarrow> strips @ [(input, strip)] | _ \<Rightarrow> strips) in
      case apply_runtime action (en_realized_switcher e) of
        None \<Rightarrow> None
      | Some (Inl err, sw) \<Rightarrow> Some (Inl (RuntimeSwitcher err), e\<lparr>en_realized_switcher := sw\<rparr>)
      | Some (Inr command_events, sw) \<Rightarrow>
          (case checked_next (en_runtime_generation e) of
             Inl _ \<Rightarrow> Some (Inl EngineCounterExhausted, e\<lparr>en_realized_switcher := sw\<rparr>)
           | Inr generation \<Rightarrow>
               run_actions rest (events @ command_events) strips
                 (e\<lparr>en_realized_switcher := sw, en_runtime_generation := generation\<rparr>)))"

fun is_program_changed :: "switcher_event \<Rightarrow> bool" where
  "is_program_changed (ProgramChanged _ _) = True"
| "is_program_changed _ = False"

text \<open>The second half of \<open>tick\<close>: the frame is composed, then the realized switcher advances.\<close>

definition render_frame ::
  "frame_deadline \<Rightarrow> switcher_event list \<Rightarrow> (input_id \<times> input_audio_strip) list \<Rightarrow> engine
   \<Rightarrow> ((engine_error + frame_result) \<times> engine) option" where
  "render_frame deadline events strips e =
     Option.bind (ftb_frame (sw_fade_to_black (en_realized_switcher e))) (\<lambda>ftb.
     Option.bind (advance_frame_events (en_realized_switcher e)) (\<lambda>(frame_events, sw).
       Some (Inr \<lparr>fr_frame = fd_frame deadline, fr_deadline = fd_at_ns deadline,
                 fr_program = switcher_program_frame (en_realized_switcher e), fr_fade_to_black = ftb,
                 fr_overlays = sw_overlays (en_realized_switcher e), fr_events = events @ frame_events,
                 fr_input_audio_strip_updates = strips, fr_revision = st_revision (en_commands e),
                 fr_runtime_generation = en_runtime_generation e\<rparr>,
             e\<lparr>en_realized_switcher := sw,
               en_transition_in_flight :=
                 (if \<exists>ev \<in> set frame_events. is_program_changed ev then None else en_transition_in_flight e)\<rparr>)))"

definition engine_tick :: "(engine_error, frame_result, engine) panicking" where
  "engine_tick e =
     (case next_deadline (fs_pacer (en_scheduler e)) of
        Inl err \<Rightarrow> Some (Inl (EngineTick (TickPacing err)), e)
      | Inr deadline \<Rightarrow>
          (case manual_clock_set (fd_at_ns deadline) (en_clock e) of
             (Inl err, clk) \<Rightarrow> Some (Inl (EngineClock err), e\<lparr>en_clock := clk\<rparr>)
           | (Inr _, clk) \<Rightarrow>
               (case tick (fd_at_ns deadline) (en_scheduler e) of
                  (Inl err, sch) \<Rightarrow> Some (Inl (EngineTick err), e\<lparr>en_clock := clk, en_scheduler := sch\<rparr>)
                | (Inr t, sch) \<Rightarrow>
                    let e1 = e\<lparr>en_clock := clk, en_scheduler := sch,
                              en_pending_actions := en_pending_actions e - length (ft_actions t)\<rparr> in
                    (case run_actions (map sa_action (ft_actions t)) [] [] e1 of
                       None \<Rightarrow> None
                     | Some (Inl err, e2) \<Rightarrow> Some (Inl err, e2)
                     | Some (Inr (events, strips), e2) \<Rightarrow> render_frame (ft_deadline t) events strips e2))))"

section \<open>Snapshots\<close>

record engine_restore_state =
  rs_state_epoch :: state_epoch
  rs_revision :: revision
  rs_event_sequence :: event_sequence
  rs_runtime_generation :: u64
  rs_clock_time :: clock_time
  rs_frame_cursor :: frame_number
  rs_receipts :: "(idempotency_key \<times> engine_receipt) list"

record engine_snapshot =
  es_show :: show_state
  es_realized_switcher :: switcher_state
  es_state_epoch :: state_epoch
  es_revision :: revision
  es_event_sequence :: event_sequence
  es_runtime_generation :: u64
  es_frame_rate :: frame_rate
  es_clock_domain :: clock_domain_id
  es_clock_time :: clock_time
  es_frames_rendered :: u64
  es_receipts :: "(idempotency_key \<times> engine_receipt) list"

abbreviation ftb_is_automatic :: "switcher_state \<Rightarrow> bool" where
  "ftb_is_automatic s \<equiv> fc_automatic (sw_fade_to_black s) \<noteq> None"

definition snapshot :: "engine \<Rightarrow> snapshot_error + engine_snapshot" where
  "snapshot e =
     (if en_pending_actions e \<noteq> 0 \<or> en_transition_in_flight e \<noteq> None
         \<or> sw_transition (en_realized_switcher e) \<noteq> None
         \<or> ftb_is_automatic (engine_desired e)
         \<or> ftb_is_automatic (en_realized_switcher e)
         \<or> overlays_in_motion (en_realized_switcher e)
      then Inl WorkInFlight
      else Inr \<lparr>es_show = engine_show e, es_realized_switcher = en_realized_switcher e,
                es_state_epoch = st_epoch (en_commands e), es_revision = st_revision (en_commands e),
                es_event_sequence = st_sequence (en_commands e), es_runtime_generation = en_runtime_generation e,
                es_frame_rate = en_frame_rate e, es_clock_domain = cs_domain (mc_snapshot (en_clock e)),
                es_clock_time = engine_clock_time e, es_frames_rendered = frame_cursor e,
                es_receipts = en_receipt_history e\<rparr>)"

definition manual_transition_kind_supported :: "transition_kind \<Rightarrow> bool" where
  "manual_transition_kind_supported kind \<longleftrightarrow> kind \<in> {Fade, Wipe, AlphaFade, Slide}"

text \<open>The loop of \<open>validate_idle_restore\<close> that counts the accepted receipts.\<close>

fun count_accepted ::
  "frame_number \<Rightarrow> (idempotency_key \<times> engine_receipt) list \<Rightarrow> u64 \<Rightarrow> snapshot_error + u64" where
  "count_accepted cursor [] accepted = Inr accepted"
| "count_accepted cursor ((_, receipt) # rest) accepted =
     (case receipt_accepted receipt of
        None \<Rightarrow> count_accepted cursor rest accepted
      | Some a \<Rightarrow>
          and_then (ok_or (checked_add accepted 1) InvalidFrameCounter) (\<lambda>accepted'.
            if ea_target_frame (acc_result a) \<ge> cursor
            then Inl (UnrealizedAcceptedReceipt (ea_target_frame (acc_result a)) cursor)
            else count_accepted cursor rest accepted'))"

definition same_manual_transition :: "t_bar_state option \<Rightarrow> t_bar_state option \<Rightarrow> bool" where
  "same_manual_transition desired realized =
     (case (desired, realized) of
        (None, None) \<Rightarrow> True
      | (Some d, Some r) \<Rightarrow>
          manual_transition_kind_supported (tb_kind d) \<and> manual_transition_kind_supported (tb_kind r)
          \<and> tb_kind d = tb_kind r \<and> tb_from d = tb_from r \<and> tb_to d = tb_to r
          \<and> tb_interval_start d = 0 \<and> tb_position d = tb_position r \<and> tb_interval_start r = tb_position r
      | _ \<Rightarrow> False)"

definition expected_clock_ns :: "frame_rate \<Rightarrow> frame_number \<Rightarrow> snapshot_error + u64" where
  "expected_clock_ns rate cursor =
     (if cursor = 0 then Inr 0
      else map_err (\<lambda>_. InvalidFrameCounter)
             (and_then (deadline_for (frame_pacer_new rate 0) (cursor - 1)) (\<lambda>d. Inr (fd_at_ns d))))"

definition routing_differs :: "switcher_state \<Rightarrow> switcher_state \<Rightarrow> bool" where
  "routing_differs d r \<longleftrightarrow>
     sw_program d \<noteq> sw_program r \<or> sw_preview d \<noteq> sw_preview r
     \<or> target_active (fc_target (sw_fade_to_black d)) \<noteq> target_active (fc_target (sw_fade_to_black r))
     \<or> fc_position (sw_fade_to_black d) \<noteq> fc_position (sw_fade_to_black r)
     \<or> sw_stingers d \<noteq> sw_stingers r \<or> sw_overlays d \<noteq> sw_overlays r \<or> sw_streams d \<noteq> sw_streams r
     \<or> sw_streams_running d \<noteq> sw_streams_running r \<or> sw_recording_desired d \<noteq> sw_recording_desired r"

definition validate_idle_restore ::
  "show_state \<Rightarrow> switcher_state \<Rightarrow> engine_restore_state \<Rightarrow> frame_rate \<Rightarrow> snapshot_error + unit" where
  "validate_idle_restore show realized rs rate =
     (let desired = sh_desired_switcher show; cursor = rs_frame_cursor rs in
      if sw_transition desired \<noteq> None \<or> sw_transition realized \<noteq> None then Inl WorkInFlight
      else if ftb_is_automatic desired \<or> ftb_is_automatic realized then Inl WorkInFlight
      else if sh_inputs show \<noteq> sw_inputs realized then Inl IncompatibleSwitcher
      else if routing_differs desired realized then Inl MismatchedSwitcherRouting
      else if \<not> same_manual_transition (sw_t_bar desired) (sw_t_bar realized) then Inl MismatchedManualTransition
      else and_then (expected_clock_ns rate cursor) (\<lambda>expected.
        if rs_clock_time rs \<noteq> expected then Inl (ClockTimeMismatch expected (rs_clock_time rs))
        else and_then (count_accepted cursor (rs_receipts rs) 0) (\<lambda>accepted.
          if rs_revision rs \<noteq> accepted \<or> rs_event_sequence rs \<noteq> accepted \<or> rs_runtime_generation rs \<noteq> accepted
          then Inl (CounterMismatch accepted (rs_revision rs) (rs_event_sequence rs) (rs_runtime_generation rs))
          else Inr ())))"

definition restore_persisted ::
  "show_state \<Rightarrow> switcher_state \<Rightarrow> frame_rate \<Rightarrow> clock_domain_id \<Rightarrow> engine_restore_state \<Rightarrow> snapshot_error + engine" where
  "restore_persisted show realized rate domain rs =
     and_then (validate_idle_restore show realized rs rate) (\<lambda>_.
     and_then (map_err (\<lambda>_. InvalidFrameCounter) (frame_scheduler_restore rate 0 (rs_frame_cursor rs) 0 ())) (\<lambda>scheduler.
       Inr \<lparr>en_commands = restore_with_receipts show (rs_state_epoch rs) (rs_revision rs) (rs_event_sequence rs)
                           (rs_receipts rs),
            en_receipt_history = bt_collect (rs_receipts rs), en_realized_switcher = realized,
            en_scheduler = scheduler, en_clock = manual_clock_new domain (rs_clock_time rs), en_frame_rate = rate,
            en_runtime_generation = rs_runtime_generation rs, en_pending_actions = 0,
            en_transition_in_flight = None\<rparr>))"

definition restore :: "engine_snapshot \<Rightarrow> engine_error + engine" where
  "restore snap =
     map_err EngineSnapshotError
       (restore_persisted (es_show snap) (es_realized_switcher snap) (es_frame_rate snap) (es_clock_domain snap)
          \<lparr>rs_state_epoch = es_state_epoch snap, rs_revision = es_revision snap,
           rs_event_sequence = es_event_sequence snap, rs_runtime_generation = es_runtime_generation snap,
           rs_clock_time = es_clock_time snap, rs_frame_cursor = es_frames_rendered snap,
           rs_receipts = es_receipts snap\<rparr>)"

text \<open>\<open>project\<close> ticks a copy of the staged engine and takes its snapshot.\<close>

fun engine_ticks :: "nat \<Rightarrow> (engine_error, unit, engine) panicking" where
  "engine_ticks 0 e = Some (Inr (), e)"
| "engine_ticks (Suc n) e =
     (case engine_tick e of
        None \<Rightarrow> None
      | Some (Inl err, e') \<Rightarrow> Some (Inl err, e')
      | Some (Inr _, e') \<Rightarrow> engine_ticks n e')"

definition project :: "u64 \<Rightarrow> prepared_execution \<Rightarrow> (engine_error + engine_snapshot) option" where
  "project ticks prepared =
     map_option (\<lambda>(r, projected). and_then r (\<lambda>_. map_err EngineSnapshotError (snapshot projected)))
       (engine_ticks (unat ticks) (pe_staged prepared))"

end
