(* ===== verification/Settle.thy ===== *)
theory Settle
  imports Switcher
begin

text \<open>
  Where a switcher is heading: \<open>settle\<close> finishes every move that is under way (the automatic transition,
  the fade to or from black, the overlay fades) and forgets where the last frame of a T-bar move ended.
  A frame does not change where a switcher is heading, and what the runtime requests of a moving
  switcher settles to what the direct commands do to the settled one.
\<close>

named_theorems settle_simps \<open>what settling does to the parts of a switcher\<close>

definition settle_overlay :: "overlay_channel_state \<Rightarrow> overlay_channel_state" where
  "settle_overlay ch =
     (case ov_automatic ch of
        None \<Rightarrow> ch
      | Some a \<Rightarrow> ch\<lparr>ov_opacity := ao_target_opacity a, ov_active := ao_target_active a, ov_automatic := None\<rparr>)"

definition settle_t_bar :: "t_bar_state \<Rightarrow> t_bar_state" where
  "settle_t_bar b = b\<lparr>tb_interval_start := 0\<rparr>"

definition settle :: "switcher_state \<Rightarrow> switcher_state" where
  "settle s =
     (let moved = (sw_transition s \<noteq> None) in
      s\<lparr>sw_transition := None,
        sw_program := (if moved then sw_preview s else sw_program s),
        sw_preview := (if moved then sw_program s else sw_preview s),
        sw_t_bar := map_option settle_t_bar (sw_t_bar s),
        sw_fade_to_black := ftb_settled (fc_target (sw_fade_to_black s)),
        sw_overlays := map settle_overlay (sw_overlays s)\<rparr>)"

lemma settle_fields [settle_simps]:
  "sw_transition (settle s) = None" "sw_inputs (settle s) = sw_inputs s"
  "sw_stingers (settle s) = sw_stingers s" "sw_streams (settle s) = sw_streams s"
  "sw_streams_running (settle s) = sw_streams_running s" "sw_recording_desired (settle s) = sw_recording_desired s"
  "sw_t_bar (settle s) = map_option settle_t_bar (sw_t_bar s)" "sw_overlays (settle s) = map settle_overlay (sw_overlays s)"
  "sw_fade_to_black (settle s) = ftb_settled (fc_target (sw_fade_to_black s))"
  by (simp_all add: settle_def Let_def)

lemma settle_t_bar_fields [settle_simps]:
  "tb_kind (settle_t_bar b) = tb_kind b" "tb_from (settle_t_bar b) = tb_from b" "tb_to (settle_t_bar b) = tb_to b"
  "tb_position (settle_t_bar b) = tb_position b" "tb_interval_start (settle_t_bar b) = 0"
  "settle_t_bar (settle_frame b) = settle_t_bar b" "settle_t_bar (set_position p b) = set_position p (settle_t_bar b)"
  "settle_t_bar (t_bar_new k i j) = t_bar_new k i j"
  by (simp_all add: settle_t_bar_def settle_frame_def set_position_def t_bar_new_def)

lemma settle_overlay_fields [settle_simps]:
  "ov_source (settle_overlay ch) = ov_source ch" "ov_queue (settle_overlay ch) = ov_queue ch"
  "ov_automatic (settle_overlay ch) = None"
  by (simp_all add: settle_overlay_def split: option.splits)

lemma settle_overlay_idle: "ov_automatic ch = None \<Longrightarrow> settle_overlay ch = ch"
  by (simp add: settle_overlay_def)

text \<open>Without a transition under way, settling keeps Program and Preview.\<close>

lemma settle_idle:
  assumes "sw_transition s = None"
  shows "settle s = s\<lparr>sw_t_bar := map_option settle_t_bar (sw_t_bar s),
    sw_fade_to_black := ftb_settled (fc_target (sw_fade_to_black s)), sw_overlays := map settle_overlay (sw_overlays s)\<rparr>"
  using assms by (simp add: settle_def)

lemma settle_idem: "settle (settle s) = settle s"
proof -
  have "map settle_overlay (map settle_overlay xs) = map settle_overlay xs" for xs
    by (simp add: settle_overlay_idle settle_overlay_fields)
  moreover have "map_option settle_t_bar (map_option settle_t_bar b) = map_option settle_t_bar b" for b
    by (cases b) (simp_all add: settle_t_bar_def)
  ultimately show ?thesis
    by (simp add: settle_idle settle_simps del: list.map_comp map_map option.map_comp) (simp add: settle_def Let_def ftb_settled_def)
qed

section \<open>A frame keeps the goal\<close>

lemma settle_overlay_step: "overlay_advance ch = Some (r, ch') \<Longrightarrow> settle_overlay ch' = settle_overlay ch"
  by (auto simp: overlay_advance_def settle_overlay_def Let_def bind_eq_Some_conv split: option.splits if_splits)

lemma settle_ftb_step: "ftb_advance c = Some (r, c') \<Longrightarrow> fc_target c' = fc_target c"
  by (auto simp: ftb_advance_def Let_def bind_eq_Some_conv split: option.splits if_splits)

lemma settle_overlays_step:
  "advance_overlays (zip cs chs) = Some (ev, chs') \<Longrightarrow> length cs = length chs \<Longrightarrow>
   map settle_overlay chs' = map settle_overlay chs \<and> (\<forall>i j. ProgramChanged i j \<notin> set ev)"
proof (induction chs arbitrary: cs ev chs')
  case (Cons ch chs)
  then obtain c cs' where cs: "cs = c # cs'" by (cases cs) auto
  obtain r ch' ev' rest where parts: "overlay_advance ch = Some (r, ch')"
    "advance_overlays (zip cs' chs) = Some (ev', rest)" "chs' = ch' # rest"
    "ev = (case oa_opacity_changed r of None \<Rightarrow> [] | Some opacity \<Rightarrow> [OverlayOpacityChanged c opacity])
       @ (case oa_completed r of None \<Rightarrow> [] | Some active \<Rightarrow> [OverlayTransitionCompleted c active]) @ ev'"
    using Cons.prems(1) by (auto simp: cs bind_eq_Some_conv)
  with Cons.IH [OF parts(2)] Cons.prems(2) settle_overlay_step [OF parts(1)] show ?case
    by (auto simp: cs split: option.splits)
qed simp

lemma fade_events_plain: "ProgramChanged i j \<notin> set (fade_to_black_events adv)"
  by (auto simp: fade_to_black_events_def split: option.splits)

lemma advance_frame_parts:
  assumes "advance_frame_events s = Some (ev, s')"
  obtains adv c ev2 s2 oev chs where "ftb_advance (sw_fade_to_black s) = Some (adv, c)"
    "advance_transition (s\<lparr>sw_fade_to_black := c, sw_t_bar := map_option settle_frame (sw_t_bar s)\<rparr>) = Some (ev2, s2)"
    "advance_overlays (zip OVERLAY_CHANNELS (sw_overlays s2)) = Some (oev, chs)"
    "ev = ev2 @ fade_to_black_events adv @ oev" "s' = s2\<lparr>sw_overlays := chs\<rparr>"
  using assms by (auto simp: advance_frame_events_def bind_eq_Some_conv Let_def)

lemma advance_transition_goal:
  assumes "advance_transition s = Some (ev, s')"
  shows "settle s' = settle s" "(\<exists>i j. ProgramChanged i j \<in> set ev) \<longleftrightarrow> sw_transition s \<noteq> None \<and> sw_transition s' = None"
    "sw_overlays s' = sw_overlays s" "sw_transition s = None \<Longrightarrow> sw_transition s' = None"
    "sw_transition s' = Some t' \<Longrightarrow> \<exists>t. sw_transition s = Some t \<and> tr_duration_frames t' = tr_duration_frames t"
  using assms
  by (auto simp: advance_transition_def transition_advance_def complete_take_def settle_def Let_def bind_eq_Some_conv
      split: option.splits if_splits)

lemma advance_frame_goal:
  assumes inv: "switcher_inv s" and adv: "advance_frame_events s = Some (ev, s')"
  shows "settle s' = settle s"
    "(\<exists>e \<in> set ev. \<exists>i j. e = ProgramChanged i j) \<longleftrightarrow> sw_transition s \<noteq> None \<and> sw_transition s' = None"
    "sw_transition s = None \<Longrightarrow> sw_transition s' = None"
    "sw_transition s' = Some t' \<Longrightarrow> \<exists>t. sw_transition s = Some t \<and> tr_duration_frames t' = tr_duration_frames t"
proof -
  obtain fadv c ev2 s2 oev chs where p: "ftb_advance (sw_fade_to_black s) = Some (fadv, c)"
    "advance_transition (s\<lparr>sw_fade_to_black := c, sw_t_bar := map_option settle_frame (sw_t_bar s)\<rparr>) = Some (ev2, s2)"
    "advance_overlays (zip OVERLAY_CHANNELS (sw_overlays s2)) = Some (oev, chs)"
    "ev = ev2 @ fade_to_black_events fadv @ oev" "s' = s2\<lparr>sw_overlays := chs\<rparr>"
    using adv by (rule advance_frame_parts)
  note tr = advance_transition_goal [OF p(2)]
  have "length OVERLAY_CHANNELS = length (sw_overlays s2)"
    using inv tr(3) by (simp add: switcher_inv_def OVERLAY_CHANNELS_def)
  note ov = settle_overlays_step [OF p(3) this]
  have "settle s' = settle s2" using ov by (simp add: p(5) settle_def Let_def)
  also have "\<dots> = settle (s\<lparr>sw_fade_to_black := c, sw_t_bar := map_option settle_frame (sw_t_bar s)\<rparr>)" by (rule tr(1))
  also have "\<dots> = settle s"
    using settle_ftb_step [OF p(1)] by (simp add: settle_def Let_def settle_simps option.map_comp comp_def)
  finally show "settle s' = settle s" .
  show "(\<exists>e \<in> set ev. \<exists>i j. e = ProgramChanged i j) \<longleftrightarrow> sw_transition s \<noteq> None \<and> sw_transition s' = None"
    "sw_transition s = None \<Longrightarrow> sw_transition s' = None"
    "sw_transition s' = Some t' \<Longrightarrow> \<exists>t. sw_transition s = Some t \<and> tr_duration_frames t' = tr_duration_frames t"
    using tr(2,4,5) ov fade_events_plain [of _ _ fadv] by (auto simp: p(4,5))
qed

text \<open>A countdown whose steps do not change where it is heading.\<close>

locale steady_countdown = frame_countdown inv remaining advance
  for inv :: "'s \<Rightarrow> bool" and remaining :: "'s \<Rightarrow> nat" and advance :: "'s \<Rightarrow> 's option" +
  fixes destination :: "'s \<Rightarrow> 'd"
  assumes advance_steady: "inv s \<Longrightarrow> advance s = Some s' \<Longrightarrow> destination s' = destination s"
begin

lemma frames_steady: "inv s \<Longrightarrow> advance_frames advance n s = Some s' \<Longrightarrow> destination s' = destination s"
proof (induction n arbitrary: s)
  case (Suc n)
  obtain s1 where s1: "advance s = Some s1" "inv s1" using advance_step [OF Suc.prems(1)] by blast
  then show ?case using Suc.IH [OF s1(2)] Suc.prems(2) advance_steady [OF Suc.prems(1) s1(1)] by simp
qed simp

end

interpretation goal: steady_countdown switcher_inv switcher_remaining switcher_step settle
proof
  fix s s' assume "switcher_inv s" "switcher_step s = Some s'"
  then show "settle s' = settle s" using advance_frame_goal(1) by (auto simp: switcher_step_def)
qed

lemma frames_ftb:
  assumes "switcher_inv s" "advance_frames switcher_step n s = Some s'"
  shows "advance_frames ftb_step n (sw_fade_to_black s) = Some (sw_fade_to_black s')"
  using assms
proof (induction n arbitrary: s)
  case (Suc n)
  obtain ev s1 where s1: "advance_frame_events s = Some (ev, s1)" "switcher_inv s1"
    "ftb_step (sw_fade_to_black s) = Some (sw_fade_to_black s1)"
    using advance_frame_facts [OF Suc.prems(1)] by blast
  with Suc.IH [OF s1(2)] Suc.prems(2) advance_frames_step [OF s1(1)] show ?case by simp
qed simp

text \<open>No move lasts longer than 3600 frames.\<close>

lemma frames_settle:
  assumes inv: "switcher_inv s" and run: "advance_frames switcher_step n s = Some s'" and n: "3600 \<le> n"
    and bound: "\<And>t. sw_transition s = Some t \<Longrightarrow> tr_duration_frames t \<le> 3600"
  shows "sw_transition s' = None" "fc_automatic (sw_fade_to_black s') = None" "\<not> overlays_in_motion s'"
    "switcher_inv s'" "settle s' = settle s"
proof -
  have s': "switcher_inv s'" "switcher_remaining s' = switcher_remaining s - n"
    using sw.advance_frames_total [OF inv, of n] run by auto
  have "switcher_remaining s \<le> n"
    using bound n by (fastforce simp: switcher_remaining_def word_less_unat split: option.splits)
  then show "sw_transition s' = None" using remaining_zero [OF s'(1)] s'(2) by simp
  show "switcher_inv s'" by (rule s')
  show "settle s' = settle s" by (rule goal.frames_steady [OF inv run])
  have ftb: "ftb_inv (sw_fade_to_black s)" "ftb_inv (sw_fade_to_black s')"
    using inv s'(1) by (simp_all add: switcher_inv_def)
  have "ftb_remaining (sw_fade_to_black s') = ftb_remaining (sw_fade_to_black s) - n"
    using ftb.advance_frames_total [OF ftb(1), of n] frames_ftb [OF inv run] by auto
  moreover have "ftb_remaining (sw_fade_to_black s) \<le> 3600"
    using ftb(1) by (auto simp: ftb_remaining_def ftb_inv_def word_less_unat split: option.splits)
  ultimately show "fc_automatic (sw_fade_to_black s') = None"
    using ftb(2) n by (auto simp: ftb_remaining_def ftb_inv_def word_less_unat split: option.splits)
  have "ov_automatic (sw_overlays s' ! i) = None" if i: "i < 8" for i
  proof -
    have mot: "overlay_motion_inv (sw_overlays s ! i)" "overlay_motion_inv (sw_overlays s' ! i)"
      using inv s'(1) i by (simp_all add: switcher_inv_def list_all_length overlay_inv_def)
    have "overlay_remaining (sw_overlays s' ! i) = overlay_remaining (sw_overlays s ! i) - n"
      using ovl.advance_frames_total [OF mot(1), of n] frames_overlay [OF inv run i] by auto
    moreover have "overlay_remaining (sw_overlays s ! i) \<le> 3600"
      using mot(1) by (auto simp: overlay_remaining_def overlay_motion_inv_def word_less_unat split: option.splits)
    ultimately show ?thesis
      using mot(2) n by (auto simp: overlay_remaining_def overlay_motion_inv_def word_less_unat split: option.splits)
  qed
  then show "\<not> overlays_in_motion s'"
    using s'(1) by (auto simp: overlays_in_motion_def switcher_inv_def in_set_conv_nth)
qed

section \<open>Commands and requests\<close>

lemma settle_put: "settle (s\<lparr>sw_overlays := chs\<rparr>) = (settle s)\<lparr>sw_overlays := map settle_overlay chs\<rparr>"
  by (simp add: settle_def Let_def)

lemma switcher_overlay_settle:
  "switcher_inv s \<Longrightarrow> channel_ok c \<Longrightarrow> switcher_overlay (settle s) c = settle_overlay (switcher_overlay s c)"
  using channel_ok_index [of c] by (simp add: switcher_overlay_def settle_simps switcher_inv_def)

lemma settle_update_slot: "settle (update_slot c f s) = update_slot c f (settle s)"
  by (simp add: update_slot_def settle_def Let_def switcher_stinger_def)

lemma switcher_stinger_settle [settle_simps]: "switcher_stinger (settle s) slot = switcher_stinger s slot"
  by (simp add: switcher_stinger_def settle_simps)

lemma playback_cong:
  assumes "sw_stingers s = sw_stingers s'"
  shows "playback_decision s slot = playback_decision s' slot"
  unfolding playback_decision_def switcher_stinger_def assms ..

lemma playback_settle [settle_simps]: "playback_decision (settle s) slot = playback_decision s slot"
  unfolding playback_decision_def switcher_stinger_settle ..

lemma require_settle [settle_simps]:
  "require_input i (settle s) = require_input i s" "sw_transition s = None \<Longrightarrow> require_idle (settle s) = require_idle s"
  by (simp_all add: require_input_def require_idle_def settle_simps)

text \<open>What one channel does when it moves settles to what it does directly.\<close>

lemma settle_overlay_ops:
  "settle_overlay (overlay_request_take i ch) = overlay_take i (settle_overlay ch)"
  "settle_overlay (overlay_request_off ch) = overlay_off (settle_overlay ch)"
  "settle_overlay (overlay_update i ch) = overlay_update i (settle_overlay ch)"
  "settle_overlay (overlay_configure_transition k d ch) = overlay_configure_transition k d (settle_overlay ch)"
  "settle_overlay (overlay_configure_appearance p b ch) = overlay_configure_appearance p b (settle_overlay ch)"
  "settle_overlay (overlay_set_output_inclusion out inc ch) = overlay_set_output_inclusion out inc (settle_overlay ch)"
  "settle_overlay (ch\<lparr>ov_queue := q\<rparr>) = (settle_overlay ch)\<lparr>ov_queue := q\<rparr>"
  by (auto simp: settle_overlay_def overlay_request_take_def overlay_take_def overlay_request_off_def overlay_off_def
      overlay_update_def overlay_configure_transition_def overlay_configure_appearance_def
      overlay_set_output_inclusion_def Let_def split: option.splits overlay_transition_kind.splits)

lemma settle_overlay_take_next:
  "fst (overlay_take_next (settle_overlay ch)) = fst (overlay_request_take_next ch)"
  "snd (overlay_take_next (settle_overlay ch)) = settle_overlay (snd (overlay_request_take_next ch))"
  by (auto simp: overlay_take_next_def overlay_request_take_next_def settle_simps settle_overlay_ops split: list.splits)

lemma settle_overlay_enqueue:
  "fst (overlay_enqueue i (settle_overlay ch)) = fst (overlay_enqueue i ch)"
  "snd (overlay_enqueue i (settle_overlay ch)) = settle_overlay (snd (overlay_enqueue i ch))"
  by (simp_all add: overlay_enqueue_def settle_simps settle_overlay_ops)

text \<open>
  The runtime operation \<open>R\<close> realizes the direct operation \<open>D\<close> from a moving switcher: whenever \<open>D\<close> is
  accepted by the settled switcher, \<open>R\<close> is accepted too and the result settles to the result of \<open>D\<close>;
  the transition under way stays as it is.
\<close>

definition realizes ::
  "('e, 'a, switcher_state) meth \<Rightarrow> ('f, 'b, switcher_state) meth \<Rightarrow> switcher_state \<Rightarrow> bool" where
  "realizes R D s \<longleftrightarrow>
     (\<not> isl (fst (D (settle s))) \<longrightarrow>
        \<not> isl (fst (R s)) \<and> settle (snd (R s)) = snd (D (settle s)) \<and> sw_transition (snd (R s)) = sw_transition s)"

lemma realizesD:
  assumes "realizes R D s" "D (settle s) = (Inr x, d)"
  obtains y s' where "R s = (Inr y, s')" "settle s' = d" "sw_transition s' = sw_transition s"
  using assms by (cases "R s"; cases "fst (R s)") (auto simp: realizes_def)

lemma transition_update [simp]:
  "sw_transition (update_channel c f s) = sw_transition s" "sw_transition (update_slot k g s) = sw_transition s"
  by (simp_all add: update_channel_def update_slot_def)

lemma overlay_realizes:
  assumes inv: "switcher_inv s" and ok: "channel_ok c"
  shows "realizes (request_overlay_take c i) (take_overlay c i) s"
    "realizes (request_overlay_off c) (switcher_overlay_off c) s"
    "realizes (update_overlay c i) (update_overlay c i) s"
    "realizes (configure_overlay_transition c k d) (configure_overlay_transition c k d) s"
    "realizes (configure_overlay_appearance c p b) (configure_overlay_appearance c p b) s"
    "realizes (set_overlay_output_inclusion c out inc) (set_overlay_output_inclusion c out inc) s"
proof -
  note up = update_channel_def settle_put map_update switcher_overlay_settle [OF inv ok]
  show "realizes (request_overlay_take c i) (take_overlay c i) s"
    "realizes (request_overlay_off c) (switcher_overlay_off c) s"
    "realizes (update_overlay c i) (update_overlay c i) s"
    "realizes (configure_overlay_transition c k d) (configure_overlay_transition c k d) s"
    "realizes (configure_overlay_appearance c p b) (configure_overlay_appearance c p b) s"
    "realizes (set_overlay_output_inclusion c out inc) (set_overlay_output_inclusion c out inc) s"
    by (cases "require_input i s"; simp add: realizes_def overlay_command_defs settle_simps settle_overlay_ops up
        del: require_Inr)+
qed

lemma overlay_queue_realizes:
  assumes inv: "switcher_inv s" and ok: "channel_ok c"
  shows "realizes (queue_overlay c i) (queue_overlay c i) s"
    "realizes (request_overlay_take_next c) (take_next_overlay c) s"
proof -
  let ?ch = "switcher_overlay s c"
  note at = switcher_overlay_settle [OF inv ok]
  note up = update_channel_def settle_put map_update
  show "realizes (queue_overlay c i) (queue_overlay c i) s"
    using settle_overlay_enqueue [of i ?ch]
    by (cases "overlay_enqueue i ?ch"; cases "overlay_enqueue i (settle_overlay ?ch)"; cases "require_input i s")
       (auto simp: realizes_def queue_overlay_def at up settle_simps simp del: require_Inr split: bool.splits)
  show "realizes (request_overlay_take_next c) (take_next_overlay c) s"
    using settle_overlay_take_next [of ?ch]
    by (cases "overlay_request_take_next ?ch"; cases "overlay_take_next (settle_overlay ?ch)")
       (auto simp: realizes_def take_next_overlay_def request_overlay_take_next_def at up settle_simps split: option.splits)
qed

lemma stream_realizes:
  "realizes (set_stream_running t r) (set_stream_running t r) s"
  "realizes (set_recording_desired a) (set_recording_desired a) s"
  by (simp_all add: realizes_def set_stream_running_def set_recording_desired_def settle_def Let_def)

lemma reorder_realizes: "realizes (reorder_inputs xs) (reorder_inputs xs) s"
  by (cases "validate_input_order (sw_inputs s) xs") (simp_all add: realizes_def reorder_inputs_def settle_def Let_def)

lemma fade_to_black_realizes:
  assumes "0 < d" "d \<le> 3600"
  shows "\<exists>ev s'. request_fade_to_black a d s = (Inr ev, s') \<and> sw_transition s' = sw_transition s
    \<and> settle s' = restore_settled_fade_to_black a (settle s)"
proof -
  have "validate_duration d = Inr ()" using assms by (auto simp: validate_duration_def MAX_FADE_TO_BLACK_DURATION_FRAMES_def)
  then obtain r c where "ftb_request (from_active a) d (sw_fade_to_black s) = (Inr r, c)" "fc_target c = from_active a"
    by (cases "fc_target (sw_fade_to_black s) = from_active a";
        cases "fc_position (sw_fade_to_black s) = target_position (from_active a)") (simp_all add: ftb_request_def)
  then show ?thesis
    by (simp add: request_fade_to_black_def restore_settled_fade_to_black_def settle_def Let_def)
qed

text \<open>Commands that need an idle switcher, from one without a transition under way.\<close>

lemma idle_realizes:
  assumes "sw_transition s = None"
  shows "realizes (switcher_apply (SelectPreview i)) (switcher_apply (SelectPreview i)) s"
    "realizes (switcher_apply Cut) (switcher_apply Cut) s"
    "realizes (switcher_apply (StartTBar k)) (switcher_apply (StartTBar k)) s"
    "realizes (switcher_apply (SetTBarPosition p)) (switcher_apply (SetTBarPosition p)) s"
    "realizes (switcher_apply CommitTBar) (switcher_apply CommitTBar) s"
    "realizes (switcher_apply CancelTBar) (switcher_apply CancelTBar) s"
  using assms
  by (cases "sw_t_bar s"; simp add: realizes_def and_then_def settle_idle require_idle_def require_input_def
      complete_take_def start_t_bar_def set_t_bar_position_def commit_t_bar_def cancel_t_bar_def settle_simps
      del: require_Inr)+

text \<open>A timed transition settles to a cut.\<close>

lemma begin_transition_settles:
  assumes "sw_transition s = None" "sw_t_bar s = None"
  shows "settle (s\<lparr>sw_transition := Some t\<rparr>) = snd (complete_take (settle s))"
  using assms by (simp add: settle_def Let_def complete_take_def)

lemma cut_settled:
  assumes "switcher_apply Cut (settle s) = (Inr x, d)" "sw_transition s = None"
  shows "sw_t_bar s = None" "d = snd (complete_take (settle s))" "require_idle s = Inr ()"
  using assms by (auto simp: require_idle_def settle_simps complete_take_def simp del: require_Inr split: if_splits)

end
