(* ===== verification/Engine_Refinement.thy ===== *)
theory Engine_Refinement
  imports Engine Settle
begin

text \<open>
  What the engine promises: the durable show is an abstract specification of the runtime. The desired
  switcher is where the realized switcher is heading once the scheduled commands have run, so that an
  accepted command never fails when its frame is rendered, the two agree after a bounded number of
  frames, and an idle engine can be saved and restored.
\<close>

section \<open>Accepted commands are realized\<close>

fun engine_command_ok :: "engine_command \<Rightarrow> bool" where
  "engine_command_ok (EStinger slot _) = channel_ok slot"
| "engine_command_ok (EConfigureStinger slot _) = channel_ok slot"
| "engine_command_ok (ERemoveStinger slot) = channel_ok slot"
| "engine_command_ok (ETakeOverlay c _) = channel_ok c"
| "engine_command_ok (EUpdateOverlay c _) = channel_ok c"
| "engine_command_ok (EOverlayOff c) = channel_ok c"
| "engine_command_ok (EConfigureOverlayTransition c _ _) = channel_ok c"
| "engine_command_ok (EConfigureOverlayAppearance c _ _) = channel_ok c"
| "engine_command_ok (EQueueOverlay c _) = channel_ok c"
| "engine_command_ok (ETakeNextOverlay c) = channel_ok c"
| "engine_command_ok (ESetOverlayOutputInclusion c _ _) = channel_ok c"
| "engine_command_ok (ESetManualTransitionPosition p) = (t_bar_position_new p = Some p)"
| "engine_command_ok _ = True"

text \<open>
  A stinger whose media is missing and that keeps Program, requested while a T-bar move is active: it is
  accepted without the test for an idle switcher that the runtime makes.
\<close>

definition unrealizable_stinger :: "engine_command \<Rightarrow> switcher_state \<Rightarrow> bool" where
  "unrealizable_stinger cmd sw \<longleftrightarrow>
     (case cmd of
        EStinger slot _ \<Rightarrow> playback_decision sw slot = Fallback KeepProgram \<and> sw_t_bar sw \<noteq> None
      | _ \<Rightarrow> False)"

lemma on_desired_Inr:
  "on_desired f s = (Inr x, s') \<longleftrightarrow>
     (\<exists>d. f (sh_desired_switcher s) = (Inr x, d) \<and> s' = s\<lparr>sh_desired_switcher := d\<rparr>)"
  by (auto simp: on_desired_def split: prod.splits)

lemma apply_desired_Inr:
  "apply_desired cmd c target s ev = (Inr a, s', ev') \<longleftrightarrow>
     (\<exists>x d. switcher_apply c (sh_desired_switcher s) = (Inr x, d) \<and> s' = s\<lparr>sh_desired_switcher := d\<rparr>)
     \<and> a = \<lparr>ea_target_frame = target\<rparr> \<and> ev' = ev @ [DesiredSwitcherChanged cmd]"
  by (auto simp: apply_desired_def on_desired_def split: prod.splits sum.splits)

lemma apply_overlay_Inr:
  "apply_overlay_mutation cmd c target s ev = (Inr a, s', ev') \<Longrightarrow> apply_desired cmd c target s ev = (Inr a, s', ev')"
  by (auto simp: apply_overlay_mutation_def split: engine_command.splits if_splits)

lemma apply_timed_Inr:
  "apply_timed name cmd d target s ev = (Inr a, s', ev') \<longleftrightarrow>
     0 < d \<and> d \<le> 3600 \<and> apply_desired cmd Cut target s ev = (Inr a, s', ev')"
  by (auto simp: apply_timed_def validate_transition_duration_def MAX_TRANSITION_DURATION_FRAMES_def word_neq_0_conv)

definition realized_as :: "engine_command \<Rightarrow> switcher_state \<Rightarrow> switcher_state \<Rightarrow> bool \<Rightarrow> bool" where
  "realized_as cmd s d launched \<longleftrightarrow>
     (\<exists>ev s'. apply_runtime cmd s = Some (Inr ev, s') \<and> settle s' = d
        \<and> (if launched then \<exists>t. sw_transition s' = Some t \<and> tr_duration_frames t \<le> 3600
           else sw_transition s' = sw_transition s))"

lemma realized_asI:
  assumes "realizes R D s" "D (settle s) = (Inr x, d)" "apply_runtime cmd s = Some (R s)"
  shows "realized_as cmd s d False"
  using realizesD [OF assms(1,2)] assms(3) by (metis realized_as_def)

lemma settle_complete_take:
  "sw_transition s = None \<Longrightarrow> settle (snd (complete_take s)) = snd (complete_take (settle s))"
  "sw_transition (snd (complete_take s)) = sw_transition s"
  by (simp_all add: settle_def Let_def complete_take_def)

text \<open>A timed transition, once the settled switcher accepts a cut.\<close>

lemma started_realized:
  assumes cut: "switcher_apply Cut (settle s) = (Inr x, d)" and idle: "sw_transition s = None" and n: "0 < n" "n \<le> 3600"
    and run: "apply_runtime cmd s = Some (Inr ev, s\<lparr>sw_transition := Some (transition_new kind (sw_program s) (sw_preview s) n)\<rparr>)"
  shows "realized_as cmd s d True"
  using run begin_transition_settles [OF idle cut_settled(1) [OF cut idle]] cut_settled(2) [OF cut idle] n
  by (auto simp: realized_as_def transition_new_def)

lemma timed_realized:
  assumes cut: "switcher_apply Cut (settle s) = (Inr x, d)" and idle: "sw_transition s = None" and n: "0 < n" "n \<le> 3600"
    and run: "apply_runtime cmd s = Some (switcher_apply (Transition kind n) s)
      \<or> kind = Wipe \<and> apply_runtime cmd s = Some (switcher_apply (WipeCommand n) s)"
    and plain: "\<And>slot. kind \<noteq> Stinger slot"
  shows "realized_as cmd s d True"
proof (rule started_realized [OF cut idle n])
  have "require_idle s = Inr ()" by (rule cut_settled(3) [OF cut idle])
  with run start_plain_transition [OF plain, where d = n and s = s] n(1)
  show "apply_runtime cmd s = Some (Inr [TransitionStarted kind (sw_program s) (sw_preview s) n],
    s\<lparr>sw_transition := Some (transition_new kind (sw_program s) (sw_preview s) n)\<rparr>)"
    by (auto simp del: start_transition.simps require_Inr)
qed

lemma stinger_realized:
  assumes acc: "apply_stinger slot n target show ev = (Inr a, show', ev')"
    and d: "sh_desired_switcher show = settle s" and idle: "sw_transition s = None"
    and sane: "\<not> unrealizable_stinger (EStinger slot n) (settle s)"
  shows "realized_as (EStinger slot n) s (sh_desired_switcher show') (stinger_runtime_transition show' slot \<noteq> None)"
proof -
  have n: "0 < n" "n \<le> 3600"
    using acc by (auto simp: apply_stinger_def validate_transition_duration_def MAX_TRANSITION_DURATION_FRAMES_def
        Let_def word_neq_0_conv split: if_splits)
  then have v: "validate_transition_duration ''stinger'' n = Inr ()"
    by (auto simp: validate_transition_duration_def MAX_TRANSITION_DURATION_FRAMES_def)
  let ?started = "\<lambda>kind. s\<lparr>sw_transition := Some (transition_new kind (sw_program s) (sw_preview s) n)\<rparr>"
  have run: "require_idle s = Inr () \<Longrightarrow>
    apply_runtime (EStinger slot n) s = Some (start_transition (Stinger slot) n s)"
    using n by (auto simp del: start_transition.simps require_Inr)
  have cutD: "\<exists>x d. switcher_apply Cut (settle s) = (Inr x, d) \<and> show' = show\<lparr>sh_desired_switcher := d\<rparr>"
    if "apply_desired (EStinger slot n) Cut target show ev = (Inr a, show', ev')"
    using that unfolding apply_desired_Inr d by blast
  have stay: "playback_decision (sh_desired_switcher show') slot = playback_decision s slot"
    if "apply_desired (EStinger slot n) Cut target show ev = (Inr a, show', ev')"
  proof (rule playback_cong)
    show "sw_stingers (sh_desired_switcher show') = sw_stingers s"
      using cutD [OF that] cut_settled(2) [OF _ idle] by (auto simp: complete_take_def settle_simps)
  qed
  show ?thesis
  proof (cases "playback_decision s slot")
    case Play
    then have ad: "apply_desired (EStinger slot n) Cut target show ev = (Inr a, show', ev')"
      and cp: "\<not> sd_cut_point_frames (the (ss_descriptor (switcher_stinger s slot))) > n"
      using acc v by (auto simp: apply_stinger_def d settle_simps Let_def split: if_splits)
    obtain x d' where cut: "switcher_apply Cut (settle s) = (Inr x, d')" "show' = show\<lparr>sh_desired_switcher := d'\<rparr>"
      using cutD [OF ad] by blast
    have "realized_as (EStinger slot n) s d' True"
    proof (rule started_realized [OF cut(1) idle n])
      show "apply_runtime (EStinger slot n) s
        = Some (Inr [TransitionStarted (Stinger slot) (sw_program s) (sw_preview s) n], ?started (Stinger slot))"
        using run [OF cut_settled(3) [OF cut(1) idle]] Play cp by simp
    qed
    then show ?thesis using stay [OF ad] Play cut(2) by (simp add: stinger_runtime_transition_def)
  next
    case (Fallback fb)
    show ?thesis
    proof (cases fb)
      case KeepProgram
      then have s': "show' = show" using acc v Fallback by (auto simp: apply_stinger_def d settle_simps)
      have "sw_t_bar s = None"
        using sane Fallback KeepProgram by (auto simp: unrealizable_stinger_def settle_simps)
      then have "require_idle s = Inr ()" using idle by simp
      from run [OF this] show ?thesis
        using Fallback KeepProgram s' d by (simp add: realized_as_def stinger_runtime_transition_def settle_simps)
    next
      case FallbackCut
      then have ad: "apply_desired (EStinger slot n) Cut target show ev = (Inr a, show', ev')"
        using acc v Fallback by (auto simp: apply_stinger_def d settle_simps)
      obtain x d' where cut: "switcher_apply Cut (settle s) = (Inr x, d')" "show' = show\<lparr>sh_desired_switcher := d'\<rparr>"
        using cutD [OF ad] by blast
      have "realized_as (EStinger slot n) s d' False"
        using run [OF cut_settled(3) [OF cut(1) idle]] Fallback FallbackCut cut_settled(2) [OF cut(1) idle]
          settle_complete_take [of s] idle
        by (auto simp: realized_as_def split_beta)
      then show ?thesis using stay [OF ad] Fallback FallbackCut cut(2) by (simp add: stinger_runtime_transition_def)
    next
      case FallbackFade
      then have ad: "apply_desired (EStinger slot n) Cut target show ev = (Inr a, show', ev')"
        using acc v Fallback by (auto simp: apply_stinger_def d settle_simps)
      obtain x d' where cut: "switcher_apply Cut (settle s) = (Inr x, d')" "show' = show\<lparr>sh_desired_switcher := d'\<rparr>"
        using cutD [OF ad] by blast
      have "realized_as (EStinger slot n) s d' True"
      proof (rule started_realized [OF cut(1) idle n])
        show "apply_runtime (EStinger slot n) s
          = Some (Inr [StingerFallbackApplied slot fb, TransitionStarted Fade (sw_program s) (sw_preview s) n], ?started Fade)"
          using run [OF cut_settled(3) [OF cut(1) idle]] Fallback FallbackFade by simp
      qed
      then show ?thesis using stay [OF ad] Fallback FallbackFade cut(2) by (simp add: stinger_runtime_transition_def)
    qed
  next
    case Unconfigured
    then show ?thesis using acc v by (auto simp: apply_stinger_def d settle_simps)
  qed
qed

lemma stinger_change_realized:
  "realizes (apply_runtime_configure slot d) (apply_configure_stinger slot d) s"
  by (cases "require_input (sd_media_input d) s")
     (simp_all add: realizes_def apply_runtime_configure_def apply_configure_stinger_def configure_stinger_def
       preload_stinger_def settle_simps settle_update_slot [symmetric] Let_def del: require_Inr)

lemma manual_transition_kinds: "kind_ok (manual_transition_kind k)"
  by (cases k) simp_all

text \<open>
  The simulation step: what the show accepts, the runtime performs, and the result is where the desired
  switcher stands.
\<close>

lemma accepted_realized:
  assumes inv: "switcher_inv s" and d: "sh_desired_switcher show = settle s" and ins: "sh_inputs show = sw_inputs s"
    and ok: "engine_command_ok cmd" and ready: "sw_transition s = None \<or> allowed_in_flight cmd"
    and sane: "\<not> unrealizable_stinger cmd (settle s)"
    and acc: "engine_mutation cmd target show ev = (Inr a, show', ev')"
  shows "realized_as cmd s (sh_desired_switcher show') (launched_transition cmd show' \<noteq> None)"
proof -
  have direct: "realized_as cmd s (sh_desired_switcher show') False"
    if "apply_desired cmd c target show ev = (Inr a, show', ev')" "realizes R (switcher_apply c) s"
      "apply_runtime cmd s = Some (R s)" for c R
    using that realized_asI [of R "switcher_apply c" s] by (auto simp: apply_desired_Inr d)
  have timed: "realized_as cmd s (sh_desired_switcher show') True"
    if "apply_timed name cmd n target show ev = (Inr a, show', ev')" "sw_transition s = None"
      "apply_runtime cmd s = Some (switcher_apply (Transition kind n) s)
        \<or> kind = Wipe \<and> apply_runtime cmd s = Some (switcher_apply (WipeCommand n) s)"
      "\<And>slot. kind \<noteq> Stinger slot" for name n kind
    using that timed_realized [of s _ _ n cmd kind] by (auto simp: apply_timed_Inr apply_desired_Inr d)
  note ov = overlay_realizes [OF inv] overlay_queue_realizes [OF inv]
  show ?thesis
  proof (cases cmd)
    case (EReorderInputs xs)
    then have "validate_input_order (sw_inputs s) xs = Inr ()" "sh_desired_switcher show' = (settle s)\<lparr>sw_inputs := xs\<rparr>"
      using acc ins by (auto simp: show_reorder_inputs_def reorder_inputs_def d settle_simps Let_def split: sum.splits)
    then show ?thesis by (simp add: EReorderInputs realized_as_def reorder_inputs_def settle_def Let_def)
  next
    case (ERenameInput i n)
    then have "sh_desired_switcher show' = settle s"
      using acc d by (auto simp: rename_input_def split: sum.splits prod.splits option.splits if_splits)
    then show ?thesis by (simp add: ERenameInput realized_as_def)
  next
    case (ESetInputAudioStrip i st)
    then have "sh_desired_switcher show' = settle s"
      using acc d
      by (auto simp: apply_audio_strip_mutation_def set_input_audio_strip_def split: sum.splits prod.splits option.splits if_splits)
    then show ?thesis by (simp add: ESetInputAudioStrip realized_as_def)
  next
    case (EFadeToBlack active n)
    then have "0 < n" "n \<le> 3600" "sh_desired_switcher show' = restore_settled_fade_to_black active (settle s)"
      using acc d by (auto simp: apply_fade_to_black_mutation_def validate_fade_to_black_duration_def
          MAX_FADE_TO_BLACK_DURATION_FRAMES_def word_neq_0_conv split: if_splits)
    with fade_to_black_realizes [of n active s] show ?thesis by (auto simp: EFadeToBlack realized_as_def)
  next
    case (EStinger slot n)
    then have "apply_stinger slot n target show ev = (Inr a, show', ev')" using acc by simp
    from stinger_realized [OF this d] show ?thesis using EStinger ready sane by simp
  next
    case (EConfigureStinger slot desc)
    then obtain d' where "apply_configure_stinger slot desc (settle s) = (Inr (), d')" "sh_desired_switcher show' = d'"
      using acc d by (auto simp: apply_stinger_mutation_def on_desired_def split: if_splits sum.splits prod.splits)
    with realized_asI [OF stinger_change_realized] show ?thesis by (simp add: EConfigureStinger)
  next
    case (ERemoveStinger slot)
    then have "sh_desired_switcher show' = remove_stinger slot (settle s)"
      using acc d by (auto simp: apply_stinger_mutation_def on_desired_def split: if_splits)
    then show ?thesis by (simp add: ERemoveStinger realized_as_def remove_stinger_def settle_update_slot)
  next
    case (EStreamStart t)
    then obtain x where "set_stream_running t True (settle s) = (Inr x, sh_desired_switcher show')"
      using acc d by (auto simp: apply_stream_mutation_def on_desired_def split: prod.splits sum.splits)
    with realized_asI [OF stream_realizes(1)] show ?thesis by (simp add: EStreamStart)
  next
    case (EStreamStop t)
    then obtain x where "set_stream_running t False (settle s) = (Inr x, sh_desired_switcher show')"
      using acc d by (auto simp: apply_stream_mutation_def on_desired_def split: prod.splits sum.splits)
    with realized_asI [OF stream_realizes(1)] show ?thesis by (simp add: EStreamStop)
  next
    case ERecordStart
    then obtain x where "set_recording_desired True (settle s) = (Inr x, sh_desired_switcher show')"
      using acc d by (auto simp: apply_recording_mutation_def on_desired_def Let_def split: prod.splits sum.splits)
    with realized_asI [OF stream_realizes(2)] show ?thesis by (simp add: ERecordStart)
  next
    case ERecordStop
    then obtain x where "set_recording_desired False (settle s) = (Inr x, sh_desired_switcher show')"
      using acc d by (auto simp: apply_recording_mutation_def on_desired_def Let_def split: prod.splits sum.splits)
    with realized_asI [OF stream_realizes(2)] show ?thesis by (simp add: ERecordStop)
  next
    case (EFade n)
    then show ?thesis using timed [of "''fade''" n Fade] acc ready by simp
  next
    case (EAlphaFade n)
    then show ?thesis using timed [of "''alpha fade''" n AlphaFade] acc ready by simp
  next
    case (ESlide n)
    then show ?thesis using timed [of "''slide''" n Slide] acc ready by simp
  next
    case (EZoom n)
    then show ?thesis using timed [of "''zoom''" n Zoom] acc ready by simp
  next
    case (EWipe n)
    then show ?thesis using timed [of "''wipe''" n Wipe] acc ready by simp
  next
    case (ETakeOverlay c i)
    then show ?thesis using direct [of "TakeOverlay c i" "request_overlay_take c i"] ov(1) acc ok
      by (auto simp: realizes_def dest: apply_overlay_Inr)
  next
    case (EUpdateOverlay c i)
    then show ?thesis using direct [of "UpdateOverlay c i" "switcher_apply (UpdateOverlay c i)"] ov(3) acc ok
      by (auto simp: realizes_def dest: apply_overlay_Inr)
  next
    case (EOverlayOff c)
    then show ?thesis using direct [of "OverlayOff c" "request_overlay_off c"] ov(2) acc ok
      by (auto simp: realizes_def dest: apply_overlay_Inr)
  next
    case (EConfigureOverlayTransition c k n)
    then show ?thesis
      using direct [of "ConfigureOverlayTransition c k n" "switcher_apply (ConfigureOverlayTransition c k n)"] ov(4) acc ok
      by (auto simp: realizes_def dest: apply_overlay_Inr)
  next
    case (EConfigureOverlayAppearance c p b)
    then show ?thesis
      using direct [of "ConfigureOverlayAppearance c p b" "switcher_apply (ConfigureOverlayAppearance c p b)"] ov(5) acc ok
      by (auto simp: realizes_def dest: apply_overlay_Inr)
  next
    case (EQueueOverlay c i)
    then show ?thesis using direct [of "QueueOverlay c i" "switcher_apply (QueueOverlay c i)"] ov(7) acc ok
      by (auto simp: realizes_def dest: apply_overlay_Inr)
  next
    case (ETakeNextOverlay c)
    then show ?thesis using direct [of "TakeNextOverlay c" "request_overlay_take_next c"] ov(8) acc ok
      by (auto simp: realizes_def dest: apply_overlay_Inr)
  next
    case (ESetOverlayOutputInclusion c out inc)
    then show ?thesis
      using direct [of "SetOverlayOutputInclusion c out inc" "switcher_apply (SetOverlayOutputInclusion c out inc)"] ov(6) acc ok
      by (auto simp: realizes_def dest: apply_overlay_Inr)
  next
    case (ESelectPreview i)
    then show ?thesis using direct [of "SelectPreview i" "switcher_apply (SelectPreview i)"] idle_realizes(1) acc ready by simp
  next
    case ECut
    then show ?thesis using direct [of Cut "switcher_apply Cut"] idle_realizes(2) acc ready by simp
  next
    case (EStartManualTransition k)
    then show ?thesis
      using direct [of "StartTBar (manual_transition_kind k)" "switcher_apply (StartTBar (manual_transition_kind k))"]
        idle_realizes(3) acc ready by simp
  next
    case (ESetManualTransitionPosition p)
    then show ?thesis
      using direct [of "SetTBarPosition p" "switcher_apply (SetTBarPosition p)"] idle_realizes(4) acc ready by simp
  next
    case ECommitManualTransition
    then show ?thesis using direct [of CommitTBar "switcher_apply CommitTBar"] idle_realizes(5) acc ready by simp
  next
    case ECancelManualTransition
    then show ?thesis using direct [of CancelTBar "switcher_apply CancelTBar"] idle_realizes(6) acc ready by simp
  qed
qed

section \<open>Commands keep the show and the runtime well formed\<close>

lemma on_desired_inv:
  assumes "show_inv s" "switcher_inv (snd (f (sh_desired_switcher s)))"
    "sw_inputs (snd (f (sh_desired_switcher s))) = sw_inputs (sh_desired_switcher s)"
  shows "show_inv (snd (on_desired f s))"
  using show_inv_desired [OF assms(1,2)] assms(3) show_inv_switcher(2) [OF assms(1)]
  by (simp add: on_desired_def split_beta)

lemma apply_desired_inv:
  assumes "show_inv s" "command_ok c"
  shows "show_inv (fst (snd (apply_desired cmd c target s ev)))"
proof -
  have "show_inv (snd (on_desired (switcher_apply c) s))"
    by (rule on_desired_inv [OF assms(1)])
       (simp_all add: switcher_apply_inv [OF show_inv_switcher(1) [OF assms(1)] assms(2)] inputs_apply)
  then show ?thesis by (auto simp: apply_desired_def split: prod.splits sum.splits)
qed

lemma configure_inputs:
  "sw_inputs (snd (configure_stinger k d s)) = sw_inputs s" "sw_inputs (snd (preload_stinger k b s)) = sw_inputs s"
  by (simp_all add: configure_stinger_def preload_stinger_def Let_def split: sum.splits)

lemma stinger_changes_inv:
  assumes "switcher_inv s" "channel_ok slot"
  shows "switcher_inv (snd (apply_configure_stinger slot d s))"
    "sw_inputs (snd (apply_configure_stinger slot d s)) = sw_inputs s"
    "switcher_inv (snd (apply_runtime_configure slot d s))"
proof -
  note c = stinger_ops_inv(1) [OF assms, of d] configure_inputs(1) [of slot d s]
  note p = stinger_ops_inv(3) [OF c(1) assms(2), of True] configure_inputs(2) [of slot True "snd (configure_stinger slot d s)"]
  show "switcher_inv (snd (apply_configure_stinger slot d s))"
    "sw_inputs (snd (apply_configure_stinger slot d s)) = sw_inputs s"
    "switcher_inv (snd (apply_runtime_configure slot d s))"
    using c p by (auto simp: apply_configure_stinger_def apply_runtime_configure_def split: prod.splits sum.splits)
qed

lemma stinger_mutation_inv:
  assumes "show_inv s" "\<And>sw. switcher_inv sw \<Longrightarrow> switcher_inv (snd (f sw)) \<and> sw_inputs (snd (f sw)) = sw_inputs sw"
  shows "show_inv (fst (snd (apply_stinger_mutation cmd f target s ev)))"
proof -
  have "show_inv (snd (on_desired f s))"
    using assms(2) [OF show_inv_switcher(1) [OF assms(1)]] by (intro on_desired_inv [OF assms(1)]) simp_all
  then show ?thesis using assms(1) by (auto simp: apply_stinger_mutation_def split: prod.splits sum.splits)
qed

text \<open>The mutations that change the show through one of its own operations.\<close>

lemma mutation_by_call:
  assumes "show_inv s" "show_call_ok c" "snd (show_do c s) = fst (snd (engine_mutation cmd target s ev))"
  shows "show_inv (fst (snd (engine_mutation cmd target s ev)))"
  using show_do_facts [OF assms(1,2)] assms(3) by simp

lemma record_inv:
  assumes "show_inv s"
  shows "show_inv (snd (on_desired (set_recording_desired a) s))"
  using switcher_apply_inv [OF show_inv_switcher(1) [OF assms], of "SetRecordingDesired a"]
    inputs_apply [of "SetRecordingDesired a"]
  by (intro on_desired_inv [OF assms]) simp_all

lemma engine_mutation_inv:
  assumes inv: "show_inv s" and ok: "engine_command_ok cmd"
  shows "show_inv (fst (snd (engine_mutation cmd target s ev)))"
proof -
  note ad = apply_desired_inv [OF inv]
  have timed: "show_inv (fst (snd (apply_timed name c d target s ev)))" for name c d
    using ad [of Cut] inv by (simp add: apply_timed_def split: sum.splits)
  have ov: "show_inv (fst (snd (apply_overlay_mutation c sc target s ev)))" if "command_ok sc" for c sc
    using ad [OF that] inv by (simp add: apply_overlay_mutation_def split: engine_command.splits)
  have sting: "show_inv (fst (snd (apply_stinger slot d target s ev)))" for slot d
    using ad [of Cut] inv
    by (simp add: apply_stinger_def Let_def split: sum.splits stinger_playback_decision.splits missing_media_fallback.splits)
  have stream: "show_inv (fst (snd (apply_stream_mutation t r target s ev)))" for t r
    using show_do_facts [OF inv, of "ShowSetStreamRunning t r"]
    by (auto simp: apply_stream_mutation_def show_call_ok_def show_set_stream_running_def split: prod.splits sum.splits)
  have recd: "show_inv (fst (snd (apply_recording_mutation a target s ev)))" for a
    using record_inv [OF inv, of a] by (auto simp: apply_recording_mutation_def Let_def split: prod.splits sum.splits)
  have strip: "show_inv (fst (snd (apply_audio_strip_mutation i st target s ev)))" for i st
    using show_do_facts [OF inv, of "ShowSetAudioStrip i st"] inv
    by (auto simp: apply_audio_strip_mutation_def show_call_ok_def split: prod.splits sum.splits)
  have ren: "show_inv (fst (snd (engine_mutation (ERenameInput i n) target s ev)))" for i n
    using rename_input_inv(1) [OF inv, of i n] by (auto split: prod.splits sum.splits)
  have reo: "show_inv (fst (snd (engine_mutation (EReorderInputs xs) target s ev)))" for xs
    using show_reorder_inv [OF inv, of xs] by (auto split: prod.splits sum.splits)
  have ftb: "show_inv (fst (snd (apply_fade_to_black_mutation a d target s ev)))" for a d
    using show_do_facts [OF inv, of "ShowRestoreFadeToBlack a"] inv
    by (simp add: apply_fade_to_black_mutation_def show_call_ok_def restore_fade_to_black_def split: sum.splits)
  have conf: "show_inv (fst (snd (apply_stinger_mutation c (apply_configure_stinger slot d) target s ev)))"
    if "channel_ok slot" for c slot d
    by (rule stinger_mutation_inv [OF inv]) (simp add: stinger_changes_inv that)
  have rem: "show_inv (fst (snd (apply_stinger_mutation c (\<lambda>sw. (Inr (), remove_stinger slot sw)) target s ev)))"
    if "channel_ok slot" for c slot
    by (rule stinger_mutation_inv [OF inv]) (simp add: stinger_ops_inv(2) that, simp add: remove_stinger_def)
  show ?thesis
    using ok by (cases cmd) (simp_all add: ad timed ov sting stream recd strip ftb conf rem ren [simplified] reo [simplified]
        manual_transition_kinds)
qed

lemma apply_runtime_inv:
  assumes inv: "switcher_inv s" and ok: "engine_command_ok cmd" and run: "apply_runtime cmd s = Some (r, s')"
  shows "switcher_inv s'"
proof -
  note app = switcher_apply_inv [OF inv]
  show ?thesis
  proof (cases cmd)
    case (EReorderInputs xs)
    then show ?thesis using run reorder_inputs_inv(1) [OF inv, of xs] by (auto split: prod.splits sum.splits)
  next
    case (EFadeToBlack a d)
    then show ?thesis using run request_ftb_facts(1) [OF inv, of a d] by (auto split: prod.splits sum.splits)
  next
    case (EConfigureStinger slot d)
    then show ?thesis using run stinger_changes_inv(3) [OF inv, of slot d] ok by (auto simp: prod_eq_iff)
  next
    case (ERemoveStinger slot)
    then show ?thesis using run stinger_ops_inv(2) [OF inv, of slot] ok by auto
  next
    case (EStreamStart t)
    then show ?thesis using run app [of "SetStreamRunning t True"] by (auto simp: prod_eq_iff)
  next
    case (EStreamStop t)
    then show ?thesis using run app [of "SetStreamRunning t False"] by (auto simp: prod_eq_iff)
  next
    case ERecordStart
    then show ?thesis using run app [of "SetRecordingDesired True"] by (auto simp: prod_eq_iff)
  next
    case ERecordStop
    then show ?thesis using run app [of "SetRecordingDesired False"] by (auto simp: prod_eq_iff)
  qed (use run ok app inv overlay_commands_inv [OF inv] manual_transition_kinds in
       \<open>auto simp: prod_eq_iff simp del: switcher_apply.simps\<close>)
qed

text \<open>An accepted command names the frame it is scheduled for.\<close>

lemma mutation_target:
  assumes "engine_mutation cmd target s ev = (Inr a, s', ev')"
  shows "ea_target_frame a = target"
proof -
  have desired: "apply_desired c sc target s ev = (Inr a, s', ev') \<Longrightarrow> ea_target_frame a = target" for c sc
    by (auto simp: apply_desired_Inr)
  have overlay: "apply_overlay_mutation c sc target s ev = (Inr a, s', ev') \<Longrightarrow> ea_target_frame a = target" for c sc
    using desired apply_overlay_Inr by blast
  have stinger: "apply_stinger slot n target s ev = (Inr a, s', ev') \<Longrightarrow> ea_target_frame a = target" for slot n
    using desired by (auto simp: apply_stinger_def Let_def
        split: sum.splits stinger_playback_decision.splits missing_media_fallback.splits if_splits)
  show ?thesis
    using assms desired overlay stinger
    by (cases cmd) (auto simp: apply_timed_Inr apply_stinger_mutation_def apply_stream_mutation_def
        apply_recording_mutation_def apply_fade_to_black_mutation_def apply_audio_strip_mutation_def Let_def
        split: prod.splits sum.splits if_splits)
qed

end
