(* ===== verification/Engine_Runs.thy ===== *)
theory Engine_Runs
  imports Engine_Refinement
begin

text \<open>
  Runs of the engine: commands and frames in any order, from a fresh or a restored engine. The invariant
  of a run ties the durable show, the scheduled actions, the realized switcher, the clock and the
  receipts together; the properties of the engine rest on it.
\<close>

section \<open>The order of the scheduled actions\<close>

abbreviation queue_actions :: "'a action_queue \<Rightarrow> 'a list" where
  "queue_actions q \<equiv> map (sa_action \<circ> snd) (aq_ordered q)"

definition all_target :: "frame_number \<Rightarrow> 'a action_queue \<Rightarrow> bool" where
  "all_target f q \<longleftrightarrow> (\<forall>k \<in> bt_keys (aq_ordered q). fst k = f)"

lemma queue_inv_keys:
  assumes "queue_inv q" "(f, i) \<in> bt_keys (aq_ordered q)"
  shows "i \<le> aq_next_sequence q"
  using assms queue_inv_ordered(3) [OF assms(1), of f i] by (auto simp: bt_key_iff)

text \<open>An action for the frame that all others wait for goes to the end, and its removal undoes it.\<close>

lemma schedule_last:
  assumes inv: "queue_inv q" and all: "all_target f q" and sched: "schedule_action f a q = (Inr n, q')"
  shows "aq_ordered q' = aq_ordered q @ [((f, n), \<lparr>sa_id = n, sa_target_frame = f, sa_action = a\<rparr>)]"
    "queue_actions (snd (cancel_action n q')) = queue_actions q" "queue_inv q'" "queue_inv (snd (cancel_action n q'))"
    "all_target f q'" "all_target f (snd (cancel_action n q'))"
proof -
  have fresh: "aq_next_sequence q < n" and inv': "queue_inv q'" using queue_schedule [OF inv, of f a] sched by auto
  have q': "q' = insert_action n f a (q\<lparr>aq_next_sequence := n\<rparr>)"
    using sched by (cases rule: allocate_id_cases [of q]) (auto simp: schedule_action_def)
  have below: "\<forall>k \<in> bt_keys (aq_ordered q). k < (f, n)"
  proof
    fix k assume k: "k \<in> bt_keys (aq_ordered q)"
    then have "fst k = f" "snd k \<le> aq_next_sequence q"
      using all queue_inv_keys [OF inv, of "fst k" "snd k"] by (auto simp: all_target_def)
    with fresh show "k < (f, n)" by (cases k) (simp add: order_le_less_trans)
  qed
  show ord: "aq_ordered q' = aq_ordered q @ [((f, n), \<lparr>sa_id = n, sa_target_frame = f, sa_action = a\<rparr>)]"
    using bt_insert_last [OF below] by (simp add: q' insert_action_def Let_def)
  have "aq_by_id q' n = Some (f, n)" by (simp add: q' insert_action_def Let_def)
  moreover have "bt_remove (f, n) (aq_ordered q') = aq_ordered q"
    unfolding ord by (rule bt_remove_last) (use below in fastforce)
  ultimately have undo: "aq_ordered (snd (cancel_action n q')) = aq_ordered q" by (simp add: cancel_action_def)
  then show "queue_actions (snd (cancel_action n q')) = queue_actions q" by simp
  show "queue_inv q'" by (rule inv')
  show "queue_inv (snd (cancel_action n q'))" by (rule queue_cancel(1) [OF inv'])
  show "all_target f q'" "all_target f (snd (cancel_action n q'))"
    using all by (auto simp: all_target_def ord undo)
qed

lemma drain_all:
  assumes inv: "queue_inv q" and all: "all_target f q"
  shows "map sa_action (fst (drain_due f q)) = queue_actions q" "aq_ordered (snd (drain_due f q)) = []"
proof -
  have entry: "k = (f, sa_id x) \<and> sa_target_frame x = f \<and> queue_store q (sa_id x) = Some (f, sa_action x)"
    if "(k, x) \<in> set (aq_ordered q)" for k x
  proof -
    obtain g i where k: "k = (g, i)" by fastforce
    have "g = f" using all that by (force simp: all_target_def k)
    moreover have m: "map_of (aq_ordered q) (g, i) = Some x" using queue_mem_ordered [OF inv] that k by simp
    note mo = queue_inv_ordered [OF inv m]
    then have "x = \<lparr>sa_id = i, sa_target_frame = g, sa_action = sa_action x\<rparr>" by simp
    with m have "queue_store q i = Some (g, sa_action x)" using queue_store_Some [OF inv] by metis
    ultimately show ?thesis using mo k by simp
  qed
  have "k \<le> (f, - 1)" if "(k, x) \<in> set (aq_ordered q)" for k x using entry [OF that] by simp
  then have range: "bt_range_to (f, - 1) (aq_ordered q) = aq_ordered q"
    by (auto simp: bt_range_to_def intro!: filter_True)
  have "distinct (map fst (aq_ordered q))" using inv by (simp add: queue_inv_def bt_sorted_distinct)
  moreover have "inj_on snd (set (map fst (aq_ordered q)))"
    using all unfolding all_target_def by (intro inj_onI) (metis list.set_map prod_eqI)
  ultimately have "distinct (map snd (map fst (aq_ordered q)))" by (simp only: distinct_map)
  moreover have "\<forall>(g, i) \<in> set (map fst (aq_ordered q)). \<exists>a. queue_store q i = Some (g, a)"
    using entry by fastforce
  ultimately have "fst (drain_due f q) = map (\<lambda>(g, i). \<lparr>sa_id = i, sa_target_frame = g,
      sa_action = snd (the (queue_store q i))\<rparr>) (map fst (aq_ordered q))"
    using queue_cancel_keys [OF inv, of "map fst (aq_ordered q)"] by (simp add: drain_due_def range)
  then have "map sa_action (fst (drain_due f q)) = map (\<lambda>(k, x). snd (the (queue_store q (snd k)))) (aq_ordered q)"
    by (simp add: split_beta comp_def)
  also have "\<dots> = queue_actions q"
  proof (intro map_cong refl)
    fix p assume "p \<in> set (aq_ordered q)"
    then have "(fst p, snd p) \<in> set (aq_ordered q)" by simp
    from entry [OF this] show "(case p of (k, x) \<Rightarrow> snd (the (queue_store q (snd k)))) = (sa_action \<circ> snd) p"
      by (cases p) auto
  qed
  finally show "map sa_action (fst (drain_due f q)) = queue_actions q" .
  have "queue_store (snd (drain_due f q)) i = None" for i
  proof (cases "queue_store q i")
    case (Some fa)
    then obtain g a where fa: "fa = (g, a)" by fastforce
    with Some queue_store_Some [OF inv] have "((g, i), \<lparr>sa_id = i, sa_target_frame = g, sa_action = a\<rparr>) \<in> set (aq_ordered q)"
      using queue_mem_ordered [OF inv] by simp
    with entry have "g = f" by fastforce
    with Some fa queue_drain(3) [OF inv] show ?thesis by (simp add: drop_due_def)
  qed (simp add: queue_drain(3) [OF inv] drop_due_def)
  note gone = this
  have "(k, x) \<notin> set (aq_ordered (snd (drain_due f q)))" for k x
  proof
    assume "(k, x) \<in> set (aq_ordered (snd (drain_due f q)))"
    then have "map_of (aq_ordered (snd (drain_due f q))) (fst k, snd k) = Some x"
      using queue_mem_ordered [OF queue_drain(1) [OF inv]] by simp
    from queue_inv_ordered(4) [OF queue_drain(1) [OF inv] this]
    have "aq_by_id (snd (drain_due f q)) (snd k) \<noteq> None" by simp
    with queue_store_None [OF queue_drain(1) [OF inv]] gone show False by simp
  qed
  then show "aq_ordered (snd (drain_due f q)) = []" by (metis list.set_intros(1) neq_Nil_conv surj_pair)
qed

section \<open>Applying a command whose key is new\<close>

lemma apply_command_fresh:
  assumes fresh: "st_receipts cs (env_key env) = None"
  obtains (accepted) rv sq draft evs a m receipt where "prepare (st_state cs) (env_command env) = Inr m"
      "m (st_state cs) [] = (Inr a, draft, map dev_payload evs)" "unat rv = Suc (unat (st_revision cs))"
      "unat sq = unat (st_sequence cs) + length evs"
      "receipt = ReceiptAccepted (env_id env) \<lparr>acc_revision = rv, acc_result = a\<rparr>"
      "apply_command prepare env now cs = (\<lparr>out_receipt = receipt, out_events = evs, out_replayed = False\<rparr>,
         \<lparr>st_state = draft, st_epoch = st_epoch cs, st_revision = rv, st_sequence = sq,
          st_receipts = (st_receipts cs)(env_key env \<mapsto> receipt)\<rparr>)"
  | (rejected) r receipt where "receipt = ReceiptRejected (env_id env) r"
      "apply_command prepare env now cs = (\<lparr>out_receipt = receipt, out_events = [], out_replayed = False\<rparr>,
         cs\<lparr>st_receipts := (st_receipts cs)(env_key env \<mapsto> receipt)\<rparr>)"
proof -
  have rej: thesis if "prepare_command prepare env now cs = Prepared (prepared_rejection cs (env_id env) (env_key env) r)" for r
    using that rejected [OF refl] by (simp add: apply_command_def commit_current_def prepared_rejection_def Let_def)
  have "(\<exists>r. prepare_command prepare env now cs = Prepared (prepared_rejection cs (env_id env) (env_key env) r))
    \<or> (\<exists>m. prepare (st_state cs) (env_command env) = Inr m
         \<and> prepare_command prepare env now cs = Prepared (prepared_mutation cs (env_id env) (env_key env) m))"
    using fresh by (auto simp: prepare_command_def split: sum.splits)
  then show thesis
  proof (elim disjE exE conjE)
    fix m assume m: "prepare (st_state cs) (env_command env) = Inr m"
      and p: "prepare_command prepare env now cs = Prepared (prepared_mutation cs (env_id env) (env_key env) m)"
    obtain x draft ps where step: "m (st_state cs) [] = (x, draft, ps)" by (cases "m (st_state cs) []") auto
    have "(\<exists>r. prepared_mutation cs (env_id env) (env_key env) m = prepared_rejection cs (env_id env) (env_key env) r)
      \<or> (\<exists>a rv evs sq. x = Inr a \<and> checked_next (st_revision cs) = Inr rv
           \<and> number_events (st_epoch cs) rv (st_sequence cs) ps = Some (evs, sq))"
      by (auto simp: prepared_mutation_def step split: sum.splits option.splits)
    then show thesis
    proof (elim disjE exE conjE)
      fix a rv evs sq assume ok: "x = Inr a" "checked_next (st_revision cs) = Inr rv"
        "number_events (st_epoch cs) rv (st_sequence cs) ps = Some (evs, sq)"
      have "unat rv = Suc (unat (st_revision cs))" using ok(2) by (simp add: checked_simps)
      then show thesis
        by (intro accepted [OF m, of a draft evs rv sq, OF _ _ _ refl])
           (use number_events_Some [OF ok(3)] ok step p in \<open>simp_all add: apply_command_def
              prepared_mutation_def commit_current_def Let_def\<close>)
    qed (use p rej in auto)
  qed (rule rej)
qed

section \<open>The invariant of a run\<close>

abbreviation engine_queue :: "engine \<Rightarrow> engine_command action_queue" where
  "engine_queue e \<equiv> fs_actions (en_scheduler e)"

definition pending :: "engine \<Rightarrow> engine_command list" where
  "pending e = queue_actions (engine_queue e)"

text \<open>The scheduled commands, applied to the realized switcher in their order.\<close>

fun replay :: "engine_command list \<Rightarrow> switcher_state \<Rightarrow> switcher_state option" where
  "replay [] s = Some s"
| "replay (cmd # cmds) s =
     (case apply_runtime cmd s of Some (Inr _, s') \<Rightarrow> replay cmds s' | _ \<Rightarrow> None)"

text \<open>The durable show specifies where the runtime is heading.\<close>

definition heading :: "engine \<Rightarrow> switcher_state \<Rightarrow> bool" where
  "heading e s \<longleftrightarrow>
     replay (pending e) (en_realized_switcher e) = Some s \<and> switcher_inv s \<and> settle s = engine_desired e
     \<and> (en_transition_in_flight e = None \<longleftrightarrow> sw_transition s = None)
     \<and> (\<forall>t. sw_transition s = Some t \<longrightarrow> tr_duration_frames t \<le> 3600)"

definition is_accepted :: "'r command_receipt \<Rightarrow> bool" where
  "is_accepted r \<longleftrightarrow> receipt_accepted r \<noteq> None"

definition receipts_inv :: "engine \<Rightarrow> bool" where
  "receipts_inv e \<longleftrightarrow>
     bt_sorted (en_receipt_history e) \<and> map_of (en_receipt_history e) = st_receipts (en_commands e)
     \<and> length (filter (is_accepted \<circ> snd) (en_receipt_history e)) = unat (st_revision (en_commands e))
     \<and> (\<forall>k r a. st_receipts (en_commands e) k = Some r \<and> receipt_accepted r = Some a \<longrightarrow>
          ea_target_frame (acc_result a) < frame_cursor e
          \<or> ea_target_frame (acc_result a) = frame_cursor e \<and> pending e \<noteq> [])"

definition engine_inv :: "engine \<Rightarrow> bool" where
  "engine_inv e \<longleftrightarrow>
     show_inv (engine_show e) \<and> switcher_inv (en_realized_switcher e) \<and> scheduler_inv (en_scheduler e)
     \<and> all_target (frame_cursor e) (engine_queue e)
     \<and> en_pending_actions e = length (pending e) \<and> (\<forall>cmd \<in> set (pending e). engine_command_ok cmd)
     \<and> fs_pacer (en_scheduler e) = \<lparr>fp_frame_rate = en_frame_rate e, fp_origin_ns = 0, fp_next_frame = frame_cursor e\<rparr>
     \<and> expected_clock_ns (en_frame_rate e) (frame_cursor e) = Inr (engine_clock_time e)
     \<and> (\<exists>s. heading e s)
     \<and> (\<forall>b. sw_t_bar (en_realized_switcher e) = Some b \<longrightarrow> tb_interval_start b = tb_position b)
     \<and> unat (st_revision (en_commands e)) = unat (en_runtime_generation e) + length (pending e)
     \<and> receipts_inv e"

lemma replay_append: "replay (xs @ ys) s = Option.bind (replay xs s) (replay ys)"
  by (induction xs arbitrary: s) (auto split: option.splits prod.splits sum.splits)

lemma filter_bt_insert:
  "k \<notin> bt_keys m \<Longrightarrow> length (filter P (bt_insert k v m)) = length (filter P m) + (if P (k, v) then 1 else 0)"
  by (induction k v m rule: bt_insert.induct) auto

text \<open>A recorded receipt of a new key.\<close>

lemma receipts_inv_insert:
  assumes inv: "receipts_inv e" and fresh: "st_receipts (en_commands e) key = None"
    and e': "en_receipt_history e' = bt_insert key r (en_receipt_history e)"
      "st_receipts (en_commands e') = (st_receipts (en_commands e))(key \<mapsto> r)"
      "unat (st_revision (en_commands e')) = unat (st_revision (en_commands e)) + (if is_accepted r then 1 else 0)"
      "frame_cursor e' = frame_cursor e"
    and pend: "is_accepted r \<or> pending e \<noteq> [] \<longrightarrow> pending e' \<noteq> []"
      "\<And>a. receipt_accepted r = Some a \<Longrightarrow> ea_target_frame (acc_result a) = frame_cursor e"
  shows "receipts_inv e'"
proof -
  let ?h = "en_receipt_history e"
  have srt: "bt_sorted ?h" and look: "map_of ?h = st_receipts (en_commands e)" using inv by (simp_all add: receipts_inv_def)
  have nk: "key \<notin> bt_keys ?h" using fresh by (simp add: bt_key_iff look)
  show ?thesis
    using inv pend filter_bt_insert [OF nk, of "is_accepted \<circ> snd" r]
    unfolding receipts_inv_def e' map_of_bt_insert look
    by (auto simp: is_accepted_def)
qed

lemma engine_inv_parts:
  assumes "engine_inv e"
  shows "show_inv (engine_show e)" "switcher_inv (en_realized_switcher e)" "scheduler_inv (en_scheduler e)"
    "queue_inv (engine_queue e)" "all_target (frame_cursor e) (engine_queue e)" "receipts_inv e"
    "en_pending_actions e = length (pending e)"
  using assms unfolding engine_inv_def scheduler_inv_def by blast+

section \<open>Executing a command\<close>

abbreviation (input) put_queue :: "engine \<Rightarrow> engine_command action_queue \<Rightarrow> runtime_scheduler" where
  "put_queue e q \<equiv> (en_scheduler e)\<lparr>fs_actions := q\<rparr>"

lemma engine_prepare_Inr:
  "engine_prepare busy target show cmd = Inr m \<longleftrightarrow>
     (busy = None \<or> allowed_in_flight cmd) \<and> m = engine_mutation cmd target"
  by (auto simp: engine_prepare_def split: option.splits)

lemma execute_fresh:
  assumes fresh: "st_receipts (en_commands e) (env_key env) = None"
    and imm: "execute_immediate env now e = (r, e')"
  shows "execute env now e = (case r of Inl err \<Rightarrow> (Inl err, e) | Inr out \<Rightarrow> (Inr out, e'))"
  by (simp add: execute_def prepare_execute_def fresh imm commit_execute_def split: sum.splits)

lemma execute_cases:
  assumes inv: "engine_inv e"
  obtains (unchanged) "snd (execute env now e) = e"
  | (rejected) r q where "st_receipts (en_commands e) (env_key env) = None" "receipt_accepted r = None"
      "queue_inv q" "all_target (frame_cursor e) q" "queue_actions q = pending e"
      "snd (execute env now e) = e\<lparr>en_scheduler := put_queue e q,
         en_commands := (en_commands e)\<lparr>st_receipts := (st_receipts (en_commands e))(env_key env \<mapsto> r)\<rparr>,
         en_receipt_history := bt_insert (env_key env) r (en_receipt_history e)\<rparr>"
  | (accepted) r q rv sq draft evs a where "st_receipts (en_commands e) (env_key env) = None"
      "r = ReceiptAccepted (env_id env) \<lparr>acc_revision = rv, acc_result = a\<rparr>"
      "en_transition_in_flight e = None \<or> allowed_in_flight (env_command env)"
      "engine_mutation (env_command env) (frame_cursor e) (engine_show e) [] = (Inr a, draft, map dev_payload evs)"
      "unat rv = Suc (unat (st_revision (en_commands e)))" "unat sq = unat (st_sequence (en_commands e)) + length evs"
      "queue_inv q" "all_target (frame_cursor e) q" "queue_actions q = pending e @ [env_command env]"
      "execute env now e = (Inr \<lparr>out_receipt = r, out_events = evs, out_replayed = False\<rparr>,
         e\<lparr>en_scheduler := put_queue e q,
         en_commands := \<lparr>st_state = draft, st_epoch = st_epoch (en_commands e), st_revision = rv, st_sequence = sq,
           st_receipts = (st_receipts (en_commands e))(env_key env \<mapsto> r)\<rparr>,
         en_receipt_history := bt_insert (env_key env) r (en_receipt_history e),
         en_pending_actions := en_pending_actions e + 1,
         en_transition_in_flight := (case launched_transition (env_command env) draft of
            Some kind \<Rightarrow> Some kind | None \<Rightarrow> en_transition_in_flight e)\<rparr>)"
proof (cases "st_receipts (en_commands e) (env_key env)")
  case (Some receipt)
  then show thesis by (intro unchanged) (simp add: execute_def prepare_execute_def)
next
  case None
  let ?f = "frame_cursor e" and ?cmd = "env_command env"
  show thesis
  proof (cases "schedule_action ?f ?cmd (engine_queue e)")
    case (Pair x q)
    note sched = this
    show thesis
    proof (cases x)
      case (Inl err)
      then have "fst (execute_immediate env now e) = Inl (EngineSchedule err)"
        by (simp add: execute_immediate_def None fs_schedule_action_def sched Let_def)
      then show thesis by (intro unchanged) (auto simp: execute_def prepare_execute_def None split: prod.splits)
    next
      case (Inr n)
      note last = schedule_last [OF engine_inv_parts(4,5) [OF inv] sched [unfolded Inr]]
      have enq: "queue_actions q = pending e @ [?cmd]" by (simp add: last(1) pending_def)
      let ?prep = "engine_prepare (en_transition_in_flight e) ?f"
      show thesis
      proof (cases rule: apply_command_fresh [OF None, where prepare = ?prep and now = now])
        case (1 rv sq draft evs a m r)
        show thesis
        proof (rule accepted [OF None 1(5) _ _ 1(3,4) last(3,5) enq])
          show "en_transition_in_flight e = None \<or> allowed_in_flight ?cmd"
            "engine_mutation ?cmd ?f (engine_show e) [] = (Inr a, draft, map dev_payload evs)"
            using 1(1,2) by (auto simp: engine_prepare_Inr)
          show "execute env now e = (Inr \<lparr>out_receipt = r, out_events = evs, out_replayed = False\<rparr>,
            e\<lparr>en_scheduler := put_queue e q,
            en_commands := \<lparr>st_state = draft, st_epoch = st_epoch (en_commands e), st_revision = rv, st_sequence = sq,
              st_receipts = (st_receipts (en_commands e))(env_key env \<mapsto> r)\<rparr>,
            en_receipt_history := bt_insert (env_key env) r (en_receipt_history e),
            en_pending_actions := en_pending_actions e + 1,
            en_transition_in_flight := (case launched_transition ?cmd draft of
               Some kind \<Rightarrow> Some kind | None \<Rightarrow> en_transition_in_flight e)\<rparr>)"
            by (subst execute_fresh [OF None surjective_pairing])
               (simp add: execute_immediate_def None fs_schedule_action_def sched Inr 1(5,6) Let_def)
        qed
      next
        case (2 rr r)
        show thesis
        proof (rule rejected [OF None _ last(4,6)])
          show "receipt_accepted r = None" by (simp add: 2(1))
          show "queue_actions (snd (cancel_action n q)) = pending e" using last(2) by (simp add: pending_def)
          show "snd (execute env now e) = e\<lparr>en_scheduler := put_queue e (snd (cancel_action n q)),
            en_commands := (en_commands e)\<lparr>st_receipts := (st_receipts (en_commands e))(env_key env \<mapsto> r)\<rparr>,
            en_receipt_history := bt_insert (env_key env) r (en_receipt_history e)\<rparr>"
            by (subst execute_fresh [OF None surjective_pairing])
               (simp add: execute_immediate_def None fs_schedule_action_def fs_cancel_action_def split_beta sched Inr 2 Let_def)
        qed
      qed
    qed
  qed
qed

lemma scheduler_inv_queue: "scheduler_inv (en_scheduler e) \<Longrightarrow> queue_inv q \<Longrightarrow> scheduler_inv (put_queue e q)"
  by (simp add: scheduler_inv_def)

lemma heading_accepted:
  assumes head: "heading e s" and inv: "engine_inv e" and ok: "engine_command_ok cmd"
    and ready: "en_transition_in_flight e = None \<or> allowed_in_flight cmd"
    and sane: "\<not> unrealizable_stinger cmd (engine_desired e)"
    and acc: "engine_mutation cmd target (engine_show e) [] = (Inr a, draft, ps)"
    and e': "pending e' = pending e @ [cmd]" "en_realized_switcher e' = en_realized_switcher e"
      "engine_show e' = draft" "en_transition_in_flight e' = (case launched_transition cmd draft of
         Some kind \<Rightarrow> Some kind | None \<Rightarrow> en_transition_in_flight e)"
  shows "\<exists>s'. heading e' s'"
proof -
  have s: "replay (pending e) (en_realized_switcher e) = Some s" "switcher_inv s" "settle s = engine_desired e"
    "en_transition_in_flight e = None \<longleftrightarrow> sw_transition s = None" "\<forall>t. sw_transition s = Some t \<longrightarrow> tr_duration_frames t \<le> 3600"
    using head by (simp_all add: heading_def)
  have ins: "sh_inputs (engine_show e) = sw_inputs s"
    using show_inv_switcher(2) [OF engine_inv_parts(1) [OF inv]] s(3) settle_fields(2) [of s] by simp
  have "realized_as cmd s (sh_desired_switcher draft) (launched_transition cmd draft \<noteq> None)"
    by (rule accepted_realized [OF s(2) s(3) [symmetric] ins ok _ _ acc]) (use ready s(4) sane s(3) in simp_all)
  then obtain ev s' where s': "apply_runtime cmd s = Some (Inr ev, s')" "settle s' = sh_desired_switcher draft"
    "if launched_transition cmd draft \<noteq> None then \<exists>t. sw_transition s' = Some t \<and> tr_duration_frames t \<le> 3600
     else sw_transition s' = sw_transition s"
    unfolding realized_as_def by blast
  have "heading e' s'"
    using s s' e' apply_runtime_inv [OF s(2) ok s'(1)]
    by (auto simp: heading_def replay_append split: if_splits option.splits)
  then show ?thesis ..
qed

lemma execute_inv:
  assumes inv: "engine_inv e" and ok: "engine_command_ok (env_command env)"
    and sane: "\<not> unrealizable_stinger (env_command env) (engine_desired e)"
  shows "engine_inv (snd (execute env now e))"
proof (cases rule: execute_cases [OF inv, of env now])
  case 1
  then show ?thesis using inv by simp
next
  case (2 r q)
  let ?e = "snd (execute env now e)"
  have same: "pending ?e = pending e" "frame_cursor ?e = frame_cursor e" "engine_clock_time ?e = engine_clock_time e"
    using 2(5) by (simp_all add: 2(6) pending_def frame_cursor_def engine_clock_time_def)
  have "receipts_inv ?e"
    by (rule receipts_inv_insert [OF engine_inv_parts(6) [OF inv] 2(1), of _ r])
       (use 2(2) same in \<open>simp_all add: 2(6) is_accepted_def\<close>)
  moreover obtain s where "heading e s" using inv by (auto simp: engine_inv_def)
  then have "heading ?e s" using same(1) by (simp add: heading_def) (simp add: 2(6))
  then have "\<exists>s. heading ?e s" ..
  moreover have "scheduler_inv (en_scheduler ?e)"
    using scheduler_inv_queue [OF engine_inv_parts(3) [OF inv] 2(3)] by (simp add: 2(6))
  ultimately show ?thesis
    using inv 2(4) unfolding engine_inv_def same by (simp add: 2(6))
next
  case (3 r q rv sq draft evs a)
  let ?e = "snd (execute env now e)"
  note e = arg_cong [OF 3(10), of snd, unfolded snd_conv]
  have same: "pending ?e = pending e @ [env_command env]" "frame_cursor ?e = frame_cursor e"
    "engine_clock_time ?e = engine_clock_time e"
    using 3(9) by (simp_all add: e pending_def frame_cursor_def engine_clock_time_def)
  have target: "ea_target_frame a = frame_cursor e" by (rule mutation_target [OF 3(4)])
  have "receipts_inv ?e"
    by (rule receipts_inv_insert [OF engine_inv_parts(6) [OF inv] 3(1), of _ r])
       (use 3(2,5) same target in \<open>simp_all add: e is_accepted_def\<close>)
  moreover obtain s where "heading e s" using inv by (auto simp: engine_inv_def)
  then have "\<exists>s. heading ?e s"
    by (rule heading_accepted [OF _ inv ok 3(3) sane 3(4) same(1)]) (simp_all add: e)
  moreover have "scheduler_inv (en_scheduler ?e)"
    using scheduler_inv_queue [OF engine_inv_parts(3) [OF inv] 3(7)] by (simp add: e)
  moreover have "show_inv draft" using engine_mutation_inv [OF engine_inv_parts(1) [OF inv] ok] 3(4) by (metis fst_conv snd_conv)
  ultimately show ?thesis
    using inv 3(5,8) ok unfolding engine_inv_def same by (simp add: e)
qed

section \<open>Rendering a frame\<close>

definition strip_update :: "engine_command \<Rightarrow> (input_id \<times> input_audio_strip) list" where
  "strip_update cmd = (case cmd of ESetInputAudioStrip input strip \<Rightarrow> [(input, strip)] | _ \<Rightarrow> [])"

lemma run_actions_replay:
  assumes "replay cmds (en_realized_switcher e) = Some s" "unat (en_runtime_generation e) + length cmds < 2 ^ 64"
  shows "\<exists>ev' g. run_actions cmds ev strips e = Some (Inr (ev', strips @ concat (map strip_update cmds)),
       e\<lparr>en_realized_switcher := s, en_runtime_generation := g\<rparr>)
    \<and> unat g = unat (en_runtime_generation e) + length cmds"
  using assms
proof (induction cmds arbitrary: e ev strips)
  case Nil
  then show ?case by (intro exI [of _ ev] exI [of _ "en_runtime_generation e"]) simp
next
  case (Cons cmd cmds)
  obtain cev s1 where s1: "apply_runtime cmd (en_realized_switcher e) = Some (Inr cev, s1)" "replay cmds s1 = Some s"
    using Cons.prems(1) by (auto split: option.splits prod.splits sum.splits)
  obtain g :: u64 where g: "unat g = Suc (unat (en_runtime_generation e))"
    using ex_word_unat [of "Suc (unat (en_runtime_generation e))", where 'a = 64] Cons.prems(2) by auto
  then have nxt: "checked_next (en_runtime_generation e) = Inr g" by (simp add: checked_simps)
  let ?e = "e\<lparr>en_realized_switcher := s1, en_runtime_generation := g\<rparr>"
  have "\<exists>ev' g'. run_actions cmds (ev @ cev) (strips @ strip_update cmd) ?e
      = Some (Inr (ev', (strips @ strip_update cmd) @ concat (map strip_update cmds)),
          ?e\<lparr>en_realized_switcher := s, en_runtime_generation := g'\<rparr>)
      \<and> unat g' = unat (en_runtime_generation ?e) + length cmds"
    by (rule Cons.IH) (use s1(2) Cons.prems(2) g in simp_all)
  moreover have "run_actions (cmd # cmds) ev strips e = run_actions cmds (ev @ cev) (strips @ strip_update cmd) ?e"
    using s1(1) nxt by (simp add: Let_def strip_update_def split: engine_command.splits)
  ultimately show ?case using g by simp
qed

lemma clock_before_deadline:
  assumes "expected_clock_ns rate n = Inr t" "deadline_for \<lparr>fp_frame_rate = rate, fp_origin_ns = 0, fp_next_frame = m\<rparr> n = Inr d"
  shows "t \<le> fd_at_ns d"
proof (cases "n = 0")
  case True
  then show ?thesis using assms(1) by (simp add: expected_clock_ns_def)
next
  case False
  then obtain d0 where d0: "deadline_for (frame_pacer_new rate 0) (n - 1) = Inr d0" "t = fd_at_ns d0"
    using assms(1) by (auto simp: expected_clock_ns_def result_simps)
  have "unat (n - 1) \<le> unat n" using False by (simp add: unat_minus_one)
  then have "unat (fd_at_ns d0) \<le> unat (fd_at_ns d)"
    using d0(1) assms(2) frame_offset_mono [of "unat (n - 1)" "unat n" rate]
    by (simp add: deadline_for_Inr frame_pacer_new_def)
  then show ?thesis by (simp add: d0(2) word_less_unat)
qed

lemma ftb_frame_total: "ftb_inv c \<Longrightarrow> \<exists>fr. ftb_frame c = Some fr"
  using ftb_frame_interval [of c] by metis

definition can_tick :: "engine \<Rightarrow> bool" where
  "can_tick e \<longleftrightarrow> unat (frame_cursor e) + 1 < 2 ^ 64 \<and> (\<exists>d. next_deadline (fs_pacer (en_scheduler e)) = Inr d)"

text \<open>What a tick needs of the scheduler and the clock.\<close>

definition schedule_inv :: "engine \<Rightarrow> bool" where
  "schedule_inv e \<longleftrightarrow>
     scheduler_inv (en_scheduler e) \<and> all_target (frame_cursor e) (engine_queue e)
     \<and> fs_pacer (en_scheduler e) = \<lparr>fp_frame_rate = en_frame_rate e, fp_origin_ns = 0, fp_next_frame = frame_cursor e\<rparr>
     \<and> expected_clock_ns (en_frame_rate e) (frame_cursor e) = Inr (engine_clock_time e)"

lemma engine_schedule_inv: "engine_inv e \<Longrightarrow> schedule_inv e"
  unfolding engine_inv_def schedule_inv_def by blast

text \<open>The scheduler's part of a tick: every scheduled command is due, in order.\<close>

lemma tick_drains:
  assumes inv: "schedule_inv e" and can: "can_tick e"
  obtains d clk t sch where "next_deadline (fs_pacer (en_scheduler e)) = Inr d"
    "manual_clock_set (fd_at_ns d) (en_clock e) = (Inr \<lparr>cs_domain = cs_domain (mc_snapshot (en_clock e)), cs_time = fd_at_ns d\<rparr>, clk)"
    "cs_time (mc_snapshot clk) = fd_at_ns d" "tick (fd_at_ns d) (en_scheduler e) = (Inr t, sch)" "ft_deadline t = d"
    "map sa_action (ft_actions t) = pending e" "aq_ordered (fs_actions sch) = []" "scheduler_inv sch"
    "unat (fp_next_frame (fs_pacer sch)) = Suc (unat (frame_cursor e))"
    "fs_pacer sch = (fs_pacer (en_scheduler e))\<lparr>fp_next_frame := fp_next_frame (fs_pacer sch)\<rparr>"
    "fd_frame d = frame_cursor e" "cs_domain (mc_snapshot clk) = cs_domain (mc_snapshot (en_clock e))"
proof -
  obtain d where d: "next_deadline (fs_pacer (en_scheduler e)) = Inr d" and room: "unat (frame_cursor e) + 1 < 2 ^ 64"
    using can by (auto simp: can_tick_def)
  have pacer: "fs_pacer (en_scheduler e) = \<lparr>fp_frame_rate = en_frame_rate e, fp_origin_ns = 0, fp_next_frame = frame_cursor e\<rparr>"
    and clock: "expected_clock_ns (en_frame_rate e) (frame_cursor e) = Inr (engine_clock_time e)"
    and sched: "scheduler_inv (en_scheduler e)" "queue_inv (engine_queue e)" "all_target (frame_cursor e) (engine_queue e)"
    using inv unfolding schedule_inv_def scheduler_inv_def by blast+
  have "engine_clock_time e \<le> fd_at_ns d"
    using clock_before_deadline [OF clock] d pacer by (simp add: next_deadline_def)
  then have set: "manual_clock_set (fd_at_ns d) (en_clock e) =
      (Inr \<lparr>cs_domain = cs_domain (mc_snapshot (en_clock e)), cs_time = fd_at_ns d\<rparr>,
       (en_clock e)\<lparr>mc_snapshot := \<lparr>cs_domain = cs_domain (mc_snapshot (en_clock e)), cs_time = fd_at_ns d\<rparr>\<rparr>)"
    by (simp add: manual_clock_set_def engine_clock_time_def Let_def not_less)
  have ok: "\<exists>t sch. tick (fd_at_ns d) (en_scheduler e) = (Inr t, sch)"
    by (rule tick_succeeds [OF sched(1) d order_refl]) (use room in \<open>simp add: frame_cursor_def\<close>)
  show thesis
  proof (cases rule: tick_cases [OF sched(1), of "fd_at_ns d"])
    case (1 err)
    with ok show thesis by simp
  next
    case (2 t sch)
    have "ft_deadline t = d" using 2(4) d by (simp add: next_deadline_def)
    moreover have "map sa_action (ft_actions t) = pending e" "aq_ordered (fs_actions sch) = []"
      using drain_all [OF sched(2,3)] 2(9) by (simp_all add: pending_def frame_cursor_def prod_eq_iff)
    moreover have "fd_frame d = frame_cursor e" using d by (simp add: next_deadline_def deadline_for_Inr frame_cursor_def)
    ultimately show thesis
      using that [OF d set _ 2(1)] 2(2,7,8) by (simp add: frame_cursor_def)
  qed
qed

lemma receipts_inv_next:
  assumes "receipts_inv e" "en_receipt_history e' = en_receipt_history e" "en_commands e' = en_commands e"
    and "frame_cursor e < frame_cursor e'"
  shows "receipts_inv e'"
  using assms unfolding receipts_inv_def by (metis order_less_trans)

lemma engine_tick_renders:
  assumes inv: "engine_inv e" and can: "can_tick e" and head: "heading e s"
  shows "\<exists>r e' fev s'. engine_tick e = Some (Inr r, e') \<and> engine_inv e' \<and> pending e' = []
    \<and> advance_frame_events s = Some (fev, s') \<and> en_realized_switcher e' = s' \<and> heading e' s'
    \<and> fr_frame r = frame_cursor e \<and> unat (frame_cursor e') = Suc (unat (frame_cursor e))
    \<and> fr_program r = switcher_program_frame s \<and> fr_overlays r = sw_overlays s
    \<and> fr_input_audio_strip_updates r = concat (map strip_update (pending e))
    \<and> fr_revision r = st_revision (en_commands e) \<and> fr_runtime_generation r = st_revision (en_commands e)
    \<and> en_commands e' = en_commands e \<and> en_frame_rate e' = en_frame_rate e
    \<and> en_receipt_history e' = en_receipt_history e"
proof -
  obtain d clk t sch where d: "next_deadline (fs_pacer (en_scheduler e)) = Inr d"
    and clk: "manual_clock_set (fd_at_ns d) (en_clock e) = (Inr \<lparr>cs_domain = cs_domain (mc_snapshot (en_clock e)), cs_time = fd_at_ns d\<rparr>, clk)"
      "cs_time (mc_snapshot clk) = fd_at_ns d"
    and t: "tick (fd_at_ns d) (en_scheduler e) = (Inr t, sch)" "ft_deadline t = d" "map sa_action (ft_actions t) = pending e"
    and sch: "aq_ordered (fs_actions sch) = []" "scheduler_inv sch"
      "unat (fp_next_frame (fs_pacer sch)) = Suc (unat (frame_cursor e))"
      "fs_pacer sch = (fs_pacer (en_scheduler e))\<lparr>fp_next_frame := fp_next_frame (fs_pacer sch)\<rparr>"
    and frame: "fd_frame d = frame_cursor e"
    using engine_schedule_inv [OF inv] can by (rule tick_drains)
  have len: "length (ft_actions t) = en_pending_actions e"
    using engine_inv_parts(7) [OF inv] arg_cong [OF t(3), of length] by simp
  define e1 where "e1 = e\<lparr>en_clock := clk, en_scheduler := sch, en_pending_actions := 0\<rparr>"
  have s: "replay (pending e) (en_realized_switcher e) = Some s" "switcher_inv s" "settle s = engine_desired e"
    "en_transition_in_flight e = None \<longleftrightarrow> sw_transition s = None" "\<forall>t. sw_transition s = Some t \<longrightarrow> tr_duration_frames t \<le> 3600"
    using head by (simp_all add: heading_def)
  have counters: "unat (st_revision (en_commands e)) = unat (en_runtime_generation e) + length (pending e)"
    using inv by (simp add: engine_inv_def)
  obtain ev g where run: "run_actions (pending e) [] [] e1 = Some (Inr (ev, concat (map strip_update (pending e))),
      e1\<lparr>en_realized_switcher := s, en_runtime_generation := g\<rparr>)"
    and g: "unat g = unat (en_runtime_generation e) + length (pending e)"
    using run_actions_replay [of "pending e" e1 s "[]" "[]"] s(1) counters unat_u64_less [of "st_revision (en_commands e)"]
    by (auto simp: e1_def)
  have g_eq: "g = st_revision (en_commands e)" using g counters by (intro word_eq_unatI) simp
  obtain ftb where ftb: "ftb_frame (sw_fade_to_black s) = Some ftb"
    using ftb_frame_total s(2) by (auto simp: switcher_inv_def)
  obtain fev s' where adv: "advance_frame_events s = Some (fev, s')" "switcher_inv s'"
    "sw_t_bar s' = map_option settle_frame (sw_t_bar s)"
    using advance_frame_facts [OF s(2)] by blast
  note goal = advance_frame_goal [OF s(2) adv(1)]
  define fl where "fl = (if \<exists>ev \<in> set fev. is_program_changed ev then None else en_transition_in_flight e)"
  define e' where "e' = e1\<lparr>en_realized_switcher := s', en_runtime_generation := g, en_transition_in_flight := fl\<rparr>"
  define r where "r = \<lparr>fr_frame = frame_cursor e, fr_deadline = fd_at_ns d, fr_program = switcher_program_frame s,
    fr_fade_to_black = ftb, fr_overlays = sw_overlays s, fr_events = ev @ fev,
    fr_input_audio_strip_updates = concat (map strip_update (pending e)),
    fr_revision = st_revision (en_commands e), fr_runtime_generation = g\<rparr>"
  have "engine_tick e = render_frame d ev (concat (map strip_update (pending e)))
      (e1\<lparr>en_realized_switcher := s, en_runtime_generation := g\<rparr>)"
    using run by (simp add: engine_tick_def d clk(1) t len Let_def flip: e1_def)
  moreover have "render_frame d ev (concat (map strip_update (pending e)))
      (e1\<lparr>en_realized_switcher := s, en_runtime_generation := g\<rparr>) = Some (Inr r, e')"
    by (simp add: render_frame_def ftb adv(1) e'_def fl_def r_def frame) (simp add: e1_def)
  ultimately have tick: "engine_tick e = Some (Inr r, e')" by simp
  have "(\<exists>ev \<in> set fev. is_program_changed ev) \<longleftrightarrow> (\<exists>ev \<in> set fev. \<exists>i j. ev = ProgramChanged i j)"
    by (metis is_program_changed.elims(2) is_program_changed.simps(1))
  then have flight: "fl = None \<longleftrightarrow> sw_transition s' = None"
    using goal(2,3) s(4) by (auto simp: fl_def)
  have pend: "pending e' = []" by (simp add: pending_def e'_def e1_def sch(1))
  have head': "heading e' s'"
    using adv(2) goal(1,4) s(3,5) flight pend by (auto simp: heading_def) (auto simp: e'_def e1_def)
  have cursor: "frame_cursor e' = fp_next_frame (fs_pacer sch)" by (simp add: frame_cursor_def e'_def e1_def)
  have back1: "fp_next_frame (fs_pacer sch) - 1 = frame_cursor e" and nz: "fp_next_frame (fs_pacer sch) \<noteq> 0"
    using sch(3) by (auto simp: word_unat_eq_iff unat_minus_one)
  have pacer: "fs_pacer (en_scheduler e) = \<lparr>fp_frame_rate = en_frame_rate e, fp_origin_ns = 0, fp_next_frame = frame_cursor e\<rparr>"
    using inv by (simp add: engine_inv_def)
  have "deadline_for (frame_pacer_new (en_frame_rate e) 0) (frame_cursor e) = Inr d"
    using d pacer by (simp add: next_deadline_def deadline_for_def frame_pacer_new_def)
  then have clock: "expected_clock_ns (en_frame_rate e) (frame_cursor e') = Inr (engine_clock_time e')"
    using nz back1 clk(2) by (simp add: expected_clock_ns_def cursor engine_clock_time_def) (simp add: e'_def e1_def)
  have e'_fields: "en_commands e' = en_commands e" "en_receipt_history e' = en_receipt_history e"
    "en_realized_switcher e' = s'" "en_scheduler e' = sch" "en_pending_actions e' = 0" "en_frame_rate e' = en_frame_rate e"
    "en_runtime_generation e' = g"
    by (simp_all add: e'_def e1_def)
  have "receipts_inv e'"
    by (rule receipts_inv_next [OF engine_inv_parts(6) [OF inv] e'_fields(2,1)]) (simp add: cursor word_less_unat sch(3))
  moreover have "fs_pacer sch = \<lparr>fp_frame_rate = en_frame_rate e, fp_origin_ns = 0, fp_next_frame = frame_cursor e'\<rparr>"
    unfolding cursor by (subst sch(4), subst pacer) simp
  ultimately have "engine_inv e'"
    using engine_inv_parts(1) [OF inv] adv(2,3) sch(1,2) pend head' clock
    unfolding engine_inv_def e'_fields g_eq by (auto simp: all_target_def settle_frame_def)
  then show ?thesis
    using tick adv(1) head' pend cursor sch(3) g_eq
    by (intro exI [of _ r] exI [of _ e'] exI [of _ fev] exI [of _ s']) (simp add: r_def e'_fields)
qed

section \<open>Starting, saving and restoring\<close>

lemma engine_new_inv:
  assumes "show_inv show" "settle (sh_desired_switcher show) = sh_desired_switcher show" "sw_t_bar (sh_desired_switcher show) = None"
  shows "engine_inv (engine_new show rate domain)"
proof -
  let ?e = "engine_new show rate domain"
  have st: "scheduler_started rate 0 0 0 () (en_scheduler ?e)" by (simp add: scheduler_started_def engine_new_def)
  note sch = started_inv [OF st]
  have cursor: "frame_cursor ?e = 0" by (simp add: frame_cursor_def sch(3))
  have pend: "pending ?e = []" by (simp add: pending_def sch(2) action_queue_default_def)
  have sw: "switcher_inv (sh_desired_switcher show)" by (rule show_inv_switcher(1) [OF assms(1)])
  have "sw_transition (sh_desired_switcher show) = None" using assms(2) settle_fields(1) by metis
  then have "heading ?e (sh_desired_switcher show)"
    using sw assms(2) pend by (simp add: heading_def) (simp add: engine_new_def command_state_new_def)
  moreover have "receipts_inv ?e" using pend by (simp add: receipts_inv_def engine_new_def command_state_new_def)
  moreover have "all_target 0 (engine_queue ?e)" by (simp add: all_target_def sch(2) action_queue_default_def)
  ultimately show ?thesis
    using assms(1,3) sw sch(1,3) pend unfolding engine_inv_def cursor
    by (auto simp: engine_new_def command_state_new_def expected_clock_ns_def engine_clock_time_def manual_clock_new_def)
qed

lemma count_accepted_all:
  assumes "\<forall>(_, r) \<in> set rs. \<forall>a. receipt_accepted r = Some a \<longrightarrow> ea_target_frame (acc_result a) < cursor"
    and "unat n + length (filter (is_accepted \<circ> snd) rs) < 2 ^ 64"
  shows "\<exists>m. count_accepted cursor rs n = Inr m \<and> unat m = unat n + length (filter (is_accepted \<circ> snd) rs)"
  using assms
proof (induction rs arbitrary: n)
  case (Cons p rs)
  obtain k r where p: "p = (k, r)" by fastforce
  show ?case
  proof (cases "receipt_accepted r")
    case None
    then show ?thesis using Cons.IH [of n] Cons.prems by (simp add: p is_accepted_def)
  next
    case (Some a)
    then obtain n' :: u64 where n': "unat n' = unat n + 1"
      using ex_word_unat [of "unat n + 1", where 'a = 64] Cons.prems(2) by (auto simp: p is_accepted_def)
    then have "checked_add n 1 = Some n'" by (simp add: checked_simps)
    moreover have "\<not> cursor \<le> ea_target_frame (acc_result a)" using Cons.prems(1) Some by (simp add: p not_le)
    ultimately show ?thesis using Cons.IH [of n'] Cons.prems n' Some by (simp add: p is_accepted_def)
  qed
qed simp

text \<open>An idle engine has realized everything that the show asks for.\<close>

lemma idle_realized:
  assumes inv: "engine_inv e" and snap: "snapshot e = Inr sn"
  shows "pending e = []" "settle (en_realized_switcher e) = engine_desired e" "sw_transition (en_realized_switcher e) = None"
    "\<not> ftb_is_automatic (en_realized_switcher e)" "\<not> overlays_in_motion (en_realized_switcher e)"
    "en_transition_in_flight e = None" "sw_fade_to_black (engine_desired e) = sw_fade_to_black (en_realized_switcher e)"
    "sw_overlays (engine_desired e) = sw_overlays (en_realized_switcher e)"
    "\<not> routing_differs (engine_desired e) (en_realized_switcher e)"
proof -
  have idle: "en_pending_actions e = 0" "en_transition_in_flight e = None" "sw_transition (en_realized_switcher e) = None"
    "\<not> ftb_is_automatic (en_realized_switcher e)" "\<not> overlays_in_motion (en_realized_switcher e)"
    using snap by (auto simp: snapshot_def split: if_splits)
  show pend: "pending e = []" using idle(1) engine_inv_parts(7) [OF inv] by simp
  obtain s where "heading e s" using inv by (auto simp: engine_inv_def)
  then show set: "settle (en_realized_switcher e) = engine_desired e" by (simp add: heading_def pend)
  show "sw_transition (en_realized_switcher e) = None" "\<not> ftb_is_automatic (en_realized_switcher e)"
    "\<not> overlays_in_motion (en_realized_switcher e)" "en_transition_in_flight e = None" by (fact idle)+
  have "ftb_inv (sw_fade_to_black (en_realized_switcher e))"
    using engine_inv_parts(2) [OF inv] by (simp add: switcher_inv_def)
  then have "ftb_settled (fc_target (sw_fade_to_black (en_realized_switcher e))) = sw_fade_to_black (en_realized_switcher e)"
    using idle(4) by (simp add: ftb_inv_def ftb_settled_def)
  then show ftb: "sw_fade_to_black (engine_desired e) = sw_fade_to_black (en_realized_switcher e)"
    unfolding set [symmetric] by (simp add: settle_simps)
  show ov: "sw_overlays (engine_desired e) = sw_overlays (en_realized_switcher e)"
    using idle(5) unfolding set [symmetric] by (auto simp: settle_simps overlays_in_motion_def settle_overlay_idle intro!: map_idI)
  show "\<not> routing_differs (engine_desired e) (en_realized_switcher e)"
    using ftb ov idle(3) unfolding set [symmetric] by (simp add: routing_differs_def settle_simps) (simp add: settle_idle)
qed

lemma idle_manual_transition:
  assumes inv: "engine_inv e" and set: "settle (en_realized_switcher e) = engine_desired e"
  shows "same_manual_transition (sw_t_bar (engine_desired e)) (sw_t_bar (en_realized_switcher e))"
proof (cases "sw_t_bar (en_realized_switcher e)")
  case None
  then show ?thesis unfolding set [symmetric] by (simp add: same_manual_transition_def settle_simps)
next
  case (Some b)
  have "t_bar_inv (sw_program (en_realized_switcher e)) (sw_preview (en_realized_switcher e)) b"
    using engine_inv_parts(2) [OF inv] Some by (simp add: switcher_inv_def)
  then have "manual_transition_kind_supported (tb_kind b)"
    by (simp add: t_bar_inv_def manual_transition_supported_def manual_transition_kind_supported_def)
  moreover have "tb_interval_start b = tb_position b" using inv Some by (simp add: engine_inv_def)
  ultimately show ?thesis
    using Some unfolding set [symmetric] by (simp add: same_manual_transition_def settle_simps)
qed

text \<open>What restoring the snapshot of a run gives, exactly.\<close>

lemma restore_snapshot:
  assumes inv: "engine_inv e" and snap: "snapshot e = Inr sn"
  shows "restore sn =
    (if st_sequence (en_commands e) \<noteq> st_revision (en_commands e)
     then Inl (EngineSnapshotError (CounterMismatch (st_revision (en_commands e)) (st_revision (en_commands e))
        (st_sequence (en_commands e)) (st_revision (en_commands e))))
     else case frame_scheduler_restore (en_frame_rate e) 0 (frame_cursor e) 0 () of
        Inl _ \<Rightarrow> Inl (EngineSnapshotError InvalidFrameCounter)
      | Inr sch \<Rightarrow> Inr (e\<lparr>en_scheduler := sch\<rparr>))"
proof -
  let ?rev = "st_revision (en_commands e)" and ?h = "en_receipt_history e"
  note idle = idle_realized [OF inv snap]
  have sn: "sn = \<lparr>es_show = engine_show e, es_realized_switcher = en_realized_switcher e,
      es_state_epoch = st_epoch (en_commands e), es_revision = ?rev, es_event_sequence = st_sequence (en_commands e),
      es_runtime_generation = en_runtime_generation e, es_frame_rate = en_frame_rate e,
      es_clock_domain = cs_domain (mc_snapshot (en_clock e)), es_clock_time = engine_clock_time e,
      es_frames_rendered = frame_cursor e, es_receipts = ?h\<rparr>"
    using snap by (simp add: snapshot_def split: if_splits)
  have h: "bt_sorted ?h" "map_of ?h = st_receipts (en_commands e)"
    "length (filter (is_accepted \<circ> snd) ?h) = unat ?rev"
    using engine_inv_parts(6) [OF inv] by (simp_all add: receipts_inv_def)
  have "\<forall>(_, r) \<in> set ?h. \<forall>a. receipt_accepted r = Some a \<longrightarrow> ea_target_frame (acc_result a) < frame_cursor e"
    using engine_inv_parts(6) [OF inv] idle(1) h(1,2) by (auto simp: receipts_inv_def bt_mem_iff)
  from count_accepted_all [OF this, of 0] obtain m where "count_accepted (frame_cursor e) ?h 0 = Inr m" "unat m = unat ?rev"
    using h(3) unat_u64_less [of ?rev] by auto
  then have count: "count_accepted (frame_cursor e) ?h 0 = Inr ?rev" by (metis word_eq_unatI)
  have gen: "en_runtime_generation e = ?rev" using inv idle(1) by (auto simp: engine_inv_def intro: word_eq_unatI)
  have clock: "expected_clock_ns (en_frame_rate e) (frame_cursor e) = Inr (engine_clock_time e)"
    using inv by (simp add: engine_inv_def)
  have ins: "sh_inputs (engine_show e) = sw_inputs (en_realized_switcher e)"
    using show_inv_switcher(2) [OF engine_inv_parts(1) [OF inv]] settle_fields(2) idle(2) by metis
  have des: "sw_transition (engine_desired e) = None" using settle_fields(1) idle(2) by metis
  have valid: "validate_idle_restore (engine_show e) (en_realized_switcher e)
      \<lparr>rs_state_epoch = st_epoch (en_commands e), rs_revision = ?rev, rs_event_sequence = st_sequence (en_commands e),
       rs_runtime_generation = en_runtime_generation e, rs_clock_time = engine_clock_time e,
       rs_frame_cursor = frame_cursor e, rs_receipts = ?h\<rparr> (en_frame_rate e)
    = (if st_sequence (en_commands e) \<noteq> ?rev
       then Inl (CounterMismatch ?rev ?rev (st_sequence (en_commands e)) ?rev) else Inr ())"
    using idle(3,4,7,9) des ins idle_manual_transition [OF inv idle(2)]
    by (simp add: validate_idle_restore_def Let_def clock count gen)
  have rcpts: "fold (\<lambda>(k, r) m. m(k \<mapsto> r)) ?h Map.empty = st_receipts (en_commands e)" "bt_collect ?h = ?h"
    using map_of_bt_collect [of ?h] bt_collect_sorted [OF h(1)] h(2) by simp_all
  have "manual_clock_new (cs_domain (mc_snapshot (en_clock e))) (engine_clock_time e) = en_clock e"
    by (simp add: manual_clock_new_def engine_clock_time_def)
  then show ?thesis
    using idle(1,6) engine_inv_parts(7) [OF inv] gen rcpts
    by (auto simp: restore_def sn restore_persisted_def valid [unfolded gen] restore_with_receipts_def
        split: sum.splits intro: engine.equality)
qed

section \<open>Reachable engines\<close>

text \<open>
  A step of a run executes a command or renders a frame; the command carries identifiers that the
  constructors of their types return. A run can be saved when it is idle and continued from the saved state.

  Two things that the engine allows are not steps. One is a stinger that keeps Program, executed while a T-bar move is under
  way (\<open>unrealizable_stinger\<close>): the engine accepts it and the frame it is scheduled for then fails, together with the
  actions drained behind it; the last section is about it. The other is a tick that returns an error: in the runs
  considered here that happens only when the frame number or the clock has no room for another frame.
\<close>

inductive engine_step :: "engine \<Rightarrow> engine \<Rightarrow> bool" where
  step_execute: "engine_command_ok (env_command env) \<Longrightarrow> \<not> unrealizable_stinger (env_command env) (engine_desired e) \<Longrightarrow>
    engine_step e (snd (execute env now e))"
| step_tick: "engine_tick e = Some (Inr r, e') \<Longrightarrow> engine_step e e'"

inductive engine_reachable :: "engine \<Rightarrow> bool" where
  reach_start: "show_started name inputs program preview outputs streams show \<Longrightarrow>
    engine_reachable (engine_new show rate domain)"
| reach_step: "engine_reachable e \<Longrightarrow> engine_step e e' \<Longrightarrow> engine_reachable e'"
| reach_restore: "engine_reachable e \<Longrightarrow> snapshot e = Inr sn \<Longrightarrow> restore sn = Inr e' \<Longrightarrow> engine_reachable e'"

lemma switcher_started_settled:
  assumes "switcher_started inputs program preview streams s"
  shows "settle s = s" "sw_t_bar s = None"
  using assms
  by (auto simp: switcher_started_def switcher_new_def with_streams_def Let_def result_simps settle_def ftb_default_def
      ftb_settled_def settle_overlay_def overlay_empty_def)

lemma started_engine_inv:
  assumes "show_started name inputs program preview outputs streams show"
  shows "engine_inv (engine_new show rate domain)"
proof -
  note st = show_started_inv [OF assms]
  then obtain ss where "switcher_started (map fst inputs) program preview ss (sh_desired_switcher show)" by blast
  from switcher_started_settled [OF this] st(1) show ?thesis by (intro engine_new_inv) simp_all
qed

lemma tick_can:
  assumes inv: "engine_inv e" and tick: "engine_tick e = Some (Inr r, e')"
  shows "can_tick e"
proof -
  obtain d where d: "next_deadline (fs_pacer (en_scheduler e)) = Inr d"
    using tick by (auto simp: engine_tick_def split: sum.splits)
  obtain t sch where t: "tick (fd_at_ns d) (en_scheduler e) = (Inr t, sch)"
    using tick by (auto simp: engine_tick_def d split: sum.splits prod.splits)
  have "unat (fp_next_frame (fs_pacer sch)) = Suc (unat (frame_cursor e))"
    by (cases rule: tick_cases [OF engine_inv_parts(3) [OF inv], of "fd_at_ns d"]) (use t in \<open>auto simp: frame_cursor_def\<close>)
  then have "unat (frame_cursor e) + 1 < 2 ^ 64" using unat_u64_less [of "fp_next_frame (fs_pacer sch)"] by simp
  with d show ?thesis by (auto simp: can_tick_def)
qed

lemma engine_step_inv:
  assumes inv: "engine_inv e" and step: "engine_step e e'"
  shows "engine_inv e'"
  using step
proof cases
  case (step_execute env now)
  then show ?thesis using execute_inv [OF inv] by simp
next
  case (step_tick r)
  obtain s where "heading e s" using inv by (auto simp: engine_inv_def)
  from engine_tick_renders [OF inv tick_can [OF inv step_tick] this] step_tick show ?thesis by auto
qed

lemma restored_inv:
  assumes inv: "engine_inv e" and snap: "snapshot e = Inr sn" and res: "restore sn = Inr e'"
  shows "engine_inv e'"
proof -
  obtain sch where sch: "frame_scheduler_restore (en_frame_rate e) 0 (frame_cursor e) 0 () = Inr sch"
    and e': "e' = e\<lparr>en_scheduler := sch\<rparr>"
    using res restore_snapshot [OF inv snap] by (auto split: if_splits sum.splits)
  have "scheduler_started (en_frame_rate e) 0 (frame_cursor e) 0 () sch" by (simp add: scheduler_started_def sch)
  note st = started_inv [OF this]
  have pend: "pending e = []" "pending e' = []"
    using idle_realized(1) [OF inv snap] by (simp_all add: pending_def e' st(2) action_queue_default_def)
  have cursor: "frame_cursor e' = frame_cursor e" by (simp add: frame_cursor_def e' st(3))
  obtain s where "heading e s" using inv by (auto simp: engine_inv_def)
  then have "heading e' s" by (simp add: heading_def pend) (simp add: e')
  then have "\<exists>s. heading e' s" ..
  moreover have "receipts_inv e'"
    using engine_inv_parts(6) [OF inv] unfolding receipts_inv_def cursor pend by (simp add: e')
  moreover have "all_target (frame_cursor e) (engine_queue e')" by (simp add: all_target_def e' st(2) action_queue_default_def)
  moreover have "scheduler_inv (en_scheduler e')" using st(1) by (simp add: e')
  ultimately show ?thesis
    using inv st(3) unfolding engine_inv_def cursor pend
    by (simp add: e' engine_clock_time_def)
qed

lemma reachable_inv: "engine_reachable e \<Longrightarrow> engine_inv e"
  by (induction rule: engine_reachable.induct) (auto intro: started_engine_inv engine_step_inv restored_inv)

section \<open>Properties of the engine\<close>

text \<open>C1: the durable show is an abstract specification of the runtime. Whatever commands were executed and
  frames rendered, the scheduled commands can all be applied to the realized switcher in their order,
  and the desired switcher is what the result settles to once every move under way has ended; the engine
  reports a transition in flight exactly while the result still has one. Executing a further command
  that is accepted keeps this so: what the show accepts, the runtime will perform. There is one exception, which the
  hypotheses exclude for the further command and for every command of the run: a stinger that keeps Program and is
  executed during a T-bar move (see the last section).
\<close>
theorem desired_show_specifies_runtime:
  assumes "engine_reachable e" "engine_command_ok (env_command env)"
    and "\<not> unrealizable_stinger (env_command env) (engine_desired e)" "e' \<in> {e, snd (execute env now e)}"
  shows "\<exists>s. replay (pending e') (en_realized_switcher e') = Some s \<and> settle s = engine_desired e'
    \<and> (en_transition_in_flight e' = None \<longleftrightarrow> sw_transition s = None)"
proof -
  have "engine_inv e'"
    using reachable_inv [OF assms(1)] execute_inv [OF reachable_inv [OF assms(1)] assms(2,3)] assms(4) by auto
  then obtain s where "heading e' s" by (auto simp: engine_inv_def)
  then show ?thesis by (auto simp: heading_def)
qed

text \<open>C2: rendering does not fail on an accepted command: as long as the frame number and the media clock have room for the
  next frame, a tick of an engine whose run contains no stinger that keeps Program during a T-bar move (the exception of
  the last section, where the tick does fail) renders that frame and does not panic. It applies every scheduled
  command, reports the audio strips they set in order, leaves nothing pending, and afterwards the
  runtime generation has caught up with the durable revision.
\<close>
theorem ticks_never_fail:
  assumes "engine_reachable e" "can_tick e"
  shows "\<exists>r e'. engine_tick e = Some (Inr r, e') \<and> fr_frame r = frame_cursor e \<and> pending e' = []
    \<and> fr_input_audio_strip_updates r = concat (map strip_update (pending e))
    \<and> fr_runtime_generation r = st_revision (en_commands e) \<and> en_commands e' = en_commands e
    \<and> unat (frame_cursor e') = Suc (unat (frame_cursor e))"
proof -
  have inv: "engine_inv e" by (rule reachable_inv [OF assms(1)])
  then obtain s where "heading e s" by (auto simp: engine_inv_def)
  from engine_tick_renders [OF inv assms(2) this] show ?thesis by blast
qed

text \<open>The media clock reaches as far as frame n.\<close>

definition clock_reaches :: "engine \<Rightarrow> nat \<Rightarrow> bool" where
  "clock_reaches e n \<longleftrightarrow> unat (frame_cursor e) + n < 2 ^ 64
     \<and> frame_offset_ns (en_frame_rate e) (unat (frame_cursor e) + n) < 2 ^ 64"

lemma clock_reaches_can:
  assumes inv: "engine_inv e" and reach: "clock_reaches e (Suc n)"
  shows "can_tick e"
proof -
  have "frame_offset_ns (en_frame_rate e) (unat (frame_cursor e)) < 2 ^ 64"
    using reach frame_offset_mono [of "unat (frame_cursor e)" "unat (frame_cursor e) + Suc n" "en_frame_rate e"]
    by (simp add: clock_reaches_def)
  then obtain w :: u64 where "unat w = frame_offset_ns (en_frame_rate e) (unat (frame_cursor e))"
    using ex_word_unat [where 'a = 64] by auto
  moreover have "fs_pacer (en_scheduler e) = \<lparr>fp_frame_rate = en_frame_rate e, fp_origin_ns = 0, fp_next_frame = frame_cursor e\<rparr>"
    using inv by (simp add: engine_inv_def)
  ultimately have "next_deadline (fs_pacer (en_scheduler e)) = Inr \<lparr>fd_frame = frame_cursor e, fd_at_ns = w\<rparr>"
    by (simp add: next_deadline_def deadline_for_Inr)
  then show ?thesis using reach by (auto simp: can_tick_def clock_reaches_def)
qed

lemma engine_ticks_run:
  assumes "engine_inv e" "heading e s" "clock_reaches e n"
  shows "\<exists>e'. engine_ticks n e = Some (Inr (), e') \<and> engine_inv e' \<and> en_commands e' = en_commands e
    \<and> (0 < n \<longrightarrow> pending e' = [] \<and> advance_frames switcher_step n s = Some (en_realized_switcher e')
         \<and> heading e' (en_realized_switcher e'))"
  using assms
proof (induction n arbitrary: e s)
  case (Suc n)
  obtain r e1 fev s1 where t: "engine_tick e = Some (Inr r, e1)" "engine_inv e1" "pending e1 = []"
    "advance_frame_events s = Some (fev, s1)" "en_realized_switcher e1 = s1" "heading e1 s1"
    "unat (frame_cursor e1) = Suc (unat (frame_cursor e))" "en_commands e1 = en_commands e" "en_frame_rate e1 = en_frame_rate e"
    using engine_tick_renders [OF Suc.prems(1) clock_reaches_can [OF Suc.prems(1,3)] Suc.prems(2)] by blast
  have "clock_reaches e1 n" using Suc.prems(3) t(7,9) by (simp add: clock_reaches_def)
  from Suc.IH [OF t(2,6) this] obtain e' where e': "engine_ticks n e1 = Some (Inr (), e')" "engine_inv e'"
    "en_commands e' = en_commands e1" "0 < n \<longrightarrow> pending e' = [] \<and> advance_frames switcher_step n s1 = Some (en_realized_switcher e')
       \<and> heading e' (en_realized_switcher e')" by blast
  have "n = 0 \<Longrightarrow> e' = e1" using e'(1) by simp
  with e' t advance_frames_step [OF t(4), of n] show ?case by (cases "n = 0") auto
qed simp

lemma engine_settles:
  assumes inv: "engine_inv e" and reach: "clock_reaches e n" and n: "3600 \<le> n"
  shows "\<exists>e' sn. engine_ticks n e = Some (Inr (), e') \<and> snapshot e' = Inr sn \<and> engine_show e' = engine_show e
    \<and> \<not> routing_differs (engine_desired e) (en_realized_switcher e')
    \<and> settle (en_realized_switcher e') = engine_desired e"
proof -
  obtain s where head: "heading e s" using inv by (auto simp: engine_inv_def)
  obtain e' where e': "engine_ticks n e = Some (Inr (), e')" "engine_inv e'" "en_commands e' = en_commands e"
    "pending e' = []" "advance_frames switcher_step n s = Some (en_realized_switcher e')" "heading e' (en_realized_switcher e')"
    using engine_ticks_run [OF inv head reach] n by auto
  have s: "switcher_inv s" "\<And>t. sw_transition s = Some t \<Longrightarrow> tr_duration_frames t \<le> 3600" "settle s = engine_desired e"
    using head by (auto simp: heading_def)
  note rest = frames_settle [OF s(1) e'(5) n s(2)]
  have "en_transition_in_flight e' = None" using e'(6) rest(1) by (simp add: heading_def)
  moreover have "en_pending_actions e' = 0" using engine_inv_parts(7) [OF e'(2)] e'(4) by simp
  moreover have "\<not> ftb_is_automatic (engine_desired e')"
    using s(3) e'(3) settle_fields(9) [of s] by (metis ftb_settled_def fade_to_black_controller.select_convs(3))
  ultimately obtain sn where sn: "snapshot e' = Inr sn"
    using rest by (auto simp: snapshot_def)
  from idle_realized(9) [OF e'(2) sn] e' rest(5) s(3) sn show ?thesis by auto
qed

text \<open>C3: the runtime converges to the show. Take an engine whose run contains no stinger that keeps Program during a T-bar
  move (whose failing frame would lose the actions behind it), and whose frame number and clock have room for \<open>n\<close> more
  frames. After \<open>n\<close> frames without a new command, where \<open>n\<close> is 3600 or more,
  no move is under way, the engine is idle (a snapshot can be taken), and the realized switcher
  agrees with the desired one: Program, Preview, Fade-to-Black, stingers, overlays, streams and the
  recording flag. The show does not change by rendering.
\<close>
theorem runtime_converges_to_show:
  assumes "engine_reachable e" "clock_reaches e n" "3600 \<le> n"
  shows "\<exists>e' sn. engine_ticks n e = Some (Inr (), e') \<and> snapshot e' = Inr sn \<and> engine_show e' = engine_show e
    \<and> \<not> routing_differs (engine_desired e) (en_realized_switcher e')
    \<and> settle (en_realized_switcher e') = engine_desired e"
  by (rule engine_settles [OF reachable_inv [OF assms(1)] assms(2,3)])

text \<open>C4: saving and restoring, for an engine whose run contains no stinger that keeps Program during a T-bar move (after its
  failing frame the runtime generation lags behind the revision and the snapshot is refused). The snapshot of such an
  engine, when it is idle, restores to an engine that is the same in every
  part but the scheduler, which is fresh and stands at the same frame, provided that every accepted
  command emitted exactly one event and the frame number and the clock have room for the next frame. If the
  counters of revisions and events differ, the engine's own snapshot is refused.
\<close>
theorem snapshot_restores:
  assumes "engine_reachable e" "snapshot e = Inr sn"
  shows "if st_sequence (en_commands e) \<noteq> st_revision (en_commands e)
    then restore sn = Inl (EngineSnapshotError (CounterMismatch (st_revision (en_commands e)) (st_revision (en_commands e))
      (st_sequence (en_commands e)) (st_revision (en_commands e))))
    else can_tick e \<longrightarrow> (\<exists>e'. restore sn = Inr e' \<and> e' = e\<lparr>en_scheduler := en_scheduler e'\<rparr>
      \<and> fs_pacer (en_scheduler e') = fs_pacer (en_scheduler e) \<and> pending e' = pending e)"
proof (cases "st_sequence (en_commands e) = st_revision (en_commands e) \<and> can_tick e")
  case True
  have inv: "engine_inv e" by (rule reachable_inv [OF assms(1)])
  have pacer: "fs_pacer (en_scheduler e) = \<lparr>fp_frame_rate = en_frame_rate e, fp_origin_ns = 0, fp_next_frame = frame_cursor e\<rparr>"
    using inv by (simp add: engine_inv_def)
  obtain d where d: "next_deadline (fs_pacer (en_scheduler e)) = Inr d" using True by (auto simp: can_tick_def)
  obtain nxt :: u64 where "unat nxt = unat (frame_cursor e) + 1"
    using ex_word_unat [of "unat (frame_cursor e) + 1", where 'a = 64] True by (auto simp: can_tick_def)
  then have "checked_add (frame_cursor e) 1 = Some nxt" by (simp add: checked_simps)
  then obtain sch :: runtime_scheduler where
    sch: "frame_scheduler_restore (en_frame_rate e) 0 (frame_cursor e) 0 () = Inr sch"
    using d pacer by (simp add: frame_scheduler_restore_def frame_pacer_restore_def Let_def)
  have "scheduler_started (en_frame_rate e) 0 (frame_cursor e) 0 () sch" by (simp add: scheduler_started_def sch)
  note st = started_inv [OF this]
  have "restore sn = Inr (e\<lparr>en_scheduler := sch\<rparr>)" using restore_snapshot [OF inv assms(2)] True sch by simp
  then show ?thesis
    using True st pacer idle_realized(1) [OF inv assms(2)] by (simp add: pending_def action_queue_default_def)
next
  case False
  then show ?thesis using restore_snapshot [OF reachable_inv [OF assms(1)] assms(2)] by auto
qed

section \<open>Prepared executions\<close>

text \<open>How far a run has come, as far as the base of a preparation shows it.\<close>

definition progress :: "engine_preparation_base \<Rightarrow> nat" where
  "progress b = pb_durable_receipts b + unat (pb_frame_cursor b)"

lemma length_bt_insert: "k \<notin> bt_keys m \<Longrightarrow> length (bt_insert k v m) = Suc (length m)"
  using filter_bt_insert [of k m "\<lambda>_. True" v] by simp

lemma step_progress:
  assumes inv: "engine_inv e" and step: "engine_step e e'"
  shows "e' = e \<or> progress (preparation_base e) < progress (preparation_base e')"
  using step
proof cases
  case (step_execute env now)
  have fresh: "length (bt_insert (env_key env) r (en_receipt_history e)) = Suc (length (en_receipt_history e))"
    if "st_receipts (en_commands e) (env_key env) = None" for r
    using that engine_inv_parts(6) [OF inv] by (intro length_bt_insert) (simp add: bt_key_iff receipts_inv_def)
  show ?thesis
  proof (cases rule: execute_cases [OF inv, of env now])
    case 1
    then show ?thesis by (simp add: step_execute(1))
  next
    case (2 r q)
    then show ?thesis using fresh [OF 2(1)] by (simp add: step_execute(1) progress_def preparation_base_def frame_cursor_def)
  next
    case (3 r q rv sq draft evs a)
    then show ?thesis using fresh [OF 3(1)] by (simp add: step_execute(1) progress_def preparation_base_def frame_cursor_def)
  qed
next
  case (step_tick r)
  obtain s where head: "heading e s" using inv by (auto simp: engine_inv_def)
  show ?thesis
    using engine_tick_renders [OF inv tick_can [OF inv step_tick] head] step_tick
    by (auto simp: progress_def preparation_base_def)
qed

lemma run_progress:
  assumes "rtranclp engine_step e e'" "engine_inv e"
  shows "engine_inv e' \<and> (e' = e \<or> progress (preparation_base e) < progress (preparation_base e'))"
  using assms
proof (induction rule: rtranclp_induct)
  case (step e1 e2)
  then have "engine_inv e1" "e1 = e \<or> progress (preparation_base e) < progress (preparation_base e1)" by blast+
  with step_progress [OF this(1) step.hyps(2)] engine_step_inv [OF this(1) step.hyps(2)] show ?case by auto
qed simp

text \<open>C5: a prepared command is installed only on the engine it was prepared from. Let an engine run on after
  a preparation: the commit is refused as stale and changes nothing if anything has happened in
  between (a frame, or a command that was recorded, even a rejected one); otherwise the engine is
  still the same, and the commit has the effect of executing the command directly.
\<close>
theorem stale_preparations_are_refused:
  assumes "engine_reachable e0" "prepare_execute env now e0 = Inr (EnginePrepared prepared)"
    and "rtranclp engine_step e0 e"
  shows "if e = e0 then commit_execute prepared e = execute env now e0
    else commit_execute prepared e = (Inl StalePreparation, e)"
proof -
  have base: "pe_base prepared = preparation_base e0"
    using assms(2) by (auto simp: prepare_execute_def Let_def split: option.splits prod.splits sum.splits)
  have "e = e0 \<or> preparation_base e \<noteq> preparation_base e0"
    using run_progress [OF assms(3) reachable_inv [OF assms(1)]] by auto
  then show ?thesis
    using base assms(2) by (auto simp: commit_execute_def execute_def)
qed

section \<open>A small production\<close>

definition demo_start :: engine where
  "demo_start = engine_new demo_show \<lparr>numerator = 25, denominator = 1\<rparr> 1"

definition demo_env :: "engine_command command_envelope" where
  "demo_env = envelope_new ''cmd-1'' ''key-1'' (EFade 2)"

definition demo_engine :: engine where
  "demo_engine = snd (execute demo_env 0 demo_start)"

lemma demo_reachable: "engine_reachable demo_start" "engine_reachable demo_engine" "engine_step demo_start demo_engine"
proof -
  show start: "engine_reachable demo_start" unfolding demo_start_def by (rule reach_start [OF demo_show_started])
  show step: "engine_step demo_start demo_engine"
    unfolding demo_engine_def by (rule step_execute) (simp_all add: demo_env_def envelope_new_def unrealizable_stinger_def)
  show "engine_reachable demo_engine" by (rule reach_step [OF start step])
qed

lemmas demo_simps = demo_start_def engine_new_def command_state_new_def demo_env_def envelope_new_def frame_cursor_def
  frame_scheduler_new_def frame_pacer_new_def action_queue_default_def fs_schedule_action_def schedule_action_def
  allocate_id_def insert_action_def checked_add_def apply_command_def prepare_command_def prepared_mutation_def
  engine_prepare_def apply_timed_def validate_transition_duration_def MAX_TRANSITION_DURATION_FRAMES_def apply_desired_def
  on_desired_def require_idle_def complete_take_def checked_next_def commit_current_def Let_def demo_show_def demo_show_switcher_def

lemma demo_execute:
  "\<exists>out. execute_immediate demo_env 0 demo_start = (Inr out, demo_engine)
     \<and> is_accepted (out_receipt out)" "pending demo_engine = [EFade 2]" "frame_cursor demo_engine = 0"
  "en_frame_rate demo_engine = \<lparr>numerator = 25, denominator = 1\<rparr>" "length (en_receipt_history demo_engine) = 1"
proof -
  have fresh: "st_receipts (en_commands demo_start) (env_key demo_env) = None" by (simp add: demo_simps)
  obtain out e' where imm: "execute_immediate demo_env 0 demo_start = (Inr out, e')" and acc: "is_accepted (out_receipt out)"
    and e': "pending e' = [EFade 2]" "frame_cursor e' = 0" "en_frame_rate e' = \<lparr>numerator = 25, denominator = 1\<rparr>"
      "length (en_receipt_history e') = 1"
    by (simp add: execute_immediate_def demo_simps pending_def is_accepted_def)
  have "demo_engine = e'" using execute_fresh [OF fresh imm] by (simp add: demo_engine_def)
  with imm acc e' show "\<exists>out. execute_immediate demo_env 0 demo_start = (Inr out, demo_engine)
     \<and> is_accepted (out_receipt out)" "pending demo_engine = [EFade 2]" "frame_cursor demo_engine = 0"
    "en_frame_rate demo_engine = \<lparr>numerator = 25, denominator = 1\<rparr>" "length (en_receipt_history demo_engine) = 1" by auto
qed

lemma demo_clock: "clock_reaches demo_engine 3600" "can_tick demo_engine" "can_tick demo_start"
proof -
  show reach: "clock_reaches demo_engine 3600"
    by (simp add: clock_reaches_def demo_execute frame_offset_ns_def NANOS_PER_SECOND_def)
  show "can_tick demo_engine"
    using clock_reaches_can [OF reachable_inv [OF demo_reachable(2)], of 3599] reach by simp
  have "clock_reaches demo_start 1"
    by (simp add: clock_reaches_def demo_simps frame_offset_ns_def NANOS_PER_SECOND_def)
  then show "can_tick demo_start" using clock_reaches_can [OF reachable_inv [OF demo_reachable(1)], of 0] by simp
qed

theorem desired_show_specifies_runtime_witness:
  "engine_reachable demo_start \<and> pending demo_engine = [EFade 2]
   \<and> (\<exists>s. replay [EFade 2] (en_realized_switcher demo_engine) = Some s \<and> settle s = engine_desired demo_engine)"
proof -
  have "engine_command_ok (env_command demo_env)" "\<not> unrealizable_stinger (env_command demo_env) (engine_desired demo_start)"
    by (simp_all add: demo_env_def envelope_new_def unrealizable_stinger_def)
  from desired_show_specifies_runtime [OF demo_reachable(1) this, of demo_engine 0]
  have "\<exists>s. replay (pending demo_engine) (en_realized_switcher demo_engine) = Some s \<and> settle s = engine_desired demo_engine"
    unfolding demo_engine_def by blast
  then show ?thesis using demo_reachable(1) demo_execute(2) by simp
qed

theorem ticks_never_fail_witness:
  "pending demo_engine = [EFade 2] \<and> (\<exists>r e'. engine_tick demo_engine = Some (Inr r, e') \<and> fr_frame r = 0 \<and> pending e' = [])"
  using ticks_never_fail [OF demo_reachable(2) demo_clock(2)] demo_execute(2,3) by auto

theorem runtime_converges_to_show_witness:
  "\<exists>e' sn. engine_ticks 3600 demo_engine = Some (Inr (), e') \<and> snapshot e' = Inr sn
     \<and> settle (en_realized_switcher e') = engine_desired demo_engine"
  using runtime_converges_to_show [OF demo_reachable(2) demo_clock(1) order_refl] by blast

lemma demo_snapshot: "\<exists>sn. snapshot demo_start = Inr sn" "st_sequence (en_commands demo_start) = st_revision (en_commands demo_start)"
  by (simp_all add: snapshot_def demo_simps ftb_default_def overlays_in_motion_def overlay_empty_def)

theorem snapshot_restores_witness:
  "\<exists>sn e'. snapshot demo_start = Inr sn \<and> restore sn = Inr e' \<and> e' = demo_start\<lparr>en_scheduler := en_scheduler e'\<rparr>"
proof -
  obtain sn where sn: "snapshot demo_start = Inr sn" using demo_snapshot(1) ..
  with snapshot_restores [OF demo_reachable(1) sn] demo_snapshot(2) demo_clock(3) show ?thesis by auto
qed

theorem stale_preparations_are_refused_witness:
  "\<exists>p. prepare_execute demo_env 0 demo_start = Inr (EnginePrepared p)
     \<and> commit_execute p demo_start = execute demo_env 0 demo_start
     \<and> commit_execute p demo_engine = (Inl StalePreparation, demo_engine)"
proof -
  have "st_receipts (en_commands demo_start) (env_key demo_env) = None" by (simp add: demo_simps)
  then obtain p where p: "prepare_execute demo_env 0 demo_start = Inr (EnginePrepared p)"
    using demo_execute(1) by (auto simp: prepare_execute_def)
  have "length (en_receipt_history demo_start) = 0" by (simp add: demo_simps)
  then have other: "demo_engine \<noteq> demo_start" using demo_execute(5) by auto
  show ?thesis
    using p other stale_preparations_are_refused [OF demo_reachable(1) p]
      stale_preparations_are_refused [OF demo_reachable(1) p r_into_rtranclp, of demo_engine] demo_reachable(3)
    by auto
qed

section \<open>Two departures from the intent\<close>

text \<open>A command that no counter stands in the way of is accepted when the show accepts it.\<close>

definition counters_left :: "engine \<Rightarrow> bool" where
  "counters_left e \<longleftrightarrow> unat (aq_next_sequence (engine_queue e)) + 1 < 2 ^ 64
     \<and> unat (st_revision (en_commands e)) + 1 < 2 ^ 64 \<and> unat (st_sequence (en_commands e)) + 1 < 2 ^ 64"

lemma number_events_short:
  assumes "length ps \<le> 1" "unat sq + 1 < 2 ^ 64"
  shows "\<exists>evs sq'. number_events ep rv sq ps = Some (evs, sq')"
proof (cases ps)
  case (Cons p qs)
  obtain n :: u64 where "unat n = Suc (unat sq)" using ex_word_unat [of "Suc (unat sq)", where 'a = 64] assms(2) by auto
  then have "checked_next sq = Inr n" by (simp add: checked_simps)
  then show ?thesis using Cons assms(1) by simp
qed simp

lemma execute_accepts:
  fixes now :: u64 and cid :: command_id
  assumes inv: "engine_inv e" and left: "counters_left e" and fresh: "st_receipts (en_commands e) key = None"
    and ready: "en_transition_in_flight e = None" and short: "length ps \<le> 1"
    and acc: "engine_mutation cmd (frame_cursor e) (engine_show e) [] = (Inr a, draft, ps)"
  defines "e' \<equiv> snd (execute (envelope_new cid key cmd) now e)"
  shows "\<exists>out. fst (execute (envelope_new cid key cmd) now e) = Inr out \<and> is_accepted (out_receipt out)"
    "pending e' = pending e @ [cmd]" "engine_show e' = draft" "en_realized_switcher e' = en_realized_switcher e"
    "unat (st_revision (en_commands e')) = Suc (unat (st_revision (en_commands e)))"
    "unat (st_sequence (en_commands e')) = unat (st_sequence (en_commands e)) + length ps"
    "en_transition_in_flight e' = launched_transition cmd draft" "schedule_inv e'" "frame_cursor e' = frame_cursor e"
    "unat (aq_next_sequence (engine_queue e')) = Suc (unat (aq_next_sequence (engine_queue e)))"
    "en_frame_rate e' = en_frame_rate e" "en_runtime_generation e' = en_runtime_generation e"
    "st_receipts (en_commands e') = (st_receipts (en_commands e))(key := st_receipts (en_commands e') key)"
proof -
  let ?env = "envelope_new cid key cmd" and ?f = "frame_cursor e"
  obtain n q where sched: "schedule_action ?f cmd (engine_queue e) = (Inr n, q)"
    and n: "unat n = Suc (unat (aq_next_sequence (engine_queue e)))" "aq_next_sequence q = n"
  proof (cases rule: allocate_id_cases [of "engine_queue e"])
    case exhausted
    then show thesis using left by (simp add: counters_left_def unsigned_minus_1_eq_mask mask_eq_exp_minus_1)
  next
    case (fresh n)
    then show thesis
      by (intro that [of n "insert_action n ?f cmd ((engine_queue e)\<lparr>aq_next_sequence := n\<rparr>)"])
         (simp_all add: schedule_action_def insert_action_def Let_def)
  qed
  note last = schedule_last [OF engine_inv_parts(4,5) [OF inv] sched]
  obtain rv :: u64 where rv: "unat rv = Suc (unat (st_revision (en_commands e)))"
    using ex_word_unat [of "Suc (unat (st_revision (en_commands e)))", where 'a = 64] left by (auto simp: counters_left_def)
  obtain evs sq where evs: "number_events (st_epoch (en_commands e)) rv (st_sequence (en_commands e)) ps = Some (evs, sq)"
    using number_events_short [OF short, of "st_sequence (en_commands e)" "st_epoch (en_commands e)" rv] left
    by (auto simp: counters_left_def)
  have sq: "unat sq = unat (st_sequence (en_commands e)) + length ps"
    using number_events_Some [OF evs] by auto
  have next_rv: "checked_next (st_revision (en_commands e)) = Inr rv" using rv by (simp add: checked_simps)
  define r where "r = ReceiptAccepted cid \<lparr>acc_revision = rv, acc_result = a\<rparr>"
  have app: "apply_command (engine_prepare (en_transition_in_flight e) ?f) ?env now (en_commands e) =
      (\<lparr>out_receipt = r, out_events = evs, out_replayed = False\<rparr>,
       \<lparr>st_state = draft, st_epoch = st_epoch (en_commands e), st_revision = rv, st_sequence = sq,
        st_receipts = (st_receipts (en_commands e))(key \<mapsto> r)\<rparr>)"
    using fresh ready acc evs next_rv
    by (simp add: apply_command_def prepare_command_def envelope_new_def engine_prepare_def prepared_mutation_def
        commit_current_def Let_def r_def)
  have ex: "execute ?env now e = (Inr \<lparr>out_receipt = r, out_events = evs, out_replayed = False\<rparr>,
      e\<lparr>en_scheduler := put_queue e q,
        en_commands := \<lparr>st_state = draft, st_epoch = st_epoch (en_commands e), st_revision = rv, st_sequence = sq,
          st_receipts = (st_receipts (en_commands e))(key \<mapsto> r)\<rparr>,
        en_receipt_history := bt_insert key r (en_receipt_history e),
        en_pending_actions := en_pending_actions e + 1, en_transition_in_flight := launched_transition cmd draft\<rparr>)"
    using fresh ready app
    by (subst execute_fresh [OF _ surjective_pairing])
       (auto simp: execute_immediate_def fs_schedule_action_def sched Let_def envelope_new_def r_def split: option.splits)
  show "\<exists>out. fst (execute ?env now e) = Inr out \<and> is_accepted (out_receipt out)" by (simp add: ex r_def is_accepted_def)
  have e': "e' = snd (execute ?env now e)" by (simp add: e'_def)
  show "frame_cursor e' = frame_cursor e" by (simp add: e' ex frame_cursor_def)
  then show "schedule_inv e'"
    using engine_schedule_inv [OF inv] last(3,5) scheduler_inv_queue [of e q] unfolding schedule_inv_def
    by (simp add: e' ex engine_clock_time_def)
  show "pending e' = pending e @ [cmd]" by (simp add: e' ex pending_def last(1))
  show "engine_show e' = draft" "en_realized_switcher e' = en_realized_switcher e"
    "unat (st_revision (en_commands e')) = Suc (unat (st_revision (en_commands e)))"
    "unat (st_sequence (en_commands e')) = unat (st_sequence (en_commands e)) + length ps"
    "en_transition_in_flight e' = launched_transition cmd draft"
    "unat (aq_next_sequence (engine_queue e')) = Suc (unat (aq_next_sequence (engine_queue e)))"
    "en_frame_rate e' = en_frame_rate e" "en_runtime_generation e' = en_runtime_generation e"
    "st_receipts (en_commands e') = (st_receipts (en_commands e))(key := st_receipts (en_commands e') key)"
    by (simp_all add: e' ex rv sq n)
qed

text \<open>
  A stinger that keeps Program when its media is missing is accepted during a T-bar move: the show does
  not ask for an idle switcher there. The runtime does, so the frame that the command was scheduled
  for fails.
\<close>

lemma run_actions_append:
  "run_actions xs ev st e = Some (Inr (ev', st'), e') \<Longrightarrow> run_actions (xs @ ys) ev st e = run_actions ys ev' st' e'"
  by (induction xs arbitrary: ev st e) (auto simp: Let_def split: option.splits sum.splits prod.splits)

lemma stinger_during_t_bar:
  fixes now :: u64 and cid :: command_id
  assumes inv: "engine_inv e" and left: "counters_left e" and fresh: "st_receipts (en_commands e) key = None"
    and ready: "en_transition_in_flight e = None" and can: "can_tick e" and d: "0 < d" "d \<le> 3600"
    and keep: "playback_decision (engine_desired e) slot = Fallback KeepProgram" and bar: "sw_t_bar (engine_desired e) \<noteq> None"
  defines "res \<equiv> execute (envelope_new cid key (EStinger slot d)) now e"
  shows "\<exists>out. fst res = Inr out \<and> is_accepted (out_receipt out)"
    "\<exists>e'. engine_tick (snd res) = Some (Inl (RuntimeSwitcher TransitionInProgress), e')"
proof -
  have v: "validate_transition_duration ''stinger'' d = Inr ()"
    using d by (auto simp: validate_transition_duration_def MAX_TRANSITION_DURATION_FRAMES_def)
  have "engine_mutation (EStinger slot d) (frame_cursor e) (engine_show e) [] =
      (Inr \<lparr>ea_target_frame = frame_cursor e\<rparr>, engine_show e, [DesiredSwitcherChanged (EStinger slot d)])"
    using v keep by (simp add: apply_stinger_def)
  note acc = execute_accepts [OF inv left fresh ready _ this, of cid now, folded res_def]
  then show "\<exists>out. fst res = Inr out \<and> is_accepted (out_receipt out)" by simp
  let ?e = "snd res"
  obtain s where head: "heading e s" using inv by (auto simp: engine_inv_def)
  have "can_tick ?e" using can acc(9) acc(8) engine_schedule_inv [OF inv] acc(11)
    by (simp add: can_tick_def schedule_inv_def)
  then obtain dl clk t sch where tk: "next_deadline (fs_pacer (en_scheduler ?e)) = Inr dl"
    "manual_clock_set (fd_at_ns dl) (en_clock ?e) = (Inr \<lparr>cs_domain = cs_domain (mc_snapshot (en_clock ?e)), cs_time = fd_at_ns dl\<rparr>, clk)"
    "tick (fd_at_ns dl) (en_scheduler ?e) = (Inr t, sch)" "map sa_action (ft_actions t) = pending e @ [EStinger slot d]"
    using tick_drains [OF acc(8)] acc(2) by (metis One_nat_def le_refl length_Cons list.size(3))
  define e1 where "e1 = ?e\<lparr>en_clock := clk, en_scheduler := sch,
      en_pending_actions := en_pending_actions ?e - length (ft_actions t)\<rparr>"
  have s: "replay (pending e) (en_realized_switcher e1) = Some s" "settle s = engine_desired e"
    using head acc(4) by (simp_all add: heading_def e1_def)
  have gen: "unat (en_runtime_generation e1) + length (pending e) < 2 ^ 64"
    using inv acc(12) unat_u64_less [of "st_revision (en_commands e)"] by (simp add: engine_inv_def e1_def)
  obtain ev g where run: "run_actions (pending e) [] [] e1 = Some (Inr (ev, concat (map strip_update (pending e))),
      e1\<lparr>en_realized_switcher := s, en_runtime_generation := g\<rparr>)"
    using run_actions_replay [OF s(1) gen, of "[]" "[]"] by auto
  have "sw_t_bar s \<noteq> None" using bar s(2) settle_fields(7) [of s] by auto
  then have "apply_runtime (EStinger slot d) s = Some (Inl TransitionInProgress, s)"
    using d(1) by (auto simp: require_idle_def)
  then have "run_actions (pending e @ [EStinger slot d]) [] [] e1 = Some (Inl (RuntimeSwitcher TransitionInProgress),
      e1\<lparr>en_realized_switcher := s, en_runtime_generation := g\<rparr>)"
    using run_actions_append [OF run, of "[EStinger slot d]"] by (simp add: Let_def)
  then show "\<exists>e'. engine_tick ?e = Some (Inl (RuntimeSwitcher TransitionInProgress), e')"
    by (simp add: engine_tick_def tk Let_def flip: e1_def)
qed

text \<open>
  Stopping a recording that is not running is accepted, and emits no event. The engine's counters differ from
  then on, and the snapshot that it takes of itself when it is idle again is refused by \<open>restore\<close>.
\<close>

lemma repeated_record_stop_refused:
  fixes now :: u64 and cid :: command_id
  assumes e: "engine_reachable e" and left: "counters_left e" and fresh: "st_receipts (en_commands e) key = None"
    and ready: "en_transition_in_flight e = None" and off: "\<not> sw_recording_desired (engine_desired e)"
    and level: "st_sequence (en_commands e) = st_revision (en_commands e)"
  defines "e1 \<equiv> snd (execute (envelope_new cid key ERecordStop) now e)"
  assumes reach: "clock_reaches e1 n" and n: "3600 \<le> n"
  shows "\<exists>e' sn err. engine_ticks n e1 = Some (Inr (), e') \<and> snapshot e' = Inr sn \<and> restore sn = Inl err"
proof -
  have "engine_mutation ERecordStop (frame_cursor e) (engine_show e) [] =
      (Inr \<lparr>ea_target_frame = frame_cursor e\<rparr>, engine_show e, [])"
    using off by (simp add: apply_recording_mutation_def on_desired_def set_recording_desired_def)
  note acc = execute_accepts [OF reachable_inv [OF e] left fresh ready _ this, of cid now, folded e1_def, simplified]
  have "engine_reachable e1"
    unfolding e1_def by (rule reach_step [OF e step_execute]) (simp_all add: envelope_new_def unrealizable_stinger_def)
  then have inv: "engine_inv e1" by (rule reachable_inv)
  obtain s where head: "heading e1 s" using inv by (auto simp: engine_inv_def)
  obtain e' where e': "engine_ticks n e1 = Some (Inr (), e')" "engine_inv e'" "en_commands e' = en_commands e1"
    using engine_ticks_run [OF inv head reach] by auto
  obtain sn where sn: "snapshot e' = Inr sn" using engine_settles [OF inv reach n] e'(1) by auto
  have "st_sequence (en_commands e') \<noteq> st_revision (en_commands e')"
    using acc(5,6) level e'(3) by auto
  with restore_snapshot [OF e'(2) sn] e'(1) sn show ?thesis by auto
qed

text \<open>C21: a departure from what the engine otherwise guarantees. A stinger whose media is missing and whose
  fallback keeps Program is accepted during a manual transition, and the frame that it is scheduled
  for fails with TransitionInProgress.
\<close>
theorem stinger_fails_during_t_bar:
  assumes "engine_reachable e" "counters_left e" "st_receipts (en_commands e) key = None"
    "en_transition_in_flight e = None" "can_tick e" "0 < d" "d \<le> 3600"
    "playback_decision (engine_desired e) slot = Fallback KeepProgram" "sw_t_bar (engine_desired e) \<noteq> None"
  shows "\<exists>out. fst (execute (envelope_new cid key (EStinger slot d)) now e) = Inr out \<and> is_accepted (out_receipt out)
    \<and> (\<exists>e'. engine_tick (snd (execute (envelope_new cid key (EStinger slot d)) now e))
         = Some (Inl (RuntimeSwitcher TransitionInProgress), e'))"
  using stinger_during_t_bar [OF reachable_inv [OF assms(1)] assms(2-9)] by blast

definition demo_stinger :: stinger_descriptor where
  "demo_stinger = \<lparr>sd_media_input = 1, sd_preload = False, sd_cut_point_frames = 0, sd_audio_policy = StingerOnly,
     sd_missing_media_fallback = KeepProgram\<rparr>"

definition demo_setup :: engine where
  "demo_setup = snd (execute (envelope_new ''cmd-1'' ''key-1'' (EConfigureStinger 1 demo_stinger)) 0 demo_start)"

definition demo_t_bar :: engine where
  "demo_t_bar = snd (execute (envelope_new ''cmd-2'' ''key-2'' (EStartManualTransition ManualFade)) 0 demo_setup)"

lemma demo_t_bar_facts:
  "engine_reachable demo_t_bar" "counters_left demo_t_bar" "st_receipts (en_commands demo_t_bar) ''key-3'' = None"
  "en_transition_in_flight demo_t_bar = None" "can_tick demo_t_bar"
  "playback_decision (engine_desired demo_t_bar) 1 = Fallback KeepProgram" "sw_t_bar (engine_desired demo_t_bar) \<noteq> None"
proof -
  let ?slots = "(replicate 8 stinger_empty)[0 := stinger_configure demo_stinger stinger_empty]"
  let ?sw1 = "demo_show_switcher\<lparr>sw_stingers := ?slots\<rparr>"
  let ?sw2 = "?sw1\<lparr>sw_t_bar := Some (t_bar_new Fade 1 2)\<rparr>"
  let ?c1 = "EConfigureStinger 1 demo_stinger" and ?c2 = "EStartManualTransition ManualFade"
  have start: "counters_left demo_start" "st_receipts (en_commands demo_start) = Map.empty" "engine_show demo_start = demo_show"
    "en_transition_in_flight demo_start = None" "frame_cursor demo_start = 0"
    "en_frame_rate demo_start = \<lparr>numerator = 25, denominator = 1\<rparr>"
    by (simp_all add: counters_left_def demo_simps)
  have m1: "engine_mutation ?c1 (frame_cursor demo_start) (engine_show demo_start) [] =
      (Inr \<lparr>ea_target_frame = 0\<rparr>, demo_show\<lparr>sh_desired_switcher := ?sw1\<rparr>, [DesiredSwitcherChanged ?c1])"
    by (simp add: start apply_stinger_mutation_def demo_show_def demo_show_switcher_def on_desired_def apply_configure_stinger_def
        configure_stinger_def require_input_def demo_stinger_def update_slot_def switcher_stinger_def slot_index_def)
  note a1 = execute_accepts [OF reachable_inv [OF demo_reachable(1)] start(1) _ start(4) _ m1, of "''key-1''" "''cmd-1''" 0,
      folded demo_setup_def, simplified start, simplified]
  have r1: "engine_reachable demo_setup" unfolding demo_setup_def
    by (rule reach_step [OF demo_reachable(1) step_execute])
       (simp_all add: envelope_new_def unrealizable_stinger_def demo_stinger_def channel_ok_def overlay_channel_new_def)
  have l1: "counters_left demo_setup" using a1(5,6,10) by (simp add: counters_left_def demo_simps)
  have m2: "engine_mutation ?c2 (frame_cursor demo_setup) (engine_show demo_setup) [] =
      (Inr \<lparr>ea_target_frame = 0\<rparr>, demo_show\<lparr>sh_desired_switcher := ?sw2\<rparr>, [DesiredSwitcherChanged ?c2])"
    by (simp add: a1(3,9) apply_desired_def on_desired_def start_t_bar_def manual_transition_supported_def require_idle_def demo_show_def demo_show_switcher_def)
  have k2: "st_receipts (en_commands demo_setup) ''key-2'' = None" "st_receipts (en_commands demo_setup) ''key-3'' = None" by (subst a1(13), simp)+
  have t1: "en_transition_in_flight demo_setup = None" by (simp add: a1(7))
  note a2 = execute_accepts [OF reachable_inv [OF r1] l1 k2(1) t1 _ m2, of "''cmd-2''" 0, folded demo_t_bar_def, simplified]
  show r2: "engine_reachable demo_t_bar" unfolding demo_t_bar_def
    by (rule reach_step [OF r1 step_execute]) (simp_all add: envelope_new_def unrealizable_stinger_def)
  show "counters_left demo_t_bar" using a1(5,6,10) a2(5,6,10) by (simp add: counters_left_def demo_simps)
  show "st_receipts (en_commands demo_t_bar) ''key-3'' = None" by (subst a2(13), simp, rule k2(2))
  show "en_transition_in_flight demo_t_bar = None" by (simp add: a2(7))
  have "clock_reaches demo_t_bar 1" by (simp add: clock_reaches_def a1(9,11) a2(9,11) start frame_offset_ns_def NANOS_PER_SECOND_def)
  then show "can_tick demo_t_bar" using clock_reaches_can [OF reachable_inv [OF r2], of 0] by simp
  show "playback_decision (engine_desired demo_t_bar) 1 = Fallback KeepProgram" "sw_t_bar (engine_desired demo_t_bar) \<noteq> None"
    by (simp_all add: a2(3) playback_decision_def switcher_stinger_def slot_index_def stinger_configure_def demo_stinger_def demo_show_switcher_def)
qed

theorem stinger_fails_during_t_bar_witness:
  "\<exists>out. fst (execute (envelope_new ''cmd-3'' ''key-3'' (EStinger 1 2)) 0 demo_t_bar) = Inr out \<and> is_accepted (out_receipt out)
     \<and> (\<exists>e'. engine_tick (snd (execute (envelope_new ''cmd-3'' ''key-3'' (EStinger 1 2)) 0 demo_t_bar))
          = Some (Inl (RuntimeSwitcher TransitionInProgress), e'))"
proof -
  have "0 < (2 :: u32)" "(2 :: u32) \<le> 3600" by simp_all
  from stinger_fails_during_t_bar [OF demo_t_bar_facts(1-5) this demo_t_bar_facts(6,7)] show ?thesis by blast
qed

end
