(* ===== verification/Transport.thy ===== *)
theory Transport
  imports Media_Types BTree
begin

text \<open>
  The crate \<open>crates/media/fm-playback\<close>, its first half: clips and their library (\<open>clip.rs\<close>) and the transport
  that plays one clip between its marks (\<open>transport.rs\<close>).

  The decoder behind \<open>FrameCodec\<close> is not part of the crate: it is the argument \<open>read\<close>, a function of the
  clip, the frame and the decoder's own state. A subtraction, addition or index that panics when it is
  out of range makes the operation return \<open>None\<close>.
\<close>

section \<open>Clips\<close>

type_synonym clip_id = u128
type_synonym playlist_entry_id = u128
type_synonym go_id = u128
type_synonym frame_index = u64
type_synonym schedule_coordinate = u64

datatype speed_direction = Forward | Reverse

datatype speed = SpeedPause | Forward1x | Forward2x | Reverse1x | Reverse2x

fun speed_direction_of :: "speed \<Rightarrow> speed_direction option" where
  "speed_direction_of SpeedPause = None"
| "speed_direction_of Forward1x = Some Forward"
| "speed_direction_of Forward2x = Some Forward"
| "speed_direction_of Reverse1x = Some Reverse"
| "speed_direction_of Reverse2x = Some Reverse"

fun frame_step :: "speed \<Rightarrow> u64" where
  "frame_step SpeedPause = 0"
| "frame_step Forward1x = 1"
| "frame_step Reverse1x = 1"
| "frame_step Forward2x = 2"
| "frame_step Reverse2x = 2"

datatype clip_error = EmptyClip

datatype codec_error = CodecUnavailable | OpenFailed ustr | DecodeFailed frame_index ustr

record 'f fixture_clip =
  fx_id :: clip_id
  fx_frames :: "'f option list"

record encoded_clip =
  ec_id :: clip_id
  ec_locator :: ustr
  ec_frame_count :: u64

datatype 'f playback_clip = Fixture "'f fixture_clip" | Encoded encoded_clip

definition fixture_from_slots :: "clip_id \<Rightarrow> 'f option list \<Rightarrow> clip_error + 'f fixture_clip" where
  "fixture_from_slots i frames = (if frames = [] then Inl EmptyClip else Inr \<lparr>fx_id = i, fx_frames = frames\<rparr>)"

definition fixture_new :: "clip_id \<Rightarrow> 'f list \<Rightarrow> clip_error + 'f fixture_clip" where
  "fixture_new i frames = fixture_from_slots i (map Some frames)"

definition fixture_frame_count :: "'f fixture_clip \<Rightarrow> u64" where
  "fixture_frame_count c = (case word_try_from (length (fx_frames c)) of Some n \<Rightarrow> n | None \<Rightarrow> - 1)"

definition fixture_frame :: "frame_index \<Rightarrow> 'f fixture_clip \<Rightarrow> 'f option" where
  "fixture_frame index c = (if unat index < length (fx_frames c) then fx_frames c ! unat index else None)"

definition encoded_new :: "clip_id \<Rightarrow> ustr \<Rightarrow> u64 \<Rightarrow> clip_error + encoded_clip" where
  "encoded_new i locator frame_count =
     (if frame_count = 0 then Inl EmptyClip
      else Inr \<lparr>ec_id = i, ec_locator = locator, ec_frame_count = frame_count\<rparr>)"

fun clip_id_of :: "'f playback_clip \<Rightarrow> clip_id" where
  "clip_id_of (Fixture c) = fx_id c"
| "clip_id_of (Encoded c) = ec_id c"

fun clip_frame_count :: "'f playback_clip \<Rightarrow> u64" where
  "clip_frame_count (Fixture c) = fixture_frame_count c"
| "clip_frame_count (Encoded c) = ec_frame_count c"

datatype library_error = DuplicateClip clip_id | MissingClip clip_id

type_synonym 'f clip_library = "(clip_id, 'f playback_clip) btree"

definition library_insert :: "'f playback_clip \<Rightarrow> (library_error, unit, 'f clip_library) meth" where
  "library_insert clip clips =
     (let i = clip_id_of clip in
      if map_of clips i \<noteq> None then (Inl (DuplicateClip i), clips) else (Inr (), bt_insert i clip clips))"

section \<open>The transport\<close>

datatype transport_state = TransportStopped | TransportPlaying | TransportPaused
datatype end_behavior = EndHold | EndStop

record marks =
  mark_in :: frame_index
  mark_out :: frame_index

datatype mark_error = ReversedMarks frame_index frame_index

definition marks_new :: "frame_index \<Rightarrow> frame_index \<Rightarrow> mark_error + marks" where
  "marks_new i j = (if i > j then Inl (ReversedMarks i j) else Inr \<lparr>mark_in = i, mark_out = j\<rparr>)"

datatype playback_error =
    InvalidMarks mark_error
  | MarkOutOfRange frame_index u64
  | SeekOutsideMarks frame_index marks
  | MissingFrame clip_id frame_index
  | MissingCodec clip_id
  | CodecFailure codec_error

record 'f playback_frame =
  pf_clip_id :: clip_id
  pf_index :: frame_index
  pf_frame :: 'f
  pf_ended :: bool

record 'f transport =
  tp_clip :: "'f playback_clip"
  tp_state :: transport_state
  tp_cursor :: frame_index
  tp_marks :: marks
  tp_motion :: speed
  tp_looping :: bool
  tp_end_behavior :: end_behavior

definition full_marks :: "'f playback_clip \<Rightarrow> marks option" where
  "full_marks clip = map_option (\<lambda>last. \<lparr>mark_in = 0, mark_out = last\<rparr>) (checked_sub (clip_frame_count clip) 1)"

definition transport_new :: "'f playback_clip \<Rightarrow> 'f transport option" where
  "transport_new clip = map_option (\<lambda>marks.
     \<lparr>tp_clip = clip, tp_state = TransportStopped, tp_cursor = mark_in marks, tp_marks = marks,
      tp_motion = Forward1x, tp_looping = False, tp_end_behavior = EndHold\<rparr>) (full_marks clip)"

definition transport_speed :: "'f transport \<Rightarrow> speed" where
  "transport_speed t = (if tp_state t = TransportPlaying then tp_motion t else SpeedPause)"

definition transport_direction :: "'f transport \<Rightarrow> speed_direction" where
  "transport_direction t = (case speed_direction_of (tp_motion t) of Some d \<Rightarrow> d | None \<Rightarrow> Forward)"

definition transport_play :: "'f transport \<Rightarrow> 'f transport" where
  "transport_play t = t\<lparr>tp_state := TransportPlaying\<rparr>"

definition transport_pause :: "'f transport \<Rightarrow> 'f transport" where
  "transport_pause t = t\<lparr>tp_state := TransportPaused\<rparr>"

definition transport_stop :: "'f transport \<Rightarrow> 'f transport" where
  "transport_stop t = t\<lparr>tp_state := TransportStopped, tp_cursor := mark_in (tp_marks t)\<rparr>"

definition set_speed :: "speed \<Rightarrow> 'f transport \<Rightarrow> 'f transport" where
  "set_speed speed t =
     (if speed = SpeedPause then transport_pause t else transport_play (t\<lparr>tp_motion := speed\<rparr>))"

definition set_looping :: "bool \<Rightarrow> 'f transport \<Rightarrow> 'f transport" where
  "set_looping looping t = t\<lparr>tp_looping := looping\<rparr>"

definition set_end_behavior :: "end_behavior \<Rightarrow> 'f transport \<Rightarrow> 'f transport" where
  "set_end_behavior behavior t = t\<lparr>tp_end_behavior := behavior\<rparr>"

definition set_marks :: "marks \<Rightarrow> (playback_error, unit, 'f transport) meth" where
  "set_marks marks t =
     (if mark_in marks > mark_out marks
      then (Inl (InvalidMarks (ReversedMarks (mark_in marks) (mark_out marks))), t)
      else if mark_out marks \<ge> clip_frame_count (tp_clip t)
      then (Inl (MarkOutOfRange (mark_out marks) (clip_frame_count (tp_clip t))), t)
      else let t' = t\<lparr>tp_marks := marks\<rparr> in
        (Inr (), if tp_cursor t < mark_in marks \<or> tp_cursor t > mark_out marks
                 then t'\<lparr>tp_cursor := mark_in marks\<rparr> else t'))"

definition clear_marks :: "'f transport \<Rightarrow> 'f transport option" where
  "clear_marks t = map_option (\<lambda>marks. t\<lparr>tp_marks := marks\<rparr>) (full_marks (tp_clip t))"

definition seek :: "frame_index \<Rightarrow> (playback_error, unit, 'f transport) meth" where
  "seek frame t =
     (if frame < mark_in (tp_marks t) \<or> frame > mark_out (tp_marks t)
      then (Inl (SeekOutsideMarks frame (tp_marks t)), t)
      else (Inr (), t\<lparr>tp_cursor := frame\<rparr>))"

text \<open>The position after the boundary was crossed on a loop of \<open>range_len\<close> frames.\<close>

definition loop_offset :: "speed_direction \<Rightarrow> u64 \<Rightarrow> u64 \<Rightarrow> u64 \<Rightarrow> u64 option" where
  "loop_offset dir offset step range_len =
     (if range_len = 0 then None
      else let delta = step mod range_len in
        case dir of
          Forward \<Rightarrow> Option.bind (checked_sub range_len offset) (\<lambda>rest.
            if delta \<ge> rest then checked_sub delta rest else checked_add offset delta)
        | Reverse \<Rightarrow>
            if delta > offset then Option.bind (checked_sub delta offset) (checked_sub range_len)
            else checked_sub offset delta)"

definition transport_advance :: "'f transport \<Rightarrow> (bool \<times> 'f transport) option" where
  "transport_advance t =
     (let step = frame_step (tp_motion t); m_in = mark_in (tp_marks t); m_out = mark_out (tp_marks t);
          current = tp_cursor t; dir = transport_direction t in
      Option.bind (Option.bind (checked_sub m_out m_in) (\<lambda>d. checked_add d 1)) (\<lambda>range_len.
      Option.bind (case dir of
          Forward \<Rightarrow> Some (case checked_add current step of None \<Rightarrow> True | Some nxt \<Rightarrow> nxt > m_out)
        | Reverse \<Rightarrow> map_option (\<lambda>room. step > room) (checked_sub current m_in)) (\<lambda>crossed.
      if \<not> crossed then
        map_option (\<lambda>c. (False, t\<lparr>tp_cursor := c\<rparr>))
          (case dir of Forward \<Rightarrow> checked_add current step | Reverse \<Rightarrow> checked_sub current step)
      else if tp_looping t then
        Option.bind (checked_sub current m_in) (\<lambda>offset.
        Option.bind (loop_offset dir offset step range_len) (\<lambda>next_offset.
        map_option (\<lambda>c. (True, t\<lparr>tp_cursor := c\<rparr>)) (checked_add m_in next_offset)))
      else Some (True, case tp_end_behavior t of
          EndHold \<Rightarrow> t\<lparr>tp_cursor := (case dir of Forward \<Rightarrow> m_out | Reverse \<Rightarrow> m_in), tp_state := TransportPaused\<rparr>
        | EndStop \<Rightarrow> t\<lparr>tp_cursor := m_in, tp_state := TransportStopped\<rparr>))))"

text \<open>The decoder: a function of the clip, the frame and its own state.\<close>

type_synonym ('f, 'c) frame_codec = "encoded_clip \<Rightarrow> frame_index \<Rightarrow> 'c \<Rightarrow> (codec_error + 'f) \<times> 'c"

definition read_clip ::
  "('f, 'c) frame_codec \<Rightarrow> frame_index \<Rightarrow> 'f playback_clip \<Rightarrow> 'c option \<Rightarrow> (playback_error + 'f) \<times> 'c option" where
  "read_clip read index clip codec =
     (case clip of
        Fixture c \<Rightarrow> (ok_or (fixture_frame index c) (MissingFrame (fx_id c) index), codec)
      | Encoded c \<Rightarrow>
          (case codec of
             None \<Rightarrow> (Inl (MissingCodec (ec_id c)), None)
           | Some st \<Rightarrow>
               (case read c index st of
                  (Inl e, st') \<Rightarrow> (Inl (CodecFailure e), Some st')
                | (Inr frame, st') \<Rightarrow> (Inr frame, Some st'))))"

definition transport_pull ::
  "('f, 'c) frame_codec \<Rightarrow> 'c option \<Rightarrow> 'f transport
   \<Rightarrow> ((playback_error + 'f playback_frame) \<times> 'c option \<times> 'f transport) option" where
  "transport_pull read codec t =
     (let index = tp_cursor t in
      case read_clip read index (tp_clip t) codec of
        (Inl e, codec') \<Rightarrow> Some (Inl e, codec', t)
      | (Inr frame, codec') \<Rightarrow>
          map_option (\<lambda>(ended, t').
              (Inr \<lparr>pf_clip_id = clip_id_of (tp_clip t), pf_index = index, pf_frame = frame, pf_ended = ended\<rparr>, codec', t'))
            (if tp_state t = TransportPlaying then transport_advance t else Some (False, t)))"

section \<open>The cursor stays between the marks\<close>

definition transport_inv :: "'f transport \<Rightarrow> bool" where
  "transport_inv t \<longleftrightarrow> mark_in (tp_marks t) \<le> tp_cursor t \<and> tp_cursor t \<le> mark_out (tp_marks t)
     \<and> mark_out (tp_marks t) < clip_frame_count (tp_clip t) \<and> tp_motion t \<noteq> SpeedPause"

text \<open>How far the cursor moves, and how long the marked range is.\<close>

definition velocity :: "speed \<Rightarrow> int" where
  "velocity v = (case speed_direction_of v of Some Reverse \<Rightarrow> - int (unat (frame_step v)) | _ \<Rightarrow> int (unat (frame_step v)))"

definition range_length :: "marks \<Rightarrow> nat" where
  "range_length m = unat (mark_out m) - unat (mark_in m) + 1"

definition play_offset :: "'f transport \<Rightarrow> nat" where
  "play_offset t = unat (tp_cursor t) - unat (mark_in (tp_marks t))"

lemma velocity_simps [simp]:
  "velocity SpeedPause = 0" "velocity Forward1x = 1" "velocity Forward2x = 2" "velocity Reverse1x = - 1" "velocity Reverse2x = - 2"
  by (simp_all add: velocity_def)

lemma transport_invD:
  assumes "transport_inv t"
  shows "unat (mark_in (tp_marks t)) \<le> unat (tp_cursor t)" "unat (tp_cursor t) \<le> unat (mark_out (tp_marks t))"
    "unat (mark_out (tp_marks t)) < unat (clip_frame_count (tp_clip t))" "play_offset t < range_length (tp_marks t)"
    "unat (tp_cursor t) = unat (mark_in (tp_marks t)) + play_offset t"
    "unat (mark_in (tp_marks t)) + range_length (tp_marks t) < 2 ^ 64"
  using assms unat_u64_less [of "clip_frame_count (tp_clip t)"]
  by (auto simp: transport_inv_def play_offset_def range_length_def word_less_unat)

lemma full_marks_Some:
  assumes "0 < clip_frame_count clip"
  shows "\<exists>m. full_marks clip = Some m \<and> mark_in m = 0 \<and> Suc (unat (mark_out m)) = unat (clip_frame_count clip)"
proof -
  have "1 \<le> unat (clip_frame_count clip)" using assms by (simp add: word_less_unat)
  then obtain c where c: "checked_sub (clip_frame_count clip) 1 = Some c"
    by (metis checked_sub_None not_le not_None_eq unat_1)
  then have "Suc (unat c) = unat (clip_frame_count clip)" by (simp add: checked_simps)
  then show ?thesis by (simp add: full_marks_def c)
qed

lemma transport_new_inv:
  assumes "0 < clip_frame_count clip"
  shows "\<exists>t. transport_new clip = Some t \<and> transport_inv t \<and> tp_clip t = clip \<and> tp_state t = TransportStopped"
  using full_marks_Some [OF assms] by (auto simp: transport_new_def transport_inv_def word_less_unat)

lemma marks_ops_inv:
  assumes "transport_inv t"
  shows "transport_inv (snd (set_marks m t))" "transport_inv (snd (seek f t))"
    "\<exists>t'. clear_marks t = Some t' \<and> transport_inv t'"
proof -
  show "transport_inv (snd (set_marks m t))" "transport_inv (snd (seek f t))"
    using assms by (auto simp: set_marks_def seek_def transport_inv_def Let_def word_less_unat)
  have "0 < clip_frame_count (tp_clip t)" using assms by (simp add: transport_inv_def word_less_unat)
  from full_marks_Some [OF this] show "\<exists>t'. clear_marks t = Some t' \<and> transport_inv t'"
    using assms by (auto simp: clear_marks_def transport_inv_def word_less_unat)
qed

lemma control_ops_inv:
  assumes "transport_inv t"
  shows "transport_inv (transport_play t)" "transport_inv (transport_pause t)" "transport_inv (transport_stop t)"
    "transport_inv (set_speed v t)" "transport_inv (set_looping b t)" "transport_inv (set_end_behavior eb t)"
  using assms by (auto simp: transport_play_def transport_pause_def transport_stop_def set_speed_def set_looping_def
      set_end_behavior_def transport_inv_def word_less_unat)

section \<open>Advancing\<close>

text \<open>Where a loop continues: the offset moves by the speed modulo the length of the range.\<close>

definition looped :: "int \<Rightarrow> nat \<Rightarrow> nat \<Rightarrow> nat" where
  "looped v len off = nat ((int off + v) mod int len)"

lemma mod_once:
  "off < len \<Longrightarrow> x < len \<Longrightarrow> (off + x) mod len = (if len - off \<le> x then x - (len - off) else off + x)" for off :: nat
  by (auto simp: le_mod_geq)

lemma looped_forward:
  assumes "off < len"
  shows "looped (int s) len off = (if len - off \<le> s mod len then s mod len - (len - off) else off + s mod len)"
proof -
  have less: "s mod len < len" using assms by simp
  have "looped (int s) len off = (off + s mod len) mod len"
    by (simp add: looped_def mod_add_right_eq flip: of_nat_add of_nat_mod)
  with mod_once [OF assms less] show ?thesis by simp
qed

lemma looped_reverse:
  assumes "off < len"
  shows "looped (- int s) len off = (if off < s mod len then len - (s mod len - off) else off - s mod len)"
proof -
  have less: "s mod len < len" using assms by simp
  have "(int off - int s) mod int len = (int off - int (s mod len)) mod int len"
    by (simp add: of_nat_mod mod_diff_right_eq)
  also have "\<dots> = (int off - int (s mod len) + int len) mod int len" by simp
  finally have *: "(int off - int s) mod int len = (int off - int (s mod len)) mod int len"
    "(int off - int s) mod int len = (int off - int (s mod len) + int len) mod int len" by simp_all
  show ?thesis
  proof (cases "off < s mod len")
    case True
    then have "(int off - int (s mod len) + int len) mod int len = int off - int (s mod len) + int len"
      using less by (intro mod_pos_pos_trivial) auto
    with *(2) True less show ?thesis by (simp add: looped_def nat_eq_iff)
  next
    case False
    then have "(int off - int (s mod len)) mod int len = int off - int (s mod len)"
      using assms by (intro mod_pos_pos_trivial) auto
    with *(1) False show ?thesis by (simp add: looped_def nat_eq_iff)
  qed
qed

lemma ex_checked_sub: "unat b \<le> unat a \<Longrightarrow> \<exists>c. checked_sub a b = Some c \<and> unat c = unat a - unat b"
  by (cases "checked_sub a b") (auto simp: checked_simps)

lemma ex_checked_add: "unat a + unat b < 2 ^ LENGTH('a) \<Longrightarrow> \<exists>c. checked_add a b = Some c \<and> unat c = unat a + unat b"
  for a b :: "'a::len word"
  by (cases "checked_add a b") (auto simp: checked_simps)

lemma loop_offset_looped:
  assumes off: "unat off < unat len" and motion: "speed_direction_of v = Some dir"
  shows "\<exists>w. loop_offset dir off (frame_step v) len = Some w \<and> unat w = looped (velocity v) (unat len) (unat off)"
proof -
  let ?d = "frame_step v mod len"
  have d: "unat ?d = unat (frame_step v) mod unat len" by (simp add: unat_mod_distrib)
  have less: "unat ?d < unat len" using off by (simp add: d)
  have len: "len \<noteq> 0" "unat len < 2 ^ 64" using off unat_u64_less [of len] by auto
  show ?thesis
  proof (cases dir)
    case Forward
    then have v: "velocity v = int (unat (frame_step v))" using motion by (simp add: velocity_def)
    obtain rest where rest: "checked_sub len off = Some rest" "unat rest = unat len - unat off"
      using ex_checked_sub [of off len] off by auto
    have "\<exists>w. (if rest \<le> ?d then checked_sub ?d rest else checked_add off ?d) = Some w
        \<and> unat w = (if unat len - unat off \<le> unat ?d then unat ?d - (unat len - unat off) else unat off + unat ?d)"
      using ex_checked_sub [of rest ?d] ex_checked_add [of off ?d] rest(2) less len(2) by (auto simp: word_less_unat)
    then show ?thesis using len(1) rest(1) Forward looped_forward [OF off, of "unat (frame_step v)", folded v d]
      by (simp only: loop_offset_def Let_def speed_direction.case if_False bind.bind_lunit)
  next
    case Reverse
    then have v: "velocity v = - int (unat (frame_step v))" using motion by (simp add: velocity_def)
    have "\<exists>w. (if off < ?d then Option.bind (checked_sub ?d off) (checked_sub len) else checked_sub off ?d) = Some w
        \<and> unat w = (if unat off < unat ?d then unat len - (unat ?d - unat off) else unat off - unat ?d)"
    proof (cases "off < ?d")
      case True
      then obtain x where x: "checked_sub ?d off = Some x" "unat x = unat ?d - unat off"
        using ex_checked_sub [of off ?d] by (auto simp: word_less_unat)
      with True ex_checked_sub [of x len] less show ?thesis by (auto simp: word_less_unat)
    next
      case False
      then show ?thesis using ex_checked_sub [of ?d off] by (auto simp: word_less_unat)
    qed
    then show ?thesis using len(1) Reverse looped_reverse [OF off, of "unat (frame_step v)", folded v d]
      by (simp only: loop_offset_def Let_def speed_direction.case if_False)
  qed
qed

lemma looped_inside: "0 \<le> int off + v \<Longrightarrow> int off + v < int len \<Longrightarrow> looped v len off = nat (int off + v)"
  by (simp add: looped_def)

lemma looped_less: "0 < len \<Longrightarrow> looped v len off < len"
  by (simp add: looped_def nat_less_iff)

definition inside :: "'f transport \<Rightarrow> bool" where
  "inside t \<longleftrightarrow> 0 \<le> int (play_offset t) + velocity (tp_motion t)
     \<and> int (play_offset t) + velocity (tp_motion t) < int (range_length (tp_marks t))"

text \<open>The transport when the playback has come to the end of its marks.\<close>

definition at_end :: "'f transport \<Rightarrow> 'f transport" where
  "at_end t = (case tp_end_behavior t of
      EndHold \<Rightarrow> t\<lparr>tp_cursor := (if velocity (tp_motion t) < 0 then mark_in (tp_marks t) else mark_out (tp_marks t)),
        tp_state := TransportPaused\<rparr>
    | EndStop \<Rightarrow> t\<lparr>tp_cursor := mark_in (tp_marks t), tp_state := TransportStopped\<rparr>)"

lemma motion_direction:
  assumes "transport_inv t"
  shows "speed_direction_of (tp_motion t) = Some (transport_direction t)"
    "velocity (tp_motion t) = (case transport_direction t of Forward \<Rightarrow> int (unat (frame_step (tp_motion t)))
       | Reverse \<Rightarrow> - int (unat (frame_step (tp_motion t))))" "0 < unat (frame_step (tp_motion t))"
  using assms by (cases "tp_motion t"; simp add: transport_inv_def transport_direction_def)+

lemma advance_cases:
  assumes inv: "transport_inv t"
  obtains (moves) c where "inside t \<or> tp_looping t" "transport_advance t = Some (\<not> inside t, t\<lparr>tp_cursor := c\<rparr>)"
      "unat c = unat (mark_in (tp_marks t)) + looped (velocity (tp_motion t)) (range_length (tp_marks t)) (play_offset t)"
  | (ends) "\<not> inside t" "\<not> tp_looping t" "transport_advance t = Some (True, at_end t)"
proof -
  let ?m = "tp_marks t" and ?step = "frame_step (tp_motion t)" and ?c = "tp_cursor t"
  define s where "s = unat ?step"
  note pos = transport_invD [OF inv] and dir = motion_direction [OF inv, folded s_def]
  have in_iff: "inside t \<longleftrightarrow> (case transport_direction t of Forward \<Rightarrow> play_offset t + s < range_length ?m | Reverse \<Rightarrow> s \<le> play_offset t)"
    using dir(2) pos(4) by (auto simp: inside_def split: speed_direction.splits)
  obtain d where d: "checked_sub (mark_out ?m) (mark_in ?m) = Some d" "unat d = unat (mark_out ?m) - unat (mark_in ?m)"
    using ex_checked_sub [of "mark_in ?m" "mark_out ?m"] pos(1,2) by auto
  obtain len where len: "checked_add d 1 = Some len" "unat len = range_length ?m"
    using ex_checked_add [of d 1] d(2) pos(6) by (auto simp: range_length_def)
  obtain off where off: "checked_sub ?c (mark_in ?m) = Some off" "unat off = play_offset t"
    using ex_checked_sub [of "mark_in ?m" ?c] pos(1) by (auto simp: play_offset_def)
  have crossed: "(case transport_direction t of
      Forward \<Rightarrow> Some (case checked_add ?c ?step of None \<Rightarrow> True | Some nxt \<Rightarrow> nxt > mark_out ?m)
    | Reverse \<Rightarrow> map_option (\<lambda>room. ?step > room) (checked_sub ?c (mark_in ?m))) = Some (\<not> inside t)"
  proof (cases "transport_direction t")
    case Forward
    have "(case checked_add ?c ?step of None \<Rightarrow> True | Some nxt \<Rightarrow> nxt > mark_out ?m) \<longleftrightarrow> unat (mark_out ?m) < unat ?c + s"
      using unat_u64_less [of "mark_out ?m"]
      by (auto simp: checked_simps word_less_unat s_def split: option.splits)
    then show ?thesis using Forward in_iff pos(1,2,5) by (auto simp: range_length_def)
  next
    case Reverse
    then show ?thesis using in_iff off by (auto simp: word_less_unat s_def)
  qed
  show thesis
  proof (cases "inside t")
    case True
    have "\<exists>c. (case transport_direction t of Forward \<Rightarrow> checked_add ?c ?step | Reverse \<Rightarrow> checked_sub ?c ?step) = Some c
        \<and> unat c = unat (mark_in ?m) + looped (velocity (tp_motion t)) (range_length ?m) (play_offset t)"
    proof (cases "transport_direction t")
      case Forward
      then have "play_offset t + s < range_length ?m" using True in_iff by simp
      moreover from this have "looped (velocity (tp_motion t)) (range_length ?m) (play_offset t) = play_offset t + s"
        using Forward dir(2) by (simp add: looped_inside nat_plus_as_int)
      ultimately show ?thesis using Forward ex_checked_add [of ?c ?step] pos(5,6) by (auto simp: s_def)
    next
      case Reverse
      then have "s \<le> play_offset t" using True in_iff by simp
      moreover from this have "looped (velocity (tp_motion t)) (range_length ?m) (play_offset t) = play_offset t - s"
        using Reverse dir(2) pos(4) by (simp add: looped_inside nat_diff_distrib)
      ultimately show ?thesis using Reverse ex_checked_sub [of ?step ?c] pos(5) by (auto simp: s_def)
    qed
    then show thesis using True crossed d len off by (auto simp: transport_advance_def Let_def intro!: moves)
  next
    case out: False
    show thesis
    proof (cases "tp_looping t")
      case True
      obtain w where w: "loop_offset (transport_direction t) off ?step len = Some w"
        "unat w = looped (velocity (tp_motion t)) (range_length ?m) (play_offset t)"
        using loop_offset_looped [of off len "tp_motion t"] off(2) len(2) pos(4) dir(1) by auto
      have "unat w < range_length ?m" using w(2) pos(4) by (simp add: looped_less)
      then obtain c where "checked_add (mark_in ?m) w = Some c" "unat c = unat (mark_in ?m) + unat w"
        using ex_checked_add [of "mark_in ?m" w] pos(6) by auto
      with True out crossed d len off w show thesis by (intro moves [of c]) (simp_all add: transport_advance_def Let_def)
    next
      case False
      with out crossed d len dir(2,3) show thesis
        by (intro ends) (auto simp: transport_advance_def at_end_def Let_def split: end_behavior.splits speed_direction.splits)
    qed
  qed
qed

lemma at_end_inv: "transport_inv t \<Longrightarrow> transport_inv (at_end t)"
  by (auto simp: at_end_def transport_inv_def split: end_behavior.splits)

lemma moved_inv:
  assumes "transport_inv t" "unat c = unat (mark_in (tp_marks t)) + looped v (range_length (tp_marks t)) off"
  shows "transport_inv (t\<lparr>tp_cursor := c\<rparr>)"
    "play_offset (t\<lparr>tp_cursor := c\<rparr>) = looped v (range_length (tp_marks t)) off"
proof -
  have "looped v (range_length (tp_marks t)) off < range_length (tp_marks t)" by (simp add: range_length_def looped_less)
  then show "transport_inv (t\<lparr>tp_cursor := c\<rparr>)"
    using assms transport_invD(1,2) [OF assms(1)] by (auto simp: transport_inv_def range_length_def word_less_unat)
  show "play_offset (t\<lparr>tp_cursor := c\<rparr>) = looped v (range_length (tp_marks t)) off"
    using assms(2) by (simp add: play_offset_def)
qed

lemma at_end_same [simp]: "tp_clip (at_end t) = tp_clip t" "tp_marks (at_end t) = tp_marks t"
  by (simp_all add: at_end_def split: end_behavior.splits)

lemma advance_inv:
  assumes "transport_inv t"
  shows "\<exists>ended t'. transport_advance t = Some (ended, t') \<and> transport_inv t' \<and> tp_clip t' = tp_clip t"
  by (rule advance_cases [OF assms]) (use moved_inv(1) [OF assms] at_end_inv [OF assms] in auto)

lemma pull_inv:
  assumes "transport_inv t"
  shows "\<exists>r codec' t'. transport_pull read codec t = Some (r, codec', t') \<and> transport_inv t' \<and> tp_clip t' = tp_clip t
    \<and> (isl r \<longrightarrow> t' = t)"
  using assms advance_inv [OF assms]
  by (cases "read_clip read (tp_cursor t) (tp_clip t) codec") (auto simp: transport_pull_def Let_def split: sum.splits)

section \<open>Every sequence of calls\<close>

datatype 'c transport_call =
    DoPlay | DoPause | DoStop | DoSetSpeed speed | DoSetLooping bool | DoSetEndBehavior end_behavior
  | DoSetMarks marks | DoClearMarks | DoSeek frame_index | DoPull "'c option"

fun transport_do :: "('f, 'c) frame_codec \<Rightarrow> 'c transport_call \<Rightarrow> 'f transport \<Rightarrow> 'f transport option" where
  "transport_do read DoPlay t = Some (transport_play t)"
| "transport_do read DoPause t = Some (transport_pause t)"
| "transport_do read DoStop t = Some (transport_stop t)"
| "transport_do read (DoSetSpeed v) t = Some (set_speed v t)"
| "transport_do read (DoSetLooping b) t = Some (set_looping b t)"
| "transport_do read (DoSetEndBehavior b) t = Some (set_end_behavior b t)"
| "transport_do read (DoSetMarks m) t = Some (snd (set_marks m t))"
| "transport_do read DoClearMarks t = clear_marks t"
| "transport_do read (DoSeek f) t = Some (snd (seek f t))"
| "transport_do read (DoPull codec) t = map_option (\<lambda>(_, _, t'). t') (transport_pull read codec t)"

fun transport_run :: "('f, 'c) frame_codec \<Rightarrow> 'c transport_call list \<Rightarrow> 'f transport \<Rightarrow> 'f transport option" where
  "transport_run read [] t = Some t"
| "transport_run read (c # cs) t = Option.bind (transport_do read c t) (transport_run read cs)"

lemma transport_do_inv:
  assumes "transport_inv t"
  shows "\<exists>t'. transport_do read c t = Some t' \<and> transport_inv t' \<and> tp_clip t' = tp_clip t"
proof (cases c)
  case (DoPull codec)
  then show ?thesis using pull_inv [OF assms, of read codec] by auto
next
  case DoClearMarks
  then show ?thesis using marks_ops_inv(3) [OF assms] by (auto simp: clear_marks_def)
qed (use control_ops_inv [OF assms] marks_ops_inv [OF assms] in \<open>auto simp: transport_play_def transport_pause_def transport_stop_def
      set_speed_def set_looping_def set_end_behavior_def set_marks_def seek_def Let_def\<close>)

lemma transport_run_inv:
  "transport_inv t \<Longrightarrow> \<exists>t'. transport_run read cs t = Some t' \<and> transport_inv t' \<and> tp_clip t' = tp_clip t"
proof (induction cs arbitrary: t)
  case (Cons c cs)
  then show ?case using transport_do_inv [OF Cons.prems, of read c] by fastforce
qed simp

text \<open>Clips as their constructors make them.\<close>

inductive clip_made :: "'f playback_clip \<Rightarrow> bool" where
  made_fixture: "fixture_from_slots i slots = Inr c \<Longrightarrow> clip_made (Fixture c)"
| made_encoded: "encoded_new i locator n = Inr c \<Longrightarrow> clip_made (Encoded c)"

lemma clip_made_count: "clip_made clip \<Longrightarrow> 0 < clip_frame_count clip"
proof (induction rule: clip_made.induct)
  case (made_fixture i slots c)
  then have "fx_frames c \<noteq> []" by (auto simp: fixture_from_slots_def split: if_splits)
  then show ?case
    by (auto simp: fixture_frame_count_def word_less_unat checked_simps unsigned_minus_1_eq_mask mask_eq_exp_minus_1
        split: option.splits)
qed (auto simp: encoded_new_def word_neq_0_conv split: if_splits)

definition transport_reachable :: "('f, 'c) frame_codec \<Rightarrow> 'f transport \<Rightarrow> bool" where
  "transport_reachable read t \<longleftrightarrow> (\<exists>clip t0 cs. clip_made clip \<and> transport_new clip = Some t0 \<and> transport_run read cs t0 = Some t)"

lemma reachable_transport_inv: "transport_reachable read t \<Longrightarrow> transport_inv t"
  unfolding transport_reachable_def
  by (metis clip_made_count option.inject transport_new_inv transport_run_inv)

text \<open>C28: the transport never leaves its marks. For every clip that a constructor made, the transport exists,
  and no sequence of calls (playing, pausing, changing speed, direction, marks or position, reading with
  or without a decoder that may fail) panics; the cursor is within the marks, which are within the clip.
\<close>
theorem transport_stays_within_marks:
  assumes "clip_made clip"
  shows "\<exists>t0 t. transport_new clip = Some t0 \<and> transport_run read cs t0 = Some t \<and> tp_clip t = clip
    \<and> mark_in (tp_marks t) \<le> tp_cursor t \<and> tp_cursor t \<le> mark_out (tp_marks t)
    \<and> mark_out (tp_marks t) < clip_frame_count clip"
proof -
  obtain t0 where t0: "transport_new clip = Some t0" "transport_inv t0" "tp_clip t0 = clip"
    using transport_new_inv [OF clip_made_count [OF assms]] by blast
  obtain t where "transport_run read cs t0 = Some t" "transport_inv t" "tp_clip t = clip"
    using transport_run_inv [OF t0(2), of read cs] t0(3) by auto
  with t0(1) show ?thesis by (auto simp: transport_inv_def)
qed

section \<open>Playing\<close>

text \<open>Frames pulled one after the other, until one fails.\<close>

fun pull_frames ::
  "('f, 'c) frame_codec \<Rightarrow> nat \<Rightarrow> 'c option \<Rightarrow> 'f transport
   \<Rightarrow> ((playback_error + 'f playback_frame list) \<times> 'c option \<times> 'f transport) option" where
  "pull_frames read 0 codec t = Some (Inr [], codec, t)"
| "pull_frames read (Suc n) codec t =
     (case transport_pull read codec t of
        None \<Rightarrow> None
      | Some (Inl e, codec', t') \<Rightarrow> Some (Inl e, codec', t')
      | Some (Inr f, codec', t') \<Rightarrow>
          map_option (\<lambda>(r, s). (and_then r (\<lambda>fs. Inr (f # fs)), s)) (pull_frames read n codec' t'))"

text \<open>A clip whose frames can all be read: no hole in a fixture, or a decoder that always answers.\<close>

definition readable :: "('f, 'c) frame_codec \<Rightarrow> 'c option \<Rightarrow> 'f playback_clip \<Rightarrow> bool" where
  "readable read codec clip = (case clip of
      Fixture c \<Rightarrow> None \<notin> set (fx_frames c)
    | Encoded c \<Rightarrow> codec \<noteq> None \<and> (\<forall>i st. \<not> isl (fst (read c i st))))"

lemma fixture_frame_count_le: "unat (fixture_frame_count c) \<le> length (fx_frames c)"
  by (auto simp: fixture_frame_count_def checked_simps unsigned_minus_1_eq_mask mask_eq_exp_minus_1 split: option.splits)

lemma readable_read:
  assumes "readable read codec clip" "unat i < unat (clip_frame_count clip)"
  obtains frame codec' where "read_clip read i clip codec = (Inr frame, codec')" "readable read codec' clip"
proof (cases clip)
  case (Fixture c)
  then have "unat i < length (fx_frames c)" using assms(2) fixture_frame_count_le [of c] by simp
  moreover from this obtain frame where "fx_frames c ! unat i = Some frame"
    using assms(1) Fixture by (auto simp: readable_def in_set_conv_nth)
  ultimately show thesis using assms(1) Fixture by (intro that) (simp_all add: read_clip_def fixture_frame_def)
next
  case (Encoded c)
  with assms(1) obtain st where st: "codec = Some st" "\<not> isl (fst (read c i st))" by (auto simp: readable_def)
  then obtain frame st' where "read c i st = (Inr frame, st')" by (cases "read c i st"; cases "fst (read c i st)") auto
  with st Encoded assms(1) show thesis by (intro that [of frame "Some st'"]) (simp_all add: read_clip_def readable_def)
qed

lemma playing_pull:
  assumes inv: "transport_inv t" and playing: "tp_state t = TransportPlaying" and rd: "readable read codec (tp_clip t)"
  obtains f codec' ended t' where "transport_pull read codec t = Some (Inr f, codec', t')" "pf_index f = tp_cursor t"
    "pf_ended f = ended" "transport_advance t = Some (ended, t')" "readable read codec' (tp_clip t)"
    "transport_inv t'" "tp_clip t' = tp_clip t"
proof -
  obtain frame codec' where r: "read_clip read (tp_cursor t) (tp_clip t) codec = (Inr frame, codec')" "readable read codec' (tp_clip t)"
    using readable_read [OF rd] transport_invD(2,3) [OF inv] by (metis le_less_trans)
  obtain ended t' where "transport_advance t = Some (ended, t')" "transport_inv t'" "tp_clip t' = tp_clip t"
    using advance_inv [OF inv] by blast
  moreover from this(1) r(1) playing have "transport_pull read codec t = Some (Inr \<lparr>pf_clip_id = clip_id_of (tp_clip t),
      pf_index = tp_cursor t, pf_frame = frame, pf_ended = ended\<rparr>, codec', t')"
    by (simp add: transport_pull_def)
  ultimately show thesis using r(2) by (elim that) simp_all
qed

lemma looped_again: "0 < len \<Longrightarrow> looped a len (looped b len off) = looped (a + b) len off"
  by (simp add: looped_def mod_add_right_eq ac_simps)

lemma looping_pulls:
  assumes "transport_inv t" "tp_state t = TransportPlaying" "tp_looping t" "readable read codec (tp_clip t)"
  shows "\<exists>fs codec' t'. pull_frames read n codec t = Some (Inr fs, codec', t') \<and> length fs = n
    \<and> (\<forall>k<n. unat (pf_index (fs ! k)) = unat (mark_in (tp_marks t))
         + looped (int k * velocity (tp_motion t)) (range_length (tp_marks t)) (play_offset t))"
  using assms
proof (induction n arbitrary: codec t)
  case (Suc n)
  let ?v = "velocity (tp_motion t)" and ?len = "range_length (tp_marks t)"
  obtain f codec' ended t' where f: "transport_pull read codec t = Some (Inr f, codec', t')" "pf_index f = tp_cursor t"
    "transport_advance t = Some (ended, t')" "readable read codec' (tp_clip t)" "transport_inv t'" "tp_clip t' = tp_clip t"
    by (rule playing_pull [OF Suc.prems(1,2,4)])
  obtain c where t': "t' = t\<lparr>tp_cursor := c\<rparr>" and c: "unat c = unat (mark_in (tp_marks t)) + looped ?v ?len (play_offset t)"
    by (rule advance_cases [OF Suc.prems(1)]) (use f(3) Suc.prems(3) in auto)
  have off: "play_offset t' = looped ?v ?len (play_offset t)" using moved_inv(2) [OF Suc.prems(1) c] t' by simp
  obtain fs codec'' t'' where fs: "pull_frames read n codec' t' = Some (Inr fs, codec'', t'')" "length fs = n"
    "\<forall>k<n. unat (pf_index (fs ! k)) = unat (mark_in (tp_marks t)) + looped (int k * ?v) ?len (play_offset t')"
    using Suc.IH [OF f(5), of codec'] Suc.prems f(4) t' by auto
  have len: "0 < ?len" by (simp add: range_length_def)
  have "unat (pf_index ((f # fs) ! k)) = unat (mark_in (tp_marks t)) + looped (int k * ?v) ?len (play_offset t)" if "k < Suc n" for k
  proof (cases k)
    case 0
    then show ?thesis using f(2) transport_invD(4,5) [OF Suc.prems(1)] by (simp add: looped_inside)
  next
    case (Suc j)
    then show ?thesis using fs(3) that off len by (simp add: looped_again algebra_simps)
  qed
  with f(1) fs show ?case by (intro exI [of _ "f # fs"]) simp
qed simp

text \<open>C29: playing in a loop. The optimised position arithmetic of the transport, with its case distinctions at the
  boundary, plays exactly the frames of the reference definition: the \<open>k\<close>-th frame is the start plus \<open>k\<close>
  times the speed, modulo the length of the marked range, forward and reverse, for ever.
\<close>
theorem looping_playback_is_modular:
  assumes "transport_reachable read t" "tp_state t = TransportPlaying" "tp_looping t" "readable read codec (tp_clip t)"
  shows "\<exists>fs codec' t'. pull_frames read n codec t = Some (Inr fs, codec', t') \<and> length fs = n
    \<and> (\<forall>k<n. unat (pf_index (fs ! k)) = unat (mark_in (tp_marks t))
         + nat ((int (play_offset t) + int k * velocity (tp_motion t)) mod int (range_length (tp_marks t))))"
  using looping_pulls [OF reachable_transport_inv [OF assms(1)] assms(2-4), of n] by (simp add: looped_def)

text \<open>How many frames are left in the direction of play, and how many steps fit into them.\<close>

definition room :: "'f transport \<Rightarrow> nat" where
  "room t = (if velocity (tp_motion t) < 0 then play_offset t else range_length (tp_marks t) - 1 - play_offset t)"

definition steps_left :: "'f transport \<Rightarrow> nat" where
  "steps_left t = room t div nat \<bar>velocity (tp_motion t)\<bar>"

lemma inside_iff_room:
  assumes "transport_inv t"
  shows "inside t \<longleftrightarrow> nat \<bar>velocity (tp_motion t)\<bar> \<le> room t" "0 < nat \<bar>velocity (tp_motion t)\<bar>"
proof -
  show pos: "0 < nat \<bar>velocity (tp_motion t)\<bar>" using assms by (cases "tp_motion t") (simp_all add: transport_inv_def)
  show "inside t \<longleftrightarrow> nat \<bar>velocity (tp_motion t)\<bar> \<le> room t"
    using pos transport_invD(4) [OF assms] by (auto simp: inside_def room_def)
qed

lemma inside_iff_steps: "transport_inv t \<Longrightarrow> inside t \<longleftrightarrow> 0 < steps_left t"
  using inside_iff_room [of t] by (auto simp: steps_left_def div_greater_zero_iff)

lemma inside_step:
  assumes inv: "transport_inv t" and ins: "inside t"
    and c: "unat c = unat (mark_in (tp_marks t)) + looped (velocity (tp_motion t)) (range_length (tp_marks t)) (play_offset t)"
  shows "int (unat c) = int (unat (tp_cursor t)) + velocity (tp_motion t)" "Suc (steps_left (t\<lparr>tp_cursor := c\<rparr>)) = steps_left t"
proof -
  let ?v = "velocity (tp_motion t)"
  have nxt: "looped ?v (range_length (tp_marks t)) (play_offset t) = nat (int (play_offset t) + ?v)"
    using ins by (simp add: looped_inside inside_def)
  then show "int (unat c) = int (unat (tp_cursor t)) + ?v"
    using c ins transport_invD(5) [OF inv] by (simp add: inside_def del: of_nat_unat)
  have "play_offset (t\<lparr>tp_cursor := c\<rparr>) = nat (int (play_offset t) + ?v)" using moved_inv(2) [OF inv c] nxt by simp
  then have "room (t\<lparr>tp_cursor := c\<rparr>) = room t - nat \<bar>?v\<bar>"
    using ins transport_invD(4) [OF inv] by (auto simp: room_def inside_def)
  then show "Suc (steps_left (t\<lparr>tp_cursor := c\<rparr>)) = steps_left t"
    using inside_iff_room [OF inv] ins by (simp add: steps_left_def le_div_geq)
qed

lemma at_end_moved [simp]: "at_end (t\<lparr>tp_cursor := c\<rparr>) = at_end t"
  by (simp add: at_end_def split: end_behavior.splits)

lemma playing_to_the_end:
  assumes "transport_inv t" "tp_state t = TransportPlaying" "\<not> tp_looping t" "readable read codec (tp_clip t)"
  shows "\<exists>fs codec'. pull_frames read (Suc (steps_left t)) codec t = Some (Inr fs, codec', at_end t)
    \<and> map pf_ended fs = replicate (steps_left t) False @ [True]
    \<and> (\<forall>k \<le> steps_left t. int (unat (pf_index (fs ! k))) = int (unat (tp_cursor t)) + int k * velocity (tp_motion t))"
  using assms
proof (induction "steps_left t" arbitrary: codec t)
  case 0
  then have out: "\<not> inside t" using inside_iff_steps [of t] by simp
  obtain f codec' ended t' where f: "transport_pull read codec t = Some (Inr f, codec', t')" "pf_index f = tp_cursor t"
    "pf_ended f = ended" "transport_advance t = Some (ended, t')"
    by (rule playing_pull [OF 0(2,3,5)])
  have "ended" "t' = at_end t" by (rule advance_cases [OF 0(2)]; use f(4) out 0(4) in auto)+
  with f show ?case by (simp flip: 0(1))
next
  case (Suc m)
  then have ins: "inside t" using inside_iff_steps [of t] by simp
  let ?v = "velocity (tp_motion t)"
  obtain f codec' ended t' where f: "transport_pull read codec t = Some (Inr f, codec', t')" "pf_index f = tp_cursor t"
    "pf_ended f = ended" "transport_advance t = Some (ended, t')" "readable read codec' (tp_clip t)" "transport_inv t'"
    by (rule playing_pull [OF Suc(3,4,6)])
  obtain c where t': "\<not> ended" "t' = t\<lparr>tp_cursor := c\<rparr>"
    and c: "unat c = unat (mark_in (tp_marks t)) + looped ?v (range_length (tp_marks t)) (play_offset t)"
    by (rule advance_cases [OF Suc(3)]) (use f(4) ins in auto)
  note step = inside_step [OF Suc(3) ins c, folded t'(2)]
  then have m: "m = steps_left t'" using Suc(2) by simp
  obtain fs codec'' where fs: "pull_frames read (Suc m) codec' t' = Some (Inr fs, codec'', at_end t)"
    "map pf_ended fs = replicate m False @ [True]" "\<forall>k \<le> m. int (unat (pf_index (fs ! k))) = int (unat c) + int k * ?v"
    using Suc(1) [OF m f(6), of codec'] Suc(4,5) f(5) t'(2) m by auto
  have "int (unat (pf_index ((f # fs) ! k))) = int (unat (tp_cursor t)) + int k * ?v" if "k \<le> Suc m" for k
    using that fs(3) f(2) step(1) by (cases k) (simp_all add: algebra_simps del: of_nat_unat)
  moreover have "pull_frames read (Suc (Suc m)) codec t = Some (Inr (f # fs), codec'', at_end t)"
    by (subst pull_frames.simps(2)) (simp add: f(1) fs(1) del: pull_frames.simps)
  ultimately show ?case using fs(2) f(3) t'(1) unfolding Suc(2) [symmetric] by (intro exI [of _ "f # fs"]) simp
qed

text \<open>playing to the end. A transport that plays without looping shows every frame of its speed from the cursor to
  the last one within the marks, exactly the last of them is reported as the end, and the transport then
  holds the last frame of its direction or has stopped at mark-in, as configured.
\<close>
theorem playback_reaches_the_end:
  assumes "transport_reachable read t" "tp_state t = TransportPlaying" "\<not> tp_looping t" "readable read codec (tp_clip t)"
  shows "\<exists>fs codec' t'. pull_frames read (Suc (steps_left t)) codec t = Some (Inr fs, codec', t')
    \<and> map pf_ended fs = replicate (steps_left t) False @ [True]
    \<and> (\<forall>k \<le> steps_left t. int (unat (pf_index (fs ! k))) = int (unat (tp_cursor t)) + int k * velocity (tp_motion t))
    \<and> tp_state t' = (if tp_end_behavior t = EndStop then TransportStopped else TransportPaused)
    \<and> tp_cursor t' = (if tp_end_behavior t = EndStop \<or> velocity (tp_motion t) < 0 then mark_in (tp_marks t) else mark_out (tp_marks t))"
proof -
  have "tp_state (at_end t) = (if tp_end_behavior t = EndStop then TransportStopped else TransportPaused)"
    "tp_cursor (at_end t) = (if tp_end_behavior t = EndStop \<or> velocity (tp_motion t) < 0 then mark_in (tp_marks t) else mark_out (tp_marks t))"
    by (cases "tp_end_behavior t"; simp add: at_end_def)+
  with playing_to_the_end [OF reachable_transport_inv [OF assms(1)] assms(2-4)] show ?thesis by blast
qed

section \<open>A small clip\<close>

definition demo_read :: "(nat, unit) frame_codec" where
  "demo_read c i st = (Inr (unat i), st)"

definition demo_clip :: "nat playback_clip" where
  "demo_clip = Fixture \<lparr>fx_id = 1, fx_frames = [Some 10, Some 11, Some 12, Some 13, Some 14]\<rparr>"

definition demo_transport :: "nat transport" where
  "demo_transport = \<lparr>tp_clip = demo_clip, tp_state = TransportPlaying, tp_cursor = 1,
     tp_marks = \<lparr>mark_in = 1, mark_out = 3\<rparr>, tp_motion = Forward2x, tp_looping = True, tp_end_behavior = EndHold\<rparr>"

definition demo_transport_calls :: "unit transport_call list" where
  "demo_transport_calls = [DoSetMarks \<lparr>mark_in = 1, mark_out = 3\<rparr>, DoSetSpeed Forward2x, DoSetLooping True]"

lemma demo_clip_made: "clip_made demo_clip"
  unfolding demo_clip_def by (rule made_fixture [of 1 "[Some 10, Some 11, Some 12, Some 13, Some 14]"]) (simp add: fixture_from_slots_def)

lemma demo_count: "clip_frame_count demo_clip = 5"
  by (simp add: demo_clip_def fixture_frame_count_def word_try_from_def)

lemma demo_transport_run:
  "\<exists>t0. transport_new demo_clip = Some t0 \<and> transport_run demo_read demo_transport_calls t0 = Some demo_transport"
  by (simp add: transport_new_def full_marks_def demo_count checked_sub_def demo_transport_calls_def demo_transport_def set_marks_def
      set_speed_def set_looping_def transport_play_def Let_def)

lemma demo_transport_facts:
  "transport_reachable demo_read demo_transport" "transport_reachable demo_read (demo_transport\<lparr>tp_looping := False\<rparr>)"
  "readable demo_read None (tp_clip demo_transport)" "tp_state demo_transport = TransportPlaying" "tp_looping demo_transport"
proof -
  show "transport_reachable demo_read demo_transport"
    using demo_clip_made demo_transport_run by (auto simp: transport_reachable_def)
  have "\<exists>t0. transport_new demo_clip = Some t0
      \<and> transport_run demo_read [DoSetMarks \<lparr>mark_in = 1, mark_out = 3\<rparr>, DoSetSpeed Forward2x] t0 = Some (demo_transport\<lparr>tp_looping := False\<rparr>)"
    by (simp add: transport_new_def full_marks_def demo_count checked_sub_def demo_transport_def set_marks_def
        set_speed_def transport_play_def Let_def)
  then show "transport_reachable demo_read (demo_transport\<lparr>tp_looping := False\<rparr>)"
    using demo_clip_made unfolding transport_reachable_def by blast
  show "readable demo_read None (tp_clip demo_transport)" "tp_state demo_transport = TransportPlaying" "tp_looping demo_transport"
    by (simp_all add: readable_def demo_transport_def demo_clip_def)
qed

theorem transport_stays_within_marks_witness:
  "\<exists>t0 t. transport_new demo_clip = Some t0 \<and> transport_run demo_read demo_transport_calls t0 = Some t
    \<and> mark_in (tp_marks t) \<le> tp_cursor t \<and> tp_cursor t \<le> mark_out (tp_marks t) \<and> mark_out (tp_marks t) < 5"
  using transport_stays_within_marks [OF demo_clip_made, of demo_read demo_transport_calls] by (auto simp: demo_count)

theorem looping_playback_is_modular_witness:
  "\<exists>fs codec' t'. pull_frames demo_read 4 None demo_transport = Some (Inr fs, codec', t')
     \<and> (\<forall>k<4. unat (pf_index (fs ! k)) = 1 + (2 * k) mod 3)"
proof -
  have "nat ((int 0 + int k * 2) mod int 3) = (2 * k) mod 3" for k
    by (simp add: nat_mod_as_int ac_simps)
  with looping_playback_is_modular [OF demo_transport_facts(1,4,5,3), of 4] show ?thesis
    by (auto simp: demo_transport_def range_length_def play_offset_def)
qed

theorem playback_reaches_the_end_witness:
  "\<exists>fs codec' t'. pull_frames demo_read 2 None (demo_transport\<lparr>tp_looping := False\<rparr>) = Some (Inr fs, codec', t')
     \<and> map pf_ended fs = [False, True] \<and> tp_state t' = TransportPaused \<and> tp_cursor t' = 3"
proof -
  let ?t = "demo_transport\<lparr>tp_looping := False\<rparr>"
  have "steps_left ?t = 1" by (simp add: steps_left_def room_def range_length_def play_offset_def demo_transport_def)
  moreover have "tp_state ?t = TransportPlaying" "\<not> tp_looping ?t" "readable demo_read None (tp_clip ?t)"
    "tp_end_behavior ?t = EndHold" "velocity (tp_motion ?t) = 2" "mark_out (tp_marks ?t) = 3"
    using demo_transport_facts by (simp_all add: demo_transport_def)
  ultimately show ?thesis using playback_reaches_the_end [OF demo_transport_facts(2), of None] by (auto simp: numeral_2_eq_2)
qed

end
