(* ===== verification/Playlist.thy ===== *)
theory Playlist
  imports Transport
begin

text \<open>
  The crate \<open>crates/media/fm-playback\<close>, its second half: the playlist and the player with its programmed GOs
  (\<open>playlist.rs\<close>). A \<open>BTreeSet\<close> is the \<open>BTreeMap\<close> of its elements to unit, as in the standard library.
\<close>

section \<open>The playlist\<close>

datatype end_action = ActionStop | ActionLoop | ActionNext playlist_entry_id

record playlist_entry =
  pe_id :: playlist_entry_id
  pe_clip_id :: clip_id
  pe_marks :: "marks option"
  pe_speed :: speed
  pe_end_action :: end_action

definition playlist_entry_new :: "playlist_entry_id \<Rightarrow> clip_id \<Rightarrow> playlist_entry" where
  "playlist_entry_new i clip =
     \<lparr>pe_id = i, pe_clip_id = clip, pe_marks = None, pe_speed = Forward1x, pe_end_action = ActionStop\<rparr>"

definition entry_with_marks :: "marks \<Rightarrow> playlist_entry \<Rightarrow> playlist_entry" where
  "entry_with_marks marks e = e\<lparr>pe_marks := Some marks\<rparr>"

definition entry_with_speed :: "speed \<Rightarrow> playlist_entry \<Rightarrow> playlist_entry" where
  "entry_with_speed speed e = e\<lparr>pe_speed := speed\<rparr>"

definition entry_with_end_action :: "end_action \<Rightarrow> playlist_entry \<Rightarrow> playlist_entry" where
  "entry_with_end_action act e = e\<lparr>pe_end_action := act\<rparr>"

datatype playlist_error =
    EmptyPlaylist
  | DuplicateEntry playlist_entry_id
  | MissingEntry playlist_entry_id
  | DanglingNext playlist_entry_id playlist_entry_id
  | PlaylistLibrary library_error
  | InvalidEntryMarks playlist_entry_id playback_error

record playlist =
  pl_entries :: "(playlist_entry_id, playlist_entry) btree"
  pl_first :: playlist_entry_id

fun collect_entries ::
  "playlist_entry list \<Rightarrow> (playlist_entry_id, playlist_entry) btree
   \<Rightarrow> playlist_error + (playlist_entry_id, playlist_entry) btree" where
  "collect_entries [] by_id = Inr by_id"
| "collect_entries (e # es) by_id =
     (if map_of by_id (pe_id e) \<noteq> None then Inl (DuplicateEntry (pe_id e))
      else collect_entries es (bt_insert (pe_id e) e by_id))"

fun check_next :: "(playlist_entry_id, playlist_entry) btree \<Rightarrow> playlist_entry list \<Rightarrow> playlist_error + unit" where
  "check_next by_id [] = Inr ()"
| "check_next by_id (e # es) =
     (case pe_end_action e of
        ActionNext nxt \<Rightarrow> if map_of by_id nxt = None then Inl (DanglingNext (pe_id e) nxt) else check_next by_id es
      | _ \<Rightarrow> check_next by_id es)"

definition playlist_new :: "playlist_entry list \<Rightarrow> playlist_error + playlist" where
  "playlist_new entries =
     (case entries of
        [] \<Rightarrow> Inl EmptyPlaylist
      | e # _ \<Rightarrow> and_then (collect_entries entries []) (\<lambda>by_id.
          and_then (check_next by_id (map snd by_id)) (\<lambda>_. Inr \<lparr>pl_entries = by_id, pl_first = pe_id e\<rparr>)))"

definition playlist_entry_of :: "playlist \<Rightarrow> playlist_entry_id \<Rightarrow> playlist_entry option" where
  "playlist_entry_of p i = map_of (pl_entries p) i"

section \<open>The player\<close>

record programmed_go =
  go_ident :: go_id
  go_coordinate :: schedule_coordinate
  go_entry :: playlist_entry_id

datatype go_status = GoPending | GoCancelled | GoExecuted
datatype go_schedule_outcome = GoScheduled | GoUnchanged go_status
datatype cancel_go_outcome = NowCancelled | AlreadyCancelled | AlreadyExecuted

datatype go_error =
    UnknownGo go_id
  | ConflictingGo go_id
  | CoordinateElapsed schedule_coordinate
  | CoordinateReversed schedule_coordinate schedule_coordinate
  | GoPlaylist playlist_error

record go_record =
  gr_command :: programmed_go
  gr_status :: go_status

record 'f player =
  py_library :: "'f clip_library"
  py_playlist :: playlist
  py_current_entry :: "playlist_entry_id option"
  py_transport :: "'f transport option"
  py_go_records :: "(go_id, go_record) btree"
  py_pending_go :: "(schedule_coordinate \<times> go_id, unit) btree"
  py_applied_coordinate :: "schedule_coordinate option"

datatype player_error = NoActiveEntry | PlayerPlayback playback_error | PlayerPlaylist playlist_error

fun check_entries :: "'f clip_library \<Rightarrow> playlist_entry list \<Rightarrow> (playlist_error + unit) option" where
  "check_entries library [] = Some (Inr ())"
| "check_entries library (e # es) =
     (case map_of library (pe_clip_id e) of
        None \<Rightarrow> Some (Inl (PlaylistLibrary (MissingClip (pe_clip_id e))))
      | Some clip \<Rightarrow>
          (case pe_marks e of
             None \<Rightarrow> check_entries library es
           | Some marks \<Rightarrow> Option.bind (transport_new clip) (\<lambda>t.
               case set_marks marks t of
                 (Inl src, _) \<Rightarrow> Some (Inl (InvalidEntryMarks (pe_id e) src))
               | (Inr _, _) \<Rightarrow> check_entries library es)))"

definition player_new :: "'f clip_library \<Rightarrow> playlist \<Rightarrow> (playlist_error + 'f player) option" where
  "player_new library playlist =
     map_option (\<lambda>r. and_then r (\<lambda>_. Inr
         \<lparr>py_library = library, py_playlist = playlist, py_current_entry = None, py_transport = None,
          py_go_records = [], py_pending_go = [], py_applied_coordinate = None\<rparr>))
       (check_entries library (map snd (pl_entries playlist)))"

text \<open>The transport that \<open>activate\<close> prepares for an entry and its clip.\<close>

definition cue_marks :: "playlist_entry \<Rightarrow> 'f transport \<Rightarrow> playback_error + 'f transport" where
  "cue_marks e t =
     (case pe_marks e of
        None \<Rightarrow> Inr t
      | Some marks \<Rightarrow> (case set_marks marks t of (Inl src, _) \<Rightarrow> Inl src | (Inr _, t') \<Rightarrow> Inr t'))"

definition cue_start :: "playlist_entry \<Rightarrow> 'f transport \<Rightarrow> playback_error + 'f transport" where
  "cue_start e t =
     (if speed_direction_of (pe_speed e) = Some Reverse
      then (case seek (mark_out (tp_marks t)) t of (Inl src, _) \<Rightarrow> Inl src | (Inr _, t') \<Rightarrow> Inr t')
      else Inr t)"

definition activate :: "playlist_entry_id \<Rightarrow> 'f player \<Rightarrow> ((playlist_error + unit) \<times> 'f player) option" where
  "activate entry_id p =
     (case playlist_entry_of (py_playlist p) entry_id of
        None \<Rightarrow> Some (Inl (MissingEntry entry_id), p)
      | Some e \<Rightarrow>
          (case map_of (py_library p) (pe_clip_id e) of
             None \<Rightarrow> Some (Inl (PlaylistLibrary (MissingClip (pe_clip_id e))), p)
           | Some clip \<Rightarrow> map_option (\<lambda>t.
               case and_then (cue_marks e t) (cue_start e) of
                 Inl src \<Rightarrow> (Inl (InvalidEntryMarks entry_id src), p)
               | Inr t' \<Rightarrow>
                   let t'' = (if pe_end_action e = ActionStop then set_end_behavior EndStop t' else t') in
                   (Inr (), p\<lparr>py_current_entry := Some entry_id, py_transport := Some (set_speed (pe_speed e) t'')\<rparr>))
             (transport_new clip)))"

definition player_go :: "playlist_entry_id \<Rightarrow> 'f player \<Rightarrow> ((playlist_error + unit) \<times> 'f player) option" where
  "player_go entry p = activate entry p"

definition schedule_go :: "programmed_go \<Rightarrow> (go_error, go_schedule_outcome, 'f player) meth" where
  "schedule_go c p =
     (if playlist_entry_of (py_playlist p) (go_entry c) = None then (Inl (GoPlaylist (MissingEntry (go_entry c))), p)
      else case map_of (py_go_records p) (go_ident c) of
          Some r \<Rightarrow>
            (if gr_command r = c then Inr (GoUnchanged (gr_status r)) else Inl (ConflictingGo (go_ident c)), p)
        | None \<Rightarrow>
            if (case py_applied_coordinate p of None \<Rightarrow> False | Some k \<Rightarrow> go_coordinate c \<le> k)
            then (Inl (CoordinateElapsed (go_coordinate c)), p)
            else (Inr GoScheduled,
                  p\<lparr>py_pending_go := bt_insert (go_coordinate c, go_ident c) () (py_pending_go p),
                    py_go_records := bt_insert (go_ident c) \<lparr>gr_command = c, gr_status = GoPending\<rparr> (py_go_records p)\<rparr>))"

definition cancel_go :: "go_id \<Rightarrow> (go_error, cancel_go_outcome, 'f player) meth" where
  "cancel_go i p =
     (case map_of (py_go_records p) i of
        None \<Rightarrow> (Inl (UnknownGo i), p)
      | Some r \<Rightarrow>
          (case gr_status r of
             GoPending \<Rightarrow>
               (Inr NowCancelled,
                p\<lparr>py_pending_go := bt_remove (go_coordinate (gr_command r), i) (py_pending_go p),
                  py_go_records := bt_set i (r\<lparr>gr_status := GoCancelled\<rparr>) (py_go_records p)\<rparr>)
           | GoCancelled \<Rightarrow> (Inr AlreadyCancelled, p)
           | GoExecuted \<Rightarrow> (Inr AlreadyExecuted, p)))"

definition player_go_status :: "'f player \<Rightarrow> go_id \<Rightarrow> go_status option" where
  "player_go_status p i = map_option gr_status (map_of (py_go_records p) i)"

fun run_due ::
  "(schedule_coordinate \<times> go_id) list \<Rightarrow> go_id list \<Rightarrow> 'f player \<Rightarrow> ((go_error + go_id list) \<times> 'f player) option" where
  "run_due [] executed p = Some (Inr executed, p)"
| "run_due ((target, i) # due) executed p =
     (case map_of (py_go_records p) i of
        None \<Rightarrow> None
      | Some r \<Rightarrow>
          (case activate (go_entry (gr_command r)) p of
             None \<Rightarrow> None
           | Some (Inl e, p') \<Rightarrow> Some (Inl (GoPlaylist e), p')
           | Some (Inr _, p') \<Rightarrow>
               run_due due (executed @ [i])
                 (p'\<lparr>py_pending_go := bt_remove (target, i) (py_pending_go p'),
                     py_go_records := (case map_of (py_go_records p') i of
                         None \<Rightarrow> py_go_records p'
                       | Some r' \<Rightarrow> bt_set i (r'\<lparr>gr_status := GoExecuted\<rparr>) (py_go_records p'))\<rparr>)))"

definition apply_due :: "schedule_coordinate \<Rightarrow> 'f player \<Rightarrow> ((go_error + go_id list) \<times> 'f player) option" where
  "apply_due coordinate p =
     (case run_due (map fst (bt_range_to (coordinate, - 1) (py_pending_go p))) [] p of
        None \<Rightarrow> None
      | Some (Inl e, p') \<Rightarrow> Some (Inl e, p')
      | Some (Inr executed, p') \<Rightarrow> Some (Inr executed, p'\<lparr>py_applied_coordinate := Some coordinate\<rparr>))"

definition apply_scheduled :: "schedule_coordinate \<Rightarrow> 'f player \<Rightarrow> ((go_error + go_id list) \<times> 'f player) option" where
  "apply_scheduled coordinate p =
     (case py_applied_coordinate p of
        Some previous \<Rightarrow> if coordinate < previous then Some (Inl (CoordinateReversed previous coordinate), p)
                          else apply_due coordinate p
      | None \<Rightarrow> apply_due coordinate p)"

fun end_with ::
  "'f playback_frame \<Rightarrow> 'c option \<Rightarrow> ((playlist_error + unit) \<times> 'f player) option
   \<Rightarrow> ((player_error + 'f playback_frame) \<times> 'c option \<times> 'f player) option" where
  "end_with output codec None = None"
| "end_with output codec (Some (Inl e, p)) = Some (Inl (PlayerPlaylist e), codec, p)"
| "end_with output codec (Some (Inr _, p)) = Some (Inr output, codec, p)"

definition player_pull ::
  "('f, 'c) frame_codec \<Rightarrow> 'c option \<Rightarrow> 'f player
   \<Rightarrow> ((player_error + 'f playback_frame) \<times> 'c option \<times> 'f player) option" where
  "player_pull read codec p =
     (case (py_current_entry p, py_transport p) of
        (Some entry_id, Some t) \<Rightarrow>
          (case transport_pull read codec t of
             None \<Rightarrow> None
           | Some (Inl e, codec', t') \<Rightarrow> Some (Inl (PlayerPlayback e), codec', p\<lparr>py_transport := Some t'\<rparr>)
           | Some (Inr output, codec', t') \<Rightarrow>
               let p' = p\<lparr>py_transport := Some t'\<rparr> in
               if \<not> pf_ended output then Some (Inr output, codec', p')
               else case playlist_entry_of (py_playlist p') entry_id of
                   None \<Rightarrow> Some (Inl (PlayerPlaylist (MissingEntry entry_id)), codec', p')
                 | Some e \<Rightarrow>
                     (case pe_end_action e of
                        ActionStop \<Rightarrow> Some (Inr output, codec', p')
                      | ActionLoop \<Rightarrow> end_with output codec' (activate entry_id p')
                      | ActionNext nxt \<Rightarrow> end_with output codec' (activate nxt p')))
      | _ \<Rightarrow> Some (Inl NoActiveEntry, codec, p))"

section \<open>The player cues every entry\<close>

text \<open>What \<open>PlaylistPlayer::new\<close> has validated: the clip of every entry is there, and its marks are within the clip.\<close>

definition marks_fit :: "marks \<Rightarrow> 'f playback_clip \<Rightarrow> bool" where
  "marks_fit m clip \<longleftrightarrow> mark_in m \<le> mark_out m \<and> mark_out m < clip_frame_count clip"

definition entry_fits :: "'f clip_library \<Rightarrow> playlist_entry \<Rightarrow> bool" where
  "entry_fits library e \<longleftrightarrow> (\<exists>clip. map_of library (pe_clip_id e) = Some clip \<and> 0 < clip_frame_count clip
     \<and> (\<forall>m. pe_marks e = Some m \<longrightarrow> marks_fit m clip))"

definition playlist_inv :: "playlist \<Rightarrow> bool" where
  "playlist_inv pl \<longleftrightarrow> bt_sorted (pl_entries pl) \<and> playlist_entry_of pl (pl_first pl) \<noteq> None
     \<and> (\<forall>i e nxt. playlist_entry_of pl i = Some e \<longrightarrow> pe_end_action e = ActionNext nxt \<longrightarrow> playlist_entry_of pl nxt \<noteq> None)"

definition cued_inv :: "'f player \<Rightarrow> bool" where
  "cued_inv p \<longleftrightarrow> playlist_inv (py_playlist p) \<and> (\<forall>(i, e) \<in> set (pl_entries (py_playlist p)). entry_fits (py_library p) e)
     \<and> (case (py_current_entry p, py_transport p) of
          (None, None) \<Rightarrow> True
        | (Some i, Some t) \<Rightarrow> playlist_entry_of (py_playlist p) i \<noteq> None \<and> transport_inv t
        | _ \<Rightarrow> False)"

lemma set_marks_fit:
  assumes "marks_fit m (tp_clip t)" "transport_inv t"
  shows "\<exists>t'. set_marks m t = (Inr (), t') \<and> transport_inv t'"
proof -
  have "fst (set_marks m t) = Inr ()" using assms(1) by (auto simp: set_marks_def marks_fit_def Let_def)
  then show ?thesis using marks_ops_inv(1) [OF assms(2), of m] by (cases "set_marks m t") auto
qed

lemma cue_start_inv: "transport_inv t \<Longrightarrow> \<exists>t'. cue_start e t = Inr t' \<and> transport_inv t'"
  by (auto simp: cue_start_def seek_def transport_inv_def)

lemma activate_missing: "playlist_entry_of (py_playlist p) i = None \<Longrightarrow> activate i p = Some (Inl (MissingEntry i), p)"
  by (simp add: activate_def)

lemma activate_cues:
  assumes inv: "cued_inv p" and i: "playlist_entry_of (py_playlist p) i \<noteq> None"
  shows "\<exists>t. activate i p = Some (Inr (), p\<lparr>py_current_entry := Some i, py_transport := Some t\<rparr>) \<and> transport_inv t"
proof -
  obtain e where e: "playlist_entry_of (py_playlist p) i = Some e" using i by auto
  have "entry_fits (py_library p) e"
    using inv map_of_SomeD [OF e [unfolded playlist_entry_of_def]] by (auto simp: cued_inv_def)
  then obtain clip where clip: "map_of (py_library p) (pe_clip_id e) = Some clip" "0 < clip_frame_count clip"
    "\<And>m. pe_marks e = Some m \<Longrightarrow> marks_fit m clip" by (auto simp: entry_fits_def)
  obtain t0 where t0: "transport_new clip = Some t0" "transport_inv t0" "tp_clip t0 = clip"
    using transport_new_inv [OF clip(2)] by blast
  have "\<exists>t1. cue_marks e t0 = Inr t1 \<and> transport_inv t1"
  proof (cases "pe_marks e")
    case (Some m)
    then show ?thesis using set_marks_fit [of m t0] t0(2,3) clip(3) by (auto simp: cue_marks_def)
  qed (simp add: cue_marks_def t0(2))
  then obtain t1 where t1: "cue_marks e t0 = Inr t1" "transport_inv t1" by blast
  obtain t2 where t2: "cue_start e t1 = Inr t2" "transport_inv t2" using cue_start_inv [OF t1(2)] by blast
  define t3 where "t3 = set_speed (pe_speed e) (if pe_end_action e = ActionStop then set_end_behavior EndStop t2 else t2)"
  have "activate i p = Some (Inr (), p\<lparr>py_current_entry := Some i, py_transport := Some t3\<rparr>)"
    using e clip(1) t0(1) t1(1) t2(1) by (simp add: activate_def Let_def t3_def)
  moreover have "transport_inv t3" using t2(2) by (simp add: t3_def control_ops_inv)
  ultimately show ?thesis by blast
qed

lemma cued_activated:
  "cued_inv p \<Longrightarrow> playlist_entry_of (py_playlist p) i \<noteq> None \<Longrightarrow> transport_inv t \<Longrightarrow>
   cued_inv (p\<lparr>py_current_entry := Some i, py_transport := Some t\<rparr>)"
  by (simp add: cued_inv_def)

lemma player_pull_idle:
  assumes "cued_inv p" "py_current_entry p = None"
  shows "player_pull read codec p = Some (Inl NoActiveEntry, codec, p)"
  using assms by (auto simp: player_pull_def cued_inv_def split: option.splits)

text \<open>The entry that follows when the current one has ended, if its end action asks for one.\<close>

fun follow_up :: "playlist_entry_id \<Rightarrow> end_action \<Rightarrow> playlist_entry_id option" where
  "follow_up i ActionStop = None"
| "follow_up i ActionLoop = Some i"
| "follow_up i (ActionNext nxt) = Some nxt"

lemma player_pull_active:
  assumes inv: "cued_inv p" and i: "py_current_entry p = Some i"
  obtains (reads) e t r codec' t' cur t'' where "playlist_entry_of (py_playlist p) i = Some e" "py_transport p = Some t"
    "transport_inv t" "transport_pull read codec t = Some (r, codec', t')" "transport_inv t''"
    "player_pull read codec p = Some (map_sum PlayerPlayback id r, codec', p\<lparr>py_current_entry := Some cur, py_transport := Some t''\<rparr>)"
    "playlist_entry_of (py_playlist p) cur \<noteq> None"
    "case r of Inr f \<Rightarrow> (if pf_ended f then case follow_up i (pe_end_action e) of None \<Rightarrow> cur = i \<and> t'' = t' | Some j \<Rightarrow> cur = j
        else cur = i \<and> t'' = t') | Inl _ \<Rightarrow> cur = i \<and> t'' = t'"
proof -
  obtain e t where e: "playlist_entry_of (py_playlist p) i = Some e" and t: "py_transport p = Some t" "transport_inv t"
    using inv i by (auto simp: cued_inv_def split: option.splits)
  obtain r codec' t' where pull: "transport_pull read codec t = Some (r, codec', t')" "transport_inv t'"
    using pull_inv [OF t(2)] by blast
  let ?p = "p\<lparr>py_transport := Some t'\<rparr>"
  have p: "?p = p\<lparr>py_current_entry := Some i, py_transport := Some t'\<rparr>" using i by simp
  have p': "cued_inv ?p" using inv i t pull(2) by (simp add: cued_inv_def)
  show thesis
  proof (cases "\<exists>f j. r = Inr f \<and> pf_ended f \<and> follow_up i (pe_end_action e) = Some j")
    case True
    then obtain f j where f: "r = Inr f" "pf_ended f" "follow_up i (pe_end_action e) = Some j" by blast
    then have j: "playlist_entry_of (py_playlist ?p) j \<noteq> None"
      using inv e by (cases "pe_end_action e") (auto simp: cued_inv_def playlist_inv_def)
    obtain t'' where "activate j ?p = Some (Inr (), ?p\<lparr>py_current_entry := Some j, py_transport := Some t''\<rparr>)" "transport_inv t''"
      using activate_cues [OF p' j] by blast
    moreover from this(1) have "player_pull read codec p = Some (map_sum PlayerPlayback id r, codec',
        p\<lparr>py_current_entry := Some j, py_transport := Some t''\<rparr>)"
      using e t(1) pull(1) f i by (cases "pe_end_action e") (auto simp: player_pull_def Let_def)
    ultimately show thesis using e t pull(1) f j by (intro reads [of e t r codec' t' t'' j]) simp_all
  next
    case False
    have "player_pull read codec p = Some (map_sum PlayerPlayback id r, codec', ?p)"
      using e t pull i False by (cases r; cases "pe_end_action e") (auto simp: player_pull_def Let_def)
    with e t pull p False show thesis
      by (intro reads [of e t r codec' t' t' i]) (auto split: sum.splits option.splits)
  qed
qed

lemma collect_entries_Inr:
  assumes "collect_entries es m = Inr by_id" "bt_sorted m"
  shows "bt_sorted by_id" "bt_keys by_id = pe_id ` set es \<union> bt_keys m"
  using assms by (induction es arbitrary: m) (auto simp: btree_simps split: if_splits)

lemma check_next_Inr:
  "check_next by_id es = Inr () \<Longrightarrow> e \<in> set es \<Longrightarrow> pe_end_action e = ActionNext nxt \<Longrightarrow> map_of by_id nxt \<noteq> None"
  by (induction es) (auto split: end_action.splits if_splits)

lemma playlist_new_inv:
  assumes "playlist_new es = Inr pl"
  shows "playlist_inv pl"
proof -
  obtain e rest by_id where es: "es = e # rest" "collect_entries es [] = Inr by_id" "check_next by_id (map snd by_id) = Inr ()"
    and pl: "pl = \<lparr>pl_entries = by_id, pl_first = pe_id e\<rparr>"
    using assms by (auto simp: playlist_new_def result_simps split: list.splits)
  note col = collect_entries_Inr [OF es(2)]
  have "pe_id e \<in> bt_keys by_id" using col(2) es(1) by simp
  then have "map_of by_id (pe_id e) \<noteq> None" by (simp add: bt_key_iff)
  moreover have "map_of by_id nxt \<noteq> None" if "map_of by_id i = Some e'" "pe_end_action e' = ActionNext nxt" for i e' nxt
    using check_next_Inr [OF es(3), of e' nxt] map_of_SomeD [OF that(1)] that(2) by force
  ultimately show ?thesis using col(1) by (simp add: playlist_inv_def pl playlist_entry_of_def)
qed

inductive library_made :: "'f clip_library \<Rightarrow> bool" where
  made_empty: "library_made []"
| made_insert: "library_made l \<Longrightarrow> clip_made clip \<Longrightarrow> library_made (snd (library_insert clip l))"

lemma library_made_count: "library_made l \<Longrightarrow> map_of l i = Some clip \<Longrightarrow> 0 < clip_frame_count clip"
  by (induction arbitrary: i rule: library_made.induct)
     (auto simp: library_insert_def Let_def btree_simps clip_made_count split: if_splits)

lemma check_entries_total:
  assumes "\<And>i clip. map_of l i = Some clip \<Longrightarrow> 0 < clip_frame_count clip"
  shows "check_entries l es \<noteq> None" "check_entries l es = Some (Inr ()) \<Longrightarrow> e \<in> set es \<Longrightarrow> entry_fits l e"
proof (induction es)
  case (Cons e' es)
  { case 1
    then show ?case
      using Cons.IH(1) assms transport_new_inv by (fastforce split: option.splits prod.splits sum.splits)
  }
  { case 2
    then show ?case
      using Cons.IH(2) assms
      by (auto simp: entry_fits_def marks_fit_def set_marks_def bind_eq_Some_conv Let_def transport_new_def split: option.splits if_splits)
  }
qed simp_all

definition player_started :: "'f clip_library \<Rightarrow> playlist_entry list \<Rightarrow> 'f player \<Rightarrow> bool" where
  "player_started l es p \<longleftrightarrow> library_made l \<and> (\<exists>pl. playlist_new es = Inr pl \<and> player_new l pl = Some (Inr p))"

lemma player_started_inv:
  assumes "player_started l es p"
  shows "cued_inv p" "py_go_records p = []" "py_pending_go p = []" "py_applied_coordinate p = None"
proof -
  obtain pl where pl: "library_made l" "playlist_new es = Inr pl" "player_new l pl = Some (Inr p)"
    using assms by (auto simp: player_started_def)
  then have chk: "check_entries l (map snd (pl_entries pl)) = Some (Inr ())"
    and p: "p = \<lparr>py_library = l, py_playlist = pl, py_current_entry = None, py_transport = None,
          py_go_records = [], py_pending_go = [], py_applied_coordinate = None\<rparr>"
    by (auto simp: player_new_def result_simps)
  have "entry_fits l e" if "(i, e) \<in> set (pl_entries pl)" for i e
    by (rule check_entries_total(2) [OF library_made_count [OF pl(1)] chk]) (use that in force)+
  with playlist_new_inv [OF pl(2)] show "cued_inv p" by (auto simp: cued_inv_def p)
  show "py_go_records p = []" "py_pending_go p = []" "py_applied_coordinate p = None" by (simp_all add: p)
qed

section \<open>Programmed GOs\<close>

definition go_pending :: "'f player \<Rightarrow> schedule_coordinate \<Rightarrow> go_id \<Rightarrow> bool" where
  "go_pending p c i \<longleftrightarrow> (\<exists>r. map_of (py_go_records p) i = Some r \<and> gr_status r = GoPending \<and> go_coordinate (gr_command r) = c)"

definition go_inv :: "'f player \<Rightarrow> bool" where
  "go_inv p \<longleftrightarrow> bt_sorted (py_pending_go p) \<and> (\<forall>c i. (c, i) \<in> bt_keys (py_pending_go p) \<longleftrightarrow> go_pending p c i)
     \<and> (\<forall>i r. map_of (py_go_records p) i = Some r \<longrightarrow> playlist_entry_of (py_playlist p) (go_entry (gr_command r)) \<noteq> None)
     \<and> (\<forall>i r k. map_of (py_go_records p) i = Some r \<longrightarrow> gr_status r = GoPending \<longrightarrow> py_applied_coordinate p = Some k
          \<longrightarrow> k < go_coordinate (gr_command r))"

definition go_target :: "'f player \<Rightarrow> go_id \<Rightarrow> schedule_coordinate" where
  "go_target p i = (case map_of (py_go_records p) i of None \<Rightarrow> 0 | Some r \<Rightarrow> go_coordinate (gr_command r))"

lemma schedule_go_inv:
  assumes "go_inv p"
  shows "go_inv (snd (schedule_go c p))"
    "player_go_status (snd (schedule_go c p)) i = Some GoExecuted \<longleftrightarrow> player_go_status p i = Some GoExecuted"
proof -
  show "player_go_status (snd (schedule_go c p)) i = Some GoExecuted \<longleftrightarrow> player_go_status p i = Some GoExecuted"
    by (auto simp: schedule_go_def player_go_status_def btree_simps split: option.splits)
  show "go_inv (snd (schedule_go c p))"
    using assms
    by (auto simp: schedule_go_def go_inv_def go_pending_def btree_simps not_le split: option.splits if_splits)
qed

lemma cancel_go_inv:
  assumes "go_inv p"
  shows "go_inv (snd (cancel_go i p))"
    "player_go_status (snd (cancel_go i p)) j = Some GoExecuted \<longleftrightarrow> player_go_status p j = Some GoExecuted"
proof -
  show "player_go_status (snd (cancel_go i p)) j = Some GoExecuted \<longleftrightarrow> player_go_status p j = Some GoExecuted"
    by (auto simp: cancel_go_def player_go_status_def btree_simps split: option.splits go_status.splits)
  show "go_inv (snd (cancel_go i p))"
    using assms
    by (auto simp: cancel_go_def go_inv_def go_pending_def btree_simps split: option.splits go_status.splits if_splits)
qed

text \<open>Executing one due GO.\<close>

definition mark_executed :: "schedule_coordinate \<Rightarrow> go_id \<Rightarrow> go_record \<Rightarrow> 'f player \<Rightarrow> 'f player" where
  "mark_executed c i r p = p\<lparr>py_pending_go := bt_remove (c, i) (py_pending_go p),
     py_go_records := bt_set i (r\<lparr>gr_status := GoExecuted\<rparr>) (py_go_records p)\<rparr>"

lemma mark_executed_inv:
  assumes "go_inv p" "map_of (py_go_records p) i = Some r" "gr_status r = GoPending" "go_coordinate (gr_command r) = c"
  shows "go_inv (mark_executed c i r p)" "go_pending (mark_executed c i r p) c' j \<longleftrightarrow> go_pending p c' j \<and> j \<noteq> i"
    "map_of (py_go_records (mark_executed c i r p)) = (map_of (py_go_records p))(i \<mapsto> r\<lparr>gr_status := GoExecuted\<rparr>)"
  using assms by (auto simp: mark_executed_def go_inv_def go_pending_def btree_simps split: if_splits)

lemma go_inv_cued [simp]: "go_inv (p\<lparr>py_current_entry := c, py_transport := t\<rparr>) = go_inv p"
  "go_pending (p\<lparr>py_current_entry := c, py_transport := t\<rparr>) = go_pending p"
  by (simp_all add: go_inv_def go_pending_def fun_eq_iff)

lemma cued_inv_marked [simp]: "cued_inv (mark_executed c i r p) = cued_inv p"
  by (simp add: mark_executed_def cued_inv_def split: option.split)

lemma mark_executed_same [simp]: "py_playlist (mark_executed c i r p) = py_playlist p"
  "py_applied_coordinate (mark_executed c i r p) = py_applied_coordinate p"
  by (simp_all add: mark_executed_def)

definition executed_record :: "go_record \<Rightarrow> go_record" where
  "executed_record r = r\<lparr>gr_status := GoExecuted\<rparr>"

lemma run_due_ok:
  assumes "cued_inv p" "go_inv p" "distinct ds" "\<And>c i. (c, i) \<in> set ds \<Longrightarrow> go_pending p c i"
  shows "\<exists>p'. run_due ds ex p = Some (Inr (ex @ map snd ds), p') \<and> cued_inv p' \<and> go_inv p'
    \<and> py_playlist p' = py_playlist p \<and> py_applied_coordinate p' = py_applied_coordinate p
    \<and> map_of (py_go_records p') = (\<lambda>i. if i \<in> snd ` set ds then map_option executed_record (map_of (py_go_records p) i)
        else map_of (py_go_records p) i)
    \<and> (ds \<noteq> [] \<longrightarrow> py_current_entry p' = map_option (\<lambda>r. go_entry (gr_command r)) (map_of (py_go_records p) (snd (last ds))))"
  using assms
proof (induction ds arbitrary: ex p)
  case (Cons d ds)
  obtain c i where d: "d = (c, i)" by fastforce
  obtain r where r: "map_of (py_go_records p) i = Some r" "gr_status r = GoPending" "go_coordinate (gr_command r) = c"
    using Cons.prems(4) [of c i] d by (auto simp: go_pending_def)
  have "playlist_entry_of (py_playlist p) (go_entry (gr_command r)) \<noteq> None" using Cons.prems(2) r(1) by (auto simp: go_inv_def)
  from activate_cues [OF Cons.prems(1) this] obtain t where
    act: "activate (go_entry (gr_command r)) p =
      Some (Inr (), p\<lparr>py_current_entry := Some (go_entry (gr_command r)), py_transport := Some t\<rparr>)" "transport_inv t" by blast
  define q where "q = p\<lparr>py_current_entry := Some (go_entry (gr_command r)), py_transport := Some t\<rparr>"
  have q: "cued_inv q" "go_inv q" "map_of (py_go_records q) i = Some r"
    using cued_activated [OF Cons.prems(1) \<open>playlist_entry_of _ _ \<noteq> None\<close> act(2)] Cons.prems(2) r(1) by (simp_all add: q_def)
  note ex = mark_executed_inv [OF q(2,3) r(2,3)]
  have other: "j \<noteq> i \<and> go_pending q c' j" if "(c', j) \<in> set ds" for c' j
  proof -
    have "go_pending p c' j" using Cons.prems(4) [of c' j] that by simp
    moreover have "j \<noteq> i" using calculation r Cons.prems(3) that d by (auto simp: go_pending_def)
    ultimately show ?thesis by (simp add: q_def)
  qed
  obtain p' where p': "run_due ds (ex @ [i]) (mark_executed c i r q) = Some (Inr ((ex @ [i]) @ map snd ds), p')" "cued_inv p'" "go_inv p'"
    "py_playlist p' = py_playlist q" "py_applied_coordinate p' = py_applied_coordinate q"
    "map_of (py_go_records p') = (\<lambda>j. if j \<in> snd ` set ds then map_option executed_record (map_of (py_go_records (mark_executed c i r q)) j)
        else map_of (py_go_records (mark_executed c i r q)) j)"
    "ds \<noteq> [] \<longrightarrow> py_current_entry p' = map_option (\<lambda>r. go_entry (gr_command r)) (map_of (py_go_records (mark_executed c i r q)) (snd (last ds)))"
    using Cons.IH [of "mark_executed c i r q" "ex @ [i]"] q(1) ex(1,2) other Cons.prems(3) by auto
  have last: "snd (last ds) \<noteq> i" if "ds \<noteq> []" using other [of "fst (last ds)" "snd (last ds)"] last_in_set [OF that] by simp
  have "ds = [] \<Longrightarrow> p' = mark_executed c i r q" using p'(1) by simp
  moreover have "run_due (d # ds) ex p = Some (Inr (ex @ map snd (d # ds)), p')"
    using p'(1) r(1) act(1) q(3) by (simp add: d q_def [symmetric] mark_executed_def)
  ultimately show ?case
    using p' last ex(3) r(1) by (auto simp: d q_def fun_eq_iff executed_record_def mark_executed_def)
qed auto

lemma bt_range_coordinate:
  "set (map fst (bt_range_to (k :: u64, - 1 :: u128) m)) = {(c, i). c \<le> k \<and> (c, i) \<in> bt_keys m}"
  by (force simp: bt_range_to_def less_eq_prod_def)

lemma apply_scheduled_ok:
  assumes inv: "cued_inv p" "go_inv p" and order: "\<And>a. py_applied_coordinate p = Some a \<Longrightarrow> a \<le> k"
  shows "\<exists>ks p'. apply_scheduled k p = Some (Inr (map snd ks), p') \<and> sorted_wrt (<) ks \<and> distinct (map snd ks)
    \<and> set ks = {(c, i). c \<le> k \<and> go_pending p c i} \<and> cued_inv p' \<and> go_inv p'
    \<and> py_applied_coordinate p' = Some k \<and> go_target p' = go_target p
    \<and> (\<forall>i. player_go_status p' i = (if i \<in> snd ` set ks then Some GoExecuted else player_go_status p i))"
proof -
  define ks where "ks = map fst (bt_range_to (k, - 1) (py_pending_go p))"
  have pend: "bt_sorted (py_pending_go p)" "\<And>c i. (c, i) \<in> bt_keys (py_pending_go p) \<longleftrightarrow> go_pending p c i"
    using inv(2) by (auto simp: go_inv_def)
  then have ks: "set ks = {(c, i). c \<le> k \<and> go_pending p c i}" unfolding ks_def bt_range_coordinate by auto
  have "bt_sorted (bt_range_to (k, - 1) (py_pending_go p))" using pend(1) by (simp add: bt_range_to_def)
  then have sorted: "sorted_wrt (<) ks" by (simp add: ks_def bt_sorted_def)
  then have dist: "distinct ks" by (simp add: strict_sorted_iff)
  have inj: "inj_on snd (set ks)" unfolding ks by (rule inj_onI) (auto simp: go_pending_def)
  have "\<exists>p'. run_due ks [] p = Some (Inr ([] @ map snd ks), p') \<and> cued_inv p' \<and> go_inv p'
    \<and> py_playlist p' = py_playlist p \<and> py_applied_coordinate p' = py_applied_coordinate p
    \<and> map_of (py_go_records p') = (\<lambda>i. if i \<in> snd ` set ks then map_option executed_record (map_of (py_go_records p) i)
        else map_of (py_go_records p) i)
    \<and> (ks \<noteq> [] \<longrightarrow> py_current_entry p' = map_option (\<lambda>r. go_entry (gr_command r)) (map_of (py_go_records p) (snd (last ks))))"
    by (rule run_due_ok [OF inv dist]) (use ks in auto)
  then obtain p' where p': "run_due ks [] p = Some (Inr (map snd ks), p')" "cued_inv p'" "go_inv p'"
    "map_of (py_go_records p') = (\<lambda>i. if i \<in> snd ` set ks then map_option executed_record (map_of (py_go_records p) i)
        else map_of (py_go_records p) i)" by auto
  let ?p = "p'\<lparr>py_applied_coordinate := Some k\<rparr>"
  have "apply_scheduled k p = Some (Inr (map snd ks), ?p)"
    using p'(1) order by (auto simp: apply_scheduled_def apply_due_def not_less ks_def split: option.splits)
  moreover have later: "k < c" if "go_pending p' c i" for c i
  proof -
    have "go_pending p c i" "i \<notin> snd ` set ks"
      using that by (auto simp: p'(4) go_pending_def executed_record_def split: if_splits)
    then show ?thesis unfolding ks by (force simp: not_le [symmetric])
  qed
  have "go_inv ?p" using p'(3) later by (auto simp: go_inv_def go_pending_def)
  moreover have "cued_inv ?p" using p'(2) by (simp add: cued_inv_def split: option.splits)
  moreover have "player_go_status ?p i = (if i \<in> snd ` set ks then Some GoExecuted else player_go_status p i)" for i
    using p'(4) ks by (auto simp: player_go_status_def go_pending_def executed_record_def)
  moreover have "distinct (map snd ks)" using dist inj by (simp add: distinct_map)
  moreover have "go_target ?p = go_target p"
    by (rule ext) (auto simp: go_target_def p'(4) executed_record_def split: option.splits)
  moreover have "py_applied_coordinate ?p = Some k" by simp
  ultimately show ?thesis using sorted ks by blast
qed

section \<open>Runs of the player\<close>

text \<open>The calls a client can make, and the GOs that were reported as executed so far.\<close>

inductive player_run :: "('f, 'c) frame_codec \<Rightarrow> 'f player \<Rightarrow> go_id list \<Rightarrow> bool" for read :: "('f, 'c) frame_codec" where
  run_start: "player_started l es p \<Longrightarrow> player_run read p []"
| run_go: "player_run read p log \<Longrightarrow> player_go i p = Some (r, p') \<Longrightarrow> player_run read p' log"
| run_schedule: "player_run read p log \<Longrightarrow> player_run read (snd (schedule_go c p)) log"
| run_cancel: "player_run read p log \<Longrightarrow> player_run read (snd (cancel_go i p)) log"
| run_apply: "player_run read p log \<Longrightarrow> apply_scheduled k p = Some (Inr ids, p') \<Longrightarrow> player_run read p' (log @ ids)"
| run_apply_error: "player_run read p log \<Longrightarrow> apply_scheduled k p = Some (Inl e, p') \<Longrightarrow> player_run read p' log"
| run_pull: "player_run read p log \<Longrightarrow> player_pull read codec p = Some (r, codec', p') \<Longrightarrow> player_run read p' log"

lemma player_pull_cued:
  assumes "cued_inv p"
  shows "\<exists>r codec' cur t. player_pull read codec p = Some (r, codec', p\<lparr>py_current_entry := cur, py_transport := t\<rparr>)
    \<and> cued_inv (p\<lparr>py_current_entry := cur, py_transport := t\<rparr>) \<and> (\<forall>e. r \<noteq> Inl (PlayerPlaylist e))"
proof (cases "py_current_entry p")
  case None
  then have "p\<lparr>py_current_entry := None, py_transport := py_transport p\<rparr> = p" by (cases p) simp
  with player_pull_idle [OF assms None, of read codec] assms show ?thesis
    by (intro exI [of _ "Inl NoActiveEntry"] exI [of _ codec] exI [of _ None] exI [of _ "py_transport p"]) simp
next
  case (Some i)
  obtain r codec' cur t where "player_pull read codec p = Some (map_sum PlayerPlayback id r, codec',
      p\<lparr>py_current_entry := Some cur, py_transport := Some t\<rparr>)" "playlist_entry_of (py_playlist p) cur \<noteq> None" "transport_inv t"
    by (rule player_pull_active [OF assms Some, of read codec]) blast
  moreover have "map_sum PlayerPlayback id r \<noteq> Inl (PlayerPlaylist err)" for err by (cases r) simp_all
  ultimately show ?thesis using cued_activated [OF assms] by blast
qed

lemma apply_reversed: "py_applied_coordinate p = Some a \<Longrightarrow> k < a \<Longrightarrow> apply_scheduled k p = Some (Inl (CoordinateReversed a k), p)"
  by (simp add: apply_scheduled_def)

text \<open>The order of everything executed so far: it is in order, and none of it lies behind the applied coordinate.\<close>

definition log_ordered :: "'f player \<Rightarrow> go_id list \<Rightarrow> bool" where
  "log_ordered p log \<longleftrightarrow> sorted_wrt (<) (map (\<lambda>i. (go_target p i, i)) log)
     \<and> (\<forall>i\<in>set log. \<exists>a. py_applied_coordinate p = Some a \<and> go_target p i \<le> a)"

lemma log_ordered_cong:
  assumes "py_applied_coordinate q = py_applied_coordinate p" "\<And>i. i \<in> set log \<Longrightarrow> go_target q i = go_target p i"
  shows "log_ordered q log = log_ordered p log"
proof -
  have "map (\<lambda>i. (go_target q i, i)) log = map (\<lambda>i. (go_target p i, i)) log" using assms(2) by simp
  then show ?thesis unfolding log_ordered_def assms(1) using assms(2) by (metis (no_types, lifting))
qed

lemma schedule_go_log:
  assumes "\<forall>i. i \<in> set log \<longleftrightarrow> player_go_status p i = Some GoExecuted"
  shows "log_ordered (snd (schedule_go c p)) log = log_ordered p log"
proof (rule log_ordered_cong)
  fix i assume "i \<in> set log"
  then obtain r where "map_of (py_go_records p) i = Some r" using assms by (auto simp: player_go_status_def)
  then show "go_target (snd (schedule_go c p)) i = go_target p i"
    by (auto simp: schedule_go_def go_target_def btree_simps split: option.splits)
qed (auto simp: schedule_go_def split: option.splits)

lemma cancel_go_log: "log_ordered (snd (cancel_go c p)) log = log_ordered p log"
  by (rule log_ordered_cong)
    (auto simp: cancel_go_def go_target_def btree_simps split: option.splits go_status.splits)

lemma apply_log:
  assumes "log_ordered p log" "go_inv p" "go_target p' = go_target p" "py_applied_coordinate p' = Some k"
    and order: "\<And>a. py_applied_coordinate p = Some a \<Longrightarrow> a \<le> k"
    and ks: "set ks = {(c, i). c \<le> k \<and> go_pending p c i}" "sorted_wrt (<) ks"
  shows "log_ordered p' (log @ map snd ks)"
proof -
  have target: "go_target p i = c" if "(c, i) \<in> set ks" for c i
    using that ks(1) by (auto simp: go_target_def go_pending_def)
  then have "map (\<lambda>i. (go_target p i, i)) (map snd ks) = ks" by (auto intro!: map_idI)
  moreover have "(go_target p i, i) < (c, j)" if i: "i \<in> set log" and j: "(c, j) \<in> set ks" for i j c
  proof -
    obtain a where "py_applied_coordinate p = Some a" "go_target p i \<le> a" using assms(1) i by (auto simp: log_ordered_def)
    moreover have "a < c" using calculation(1) assms(2) j ks(1) by (auto simp: go_inv_def go_pending_def)
    ultimately have "go_target p i < c" by (meson le_less_trans)
    then show ?thesis by (simp add: less_prod_def)
  qed
  ultimately have "sorted_wrt (<) (map (\<lambda>i. (go_target p i, i)) (log @ map snd ks))"
    using assms(1) ks(2) by (auto simp: log_ordered_def sorted_wrt_append)
  moreover have "go_target p i \<le> k" if "i \<in> set (log @ map snd ks)" for i
    using that assms(1) order ks(1) target by (fastforce simp: log_ordered_def)
  ultimately show ?thesis using assms(3,4) by (simp add: log_ordered_def)
qed

lemma log_ordered_cued [simp]: "log_ordered (p\<lparr>py_current_entry := c, py_transport := t\<rparr>) log = log_ordered p log"
  by (rule log_ordered_cong) (simp_all add: go_target_def)

lemma player_run_inv:
  assumes "player_run read p log"
  shows "cued_inv p \<and> go_inv p \<and> log_ordered p log \<and> distinct log
    \<and> (\<forall>i. i \<in> set log \<longleftrightarrow> player_go_status p i = Some GoExecuted)"
  using assms
proof (induction rule: player_run.induct)
  case (run_start l es p)
  note st = player_started_inv [OF run_start]
  then show ?case by (simp add: go_inv_def go_pending_def player_go_status_def log_ordered_def)
next
  case (run_go p log i r p')
  show ?case
  proof (cases "playlist_entry_of (py_playlist p) i = None")
    case True
    then show ?thesis using run_go activate_missing [OF True] by (auto simp: player_go_def)
  next
    case False
    then show ?thesis using run_go activate_cues [of p i] cued_activated [of p i]
      by (auto simp: player_go_def player_go_status_def)
  qed
next
  case (run_schedule p log c)
  moreover have "cued_inv (snd (schedule_go c p))"
    using run_schedule by (auto simp: schedule_go_def cued_inv_def split: option.splits)
  ultimately show ?case using schedule_go_inv schedule_go_log by blast
next
  case (run_cancel p log i)
  moreover have "cued_inv (snd (cancel_go i p))"
    using run_cancel by (auto simp: cancel_go_def cued_inv_def split: option.splits go_status.splits)
  ultimately show ?case using cancel_go_inv cancel_go_log by blast
next
  case (run_apply p log k ids p')
  have forward: "a \<le> k" if "py_applied_coordinate p = Some a" for a
    using run_apply(2) apply_reversed [OF that] by (auto simp: not_less [symmetric])
  then obtain ks where ids: "ids = map snd ks" "distinct ids"
    and ks: "set ks = {(c, i). c \<le> k \<and> go_pending p c i}" "sorted_wrt (<) ks"
    and p': "cued_inv p'" "go_inv p'" "go_target p' = go_target p" "py_applied_coordinate p' = Some k"
    and st: "\<And>i. player_go_status p' i = (if i \<in> set ids then Some GoExecuted else player_go_status p i)"
    using apply_scheduled_ok [of p k] run_apply by auto
  have "player_go_status p i = Some GoPending" if "i \<in> set ids" for i
    using that ks(1) by (auto simp: ids(1) go_pending_def player_go_status_def)
  then have "set log \<inter> set ids = {}" using run_apply.IH by force
  moreover have "log_ordered p' (log @ ids)"
    unfolding ids(1) using run_apply.IH p'(3,4) forward ks by (intro apply_log) auto
  ultimately show ?case using run_apply.IH ids(2) p'(1,2) st by simp
next
  case (run_apply_error p log k e p')
  have "p' = p"
  proof (cases "\<exists>a. py_applied_coordinate p = Some a \<and> k < a")
    case True
    then show ?thesis using run_apply_error(2) apply_reversed by fastforce
  next
    case False
    then show ?thesis using apply_scheduled_ok [of p k] run_apply_error by (auto simp: not_less)
  qed
  then show ?case using run_apply_error by simp
next
  case (run_pull p log codec r codec' p')
  then show ?case using player_pull_cued [of p read codec] by (auto simp: player_go_status_def)
qed

text \<open>C26: programmed GOs. Over every run of the player each GO executes at most once, and the executed ones are
  exactly those that report the status executed, so that a cancelled GO never runs. All the GOs that the run executed,
  by whichever of its calls, executed in strictly ascending order of their coordinates and, at one coordinate, of their
  identifiers: no GO executes after one that was programmed for a later coordinate. At every coordinate
  that does not move backwards the due GOs, and no others, execute in that order, and cannot fail, because the player
  validated its playlist when it was made.
\<close>
theorem programmed_goes_execute_once:
  assumes "player_run read p log"
  shows "distinct log \<and> (\<forall>i. i \<in> set log \<longleftrightarrow> player_go_status p i = Some GoExecuted)
    \<and> sorted_wrt (<) (map (\<lambda>i. (go_target p i, i)) log)
    \<and> (\<forall>k. if (case py_applied_coordinate p of Some a \<Rightarrow> k < a | None \<Rightarrow> False)
         then \<exists>e. apply_scheduled k p = Some (Inl e, p)
         else \<exists>ks p'. apply_scheduled k p = Some (Inr (map snd ks), p') \<and> sorted_wrt (<) ks
            \<and> set ks = {(c, i). c \<le> k \<and> go_pending p c i}
            \<and> (\<forall>i. player_go_status p' i = (if i \<in> snd ` set ks then Some GoExecuted else player_go_status p i)))"
proof -
  note inv = player_run_inv [OF assms]
  have "\<exists>e. apply_scheduled k p = Some (Inl e, p)" if "case py_applied_coordinate p of Some a \<Rightarrow> k < a | None \<Rightarrow> False" for k
    using that apply_reversed [of p] by (auto split: option.splits)
  moreover have "\<exists>ks p'. apply_scheduled k p = Some (Inr (map snd ks), p') \<and> sorted_wrt (<) ks
            \<and> set ks = {(c, i). c \<le> k \<and> go_pending p c i}
            \<and> (\<forall>i. player_go_status p' i = (if i \<in> snd ` set ks then Some GoExecuted else player_go_status p i))"
    if "\<not> (case py_applied_coordinate p of Some a \<Rightarrow> k < a | None \<Rightarrow> False)" for k
  proof -
    have "a \<le> k" if "py_applied_coordinate p = Some a" for a
      using that \<open>\<not> (case _ of Some a \<Rightarrow> _ a | None \<Rightarrow> _)\<close> by simp
    from apply_scheduled_ok [OF _ _ this] inv show ?thesis by blast
  qed
  moreover have "sorted_wrt (<) (map (\<lambda>i. (go_target p i, i)) log)" using inv by (simp add: log_ordered_def)
  ultimately show ?thesis using inv by presburger
qed

section \<open>A small playlist\<close>

definition demo_entries :: "playlist_entry list" where
  "demo_entries = [playlist_entry_new 7 1, entry_with_end_action (ActionNext 7) (playlist_entry_new 8 1)]"

definition demo_player :: "nat player" where
  "demo_player = \<lparr>py_library = [(1, demo_clip)],
     py_playlist = \<lparr>pl_entries = [(7, playlist_entry_new 7 1), (8, entry_with_end_action (ActionNext 7) (playlist_entry_new 8 1))], pl_first = 7\<rparr>,
     py_current_entry = None, py_transport = None, py_go_records = [], py_pending_go = [], py_applied_coordinate = None\<rparr>"

definition demo_go_player :: "nat player" where
  "demo_go_player = snd (schedule_go \<lparr>go_ident = 4, go_coordinate = 10, go_entry = 8\<rparr>
     (snd (schedule_go \<lparr>go_ident = 5, go_coordinate = 10, go_entry = 7\<rparr> demo_player)))"

lemma demo_player_started: "player_started [(1, demo_clip)] demo_entries demo_player"
proof -
  have "library_made (snd (library_insert demo_clip []))" by (rule made_insert [OF made_empty demo_clip_made])
  then have "library_made [(1, demo_clip)]" by (simp add: library_insert_def Let_def demo_clip_def)
  moreover have "playlist_new demo_entries = Inr (py_playlist demo_player)"
    by (simp add: playlist_new_def demo_entries_def demo_player_def playlist_entry_new_def entry_with_end_action_def)
  moreover have "player_new [(1, demo_clip)] (py_playlist demo_player) = Some (Inr demo_player)"
    by (simp add: player_new_def demo_player_def playlist_entry_new_def entry_with_end_action_def)
  ultimately show ?thesis by (auto simp: player_started_def)
qed

lemma demo_go_player_run: "player_run demo_read demo_go_player []"
  unfolding demo_go_player_def by (intro run_schedule run_start [OF demo_player_started])

lemma demo_go_player_facts: "py_applied_coordinate demo_go_player = None"
  "go_pending demo_go_player c i \<longleftrightarrow> c = 10 \<and> (i = 4 \<or> i = 5)"
  by (auto simp: demo_go_player_def schedule_go_def demo_player_def playlist_entry_of_def go_pending_def)

theorem programmed_goes_execute_once_witness:
  "\<exists>ks p'. apply_scheduled 10 demo_go_player = Some (Inr (map snd ks), p') \<and> sorted_wrt (<) ks \<and> set ks = {(10 :: u64, 4), (10, 5)}
     \<and> player_go_status p' 4 = Some GoExecuted \<and> player_go_status p' 5 = Some GoExecuted"
proof -
  have "\<forall>k. \<exists>ks p'. apply_scheduled k demo_go_player = Some (Inr (map snd ks), p') \<and> sorted_wrt (<) ks
      \<and> set ks = {(c, i). c \<le> k \<and> go_pending demo_go_player c i}
      \<and> (\<forall>i. player_go_status p' i = (if i \<in> snd ` set ks then Some GoExecuted else player_go_status demo_go_player i))"
    using programmed_goes_execute_once [OF demo_go_player_run] by (simp add: demo_go_player_facts(1))
  then obtain ks p' where ks: "apply_scheduled 10 demo_go_player = Some (Inr (map snd ks), p')" "sorted_wrt (<) ks"
    "set ks = {(c, i). c \<le> 10 \<and> go_pending demo_go_player c i}"
    "\<forall>i. player_go_status p' i = (if i \<in> snd ` set ks then Some GoExecuted else player_go_status demo_go_player i)"
    by blast
  have "set ks = {(10 :: u64, 4), (10, 5)}" unfolding ks(3) demo_go_player_facts(2) by auto
  with ks(1,2,4) show ?thesis by (intro exI [of _ ks] exI [of _ p']) simp
qed

end
