(* ===== verification/Automation.thy ===== *)
theory Automation
  imports Command BTree "HOL-Library.Multiset" "HOL-Library.List_Lexorder" "HOL-Library.Char_ord" "HOL-Library.Sublist"
begin

text \<open>
  The crate \<open>crates/features/fm-automation\<close>, the parts without a timer queue: command intents and the
  coalescing buffer (\<open>intent.rs\<close>), conditions (\<open>condition.rs\<close>), the shortcut registry (\<open>shortcut.rs\<close>) and
  macro runs with retry and cancellation (\<open>macros.rs\<close>). A command is a type parameter, as in the source.
\<close>

section \<open>Intents\<close>

datatype 'c command_intent =
    Discrete 'c
  | Continuous string 'c
  | CommitContinuous string 'c

fun intent_map :: "('c \<Rightarrow> 'd) \<Rightarrow> 'c command_intent \<Rightarrow> 'd command_intent" where
  "intent_map f (Discrete c) = Discrete (f c)"
| "intent_map f (Continuous s c) = Continuous s (f c)"
| "intent_map f (CommitContinuous s c) = CommitContinuous s (f c)"

fun into_command :: "'c command_intent \<Rightarrow> 'c" where
  "into_command (Discrete c) = c"
| "into_command (Continuous _ c) = c"
| "into_command (CommitContinuous _ c) = c"

record ('c, 's) intent_buffer =
  ib_discrete :: "'c command_intent list"
  ib_continuous :: "('s \<times> string, 'c) btree"

definition intent_buffer_default :: "('c, 's) intent_buffer" where
  "intent_buffer_default = \<lparr>ib_discrete = [], ib_continuous = []\<rparr>"

fun buffer_push :: "'s::linorder \<Rightarrow> 'c command_intent \<Rightarrow> ('c, 's) intent_buffer \<Rightarrow> 'c option \<times> ('c, 's) intent_buffer" where
  "buffer_push scope (Discrete c) b = (None, b\<lparr>ib_discrete := ib_discrete b @ [Discrete c]\<rparr>)"
| "buffer_push scope (Continuous stream c) b =
     (map_of (ib_continuous b) (scope, stream), b\<lparr>ib_continuous := bt_insert (scope, stream) c (ib_continuous b)\<rparr>)"
| "buffer_push scope (CommitContinuous stream c) b =
     (map_of (ib_continuous b) (scope, stream),
      b\<lparr>ib_continuous := bt_remove (scope, stream) (ib_continuous b),
        ib_discrete := ib_discrete b @ [CommitContinuous stream c]\<rparr>)"

definition pop_discrete :: "('c, 's) intent_buffer \<Rightarrow> 'c command_intent option \<times> ('c, 's) intent_buffer" where
  "pop_discrete b = (case ib_discrete b of [] \<Rightarrow> (None, b) | i # is \<Rightarrow> (Some i, b\<lparr>ib_discrete := is\<rparr>))"

definition drain_discrete :: "('c, 's) intent_buffer \<Rightarrow> 'c command_intent list \<times> ('c, 's) intent_buffer" where
  "drain_discrete b = (ib_discrete b, b\<lparr>ib_discrete := []\<rparr>)"

definition drain_continuous :: "('c, 's) intent_buffer \<Rightarrow> 'c command_intent list \<times> ('c, 's) intent_buffer" where
  "drain_continuous b = (map (\<lambda>((_, stream), c). Continuous stream c) (ib_continuous b), b\<lparr>ib_continuous := []\<rparr>)"

section \<open>Conditions\<close>

datatype automation_value = BoolValue bool | NumberValue i64 | TextValue string

type_synonym condition_context = "(string, automation_value) btree"

datatype predicate =
    Exists | MissingField | EqualTo automation_value | NotEqualTo automation_value
  | GreaterThan i64 | GreaterOrEqual i64 | LessThan i64 | LessOrEqual i64

record condition =
  cd_field :: string
  cd_predicate :: predicate

fun number_of :: "automation_value option \<Rightarrow> i64 option" where
  "number_of (Some (NumberValue v)) = Some v"
| "number_of _ = None"

definition evaluate :: "condition \<Rightarrow> condition_context \<Rightarrow> bool" where
  "evaluate c ctx =
     (let v = map_of ctx (cd_field c) in
      case cd_predicate c of
        Exists \<Rightarrow> v \<noteq> None
      | MissingField \<Rightarrow> v = None
      | EqualTo e \<Rightarrow> v = Some e
      | NotEqualTo e \<Rightarrow> is_some_and v (\<lambda>x. x \<noteq> e)
      | GreaterThan e \<Rightarrow> is_some_and (number_of v) (\<lambda>x. sint x > sint e)
      | GreaterOrEqual e \<Rightarrow> is_some_and (number_of v) (\<lambda>x. sint x \<ge> sint e)
      | LessThan e \<Rightarrow> is_some_and (number_of v) (\<lambda>x. sint x < sint e)
      | LessOrEqual e \<Rightarrow> is_some_and (number_of v) (\<lambda>x. sint x \<le> sint e))"

definition conditions_match :: "condition list \<Rightarrow> condition_context \<Rightarrow> bool" where
  "conditions_match cs ctx = list_all (\<lambda>c. evaluate c ctx) cs"

section \<open>Shortcuts\<close>

datatype shortcut_scope = GlobalScope | LocalScope string

definition overlaps :: "shortcut_scope \<Rightarrow> shortcut_scope \<Rightarrow> bool" where
  "overlaps s t \<longleftrightarrow> s = GlobalScope \<or> t = GlobalScope
     \<or> (case (s, t) of (LocalScope l, LocalScope r) \<Rightarrow> l = r | _ \<Rightarrow> False)"

type_synonym modifiers = u8

definition MOD_CONTROL :: modifiers where "MOD_CONTROL = 1"
definition MOD_ALT :: modifiers where "MOD_ALT = 2"
definition MOD_SHIFT :: modifiers where "MOD_SHIFT = 4"
definition MOD_META :: modifiers where "MOD_META = 8"

definition modifiers_contains :: "modifiers \<Rightarrow> modifiers \<Rightarrow> bool" where
  "modifiers_contains m k \<longleftrightarrow> and m k = k"

record key_stroke =
  ks_key :: string
  ks_modifiers :: modifiers

type_synonym chord = "key_stroke list"

definition MAX_CHORD_STROKES :: usize where "MAX_CHORD_STROKES = 4"

datatype chord_error = EmptyChord | ChordTooLong usize

definition chord_new :: "key_stroke list \<Rightarrow> chord_error + chord" where
  "chord_new strokes =
     (if strokes = [] then Inl EmptyChord
      else if length strokes > MAX_CHORD_STROKES then Inl (ChordTooLong MAX_CHORD_STROKES)
      else Inr strokes)"

datatype conflict_kind = ExactConflict | PrefixConflict

definition starts_with :: "'a list \<Rightarrow> 'a list \<Rightarrow> bool" where
  "starts_with xs ys \<longleftrightarrow> take (length ys) xs = ys"

definition chord_conflict :: "chord \<Rightarrow> chord \<Rightarrow> conflict_kind option" where
  "chord_conflict c d =
     (if c = d then Some ExactConflict
      else if starts_with c d \<or> starts_with d c then Some PrefixConflict
      else None)"

record 'c shortcut =
  sc_id :: string
  sc_scope :: shortcut_scope
  sc_chord :: chord
  sc_intent :: "'c command_intent"

record shortcut_conflict =
  cf_existing :: string
  cf_incoming :: string
  cf_kind :: conflict_kind

datatype shortcut_error = DuplicateShortcut string | ShortcutConflicts "shortcut_conflict list"

type_synonym 'c shortcut_registry = "'c shortcut list"

definition shortcut_conflicts :: "'c shortcut_registry \<Rightarrow> 'c shortcut \<Rightarrow> shortcut_conflict list" where
  "shortcut_conflicts r incoming =
     List.map_filter (\<lambda>existing. map_option (\<lambda>kind.
         \<lparr>cf_existing = sc_id existing, cf_incoming = sc_id incoming, cf_kind = kind\<rparr>)
       (chord_conflict (sc_chord existing) (sc_chord incoming)))
     (filter (\<lambda>existing. overlaps (sc_scope existing) (sc_scope incoming)) r)"

definition shortcut_insert :: "'c shortcut \<Rightarrow> (shortcut_error, unit, 'c shortcut_registry) meth" where
  "shortcut_insert s r =
     (if list_ex (\<lambda>e. sc_id e = sc_id s) r then (Inl (DuplicateShortcut (sc_id s)), r)
      else let conflicts = shortcut_conflicts r s in
        if conflicts \<noteq> [] then (Inl (ShortcutConflicts conflicts), r)
        else (Inr (), r @ [s]))"

fun shortcut_remove :: "string \<Rightarrow> 'c shortcut_registry \<Rightarrow> 'c shortcut option \<times> 'c shortcut_registry" where
  "shortcut_remove i [] = (None, [])"
| "shortcut_remove i (s # r) =
     (if sc_id s = i then (Some s, r) else (case shortcut_remove i r of (x, r') \<Rightarrow> (x, s # r')))"

definition shortcut_resolve :: "'c shortcut_registry \<Rightarrow> string option \<Rightarrow> chord \<Rightarrow> 'c shortcut option" where
  "shortcut_resolve r scope chord =
     (let global = find (\<lambda>e. sc_chord e = chord \<and> sc_scope e = GlobalScope) r in
      case scope of
        None \<Rightarrow> global
      | Some l \<Rightarrow>
          (case find (\<lambda>e. sc_chord e = chord \<and> sc_scope e = LocalScope l) r of
             Some s \<Rightarrow> Some s
           | None \<Rightarrow> global))"

section \<open>Macros\<close>

record retry_policy =
  rp_max_attempts :: u16
  rp_delay_ms :: u64

definition retry_once :: retry_policy where
  "retry_once = \<lparr>rp_max_attempts = 1, rp_delay_ms = 0\<rparr>"

datatype cancel_policy = CancelImmediate | FinishCurrentAttempt

record 'c macro_definition =
  md_id :: string
  md_intents :: "'c command_intent list"
  md_conditions :: "condition list"
  md_retry :: retry_policy
  md_cancel_policy :: cancel_policy

datatype macro_error =
    InvalidTransaction transaction_error | ZeroAttempts | ConditionFailed | MacroNotReady u64 | MacroNotRunning
  | MacroTimestampOverflow

definition macro_new ::
  "string \<Rightarrow> 'c command_intent list \<Rightarrow> condition list \<Rightarrow> retry_policy \<Rightarrow> cancel_policy
   \<Rightarrow> macro_error + 'c macro_definition" where
  "macro_new i intents conds retry policy =
     (if rp_max_attempts retry = 0 then Inl ZeroAttempts
      else case transaction_new intents of
          Inl e \<Rightarrow> Inl (InvalidTransaction e)
        | Inr t \<Rightarrow> Inr \<lparr>md_id = i, md_intents = t, md_conditions = conds, md_retry = retry, md_cancel_policy = policy\<rparr>)"

datatype attempt_outcome = AttemptSucceeded | AttemptFailed bool

datatype macro_status = MacroRunning | WaitingRetry u64 | MacroSucceeded | MacroFailed | MacroCancelled

record 'c macro_dispatch =
  mx_macro_id :: string
  mx_run_id :: string
  mx_attempt :: u16
  mx_envelope :: "'c command_intent list command_envelope"

datatype macro_decision = DecidedSucceeded | RetryAt u64 | DecidedFailed | DecidedCancelled | CancellationPending

record 'c macro_run =
  mr_definition :: "'c macro_definition"
  mr_run_id :: string
  mr_attempt :: u16
  mr_status :: macro_status
  mr_cancel_requested :: bool

definition dispatch_id :: "'c macro_run \<Rightarrow> string" where
  "dispatch_id m = md_id (mr_definition m) @ '':'' @ mr_run_id m @ '':'' @ digits (unat (mr_attempt m))"

definition macro_dispatch_of :: "'c macro_run \<Rightarrow> 'c macro_dispatch" where
  "macro_dispatch_of m =
     \<lparr>mx_macro_id = md_id (mr_definition m), mx_run_id = mr_run_id m, mx_attempt = mr_attempt m,
      mx_envelope = envelope_new (dispatch_id m) (dispatch_id m) (md_intents (mr_definition m))\<rparr>"

definition macro_start ::
  "'c macro_definition \<Rightarrow> string \<Rightarrow> condition_context \<Rightarrow> macro_error + ('c macro_run \<times> 'c macro_dispatch)" where
  "macro_start d run_id ctx =
     (if \<not> conditions_match (md_conditions d) ctx then Inl ConditionFailed
      else let m = \<lparr>mr_definition = d, mr_run_id = run_id, mr_attempt = 1, mr_status = MacroRunning,
                    mr_cancel_requested = False\<rparr> in
        Inr (m, macro_dispatch_of m))"

definition macro_cancel :: "'c macro_run \<Rightarrow> macro_decision \<times> 'c macro_run" where
  "macro_cancel m =
     (if mr_status m = MacroRunning \<and> md_cancel_policy (mr_definition m) = FinishCurrentAttempt
      then (CancellationPending, m\<lparr>mr_cancel_requested := True\<rparr>)
      else case mr_status m of
          MacroRunning \<Rightarrow> (DecidedCancelled, m\<lparr>mr_status := MacroCancelled\<rparr>)
        | WaitingRetry _ \<Rightarrow> (DecidedCancelled, m\<lparr>mr_status := MacroCancelled\<rparr>)
        | _ \<Rightarrow> (DecidedCancelled, m))"

definition macro_complete :: "attempt_outcome \<Rightarrow> u64 \<Rightarrow> (macro_error, macro_decision, 'c macro_run) meth" where
  "macro_complete outcome now_ms m =
     (if mr_status m \<noteq> MacroRunning then (Inl MacroNotRunning, m)
      else if mr_cancel_requested m then (Inr DecidedCancelled, m\<lparr>mr_status := MacroCancelled\<rparr>)
      else case outcome of
          AttemptSucceeded \<Rightarrow> (Inr DecidedSucceeded, m\<lparr>mr_status := MacroSucceeded\<rparr>)
        | AttemptFailed retryable \<Rightarrow>
            if retryable \<and> mr_attempt m < rp_max_attempts (md_retry (mr_definition m))
            then (case checked_add now_ms (rp_delay_ms (md_retry (mr_definition m))) of
                    None \<Rightarrow> (Inl MacroTimestampOverflow, m)
                  | Some ready \<Rightarrow> (Inr (RetryAt ready), m\<lparr>mr_status := WaitingRetry ready\<rparr>))
            else (Inr DecidedFailed, m\<lparr>mr_status := MacroFailed\<rparr>))"

text \<open>The attempt counter is increased with \<open>+= 1\<close>, which panics when it overflows.\<close>

definition macro_retry :: "u64 \<Rightarrow> 'c macro_run \<Rightarrow> ((macro_error + 'c macro_dispatch) \<times> 'c macro_run) option" where
  "macro_retry now_ms m =
     (case mr_status m of
        WaitingRetry ready \<Rightarrow>
          if now_ms < ready then Some (Inl (MacroNotReady ready), m)
          else map_option (\<lambda>a. let m' = m\<lparr>mr_attempt := a, mr_status := MacroRunning\<rparr> in (Inr (macro_dispatch_of m'), m'))
                 (checked_add (mr_attempt m) 1)
      | _ \<Rightarrow> Some (Inl MacroNotRunning, m))"

section \<open>No command vanishes in the buffer\<close>

lemma bt_insert_values:
  "bt_sorted m \<Longrightarrow> mset (map snd (bt_insert k v m)) + (case map_of m k of None \<Rightarrow> {#} | Some x \<Rightarrow> {#x#})
     = add_mset v (mset (map snd m))"
proof (induction k v m rule: bt_insert.induct)
  case (2 k v k' v' m)
  have "map_of m k = None" if "k < k'" using that 2(2) by (force simp: map_of_eq_None_iff)
  with 2 show ?case by (auto split: option.splits)
qed simp

lemma bt_remove_values:
  "bt_sorted m \<Longrightarrow> mset (map snd (bt_remove k m)) + (case map_of m k of None \<Rightarrow> {#} | Some x \<Rightarrow> {#x#}) = mset (map snd m)"
proof (induction m)
  case (Cons p m)
  obtain k' v where p: "p = (k', v)" by fastforce
  have "bt_remove k m = m \<and> map_of m k = None" if "k' = k"
    using that Cons.prems p by (force simp: bt_remove_def map_of_eq_None_iff filter_id_conv)
  with Cons show ?case by (auto simp: p bt_remove_def split: option.splits)
qed (simp add: bt_remove_def)

text \<open>The calls on a buffer, and what went in, what was handed back as superseded and what was delivered.\<close>

datatype ('c, 's) buffer_call = DoPush 's "'c command_intent" | DoPopDiscrete | DoDrainDiscrete | DoDrainContinuous

record 'c buffer_log =
  bl_pushed :: "'c multiset"
  bl_superseded :: "'c multiset"
  bl_delivered :: "'c multiset"

fun option_mset :: "'c option \<Rightarrow> 'c multiset" where
  "option_mset None = {#}"
| "option_mset (Some c) = {#c#}"

fun buffer_do :: "('c, 's::linorder) buffer_call \<Rightarrow> 'c buffer_log \<times> ('c, 's) intent_buffer \<Rightarrow> 'c buffer_log \<times> ('c, 's) intent_buffer" where
  "buffer_do (DoPush scope i) (h, b) =
     (case buffer_push scope i b of (x, b') \<Rightarrow>
        (h\<lparr>bl_pushed := add_mset (into_command i) (bl_pushed h), bl_superseded := bl_superseded h + option_mset x\<rparr>, b'))"
| "buffer_do DoPopDiscrete (h, b) =
     (case pop_discrete b of (x, b') \<Rightarrow>
        (h\<lparr>bl_delivered := bl_delivered h + option_mset (map_option into_command x)\<rparr>, b'))"
| "buffer_do DoDrainDiscrete (h, b) =
     (case drain_discrete b of (xs, b') \<Rightarrow> (h\<lparr>bl_delivered := bl_delivered h + mset (map into_command xs)\<rparr>, b'))"
| "buffer_do DoDrainContinuous (h, b) =
     (case drain_continuous b of (xs, b') \<Rightarrow> (h\<lparr>bl_delivered := bl_delivered h + mset (map into_command xs)\<rparr>, b'))"

definition buffer_run :: "('c, 's::linorder) buffer_call list \<Rightarrow> 'c buffer_log \<times> ('c, 's) intent_buffer" where
  "buffer_run calls = fold buffer_do calls (\<lparr>bl_pushed = {#}, bl_superseded = {#}, bl_delivered = {#}\<rparr>, intent_buffer_default)"

definition buffer_waiting :: "('c, 's) intent_buffer \<Rightarrow> 'c multiset" where
  "buffer_waiting b = mset (map into_command (ib_discrete b)) + mset (map snd (ib_continuous b))"

text \<open>The value of a stream that a client expects to be pending: the newest since the last commit or drain.\<close>

fun newest :: "'s \<times> string \<Rightarrow> ('c, 's) buffer_call \<Rightarrow> 'c option \<Rightarrow> 'c option" where
  "newest k (DoPush scope (Continuous stream c)) v = (if (scope, stream) = k then Some c else v)"
| "newest k (DoPush scope (CommitContinuous stream c)) v = (if (scope, stream) = k then None else v)"
| "newest k DoDrainContinuous v = None"
| "newest k _ v = v"

definition buffer_inv :: "'c buffer_log \<times> ('c, 's::linorder) intent_buffer \<Rightarrow> bool" where
  "buffer_inv = (\<lambda>(h, b). bt_sorted (ib_continuous b)
     \<and> bl_pushed h = bl_superseded h + bl_delivered h + buffer_waiting b)"

lemma option_mset_case: "option_mset x = (case x of None \<Rightarrow> {#} | Some c \<Rightarrow> {#c#})"
  by (cases x) simp_all

lemma drained_commands:
  "image_mset into_command (image_mset (\<lambda>((_, stream), c). Continuous stream c) M) = image_mset snd M"
  by (induction M) auto

lemma buffer_do_inv:
  assumes "buffer_inv s"
  shows "buffer_inv (buffer_do c s)" "map_of (ib_continuous (snd (buffer_do c s))) k = newest k c (map_of (ib_continuous (snd s)) k)"
proof -
  obtain h b where s: "s = (h, b)" by fastforce
  have inv: "bt_sorted (ib_continuous b)" "bl_pushed h = bl_superseded h + bl_delivered h + buffer_waiting b"
    using assms by (auto simp: s buffer_inv_def)
  have "buffer_inv (buffer_do c s) \<and> map_of (ib_continuous (snd (buffer_do c s))) k = newest k c (map_of (ib_continuous b) k)"
  proof (cases c)
    case (DoPush scope i)
    then show ?thesis
      using inv bt_insert_values [OF inv(1)] bt_remove_values [OF inv(1), symmetric]
      by (cases i) (simp_all add: s buffer_inv_def buffer_waiting_def btree_simps option_mset_case ac_simps)
  next
    case DoPopDiscrete
    then show ?thesis using inv
      by (auto simp: s buffer_inv_def buffer_waiting_def pop_discrete_def split: list.splits)
  qed (use inv in \<open>auto simp: s buffer_inv_def buffer_waiting_def drain_discrete_def drain_continuous_def drained_commands\<close>)
  then show "buffer_inv (buffer_do c s)" "map_of (ib_continuous (snd (buffer_do c s))) k = newest k c (map_of (ib_continuous (snd s)) k)"
    by (simp_all add: s)
qed

lemma buffer_run_inv:
  assumes "buffer_inv s"
  shows "buffer_inv (fold buffer_do cs s)
    \<and> map_of (ib_continuous (snd (fold buffer_do cs s))) k = fold (newest k) cs (map_of (ib_continuous (snd s)) k)"
  using assms by (induction cs arbitrary: s) (simp_all add: buffer_do_inv)

text \<open>coalescing loses no command silently. After any calls on an intent buffer, the commands that were pushed are
  exactly those handed back as superseded, those delivered and those that still wait; and the value
  that waits for a stream of a scope is the newest one since its last commit or drain.
\<close>
theorem intents_never_vanish:
  "bl_pushed (fst (buffer_run cs)) = bl_superseded (fst (buffer_run cs)) + bl_delivered (fst (buffer_run cs))
      + buffer_waiting (snd (buffer_run cs))
   \<and> map_of (ib_continuous (snd (buffer_run cs))) k = fold (newest k) cs None"
proof -
  have "buffer_inv (\<lparr>bl_pushed = {#}, bl_superseded = {#}, bl_delivered = {#}\<rparr>, intent_buffer_default)"
    by (simp add: buffer_inv_def buffer_waiting_def intent_buffer_default_def)
  from buffer_run_inv [OF this, of cs k] show ?thesis
    by (auto simp: buffer_run_def buffer_inv_def intent_buffer_default_def split_beta)
qed

section \<open>Shortcuts are unambiguous\<close>

lemma starts_with_prefix: "starts_with xs ys \<longleftrightarrow> prefix ys xs"
  by (metis append_eq_conv_conj prefix_def starts_with_def take_is_prefix)

lemma chord_conflict_None: "chord_conflict c d = None \<longleftrightarrow> \<not> prefix c d \<and> \<not> prefix d c"
  by (auto simp: chord_conflict_def starts_with_prefix)

lemma overlaps_sym: "overlaps s t \<longleftrightarrow> overlaps t s"
  by (auto simp: overlaps_def split: shortcut_scope.splits)

definition separate :: "'c shortcut \<Rightarrow> 'c shortcut \<Rightarrow> bool" where
  "separate s t \<longleftrightarrow> sc_id s \<noteq> sc_id t
     \<and> (overlaps (sc_scope s) (sc_scope t) \<longrightarrow> \<not> prefix (sc_chord s) (sc_chord t) \<and> \<not> prefix (sc_chord t) (sc_chord s))"

lemma shortcut_conflicts_Nil:
  "shortcut_conflicts r s = [] \<longleftrightarrow> (\<forall>t \<in> set r. overlaps (sc_scope t) (sc_scope s) \<longrightarrow>
     \<not> prefix (sc_chord t) (sc_chord s) \<and> \<not> prefix (sc_chord s) (sc_chord t))"
  by (auto simp: shortcut_conflicts_def map_filter_Nil chord_conflict_None)

lemma shortcut_insert_separate:
  assumes "sorted_wrt separate r"
  shows "sorted_wrt separate (snd (shortcut_insert s r))"
  using assms
  by (auto simp: shortcut_insert_def Let_def sorted_wrt_append separate_def list_ex_iff shortcut_conflicts_Nil)

lemma shortcut_remove_set: "set (snd (shortcut_remove i r)) \<subseteq> set r"
  by (induction r) (auto split: prod.splits)

lemma shortcut_remove_separate: "sorted_wrt separate r \<Longrightarrow> sorted_wrt separate (snd (shortcut_remove i r))"
proof (induction r)
  case (Cons s r)
  then show ?case using shortcut_remove_set [of i r] by (auto split: prod.splits)
qed simp

inductive registry_reachable :: "'c shortcut_registry \<Rightarrow> bool" where
  registry_empty: "registry_reachable []"
| registry_insert: "registry_reachable r \<Longrightarrow> registry_reachable (snd (shortcut_insert s r))"
| registry_remove: "registry_reachable r \<Longrightarrow> registry_reachable (snd (shortcut_remove i r))"

lemma registry_separate: "registry_reachable r \<Longrightarrow> sorted_wrt separate r"
  by (induction rule: registry_reachable.induct) (auto intro: shortcut_insert_separate shortcut_remove_separate)

lemma separate_sym: "separate s t \<Longrightarrow> separate t s"
  using overlaps_sym by (auto simp: separate_def)

lemma sorted_wrt_sym:
  assumes "sorted_wrt R xs" "x \<in> set xs" "y \<in> set xs" "x \<noteq> y" "\<And>x y. R x y \<Longrightarrow> R y x"
  shows "R x y"
  using assms(1-4) by (induction xs) (auto intro: assms(5))

definition applies :: "string option \<Rightarrow> shortcut_scope \<Rightarrow> bool" where
  "applies scope s \<longleftrightarrow> s = GlobalScope \<or> (\<exists>l. scope = Some l \<and> s = LocalScope l)"

lemma applies_overlaps: "applies scope s \<Longrightarrow> applies scope t \<Longrightarrow> overlaps s t"
  by (auto simp: applies_def overlaps_def)

lemma resolve_found:
  "shortcut_resolve r scope c = Some s \<Longrightarrow> s \<in> set r \<and> sc_chord s = c \<and> applies scope (sc_scope s)"
  by (auto simp: shortcut_resolve_def applies_def Let_def find_Some_iff split: option.splits)

lemma resolve_missing:
  "shortcut_resolve r scope c = None \<Longrightarrow> s \<in> set r \<Longrightarrow> sc_chord s = c \<Longrightarrow> \<not> applies scope (sc_scope s)"
  by (auto simp: shortcut_resolve_def applies_def Let_def find_None_iff split: option.splits)

text \<open>shortcuts resolve unambiguously. In every registry that insertions and removals can build, a chord resolves to a
  binding exactly when that binding has the chord and applies in the scope, whatever the order of the
  registry; and no chord is a prefix of another one that can be active at the same time, so that a
  binding is never shadowed by a longer one.
\<close>
theorem shortcut_resolution_unambiguous:
  assumes "registry_reachable r"
  shows "(shortcut_resolve r scope c = Some s \<longleftrightarrow> s \<in> set r \<and> sc_chord s = c \<and> applies scope (sc_scope s))
    \<and> (\<forall>t \<in> set r. \<forall>u \<in> set r. applies scope (sc_scope t) \<and> applies scope (sc_scope u) \<and> prefix (sc_chord t) (sc_chord u) \<longrightarrow> t = u)"
proof -
  have sep: "separate t u" if "t \<in> set r" "u \<in> set r" "t \<noteq> u" for t u
    using sorted_wrt_sym [OF registry_separate [OF assms] that separate_sym] .
  have unique: "t = u" if "t \<in> set r" "u \<in> set r" "applies scope (sc_scope t)" "applies scope (sc_scope u)" "prefix (sc_chord t) (sc_chord u)" for t u
    using sep [OF that(1,2)] applies_overlaps [OF that(3,4)] that(5) by (auto simp: separate_def)
  have "shortcut_resolve r scope c = Some s" if s: "s \<in> set r" "sc_chord s = c" "applies scope (sc_scope s)"
  proof (cases "shortcut_resolve r scope c")
    case None
    then show ?thesis using resolve_missing s by blast
  next
    case (Some t)
    from resolve_found [OF this] s unique [of t s] show ?thesis using Some by auto
  qed
  then show ?thesis using resolve_found [of r scope c s] unique by blast
qed

section \<open>Macro runs\<close>

lemma digits_inject: "digits m = digits n \<longleftrightarrow> m = n"
proof
  assume "digits m = digits n"
  then have "map of_char (map char_of (decimal m)) = (map of_char (map char_of (decimal n)) :: nat list)"
    by (simp add: digits_def)
  then show "m = n" using decimal_value decimal_chars by metis
qed simp

definition attempt_key :: "'c macro_run \<Rightarrow> nat \<Rightarrow> string" where
  "attempt_key m a = md_id (mr_definition m) @ '':'' @ mr_run_id m @ '':'' @ digits a"

inductive macro_trace :: "'c macro_run \<Rightarrow> 'c macro_dispatch list \<Rightarrow> bool" where
  trace_start: "macro_new i intents conds retry policy = Inr d \<Longrightarrow> macro_start d run_id ctx = Inr (m, x) \<Longrightarrow> macro_trace m [x]"
| trace_complete: "macro_trace m xs \<Longrightarrow> macro_trace (snd (macro_complete outcome now m)) xs"
| trace_cancel: "macro_trace m xs \<Longrightarrow> macro_trace (snd (macro_cancel m)) xs"
| trace_retry: "macro_trace m xs \<Longrightarrow> macro_retry now m = Some (Inr x, m') \<Longrightarrow> macro_trace m' (xs @ [x])"
| trace_refused: "macro_trace m xs \<Longrightarrow> macro_retry now m = Some (Inl e, m') \<Longrightarrow> macro_trace m' xs"

definition macro_inv :: "'c macro_run \<Rightarrow> 'c macro_dispatch list \<Rightarrow> bool" where
  "macro_inv m xs \<longleftrightarrow> map (\<lambda>x. unat (mx_attempt x)) xs = [1..<Suc (unat (mr_attempt m))]
     \<and> map (env_key \<circ> mx_envelope) xs = map (attempt_key m) [1..<Suc (unat (mr_attempt m))]
     \<and> mr_attempt m \<le> rp_max_attempts (md_retry (mr_definition m))
     \<and> (\<forall>r. mr_status m = WaitingRetry r \<longrightarrow> mr_attempt m < rp_max_attempts (md_retry (mr_definition m)))"

lemma macro_same:
  "mr_definition (snd (macro_complete outcome now m)) = mr_definition m" "mr_run_id (snd (macro_complete outcome now m)) = mr_run_id m"
  "mr_attempt (snd (macro_complete outcome now m)) = mr_attempt m"
  "mr_definition (snd (macro_cancel m)) = mr_definition m" "mr_run_id (snd (macro_cancel m)) = mr_run_id m"
  "mr_attempt (snd (macro_cancel m)) = mr_attempt m"
  by (auto simp: macro_complete_def macro_cancel_def split: attempt_outcome.splits option.splits macro_status.splits)

lemma complete_waits:
  "mr_status (snd (macro_complete outcome now m)) = WaitingRetry r \<Longrightarrow>
   mr_status m = WaitingRetry r \<or> mr_attempt m < rp_max_attempts (md_retry (mr_definition m))"
  by (auto simp: macro_complete_def split: attempt_outcome.splits option.splits if_splits)

lemma cancel_waits: "mr_status (snd (macro_cancel m)) = WaitingRetry r \<Longrightarrow> mr_status m = WaitingRetry r"
  by (auto simp: macro_cancel_def split: macro_status.splits if_splits)

lemma attempt_key_cong:
  "mr_definition m' = mr_definition m \<Longrightarrow> mr_run_id m' = mr_run_id m \<Longrightarrow> attempt_key m' = attempt_key m"
  by (simp add: attempt_key_def fun_eq_iff)

lemma macro_retry_cases:
  assumes inv: "macro_inv m xs"
  obtains (refused) e where "macro_retry now m = Some (Inl e, m)"
  | (again) x m' where "macro_retry now m = Some (Inr x, m')" "macro_inv m' (xs @ [x])"
proof (cases "\<exists>r. mr_status m = WaitingRetry r \<and> r \<le> now")
  case True
  then obtain r where r: "mr_status m = WaitingRetry r" "r \<le> now" by blast
  then have less: "mr_attempt m < rp_max_attempts (md_retry (mr_definition m))" using inv by (auto simp: macro_inv_def)
  then have "unat (mr_attempt m) + unat (1 :: u16) < 2 ^ LENGTH(16)"
    using unat_lt2p_any [of "rp_max_attempts (md_retry (mr_definition m))"] by (simp add: word_less_unat)
  then obtain a where a: "checked_add (mr_attempt m) 1 = Some a" "unat a = Suc (unat (mr_attempt m))"
    by (cases "checked_add (mr_attempt m) 1") (auto simp: checked_simps)
  define m' where "m' = m\<lparr>mr_attempt := a, mr_status := MacroRunning\<rparr>"
  have "attempt_key m' = attempt_key m" by (rule attempt_key_cong) (simp_all add: m'_def)
  then have "macro_inv m' (xs @ [macro_dispatch_of m'])"
    using inv a less
    by (simp add: macro_inv_def m'_def macro_dispatch_of_def dispatch_id_def envelope_new_def word_less_unat) (simp add: attempt_key_def)
  moreover have "macro_retry now m = Some (Inr (macro_dispatch_of m'), m')"
    using r a by (auto simp: macro_retry_def m'_def Let_def)
  ultimately show thesis by (rule again [rotated])
next
  case False
  then have "\<exists>e. macro_retry now m = Some (Inl e, m)" by (auto simp: macro_retry_def not_le split: macro_status.splits)
  then show thesis using refused by blast
qed

lemma macro_trace_inv: "macro_trace m xs \<Longrightarrow> macro_inv m xs"
proof (induction rule: macro_trace.induct)
  case (trace_start i intents conds retry policy d run_id ctx m x)
  then have "rp_max_attempts (md_retry d) \<noteq> 0" by (auto simp: macro_new_def split: if_splits sum.splits)
  then have "0 < unat (rp_max_attempts (md_retry d))" by (simp add: unat_gt_0)
  with trace_start(2) show ?case
    by (auto simp: macro_start_def Let_def macro_inv_def macro_dispatch_of_def dispatch_id_def attempt_key_def envelope_new_def
        word_less_unat split: if_splits)
next
  case (trace_complete m xs outcome now)
  then show ?case using complete_waits [of outcome now m] attempt_key_cong [of "snd (macro_complete outcome now m)" m]
    by (auto simp: macro_inv_def macro_same)
next
  case (trace_cancel m xs)
  then show ?case using cancel_waits [of m] attempt_key_cong [of "snd (macro_cancel m)" m]
    by (auto simp: macro_inv_def macro_same)
next
  case (trace_retry m xs now x m')
  show ?case by (rule macro_retry_cases [OF trace_retry.IH, of now]) (use trace_retry(2) in auto)
next
  case (trace_refused m xs now e m')
  show ?case by (rule macro_retry_cases [OF trace_refused.IH, of now]) (use trace_refused in auto)
qed

definition macro_over :: "'c macro_run \<Rightarrow> bool" where
  "macro_over m \<longleftrightarrow> mr_status m \<in> {MacroSucceeded, MacroFailed, MacroCancelled}"

text \<open>C31: macros retry within their bound. In every run of a macro the attempts are dispatched in order from the first one, at
  most as many as the policy allows, each under an idempotency key of its own; asking for a retry never
  panics; and a macro that succeeded, failed or was cancelled stays so and dispatches nothing more.
\<close>
theorem macro_attempts_bounded:
  assumes "macro_trace m xs"
  shows "map (\<lambda>x. unat (mx_attempt x)) xs = [1..<Suc (length xs)]
    \<and> length xs \<le> unat (rp_max_attempts (md_retry (mr_definition m)))
    \<and> distinct (map (env_key \<circ> mx_envelope) xs)
    \<and> (\<forall>now. macro_retry now m \<noteq> None)
    \<and> (macro_over m \<longrightarrow> (\<forall>outcome now. macro_complete outcome now m = (Inl MacroNotRunning, m)
         \<and> macro_retry now m = Some (Inl MacroNotRunning, m) \<and> snd (macro_cancel m) = m))"
proof -
  note inv = macro_trace_inv [OF assms]
  have "map (\<lambda>x. unat (mx_attempt x)) xs = [1..<Suc (unat (mr_attempt m))]" using inv by (simp only: macro_inv_def)
  from arg_cong [OF this, of length] have n: "length xs = unat (mr_attempt m)" by (simp del: upt_Suc)
  have "distinct (map (attempt_key m) [1..<Suc (unat (mr_attempt m))])"
    by (simp add: distinct_map inj_on_def attempt_key_def digits_inject)
  moreover have "macro_retry now m \<noteq> None" for now
    by (rule macro_retry_cases [OF inv, of now]) auto
  moreover have "macro_complete outcome now m = (Inl MacroNotRunning, m)
      \<and> macro_retry now m = Some (Inl MacroNotRunning, m) \<and> snd (macro_cancel m) = m" if "macro_over m" for outcome now
    using that by (auto simp: macro_over_def macro_complete_def macro_retry_def macro_cancel_def)
  ultimately show ?thesis using inv n by (simp add: macro_inv_def word_less_unat del: upt_Suc)
qed

section \<open>Examples\<close>

definition demo_chord :: chord where "demo_chord = [\<lparr>ks_key = ''F1'', ks_modifiers = MOD_CONTROL\<rparr>]"

definition demo_shortcut :: "nat shortcut" where
  "demo_shortcut = \<lparr>sc_id = ''cut'', sc_scope = LocalScope ''mixer'', sc_chord = demo_chord, sc_intent = Discrete 1\<rparr>"

theorem shortcut_resolution_unambiguous_witness:
  "registry_reachable [demo_shortcut] \<and> shortcut_resolve [demo_shortcut] (Some ''mixer'') demo_chord = Some demo_shortcut"
proof -
  have "registry_reachable (snd (shortcut_insert demo_shortcut []))" by (intro registry_reachable.intros)
  then have r: "registry_reachable [demo_shortcut]" by (simp add: shortcut_insert_def shortcut_conflicts_def List.map_filter_def Let_def)
  then show ?thesis
    using shortcut_resolution_unambiguous [OF r, of "Some ''mixer''" demo_chord demo_shortcut]
    by (auto simp: demo_shortcut_def applies_def)
qed

definition demo_macro :: "nat macro_definition" where
  "demo_macro = \<lparr>md_id = ''intro'', md_intents = [Discrete 1], md_conditions = [],
     md_retry = \<lparr>rp_max_attempts = 2, rp_delay_ms = 100\<rparr>, md_cancel_policy = CancelImmediate\<rparr>"

definition demo_macro_run :: "nat macro_run" where
  "demo_macro_run = \<lparr>mr_definition = demo_macro, mr_run_id = ''r1'', mr_attempt = 1, mr_status = WaitingRetry 150, mr_cancel_requested = False\<rparr>"

definition demo_macro_retried :: "nat macro_run" where
  "demo_macro_retried = demo_macro_run\<lparr>mr_attempt := 2, mr_status := MacroRunning\<rparr>"

lemma demo_macro_trace:
  "\<exists>x y. macro_trace demo_macro_retried [x, y]"
proof -
  let ?m = "demo_macro_run\<lparr>mr_status := MacroRunning\<rparr>"
  have new: "macro_new ''intro'' [Discrete 1] [] \<lparr>rp_max_attempts = 2, rp_delay_ms = 100\<rparr> CancelImmediate = Inr demo_macro"
    by (simp add: macro_new_def transaction_new_def demo_macro_def MAX_TRANSACTION_COMMANDS_def)
  have "macro_start demo_macro ''r1'' [] = Inr (?m, macro_dispatch_of ?m)"
    by (simp add: macro_start_def conditions_match_def demo_macro_def demo_macro_run_def Let_def)
  from trace_start [OF new this] have "macro_trace ?m [macro_dispatch_of ?m]" .
  from trace_complete [OF this, of "AttemptFailed True" 50] have tr: "macro_trace demo_macro_run [macro_dispatch_of ?m]"
    by (simp add: macro_complete_def demo_macro_run_def demo_macro_def checked_add_def)
  have "macro_retry 150 demo_macro_run = Some (Inr (macro_dispatch_of demo_macro_retried), demo_macro_retried)"
    by (simp add: macro_retry_def demo_macro_run_def demo_macro_retried_def checked_add_def Let_def)
  from trace_retry [OF tr this] show ?thesis by auto
qed

theorem macro_attempts_bounded_witness:
  "\<exists>x y. macro_trace demo_macro_retried [x, y] \<and> [unat (mx_attempt x), unat (mx_attempt y)] = [1, 2]
     \<and> env_key (mx_envelope x) \<noteq> env_key (mx_envelope y)"
proof -
  obtain x y where xy: "macro_trace demo_macro_retried [x, y]" using demo_macro_trace by blast
  from macro_attempts_bounded [OF this] have "[unat (mx_attempt x), unat (mx_attempt y)] = [1, 2]"
    "env_key (mx_envelope x) \<noteq> env_key (mx_envelope y)" by (simp_all add: upt_rec)
  with xy show ?thesis by blast
qed

end
