(* ===== verification/Schedules.thy ===== *)
theory Schedules
  imports Automation Scheduler_Queues
begin

text \<open>
  The schedules of \<open>crates/features/fm-automation\<close> (\<open>schedule.rs\<close>): one-shot timers and repeating
  schedules over the action queue of the frame scheduler, with milliseconds in place of frame numbers.
  A \<open>HashMap\<close> that is only looked up is a partial function.
\<close>

section \<open>Schedules\<close>

type_synonym schedule_id = string

datatype schedule_kind = Once | Every u64

record 'c scheduled_intent =
  si_id :: schedule_id
  si_kind :: schedule_kind
  si_intent :: "'c command_intent"

record 'c schedule_fire =
  sf_id :: schedule_id
  sf_occurrence_ms :: u64
  sf_observed_at_ms :: u64
  sf_missed_occurrences :: u64
  sf_intent :: "'c command_intent"

datatype schedule_error =
    DuplicateSchedule schedule_id | UnknownSchedule schedule_id | ZeroInterval | ScheduleOverflow
  | ScheduleQueue action_error

record 'c schedule_set =
  ss_queue :: "'c scheduled_intent action_queue"
  ss_actions :: "schedule_id \<rightharpoonup> action_id"

definition schedule_set_default :: "'c schedule_set" where
  "schedule_set_default = \<lparr>ss_queue = action_queue_default, ss_actions = Map.empty\<rparr>"

definition schedule_at ::
  "schedule_id \<Rightarrow> u64 \<Rightarrow> schedule_kind \<Rightarrow> 'c command_intent \<Rightarrow> (schedule_error, unit, 'c schedule_set) meth" where
  "schedule_at i at_ms kind intent s =
     (if ss_actions s i \<noteq> None then (Inl (DuplicateSchedule i), s)
      else if kind = Every 0 then (Inl ZeroInterval, s)
      else case schedule_action at_ms \<lparr>si_id = i, si_kind = kind, si_intent = intent\<rparr> (ss_queue s) of
          (Inl e, q) \<Rightarrow> (Inl (ScheduleQueue e), s\<lparr>ss_queue := q\<rparr>)
        | (Inr a, q) \<Rightarrow> (Inr (), s\<lparr>ss_queue := q, ss_actions := (ss_actions s)(i \<mapsto> a)\<rparr>))"

definition start_timer ::
  "schedule_id \<Rightarrow> u64 \<Rightarrow> u64 \<Rightarrow> 'c command_intent \<Rightarrow> (schedule_error, unit, 'c schedule_set) meth" where
  "start_timer i now_ms delay_ms intent s =
     (case checked_add now_ms delay_ms of
        None \<Rightarrow> (Inl ScheduleOverflow, s)
      | Some at_ms \<Rightarrow> schedule_at i at_ms Once intent s)"

definition schedule_cancel :: "schedule_id \<Rightarrow> 'c schedule_set \<Rightarrow> 'c command_intent option \<times> 'c schedule_set" where
  "schedule_cancel i s =
     (case ss_actions s i of
        None \<Rightarrow> (None, s)
      | Some a \<Rightarrow>
          (case cancel_action a (ss_queue s) of (x, q) \<Rightarrow>
             (map_option (\<lambda>x. si_intent (sa_action x)) x,
              s\<lparr>ss_actions := (ss_actions s)(i := None), ss_queue := q\<rparr>)))"

text \<open>The number of missed occurrences and the next boundary of a repeating schedule.\<close>

definition next_occurrence :: "u64 \<Rightarrow> u64 \<Rightarrow> u64 \<Rightarrow> (u64 \<times> u64) option" where
  "next_occurrence interval occurrence elapsed =
     (if interval = 0 then None
      else Option.bind (checked_add (elapsed div interval) 1) (\<lambda>intervals.
        Option.bind (checked_mul intervals interval) (\<lambda>advance.
        map_option (\<lambda>nxt. (intervals - 1, nxt)) (checked_add occurrence advance))))"

definition fire_of :: "u64 \<Rightarrow> u64 \<Rightarrow> 'c scheduled_intent scheduled_action \<Rightarrow> 'c schedule_fire" where
  "fire_of now_ms missed x =
     \<lparr>sf_id = si_id (sa_action x), sf_occurrence_ms = sa_target_frame x, sf_observed_at_ms = now_ms,
      sf_missed_occurrences = missed, sf_intent = si_intent (sa_action x)\<rparr>"

text \<open>The loop of \<open>poll\<close>. The subtraction of the occurrence from the time of the poll panics below zero.\<close>

fun poll_due ::
  "u64 \<Rightarrow> 'c scheduled_intent scheduled_action list \<Rightarrow> 'c schedule_fire list \<Rightarrow> 'c schedule_set
   \<Rightarrow> ((schedule_error + 'c schedule_fire list) \<times> 'c schedule_set) option" where
  "poll_due now_ms [] fired s = Some (Inr fired, s)"
| "poll_due now_ms (x # due) fired s =
     (let i = si_id (sa_action x); s1 = s\<lparr>ss_actions := (ss_actions s)(i := None)\<rparr> in
      case si_kind (sa_action x) of
        Once \<Rightarrow> poll_due now_ms due (fired @ [fire_of now_ms 0 x]) s1
      | Every interval \<Rightarrow>
          (case checked_sub now_ms (sa_target_frame x) of
             None \<Rightarrow> None
           | Some elapsed \<Rightarrow>
               (case next_occurrence interval (sa_target_frame x) elapsed of
                  None \<Rightarrow> Some (Inl ScheduleOverflow, s1)
                | Some (missed, nxt) \<Rightarrow>
                    (case schedule_action nxt (sa_action x) (ss_queue s1) of
                       (Inl e, q) \<Rightarrow> Some (Inl (ScheduleQueue e), s1\<lparr>ss_queue := q\<rparr>)
                     | (Inr a, q) \<Rightarrow>
                         poll_due now_ms due (fired @ [fire_of now_ms missed x])
                           (s1\<lparr>ss_queue := q, ss_actions := (ss_actions s1)(i \<mapsto> a)\<rparr>)))))"

definition schedule_poll ::
  "u64 \<Rightarrow> 'c schedule_set \<Rightarrow> ((schedule_error + 'c schedule_fire list) \<times> 'c schedule_set) option" where
  "schedule_poll now_ms s =
     (case drain_due now_ms (ss_queue s) of (due, q) \<Rightarrow> poll_due now_ms due [] (s\<lparr>ss_queue := q\<rparr>))"

definition schedule_contains :: "schedule_id \<Rightarrow> 'c schedule_set \<Rightarrow> bool" where
  "schedule_contains i s \<longleftrightarrow> ss_actions s i \<noteq> None"

section \<open>Recurring schedules lose no boundary\<close>

text \<open>What waits under the name of a schedule, and for when.\<close>

definition pending_at :: "'c schedule_set \<Rightarrow> schedule_id \<Rightarrow> (u64 \<times> 'c scheduled_intent) option" where
  "pending_at s i = Option.bind (ss_actions s i) (queue_store (ss_queue s))"

text \<open>
  The names in \<open>D\<close> belong to entries that the loop of a poll has taken off the queue and not looked at
  yet. Every entry of the queue is listed under its own name, and every listed name outside \<open>D\<close> has an
  entry.
\<close>

definition sched_inv_except :: "schedule_id set \<Rightarrow> 'c schedule_set \<Rightarrow> bool" where
  "sched_inv_except D s \<longleftrightarrow> queue_inv (ss_queue s)
     \<and> (\<forall>a t e. queue_store (ss_queue s) a = Some (t, e) \<longrightarrow>
          ss_actions s (si_id e) = Some a \<and> si_kind e \<noteq> Every 0 \<and> si_id e \<notin> D)
     \<and> (\<forall>i a. ss_actions s i = Some a \<longrightarrow> i \<notin> D \<longrightarrow>
          (\<exists>t e. queue_store (ss_queue s) a = Some (t, e) \<and> si_id e = i))"

abbreviation sched_inv :: "'c schedule_set \<Rightarrow> bool" where
  "sched_inv \<equiv> sched_inv_except {}"

abbreviation entry_name :: "'c scheduled_intent scheduled_action \<Rightarrow> schedule_id" where
  "entry_name x \<equiv> si_id (sa_action x)"

lemma sched_inv_default: "sched_inv schedule_set_default"
  by (simp add: sched_inv_except_def schedule_set_default_def queue_inv_default queue_store_default)

lemma pending_at_iff:
  assumes "sched_inv_except D s" "i \<notin> D"
  shows "pending_at s i = Some (t, e) \<longleftrightarrow> (\<exists>a. queue_store (ss_queue s) a = Some (t, e)) \<and> si_id e = i"
  using assms unfolding sched_inv_except_def pending_at_def by (fastforce simp: bind_eq_Some_conv)

lemma sched_queue_inv: "sched_inv_except D s \<Longrightarrow> queue_inv (ss_queue s)"
  by (simp add: sched_inv_except_def)

text \<open>Adding an entry under a name that has none, and dropping one.\<close>

lemma sched_inv_add:
  assumes "sched_inv_except D s" "queue_inv q" "queue_store (ss_queue s) a = None"
    and "queue_store q = (queue_store (ss_queue s))(a \<mapsto> (t, e))"
    and "ss_actions s (si_id e) = None" "si_kind e \<noteq> Every 0" "si_id e \<notin> D"
  shows "sched_inv_except D (s\<lparr>ss_queue := q, ss_actions := (ss_actions s)(si_id e \<mapsto> a)\<rparr>)"
  using assms by (auto simp: sched_inv_except_def split: if_splits) (metis option.distinct(1))+

lemma pending_at_add:
  assumes "sched_inv_except D s" "queue_store (ss_queue s) a = None" "j \<notin> D"
    and "queue_store q = (queue_store (ss_queue s))(a \<mapsto> (t, e))"
  shows "pending_at (s\<lparr>ss_queue := q, ss_actions := (ss_actions s)(si_id e \<mapsto> a)\<rparr>) j
    = (if j = si_id e then Some (t, e) else pending_at s j)"
  using assms by (auto simp: pending_at_def sched_inv_except_def split: bind_splits) (metis option.distinct(1))

lemma sched_inv_drop:
  assumes "sched_inv_except (insert i D) s"
  shows "sched_inv_except D (s\<lparr>ss_actions := (ss_actions s)(i := None)\<rparr>)"
  using assms by (auto simp: sched_inv_except_def)



lemma schedule_at_inv:
  assumes "sched_inv s"
  shows "sched_inv (snd (schedule_at i t k c s))"
    and "fst (schedule_at i t k c s) = Inr () \<Longrightarrow>
      pending_at (snd (schedule_at i t k c s)) j
        = (if j = i then Some (t, \<lparr>si_id = i, si_kind = k, si_intent = c\<rparr>) else pending_at s j)"
proof -
  let ?e = "\<lparr>si_id = i, si_kind = k, si_intent = c\<rparr>"
  have "sched_inv (snd (schedule_at i t k c s)) \<and> (fst (schedule_at i t k c s) = Inr () \<longrightarrow>
      pending_at (snd (schedule_at i t k c s)) j = (if j = i then Some (t, ?e) else pending_at s j))"
  proof (cases "ss_actions s i \<noteq> None \<or> k = Every 0")
    case True
    then show ?thesis using assms by (auto simp: schedule_at_def)
  next
    case False
    show ?thesis
      using sched_queue_inv [OF assms]
    proof (cases rule: schedule_action_cases [of "ss_queue s" t ?e])
      case exhausted
      then show ?thesis using False assms by (simp add: schedule_at_def)
    next
      case (scheduled n q')
      then have "schedule_at i t k c s = (Inr (), s\<lparr>ss_queue := q', ss_actions := (ss_actions s)(i \<mapsto> n)\<rparr>)"
        using False by (simp add: schedule_at_def)
      then show ?thesis
        using sched_inv_add [OF assms scheduled(2-4)] pending_at_add [OF assms scheduled(3) _ scheduled(4), of j] False
        by simp
    qed
  qed
  then show "sched_inv (snd (schedule_at i t k c s))"
    and "fst (schedule_at i t k c s) = Inr () \<Longrightarrow>
      pending_at (snd (schedule_at i t k c s)) j = (if j = i then Some (t, ?e) else pending_at s j)" by simp_all
qed

lemma start_timer_inv: "sched_inv s \<Longrightarrow> sched_inv (snd (start_timer i now d c s))"
  by (simp add: start_timer_def schedule_at_inv split: option.split)

lemma sched_inv_remove:
  assumes "sched_inv_except D s" "queue_store (ss_queue s) a = Some (t, e)" "queue_inv q"
    and "queue_store q = (queue_store (ss_queue s))(a := None)"
  defines "s' \<equiv> s\<lparr>ss_actions := (ss_actions s)(si_id e := None), ss_queue := q\<rparr>"
  shows "sched_inv_except D s'" "j \<notin> D \<Longrightarrow> pending_at s' j = ((pending_at s)(si_id e := None)) j"
proof -
  have own: "ss_actions s (si_id e) = Some a"
    using assms(1,2) unfolding sched_inv_except_def by blast
  have other: "i = si_id e" if "ss_actions s i = Some a" "i \<notin> D" for i
    using assms(1,2) that unfolding sched_inv_except_def by fastforce
  have same: "b = a" if "queue_store (ss_queue s) b = Some (u, e')" "si_id e' = si_id e" for b u e'
    using assms(1) own that unfolding sched_inv_except_def by fastforce
  show "sched_inv_except D s'"
    unfolding sched_inv_except_def s'_def
  proof (intro conjI allI impI)
    fix b u e'
    assume "queue_store (ss_queue (s\<lparr>ss_actions := (ss_actions s)(si_id e := None), ss_queue := q\<rparr>)) b = Some (u, e')"
    then have "b \<noteq> a" "queue_store (ss_queue s) b = Some (u, e')" by (auto simp: assms(4) split: if_splits)
    with same show "ss_actions (s\<lparr>ss_actions := (ss_actions s)(si_id e := None), ss_queue := q\<rparr>) (si_id e') = Some b"
      and "si_kind e' \<noteq> Every 0" and "si_id e' \<notin> D"
      using assms(1) unfolding sched_inv_except_def by auto
  next
    fix i b
    assume "ss_actions (s\<lparr>ss_actions := (ss_actions s)(si_id e := None), ss_queue := q\<rparr>) i = Some b" "i \<notin> D"
    then have "i \<noteq> si_id e" "ss_actions s i = Some b" by (auto split: if_splits)
    with other [of i] \<open>i \<notin> D\<close>
    show "\<exists>u e'. queue_store (ss_queue (s\<lparr>ss_actions := (ss_actions s)(si_id e := None), ss_queue := q\<rparr>)) b = Some (u, e') \<and> si_id e' = i"
      using assms(1) unfolding sched_inv_except_def by (auto simp: assms(4))
  qed (use assms(3) in simp)
  show "pending_at s' j = ((pending_at s)(si_id e := None)) j" if "j \<notin> D"
    using other [of j] that by (auto simp: pending_at_def s'_def assms(4) split: bind_splits)
qed

lemma schedule_cancel_inv:
  assumes "sched_inv s"
  shows "sched_inv (snd (schedule_cancel i s))"
    and "pending_at (snd (schedule_cancel i s)) = (pending_at s)(i := None)"
    and "fst (schedule_cancel i s) = map_option (\<lambda>(t, e). si_intent e) (pending_at s i)"
proof -
  note q = queue_cancel [OF sched_queue_inv [OF assms]]
  have "sched_inv (snd (schedule_cancel i s)) \<and> pending_at (snd (schedule_cancel i s)) = (pending_at s)(i := None)
    \<and> fst (schedule_cancel i s) = map_option (\<lambda>(t, e). si_intent e) (pending_at s i)"
  proof (cases "ss_actions s i")
    case None
    then show ?thesis using assms by (auto simp: schedule_cancel_def pending_at_def)
  next
    case (Some a)
    then obtain t e where e: "queue_store (ss_queue s) a = Some (t, e)" "si_id e = i"
      using assms unfolding sched_inv_except_def by blast
    have "schedule_cancel i s = (Some (si_intent e),
        s\<lparr>ss_actions := (ss_actions s)(i := None), ss_queue := snd (cancel_action a (ss_queue s))\<rparr>)"
      using Some q(4) [of a] e by (auto simp: schedule_cancel_def split: prod.splits)
    moreover have "pending_at s i = Some (t, e)" using Some e by (simp add: pending_at_def)
    ultimately show ?thesis
      using sched_inv_remove [OF assms e(1) q(1,2) [of a]] e(2) by (simp add: fun_eq_iff)
  qed
  then show "sched_inv (snd (schedule_cancel i s))"
    and "pending_at (snd (schedule_cancel i s)) = (pending_at s)(i := None)"
    and "fst (schedule_cancel i s) = map_option (\<lambda>(t, e). si_intent e) (pending_at s i)" by simp_all
qed

lemma next_occurrence_Some:
  assumes "next_occurrence n t elapsed = Some (missed, nxt)"
  shows "unat n \<noteq> 0" "unat missed = unat elapsed div unat n" "unat nxt = unat t + Suc (unat missed) * unat n"
proof -
  have n: "n \<noteq> 0" using assms by (auto simp: next_occurrence_def)
  then obtain m adv where m: "checked_add (elapsed div n) 1 = Some m" and adv: "checked_mul m n = Some adv"
    and nxt: "checked_add t adv = Some nxt" and missed: "missed = m - 1"
    using assms by (auto simp: next_occurrence_def bind_eq_Some_conv)
  note m = m [unfolded checked_simps] and adv = adv [unfolded checked_simps] and nxt = nxt [unfolded checked_simps]
  have "1 \<le> m" using m by (simp add: word_le_nat_alt)
  then have "unat missed = unat m - 1" unfolding missed by (simp add: unat_sub)
  then show "unat missed = unat elapsed div unat n" using m by (simp add: unat_div_distrib)
  show "unat n \<noteq> 0" using n by (simp add: unat_eq_0)
  show "unat nxt = unat t + Suc (unat missed) * unat n"
    using \<open>unat missed = unat m - 1\<close> m adv nxt by simp
qed

text \<open>What a poll does to one due entry: the occurrences it missed, and what waits under its name afterwards.\<close>

definition missed_of :: "u64 \<Rightarrow> 'c scheduled_intent scheduled_action \<Rightarrow> u64" where
  "missed_of now x = (case si_kind (sa_action x) of Once \<Rightarrow> 0 | Every n \<Rightarrow> (now - sa_target_frame x) div n)"

fun after_poll ::
  "u64 \<Rightarrow> 'c scheduled_intent scheduled_action \<Rightarrow> (u64 \<times> 'c scheduled_intent) option \<Rightarrow> bool" where
  "after_poll now x None \<longleftrightarrow> si_kind (sa_action x) = Once"
| "after_poll now x (Some (nxt, e)) \<longleftrightarrow> e = sa_action x \<and>
     (case si_kind e of
        Once \<Rightarrow> False
      | Every n \<Rightarrow> unat n \<noteq> 0 \<and> unat nxt = unat (sa_target_frame x) + Suc (unat (missed_of now x)) * unat n)"

lemma poll_due_returns:
  "\<forall>x \<in> set due. sa_target_frame x \<le> now \<Longrightarrow> \<exists>r. poll_due now due fired s = Some r"
proof (induction due arbitrary: fired s)
  case (Cons x due)
  obtain elapsed where e: "checked_sub now (sa_target_frame x) = Some elapsed"
    using Cons.prems by (simp add: checked_sub_def)
  show ?case using Cons.IH Cons.prems
    by (auto simp: Let_def e split: schedule_kind.split option.split prod.split sum.split)
qed simp

lemma poll_due_effect:
  assumes "poll_due now due fired s = Some (Inr fs, s')" "sched_inv_except (entry_name ` set due) s"
    and "distinct (map entry_name due)"
  shows "sched_inv s' \<and> fs = fired @ map (\<lambda>x. fire_of now (missed_of now x) x) due
    \<and> (\<forall>j. j \<notin> entry_name ` set due \<longrightarrow> pending_at s' j = pending_at s j)
    \<and> (\<forall>x \<in> set due. after_poll now x (pending_at s' (entry_name x)))"
  using assms
proof (induction due arbitrary: fired s)
  case (Cons x due)
  let ?D = "entry_name ` set due" and ?i = "entry_name x"
  define s1 where "s1 = s\<lparr>ss_actions := (ss_actions s)(?i := None)\<rparr>"
  have inv1: "sched_inv_except ?D s1" using sched_inv_drop [of ?i ?D s] Cons.prems(2) by (simp add: s1_def)
  have i: "?i \<notin> ?D" and due: "distinct (map entry_name due)" using Cons.prems(3) by auto
  have at1: "pending_at s1 j = (if j = ?i then None else pending_at s j)" for j
    by (simp add: s1_def pending_at_def)
  show ?case
  proof (cases "si_kind (sa_action x)")
    case Once
    then have "poll_due now due (fired @ [fire_of now 0 x]) s1 = Some (Inr fs, s')"
      using Cons.prems(1) by (simp add: Let_def s1_def)
    from Cons.IH [OF this inv1 due] show ?thesis using i at1 Once by (auto simp: missed_of_def)
  next
    case (Every n)
    then obtain elapsed missed nxt a q where
      sub: "checked_sub now (sa_target_frame x) = Some elapsed"
      and nx: "next_occurrence n (sa_target_frame x) elapsed = Some (missed, nxt)"
      and sch: "schedule_action nxt (sa_action x) (ss_queue s1) = (Inr a, q)"
      and rest: "poll_due now due (fired @ [fire_of now missed x])
        (s1\<lparr>ss_queue := q, ss_actions := (ss_actions s1)(?i \<mapsto> a)\<rparr>) = Some (Inr fs, s')"
      using Cons.prems(1) by (auto simp: Let_def s1_def split: option.splits prod.splits sum.splits)
    have missed: "missed = missed_of now x"
    proof -
      have "elapsed = now - sa_target_frame x" using sub by (auto simp: checked_sub_def split: if_splits)
      then have "unat missed = unat (missed_of now x)"
        using next_occurrence_Some(2) [OF nx] Every by (simp add: missed_of_def unat_div_distrib)
      then show ?thesis by (rule unsigned_word_eqI)
    qed
    obtain st: "queue_inv q" "queue_store (ss_queue s1) a = None"
      "queue_store q = (queue_store (ss_queue s1))(a \<mapsto> (nxt, sa_action x))"
      using queue_schedule [OF sched_queue_inv [OF inv1], of nxt "sa_action x"] sch by auto
    have kind: "si_kind (sa_action x) \<noteq> Every 0" using next_occurrence_Some(1) [OF nx] Every by auto
    have none: "ss_actions s1 ?i = None" by (simp add: s1_def)
    note IH = Cons.IH [OF rest sched_inv_add [OF inv1 st(1,2,3) none kind i] due]
    have at2: "pending_at s' ?i = Some (nxt, sa_action x)"
      using IH i pending_at_add [OF inv1 st(2) i st(3)] by simp
    have "pending_at s' j = pending_at s j" if "j \<notin> ?D" "j \<noteq> ?i" for j
      using IH that pending_at_add [OF inv1 st(2) that(1) st(3)] at1 by simp
    moreover have "after_poll now x (pending_at s' ?i)"
      using next_occurrence_Some [OF nx] by (simp add: at2 Every missed)
    ultimately show ?thesis using IH by (simp add: missed)
  qed
qed simp

lemma schedule_poll_drains:
  fixes now
  assumes "sched_inv s"
  defines "due \<equiv> fst (drain_due now (ss_queue s))" and "s0 \<equiv> s\<lparr>ss_queue := snd (drain_due now (ss_queue s))\<rparr>"
  shows "schedule_poll now s = poll_due now due [] s0"
    and "set due = due_actions (queue_store (ss_queue s)) now"
    and "distinct (map entry_name due)" "sched_inv_except (entry_name ` set due) s0"
    and "\<And>j. j \<notin> entry_name ` set due \<Longrightarrow> pending_at s0 j = pending_at s j"
proof -
  note q = queue_drain [OF sched_queue_inv [OF assms(1)], of now]
  show "schedule_poll now s = poll_due now due [] s0"
    by (simp add: schedule_poll_def due_def s0_def split_beta)
  show due: "set due = due_actions (queue_store (ss_queue s)) now" using q(4) by (simp add: due_def)
  have listed: "ss_actions s (entry_name x) = Some (sa_id x)" if "x \<in> set due" for x
    using that assms(1) unfolding due due_actions_def sched_inv_except_def by auto
  have "distinct (map sa_id due)"
    unfolding due_def by (rule aq.drained_distinct_ids [OF sched_queue_inv [OF assms(1)]])
  moreover have "inj_on entry_name (set due)"
  proof (rule inj_onI)
    fix x y assume xy: "x \<in> set due" "y \<in> set due" "entry_name x = entry_name y"
    then have "sa_id x = sa_id y" using listed [OF xy(1)] listed [OF xy(2)] by simp
    then show "x = y" using \<open>distinct (map sa_id due)\<close> xy(1,2) by (auto simp: distinct_map dest: inj_onD)
  qed
  ultimately show "distinct (map entry_name due)" by (simp add: distinct_map)
  have kept: "queue_store (ss_queue s0) a = Some (t, e) \<longleftrightarrow> queue_store (ss_queue s) a = Some (t, e) \<and> \<not> t \<le> now" for a t e
    using q(3) by (auto simp: s0_def drop_due_def split: option.split)
  have name: "si_id e \<in> entry_name ` set due \<longleftrightarrow> t \<le> now" if "queue_store (ss_queue s) a = Some (t, e)" for a t e
  proof
    assume "si_id e \<in> entry_name ` set due"
    then obtain x where x: "x \<in> set due" "entry_name x = si_id e" by auto
    then have "sa_id x = a" using listed [OF x(1)] that assms(1) by (auto simp: sched_inv_except_def)
    then show "t \<le> now" using x(1) that by (auto simp: due due_actions_def)
  next
    assume "t \<le> now"
    then have "\<lparr>sa_id = a, sa_target_frame = t, sa_action = e\<rparr> \<in> set due" using that by (simp add: due due_actions_def)
    then show "si_id e \<in> entry_name ` set due" by force
  qed
  show "sched_inv_except (entry_name ` set due) s0"
    unfolding sched_inv_except_def
  proof (intro conjI allI impI)
    show "queue_inv (ss_queue s0)" using q(1) by (simp add: s0_def)
    fix a t e assume "queue_store (ss_queue s0) a = Some (t, e)"
    then have "queue_store (ss_queue s) a = Some (t, e)" "\<not> t \<le> now" using kept by simp_all
    then show "ss_actions s0 (si_id e) = Some a" "si_kind e \<noteq> Every 0" "si_id e \<notin> entry_name ` set due"
      using assms(1) name [of a t e] unfolding sched_inv_except_def by (auto simp: s0_def)
  next
    fix i a assume "ss_actions s0 i = Some a" "i \<notin> entry_name ` set due"
    then obtain t e where "queue_store (ss_queue s) a = Some (t, e)" "si_id e = i"
      using assms(1) unfolding sched_inv_except_def s0_def by force
    then show "\<exists>t e. queue_store (ss_queue s0) a = Some (t, e) \<and> si_id e = i"
      using name [of a t e] \<open>i \<notin> entry_name ` set due\<close> kept by blast
  qed
  then show "pending_at s0 j = pending_at s j" if "j \<notin> entry_name ` set due" for j
    using that pending_at_iff [of _ s0 j] pending_at_iff [OF assms(1), of j] kept name
    by (metis (no_types, lifting) empty_iff option.exhaust surj_pair)
qed

lemma schedule_poll_effect:
  assumes "sched_inv s" "schedule_poll now s = Some (Inr fs, s')"
  shows "sched_inv s'"
    and "pending_at s i = Some (t, e) \<Longrightarrow> t \<le> now \<Longrightarrow>
      (\<exists>x. sa_target_frame x = t \<and> sa_action x = e \<and> filter (\<lambda>f. sf_id f = i) fs = [fire_of now (missed_of now x) x]
        \<and> after_poll now x (pending_at s' i))"
    and "(\<And>t e. pending_at s i = Some (t, e) \<Longrightarrow> now < t) \<Longrightarrow>
      filter (\<lambda>f. sf_id f = i) fs = [] \<and> pending_at s' i = pending_at s i"
proof -
  define due where "due = fst (drain_due now (ss_queue s))"
  define s0 where "s0 = s\<lparr>ss_queue := snd (drain_due now (ss_queue s))\<rparr>"
  note d = schedule_poll_drains [OF assms(1), where now = now, folded due_def s0_def]
  have eff: "sched_inv s'" "fs = map (\<lambda>x. fire_of now (missed_of now x) x) due"
    "\<And>j. j \<notin> entry_name ` set due \<Longrightarrow> pending_at s' j = pending_at s0 j"
    "\<And>x. x \<in> set due \<Longrightarrow> after_poll now x (pending_at s' (entry_name x))"
    using poll_due_effect [of now due "[]" s0 fs s'] d(1,3,4) assms(2) by simp_all
  show "sched_inv s'" by (fact eff(1))
  have fires: "filter (\<lambda>f. sf_id f = i) fs = map (\<lambda>x. fire_of now (missed_of now x) x) (filter (\<lambda>x. entry_name x = i) due)"
    by (simp add: eff(2) filter_map comp_def fire_of_def)
  {
    assume "pending_at s i = Some (t, e)" "t \<le> now"
    then obtain a where a: "queue_store (ss_queue s) a = Some (t, e)" "si_id e = i"
      using pending_at_iff [OF assms(1), of i t e] by auto
    define x where "x = \<lparr>sa_id = a, sa_target_frame = t, sa_action = e\<rparr>"
    have x: "x \<in> set due" "entry_name x = i" using a \<open>t \<le> now\<close> by (simp_all add: x_def d(2) due_actions_def)
    have "filter (\<lambda>y. entry_name y = i) due = [x]"
      using filter_key [OF d(3) x(1)] x(2) by simp
    then show "\<exists>x. sa_target_frame x = t \<and> sa_action x = e
        \<and> filter (\<lambda>f. sf_id f = i) fs = [fire_of now (missed_of now x) x] \<and> after_poll now x (pending_at s' i)"
      using eff(4) [OF x(1)] x(2) fires by (intro exI [of _ x]) (simp add: x_def)
  }
  {
    assume later: "\<And>t e. pending_at s i = Some (t, e) \<Longrightarrow> now < t"
    have "i \<notin> entry_name ` set due"
    proof
      assume "i \<in> entry_name ` set due"
      then obtain x where "x \<in> due_actions (queue_store (ss_queue s)) now" "entry_name x = i" using d(2) by auto
      then have "pending_at s i = Some (sa_target_frame x, sa_action x)" "sa_target_frame x \<le> now"
        using pending_at_iff [OF assms(1), of i "sa_target_frame x" "sa_action x"] by (auto simp: due_actions_def)
      then show False using later by fastforce
    qed
    then show "filter (\<lambda>f. sf_id f = i) fs = [] \<and> pending_at s' i = pending_at s i"
      using eff(3) d(5) fires by (auto simp: filter_empty_conv)
  }
qed

text \<open>The calls of a client, and the states it can bring a set of schedules to without a failed poll.\<close>

inductive schedules :: "'c schedule_set \<Rightarrow> bool" where
  fresh_set: "schedules schedule_set_default"
| after_schedule_at: "schedules s \<Longrightarrow> schedules (snd (schedule_at i t k c s))"
| after_start_timer: "schedules s \<Longrightarrow> schedules (snd (start_timer i now d c s))"
| after_schedule_cancel: "schedules s \<Longrightarrow> schedules (snd (schedule_cancel i s))"
| after_schedule_poll: "schedules s \<Longrightarrow> schedule_poll now s = Some (Inr fs, s') \<Longrightarrow> schedules s'"

lemma schedules_inv: "schedules s \<Longrightarrow> sched_inv s"
  by (induction rule: schedules.induct)
    (simp_all add: sched_inv_default schedule_at_inv start_timer_inv schedule_cancel_inv schedule_poll_effect(1))

fun polls :: "u64 list \<Rightarrow> 'c schedule_set \<Rightarrow> ('c schedule_fire list \<times> 'c schedule_set) option" where
  "polls [] s = Some ([], s)"
| "polls (now # ts) s =
     (case schedule_poll now s of
        Some (Inr fs, s') \<Rightarrow> map_option (\<lambda>(gs, s''). (fs @ gs, s'')) (polls ts s')
      | _ \<Rightarrow> None)"

text \<open>The boundaries a firing of a schedule with period \<open>n\<close> stands for: its own and the missed ones.\<close>

definition boundaries :: "u64 \<Rightarrow> 'c schedule_fire \<Rightarrow> nat list" where
  "boundaries n f = map (\<lambda>k. unat (sf_occurrence_ms f) + k * unat n) [0..<Suc (unat (sf_missed_occurrences f))]"


lemma boundaries_append:
  fixes t n :: nat
  shows "map (\<lambda>k. t + k * n) [0..<m] @ map (\<lambda>k. (t + m * n) + k * n) [0..<l] = map (\<lambda>k. t + k * n) [0..<m + l]"
  by (induction l) (simp_all add: algebra_simps)

text \<open>C27: A repeating schedule, due at \<open>t\<close> every \<open>n\<close> milliseconds, loses no boundary and reports none twice,
  however irregularly it is polled, as long as the polls succeed. In a set of schedules that no poll has failed on so far,
  and over any sequence of polls that all return their firings, the boundaries its firings stand for are exactly
  \<open>t\<close>, \<open>t + n\<close>, ..., in order and without a gap, up to the latest poll: it is then armed
  for the first boundary beyond every poll. A poll that fails can strand other schedules; that case is excluded here and is
  the subject of the last section.
\<close>
theorem recurring_schedule_loses_nothing:
  assumes "schedules s" "pending_at s i = Some (t, e)" "si_kind e = Every n"
    and "polls ts s = Some (fs, s')"
  shows "\<exists>K t'. concat (map (boundaries n) (filter (\<lambda>f. sf_id f = i) fs)) = map (\<lambda>k. unat t + k * unat n) [0..<K]
    \<and> pending_at s' i = Some (t', e) \<and> unat t' = unat t + K * unat n
    \<and> (\<forall>now \<in> set ts. now < t') \<and> (\<forall>k < K. \<exists>now \<in> set ts. unat t + k * unat n \<le> unat now)"
  using assms
proof (induction ts arbitrary: s t fs)
  case (Cons now ts)
  then obtain f1 s1 f2 where p: "schedule_poll now s = Some (Inr f1, s1)" "polls ts s1 = Some (f2, s')" "fs = f1 @ f2"
    by (auto split: option.splits prod.splits sum.splits)
  have s1: "schedules s1" by (rule after_schedule_poll [OF Cons.prems(1) p(1)])
  note eff = schedule_poll_effect [OF schedules_inv [OF Cons.prems(1)] p(1)]
  show ?case
  proof (cases "t \<le> now")
    case False
    then have "filter (\<lambda>f. sf_id f = i) f1 = []" "pending_at s1 i = Some (t, e)"
      using eff(3) [of i] Cons.prems(2) by auto
    with Cons.IH [OF s1 this(2) Cons.prems(3) p(2)] False show ?thesis
      by (auto simp: p(3) word_le_nat_alt word_less_nat_alt)
  next
    case True
    then obtain x where x: "sa_target_frame x = t" "sa_action x = e"
        "filter (\<lambda>f. sf_id f = i) f1 = [fire_of now (missed_of now x) x]" "after_poll now x (pending_at s1 i)"
      using eff(2) [OF Cons.prems(2)] by blast
    define m where "m = Suc (unat (missed_of now x))"
    obtain t1 where t1: "pending_at s1 i = Some (t1, e)" "unat n \<noteq> 0" "unat t1 = unat t + m * unat n"
      using x Cons.prems(3) by (cases "pending_at s1 i") (auto simp: m_def)
    have first: "concat (map (boundaries n) (filter (\<lambda>f. sf_id f = i) f1)) = map (\<lambda>k. unat t + k * unat n) [0..<m]"
      by (simp add: x(3) boundaries_def fire_of_def x(1) m_def del: upt_Suc)
    have missed: "unat (missed_of now x) = (unat now - unat t) div unat n"
      using True x(1,2) Cons.prems(3) by (simp add: missed_of_def unat_div_distrib unat_sub)
    obtain K t' where K: "concat (map (boundaries n) (filter (\<lambda>f. sf_id f = i) f2)) = map (\<lambda>k. unat t1 + k * unat n) [0..<K]"
      "pending_at s' i = Some (t', e)" "unat t' = unat t1 + K * unat n"
      "\<forall>now \<in> set ts. now < t'" "\<forall>k < K. \<exists>now \<in> set ts. unat t1 + k * unat n \<le> unat now"
      using Cons.IH [OF s1 t1(1) Cons.prems(3) p(2)] by blast
    have "\<not> m \<le> (unat now - unat t) div unat n" "k < m \<Longrightarrow> k \<le> (unat now - unat t) div unat n" for k
      using missed by (simp_all add: m_def)
    then have "\<not> m * unat n \<le> unat now - unat t" "k < m \<Longrightarrow> k * unat n \<le> unat now - unat t" for k
      using t1(2) by (simp_all add: less_eq_div_iff_mult_less_eq)
    then have now: "unat now < unat t1" and past: "k < m \<Longrightarrow> unat t + k * unat n \<le> unat now" for k
      using True t1(3) by (fastforce simp: word_le_nat_alt)+
    have "\<exists>u \<in> set (now # ts). unat t + k * unat n \<le> unat u" if "k < m + K" for k
    proof (cases "k < m")
      case False
      then have "unat t + k * unat n = unat t1 + (k - m) * unat n" by (simp add: t1(3) diff_mult_distrib)
      then show ?thesis using K(5) that False by (metis add_less_cancel_left le_add_diff_inverse list.set_intros(2) not_less)
    qed (use past in auto)
    moreover have "now < t'" using now K(3) by (simp add: word_less_nat_alt)
    moreover have "concat (map (boundaries n) (filter (\<lambda>f. sf_id f = i) fs)) = map (\<lambda>k. unat t + k * unat n) [0..<m + K]"
      using boundaries_append [of "unat t" "unat n" m K] by (simp add: p(3) first K(1) t1(3))
    ultimately show ?thesis
      using K(2-4) t1(3) by (intro exI [of _ "m + K"] exI [of _ t']) (simp add: distrib_right)
  qed
qed simp

definition tick_set :: "nat schedule_set" where
  "tick_set = snd (schedule_at ''tick'' 10 (Every 5) (Discrete 7) schedule_set_default)"

lemmas schedule_eval = schedule_poll_def drain_due_def schedule_action_def allocate_id_def insert_action_def
  checked_add_def checked_sub_def checked_mul_def ok_or_def Let_def next_occurrence_def fire_of_def
  bt_range_to_def bt_remove_def cancel_action_def

lemma tick_set_eval:
  "tick_set = \<lparr>ss_queue = \<lparr>aq_next_sequence = 1,
      aq_ordered = [((10, 1), \<lparr>sa_id = 1, sa_target_frame = 10, sa_action = \<lparr>si_id = ''tick'', si_kind = Every 5, si_intent = Discrete 7\<rparr>\<rparr>)],
      aq_by_id = [1 \<mapsto> (10, 1)]\<rparr>, ss_actions = [''tick'' \<mapsto> 1]\<rparr>"
  by (simp add: tick_set_def schedule_at_def schedule_set_default_def action_queue_default_def schedule_eval)

lemma tick_polls:
  "map_option fst (polls [3, 27, 12, 31] tick_set) =
     Some [\<lparr>sf_id = ''tick'', sf_occurrence_ms = 10, sf_observed_at_ms = 27, sf_missed_occurrences = 3, sf_intent = Discrete 7\<rparr>,
           \<lparr>sf_id = ''tick'', sf_occurrence_ms = 30, sf_observed_at_ms = 31, sf_missed_occurrences = 0, sf_intent = Discrete 7\<rparr>]"
  by (simp add: tick_set_eval schedule_eval)

lemma tick_schedules: "schedules tick_set"
  unfolding tick_set_def by (rule after_schedule_at, rule fresh_set)

lemma tick_pending: "pending_at tick_set ''tick'' = Some (10, \<lparr>si_id = ''tick'', si_kind = Every 5, si_intent = Discrete 7\<rparr>)"
  by (simp add: tick_set_eval pending_at_def queue_store_def)

theorem recurring_schedule_loses_nothing_witness:
  "\<exists>fs s' K t'. polls [3, 27, 12, 31] tick_set = Some (fs, s') \<and> length fs = 2
     \<and> concat (map (boundaries 5) (filter (\<lambda>f. sf_id f = ''tick'') fs)) = map (\<lambda>k. 10 + k * 5) [0..<K]
     \<and> pending_at s' ''tick'' = Some (t', \<lparr>si_id = ''tick'', si_kind = Every 5, si_intent = Discrete 7\<rparr>)
     \<and> unat t' = 10 + K * 5 \<and> (\<forall>now \<in> {3, 27, 12, 31}. now < t')"
proof -
  obtain fs s' where p: "polls [3, 27, 12, 31] tick_set = Some (fs, s')" "length fs = 2"
    using tick_polls by (auto simp del: polls.simps)
  show ?thesis
    using recurring_schedule_loses_nothing [OF tick_schedules tick_pending _ p(1), of 5] p by (simp del: polls.simps) blast
qed

section \<open>A failed poll strands schedules\<close>

text \<open>
  One turn of the loop that does not stop the poll: the entry is accounted for, and the names of the entries behind
  it stay as they are.
\<close>

lemma poll_due_turn:
  assumes "sched_inv_except (entry_name ` set (x # due)) s" "entry_name x \<notin> entry_name ` set due"
    and "poll_due now (x # due) fired s = Some (r, s')"
  obtains (stops) e where "r = Inl e" "si_kind (sa_action x) \<noteq> Once"
      "s' = s\<lparr>ss_actions := (ss_actions s)(entry_name x := None)\<rparr>"
  | (goes_on) fired' s2 where "poll_due now due fired' s2 = Some (r, s')" "sched_inv_except (entry_name ` set due) s2"
      "after_poll now x (pending_at s2 (entry_name x))"
      "\<And>j. j \<noteq> entry_name x \<Longrightarrow> ss_actions s2 j = ss_actions s j"
      "\<And>j. j \<notin> entry_name ` set (x # due) \<Longrightarrow> pending_at s2 j = pending_at s j"
proof -
  let ?D = "entry_name ` set due" and ?i = "entry_name x"
  define s1 where "s1 = s\<lparr>ss_actions := (ss_actions s)(?i := None)\<rparr>"
  have inv1: "sched_inv_except ?D s1" using sched_inv_drop [of ?i ?D s] assms(1) by (simp add: s1_def)
  have at1: "pending_at s1 j = (if j = ?i then None else pending_at s j)" for j by (simp add: s1_def pending_at_def)
  show thesis
  proof (cases "si_kind (sa_action x)")
    case Once
    then have "poll_due now due (fired @ [fire_of now 0 x]) s1 = Some (r, s')"
      using assms(3) by (simp add: Let_def s1_def)
    then show thesis using inv1 by (rule goes_on) (use Once at1 in \<open>simp_all add: s1_def\<close>)
  next
    case (Every n)
    show thesis
    proof (cases "\<exists>e. r = Inl e \<and> s' = s1")
      case True
      then show thesis using stops Every by (auto simp: s1_def)
    next
      case False
      have same: "s1\<lparr>ss_queue := q\<rparr> = s1" if "schedule_action nxt (sa_action x) (ss_queue s1) = (Inl e, q)" for nxt e q
        using queue_schedule [OF sched_queue_inv [OF inv1], of nxt "sa_action x"] that by auto
      obtain elapsed missed nxt a q where
        sub: "checked_sub now (sa_target_frame x) = Some elapsed"
        and nx: "next_occurrence n (sa_target_frame x) elapsed = Some (missed, nxt)"
        and sch: "schedule_action nxt (sa_action x) (ss_queue s1) = (Inr a, q)"
        and rest: "poll_due now due (fired @ [fire_of now missed x])
          (s1\<lparr>ss_queue := q, ss_actions := (ss_actions s1)(?i \<mapsto> a)\<rparr>) = Some (r, s')"
        using assms(3) Every False same unfolding poll_due.simps Let_def s1_def [symmetric]
        by (auto split: option.splits prod.splits sum.splits)
      have "elapsed = now - sa_target_frame x" using sub by (auto simp: checked_sub_def split: if_splits)
      then have missed: "unat missed = unat (missed_of now x)"
        using next_occurrence_Some(2) [OF nx] Every by (simp add: missed_of_def unat_div_distrib)
      obtain st: "queue_inv q" "queue_store (ss_queue s1) a = None"
        "queue_store q = (queue_store (ss_queue s1))(a \<mapsto> (nxt, sa_action x))"
        using queue_schedule [OF sched_queue_inv [OF inv1], of nxt "sa_action x"] sch by auto
      have kind: "si_kind (sa_action x) \<noteq> Every 0" using next_occurrence_Some(1) [OF nx] Every by auto
      have none: "ss_actions s1 ?i = None" by (simp add: s1_def)
      note at2 = pending_at_add [OF inv1 st(2) _ st(3)]
      show thesis
      proof (rule goes_on [OF rest sched_inv_add [OF inv1 st none kind assms(2)]])
        show "after_poll now x (pending_at (s1\<lparr>ss_queue := q, ss_actions := (ss_actions s1)(?i \<mapsto> a)\<rparr>) ?i)"
          unfolding at2 [OF assms(2)] using next_occurrence_Some [OF nx] missed by (simp add: Every)
      qed (use at1 at2 in \<open>simp_all add: s1_def\<close>)
    qed
  qed
qed

lemma poll_due_fails:
  assumes "poll_due now due fired s = Some (Inl e, s')" "sched_inv_except (entry_name ` set due) s"
    and "distinct (map entry_name due)"
  shows "\<exists>before x behind. due = before @ x # behind \<and> sched_inv_except (entry_name ` set behind) s'
    \<and> si_kind (sa_action x) \<noteq> Once \<and> ss_actions s' (entry_name x) = None
    \<and> (\<forall>y \<in> set before. after_poll now y (pending_at s' (entry_name y)))
    \<and> (\<forall>y \<in> set behind. ss_actions s' (entry_name y) = ss_actions s (entry_name y))
    \<and> (\<forall>j. j \<notin> entry_name ` set due \<longrightarrow> pending_at s' j = pending_at s j)"
  using assms
proof (induction due arbitrary: fired s)
  case (Cons x due)
  have x: "entry_name x \<notin> entry_name ` set due" "distinct (map entry_name due)" using Cons.prems(3) by auto
  show ?case
  proof (cases rule: poll_due_turn [OF Cons.prems(2) x(1) Cons.prems(1)])
    case (1 e')
    then show ?thesis using x sched_inv_drop [of "entry_name x" "entry_name ` set due" s] Cons.prems(2)
      by - (rule exI [of _ "[]"], rule exI [of _ x], rule exI [of _ due], auto simp: pending_at_def image_iff)
  next
    case (2 fired' s2)
    from Cons.IH [OF 2(1,2) x(2)] obtain before z behind where z: "due = before @ z # behind"
      "sched_inv_except (entry_name ` set behind) s'" "si_kind (sa_action z) \<noteq> Once" "ss_actions s' (entry_name z) = None"
      "\<forall>y \<in> set before. after_poll now y (pending_at s' (entry_name y))"
      "\<forall>y \<in> set behind. ss_actions s' (entry_name y) = ss_actions s2 (entry_name y)"
      "\<forall>j. j \<notin> entry_name ` set due \<longrightarrow> pending_at s' j = pending_at s2 j" by blast
    have "ss_actions s2 (entry_name y) = ss_actions s (entry_name y)" if "y \<in> set behind" for y
    proof (rule 2(4))
      have "entry_name y \<in> entry_name ` set due" using that z(1) by simp
      then show "entry_name y \<noteq> entry_name x" using x(1) by metis
    qed
    then show ?thesis using z 2(3,5) x(1)
      by - (rule exI [of _ "x # before"], rule exI [of _ z], rule exI [of _ behind], auto)
  qed
qed simp

text \<open>A name that no entry of the queue carries, and that later polls therefore cannot fire.\<close>

definition off_queue :: "schedule_id \<Rightarrow> 'c schedule_set \<Rightarrow> bool" where
  "off_queue i s \<longleftrightarrow> queue_inv (ss_queue s) \<and> (\<forall>a t e. queue_store (ss_queue s) a = Some (t, e) \<longrightarrow> si_id e \<noteq> i)"

lemma poll_due_off_queue:
  assumes "poll_due now due fired s = Some (Inr fs, s')" "off_queue i s" "\<forall>x \<in> set due. entry_name x \<noteq> i"
    and "\<forall>f \<in> set fired. sf_id f \<noteq> i"
  shows "off_queue i s' \<and> (\<forall>f \<in> set fs. sf_id f \<noteq> i)"
  using assms
proof (induction due arbitrary: fired s)
  case (Cons x due)
  define s1 where "s1 = s\<lparr>ss_actions := (ss_actions s)(entry_name x := None)\<rparr>"
  have s1: "off_queue i s1" using Cons.prems(2) by (simp add: off_queue_def s1_def)
  have f: "\<forall>f \<in> set (fired @ [fire_of now m x]). sf_id f \<noteq> i" for m using Cons.prems(3,4) by (auto simp: fire_of_def)
  show ?case
  proof (cases "si_kind (sa_action x)")
    case Once
    then have "poll_due now due (fired @ [fire_of now 0 x]) s1 = Some (Inr fs, s')"
      using Cons.prems(1) by (simp add: Let_def s1_def)
    from Cons.IH [OF this s1 _ f] Cons.prems(3) show ?thesis by simp
  next
    case (Every n)
    then obtain missed nxt a q where
      sch: "schedule_action nxt (sa_action x) (ss_queue s1) = (Inr a, q)"
      and rest: "poll_due now due (fired @ [fire_of now missed x])
        (s1\<lparr>ss_queue := q, ss_actions := (ss_actions s1)(entry_name x \<mapsto> a)\<rparr>) = Some (Inr fs, s')"
      using Cons.prems(1) by (auto simp: Let_def s1_def split: option.splits prod.splits sum.splits)
    have "off_queue i (s1\<lparr>ss_queue := q, ss_actions := (ss_actions s1)(entry_name x \<mapsto> a)\<rparr>)"
      using queue_schedule [of "ss_queue s1" nxt "sa_action x"] sch s1 Cons.prems(3) by (auto simp: off_queue_def)
    from Cons.IH [OF rest this _ f] Cons.prems(3) show ?thesis by simp
  qed
qed simp

lemma schedule_poll_off_queue:
  assumes "schedule_poll now s = Some (Inr fs, s')" "off_queue i s"
  shows "off_queue i s' \<and> (\<forall>f \<in> set fs. sf_id f \<noteq> i)"
proof -
  note q = queue_drain [of "ss_queue s" now]
  show ?thesis
  proof (rule poll_due_off_queue)
    show "poll_due now (fst (drain_due now (ss_queue s))) [] (s\<lparr>ss_queue := snd (drain_due now (ss_queue s))\<rparr>) = Some (Inr fs, s')"
      using assms(1) by (simp add: schedule_poll_def split_beta)
    show "off_queue i (s\<lparr>ss_queue := snd (drain_due now (ss_queue s))\<rparr>)"
      using assms(2) q by (auto simp: off_queue_def drop_due_def split: option.splits if_splits)
    show "\<forall>x \<in> set (fst (drain_due now (ss_queue s))). entry_name x \<noteq> i"
      using assms(2) q by (auto simp: off_queue_def due_actions_def)
  qed simp
qed

lemma polls_off_queue: "polls ts s = Some (fs, s') \<Longrightarrow> off_queue i s \<Longrightarrow> \<forall>f \<in> set fs. sf_id f \<noteq> i"
proof (induction ts arbitrary: s fs)
  case (Cons now ts)
  then obtain gs s1 hs where "schedule_poll now s = Some (Inr gs, s1)" "polls ts s1 = Some (hs, s')" "fs = gs @ hs"
    by (auto split: option.splits prod.splits sum.splits)
  then show ?case using schedule_poll_off_queue Cons.IH Cons.prems(2) by fastforce
qed simp

text \<open>C32: A poll that fails loses the schedules behind the one it fails at. In whatever set of schedules, none of whose polls failed before, a poll fails, the
  due schedules, in the order of their times, split into those before the failing one, which were handled although
  the poll returns none of their firings: a repeating one is armed for its next boundary and a one-shot one is gone; the
  failing one, a repeating schedule, which is removed; and those behind it, each of which was waiting and due. Those are off the queue: no
  later sequence of polls ever fires them. And yet their names stay taken, so that they cannot be scheduled again.
\<close>
theorem failed_poll_strands_schedules:
  assumes "schedules s" "schedule_poll now s = Some (Inl e, s')"
  shows "\<exists>before x behind. fst (drain_due now (ss_queue s)) = before @ x # behind
    \<and> (\<forall>y \<in> set before. after_poll now y (pending_at s' (entry_name y)))
    \<and> si_kind (sa_action x) \<noteq> Once \<and> \<not> schedule_contains (entry_name x) s'
    \<and> (\<forall>y \<in> set behind. pending_at s (entry_name y) = Some (sa_target_frame y, sa_action y) \<and> sa_target_frame y \<le> now
         \<and> schedule_contains (entry_name y) s'
         \<and> (\<forall>at k c. fst (schedule_at (entry_name y) at k c s') = Inl (DuplicateSchedule (entry_name y)))
         \<and> (\<forall>ts fs s''. polls ts s' = Some (fs, s'') \<longrightarrow> (\<forall>f \<in> set fs. sf_id f \<noteq> entry_name y)))"
proof -
  have inv: "sched_inv s" by (rule schedules_inv [OF assms(1)])
  define due where "due = fst (drain_due now (ss_queue s))"
  define s0 where "s0 = s\<lparr>ss_queue := snd (drain_due now (ss_queue s))\<rparr>"
  note d = schedule_poll_drains [OF inv, where now = now, folded due_def s0_def]
  obtain before x behind where split: "due = before @ x # behind" and left: "sched_inv_except (entry_name ` set behind) s'"
    and x: "si_kind (sa_action x) \<noteq> Once" "ss_actions s' (entry_name x) = None"
    and before: "\<forall>y \<in> set before. after_poll now y (pending_at s' (entry_name y))"
    and behind: "\<forall>y \<in> set behind. ss_actions s' (entry_name y) = ss_actions s0 (entry_name y)"
    using poll_due_fails [of now due "[]" s0 e s'] d(1,3,4) assms(2) by auto
  have y: "pending_at s (entry_name y) = Some (sa_target_frame y, sa_action y)" "sa_target_frame y \<le> now"
    "schedule_contains (entry_name y) s'" "off_queue (entry_name y) s'" if "y \<in> set behind" for y
  proof -
    have "y \<in> due_actions (queue_store (ss_queue s)) now" using that d(2) split by auto
    then show p: "pending_at s (entry_name y) = Some (sa_target_frame y, sa_action y)" and "sa_target_frame y \<le> now"
      using pending_at_iff [OF inv, of "entry_name y"] by (auto simp: due_actions_def)
    show "schedule_contains (entry_name y) s'"
      using p behind that by (auto simp: schedule_contains_def s0_def pending_at_def bind_eq_Some_conv)
    show "off_queue (entry_name y) s'" using left that by (auto simp: off_queue_def sched_inv_except_def)
  qed
  have taken: "fst (schedule_at (entry_name y) at k c s') = Inl (DuplicateSchedule (entry_name y))" if "y \<in> set behind" for y at k c
    using y(3) [OF that] by (simp add: schedule_at_def schedule_contains_def)
  have silent: "\<forall>f \<in> set fs. sf_id f \<noteq> entry_name y" if "y \<in> set behind" "polls ts s' = Some (fs, s'')" for y ts fs s''
    by (rule polls_off_queue [OF that(2) y(4) [OF that(1)]])
  show ?thesis
  proof (rule exI [of _ before], rule exI [of _ x], rule exI [of _ behind], intro conjI)
    show "fst (drain_due now (ss_queue s)) = before @ x # behind" using split by (simp add: due_def)
    show "\<not> schedule_contains (entry_name x) s'" using x(2) by (simp add: schedule_contains_def)
  qed (use x(1) before y(1-3) taken silent in \<open>simp_all (no_asm_simp)\<close>)
qed

text \<open>
  Two schedules that are both due. The next boundary of the first one is beyond the largest timestamp,
  so the poll gives up after it has taken both off the queue.
\<close>

definition stranding_set :: "nat schedule_set" where
  "stranding_set = snd (schedule_at ''late'' 2 Once (Discrete 8)
     (snd (schedule_at ''wide'' 1 (Every 18446744073709551615) (Discrete 7) schedule_set_default)))"

lemma stranding_schedules: "schedules stranding_set"
  unfolding stranding_set_def by (intro after_schedule_at fresh_set)

lemma stranding_eval:
  "map entry_name (fst (drain_due 5 (ss_queue stranding_set))) = [''wide'', ''late'']"
  "\<exists>s'. schedule_poll 5 stranding_set = Some (Inl ScheduleOverflow, s') \<and> schedule_contains ''late'' s'"
  by (simp_all add: stranding_set_def schedule_at_def schedule_set_default_def action_queue_default_def schedule_eval
      schedule_contains_def)

theorem failed_poll_strands_schedules_witness:
  "\<exists>s'. schedule_poll 5 stranding_set = Some (Inl ScheduleOverflow, s')
     \<and> fst (schedule_at ''late'' 9 Once (Discrete 8) s') = Inl (DuplicateSchedule ''late'')
     \<and> (\<forall>ts fs s''. polls ts s' = Some (fs, s'') \<longrightarrow> (\<forall>f \<in> set fs. sf_id f \<noteq> ''late''))"
proof -
  obtain s' where s': "schedule_poll 5 stranding_set = Some (Inl ScheduleOverflow, s')" "schedule_contains ''late'' s'"
    using stranding_eval(2) by blast
  from failed_poll_strands_schedules [OF stranding_schedules s'(1)]
  obtain before x behind where split: "fst (drain_due 5 (ss_queue stranding_set)) = before @ x # behind"
    and x: "\<not> schedule_contains (entry_name x) s'"
    and lost: "\<forall>y \<in> set behind. fst (schedule_at (entry_name y) 9 Once (Discrete 8) s') = Inl (DuplicateSchedule (entry_name y))
      \<and> (\<forall>ts fs s''. polls ts s' = Some (fs, s'') \<longrightarrow> (\<forall>f \<in> set fs. sf_id f \<noteq> entry_name y))"
    by blast
  have "entry_name x \<noteq> ''late''" using x s'(2) by auto
  then have "''late'' \<in> entry_name ` set behind"
    using stranding_eval(1) unfolding split by (cases before) (auto simp: append_eq_Cons_conv Cons_eq_append_conv)
  then obtain y where y: "y \<in> set behind" "entry_name y = ''late''" by auto
  from bspec [OF lost y(1)] show ?thesis unfolding y(2) using s'(1) by blast
qed

end
