(* ===== verification/Triggers.thy ===== *)
theory Triggers
  imports Automation Scheduler_Queues
begin

text \<open>
  The event triggers of \<open>crates/features/fm-automation\<close> (\<open>trigger.rs\<close>). An event arms every registered
  trigger whose filter it matches; the armed trigger waits in the action queue of the frame scheduler and
  fires when it is due and its conditions hold. The map from pending actions to their triggers is an
  ordered map here; the source uses a \<open>HashMap\<close> and nothing depends on its order.
\<close>

section \<open>Triggers\<close>

record automation_event =
  ae_kind :: string
  ae_source :: "string option"
  ae_fields :: condition_context
  ae_timestamp_ms :: u64

record event_filter =
  ef_kind :: string
  ef_source :: "string option"
  ef_conditions :: "condition list"

definition filter_matches :: "event_filter \<Rightarrow> automation_event \<Rightarrow> bool" where
  "filter_matches f e \<longleftrightarrow> ef_kind f = ae_kind e \<and> (ef_source f = None \<or> ae_source e = ef_source f)
     \<and> conditions_match (ef_conditions f) (ae_fields e)"

record 'c trigger =
  tr_id :: string
  tr_filter :: event_filter
  tr_delay_ms :: u64
  tr_conditions :: "condition list"
  tr_intents :: "'c command_intent list"

record 'c pending_trigger =
  pt_trigger_id :: string
  pt_event_timestamp_ms :: u64
  pt_intents :: "'c command_intent list"
  pt_conditions :: "condition list"

record 'c trigger_fire =
  tf_trigger_id :: string
  tf_event_timestamp_ms :: u64
  tf_scheduled_for_ms :: u64
  tf_intents :: "'c command_intent list"

datatype trigger_error =
    DuplicateTrigger string | EmptyActions string | TriggerOverflow string | TriggerQueue action_error

record 'c trigger_engine =
  te_triggers :: "'c trigger list"
  te_pending :: "'c pending_trigger action_queue"
  te_pending_ids :: "(action_id, string) btree"

definition trigger_engine_default :: "'c trigger_engine" where
  "trigger_engine_default = \<lparr>te_triggers = [], te_pending = action_queue_default, te_pending_ids = []\<rparr>"

definition trigger_insert :: "'c trigger \<Rightarrow> (trigger_error, unit, 'c trigger_engine) meth" where
  "trigger_insert t s =
     (if list_ex (\<lambda>e. tr_id e = tr_id t) (te_triggers s) then (Inl (DuplicateTrigger (tr_id t)), s)
      else if tr_intents t = [] then (Inl (EmptyActions (tr_id t)), s)
      else (Inr (), s\<lparr>te_triggers := te_triggers s @ [t]\<rparr>))"

fun due_matches :: "automation_event \<Rightarrow> 'c trigger list \<Rightarrow> trigger_error + ('c trigger \<times> u64) list" where
  "due_matches e [] = Inr []"
| "due_matches e (t # ts) =
     (if \<not> filter_matches (tr_filter t) e then due_matches e ts
      else and_then (ok_or (checked_add (ae_timestamp_ms e) (tr_delay_ms t)) (TriggerOverflow (tr_id t))) (\<lambda>due.
        and_then (due_matches e ts) (\<lambda>rest. Inr ((t, due) # rest))))"

definition pending_of :: "automation_event \<Rightarrow> 'c trigger \<Rightarrow> 'c pending_trigger" where
  "pending_of e t =
     \<lparr>pt_trigger_id = tr_id t, pt_event_timestamp_ms = ae_timestamp_ms e, pt_intents = tr_intents t,
      pt_conditions = tr_conditions t\<rparr>"

definition drop_pending :: "action_id \<Rightarrow> 'c trigger_engine \<Rightarrow> 'c trigger_engine" where
  "drop_pending i s =
     s\<lparr>te_pending := snd (cancel_action i (te_pending s)), te_pending_ids := bt_remove i (te_pending_ids s)\<rparr>"

fun arm_triggers ::
  "automation_event \<Rightarrow> ('c trigger \<times> u64) list \<Rightarrow> action_id list \<Rightarrow> (trigger_error, action_id list, 'c trigger_engine) meth" where
  "arm_triggers e [] ids s = (Inr ids, s)"
| "arm_triggers e ((t, due) # ms) ids s =
     (case schedule_action due (pending_of e t) (te_pending s) of
        (Inl err, q) \<Rightarrow> (Inl (TriggerQueue err), fold drop_pending ids (s\<lparr>te_pending := q\<rparr>))
      | (Inr i, q) \<Rightarrow>
          arm_triggers e ms (ids @ [i])
            (s\<lparr>te_pending := q, te_pending_ids := bt_insert i (tr_id t) (te_pending_ids s)\<rparr>))"

definition trigger_ingest :: "automation_event \<Rightarrow> (trigger_error, action_id list, 'c trigger_engine) meth" where
  "trigger_ingest e s =
     (case due_matches e (te_triggers s) of
        Inl err \<Rightarrow> (Inl err, s)
      | Inr ms \<Rightarrow> arm_triggers e ms [] s)"

definition trigger_fire_of :: "'c pending_trigger scheduled_action \<Rightarrow> 'c trigger_fire" where
  "trigger_fire_of x =
     \<lparr>tf_trigger_id = pt_trigger_id (sa_action x), tf_event_timestamp_ms = pt_event_timestamp_ms (sa_action x),
      tf_scheduled_for_ms = sa_target_frame x, tf_intents = pt_intents (sa_action x)\<rparr>"

definition trigger_poll :: "u64 \<Rightarrow> condition_context \<Rightarrow> 'c trigger_engine \<Rightarrow> 'c trigger_fire list \<times> 'c trigger_engine" where
  "trigger_poll now_ms ctx s =
     (case drain_due now_ms (te_pending s) of (due, q) \<Rightarrow>
        (map trigger_fire_of (filter (\<lambda>x. conditions_match (pt_conditions (sa_action x)) ctx) due),
         s\<lparr>te_pending := q, te_pending_ids := fold bt_remove (map sa_id due) (te_pending_ids s)\<rparr>))"

definition trigger_cancel_action :: "action_id \<Rightarrow> 'c trigger_engine \<Rightarrow> bool \<times> 'c trigger_engine" where
  "trigger_cancel_action i s = (fst (cancel_action i (te_pending s)) \<noteq> None, drop_pending i s)"

definition cancel_trigger :: "string \<Rightarrow> 'c trigger_engine \<Rightarrow> nat \<times> 'c trigger_engine" where
  "cancel_trigger i s =
     (let ids = map fst (filter (\<lambda>(_, t). t = i) (te_pending_ids s)) in (length ids, fold drop_pending ids s))"

definition trigger_remove :: "string \<Rightarrow> 'c trigger_engine \<Rightarrow> bool \<times> 'c trigger_engine" where
  "trigger_remove i s =
     (let kept = filter (\<lambda>t. tr_id t \<noteq> i) (te_triggers s) in
      if length kept = length (te_triggers s) then (False, s\<lparr>te_triggers := kept\<rparr>)
      else (True, snd (cancel_trigger i (s\<lparr>te_triggers := kept\<rparr>))))"

section \<open>Triggers fire for their events, and only while they are registered\<close>

text \<open>A pending trigger that an event armed: the trigger is in the list, its filter matches, the delay is kept.\<close>

definition armed :: "'c trigger list \<Rightarrow> u64 \<Rightarrow> 'c pending_trigger \<Rightarrow> bool" where
  "armed ts due p \<longleftrightarrow> (\<exists>t \<in> set ts. \<exists>e. p = pending_of e t \<and> filter_matches (tr_filter t) e
     \<and> checked_add (ae_timestamp_ms e) (tr_delay_ms t) = Some due)"

definition trig_inv_for :: "'c trigger list \<Rightarrow> 'c trigger_engine \<Rightarrow> bool" where
  "trig_inv_for ts s \<longleftrightarrow> queue_inv (te_pending s) \<and> bt_sorted (te_pending_ids s)
     \<and> (\<forall>a. map_of (te_pending_ids s) a = map_option (\<lambda>(due, p). pt_trigger_id p) (queue_store (te_pending s) a))
     \<and> (\<forall>a due p. queue_store (te_pending s) a = Some (due, p) \<longrightarrow> armed ts due p)"

abbreviation trig_inv :: "'c trigger_engine \<Rightarrow> bool" where
  "trig_inv s \<equiv> trig_inv_for (te_triggers s) s"

lemma trig_inv_default: "trig_inv trigger_engine_default"
  by (simp add: trig_inv_for_def trigger_engine_default_def queue_inv_default queue_store_default)

lemma trig_inv_mono: "trig_inv_for ts s \<Longrightarrow> set ts \<subseteq> set us \<Longrightarrow> trig_inv_for us s"
  unfolding trig_inv_for_def armed_def by blast

lemma trig_inv_triggers [simp]: "trig_inv_for ts (s\<lparr>te_triggers := us\<rparr>) \<longleftrightarrow> trig_inv_for ts s"
  by (simp add: trig_inv_for_def)

lemma trigger_insert_inv: "trig_inv s \<Longrightarrow> trig_inv (snd (trigger_insert t s))"
  by (auto simp: trigger_insert_def intro: trig_inv_mono)

lemma drop_pending_inv:
  assumes "trig_inv_for ts s"
  shows "trig_inv_for ts (drop_pending i s)" "te_triggers (drop_pending i s) = te_triggers s"
    "queue_store (te_pending (drop_pending i s)) = (queue_store (te_pending s))(i := None)"
proof -
  note q = queue_cancel(1,2) [of "te_pending s" i]
  show "trig_inv_for ts (drop_pending i s)"
    using assms q by (auto simp: trig_inv_for_def drop_pending_def map_of_bt_remove)
  show "queue_store (te_pending (drop_pending i s)) = (queue_store (te_pending s))(i := None)"
    using assms q by (simp add: trig_inv_for_def drop_pending_def)
qed (simp add: drop_pending_def)

lemma drop_pending_list:
  assumes "trig_inv_for ts s"
  shows "trig_inv_for ts (fold drop_pending ids s) \<and> te_triggers (fold drop_pending ids s) = te_triggers s
    \<and> queue_store (te_pending (fold drop_pending ids s)) = queue_store (te_pending s) |` (- set ids)"
  using assms
proof (induction ids arbitrary: s)
  case (Cons i ids)
  note d = drop_pending_inv [OF Cons.prems, of i]
  show ?case using Cons.IH [OF d(1)] d(2,3) by (auto simp: restrict_map_def fun_eq_iff)
qed (simp add: restrict_map_def)

lemma arm_trigger_inv:
  assumes "trig_inv_for ts s" "armed ts due p" "queue_inv q"
    and "queue_store q = (queue_store (te_pending s))(i \<mapsto> (due, p))"
  shows "trig_inv_for ts (s\<lparr>te_pending := q, te_pending_ids := bt_insert i (pt_trigger_id p) (te_pending_ids s)\<rparr>)"
  using assms by (auto simp: trig_inv_for_def map_of_bt_insert)

lemma due_matches_armed:
  assumes "due_matches e ts = Inr ms"
  shows "set ms = {(t, due). t \<in> set ts \<and> filter_matches (tr_filter t) e \<and> checked_add (ae_timestamp_ms e) (tr_delay_ms t) = Some due}"
    and "map fst ms = filter (\<lambda>t. filter_matches (tr_filter t) e) ts"
  using assms by (induction ts arbitrary: ms) (auto simp: result_simps ok_or_def split: if_splits option.splits sum.splits)

text \<open>
  What arming a list of triggers does to the queue: everything is armed and nothing that waited is
  touched, or the triggers in \<open>ids\<close>, armed so far for the same event, are taken off again.
\<close>

fun arms ::
  "automation_event \<Rightarrow> ('c trigger \<times> u64) list \<Rightarrow> action_id list \<Rightarrow> 'c pending_trigger timed_store
   \<Rightarrow> trigger_error + action_id list \<Rightarrow> 'c pending_trigger timed_store \<Rightarrow> bool" where
  "arms e ms ids st (Inl _) st' \<longleftrightarrow> st' = st |` (- set ids)"
| "arms e ms ids st (Inr ids') st' \<longleftrightarrow> st \<subseteq>\<^sub>m st' \<and> length ids' = length ids + length ms
     \<and> (\<forall>(t, due) \<in> set ms. \<exists>a. st' a = Some (due, pending_of e t))"

lemma arms_Cons:
  assumes "arms e ms (ids @ [n]) (st(n \<mapsto> (due, pending_of e t))) r st'" "st n = None"
  shows "arms e ((t, due) # ms) ids st r st'"
proof (cases r)
  case (Inl err)
  then show ?thesis using assms by (auto simp: restrict_map_def fun_eq_iff)
next
  case (Inr ids')
  then have sub: "st(n \<mapsto> (due, pending_of e t)) \<subseteq>\<^sub>m st'" using assms(1) by simp
  then have "st' n = Some (due, pending_of e t)" by (simp add: map_le_def)
  moreover have "st x = st' x" if "x \<in> dom st" for x
  proof -
    have "x \<in> dom (st(n \<mapsto> (due, pending_of e t)))" using that by simp
    then have "(st(n \<mapsto> (due, pending_of e t))) x = st' x" using sub unfolding map_le_def by blast
    then show ?thesis using that assms(2) by (auto split: if_splits)
  qed
  ultimately show ?thesis using assms(1) Inr by (auto simp: map_le_def)
qed

lemma arm_triggers_effect:
  assumes "trig_inv_for ts s" "\<forall>(t, due) \<in> set ms. armed ts due (pending_of e t)"
    and "arm_triggers e ms ids s = (r, s')"
  shows "trig_inv_for ts s' \<and> te_triggers s' = te_triggers s
    \<and> arms e ms ids (queue_store (te_pending s)) r (queue_store (te_pending s'))"
  using assms
proof (induction ms arbitrary: ids s)
  case (Cons m ms)
  obtain t due where m: "m = (t, due)" by (cases m)
  have arm: "armed ts due (pending_of e t)" using Cons.prems(2) m by simp
  have q: "queue_inv (te_pending s)" using Cons.prems(1) by (simp add: trig_inv_for_def)
  from q show ?case
  proof (cases rule: schedule_action_cases [of "te_pending s" due "pending_of e t"])
    case exhausted
    then show ?thesis using drop_pending_list [OF Cons.prems(1), of ids] Cons.prems(3) by (auto simp: m)
  next
    case (scheduled n q')
    define s1 where "s1 = s\<lparr>te_pending := q', te_pending_ids := bt_insert n (tr_id t) (te_pending_ids s)\<rparr>"
    have s1: "trig_inv_for ts s1" "te_triggers s1 = te_triggers s"
      using arm_trigger_inv [OF Cons.prems(1) arm scheduled(2,4)] by (simp_all add: s1_def pending_of_def)
    have "arm_triggers e ms (ids @ [n]) s1 = (r, s')"
      using scheduled(1) Cons.prems(3) by (simp add: m s1_def)
    then have IH: "trig_inv_for ts s'" "te_triggers s' = te_triggers s1"
      "arms e ms (ids @ [n]) (queue_store q') r (queue_store (te_pending s'))"
      using Cons.IH [OF s1(1)] Cons.prems(2) by (auto simp: s1_def)
    show ?thesis using IH s1(2) arms_Cons [OF IH(3) [unfolded scheduled(4)] scheduled(3)] by (simp add: m)
  qed
qed auto

lemma trigger_ingest_effect:
  assumes "trig_inv s" "trigger_ingest e s = (r, s')"
  shows "trig_inv s' \<and> te_triggers s' = te_triggers s" (is ?inv)
    and "case r of
        Inl _ \<Rightarrow> queue_store (te_pending s') = queue_store (te_pending s)
      | Inr ids \<Rightarrow> length ids = length (filter (\<lambda>t. filter_matches (tr_filter t) e) (te_triggers s))
          \<and> (\<forall>t \<in> set (te_triggers s). filter_matches (tr_filter t) e \<longrightarrow>
              (\<exists>a due. checked_add (ae_timestamp_ms e) (tr_delay_ms t) = Some due
                 \<and> queue_store (te_pending s') a = Some (due, pending_of e t)))" (is ?res)
proof -
  have "?inv \<and> ?res"
  proof (cases "due_matches e (te_triggers s)")
    case (Inl err)
    then show ?thesis using assms by (auto simp: trigger_ingest_def)
  next
    case (Inr ms)
    note ms = due_matches_armed [OF Inr]
    have "arm_triggers e ms [] s = (r, s')" using assms(2) Inr by (simp add: trigger_ingest_def)
    moreover have "\<forall>(t, due) \<in> set ms. armed (te_triggers s) due (pending_of e t)"
      unfolding ms(1) armed_def by blast
    ultimately have arm: "trig_inv_for (te_triggers s) s'" "te_triggers s' = te_triggers s"
      "arms e ms [] (queue_store (te_pending s)) r (queue_store (te_pending s'))"
      using arm_triggers_effect [OF assms(1), of ms e "[]" r s'] by simp_all
    have len: "length ms = length (filter (\<lambda>t. filter_matches (tr_filter t) e) (te_triggers s))"
      using arg_cong [OF ms(2), of length] by simp
    have all: "\<exists>due. (t, due) \<in> set ms" if "t \<in> set (te_triggers s)" "filter_matches (tr_filter t) e" for t
    proof -
      have "t \<in> set (map fst ms)" unfolding ms(2) using that by simp
      then show ?thesis by auto
    qed
    show ?thesis
    proof (cases r)
      case (Inr ids)
      have "\<exists>a due. checked_add (ae_timestamp_ms e) (tr_delay_ms t) = Some due
          \<and> queue_store (te_pending s') a = Some (due, pending_of e t)"
        if t: "t \<in> set (te_triggers s)" "filter_matches (tr_filter t) e" for t
      proof -
        obtain due where "(t, due) \<in> set ms" using all [OF t] by blast
        then show ?thesis using arm(3) Inr by (fastforce simp: ms(1))
      qed
      then show ?thesis using arm Inr len by simp
    qed (use arm in \<open>simp add: restrict_map_def\<close>)
  qed
  then show ?inv and ?res by blast+
qed

lemma trigger_poll_effect:
  assumes "trig_inv s"
  shows "trig_inv (snd (trigger_poll now ctx s))" "te_triggers (snd (trigger_poll now ctx s)) = te_triggers s"
    and "queue_store (te_pending (snd (trigger_poll now ctx s))) = drop_due (queue_store (te_pending s)) now"
    and "f \<in> set (fst (trigger_poll now ctx s)) \<longleftrightarrow>
      (\<exists>a due p. queue_store (te_pending s) a = Some (due, p) \<and> due \<le> now \<and> conditions_match (pt_conditions p) ctx
         \<and> f = trigger_fire_of \<lparr>sa_id = a, sa_target_frame = due, sa_action = p\<rparr>)"
proof -
  have q: "queue_inv (te_pending s)" using assms by (simp add: trig_inv_for_def)
  note d = queue_drain [OF q, of now]
  have ids: "map_of (fold bt_remove as m) = (\<lambda>a. if a \<in> set as then None else map_of m a)" for as and m :: "(action_id, string) btree"
    by (induction as arbitrary: m) (auto simp: map_of_bt_remove fun_eq_iff)
  have sorted: "bt_sorted m \<Longrightarrow> bt_sorted (fold bt_remove as m)" for as and m :: "(action_id, string) btree"
    by (induction as arbitrary: m) simp_all
  have due: "a \<in> sa_id ` set (fst (drain_due now (te_pending s))) \<longleftrightarrow> (\<exists>g p. queue_store (te_pending s) a = Some (g, p) \<and> g \<le> now)" for a
    unfolding d(4) by (rule due_actions_ids)
  show st: "queue_store (te_pending (snd (trigger_poll now ctx s))) = drop_due (queue_store (te_pending s)) now"
    by (simp add: trigger_poll_def split_beta d(3))
  show "te_triggers (snd (trigger_poll now ctx s)) = te_triggers s" by (simp add: trigger_poll_def split_beta)
  have "map_of (te_pending_ids (snd (trigger_poll now ctx s))) a
      = map_option (\<lambda>(due, p). pt_trigger_id p) (drop_due (queue_store (te_pending s)) now a)" for a
    using assms due [of a]
    by (auto simp: trigger_poll_def split_beta ids trig_inv_for_def drop_due_def split: option.splits)
  then show "trig_inv (snd (trigger_poll now ctx s))"
    using assms st d(1)
    by (auto simp: trig_inv_for_def trigger_poll_def split_beta sorted drop_due_def split: option.splits if_splits)
  show "f \<in> set (fst (trigger_poll now ctx s)) \<longleftrightarrow>
      (\<exists>a due p. queue_store (te_pending s) a = Some (due, p) \<and> due \<le> now \<and> conditions_match (pt_conditions p) ctx
         \<and> f = trigger_fire_of \<lparr>sa_id = a, sa_target_frame = due, sa_action = p\<rparr>)"
    (is "_ \<longleftrightarrow> ?fires")
  proof
    assume "f \<in> set (fst (trigger_poll now ctx s))"
    then obtain x where "x \<in> due_actions (queue_store (te_pending s)) now" "f = trigger_fire_of x"
      "conditions_match (pt_conditions (sa_action x)) ctx"
      using d(4) by (auto simp: trigger_poll_def split_beta)
    then show ?fires by (cases x) (auto simp: due_actions_def)
  next
    assume ?fires
    then obtain a due p where "\<lparr>sa_id = a, sa_target_frame = due, sa_action = p\<rparr> \<in> due_actions (queue_store (te_pending s)) now"
      "conditions_match (pt_conditions p) ctx" "f = trigger_fire_of \<lparr>sa_id = a, sa_target_frame = due, sa_action = p\<rparr>"
      by (auto simp: due_actions_def)
    then show "f \<in> set (fst (trigger_poll now ctx s))"
      unfolding d(4) [symmetric] by (force simp: trigger_poll_def split_beta)
  qed
qed

lemma cancel_trigger_effect:
  fixes i
  assumes "trig_inv_for ts s"
  defines "s' \<equiv> snd (cancel_trigger i s)"
  shows "trig_inv_for ts s'" "te_triggers s' = te_triggers s"
    and "queue_store (te_pending s') a = Some (due, p) \<longleftrightarrow> queue_store (te_pending s) a = Some (due, p) \<and> pt_trigger_id p \<noteq> i"
proof -
  let ?ids = "map fst (filter (\<lambda>(_, t). t = i) (te_pending_ids s))"
  have s': "s' = fold drop_pending ?ids s" by (simp add: s'_def cancel_trigger_def Let_def)
  note d = drop_pending_list [OF assms(1), of ?ids]
  show "trig_inv_for ts s'" "te_triggers s' = te_triggers s" using d by (simp_all add: s')
  have "a \<in> set ?ids" if "queue_store (te_pending s) a = Some (due, p)" "pt_trigger_id p = i"
  proof -
    have "map_of (te_pending_ids s) a = Some i" using that assms(1) by (simp add: trig_inv_for_def)
    then have "(a, i) \<in> set (te_pending_ids s)" by (rule map_of_SomeD)
    then show ?thesis by force
  qed
  moreover have "pt_trigger_id p = i" if "queue_store (te_pending s) a = Some (due, p)" "a \<in> set ?ids"
  proof -
    have "(a, i) \<in> set (te_pending_ids s)" using that(2) by auto
    then have "map_of (te_pending_ids s) a = Some i" using assms(1) by (simp add: trig_inv_for_def bt_mem_iff)
    then show ?thesis using that(1) assms(1) by (simp add: trig_inv_for_def)
  qed
  ultimately show "queue_store (te_pending s') a = Some (due, p) \<longleftrightarrow> queue_store (te_pending s) a = Some (due, p) \<and> pt_trigger_id p \<noteq> i"
    using d by (auto simp: s' restrict_map_def)
qed


lemma trigger_remove_inv:
  assumes "trig_inv s"
  shows "trig_inv (snd (trigger_remove i s))" "te_triggers (snd (trigger_remove i s)) = filter (\<lambda>t. tr_id t \<noteq> i) (te_triggers s)"
proof -
  let ?kept = "filter (\<lambda>t. tr_id t \<noteq> i) (te_triggers s)"
  have "trig_inv (snd (trigger_remove i s)) \<and> te_triggers (snd (trigger_remove i s)) = ?kept"
  proof (cases "length ?kept = length (te_triggers s)")
    case True
    then have "?kept = te_triggers s" by (metis filter_True length_filter_less nat_neq_iff)
    then show ?thesis using assms True by (simp add: trigger_remove_def)
  next
    case False
    let ?s1 = "s\<lparr>te_triggers := ?kept\<rparr>"
    define s' where "s' = snd (cancel_trigger i ?s1)"
    have s': "snd (trigger_remove i s) = s'" using False by (simp add: trigger_remove_def s'_def)
    have inv1: "trig_inv_for (te_triggers s) ?s1" using assms by simp
    note c = cancel_trigger_effect [OF inv1, where i = i, folded s'_def]
    have "armed ?kept due p" if "queue_store (te_pending s') a = Some (due, p)" for a due p
    proof -
      have p: "queue_store (te_pending s) a = Some (due, p)" "pt_trigger_id p \<noteq> i" using c(3) that by simp_all
      then have "armed (te_triggers s) due p" using assms unfolding trig_inv_for_def by blast
      with p(2) show ?thesis by (auto simp: armed_def pending_of_def)
    qed
    then have "trig_inv_for ?kept s'" using c(1) unfolding trig_inv_for_def by blast
    then show ?thesis unfolding s' using c(2) by simp
  qed
  then show "trig_inv (snd (trigger_remove i s))"
    "te_triggers (snd (trigger_remove i s)) = ?kept" by blast+
qed

inductive trigger_engines :: "'c trigger_engine \<Rightarrow> bool" where
  fresh_engine: "trigger_engines trigger_engine_default"
| after_insert: "trigger_engines s \<Longrightarrow> trigger_engines (snd (trigger_insert t s))"
| after_ingest: "trigger_engines s \<Longrightarrow> trigger_engines (snd (trigger_ingest e s))"
| after_poll: "trigger_engines s \<Longrightarrow> trigger_engines (snd (trigger_poll now ctx s))"
| after_cancel_action: "trigger_engines s \<Longrightarrow> trigger_engines (snd (trigger_cancel_action a s))"
| after_cancel_trigger: "trigger_engines s \<Longrightarrow> trigger_engines (snd (cancel_trigger i s))"
| after_remove: "trigger_engines s \<Longrightarrow> trigger_engines (snd (trigger_remove i s))"

lemma trigger_engines_inv: "trigger_engines s \<Longrightarrow> trig_inv s"
proof (induction rule: trigger_engines.induct)
  case (after_ingest s e)
  then show ?case using trigger_ingest_effect(1) [of s e] by (metis prod.collapse)
next
  case (after_cancel_action s a)
  then show ?case using drop_pending_inv [of "te_triggers s" s a] by (simp add: trigger_cancel_action_def)
next
  case (after_cancel_trigger s i)
  then show ?case using cancel_trigger_effect(1,2) [of "te_triggers s" s i] by simp
next
  case (after_poll s now ctx)
  then show ?case by (blast intro: trigger_poll_effect(1))
next
  case (after_remove s i)
  then show ?case by (blast intro: trigger_remove_inv(1))
qed (simp_all add: trig_inv_default trigger_insert_inv)

text \<open>Every firing of a trigger has a cause. Whatever events, polls, cancellations and removals went before,
  a trigger that fires is registered at that moment, with the very intents it fires; an event its filter
  matches armed it; the time it was scheduled for is exactly the time of that event plus the delay of the
  trigger, and has come; its conditions hold in the context of the poll. So a removed trigger never fires,
  not even for an event that came before its removal, and not even when the same name is registered again.
\<close>
theorem triggers_fire_with_cause:
  assumes "trigger_engines s" "f \<in> set (fst (trigger_poll now ctx s))"
  shows "\<exists>t \<in> set (te_triggers s). \<exists>e. tf_trigger_id f = tr_id t \<and> tf_intents f = tr_intents t
    \<and> filter_matches (tr_filter t) e \<and> tf_event_timestamp_ms f = ae_timestamp_ms e
    \<and> unat (tf_scheduled_for_ms f) = unat (ae_timestamp_ms e) + unat (tr_delay_ms t)
    \<and> tf_scheduled_for_ms f \<le> now \<and> conditions_match (tr_conditions t) ctx"
proof -
  note inv = trigger_engines_inv [OF assms(1)]
  obtain a due p where p: "queue_store (te_pending s) a = Some (due, p)" "due \<le> now" "conditions_match (pt_conditions p) ctx"
    "f = trigger_fire_of \<lparr>sa_id = a, sa_target_frame = due, sa_action = p\<rparr>"
    using trigger_poll_effect(4) [OF inv] assms(2) by blast
  have "armed (te_triggers s) due p" using inv p(1) unfolding trig_inv_for_def by blast
  then obtain t e where "t \<in> set (te_triggers s)" "p = pending_of e t" "filter_matches (tr_filter t) e"
    "checked_add (ae_timestamp_ms e) (tr_delay_ms t) = Some due" unfolding armed_def by blast
  then show ?thesis using p(2-4)
    by (intro bexI [of _ t] exI [of _ e]) (simp_all add: trigger_fire_of_def pending_of_def checked_simps)
qed

text \<open>An event reaches every trigger it matches, exactly once per registered trigger: when it is taken in,
  as many actions are armed as there are matching triggers, and a poll at or after the time of the event
  plus the delay fires each of them whose conditions then hold. An event that is refused leaves what
  waits untouched.
\<close>
theorem events_reach_their_triggers:
  assumes "trigger_engines s" "trigger_ingest e s = (r, s')"
  shows "case r of
      Inl _ \<Rightarrow> queue_store (te_pending s') = queue_store (te_pending s)
    | Inr ids \<Rightarrow> length ids = length (filter (\<lambda>t. filter_matches (tr_filter t) e) (te_triggers s))
        \<and> (\<forall>t \<in> set (te_triggers s). filter_matches (tr_filter t) e \<and> conditions_match (tr_conditions t) ctx
             \<and> unat (ae_timestamp_ms e) + unat (tr_delay_ms t) \<le> unat now \<longrightarrow>
            (\<exists>f \<in> set (fst (trigger_poll now ctx s')). tf_trigger_id f = tr_id t \<and> tf_intents f = tr_intents t
               \<and> tf_event_timestamp_ms f = ae_timestamp_ms e))"
proof (cases r)
  case (Inl err)
  then show ?thesis using trigger_ingest_effect(2) [OF trigger_engines_inv [OF assms(1)] assms(2)] by simp
next
  case (Inr ids)
  note inv = trigger_engines_inv [OF assms(1)]
  note res = trigger_ingest_effect(2) [OF inv assms(2), unfolded Inr sum.case]
  have inv': "trig_inv s'" using trigger_ingest_effect(1) [OF inv assms(2)] by blast
  have "\<exists>f \<in> set (fst (trigger_poll now ctx s')). tf_trigger_id f = tr_id t \<and> tf_intents f = tr_intents t
      \<and> tf_event_timestamp_ms f = ae_timestamp_ms e"
    if t: "t \<in> set (te_triggers s)" "filter_matches (tr_filter t) e" "conditions_match (tr_conditions t) ctx"
      "unat (ae_timestamp_ms e) + unat (tr_delay_ms t) \<le> unat now" for t
  proof -
    obtain a due where a: "checked_add (ae_timestamp_ms e) (tr_delay_ms t) = Some due"
      "queue_store (te_pending s') a = Some (due, pending_of e t)" using res t(1,2) by blast
    let ?f = "trigger_fire_of \<lparr>sa_id = a, sa_target_frame = due, sa_action = pending_of e t\<rparr>"
    have "due \<le> now" using a(1) t(4) by (simp add: checked_simps word_le_nat_alt)
    moreover have "conditions_match (pt_conditions (pending_of e t)) ctx" using t(3) by (simp add: pending_of_def)
    ultimately have "?f \<in> set (fst (trigger_poll now ctx s'))"
      using trigger_poll_effect(4) [OF inv', of ?f now ctx] a(2) by blast
    then show ?thesis by (rule bexI [rotated]) (simp add: trigger_fire_of_def pending_of_def)
  qed
  then show ?thesis using res Inr by auto
qed


definition tally_trigger :: "nat trigger" where
  "tally_trigger = \<lparr>tr_id = ''tally'', tr_filter = \<lparr>ef_kind = ''cut'', ef_source = None, ef_conditions = []\<rparr>,
     tr_delay_ms = 40, tr_conditions = [], tr_intents = [Discrete 3]\<rparr>"

definition cut_event :: automation_event where
  "cut_event = \<lparr>ae_kind = ''cut'', ae_source = Some ''panel'', ae_fields = [], ae_timestamp_ms = 100\<rparr>"

definition tally_engine :: "nat trigger_engine" where
  "tally_engine = snd (trigger_insert tally_trigger trigger_engine_default)"

lemmas trigger_eval = tally_engine_def trigger_insert_def trigger_engine_default_def trigger_ingest_def filter_matches_def
  conditions_match_def tally_trigger_def cut_event_def action_queue_default_def and_then_def ok_or_def checked_add_def
  schedule_action_def allocate_id_def insert_action_def Let_def pending_of_def

lemma tally_engines: "trigger_engines tally_engine" "trigger_engines (snd (trigger_ingest cut_event tally_engine))"
  unfolding tally_engine_def by (intro trigger_engines.intros)+

lemma tally_ingest: "fst (trigger_ingest cut_event tally_engine) = Inr [1]"
  by (simp add: trigger_eval)

lemma tally_fires: "fst (trigger_poll 150 [] (snd (trigger_ingest cut_event tally_engine))) =
    [\<lparr>tf_trigger_id = ''tally'', tf_event_timestamp_ms = 100, tf_scheduled_for_ms = 140, tf_intents = [Discrete 3]\<rparr>]"
  by (simp add: trigger_eval trigger_poll_def drain_due_def bt_range_to_def cancel_action_def trigger_fire_of_def)


theorem triggers_fire_with_cause_witness:
  "\<exists>f \<in> set (fst (trigger_poll 150 [] (snd (trigger_ingest cut_event tally_engine)))).
     \<exists>t \<in> set (te_triggers (snd (trigger_ingest cut_event tally_engine))). \<exists>e. tf_trigger_id f = tr_id t \<and> tf_intents f = tr_intents t
       \<and> filter_matches (tr_filter t) e \<and> unat (tf_scheduled_for_ms f) = unat (ae_timestamp_ms e) + unat (tr_delay_ms t)"
proof -
  let ?f = "hd (fst (trigger_poll 150 [] (snd (trigger_ingest cut_event tally_engine))))"
  have f: "?f \<in> set (fst (trigger_poll 150 [] (snd (trigger_ingest cut_event tally_engine))))"
    by (simp only: tally_fires list.sel list.set_intros)
  show ?thesis using triggers_fire_with_cause [OF tally_engines(2) f] f by blast
qed

theorem events_reach_their_triggers_witness:
  "\<exists>f \<in> set (fst (trigger_poll 150 [] (snd (trigger_ingest cut_event tally_engine)))).
     tf_trigger_id f = ''tally'' \<and> tf_intents f = [Discrete 3] \<and> tf_event_timestamp_ms f = 100"
proof -
  have "tally_trigger \<in> set (te_triggers tally_engine)" "filter_matches (tr_filter tally_trigger) cut_event"
    "conditions_match (tr_conditions tally_trigger) []"
    "unat (ae_timestamp_ms cut_event) + unat (tr_delay_ms tally_trigger) \<le> unat (150 :: u64)"
    by (simp_all add: trigger_eval)
  moreover have "tr_id tally_trigger = ''tally''" "tr_intents tally_trigger = [Discrete 3]" "ae_timestamp_ms cut_event = 100"
    by (simp_all add: tally_trigger_def cut_event_def)
  moreover have "trigger_ingest cut_event tally_engine = (Inr [1], snd (trigger_ingest cut_event tally_engine))"
    using tally_ingest by (metis prod.collapse)
  ultimately show ?thesis
    using events_reach_their_triggers [OF tally_engines(1), of cut_event "Inr [1]" _ "[]" 150] by fastforce
qed

end
