(* ===== verification/Programmed_Go.thy ===== *)
theory Programmed_Go
  imports Automation Scheduler_Queues Media_Types
begin

text \<open>
  The programmed GOs of \<open>crates/features/fm-automation\<close> (\<open>go.rs\<close>): a list of intents and delays per input,
  planned into offsets, started under an idempotency key and fired from the action queue of the frame
  scheduler.
\<close>

section \<open>Programmed GOs\<close>

definition MAX_GO_START_RECEIPTS :: usize where "MAX_GO_START_RECEIPTS = 256"

datatype 'c go_action = GoIntent "'c command_intent" | GoDelay u64

record 'c planned_go_action =
  pg_index :: usize
  pg_offset_ms :: u64
  pg_intent :: "'c command_intent"

record 'c input_go =
  gp_actions :: "'c planned_go_action list"
  gp_total_duration_ms :: u64

record 'c go_preview =
  gv_input :: input_id
  gv_actions :: "'c planned_go_action list"
  gv_total_duration_ms :: u64

datatype go_engine_error =
    EmptyGo | TooManyActions usize | UnknownGoInput input_id | GoOverflow | RunSequenceExhausted | GoQueue action_error

fun plan_actions :: "'c go_action list \<Rightarrow> u64 \<Rightarrow> 'c planned_go_action list \<Rightarrow> go_engine_error + ('c planned_go_action list \<times> u64)" where
  "plan_actions [] offset planned = Inr (planned, offset)"
| "plan_actions (GoDelay d # as) offset planned =
     (case checked_add offset d of None \<Rightarrow> Inl GoOverflow | Some offset' \<Rightarrow> plan_actions as offset' planned)"
| "plan_actions (GoIntent c # as) offset planned =
     (if length planned = MAX_TRANSACTION_COMMANDS then Inl (TooManyActions MAX_TRANSACTION_COMMANDS)
      else plan_actions as offset (planned @ [\<lparr>pg_index = length planned, pg_offset_ms = offset, pg_intent = c\<rparr>]))"

definition input_go_new :: "'c go_action list \<Rightarrow> go_engine_error + 'c input_go" where
  "input_go_new as =
     and_then (plan_actions as 0 []) (\<lambda>(planned, offset).
       if planned = [] then Inl EmptyGo else Inr \<lparr>gp_actions = planned, gp_total_duration_ms = offset\<rparr>)"

record 'c pending_go =
  pd_run_id :: u64
  pd_action :: "'c planned_go_action"

record 'c go_start =
  gs_run_id :: u64
  gs_replayed :: bool
  gs_preview :: "'c go_preview"

record 'c go_action_fire =
  gf_run_id :: u64
  gf_scheduled_for_ms :: u64
  gf_action :: "'c planned_go_action"

record 'c go_engine =
  ge_programs :: "input_id \<rightharpoonup> 'c input_go"
  ge_queue :: "'c pending_go action_queue"
  ge_action_ids :: "u64 \<rightharpoonup> action_id list"
  ge_active :: "u64 set"
  ge_starts :: "(idempotency_key, input_id \<times> u64) btree"
  ge_start_order :: "idempotency_key list"
  ge_next_run_id :: u64

definition go_engine_default :: "'c go_engine" where
  "go_engine_default =
     \<lparr>ge_programs = Map.empty, ge_queue = action_queue_default, ge_action_ids = Map.empty, ge_active = {},
      ge_starts = [], ge_start_order = [], ge_next_run_id = 0\<rparr>"

definition go_program :: "input_id \<Rightarrow> 'c input_go \<Rightarrow> 'c go_engine \<Rightarrow> 'c input_go option \<times> 'c go_engine" where
  "go_program input p g = (ge_programs g input, g\<lparr>ge_programs := (ge_programs g)(input \<mapsto> p)\<rparr>)"

definition go_preview_of :: "'c go_engine \<Rightarrow> input_id \<Rightarrow> 'c go_preview option" where
  "go_preview_of g input =
     map_option (\<lambda>p. \<lparr>gv_input = input, gv_actions = gp_actions p, gv_total_duration_ms = gp_total_duration_ms p\<rparr>)
       (ge_programs g input)"

fun go_targets :: "u64 \<Rightarrow> 'c planned_go_action list \<Rightarrow> go_engine_error + u64 list" where
  "go_targets now_ms [] = Inr []"
| "go_targets now_ms (a # as) =
     and_then (ok_or (checked_add now_ms (pg_offset_ms a)) GoOverflow) (\<lambda>t.
       and_then (go_targets now_ms as) (\<lambda>ts. Inr (t # ts)))"

definition cancel_all :: "action_id list \<Rightarrow> 'a action_queue \<Rightarrow> 'a action_queue" where
  "cancel_all ids q = fold (\<lambda>i q. snd (cancel_action i q)) ids q"

fun schedule_run ::
  "u64 \<Rightarrow> ('c planned_go_action \<times> u64) list \<Rightarrow> action_id list \<Rightarrow> (go_engine_error, action_id list, 'c pending_go action_queue) meth" where
  "schedule_run run [] ids q = (Inr ids, q)"
| "schedule_run run ((a, target) # as) ids q =
     (case schedule_action target \<lparr>pd_run_id = run, pd_action = a\<rparr> q of
        (Inl e, q') \<Rightarrow> (Inl (GoQueue e), cancel_all ids q')
      | (Inr i, q') \<Rightarrow> schedule_run run as (ids @ [i]) q')"

fun expire_starts ::
  "idempotency_key list \<Rightarrow> (idempotency_key, input_id \<times> u64) btree
   \<Rightarrow> idempotency_key list \<times> (idempotency_key, input_id \<times> u64) btree" where
  "expire_starts [] starts = ([], starts)"
| "expire_starts (k # ks) starts =
     (if length starts \<ge> MAX_GO_START_RECEIPTS then expire_starts ks (bt_remove k starts) else (k # ks, starts))"

definition remember_start :: "idempotency_key \<Rightarrow> input_id \<Rightarrow> u64 \<Rightarrow> 'c go_engine \<Rightarrow> 'c go_engine" where
  "remember_start key input run g =
     (case expire_starts (ge_start_order g) (ge_starts g) of (order, starts) \<Rightarrow>
        g\<lparr>ge_start_order := order @ [key], ge_starts := bt_insert key (input, run) starts\<rparr>)"

definition go_begin :: "input_id \<Rightarrow> idempotency_key \<Rightarrow> u64 \<Rightarrow> (go_engine_error, 'c go_start, 'c go_engine) meth" where
  "go_begin input key now_ms g =
     (case map_of (ge_starts g) key of
        Some (started, run) \<Rightarrow>
          (case go_preview_of g started of
             None \<Rightarrow> (Inl (UnknownGoInput started), g)
           | Some preview \<Rightarrow> (Inr \<lparr>gs_run_id = run, gs_replayed = True, gs_preview = preview\<rparr>, g))
      | None \<Rightarrow>
          (case go_preview_of g input of
             None \<Rightarrow> (Inl (UnknownGoInput input), g)
           | Some preview \<Rightarrow>
               (case checked_add (ge_next_run_id g) 1 of
                  None \<Rightarrow> (Inl RunSequenceExhausted, g)
                | Some run \<Rightarrow>
                    (case go_targets now_ms (gv_actions preview) of
                       Inl e \<Rightarrow> (Inl e, g)
                     | Inr targets \<Rightarrow>
                         (case schedule_run run (zip (gv_actions preview) targets) [] (ge_queue g) of
                            (Inl e, q) \<Rightarrow> (Inl e, g\<lparr>ge_queue := q\<rparr>)
                          | (Inr ids, q) \<Rightarrow>
                              (Inr \<lparr>gs_run_id = run, gs_replayed = False, gs_preview = preview\<rparr>,
                               remember_start key input run
                                 (g\<lparr>ge_queue := q, ge_next_run_id := run,
                                   ge_action_ids := (ge_action_ids g)(run \<mapsto> ids),
                                   ge_active := insert run (ge_active g)\<rparr>)))))))"

definition go_started :: "idempotency_key \<Rightarrow> 'c go_engine \<Rightarrow> u64 option" where
  "go_started key g = map_option snd (map_of (ge_starts g) key)"

definition go_cancel :: "u64 \<Rightarrow> 'c go_engine \<Rightarrow> bool \<times> 'c go_engine" where
  "go_cancel run g =
     (if run \<notin> ge_active g then (False, g)
      else let g1 = g\<lparr>ge_active := ge_active g - {run}\<rparr> in
        (True, case ge_action_ids g run of
            None \<Rightarrow> g1
          | Some ids \<Rightarrow>
              g1\<lparr>ge_action_ids := (ge_action_ids g)(run := None), ge_queue := cancel_all ids (ge_queue g)\<rparr>))"

fun fire_due :: "'c pending_go scheduled_action list \<Rightarrow> 'c go_action_fire list \<Rightarrow> 'c go_engine \<Rightarrow> 'c go_action_fire list \<times> 'c go_engine" where
  "fire_due [] fired g = (fired, g)"
| "fire_due (x # due) fired g =
     (let run = pd_run_id (sa_action x) in
      if run \<notin> ge_active g then fire_due due fired g
      else let g' = (case ge_action_ids g run of
                 None \<Rightarrow> g
               | Some ids \<Rightarrow>
                   let ids' = filter (\<lambda>i. i \<noteq> sa_id x) ids in
                   if ids' = [] then g\<lparr>ge_action_ids := (ge_action_ids g)(run := None), ge_active := ge_active g - {run}\<rparr>
                   else g\<lparr>ge_action_ids := (ge_action_ids g)(run \<mapsto> ids')\<rparr>)
        in fire_due due (fired @ [\<lparr>gf_run_id = run, gf_scheduled_for_ms = sa_target_frame x, gf_action = pd_action (sa_action x)\<rparr>]) g')"

definition go_poll :: "u64 \<Rightarrow> 'c go_engine \<Rightarrow> 'c go_action_fire list \<times> 'c go_engine" where
  "go_poll now_ms g = (case drain_due now_ms (ge_queue g) of (due, q) \<Rightarrow> fire_due due [] (g\<lparr>ge_queue := q\<rparr>))"

section \<open>Every action of a started GO fires once\<close>

text \<open>
  The bookkeeping of runs over what waits: \<open>st\<close> is the content of the queue, or, inside a poll, what is
  left of it. Every waiting action is listed with its run, a listed run is active and has something left
  to wait for, and no action of a run waits twice.
\<close>

definition runs_inv :: "'c pending_go timed_store \<Rightarrow> 'c go_engine \<Rightarrow> bool" where
  "runs_inv st g \<longleftrightarrow> ge_active g = dom (ge_action_ids g)
     \<and> (\<forall>a t p. st a = Some (t, p) \<longrightarrow> (\<exists>ids. ge_action_ids g (pd_run_id p) = Some ids \<and> a \<in> set ids))
     \<and> (\<forall>r ids. ge_action_ids g r = Some ids \<longrightarrow> ids \<noteq> [] \<and> r \<le> ge_next_run_id g
          \<and> (\<forall>a \<in> set ids. \<exists>t p. st a = Some (t, p) \<and> pd_run_id p = r))
     \<and> (\<forall>a t p b u p'. st a = Some (t, p) \<longrightarrow> st b = Some (u, p') \<longrightarrow> pd_run_id p = pd_run_id p' \<longrightarrow>
          pg_index (pd_action p) = pg_index (pd_action p') \<longrightarrow> a = b)"

definition programs_inv :: "'c go_engine \<Rightarrow> bool" where
  "programs_inv g \<longleftrightarrow> (\<forall>input p. ge_programs g input = Some p \<longrightarrow>
     gp_actions p \<noteq> [] \<and> distinct (map pg_index (gp_actions p)))"

definition go_inv_of :: "'c go_engine \<Rightarrow> bool" where
  "go_inv_of g \<longleftrightarrow> queue_inv (ge_queue g) \<and> runs_inv (queue_store (ge_queue g)) g \<and> programs_inv g"

lemma runs_invD:
  assumes "runs_inv st g"
  shows "ge_active g = dom (ge_action_ids g)"
    and "st a = Some (t, p) \<Longrightarrow> \<exists>ids. ge_action_ids g (pd_run_id p) = Some ids \<and> a \<in> set ids"
    and "ge_action_ids g r = Some ids \<Longrightarrow> ids \<noteq> [] \<and> r \<le> ge_next_run_id g"
    and "ge_action_ids g r = Some ids \<Longrightarrow> a \<in> set ids \<Longrightarrow> \<exists>t p. st a = Some (t, p) \<and> pd_run_id p = r"
    and "st a = Some (t, p) \<Longrightarrow> st b = Some (u, p') \<Longrightarrow> pd_run_id p = pd_run_id p' \<Longrightarrow>
      pg_index (pd_action p) = pg_index (pd_action p') \<Longrightarrow> a = b"
  using assms unfolding runs_inv_def by blast+

lemma go_inv_default: "go_inv_of go_engine_default"
  by (simp add: go_inv_of_def runs_inv_def programs_inv_def go_engine_default_def queue_inv_default queue_store_default)

lemma pending_run_bounded: "runs_inv st g \<Longrightarrow> st a = Some (t, p) \<Longrightarrow> pd_run_id p \<le> ge_next_run_id g"
  using runs_invD(2,3) by metis

lemma plan_actions_indices:
  assumes "plan_actions as offset planned = Inr (ps, dur)" "map pg_index planned = [0..<length planned]"
  shows "map pg_index ps = [0..<length ps]"
  using assms by (induction as offset planned rule: plan_actions.induct) (auto split: option.splits if_splits)

lemma input_go_new_plan: "input_go_new as = Inr p \<Longrightarrow> gp_actions p \<noteq> [] \<and> distinct (map pg_index (gp_actions p))"
  by (auto simp: input_go_new_def result_simps split: if_splits dest!: plan_actions_indices)

lemma cancel_all_store:
  assumes "queue_inv q"
  shows "queue_inv (cancel_all ids q) \<and> queue_store (cancel_all ids q) = queue_store q |` (- set ids)"
  using assms
proof (induction ids arbitrary: q)
  case (Cons i ids)
  note c = queue_cancel(1,2) [OF Cons.prems, of i]
  show ?case using Cons.IH [OF c(1)] c(2) by (auto simp: cancel_all_def restrict_map_def fun_eq_iff)
qed (simp add: cancel_all_def restrict_map_def)

lemma schedule_run_store:
  assumes "queue_inv q" "schedule_run run as ids q = (r, q')"
  shows "queue_inv q' \<and> (case r of
      Inl _ \<Rightarrow> queue_store q' = queue_store q |` (- set ids)
    | Inr ids' \<Rightarrow> (\<exists>new. ids' = ids @ new \<and> length new = length as \<and> distinct new
        \<and> (\<forall>a \<in> set new. queue_store q a = None)
        \<and> queue_store q' = queue_store q ++ map_of (zip new (map (\<lambda>(a, t). (t, \<lparr>pd_run_id = run, pd_action = a\<rparr>)) as))))"
  using assms
proof (induction run as ids q rule: schedule_run.induct)
  case (2 run a target as ids q)
  let ?v = "(target, \<lparr>pd_run_id = run, pd_action = a\<rparr>)"
  from 2(2) show ?case
  proof (cases rule: schedule_action_cases [of q target "\<lparr>pd_run_id = run, pd_action = a\<rparr>"])
    case exhausted
    then show ?thesis using 2(2,3) cancel_all_store [OF 2(2), of ids] by auto
  next
    case (scheduled n q1)
    then have run: "schedule_run run as (ids @ [n]) q1 = (r, q')" using 2(3) by simp
    note IH = 2(1) [OF scheduled(1) [symmetric] refl scheduled(2) run]
    show ?thesis
    proof (cases r)
      case (Inl e)
      then show ?thesis using IH scheduled(3,4) by (auto simp: restrict_map_def fun_eq_iff)
    next
      case (Inr ids')
      obtain new where new: "ids' = ids @ n # new" "length new = length as" "distinct new"
        "\<forall>a \<in> set new. queue_store q1 a = None"
        "queue_store q' = queue_store q1 ++ map_of (zip new (map (\<lambda>(a, t). (t, \<lparr>pd_run_id = run, pd_action = a\<rparr>)) as))"
        using IH Inr by auto
      have n: "n \<notin> set new" "\<forall>a \<in> set new. queue_store q a = None"
        using new(4) unfolding scheduled(4) by (metis fun_upd_apply option.distinct(1))+
      then have "n \<notin> dom (map_of (zip new (map (\<lambda>(a, t). (t, \<lparr>pd_run_id = run, pd_action = a\<rparr>)) as)))"
        using new(2) by simp
      then have "queue_store q' = queue_store q ++ map_of (zip (n # new) (?v # map (\<lambda>(a, t). (t, \<lparr>pd_run_id = run, pd_action = a\<rparr>)) as))"
        unfolding new(5) scheduled(4) by (auto simp: fun_eq_iff map_add_def split: option.splits)
      then show ?thesis using Inr new(1-3) n scheduled(3) IH by (auto intro!: exI [of _ "n # new"])
    qed
  qed
qed (auto simp: restrict_map_def)

text \<open>Starting a run under a number that no run had before.\<close>

lemma runs_inv_add:
  assumes inv: "runs_inv st g" and fresh: "ge_next_run_id g < run"
    and new: "length new = length ps" "distinct new" "\<forall>a \<in> set new. st a = None" "new \<noteq> []"
    and ps: "distinct (map (\<lambda>(a, t). pg_index a) ps)"
    and st': "st' = st ++ map_of (zip new (map (\<lambda>(a, t). (t, \<lparr>pd_run_id = run, pd_action = a\<rparr>)) ps))"
    and g': "ge_active g' = insert run (ge_active g)" "ge_action_ids g' = (ge_action_ids g)(run \<mapsto> new)"
      "ge_next_run_id g' = run"
  shows "runs_inv st' g'"
proof -
  let ?m = "map_of (zip new (map (\<lambda>(a, t). (t, \<lparr>pd_run_id = run, pd_action = a\<rparr>)) ps))"
  have m: "?m a = Some (t, p) \<longleftrightarrow> (\<exists>k < length new. new ! k = a \<and> ps ! k = (pd_action p, t) \<and> pd_run_id p = run)" for a t p
  proof -
    have "?m a = Some (t, p) \<longleftrightarrow> (\<exists>k < length new. new ! k = a \<and> map (\<lambda>(a, t). (t, \<lparr>pd_run_id = run, pd_action = a\<rparr>)) ps ! k = (t, p))"
      using new(1,2) by (subst map_of_zip_nth) auto
    also have "\<dots> \<longleftrightarrow> (\<exists>k < length new. new ! k = a \<and> ps ! k = (pd_action p, t) \<and> pd_run_id p = run)"
      using new(1) by (cases p) (auto simp: split_beta prod_eq_iff)
    finally show ?thesis .
  qed
  have st'_iff: "st' a = Some (t, p) \<longleftrightarrow> ?m a = Some (t, p) \<or> st a = Some (t, p) \<and> a \<notin> set new" for a t p
  proof (cases "a \<in> set new")
    case True
    then have "?m a \<noteq> None" using new(1) by (auto simp: map_of_zip_is_None)
    then show ?thesis using True by (auto simp: st' map_add_def)
  next
    case False
    then have "?m a = None" using new(1) by (simp add: map_of_zip_is_None)
    then show ?thesis using False by (auto simp: st' map_add_def)
  qed
  have none: "ge_action_ids g run = None"
    using runs_invD(3) [OF inv, of run] fresh by (metis leD not_None_eq)
  have old: "pd_run_id p \<noteq> run" if "st a = Some (t, p)" for a t p
    using pending_run_bounded [OF inv that] fresh by auto
  have in_new: "\<exists>k < length new. new ! k = a \<and> ps ! k = (pd_action p, t)" if "st' a = Some (t, p)" "pd_run_id p = run" for a t p
  proof -
    have "?m a = Some (t, p)" using that old [of a t p] unfolding st'_iff by blast
    then show ?thesis unfolding m by blast
  qed
  have in_old: "st a = Some (t, p)" if "st' a = Some (t, p)" "pd_run_id p \<noteq> run" for a t p
    using that m [of a t p] unfolding st'_iff by blast
  have uniq: "a = b" if same: "st' a = Some (t, p)" "st' b = Some (u, p')" "pd_run_id p = pd_run_id p'"
      "pg_index (pd_action p) = pg_index (pd_action p')" for a t p b u p'
  proof (cases "pd_run_id p = run")
    case True
    then obtain k l where kl: "k < length new" "new ! k = a" "ps ! k = (pd_action p, t)"
      "l < length new" "new ! l = b" "ps ! l = (pd_action p', u)"
      using in_new [OF same(1) True] in_new [OF same(2)] same(3) True by auto
    then have "map (\<lambda>(a, t). pg_index a) ps ! k = map (\<lambda>(a, t). pg_index a) ps ! l" using same(4) new(1) kl by simp
    then have "k = l" using ps kl(1,4) new(1) by (metis length_map nth_eq_iff_index_eq)
    then show ?thesis using kl by simp
  next
    case False
    then show ?thesis using in_old [OF same(1)] in_old [OF same(2)] runs_invD(5) [OF inv] same(3,4) by simp
  qed
  have cover: "\<exists>t p. st' a = Some (t, p) \<and> pd_run_id p = run" if "a \<in> set new" for a
  proof -
    obtain k where k: "k < length new" "new ! k = a" using \<open>a \<in> set new\<close> by (auto simp: in_set_conv_nth)
    then have "?m a = Some (snd (ps ! k), \<lparr>pd_run_id = run, pd_action = fst (ps ! k)\<rparr>)" unfolding m by auto
    then show ?thesis using st'_iff by fastforce
  qed
  have keep: "\<exists>t p. st' a = Some (t, p) \<and> pd_run_id p = r" if "ge_action_ids g r = Some ids" "a \<in> set ids" for r ids a
    using runs_invD(4) [OF inv that] new(3) unfolding st'_iff by fastforce
  have listed: "\<exists>ids. ge_action_ids g' (pd_run_id p) = Some ids \<and> a \<in> set ids" if "st' a = Some (t, p)" for a t p
  proof (cases "a \<in> set new")
    case True
    then have "?m a = Some (t, p)" using that st'_iff by blast
    then show ?thesis using True m g'(2) by auto
  next
    case False
    then have "st a = Some (t, p)" using that m [of a t p] unfolding st'_iff by auto
    then show ?thesis using runs_invD(2) [OF inv] old g'(2) by auto
  qed
  have bound: "ids \<noteq> [] \<and> r \<le> run" if "ge_action_ids g r = Some ids" for r ids
    using runs_invD(3) [OF inv that] less_imp_le [OF fresh] by (metis order_trans)
  have ids: "(r = run \<and> ids = new) \<or> (r \<noteq> run \<and> ge_action_ids g r = Some ids)" if "ge_action_ids g' r = Some ids" for r ids
    using that by (auto simp: g' split: if_splits)
  show ?thesis
    unfolding runs_inv_def
  proof (intro conjI allI impI ballI)
    show "ge_active g' = dom (ge_action_ids g')" using runs_invD(1) [OF inv] by (simp add: g')
  next
    fix r ids assume "ge_action_ids g' r = Some ids"
    note r = ids [OF this]
    show "ids \<noteq> []" "r \<le> ge_next_run_id g'" using r bound new(4) by (auto simp: g'(3))
    fix a assume "a \<in> set ids"
    then show "\<exists>t p. st' a = Some (t, p) \<and> pd_run_id p = r" using r cover keep by blast
  qed (use uniq listed in blast)+
qed


lemma remember_start_fields [simp]:
  "ge_queue (remember_start k i r g) = ge_queue g" "ge_action_ids (remember_start k i r g) = ge_action_ids g"
  "ge_active (remember_start k i r g) = ge_active g" "ge_next_run_id (remember_start k i r g) = ge_next_run_id g"
  "ge_programs (remember_start k i r g) = ge_programs g"
  by (simp_all add: remember_start_def split_beta)

lemma go_targets_nth:
  "go_targets now as = Inr ts \<Longrightarrow> length ts = length as \<and> (\<forall>k < length as. unat (ts ! k) = unat now + unat (pg_offset_ms (as ! k)))"
proof (induction as arbitrary: ts)
  case (Cons a as)
  then obtain t us where "checked_add now (pg_offset_ms a) = Some t" "go_targets now as = Inr us" "ts = t # us"
    by (auto simp: result_simps)
  then show ?case using Cons.IH [of us] by (auto simp: nth_Cons checked_simps split: nat.split)
qed simp

lemma runs_inv_fields:
  "ge_active g' = ge_active g \<Longrightarrow> ge_action_ids g' = ge_action_ids g \<Longrightarrow> ge_next_run_id g' = ge_next_run_id g \<Longrightarrow>
   runs_inv st g' \<longleftrightarrow> runs_inv st g"
  by (simp add: runs_inv_def)

text \<open>
  What a start does: it changes nothing that waits, unless it begins a new run; then exactly the actions
  of the program wait in addition, each for the time of the start plus its offset.
\<close>

lemma go_begin_effect:
  assumes "go_inv_of g" "go_begin input key now g = (r, g')"
  shows "(go_inv_of g' \<and> queue_store (ge_queue g') = queue_store (ge_queue g) \<and> ge_next_run_id g' = ge_next_run_id g
      \<and> (\<forall>s. r = Inr s \<longrightarrow> gs_replayed s))
    \<or> (\<exists>run preview new ts. r = Inr \<lparr>gs_run_id = run, gs_replayed = False, gs_preview = preview\<rparr>
        \<and> go_preview_of g input = Some preview \<and> ge_next_run_id g < run \<and> ge_next_run_id g' = run \<and> go_inv_of g'
        \<and> length new = length (gv_actions preview) \<and> distinct new \<and> length ts = length (gv_actions preview)
        \<and> (\<forall>k < length ts. unat (ts ! k) = unat now + unat (pg_offset_ms (gv_actions preview ! k)))
        \<and> queue_store (ge_queue g') = queue_store (ge_queue g)
            ++ map_of (zip new (map (\<lambda>(a, t). (t, \<lparr>pd_run_id = run, pd_action = a\<rparr>)) (zip (gv_actions preview) ts))))"
proof -
  have inv: "queue_inv (ge_queue g)" "runs_inv (queue_store (ge_queue g)) g" "programs_inv g"
    using assms(1) by (simp_all add: go_inv_of_def)
  consider (same) "g' = g" "\<And>s. r = Inr s \<Longrightarrow> gs_replayed s"
    | (sched) preview run ts where "go_preview_of g input = Some preview" "checked_add (ge_next_run_id g) 1 = Some run"
        "go_targets now (gv_actions preview) = Inr ts"
        "(case schedule_run run (zip (gv_actions preview) ts) [] (ge_queue g) of
            (Inl e, q) \<Rightarrow> (Inl e, g\<lparr>ge_queue := q\<rparr>)
          | (Inr ids, q) \<Rightarrow> (Inr \<lparr>gs_run_id = run, gs_replayed = False, gs_preview = preview\<rparr>,
               remember_start key input run (g\<lparr>ge_queue := q, ge_next_run_id := run,
                 ge_action_ids := (ge_action_ids g)(run \<mapsto> ids), ge_active := insert run (ge_active g)\<rparr>))) = (r, g')"
    using assms(2) by (auto simp: go_begin_def split: option.splits sum.splits)
  then show ?thesis
  proof cases
    case same
    then show ?thesis using assms(1) by simp
  next
    case (sched preview run ts)
    obtain r1 q where run: "schedule_run run (zip (gv_actions preview) ts) [] (ge_queue g) = (r1, q)" by fastforce
    note st = schedule_run_store [OF inv(1) run]
    note ts = go_targets_nth [OF sched(3)]
    obtain p where p: "ge_programs g input = Some p" "gv_actions preview = gp_actions p"
      using sched(1) by (auto simp: go_preview_of_def)
    have ps: "gv_actions preview \<noteq> []" "distinct (map pg_index (gv_actions preview))"
      using inv(3) p unfolding programs_inv_def by auto
    have fresh: "ge_next_run_id g < run" using sched(2) by (simp add: checked_simps word_less_nat_alt)
    show ?thesis
    proof (cases r1)
      case (Inl e)
      then have "r = Inl e" "g' = g\<lparr>ge_queue := q\<rparr>" using sched(4) run by simp_all
      moreover have "queue_store q = queue_store (ge_queue g)" using st Inl by (simp add: restrict_map_def)
      ultimately show ?thesis
        using inv st runs_inv_fields [of g' g] by (simp add: go_inv_of_def programs_inv_def)
    next
      case (Inr new)
      then have r: "r = Inr \<lparr>gs_run_id = run, gs_replayed = False, gs_preview = preview\<rparr>"
        and g': "ge_queue g' = q" "ge_active g' = insert run (ge_active g)"
          "ge_action_ids g' = (ge_action_ids g)(run \<mapsto> new)" "ge_next_run_id g' = run" "ge_programs g' = ge_programs g"
        using sched(4) run by auto
      have new: "length new = length (zip (gv_actions preview) ts)" "distinct new"
        "\<forall>a \<in> set new. queue_store (ge_queue g) a = None"
        "queue_store q = queue_store (ge_queue g) ++
          map_of (zip new (map (\<lambda>(a, t). (t, \<lparr>pd_run_id = run, pd_action = a\<rparr>)) (zip (gv_actions preview) ts)))"
        using st Inr by simp_all
      have "map (\<lambda>(a, t). pg_index a) (zip (gv_actions preview) ts) = map pg_index (gv_actions preview)"
        using ts by (simp add: list_eq_iff_nth_eq)
      then have "distinct (map (\<lambda>(a, t). pg_index a) (zip (gv_actions preview) ts))" using ps(2) by simp
      moreover have "new \<noteq> []" using new(1) ts ps(1) by auto
      ultimately have "runs_inv (queue_store q) g'"
        using runs_inv_add [OF inv(2) fresh new(1,2,3) _ _ new(4) g'(2-4)] by blast
      then have "go_inv_of g'" using st inv(3) g' by (simp add: go_inv_of_def programs_inv_def)
      then show ?thesis using r g' new ts fresh sched(1)
        by - (rule disjI2, rule exI [of _ run], rule exI [of _ preview], rule exI [of _ new], rule exI [of _ ts], simp)
    qed
  qed
qed

definition go_fire_of :: "'c pending_go scheduled_action \<Rightarrow> 'c go_action_fire" where
  "go_fire_of x = \<lparr>gf_run_id = pd_run_id (sa_action x), gf_scheduled_for_ms = sa_target_frame x, gf_action = pd_action (sa_action x)\<rparr>"

text \<open>Taking one waiting action off the books of its run.\<close>

lemma runs_inv_take:
  assumes inv: "runs_inv st g" and a: "st a = Some (t, p)"
    and ids: "ge_action_ids g (pd_run_id p) = Some ids" "ids' = filter (\<lambda>i. i \<noteq> a) ids"
    and g': "ge_action_ids g' = (ge_action_ids g)(pd_run_id p := (if ids' = [] then None else Some ids'))"
      "ge_active g' = (if ids' = [] then ge_active g - {pd_run_id p} else ge_active g)" "ge_next_run_id g' = ge_next_run_id g"
  shows "runs_inv (st(a := None)) g'"
  unfolding runs_inv_def
proof (intro conjI allI impI ballI)
  show "ge_active g' = dom (ge_action_ids g')" using runs_invD(1) [OF inv] ids(1) by (auto simp: g' split: if_splits)
next
  fix b u p' assume b: "(st(a := None)) b = Some (u, p')"
  then have "b \<noteq> a" "st b = Some (u, p')" by (auto split: if_splits)
  moreover obtain jds where "ge_action_ids g (pd_run_id p') = Some jds" "b \<in> set jds"
    using runs_invD(2) [OF inv \<open>st b = Some (u, p')\<close>] by blast
  ultimately show "\<exists>ids. ge_action_ids g' (pd_run_id p') = Some ids \<and> b \<in> set ids"
    using ids by (cases "pd_run_id p' = pd_run_id p") (auto simp: g'(1) filter_empty_conv)
next
  fix r jds assume r: "ge_action_ids g' r = Some jds"
  then have old: "\<exists>kds. ge_action_ids g r = Some kds \<and> (\<forall>i \<in> set jds. i \<in> set kds \<and> (i = a \<longrightarrow> r \<noteq> pd_run_id p))"
    using ids by (auto simp: g'(1) split: if_splits)
  show "jds \<noteq> []" "r \<le> ge_next_run_id g'"
    using r runs_invD(3) [OF inv, of r] ids(1) by (auto simp: g' split: if_splits)
  fix b assume "b \<in> set jds"
  then obtain kds where k: "ge_action_ids g r = Some kds" "b \<in> set kds" "b = a \<longrightarrow> r \<noteq> pd_run_id p" using old by blast
  obtain u p' where b: "st b = Some (u, p')" "pd_run_id p' = r" using runs_invD(4) [OF inv k(1,2)] by blast
  then have "b \<noteq> a" using k(3) a by auto
  with b show "\<exists>u p'. (st(a := None)) b = Some (u, p') \<and> pd_run_id p' = r" by simp
next
  fix b u p' c v p''
  assume "(st(a := None)) b = Some (u, p')" "(st(a := None)) c = Some (v, p'')" "pd_run_id p' = pd_run_id p''"
    "pg_index (pd_action p') = pg_index (pd_action p'')"
  then show "b = c" using runs_invD(5) [OF inv, of b u p' c v p''] by (auto split: if_splits)
qed

lemma fire_due_effect:
  assumes "runs_inv st g" "\<forall>x \<in> set due. st (sa_id x) = Some (sa_target_frame x, sa_action x)" "distinct (map sa_id due)"
    and "fire_due due fired g = (fs, g')"
  shows "fs = fired @ map go_fire_of due \<and> runs_inv (st |` (- (sa_id ` set due))) g' \<and> ge_queue g' = ge_queue g
    \<and> ge_programs g' = ge_programs g \<and> ge_next_run_id g' = ge_next_run_id g"
  using assms
proof (induction due arbitrary: st fired g)
  case Nil
  then show ?case by (simp add: restrict_map_def)
next
  case (Cons x due)
  let ?run = "pd_run_id (sa_action x)"
  have x: "st (sa_id x) = Some (sa_target_frame x, sa_action x)" using Cons.prems(2) by simp
  obtain ids where ids: "ge_action_ids g ?run = Some ids" using runs_invD(2) [OF Cons.prems(1) x] by blast
  have active: "?run \<in> ge_active g" using runs_invD(1) [OF Cons.prems(1)] ids by auto
  define ids' where "ids' = filter (\<lambda>i. i \<noteq> sa_id x) ids"
  define g1 where "g1 = (if ids' = [] then g\<lparr>ge_action_ids := (ge_action_ids g)(?run := None), ge_active := ge_active g - {?run}\<rparr>
    else g\<lparr>ge_action_ids := (ge_action_ids g)(?run \<mapsto> ids')\<rparr>)"
  have step: "fire_due due (fired @ [go_fire_of x]) g1 = (fs, g')"
    using Cons.prems(4) active ids by (cases "ids' = []") (simp_all add: Let_def g1_def ids'_def go_fire_of_def)
  have inv1: "runs_inv (st(sa_id x := None)) g1"
    by (rule runs_inv_take [OF Cons.prems(1) x ids ids'_def]) (auto simp: g1_def)
  have rest: "\<forall>y \<in> set due. (st(sa_id x := None)) (sa_id y) = Some (sa_target_frame y, sa_action y)" "distinct (map sa_id due)"
    using Cons.prems(2,3) by (auto simp: image_iff)
  have store: "(st(sa_id x := None)) |` (- (sa_id ` set due)) = st |` (- (sa_id ` set (x # due)))"
    by (auto simp: restrict_map_def fun_eq_iff)
  have "ge_queue g1 = ge_queue g" "ge_programs g1 = ge_programs g" "ge_next_run_id g1 = ge_next_run_id g"
    by (simp_all add: g1_def)
  then show ?case using Cons.IH [OF inv1 rest step] unfolding store by simp
qed

lemma go_poll_effect:
  assumes "go_inv_of g" "go_poll now g = (fs, g')"
  shows "go_inv_of g'" "ge_next_run_id g' = ge_next_run_id g"
    and "queue_store (ge_queue g') = drop_due (queue_store (ge_queue g)) now"
    and "\<exists>due. fs = map go_fire_of due \<and> distinct (map sa_id due) \<and> set due = due_actions (queue_store (ge_queue g)) now
      \<and> sorted_wrt (\<lambda>x y. action_key x < action_key y) due"
proof -
  define due where "due = fst (drain_due now (ge_queue g))"
  define g0 where "g0 = g\<lparr>ge_queue := snd (drain_due now (ge_queue g))\<rparr>"
  have inv: "queue_inv (ge_queue g)" "runs_inv (queue_store (ge_queue g)) g" "programs_inv g"
    using assms(1) by (simp_all add: go_inv_of_def)
  note d = queue_drain [OF inv(1), of now]
  have due: "set due = due_actions (queue_store (ge_queue g)) now" using d(4) by (simp add: due_def)
  have ids: "distinct (map sa_id due)" unfolding due_def by (rule aq.drained_distinct_ids [OF inv(1)])
  have "runs_inv (queue_store (ge_queue g)) g0" using inv(2) by (simp add: g0_def runs_inv_def)
  moreover have "\<forall>x \<in> set due. queue_store (ge_queue g) (sa_id x) = Some (sa_target_frame x, sa_action x)"
    by (simp add: due due_actions_def)
  moreover have "fire_due due [] g0 = (fs, g')" using assms(2) by (simp add: go_poll_def due_def g0_def split_beta)
  ultimately have f: "fs = map go_fire_of due" "runs_inv (queue_store (ge_queue g) |` (- (sa_id ` set due))) g'"
    "ge_queue g' = snd (drain_due now (ge_queue g))" "ge_programs g' = ge_programs g" "ge_next_run_id g' = ge_next_run_id g"
    using fire_due_effect [of "queue_store (ge_queue g)" g0 due "[]" fs g'] ids by (simp_all add: g0_def)
  show st: "queue_store (ge_queue g') = drop_due (queue_store (ge_queue g)) now" by (simp add: f(3) d(3))
  have "queue_store (ge_queue g) |` (- (sa_id ` set due)) = drop_due (queue_store (ge_queue g)) now"
    unfolding due by (rule drop_due_restrict)
  then show "go_inv_of g'" using f(2,3,4) st d(1) inv(3) by (simp add: go_inv_of_def programs_inv_def)
  show "ge_next_run_id g' = ge_next_run_id g" by (fact f(5))
  show "\<exists>due. fs = map go_fire_of due \<and> distinct (map sa_id due) \<and> set due = due_actions (queue_store (ge_queue g)) now
      \<and> sorted_wrt (\<lambda>x y. action_key x < action_key y) due"
    using f(1) ids due d(5) by (auto simp: due_def)
qed


lemma go_cancel_effect:
  assumes "go_inv_of g" "go_cancel run g = (b, g')"
  shows "go_inv_of g'" "ge_next_run_id g' = ge_next_run_id g"
    and "queue_store (ge_queue g') a = Some (t, p) \<longleftrightarrow> queue_store (ge_queue g) a = Some (t, p) \<and> pd_run_id p \<noteq> run"
proof -
  let ?st = "queue_store (ge_queue g)"
  have inv: "queue_inv (ge_queue g)" "runs_inv ?st g" "programs_inv g"
    using assms(1) by (simp_all add: go_inv_of_def)
  have "go_inv_of g' \<and> ge_next_run_id g' = ge_next_run_id g
    \<and> (\<forall>a t p. queue_store (ge_queue g') a = Some (t, p) \<longleftrightarrow> ?st a = Some (t, p) \<and> pd_run_id p \<noteq> run)"
  proof (cases "ge_action_ids g run")
    case None
    then have "run \<notin> ge_active g" using runs_invD(1) [OF inv(2)] by auto
    then have "g' = g" using assms(2) by (simp add: go_cancel_def)
    then show ?thesis using assms(1) runs_invD(2) [OF inv(2)] None by fastforce
  next
    case (Some ids)
    then have "run \<in> ge_active g" using runs_invD(1) [OF inv(2)] by auto
    then have g': "g' = g\<lparr>ge_active := ge_active g - {run}, ge_action_ids := (ge_action_ids g)(run := None),
        ge_queue := cancel_all ids (ge_queue g)\<rparr>"
      using assms(2) Some by (auto simp: go_cancel_def Let_def)
    note c = cancel_all_store [OF inv(1), of ids]
    have own: "a \<in> set ids \<longleftrightarrow> pd_run_id p = run" if "?st a = Some (t, p)" for a t p
    proof
      assume "a \<in> set ids"
      then show "pd_run_id p = run" using runs_invD(4) [OF inv(2) Some] that by (metis Pair_inject option.inject)
    next
      assume "pd_run_id p = run"
      then show "a \<in> set ids" using runs_invD(2) [OF inv(2) that] Some by simp
    qed
    have st: "queue_store (ge_queue g') a = Some (t, p) \<longleftrightarrow> ?st a = Some (t, p) \<and> pd_run_id p \<noteq> run" for a t p
      using c own [of a t p] by (auto simp: g' restrict_map_def)
    have "runs_inv (queue_store (ge_queue g')) g'"
      unfolding runs_inv_def
    proof (intro conjI allI impI ballI)
      show "ge_active g' = dom (ge_action_ids g')" using runs_invD(1) [OF inv(2)] by (auto simp: g')
    next
      fix a t p assume "queue_store (ge_queue g') a = Some (t, p)"
      then show "\<exists>ids. ge_action_ids g' (pd_run_id p) = Some ids \<and> a \<in> set ids"
        using runs_invD(2) [OF inv(2)] st by (simp add: g')
    next
      fix r jds assume "ge_action_ids g' r = Some jds"
      then have r: "r \<noteq> run" "ge_action_ids g r = Some jds" by (auto simp: g' split: if_splits)
      then show "jds \<noteq> []" "r \<le> ge_next_run_id g'" using runs_invD(3) [OF inv(2)] by (auto simp: g')
      fix a assume "a \<in> set jds"
      then show "\<exists>t p. queue_store (ge_queue g') a = Some (t, p) \<and> pd_run_id p = r"
        using runs_invD(4) [OF inv(2) r(2)] r(1) st by blast
    qed (use runs_invD(5) [OF inv(2)] st in blast)
    then show ?thesis using c inv(3) st by (simp add: go_inv_of_def programs_inv_def g')
  qed
  then show "go_inv_of g'" "ge_next_run_id g' = ge_next_run_id g"
    "queue_store (ge_queue g') a = Some (t, p) \<longleftrightarrow> ?st a = Some (t, p) \<and> pd_run_id p \<noteq> run" by blast+
qed

text \<open>An engine with everything that has fired from it so far. Programs come from their constructor.\<close>

inductive go_history :: "'c go_action_fire list \<Rightarrow> 'c go_engine \<Rightarrow> bool" where
  fresh_go: "go_history [] go_engine_default"
| after_go_program: "go_history fs g \<Longrightarrow> input_go_new as = Inr p \<Longrightarrow> go_history fs (snd (go_program input p g))"
| after_go_begin: "go_history fs g \<Longrightarrow> go_begin input key now g = (r, g') \<Longrightarrow> go_history fs g'"
| after_go_cancel: "go_history fs g \<Longrightarrow> go_cancel run g = (b, g') \<Longrightarrow> go_history fs g'"
| after_go_poll: "go_history fs g \<Longrightarrow> go_poll now g = (new, g') \<Longrightarrow> go_history (fs @ new) g'"

abbreviation fire_key :: "'c go_action_fire \<Rightarrow> u64 \<times> usize" where
  "fire_key f \<equiv> (gf_run_id f, pg_index (gf_action f))"

abbreviation pending_key :: "'c pending_go \<Rightarrow> u64 \<times> usize" where
  "pending_key p \<equiv> (pd_run_id p, pg_index (pd_action p))"

definition fired_inv :: "'c go_action_fire list \<Rightarrow> 'c go_engine \<Rightarrow> bool" where
  "fired_inv fs g \<longleftrightarrow> go_inv_of g \<and> distinct (map fire_key fs) \<and> (\<forall>f \<in> set fs. gf_run_id f \<le> ge_next_run_id g)
     \<and> (\<forall>a t p. queue_store (ge_queue g) a = Some (t, p) \<longrightarrow> pending_key p \<notin> fire_key ` set fs)"

lemma fired_inv_begin:
  assumes "fired_inv fs g" "go_begin input key now g = (r, g')"
  shows "fired_inv fs g'"
proof -
  note inv = assms(1) [unfolded fired_inv_def]
  have "go_inv_of g" using inv by blast
  from go_begin_effect [OF this assms(2)] show ?thesis
  proof (elim disjE exE conjE, goal_cases)
    case 1
    then show ?case using inv by (simp add: fired_inv_def)
  next
    case (2 run preview new ts)
    have late: "gf_run_id f < run" if "f \<in> set fs" for f using inv that 2(3) by (blast intro: le_less_trans)
    have "pending_key p \<notin> fire_key ` set fs" if "queue_store (ge_queue g') a = Some (t, p)" for a t p
    proof (cases "queue_store (ge_queue g) a = Some (t, p)")
      case False
      then have "(a, t, p) \<in> set (zip new (map (\<lambda>(a, t). (t, \<lparr>pd_run_id = run, pd_action = a\<rparr>)) (zip (gv_actions preview) ts)))"
        using that unfolding 2(10) by (auto simp: map_add_Some_iff dest: map_of_SomeD)
      then have "pd_run_id p = run" by (auto dest!: set_zip_rightD)
      then show ?thesis using late by fastforce
    qed (use inv in blast)
    then show ?case using inv 2(4,5) late by (auto simp: fired_inv_def intro: less_imp_le)
  qed
qed

lemma fired_inv_poll:
  assumes "fired_inv fs g" "go_poll now g = (new, g')"
  shows "fired_inv (fs @ new) g'"
proof -
  note inv = assms(1) [unfolded fired_inv_def]
  have g: "go_inv_of g" using inv by blast
  note p = go_poll_effect [OF g assms(2)]
  have runs: "runs_inv (queue_store (ge_queue g)) g" using g by (simp add: go_inv_of_def)
  obtain due where due: "new = map go_fire_of due" "distinct (map sa_id due)" "set due = due_actions (queue_store (ge_queue g)) now"
    using p(4) by blast
  have stored: "queue_store (ge_queue g) (sa_id x) = Some (sa_target_frame x, sa_action x)" if "x \<in> set due" for x
    using that by (simp add: due(3) due_actions_def)
  have key: "fire_key (go_fire_of x) = pending_key (sa_action x)" for x :: "'a pending_go scheduled_action"
    by (simp add: go_fire_of_def)
  have "inj_on (\<lambda>x. pending_key (sa_action x)) (set due)"
  proof (rule inj_onI)
    fix x y assume xy: "x \<in> set due" "y \<in> set due" "pending_key (sa_action x) = pending_key (sa_action y)"
    then have "sa_id x = sa_id y" using runs_invD(5) [OF runs stored [OF xy(1)] stored [OF xy(2)]] by simp
    then show "x = y" using stored [OF xy(1)] stored [OF xy(2)] by (simp add: scheduled_action.equality)
  qed
  then have "distinct (map fire_key new)"
    using due(2) by (simp add: due(1) comp_def key distinct_map inj_on_def)
  moreover have "fire_key ` set fs \<inter> fire_key ` set new = {}"
  proof -
    have "k \<notin> fire_key ` set fs" if k: "k \<in> fire_key ` set new" for k
    proof -
      obtain x where x: "x \<in> set due" "k = pending_key (sa_action x)" using k by (auto simp: due(1) key)
      show ?thesis unfolding x(2) using inv stored [OF x(1)] by blast
    qed
    then show ?thesis by blast
  qed
  moreover have "gf_run_id f \<le> ge_next_run_id g'" if "f \<in> set new" for f
    using that pending_run_bounded [OF runs stored] p(2) by (auto simp: due(1) go_fire_of_def)
  moreover have "pending_key q \<notin> fire_key ` set (fs @ new)" if "queue_store (ge_queue g') a = Some (t, q)" for a t q
  proof -
    have q: "queue_store (ge_queue g) a = Some (t, q)" "\<not> t \<le> now"
      using that by (auto simp: p(3) drop_due_def split: option.splits if_splits)
    have "pending_key q \<noteq> pending_key (sa_action x)" if "x \<in> set due" for x
      using runs_invD(5) [OF runs q(1) stored [OF that]] q stored [OF that] that by (auto simp: due(3) due_actions_def)
    then have "pending_key q \<notin> fire_key ` set new" by (auto simp: due(1) go_fire_of_def) blast
    moreover have "pending_key q \<notin> fire_key ` set fs" using inv q(1) by blast
    ultimately show ?thesis unfolding set_append image_Un by blast
  qed
  ultimately show ?thesis using inv p(1,2) by (auto simp: fired_inv_def)
qed

lemma go_history_inv: "go_history fs g \<Longrightarrow> fired_inv fs g"
proof (induction rule: go_history.induct)
  case fresh_go
  have "queue_store (ge_queue go_engine_default) = Map.empty" by (simp add: go_engine_default_def queue_store_default)
  then show ?case using go_inv_default by (simp add: fired_inv_def)
next
  case (after_go_program fs g as p input)
  have "runs_inv st (snd (go_program input p g)) \<longleftrightarrow> runs_inv st g" for st
    by (rule runs_inv_fields) (simp_all add: go_program_def)
  then show ?case
    using after_go_program input_go_new_plan [of as p]
    by (auto simp: fired_inv_def go_inv_of_def programs_inv_def go_program_def)
next
  case (after_go_begin fs g input key now r g')
  then show ?case by (blast intro: fired_inv_begin)
next
  case (after_go_cancel fs g run b g')
  have "go_inv_of g" using after_go_cancel(3) by (simp add: fired_inv_def)
  from go_cancel_effect [OF this after_go_cancel(2)] after_go_cancel(3) show ?case
    unfolding fired_inv_def by (simp, blast)
next
  case (after_go_poll fs g now new g')
  then show ?case by (blast intro: fired_inv_poll)
qed

text \<open>C30: An action of a programmed GO fires at most once. Whatever programs, starts, repeated starts,
  cancellations and polls an engine has seen, no action of a run occurs twice among all that fired.
\<close>
theorem go_actions_fire_at_most_once:
  assumes "go_history fs g"
  shows "distinct (map (\<lambda>f. (gf_run_id f, pg_index (gf_action f))) fs)"
  using go_history_inv [OF assms] by (simp add: fired_inv_def)

text \<open>A started GO does what it announced. A start that is not a repetition opens a run under a new number,
  and a poll at or after the time of the start plus the offset of an action of the preview fires that
  action, for exactly that time; a run that is cancelled meanwhile fires none of them.
\<close>
theorem started_go_fires_its_actions:
  assumes "go_history fs g" "go_begin input key now g = (Inr s, g')" "\<not> gs_replayed s"
    and "a \<in> set (gv_actions (gs_preview s))" "unat now + unat (pg_offset_ms a) \<le> unat later"
  shows "(\<exists>f \<in> set (fst (go_poll later g')). gf_run_id f = gs_run_id s \<and> gf_action f = a
      \<and> unat (gf_scheduled_for_ms f) = unat now + unat (pg_offset_ms a))
    \<and> (\<forall>f \<in> set (fst (go_poll later (snd (go_cancel (gs_run_id s) g')))). gf_run_id f \<noteq> gs_run_id s)"
proof
  have g: "go_inv_of g" using go_history_inv [OF assms(1)] by (simp add: fired_inv_def)
  obtain new ts where n: "go_inv_of g'" "length new = length (gv_actions (gs_preview s))" "distinct new"
    "length ts = length (gv_actions (gs_preview s))"
    "\<forall>k < length ts. unat (ts ! k) = unat now + unat (pg_offset_ms (gv_actions (gs_preview s) ! k))"
    "queue_store (ge_queue g') = queue_store (ge_queue g)
      ++ map_of (zip new (map (\<lambda>(a, t). (t, \<lparr>pd_run_id = gs_run_id s, pd_action = a\<rparr>)) (zip (gv_actions (gs_preview s)) ts)))"
    using go_begin_effect [OF g assms(2)] assms(3) by auto
  obtain k where k: "k < length new" "gv_actions (gs_preview s) ! k = a" using assms(4) n(2) by (auto simp: in_set_conv_nth)
  define x where "x = \<lparr>sa_id = new ! k, sa_target_frame = ts ! k, sa_action = \<lparr>pd_run_id = gs_run_id s, pd_action = a\<rparr>\<rparr>"
  have "map_of (zip new (map (\<lambda>(a, t). (t, \<lparr>pd_run_id = gs_run_id s, pd_action = a\<rparr>)) (zip (gv_actions (gs_preview s)) ts))) (new ! k)
      = Some (ts ! k, \<lparr>pd_run_id = gs_run_id s, pd_action = a\<rparr>)"
    using k n(2,3,4) by (subst map_of_zip_nth) (auto intro!: exI [of _ k])
  then have "queue_store (ge_queue g') (new ! k) = Some (ts ! k, \<lparr>pd_run_id = gs_run_id s, pd_action = a\<rparr>)"
    unfolding n(6) by (simp add: map_add_def)
  moreover have t: "unat (ts ! k) = unat now + unat (pg_offset_ms a)" using n(2,4,5) k by auto
  ultimately have "x \<in> due_actions (queue_store (ge_queue g')) later"
    using assms(5) by (simp add: x_def due_actions_def word_le_nat_alt)
  then have "go_fire_of x \<in> set (fst (go_poll later g'))"
    using go_poll_effect(4) [OF n(1), of later "fst (go_poll later g')" "snd (go_poll later g')"] by auto
  then show "\<exists>f \<in> set (fst (go_poll later g')). gf_run_id f = gs_run_id s \<and> gf_action f = a
      \<and> unat (gf_scheduled_for_ms f) = unat now + unat (pg_offset_ms a)"
    by (rule bexI [rotated]) (simp add: go_fire_of_def x_def t)
  define gc where "gc = snd (go_cancel (gs_run_id s) g')"
  have c: "go_inv_of gc" "\<And>a t p. queue_store (ge_queue gc) a = Some (t, p) \<Longrightarrow> pd_run_id p \<noteq> gs_run_id s"
    using go_cancel_effect(1,3) [OF n(1), of "gs_run_id s" "fst (go_cancel (gs_run_id s) g')" gc] by (auto simp: gc_def)
  show "\<forall>f \<in> set (fst (go_poll later (snd (go_cancel (gs_run_id s) g')))). gf_run_id f \<noteq> gs_run_id s"
    using go_poll_effect(4) [OF c(1), of later "fst (go_poll later gc)" "snd (go_poll later gc)"] c(2)
    unfolding gc_def [symmetric] by (auto simp: go_fire_of_def due_actions_def)
qed


definition demo_go :: "nat input_go" where
  "demo_go = \<lparr>gp_actions = [\<lparr>pg_index = 0, pg_offset_ms = 0, pg_intent = Discrete 1\<rparr>,
     \<lparr>pg_index = 1, pg_offset_ms = 20, pg_intent = Discrete 2\<rparr>], gp_total_duration_ms = 20\<rparr>"

definition demo_go_engine :: "nat go_engine" where
  "demo_go_engine = snd (go_program 5 demo_go go_engine_default)"

lemma demo_go_new: "input_go_new [GoIntent (Discrete 1), GoDelay 20, GoIntent (Discrete 2)] = Inr demo_go"
  by (simp add: input_go_new_def demo_go_def and_then_def checked_add_def MAX_TRANSACTION_COMMANDS_def)

lemma demo_go_history: "go_history [] demo_go_engine"
  unfolding demo_go_engine_def by (rule after_go_program [OF fresh_go demo_go_new])

definition demo_go_begun :: "(go_engine_error + nat go_start) \<times> nat go_engine" where
  "demo_go_begun = go_begin 5 ''key'' 100 demo_go_engine"

lemmas go_eval = demo_go_begun_def demo_go_engine_def demo_go_def go_program_def go_engine_default_def go_begin_def
  go_preview_of_def checked_add_def ok_or_def and_then_def schedule_action_def allocate_id_def insert_action_def
  action_queue_default_def remember_start_def MAX_GO_START_RECEIPTS_def Let_def

lemma demo_go_begun: "fst demo_go_begun = Inr \<lparr>gs_run_id = 1, gs_replayed = False,
    gs_preview = \<lparr>gv_input = 5, gv_actions = gp_actions demo_go, gv_total_duration_ms = 20\<rparr>\<rparr>"
  by (simp add: go_eval)

lemma demo_go_poll: "map fire_key (fst (go_poll 130 (snd demo_go_begun))) = [(1, 0), (1, 1)]"
  by (simp add: go_eval go_poll_def drain_due_def bt_range_to_def bt_remove_def cancel_action_def)


theorem go_actions_fire_at_most_once_witness:
  "distinct (map (\<lambda>f. (gf_run_id f, pg_index (gf_action f))) (fst (go_poll 130 (snd demo_go_begun))))
   \<and> length (fst (go_poll 130 (snd demo_go_begun))) = 2"
proof -
  have "go_history ([] @ fst (go_poll 130 (snd demo_go_begun))) (snd (go_poll 130 (snd demo_go_begun)))"
    by (rule after_go_poll [OF after_go_begin [OF demo_go_history]]) (simp_all add: demo_go_begun_def prod_eq_iff)
  moreover have "length (map fire_key (fst (go_poll 130 (snd demo_go_begun)))) = 2" by (simp only: demo_go_poll list.size)
  ultimately show ?thesis using go_actions_fire_at_most_once by fastforce
qed

theorem started_go_fires_its_actions_witness:
  "\<exists>f \<in> set (fst (go_poll 130 (snd demo_go_begun))). gf_run_id f = 1 \<and> pg_intent (gf_action f) = Discrete 2
     \<and> unat (gf_scheduled_for_ms f) = 120"
proof -
  let ?s = "\<lparr>gs_run_id = 1, gs_replayed = False,
    gs_preview = \<lparr>gv_input = 5, gv_actions = gp_actions demo_go, gv_total_duration_ms = 20\<rparr>\<rparr>"
  let ?a = "\<lparr>pg_index = 1, pg_offset_ms = 20, pg_intent = Discrete 2\<rparr>"
  have "go_begin 5 ''key'' 100 demo_go_engine = (Inr ?s, snd demo_go_begun)"
    using demo_go_begun by (metis demo_go_begun_def prod.collapse)
  from started_go_fires_its_actions [OF demo_go_history this, of ?a 130] show ?thesis
    by (auto simp: demo_go_def)
qed

end
