(* ===== verification/Replay_Storage.thy ===== *)
theory Replay_Storage
  imports Media_Types BTree
begin

text \<open>
  The storage side of \<open>crates/media/fm-replay\<close>: ranges of the shared timeline (\<open>types.rs\<close>), the rolling
  catalog of recorded segments with its protections and its reclamation (\<open>storage.rs\<close>), and the
  prediction and the policy for low space (\<open>capacity.rs\<close>). Identifiers are 128 bits wide and not zero;
  nothing here computes with them. Timestamps are signed nanoseconds. The catalog only keeps
  metadata: a path is never opened, and \<open>inspect_recovery\<close>, which compares the catalog with the file
  system, is not modelled.
\<close>

section \<open>Ranges of the timeline\<close>

type_synonym timestamp = i64
type_synonym camera_id = u128
type_synonym storage_root_id = u128
type_synonym segment_id = u128
type_synonym event_id = u128
type_synonym list_id = u128
type_synonym folder_id = u128
type_synonym highlight_id = u128
type_synonym export_job_id = u128
type_synonym path = ustr

record timeline_range =
  tl_start :: timestamp
  tl_end :: timestamp

datatype replay_error =
    InvalidRange | ReplayEmptyName | TooManySources usize | TooManyAudioChannels usize
  | DuplicateCamera camera_id | DuplicateStorageRoot storage_root_id | DuplicateSegment segment_id
  | DuplicateEvent event_id | DuplicateList list_id | DuplicateFolder folder_id
  | DuplicateHighlight highlight_id | DuplicateExport export_job_id
  | UnknownCamera camera_id | UnknownStorageRoot storage_root_id | UnknownSegment segment_id
  | UnknownEvent event_id | UnknownList list_id | UnknownFolder folder_id | UnknownExport export_job_id
  | CameraRootMismatch | TimelineRegression camera_id | SequenceRegression camera_id
  | DuplicateQuadCamera camera_id | ObservationUnavailable camera_id | MarkIncomplete | InvalidLastN
  | PreferredAngleUnavailable camera_id | EventAlreadyInList event_id list_id | InvalidPlaybackRate i32
  | FrameDurationZero | ExportStateTransition

definition range_new :: "timestamp \<Rightarrow> timestamp \<Rightarrow> replay_error + timeline_range" where
  "range_new s e = (if sint s \<ge> sint e then Inl InvalidRange else Inr \<lparr>tl_start = s, tl_end = e\<rparr>)"

definition duration_nanos :: "timeline_range \<Rightarrow> u64" where
  "duration_nanos r =
     (let d = sint (tl_end r) - sint (tl_start r) in
      if 0 \<le> d \<and> d < 2 ^ 64 then word_of_int d else - 1)"

definition range_contains :: "timeline_range \<Rightarrow> timestamp \<Rightarrow> bool" where
  "range_contains r t \<longleftrightarrow> sint t \<ge> sint (tl_start r) \<and> sint t < sint (tl_end r)"

definition range_overlaps :: "timeline_range \<Rightarrow> timeline_range \<Rightarrow> bool" where
  "range_overlaps r s \<longleftrightarrow> sint (tl_start r) < sint (tl_end s) \<and> sint (tl_start s) < sint (tl_end r)"

section \<open>The rolling segment catalog\<close>

record storage_root =
  rt_id :: storage_root_id
  rt_path :: path
  rt_capacity_bytes :: u64

datatype segment_state = SegmentOpen | SegmentClosed

datatype protection_reference = ByEvent event_id | ByHighlight highlight_id | ByExport export_job_id

record segment_metadata =
  sg_id :: segment_id
  sg_camera_id :: camera_id
  sg_storage_root_id :: storage_root_id
  sg_recorder_segment_index :: u64
  sg_timeline :: timeline_range
  sg_path :: path
  sg_bytes :: u64
  sg_state :: segment_state
  sg_protections :: "protection_reference set"

record retention_report =
  rr_deleted :: "segment_id list"
  rr_reclaimed_bytes :: u64
  rr_blocked_bytes :: u64
  rr_protected_segments :: "segment_id list"

definition retention_report_default :: retention_report where
  "retention_report_default =
     \<lparr>rr_deleted = [], rr_reclaimed_bytes = 0, rr_blocked_bytes = 0, rr_protected_segments = []\<rparr>"

record segment_catalog =
  rc_roots :: "(storage_root_id, storage_root) btree"
  rc_camera_roots :: "(camera_id, storage_root_id) btree"
  rc_segments :: "(segment_id, segment_metadata) btree"

definition segment_catalog_default :: segment_catalog where
  "segment_catalog_default = \<lparr>rc_roots = [], rc_camera_roots = [], rc_segments = []\<rparr>"

definition add_root :: "storage_root \<Rightarrow> (replay_error, unit, segment_catalog) meth" where
  "add_root r c =
     (if map_of (rc_roots c) (rt_id r) \<noteq> None then (Inl (DuplicateStorageRoot (rt_id r)), c)
      else (Inr (), c\<lparr>rc_roots := bt_insert (rt_id r) r (rc_roots c)\<rparr>))"

definition assign_camera :: "camera_id \<Rightarrow> storage_root_id \<Rightarrow> (replay_error, unit, segment_catalog) meth" where
  "assign_camera cam root c =
     (if map_of (rc_roots c) root = None then (Inl (UnknownStorageRoot root), c)
      else (Inr (), c\<lparr>rc_camera_roots := bt_insert cam root (rc_camera_roots c)\<rparr>))"

definition insert_segment :: "segment_metadata \<Rightarrow> (replay_error, unit, segment_catalog) meth" where
  "insert_segment s c =
     (case map_of (rc_camera_roots c) (sg_camera_id s) of
        None \<Rightarrow> (Inl (UnknownCamera (sg_camera_id s)), c)
      | Some assigned \<Rightarrow>
          if assigned \<noteq> sg_storage_root_id s then (Inl CameraRootMismatch, c)
          else if map_of (rc_segments c) (sg_id s) \<noteq> None then (Inl (DuplicateSegment (sg_id s)), c)
          else (Inr (), c\<lparr>rc_segments := bt_insert (sg_id s) s (rc_segments c)\<rparr>))"

definition retained_bytes :: "segment_catalog \<Rightarrow> storage_root_id \<Rightarrow> u64" where
  "retained_bytes c root =
     fold (\<lambda>(_, s) total. saturating_add total (sg_bytes s))
       (filter (\<lambda>(_, s). sg_storage_root_id s = root) (rc_segments c)) 0"

definition to_protect :: "camera_id \<Rightarrow> timeline_range \<Rightarrow> segment_metadata \<Rightarrow> bool" where
  "to_protect cam r s \<longleftrightarrow> sg_camera_id s = cam \<and> range_overlaps (sg_timeline s) r"

definition protect_range ::
  "camera_id \<Rightarrow> timeline_range \<Rightarrow> protection_reference \<Rightarrow> segment_catalog \<Rightarrow> segment_id list \<times> segment_catalog" where
  "protect_range cam r ref c =
     (map (\<lambda>(_, s). sg_id s) (filter (\<lambda>(_, s). to_protect cam r s) (rc_segments c)),
      c\<lparr>rc_segments := map (\<lambda>(i, s). (i, if to_protect cam r s
          then s\<lparr>sg_protections := insert ref (sg_protections s)\<rparr> else s)) (rc_segments c)\<rparr>)"

definition release_reference :: "protection_reference \<Rightarrow> segment_catalog \<Rightarrow> segment_catalog" where
  "release_reference ref c =
     c\<lparr>rc_segments := map (\<lambda>(i, s). (i, s\<lparr>sg_protections := sg_protections s - {ref}\<rparr>)) (rc_segments c)\<rparr>"

text \<open>The segments of a root in the order of their timeline, then of their recorder, then of their identifier.\<close>

definition age_key :: "timestamp \<times> u64 \<times> segment_id \<Rightarrow> int \<times> u64 \<times> segment_id" where
  "age_key x = (sint (fst x), snd x)"

definition candidates :: "segment_catalog \<Rightarrow> storage_root_id \<Rightarrow> segment_id list" where
  "candidates c root =
     map (\<lambda>(_, _, i). i) (sort_key age_key
       (map (\<lambda>(_, s). (tl_start (sg_timeline s), sg_recorder_segment_index s, sg_id s))
         (filter (\<lambda>(_, s). sg_storage_root_id s = root) (rc_segments c))))"

text \<open>The loop over the candidates. Indexing the map with an absent identifier panics.\<close>

fun reclaim_scan ::
  "(segment_id, segment_metadata) btree \<Rightarrow> u64 \<Rightarrow> segment_id list \<Rightarrow> retention_report \<Rightarrow> retention_report option" where
  "reclaim_scan segs requested [] r = Some r"
| "reclaim_scan segs requested (i # is) r =
     (if rr_reclaimed_bytes r \<ge> requested then Some r
      else case map_of segs i of
          None \<Rightarrow> None
        | Some s \<Rightarrow>
            if sg_state s = SegmentOpen \<or> sg_protections s \<noteq> {}
            then reclaim_scan segs requested is (r\<lparr>rr_protected_segments := rr_protected_segments r @ [i]\<rparr>)
            else reclaim_scan segs requested is
              (r\<lparr>rr_reclaimed_bytes := saturating_add (rr_reclaimed_bytes r) (sg_bytes s), rr_deleted := rr_deleted r @ [i]\<rparr>))"

definition reclaim ::
  "storage_root_id \<Rightarrow> u64 \<Rightarrow> segment_catalog \<Rightarrow> ((replay_error + retention_report) \<times> segment_catalog) option" where
  "reclaim root requested c =
     (if map_of (rc_roots c) root = None then Some (Inl (UnknownStorageRoot root), c)
      else map_option (\<lambda>r.
          (Inr (r\<lparr>rr_blocked_bytes := saturating_sub requested (rr_reclaimed_bytes r)\<rparr>),
           c\<lparr>rc_segments := fold bt_remove (rr_deleted r) (rc_segments c)\<rparr>))
        (reclaim_scan (rc_segments c) requested (candidates c root) retention_report_default))"

definition enforce_retained_bytes ::
  "storage_root_id \<Rightarrow> u64 \<Rightarrow> segment_catalog \<Rightarrow> ((replay_error + retention_report) \<times> segment_catalog) option" where
  "enforce_retained_bytes root maximum c = reclaim root (saturating_sub (retained_bytes c root) maximum) c"

section \<open>Capacity\<close>

record capacity_sample =
  cp_free_bytes :: u64
  cp_bytes_written :: u64
  cp_elapsed_nanos :: u64

record capacity_prediction =
  pr_bytes_per_second :: u64
  pr_seconds_until_full :: "u64 option"
  pr_seconds_until_low_space :: "u64 option"
  pr_low_space :: bool

text \<open>The product of two 64-bit values fits into the 128 bits it is computed in.\<close>

definition write_rate :: "capacity_sample \<Rightarrow> u64" where
  "write_rate s =
     (if cp_elapsed_nanos s = 0 then 0
      else case word_try_from (min (unat (cp_bytes_written s) * 1000000000) (2 ^ 128 - 1) div unat (cp_elapsed_nanos s)) of
          None \<Rightarrow> - 1 | Some rate \<Rightarrow> rate)"

definition from_sample :: "capacity_sample \<Rightarrow> u64 \<Rightarrow> capacity_prediction" where
  "from_sample s low_space_bytes =
     (let rate = write_rate s in
      \<lparr>pr_bytes_per_second = rate,
       pr_seconds_until_full = (if rate \<noteq> 0 then Some (cp_free_bytes s div rate) else None),
       pr_seconds_until_low_space = (if rate \<noteq> 0 then Some (saturating_sub (cp_free_bytes s) low_space_bytes div rate) else None),
       pr_low_space = (cp_free_bytes s \<le> low_space_bytes)\<rparr>)"

datatype low_space_action = DeleteOldestUnprotected | ActStopRecording | ActRejectNewWrites

record low_space_policy =
  lp_reserve_bytes :: u64
  lp_action :: low_space_action

datatype low_space_decision =
    ContinueWriting | Reclaimed retention_report | ProtectionBlocked retention_report | StopRecording | RejectNewWrites

definition low_space_apply ::
  "low_space_policy \<Rightarrow> storage_root_id \<Rightarrow> u64 \<Rightarrow> u64 \<Rightarrow> segment_catalog
   \<Rightarrow> ((replay_error + low_space_decision) \<times> segment_catalog) option" where
  "low_space_apply p root free_bytes incoming_bytes c =
     (let required = saturating_add (lp_reserve_bytes p) incoming_bytes in
      if free_bytes \<ge> required then Some (Inr ContinueWriting, c)
      else case lp_action p of
          DeleteOldestUnprotected \<Rightarrow>
            map_option (\<lambda>(r, c'). (map_sum id (\<lambda>report.
                if rr_blocked_bytes report = 0 then Reclaimed report else ProtectionBlocked report) r, c'))
              (reclaim root (required - free_bytes) c)
        | ActStopRecording \<Rightarrow> Some (Inr StopRecording, c)
        | ActRejectNewWrites \<Rightarrow> Some (Inr RejectNewWrites, c))"

section \<open>Reclaiming takes the oldest free segments\<close>

lemma unat_saturating_sub: "unat (saturating_sub a b) = unat a - unat b"
  by (simp add: saturating_sub_def unat_sub word_le_nat_alt)

text \<open>
  The state every sequence of calls keeps: the maps are ordered maps, a segment is stored under its own
  identifier, and cameras and segments name registered roots.
\<close>

definition catalog_inv :: "segment_catalog \<Rightarrow> bool" where
  "catalog_inv c \<longleftrightarrow> bt_sorted (rc_roots c) \<and> bt_sorted (rc_camera_roots c) \<and> bt_sorted (rc_segments c)
     \<and> (\<forall>cam root. map_of (rc_camera_roots c) cam = Some root \<longrightarrow> map_of (rc_roots c) root \<noteq> None)
     \<and> (\<forall>i s. map_of (rc_segments c) i = Some s \<longrightarrow> sg_id s = i \<and> map_of (rc_roots c) (sg_storage_root_id s) \<noteq> None)"

definition free_segment :: "(segment_id, segment_metadata) btree \<Rightarrow> segment_id \<Rightarrow> bool" where
  "free_segment segs i \<longleftrightarrow> (case map_of segs i of
     None \<Rightarrow> False | Some s \<Rightarrow> sg_state s = SegmentClosed \<and> sg_protections s = {})"

definition bytes_of :: "(segment_id, segment_metadata) btree \<Rightarrow> segment_id list \<Rightarrow> nat" where
  "bytes_of segs is = sum_list (map (\<lambda>i. case map_of segs i of None \<Rightarrow> 0 | Some s \<Rightarrow> unat (sg_bytes s)) is)"

lemma bytes_of_simps [simp]:
  "bytes_of segs [] = 0"
  "map_of segs i = Some s \<Longrightarrow> bytes_of segs (i # is) = unat (sg_bytes s) + bytes_of segs is"
  by (simp_all add: bytes_of_def)

lemma unat_saturating_add_u64: "unat (saturating_add a b :: u64) = min (unat a + unat b) (2 ^ 64 - 1)"
  by (simp add: unat_saturating_add)

lemma reclaim_scan_effect:
  assumes "\<forall>i \<in> set is. map_of segs i \<noteq> None"
  shows "\<exists>r' n. reclaim_scan segs req is r = Some r' \<and> n \<le> length (filter (free_segment segs) is)
    \<and> rr_deleted r' = rr_deleted r @ take n (filter (free_segment segs) is)
    \<and> unat (rr_reclaimed_bytes r') = min (unat (rr_reclaimed_bytes r) + bytes_of segs (take n (filter (free_segment segs) is))) (2 ^ 64 - 1)
    \<and> (\<forall>m < n. unat (rr_reclaimed_bytes r) + bytes_of segs (take m (filter (free_segment segs) is)) < unat req)
    \<and> (n = length (filter (free_segment segs) is) \<or> req \<le> rr_reclaimed_bytes r')"
  using assms
proof (induction "is" arbitrary: r)
  case Nil
  then show ?case using unat_u64_less [of "rr_reclaimed_bytes r"] by simp
next
  case (Cons i "is")
  let ?R = "unat (rr_reclaimed_bytes r)"
  have R: "?R \<le> 2 ^ 64 - 1" using unat_u64_less [of "rr_reclaimed_bytes r"] by simp
  obtain s where s: "map_of segs i = Some s" using Cons.prems by auto
  show ?case
  proof (cases "rr_reclaimed_bytes r \<ge> req")
    case True
    then show ?thesis using R by (intro exI [of _ r] exI [of _ "0 :: nat"]) simp
  next
    case False
    then have lt: "?R < unat req" by (simp add: word_le_nat_alt)
    have req: "unat req \<le> 2 ^ 64 - 1" using unat_u64_less [of req] by simp
    show ?thesis
    proof (cases "free_segment segs i")
      case False
      then have "sg_state s = SegmentOpen \<or> sg_protections s \<noteq> {}"
        using s by (cases "sg_state s") (auto simp: free_segment_def)
      then show ?thesis
        using Cons.IH [of "r\<lparr>rr_protected_segments := rr_protected_segments r @ [i]\<rparr>"] Cons.prems s False lt
        by (simp add: word_le_nat_alt)
    next
      case True
      let ?r1 = "r\<lparr>rr_reclaimed_bytes := saturating_add (rr_reclaimed_bytes r) (sg_bytes s), rr_deleted := rr_deleted r @ [i]\<rparr>"
      have free: "\<not> (sg_state s = SegmentOpen \<or> sg_protections s \<noteq> {})"
        using True s by (simp add: free_segment_def)
      obtain r' n where IH: "reclaim_scan segs req is ?r1 = Some r'" "n \<le> length (filter (free_segment segs) is)"
        "rr_deleted r' = rr_deleted r @ [i] @ take n (filter (free_segment segs) is)"
        "unat (rr_reclaimed_bytes r') = min (min (?R + unat (sg_bytes s)) (2 ^ 64 - 1) + bytes_of segs (take n (filter (free_segment segs) is))) (2 ^ 64 - 1)"
        "\<forall>m < n. min (?R + unat (sg_bytes s)) (2 ^ 64 - 1) + bytes_of segs (take m (filter (free_segment segs) is)) < unat req"
        "n = length (filter (free_segment segs) is) \<or> req \<le> rr_reclaimed_bytes r'"
        using Cons.IH [of ?r1] Cons.prems by (auto simp: unat_saturating_add_u64)
      have "?R + bytes_of segs (take m (i # filter (free_segment segs) is)) < unat req" if "m < Suc n" for m
      proof (cases m)
        case (Suc l)
        then show ?thesis using IH(5) that req s by (auto simp: min_def split: if_splits)
      qed (use lt in simp)
      moreover have "reclaim_scan segs req (i # is) r = Some r'"
        using IH(1) s free lt by (simp add: word_le_nat_alt)
      ultimately show ?thesis
        using IH True s by (intro exI [of _ r'] exI [of _ "Suc n"]) auto
    qed
  qed
qed

lemma catalog_inv_segments:
  assumes "catalog_inv c"
  shows "bt_sorted (rc_segments c)" "(i, s) \<in> set (rc_segments c) \<longleftrightarrow> map_of (rc_segments c) i = Some s"
    "map_of (rc_segments c) i = Some s \<Longrightarrow> sg_id s = i"
  using assms by (auto simp: catalog_inv_def bt_mem_iff)

definition segment_age :: "segment_catalog \<Rightarrow> segment_id \<Rightarrow> int \<times> u64 \<times> segment_id" where
  "segment_age c i = (case map_of (rc_segments c) i of
     None \<Rightarrow> (0, 0, i) | Some s \<Rightarrow> (sint (tl_start (sg_timeline s)), sg_recorder_segment_index s, i))"

lemma candidates_sorted:
  assumes "catalog_inv c"
  shows "set (candidates c root) = {i. \<exists>s. map_of (rc_segments c) i = Some s \<and> sg_storage_root_id s = root}"
    and "sorted_wrt (\<lambda>i j. segment_age c i \<le> segment_age c j) (candidates c root)"
    and "distinct (candidates c root)"
proof -
  let ?key = "\<lambda>s. (tl_start (sg_timeline s), sg_recorder_segment_index s, sg_id s)"
  let ?segs = "filter (\<lambda>(_, s). sg_storage_root_id s = root) (rc_segments c)"
  let ?keys = "sort_key age_key (map (\<lambda>(_, s). ?key s) ?segs)"
  note inv = catalog_inv_segments [OF assms]
  have mem: "x \<in> set ?keys \<longleftrightarrow> (\<exists>i s. map_of (rc_segments c) i = Some s \<and> sg_storage_root_id s = root \<and> x = ?key s)" for x
    by (auto simp: inv(2)) blast
  have cand: "candidates c root = map (\<lambda>x. snd (snd x)) ?keys" by (simp add: candidates_def split_beta)
  show "set (candidates c root) = {i. \<exists>s. map_of (rc_segments c) i = Some s \<and> sg_storage_root_id s = root}"
  proof (intro equalityI subsetI)
    fix i assume "i \<in> set (candidates c root)"
    then obtain x where x: "x \<in> set ?keys" "i = snd (snd x)" unfolding cand set_map by blast
    then show "i \<in> {i. \<exists>s. map_of (rc_segments c) i = Some s \<and> sg_storage_root_id s = root}"
      using inv(3) unfolding mem by auto
  next
    fix i assume "i \<in> {i. \<exists>s. map_of (rc_segments c) i = Some s \<and> sg_storage_root_id s = root}"
    then obtain s where s: "map_of (rc_segments c) i = Some s" "sg_storage_root_id s = root" by blast
    then have "?key s \<in> set ?keys" unfolding mem by blast
    then show "i \<in> set (candidates c root)" unfolding cand set_map using inv(3) [OF s(1)] by force
  qed
  have age: "age_key x = segment_age c (snd (snd x))" if "x \<in> set ?keys" for x
    using that inv(3) unfolding mem by (auto simp: age_key_def segment_age_def)
  have "sorted_wrt (\<lambda>x y. age_key x \<le> age_key y) ?keys"
    using sorted_sort_key [of age_key] by (simp add: sorted_wrt_map)
  then have "sorted_wrt (\<lambda>x y. segment_age c (snd (snd x)) \<le> segment_age c (snd (snd y))) ?keys"
    by (rule sorted_wrt_mono_rel [rotated]) (simp add: age)
  then show "sorted_wrt (\<lambda>i j. segment_age c i \<le> segment_age c j) (candidates c root)"
    unfolding cand sorted_wrt_map .
  have "distinct (map fst (rc_segments c))" by (rule bt_sorted_distinct [OF inv(1)])
  then have "distinct (map fst ?segs)" by (simp add: distinct_map_filter)
  moreover have "map (\<lambda>(_, s). sg_id s) ?segs = map fst ?segs" 
    by (rule map_cong [OF refl]) (auto simp: inv(2) dest: inv(3))
  ultimately have "distinct (map (\<lambda>(_, s). sg_id s) ?segs)" by (simp only:)
  then have "distinct (map (\<lambda>x. snd (snd x)) (map (\<lambda>(_, s). ?key s) ?segs))"
    unfolding map_map by (rule back_subst [of "\<lambda>f. distinct (map f ?segs)"]) auto
  then show "distinct (candidates c root)" unfolding cand by (simp add: distinct_map del: map_map)
qed


lemma map_of_fold_remove: "map_of (fold bt_remove is m) = (map_of m) |` (- set is)"
  by (induction "is" arbitrary: m) (auto simp: map_of_bt_remove restrict_map_def fun_eq_iff)

lemma bt_sorted_fold_remove: "bt_sorted m \<Longrightarrow> bt_sorted (fold bt_remove is m)"
  by (induction "is" arbitrary: m) simp_all

text \<open>What a reclamation does, in terms of the free segments of the root in the order of their age.\<close>

lemma reclaim_effect:
  assumes "catalog_inv c" "map_of (rc_roots c) root \<noteq> None"
  defines "free \<equiv> filter (free_segment (rc_segments c)) (candidates c root)"
  shows "\<exists>report c' n. reclaim root req c = Some (Inr report, c') \<and> n \<le> length free \<and> rr_deleted report = take n free
    \<and> (\<forall>m < n. bytes_of (rc_segments c) (take m free) < unat req)
    \<and> (n = length free \<or> unat req \<le> bytes_of (rc_segments c) (take n free))
    \<and> unat (rr_reclaimed_bytes report) = min (bytes_of (rc_segments c) (take n free)) (2 ^ 64 - 1)
    \<and> unat (rr_blocked_bytes report) = unat req - bytes_of (rc_segments c) (take n free)
    \<and> c' = c\<lparr>rc_segments := rc_segments c'\<rparr> \<and> bt_sorted (rc_segments c')
    \<and> map_of (rc_segments c') = map_of (rc_segments c) |` (- set (rr_deleted report))"
proof -
  have "\<forall>i \<in> set (candidates c root). map_of (rc_segments c) i \<noteq> None"
    using candidates_sorted(1) [OF assms(1), of root] by auto
  from reclaim_scan_effect [OF this, of req retention_report_default]
  obtain r n where r: "reclaim_scan (rc_segments c) req (candidates c root) retention_report_default = Some r"
    "n \<le> length free" "rr_deleted r = take n free"
    "unat (rr_reclaimed_bytes r) = min (bytes_of (rc_segments c) (take n free)) (2 ^ 64 - 1)"
    "\<forall>m < n. bytes_of (rc_segments c) (take m free) < unat req"
    "n = length free \<or> req \<le> rr_reclaimed_bytes r"
    by (auto simp: free_def retention_report_default_def)
  have "unat req \<le> 2 ^ 64 - 1" using unat_u64_less [of req] by simp
  then have "unat req - unat (rr_reclaimed_bytes r) = unat req - bytes_of (rc_segments c) (take n free)"
    and "req \<le> rr_reclaimed_bytes r \<Longrightarrow> unat req \<le> bytes_of (rc_segments c) (take n free)"
    by (auto simp: r(4) word_le_nat_alt)
  then show ?thesis
    using r assms(2) bt_sorted_fold_remove [OF catalog_inv_segments(1) [OF assms(1)]]
    by (intro exI [of _ "r\<lparr>rr_blocked_bytes := saturating_sub req (rr_reclaimed_bytes r)\<rparr>"]
        exI [of _ "c\<lparr>rc_segments := fold bt_remove (rr_deleted r) (rc_segments c)\<rparr>"] exI [of _ n])
      (auto simp: reclaim_def unat_saturating_sub map_of_fold_remove)
qed

datatype catalog_call =
    DoAddRoot storage_root | DoAssignCamera camera_id storage_root_id | DoInsertSegment segment_metadata
  | DoProtect camera_id timeline_range protection_reference | DoRelease protection_reference
  | DoReclaim storage_root_id u64 | DoEnforce storage_root_id u64 | DoLowSpace low_space_policy storage_root_id u64 u64

fun catalog_do :: "catalog_call \<Rightarrow> segment_catalog \<Rightarrow> segment_catalog option" where
  "catalog_do (DoAddRoot r) c = Some (snd (add_root r c))"
| "catalog_do (DoAssignCamera cam root) c = Some (snd (assign_camera cam root c))"
| "catalog_do (DoInsertSegment s) c = Some (snd (insert_segment s c))"
| "catalog_do (DoProtect cam r ref) c = Some (snd (protect_range cam r ref c))"
| "catalog_do (DoRelease ref) c = Some (release_reference ref c)"
| "catalog_do (DoReclaim root n) c = map_option snd (reclaim root n c)"
| "catalog_do (DoEnforce root n) c = map_option snd (enforce_retained_bytes root n c)"
| "catalog_do (DoLowSpace p root free_bytes n) c = map_option snd (low_space_apply p root free_bytes n c)"

fun catalog_run :: "catalog_call list \<Rightarrow> segment_catalog \<Rightarrow> segment_catalog option" where
  "catalog_run [] c = Some c"
| "catalog_run (x # xs) c = Option.bind (catalog_do x c) (catalog_run xs)"

definition catalog_reachable :: "segment_catalog \<Rightarrow> bool" where
  "catalog_reachable c \<longleftrightarrow> (\<exists>calls. catalog_run calls segment_catalog_default = Some c)"

lemma map_values_lookup: "map_of (map (\<lambda>(i, s). (i, f s)) m) = map_option f \<circ> map_of m"
  by (induction m) auto

lemma bt_sorted_map_values: "bt_sorted m \<Longrightarrow> bt_sorted (map (\<lambda>(i, s). (i, f s)) m)"
  by (simp add: bt_sorted_def comp_def split_beta)

text \<open>
  What one call does to a segment that is in the catalog: it keeps everything but the protections, drops
  a protection only when it is released, and removes the segment only when it was closed and free.
\<close>

definition kept_by :: "catalog_call \<Rightarrow> segment_metadata \<Rightarrow> segment_metadata \<Rightarrow> bool" where
  "kept_by x s s' \<longleftrightarrow> s' = s\<lparr>sg_protections := sg_protections s'\<rparr>
     \<and> (\<forall>ref \<in> sg_protections s. x \<noteq> DoRelease ref \<longrightarrow> ref \<in> sg_protections s')"

definition keeps_segments :: "catalog_call \<Rightarrow> segment_catalog \<Rightarrow> segment_catalog \<Rightarrow> bool" where
  "keeps_segments x c c' \<longleftrightarrow> (\<forall>i s. map_of (rc_segments c) i = Some s \<longrightarrow>
     (\<exists>s'. map_of (rc_segments c') i = Some s' \<and> kept_by x s s') \<or> free_segment (rc_segments c) i \<and> map_of (rc_segments c') i = None)"

lemma kept_by_refl [simp]: "kept_by x s s"
  by (simp add: kept_by_def)

lemma keeps_segments_same: "rc_segments c' = rc_segments c \<Longrightarrow> keeps_segments x c c'"
  by (auto simp: keeps_segments_def)

lemma reclaim_keeps:
  assumes "catalog_inv c"
  shows "\<exists>r c'. reclaim root req c = Some (r, c') \<and> catalog_inv c' \<and> keeps_segments x c c'"
proof (cases "map_of (rc_roots c) root")
  case None
  then show ?thesis using assms by (simp add: reclaim_def keeps_segments_same)
next
  case (Some rt)
  then have known: "map_of (rc_roots c) root \<noteq> None" by simp
  obtain report c' n where r: "reclaim root req c = Some (Inr report, c')"
    "rr_deleted report = take n (filter (free_segment (rc_segments c)) (candidates c root))"
    "c' = c\<lparr>rc_segments := rc_segments c'\<rparr>" "bt_sorted (rc_segments c')"
    "map_of (rc_segments c') = map_of (rc_segments c) |` (- set (rr_deleted report))"
    using reclaim_effect [OF assms known, of req] by blast
  have fields: "rc_roots c' = rc_roots c" "rc_camera_roots c' = rc_camera_roots c"
    by (subst r(3), simp)+
  have "catalog_inv c'"
    using assms r(4) unfolding catalog_inv_def fields r(5) by (auto simp: restrict_map_def split: if_splits)
  moreover have "keeps_segments x c c'"
    unfolding keeps_segments_def r(5) r(2) by (auto simp: restrict_map_def dest: in_set_takeD)
  ultimately show ?thesis using r(1) by blast
qed

lemma catalog_do_keeps:
  assumes "catalog_inv c"
  shows "\<exists>c'. catalog_do x c = Some c' \<and> catalog_inv c' \<and> keeps_segments x c c'"
proof (cases x)
  case (DoAddRoot r)
  then show ?thesis using assms by (auto simp: add_root_def catalog_inv_def map_of_bt_insert intro: keeps_segments_same)
next
  case (DoAssignCamera cam root)
  then show ?thesis using assms by (auto simp: assign_camera_def catalog_inv_def map_of_bt_insert intro: keeps_segments_same)
next
  case (DoInsertSegment s)
  then show ?thesis using assms
    by (auto simp: insert_segment_def catalog_inv_def keeps_segments_def map_of_bt_insert split: option.split)
next
  case (DoProtect cam r ref)
  then show ?thesis using assms
    by (auto simp: protect_range_def catalog_inv_def keeps_segments_def kept_by_def map_values_lookup bt_sorted_map_values)
next
  case (DoRelease ref)
  then show ?thesis using assms
    by (auto simp: release_reference_def catalog_inv_def keeps_segments_def kept_by_def map_values_lookup bt_sorted_map_values)
next
  case (DoReclaim root n)
  then show ?thesis using reclaim_keeps [OF assms, of root n x] by auto
next
  case (DoEnforce root n)
  then show ?thesis using reclaim_keeps [OF assms, of root "saturating_sub (retained_bytes c root) n" x]
    by (auto simp: enforce_retained_bytes_def)
next
  case (DoLowSpace p root free_bytes n)
  then show ?thesis
    using reclaim_keeps [OF assms, of root "saturating_add (lp_reserve_bytes p) n - free_bytes" x] assms
    by (auto simp: low_space_apply_def Let_def keeps_segments_same split: low_space_action.split)
qed


lemma catalog_inv_default: "catalog_inv segment_catalog_default"
  by (simp add: catalog_inv_def segment_catalog_default_def)

lemma catalog_run_inv:
  assumes "catalog_inv c"
  shows "\<exists>c'. catalog_run calls c = Some c' \<and> catalog_inv c'"
  using assms
proof (induction calls arbitrary: c)
  case (Cons x xs)
  then show ?case using catalog_do_keeps [OF Cons.prems, of x] by auto
qed simp

lemma catalog_reachable_inv: "catalog_reachable c \<Longrightarrow> catalog_inv c"
  unfolding catalog_reachable_def using catalog_run_inv [OF catalog_inv_default] by (metis option.inject)

text \<open>A segment is held by a run of calls while it is open, or while one of its protections is not released in the run.\<close>

definition held_through :: "catalog_call list \<Rightarrow> segment_metadata \<Rightarrow> bool" where
  "held_through calls s \<longleftrightarrow> sg_state s = SegmentOpen \<or> (\<exists>ref \<in> sg_protections s. DoRelease ref \<notin> set calls)"

lemma held_not_free: "map_of segs i = Some s \<Longrightarrow> held_through calls s \<Longrightarrow> \<not> free_segment segs i"
  by (auto simp: free_segment_def held_through_def)

lemma kept_by_fields:
  assumes "kept_by x s s'"
  shows "s'\<lparr>sg_protections := P\<rparr> = s\<lparr>sg_protections := P\<rparr>" "sg_state s' = sg_state s"
proof -
  have s': "s' = s\<lparr>sg_protections := sg_protections s'\<rparr>" using assms by (simp add: kept_by_def)
  show "s'\<lparr>sg_protections := P\<rparr> = s\<lparr>sg_protections := P\<rparr>" by (subst s') simp
  show "sg_state s' = sg_state s" by (subst s') simp
qed

text \<open>C33: A segment that is open or protected survives. Whatever is inserted, protected, reclaimed, enforced or decided
  under low space, and in whatever order, no call panics, and a segment that is still being written, or that an event,
  a highlight or an export protects by a reference the calls do not release, is still in the catalog afterwards, unchanged
  and still under each of its references that was not released.
\<close>
theorem protected_segments_survive:
  assumes "catalog_reachable c" "map_of (rc_segments c) i = Some s"
    and "sg_state s = SegmentOpen \<or> (\<exists>ref \<in> sg_protections s. DoRelease ref \<notin> set calls)"
  shows "\<exists>c' s'. catalog_run calls c = Some c' \<and> map_of (rc_segments c') i = Some s'
    \<and> (\<forall>ref \<in> sg_protections s. DoRelease ref \<notin> set calls \<longrightarrow> ref \<in> sg_protections s')
    \<and> s' = s\<lparr>sg_protections := sg_protections s'\<rparr>"
proof -
  have "catalog_inv c" using assms(1) by (rule catalog_reachable_inv)
  moreover have "held_through calls s" using assms(3) by (simp add: held_through_def)
  ultimately show ?thesis using assms(2)
  proof (induction calls arbitrary: c s)
    case (Cons x xs)
    obtain c1 where c1: "catalog_do x c = Some c1" "catalog_inv c1" "keeps_segments x c c1"
      using catalog_do_keeps [OF Cons.prems(1), of x] by blast
    obtain s1 where s1: "map_of (rc_segments c1) i = Some s1" "kept_by x s s1"
      using c1(3) Cons.prems(3) held_not_free [OF Cons.prems(3,2)] unfolding keeps_segments_def by blast
    have kept: "ref \<in> sg_protections s1" if "ref \<in> sg_protections s" "DoRelease ref \<notin> set (x # xs)" for ref
      using s1(2) that by (auto simp: kept_by_def)
    then have "held_through xs s1" using Cons.prems(2) kept_by_fields(2) [OF s1(2)] by (auto simp: held_through_def)
    from Cons.IH [OF c1(2) this s1(1)] obtain c' s' where "catalog_run xs c1 = Some c'" "map_of (rc_segments c') i = Some s'"
      "\<forall>ref \<in> sg_protections s1. DoRelease ref \<notin> set xs \<longrightarrow> ref \<in> sg_protections s'"
      "s' = s1\<lparr>sg_protections := sg_protections s'\<rparr>" by blast
    then show ?case using c1(1) kept kept_by_fields(1) [OF s1(2), of "sg_protections s'"]
      by (intro exI [of _ c'] exI [of _ s']) simp
  qed simp
qed

text \<open>
  Reclaiming takes the oldest free segments and no more than it needs. In every catalog that can be built, a
  reclamation on a registered root succeeds; the segments it may take are exactly the closed and
  unprotected ones of that root, in the order of their age; it deletes the shortest prefix of them whose
  size reaches the request, or all of them; everything else stays as it is, and the blocked bytes are
  what the request lacks.
\<close>
theorem reclaim_takes_oldest_free:
  assumes "catalog_reachable c" "map_of (rc_roots c) root \<noteq> None"
  shows "\<exists>report c' n free. reclaim root req c = Some (Inr report, c')
    \<and> set free = {i. free_segment (rc_segments c) i \<and> (\<exists>s. map_of (rc_segments c) i = Some s \<and> sg_storage_root_id s = root)}
    \<and> distinct free \<and> sorted_wrt (\<lambda>i j. segment_age c i \<le> segment_age c j) free
    \<and> n \<le> length free \<and> rr_deleted report = take n free
    \<and> (\<forall>m < n. bytes_of (rc_segments c) (take m free) < unat req)
    \<and> (n = length free \<or> unat req \<le> bytes_of (rc_segments c) (take n free))
    \<and> unat (rr_blocked_bytes report) = unat req - bytes_of (rc_segments c) (take n free)
    \<and> map_of (rc_segments c') = map_of (rc_segments c) |` (- set (take n free))"
proof -
  have inv: "catalog_inv c" using assms(1) by (rule catalog_reachable_inv)
  let ?free = "filter (free_segment (rc_segments c)) (candidates c root)"
  note cand = candidates_sorted [OF inv, of root]
  have "set ?free = {i. free_segment (rc_segments c) i \<and> (\<exists>s. map_of (rc_segments c) i = Some s \<and> sg_storage_root_id s = root)}"
    using cand(1) by auto
  moreover have "distinct ?free" "sorted_wrt (\<lambda>i j. segment_age c i \<le> segment_age c j) ?free"
    using cand(2,3) by (simp_all add: sorted_wrt_filter)
  moreover obtain report c' n where "reclaim root req c = Some (Inr report, c')" "n \<le> length ?free"
    "rr_deleted report = take n ?free" "\<forall>m < n. bytes_of (rc_segments c) (take m ?free) < unat req"
    "n = length ?free \<or> unat req \<le> bytes_of (rc_segments c) (take n ?free)"
    "unat (rr_blocked_bytes report) = unat req - bytes_of (rc_segments c) (take n ?free)"
    "map_of (rc_segments c') = map_of (rc_segments c) |` (- set (rr_deleted report))"
    using reclaim_effect [OF inv assms(2), of req] by blast
  ultimately show ?thesis
    by - (rule exI [of _ report], rule exI [of _ c'], rule exI [of _ n], rule exI [of _ ?free], simp)
qed


definition demo_segment :: "segment_id \<Rightarrow> timestamp \<Rightarrow> segment_metadata" where
  "demo_segment i t = \<lparr>sg_id = i, sg_camera_id = 1, sg_storage_root_id = 9, sg_recorder_segment_index = 0,
     sg_timeline = \<lparr>tl_start = t, tl_end = t + 10\<rparr>, sg_path = [], sg_bytes = 100, sg_state = SegmentClosed,
     sg_protections = {}\<rparr>"

definition demo_catalog_calls :: "catalog_call list" where
  "demo_catalog_calls = [DoAddRoot \<lparr>rt_id = 9, rt_path = [], rt_capacity_bytes = 1000\<rparr>, DoAssignCamera 1 9,
     DoInsertSegment (demo_segment 3 20), DoInsertSegment (demo_segment 4 0), DoInsertSegment (demo_segment 5 10),
     DoProtect 1 \<lparr>tl_start = 12, tl_end = 15\<rparr> (ByEvent 7)]"

definition demo_catalog :: segment_catalog where
  "demo_catalog = \<lparr>rc_roots = [(9, \<lparr>rt_id = 9, rt_path = [], rt_capacity_bytes = 1000\<rparr>)], rc_camera_roots = [(1, 9)],
     rc_segments = [(3, demo_segment 3 20), (4, demo_segment 4 0),
       (5, (demo_segment 5 10)\<lparr>sg_protections := {ByEvent 7}\<rparr>)]\<rparr>"

lemma demo_catalog_run: "catalog_run demo_catalog_calls segment_catalog_default = Some demo_catalog"
  by (simp add: demo_catalog_calls_def demo_catalog_def segment_catalog_default_def add_root_def assign_camera_def
      insert_segment_def demo_segment_def protect_range_def to_protect_def range_overlaps_def)

lemma demo_catalog_reachable: "catalog_reachable demo_catalog"
  unfolding catalog_reachable_def using demo_catalog_run by blast

definition demo_open_segment :: segment_metadata where
  "demo_open_segment = (demo_segment 6 5)\<lparr>sg_state := SegmentOpen\<rparr>"

definition demo_open_catalog :: segment_catalog where
  "demo_open_catalog = demo_catalog\<lparr>rc_segments := rc_segments demo_catalog @ [(6, demo_open_segment)]\<rparr>"

lemma catalog_run_append: "catalog_run (xs @ ys) c = Option.bind (catalog_run xs c) (catalog_run ys)"
  by (induction xs arbitrary: c) (auto simp: bind_assoc split: bind_splits)

lemma demo_open_catalog_reachable: "catalog_reachable demo_open_catalog"
proof -
  have "catalog_run [DoInsertSegment demo_open_segment] demo_catalog = Some demo_open_catalog"
    by (simp add: demo_open_catalog_def demo_open_segment_def demo_catalog_def insert_segment_def demo_segment_def)
  then have "catalog_run (demo_catalog_calls @ [DoInsertSegment demo_open_segment]) segment_catalog_default = Some demo_open_catalog"
    by (simp only: catalog_run_append demo_catalog_run bind.bind_lunit)
  then show ?thesis unfolding catalog_reachable_def by blast
qed

theorem protected_segments_survive_witness:
  "(\<exists>c' s'. catalog_run [DoReclaim 9 250, DoEnforce 9 0] demo_open_catalog = Some c' \<and> map_of (rc_segments c') 5 = Some s'
     \<and> ByEvent 7 \<in> sg_protections s' \<and> sg_bytes s' = 100)
   \<and> (\<exists>c' s'. catalog_run [DoReclaim 9 250, DoEnforce 9 0] demo_open_catalog = Some c' \<and> map_of (rc_segments c') 6 = Some s'
     \<and> sg_state s' = SegmentOpen)"
proof
  let ?calls = "[DoReclaim 9 250, DoEnforce 9 0]" and ?s = "(demo_segment 5 10)\<lparr>sg_protections := {ByEvent 7}\<rparr>"
  have "map_of (rc_segments demo_open_catalog) 5 = Some ?s"
    by (simp add: demo_open_catalog_def demo_catalog_def)
  from protected_segments_survive [OF demo_open_catalog_reachable this, of ?calls]
  obtain c' s' where "catalog_run ?calls demo_open_catalog = Some c'" "map_of (rc_segments c') 5 = Some s'"
    "ByEvent 7 \<in> sg_protections s'" "s' = ?s\<lparr>sg_protections := sg_protections s'\<rparr>"
    by (auto simp del: catalog_run.simps)
  moreover from this(4) have "sg_bytes s' = 100"
    by (metis demo_segment_def segment_metadata.select_convs(7) segment_metadata.update_convs(9))
  ultimately show "\<exists>c' s'. catalog_run ?calls demo_open_catalog = Some c' \<and> map_of (rc_segments c') 5 = Some s'
     \<and> ByEvent 7 \<in> sg_protections s' \<and> sg_bytes s' = 100" by blast
next
  let ?calls = "[DoReclaim 9 250, DoEnforce 9 0]"
  have "map_of (rc_segments demo_open_catalog) 6 = Some demo_open_segment"
    by (simp add: demo_open_catalog_def demo_catalog_def)
  moreover have "sg_state demo_open_segment = SegmentOpen" by (simp add: demo_open_segment_def)
  ultimately obtain c' s' where run: "catalog_run ?calls demo_open_catalog = Some c'" "map_of (rc_segments c') 6 = Some s'"
    and s': "s' = demo_open_segment\<lparr>sg_protections := sg_protections s'\<rparr>"
    using protected_segments_survive [OF demo_open_catalog_reachable, of 6 demo_open_segment ?calls] by blast
  have "sg_state s' = SegmentOpen" by (subst s') (simp add: demo_open_segment_def)
  with run show "\<exists>c' s'. catalog_run ?calls demo_open_catalog = Some c' \<and> map_of (rc_segments c') 6 = Some s'
     \<and> sg_state s' = SegmentOpen" by blast
qed

theorem reclaim_takes_oldest_free_witness:
  "\<exists>report c' n free. reclaim 9 150 demo_catalog = Some (Inr report, c') \<and> set free = {3, 4}
     \<and> rr_deleted report = take n free \<and> unat (rr_blocked_bytes report) = 150 - bytes_of (rc_segments demo_catalog) (take n free)"
proof -
  have "map_of (rc_roots demo_catalog) 9 \<noteq> None" by (simp add: demo_catalog_def)
  moreover have "{i. free_segment (rc_segments demo_catalog) i \<and> (\<exists>s. map_of (rc_segments demo_catalog) i = Some s \<and> sg_storage_root_id s = 9)} = {3, 4}"
    by (auto simp: demo_catalog_def free_segment_def demo_segment_def split: if_splits)
  ultimately show ?thesis using reclaim_takes_oldest_free [OF demo_catalog_reachable, of 9 150] by auto
qed

text \<open>A low-space decision that reclaimed has really made room for the reserve and the incoming bytes.\<close>

lemma low_space_reclaimed:
  assumes "low_space_apply p root free_bytes incoming c = Some (Inr (Reclaimed report), c')"
  shows "unat (saturating_add (lp_reserve_bytes p) incoming) \<le> unat free_bytes + unat (rr_reclaimed_bytes report)"
proof -
  let ?required = "saturating_add (lp_reserve_bytes p) incoming"
  have "\<not> ?required \<le> free_bytes" "lp_action p = DeleteOldestUnprotected"
    using assms by (auto simp: low_space_apply_def Let_def split: if_splits low_space_action.splits)
  then obtain y where y: "reclaim root (?required - free_bytes) c = Some (y, c')"
    "map_sum id (\<lambda>report. if rr_blocked_bytes report = 0 then Reclaimed report else ProtectionBlocked report) y = Inr (Reclaimed report)"
    using assms by (auto simp: low_space_apply_def Let_def)
  then have "reclaim root (?required - free_bytes) c = Some (Inr report, c')" "rr_blocked_bytes report = 0"
    by (cases y; simp split: if_splits)+
  then have "unat (?required - free_bytes) - unat (rr_reclaimed_bytes report) = 0"
    by (auto simp: reclaim_def unat_saturating_sub [symmetric] split: if_splits)
  then show ?thesis using \<open>\<not> ?required \<le> free_bytes\<close> by (simp add: unat_sub word_le_nat_alt)
qed

end
