(* ===== verification/Replay_Timeline.thy ===== *)
theory Replay_Timeline
  imports Replay_Storage
begin

text \<open>
  The bookkeeping side of \<open>crates/media/fm-replay\<close>: the cameras and the synchronized timeline of their
  frames (\<open>source.rs\<close>), marks, events, folders and lists (\<open>event.rs\<close>), highlight edits and export jobs
  (\<open>highlight.rs\<close>). The gain of a music bed is a floating-point value that nothing here computes with; it
  is a type parameter.
\<close>

section \<open>Sources and the synchronized timeline\<close>

definition MAX_REPLAY_SOURCES :: usize where "MAX_REPLAY_SOURCES = 8"
definition MAX_AUDIO_CHANNELS :: usize where "MAX_AUDIO_CHANNELS = 4"

record camera_source =
  cs_id :: camera_id
  cs_name :: ustr
  cs_storage_root_id :: storage_root_id
  cs_recorder_id :: u128
  cs_clock_domain :: u128
  cs_audio_layout :: "channel list"

type_synonym source_catalog = "(camera_id, camera_source) btree"

fun add_sources :: "camera_source list \<Rightarrow> source_catalog \<Rightarrow> replay_error + source_catalog" where
  "add_sources [] catalog = Inr catalog"
| "add_sources (s # ss) catalog =
     (if str_trim (cs_name s) = [] then Inl ReplayEmptyName
      else if length (cs_audio_layout s) > MAX_AUDIO_CHANNELS then Inl (TooManyAudioChannels (length (cs_audio_layout s)))
      else if map_of catalog (cs_id s) \<noteq> None then Inl (DuplicateCamera (cs_id s))
      else add_sources ss (bt_insert (cs_id s) s catalog))"

definition source_catalog_new :: "camera_source list \<Rightarrow> replay_error + source_catalog" where
  "source_catalog_new sources =
     (if length sources > MAX_REPLAY_SOURCES then Inl (TooManySources (length sources)) else add_sources sources [])"

record source_observation =
  ob_synchronized_at :: timestamp
  ob_source_sequence :: u64
  ob_source_frame :: u64
  ob_discontinuity_epoch :: u64

record timeline_discontinuity =
  dc_camera_id :: camera_id
  dc_synchronized_at :: timestamp
  dc_epoch :: u64
  dc_reason :: ustr

record quad_cell =
  qc_camera_id :: camera_id
  qc_observation :: source_observation

record quad_view_description =
  qv_synchronized_at :: timestamp
  qv_cells :: "quad_cell list"
  qv_skew_nanos :: u64
  qv_tolerance_nanos :: u64
  qv_in_sync :: bool

record source_timeline =
  st_observations :: "(camera_id, source_observation list) btree"
  st_discontinuities :: "timeline_discontinuity list"
  st_epochs :: "(camera_id, u64) btree"

definition source_timeline_new :: "source_catalog \<Rightarrow> source_timeline" where
  "source_timeline_new catalog =
     \<lparr>st_observations = bt_collect (map (\<lambda>(_, s). (cs_id s, [])) catalog), st_discontinuities = [],
      st_epochs = bt_collect (map (\<lambda>(_, s). (cs_id s, 0)) catalog)\<rparr>"

text \<open>Indexing the epochs with an unknown camera panics; the observations of a camera were looked up before.\<close>

definition observe ::
  "camera_id \<Rightarrow> timestamp \<Rightarrow> u64 \<Rightarrow> u64 \<Rightarrow> source_timeline \<Rightarrow> ((replay_error + source_observation) \<times> source_timeline) option" where
  "observe cam at seq frame t =
     (case map_of (st_observations t) cam of
        None \<Rightarrow> Some (Inl (UnknownCamera cam), t)
      | Some obs \<Rightarrow>
          (case map_of (st_epochs t) cam of
             None \<Rightarrow> None
           | Some epoch \<Rightarrow> Some
               (if obs \<noteq> [] \<and> sint at \<le> sint (ob_synchronized_at (last obs)) then (Inl (TimelineRegression cam), t)
                else if obs \<noteq> [] \<and> ob_discontinuity_epoch (last obs) = epoch \<and> seq \<le> ob_source_sequence (last obs)
                then (Inl (SequenceRegression cam), t)
                else let ob = \<lparr>ob_synchronized_at = at, ob_source_sequence = seq, ob_source_frame = frame, ob_discontinuity_epoch = epoch\<rparr> in
                  (Inr ob, t\<lparr>st_observations := bt_set cam (obs @ [ob]) (st_observations t)\<rparr>))))"

definition record_discontinuity ::
  "camera_id \<Rightarrow> timestamp \<Rightarrow> ustr \<Rightarrow> (replay_error, timeline_discontinuity, source_timeline) meth" where
  "record_discontinuity cam at reason t =
     (if str_trim reason = [] then (Inl ReplayEmptyName, t)
      else case map_of (st_observations t) cam of
          None \<Rightarrow> (Inl (UnknownCamera cam), t)
        | Some obs \<Rightarrow>
            if obs \<noteq> [] \<and> sint at < sint (ob_synchronized_at (last obs)) then (Inl (TimelineRegression cam), t)
            else case map_of (st_epochs t) cam of
                None \<Rightarrow> (Inl (UnknownCamera cam), t)
              | Some epoch \<Rightarrow>
                  let epoch' = saturating_add epoch 1;
                      d = \<lparr>dc_camera_id = cam, dc_synchronized_at = at, dc_epoch = epoch', dc_reason = reason\<rparr> in
                  (Inr d, t\<lparr>st_epochs := bt_set cam epoch' (st_epochs t), st_discontinuities := st_discontinuities t @ [d]\<rparr>))"

text \<open>The cells of a quad view: for each camera the last observation at or before the requested time.\<close>

fun quad_cells ::
  "source_timeline \<Rightarrow> timestamp \<Rightarrow> camera_id list \<Rightarrow> camera_id set \<Rightarrow> quad_cell list \<Rightarrow> replay_error + quad_cell list" where
  "quad_cells t at [] seen cells = Inr cells"
| "quad_cells t at (cam # cams) seen cells =
     (if cam \<in> seen then Inl (DuplicateQuadCamera cam)
      else case map_of (st_observations t) cam of
          None \<Rightarrow> Inl (UnknownCamera cam)
        | Some obs \<Rightarrow>
            (case find (\<lambda>ob. sint (ob_synchronized_at ob) \<le> sint at) (rev obs) of
               None \<Rightarrow> Inl (ObservationUnavailable cam)
             | Some ob \<Rightarrow> quad_cells t at cams (insert cam seen) (cells @ [\<lparr>qc_camera_id = cam, qc_observation = ob\<rparr>])))"

text \<open>The difference of the extreme times is taken in 64 bits and panics when it does not fit.\<close>

definition cell_skew :: "timestamp \<Rightarrow> quad_cell list \<Rightarrow> u64 option" where
  "cell_skew at cells =
     (let times = map (\<lambda>c. sint (ob_synchronized_at (qc_observation c))) cells;
          lo = (if times = [] then sint at else Min (set times));
          hi = (if times = [] then sint at else Max (set times)) in
      map_option (\<lambda>d. if sint d \<ge> 0 then d else - 1) (i64_try_from (hi - lo)))"

definition quad_view ::
  "source_timeline \<Rightarrow> camera_id list \<Rightarrow> timestamp \<Rightarrow> u64 \<Rightarrow> (replay_error + quad_view_description) option" where
  "quad_view t cameras at tolerance =
     (case quad_cells t at cameras {} [] of
        Inl e \<Rightarrow> Some (Inl e)
      | Inr cells \<Rightarrow>
          (case cell_skew at cells of
             None \<Rightarrow> None
           | Some skew \<Rightarrow> Some
               (if length cells \<noteq> 4 then Inl (ObservationUnavailable (cameras ! 0))
                else Inr \<lparr>qv_synchronized_at = at, qv_cells = cells, qv_skew_nanos = skew,
                       qv_tolerance_nanos = tolerance, qv_in_sync = (skew \<le> tolerance)\<rparr>)))"

section \<open>Events, folders and lists\<close>

record replay_marks =
  rm_mark_in :: "timestamp option"
  rm_mark_out :: "timestamp option"

definition marks_set_in :: "timestamp \<Rightarrow> replay_marks \<Rightarrow> replay_marks" where
  "marks_set_in t m = m\<lparr>rm_mark_in := Some t\<rparr>"

definition marks_set_out :: "timestamp \<Rightarrow> replay_marks \<Rightarrow> replay_marks" where
  "marks_set_out t m = m\<lparr>rm_mark_out := Some t\<rparr>"

definition marks_range :: "replay_marks \<Rightarrow> replay_error + timeline_range" where
  "marks_range m =
     and_then (ok_or (rm_mark_in m) MarkIncomplete) (\<lambda>i.
       and_then (ok_or (rm_mark_out m) MarkIncomplete) (range_new i))"

definition last_n :: "timestamp \<Rightarrow> u64 \<Rightarrow> replay_error + timeline_range" where
  "last_n live_edge seconds =
     and_then (ok_or (Option.bind (checked_mul seconds 1000000000) (\<lambda>v. i64_try_from (int (unat v)))) InvalidLastN) (\<lambda>duration.
       if sint duration = 0 then Inl InvalidLastN
       else and_then (ok_or (i64_try_from (sint live_edge - sint duration)) InvalidLastN) (\<lambda>s. range_new s live_edge))"

record replay_event =
  ev_id :: event_id
  ev_name :: ustr
  ev_timeline :: timeline_range
  ev_angles :: "camera_id set"
  ev_preferred_angle :: camera_id
  ev_tags :: "ustr set"
  ev_note :: ustr
  ev_folders :: "folder_id set"

record event_list =
  el_id :: list_id
  el_name :: ustr
  el_events :: "event_id list"

record event_folder =
  fo_id :: folder_id
  fo_name :: ustr

record event_database =
  db_events :: "(event_id, replay_event) btree"
  db_lists :: "(list_id, event_list) btree"
  db_folders :: "(folder_id, event_folder) btree"

definition event_database_default :: event_database where
  "event_database_default = \<lparr>db_events = [], db_lists = [], db_folders = []\<rparr>"

definition insert_event :: "replay_event \<Rightarrow> (replay_error, unit, event_database) meth" where
  "insert_event e db =
     (if str_trim (ev_name e) = [] then (Inl ReplayEmptyName, db)
      else if ev_preferred_angle e \<notin> ev_angles e then (Inl (PreferredAngleUnavailable (ev_preferred_angle e)), db)
      else if map_of (db_events db) (ev_id e) \<noteq> None then (Inl (DuplicateEvent (ev_id e)), db)
      else (Inr (), db\<lparr>db_events := bt_insert (ev_id e) e (db_events db)\<rparr>))"

text \<open>Changing an event in place.\<close>

definition update_event :: "event_id \<Rightarrow> (replay_event \<Rightarrow> replay_event) \<Rightarrow> (replay_error, unit, event_database) meth" where
  "update_event i f db =
     (case map_of (db_events db) i of
        None \<Rightarrow> (Inl (UnknownEvent i), db)
      | Some e \<Rightarrow> (Inr (), db\<lparr>db_events := bt_set i (f e) (db_events db)\<rparr>))"

definition set_note :: "event_id \<Rightarrow> ustr \<Rightarrow> (replay_error, unit, event_database) meth" where
  "set_note i note db = update_event i (\<lambda>e. e\<lparr>ev_note := note\<rparr>) db"

definition add_tag :: "event_id \<Rightarrow> ustr \<Rightarrow> (replay_error, unit, event_database) meth" where
  "add_tag i tag db =
     (if str_trim tag = [] then (Inl ReplayEmptyName, db)
      else update_event i (\<lambda>e. e\<lparr>ev_tags := insert tag (ev_tags e)\<rparr>) db)"

definition add_folder :: "event_folder \<Rightarrow> (replay_error, unit, event_database) meth" where
  "add_folder f db =
     (if str_trim (fo_name f) = [] then (Inl ReplayEmptyName, db)
      else if map_of (db_folders db) (fo_id f) \<noteq> None then (Inl (DuplicateFolder (fo_id f)), db)
      else (Inr (), db\<lparr>db_folders := bt_insert (fo_id f) f (db_folders db)\<rparr>))"

definition place_in_folder :: "event_id \<Rightarrow> folder_id \<Rightarrow> (replay_error, unit, event_database) meth" where
  "place_in_folder i f db =
     (if map_of (db_folders db) f = None then (Inl (UnknownFolder f), db)
      else update_event i (\<lambda>e. e\<lparr>ev_folders := insert f (ev_folders e)\<rparr>) db)"

definition add_list :: "event_list \<Rightarrow> (replay_error, unit, event_database) meth" where
  "add_list l db =
     (if str_trim (el_name l) = [] then (Inl ReplayEmptyName, db)
      else if map_of (db_lists db) (el_id l) \<noteq> None then (Inl (DuplicateList (el_id l)), db)
      else case find (\<lambda>e. map_of (db_events db) e = None) (el_events l) of
          Some e \<Rightarrow> (Inl (UnknownEvent e), db)
        | None \<Rightarrow> (Inr (), db\<lparr>db_lists := bt_insert (el_id l) l (db_lists db)\<rparr>))"

definition append_to_list :: "list_id \<Rightarrow> event_id \<Rightarrow> (replay_error, unit, event_database) meth" where
  "append_to_list li e db =
     (if map_of (db_events db) e = None then (Inl (UnknownEvent e), db)
      else case map_of (db_lists db) li of
          None \<Rightarrow> (Inl (UnknownList li), db)
        | Some l \<Rightarrow>
            if e \<in> set (el_events l) then (Inl (EventAlreadyInList e li), db)
            else (Inr (), db\<lparr>db_lists := bt_set li (l\<lparr>el_events := el_events l @ [e]\<rparr>) (db_lists db)\<rparr>))"

section \<open>Highlights and exports\<close>

type_synonym playback_rate = i32

definition RATE_PAUSED :: playback_rate where "RATE_PAUSED = 0"

definition rate_from_milli :: "i32 \<Rightarrow> replay_error + playback_rate" where
  "rate_from_milli rate =
     (if sint rate < - 16000 \<or> sint rate > 16000 then Inl (InvalidPlaybackRate rate) else Inr rate)"

datatype highlight_transition = HighlightCut | HighlightDissolve u64

record highlight_item =
  hi_id :: highlight_id
  hi_event_id :: event_id
  hi_timeline :: timeline_range
  hi_angle :: camera_id
  hi_speed :: playback_rate
  hi_transition :: highlight_transition

record 'g music_bed =
  mb_id :: u128
  mb_locator :: ustr
  mb_gain :: 'g

record 'g highlight_timeline =
  ht_items :: "highlight_item list"
  ht_music :: "'g music_bed option"

definition highlight_push :: "highlight_item \<Rightarrow> (replay_error, unit, 'g highlight_timeline) meth" where
  "highlight_push item t =
     (if list_ex (\<lambda>x. hi_id x = hi_id item) (ht_items t) then (Inl (DuplicateHighlight (hi_id item)), t)
      else (Inr (), t\<lparr>ht_items := ht_items t @ [item]\<rparr>))"

definition set_music :: "'g music_bed option \<Rightarrow> 'g highlight_timeline \<Rightarrow> 'g highlight_timeline" where
  "set_music m t = t\<lparr>ht_music := m\<rparr>"

datatype capture_state = CaptureIdle | CaptureRecording | LowSpaceStopped

datatype export_job_state =
    ExportQueued | ExportRunning usize | ExportCompleted u64 | ExportFailed ustr | ExportCancelled

record 'g export_job =
  xj_id :: export_job_id
  xj_destination :: path
  xj_state :: export_job_state
  xj_timeline_snapshot :: "'g highlight_timeline"
  xj_submitted_while_recording :: bool

record 'g replay_session =
  rs_capture_state :: capture_state
  rs_exports :: "(export_job_id, 'g export_job) btree"

definition replay_session_default :: "'g replay_session" where
  "replay_session_default = \<lparr>rs_capture_state = CaptureIdle, rs_exports = []\<rparr>"

definition set_capture_state :: "capture_state \<Rightarrow> 'g replay_session \<Rightarrow> 'g replay_session" where
  "set_capture_state s r = r\<lparr>rs_capture_state := s\<rparr>"

definition submit_export ::
  "export_job_id \<Rightarrow> 'g highlight_timeline \<Rightarrow> path \<Rightarrow> (replay_error, unit, 'g replay_session) meth" where
  "submit_export i t destination r =
     (if map_of (rs_exports r) i \<noteq> None then (Inl (DuplicateExport i), r)
      else (Inr (), r\<lparr>rs_exports := bt_insert i
          \<lparr>xj_id = i, xj_destination = destination, xj_state = ExportQueued, xj_timeline_snapshot = t,
           xj_submitted_while_recording = (rs_capture_state r = CaptureRecording)\<rparr> (rs_exports r)\<rparr>))"

fun export_may_follow :: "export_job_state \<Rightarrow> export_job_state \<Rightarrow> bool" where
  "export_may_follow ExportQueued (ExportRunning _) = True"
| "export_may_follow ExportQueued (ExportFailed _) = True"
| "export_may_follow ExportQueued ExportCancelled = True"
| "export_may_follow (ExportRunning _) (ExportCompleted _) = True"
| "export_may_follow (ExportRunning _) (ExportFailed _) = True"
| "export_may_follow (ExportRunning _) ExportCancelled = True"
| "export_may_follow (ExportRunning previous) (ExportRunning nxt) = (nxt \<ge> previous)"
| "export_may_follow _ _ = False"

definition update_export :: "export_job_id \<Rightarrow> export_job_state \<Rightarrow> (replay_error, unit, 'g replay_session) meth" where
  "update_export i s r =
     (case map_of (rs_exports r) i of
        None \<Rightarrow> (Inl (UnknownExport i), r)
      | Some job \<Rightarrow>
          if \<not> export_may_follow (xj_state job) s then (Inl ExportStateTransition, r)
          else (Inr (), r\<lparr>rs_exports := bt_set i (job\<lparr>xj_state := s\<rparr>) (rs_exports r)\<rparr>))"

section \<open>The quad view shows four cameras at one time\<close>

abbreviation ob_time :: "source_observation \<Rightarrow> int" where
  "ob_time ob \<equiv> sint (ob_synchronized_at ob)"

text \<open>
  The observations of one camera: times strictly increase, the epoch never decreases, and within an epoch
  the sequence of the source strictly increases.
\<close>

definition observed_in_order :: "source_observation \<Rightarrow> source_observation \<Rightarrow> bool" where
  "observed_in_order a b \<longleftrightarrow> ob_time a < ob_time b \<and> ob_discontinuity_epoch a \<le> ob_discontinuity_epoch b
     \<and> (ob_discontinuity_epoch a = ob_discontinuity_epoch b \<longrightarrow> ob_source_sequence a < ob_source_sequence b)"

definition timeline_inv :: "source_timeline \<Rightarrow> bool" where
  "timeline_inv t \<longleftrightarrow> bt_sorted (st_observations t) \<and> bt_sorted (st_epochs t)
     \<and> (\<forall>cam. map_of (st_observations t) cam = None \<longleftrightarrow> map_of (st_epochs t) cam = None)
     \<and> (\<forall>cam obs epoch. map_of (st_observations t) cam = Some obs \<longrightarrow> map_of (st_epochs t) cam = Some epoch \<longrightarrow>
          sorted_wrt observed_in_order obs \<and> (\<forall>ob \<in> set obs. ob_discontinuity_epoch ob \<le> epoch))"

lemma observed_in_order_trans: "observed_in_order a b \<Longrightarrow> observed_in_order b c \<Longrightarrow> observed_in_order a c"
  unfolding observed_in_order_def by (metis order_antisym order_trans order_less_trans)

lemma sorted_wrt_snoc:
  assumes "sorted_wrt observed_in_order obs" "obs \<noteq> [] \<Longrightarrow> observed_in_order (last obs) ob"
  shows "sorted_wrt observed_in_order (obs @ [ob])"
proof (cases obs rule: rev_cases)
  case (snoc ys y)
  then show ?thesis using assms by (auto simp: sorted_wrt_append intro: observed_in_order_trans)
qed simp

lemma map_of_collect_keys:
  "map_of (bt_collect (map (\<lambda>(_, s). (cs_id s, v)) catalog)) cam = (if cam \<in> (cs_id \<circ> snd) ` set catalog then Some v else None)"
proof -
  have "map_of (fold (\<lambda>(k, v). bt_insert k v) (map (\<lambda>(_, s). (cs_id s, v)) catalog) m) cam
      = (if cam \<in> (cs_id \<circ> snd) ` set catalog then Some v else map_of m cam)" for m
    by (induction catalog arbitrary: m) (auto simp: map_of_bt_insert)
  from this [of "[]"] show ?thesis by (simp add: bt_collect_def)
qed

lemma timeline_inv_new: "timeline_inv (source_timeline_new catalog)"
  by (simp add: timeline_inv_def source_timeline_new_def map_of_collect_keys split: if_splits)

lemma observe_inv:
  assumes "timeline_inv t"
  shows "\<exists>r t'. observe cam at seq frame t = Some (r, t') \<and> timeline_inv t'"
proof (cases "map_of (st_observations t) cam")
  case None
  then show ?thesis using assms by (simp add: observe_def)
next
  case (Some obs)
  then obtain epoch where epoch: "map_of (st_epochs t) cam = Some epoch"
    using assms unfolding timeline_inv_def by (metis not_None_eq)
  have obs: "sorted_wrt observed_in_order obs" "\<forall>ob \<in> set obs. ob_discontinuity_epoch ob \<le> epoch"
    using assms Some epoch unfolding timeline_inv_def by blast+
  let ?ob = "\<lparr>ob_synchronized_at = at, ob_source_sequence = seq, ob_source_frame = frame, ob_discontinuity_epoch = epoch\<rparr>"
  have new: "timeline_inv (t\<lparr>st_observations := bt_set cam (obs @ [?ob]) (st_observations t)\<rparr>)"
    if fits: "obs \<noteq> [] \<Longrightarrow> ob_time (last obs) < sint at"
      "obs \<noteq> [] \<Longrightarrow> ob_discontinuity_epoch (last obs) = epoch \<Longrightarrow> ob_source_sequence (last obs) < seq"
  proof -
    have "observed_in_order (last obs) ?ob" if "obs \<noteq> []"
      using fits that obs(2) by (simp add: observed_in_order_def)
    then have "sorted_wrt observed_in_order (obs @ [?ob])" by (rule sorted_wrt_snoc [OF obs(1)])
    then show ?thesis
      using assms Some epoch obs(2) by (auto simp: timeline_inv_def map_of_bt_set)
  qed
  show ?thesis
    using new assms by (auto simp: observe_def Some epoch Let_def not_le)
qed


lemma record_discontinuity_inv:
  assumes "timeline_inv t"
  shows "timeline_inv (snd (record_discontinuity cam at reason t))"
proof -
  have "timeline_inv (t\<lparr>st_epochs := bt_set cam (saturating_add epoch 1) (st_epochs t), st_discontinuities := ds\<rparr>)"
    if "map_of (st_epochs t) cam = Some epoch" for epoch ds
  proof -
    have "epoch \<le> saturating_add epoch 1"
      using unat_u64_less [of epoch] by (simp add: word_le_nat_alt unat_saturating_add)
    then show ?thesis using assms that by (fastforce simp: timeline_inv_def map_of_bt_set split: if_splits)
  qed
  then show ?thesis using assms by (auto simp: record_discontinuity_def Let_def split: option.split)
qed

datatype timeline_call = DoObserve camera_id timestamp u64 u64 | DoDiscontinuity camera_id timestamp ustr

fun timeline_do :: "timeline_call \<Rightarrow> source_timeline \<Rightarrow> source_timeline option" where
  "timeline_do (DoObserve cam at seq frame) t = map_option snd (observe cam at seq frame t)"
| "timeline_do (DoDiscontinuity cam at reason) t = Some (snd (record_discontinuity cam at reason t))"

fun timeline_run :: "timeline_call list \<Rightarrow> source_timeline \<Rightarrow> source_timeline option" where
  "timeline_run [] t = Some t"
| "timeline_run (x # xs) t = Option.bind (timeline_do x t) (timeline_run xs)"

definition timeline_reachable :: "source_timeline \<Rightarrow> bool" where
  "timeline_reachable t \<longleftrightarrow> (\<exists>catalog calls. timeline_run calls (source_timeline_new catalog) = Some t)"

lemma timeline_run_inv: "timeline_inv t \<Longrightarrow> \<exists>t'. timeline_run calls t = Some t' \<and> timeline_inv t'"
proof (induction calls arbitrary: t)
  case (Cons x xs)
  have "\<exists>t1. timeline_do x t = Some t1 \<and> timeline_inv t1"
    using observe_inv [OF Cons.prems] record_discontinuity_inv [OF Cons.prems] by (cases x) fastforce+
  then show ?case using Cons.IH by auto
qed simp

lemma timeline_reachable_inv: "timeline_reachable t \<Longrightarrow> timeline_inv t"
  unfolding timeline_reachable_def using timeline_run_inv [OF timeline_inv_new] by (metis option.inject)

text \<open>The last observation of a camera at or before a time, as a specification.\<close>

definition latest_before :: "source_timeline \<Rightarrow> timestamp \<Rightarrow> camera_id \<Rightarrow> source_observation \<Rightarrow> bool" where
  "latest_before t at cam ob \<longleftrightarrow> (\<exists>obs. map_of (st_observations t) cam = Some obs \<and> ob \<in> set obs \<and> ob_time ob \<le> sint at
     \<and> (\<forall>ob' \<in> set obs. ob_time ob' \<le> sint at \<longrightarrow> ob_time ob' \<le> ob_time ob))"

lemma find_rev_latest:
  assumes "sorted_wrt observed_in_order obs"
  shows "(case find P (rev obs) of None \<Rightarrow> \<forall>x \<in> set obs. \<not> P x
    | Some x \<Rightarrow> x \<in> set obs \<and> P x \<and> (\<forall>y \<in> set obs. P y \<longrightarrow> ob_time y \<le> ob_time x))"
  using assms
proof (induction obs rule: rev_induct)
  case (snoc y ys)
  then show ?case
    by (auto simp: sorted_wrt_append observed_in_order_def split: option.splits)
qed simp

lemma quad_cells_Inr:
  assumes "timeline_inv t" "quad_cells t at cams seen cells = Inr cells'"
  shows "\<exists>new. cells' = cells @ new \<and> map qc_camera_id new = cams \<and> distinct cams
    \<and> (\<forall>c \<in> set new. latest_before t at (qc_camera_id c) (qc_observation c))"
proof -
  have "\<exists>new. cells' = cells @ new \<and> map qc_camera_id new = cams \<and> distinct cams \<and> set cams \<inter> seen = {}
    \<and> (\<forall>c \<in> set new. latest_before t at (qc_camera_id c) (qc_observation c))"
    using assms(2)
  proof (induction cams arbitrary: seen cells)
    case (Cons cam cams)
    let ?P = "\<lambda>ob. ob_time ob \<le> sint at"
    obtain obs ob where ob: "cam \<notin> seen" "map_of (st_observations t) cam = Some obs" "find ?P (rev obs) = Some ob"
      "quad_cells t at cams (insert cam seen) (cells @ [\<lparr>qc_camera_id = cam, qc_observation = ob\<rparr>]) = Inr cells'"
      using Cons.prems by (auto split: if_splits option.splits)
    obtain epoch where "map_of (st_epochs t) cam = Some epoch"
      using assms(1) ob(2) unfolding timeline_inv_def by (metis not_None_eq)
    then have "sorted_wrt observed_in_order obs" using assms(1) ob(2) unfolding timeline_inv_def by blast
    from find_rev_latest [OF this, of ?P] have latest: "latest_before t at cam ob"
      using ob(2,3) by (auto simp: latest_before_def)
    obtain new where "cells' = (cells @ [\<lparr>qc_camera_id = cam, qc_observation = ob\<rparr>]) @ new" "map qc_camera_id new = cams"
      "distinct cams" "set cams \<inter> insert cam seen = {}" "\<forall>c \<in> set new. latest_before t at (qc_camera_id c) (qc_observation c)"
      using Cons.IH [OF ob(4)] by blast
    then show ?case using latest ob(1)
      by (intro exI [of _ "\<lparr>qc_camera_id = cam, qc_observation = ob\<rparr> # new"]) auto
  qed simp
  then show ?thesis by blast
qed

lemma quad_cells_ok:
  assumes "timeline_inv t" "distinct cams" "set cams \<inter> seen = {}" "\<forall>cam \<in> set cams. \<exists>ob. latest_before t at cam ob"
  shows "\<exists>cells'. quad_cells t at cams seen cells = Inr cells'"
  using assms(2-4)
proof (induction cams arbitrary: seen cells)
  case (Cons cam cams)
  obtain obs ob where ob: "map_of (st_observations t) cam = Some obs" "ob \<in> set obs" "ob_time ob \<le> sint at"
    using Cons.prems(3) by (auto simp: latest_before_def)
  have "find (\<lambda>ob. ob_time ob \<le> sint at) (rev obs) \<noteq> None" using ob(2,3) by (auto simp: find_None_iff)
  then show ?case using Cons.IH [of "insert cam seen"] Cons.prems ob(1) by auto
qed simp

lemma i64_try_from_nonneg: "i64_try_from x = Some d \<Longrightarrow> 0 \<le> x \<Longrightarrow> int (unat d) = x"
  by (auto simp: i64_try_from_def uint_word_of_int split: if_splits)

lemma cell_skew_Some:
  assumes "cells \<noteq> []" "\<forall>c \<in> set cells. \<forall>d \<in> set cells. ob_time (qc_observation c) - ob_time (qc_observation d) < 2 ^ 63"
  shows "\<exists>skew. cell_skew at cells = Some skew
    \<and> (\<exists>c \<in> set cells. \<exists>d \<in> set cells. int (unat skew) = ob_time (qc_observation c) - ob_time (qc_observation d))
    \<and> (\<forall>c \<in> set cells. \<forall>d \<in> set cells. ob_time (qc_observation c) - ob_time (qc_observation d) \<le> int (unat skew))"
proof -
  let ?T = "(\<lambda>c. ob_time (qc_observation c)) ` set cells"
  have T: "finite ?T" "?T \<noteq> {}" using assms(1) by auto
  have ends: "Max ?T \<in> ?T" "Min ?T \<in> ?T" using Max_in [OF T] Min_in [OF T] .
  then have range: "0 \<le> Max ?T - Min ?T" "Max ?T - Min ?T < 2 ^ 63"
    using assms(2) Max_ge [OF T(1) ends(2)] by auto
  then obtain d :: i64 where d: "i64_try_from (Max ?T - Min ?T) = Some d" by (simp add: i64_try_from_def)
  then have sd: "sint d = Max ?T - Min ?T" by (simp add: checked_simps)
  have ud: "int (unat d) = Max ?T - Min ?T" by (rule i64_try_from_nonneg [OF d range(1)])
  have "cell_skew at cells = Some d"
    using assms(1) d sd range(1) by (simp add: cell_skew_def Let_def image_image del: Max_def Min_def)
  moreover have "\<exists>c \<in> set cells. \<exists>d' \<in> set cells. int (unat d) = ob_time (qc_observation c) - ob_time (qc_observation d')"
    using ends unfolding ud by (auto, blast)
  moreover have "ob_time (qc_observation c) - ob_time (qc_observation e) \<le> int (unat d)" if "c \<in> set cells" "e \<in> set cells" for c e
    unfolding ud using that by (intro diff_mono Max_ge Min_le T(1)) auto
  ultimately show ?thesis by blast
qed

text \<open>C34: A quad view shows four cameras at one time. On every timeline that observations and discontinuities
  can build, a quad view of four different cameras that all have a frame at or before the requested
  time exists, provided that the times of those frames are less than 2^63 nanoseconds apart (beyond that the difference
  overflows, see the lemma on it below); each cell shows the latest frame of its camera at or before that time; the reported
  skew is the largest difference over all pairs of cells: some pair attains it and no pair exceeds it; and the view is in
  sync exactly when no two cells differ by more than the tolerance.
\<close>
theorem quad_view_is_synchronized:
  assumes "timeline_reachable t" "length cameras = 4" "distinct cameras"
    and "\<forall>cam \<in> set cameras. \<exists>ob. latest_before t at cam ob"
    and "\<forall>c \<in> set cameras. \<forall>d \<in> set cameras. \<forall>x y. latest_before t at c x \<and> latest_before t at d y \<longrightarrow> ob_time x - ob_time y < 2 ^ 63"
  shows "\<exists>q. quad_view t cameras at tolerance = Some (Inr q) \<and> map qc_camera_id (qv_cells q) = cameras
    \<and> (\<forall>c \<in> set (qv_cells q). latest_before t at (qc_camera_id c) (qc_observation c))
    \<and> (\<exists>c \<in> set (qv_cells q). \<exists>d \<in> set (qv_cells q).
        int (unat (qv_skew_nanos q)) = ob_time (qc_observation c) - ob_time (qc_observation d))
    \<and> (\<forall>c \<in> set (qv_cells q). \<forall>d \<in> set (qv_cells q).
        ob_time (qc_observation c) - ob_time (qc_observation d) \<le> int (unat (qv_skew_nanos q)))
    \<and> (qv_in_sync q \<longleftrightarrow> (\<forall>c \<in> set (qv_cells q). \<forall>d \<in> set (qv_cells q).
        ob_time (qc_observation c) - ob_time (qc_observation d) \<le> int (unat tolerance)))"
proof -
  have inv: "timeline_inv t" using assms(1) by (rule timeline_reachable_inv)
  obtain cells where cells: "quad_cells t at cameras {} [] = Inr cells"
    using quad_cells_ok [OF inv assms(3) _ assms(4), of "{}" "[]"] by auto
  have c: "map qc_camera_id cells = cameras" "\<forall>c \<in> set cells. latest_before t at (qc_camera_id c) (qc_observation c)"
    using quad_cells_Inr [OF inv cells] by auto
  have len: "length cells = 4" using arg_cong [OF c(1), of length] assms(2) by simp
  have cam: "qc_camera_id x \<in> set cameras" if "x \<in> set cells" for x using that c(1) by (metis in_set_conv_nth length_map nth_map nth_mem)
  have "\<forall>x \<in> set cells. \<forall>y \<in> set cells. ob_time (qc_observation x) - ob_time (qc_observation y) < 2 ^ 63"
    using assms(5) c(2) cam by blast
  moreover have "cells \<noteq> []" using len by auto
  ultimately obtain skew where skew: "cell_skew at cells = Some skew"
    "\<exists>c \<in> set cells. \<exists>d \<in> set cells. int (unat skew) = ob_time (qc_observation c) - ob_time (qc_observation d)"
    "\<forall>c \<in> set cells. \<forall>d \<in> set cells. ob_time (qc_observation c) - ob_time (qc_observation d) \<le> int (unat skew)"
    using cell_skew_Some by blast
  define q where "q = \<lparr>qv_synchronized_at = at, qv_cells = cells, qv_skew_nanos = skew,
    qv_tolerance_nanos = tolerance, qv_in_sync = (skew \<le> tolerance)\<rparr>"
  have "quad_view t cameras at tolerance = Some (Inr q)" using cells skew(1) len by (simp add: quad_view_def q_def)
  moreover have "skew \<le> tolerance \<longleftrightarrow> (\<forall>c \<in> set cells. \<forall>d \<in> set cells.
      ob_time (qc_observation c) - ob_time (qc_observation d) \<le> int (unat tolerance))"
  proof
    assume "skew \<le> tolerance"
    then have "int (unat skew) \<le> int (unat tolerance)" by (simp only: word_le_nat_alt of_nat_le_iff)
    then show "\<forall>c \<in> set cells. \<forall>d \<in> set cells. ob_time (qc_observation c) - ob_time (qc_observation d) \<le> int (unat tolerance)"
      using skew(3) by (meson order_trans)
  next
    assume "\<forall>c \<in> set cells. \<forall>d \<in> set cells. ob_time (qc_observation c) - ob_time (qc_observation d) \<le> int (unat tolerance)"
    then have "int (unat skew) \<le> int (unat tolerance)" using skew(2) by metis
    then show "skew \<le> tolerance" by (simp only: word_le_nat_alt of_nat_le_iff)
  qed
  ultimately show ?thesis using c skew(2,3) by (intro exI [of _ q]) (simp add: q_def del: of_nat_unat)
qed


definition demo_camera :: "camera_id \<Rightarrow> camera_source" where
  "demo_camera i = \<lparr>cs_id = i, cs_name = [65], cs_storage_root_id = 1, cs_recorder_id = 1, cs_clock_domain = 1, cs_audio_layout = []\<rparr>"

definition demo_timeline_calls :: "timeline_call list" where
  "demo_timeline_calls = [DoObserve 1 10 0 0, DoObserve 2 11 0 0, DoObserve 3 12 0 0, DoObserve 4 9 0 0,
     DoDiscontinuity 4 15 [65], DoObserve 4 30 0 0]"

definition demo_timeline :: source_timeline where
  "demo_timeline = \<lparr>st_observations =
       [(1, [\<lparr>ob_synchronized_at = 10, ob_source_sequence = 0, ob_source_frame = 0, ob_discontinuity_epoch = 0\<rparr>]),
        (2, [\<lparr>ob_synchronized_at = 11, ob_source_sequence = 0, ob_source_frame = 0, ob_discontinuity_epoch = 0\<rparr>]),
        (3, [\<lparr>ob_synchronized_at = 12, ob_source_sequence = 0, ob_source_frame = 0, ob_discontinuity_epoch = 0\<rparr>]),
        (4, [\<lparr>ob_synchronized_at = 9, ob_source_sequence = 0, ob_source_frame = 0, ob_discontinuity_epoch = 0\<rparr>,
             \<lparr>ob_synchronized_at = 30, ob_source_sequence = 0, ob_source_frame = 0, ob_discontinuity_epoch = 1\<rparr>])],
     st_discontinuities = [\<lparr>dc_camera_id = 4, dc_synchronized_at = 15, dc_epoch = 1, dc_reason = [65]\<rparr>],
     st_epochs = [(1, 0), (2, 0), (3, 0), (4, 1)]\<rparr>"

lemma demo_timeline_reachable: "timeline_reachable demo_timeline"
  unfolding timeline_reachable_def
  by (rule exI [of _ "[(1, demo_camera 1), (2, demo_camera 2), (3, demo_camera 3), (4, demo_camera 4)]"],
      rule exI [of _ demo_timeline_calls])
    (simp add: demo_timeline_calls_def demo_timeline_def demo_camera_def source_timeline_new_def bt_collect_def observe_def
      record_discontinuity_def Let_def str_trim_def is_white_space_def saturating_add_def)

theorem quad_view_is_synchronized_witness:
  "\<exists>q. quad_view demo_timeline [1, 2, 3, 4] 20 2 = Some (Inr q) \<and> map qc_camera_id (qv_cells q) = [1, 2, 3, 4]
     \<and> (\<forall>c \<in> set (qv_cells q). latest_before demo_timeline 20 (qc_camera_id c) (qc_observation c))
     \<and> (\<exists>c \<in> set (qv_cells q). \<exists>d \<in> set (qv_cells q).
          int (unat (qv_skew_nanos q)) = ob_time (qc_observation c) - ob_time (qc_observation d))
     \<and> (\<forall>c \<in> set (qv_cells q). \<forall>d \<in> set (qv_cells q).
          ob_time (qc_observation c) - ob_time (qc_observation d) \<le> int (unat (qv_skew_nanos q)))"
proof -
  have one: "\<forall>cam \<in> set [1, 2, 3, 4]. \<exists>ob. latest_before demo_timeline 20 cam ob"
    by (auto simp: latest_before_def demo_timeline_def ex_disj_distrib conj_disj_distribR)
  have two: "\<forall>c \<in> set [1, 2, 3, 4]. \<forall>d \<in> set [1, 2, 3, 4]. \<forall>x y.
      latest_before demo_timeline 20 c x \<and> latest_before demo_timeline 20 d y \<longrightarrow> ob_time x - ob_time y < 2 ^ 63"
  proof -
    have near: "ob_time x \<le> 20 \<and> 0 \<le> ob_time x" if "latest_before demo_timeline 20 c x" "c \<in> {1, 2, 3, 4}" for c x
      using that by (auto simp: latest_before_def demo_timeline_def)
    show ?thesis
    proof (intro ballI allI impI)
      fix c d :: camera_id and x y
      assume cd: "c \<in> set [1, 2, 3, 4]" "d \<in> set [1, 2, 3, 4]"
        "latest_before demo_timeline 20 c x \<and> latest_before demo_timeline 20 d y"
      have "ob_time x \<le> 20" "0 \<le> ob_time y" using near [of c x] near [of d y] cd by simp_all
      then show "ob_time x - ob_time y < 2 ^ 63" by simp
    qed
  qed
  have cams: "length [1, 2, 3, 4 :: camera_id] = 4" "distinct [1, 2, 3, 4 :: camera_id]" by simp_all
  show ?thesis using quad_view_is_synchronized [OF demo_timeline_reachable cams one two, where tolerance = 2]
    by (elim exE conjE, intro exI conjI)
qed


text \<open>
  Two cameras that are more than half the range of a 64-bit timestamp apart: the difference of their times does
  not fit, although the code that follows would saturate it.
\<close>

lemma quad_view_skew_overflows:
  "cell_skew 0 [\<lparr>qc_camera_id = 1, qc_observation = \<lparr>ob_synchronized_at = 9223372036854775807, ob_source_sequence = 0,
       ob_source_frame = 0, ob_discontinuity_epoch = 0\<rparr>\<rparr>,
     \<lparr>qc_camera_id = 2, qc_observation = \<lparr>ob_synchronized_at = 9223372036854775808, ob_source_sequence = 0,
       ob_source_frame = 0, ob_discontinuity_epoch = 0\<rparr>\<rparr>] = None"
  by (simp add: cell_skew_def i64_try_from_def Let_def)

section \<open>Events and exports\<close>

text \<open>The members of a list exist, and lists built by appending alone never repeat an event.\<close>

definition database_inv :: "event_database \<Rightarrow> bool" where
  "database_inv db \<longleftrightarrow> bt_sorted (db_events db) \<and> bt_sorted (db_lists db) \<and> bt_sorted (db_folders db)
     \<and> (\<forall>i e. map_of (db_events db) i = Some e \<longrightarrow> ev_id e = i \<and> str_trim (ev_name e) \<noteq> [] \<and> ev_preferred_angle e \<in> ev_angles e)
     \<and> (\<forall>i l. map_of (db_lists db) i = Some l \<longrightarrow> (\<forall>e \<in> set (el_events l). map_of (db_events db) e \<noteq> None))"

lemma database_inv_default: "database_inv event_database_default"
  by (simp add: database_inv_def event_database_default_def)

lemma insert_event_inv: "database_inv db \<Longrightarrow> database_inv (snd (insert_event e db))"
  by (auto simp: insert_event_def database_inv_def map_of_bt_insert)

lemma update_event_inv:
  assumes "database_inv db" "\<And>e. ev_id (f e) = ev_id e \<and> ev_name (f e) = ev_name e \<and> ev_angles (f e) = ev_angles e
    \<and> ev_preferred_angle (f e) = ev_preferred_angle e"
  shows "database_inv (snd (update_event i f db))"
  using assms by (auto simp: update_event_def database_inv_def map_of_bt_set split: option.split)

lemma event_changes_inv:
  assumes "database_inv db"
  shows "database_inv (snd (set_note i note db))" "database_inv (snd (add_tag i tag db))"
    "database_inv (snd (place_in_folder i f db))" "database_inv (snd (add_folder fo db))"
proof -
  show "database_inv (snd (set_note i note db))"
    unfolding set_note_def by (rule update_event_inv [OF assms]) simp
  show "database_inv (snd (add_tag i tag db))"
    using update_event_inv [OF assms, of "\<lambda>e. e\<lparr>ev_tags := insert tag (ev_tags e)\<rparr>" i] assms by (simp add: add_tag_def)
  show "database_inv (snd (place_in_folder i f db))"
    using update_event_inv [OF assms, of "\<lambda>e. e\<lparr>ev_folders := insert f (ev_folders e)\<rparr>" i] assms by (simp add: place_in_folder_def)
  show "database_inv (snd (add_folder fo db))"
    using assms by (simp add: add_folder_def database_inv_def)
qed

lemma lists_inv:
  assumes "database_inv db"
  shows "database_inv (snd (add_list l db))" "database_inv (snd (append_to_list li e db))"
  using assms
  by (auto simp: add_list_def append_to_list_def database_inv_def map_of_bt_insert map_of_bt_set find_None_iff split: option.split)

text \<open>A list that names an event twice is accepted as a whole, while appending the same event is refused.\<close>

lemma add_list_accepts_repetition:
  assumes "map_of (db_events db) e \<noteq> None" "map_of (db_lists db) i = None" "str_trim name \<noteq> []"
  shows "fst (add_list \<lparr>el_id = i, el_name = name, el_events = [e, e]\<rparr> db) = Inr ()"
    and "fst (append_to_list i e (snd (add_list \<lparr>el_id = i, el_name = name, el_events = [e]\<rparr> db))) = Inl (EventAlreadyInList e i)"
  using assms by (simp_all add: add_list_def append_to_list_def map_of_bt_insert)

datatype 'g session_call =
    DoCapture capture_state | DoSubmit export_job_id "'g highlight_timeline" path | DoUpdate export_job_id export_job_state

fun session_do :: "'g session_call \<Rightarrow> 'g replay_session \<Rightarrow> 'g replay_session" where
  "session_do (DoCapture s) r = set_capture_state s r"
| "session_do (DoSubmit i t d) r = snd (submit_export i t d r)"
| "session_do (DoUpdate i s) r = snd (update_export i s r)"

fun export_rank :: "export_job_state \<Rightarrow> nat \<times> nat" where
  "export_rank ExportQueued = (0, 0)"
| "export_rank (ExportRunning n) = (1, n)"
| "export_rank (ExportCompleted _) = (2, 0)"
| "export_rank (ExportFailed _) = (2, 0)"
| "export_rank ExportCancelled = (2, 0)"

lemma export_may_follow_rank: "export_may_follow a b \<Longrightarrow> export_rank a \<le> export_rank b \<and> fst (export_rank a) < 2"
  by (induction a b rule: export_may_follow.induct) auto

lemma session_do_job:
  assumes "map_of (rs_exports r) i = Some job"
  shows "\<exists>job'. map_of (rs_exports (session_do x r)) i = Some job' \<and> job' = job\<lparr>xj_state := xj_state job'\<rparr>
    \<and> export_rank (xj_state job) \<le> export_rank (xj_state job')
    \<and> (fst (export_rank (xj_state job)) = 2 \<longrightarrow> xj_state job' = xj_state job)"
proof (cases x)
  case (DoUpdate j s)
  then show ?thesis using assms export_may_follow_rank [of "xj_state job" s]
    by (auto simp: update_export_def map_of_bt_set split: option.split)
qed (use assms in \<open>auto simp: set_capture_state_def submit_export_def map_of_bt_insert\<close>)

text \<open>An export keeps what it was submitted with and only moves forward. Whatever is captured, submitted and
  reported afterwards, the job keeps its destination, its snapshot of the edit and its mark of
  recording; its progress never goes back; and once it is completed, failed or cancelled it stays so.
\<close>
theorem exports_only_move_forward:
  assumes "map_of (rs_exports r) i = Some job"
  shows "\<exists>job'. map_of (rs_exports (fold session_do calls r)) i = Some job' \<and> job' = job\<lparr>xj_state := xj_state job'\<rparr>
    \<and> export_rank (xj_state job) \<le> export_rank (xj_state job')
    \<and> (fst (export_rank (xj_state job)) = 2 \<longrightarrow> xj_state job' = xj_state job)"
  using assms
proof (induction calls arbitrary: r job)
  case (Cons x xs)
  obtain j1 where j1: "map_of (rs_exports (session_do x r)) i = Some j1" "j1 = job\<lparr>xj_state := xj_state j1\<rparr>"
    "export_rank (xj_state job) \<le> export_rank (xj_state j1)"
    "fst (export_rank (xj_state job)) = 2 \<longrightarrow> xj_state j1 = xj_state job"
    using session_do_job [OF Cons.prems] by blast
  obtain j2 where j2: "map_of (rs_exports (fold session_do xs (session_do x r))) i = Some j2" "j2 = j1\<lparr>xj_state := xj_state j2\<rparr>"
    "export_rank (xj_state j1) \<le> export_rank (xj_state j2)"
    "fst (export_rank (xj_state j1)) = 2 \<longrightarrow> xj_state j2 = xj_state j1"
    using Cons.IH [OF j1(1)] by blast
  have "j2 = job\<lparr>xj_state := xj_state j2\<rparr>" by (subst j2(2), subst j1(2)) simp
  then show ?case using j1 j2 by (intro exI [of _ j2]) (auto intro: order_trans)
qed simp

theorem exports_only_move_forward_witness:
  "\<exists>job'. map_of (rs_exports (fold session_do [DoUpdate 1 (ExportRunning 2), DoUpdate 1 (ExportRunning 1), DoCapture CaptureRecording]
      (snd (submit_export 1 \<lparr>ht_items = [], ht_music = None\<rparr> [] (replay_session_default :: nat replay_session))))) 1 = Some job'
     \<and> (0, 0) \<le> export_rank (xj_state job')"
proof -
  have "map_of (rs_exports (snd (submit_export 1 \<lparr>ht_items = [], ht_music = None\<rparr> [] (replay_session_default :: nat replay_session)))) 1
      = Some \<lparr>xj_id = 1, xj_destination = [], xj_state = ExportQueued, xj_timeline_snapshot = \<lparr>ht_items = [], ht_music = None\<rparr>,
          xj_submitted_while_recording = False\<rparr>"
    by (simp add: submit_export_def replay_session_default_def)
  from exports_only_move_forward [OF this, of "[DoUpdate 1 (ExportRunning 2), DoUpdate 1 (ExportRunning 1), DoCapture CaptureRecording]"]
  obtain job' where j: "map_of (rs_exports (fold session_do [DoUpdate 1 (ExportRunning 2), DoUpdate 1 (ExportRunning 1), DoCapture CaptureRecording]
      (snd (submit_export 1 \<lparr>ht_items = [], ht_music = None\<rparr> [] (replay_session_default :: nat replay_session))))) 1 = Some job'"
    "export_rank ExportQueued \<le> export_rank (xj_state job')"
    unfolding export_job.simps by blast
  show ?thesis using j(2) by (intro exI [of _ job'] conjI j(1)) simp
qed

end
