(* ===== verification/Replay_Decks.thy ===== *)
theory Replay_Decks
  imports Replay_Timeline Transport
begin

text \<open>
  The two replay channels of \<open>crates/media/fm-replay\<close> (\<open>channel.rs\<close>): cueing an event, playing, shuttling and
  jogging within it, and the link that makes both channels follow the same controls. The gain of the
  audio policy is a floating-point value that nothing here computes with; it is a type parameter.
\<close>

section \<open>Channels\<close>

datatype replay_channel_id = ChannelA | ChannelB

fun rate_of_speed :: "speed \<Rightarrow> playback_rate" where
  "rate_of_speed SpeedPause = RATE_PAUSED"
| "rate_of_speed Forward1x = 1000"
| "rate_of_speed Forward2x = 2000"
| "rate_of_speed Reverse1x = - 1000"
| "rate_of_speed Reverse2x = - 2000"

datatype replay_audio_source = FollowAngle | AudioCamera camera_id | AudioMuted

datatype variable_speed_audio = SpeedMute | SpeedResample | SpeedPitchCorrect

record 'g audio_policy =
  ap_source :: replay_audio_source
  ap_variable_speed :: variable_speed_audio
  ap_gain :: 'g

definition audio_policy_default :: "'g \<Rightarrow> 'g audio_policy" where
  "audio_policy_default unity = \<lparr>ap_source = FollowAngle, ap_variable_speed = SpeedMute, ap_gain = unity\<rparr>"

datatype channel_mode = ModeLive | ModeRecorded event_id timeline_range

datatype channel_transport = DeckStopped | DeckPaused | DeckPlaying | DeckJog | DeckShuttle

record 'g replay_channel =
  ch_id :: replay_channel_id
  ch_mode :: channel_mode
  ch_angle :: camera_id
  ch_cursor :: timestamp
  ch_transport :: channel_transport
  ch_rate :: playback_rate
  ch_auto_return :: bool
  ch_audio :: "'g audio_policy"

definition replay_channel_new :: "'g \<Rightarrow> replay_channel_id \<Rightarrow> camera_id \<Rightarrow> timestamp \<Rightarrow> 'g replay_channel" where
  "replay_channel_new unity i angle live_edge =
     \<lparr>ch_id = i, ch_mode = ModeLive, ch_angle = angle, ch_cursor = live_edge, ch_transport = DeckStopped,
      ch_rate = RATE_PAUSED, ch_auto_return = False, ch_audio = audio_policy_default unity\<rparr>"

definition channel_cue :: "replay_event \<Rightarrow> 'g replay_channel \<Rightarrow> 'g replay_channel" where
  "channel_cue e ch =
     ch\<lparr>ch_mode := ModeRecorded (ev_id e) (ev_timeline e), ch_angle := ev_preferred_angle e,
        ch_cursor := tl_start (ev_timeline e), ch_transport := DeckPaused, ch_rate := RATE_PAUSED\<rparr>"

definition channel_go_live :: "timestamp \<Rightarrow> 'g replay_channel \<Rightarrow> 'g replay_channel" where
  "channel_go_live live_edge ch =
     ch\<lparr>ch_mode := ModeLive, ch_cursor := live_edge, ch_transport := DeckStopped, ch_rate := RATE_PAUSED\<rparr>"

definition channel_play :: "playback_rate \<Rightarrow> channel_transport \<Rightarrow> 'g replay_channel \<Rightarrow> 'g replay_channel" where
  "channel_play rate transport ch =
     ch\<lparr>ch_rate := rate, ch_transport := (if rate = RATE_PAUSED then DeckPaused else transport)\<rparr>"

definition move_cursor :: "int \<Rightarrow> 'g replay_channel \<Rightarrow> (bool \<times> 'g replay_channel) option" where
  "move_cursor delta ch =
     (case ch_mode ch of
        ModeLive \<Rightarrow> Some (False, ch)
      | ModeRecorded _ timeline \<Rightarrow>
          let lo = sint (tl_start timeline); hi = sint (tl_end timeline) - 1;
              requested = i128_saturating (sint (ch_cursor ch) + delta) in
          Option.bind (clamp requested lo hi) (\<lambda>bounded.
            map_option (\<lambda>cursor. (requested < lo \<or> requested > hi, ch\<lparr>ch_cursor := cursor\<rparr>)) (i64_try_from bounded)))"

definition channel_jog :: "i64 \<Rightarrow> u64 \<Rightarrow> 'g replay_channel \<Rightarrow> 'g replay_channel option" where
  "channel_jog frames frame_duration ch =
     Option.bind (i128_checked (sint frames * int (unat frame_duration))) (\<lambda>delta.
       map_option (\<lambda>(_, ch'). ch'\<lparr>ch_transport := DeckJog, ch_rate := RATE_PAUSED\<rparr>) (move_cursor delta ch))"

definition channel_advance :: "u64 \<Rightarrow> timestamp \<Rightarrow> 'g replay_channel \<Rightarrow> 'g replay_channel option" where
  "channel_advance elapsed live_edge ch =
     (if ch_transport ch \<noteq> DeckPlaying \<and> ch_transport ch \<noteq> DeckShuttle then Some ch
      else Option.bind (i128_checked (int (unat elapsed) * sint (ch_rate ch))) (\<lambda>product.
        map_option (\<lambda>(crossed, ch').
            if \<not> crossed then ch'
            else if ch_auto_return ch' then channel_go_live live_edge ch'
            else ch'\<lparr>ch_transport := DeckPaused, ch_rate := RATE_PAUSED\<rparr>)
          (move_cursor (trunc_div product 1000) ch)))"

section \<open>Decks\<close>

record 'g replay_decks =
  rd_a :: "'g replay_channel"
  rd_b :: "'g replay_channel"
  rd_linked :: bool

definition replay_decks_new :: "'g \<Rightarrow> camera_id \<Rightarrow> camera_id \<Rightarrow> timestamp \<Rightarrow> 'g replay_decks" where
  "replay_decks_new unity angle_a angle_b live_edge =
     \<lparr>rd_a = replay_channel_new unity ChannelA angle_a live_edge, rd_b = replay_channel_new unity ChannelB angle_b live_edge,
      rd_linked = False\<rparr>"

definition set_linked :: "bool \<Rightarrow> 'g replay_decks \<Rightarrow> 'g replay_decks" where
  "set_linked l d = d\<lparr>rd_linked := l\<rparr>"

fun deck_channel :: "'g replay_decks \<Rightarrow> replay_channel_id \<Rightarrow> 'g replay_channel" where
  "deck_channel d ChannelA = rd_a d"
| "deck_channel d ChannelB = rd_b d"

fun put_channel :: "replay_channel_id \<Rightarrow> 'g replay_channel \<Rightarrow> 'g replay_decks \<Rightarrow> 'g replay_decks" where
  "put_channel ChannelA ch d = d\<lparr>rd_a := ch\<rparr>"
| "put_channel ChannelB ch d = d\<lparr>rd_b := ch\<rparr>"

fun other_channel :: "replay_channel_id \<Rightarrow> replay_channel_id" where
  "other_channel ChannelA = ChannelB"
| "other_channel ChannelB = ChannelA"

text \<open>A control applies to the channel and, when the decks are linked, to the other one as well.\<close>

definition for_transport ::
  "replay_channel_id \<Rightarrow> ('g replay_channel \<Rightarrow> 'g replay_channel option) \<Rightarrow> 'g replay_decks \<Rightarrow> 'g replay_decks option" where
  "for_transport i f d =
     Option.bind (map_option (\<lambda>ch. put_channel i ch d) (f (deck_channel d i))) (\<lambda>d1.
       if rd_linked d1
       then map_option (\<lambda>ch. put_channel (other_channel i) ch d1) (f (deck_channel d1 (other_channel i)))
       else Some d1)"

definition select_angle :: "replay_channel_id \<Rightarrow> camera_id \<Rightarrow> 'g replay_decks \<Rightarrow> 'g replay_decks" where
  "select_angle i cam d = put_channel i ((deck_channel d i)\<lparr>ch_angle := cam\<rparr>) d"

definition set_audio_policy :: "replay_channel_id \<Rightarrow> 'g audio_policy \<Rightarrow> 'g replay_decks \<Rightarrow> 'g replay_decks" where
  "set_audio_policy i p d = put_channel i ((deck_channel d i)\<lparr>ch_audio := p\<rparr>) d"

definition set_auto_return :: "replay_channel_id \<Rightarrow> bool \<Rightarrow> 'g replay_decks \<Rightarrow> 'g replay_decks option" where
  "set_auto_return i enabled d = for_transport i (\<lambda>ch. Some (ch\<lparr>ch_auto_return := enabled\<rparr>)) d"

definition cue_event :: "replay_channel_id \<Rightarrow> replay_event \<Rightarrow> 'g replay_decks \<Rightarrow> 'g replay_decks option" where
  "cue_event i e d = for_transport i (\<lambda>ch. Some (channel_cue e ch)) d"

definition deck_go_live :: "replay_channel_id \<Rightarrow> timestamp \<Rightarrow> 'g replay_decks \<Rightarrow> 'g replay_decks option" where
  "deck_go_live i live_edge d = for_transport i (\<lambda>ch. Some (channel_go_live live_edge ch)) d"

definition deck_play :: "replay_channel_id \<Rightarrow> playback_rate \<Rightarrow> 'g replay_decks \<Rightarrow> 'g replay_decks option" where
  "deck_play i rate d = for_transport i (\<lambda>ch. Some (channel_play rate DeckPlaying ch)) d"

definition deck_shuttle :: "replay_channel_id \<Rightarrow> playback_rate \<Rightarrow> 'g replay_decks \<Rightarrow> 'g replay_decks option" where
  "deck_shuttle i rate d = for_transport i (\<lambda>ch. Some (channel_play rate DeckShuttle ch)) d"

definition deck_pause :: "replay_channel_id \<Rightarrow> 'g replay_decks \<Rightarrow> 'g replay_decks option" where
  "deck_pause i d = deck_play i RATE_PAUSED d"

definition deck_jog ::
  "replay_channel_id \<Rightarrow> i64 \<Rightarrow> u64 \<Rightarrow> 'g replay_decks \<Rightarrow> ((replay_error + unit) \<times> 'g replay_decks) option" where
  "deck_jog i frames frame_duration d =
     (if frame_duration = 0 then Some (Inl FrameDurationZero, d)
      else map_option (Pair (Inr ())) (for_transport i (channel_jog frames frame_duration) d))"

definition channel_seek :: "int \<Rightarrow> 'g replay_channel \<Rightarrow> 'g replay_channel option" where
  "channel_seek offset ch =
     (case ch_mode ch of
        ModeLive \<Rightarrow> Some ch
      | ModeRecorded _ timeline \<Rightarrow>
          map_option (\<lambda>(_, ch'). ch'\<lparr>ch_transport := DeckPaused\<rparr>) (move_cursor offset (ch\<lparr>ch_cursor := tl_start timeline\<rparr>)))"

definition seek_frame ::
  "replay_channel_id \<Rightarrow> u64 \<Rightarrow> u64 \<Rightarrow> 'g replay_decks \<Rightarrow> ((replay_error + unit) \<times> 'g replay_decks) option" where
  "seek_frame i frame frame_duration d =
     (if frame_duration = 0 then Some (Inl FrameDurationZero, d)
      else Option.bind (i128_checked (int (unat frame) * int (unat frame_duration))) (\<lambda>offset.
        map_option (Pair (Inr ())) (for_transport i (channel_seek offset) d)))"

definition deck_advance :: "replay_channel_id \<Rightarrow> u64 \<Rightarrow> timestamp \<Rightarrow> 'g replay_decks \<Rightarrow> 'g replay_decks option" where
  "deck_advance i elapsed live_edge d = for_transport i (channel_advance elapsed live_edge) d"

section \<open>The cursor stays within the cued event\<close>

definition sample_cue :: replay_event where
  "sample_cue = \<lparr>ev_id = 1, ev_name = [], ev_timeline = \<lparr>tl_start = 0, tl_end = 1000\<rparr>, ev_angles = {1, 2},
     ev_preferred_angle = 2, ev_tags = {}, ev_note = [], ev_folders = {}\<rparr>"

definition range_ok :: "timeline_range \<Rightarrow> bool" where
  "range_ok r \<longleftrightarrow> sint (tl_start r) < sint (tl_end r)"

definition replay_channel_ok :: "'g replay_channel \<Rightarrow> bool" where
  "replay_channel_ok ch \<longleftrightarrow> (case ch_mode ch of ModeLive \<Rightarrow> True
     | ModeRecorded _ r \<Rightarrow> range_ok r \<and> range_contains r (ch_cursor ch))"

lemma range_new_ok: "range_new s e = Inr r \<Longrightarrow> range_ok r"
  by (auto simp: range_new_def range_ok_def split: if_splits)

text \<open>Where the cursor goes: the requested position, bounded by the event; it reports whether it was bounded.\<close>

lemma move_cursor_recorded:
  assumes "ch_mode ch = ModeRecorded e r" "range_ok r"
  defines "requested \<equiv> \<lambda>delta. i128_saturating (sint (ch_cursor ch) + delta)"
  shows "\<exists>cursor. move_cursor delta ch = Some (requested delta < sint (tl_start r) \<or> requested delta > sint (tl_end r) - 1, ch\<lparr>ch_cursor := cursor\<rparr>)
    \<and> sint cursor = max (sint (tl_start r)) (min (requested delta) (sint (tl_end r) - 1))"
proof -
  let ?b = "max (sint (tl_start r)) (min (requested delta) (sint (tl_end r) - 1))"
  have lo: "sint (tl_start r) \<le> sint (tl_end r) - 1" using assms(2) by (simp add: range_ok_def)
  have "- (2 ^ 63) \<le> ?b" "?b < 2 ^ 63"
    using i64_range [of "tl_start r"] i64_range [of "tl_end r"] lo by (auto simp: max_def min_def)
  then obtain cursor where c: "i64_try_from ?b = Some cursor" by (simp add: i64_try_from_def)
  then have "sint cursor = ?b" by (simp add: checked_simps)
  moreover have "move_cursor delta ch = Some (requested delta < sint (tl_start r) \<or> requested delta > sint (tl_end r) - 1, ch\<lparr>ch_cursor := cursor\<rparr>)"
    using c lo by (simp add: move_cursor_def assms(1) Let_def clamp_def requested_def)
  ultimately show ?thesis by blast
qed

lemma move_cursor_ok:
  assumes "replay_channel_ok ch"
  shows "\<exists>crossed ch'. move_cursor delta ch = Some (crossed, ch') \<and> replay_channel_ok ch' \<and> ch' = ch\<lparr>ch_cursor := ch_cursor ch'\<rparr>"
proof (cases "ch_mode ch")
  case ModeLive
  then show ?thesis using assms by (auto simp: move_cursor_def)
next
  case (ModeRecorded e r)
  then have r: "range_ok r" using assms by (simp add: replay_channel_ok_def)
  obtain cursor crossed where c: "move_cursor delta ch = Some (crossed, ch\<lparr>ch_cursor := cursor\<rparr>)"
    "sint cursor = max (sint (tl_start r)) (min (i128_saturating (sint (ch_cursor ch) + delta)) (sint (tl_end r) - 1))"
    using move_cursor_recorded [OF ModeRecorded r, of delta] by blast
  have "range_contains r cursor" using c(2) r by (auto simp: range_contains_def range_ok_def)
  then show ?thesis using c(1) r ModeRecorded by (simp add: replay_channel_ok_def)
qed

lemma replay_channel_ok_fields [simp]:
  "replay_channel_ok (ch\<lparr>ch_transport := tr\<rparr>) \<longleftrightarrow> replay_channel_ok ch" "replay_channel_ok (ch\<lparr>ch_rate := rate\<rparr>) \<longleftrightarrow> replay_channel_ok ch"
  "replay_channel_ok (ch\<lparr>ch_auto_return := b\<rparr>) \<longleftrightarrow> replay_channel_ok ch" "replay_channel_ok (ch\<lparr>ch_angle := cam\<rparr>) \<longleftrightarrow> replay_channel_ok ch"
  "replay_channel_ok (ch\<lparr>ch_audio := au\<rparr>) \<longleftrightarrow> replay_channel_ok ch"
  by (simp_all add: replay_channel_ok_def split: channel_mode.split)

lemma replay_channel_ok_go_live [simp]: "replay_channel_ok (channel_go_live live_edge ch)"
  by (simp add: replay_channel_ok_def channel_go_live_def)

lemma replay_channel_ok_cue: "range_ok (ev_timeline e) \<Longrightarrow> replay_channel_ok (channel_cue e ch)"
  by (simp add: replay_channel_ok_def channel_cue_def range_contains_def range_ok_def)

lemma jog_product_fits: "\<exists>p. i128_checked (sint (frames :: i64) * int (unat (d :: u64))) = Some p"
proof -
  have f: "- (2 ^ 63) \<le> sint frames" "sint frames \<le> 2 ^ 63 - 1" using i64_range [of frames] by simp_all
  have d: "0 \<le> int (unat d)" "int (unat d) \<le> 2 ^ 64 - 1" using uint_bounded [of d] by simp_all
  have "\<bar>sint frames * int (unat d)\<bar> \<le> 2 ^ 63 * (2 ^ 64 - 1)"
    unfolding abs_mult using f d by (intro mult_mono) auto
  then have "- (2 ^ 127) \<le> sint frames * int (unat d)" "sint frames * int (unat d) < 2 ^ 127" by simp_all
  then show ?thesis by (simp only: i128_checked_def if_True simp_thms) blast
qed

lemma rate_product_fits: "\<exists>p. i128_checked (int (unat (d :: u64)) * sint (rate :: i32)) = Some p"
proof -
  have f: "- (2 ^ 31) \<le> sint rate" "sint rate \<le> 2 ^ 31 - 1" using sint_greater_eq [of rate] sint_less [of rate] by simp_all
  have d: "0 \<le> int (unat d)" "int (unat d) \<le> 2 ^ 64 - 1" using uint_bounded [of d] by simp_all
  have "\<bar>int (unat d) * sint rate\<bar> \<le> (2 ^ 64 - 1) * 2 ^ 31"
    unfolding abs_mult using f d by (intro mult_mono) auto
  then have "- (2 ^ 127) \<le> int (unat d) * sint rate" "int (unat d) * sint rate < 2 ^ 127" by simp_all
  then show ?thesis by (simp only: i128_checked_def if_True simp_thms) blast
qed

lemma channel_jog_ok: "replay_channel_ok ch \<Longrightarrow> \<exists>ch'. channel_jog frames d ch = Some ch' \<and> replay_channel_ok ch'"
proof -
  assume ch: "replay_channel_ok ch"
  obtain p where p: "i128_checked (sint frames * int (unat d)) = Some p" using jog_product_fits by blast
  obtain crossed ch' where "move_cursor p ch = Some (crossed, ch')" "replay_channel_ok ch'" using move_cursor_ok [OF ch] by blast
  then show ?thesis using p by (simp add: channel_jog_def del: of_nat_unat)
qed

lemma channel_advance_ok: "replay_channel_ok ch \<Longrightarrow> \<exists>ch'. channel_advance elapsed live_edge ch = Some ch' \<and> replay_channel_ok ch'"
proof -
  assume ch: "replay_channel_ok ch"
  obtain p where p: "i128_checked (int (unat elapsed) * sint (ch_rate ch)) = Some p" using rate_product_fits by blast
  obtain crossed ch' where "move_cursor (trunc_div p 1000) ch = Some (crossed, ch')" "replay_channel_ok ch'" using move_cursor_ok [OF ch] by blast
  then show ?thesis using p ch by (simp add: channel_advance_def del: of_nat_unat)
qed

lemma channel_seek_ok:
  assumes "replay_channel_ok ch"
  shows "\<exists>ch'. channel_seek offset ch = Some ch' \<and> replay_channel_ok ch'"
proof (cases "ch_mode ch")
  case ModeLive
  then show ?thesis using assms by (simp add: channel_seek_def)
next
  case (ModeRecorded e r)
  then have "replay_channel_ok (ch\<lparr>ch_cursor := tl_start r\<rparr>)"
    using assms by (simp add: replay_channel_ok_def range_contains_def range_ok_def)
  from move_cursor_ok [OF this, of offset] show ?thesis
    using ModeRecorded by (auto simp: channel_seek_def)
qed

lemma for_transport_keeps:
  assumes "P (rd_a d)" "P (rd_b d)" "\<And>ch. P ch \<Longrightarrow> \<exists>ch'. f ch = Some ch' \<and> P ch'"
  shows "\<exists>d'. for_transport i f d = Some d' \<and> P (rd_a d') \<and> P (rd_b d') \<and> rd_linked d' = rd_linked d"
proof -
  obtain a b where "f (rd_a d) = Some a" "P a" "f (rd_b d) = Some b" "P b" using assms by metis
  then show ?thesis using assms(1,2) by (cases i) (simp_all add: for_transport_def)
qed

datatype 'g deck_call =
    DoSetLinked bool | DoSelectAngle replay_channel_id camera_id | DoSetAudio replay_channel_id "'g audio_policy"
  | DoSetAutoReturn replay_channel_id bool | DoCue replay_channel_id replay_event | DoGoLive replay_channel_id timestamp
  | DoPlay replay_channel_id playback_rate | DoShuttle replay_channel_id playback_rate | DoPause replay_channel_id
  | DoJog replay_channel_id i64 u64 | DoSeekFrame replay_channel_id u64 u64 | DoAdvance replay_channel_id u64 timestamp

fun deck_do :: "'g deck_call \<Rightarrow> 'g replay_decks \<Rightarrow> 'g replay_decks option" where
  "deck_do (DoSetLinked l) d = Some (set_linked l d)"
| "deck_do (DoSelectAngle i cam) d = Some (select_angle i cam d)"
| "deck_do (DoSetAudio i p) d = Some (set_audio_policy i p d)"
| "deck_do (DoSetAutoReturn i b) d = set_auto_return i b d"
| "deck_do (DoCue i e) d = cue_event i e d"
| "deck_do (DoGoLive i t) d = deck_go_live i t d"
| "deck_do (DoPlay i rate) d = deck_play i rate d"
| "deck_do (DoShuttle i rate) d = deck_shuttle i rate d"
| "deck_do (DoPause i) d = deck_pause i d"
| "deck_do (DoJog i frames dur) d = map_option snd (deck_jog i frames dur d)"
| "deck_do (DoSeekFrame i frame dur) d = map_option snd (seek_frame i frame dur d)"
| "deck_do (DoAdvance i elapsed t) d = deck_advance i elapsed t d"

fun deck_run :: "'g deck_call list \<Rightarrow> 'g replay_decks \<Rightarrow> 'g replay_decks option" where
  "deck_run [] d = Some d"
| "deck_run (x # xs) d = Option.bind (deck_do x d) (deck_run xs)"

text \<open>
  What a caller owes: the ranges of the events it cues come from their constructor, and the offset it
  seeks to fits into 128 bits.
\<close>

fun call_allowed :: "'g deck_call \<Rightarrow> bool" where
  "call_allowed (DoCue _ e) \<longleftrightarrow> range_ok (ev_timeline e)"
| "call_allowed (DoSeekFrame _ frame dur) \<longleftrightarrow> unat frame * unat dur < 2 ^ 127"
| "call_allowed _ \<longleftrightarrow> True"

lemma deck_do_ok:
  assumes "replay_channel_ok (rd_a d)" "replay_channel_ok (rd_b d)" "call_allowed x"
  shows "\<exists>d'. deck_do x d = Some d' \<and> replay_channel_ok (rd_a d') \<and> replay_channel_ok (rd_b d')"
proof -
  note keeps = for_transport_keeps [of replay_channel_ok, OF assms(1,2)]
  show ?thesis
  proof (cases x)
    case (DoSelectAngle i cam)
    then show ?thesis using assms by (cases i) (simp_all add: select_angle_def)
  next
    case (DoSetAudio i p)
    then show ?thesis using assms by (cases i) (simp_all add: set_audio_policy_def)
  next
    case (DoSetAutoReturn i b)
    then show ?thesis using keeps [of "\<lambda>ch. Some (ch\<lparr>ch_auto_return := b\<rparr>)" i] by (auto simp: set_auto_return_def)
  next
    case (DoCue i e)
    then show ?thesis using keeps [of "\<lambda>ch. Some (channel_cue e ch)" i] assms(3) by (auto simp: cue_event_def replay_channel_ok_cue)
  next
    case (DoGoLive i t)
    then show ?thesis using keeps [of "\<lambda>ch. Some (channel_go_live t ch)" i] by (auto simp: deck_go_live_def)
  next
    case (DoPlay i rate)
    then show ?thesis using keeps [of "\<lambda>ch. Some (channel_play rate DeckPlaying ch)" i] by (auto simp: deck_play_def channel_play_def)
  next
    case (DoShuttle i rate)
    then show ?thesis using keeps [of "\<lambda>ch. Some (channel_play rate DeckShuttle ch)" i] by (auto simp: deck_shuttle_def channel_play_def)
  next
    case (DoPause i)
    then show ?thesis using keeps [of "\<lambda>ch. Some (channel_play RATE_PAUSED DeckPlaying ch)" i]
      by (auto simp: deck_pause_def deck_play_def channel_play_def)
  next
    case (DoJog i frames dur)
    have "\<exists>d'. for_transport i (channel_jog frames dur) d = Some d' \<and> replay_channel_ok (rd_a d') \<and> replay_channel_ok (rd_b d')
      \<and> rd_linked d' = rd_linked d" by (rule keeps) (rule channel_jog_ok)
    then show ?thesis using DoJog assms by (auto simp: deck_jog_def)
  next
    case (DoSeekFrame i frame dur)
    have "int (unat frame) * int (unat dur) = int (unat frame * unat dur)" by (simp only: of_nat_mult)
    then have "i128_checked (int (unat frame) * int (unat dur)) = Some (int (unat frame * unat dur))"
      using assms(3) DoSeekFrame by (simp add: i128_checked_def del: of_nat_unat of_nat_mult)
    moreover have "\<exists>d'. for_transport i (channel_seek (int (unat frame * unat dur))) d = Some d'
      \<and> replay_channel_ok (rd_a d') \<and> replay_channel_ok (rd_b d') \<and> rd_linked d' = rd_linked d" by (rule keeps) (rule channel_seek_ok)
    ultimately show ?thesis
      using DoSeekFrame assms by (auto simp: seek_frame_def simp del: of_nat_unat of_nat_mult)
  next
    case (DoAdvance i elapsed t)
    have "\<exists>d'. for_transport i (channel_advance elapsed t) d = Some d' \<and> replay_channel_ok (rd_a d') \<and> replay_channel_ok (rd_b d')
      \<and> rd_linked d' = rd_linked d" by (rule keeps) (rule channel_advance_ok)
    then show ?thesis using DoAdvance by (auto simp: deck_advance_def)
  qed (use assms in \<open>auto simp: set_linked_def\<close>)
qed

lemma deck_run_ok:
  assumes "replay_channel_ok (rd_a d)" "replay_channel_ok (rd_b d)" "list_all call_allowed calls"
  shows "\<exists>d'. deck_run calls d = Some d' \<and> replay_channel_ok (rd_a d') \<and> replay_channel_ok (rd_b d')"
  using assms
proof (induction calls arbitrary: d)
  case (Cons x xs)
  then show ?case using deck_do_ok [of d x] by auto
qed simp

text \<open>C35: A replay channel never leaves the event it is cued to. From fresh decks on, no sequence of allowed calls panics
  (cueing, playing and shuttling at any rate in both directions, jogging by any number of frames,
  seeking, going live, linking), and a channel that plays a recording always shows a time inside
  the half-open range of its event. Allowed are all calls but two kinds: cueing an event whose range is not one that the
  constructor of ranges returns (the fields are public), and seeking to a frame whose offset, the product of frame and frame
  duration, is 2^127 or more, where the code does panic.
\<close>
theorem replay_cursor_within_event:
  assumes "list_all call_allowed calls"
  shows "\<exists>d. deck_run calls (replay_decks_new unity angle_a angle_b live_edge) = Some d
    \<and> (\<forall>i e r. ch_mode (deck_channel d i) = ModeRecorded e r \<longrightarrow> range_contains r (ch_cursor (deck_channel d i)))"
proof -
  have "replay_channel_ok (rd_a (replay_decks_new unity angle_a angle_b live_edge))"
    "replay_channel_ok (rd_b (replay_decks_new unity angle_a angle_b live_edge))"
    by (simp_all add: replay_decks_new_def replay_channel_new_def replay_channel_ok_def)
  then obtain d where d: "deck_run calls (replay_decks_new unity angle_a angle_b live_edge) = Some d"
    "replay_channel_ok (rd_a d)" "replay_channel_ok (rd_b d)" using deck_run_ok assms by blast
  have ok: "replay_channel_ok (deck_channel d i)" for i using d(2,3) by (cases i) simp_all
  have "range_contains r (ch_cursor (deck_channel d i))" if "ch_mode (deck_channel d i) = ModeRecorded e r" for i e r
    using ok [of i] that by (simp add: replay_channel_ok_def)
  then show ?thesis using d(1) by blast
qed

text \<open>A deck session on an event of a thousand nanoseconds.\<close>

theorem replay_cursor_within_event_witness:
  "\<exists>d. deck_run [DoSetLinked True,
      DoCue ChannelA sample_cue,
      DoShuttle ChannelB (- 4000), DoAdvance ChannelA 7 5000, DoSeekFrame ChannelB 90 40]
      (replay_decks_new () 1 2 0) = Some d
    \<and> (\<forall>i e r. ch_mode (deck_channel d i) = ModeRecorded e r \<longrightarrow> range_contains r (ch_cursor (deck_channel d i)))"
  by (rule replay_cursor_within_event) (simp add: range_ok_def sample_cue_def)

section \<open>Linked channels\<close>

text \<open>What linked channels share; the camera angle and the audio of each channel remain its own.\<close>

definition channel_view :: "'g replay_channel \<Rightarrow> channel_mode \<times> timestamp \<times> channel_transport \<times> playback_rate \<times> bool" where
  "channel_view ch = (ch_mode ch, ch_cursor ch, ch_transport ch, ch_rate ch, ch_auto_return ch)"

definition aligned :: "'g replay_decks \<Rightarrow> bool" where
  "aligned d \<longleftrightarrow> channel_view (rd_a d) = channel_view (rd_b d)"

text \<open>A control that reads and writes only the shared part.\<close>

definition control :: "('g replay_channel \<Rightarrow> 'g replay_channel option) \<Rightarrow> bool" where
  "control f \<longleftrightarrow> (\<forall>ch ch'. channel_view ch = channel_view ch' \<longrightarrow>
     map_option channel_view (f ch) = map_option channel_view (f ch'))"

lemma for_transport_aligned:
  assumes "control f" "aligned d" "rd_linked d" "for_transport i f d = Some d'"
  shows "aligned d' \<and> rd_linked d'"
proof -
  have same: "map_option channel_view (f (rd_a d)) = map_option channel_view (f (rd_b d))"
    using assms(1,2) unfolding control_def aligned_def by blast
  obtain a where a: "f (rd_a d) = Some a" using assms(3,4) same
    by (cases i; cases "f (rd_a d)"; cases "f (rd_b d)") (simp_all add: for_transport_def)
  obtain b where b: "f (rd_b d) = Some b" using a same by (cases "f (rd_b d)") simp_all
  have "rd_a d' = a" "rd_b d' = b" "rd_linked d'"
    using assms(3,4) a b by (cases i; auto simp: for_transport_def)+
  then show ?thesis using same a b by (simp add: aligned_def)
qed

definition cursor_target :: "channel_mode \<Rightarrow> timestamp \<Rightarrow> int \<Rightarrow> (bool \<times> timestamp) option" where
  "cursor_target mode cursor delta =
     (case mode of
        ModeLive \<Rightarrow> Some (False, cursor)
      | ModeRecorded _ r \<Rightarrow>
          let requested = i128_saturating (sint cursor + delta) in
          Option.bind (clamp requested (sint (tl_start r)) (sint (tl_end r) - 1)) (\<lambda>b.
            map_option (Pair (requested < sint (tl_start r) \<or> requested > sint (tl_end r) - 1)) (i64_try_from b)))"

lemma move_cursor_target:
  "move_cursor delta ch = map_option (\<lambda>(crossed, c). (crossed, ch\<lparr>ch_cursor := c\<rparr>)) (cursor_target (ch_mode ch) (ch_cursor ch) delta)"
proof (cases "ch_mode ch")
  case (ModeRecorded e r)
  then show ?thesis
    by (cases "clamp (i128_saturating (sint (ch_cursor ch) + delta)) (sint (tl_start r)) (sint (tl_end r) - 1)")
      (simp_all add: move_cursor_def cursor_target_def Let_def option.map_comp comp_def)
qed (simp add: move_cursor_def cursor_target_def)

lemmas control_simps = control_def channel_view_def

lemma jog_control: "control (channel_jog frames dur)"
  by (auto simp: control_simps channel_jog_def move_cursor_target option.map_comp comp_def split_beta split: Option.bind_splits)

lemma advance_control: "control (channel_advance elapsed live_edge)"
  by (auto simp: control_simps channel_advance_def move_cursor_target option.map_comp comp_def split_beta channel_go_live_def
      intro!: option.map_cong split: Option.bind_splits if_splits)

lemma seek_control: "control (channel_seek offset)"
  by (auto simp: control_simps channel_seek_def move_cursor_target option.map_comp comp_def split_beta split: channel_mode.splits)

lemma setters_control:
  "control (\<lambda>ch. Some (ch\<lparr>ch_auto_return := b\<rparr>))" "control (\<lambda>ch. Some (channel_cue e ch))"
  "control (\<lambda>ch. Some (channel_go_live t ch))" "control (\<lambda>ch. Some (channel_play rate tr ch))"
  by (simp_all add: control_simps channel_cue_def channel_go_live_def channel_play_def)

lemma angle_and_audio_aligned:
  "aligned (select_angle i cam d) = aligned d" "rd_linked (select_angle i cam d) = rd_linked d"
  "aligned (set_audio_policy i p d) = aligned d" "rd_linked (set_audio_policy i p d) = rd_linked d"
  by (cases i; simp add: aligned_def channel_view_def select_angle_def set_audio_policy_def)+

lemma deck_do_aligned:
  assumes "aligned d" "rd_linked d" "x \<noteq> DoSetLinked False" "deck_do x d = Some d'"
  shows "aligned d' \<and> rd_linked d'"
proof -
  note moved = for_transport_aligned [OF _ assms(1,2)]
  show ?thesis
  proof (cases x)
    case (DoSetLinked l)
    then show ?thesis using assms by (auto simp: set_linked_def aligned_def)
  next
    case (DoSelectAngle i cam)
    then show ?thesis using assms by (auto simp: angle_and_audio_aligned)
  next
    case (DoSetAudio i p)
    then show ?thesis using assms by (auto simp: angle_and_audio_aligned)
  next
    case (DoSetAutoReturn i b)
    then show ?thesis using assms(4) moved [OF setters_control(1)] by (simp add: set_auto_return_def)
  next
    case (DoCue i e)
    then show ?thesis using assms(4) moved [OF setters_control(2)] by (simp add: cue_event_def)
  next
    case (DoGoLive i t)
    then show ?thesis using assms(4) moved [OF setters_control(3)] by (simp add: deck_go_live_def)
  next
    case (DoPlay i rate)
    then show ?thesis using assms(4) moved [OF setters_control(4)] by (simp add: deck_play_def)
  next
    case (DoShuttle i rate)
    then show ?thesis using assms(4) moved [OF setters_control(4)] by (simp add: deck_shuttle_def)
  next
    case (DoPause i)
    then show ?thesis using assms(4) moved [OF setters_control(4)] by (simp add: deck_pause_def deck_play_def)
  next
    case (DoJog i frames dur)
    then show ?thesis using assms moved [OF jog_control [of frames dur], of i d'] by (auto simp: deck_jog_def split: if_splits)
  next
    case (DoSeekFrame i frame dur)
    show ?thesis
    proof (cases "dur = 0")
      case True
      then show ?thesis using assms DoSeekFrame by (simp add: seek_frame_def)
    next
      case False
      then obtain offset where "for_transport i (channel_seek offset) d = Some d'"
        using assms(4) DoSeekFrame by (auto simp: seek_frame_def split: Option.bind_splits)
      then show ?thesis by (rule moved [OF seek_control])
    qed
  next
    case (DoAdvance i elapsed t)
    then show ?thesis using assms(4) moved [OF advance_control] by (simp add: deck_advance_def)
  qed
qed

lemma deck_run_aligned:
  assumes "aligned d" "rd_linked d" "DoSetLinked False \<notin> set calls" "deck_run calls d = Some d'"
  shows "aligned d'"
  using assms
proof (induction calls arbitrary: d)
  case (Cons x xs)
  then obtain d1 where "deck_do x d = Some d1" "deck_run xs d1 = Some d'" by (auto split: Option.bind_splits)
  then show ?case using Cons.IH [of d1] Cons.prems deck_do_aligned [of d x d1] by auto
qed simp

text \<open>C36: Linked channels play as one. When the link is set on decks whose channels agree (fresh decks do), every
  sequence of calls that does not unlink them runs to its end, whichever channel each call names,
  and leaves both channels with the same recording, cursor, transport, rate and automatic return,
  also when the cursor runs into an end of the event and the channels pause or return to live.
\<close>
theorem linked_decks_stay_aligned:
  assumes "aligned d" "replay_channel_ok (rd_a d)" "replay_channel_ok (rd_b d)" "list_all call_allowed calls"
    and "DoSetLinked False \<notin> set calls"
  shows "\<exists>d'. deck_run (DoSetLinked True # calls) d = Some d'
    \<and> ch_mode (rd_a d') = ch_mode (rd_b d') \<and> ch_cursor (rd_a d') = ch_cursor (rd_b d')
    \<and> ch_transport (rd_a d') = ch_transport (rd_b d') \<and> ch_rate (rd_a d') = ch_rate (rd_b d')
    \<and> ch_auto_return (rd_a d') = ch_auto_return (rd_b d')"
proof -
  obtain d' where d': "deck_run (DoSetLinked True # calls) d = Some d'"
    using deck_run_ok [of d "DoSetLinked True # calls"] assms by auto
  have "aligned (set_linked True d)" "rd_linked (set_linked True d)"
    using assms(1) by (simp_all add: aligned_def set_linked_def)
  then have "aligned d'" using deck_run_aligned assms(5) d' by auto
  then show ?thesis using d' by (simp add: aligned_def channel_view_def)
qed

theorem linked_decks_stay_aligned_witness:
  "\<exists>d'. deck_run [DoSetLinked True, DoCue ChannelB sample_cue, DoPlay ChannelA 2000, DoAdvance ChannelB 600 5000]
      (replay_decks_new () 1 2 0) = Some d'
    \<and> ch_mode (rd_a d') = ch_mode (rd_b d') \<and> ch_cursor (rd_a d') = ch_cursor (rd_b d')
    \<and> ch_transport (rd_a d') = ch_transport (rd_b d') \<and> ch_rate (rd_a d') = ch_rate (rd_b d')
    \<and> ch_auto_return (rd_a d') = ch_auto_return (rd_b d')"
  by (rule linked_decks_stay_aligned)
    (simp_all add: replay_decks_new_def replay_channel_new_def aligned_def channel_view_def replay_channel_ok_def range_ok_def sample_cue_def)

end
