(* ===== verification/Frames.thy ===== *)
theory Frames
  imports Media_Types
begin

text \<open>
  The media values of \<open>crates/media/fm-frame\<close>: timestamps and timing (\<open>timing.rs\<close>), resource leases
  (\<open>lease.rs\<close>), encoded packets (\<open>encoded.rs\<close>), audio blocks (\<open>audio.rs\<close>) and video payloads held in
  CPU memory (\<open>video.rs\<close>). Audio samples are floating-point values that nothing here computes with:
  their type is a parameter, and so is the value of silence. A \<open>usize\<close> has 64 bits; sizes are natural
  numbers and their checked arithmetic is range-checked.
\<close>

unbundle bit_operations_syntax

definition usize_checked :: "nat \<Rightarrow> nat option" where
  "usize_checked n = (if n < 2 ^ 64 then Some n else None)"

lemma usize_checked_Some [checked_simps]: "usize_checked n = Some m \<longleftrightarrow> m = n \<and> n < 2 ^ 64"
  by (auto simp: usize_checked_def)

section \<open>Timing\<close>

type_synonym clock_domain_id = u128
type_synonym sequence_number = u64
type_synonym time_base = frame_rate
type_synonym media_flags = u8

definition sequence_checked_next :: "sequence_number \<Rightarrow> sequence_number option" where
  "sequence_checked_next n = checked_add n 1"

datatype timing_error = NormalizationOverflow | ZeroDuration | PresentationEndOverflow

record original_timestamp =
  ot_timestamp :: i64
  ot_time_base :: time_base

definition NANOS_PER_SECOND_i128 :: int where "NANOS_PER_SECOND_i128 = 1000000000"

definition normalize :: "original_timestamp \<Rightarrow> timing_error + i64" where
  "normalize t =
     and_then (ok_or (Option.bind (i128_checked (sint (ot_timestamp t) * uint (numerator (ot_time_base t))))
         (\<lambda>v. i128_checked (v * NANOS_PER_SECOND_i128))) NormalizationOverflow) (\<lambda>v.
       ok_or (i64_try_from (trunc_div v (uint (denominator (ot_time_base t))))) NormalizationOverflow)"

definition duration_from_nanos :: "u64 \<Rightarrow> timing_error + u64" where
  "duration_from_nanos nanos = (if nanos = 0 then Inl ZeroDuration else Inr nanos)"

definition MEDIA_FLAGS_ALL :: u8 where "MEDIA_FLAGS_ALL = push_bit 0 1 OR push_bit 1 1"

definition media_flags_from_bits :: "u8 \<Rightarrow> u8 + media_flags" where
  "media_flags_from_bits bits = (if bits AND NOT MEDIA_FLAGS_ALL = 0 then Inr bits else Inl bits)"

record media_timing =
  mt_original :: original_timestamp
  mt_presentation :: i64
  mt_duration :: u64
  mt_clock_domain :: clock_domain_id
  mt_sequence :: sequence_number
  mt_flags :: media_flags
  mt_capture :: "original_timestamp option"
  mt_timecode :: "timecode option"

definition media_timing_new ::
  "original_timestamp \<Rightarrow> i64 \<Rightarrow> u64 \<Rightarrow> clock_domain_id \<Rightarrow> sequence_number \<Rightarrow> timing_error + media_timing" where
  "media_timing_new original presentation duration domain sequence =
     and_then (ok_or (i64_try_from (uint duration)) PresentationEndOverflow) (\<lambda>d.
     and_then (ok_or (i64_try_from (sint presentation + sint d)) PresentationEndOverflow) (\<lambda>_.
       Inr \<lparr>mt_original = original, mt_presentation = presentation, mt_duration = duration, mt_clock_domain = domain,
            mt_sequence = sequence, mt_flags = 0, mt_capture = None, mt_timecode = None\<rparr>))"

definition with_flags :: "media_flags \<Rightarrow> media_timing \<Rightarrow> media_timing" where
  "with_flags f t = t\<lparr>mt_flags := f\<rparr>"

definition with_capture_timestamp :: "original_timestamp \<Rightarrow> media_timing \<Rightarrow> media_timing" where
  "with_capture_timestamp c t = t\<lparr>mt_capture := Some c\<rparr>"

definition with_timecode :: "timecode \<Rightarrow> media_timing \<Rightarrow> media_timing" where
  "with_timecode tc t = t\<lparr>mt_timecode := Some tc\<rparr>"

section \<open>Resource leases\<close>

datatype memory_domain = Cpu | D3D12 | Metal | Vulkan | DmaBuf | SharedMemory

type_synonym resource_id = u128

record synchronization_token =
  sy_id :: u128
  sy_value :: u64

datatype release_ownership = OwnerReclaims | LeaseHolderSignals

record release_owner =
  ro_id :: u128
  ro_ownership :: release_ownership

datatype lease_error = LeaseMissingReleaseToken | ReleaseBeforeReady u64 u64

record resource_lease =
  rl_bridge_id :: u128
  rl_resource_id :: resource_id
  rl_memory_domain :: memory_domain
  rl_ready :: "synchronization_token option"
  rl_release :: "synchronization_token option"
  rl_release_owner :: release_owner

definition resource_lease_new ::
  "u128 \<Rightarrow> resource_id \<Rightarrow> memory_domain \<Rightarrow> synchronization_token option \<Rightarrow> synchronization_token option
    \<Rightarrow> release_owner \<Rightarrow> lease_error + resource_lease" where
  "resource_lease_new bridge resource domain ready release owner =
     (if ro_ownership owner = LeaseHolderSignals \<and> release = None then Inl LeaseMissingReleaseToken
      else let lease = \<lparr>rl_bridge_id = bridge, rl_resource_id = resource, rl_memory_domain = domain,
          rl_ready = ready, rl_release = release, rl_release_owner = owner\<rparr> in
        case (ready, release) of
          (Some a, Some b) \<Rightarrow>
            if sy_id a = sy_id b \<and> sy_value b < sy_value a
            then Inl (ReleaseBeforeReady (sy_value a) (sy_value b)) else Inr lease
        | _ \<Rightarrow> Inr lease)"

section \<open>Encoded packets\<close>

type_synonym codec_id = ustr
type_synonym stream_id = u32
type_synonym codec_config_generation = u64
type_synonym packet_flags = u8

datatype encoded_packet_error =
    EmptyCodecId | CodecIdTooLong usize usize | InvalidCodecId | TimestampTimeBaseMismatch
  | EmptyPayload | PayloadTooLarge usize usize

definition CODEC_ID_MAX_LENGTH :: usize where "CODEC_ID_MAX_LENGTH = 64"

definition is_codec_byte :: "nat \<Rightarrow> bool" where
  "is_codec_byte b \<longleftrightarrow> is_ascii_digit b \<or> is_ascii_lowercase b \<or> (65 \<le> b \<and> b \<le> 90) \<or> b = 45 \<or> b = 95 \<or> b = 46 \<or> b = 47"

definition codec_id_new :: "ustr \<Rightarrow> encoded_packet_error + codec_id" where
  "codec_id_new value =
     (if value = [] then Inl EmptyCodecId
      else if str_len value > CODEC_ID_MAX_LENGTH then Inl (CodecIdTooLong (str_len value) CODEC_ID_MAX_LENGTH)
      else if \<not> list_all is_codec_byte value then Inl InvalidCodecId
      else Inr value)"

definition PACKET_FLAGS_ALL :: u8 where
  "PACKET_FLAGS_ALL = push_bit 0 1 OR push_bit 1 1 OR push_bit 2 1"

definition packet_flags_from_bits :: "u8 \<Rightarrow> u8 + packet_flags" where
  "packet_flags_from_bits bits = (if bits AND NOT PACKET_FLAGS_ALL = 0 then Inr bits else Inl bits)"

record encoded_packet_metadata =
  em_codec :: codec_id
  em_config_generation :: codec_config_generation
  em_stream_id :: stream_id
  em_channel_index :: "u16 option"
  em_timing :: media_timing
  em_decode_timestamp :: original_timestamp
  em_flags :: packet_flags

definition encoded_packet_metadata_new ::
  "codec_id \<Rightarrow> codec_config_generation \<Rightarrow> stream_id \<Rightarrow> u16 option \<Rightarrow> media_timing \<Rightarrow> original_timestamp \<Rightarrow> packet_flags
    \<Rightarrow> encoded_packet_error + encoded_packet_metadata" where
  "encoded_packet_metadata_new codec generation stream channel timing dts flags =
     (if ot_time_base (mt_original timing) \<noteq> ot_time_base dts then Inl TimestampTimeBaseMismatch
      else Inr \<lparr>em_codec = codec, em_config_generation = generation, em_stream_id = stream, em_channel_index = channel,
        em_timing = timing, em_decode_timestamp = dts, em_flags = flags\<rparr>)"

datatype encoded_payload = PayloadBytes "u8 list" | PayloadResource resource_lease

record encoded_packet =
  ep_metadata :: encoded_packet_metadata
  ep_payload :: encoded_payload

definition MAX_PAYLOAD_BYTES :: usize where "MAX_PAYLOAD_BYTES = 64 * 1024 * 1024"

definition packet_from_bytes :: "encoded_packet_metadata \<Rightarrow> u8 list \<Rightarrow> encoded_packet_error + encoded_packet" where
  "packet_from_bytes m payload =
     (if payload = [] then Inl EmptyPayload
      else if length payload > MAX_PAYLOAD_BYTES then Inl (PayloadTooLarge (length payload) MAX_PAYLOAD_BYTES)
      else Inr \<lparr>ep_metadata = m, ep_payload = PayloadBytes payload\<rparr>)"

definition packet_from_resource :: "encoded_packet_metadata \<Rightarrow> resource_lease \<Rightarrow> encoded_packet" where
  "packet_from_resource m lease = \<lparr>ep_metadata = m, ep_payload = PayloadResource lease\<rparr>"

section \<open>Audio blocks\<close>

definition MAX_SAMPLE_RATE_HZ :: u32 where "MAX_SAMPLE_RATE_HZ = 768000"
definition MAX_CHANNELS :: usize where "MAX_CHANNELS = 64"
definition MAX_SAMPLES_PER_CHANNEL :: usize where "MAX_SAMPLES_PER_CHANNEL = 1048576"
definition MAX_ALLOCATION_BYTES :: usize where "MAX_ALLOCATION_BYTES = 256 * 1024 * 1024"

datatype audio_block_error =
    SampleRateTooHigh u32 u32 | TooManyChannels usize usize | DuplicateChannel
  | PlaneCountMismatch usize usize | ZeroSamples | TooManySamples usize usize
  | PlaneLengthMismatch usize usize usize | AllocationOverflow | AllocationTooLarge usize usize

record 's audio_block =
  ab_timing :: media_timing
  ab_sample_rate :: u32
  ab_channel_layout :: "channel list"
  ab_sample_count :: usize
  ab_planes :: "'s list list"

fun has_repetition :: "'a list \<Rightarrow> bool" where
  "has_repetition [] \<longleftrightarrow> False"
| "has_repetition (c # cs) \<longleftrightarrow> c \<in> set cs \<or> has_repetition cs"

definition validate_layout :: "u32 \<Rightarrow> channel list \<Rightarrow> usize \<Rightarrow> usize \<Rightarrow> audio_block_error + unit" where
  "validate_layout sample_rate channels plane_count sample_count =
     (if sample_rate > MAX_SAMPLE_RATE_HZ then Inl (SampleRateTooHigh sample_rate MAX_SAMPLE_RATE_HZ)
      else if length channels > MAX_CHANNELS then Inl (TooManyChannels (length channels) MAX_CHANNELS)
      else if has_repetition channels then Inl DuplicateChannel
      else if plane_count \<noteq> length channels then Inl (PlaneCountMismatch (length channels) plane_count)
      else if sample_count = 0 then Inl ZeroSamples
      else if sample_count > MAX_SAMPLES_PER_CHANNEL then Inl (TooManySamples sample_count MAX_SAMPLES_PER_CHANNEL)
      else and_then (ok_or (Option.bind (usize_checked (length channels * sample_count)) (\<lambda>n. usize_checked (n * 4)))
          AllocationOverflow) (\<lambda>required.
        if required > MAX_ALLOCATION_BYTES then Inl (AllocationTooLarge required MAX_ALLOCATION_BYTES) else Inr ()))"

fun check_planes :: "usize \<Rightarrow> usize \<Rightarrow> 's list list \<Rightarrow> audio_block_error + unit" where
  "check_planes n i [] = Inr ()"
| "check_planes n i (p # ps) =
     (if length p \<noteq> n then Inl (PlaneLengthMismatch i n (length p)) else check_planes n (i + 1) ps)"

definition audio_block_new ::
  "media_timing \<Rightarrow> u32 \<Rightarrow> channel list \<Rightarrow> 's list list \<Rightarrow> audio_block_error + 's audio_block" where
  "audio_block_new timing sample_rate layout planes =
     (let sample_count = (case planes of [] \<Rightarrow> 0 | p # _ \<Rightarrow> length p) in
      and_then (validate_layout sample_rate layout (length planes) sample_count) (\<lambda>_.
      and_then (check_planes sample_count 0 planes) (\<lambda>_.
        Inr \<lparr>ab_timing = timing, ab_sample_rate = sample_rate, ab_channel_layout = layout,
          ab_sample_count = sample_count, ab_planes = planes\<rparr>)))"

definition audio_silence ::
  "'s \<Rightarrow> media_timing \<Rightarrow> u32 \<Rightarrow> channel list \<Rightarrow> usize \<Rightarrow> audio_block_error + 's audio_block" where
  "audio_silence zero timing sample_rate layout sample_count =
     and_then (validate_layout sample_rate layout (length layout) sample_count) (\<lambda>_.
       audio_block_new timing sample_rate layout (replicate (length layout) (replicate sample_count zero)))"

definition audio_sample :: "'s audio_block \<Rightarrow> usize \<Rightarrow> usize \<Rightarrow> 's option" where
  "audio_sample b c i =
     Option.bind (if c < length (ab_planes b) then Some (ab_planes b ! c) else None)
       (\<lambda>p. if i < length p then Some (p ! i) else None)"

section \<open>Video payloads\<close>

definition MAX_WIDTH :: u32 where "MAX_WIDTH = 16384"
definition MAX_HEIGHT :: u32 where "MAX_HEIGHT = 16384"
definition MAX_STRIDE_BYTES :: usize where "MAX_STRIDE_BYTES = 1024 * 1024"
definition MAX_TOTAL_BYTES :: usize where "MAX_TOTAL_BYTES = 512 * 1024 * 1024"

datatype video_payload_error =
    DimensionsTooLarge u32 u32 u32 u32 | SubsampledDimensionsMustBeEven | VideoPlaneCountMismatch usize usize
  | ZeroStride | StrideTooSmall usize usize usize | StrideTooLarge usize usize
  | VideoPlaneLengthMismatch usize usize usize | VideoPayloadTooLarge usize usize | LayoutOverflow

record cpu_video_plane =
  vp_stride :: usize
  vp_bytes :: "u8 list"

definition cpu_video_plane_new :: "usize \<Rightarrow> u8 list \<Rightarrow> video_payload_error + cpu_video_plane" where
  "cpu_video_plane_new stride bytes =
     (if stride = 0 then Inl ZeroStride
      else if stride > MAX_STRIDE_BYTES then Inl (StrideTooLarge stride MAX_STRIDE_BYTES)
      else if length bytes > MAX_TOTAL_BYTES then Inl (VideoPayloadTooLarge (length bytes) MAX_TOTAL_BYTES)
      else Inr \<lparr>vp_stride = stride, vp_bytes = bytes\<rparr>)"

record plane_layout =
  pl_row_bytes :: usize
  pl_rows :: usize

definition packed_layout :: "usize \<Rightarrow> usize \<Rightarrow> usize \<Rightarrow> video_payload_error + plane_layout list" where
  "packed_layout width height bytes_per_pixel =
     ok_or (map_option (\<lambda>row. [\<lparr>pl_row_bytes = row, pl_rows = height\<rparr>]) (usize_checked (width * bytes_per_pixel))) LayoutOverflow"

definition plane_layouts :: "pixel_format \<Rightarrow> video_dimensions \<Rightarrow> video_payload_error + plane_layout list" where
  "plane_layouts fmt d =
     (if dim_width d > MAX_WIDTH \<or> dim_height d > MAX_HEIGHT
      then Inl (DimensionsTooLarge (dim_width d) (dim_height d) MAX_WIDTH MAX_HEIGHT)
      else let width = unat (dim_width d); height = unat (dim_height d) in
        case fmt of
          Rgba8 \<Rightarrow> packed_layout width height 4
        | Bgra8 \<Rightarrow> packed_layout width height 4
        | Rgba16Float \<Rightarrow> packed_layout width height 8
        | Yuv422 \<Rightarrow> if width mod 2 \<noteq> 0 then Inl SubsampledDimensionsMustBeEven else packed_layout width height 2
        | _ \<Rightarrow>
            if width mod 2 \<noteq> 0 \<or> height mod 2 \<noteq> 0 then Inl SubsampledDimensionsMustBeEven
            else and_then (ok_or (usize_checked (width * ((if fmt = P010 then 1 else 0) + 1))) LayoutOverflow) (\<lambda>row.
              Inr [\<lparr>pl_row_bytes = row, pl_rows = height\<rparr>, \<lparr>pl_row_bytes = row, pl_rows = height div 2\<rparr>]))"

definition validate_plane :: "usize \<Rightarrow> cpu_video_plane \<Rightarrow> plane_layout \<Rightarrow> video_payload_error + unit" where
  "validate_plane i p l =
     (if vp_stride p < pl_row_bytes l then Inl (StrideTooSmall i (pl_row_bytes l) (vp_stride p))
      else and_then (ok_or (usize_checked (vp_stride p * pl_rows l)) LayoutOverflow) (\<lambda>expected.
        if length (vp_bytes p) \<noteq> expected then Inl (VideoPlaneLengthMismatch i expected (length (vp_bytes p))) else Inr ()))"

record cpu_video_payload =
  vy_format :: pixel_format
  vy_dimensions :: video_dimensions
  vy_planes :: "cpu_video_plane list"
  vy_byte_len :: usize

fun payload_bytes :: "usize \<Rightarrow> usize \<Rightarrow> (cpu_video_plane \<times> plane_layout) list \<Rightarrow> video_payload_error + usize" where
  "payload_bytes acc i [] = Inr acc"
| "payload_bytes acc i ((p, l) # rest) =
     and_then (validate_plane i p l) (\<lambda>_.
     and_then (ok_or (usize_checked (acc + length (vp_bytes p))) LayoutOverflow) (\<lambda>acc'.
       payload_bytes acc' (i + 1) rest))"

definition cpu_video_payload_new ::
  "pixel_format \<Rightarrow> video_dimensions \<Rightarrow> cpu_video_plane list \<Rightarrow> video_payload_error + cpu_video_payload" where
  "cpu_video_payload_new fmt d planes =
     and_then (plane_layouts fmt d) (\<lambda>layouts.
       if length planes \<noteq> length layouts then Inl (VideoPlaneCountMismatch (length layouts) (length planes))
       else and_then (payload_bytes 0 0 (zip planes layouts)) (\<lambda>byte_len.
         if byte_len > MAX_TOTAL_BYTES then Inl (VideoPayloadTooLarge byte_len MAX_TOTAL_BYTES)
         else Inr \<lparr>vy_format = fmt, vy_dimensions = d, vy_planes = planes, vy_byte_len = byte_len\<rparr>))"

fun layouts_bytes :: "usize \<Rightarrow> plane_layout list \<Rightarrow> video_payload_error + usize" where
  "layouts_bytes acc [] = Inr acc"
| "layouts_bytes acc (l # ls) =
     and_then (ok_or (usize_checked (pl_row_bytes l * pl_rows l)) LayoutOverflow) (\<lambda>size.
     and_then (ok_or (usize_checked (acc + size)) LayoutOverflow) (\<lambda>acc'. layouts_bytes acc' ls))"

definition payload_allocate :: "pixel_format \<Rightarrow> video_dimensions \<Rightarrow> video_payload_error + cpu_video_payload" where
  "payload_allocate fmt d =
     and_then (plane_layouts fmt d) (\<lambda>layouts.
     and_then (layouts_bytes 0 layouts) (\<lambda>size.
       if size > MAX_TOTAL_BYTES then Inl (VideoPayloadTooLarge size MAX_TOTAL_BYTES)
       else cpu_video_payload_new fmt d
         (map (\<lambda>l. \<lparr>vp_stride = pl_row_bytes l, vp_bytes = replicate (pl_row_bytes l * pl_rows l) 0\<rparr>) layouts)))"

record cpu_video_frame =
  vf_timing :: media_timing
  vf_payload :: cpu_video_payload
  vf_metadata :: "video_frame_metadata option"

definition cpu_video_frame_new :: "media_timing \<Rightarrow> cpu_video_payload \<Rightarrow> cpu_video_frame" where
  "cpu_video_frame_new t p = \<lparr>vf_timing = t, vf_payload = p, vf_metadata = None\<rparr>"

definition with_metadata :: "video_frame_metadata \<Rightarrow> cpu_video_frame \<Rightarrow> video_frame_metadata_error + cpu_video_frame" where
  "with_metadata m f = and_then (validate_for m (vy_format (vf_payload f))) (\<lambda>_. Inr (f\<lparr>vf_metadata := Some m\<rparr>))"

section \<open>Timestamps stay on the timeline\<close>

text \<open>
  Normalization is exact scaling rounded towards zero. Its two multiplications cannot overflow 128
  bits, so it fails exactly when the scaled time is outside the signed 64-bit range.
\<close>

lemma normalize_characterisation:
  assumes "denominator (ot_time_base t) \<noteq> 0"
  defines "exact \<equiv> trunc_div (sint (ot_timestamp t) * uint (numerator (ot_time_base t)) * 1000000000) (uint (denominator (ot_time_base t)))"
  shows "normalize t = (if - (2 ^ 63) \<le> exact \<and> exact < 2 ^ 63 then Inr (word_of_int exact) else Inl NormalizationOverflow)"
proof -
  let ?a = "sint (ot_timestamp t)" and ?n = "uint (numerator (ot_time_base t))"
  have a: "- (2 ^ 63) \<le> ?a" "?a \<le> 2 ^ 63 - 1" using i64_range [of "ot_timestamp t"] by simp_all
  have n: "0 \<le> ?n" "?n \<le> 2 ^ 32 - 1" using uint_bounded [of "numerator (ot_time_base t)"] by simp_all
  have p: "\<bar>?a * ?n\<bar> \<le> 2 ^ 63 * (2 ^ 32 - 1)" unfolding abs_mult using a n by (intro mult_mono) auto
  then have "i128_checked (?a * ?n) = Some (?a * ?n)" by (simp add: i128_checked_def abs_le_iff)
  moreover have "i128_checked (?a * ?n * 1000000000) = Some (?a * ?n * 1000000000)"
    using p by (simp add: i128_checked_def abs_le_iff)
  ultimately show ?thesis
    by (simp add: normalize_def NANOS_PER_SECOND_i128_def i64_try_from_def exact_def)
qed

text \<open>The end of a media interval is representable on the signed timeline.\<close>

lemma media_timing_interval:
  assumes "media_timing_new original presentation duration domain sequence = Inr t"
  shows "sint (mt_presentation t) + uint (mt_duration t) < 2 ^ 63"
proof -
  obtain d e where "i64_try_from (uint duration) = Some d" "i64_try_from (sint presentation + sint d) = Some e"
    and t: "mt_presentation t = presentation" "mt_duration t = duration"
    using assms by (auto simp: media_timing_new_def result_simps)
  then have "sint d = uint duration" "sint e = sint presentation + sint d" by (simp_all add: checked_simps)
  then show ?thesis using i64_range(2) [of e] t by simp
qed

end
