(* ===== verification/Preview_Leases.thy ===== *)
theory Preview_Leases
  imports Frames "HOL-Library.Multiset"
begin

text \<open>
  Shared-image previews of \<open>crates/media/fm-frame\<close> (\<open>preview.rs\<close>): stream and image descriptors, the lease
  of one shared image to a local consumer, and the registry that tracks the leases of one stream
  until the consumer acknowledges their release, they expire, or the consumer disconnects.
\<close>

section \<open>Descriptors\<close>

type_synonym preview_stream_id = u128
type_synonym engine_instance_id = u128
type_synonym adapter_token = u128
type_synonym preview_lease_id = u128
type_synonym handle_reference_id = u128

datatype preview_target = TargetProgram | TargetPreview | TargetInput input_id

datatype preview_transport = SharedImage | EncodedLoopback

record preview_stream_descriptor =
  ps_stream_id :: preview_stream_id
  ps_target :: preview_target
  ps_transport :: preview_transport
  ps_engine_instance_id :: engine_instance_id
  ps_runtime_generation :: u64
  ps_adapter_token :: "adapter_token option"

datatype stream_descriptor_error = SharedImageRequiresAdapter | EncodedLoopbackForbidsAdapter

definition stream_descriptor_new ::
  "preview_stream_id \<Rightarrow> preview_target \<Rightarrow> preview_transport \<Rightarrow> engine_instance_id \<Rightarrow> u64 \<Rightarrow> adapter_token option
    \<Rightarrow> stream_descriptor_error + preview_stream_descriptor" where
  "stream_descriptor_new stream target transport engine generation adapter =
     (case (transport, adapter) of
        (SharedImage, None) \<Rightarrow> Inl SharedImageRequiresAdapter
      | (EncodedLoopback, Some _) \<Rightarrow> Inl EncodedLoopbackForbidsAdapter
      | _ \<Rightarrow> Inr \<lparr>ps_stream_id = stream, ps_target = target, ps_transport = transport,
          ps_engine_instance_id = engine, ps_runtime_generation = generation, ps_adapter_token = adapter\<rparr>)"

record preview_image_descriptor =
  pi_dimensions :: video_dimensions
  pi_pixel_format :: pixel_format
  pi_metadata :: video_frame_metadata

datatype image_descriptor_error =
    UnsupportedSharedImageFormat pixel_format | ImageMetadata video_frame_metadata_error

definition image_descriptor_new ::
  "video_dimensions \<Rightarrow> pixel_format \<Rightarrow> video_frame_metadata \<Rightarrow> image_descriptor_error + preview_image_descriptor" where
  "image_descriptor_new d fmt m =
     (if fmt = Yuv422 then Inl (UnsupportedSharedImageFormat fmt)
      else case validate_for m fmt of
          Inl e \<Rightarrow> Inl (ImageMetadata e)
        | Inr _ \<Rightarrow> Inr \<lparr>pi_dimensions = d, pi_pixel_format = fmt, pi_metadata = m\<rparr>)"

section \<open>Leases\<close>

record local_preview_lease =
  lp_stream_id :: preview_stream_id
  lp_lease_id :: preview_lease_id
  lp_engine_instance_id :: engine_instance_id
  lp_runtime_generation :: u64
  lp_adapter_token :: adapter_token
  lp_handle_reference_id :: handle_reference_id
  lp_resource_lease :: resource_lease
  lp_frame_sequence :: u64
  lp_resize_generation :: u64
  lp_image :: preview_image_descriptor

datatype preview_lease_error =
    LeaseTransportRequired | LeaseAdapterMissing | LeaseAdapterMismatch adapter_token adapter_token
  | CpuMemoryNotShareable | MissingReadyToken | MissingReleaseToken | HolderReleaseOwnershipRequired

definition local_preview_lease_new ::
  "preview_stream_descriptor \<Rightarrow> preview_lease_id \<Rightarrow> adapter_token \<Rightarrow> handle_reference_id \<Rightarrow> resource_lease \<Rightarrow> u64 \<Rightarrow> u64
    \<Rightarrow> preview_image_descriptor \<Rightarrow> preview_lease_error + local_preview_lease" where
  "local_preview_lease_new stream lease_id adapter handle lease sequence resize img =
     (if ps_transport stream \<noteq> SharedImage then Inl LeaseTransportRequired
      else case ps_adapter_token stream of
          None \<Rightarrow> Inl LeaseAdapterMissing
        | Some expected \<Rightarrow>
            if adapter \<noteq> expected then Inl (LeaseAdapterMismatch expected adapter)
            else if rl_memory_domain lease = Cpu then Inl CpuMemoryNotShareable
            else if rl_ready lease = None then Inl MissingReadyToken
            else if rl_release lease = None then Inl MissingReleaseToken
            else if ro_ownership (rl_release_owner lease) \<noteq> LeaseHolderSignals then Inl HolderReleaseOwnershipRequired
            else Inr \<lparr>lp_stream_id = ps_stream_id stream, lp_lease_id = lease_id,
              lp_engine_instance_id = ps_engine_instance_id stream, lp_runtime_generation = ps_runtime_generation stream,
              lp_adapter_token = adapter, lp_handle_reference_id = handle, lp_resource_lease = lease,
              lp_frame_sequence = sequence, lp_resize_generation = resize, lp_image = img\<rparr>)"

text \<open>The accessor that is unreachable on a lease without the token.\<close>

definition lease_release_token :: "local_preview_lease \<Rightarrow> synchronization_token option" where
  "lease_release_token l = rl_release (lp_resource_lease l)"

record preview_release_ack =
  ak_stream_id :: preview_stream_id
  ak_lease_id :: preview_lease_id
  ak_engine_instance_id :: engine_instance_id
  ak_runtime_generation :: u64
  ak_release_token :: synchronization_token

definition ack_for_lease :: "local_preview_lease \<Rightarrow> preview_release_ack option" where
  "ack_for_lease l = map_option (\<lambda>token. \<lparr>ak_stream_id = lp_stream_id l, ak_lease_id = lp_lease_id l,
     ak_engine_instance_id = lp_engine_instance_id l, ak_runtime_generation = lp_runtime_generation l,
     ak_release_token = token\<rparr>) (lease_release_token l)"

section \<open>The registry\<close>

record outstanding_lease =
  ol_lease_id :: preview_lease_id
  ol_handle_reference_id :: handle_reference_id
  ol_resource_id :: resource_id
  ol_release_token :: synchronization_token
  ol_deadline_ms :: u64

record lease_registry =
  lr_stream :: preview_stream_descriptor
  lr_maximum_outstanding :: usize
  lr_timeout_ms :: u64
  lr_outstanding :: "outstanding_lease list"
  lr_last_lease_id :: "preview_lease_id option"
  lr_last_frame_sequence :: "u64 option"
  lr_last_resize_generation :: "u64 option"
  lr_last_image :: "preview_image_descriptor option"

datatype registry_error =
    RegistryTransportRequired | RegistryAdapterMissing | ZeroCapacity | CapacityAboveHardMaximum usize usize | ZeroTimeout
  | StreamMismatch preview_stream_id preview_stream_id | EngineInstanceMismatch engine_instance_id engine_instance_id
  | RuntimeGenerationMismatch u64 u64 | RegistryAdapterMismatch adapter_token adapter_token
  | HandleReferenceStillOutstanding handle_reference_id preview_lease_id
  | ResourceStillOutstanding resource_id preview_lease_id
  | LeaseIdNotIncreasing preview_lease_id preview_lease_id | FrameSequenceNotIncreasing u64 u64
  | ResizeGenerationOutOfOrder u64 u64 | ImageChangedWithoutResizeGeneration u64
  | TimeoutDeadlineOverflow u64 u64 | CapacityExhausted usize
  | AckStreamMismatch preview_stream_id preview_stream_id | AckEngineInstanceMismatch engine_instance_id engine_instance_id
  | AckRuntimeGenerationMismatch u64 u64 | UnknownOrStaleLease preview_lease_id
  | WrongReleaseToken preview_lease_id synchronization_token synchronization_token

definition HARD_MAXIMUM_OUTSTANDING :: usize where "HARD_MAXIMUM_OUTSTANDING = 16"

definition registry_new :: "preview_stream_descriptor \<Rightarrow> usize \<Rightarrow> u64 \<Rightarrow> registry_error + lease_registry" where
  "registry_new stream maximum timeout =
     (if ps_transport stream \<noteq> SharedImage then Inl RegistryTransportRequired
      else if maximum = 0 then Inl ZeroCapacity
      else if maximum > HARD_MAXIMUM_OUTSTANDING then Inl (CapacityAboveHardMaximum maximum HARD_MAXIMUM_OUTSTANDING)
      else if timeout = 0 then Inl ZeroTimeout
      else Inr \<lparr>lr_stream = stream, lr_maximum_outstanding = maximum, lr_timeout_ms = timeout, lr_outstanding = [],
        lr_last_lease_id = None, lr_last_frame_sequence = None, lr_last_resize_generation = None, lr_last_image = None\<rparr>)"

definition validate_resource_available :: "lease_registry \<Rightarrow> local_preview_lease \<Rightarrow> registry_error + resource_id" where
  "validate_resource_available r l =
     (case find (\<lambda>x. ol_handle_reference_id x = lp_handle_reference_id l) (lr_outstanding r) of
        Some x \<Rightarrow> Inl (HandleReferenceStillOutstanding (lp_handle_reference_id l) (ol_lease_id x))
      | None \<Rightarrow>
          let resource = rl_resource_id (lp_resource_lease l) in
          case find (\<lambda>x. ol_resource_id x = resource) (lr_outstanding r) of
            Some x \<Rightarrow> Inl (ResourceStillOutstanding resource (ol_lease_id x))
          | None \<Rightarrow> Inr resource)"

text \<open>The checks of \<open>issue\<close> on identity and order, before the resource is looked at.\<close>

definition issue_identity :: "lease_registry \<Rightarrow> local_preview_lease \<Rightarrow> registry_error + unit" where
  "issue_identity r l =
     (let s = lr_stream r in
      if lp_stream_id l \<noteq> ps_stream_id s then Inl (StreamMismatch (ps_stream_id s) (lp_stream_id l))
      else if lp_engine_instance_id l \<noteq> ps_engine_instance_id s
        then Inl (EngineInstanceMismatch (ps_engine_instance_id s) (lp_engine_instance_id l))
      else if lp_runtime_generation l \<noteq> ps_runtime_generation s
        then Inl (RuntimeGenerationMismatch (ps_runtime_generation s) (lp_runtime_generation l))
      else case ps_adapter_token s of
          None \<Rightarrow> Inl RegistryAdapterMissing
        | Some expected \<Rightarrow>
            if lp_adapter_token l \<noteq> expected then Inl (RegistryAdapterMismatch expected (lp_adapter_token l)) else Inr ())"

definition issue_resize :: "lease_registry \<Rightarrow> local_preview_lease \<Rightarrow> registry_error + unit" where
  "issue_resize r l =
     (case lr_last_resize_generation r of
        None \<Rightarrow> Inr ()
      | Some previous \<Rightarrow>
          if \<not> (lp_resize_generation l = previous \<or> is_some_and (checked_add previous 1) (\<lambda>n. lp_resize_generation l = n))
          then Inl (ResizeGenerationOutOfOrder previous (lp_resize_generation l))
          else if lp_resize_generation l = previous \<and> lr_last_image r \<noteq> Some (lp_image l)
          then Inl (ImageChangedWithoutResizeGeneration previous)
          else Inr ())"

definition issue_order :: "lease_registry \<Rightarrow> local_preview_lease \<Rightarrow> registry_error + unit" where
  "issue_order r l =
     and_then (case lr_last_lease_id r of
         Some previous \<Rightarrow> if lp_lease_id l \<le> previous then Inl (LeaseIdNotIncreasing previous (lp_lease_id l)) else Inr ()
       | None \<Rightarrow> Inr ()) (\<lambda>_.
     and_then (case lr_last_frame_sequence r of
         Some previous \<Rightarrow>
           if lp_frame_sequence l \<le> previous then Inl (FrameSequenceNotIncreasing previous (lp_frame_sequence l)) else Inr ()
       | None \<Rightarrow> Inr ()) (\<lambda>_. issue_resize r l))"

text \<open>
  The whole of \<open>issue\<close>: a lease without release token panics in the accessor, which the option
  stands for; leases made by their constructor have one.
\<close>

definition issue :: "local_preview_lease \<Rightarrow> u64 \<Rightarrow> lease_registry \<Rightarrow> ((registry_error + unit) \<times> lease_registry) option" where
  "issue l now r =
     (case and_then (issue_identity r l) (\<lambda>_. and_then (issue_order r l) (\<lambda>_.
         and_then (validate_resource_available r l) (\<lambda>resource.
         and_then (ok_or (checked_add now (lr_timeout_ms r)) (TimeoutDeadlineOverflow now (lr_timeout_ms r))) (\<lambda>deadline.
           if length (lr_outstanding r) \<ge> lr_maximum_outstanding r then Inl (CapacityExhausted (lr_maximum_outstanding r))
           else Inr (resource, deadline))))) of
        Inl e \<Rightarrow> Some (Inl e, r)
      | Inr (resource, deadline) \<Rightarrow>
          map_option (\<lambda>token. (Inr (), r\<lparr>
              lr_outstanding := lr_outstanding r @ [\<lparr>ol_lease_id = lp_lease_id l, ol_handle_reference_id = lp_handle_reference_id l,
                ol_resource_id = resource, ol_release_token = token, ol_deadline_ms = deadline\<rparr>],
              lr_last_lease_id := Some (lp_lease_id l), lr_last_frame_sequence := Some (lp_frame_sequence l),
              lr_last_resize_generation := Some (lp_resize_generation l), lr_last_image := Some (lp_image l)\<rparr>))
            (lease_release_token l))"

fun remove_first :: "('a \<Rightarrow> bool) \<Rightarrow> 'a list \<Rightarrow> 'a list" where
  "remove_first P [] = []"
| "remove_first P (x # xs) = (if P x then xs else x # remove_first P xs)"

definition acknowledge_release ::
  "preview_release_ack \<Rightarrow> lease_registry \<Rightarrow> (registry_error + preview_lease_id) \<times> lease_registry" where
  "acknowledge_release a r =
     (let s = lr_stream r in
      if ak_stream_id a \<noteq> ps_stream_id s then (Inl (AckStreamMismatch (ps_stream_id s) (ak_stream_id a)), r)
      else if ak_engine_instance_id a \<noteq> ps_engine_instance_id s
        then (Inl (AckEngineInstanceMismatch (ps_engine_instance_id s) (ak_engine_instance_id a)), r)
      else if ak_runtime_generation a \<noteq> ps_runtime_generation s
        then (Inl (AckRuntimeGenerationMismatch (ps_runtime_generation s) (ak_runtime_generation a)), r)
      else case find (\<lambda>x. ol_lease_id x = ak_lease_id a) (lr_outstanding r) of
          None \<Rightarrow> (Inl (UnknownOrStaleLease (ak_lease_id a)), r)
        | Some x \<Rightarrow>
            if ak_release_token a \<noteq> ol_release_token x
            then (Inl (WrongReleaseToken (ak_lease_id a) (ol_release_token x) (ak_release_token a)), r)
            else (Inr (ak_lease_id a),
              r\<lparr>lr_outstanding := remove_first (\<lambda>x. ol_lease_id x = ak_lease_id a) (lr_outstanding r)\<rparr>))"

definition reclaim_expired :: "u64 \<Rightarrow> lease_registry \<Rightarrow> preview_lease_id list \<times> lease_registry" where
  "reclaim_expired now r =
     (map ol_lease_id (filter (\<lambda>x. ol_deadline_ms x \<le> now) (lr_outstanding r)),
      r\<lparr>lr_outstanding := filter (\<lambda>x. \<not> ol_deadline_ms x \<le> now) (lr_outstanding r)\<rparr>)"

definition reclaim_all_on_disconnect :: "lease_registry \<Rightarrow> preview_lease_id list \<times> lease_registry" where
  "reclaim_all_on_disconnect r = (map ol_lease_id (lr_outstanding r), r\<lparr>lr_outstanding := []\<rparr>)"

section \<open>Leases in flight\<close>

datatype registry_call =
    DoIssue local_preview_lease u64 | DoAcknowledge preview_release_ack | DoReclaimExpired u64 | DoDisconnect

text \<open>What a call publishes, what it takes back, and the registry after it.\<close>

fun registry_do :: "registry_call \<Rightarrow> lease_registry \<Rightarrow> (preview_lease_id list \<times> preview_lease_id list \<times> lease_registry) option" where
  "registry_do (DoIssue l now) r =
     map_option (\<lambda>(res, r'). (if res = Inr () then [lp_lease_id l] else [], [], r')) (issue l now r)"
| "registry_do (DoAcknowledge a) r =
     (case acknowledge_release a r of (Inl _, r') \<Rightarrow> Some ([], [], r') | (Inr i, r') \<Rightarrow> Some ([], [i], r'))"
| "registry_do (DoReclaimExpired now) r = (case reclaim_expired now r of (ids, r') \<Rightarrow> Some ([], ids, r'))"
| "registry_do DoDisconnect r = (case reclaim_all_on_disconnect r of (ids, r') \<Rightarrow> Some ([], ids, r'))"

fun registry_run :: "registry_call list \<Rightarrow> lease_registry \<Rightarrow> (preview_lease_id list \<times> preview_lease_id list \<times> lease_registry) option" where
  "registry_run [] r = Some ([], [], r)"
| "registry_run (c # cs) r =
     Option.bind (registry_do c r) (\<lambda>(i, t, r').
       map_option (\<lambda>(iss, ts, r''). (i @ iss, t @ ts, r'')) (registry_run cs r'))"

text \<open>A lease made by its constructor carries a release token.\<close>

fun call_with_token :: "registry_call \<Rightarrow> bool" where
  "call_with_token (DoIssue l _) \<longleftrightarrow> rl_release (lp_resource_lease l) \<noteq> None"
| "call_with_token _ \<longleftrightarrow> True"

lemma constructed_lease_has_token:
  "local_preview_lease_new stream lease_id adapter handle lease sequence resize img = Inr l
   \<Longrightarrow> rl_release (lp_resource_lease l) \<noteq> None"
  by (auto simp: local_preview_lease_new_def split: if_splits option.splits)

definition registry_ok :: "lease_registry \<Rightarrow> bool" where
  "registry_ok r \<longleftrightarrow>
     sorted_wrt (<) (map ol_lease_id (lr_outstanding r))
     \<and> (\<forall>x \<in> set (lr_outstanding r). \<exists>m. lr_last_lease_id r = Some m \<and> ol_lease_id x \<le> m)
     \<and> distinct (map ol_handle_reference_id (lr_outstanding r)) \<and> distinct (map ol_resource_id (lr_outstanding r))
     \<and> length (lr_outstanding r) \<le> lr_maximum_outstanding r \<and> lr_maximum_outstanding r \<le> 16"

lemma registry_new_ok: "registry_new stream maximum timeout = Inr r \<Longrightarrow> registry_ok r"
  by (auto simp: registry_new_def registry_ok_def HARD_MAXIMUM_OUTSTANDING_def split: if_splits)

lemma find_None_set: "find P xs = None \<longleftrightarrow> (\<forall>x \<in> set xs. \<not> P x)"
  by (induction xs) auto

text \<open>What a successful publication has checked.\<close>

lemma issue_cases:
  assumes "rl_release (lp_resource_lease l) \<noteq> None"
  obtains (refused) e where "issue l now r = Some (Inl e, r)"
  | (published) x where
      "issue l now r = Some (Inr (), r\<lparr>lr_outstanding := lr_outstanding r @ [x], lr_last_lease_id := Some (lp_lease_id l),
         lr_last_frame_sequence := Some (lp_frame_sequence l), lr_last_resize_generation := Some (lp_resize_generation l),
         lr_last_image := Some (lp_image l)\<rparr>)"
      "ol_lease_id x = lp_lease_id l" "\<And>m. lr_last_lease_id r = Some m \<Longrightarrow> m < lp_lease_id l"
      "\<forall>y \<in> set (lr_outstanding r). ol_handle_reference_id y \<noteq> ol_handle_reference_id x \<and> ol_resource_id y \<noteq> ol_resource_id x"
      "length (lr_outstanding r) < lr_maximum_outstanding r"
proof -
  let ?check = "and_then (issue_identity r l) (\<lambda>_. and_then (issue_order r l) (\<lambda>_.
         and_then (validate_resource_available r l) (\<lambda>resource.
         and_then (ok_or (checked_add now (lr_timeout_ms r)) (TimeoutDeadlineOverflow now (lr_timeout_ms r))) (\<lambda>deadline.
           if length (lr_outstanding r) \<ge> lr_maximum_outstanding r then Inl (CapacityExhausted (lr_maximum_outstanding r))
           else Inr (resource, deadline)))))"
  obtain token where token: "lease_release_token l = Some token" using assms by (auto simp: lease_release_token_def)
  show thesis
  proof (cases ?check)
    case (Inl e)
    then show thesis by (intro refused [of e]) (simp add: issue_def)
  next
    case (Inr rd)
    obtain resource deadline where rd: "rd = (resource, deadline)" by (cases rd)
    have order: "issue_order r l = Inr ()" and res: "validate_resource_available r l = Inr resource"
      and room: "length (lr_outstanding r) < lr_maximum_outstanding r"
      using Inr rd by (auto simp: result_simps split: if_splits)
    let ?x = "\<lparr>ol_lease_id = lp_lease_id l, ol_handle_reference_id = lp_handle_reference_id l,
        ol_resource_id = resource, ol_release_token = token, ol_deadline_ms = deadline\<rparr>"
    show thesis
    proof (rule published [of ?x])
      show "issue l now r = Some (Inr (), r\<lparr>lr_outstanding := lr_outstanding r @ [?x], lr_last_lease_id := Some (lp_lease_id l),
         lr_last_frame_sequence := Some (lp_frame_sequence l), lr_last_resize_generation := Some (lp_resize_generation l),
         lr_last_image := Some (lp_image l)\<rparr>)" unfolding issue_def Inr rd token by simp
      show "m < lp_lease_id l" if "lr_last_lease_id r = Some m" for m
        using order that by (auto simp: issue_order_def result_simps split: if_splits)
      show "\<forall>y \<in> set (lr_outstanding r). ol_handle_reference_id y \<noteq> ol_handle_reference_id ?x \<and> ol_resource_id y \<noteq> ol_resource_id ?x"
        using res by (auto simp: validate_resource_available_def Let_def find_None_set split: option.splits)
    qed (use room in simp_all)
  qed
qed

lemma remove_first_key:
  "distinct (map f xs) \<Longrightarrow> remove_first (\<lambda>y. f y = a) xs = filter (\<lambda>y. f y \<noteq> a) xs"
proof (induction xs)
  case (Cons x xs)
  have "filter (\<lambda>y. f y \<noteq> f x) xs = xs" using Cons.prems by (intro filter_True) (metis distinct.simps(2) image_eqI list.simps(9) set_map)
  then show ?case using Cons by auto
qed simp

lemma mset_map_split: "mset (map f xs) = mset (map f (filter P xs)) + mset (map f (filter (\<lambda>x. \<not> P x) xs))"
  by (induction xs) auto

lemma registry_ok_filter: "registry_ok r \<Longrightarrow> registry_ok (r\<lparr>lr_outstanding := filter P (lr_outstanding r)\<rparr>)"
  by (auto simp: registry_ok_def sorted_wrt_map intro: sorted_wrt_filter distinct_map_filter order_trans [OF length_filter_le])

lemma acknowledge_cases:
  assumes "registry_ok r"
  obtains (refused) e where "acknowledge_release a r = (Inl e, r)"
  | (released) i where "acknowledge_release a r = (Inr i, r\<lparr>lr_outstanding := filter (\<lambda>x. ol_lease_id x \<noteq> i) (lr_outstanding r)\<rparr>)"
      "mset (map ol_lease_id (lr_outstanding r)) = add_mset i (mset (map ol_lease_id (filter (\<lambda>x. ol_lease_id x \<noteq> i) (lr_outstanding r))))"
proof -
  have d: "distinct (map ol_lease_id (lr_outstanding r))"
    using assms by (simp add: registry_ok_def strict_sorted_iff flip: sorted_wrt_map)
  show thesis
  proof (cases "\<exists>e. acknowledge_release a r = (Inl e, r)")
    case True
    then show thesis using refused by blast
  next
    case False
    then obtain x where x: "find (\<lambda>x. ol_lease_id x = ak_lease_id a) (lr_outstanding r) = Some x"
      and ack: "acknowledge_release a r = (Inr (ak_lease_id a),
        r\<lparr>lr_outstanding := remove_first (\<lambda>x. ol_lease_id x = ak_lease_id a) (lr_outstanding r)\<rparr>)"
      by (auto simp: acknowledge_release_def Let_def split: if_splits option.splits)
    then have mem: "x \<in> set (lr_outstanding r)" "ol_lease_id x = ak_lease_id a" by (auto simp: find_Some_iff)
    have "filter (\<lambda>y. ol_lease_id y = ol_lease_id x) (lr_outstanding r) = [x]" using filter_key [OF d mem(1)] .
    then show thesis using released [of "ak_lease_id a"] ack remove_first_key [OF d] mem(2)
        mset_map_split [of ol_lease_id "lr_outstanding r" "\<lambda>x. ol_lease_id x = ak_lease_id a"] by simp
  qed
qed

lemma registry_do_ok:
  assumes ok: "registry_ok r" and c: "call_with_token c"
  shows "\<exists>i t r'. registry_do c r = Some (i, t, r') \<and> registry_ok r' \<and> lr_maximum_outstanding r' = lr_maximum_outstanding r
    \<and> mset (map ol_lease_id (lr_outstanding r)) + mset i = mset t + mset (map ol_lease_id (lr_outstanding r'))
    \<and> (i = [] \<and> lr_last_lease_id r' = lr_last_lease_id r
       \<or> (\<exists>k. i = [k] \<and> lr_last_lease_id r' = Some k \<and> (\<forall>m. lr_last_lease_id r = Some m \<longrightarrow> m < k)))"
proof (cases c)
  case (DoIssue l now)
  then have tok: "rl_release (lp_resource_lease l) \<noteq> None" using c by simp
  show ?thesis using tok
  proof (cases rule: issue_cases [of l now r])
    case (refused e)
    then show ?thesis using DoIssue ok by simp
  next
    case (published x)
    have "\<forall>y \<in> set (lr_outstanding r). ol_lease_id y < lp_lease_id l"
      using ok published(3) by (fastforce simp: registry_ok_def)
    then show ?thesis using DoIssue published ok
      by (auto simp: registry_ok_def sorted_wrt_append intro: order_trans less_imp_le)
  qed
next
  case (DoAcknowledge a)
  show ?thesis using ok
  proof (cases rule: acknowledge_cases [of r a])
    case (refused e)
    then show ?thesis using DoAcknowledge ok by simp
  next
    case (released i)
    then show ?thesis using DoAcknowledge registry_ok_filter [OF ok] by simp
  qed
next
  case (DoReclaimExpired now)
  then show ?thesis
    using registry_ok_filter [OF ok] mset_map_split [of ol_lease_id "lr_outstanding r" "\<lambda>x. ol_deadline_ms x \<le> now"]
    by (simp add: reclaim_expired_def)
next
  case DoDisconnect
  then show ?thesis using registry_ok_filter [OF ok, of "\<lambda>_. False"] by (simp add: reclaim_all_on_disconnect_def)
qed

lemma registry_run_ok:
  assumes "registry_ok r" "list_all call_with_token cs"
  shows "\<exists>iss ts r'. registry_run cs r = Some (iss, ts, r') \<and> registry_ok r' \<and> lr_maximum_outstanding r' = lr_maximum_outstanding r
    \<and> mset (map ol_lease_id (lr_outstanding r)) + mset iss = mset ts + mset (map ol_lease_id (lr_outstanding r'))
    \<and> sorted_wrt (<) iss \<and> (\<forall>m. lr_last_lease_id r = Some m \<longrightarrow> (\<forall>k \<in> set iss. m < k))"
  using assms
proof (induction cs arbitrary: r)
  case (Cons c cs)
  obtain i t r1 where step: "registry_do c r = Some (i, t, r1)" "registry_ok r1"
    "lr_maximum_outstanding r1 = lr_maximum_outstanding r"
    "mset (map ol_lease_id (lr_outstanding r)) + mset i = mset t + mset (map ol_lease_id (lr_outstanding r1))"
    "i = [] \<and> lr_last_lease_id r1 = lr_last_lease_id r
     \<or> (\<exists>k. i = [k] \<and> lr_last_lease_id r1 = Some k \<and> (\<forall>m. lr_last_lease_id r = Some m \<longrightarrow> m < k))"
    using registry_do_ok [of r c] Cons.prems by auto
  obtain iss ts r' where rest: "registry_run cs r1 = Some (iss, ts, r')" "registry_ok r'"
    "lr_maximum_outstanding r' = lr_maximum_outstanding r1"
    "mset (map ol_lease_id (lr_outstanding r1)) + mset iss = mset ts + mset (map ol_lease_id (lr_outstanding r'))"
    "sorted_wrt (<) iss" "\<forall>m. lr_last_lease_id r1 = Some m \<longrightarrow> (\<forall>k \<in> set iss. m < k)"
    using Cons.IH [of r1] step(2) Cons.prems by auto
  have "mset (map ol_lease_id (lr_outstanding r)) + mset (i @ iss) = mset (t @ ts) + mset (map ol_lease_id (lr_outstanding r'))"
  proof -
    have "mset (map ol_lease_id (lr_outstanding r)) + mset (i @ iss) = (mset (map ol_lease_id (lr_outstanding r)) + mset i) + mset iss"
      by (simp add: ac_simps)
    also have "\<dots> = mset t + (mset (map ol_lease_id (lr_outstanding r1)) + mset iss)" by (simp only: step(4) add.assoc)
    also have "\<dots> = mset (t @ ts) + mset (map ol_lease_id (lr_outstanding r'))" by (simp only: rest(4)) simp
    finally show ?thesis .
  qed
  moreover have "sorted_wrt (<) (i @ iss)" using step(5) rest(5,6) by (auto simp: sorted_wrt_append)
  moreover have "\<forall>m. lr_last_lease_id r = Some m \<longrightarrow> (\<forall>k \<in> set (i @ iss). m < k)"
    using step(5) rest(6) by (fastforce dest: less_trans)
  ultimately show ?case using step(1,3) rest(1-3) by simp
qed simp

text \<open>C37: A shared preview image is leased to one consumer at a time and every lease ends once. Over any sequence of
  publications, acknowledgements, expiries and disconnections the identifiers of published leases
  strictly increase, each published lease is still outstanding or was taken back exactly once
  (acknowledged with its own release token, expired, or reclaimed at a disconnection), no two
  outstanding leases share a handle or a resource, and at most the configured number, never more
  than sixteen, is outstanding.
\<close>
theorem preview_leases_end_once:
  assumes "registry_new stream maximum timeout = Inr r" "list_all call_with_token calls"
  shows "\<exists>issued released r'. registry_run calls r = Some (issued, released, r')
    \<and> sorted_wrt (<) issued \<and> mset issued = mset released + mset (map ol_lease_id (lr_outstanding r'))
    \<and> distinct (map ol_handle_reference_id (lr_outstanding r')) \<and> distinct (map ol_resource_id (lr_outstanding r'))
    \<and> length (lr_outstanding r') \<le> maximum \<and> maximum \<le> 16"
proof -
  have r: "lr_outstanding r = []" "lr_maximum_outstanding r = maximum"
    using assms(1) by (auto simp: registry_new_def split: if_splits)
  obtain issued released r' where "registry_run calls r = Some (issued, released, r')" "registry_ok r'"
    "lr_maximum_outstanding r' = maximum" "mset issued = mset released + mset (map ol_lease_id (lr_outstanding r'))"
    "sorted_wrt (<) issued"
    using registry_run_ok [OF registry_new_ok [OF assms(1)] assms(2)] r by auto
  then show ?thesis by (auto simp: registry_ok_def)
qed

definition sample_stream :: preview_stream_descriptor where
  "sample_stream = \<lparr>ps_stream_id = 1, ps_target = TargetProgram, ps_transport = SharedImage, ps_engine_instance_id = 2,
     ps_runtime_generation = 3, ps_adapter_token = Some 4\<rparr>"

definition sample_lease :: "preview_lease_id \<Rightarrow> local_preview_lease" where
  "sample_lease i = \<lparr>lp_stream_id = 1, lp_lease_id = i, lp_engine_instance_id = 2, lp_runtime_generation = 3,
     lp_adapter_token = 4, lp_handle_reference_id = 5,
     lp_resource_lease = \<lparr>rl_bridge_id = 1, rl_resource_id = 6, rl_memory_domain = Metal,
       rl_ready = Some \<lparr>sy_id = 1, sy_value = 1\<rparr>, rl_release = Some \<lparr>sy_id = 1, sy_value = 2\<rparr>,
       rl_release_owner = \<lparr>ro_id = 1, ro_ownership = LeaseHolderSignals\<rparr>\<rparr>,
     lp_frame_sequence = 7, lp_resize_generation = 1,
     lp_image = \<lparr>pi_dimensions = \<lparr>dim_width = 2, dim_height = 2\<rparr>, pi_pixel_format = Rgba8,
       pi_metadata = \<lparr>vfm_color = color_metadata_default, vfm_alpha = Some Straight\<rparr>\<rparr>\<rparr>"

theorem preview_leases_end_once_witness:
  "\<exists>r. registry_new sample_stream 2 1000 = Inr r
    \<and> (\<exists>issued released r'. registry_run [DoIssue (sample_lease 1) 0, DoIssue (sample_lease 2) 1, DoReclaimExpired 2000, DoDisconnect] r
          = Some (issued, released, r')
      \<and> sorted_wrt (<) issued \<and> mset issued = mset released + mset (map ol_lease_id (lr_outstanding r'))
      \<and> distinct (map ol_handle_reference_id (lr_outstanding r')) \<and> distinct (map ol_resource_id (lr_outstanding r'))
      \<and> length (lr_outstanding r') \<le> 2 \<and> (2 :: nat) \<le> 16)"
proof -
  obtain r where r: "registry_new sample_stream 2 1000 = Inr r"
    by (simp add: registry_new_def sample_stream_def HARD_MAXIMUM_OUTSTANDING_def)
  show ?thesis
    by (rule exI [of _ r], rule conjI [OF r], rule preview_leases_end_once [OF r]) (simp add: sample_lease_def)
qed

end
