(* ===== verification/Record_Format.thy ===== *)
theory Record_Format
  imports Frames "HOL-Library.Sublist"
begin

text \<open>
  The durable file format of \<open>crates/media/fm-record\<close> (\<open>format.rs\<close> and the values of \<open>types.rs\<close>): events and manifest
  entries as bytes, the framing of records with checksums over header and payload, and the scan of
  a file after a restart, which stops before an incomplete final record and rejects any other damage.

  A file is the list of its bytes. The scan reads it through a 24 byte header buffer and an 8 KiB payload
  buffer; reading an open file returns the bytes that are left and does not fail.
\<close>

section \<open>Bytes\<close>

text \<open>\<open>to_le_bytes\<close> and \<open>from_le_bytes\<close> of an unsigned value of a number of bytes.\<close>

fun le_bytes :: "nat \<Rightarrow> nat \<Rightarrow> u8 list" where
  "le_bytes 0 n = []"
| "le_bytes (Suc k) n = of_nat (n mod 256) # le_bytes k (n div 256)"

fun le_value :: "u8 list \<Rightarrow> nat" where
  "le_value [] = 0"
| "le_value (b # bs) = unat b + 256 * le_value bs"

definition put_u16 :: "u16 \<Rightarrow> u8 list" where "put_u16 v = le_bytes 2 (unat v)"
definition put_u32 :: "u32 \<Rightarrow> u8 list" where "put_u32 v = le_bytes 4 (unat v)"
definition put_u64 :: "u64 \<Rightarrow> u8 list" where "put_u64 v = le_bytes 8 (unat v)"
definition put_u128 :: "u128 \<Rightarrow> u8 list" where "put_u128 v = le_bytes 16 (unat v)"
definition put_i64 :: "i64 \<Rightarrow> u8 list" where "put_i64 v = le_bytes 8 (unat v)"

fun put_option_u64 :: "u64 option \<Rightarrow> u8 list" where
  "put_option_u64 (Some v) = 1 # put_u64 v"
| "put_option_u64 None = [0]"

text \<open>The UTF-8 encoding of a character and of a string.\<close>

definition utf8_char :: "nat \<Rightarrow> u8 list" where
  "utf8_char c =
     (if c < 128 then [of_nat c]
      else if c < 2048 then [of_nat (192 + c div 64), of_nat (128 + c mod 64)]
      else if c < 65536 then [of_nat (224 + c div 4096), of_nat (128 + c div 64 mod 64), of_nat (128 + c mod 64)]
      else [of_nat (240 + c div 262144), of_nat (128 + c div 4096 mod 64), of_nat (128 + c div 64 mod 64), of_nat (128 + c mod 64)])"

definition as_bytes :: "ustr \<Rightarrow> u8 list" where
  "as_bytes s = concat (map utf8_char s)"

section \<open>Checksums\<close>

definition crc_shift :: "u32 \<Rightarrow> u32" where
  "crc_shift crc = (let mask = 0 - (crc AND 1) in drop_bit 1 crc XOR (0xEDB88320 AND mask))"

definition crc_byte :: "u32 \<Rightarrow> u8 \<Rightarrow> u32" where
  "crc_byte crc b = (crc_shift ^^ 8) (crc XOR ucast b)"

fun crc32_update :: "u32 \<Rightarrow> u8 list \<Rightarrow> u32" where
  "crc32_update crc [] = crc"
| "crc32_update crc (b # bs) = crc32_update (crc_byte crc b) bs"

definition crc32 :: "u8 list \<Rightarrow> u32" where
  "crc32 bs = NOT (crc32_update (- 1) bs)"

section \<open>Errors and configuration\<close>

type_synonym recorder_id = u128
type_synonym action_receipt_id = u128

datatype recorder_state = Recording | Stopped | Failed

datatype action_outcome = Applied | AlreadyApplied

text \<open>A path is a directory below the root and the name of a file in it (empty for the directory itself).\<close>

type_synonym file_path = "string \<times> string"

text \<open>An \<open>io::Error\<close>: what the operating system reported, or an error made here.\<close>

datatype io_error = OsError nat | IoInvalidInput string | IoOther string

datatype recorder_error =
    Io file_path io_error | InvalidConfig string | InvalidMetadata string | ResourcePayloadUnsupported
  | UnknownRecorder recorder_id | InvalidState recorder_id recorder_state string
  | ReceiptConflict action_receipt_id | Corrupt file_path u64 string | FormatLimit string

record queue_limits =
  ql_max_events :: usize
  ql_max_bytes :: usize

definition queue_limits_default :: queue_limits where
  "queue_limits_default = \<lparr>ql_max_events = 256, ql_max_bytes = 64 * 1024 * 1024\<rparr>"

record segment_policy =
  sp_max_frames :: "u64 option"
  sp_max_bytes :: "u64 option"

definition by_frames :: "u64 \<Rightarrow> segment_policy" where
  "by_frames n = \<lparr>sp_max_frames = Some n, sp_max_bytes = None\<rparr>"

definition by_bytes :: "u64 \<Rightarrow> segment_policy" where
  "by_bytes n = \<lparr>sp_max_frames = None, sp_max_bytes = Some n\<rparr>"

record recorder_config =
  rc_queue :: queue_limits
  rc_segments :: segment_policy

definition config_validate :: "recorder_config \<Rightarrow> recorder_error + unit" where
  "config_validate c =
     (if ql_max_events (rc_queue c) = 0 \<or> ql_max_bytes (rc_queue c) = 0
      then Inl (InvalidConfig ''queue event and byte limits must be nonzero'')
      else if sp_max_frames (rc_segments c) = Some 0 \<or> sp_max_bytes (rc_segments c) = Some 0
      then Inl (InvalidConfig ''segment frame and byte limits must be nonzero'')
      else Inr ())"

section \<open>Events\<close>

record packet_common =
  pc_codec :: codec_id
  pc_config_generation :: codec_config_generation
  pc_stream_id :: stream_id
  pc_channel_index :: "u16 option"
  pc_timing :: media_timing
  pc_decode_timestamp :: original_timestamp
  pc_flags :: packet_flags

definition common_from_packet :: "encoded_packet \<Rightarrow> packet_common" where
  "common_from_packet p = (let m = ep_metadata p in
     \<lparr>pc_codec = em_codec m, pc_config_generation = em_config_generation m, pc_stream_id = em_stream_id m,
      pc_channel_index = em_channel_index m, pc_timing = em_timing m, pc_decode_timestamp = em_decode_timestamp m,
      pc_flags = em_flags m\<rparr>)"

record discontinuity =
  di_stream_id :: "stream_id option"
  di_timing :: media_timing
  di_reason :: ustr

datatype record_event =
    AudioEvent packet_common u32 "channel list" "u8 list"
  | VideoEvent packet_common video_dimensions pixel_format "u8 list"
  | TimedEvent packet_common ustr "u8 list"
  | DiscontinuityEvent discontinuity

fun take_bytes :: "encoded_packet \<Rightarrow> recorder_error + u8 list" where
  "take_bytes p = (case ep_payload p of PayloadBytes bs \<Rightarrow> Inr bs | PayloadResource _ \<Rightarrow> Inl ResourcePayloadUnsupported)"

definition validate_text :: "ustr \<Rightarrow> string \<Rightarrow> recorder_error + unit" where
  "validate_text v name = (if v = [] \<or> str_len v > 65535 then Inl (InvalidMetadata name) else Inr ())"

definition event_audio :: "encoded_packet \<Rightarrow> u32 \<Rightarrow> channel list \<Rightarrow> recorder_error + record_event" where
  "event_audio p rate channels = and_then (take_bytes p) (\<lambda>bs. Inr (AudioEvent (common_from_packet p) rate channels bs))"

definition event_video :: "encoded_packet \<Rightarrow> video_dimensions \<Rightarrow> pixel_format \<Rightarrow> recorder_error + record_event" where
  "event_video p d fmt = and_then (take_bytes p) (\<lambda>bs. Inr (VideoEvent (common_from_packet p) d fmt bs))"

definition event_timed :: "encoded_packet \<Rightarrow> ustr \<Rightarrow> recorder_error + record_event" where
  "event_timed p content_type =
     and_then (validate_text content_type ''timed content type'') (\<lambda>_.
     and_then (take_bytes p) (\<lambda>bs. Inr (TimedEvent (common_from_packet p) content_type bs)))"

definition event_discontinuity :: "discontinuity \<Rightarrow> recorder_error + record_event" where
  "event_discontinuity d =
     and_then (validate_text (di_reason d) ''discontinuity reason'') (\<lambda>_. Inr (DiscontinuityEvent d))"

fun payload_len :: "record_event \<Rightarrow> usize" where
  "payload_len (AudioEvent _ _ _ p) = length p"
| "payload_len (VideoEvent _ _ _ p) = length p"
| "payload_len (TimedEvent _ _ p) = length p"
| "payload_len (DiscontinuityEvent _) = 0"

fun counts_as_frame :: "record_event \<Rightarrow> bool" where
  "counts_as_frame (DiscontinuityEvent _) = False"
| "counts_as_frame _ = True"

definition event_queue_bytes :: "record_event \<Rightarrow> usize" where
  "event_queue_bytes e = min (payload_len e + 256) (2 ^ 64 - 1)"

section \<open>Encoding events\<close>

definition HEADER_LEN :: usize where "HEADER_LEN = 24"
definition MAX_ENCODED_FRAME_PAYLOAD :: usize where
  "MAX_ENCODED_FRAME_PAYLOAD = MAX_PAYLOAD_BYTES + 65535 + 4096"
definition MAX_MANIFEST_PAYLOAD :: usize where "MAX_MANIFEST_PAYLOAD = 256"

definition AUDIO :: u8 where "AUDIO = 1"
definition VIDEO :: u8 where "VIDEO = 2"
definition TIMED :: u8 where "TIMED = 3"
definition DISCONTINUITY :: u8 where "DISCONTINUITY = 4"

definition put_text :: "ustr \<Rightarrow> recorder_error + u8 list" where
  "put_text v = (if str_len v < 2 ^ 16 then Inr (put_u16 (of_nat (str_len v)) @ as_bytes v) else Inl (FormatLimit ''text too long''))"

definition put_blob :: "u8 list \<Rightarrow> recorder_error + u8 list" where
  "put_blob v = (if length v < 2 ^ 64 then Inr (put_u64 (of_nat (length v)) @ v) else Inl (FormatLimit ''payload too large''))"

definition encode_timestamp :: "original_timestamp \<Rightarrow> u8 list" where
  "encode_timestamp t =
     put_i64 (ot_timestamp t) @ put_u32 (numerator (ot_time_base t)) @ put_u32 (denominator (ot_time_base t))"

definition encode_timing :: "media_timing \<Rightarrow> u8 list" where
  "encode_timing t =
     encode_timestamp (mt_original t) @ put_i64 (mt_presentation t) @ put_u64 (mt_duration t)
     @ put_u128 (mt_clock_domain t) @ put_u64 (mt_sequence t) @ [mt_flags t]
     @ (case mt_capture t of Some c \<Rightarrow> 1 # encode_timestamp c | None \<Rightarrow> [0])
     @ (case mt_timecode t of Some tc \<Rightarrow> 1 # [tc_hours tc, tc_minutes tc, tc_seconds tc, tc_frames tc] | None \<Rightarrow> [0])"

definition encode_common :: "packet_common \<Rightarrow> recorder_error + u8 list" where
  "encode_common c =
     and_then (put_text (pc_codec c)) (\<lambda>codec.
       Inr (codec @ put_u64 (pc_config_generation c) @ put_u32 (pc_stream_id c)
         @ (case pc_channel_index c of Some i \<Rightarrow> 1 # put_u16 i | None \<Rightarrow> [0])
         @ encode_timing (pc_timing c) @ encode_timestamp (pc_decode_timestamp c) @ [pc_flags c]))"

fun channel_code :: "channel \<Rightarrow> u8" where
  "channel_code Mono = 0" | "channel_code LeftChannel = 1" | "channel_code RightChannel = 2"
| "channel_code CenterChannel = 3" | "channel_code LowFrequency = 4" | "channel_code LeftSurround = 5"
| "channel_code RightSurround = 6"

fun pixel_format_code :: "pixel_format \<Rightarrow> u8" where
  "pixel_format_code Rgba8 = 0" | "pixel_format_code Bgra8 = 1" | "pixel_format_code Rgba16Float = 2"
| "pixel_format_code Nv12 = 3" | "pixel_format_code P010 = 4" | "pixel_format_code Yuv422 = 5"

fun checked_sum_from :: "usize \<Rightarrow> usize list \<Rightarrow> recorder_error + usize" where
  "checked_sum_from acc [] = Inr acc"
| "checked_sum_from acc (n # ns) =
     and_then (ok_or (usize_checked (acc + n)) (FormatLimit ''record length overflow'')) (\<lambda>acc'. checked_sum_from acc' ns)"

definition checked_sum :: "usize list \<Rightarrow> recorder_error + usize" where
  "checked_sum = checked_sum_from 0"

definition text_len :: "ustr \<Rightarrow> recorder_error + usize" where
  "text_len v = (if str_len v < 2 ^ 16 then ok_or (usize_checked (str_len v + 2)) (FormatLimit ''record length overflow'')
                 else Inl (FormatLimit ''text too long''))"

definition blob_len :: "usize \<Rightarrow> recorder_error + usize" where
  "blob_len n = (if n < 2 ^ 64 then ok_or (usize_checked (n + 8)) (FormatLimit ''record length overflow'')
                 else Inl (FormatLimit ''payload too large''))"

definition timing_len :: "media_timing \<Rightarrow> usize" where
  "timing_len t = 16 + 8 + 8 + 16 + 8 + 1 + 1 + (if mt_capture t \<noteq> None then 1 else 0) * 16 + 1
     + (if mt_timecode t \<noteq> None then 1 else 0) * 4"

definition common_len :: "packet_common \<Rightarrow> recorder_error + usize" where
  "common_len c =
     and_then (text_len (pc_codec c)) (\<lambda>codec.
       checked_sum [codec, 8, 4, 1, (if pc_channel_index c \<noteq> None then 1 else 0) * 2, timing_len (pc_timing c), 16, 1])"

definition event_channels :: "channel list \<Rightarrow> recorder_error + u16" where
  "event_channels cs = (if length cs < 2 ^ 16 then Inr (of_nat (length cs)) else Inl (FormatLimit ''too many audio channels''))"

fun event_len :: "record_event \<Rightarrow> recorder_error + usize" where
  "event_len (AudioEvent c _ channels p) =
     and_then (common_len c) (\<lambda>common. and_then (event_channels channels) (\<lambda>n. and_then (blob_len (length p)) (\<lambda>blob.
       checked_sum [common, 4, 2, unat n, blob])))"
| "event_len (VideoEvent c _ _ p) =
     and_then (common_len c) (\<lambda>common. and_then (blob_len (length p)) (\<lambda>blob. checked_sum [common, 4, 4, 1, blob]))"
| "event_len (TimedEvent c content p) =
     and_then (common_len c) (\<lambda>common. and_then (text_len content) (\<lambda>text. and_then (blob_len (length p)) (\<lambda>blob.
       checked_sum [common, text, blob])))"
| "event_len (DiscontinuityEvent d) =
     and_then (text_len (di_reason d)) (\<lambda>text.
       checked_sum [1, (if di_stream_id d \<noteq> None then 1 else 0) * 4, timing_len (di_timing d), text])"

definition validate_event :: "record_event \<Rightarrow> recorder_error + unit" where
  "validate_event e =
     and_then (event_len e) (\<lambda>n.
       if n > MAX_ENCODED_FRAME_PAYLOAD then Inl (FormatLimit ''encoded event exceeds frame payload limit'') else Inr ())"

fun encode_event :: "record_event \<Rightarrow> recorder_error + (u8 \<times> u8 list)" where
  "encode_event (AudioEvent c rate channels p) =
     and_then (encode_common c) (\<lambda>common. and_then (event_channels channels) (\<lambda>n. and_then (put_blob p) (\<lambda>blob.
       Inr (AUDIO, common @ put_u32 rate @ put_u16 n @ map channel_code channels @ blob))))"
| "encode_event (VideoEvent c d fmt p) =
     and_then (encode_common c) (\<lambda>common. and_then (put_blob p) (\<lambda>blob.
       Inr (VIDEO, common @ put_u32 (dim_width d) @ put_u32 (dim_height d) @ [pixel_format_code fmt] @ blob)))"
| "encode_event (TimedEvent c content p) =
     and_then (encode_common c) (\<lambda>common. and_then (put_text content) (\<lambda>text. and_then (put_blob p) (\<lambda>blob.
       Inr (TIMED, common @ text @ blob))))"
| "encode_event (DiscontinuityEvent d) =
     and_then (put_text (di_reason d)) (\<lambda>text.
       Inr (DISCONTINUITY, (case di_stream_id d of Some s \<Rightarrow> 1 # put_u32 s | None \<Rightarrow> [0]) @ encode_timing (di_timing d) @ text))"

definition encoded_event :: "record_event \<Rightarrow> recorder_error + (u8 \<times> u8 list)" where
  "encoded_event e = and_then (validate_event e) (\<lambda>_. encode_event e)"

definition framed_len :: "usize \<Rightarrow> recorder_error + u64" where
  "framed_len n = ok_or (Option.bind (word_try_from n) (\<lambda>len. checked_add (of_nat HEADER_LEN) len)) (FormatLimit ''record length overflow'')"

section \<open>Manifest entries\<close>

definition START :: u8 where "START = 16"
definition STOP :: u8 where "STOP = 17"
definition SEGMENT_OPEN :: u8 where "SEGMENT_OPEN = 18"
definition SEGMENT_CLOSE :: u8 where "SEGMENT_CLOSE = 19"

datatype action_kind = ActionStart | ActionStop

datatype manifest_entry =
    EntryStart action_receipt_id recorder_config u64
  | EntryStop action_receipt_id
  | SegmentOpen u64
  | SegmentClose u64 u64 u64

definition u64_of_usize :: "usize \<Rightarrow> u64" where
  "u64_of_usize n = (if n < 2 ^ 64 then of_nat n else - 1)"

fun encode_manifest :: "manifest_entry \<Rightarrow> u8 \<times> u8 list" where
  "encode_manifest (EntryStart receipt c index) =
     (START, put_u128 receipt @ put_u64 (u64_of_usize (ql_max_events (rc_queue c)))
       @ put_u64 (u64_of_usize (ql_max_bytes (rc_queue c)))
       @ put_option_u64 (sp_max_frames (rc_segments c)) @ put_option_u64 (sp_max_bytes (rc_segments c)) @ put_u64 index)"
| "encode_manifest (EntryStop receipt) = (STOP, put_u128 receipt)"
| "encode_manifest (SegmentOpen index) = (SEGMENT_OPEN, put_u64 index)"
| "encode_manifest (SegmentClose index frames bytes) = (SEGMENT_CLOSE, put_u64 index @ put_u64 frames @ put_u64 bytes)"

record scanned_frame =
  sf_kind :: u8
  sf_payload :: "u8 list"

text \<open>The cursor of the decoder is the rest of the payload.\<close>

definition cursor_take :: "nat \<Rightarrow> u8 list \<Rightarrow> recorder_error + (u8 list \<times> u8 list)" where
  "cursor_take n bs = (if length bs < n then Inl (FormatLimit ''truncated manifest payload'') else Inr (take n bs, drop n bs))"

definition cursor_u64 :: "u8 list \<Rightarrow> recorder_error + (u64 \<times> u8 list)" where
  "cursor_u64 bs = and_then (cursor_take 8 bs) (\<lambda>(v, rest). Inr (of_nat (le_value v), rest))"

definition cursor_u128 :: "u8 list \<Rightarrow> recorder_error + (u128 \<times> u8 list)" where
  "cursor_u128 bs = and_then (cursor_take 16 bs) (\<lambda>(v, rest). Inr (of_nat (le_value v), rest))"

definition cursor_option_u64 :: "u8 list \<Rightarrow> recorder_error + (u64 option \<times> u8 list)" where
  "cursor_option_u64 bs =
     and_then (cursor_take 1 bs) (\<lambda>(v, rest).
       if v = [0] then Inr (None, rest)
       else if v = [1] then and_then (cursor_u64 rest) (\<lambda>(w, rest'). Inr (Some w, rest'))
       else Inl (FormatLimit ''invalid optional manifest field''))"

definition corrupt :: "file_path \<Rightarrow> string \<Rightarrow> recorder_error" where
  "corrupt p reason = Corrupt p 0 reason"

definition receipt :: "u128 \<Rightarrow> file_path \<Rightarrow> recorder_error + action_receipt_id" where
  "receipt v p = (if v = 0 then Inl (corrupt p ''zero action receipt'') else Inr v)"

definition decode_start :: "u8 list \<Rightarrow> file_path \<Rightarrow> recorder_error + (manifest_entry \<times> u8 list)" where
  "decode_start bs p =
     and_then (cursor_u128 bs) (\<lambda>(v, bs1). and_then (receipt v p) (\<lambda>r.
     and_then (cursor_u64 bs1) (\<lambda>(max_events, bs2).
     and_then (cursor_u64 bs2) (\<lambda>(max_bytes, bs3).
     and_then (cursor_option_u64 bs3) (\<lambda>(max_frames, bs4).
     and_then (cursor_option_u64 bs4) (\<lambda>(segment_bytes, bs5).
       let config = \<lparr>rc_queue = \<lparr>ql_max_events = unat max_events, ql_max_bytes = unat max_bytes\<rparr>,
                     rc_segments = \<lparr>sp_max_frames = max_frames, sp_max_bytes = segment_bytes\<rparr>\<rparr> in
       (case config_validate config of
          Inl _ \<Rightarrow> Inl (corrupt p ''invalid persisted recorder config'')
        | Inr _ \<Rightarrow> and_then (cursor_u64 bs5) (\<lambda>(index, bs6). Inr (EntryStart r config index, bs6)))))))))"

definition decode_entry :: "scanned_frame \<Rightarrow> file_path \<Rightarrow> recorder_error + (manifest_entry \<times> u8 list)" where
  "decode_entry f p =
     (let bs = sf_payload f in
      if sf_kind f = START then decode_start bs p
      else if sf_kind f = STOP then
        and_then (cursor_u128 bs) (\<lambda>(v, bs1). and_then (receipt v p) (\<lambda>r. Inr (EntryStop r, bs1)))
      else if sf_kind f = SEGMENT_OPEN then and_then (cursor_u64 bs) (\<lambda>(index, bs1). Inr (SegmentOpen index, bs1))
      else if sf_kind f = SEGMENT_CLOSE then
        and_then (cursor_u64 bs) (\<lambda>(index, bs1). and_then (cursor_u64 bs1) (\<lambda>(frames, bs2).
        and_then (cursor_u64 bs2) (\<lambda>(bytes, bs3). Inr (SegmentClose index frames bytes, bs3))))
      else Inl (corrupt p ''unknown manifest record kind''))"

definition decode_manifest :: "scanned_frame \<Rightarrow> file_path \<Rightarrow> recorder_error + manifest_entry" where
  "decode_manifest f p =
     and_then (decode_entry f p) (\<lambda>(e, rest).
       if rest \<noteq> [] then Inl (corrupt p ''manifest record has trailing bytes'') else Inr e)"

section \<open>Framing and scanning\<close>

definition MAGIC :: "u8 list" where "MAGIC = [70, 77, 82, 67]"
definition VERSION :: u8 where "VERSION = 1"

definition frame_header :: "u8 \<Rightarrow> u8 list \<Rightarrow> u8 list" where
  "frame_header kind payload =
     (let h = MAGIC @ [VERSION, kind, 0, 0] @ le_bytes 8 (length payload) @ put_u32 (crc32 payload) in
      h @ put_u32 (crc32 h))"

definition frame_bytes :: "u8 \<Rightarrow> u8 list \<Rightarrow> u8 list" where
  "frame_bytes kind payload = frame_header kind payload @ payload"

text \<open>\<open>read_payload\<close>: reads in pieces of at most 8 KiB and updates the checksum with each.\<close>

function read_payload :: "u8 list \<Rightarrow> nat \<Rightarrow> bool \<Rightarrow> u8 list \<Rightarrow> u32 \<Rightarrow> (u8 list \<times> u32 \<times> u8 list) option" where
  "read_payload file remaining collect payload crc =
     (if remaining = 0 then Some (payload, NOT crc, file)
      else let chunk = take (min remaining 8192) file in
        if chunk = [] then None
        else read_payload (drop (length chunk) file) (remaining - length chunk) collect
          (if collect then payload @ chunk else payload) (crc32_update crc chunk))"
  by pat_completeness auto
termination by (relation "measure (\<lambda>(_, n, _). n)") auto

declare read_payload.simps [simp del]

record raw_scan =
  rs_frames :: "scanned_frame list"
  rs_records :: u64
  rs_media_frames :: u64
  rs_valid_bytes :: u64
  rs_truncated_bytes :: u64

text \<open>One iteration: stop, an error, or the kind and payload of the record and the rest of the file.\<close>

datatype ('e, 'a) scan_step = ScanStop | ScanError 'e | ScanRecord 'a

definition scan_record ::
  "file_path \<Rightarrow> usize \<Rightarrow> bool \<Rightarrow> bool \<Rightarrow> u64 \<Rightarrow> u8 list \<Rightarrow> (recorder_error, u8 \<times> u64 \<times> u8 list \<times> u8 list) scan_step" where
  "scan_record p maximum collect segment offset file =
     (let header = take HEADER_LEN file in
      if length header < HEADER_LEN then ScanStop
      else if take 4 header \<noteq> MAGIC \<or> header ! 4 \<noteq> VERSION \<or> header ! 6 \<noteq> 0 \<or> header ! 7 \<noteq> 0
        then ScanError (Corrupt p offset ''invalid record header'')
      else if unat (crc32 (take 20 header)) \<noteq> le_value (drop 20 header)
        then ScanError (Corrupt p offset ''header checksum mismatch'')
      else let len = le_value (take 8 (drop 8 header)) in
        if len > maximum then ScanError (Corrupt p offset ''record payload exceeds format limit'')
        else if segment \<and> header ! 5 \<notin> {AUDIO, VIDEO, TIMED, DISCONTINUITY}
          then ScanError (Corrupt p offset ''unknown segment record kind'')
        else case read_payload (drop HEADER_LEN file) len collect [] (- 1) of
            None \<Rightarrow> ScanStop
          | Some (payload, crc, rest) \<Rightarrow>
              if unat crc \<noteq> le_value (take 4 (drop 16 header))
              then ScanError (Corrupt p offset ''payload checksum mismatch'')
              else ScanRecord (header ! 5, of_nat len, payload, rest))"

lemma read_payload_rest: "read_payload bs n c p r = Some (q, r', rest) \<Longrightarrow> length rest \<le> length bs"
proof (induction bs n c p r rule: read_payload.induct)
  case (1 bs remaining collect payload r)
  then show ?case by (subst (asm) (2) read_payload.simps) (force simp: Let_def split: if_splits)
qed

lemma scan_record_shorter:
  "scan_record p m c s off file = ScanRecord (k, n, payload, rest) \<Longrightarrow> length rest < length file"
  by (auto simp: scan_record_def Let_def HEADER_LEN_def dest!: read_payload_rest split: if_splits option.splits)

function scan_loop ::
  "file_path \<Rightarrow> usize \<Rightarrow> bool \<Rightarrow> bool \<Rightarrow> raw_scan \<Rightarrow> u8 list \<Rightarrow> recorder_error + raw_scan" where
  "scan_loop p maximum collect segment scan file =
     (case scan_record p maximum collect segment (rs_valid_bytes scan) file of
        ScanStop \<Rightarrow> Inr scan
      | ScanError e \<Rightarrow> Inl e
      | ScanRecord (kind, len, payload, rest) \<Rightarrow>
          (case Option.bind (checked_add (rs_valid_bytes scan) (of_nat HEADER_LEN)) (\<lambda>v. checked_add v len) of
             None \<Rightarrow> Inl (FormatLimit ''file offset overflow'')
           | Some offset \<Rightarrow>
               scan_loop p maximum collect segment
                 (scan\<lparr>rs_frames := (if collect then rs_frames scan @ [\<lparr>sf_kind = kind, sf_payload = payload\<rparr>] else rs_frames scan),
                       rs_records := saturating_add (rs_records scan) 1,
                       rs_media_frames := (if segment \<and> kind \<noteq> DISCONTINUITY then saturating_add (rs_media_frames scan) 1
                                           else rs_media_frames scan),
                       rs_valid_bytes := offset\<rparr>) rest))"
  by pat_completeness auto
termination by (relation "measure (\<lambda>(_, _, _, _, _, file). length file)") (auto dest: scan_record_shorter)

declare scan_loop.simps [simp del]

definition scan_file :: "file_path \<Rightarrow> usize \<Rightarrow> bool \<Rightarrow> bool \<Rightarrow> u8 list \<Rightarrow> recorder_error + raw_scan" where
  "scan_file p maximum collect segment file =
     and_then (scan_loop p maximum collect segment
         \<lparr>rs_frames = [], rs_records = 0, rs_media_frames = 0, rs_valid_bytes = 0, rs_truncated_bytes = 0\<rparr> file) (\<lambda>scan.
       Inr (scan\<lparr>rs_truncated_bytes := saturating_sub (of_nat (length file)) (rs_valid_bytes scan)\<rparr>))"

definition scan_manifest :: "file_path \<Rightarrow> u8 list \<Rightarrow> recorder_error + raw_scan" where
  "scan_manifest p file = scan_file p MAX_MANIFEST_PAYLOAD True False file"

definition scan_segment :: "file_path \<Rightarrow> u8 list \<Rightarrow> recorder_error + raw_scan" where
  "scan_segment p file = scan_file p MAX_ENCODED_FRAME_PAYLOAD False True file"

section \<open>File names\<close>

definition MANIFEST_NAME :: string where "MANIFEST_NAME = ''manifest.fmr''"

definition segment_name :: "u64 \<Rightarrow> string" where
  "segment_name i = ''segment-'' @ replicate (20 - length (digits (unat i))) CHR ''0'' @ digits (unat i) @ ''.fms''"

definition strip_prefix :: "string \<Rightarrow> string \<Rightarrow> string option" where
  "strip_prefix p s = (if take (length p) s = p then Some (drop (length p) s) else None)"

definition strip_suffix :: "string \<Rightarrow> string \<Rightarrow> string option" where
  "strip_suffix p s = (if length p \<le> length s \<and> drop (length s - length p) s = p then Some (take (length s - length p) s) else None)"

definition digits_value :: "string \<Rightarrow> nat" where
  "digits_value s = foldl (\<lambda>n c. 10 * n + (of_char c - 48)) 0 s"

text \<open>\<open>str::parse\<close> of an unsigned integer: an optional plus sign, then decimal digits.\<close>

definition parse_u64 :: "string \<Rightarrow> u64 option" where
  "parse_u64 s =
     (let ds = (case s of c # cs \<Rightarrow> if c = CHR ''+'' then cs else s | [] \<Rightarrow> []) in
      if ds = [] \<or> \<not> list_all (\<lambda>c. is_ascii_digit (of_char c)) ds then None else word_try_from (digits_value ds))"

definition parse_segment_name :: "string \<Rightarrow> u64 option" where
  "parse_segment_name name =
     Option.bind (strip_prefix ''segment-'' name) (\<lambda>s. Option.bind (strip_suffix ''.fms'' s) parse_u64)"

end
