(* ===== verification/Record_Scan.thy ===== *)
theory Record_Scan
  imports Record_Format
begin

text \<open>
  What the file format of the recorder guarantees: encodings are read back and predicted in length,
  an incomplete final record is cut off and everything before it is kept, and a damaged byte is noticed.
\<close>

section \<open>Bytes\<close>

lemma length_le_bytes [simp]: "length (le_bytes k n) = k"
  by (induction k arbitrary: n) auto

lemma le_value_bytes: "le_value (le_bytes k n) = n mod 256 ^ k"
proof (induction k arbitrary: n)
  case (Suc k)
  have "unat (of_nat (n mod 256) :: u8) = n mod 256" by (simp add: unat_of_nat take_bit_eq_mod)
  then show ?case using Suc by (simp add: mod_mult2_eq)
qed simp

lemma le_value_less: "le_value bs < 256 ^ length bs"
proof (induction bs)
  case (Cons b bs)
  have "unat b \<le> 255" using unat_lt2p_any [of b] by simp
  then show ?case using Cons by simp
qed simp

lemma base_256: "a < 256 \<Longrightarrow> b < 256 \<Longrightarrow> a + 256 * x = b + 256 * y \<Longrightarrow> a = b \<and> x = y" for a b x y :: nat
  by (cases x y rule: linorder_cases) linarith+

lemma le_value_inj: "length bs = length cs \<Longrightarrow> le_value bs = le_value cs \<Longrightarrow> bs = cs"
proof (induction bs cs rule: list_induct2)
  case (Cons b bs c cs)
  have "unat b < 256" "unat c < 256" using unat_lt2p_any [of b] unat_lt2p_any [of c] by simp_all
  moreover have eq: "unat b + 256 * le_value bs = unat c + 256 * le_value cs" using Cons.prems by simp
  ultimately have "unat b = unat c" "le_value bs = le_value cs" using base_256 by blast+
  then show ?case using Cons.IH by (simp add: word_eq_unatI)
qed simp

lemma put_lengths [simp]:
  "length (put_u16 a) = 2" "length (put_u32 b) = 4" "length (put_u64 c) = 8" "length (put_u128 d) = 16" "length (put_i64 c) = 8"
  by (simp_all add: put_u16_def put_u32_def put_u64_def put_u128_def put_i64_def)

lemma le_value_put:
  "le_value (put_u16 a) = unat a" "le_value (put_u32 b) = unat b" "le_value (put_u64 c) = unat c" "le_value (put_u128 d) = unat d"
  using unat_lt2p_any [of a] unat_lt2p_any [of b] unat_lt2p_any [of c] unat_lt2p_any [of d]
  by (simp_all add: put_u16_def put_u32_def put_u64_def put_u128_def le_value_bytes)

section \<open>Checksums\<close>

lemma crc32_update_append: "crc32_update crc (xs @ ys) = crc32_update (crc32_update crc xs) ys"
  by (induction xs arbitrary: crc) auto

lemma xor_cancel: "a XOR c = b XOR c \<Longrightarrow> a = b" for a b c :: "'a::len word"
  by (rule bit_eqI) (metis bit_xor_iff)

lemma crc_shift_cases: "crc_shift c = (if odd c then drop_bit 1 c XOR 0xEDB88320 else drop_bit 1 c)"
proof (cases "odd c")
  case True
  then have "c AND 1 = 1" by (simp add: and_one_eq odd_iff_mod_2_eq_one)
  then show ?thesis using True by (simp add: crc_shift_def Let_def)
next
  case False
  then have "c AND 1 = 0" by (simp add: and_one_eq even_iff_mod_2_eq_zero)
  then show ?thesis using False by (simp add: crc_shift_def Let_def)
qed

lemma crc_shift_top: "bit (crc_shift c) 31 \<longleftrightarrow> odd c"
proof -
  have "\<not> bit (drop_bit 1 c) 31" by (simp add: bit_drop_bit_eq impossible_bit)
  then show ?thesis by (simp add: crc_shift_cases bit_xor_iff)
qed

lemma crc_shift_inj: "inj crc_shift"
proof
  fix a b :: u32
  assume eq: "crc_shift a = crc_shift b"
  then have par: "odd a \<longleftrightarrow> odd b" by (metis crc_shift_top)
  have "drop_bit 1 a = drop_bit 1 b"
  proof (cases "odd a")
    case True
    then have "drop_bit 1 a XOR 0xEDB88320 = drop_bit 1 b XOR 0xEDB88320" using eq par by (simp add: crc_shift_cases)
    then show ?thesis by (rule xor_cancel)
  next
    case False
    then show ?thesis using eq par by (simp add: crc_shift_cases)
  qed
  then have "bit (drop_bit 1 a) n = bit (drop_bit 1 b) n" for n by simp
  then have "bit a (Suc n) = bit b (Suc n)" for n by (simp add: bit_drop_bit_eq)
  then have "bit a n = bit b n" for n using par by (cases n) (simp_all add: bit_0)
  then show "a = b" by (simp add: bit_eq_iff)
qed

lemma ucast_u8_inj: "(ucast (x :: u8) :: u32) = ucast y \<Longrightarrow> x = y"
proof -
  assume "(ucast x :: u32) = ucast y"
  then have "unat (ucast x :: u32) = unat (ucast y :: u32)" by simp
  moreover have "unat (ucast z :: u32) = unat z" for z :: u8
    using unat_lt2p_any [of z] by (simp add: unsigned_ucast_eq take_bit_nat_eq_self)
  ultimately show "x = y" by (simp add: word_eq_unatI)
qed

lemma crc_byte_inj:
  "crc_byte a x = crc_byte b x \<Longrightarrow> a = b" "crc_byte a x = crc_byte a y \<Longrightarrow> x = y"
proof -
  have inj: "inj (crc_shift ^^ 8)" by (rule inj_fn [OF crc_shift_inj])
  show "crc_byte a x = crc_byte b x \<Longrightarrow> a = b"
    unfolding crc_byte_def by (rule xor_cancel [of a "ucast x" b]) (rule injD [OF inj])
  assume "crc_byte a x = crc_byte a y"
  then have "a XOR ucast x = a XOR ucast y" unfolding crc_byte_def by (rule injD [OF inj])
  then have "(ucast x :: u32) = ucast y" unfolding xor.commute [of a] by (rule xor_cancel)
  then show "x = y" by (rule ucast_u8_inj)
qed

lemma crc32_update_inj: "crc32_update a bs = crc32_update b bs \<Longrightarrow> a = b"
  by (induction bs arbitrary: a b) (auto dest: crc_byte_inj(1))

text \<open>A checksum changes with any single byte.\<close>

lemma crc32_single_byte: "crc32 (xs @ a # ys) = crc32 (xs @ b # ys) \<longleftrightarrow> a = b"
proof
  assume "crc32 (xs @ a # ys) = crc32 (xs @ b # ys)"
  then have "crc32_update (crc_byte (crc32_update (- 1) xs) a) ys = crc32_update (crc_byte (crc32_update (- 1) xs) b) ys"
    by (simp add: crc32_def crc32_update_append)
  then show "a = b" by (auto dest: crc32_update_inj crc_byte_inj(2))
qed simp

section \<open>Scanning a log\<close>

lemma read_payload_eq:
  "read_payload bs n c p crc =
     (if length bs < n then None
      else Some (p @ (if c then take n bs else []), NOT (crc32_update crc (take n bs)), drop n bs))"
proof (induction bs n c p crc rule: read_payload.induct)
  case (1 bs n c p crc)
  show ?case
  proof (cases "n = 0")
    case True
    then show ?thesis by (simp add: read_payload.simps)
  next
    case False
    let ?m = "min n 8192"
    let ?chunk = "take ?m bs"
    show ?thesis
    proof (cases "bs = []")
      case True
      then show ?thesis using \<open>n \<noteq> 0\<close> by (subst read_payload.simps) simp
    next
      case ne: False
      then have chunk: "?chunk \<noteq> []" using False by simp
      have pre: "length ?chunk \<le> n" "take (length ?chunk) bs = ?chunk" by (simp_all add: take_all_iff min_def)
      have split: "take n bs = ?chunk @ take (n - length ?chunk) (drop (length ?chunk) bs)"
        using take_add [of "length ?chunk" "n - length ?chunk" bs] pre by simp
      have "read_payload bs n c p crc
        = read_payload (drop (length ?chunk) bs) (n - length ?chunk) c (if c then p @ ?chunk else p) (crc32_update crc ?chunk)"
        using False chunk by (subst read_payload.simps) (simp only: Let_def if_False)
      also have "\<dots> = (if length bs - length ?chunk < n - length ?chunk then None
          else Some ((if c then p @ ?chunk else p) @ (if c then take (n - length ?chunk) (drop (length ?chunk) bs) else []),
            NOT (crc32_update (crc32_update crc ?chunk) (take (n - length ?chunk) (drop (length ?chunk) bs))),
            drop (n - length ?chunk) (drop (length ?chunk) bs)))"
        using 1 [OF False refl chunk] by (simp only: length_drop)
      also have "\<dots> = (if length bs < n then None
          else Some (p @ (if c then take n bs else []), NOT (crc32_update crc (take n bs)), drop n bs))"
      proof -
        have "length ?chunk \<le> length bs" by simp
        then have cond: "length bs - length ?chunk < n - length ?chunk \<longleftrightarrow> length bs < n" using pre(1) by linarith
        have dr: "drop (n - length ?chunk) (drop (length ?chunk) bs) = drop n bs" using pre(1) by simp
        show ?thesis unfolding cond dr split crc32_update_append by simp
      qed
      finally show ?thesis .
    qed
  qed
qed

text \<open>A log is a sequence of kinds and payloads; on disk it is the concatenation of their frames.\<close>

type_synonym log = "(u8 \<times> u8 list) list"

definition log_bytes :: "log \<Rightarrow> u8 list" where
  "log_bytes fs = concat (map (\<lambda>(k, p). frame_bytes k p) fs)"

definition frame_ok :: "usize \<Rightarrow> bool \<Rightarrow> u8 \<times> u8 list \<Rightarrow> bool" where
  "frame_ok maximum segment f \<longleftrightarrow> length (snd f) \<le> maximum \<and> (segment \<longrightarrow> fst f \<in> {AUDIO, VIDEO, TIMED, DISCONTINUITY})"

lemma length_frame_header [simp]: "length (frame_header k p) = 24"
  by (simp add: frame_header_def Let_def MAGIC_def)

lemma length_frame_bytes [simp]: "length (frame_bytes k p) = 24 + length p"
  by (simp add: frame_bytes_def)

lemma log_bytes_simps [simp]: "log_bytes [] = []" "log_bytes ((k, p) # fs) = frame_bytes k p @ log_bytes fs"
  "log_bytes (fs @ gs) = log_bytes fs @ log_bytes gs"
  by (simp_all add: log_bytes_def)

lemma frame_header_parts:
  fixes k :: u8 and p :: "u8 list"
  assumes "length p < 2 ^ 64"
  defines "h \<equiv> frame_header k p"
  shows "take 4 h = MAGIC" "h ! 4 = VERSION" "h ! 5 = k" "h ! 6 = 0" "h ! 7 = 0"
    "unat (crc32 (take 20 h)) = le_value (drop 20 h)" "le_value (take 8 (drop 8 h)) = length p"
    "le_value (take 4 (drop 16 h)) = unat (crc32 p)"
  using assms(1)
  by (simp_all add: h_def frame_header_def Let_def MAGIC_def le_value_put le_value_bytes)

lemma scan_record_frame:
  assumes "frame_ok maximum segment (k, p)" "maximum < 2 ^ 64"
  shows "scan_record path maximum collect segment offset (frame_bytes k p @ rest)
    = ScanRecord (k, of_nat (length p), if collect then p else [], rest)"
proof -
  have len: "length p < 2 ^ 64" and max: "\<not> maximum < length p" and k: "segment \<longrightarrow> k \<in> {AUDIO, VIDEO, TIMED, DISCONTINUITY}"
    using assms by (simp_all add: frame_ok_def)
  note h = frame_header_parts [OF len, of k]
  have "take HEADER_LEN (frame_bytes k p @ rest) = frame_header k p" by (simp add: frame_bytes_def HEADER_LEN_def)
  moreover have "drop HEADER_LEN (frame_bytes k p @ rest) = p @ rest" by (simp add: frame_bytes_def HEADER_LEN_def)
  ultimately show ?thesis using k max
    by (simp add: scan_record_def Let_def h read_payload_eq crc32_def [symmetric] HEADER_LEN_def)
qed

text \<open>An incomplete final record: a proper prefix of a frame.\<close>

definition torn :: "usize \<Rightarrow> bool \<Rightarrow> u8 list \<Rightarrow> bool" where
  "torn maximum segment t \<longleftrightarrow> (\<exists>k p n. frame_ok maximum segment (k, p) \<and> n < length (frame_bytes k p) \<and> t = take n (frame_bytes k p))"

lemma torn_Nil [simp]: "torn maximum segment []"
  unfolding torn_def by (rule exI [of _ AUDIO], rule exI [of _ "[]"], rule exI [of _ 0]) (simp add: frame_ok_def)

lemma scan_record_torn:
  assumes "torn maximum segment t" "maximum < 2 ^ 64"
  shows "scan_record path maximum collect segment offset t = ScanStop"
proof -
  obtain k p n where ok: "frame_ok maximum segment (k, p)" and n: "n < 24 + length p" and t: "t = take n (frame_bytes k p)"
    using assms(1) by (auto simp: torn_def)
  show ?thesis
  proof (cases "n < 24")
    case True
    then show ?thesis using t by (simp add: scan_record_def Let_def HEADER_LEN_def)
  next
    case False
    have len: "length p < 2 ^ 64" and max: "\<not> maximum < length p" and k: "segment \<longrightarrow> k \<in> {AUDIO, VIDEO, TIMED, DISCONTINUITY}"
      using ok assms(2) by (simp_all add: frame_ok_def)
    note h = frame_header_parts [OF len, of k]
    have "take HEADER_LEN t = frame_header k p" "drop HEADER_LEN t = take (n - 24) p"
      using t False by (simp_all add: frame_bytes_def HEADER_LEN_def min_def)
    then show ?thesis using k max n False
      by (simp add: scan_record_def Let_def h read_payload_eq HEADER_LEN_def)
  qed
qed

text \<open>What the scan adds for one record.\<close>

definition scan_add :: "bool \<Rightarrow> bool \<Rightarrow> u8 \<times> u8 list \<Rightarrow> raw_scan \<Rightarrow> raw_scan" where
  "scan_add collect segment f scan =
     scan\<lparr>rs_frames := (if collect then rs_frames scan @ [\<lparr>sf_kind = fst f, sf_payload = snd f\<rparr>] else rs_frames scan),
          rs_records := saturating_add (rs_records scan) 1,
          rs_media_frames := (if segment \<and> fst f \<noteq> DISCONTINUITY then saturating_add (rs_media_frames scan) 1 else rs_media_frames scan),
          rs_valid_bytes := rs_valid_bytes scan + of_nat (24 + length (snd f))\<rparr>"

lemma scan_loop_log:
  assumes "list_all (frame_ok maximum segment) fs" "maximum < 2 ^ 64"
    and "unat (rs_valid_bytes scan) + length (log_bytes fs) < 2 ^ 64"
  shows "(scan_loop path maximum collect segment scan (log_bytes fs @ t) :: recorder_error + raw_scan)
    = scan_loop path maximum collect segment (fold (scan_add collect segment) fs scan) t"
  using assms(1,3)
proof (induction fs arbitrary: scan)
  case (Cons f fs)
  obtain k p where f: "f = (k, p)" by (cases f)
  have ok: "frame_ok maximum segment (k, p)" using Cons.prems f by simp
  have room: "unat (rs_valid_bytes scan) + 24 + length p + length (log_bytes fs) < 2 ^ 64" using Cons.prems f by simp
  have off: "Option.bind (checked_add (rs_valid_bytes scan) (of_nat HEADER_LEN)) (\<lambda>v. checked_add v (of_nat (length p)))
    = Some (rs_valid_bytes scan + of_nat (24 + length p))"
    using room by (simp add: checked_add_def HEADER_LEN_def unat_of_nat take_bit_nat_eq_self unat_word_ariths add.assoc)
  have "unat (rs_valid_bytes scan + of_nat (24 + length p)) = unat (rs_valid_bytes scan) + (24 + length p)"
    using room by (simp add: unat_word_ariths unat_of_nat take_bit_nat_eq_self del: of_nat_add)
  then have IH: "(scan_loop path maximum collect segment (scan_add collect segment f scan) (log_bytes fs @ t) :: recorder_error + raw_scan)
    = scan_loop path maximum collect segment (fold (scan_add collect segment) fs (scan_add collect segment f scan)) t"
    using Cons.prems room f by - (rule Cons.IH, simp_all add: scan_add_def)
  have "(scan_loop path maximum collect segment scan (frame_bytes k p @ log_bytes fs @ t) :: recorder_error + raw_scan)
    = scan_loop path maximum collect segment (scan_add collect segment (k, p) scan) (log_bytes fs @ t)"
    by (subst scan_loop.simps) (simp add: scan_record_frame [OF ok assms(2)] off scan_add_def cong: if_cong)
  then show ?case using IH f by simp
qed simp

lemma saturating_add_of_nat: "n + 1 < 2 ^ 64 \<Longrightarrow> saturating_add (of_nat n :: u64) 1 = of_nat (n + 1)"
  by (simp add: saturating_add_def unat_of_nat take_bit_nat_eq_self)

definition media_count :: "log \<Rightarrow> nat" where
  "media_count fs = length (filter (\<lambda>(k, _). k \<noteq> DISCONTINUITY) fs)"

text \<open>The scan after a log, from a scan that has seen some records before.\<close>

lemma fold_scan_add:
  assumes "rs_records scan = of_nat r" "rs_media_frames scan = of_nat m" "r + length fs < 2 ^ 64" "m + length fs < 2 ^ 64"
  shows "fold (scan_add collect segment) fs scan =
    scan\<lparr>rs_frames := rs_frames scan @ (if collect then map (\<lambda>(k, p). \<lparr>sf_kind = k, sf_payload = p\<rparr>) fs else []),
         rs_records := of_nat (r + length fs),
         rs_media_frames := of_nat (m + (if segment then media_count fs else 0)),
         rs_valid_bytes := rs_valid_bytes scan + of_nat (length (log_bytes fs))\<rparr>"
  using assms
proof (induction fs arbitrary: scan r m)
  case Nil
  then show ?case by (simp add: media_count_def)
next
  case (Cons f fs)
  obtain k p where f: "f = (k, p)" by (cases f)
  let ?m = "if segment \<and> k \<noteq> DISCONTINUITY then m + 1 else m"
  have rec: "saturating_add (of_nat r :: u64) 1 = of_nat (r + 1)" using Cons.prems by (intro saturating_add_of_nat) simp
  have med: "saturating_add (of_nat m :: u64) 1 = of_nat (m + 1)" using Cons.prems by (intro saturating_add_of_nat) simp
  have next_scan: "rs_records (scan_add collect segment f scan) = of_nat (r + 1)" "rs_media_frames (scan_add collect segment f scan) = of_nat ?m"
    using Cons.prems rec med f by (simp_all add: scan_add_def)
  show ?case
    using Cons.IH [OF next_scan] Cons.prems f rec
    by (simp add: scan_add_def media_count_def add.assoc add.commute add.left_commute split: if_splits)
qed

lemma length_log_bytes: "24 * length fs \<le> length (log_bytes fs)"
  by (induction fs) auto

lemma unat_of_nat_u64: "n < 2 ^ 64 \<Longrightarrow> unat (of_nat n :: u64) = n"
  by (simp add: unat_of_nat take_bit_nat_eq_self)

lemma scan_file_log:
  assumes "list_all (frame_ok maximum segment) fs" "torn maximum segment t" "maximum < 2 ^ 64"
    and "length (log_bytes fs @ t) < 2 ^ 64"
  shows "(scan_file path maximum collect segment (log_bytes fs @ t) :: recorder_error + raw_scan) =
    Inr \<lparr>rs_frames = (if collect then map (\<lambda>(k, p). \<lparr>sf_kind = k, sf_payload = p\<rparr>) fs else []),
         rs_records = of_nat (length fs), rs_media_frames = of_nat (if segment then media_count fs else 0),
         rs_valid_bytes = of_nat (length (log_bytes fs)), rs_truncated_bytes = of_nat (length t)\<rparr>"
proof -
  let ?start = "\<lparr>rs_frames = [], rs_records = 0, rs_media_frames = 0, rs_valid_bytes = 0, rs_truncated_bytes = 0\<rparr>"
  have len: "length (log_bytes fs) < 2 ^ 64" "length fs < 2 ^ 64" using assms(4) length_log_bytes [of fs] by simp_all
  have "(of_nat (length (log_bytes fs)) :: u64) \<le> of_nat (length (log_bytes fs @ t))"
    using assms(4) by (simp only: word_less_unat) (simp add: unat_of_nat_u64 flip: of_nat_add)
  then have "saturating_sub (of_nat (length (log_bytes fs @ t)) :: u64) (of_nat (length (log_bytes fs))) = of_nat (length t)"
    by (simp add: saturating_sub_def)
  then show ?thesis
    using scan_loop_log [OF assms(1,3), of ?start path collect t] len
      fold_scan_add [of ?start 0 0 fs collect segment] unat_of_nat_u64 [OF len(1)]
    by (simp add: scan_file_def scan_loop.simps [of _ _ _ _ _ t] scan_record_torn [OF assms(2,3)] flip: of_nat_add)
qed

text \<open>C38: Nothing before an interrupted write is lost. A file that holds complete records followed by any proper
  prefix of one more record, which is what an interrupted append leaves, is scanned without error:
  the scan returns exactly the complete records in order, counts them and the media frames among
  them, and reports the length of the incomplete tail, so that truncating the file to the reported
  length restores the log before the interrupted write.
\<close>
theorem interrupted_log_recovers:
  assumes "list_all (frame_ok maximum segment) fs" "torn maximum segment t" "maximum < 2 ^ 64"
    and "length (log_bytes fs @ t) < 2 ^ 64"
  shows "(scan_file path maximum collect segment (log_bytes fs @ t) :: recorder_error + raw_scan) =
    Inr \<lparr>rs_frames = (if collect then map (\<lambda>(k, p). \<lparr>sf_kind = k, sf_payload = p\<rparr>) fs else []),
         rs_records = of_nat (length fs), rs_media_frames = of_nat (if segment then media_count fs else 0),
         rs_valid_bytes = of_nat (length (log_bytes fs)), rs_truncated_bytes = of_nat (length t)\<rparr>
   \<and> take (unat (of_nat (length (log_bytes fs)) :: u64)) (log_bytes fs @ t) = log_bytes fs"
  using scan_file_log [OF assms] assms(4) by (simp add: unat_of_nat_u64)

theorem interrupted_log_recovers_witness:
  "scan_file (''d'', ''f'') 16 True True (log_bytes [(AUDIO, [1, 2]), (DISCONTINUITY, [])] @ take 25 (frame_bytes VIDEO [3, 4])) =
    Inr \<lparr>rs_frames = (if True then map (\<lambda>(k, p). \<lparr>sf_kind = k, sf_payload = p\<rparr>) [(AUDIO, [1, 2]), (DISCONTINUITY, [])] else []),
         rs_records = of_nat (length [(AUDIO, [1, 2 :: u8]), (DISCONTINUITY, [])]),
         rs_media_frames = of_nat (if True then media_count [(AUDIO, [1, 2]), (DISCONTINUITY, [])] else 0),
         rs_valid_bytes = of_nat (length (log_bytes [(AUDIO, [1, 2]), (DISCONTINUITY, [])])),
         rs_truncated_bytes = of_nat (length (take 25 (frame_bytes VIDEO [3, 4])))\<rparr>
   \<and> take (unat (of_nat (length (log_bytes [(AUDIO, [1, 2]), (DISCONTINUITY, [])])) :: u64))
       (log_bytes [(AUDIO, [1, 2]), (DISCONTINUITY, [])] @ take 25 (frame_bytes VIDEO [3, 4]))
     = log_bytes [(AUDIO, [1, 2]), (DISCONTINUITY, [])]"
proof (rule interrupted_log_recovers)
  show "torn 16 True (take 25 (frame_bytes VIDEO [3, 4]))"
    unfolding torn_def by (rule exI [of _ VIDEO], rule exI [of _ "[3, 4]"], rule exI [of _ 25]) (simp add: frame_ok_def)
qed (simp_all add: frame_ok_def)

section \<open>Damage\<close>

lemma crc32_update_at:
  assumes "i < length xs" "b \<noteq> xs ! i"
  shows "crc32 (xs[i := b]) \<noteq> crc32 xs"
proof -
  have "xs[i := b] = take i xs @ b # drop (Suc i) xs" "xs = take i xs @ xs ! i # drop (Suc i) xs"
    using assms(1) by (simp_all add: upd_conv_take_nth_drop id_take_nth_drop)
  then show ?thesis using assms(2) crc32_single_byte [of "take i xs" b "drop (Suc i) xs" "xs ! i"] by metis
qed

lemma scan_record_bad_header:
  assumes "length h = 24" "unat (crc32 (take 20 h)) \<noteq> le_value (drop 20 h)"
  shows "\<exists>reason. scan_record path maximum collect segment offset (h @ rest) = ScanError (Corrupt path offset reason)"
  using assms by (simp add: scan_record_def Let_def HEADER_LEN_def)

lemma frame_header_split:
  obtains h where "length h = 20" "frame_header k p = h @ put_u32 (crc32 h)"
  by (rule that [of "MAGIC @ [VERSION, k, 0, 0] @ le_bytes 8 (length p) @ put_u32 (crc32 p)"])
    (simp_all add: frame_header_def Let_def MAGIC_def)

lemma damaged_header:
  assumes "i < 24" "b \<noteq> frame_header k p ! i"
  shows "unat (crc32 (take 20 ((frame_header k p)[i := b]))) \<noteq> le_value (drop 20 ((frame_header k p)[i := b]))"
proof -
  obtain h where h: "length h = 20" "frame_header k p = h @ put_u32 (crc32 h)" by (rule frame_header_split)
  show ?thesis
  proof (cases "i < 20")
    case True
    then have "crc32 (h[i := b]) \<noteq> crc32 h" using assms(2) h by (intro crc32_update_at) (simp_all add: nth_append)
    then show ?thesis using True h by (auto simp: list_update_append le_value_put dest: word_eq_unatI)
  next
    case False
    let ?c = "put_u32 (crc32 h)"
    have "?c ! (i - 20) \<noteq> b" "i - 20 < length ?c" using False assms h by (auto simp: nth_append)
    then have "?c[i - 20 := b] \<noteq> ?c" by (metis nth_list_update_eq)
    then have "le_value (?c[i - 20 := b]) \<noteq> le_value ?c" using le_value_inj by fastforce
    then show ?thesis using False h by (simp add: list_update_append le_value_put)
  qed
qed

lemma scan_record_damaged:
  assumes "frame_ok maximum segment (k, p)" "maximum < 2 ^ 64" "i < length (frame_bytes k p)" "b \<noteq> frame_bytes k p ! i"
  shows "\<exists>reason. scan_record path maximum collect segment offset ((frame_bytes k p)[i := b] @ rest) = ScanError (Corrupt path offset reason)"
proof (cases "i < 24")
  case True
  then have "unat (crc32 (take 20 ((frame_header k p)[i := b]))) \<noteq> le_value (drop 20 ((frame_header k p)[i := b]))"
    using assms(4) by (intro damaged_header) (simp_all add: frame_bytes_def nth_append)
  then show ?thesis using True scan_record_bad_header [of "(frame_header k p)[i := b]" path maximum collect segment offset "p @ rest"]
    by (simp add: frame_bytes_def list_update_append)
next
  case False
  have len: "length p < 2 ^ 64" and max: "\<not> maximum < length p" and k: "segment \<longrightarrow> k \<in> {AUDIO, VIDEO, TIMED, DISCONTINUITY}"
    using assms by (simp_all add: frame_ok_def)
  note h = frame_header_parts [OF len, of k]
  have upd: "(frame_bytes k p)[i := b] = frame_header k p @ p[i - 24 := b]" using False by (simp add: frame_bytes_def list_update_append)
  have "crc32 (p[i - 24 := b]) \<noteq> crc32 p"
    using False assms(3,4) by (intro crc32_update_at) (simp_all add: frame_bytes_def nth_append)
  then have "unat (crc32 (p[i - 24 := b])) \<noteq> unat (crc32 p)" by (auto dest: word_eq_unatI)
  then show ?thesis using k max unfolding upd
    by (simp add: scan_record_def Let_def h read_payload_eq crc32_def [symmetric] HEADER_LEN_def)
qed

text \<open>C39: A damaged byte never goes unnoticed. When any one byte of a complete record is changed, in its header or
  in its payload, the scan fails at the offset of exactly that record, whatever follows it in the
  file; a damaged record is never taken for the incomplete end of the log.
\<close>
theorem damaged_record_is_reported:
  assumes "list_all (frame_ok maximum segment) fs" "frame_ok maximum segment (k, p)" "maximum < 2 ^ 64"
    and "length (log_bytes fs) < 2 ^ 64" "i < length (frame_bytes k p)" "b \<noteq> frame_bytes k p ! i"
  shows "\<exists>reason. (scan_file path maximum collect segment (log_bytes fs @ (frame_bytes k p)[i := b] @ rest) :: recorder_error + raw_scan)
    = Inl (Corrupt path (of_nat (length (log_bytes fs))) reason)"
proof -
  let ?start = "\<lparr>rs_frames = [], rs_records = 0, rs_media_frames = 0, rs_valid_bytes = 0, rs_truncated_bytes = 0\<rparr>"
  let ?scan = "fold (scan_add collect segment) fs ?start" and ?rest = "(frame_bytes k p)[i := b] @ rest"
  have "length fs < 2 ^ 64" using assms(4) length_log_bytes [of fs] by simp
  then have off: "rs_valid_bytes ?scan = of_nat (length (log_bytes fs))"
    using fold_scan_add [of ?start 0 0 fs collect segment] by simp
  obtain reason where "scan_record path maximum collect segment (rs_valid_bytes ?scan) ?rest
      = (ScanError (Corrupt path (rs_valid_bytes ?scan) reason) :: (recorder_error, _) scan_step)"
    using scan_record_damaged [OF assms(2,3,5,6)] by blast
  then show ?thesis using off scan_loop_log [OF assms(1,3), of ?start path collect ?rest] assms(4)
    by (simp add: scan_file_def scan_loop.simps [of _ _ _ _ _ ?rest])
qed

theorem damaged_record_is_reported_witness:
  "\<exists>reason. scan_file (''d'', ''f'') 16 False True (log_bytes [(AUDIO, [1, 2])] @ (frame_bytes VIDEO [3, 4])[25 := 7] @ [0, 0])
    = Inl (Corrupt (''d'', ''f'') (of_nat (length (log_bytes [(AUDIO, [1, 2])]))) reason)"
  by (rule damaged_record_is_reported) (simp_all add: frame_ok_def frame_bytes_def nth_append)

section \<open>Manifest entries are read back\<close>

lemma le_bytes_value: "le_bytes (length bs) (le_value bs) = bs"
  by (rule le_value_inj) (simp_all add: le_value_bytes le_value_less)

lemma cursor_take_append: "length xs = n \<Longrightarrow> cursor_take n (xs @ rest) = Inr (xs, rest)"
  by (simp add: cursor_take_def)

lemma cursor_take_Inr: "cursor_take n bs = Inr (xs, rest) \<longleftrightarrow> length xs = n \<and> bs = xs @ rest"
  by (auto simp: cursor_take_def split: if_splits)

lemma cursor_u64_Inr: "cursor_u64 bs = Inr (v, rest) \<longleftrightarrow> bs = put_u64 v @ rest"
proof
  assume "cursor_u64 bs = Inr (v, rest)"
  then obtain xs where xs: "length xs = 8" "bs = xs @ rest" "v = of_nat (le_value xs)"
    by (auto simp: cursor_u64_def result_simps cursor_take_Inr)
  have "unat v = le_value xs" using le_value_less [of xs] xs(1,3) by (simp add: unat_of_nat_u64)
  then show "bs = put_u64 v @ rest" using xs(1,2) le_bytes_value [of xs] by (simp add: put_u64_def)
qed (simp add: cursor_u64_def cursor_take_append le_value_put)

lemma cursor_u128_Inr: "cursor_u128 bs = Inr (v, rest) \<longleftrightarrow> bs = put_u128 v @ rest"
proof
  assume "cursor_u128 bs = Inr (v, rest)"
  then obtain xs where xs: "length xs = 16" "bs = xs @ rest" "v = of_nat (le_value xs)"
    by (auto simp: cursor_u128_def result_simps cursor_take_Inr)
  have "unat v = le_value xs" using le_value_less [of xs] xs(1,3) by (simp add: unat_of_nat take_bit_nat_eq_self)
  then show "bs = put_u128 v @ rest" using xs(1,2) le_bytes_value [of xs] by (simp add: put_u128_def)
qed (simp add: cursor_u128_def cursor_take_append le_value_put)

lemma cursor_u64_put: "cursor_u64 (put_u64 v @ rest) = Inr (v, rest)"
  by (simp add: cursor_u64_Inr)

lemma cursor_option_u64_Inr: "cursor_option_u64 bs = Inr (v, rest) \<longleftrightarrow> bs = put_option_u64 v @ rest"
proof
  assume "cursor_option_u64 bs = Inr (v, rest)"
  then show "bs = put_option_u64 v @ rest"
    by (auto simp: cursor_option_u64_def result_simps cursor_take_Inr cursor_u64_Inr split: if_splits)
next
  assume "bs = put_option_u64 v @ rest"
  then show "cursor_option_u64 bs = Inr (v, rest)"
    by (cases v) (simp_all add: cursor_option_u64_def cursor_take_def cursor_u64_put)
qed

lemma cursor_u128_put: "cursor_u128 (put_u128 v @ rest) = Inr (v, rest)"
  by (simp add: cursor_u128_Inr)

lemma cursor_option_u64_put: "cursor_option_u64 (put_option_u64 v @ rest) = Inr (v, rest)"
  by (simp add: cursor_option_u64_Inr)

lemma cursor_put_all: "cursor_u64 (put_u64 v) = Inr (v, [])" "cursor_u128 (put_u128 w) = Inr (w, [])"
  by (simp_all add: cursor_u64_Inr cursor_u128_Inr)

lemmas cursor_Inr = cursor_u64_Inr cursor_u128_Inr cursor_option_u64_Inr
lemmas cursor_put = cursor_u64_put cursor_u128_put cursor_option_u64_put

definition config_ok :: "recorder_config \<Rightarrow> bool" where
  "config_ok c \<longleftrightarrow> ql_max_events (rc_queue c) \<noteq> 0 \<and> ql_max_bytes (rc_queue c) \<noteq> 0
     \<and> sp_max_frames (rc_segments c) \<noteq> Some 0 \<and> sp_max_bytes (rc_segments c) \<noteq> Some 0"

lemma config_validate_case: "(case config_validate c of Inl _ \<Rightarrow> a | Inr _ \<Rightarrow> b) = (if config_ok c then b else a)"
  by (auto simp: config_validate_def config_ok_def)

fun entry_ok :: "manifest_entry \<Rightarrow> bool" where
  "entry_ok (EntryStart r c _) \<longleftrightarrow> r \<noteq> 0 \<and> config_ok c \<and> ql_max_events (rc_queue c) < 2 ^ 64 \<and> ql_max_bytes (rc_queue c) < 2 ^ 64"
| "entry_ok (EntryStop r) \<longleftrightarrow> r \<noteq> 0"
| "entry_ok _ \<longleftrightarrow> True"

lemma decode_start_Inr:
  "decode_start bs p = Inr (e, rest) \<longleftrightarrow> (\<exists>r c i. e = EntryStart r c i \<and> entry_ok e \<and> bs = snd (encode_manifest e) @ rest)"
proof
  assume "decode_start bs p = Inr (e, rest)"
  then obtain r ev qb mf mb i where parts: "r \<noteq> 0"
    "bs = put_u128 r @ put_u64 ev @ put_u64 qb @ put_option_u64 mf @ put_option_u64 mb @ put_u64 i @ rest"
    and e: "e = EntryStart r \<lparr>rc_queue = \<lparr>ql_max_events = unat ev, ql_max_bytes = unat qb\<rparr>,
        rc_segments = \<lparr>sp_max_frames = mf, sp_max_bytes = mb\<rparr>\<rparr> i"
    and ok: "config_ok \<lparr>rc_queue = \<lparr>ql_max_events = unat ev, ql_max_bytes = unat qb\<rparr>,
        rc_segments = \<lparr>sp_max_frames = mf, sp_max_bytes = mb\<rparr>\<rparr>"
    by (auto simp: decode_start_def result_simps cursor_Inr receipt_def Let_def config_validate_case split: if_splits)
  have "u64_of_usize (unat v) = v" "unat v < 2 ^ 64" for v :: u64
    using unat_lt2p_any [of v] by (simp_all add: u64_of_usize_def)
  then show "\<exists>r c i. e = EntryStart r c i \<and> entry_ok e \<and> bs = snd (encode_manifest e) @ rest"
    using parts e ok by auto
next
  assume "\<exists>r c i. e = EntryStart r c i \<and> entry_ok e \<and> bs = snd (encode_manifest e) @ rest"
  then obtain r c i where e: "e = EntryStart r c i" and ok: "entry_ok e" and bs: "bs = snd (encode_manifest e) @ rest" by blast
  have "\<lparr>rc_queue = \<lparr>ql_max_events = unat (u64_of_usize (ql_max_events (rc_queue c))), ql_max_bytes = unat (u64_of_usize (ql_max_bytes (rc_queue c)))\<rparr>,
      rc_segments = \<lparr>sp_max_frames = sp_max_frames (rc_segments c), sp_max_bytes = sp_max_bytes (rc_segments c)\<rparr>\<rparr> = c"
    using ok e by (simp add: u64_of_usize_def unat_of_nat_u64)
  then show "decode_start bs p = Inr (e, rest)"
    using bs e ok by (simp add: decode_start_def receipt_def Let_def cursor_put config_validate_case)
qed

lemma kinds_distinct [simp]:
  "STOP \<noteq> START" "SEGMENT_OPEN \<noteq> START" "SEGMENT_OPEN \<noteq> STOP" "SEGMENT_CLOSE \<noteq> START" "SEGMENT_CLOSE \<noteq> STOP"
  "SEGMENT_CLOSE \<noteq> SEGMENT_OPEN"
  by (simp_all add: START_def STOP_def SEGMENT_OPEN_def SEGMENT_CLOSE_def)

lemma decode_encoded_manifest:
  assumes e: "entry_ok e \<and> encode_manifest e = (sf_kind f, sf_payload f)"
  shows "(decode_manifest f path :: recorder_error + manifest_entry) = Inr e"
proof -
  have "(decode_entry f path :: recorder_error + _) = Inr (e, [])"
  proof (cases e)
    case (EntryStart r c i)
    then have "(decode_start (sf_payload f) path :: recorder_error + _) = Inr (e, [])" "sf_kind f = START"
      using e by (auto simp: decode_start_Inr)
    then show ?thesis by (simp add: decode_entry_def)
  next
    case (EntryStop r)
    then have "sf_kind f = STOP" "sf_payload f = put_u128 r" "r \<noteq> 0" using e by auto
    then show ?thesis using EntryStop by (simp add: decode_entry_def receipt_def cursor_put_all)
  next
    case (SegmentOpen i)
    then have "sf_kind f = SEGMENT_OPEN" "sf_payload f = put_u64 i" using e by auto
    then show ?thesis using SegmentOpen by (simp add: decode_entry_def cursor_put_all)
  next
    case (SegmentClose i fr bt)
    then have "sf_kind f = SEGMENT_CLOSE" "sf_payload f = put_u64 i @ put_u64 fr @ put_u64 bt" using e by auto
    then show ?thesis using SegmentClose by (simp add: decode_entry_def cursor_put cursor_put_all)
  qed
  then show ?thesis by (simp add: decode_manifest_def)
qed

text \<open>C40: The manifest codec loses nothing and has one encoding per entry. Decoding succeeds with an entry exactly
  on the kind and payload that encoding this entry produces, for the entries the coordinator can
  write (nonzero receipts, valid configurations); every other payload is rejected, also one with
  missing or trailing bytes.
\<close>
theorem manifest_codec_exact:
  "(decode_manifest f path :: recorder_error + manifest_entry) = Inr e \<longleftrightarrow> entry_ok e \<and> encode_manifest e = (sf_kind f, sf_payload f)"
proof
  assume "(decode_manifest f path :: recorder_error + manifest_entry) = Inr e"
  then have d: "(decode_entry f path :: recorder_error + _) = Inr (e, [])" by (auto simp: decode_manifest_def result_simps split: if_splits)
  then show "entry_ok e \<and> encode_manifest e = (sf_kind f, sf_payload f)"
    by (auto simp: decode_entry_def Let_def decode_start_Inr result_simps cursor_Inr receipt_def split: if_splits)
qed (rule decode_encoded_manifest)

section \<open>Events are encoded without loss\<close>

definition scalar_values :: "ustr \<Rightarrow> bool" where
  "scalar_values s \<longleftrightarrow> list_all (\<lambda>c. c < 1114112) s"

lemma length_as_bytes [simp]: "length (as_bytes s) = str_len s"
proof -
  have "length (utf8_char c) = utf8_len c" for c by (simp add: utf8_char_def utf8_len_def)
  then show ?thesis by (simp add: as_bytes_def str_len_def length_concat comp_def)
qed

lemma unat_of_nat_u8: "n < 256 \<Longrightarrow> unat (of_nat n :: u8) = n"
  by (simp add: unat_of_nat take_bit_nat_eq_self)

lemma div_mod_eqI: "c div n = d div n \<Longrightarrow> c mod n = d mod n \<Longrightarrow> c = d" for c d n :: nat
  by (metis div_mult_mod_eq)

definition utf8_nats :: "nat \<Rightarrow> nat list" where
  "utf8_nats c =
     (if c < 128 then [c]
      else if c < 2048 then [192 + c div 64, 128 + c mod 64]
      else if c < 65536 then [224 + c div 4096, 128 + c div 64 mod 64, 128 + c mod 64]
      else [240 + c div 262144, 128 + c div 4096 mod 64, 128 + c div 64 mod 64, 128 + c mod 64])"

lemma utf8_first_byte:
  "c < 2048 \<Longrightarrow> c div 64 < 32" "c < 65536 \<Longrightarrow> c div 4096 < 16" "c < 1114112 \<Longrightarrow> c div 262144 < 5" for c :: nat
  by (simp_all add: less_mult_imp_div_less)

lemma utf8_char_nats:
  assumes "c < 1114112"
  shows "map unat (utf8_char c) = utf8_nats c"
proof -
  have m: "c mod 64 < 64" "c div 64 mod 64 < 64" "c div 4096 mod 64 < 64" by simp_all
  show ?thesis
    using utf8_first_byte [of c] m assms unfolding utf8_char_def utf8_nats_def
    by (simp add: unat_of_nat_u8 del: of_nat_add of_nat_numeral)
qed

lemma utf8_nats_parts:
  assumes "c < 1114112" "d < 1114112" "utf8_nats c @ r = utf8_nats d @ s"
  shows "c = d"
proof -
  have b: "128 \<le> x \<Longrightarrow> x < 2048 \<Longrightarrow> 192 \<le> 192 + x div 64 \<and> 192 + x div 64 < 224" "x < 65536 \<Longrightarrow> 224 + x div 4096 < 240" for x :: nat
    using utf8_first_byte [of x] by simp_all
  have dd: "x div 64 div 64 = x div 4096" "x div 4096 div 64 = x div 262144" for x :: nat
    by (simp_all add: div_mult2_eq [symmetric])
  have three: "x = y" if "x div 4096 = y div 4096" "x div 64 mod 64 = y div 64 mod 64" "x mod 64 = y mod 64" for x y :: nat
    using that by (intro div_mod_eqI [of x 64 y] div_mod_eqI [of "x div 64" 64 "y div 64"]) (simp_all add: dd)
  have four: "x = y" if "x div 262144 = y div 262144" "x div 4096 mod 64 = y div 4096 mod 64" "x div 64 mod 64 = y div 64 mod 64"
    "x mod 64 = y mod 64" for x y :: nat
  proof (rule three [OF _ that(3,4)])
    show "x div 4096 = y div 4096" using that by (intro div_mod_eqI [of "x div 4096" 64 "y div 4096"]) (simp_all add: dd)
  qed
  have head: "hd (utf8_nats c) = hd (utf8_nats d)"
    using arg_cong [OF assms(3), of hd] by (simp add: utf8_nats_def split: if_splits)
  have width: "(c < n) = (d < n)" if "n \<in> {128, 2048, 65536}" for n
    using head that b [of c] b [of d] by (auto simp: utf8_nats_def split: if_splits)
  consider "c < 128" | "128 \<le> c" "c < 2048" | "2048 \<le> c" "c < 65536" | "65536 \<le> c" by linarith
  then show ?thesis
  proof cases
    case 1
    then show ?thesis using assms(3) width [of 128] by (simp add: utf8_nats_def)
  next
    case 2
    then have "192 + c div 64 = 192 + d div 64 \<and> 128 + c mod 64 = 128 + d mod 64"
      using assms(3) width [of 128] width [of 2048] by (simp add: utf8_nats_def)
    then show ?thesis by (intro div_mod_eqI [of c 64 d]) simp_all
  next
    case 3
    then have "c div 4096 = d div 4096 \<and> c div 64 mod 64 = d div 64 mod 64 \<and> c mod 64 = d mod 64"
      using assms(3) width [of 128] width [of 2048] width [of 65536] by (simp add: utf8_nats_def)
    then show ?thesis by (intro three [of c d]) simp_all
  next
    case 4
    then have "c div 262144 = d div 262144 \<and> c div 4096 mod 64 = d div 4096 mod 64 \<and> c div 64 mod 64 = d div 64 mod 64 \<and> c mod 64 = d mod 64"
      using assms(3) width [of 128] width [of 2048] width [of 65536] by (simp add: utf8_nats_def)
    then show ?thesis by (intro four [of c d]) simp_all
  qed
qed

lemma utf8_prefix:
  assumes "c < 1114112" "d < 1114112" "utf8_char c @ r = utf8_char d @ s"
  shows "c = d \<and> r = s"
proof -
  have "utf8_nats c @ map unat r = utf8_nats d @ map unat s"
    using arg_cong [OF assms(3), of "map unat"] utf8_char_nats [OF assms(1)] utf8_char_nats [OF assms(2)] by simp
  then have "c = d" using utf8_nats_parts assms by blast
  then show ?thesis using assms(3) by simp
qed

lemma as_bytes_inj:
  assumes "scalar_values a" "scalar_values b" "as_bytes a = as_bytes b"
  shows "a = b"
  using assms
proof (induction a arbitrary: b)
  case Nil
  then show ?case by (cases b) (auto simp: as_bytes_def utf8_char_def split: if_splits)
next
  case (Cons c cs)
  then obtain d ds where b: "b = d # ds" by (cases b) (auto simp: as_bytes_def utf8_char_def split: if_splits)
  then have "c = d \<and> as_bytes cs = as_bytes ds" using Cons.prems by (intro utf8_prefix) (auto simp: as_bytes_def scalar_values_def)
  then show ?case using Cons b by (simp add: scalar_values_def)
qed

text \<open>Fields of fixed width, and what is built from them, end where they end: what follows can be told apart.\<close>

lemma put_inj: "put_u16 a = put_u16 a' \<longleftrightarrow> a = a'" "put_u32 b = put_u32 b' \<longleftrightarrow> b = b'" "put_u64 c = put_u64 c' \<longleftrightarrow> c = c'"
  "put_u128 d = put_u128 d' \<longleftrightarrow> d = d'" "put_i64 c = put_i64 c' \<longleftrightarrow> c = c'"
proof -
  show "put_u16 a = put_u16 a' \<longleftrightarrow> a = a'" by (metis le_value_put(1) word_eq_unatI)
  show "put_u32 b = put_u32 b' \<longleftrightarrow> b = b'" by (metis le_value_put(2) word_eq_unatI)
  show u64: "put_u64 c = put_u64 c' \<longleftrightarrow> c = c'" by (metis le_value_put(3) word_eq_unatI)
  show "put_u128 d = put_u128 d' \<longleftrightarrow> d = d'" by (metis le_value_put(4) word_eq_unatI)
  show "put_i64 c = put_i64 c' \<longleftrightarrow> c = c'" using u64 by (simp add: put_i64_def put_u64_def)
qed

lemma put_append_inj [simp]:
  "put_u16 a @ r = put_u16 a' @ s \<longleftrightarrow> a = a' \<and> r = s" "put_u32 b @ r = put_u32 b' @ s \<longleftrightarrow> b = b' \<and> r = s"
  "put_u64 c @ r = put_u64 c' @ s \<longleftrightarrow> c = c' \<and> r = s" "put_u128 d @ r = put_u128 d' @ s \<longleftrightarrow> d = d' \<and> r = s"
  "put_i64 c @ r = put_i64 c' @ s \<longleftrightarrow> c = c' \<and> r = s"
  by (simp_all add: put_inj)

lemma encode_timestamp_inj [simp]: "encode_timestamp t @ r = encode_timestamp t' @ s \<longleftrightarrow> t = t' \<and> r = s"
  by (auto simp: encode_timestamp_def)

lemma option_inj [simp]:
  assumes "\<And>a b r s. f a @ r = f b @ s \<longleftrightarrow> a = b \<and> r = s"
  shows "(case x of Some a \<Rightarrow> 1 # f a | None \<Rightarrow> [0 :: u8]) @ r = (case y of Some a \<Rightarrow> 1 # f a | None \<Rightarrow> [0]) @ s \<longleftrightarrow> x = y \<and> r = s"
  using assms by (cases x; cases y) auto

lemma encode_timing_inj [simp]: "encode_timing t @ r = encode_timing t' @ s \<longleftrightarrow> t = t' \<and> r = s"
proof
  assume eq: "encode_timing t @ r = encode_timing t' @ s"
  have tc: "[tc_hours a, tc_minutes a, tc_seconds a, tc_frames a] @ u = [tc_hours b, tc_minutes b, tc_seconds b, tc_frames b] @ v \<longleftrightarrow> a = b \<and> u = v"
    for a b :: timecode and u v by (auto intro: timecode.equality)
  show "t = t' \<and> r = s"
    using eq option_inj [of encode_timestamp, OF encode_timestamp_inj] option_inj [of "\<lambda>tc. [tc_hours tc, tc_minutes tc, tc_seconds tc, tc_frames tc]", OF tc]
    by (auto simp: encode_timing_def intro: media_timing.equality)
qed simp

lemma of_nat_u16_inj: "(of_nat n :: u16) = of_nat m \<Longrightarrow> n < 2 ^ 16 \<Longrightarrow> m < 2 ^ 16 \<Longrightarrow> n = m"
proof -
  assume "(of_nat n :: u16) = of_nat m" and less: "n < 2 ^ 16" "m < 2 ^ 16"
  then have "unat (of_nat n :: u16) = unat (of_nat m :: u16)" by (simp only:)
  then show "n = m" using less by (simp add: unat_of_nat take_bit_nat_eq_self)
qed

lemma put_text_inj:
  assumes "put_text a = Inr x" "put_text b = Inr y" "scalar_values a" "scalar_values b"
  shows "x @ r = y @ s \<longleftrightarrow> a = b \<and> r = s"
proof
  assume eq: "x @ r = y @ s"
  have ab: "str_len a < 2 ^ 16" "str_len b < 2 ^ 16" "x = put_u16 (of_nat (str_len a)) @ as_bytes a" "y = put_u16 (of_nat (str_len b)) @ as_bytes b"
    using assms(1,2) by (auto simp: put_text_def split: if_splits)
  then have "(of_nat (str_len a) :: u16) = of_nat (str_len b)" and rest: "as_bytes a @ r = as_bytes b @ s" using eq by simp_all
  then have "str_len a = str_len b" using ab(1,2) of_nat_u16_inj by blast
  then have "as_bytes a = as_bytes b" "r = s" using rest by simp_all
  then show "a = b \<and> r = s" using as_bytes_inj assms(3,4) by blast
qed (use assms in \<open>auto simp: put_text_def split: if_splits\<close>)

lemma put_blob_inj: "put_blob a = Inr x \<Longrightarrow> put_blob b = Inr x \<Longrightarrow> a = b"
  by (auto simp: put_blob_def split: if_splits)

lemma encode_common_inj:
  assumes "encode_common c = Inr x" "encode_common c' = Inr y" "scalar_values (pc_codec c)" "scalar_values (pc_codec c')"
  shows "x @ r = y @ s \<longleftrightarrow> c = c' \<and> r = s"
proof
  assume eq: "x @ r = y @ s"
  obtain t where t: "put_text (pc_codec c) = Inr t" and x: "x = t @ put_u64 (pc_config_generation c) @ put_u32 (pc_stream_id c)
         @ (case pc_channel_index c of Some i \<Rightarrow> 1 # put_u16 i | None \<Rightarrow> [0])
         @ encode_timing (pc_timing c) @ encode_timestamp (pc_decode_timestamp c) @ [pc_flags c]"
    using assms(1) by (auto simp: encode_common_def result_simps)
  obtain u where u: "put_text (pc_codec c') = Inr u" and y: "y = u @ put_u64 (pc_config_generation c') @ put_u32 (pc_stream_id c')
         @ (case pc_channel_index c' of Some i \<Rightarrow> 1 # put_u16 i | None \<Rightarrow> [0])
         @ encode_timing (pc_timing c') @ encode_timestamp (pc_decode_timestamp c') @ [pc_flags c']"
    using assms(2) by (auto simp: encode_common_def result_simps)
  show "c = c' \<and> r = s"
    using eq unfolding x y append_assoc put_text_inj [OF t u assms(3,4)]
    by (auto simp: option_inj [of put_u16, OF put_append_inj(1)] intro: packet_common.equality)
qed (use assms in \<open>auto simp: encode_common_def put_text_def result_simps split: if_splits\<close>)

lemma channel_code_inj: "channel_code a = channel_code b \<longleftrightarrow> a = b"
  by (cases a; cases b) simp_all

lemma pixel_format_code_inj: "pixel_format_code a = pixel_format_code b \<longleftrightarrow> a = b"
  by (cases a; cases b) simp_all

lemma event_channels_inj:
  assumes "event_channels a = Inr n" "event_channels b = Inr n" "map channel_code a @ r = map channel_code b @ s"
  shows "a = b \<and> r = s"
proof -
  have "length a < 2 ^ 16" "length b < 2 ^ 16" "(of_nat (length a) :: u16) = of_nat (length b)"
    using assms(1,2) by (auto simp: event_channels_def split: if_splits)
  then have "length a = length b" using of_nat_u16_inj by blast
  then have "map channel_code a = map channel_code b" "r = s" using assms(3) by simp_all
  then show ?thesis using inj_map_eq_map [of channel_code a b] by (simp add: inj_def channel_code_inj)
qed

fun event_text_ok :: "record_event \<Rightarrow> bool" where
  "event_text_ok (AudioEvent c _ _ _) \<longleftrightarrow> scalar_values (pc_codec c)"
| "event_text_ok (VideoEvent c _ _ _) \<longleftrightarrow> scalar_values (pc_codec c)"
| "event_text_ok (TimedEvent c t _) \<longleftrightarrow> scalar_values (pc_codec c) \<and> scalar_values t"
| "event_text_ok (DiscontinuityEvent d) \<longleftrightarrow> scalar_values (di_reason d)"

lemma event_kinds [simp]:
  "AUDIO \<noteq> VIDEO" "AUDIO \<noteq> TIMED" "AUDIO \<noteq> DISCONTINUITY" "VIDEO \<noteq> AUDIO" "VIDEO \<noteq> TIMED" "VIDEO \<noteq> DISCONTINUITY"
  "TIMED \<noteq> AUDIO" "TIMED \<noteq> VIDEO" "TIMED \<noteq> DISCONTINUITY" "DISCONTINUITY \<noteq> AUDIO" "DISCONTINUITY \<noteq> VIDEO" "DISCONTINUITY \<noteq> TIMED"
  by (simp_all add: AUDIO_def VIDEO_def TIMED_def DISCONTINUITY_def)

fun kind_of_event :: "record_event \<Rightarrow> u8" where
  "kind_of_event (AudioEvent _ _ _ _) = AUDIO" | "kind_of_event (VideoEvent _ _ _ _) = VIDEO"
| "kind_of_event (TimedEvent _ _ _) = TIMED" | "kind_of_event (DiscontinuityEvent _) = DISCONTINUITY"

lemma encode_event_kind: "encode_event e = Inr (k, bs) \<Longrightarrow> k = kind_of_event e"
  by (cases e) (auto simp: result_simps)

text \<open>
  The recorded bytes determine the event. Two events with the same record kind and the same encoded
  payload are equal in every field: codec, timing, capture timestamp, timecode, channel layout,
  dimensions, content type and media bytes.
\<close>
theorem event_encoding_injective:
  assumes "encoded_event e = Inr (k, bs)" "encoded_event e' = Inr (k, bs)" "event_text_ok e" "event_text_ok e'"
  shows "e = e'"
proof -
  have enc: "encode_event e = Inr (k, bs)" "encode_event e' = Inr (k, bs)"
    using assms(1,2) by (auto simp: encoded_event_def result_simps)
  then have kind: "kind_of_event e = kind_of_event e'" using encode_event_kind by metis
  show ?thesis
  proof (cases e)
    case (AudioEvent c rate cs p)
    then obtain c' rate' cs' p' where e': "e' = AudioEvent c' rate' cs' p'" using kind by (cases e') auto
    obtain x n b where x: "encode_common c = Inr x" "event_channels cs = Inr n" "put_blob p = Inr b"
      "bs = x @ put_u32 rate @ put_u16 n @ map channel_code cs @ b"
      using enc(1) AudioEvent by (auto simp: result_simps)
    obtain x' n' b' where x': "encode_common c' = Inr x'" "event_channels cs' = Inr n'" "put_blob p' = Inr b'"
      "bs = x' @ put_u32 rate' @ put_u16 n' @ map channel_code cs' @ b'"
      using enc(2) e' by (auto simp: result_simps)
    have "c = c'" "rate = rate'" "n = n'" and tail: "map channel_code cs @ b = map channel_code cs' @ b'"
      using trans [OF x(4) [symmetric] x'(4)] encode_common_inj [OF x(1) x'(1)] assms(3,4) AudioEvent e' by simp_all
    moreover have "cs = cs' \<and> b = b'" using event_channels_inj [OF x(2) _ tail] x'(2) \<open>n = n'\<close> by simp
    ultimately show ?thesis using AudioEvent e' put_blob_inj [OF x(3)] x'(3) by simp
  next
    case (VideoEvent c d fmt p)
    then obtain c' d' fmt' p' where e': "e' = VideoEvent c' d' fmt' p'" using kind by (cases e') auto
    obtain x b where x: "encode_common c = Inr x" "put_blob p = Inr b"
      "bs = x @ put_u32 (dim_width d) @ put_u32 (dim_height d) @ [pixel_format_code fmt] @ b"
      using enc(1) VideoEvent by (auto simp: result_simps)
    obtain x' b' where x': "encode_common c' = Inr x'" "put_blob p' = Inr b'"
      "bs = x' @ put_u32 (dim_width d') @ put_u32 (dim_height d') @ [pixel_format_code fmt'] @ b'"
      using enc(2) e' by (auto simp: result_simps)
    have "c = c'" "d = d'" "fmt = fmt'" "b = b'"
      using trans [OF x(3) [symmetric] x'(3)] encode_common_inj [OF x(1) x'(1)] assms(3,4) VideoEvent e'
      by (auto simp: pixel_format_code_inj intro: video_dimensions.equality)
    then show ?thesis using VideoEvent e' put_blob_inj [OF x(2)] x'(2) by simp
  next
    case (TimedEvent c t p)
    then obtain c' t' p' where e': "e' = TimedEvent c' t' p'" using kind by (cases e') auto
    obtain x u b where x: "encode_common c = Inr x" "put_text t = Inr u" "put_blob p = Inr b" "bs = x @ u @ b"
      using enc(1) TimedEvent by (auto simp: result_simps)
    obtain x' u' b' where x': "encode_common c' = Inr x'" "put_text t' = Inr u'" "put_blob p' = Inr b'" "bs = x' @ u' @ b'"
      using enc(2) e' by (auto simp: result_simps)
    have "c = c'" "t = t'" "b = b'"
      using trans [OF x(4) [symmetric] x'(4)] encode_common_inj [OF x(1) x'(1)] put_text_inj [OF x(2) x'(2)] assms(3,4) TimedEvent e' by auto
    then show ?thesis using TimedEvent e' put_blob_inj [OF x(3)] x'(3) by simp
  next
    case (DiscontinuityEvent d)
    then obtain d' where e': "e' = DiscontinuityEvent d'" using kind by (cases e') auto
    obtain u where u: "put_text (di_reason d) = Inr u"
      "bs = (case di_stream_id d of Some s \<Rightarrow> 1 # put_u32 s | None \<Rightarrow> [0]) @ encode_timing (di_timing d) @ u"
      using enc(1) DiscontinuityEvent by (auto simp: result_simps)
    obtain u' where u': "put_text (di_reason d') = Inr u'"
      "bs = (case di_stream_id d' of Some s \<Rightarrow> 1 # put_u32 s | None \<Rightarrow> [0]) @ encode_timing (di_timing d') @ u'"
      using enc(2) e' by (auto simp: result_simps)
    have "di_stream_id d = di_stream_id d'" "di_timing d = di_timing d'" "u @ [] = u' @ []"
      using trans [OF u(2) [symmetric] u'(2)] by (simp_all add: option_inj [of put_u32, OF put_append_inj(2)])
    then have "d = d'" using put_text_inj [OF u(1) u'(1), of "[]" "[]"] assms(3,4) DiscontinuityEvent e' by auto
    then show ?thesis using DiscontinuityEvent e' by simp
  qed
qed

definition sample_timing :: media_timing where
  "sample_timing = \<lparr>mt_original = \<lparr>ot_timestamp = 0, ot_time_base = \<lparr>numerator = 1, denominator = 1000\<rparr>\<rparr>, mt_presentation = 0,
     mt_duration = 40, mt_clock_domain = 1, mt_sequence = 1, mt_flags = 0, mt_capture = None, mt_timecode = None\<rparr>"

definition sample_discontinuity :: record_event where
  "sample_discontinuity = DiscontinuityEvent \<lparr>di_stream_id = Some 7, di_timing = sample_timing, di_reason = [99, 117, 116]\<rparr>"

theorem event_encoding_injective_witness:
  "\<exists>k bs. encoded_event sample_discontinuity = Inr (k, bs) \<and> sample_discontinuity = sample_discontinuity"
proof -
  have enc: "\<exists>k bs. encoded_event sample_discontinuity = Inr (k, bs)"
    by (simp add: encoded_event_def validate_event_def sample_discontinuity_def sample_timing_def text_len_def str_len_def utf8_len_def
        usize_checked_def checked_sum_def timing_len_def MAX_ENCODED_FRAME_PAYLOAD_def MAX_PAYLOAD_BYTES_def put_text_def)
  then obtain k bs where "encoded_event sample_discontinuity = Inr (k, bs)" by blast
  moreover have "event_text_ok sample_discontinuity" by (simp add: sample_discontinuity_def scalar_values_def)
  ultimately show ?thesis using event_encoding_injective [of sample_discontinuity k bs sample_discontinuity] by blast
qed

lemma checked_sum_from_Inr: "checked_sum_from acc ns = Inr n \<Longrightarrow> n = acc + sum_list ns"
proof (induction ns arbitrary: acc)
  case (Cons m ns)
  then obtain acc' where "usize_checked (acc + m) = Some acc'" "checked_sum_from acc' ns = Inr n" by (auto simp: and_then_Inr ok_or_Inr)
  then show ?case using Cons.IH [of acc'] by (simp add: usize_checked_Some)
qed simp

lemma checked_sum_Inr: "checked_sum ns = Inr n \<Longrightarrow> n = sum_list ns"
  using checked_sum_from_Inr [of 0 ns n] by (simp add: checked_sum_def)

lemma put_text_len: "text_len v = Inr n \<Longrightarrow> \<exists>x. put_text v = Inr x \<and> length x = n"
  by (auto simp: text_len_def put_text_def result_simps checked_simps split: if_splits)

lemma put_blob_len: "blob_len (length v) = Inr n \<Longrightarrow> \<exists>x. put_blob v = Inr x \<and> length x = n"
  by (auto simp: blob_len_def put_blob_def result_simps checked_simps split: if_splits)

lemma length_encode_timing: "length (encode_timing t) = timing_len t"
  by (auto simp: encode_timing_def encode_timestamp_def timing_len_def split: option.split)

lemma encode_common_len: "common_len c = Inr n \<Longrightarrow> \<exists>x. encode_common c = Inr x \<and> length x = n"
proof -
  assume "common_len c = Inr n"
  then obtain t where t: "text_len (pc_codec c) = Inr t"
    and n: "n = t + 8 + 4 + 1 + (if pc_channel_index c \<noteq> None then 1 else 0) * 2 + timing_len (pc_timing c) + 16 + 1"
    by (auto simp: common_len_def result_simps dest!: checked_sum_Inr)
  obtain x where x: "put_text (pc_codec c) = Inr x" "length x = t" using put_text_len [OF t] by blast
  show ?thesis using x n by (auto simp: encode_common_def length_encode_timing encode_timestamp_def split: option.split)
qed

text \<open>
  Validation predicts the encoding. Every event that passes validation is encoded, the encoded payload has
  exactly the length that validation computed field by field, and it fits into one record of a segment.
\<close>
theorem validated_events_encode:
  assumes "validate_event e = Inr ()"
  shows "\<exists>bs. encoded_event e = Inr (kind_of_event e, bs) \<and> event_len e = Inr (length bs)
    \<and> frame_ok MAX_ENCODED_FRAME_PAYLOAD True (kind_of_event e, bs)"
proof -
  obtain n where n: "event_len e = Inr n" "n \<le> MAX_ENCODED_FRAME_PAYLOAD"
    using assms by (auto simp: validate_event_def result_simps split: if_splits)
  have "\<exists>bs. encode_event e = Inr (kind_of_event e, bs) \<and> length bs = n"
  proof (cases e)
    case (AudioEvent c rate cs p)
    then obtain l m b where "common_len c = Inr l" "event_channels cs = Inr m" "blob_len (length p) = Inr b" "n = l + 4 + 2 + unat m + b"
      using n(1) by (auto simp: result_simps dest!: checked_sum_Inr)
    moreover have "unat m = length cs"
      using calculation(2) by (auto simp: event_channels_def unat_of_nat take_bit_nat_eq_self split: if_splits)
    ultimately show ?thesis using AudioEvent encode_common_len [of c l] put_blob_len [of p b] by auto
  next
    case (VideoEvent c d fmt p)
    then obtain l b where "common_len c = Inr l" "blob_len (length p) = Inr b" "n = l + 4 + 4 + 1 + b"
      using n(1) by (auto simp: result_simps dest!: checked_sum_Inr)
    then show ?thesis using VideoEvent encode_common_len [of c l] put_blob_len [of p b] by auto
  next
    case (TimedEvent c t p)
    then obtain l u b where "common_len c = Inr l" "text_len t = Inr u" "blob_len (length p) = Inr b" "n = l + u + b"
      using n(1) by (auto simp: result_simps dest!: checked_sum_Inr)
    then show ?thesis using TimedEvent encode_common_len [of c l] put_text_len [of t u] put_blob_len [of p b] by auto
  next
    case (DiscontinuityEvent d)
    then obtain u where "text_len (di_reason d) = Inr u"
      "n = 1 + (if di_stream_id d \<noteq> None then 1 else 0) * 4 + timing_len (di_timing d) + u"
      using n(1) by (auto simp: result_simps dest!: checked_sum_Inr)
    then show ?thesis using DiscontinuityEvent put_text_len [of "di_reason d" u]
      by (auto simp: length_encode_timing split: option.split)
  qed
  then show ?thesis using assms n by (cases e) (auto simp: encoded_event_def frame_ok_def)
qed

theorem validated_events_encode_witness:
  "validate_event sample_discontinuity = Inr ()
   \<and> (\<exists>bs. encoded_event sample_discontinuity = Inr (kind_of_event sample_discontinuity, bs)
        \<and> event_len sample_discontinuity = Inr (length bs)
        \<and> frame_ok MAX_ENCODED_FRAME_PAYLOAD True (kind_of_event sample_discontinuity, bs))"
proof -
  have "validate_event sample_discontinuity = Inr ()"
    by (simp add: validate_event_def sample_discontinuity_def sample_timing_def text_len_def str_len_def utf8_len_def
        usize_checked_def checked_sum_def timing_len_def MAX_ENCODED_FRAME_PAYLOAD_def MAX_PAYLOAD_BYTES_def)
  then show ?thesis using validated_events_encode by blast
qed

end
