(* ===== verification/Recorder_Storage.thy ===== *)
theory Recorder_Storage
  imports Record_Scan BTree "HOL-Library.Char_ord" "HOL-Library.List_Lexorder"
begin

text \<open>
  The storage below the recorders of \<open>crates/media/fm-record\<close>, as far as \<open>format.rs\<close> and
  \<open>coordinator.rs\<close> use it, and the functions of these files that write records.

  The file system is an explicit state: the directories below the root, each with whether its entry in
  the root is durable, and the files, each with its bytes, the length of the prefix that was synchronized
  and whether its directory entry is durable. Every operation that the code performs first takes the next
  element of a list of faults: an operation can fail, with or without its effect, and a write that
  fails can leave any prefix of its bytes behind. All I/O failures the code handles, in any order, are
  therefore inputs of the model. A crash loses what was not synchronized.
\<close>

section \<open>Files and faults\<close>

record stored_file =
  fl_bytes :: "u8 list"
  fl_synced :: nat
  fl_entry :: bool

datatype io_fault = NoFault | Fault nat io_error

record world =
  w_dirs :: "(string, bool) btree"
  w_files :: "(file_path, stored_file) btree"
  w_faults :: "io_fault list"

definition next_fault :: "world \<Rightarrow> io_fault \<times> world" where
  "next_fault w = (case w_faults w of [] \<Rightarrow> (NoFault, w) | f # fs \<Rightarrow> (f, w\<lparr>w_faults := fs\<rparr>))"

definition get_file :: "world \<Rightarrow> file_path \<Rightarrow> stored_file option" where
  "get_file w p = map_of (w_files w) p"

definition put_file :: "file_path \<Rightarrow> stored_file \<Rightarrow> world \<Rightarrow> world" where
  "put_file p f w = w\<lparr>w_files := bt_insert p f (w_files w)\<rparr>"

definition update_file :: "file_path \<Rightarrow> (stored_file \<Rightarrow> stored_file) \<Rightarrow> world \<Rightarrow> world" where
  "update_file p g w = (case get_file w p of None \<Rightarrow> w | Some f \<Rightarrow> put_file p (g f) w)"

text \<open>An operation succeeds with its effect, or fails without it or after it.\<close>

definition io_step :: "file_path \<Rightarrow> (world \<Rightarrow> world) \<Rightarrow> world \<Rightarrow> (recorder_error + unit) \<times> world" where
  "io_step p effect w =
     (case next_fault w of
        (NoFault, w') \<Rightarrow> (Inr (), effect w')
      | (Fault n e, w') \<Rightarrow> (Inl (Io p e), if n = 0 then w' else effect w'))"

definition open_append :: "file_path \<Rightarrow> world \<Rightarrow> (recorder_error + unit) \<times> world" where
  "open_append p = io_step p (\<lambda>w. if get_file w p = None then put_file p \<lparr>fl_bytes = [], fl_synced = 0, fl_entry = False\<rparr> w else w)"

definition sync_all :: "file_path \<Rightarrow> world \<Rightarrow> (recorder_error + unit) \<times> world" where
  "sync_all p = io_step p (update_file p (\<lambda>f. f\<lparr>fl_synced := length (fl_bytes f)\<rparr>))"

text \<open>
  Synchronizing a directory makes the entries in it durable: of the files, or of the directories for
  the root, which is the empty name.
\<close>

definition sync_directory :: "string \<Rightarrow> world \<Rightarrow> (recorder_error + unit) \<times> world" where
  "sync_directory d = io_step (d, [])
     (\<lambda>w. if d = [] then w\<lparr>w_dirs := map (\<lambda>(n, _). (n, True)) (w_dirs w)\<rparr>
           else w\<lparr>w_files := map (\<lambda>(p, f). (p, if fst p = d then f\<lparr>fl_entry := True\<rparr> else f)) (w_files w)\<rparr>)"

definition write_all :: "file_path \<Rightarrow> u8 list \<Rightarrow> world \<Rightarrow> (recorder_error + unit) \<times> world" where
  "write_all p bs w =
     (case next_fault w of
        (NoFault, w') \<Rightarrow> (Inr (), update_file p (\<lambda>f. f\<lparr>fl_bytes := fl_bytes f @ bs\<rparr>) w')
      | (Fault n e, w') \<Rightarrow> (Inl (Io p e), update_file p (\<lambda>f. f\<lparr>fl_bytes := fl_bytes f @ take n bs\<rparr>) w'))"

definition truncate_file :: "file_path \<Rightarrow> u64 \<Rightarrow> world \<Rightarrow> (recorder_error + unit) \<times> world" where
  "truncate_file p n = io_step p (update_file p (\<lambda>f. f\<lparr>fl_bytes := take (unat n) (fl_bytes f),
     fl_synced := length (take (unat n) (fl_bytes f))\<rparr>))"

definition remove_file :: "file_path \<Rightarrow> world \<Rightarrow> (recorder_error + unit) \<times> world" where
  "remove_file p = io_step p (\<lambda>w. w\<lparr>w_files := bt_remove p (w_files w)\<rparr>)"

definition io_then ::
  "(world \<Rightarrow> (recorder_error + 'a) \<times> world) \<Rightarrow> (world \<Rightarrow> (recorder_error + 'b) \<times> world) \<Rightarrow> world \<Rightarrow> (recorder_error + 'b) \<times> world" where
  "io_then f g w = (case f w of (Inl e, w1) \<Rightarrow> (Inl e, w1) | (Inr _, w1) \<Rightarrow> g w1)"

text \<open>A directory is created, then its parent is synchronized, then itself; one that exists only itself.\<close>

definition create_dir_all_durable :: "string \<Rightarrow> world \<Rightarrow> (recorder_error + unit) \<times> world" where
  "create_dir_all_durable d w =
     (if map_of (w_dirs w) d = None
      then io_then (io_step (d, []) (\<lambda>w. w\<lparr>w_dirs := bt_insert d False (w_dirs w)\<rparr>)) (io_then (sync_directory []) (sync_directory d)) w
      else sync_directory d w)"

section \<open>Writing records\<close>

definition write_frame :: "file_path \<Rightarrow> u8 \<Rightarrow> u8 list \<Rightarrow> usize \<Rightarrow> world \<Rightarrow> (recorder_error + u64) \<times> world" where
  "write_frame p kind payload maximum w =
     (if length payload > maximum then (Inl (Io p (IoInvalidInput ''record payload exceeds format limit'')), w)
      else io_then (write_all p (frame_header kind payload)) (io_then (write_all p payload)
        (\<lambda>w. (Inr (of_nat HEADER_LEN + of_nat (length payload)), w))) w)"

definition write_manifest_frame :: "file_path \<Rightarrow> manifest_entry \<Rightarrow> world \<Rightarrow> (recorder_error + unit) \<times> world" where
  "write_manifest_frame p entry =
     io_then (write_frame p (fst (encode_manifest entry)) (snd (encode_manifest entry)) MAX_MANIFEST_PAYLOAD) (sync_all p)"

text \<open>The records of a batch in order, then one synchronization: the writes of \<open>flush\<close>.\<close>

fun write_frames :: "file_path \<Rightarrow> (u8 \<times> u8 list) list \<Rightarrow> world \<Rightarrow> (recorder_error + unit) \<times> world" where
  "write_frames p [] w = (Inr (), w)"
| "write_frames p ((kind, payload) # fs) w =
     io_then (write_frame p kind payload MAX_ENCODED_FRAME_PAYLOAD) (write_frames p fs) w"

definition commit_batch :: "file_path \<Rightarrow> (u8 \<times> u8 list) list \<Rightarrow> world \<Rightarrow> (recorder_error + unit) \<times> world" where
  "commit_batch p batch = io_then (write_frames p batch) (sync_all p)"

section \<open>Effects on one directory\<close>

text \<open>The files of a directory by name, and what an operation on one directory leaves alone.\<close>

definition view :: "world \<Rightarrow> string \<Rightarrow> string \<Rightarrow> stored_file option" where
  "view w d n = get_file w (d, n)"

definition dirs_kept :: "string \<Rightarrow> world \<Rightarrow> world \<Rightarrow> bool" where
  "dirs_kept d w w' \<longleftrightarrow> (\<forall>d'. (map_of (w_dirs w) d' = Some True \<longrightarrow> map_of (w_dirs w') d' = Some True)
     \<and> (map_of (w_dirs w) d' \<noteq> None \<longrightarrow> map_of (w_dirs w') d' \<noteq> None)
     \<and> (d' \<noteq> d \<longrightarrow> map_of (w_dirs w) d' = None \<longrightarrow> map_of (w_dirs w') d' = None))"

definition only_dir :: "string \<Rightarrow> world \<Rightarrow> world \<Rightarrow> bool" where
  "only_dir d w w' \<longleftrightarrow> (\<forall>d'. d' \<noteq> d \<longrightarrow> view w' d' = view w d') \<and> dirs_kept d w w'"

lemma dirs_kept_same: "w_dirs w' = w_dirs w \<Longrightarrow> dirs_kept d w w'"
  by (simp add: dirs_kept_def)

lemma only_dir_refl [simp]: "only_dir d w w"
  by (simp add: only_dir_def dirs_kept_def)

lemma only_dir_trans: "only_dir d w w1 \<Longrightarrow> only_dir d w1 w2 \<Longrightarrow> only_dir d w w2"
  by (auto simp: only_dir_def dirs_kept_def)

lemma next_fault_same: "next_fault w = (x, w') \<Longrightarrow> w_dirs w' = w_dirs w \<and> w_files w' = w_files w"
  by (auto simp: next_fault_def split: list.splits)

lemma next_fault_view: "next_fault w = (x, w') \<Longrightarrow> view w' = view w"
  by (auto simp: fun_eq_iff view_def get_file_def dest!: next_fault_same)

lemma view_put: "view (put_file (d, n) f w) = (view w)(d := (view w d)(n \<mapsto> f))"
  by (auto simp: fun_eq_iff view_def get_file_def put_file_def map_of_bt_insert)

lemma view_update: "view (update_file (d, n) g w) = (view w)(d := (view w d)(n := map_option g (view w d n)))"
  by (auto simp: update_file_def fun_eq_iff view_def get_file_def put_file_def map_of_bt_insert split: option.split)

lemma view_remove: "view (w\<lparr>w_files := bt_remove (d, n) (w_files w)\<rparr>) = (view w)(d := (view w d)(n := None))"
  by (auto simp: fun_eq_iff view_def get_file_def map_of_bt_remove)

lemma dirs_put [simp]: "w_dirs (put_file p f w) = w_dirs w" "w_dirs (update_file p g w) = w_dirs w"
  by (simp_all add: put_file_def update_file_def split: option.split)

text \<open>The effect of one step: the old files when it failed early, the new ones otherwise.\<close>

lemma io_step_cases:
  assumes "io_step p effect w = (r, w')"
  obtains (early) w0 where "w' = w0" "isl r" "view w0 = view w" "w_dirs w0 = w_dirs w"
  | (full) w0 where "w' = effect w0" "view w0 = view w" "w_dirs w0 = w_dirs w" "w_files w0 = w_files w"
proof -
  obtain x w0 where n: "next_fault w = (x, w0)" by force
  then have "view w0 = view w" "w_dirs w0 = w_dirs w" "w_files w0 = w_files w" using next_fault_view next_fault_same by blast+
  then show ?thesis using assms n that by (cases x) (auto simp: io_step_def split: if_splits)
qed

definition dir_step :: "string \<Rightarrow> ((string \<Rightarrow> stored_file option) \<Rightarrow> string \<Rightarrow> stored_file option) \<Rightarrow> (world \<Rightarrow> (recorder_error + unit) \<times> world) \<Rightarrow> bool" where
  "dir_step d effect f \<longleftrightarrow> (\<forall>w r w'. f w = (r, w') \<longrightarrow> only_dir d w w' \<and> (view w' d = effect (view w d) \<or> isl r \<and> view w' d = view w d))"

lemma dir_stepI:
  assumes "\<And>w. only_dir d w (effect w)" "\<And>w. view (effect w) d = g (view w d)"
  shows "dir_step d g (io_step p effect)"
  unfolding dir_step_def
proof (intro allI impI)
  fix w r w' assume *: "io_step p effect w = (r, w')"
  then show "only_dir d w w' \<and> (view w' d = g (view w d) \<or> isl r \<and> view w' d = view w d)"
  proof (cases rule: io_step_cases)
    case (full w0)
    then show ?thesis using assms(1) [of w0] assms(2) [of w0] by (simp add: only_dir_def dirs_kept_def)
  qed (simp add: only_dir_def dirs_kept_same)
qed

lemma dir_step_view: "dir_step d g f \<Longrightarrow> f w = (r, w') \<Longrightarrow> only_dir d w w' \<and> (view w' d = g (view w d) \<or> isl r \<and> view w' d = view w d)"
  by (simp add: dir_step_def)

definition opened :: "string \<Rightarrow> (string \<Rightarrow> stored_file option) \<Rightarrow> string \<Rightarrow> stored_file option" where
  "opened n v = (if v n = None then v(n \<mapsto> \<lparr>fl_bytes = [], fl_synced = 0, fl_entry = False\<rparr>) else v)"

definition synced :: "string \<Rightarrow> (string \<Rightarrow> stored_file option) \<Rightarrow> string \<Rightarrow> stored_file option" where
  "synced n v = v(n := map_option (\<lambda>f. f\<lparr>fl_synced := length (fl_bytes f)\<rparr>) (v n))"

definition entries_synced :: "(string \<Rightarrow> stored_file option) \<Rightarrow> string \<Rightarrow> stored_file option" where
  "entries_synced v n = map_option (\<lambda>f. f\<lparr>fl_entry := True\<rparr>) (v n)"

definition appended :: "string \<Rightarrow> u8 list \<Rightarrow> (string \<Rightarrow> stored_file option) \<Rightarrow> string \<Rightarrow> stored_file option" where
  "appended n bs v = v(n := map_option (\<lambda>f. f\<lparr>fl_bytes := fl_bytes f @ bs\<rparr>) (v n))"

lemma open_append_step: "dir_step d (opened n) (open_append (d, n))"
  unfolding open_append_def
  by (rule dir_stepI) (auto simp: only_dir_def dirs_kept_same view_put opened_def, auto simp: view_def)

lemma sync_all_step: "dir_step d (synced n) (sync_all (d, n))"
  unfolding sync_all_def by (rule dir_stepI) (auto simp: only_dir_def dirs_kept_same view_update synced_def)

lemma map_of_map_values: "map_of (map (\<lambda>(k, v). (k, g k v)) m) k = map_option (g k) (map_of m k)"
  by (induction m) auto

lemma sync_directory_step: "d \<noteq> [] \<Longrightarrow> dir_step d entries_synced (sync_directory d)"
  unfolding sync_directory_def
  by (rule dir_stepI) (auto simp: only_dir_def dirs_kept_same fun_eq_iff entries_synced_def view_def get_file_def map_of_map_values option.map_ident)

lemma truncate_file_step:
  "dir_step d (\<lambda>v. v(n := map_option (\<lambda>f. f\<lparr>fl_bytes := take (unat k) (fl_bytes f), fl_synced := length (take (unat k) (fl_bytes f))\<rparr>) (v n)))
    (truncate_file (d, n) k)"
  unfolding truncate_file_def by (rule dir_stepI) (auto simp: only_dir_def dirs_kept_same view_update)

lemma remove_file_step: "dir_step d (\<lambda>v. v(n := None)) (remove_file (d, n))"
  unfolding remove_file_def by (rule dir_stepI) (auto simp: only_dir_def dirs_kept_same view_remove)

text \<open>A write appends a prefix of its bytes, and all of them when it succeeds.\<close>

definition dir_write :: "string \<Rightarrow> string \<Rightarrow> u8 list \<Rightarrow> (world \<Rightarrow> (recorder_error + 'a) \<times> world) \<Rightarrow> bool" where
  "dir_write d n bs f \<longleftrightarrow> (\<forall>w r w'. f w = (r, w') \<longrightarrow> only_dir d w w'
     \<and> (\<exists>m. view w' d = appended n (take m bs) (view w d) \<and> (\<not> isl r \<longrightarrow> length bs \<le> m)))"

lemma dir_writeD:
  assumes "dir_write d n bs f" "f w = (r, w')"
  obtains m where "only_dir d w w'" "view w' d = appended n (take m bs) (view w d)" "\<not> isl r \<Longrightarrow> length bs \<le> m"
  using assms unfolding dir_write_def by blast

lemma appended_append: "appended n bs (appended n as v) = appended n (as @ bs) v"
  by (auto simp: appended_def option.map_comp comp_def)

lemma appended_Nil [simp]: "appended n [] v = v"
  by (cases "v n") (auto simp: appended_def)

lemma write_all_write: "dir_write d n bs (write_all (d, n) bs)"
  unfolding dir_write_def
proof (intro allI impI)
  fix w r w' assume *: "write_all (d, n) bs w = (r, w')"
  obtain x w0 where n: "next_fault w = (x, w0)" by force
  have same: "view w0 = view w" "w_dirs w0 = w_dirs w" using n next_fault_view next_fault_same by blast+
  show "only_dir d w w' \<and> (\<exists>m. view w' d = appended n (take m bs) (view w d) \<and> (\<not> isl r \<longrightarrow> length bs \<le> m))"
    using * n same
    by (cases x) (auto simp: write_all_def only_dir_def dirs_kept_same view_update appended_def intro: exI [of _ "length bs"])
qed

lemma dir_write_then:
  assumes "dir_write d n as f" "dir_write d n bs g"
  shows "dir_write d n (as @ bs) (io_then f g)"
  unfolding dir_write_def
proof (intro allI impI)
  fix w r w' assume *: "io_then f g w = (r, w')"
  obtain r1 w1 where f: "f w = (r1, w1)" by force
  from dir_writeD [OF assms(1) f] obtain m where
    m: "only_dir d w w1" "view w1 d = appended n (take m as) (view w d)" "\<not> isl r1 \<Longrightarrow> length as \<le> m" by blast
  show "only_dir d w w' \<and> (\<exists>m. view w' d = appended n (take m (as @ bs)) (view w d) \<and> (\<not> isl r \<longrightarrow> length (as @ bs) \<le> m))"
  proof (cases r1)
    case (Inl e)
    then show ?thesis using * f m by (auto simp: io_then_def intro!: exI [of _ "min m (length as)"] simp: min_def)
  next
    case (Inr a)
    then have g: "g w1 = (r, w')" using * f by (simp add: io_then_def)
    from dir_writeD [OF assms(2) g] obtain k where
      k: "only_dir d w1 w'" "view w' d = appended n (take k bs) (view w1 d)" "\<not> isl r \<Longrightarrow> length bs \<le> k" by blast
    then show ?thesis using m Inr
      by (auto simp: appended_append intro: only_dir_trans intro!: exI [of _ "length as + k"])
  qed
qed

lemma dir_write_done: "dir_write d n [] (\<lambda>w. (Inr a, w))"
  by (auto simp: dir_write_def)

lemma write_frame_write: "length payload \<le> maximum \<Longrightarrow> dir_write d n (frame_bytes k payload) (write_frame (d, n) k payload maximum)"
  using dir_write_then [OF write_all_write dir_write_then [OF write_all_write dir_write_done], of d n "frame_header k payload" payload]
  by (simp add: write_frame_def [abs_def] frame_bytes_def)

lemma write_frames_write: "list_all (frame_ok MAX_ENCODED_FRAME_PAYLOAD True) fs \<Longrightarrow> dir_write d n (log_bytes fs) (write_frames (d, n) fs)"
proof (induction fs)
  case Nil
  then show ?case using dir_write_done by (simp add: write_frames.simps [abs_def])
next
  case (Cons f fs)
  obtain k p where f: "f = (k, p)" by (cases f)
  have "write_frames (d, n) (f # fs) = io_then (write_frame (d, n) k p MAX_ENCODED_FRAME_PAYLOAD) (write_frames (d, n) fs)"
    by (rule ext) (simp add: f)
  moreover have "length p \<le> MAX_ENCODED_FRAME_PAYLOAD" using Cons.prems by (simp add: f frame_ok_def)
  ultimately show ?case using Cons f dir_write_then [OF write_frame_write Cons.IH] by simp
qed

text \<open>A write followed by a synchronization of the same file.\<close>

lemma write_then_sync:
  assumes "dir_write d n bs f" "io_then f (sync_all (d, n)) w = (r, w')"
  shows "only_dir d w w' \<and> (view w' d = synced n (appended n bs (view w d))
    \<or> isl r \<and> (\<exists>m. view w' d = appended n (take m bs) (view w d)))"
proof -
  obtain r1 w1 where f: "f w = (r1, w1)" by force
  from dir_writeD [OF assms(1) f] obtain m where
    m: "only_dir d w w1" "view w1 d = appended n (take m bs) (view w d)" "\<not> isl r1 \<Longrightarrow> length bs \<le> m" by blast
  show ?thesis
  proof (cases r1)
    case (Inl e)
    then show ?thesis using assms(2) f m by (auto simp: io_then_def)
  next
    case (Inr a)
    then have "sync_all (d, n) w1 = (r, w')" using assms(2) f by (simp add: io_then_def)
    then have "only_dir d w1 w' \<and> (view w' d = synced n (view w1 d) \<or> isl r \<and> view w' d = view w1 d)"
      by (rule dir_step_view [OF sync_all_step])
    then show ?thesis using m Inr by (auto intro: only_dir_trans exI [of _ "length bs"])
  qed
qed

lemma length_put_option: "length (put_option_u64 v) \<le> 9"
  by (cases v) auto

lemma manifest_payload_fits: "length (snd (encode_manifest e)) \<le> MAX_MANIFEST_PAYLOAD"
proof (cases e)
  case (EntryStart r c i)
  then show ?thesis
    using length_put_option [of "sp_max_frames (rc_segments c)"] length_put_option [of "sp_max_bytes (rc_segments c)"]
    by (simp add: MAX_MANIFEST_PAYLOAD_def)
qed (simp_all add: MAX_MANIFEST_PAYLOAD_def)

lemma write_manifest_frame_effect:
  "write_manifest_frame (d, n) e w = (r, w') \<Longrightarrow> only_dir d w w'
    \<and> (view w' d = synced n (appended n (log_bytes [encode_manifest e]) (view w d))
       \<or> isl r \<and> (\<exists>m. view w' d = appended n (take m (log_bytes [encode_manifest e])) (view w d)))"
  unfolding write_manifest_frame_def
  using write_then_sync [OF write_frame_write [OF manifest_payload_fits [of e], of d n "fst (encode_manifest e)"], of w r w']
  by (cases "encode_manifest e") simp

lemma commit_batch_effect:
  "list_all (frame_ok MAX_ENCODED_FRAME_PAYLOAD True) fs \<Longrightarrow> commit_batch (d, n) fs w = (r, w') \<Longrightarrow> only_dir d w w'
    \<and> (view w' d = synced n (appended n (log_bytes fs) (view w d))
       \<or> isl r \<and> (\<exists>m. view w' d = appended n (take m (log_bytes fs)) (view w d)))"
  unfolding commit_batch_def by (rule write_then_sync [OF write_frames_write])

lemma map_of_all_true: "map_of (map (\<lambda>(n, _). (n, True)) m) k = map_option (\<lambda>_. True) (map_of m k)"
  by (induction m) auto

lemma root_sync_effect:
  assumes "sync_directory [] w = (r, w')"
  shows "view w' = view w \<and> (\<forall>d. map_of (w_dirs w') d = map_of (w_dirs w) d \<or> map_of (w_dirs w') d = map_option (\<lambda>_. True) (map_of (w_dirs w) d))"
  using assms unfolding sync_directory_def
proof (cases rule: io_step_cases)
  case (full w0)
  then show ?thesis by (simp add: map_of_all_true fun_eq_iff view_def get_file_def)
qed simp

lemma only_dir_root: "sync_directory [] w = (r, w') \<Longrightarrow> only_dir d w w' \<and> view w' d = view w d"
  using root_sync_effect [of w r w'] by (smt (verit) only_dir_def dirs_kept_def option.map_disc_iff option.simps(9))

lemma create_dir_effect:
  assumes "create_dir_all_durable d w = (r, w')" "d \<noteq> []"
  shows "only_dir d w w' \<and> (view w' d = view w d \<or> view w' d = entries_synced (view w d))
    \<and> (\<not> isl r \<longrightarrow> map_of (w_dirs w') d \<noteq> None)"
proof (cases "map_of (w_dirs w) d = None")
  case False
  then have "sync_directory d w = (r, w')" using assms by (auto simp: create_dir_all_durable_def)
  then show ?thesis using dir_step_view [OF sync_directory_step [OF assms(2)]] False by (auto simp: only_dir_def dirs_kept_def)
next
  case True
  let ?make = "io_step (d, []) (\<lambda>w. w\<lparr>w_dirs := bt_insert d False (w_dirs w)\<rparr>)"
  obtain r1 w1 where m: "?make w = (r1, w1)" by force
  then have 1: "only_dir d w w1 \<and> view w1 d = view w d \<and> (\<not> isl r1 \<longrightarrow> map_of (w_dirs w1) d \<noteq> None)"
  proof (cases rule: io_step_cases)
    case (full w0)
    have "view w1 = view w" using full by (simp add: fun_eq_iff view_def get_file_def)
    then show ?thesis using full True by (auto simp: only_dir_def dirs_kept_def map_of_bt_insert)
  qed (auto simp: only_dir_def dirs_kept_same)
  obtain r2 w2 where p: "sync_directory [] w1 = (r2, w2)" by force
  note 2 = only_dir_root [OF p, of d]
  obtain r3 w3 where q: "sync_directory d w2 = (r3, w3)" by force
  note 3 = dir_step_view [OF sync_directory_step [OF assms(2)] q]
  have "r = r1 \<and> w' = w1 \<and> isl r1 \<or> \<not> isl r1 \<and> (r = r2 \<and> w' = w2 \<and> isl r2 \<or> r = r3 \<and> w' = w3)"
    using assms(1) True m p q by (cases r1; cases r2) (auto simp: create_dir_all_durable_def io_then_def)
  then show ?thesis
    using 1 2 3 only_dir_trans [of d w w1 w2] only_dir_trans [of d w w2 w3] by (auto simp: only_dir_def dirs_kept_def)
qed

end
