(* ===== verification/Recorder.thy ===== *)
theory Recorder
  imports Recorder_Storage
begin

text \<open>
  The recorder coordinator of \<open>crates/media/fm-record\<close> (\<open>coordinator.rs\<close>): bounded queues, durable appends to
  segment files, rotation, the manifest of actions, recovery and reconciliation after a restart. A
  writer is the path of the file it appends to; the text of a failure is the error itself.
\<close>

section \<open>The coordinator\<close>

record recorder =
  re_id :: recorder_id
  re_directory :: string
  re_state :: recorder_state
  re_config :: "recorder_config option"
  re_queue :: "record_event list"
  re_queue_bytes :: usize
  re_manifest :: "file_path option"
  re_segment :: "file_path option"
  re_segment_index :: "u64 option"
  re_segment_frames :: u64
  re_segment_bytes :: u64
  re_failure :: "recorder_error option"

definition recorder_failed :: "recorder_id \<Rightarrow> string \<Rightarrow> recorder_error \<Rightarrow> recorder" where
  "recorder_failed i d e =
     \<lparr>re_id = i, re_directory = d, re_state = Failed, re_config = None, re_queue = [], re_queue_bytes = 0, re_manifest = None,
      re_segment = None, re_segment_index = None, re_segment_frames = 0, re_segment_bytes = 0, re_failure = Some e\<rparr>"

record coordinator =
  co_recorders :: "(recorder_id, recorder) btree"
  co_receipts :: "(action_receipt_id, recorder_id \<times> action_kind) btree"
  co_world :: world

type_synonym 'a action = "(recorder_error, 'a, coordinator) meth"

definition lift_io :: "(world \<Rightarrow> (recorder_error + 'a) \<times> world) \<Rightarrow> 'a action" where
  "lift_io f s = (case f (co_world s) of (r, w) \<Rightarrow> (r, s\<lparr>co_world := w\<rparr>))"

definition m_bind :: "'a action \<Rightarrow> ('a \<Rightarrow> 'b action) \<Rightarrow> 'b action" where
  "m_bind m f s = (case m s of (Inl e, s') \<Rightarrow> (Inl e, s') | (Inr a, s') \<Rightarrow> f a s')"

definition m_result :: "recorder_error + 'a \<Rightarrow> 'a action" where
  "m_result r s = (r, s)"

definition on_error :: "'a action \<Rightarrow> (recorder_error \<Rightarrow> coordinator \<Rightarrow> coordinator) \<Rightarrow> 'a action" where
  "on_error m h s = (case m s of (Inl e, s') \<Rightarrow> (Inl e, h e s') | (Inr a, s') \<Rightarrow> (Inr a, s'))"

definition get_recorder :: "coordinator \<Rightarrow> recorder_id \<Rightarrow> recorder option" where
  "get_recorder s i = map_of (co_recorders s) i"

definition put_recorder :: "recorder_id \<Rightarrow> recorder \<Rightarrow> coordinator \<Rightarrow> coordinator" where
  "put_recorder i r s = s\<lparr>co_recorders := bt_insert i r (co_recorders s)\<rparr>"

definition update_recorder :: "recorder_id \<Rightarrow> (recorder \<Rightarrow> recorder) \<Rightarrow> coordinator \<Rightarrow> coordinator" where
  "update_recorder i f s = (case get_recorder s i of None \<Rightarrow> s | Some r \<Rightarrow> put_recorder i (f r) s)"

definition mark_failed :: "recorder_id \<Rightarrow> recorder_error \<Rightarrow> coordinator \<Rightarrow> coordinator" where
  "mark_failed i e = update_recorder i (\<lambda>r. r\<lparr>re_state := Failed, re_failure := Some e, re_manifest := None, re_segment := None\<rparr>)"

definition mark_or_insert_failed :: "recorder_id \<Rightarrow> string \<Rightarrow> recorder_error \<Rightarrow> coordinator \<Rightarrow> coordinator" where
  "mark_or_insert_failed i d e s =
     (if get_recorder s i = None then put_recorder i (recorder_failed i d e) s else mark_failed i e s)"

fun hex_digits :: "nat \<Rightarrow> nat \<Rightarrow> string" where
  "hex_digits 0 n = []"
| "hex_digits (Suc k) n = hex_digits k (n div 16) @ [char_of (if n mod 16 < 10 then 48 + n mod 16 else 87 + n mod 16)]"

definition recorder_directory :: "recorder_id \<Rightarrow> string" where
  "recorder_directory i = ''recorder-'' @ hex_digits 32 (unat i)"

definition segment_path :: "string \<Rightarrow> u64 \<Rightarrow> file_path" where
  "segment_path d i = (d, segment_name i)"

definition receipt_outcome :: "recorder_id \<Rightarrow> action_receipt_id \<Rightarrow> action_kind \<Rightarrow> coordinator \<Rightarrow> recorder_error + action_outcome option" where
  "receipt_outcome i rcpt kind s =
     (case map_of (co_receipts s) rcpt of
        Some stored \<Rightarrow> if stored = (i, kind) then Inr (Some AlreadyApplied) else Inl (ReceiptConflict rcpt)
      | None \<Rightarrow> Inr None)"

definition insert_receipt :: "action_receipt_id \<Rightarrow> recorder_id \<times> action_kind \<Rightarrow> coordinator \<Rightarrow> coordinator" where
  "insert_receipt rcpt a s = s\<lparr>co_receipts := bt_insert rcpt a (co_receipts s)\<rparr>"

text \<open>Opening the files of a new segment and writing the action, in the order of \<open>start\<close>.\<close>

definition start_files :: "recorder_id \<Rightarrow> string \<Rightarrow> u64 \<Rightarrow> manifest_entry \<Rightarrow> unit action" where
  "start_files i d index entry =
     m_bind (on_error (lift_io (open_append (segment_path d index))) (mark_or_insert_failed i d)) (\<lambda>_.
     m_bind (on_error (lift_io (sync_all (segment_path d index))) (mark_or_insert_failed i d)) (\<lambda>_.
     m_bind (on_error (lift_io (sync_directory d)) (mark_or_insert_failed i d)) (\<lambda>_.
       on_error (lift_io (write_manifest_frame (d, MANIFEST_NAME) entry)) (mark_or_insert_failed i d))))"

definition next_start_index :: "recorder_id \<Rightarrow> coordinator \<Rightarrow> u64" where
  "next_start_index i s =
     (case Option.bind (get_recorder s i) re_segment_index of None \<Rightarrow> 0 | Some index \<Rightarrow> saturating_add index 1)"

definition start_new :: "recorder_id \<Rightarrow> action_receipt_id \<Rightarrow> recorder_config \<Rightarrow> action_outcome action" where
  "start_new i rcpt config =
     (let d = recorder_directory i; mp = (d, MANIFEST_NAME) in
      m_bind (lift_io (create_dir_all_durable d)) (\<lambda>_.
      m_bind (lift_io (open_append mp)) (\<lambda>_.
      m_bind (on_error (lift_io (sync_all mp)) (mark_or_insert_failed i d)) (\<lambda>_.
      m_bind (lift_io (sync_directory d)) (\<lambda>_ s.
        let index = next_start_index i s in
        m_bind (start_files i d index (EntryStart rcpt config index)) (\<lambda>_ s'.
          (Inr Applied, insert_receipt rcpt (i, ActionStart) (put_recorder i
            \<lparr>re_id = i, re_directory = d, re_state = Recording, re_config = Some config, re_queue = [], re_queue_bytes = 0,
             re_manifest = Some mp, re_segment = Some (segment_path d index), re_segment_index = Some index,
             re_segment_frames = 0, re_segment_bytes = 0, re_failure = None\<rparr> s'))) s)))))"

definition recorder_start :: "recorder_id \<Rightarrow> action_receipt_id \<Rightarrow> recorder_config \<Rightarrow> action_outcome action" where
  "recorder_start i rcpt config =
     m_bind (m_result (config_validate config)) (\<lambda>_ s.
     m_bind (m_result (receipt_outcome i rcpt ActionStart s)) (\<lambda>outcome.
       case outcome of
         Some x \<Rightarrow> m_result (Inr x)
       | None \<Rightarrow>
           (case get_recorder s i of
              Some r \<Rightarrow> if re_state r \<noteq> Stopped then m_result (Inl (InvalidState i (re_state r) ''start'')) else start_new i rcpt config
            | None \<Rightarrow> start_new i rcpt config)) s)"

datatype enqueue_error =
    EnqueueUnknownRecorder record_event | NotRecording recorder_state record_event
  | QueueFull record_event | EventTooLarge record_event

definition enqueue :: "recorder_id \<Rightarrow> record_event \<Rightarrow> coordinator \<Rightarrow> (enqueue_error + unit) \<times> coordinator" where
  "enqueue i e s =
     (case get_recorder s i of
        None \<Rightarrow> (Inl (EnqueueUnknownRecorder e), s)
      | Some r \<Rightarrow>
          if re_state r \<noteq> Recording then (Inl (NotRecording (re_state r) e), s)
          else case re_config r of
              None \<Rightarrow> (Inl (NotRecording (re_state r) e), s)
            | Some c \<Rightarrow>
                (case validate_event e of
                   Inl _ \<Rightarrow> (Inl (EventTooLarge e), s)
                 | Inr _ \<Rightarrow>
                     if event_queue_bytes e > ql_max_bytes (rc_queue c) then (Inl (EventTooLarge e), s)
                     else if length (re_queue r) = ql_max_events (rc_queue c)
                       \<or> min (re_queue_bytes r + event_queue_bytes e) (2 ^ 64 - 1) > ql_max_bytes (rc_queue c)
                     then (Inl (QueueFull e), s)
                     else (Inr (), put_recorder i (r\<lparr>re_queue := re_queue r @ [e],
                       re_queue_bytes := re_queue_bytes r + event_queue_bytes e\<rparr>) s)))"

definition should_rotate :: "segment_policy \<Rightarrow> u64 \<Rightarrow> u64 \<Rightarrow> u64 \<Rightarrow> bool \<Rightarrow> bool" where
  "should_rotate policy frames bytes next_bytes counts \<longleftrightarrow>
     (counts \<and> is_some_and (sp_max_frames policy) (\<lambda>limit. frames \<ge> limit))
     \<or> (bytes > 0 \<and> is_some_and (sp_max_bytes policy) (\<lambda>limit. saturating_add bytes next_bytes > limit))"

definition close_segment :: "recorder_id \<Rightarrow> unit action" where
  "close_segment i s =
     (case get_recorder s i of
        None \<Rightarrow> (Inl (UnknownRecorder i), s)
      | Some r \<Rightarrow>
          (case re_segment_index r of
             None \<Rightarrow> (Inl (InvalidState i (re_state r) ''close segment''), s)
           | Some index \<Rightarrow>
               m_bind (case re_segment r of None \<Rightarrow> m_result (Inr ()) | Some p \<Rightarrow> lift_io (sync_all p)) (\<lambda>_.
                 case re_manifest r of
                   None \<Rightarrow> m_result (Inl (InvalidState i (re_state r) ''close segment''))
                 | Some mp \<Rightarrow>
                     m_bind (lift_io (write_manifest_frame mp (SegmentClose index (re_segment_frames r) (re_segment_bytes r)))) (\<lambda>_ s'.
                       (Inr (), update_recorder i (\<lambda>r. r\<lparr>re_segment := None\<rparr>) s'))) s))"

definition open_next_segment :: "recorder_id \<Rightarrow> unit action" where
  "open_next_segment i s =
     (case get_recorder s i of
        None \<Rightarrow> (Inl (UnknownRecorder i), s)
      | Some r \<Rightarrow>
          if re_state r \<noteq> Recording then (Inl (InvalidState i (re_state r) ''rotate''), s)
          else case Option.bind (re_segment_index r) (\<lambda>index. checked_add index 1) of
              None \<Rightarrow> (Inl (FormatLimit ''segment index exhausted''), s)
            | Some index \<Rightarrow>
                let p = segment_path (re_directory r) index in
                m_bind (lift_io (open_append p)) (\<lambda>_.
                m_bind (lift_io (sync_all p)) (\<lambda>_.
                m_bind (lift_io (sync_directory (re_directory r))) (\<lambda>_.
                  case re_manifest r of
                    None \<Rightarrow> m_result (Inl (InvalidState i (re_state r) ''rotate''))
                  | Some mp \<Rightarrow>
                      m_bind (lift_io (write_manifest_frame mp (SegmentOpen index))) (\<lambda>_ s'.
                        (Inr (), update_recorder i (\<lambda>r. r\<lparr>re_segment := Some p, re_segment_index := Some index,
                          re_segment_frames := 0, re_segment_bytes := 0\<rparr>) s'))))) s)"

definition rotate_inner :: "recorder_id \<Rightarrow> unit action" where
  "rotate_inner i = m_bind (close_segment i) (\<lambda>_. open_next_segment i)"

section \<open>Flushing\<close>

text \<open>
  The events of the queue that fit into the current segment: their records, how many count as frames,
  their bytes in the file and in the queue. The sums are taken over data that is in memory at once and
  cannot reach the word size.
\<close>

fun flush_batch :: "segment_policy \<Rightarrow> u64 \<Rightarrow> u64 \<Rightarrow> record_event list \<Rightarrow> recorder_error + ((u8 \<times> u8 list) list \<times> u64 \<times> u64 \<times> usize)" where
  "flush_batch policy frames bytes [] = Inr ([], 0, 0, 0)"
| "flush_batch policy frames bytes (e # es) =
     and_then (encoded_event e) (\<lambda>(kind, payload).
     and_then (framed_len (length payload)) (\<lambda>record_bytes.
       if should_rotate policy frames bytes record_bytes (counts_as_frame e) then Inr ([], 0, 0, 0)
       else
         let one = (if counts_as_frame e then 1 else 0) in
         and_then (flush_batch policy (saturating_add frames one) (saturating_add bytes record_bytes) es)
           (\<lambda>(batch, batch_frames, batch_bytes, queue_bytes).
             Inr ((kind, payload) # batch, one + batch_frames, record_bytes + batch_bytes, event_queue_bytes e + queue_bytes))))"

definition batch_written :: "nat \<Rightarrow> u64 \<Rightarrow> u64 \<Rightarrow> usize \<Rightarrow> recorder \<Rightarrow> recorder" where
  "batch_written n batch_frames batch_bytes queue_bytes r =
     r\<lparr>re_queue := drop n (re_queue r), re_queue_bytes := re_queue_bytes r - queue_bytes,
       re_segment_bytes := saturating_add (re_segment_bytes r) batch_bytes,
       re_segment_frames := saturating_add (re_segment_frames r) batch_frames\<rparr>"

text \<open>The loop of \<open>flush\<close> with fuel; running out of it stands for not returning.\<close>

fun flush_loop :: "nat \<Rightarrow> recorder_id \<Rightarrow> usize \<Rightarrow> coordinator \<Rightarrow> ((recorder_error + usize) \<times> coordinator) option" where
  "flush_loop 0 i written s = None"
| "flush_loop (Suc n) i written s =
     (case get_recorder s i of
        None \<Rightarrow> Some (Inl (UnknownRecorder i), s)
      | Some r \<Rightarrow>
          if re_queue r = [] then Some (Inr written, s)
          else case re_config r of
              None \<Rightarrow> Some (Inl (InvalidState i (re_state r) ''flush''), s)
            | Some c \<Rightarrow>
                (case flush_batch (rc_segments c) (re_segment_frames r) (re_segment_bytes r) (re_queue r) of
                   Inl e \<Rightarrow> Some (Inl e, s)
                 | Inr (batch, batch_frames, batch_bytes, queue_bytes) \<Rightarrow>
                     if re_segment_index r = None then Some (Inl (InvalidState i (re_state r) ''flush''), s)
                     else if batch = [] then
                       (case on_error (rotate_inner i) (mark_failed i) s of
                          (Inl e, s') \<Rightarrow> Some (Inl e, s')
                        | (Inr _, s') \<Rightarrow> flush_loop n i written s')
                     else case re_segment r of
                         None \<Rightarrow> Some (Inl (InvalidState i (re_state r) ''flush''), s)
                       | Some p \<Rightarrow>
                           (case on_error (lift_io (commit_batch p batch)) (mark_failed i) s of
                              (Inl e, s') \<Rightarrow> Some (Inl e, s')
                            | (Inr _, s') \<Rightarrow>
                                flush_loop n i (written + length batch)
                                  (update_recorder i (batch_written (length batch) batch_frames batch_bytes queue_bytes) s'))))"

definition flush :: "recorder_id \<Rightarrow> coordinator \<Rightarrow> ((recorder_error + usize) \<times> coordinator) option" where
  "flush i s =
     (case get_recorder s i of
        None \<Rightarrow> Some (Inl (UnknownRecorder i), s)
      | Some r \<Rightarrow>
          if re_state r \<noteq> Recording then Some (Inl (InvalidState i (re_state r) ''flush''), s)
          else flush_loop (2 * length (re_queue r) + 1) i 0 s)"

datatype append_error = AppendEnqueue enqueue_error | AppendRecorder recorder_error

definition recorder_append :: "recorder_id \<Rightarrow> record_event \<Rightarrow> coordinator \<Rightarrow> ((append_error + unit) \<times> coordinator) option" where
  "recorder_append i e s =
     (case enqueue i e s of
        (Inl x, s') \<Rightarrow> Some (Inl (AppendEnqueue x), s')
      | (Inr _, s') \<Rightarrow>
          map_option (\<lambda>(r, s''). (case r of Inl x \<Rightarrow> Inl (AppendRecorder x) | Inr _ \<Rightarrow> Inr (), s'')) (flush i s'))"

definition recorder_rotate :: "recorder_id \<Rightarrow> coordinator \<Rightarrow> ((recorder_error + unit) \<times> coordinator) option" where
  "recorder_rotate i s =
     map_option (\<lambda>(r, s'). case r of Inl e \<Rightarrow> (Inl e, s') | Inr _ \<Rightarrow> on_error (rotate_inner i) (mark_failed i) s') (flush i s)"

text \<open>The last part of \<open>stop\<close>: the manifest entry, the receipt and the state.\<close>

definition stop_manifest :: "recorder_id \<Rightarrow> action_receipt_id \<Rightarrow> action_outcome action" where
  "stop_manifest i rcpt s =
     (case get_recorder s i of
        None \<Rightarrow> (Inl (UnknownRecorder i), s)
      | Some r \<Rightarrow>
          let p = (re_directory r, MANIFEST_NAME); s0 = put_recorder i (r\<lparr>re_manifest := None\<rparr>) s in
          m_bind (case re_manifest r of Some mp \<Rightarrow> m_result (Inr mp) | None \<Rightarrow> m_bind (lift_io (open_append p)) (\<lambda>_. m_result (Inr p))) (\<lambda>mp.
          m_bind (on_error (lift_io (write_manifest_frame mp (EntryStop rcpt))) (mark_failed i)) (\<lambda>_ s'.
            (Inr Applied, update_recorder i (\<lambda>r. r\<lparr>re_state := Stopped, re_manifest := None, re_segment := None, re_queue := [],
               re_queue_bytes := 0\<rparr>) (insert_receipt rcpt (i, ActionStop) s')))) s0)"

definition recorder_stop :: "recorder_id \<Rightarrow> action_receipt_id \<Rightarrow> coordinator \<Rightarrow> ((recorder_error + action_outcome) \<times> coordinator) option" where
  "recorder_stop i rcpt s =
     (case receipt_outcome i rcpt ActionStop s of
        Inl e \<Rightarrow> Some (Inl e, s)
      | Inr (Some x) \<Rightarrow> Some (Inr x, s)
      | Inr None \<Rightarrow>
          (case get_recorder s i of
             None \<Rightarrow> Some (Inl (UnknownRecorder i), s)
           | Some r \<Rightarrow>
               (case re_state r of
                  Failed \<Rightarrow> Some (Inl (InvalidState i Failed ''stop''), s)
                | Recording \<Rightarrow>
                    map_option (\<lambda>(x, s'). case x of
                        Inl e \<Rightarrow> (Inl e, s')
                      | Inr _ \<Rightarrow> m_bind (on_error (close_segment i) (mark_failed i)) (\<lambda>_. stop_manifest i rcpt) s') (flush i s)
                | Stopped \<Rightarrow> Some (stop_manifest i rcpt s))))"

section \<open>Recovery\<close>

record recovered_segment =
  rv_index :: u64
  rv_records :: u64
  rv_bytes :: u64
  rv_truncated_bytes :: u64

record recovery_report =
  rp_manifest_records :: u64
  rp_manifest_truncated_bytes :: u64
  rp_segments :: "recovered_segment list"

definition read_file :: "world \<Rightarrow> file_path \<Rightarrow> recorder_error + u8 list" where
  "read_file w p = (case get_file w p of None \<Rightarrow> Inl (Io p (OsError 2)) | Some f \<Rightarrow> Inr (fl_bytes f))"

fun decode_entries :: "file_path \<Rightarrow> scanned_frame list \<Rightarrow> recorder_error + manifest_entry list" where
  "decode_entries p [] = Inr []"
| "decode_entries p (f # fs) = and_then (decode_manifest f p) (\<lambda>e. and_then (decode_entries p fs) (\<lambda>es. Inr (e # es)))"

fun entry_opens :: "manifest_entry \<Rightarrow> u64 list" where
  "entry_opens (EntryStart _ _ index) = [index]"
| "entry_opens (SegmentOpen index) = [index]"
| "entry_opens _ = []"

definition committed_segments :: "manifest_entry list \<Rightarrow> u64 list" where
  "committed_segments es = concat (map entry_opens es)"

text \<open>The segment files of a directory, by index.\<close>

definition segment_files :: "world \<Rightarrow> string \<Rightarrow> (u64 \<times> string) list" where
  "segment_files w d =
     sort_key fst (List.map_filter (\<lambda>(p, _). if fst p = d then map_option (\<lambda>i. (i, snd p)) (parse_segment_name (snd p)) else None) (w_files w))"

text \<open>What the inspection of the segments collects: reports, truncations and abandoned files.\<close>

fun inspect_segments ::
  "world \<Rightarrow> string \<Rightarrow> u64 list \<Rightarrow> (u64 \<times> string) list
    \<Rightarrow> recorder_error + (recovered_segment list \<times> (file_path \<times> u64) list \<times> file_path list)" where
  "inspect_segments w d committed [] = Inr ([], [], [])"
| "inspect_segments w d committed ((index, name) # rest) =
     and_then (read_file w (d, name)) (\<lambda>bytes. and_then (scan_segment (d, name) bytes) (\<lambda>scan.
       if index \<notin> set committed then
         if rs_valid_bytes scan = 0 \<and> rs_truncated_bytes scan = 0 then
           and_then (inspect_segments w d committed rest) (\<lambda>(segments, truncations, abandoned).
             Inr (segments, truncations, (d, name) # abandoned))
         else Inl (Corrupt (d, name) 0 ''unreferenced segment contains data'')
       else
         and_then (inspect_segments w d committed rest) (\<lambda>(segments, truncations, abandoned).
           Inr (\<lparr>rv_index = index, rv_records = rs_records scan, rv_bytes = rs_valid_bytes scan, rv_truncated_bytes = rs_truncated_bytes scan\<rparr>
                  # segments,
                if rs_truncated_bytes scan > 0 then ((d, name), rs_valid_bytes scan) # truncations else truncations,
                abandoned))))"

fun truncate_all :: "(file_path \<times> u64) list \<Rightarrow> world \<Rightarrow> (recorder_error + unit) \<times> world" where
  "truncate_all [] w = (Inr (), w)"
| "truncate_all ((p, n) # ts) w = io_then (truncate_file p n) (truncate_all ts) w"

fun remove_all_files :: "file_path list \<Rightarrow> world \<Rightarrow> (recorder_error + unit) \<times> world" where
  "remove_all_files [] w = (Inr (), w)"
| "remove_all_files (p # ps) w = io_then (remove_file p) (remove_all_files ps) w"

definition repair_plan ::
  "world \<Rightarrow> string \<Rightarrow> recorder_error + (recovery_report \<times> (file_path \<times> u64) list \<times> file_path list)" where
  "repair_plan w d =
     (let mp = (d, MANIFEST_NAME) in
      and_then (read_file w mp) (\<lambda>bytes. and_then (scan_manifest mp bytes) (\<lambda>manifest.
      and_then (decode_entries mp (rs_frames manifest)) (\<lambda>es.
      and_then (inspect_segments w d (committed_segments es) (segment_files w d)) (\<lambda>(segments, truncations, abandoned).
        Inr (\<lparr>rp_manifest_records = of_nat (length (rs_frames manifest)), rp_manifest_truncated_bytes = rs_truncated_bytes manifest,
              rp_segments = segments\<rparr>,
             if rs_truncated_bytes manifest > 0 then truncations @ [(mp, rs_valid_bytes manifest)] else truncations,
             abandoned))))))"

definition repair_recording :: "string \<Rightarrow> world \<Rightarrow> (recorder_error + recovery_report) \<times> world" where
  "repair_recording d w =
     (case repair_plan w d of
        Inl e \<Rightarrow> (Inl e, w)
      | Inr (report, truncations, abandoned) \<Rightarrow>
          io_then (truncate_all truncations) (io_then (remove_all_files abandoned)
            (io_then (if abandoned = [] then (\<lambda>w. (Inr (), w)) else sync_directory d) (\<lambda>w. (Inr report, w)))) w)"

section \<open>Reconciliation\<close>

text \<open>What the entries of a manifest add up to.\<close>

record replayed =
  ry_config :: "recorder_config option"
  ry_state :: recorder_state
  ry_latest_open :: "u64 option"
  ry_closed :: "(u64, u64 \<times> u64) btree"
  ry_staged :: "(action_receipt_id, recorder_id \<times> action_kind) btree"

definition stage_receipt ::
  "(action_receipt_id, recorder_id \<times> action_kind) btree \<Rightarrow> action_receipt_id \<Rightarrow> recorder_id \<times> action_kind \<Rightarrow> replayed
    \<Rightarrow> recorder_error + replayed" where
  "stage_receipt receipts rcpt a y =
     (case (case map_of (ry_staged y) rcpt of Some x \<Rightarrow> Some x | None \<Rightarrow> map_of receipts rcpt) of
        Some stored \<Rightarrow> if stored \<noteq> a then Inl (ReceiptConflict rcpt) else Inr (y\<lparr>ry_staged := bt_insert rcpt a (ry_staged y)\<rparr>)
      | None \<Rightarrow> Inr (y\<lparr>ry_staged := bt_insert rcpt a (ry_staged y)\<rparr>))"

fun replay_entry ::
  "(action_receipt_id, recorder_id \<times> action_kind) btree \<Rightarrow> recorder_id \<Rightarrow> manifest_entry \<Rightarrow> replayed \<Rightarrow> recorder_error + replayed" where
  "replay_entry receipts i (EntryStart rcpt config index) y =
     and_then (stage_receipt receipts rcpt (i, ActionStart) y)
       (\<lambda>y. Inr (y\<lparr>ry_config := Some config, ry_state := Recording, ry_latest_open := Some index\<rparr>))"
| "replay_entry receipts i (EntryStop rcpt) y =
     and_then (stage_receipt receipts rcpt (i, ActionStop) y) (\<lambda>y. Inr (y\<lparr>ry_state := Stopped\<rparr>))"
| "replay_entry receipts i (SegmentOpen index) y = Inr (y\<lparr>ry_latest_open := Some index\<rparr>)"
| "replay_entry receipts i (SegmentClose index frames bytes) y = Inr (y\<lparr>ry_closed := bt_insert index (frames, bytes) (ry_closed y)\<rparr>)"

fun replay_frames ::
  "(action_receipt_id, recorder_id \<times> action_kind) btree \<Rightarrow> recorder_id \<Rightarrow> file_path \<Rightarrow> scanned_frame list \<Rightarrow> replayed
    \<Rightarrow> recorder_error + replayed" where
  "replay_frames receipts i mp [] y = Inr y"
| "replay_frames receipts i mp (f # fs) y =
     and_then (decode_manifest f mp) (\<lambda>e. and_then (replay_entry receipts i e y) (replay_frames receipts i mp fs))"

definition replay_start :: replayed where
  "replay_start = \<lparr>ry_config = None, ry_state = Stopped, ry_latest_open = None, ry_closed = [], ry_staged = []\<rparr>"

definition max_segment :: "recovered_segment list \<Rightarrow> u64 option" where
  "max_segment segments = (case segments of [] \<Rightarrow> None | g # gs \<Rightarrow> Some (fold max (map rv_index gs) (rv_index g)))"

text \<open>The segment a recorder that was recording continues with.\<close>

definition active_index :: "replayed \<Rightarrow> u64 option \<Rightarrow> u64" where
  "active_index y segment_index =
     (let fallback = (case segment_index of None \<Rightarrow> 0 | Some k \<Rightarrow> saturating_add k 1) in
      case ry_latest_open y of
        Some k \<Rightarrow> if map_of (ry_closed y) k = None then k else fallback
      | None \<Rightarrow> fallback)"

definition scan_in :: "(file_path \<Rightarrow> u8 list \<Rightarrow> recorder_error + 'a) \<Rightarrow> file_path \<Rightarrow> world \<Rightarrow> (recorder_error + 'a) \<times> world" where
  "scan_in scan p w = (and_then (read_file w p) (scan p), w)"

definition resume_recording :: "string \<Rightarrow> replayed \<Rightarrow> u64 \<Rightarrow> raw_scan action" where
  "resume_recording d y index =
     (let p = segment_path d index; mp = (d, MANIFEST_NAME) in
      m_bind (lift_io (open_append p)) (\<lambda>_.
      m_bind (lift_io (sync_all p)) (\<lambda>_.
      m_bind (lift_io (sync_directory d)) (\<lambda>_.
      m_bind (lift_io (scan_in scan_segment p)) (\<lambda>scan.
      m_bind (lift_io (open_append mp)) (\<lambda>_.
      m_bind (if ry_latest_open y \<noteq> Some index \<or> map_of (ry_closed y) index \<noteq> None
              then lift_io (write_manifest_frame mp (SegmentOpen index)) else m_result (Inr ())) (\<lambda>_.
        m_result (Inr scan))))))))"

definition reconciled :: "recorder_id \<Rightarrow> string \<Rightarrow> replayed \<Rightarrow> recorder \<Rightarrow> coordinator \<Rightarrow> coordinator" where
  "reconciled i d y r s =
     put_recorder i r (s\<lparr>co_receipts := fold (\<lambda>(k, a). bt_insert k a) (ry_staged y) (co_receipts s)\<rparr>)"

text \<open>The part of \<open>reconcile_recorder\<close> after the manifest was replayed.\<close>

definition reconcile_state :: "recorder_id \<Rightarrow> string \<Rightarrow> recovery_report \<Rightarrow> replayed \<Rightarrow> recovery_report action" where
  "reconcile_state i d report y =
     (let r = \<lparr>re_id = i, re_directory = d, re_state = ry_state y, re_config = ry_config y, re_queue = [], re_queue_bytes = 0,
               re_manifest = None, re_segment = None, re_segment_index = max_segment (rp_segments report),
               re_segment_frames = 0, re_segment_bytes = 0, re_failure = None\<rparr> in
      if ry_state y \<noteq> Recording then (\<lambda>s. (Inr report, reconciled i d y r s))
      else if ry_config y = None then m_result (Inl (Corrupt (d, MANIFEST_NAME) 0 ''recording state has no start config''))
      else
        let index = active_index y (max_segment (rp_segments report)) in
        m_bind (resume_recording d y index) (\<lambda>scan s.
          (Inr report, reconciled i d y (r\<lparr>re_manifest := Some (d, MANIFEST_NAME), re_segment := Some (segment_path d index),
             re_segment_index := Some index, re_segment_frames := rs_media_frames scan, re_segment_bytes := rs_valid_bytes scan\<rparr>) s)))"

definition reconcile_recorder :: "recorder_id \<Rightarrow> string \<Rightarrow> recovery_report action" where
  "reconcile_recorder i d =
     m_bind (lift_io (repair_recording d)) (\<lambda>report.
     m_bind (lift_io (scan_in scan_manifest (d, MANIFEST_NAME))) (\<lambda>manifest_scan s.
     m_bind (m_result (replay_frames (co_receipts s) i (d, MANIFEST_NAME) (rs_frames manifest_scan) replay_start))
       (reconcile_state i d report) s))"

fun hex_value :: "nat \<Rightarrow> string \<Rightarrow> nat option" where
  "hex_value n [] = Some n"
| "hex_value n (c # cs) =
     (let k = of_char c :: nat in
      if 48 \<le> k \<and> k \<le> 57 then hex_value (16 * n + (k - 48)) cs
      else if 97 \<le> k \<and> k \<le> 102 then hex_value (16 * n + (k - 87)) cs
      else if 65 \<le> k \<and> k \<le> 70 then hex_value (16 * n + (k - 55)) cs
      else None)"

text \<open>\<open>u128::from_str_radix\<close> with radix 16: an optional plus sign, then hexadecimal digits.\<close>

definition recorder_id_from_directory :: "string \<Rightarrow> recorder_id option" where
  "recorder_id_from_directory name =
     Option.bind (strip_prefix ''recorder-'' name) (\<lambda>s.
       let ds = (case s of c # cs \<Rightarrow> if c = CHR ''+'' then cs else s | [] \<Rightarrow> []) in
       if ds = [] then None
       else Option.bind (hex_value 0 ds) (\<lambda>n. Option.bind (word_try_from n) (\<lambda>i. if i = 0 then None else Some i)))"

record reconciliation_report =
  rn_recovered :: "(recorder_id \<times> recovery_report) list"
  rn_failures :: "(recorder_id \<times> string \<times> recorder_error) list"

fun reconcile_all :: "string list \<Rightarrow> reconciliation_report \<Rightarrow> coordinator \<Rightarrow> reconciliation_report \<times> coordinator" where
  "reconcile_all [] report s = (report, s)"
| "reconcile_all (d # ds) report s =
     (case recorder_id_from_directory d of
        None \<Rightarrow> reconcile_all ds report s
      | Some i \<Rightarrow>
          (case reconcile_recorder i d s of
             (Inr recovery, s') \<Rightarrow> reconcile_all ds (report\<lparr>rn_recovered := rn_recovered report @ [(i, recovery)]\<rparr>) s'
           | (Inl e, s') \<Rightarrow>
               reconcile_all ds (report\<lparr>rn_failures := rn_failures report @ [(i, d, e)]\<rparr>) (put_recorder i (recorder_failed i d e) s')))"

text \<open>Opening a root directory that exists; creating it is not modelled.\<close>

definition open_with_writer_factory :: "world \<Rightarrow> (recorder_error + reconciliation_report \<times> coordinator) \<times> world" where
  "open_with_writer_factory w =
     (case sync_directory [] w of
        (Inl e, w1) \<Rightarrow> (Inl e, w1)
      | (Inr _, w1) \<Rightarrow>
          (case reconcile_all (sort (map fst (w_dirs w1))) \<lparr>rn_recovered = [], rn_failures = []\<rparr>
                  \<lparr>co_recorders = [], co_receipts = [], co_world = w1\<rparr> of
             (report, s) \<Rightarrow> (Inr (report, s), co_world s)))"

record recorder_snapshot =
  sn_id :: recorder_id
  sn_state :: recorder_state
  sn_segment_index :: "u64 option"
  sn_queued_events :: usize
  sn_queued_bytes :: usize
  sn_written_frames :: u64
  sn_written_bytes :: u64
  sn_failure :: "recorder_error option"

definition recorder_snapshot_of :: "recorder \<Rightarrow> recorder_snapshot" where
  "recorder_snapshot_of r =
     \<lparr>sn_id = re_id r, sn_state = re_state r, sn_segment_index = re_segment_index r, sn_queued_events = length (re_queue r),
      sn_queued_bytes = re_queue_bytes r, sn_written_frames = re_segment_frames r, sn_written_bytes = re_segment_bytes r,
      sn_failure = re_failure r\<rparr>"

definition recorder_snapshots :: "coordinator \<Rightarrow> recorder_snapshot list" where
  "recorder_snapshots s = map (\<lambda>(_, r). recorder_snapshot_of r) (co_recorders s)"

end
