(* ===== verification/Recorder_Logs.thy ===== *)
theory Recorder_Logs
  imports Recorder "HOL-Library.Sublist"
begin

text \<open>
  What a recording directory holds at any time: a manifest and segment files that are logs of records, each
  with at most one incomplete record at its end, and which of their records are durable. Appending,
  synchronizing, crashing and repairing are shown to keep this.
\<close>

section \<open>Logs and their prefixes\<close>

lemma log_bytes_append [simp]: "log_bytes (fs @ gs) = log_bytes fs @ log_bytes gs"
  by (simp add: log_bytes_def)

lemma torn_take: "torn M seg t \<Longrightarrow> torn M seg (take n t)"
  unfolding torn_def by (metis le_eq_less_or_eq min.cobounded1 order_le_less_trans take_take min_def)

lemma torn_frame: "frame_ok M seg (k, p) \<Longrightarrow> n < 24 + length p \<Longrightarrow> torn M seg (take n (frame_bytes k p))"
  unfolding torn_def by force

text \<open>Cutting a log anywhere leaves a log.\<close>

lemma take_log:
  assumes "list_all (frame_ok M seg) fs" "torn M seg t"
  shows "\<exists>gs t'. prefix gs fs \<and> take n (log_bytes fs @ t) = log_bytes gs @ t' \<and> torn M seg t'"
  using assms(1)
proof (induction fs arbitrary: n)
  case Nil
  then show ?case using torn_take [OF assms(2), of n] by (intro exI [of _ "[]"] exI [of _ "take n t"]) simp
next
  case (Cons f fs)
  obtain k p where f: "f = (k, p)" by (cases f)
  show ?case
  proof (cases "n < 24 + length p")
    case True
    then have "take n (log_bytes (f # fs) @ t) = log_bytes [] @ take n (frame_bytes k p)" by (simp add: f)
    moreover have "torn M seg (take n (frame_bytes k p))" using Cons.prems True by (intro torn_frame) (simp_all add: f)
    ultimately show ?thesis by (intro exI [of _ "[]"] exI [of _ "take n (frame_bytes k p)"]) simp
  next
    case False
    obtain gs t' where IH: "prefix gs fs" "take (n - (24 + length p)) (log_bytes fs @ t) = log_bytes gs @ t'" "torn M seg t'"
      using Cons.IH [of "n - (24 + length p)"] Cons.prems by auto
    then have "take n (log_bytes (f # fs) @ t) = log_bytes (f # gs) @ t'" using False by (simp add: f)
    then show ?thesis using IH by (intro exI [of _ "f # gs"] exI [of _ t']) simp
  qed
qed

text \<open>The bytes of a record determine it, so a log has one reading.\<close>

lemma frame_bytes_cancel:
  assumes "frame_bytes k p @ r = frame_bytes k' p' @ r'" "length p < 2 ^ 64" "length p' < 2 ^ 64"
  shows "k = k' \<and> p = p' \<and> r = r'"
proof -
  have h: "frame_header k p = frame_header k' p'" and b: "p @ r = p' @ r'"
    using assms(1) by (auto simp: frame_bytes_def)
  note 1 = frame_header_parts [OF assms(2), of k] and 2 = frame_header_parts [OF assms(3), of k']
  have "length p = length p'" "k = k'" using 1 2 h by (auto simp: unat_of_nat_u64 assms)
  then show ?thesis using b by simp
qed

lemma log_prefix_unique:
  assumes "log_bytes fs @ r = log_bytes gs @ t" "torn M seg t" "list_all (frame_ok M seg) fs" "list_all (frame_ok M seg) gs" "M < 2 ^ 64"
  shows "prefix fs gs"
  using assms(1,3,4)
proof (induction fs arbitrary: gs)
  case (Cons f fs)
  obtain k p where f: "f = (k, p)" by (cases f)
  have p: "length p < 2 ^ 64" using Cons.prems assms(5) f by (simp add: frame_ok_def)
  show ?case
  proof (cases gs)
    case Nil
    then have "frame_bytes k p @ (log_bytes fs @ r) = t" using Cons.prems f by simp
    then obtain k' p' n where t: "frame_ok M seg (k', p')" "n < 24 + length p'" "frame_bytes k p @ (log_bytes fs @ r) = take n (frame_bytes k' p')"
      using assms(2) by (auto simp: torn_def)
    have "frame_bytes k p @ (log_bytes fs @ r @ drop n (frame_bytes k' p')) = frame_bytes k' p' @ []"
      using t(3) by (metis append.assoc append_Nil2 append_take_drop_id)
    moreover have "length p' < 2 ^ 64" using t assms(5) by (simp add: frame_ok_def)
    ultimately have "k = k' \<and> p = p' \<and> log_bytes fs @ r @ drop n (frame_bytes k' p') = []" using p by (intro frame_bytes_cancel)
    then show ?thesis using t(2) by simp
  next
    case (Cons g gs')
    obtain k' p' where g: "g = (k', p')" by (cases g)
    have "length p' < 2 ^ 64" using Cons.prems Cons assms(5) g by (simp add: frame_ok_def)
    then have "k = k' \<and> p = p' \<and> log_bytes fs @ r = log_bytes gs' @ t"
      using Cons.prems Cons f g p by (intro frame_bytes_cancel) simp_all
    then show ?thesis using Cons.IH [of gs'] Cons.prems Cons f g by simp
  qed
qed simp

section \<open>Names\<close>

lemma digits_value_zeros: "digits_value (replicate m CHR ''0'' @ s) = digits_value s"
  by (induction m) (simp_all add: digits_value_def)

lemma digits_value_digits: "digits_value (digits n) = n"
proof -
  have "digits_value s = foldl (\<lambda>a d. 10 * a + (d - 48)) 0 (map of_char s)" for s
    by (simp add: digits_value_def foldl_map)
  then show ?thesis by (simp only: digits_def decimal_chars decimal_value)
qed

lemma digits_characters: "c \<in> set (digits n) \<Longrightarrow> is_ascii_digit (of_char c)"
proof -
  assume "c \<in> set (digits n)"
  then have "of_char c \<in> set (map of_char (map char_of (decimal n)) :: nat list)"
    by (metis digits_def image_eqI list.set_map)
  then have "of_char c \<in> set (decimal n)" by (simp only: decimal_chars)
  then show ?thesis using decimal_digit by (force simp: is_ascii_digit_def)
qed

lemma digits_not_Nil: "digits n \<noteq> []"
  by (simp add: digits_def decimal.simps [of n])

lemma parse_segment_name_segment [simp]: "parse_segment_name (segment_name k) = Some k"
proof -
  let ?ds = "replicate (20 - length (digits (unat k))) CHR ''0'' @ digits (unat k)"
  have chars: "list_all (\<lambda>c. is_ascii_digit (of_char c)) ?ds"
    using digits_characters by (auto simp: list_all_iff is_ascii_digit_def)
  have "?ds \<noteq> []" using digits_not_Nil by simp
  then obtain c cs where ds: "?ds = c # cs" by (cases ?ds) auto
  then have "c \<noteq> CHR ''+''" using chars by (auto simp: is_ascii_digit_def)
  then have "parse_u64 ?ds = word_try_from (digits_value ?ds)" using chars ds by (simp add: parse_u64_def)
  also have "\<dots> = Some k" using unat_lt2p_any [of k] by (simp add: digits_value_zeros digits_value_digits word_try_from_def)
  finally have "parse_u64 ?ds = Some k" .
  moreover have "strip_prefix ''segment-'' (segment_name k) = Some (?ds @ ''.fms'')"
    by (simp add: strip_prefix_def segment_name_def)
  moreover have "strip_suffix ''.fms'' (?ds @ ''.fms'') = Some ?ds" by (simp add: strip_suffix_def)
  ultimately show ?thesis by (simp add: parse_segment_name_def)
qed

lemma segment_name_inject [simp]: "segment_name j = segment_name k \<longleftrightarrow> j = k"
  by (metis option.inject parse_segment_name_segment)

lemma parse_manifest_name [simp]: "parse_segment_name MANIFEST_NAME = None"
  by (simp add: parse_segment_name_def MANIFEST_NAME_def strip_prefix_def)

section \<open>The files of a recording\<close>

text \<open>
  A log file with durable records \<open>fs\<close> and further records \<open>gs\<close>; a tidy file ends with a complete record and
  is synchronized.
\<close>

definition log_file :: "bool \<Rightarrow> usize \<Rightarrow> bool \<Rightarrow> log \<Rightarrow> log \<Rightarrow> stored_file \<Rightarrow> bool" where
  "log_file tidy M seg fs gs f \<longleftrightarrow>
     list_all (frame_ok M seg) (fs @ gs)
     \<and> (\<exists>t. fl_bytes f = log_bytes (fs @ gs) @ t \<and> torn M seg t \<and> (tidy \<longrightarrow> t = []))
     \<and> length (log_bytes fs) \<le> fl_synced f \<and> fl_synced f \<le> length (fl_bytes f) \<and> (tidy \<longrightarrow> fl_synced f = length (fl_bytes f))"

definition manifest_file :: "bool \<Rightarrow> manifest_entry list \<Rightarrow> manifest_entry list \<Rightarrow> stored_file \<Rightarrow> bool" where
  "manifest_file tidy es es' f \<longleftrightarrow> log_file tidy MAX_MANIFEST_PAYLOAD False (map encode_manifest es) (map encode_manifest es') f"

definition segment_file :: "bool \<Rightarrow> stored_file \<Rightarrow> bool" where
  "segment_file tidy f \<longleftrightarrow> (\<exists>fs. log_file tidy MAX_ENCODED_FRAME_PAYLOAD True [] fs f)"

text \<open>
  A directory with durable manifest entries \<open>es\<close> and further ones \<open>es'\<close>: the manifest comes first and its
  entry is durable before there are segments, segments are opened in ascending order, each exists before the
  manifest names it, and only a segment that the durable manifest names holds data.
\<close>

definition dir_ok :: "bool \<Rightarrow> manifest_entry list \<Rightarrow> manifest_entry list \<Rightarrow> (string \<Rightarrow> stored_file option) \<Rightarrow> bool" where
  "dir_ok tidy es es' v \<longleftrightarrow>
     (v MANIFEST_NAME = None \<longrightarrow> v = Map.empty \<and> es = [] \<and> es' = [])
     \<and> (\<forall>f. v MANIFEST_NAME = Some f \<longrightarrow> manifest_file tidy es es' f \<and> (fl_entry f \<or> dom v = {MANIFEST_NAME}))
     \<and> list_all entry_ok (es @ es') \<and> sorted (committed_segments (es @ es'))
     \<and> (\<forall>k \<in> set (committed_segments (es @ es')). \<exists>g. v (segment_name k) = Some g \<and> fl_entry g)
     \<and> (\<forall>n g. v n = Some g \<and> n \<noteq> MANIFEST_NAME \<longrightarrow>
          segment_file tidy g \<and> (\<exists>k. n = segment_name k \<and> (fl_bytes g = [] \<or> k \<in> set (committed_segments es))))"

lemma committed_append: "committed_segments (es @ es') = committed_segments es @ committed_segments es'"
  by (simp add: committed_segments_def)

lemma committed_simps [simp]: "committed_segments [] = []" "committed_segments [e] = entry_opens e"
  by (simp_all add: committed_segments_def)

lemma dir_okD:
  assumes "dir_ok tidy es es' v"
  shows "v MANIFEST_NAME = None \<Longrightarrow> v = Map.empty \<and> es = [] \<and> es' = []"
    "v MANIFEST_NAME = Some f \<Longrightarrow> manifest_file tidy es es' f \<and> (fl_entry f \<or> dom v = {MANIFEST_NAME})"
    "list_all entry_ok (es @ es')" "sorted (committed_segments (es @ es'))"
    "k \<in> set (committed_segments (es @ es')) \<Longrightarrow> \<exists>g. v (segment_name k) = Some g \<and> fl_entry g"
    "v n = Some g \<Longrightarrow> n \<noteq> MANIFEST_NAME \<Longrightarrow>
       segment_file tidy g \<and> (\<exists>k. n = segment_name k \<and> (fl_bytes g = [] \<or> k \<in> set (committed_segments es)))"
  using assms unfolding dir_ok_def by blast+

lemma dir_okI:
  assumes "v MANIFEST_NAME = Some f" "manifest_file tidy es es' f" "fl_entry f \<or> dom v = {MANIFEST_NAME}"
    "list_all entry_ok (es @ es')" "sorted (committed_segments (es @ es'))"
    "\<And>k. k \<in> set (committed_segments (es @ es')) \<Longrightarrow> \<exists>g. v (segment_name k) = Some g \<and> fl_entry g"
    "\<And>n g. v n = Some g \<Longrightarrow> n \<noteq> MANIFEST_NAME \<Longrightarrow>
       segment_file tidy g \<and> (\<exists>k. n = segment_name k \<and> (fl_bytes g = [] \<or> k \<in> set (committed_segments es)))"
  shows "dir_ok tidy es es' v"
  unfolding dir_ok_def using assms by (intro conjI) auto

lemma dir_ok_empty: "dir_ok tidy [] [] Map.empty"
  by (simp add: dir_ok_def)

lemma log_file_untidy: "log_file True M seg fs gs f \<Longrightarrow> log_file b M seg fs gs f"
  by (cases b) (auto simp: log_file_def)

text \<open>The new empty file of \<open>open_append\<close>.\<close>

lemma log_file_empty: "log_file tidy M seg [] [] \<lparr>fl_bytes = [], fl_synced = 0, fl_entry = b\<rparr>"
  by (simp add: log_file_def)

lemma open_manifest_ok:
  assumes "dir_ok tidy es es' v"
  shows "dir_ok tidy es es' (opened MANIFEST_NAME v)"
proof (cases "v MANIFEST_NAME")
  case None
  then have "v = Map.empty" "es = []" "es' = []" using dir_okD(1) [OF assms] by blast+
  then show ?thesis
    by (intro dir_okI [of _ "\<lparr>fl_bytes = [], fl_synced = 0, fl_entry = False\<rparr>"])
      (simp_all add: opened_def manifest_file_def log_file_empty)
qed (simp add: opened_def assms)

lemma segment_name_neq [simp]: "segment_name k \<noteq> MANIFEST_NAME" "MANIFEST_NAME \<noteq> segment_name k"
  by (simp_all add: segment_name_def MANIFEST_NAME_def)

lemma open_segment_ok:
  assumes "dir_ok tidy es es' v" "v MANIFEST_NAME = Some f" "fl_entry f"
  shows "dir_ok tidy es es' (opened (segment_name k) v)"
proof (cases "v (segment_name k)")
  case None
  let ?new = "\<lparr>fl_bytes = [], fl_synced = 0, fl_entry = False\<rparr>"
  have new: "segment_file tidy ?new" unfolding segment_file_def using log_file_empty by blast
  have eq: "opened (segment_name k) v = v(segment_name k \<mapsto> ?new)" using None by (simp add: opened_def)
  show ?thesis unfolding eq
  proof (rule dir_okI [of _ f])
    fix j assume "j \<in> set (committed_segments (es @ es'))"
    then show "\<exists>g. (v(segment_name k \<mapsto> ?new)) (segment_name j) = Some g \<and> fl_entry g"
      using dir_okD(5) [OF assms(1), of j] None by (cases "segment_name j = segment_name k") auto
  next
    fix n g assume "(v(segment_name k \<mapsto> ?new)) n = Some g" "n \<noteq> MANIFEST_NAME"
    then show "segment_file tidy g \<and> (\<exists>k. n = segment_name k \<and> (fl_bytes g = [] \<or> k \<in> set (committed_segments es)))"
      using dir_okD(6) [OF assms(1), of n g] new by (auto split: if_splits)
  qed (use dir_okD(2) [OF assms(1,2)] dir_okD(3,4) [OF assms(1)] assms(2,3) in auto)
qed (simp add: opened_def assms)

text \<open>A change of the contents of files that keeps them logs.\<close>

lemma dir_ok_change:
  assumes ok: "dir_ok tidy es es' v" and v': "v' = (\<lambda>n. map_option (h n) (v n))"
    and man: "\<And>f. v MANIFEST_NAME = Some f \<Longrightarrow> manifest_file b fs fs' (h MANIFEST_NAME f)"
    and none: "v MANIFEST_NAME = None \<Longrightarrow> fs = [] \<and> fs' = []"
    and entry: "\<And>n g. v n = Some g \<Longrightarrow> fl_entry g \<Longrightarrow> fl_entry (h n g)"
    and entries: "list_all entry_ok (fs @ fs')" "sorted (committed_segments (fs @ fs'))"
    and opens: "\<And>k. k \<in> set (committed_segments (fs @ fs')) \<Longrightarrow> \<exists>g. v (segment_name k) = Some g \<and> fl_entry g"
    and seg: "\<And>k g. v (segment_name k) = Some g \<Longrightarrow> segment_file tidy g \<Longrightarrow> fl_bytes g = [] \<or> k \<in> set (committed_segments es) \<Longrightarrow>
       segment_file b (h (segment_name k) g) \<and> (fl_bytes (h (segment_name k) g) = [] \<or> k \<in> set (committed_segments fs))"
  shows "dir_ok b fs fs' v'"
proof (cases "v MANIFEST_NAME")
  case None
  then have "v = Map.empty" "fs = []" "fs' = []" using dir_okD(1) [OF ok] none by blast+
  then show ?thesis using dir_ok_empty by (simp add: v')
next
  case (Some f)
  show ?thesis
  proof (rule dir_okI [of _ "h MANIFEST_NAME f"])
    have "dom v' = dom v" by (auto simp: v')
    then show "fl_entry (h MANIFEST_NAME f) \<or> dom v' = {MANIFEST_NAME}" using dir_okD(2) [OF ok Some] entry [OF Some] by auto
    show "\<exists>g. v' (segment_name k) = Some g \<and> fl_entry g" if k: "k \<in> set (committed_segments (fs @ fs'))" for k
    proof -
      obtain g where "v (segment_name k) = Some g" "fl_entry g" using opens [OF k] by blast
      then show ?thesis using entry by (simp add: v')
    qed
    show "segment_file b g' \<and> (\<exists>k. n = segment_name k \<and> (fl_bytes g' = [] \<or> k \<in> set (committed_segments fs)))"
      if g': "v' n = Some g'" and n: "n \<noteq> MANIFEST_NAME" for n g'
    proof -
      obtain g where g: "v n = Some g" "g' = h n g" using g' by (auto simp: v')
      obtain k where "segment_file tidy g" "n = segment_name k" "fl_bytes g = [] \<or> k \<in> set (committed_segments es)"
        using dir_okD(6) [OF ok g(1) n] by blast
      then show ?thesis using seg [of k g] g by blast
    qed
  qed (use Some man entries in \<open>simp_all add: v'\<close>)
qed

lemma dir_ok_contents:
  assumes ok: "dir_ok tidy es es' v" and v': "\<And>n. v' n = map_option (h n) (v n)"
    and man: "\<And>f. v MANIFEST_NAME = Some f \<Longrightarrow> manifest_file tidy es es' f \<Longrightarrow> manifest_file b es es' (h MANIFEST_NAME f)"
    and entry: "\<And>n g. fl_entry g \<Longrightarrow> fl_entry (h n g)"
    and seg: "\<And>k g. v (segment_name k) = Some g \<Longrightarrow> segment_file tidy g \<Longrightarrow> segment_file b (h (segment_name k) g)"
    and data: "\<And>k g. v (segment_name k) = Some g \<Longrightarrow> fl_bytes g = [] \<Longrightarrow> fl_bytes (h (segment_name k) g) = [] \<or> k \<in> set (committed_segments es)"
  shows "dir_ok b es es' v'"
proof (rule dir_ok_change [OF ok])
  show "v' = (\<lambda>n. map_option (h n) (v n))" using v' by blast
  show "manifest_file b es es' (h MANIFEST_NAME f)" if "v MANIFEST_NAME = Some f" for f
    using man [OF that] dir_okD(2) [OF ok that] by blast
  show "es = [] \<and> es' = []" if "v MANIFEST_NAME = None" using dir_okD(1) [OF ok that] by blast
  show "fl_entry (h n g)" if "fl_entry g" for n g using entry that by blast
  show "list_all entry_ok (es @ es')" "sorted (committed_segments (es @ es'))" using dir_okD(3,4) [OF ok] by blast+
  show "\<exists>g. v (segment_name k) = Some g \<and> fl_entry g" if "k \<in> set (committed_segments (es @ es'))" for k
    using dir_okD(5) [OF ok that] .
  show "segment_file b (h (segment_name k) g) \<and> (fl_bytes (h (segment_name k) g) = [] \<or> k \<in> set (committed_segments es))"
    if "v (segment_name k) = Some g" "segment_file tidy g" "fl_bytes g = [] \<or> k \<in> set (committed_segments es)" for k g
    using seg [OF that(1,2)] data [OF that(1)] that(3) by blast
qed

lemma segment_file_untidy: "segment_file True g \<Longrightarrow> segment_file b g"
  unfolding segment_file_def using log_file_untidy by blast

lemma manifest_file_untidy: "manifest_file True es es' f \<Longrightarrow> manifest_file b es es' f"
  unfolding manifest_file_def by (rule log_file_untidy)

lemma dir_ok_untidy:
  assumes "dir_ok True es es' v"
  shows "dir_ok b es es' v"
  by (rule dir_ok_contents [OF assms, where h = "\<lambda>_ f. f"]) (auto simp: option.map_ident intro: segment_file_untidy manifest_file_untidy)

lemma entries_synced_ok: "dir_ok tidy es es' v \<Longrightarrow> dir_ok tidy es es' (entries_synced v)"
  by (rule dir_ok_contents [where h = "\<lambda>_ f. f\<lparr>fl_entry := True\<rparr>"])
    (auto simp: entries_synced_def manifest_file_def segment_file_def log_file_def)

text \<open>Synchronizing a file that is tidy changes nothing.\<close>

lemma synced_tidy: "dir_ok True es es' v \<Longrightarrow> synced n v = v"
proof -
  assume ok: "dir_ok True es es' v"
  have "fl_synced f = length (fl_bytes f)" if "v n = Some f" for f
    using that dir_okD(2,6) [OF ok] by (cases "n = MANIFEST_NAME") (auto simp: manifest_file_def segment_file_def log_file_def)
  then show ?thesis by (cases "v n") (auto simp: synced_def fun_eq_iff)
qed

text \<open>Appending part of some records to a tidy file, and all of them with a synchronization.\<close>

lemma append_log:
  assumes "log_file True M seg fs [] f" "list_all (frame_ok M seg) gs"
  shows "\<exists>gs'. prefix gs' gs \<and> log_file False M seg fs gs' (f\<lparr>fl_bytes := fl_bytes f @ take m (log_bytes gs)\<rparr>)"
proof -
  have f: "fl_bytes f = log_bytes fs" "fl_synced f = length (log_bytes fs)" "list_all (frame_ok M seg) fs"
    using assms(1) by (auto simp: log_file_def)
  obtain gs' t' where t': "prefix gs' gs" "take m (log_bytes gs) = log_bytes gs' @ t'" "torn M seg t'"
    using take_log [OF assms(2) torn_Nil, of m] by auto
  then have "list_all (frame_ok M seg) gs'" using assms(2) by (auto simp: prefix_def)
  then show ?thesis using f t' by (auto simp: log_file_def)
qed

lemma append_synced_log:
  assumes "log_file True M seg fs [] f" "list_all (frame_ok M seg) gs"
  shows "log_file True M seg (fs @ gs) [] (f\<lparr>fl_bytes := fl_bytes f @ log_bytes gs, fl_synced := length (fl_bytes f @ log_bytes gs)\<rparr>)"
  using assms by (auto simp: log_file_def)

lemma segment_file_tidy: "segment_file True g \<longleftrightarrow> (\<exists>fs. log_file True MAX_ENCODED_FRAME_PAYLOAD True fs [] g)"
  unfolding segment_file_def by (auto simp: log_file_def)

lemma encoded_frame_ok: "frame_ok MAX_MANIFEST_PAYLOAD False (encode_manifest e)"
  using manifest_payload_fits [of e] by (cases "encode_manifest e") (simp add: frame_ok_def)

lemma prefix_single: "prefix xs [x] \<longleftrightarrow> xs = [] \<or> xs = [x]"
  by (cases xs) auto

lemma opens_ok:
  assumes "dir_ok tidy es [] v" "entry_ok e" "\<forall>k \<in> set (entry_opens e). (\<forall>j \<in> set (committed_segments es). j \<le> k) \<and> (\<exists>g. v (segment_name k) = Some g \<and> fl_entry g)"
  shows "list_all entry_ok (es @ [e])" "sorted (committed_segments (es @ [e]))"
    "k \<in> set (committed_segments (es @ [e])) \<Longrightarrow> \<exists>g. v (segment_name k) = Some g \<and> fl_entry g"
  using assms(2,3) dir_okD(3-5) [OF assms(1)] by (cases e; auto simp: committed_append sorted_append)+

lemma append_manifest_ok:
  assumes ok: "dir_ok True es [] v" and man: "v MANIFEST_NAME = Some f"
    and e: "entry_ok e" "\<forall>k \<in> set (entry_opens e). (\<forall>j \<in> set (committed_segments es). j \<le> k) \<and> (\<exists>g. v (segment_name k) = Some g \<and> fl_entry g)"
  shows "\<exists>es'. dir_ok False es es' (appended MANIFEST_NAME (take m (log_bytes [encode_manifest e])) v)"
    and "dir_ok True (es @ [e]) [] (synced MANIFEST_NAME (appended MANIFEST_NAME (log_bytes [encode_manifest e]) v))"
proof -
  have log: "log_file True MAX_MANIFEST_PAYLOAD False (map encode_manifest es) [] f"
    using dir_okD(2) [OF ok man] by (simp add: manifest_file_def)
  have frames: "list_all (frame_ok MAX_MANIFEST_PAYLOAD False) [encode_manifest e]" by (simp add: encoded_frame_ok)
  obtain gs where gs: "prefix gs [encode_manifest e]"
    "log_file False MAX_MANIFEST_PAYLOAD False (map encode_manifest es) gs (f\<lparr>fl_bytes := fl_bytes f @ take m (log_bytes [encode_manifest e])\<rparr>)"
    using append_log [OF log frames] by blast
  define es' where "es' = (if gs = [] then [] else [e])"
  have "gs = map encode_manifest es'" using gs(1) by (auto simp: es'_def prefix_single)
  then have part: "manifest_file False es es' (f\<lparr>fl_bytes := fl_bytes f @ take m (log_bytes [encode_manifest e])\<rparr>)"
    using gs(2) by (simp add: manifest_file_def)
  have es': "list_all entry_ok (es @ es')" "sorted (committed_segments (es @ es'))"
    "\<And>k. k \<in> set (committed_segments (es @ es')) \<Longrightarrow> \<exists>g. v (segment_name k) = Some g \<and> fl_entry g"
    using opens_ok [OF ok e] dir_okD(3-5) [OF ok] by (cases "gs = []"; simp add: es'_def)+
  show "\<exists>es'. dir_ok False es es' (appended MANIFEST_NAME (take m (log_bytes [encode_manifest e])) v)"
    by (intro exI [of _ es'] dir_ok_change [OF ok, where h = "\<lambda>n f. if n = MANIFEST_NAME then f\<lparr>fl_bytes := fl_bytes f @ take m (log_bytes [encode_manifest e])\<rparr> else f"])
      (use man part es' segment_file_untidy in \<open>auto simp: appended_def fun_eq_iff option.map_ident\<close>)
  have "manifest_file True (es @ [e]) [] (f\<lparr>fl_bytes := fl_bytes f @ log_bytes [encode_manifest e], fl_synced := length (fl_bytes f @ log_bytes [encode_manifest e])\<rparr>)"
    using append_synced_log [OF log frames] by (simp add: manifest_file_def)
  then show "dir_ok True (es @ [e]) [] (synced MANIFEST_NAME (appended MANIFEST_NAME (log_bytes [encode_manifest e]) v))"
    by (intro dir_ok_change [OF ok, where h = "\<lambda>n f. if n = MANIFEST_NAME then f\<lparr>fl_bytes := fl_bytes f @ log_bytes [encode_manifest e],
        fl_synced := length (fl_bytes f @ log_bytes [encode_manifest e])\<rparr> else f"])
      (use man opens_ok [OF ok e] in \<open>auto simp: appended_def synced_def fun_eq_iff option.map_ident committed_append\<close>)
qed

lemma append_segment_ok:
  assumes ok: "dir_ok True es [] v" and k: "k \<in> set (committed_segments es)"
    and frames: "list_all (frame_ok MAX_ENCODED_FRAME_PAYLOAD True) fs"
  shows "dir_ok False es [] (appended (segment_name k) (take m (log_bytes fs)) v)"
    and "dir_ok True es [] (synced (segment_name k) (appended (segment_name k) (log_bytes fs) v))"
proof -
  have part: "segment_file False (g\<lparr>fl_bytes := fl_bytes g @ take m (log_bytes fs)\<rparr>)"
    and full: "segment_file True (g\<lparr>fl_bytes := fl_bytes g @ log_bytes fs, fl_synced := length (fl_bytes g @ log_bytes fs)\<rparr>)"
    if g: "segment_file True g" for g
  proof -
    obtain gs where log: "log_file True MAX_ENCODED_FRAME_PAYLOAD True gs [] g" using g by (auto simp: segment_file_tidy)
    obtain gs' where "log_file False MAX_ENCODED_FRAME_PAYLOAD True gs gs' (g\<lparr>fl_bytes := fl_bytes g @ take m (log_bytes fs)\<rparr>)"
      using append_log [OF log frames] by blast
    then have "log_file False MAX_ENCODED_FRAME_PAYLOAD True [] (gs @ gs') (g\<lparr>fl_bytes := fl_bytes g @ take m (log_bytes fs)\<rparr>)"
      by (simp add: log_file_def)
    then show "segment_file False (g\<lparr>fl_bytes := fl_bytes g @ take m (log_bytes fs)\<rparr>)" by (auto simp: segment_file_def)
    show "segment_file True (g\<lparr>fl_bytes := fl_bytes g @ log_bytes fs, fl_synced := length (fl_bytes g @ log_bytes fs)\<rparr>)"
      using append_synced_log [OF log frames] by (auto simp: segment_file_tidy)
  qed
  show "dir_ok False es [] (appended (segment_name k) (take m (log_bytes fs)) v)"
    by (rule dir_ok_contents [OF ok, where h = "\<lambda>n f. if n = segment_name k then f\<lparr>fl_bytes := fl_bytes f @ take m (log_bytes fs)\<rparr> else f"])
      (use k part in \<open>auto simp: appended_def option.map_ident intro: segment_file_untidy manifest_file_untidy\<close>)
  show "dir_ok True es [] (synced (segment_name k) (appended (segment_name k) (log_bytes fs) v))"
    by (rule dir_ok_contents [OF ok, where h = "\<lambda>n f. if n = segment_name k then f\<lparr>fl_bytes := fl_bytes f @ log_bytes fs,
        fl_synced := length (fl_bytes f @ log_bytes fs)\<rparr> else f"])
      (use k full in \<open>auto simp: appended_def synced_def option.map_ident option.map_comp comp_def\<close>)
qed

text \<open>Files that the manifest does not name can go.\<close>

lemma dir_ok_drop:
  assumes ok: "dir_ok tidy es es' v" and sub: "\<And>n. v' n = v n \<or> v' n = None" and man: "v' MANIFEST_NAME = v MANIFEST_NAME"
    and com: "\<And>k. k \<in> set (committed_segments (es @ es')) \<Longrightarrow> v' (segment_name k) = v (segment_name k)"
  shows "dir_ok tidy es es' v'"
proof (cases "v MANIFEST_NAME")
  case None
  then have "v = Map.empty" "es = []" "es' = []" using dir_okD(1) [OF ok] by blast+
  moreover have "v' = Map.empty" using sub \<open>v = Map.empty\<close> by (metis (no_types) ext)
  ultimately show ?thesis using dir_ok_empty by simp
next
  case (Some f)
  show ?thesis
  proof (rule dir_okI)
    show "v' MANIFEST_NAME = Some f" using Some man by simp
    show "manifest_file tidy es es' f" using dir_okD(2) [OF ok Some] by blast
    show "fl_entry f \<or> dom v' = {MANIFEST_NAME}"
    proof (cases "fl_entry f")
      case False
      then have "dom v = {MANIFEST_NAME}" using dir_okD(2) [OF ok Some] by blast
      moreover have "dom v' \<subseteq> dom v" using sub by (metis domIff subsetI)
      ultimately show ?thesis using Some man by auto
    qed simp
    show "list_all entry_ok (es @ es')" "sorted (committed_segments (es @ es'))" using dir_okD(3,4) [OF ok] by blast+
    show "\<exists>g. v' (segment_name k) = Some g \<and> fl_entry g" if "k \<in> set (committed_segments (es @ es'))" for k
      using dir_okD(5) [OF ok that] com [OF that] by simp
    show "segment_file tidy g \<and> (\<exists>k. n = segment_name k \<and> (fl_bytes g = [] \<or> k \<in> set (committed_segments es)))"
      if "v' n = Some g" "n \<noteq> MANIFEST_NAME" for n g
      using dir_okD(6) [OF ok, of n g] sub [of n] that by auto
  qed
qed

section \<open>Crashes\<close>

text \<open>
  A crash loses directories and files whose entries are not durable, and of a file any part of what was not
  synchronized. What is left afterwards is on the storage. The faults after it are arbitrary.
\<close>

definition crash_file :: "stored_file \<Rightarrow> stored_file \<Rightarrow> bool" where
  "crash_file f f' \<longleftrightarrow> (\<exists>m \<ge> fl_synced f. f' = \<lparr>fl_bytes = take m (fl_bytes f), fl_synced = length (take m (fl_bytes f)), fl_entry = True\<rparr>)"

definition crash_view :: "(string \<Rightarrow> stored_file option) \<Rightarrow> (string \<Rightarrow> stored_file option) \<Rightarrow> bool" where
  "crash_view v v' \<longleftrightarrow> (\<forall>n. (v n = None \<longrightarrow> v' n = None)
     \<and> (\<forall>f. v n = Some f \<longrightarrow> (\<not> fl_entry f \<and> v' n = None) \<or> (\<exists>f'. v' n = Some f' \<and> crash_file f f')))"

definition crash :: "world \<Rightarrow> world \<Rightarrow> bool" where
  "crash w w' \<longleftrightarrow> bt_sorted (w_dirs w') \<and> (\<forall>d.
     (map_of (w_dirs w) d = None \<longrightarrow> map_of (w_dirs w') d = None)
     \<and> (map_of (w_dirs w) d = Some True \<longrightarrow> map_of (w_dirs w') d = Some True)
     \<and> (map_of (w_dirs w') d = None \<and> view w' d = Map.empty \<or> map_of (w_dirs w') d = Some True \<and> crash_view (view w d) (view w' d)))"

definition settled :: "(string \<Rightarrow> stored_file option) \<Rightarrow> bool" where
  "settled v \<longleftrightarrow> (\<forall>n f. v n = Some f \<longrightarrow> fl_synced f = length (fl_bytes f))"

lemma crash_log:
  assumes "log_file tidy M seg fs gs f" "crash_file f f'"
  shows "\<exists>gs'. prefix gs' gs \<and> log_file False M seg (fs @ gs') [] f'"
proof -
  obtain t where t: "fl_bytes f = log_bytes fs @ log_bytes gs @ t" "torn M seg t" and ok: "list_all (frame_ok M seg) fs" "list_all (frame_ok M seg) gs"
    and len: "length (log_bytes fs) \<le> fl_synced f"
    using assms(1) by (auto simp: log_file_def)
  obtain m where m: "fl_synced f \<le> m" "f' = \<lparr>fl_bytes = take m (fl_bytes f), fl_synced = length (take m (fl_bytes f)), fl_entry = True\<rparr>"
    using assms(2) by (auto simp: crash_file_def)
  obtain gs' t' where gs': "prefix gs' gs" "take (m - length (log_bytes fs)) (log_bytes gs @ t) = log_bytes gs' @ t'" "torn M seg t'"
    using take_log [OF ok(2) t(2)] by blast
  have "take m (fl_bytes f) = log_bytes (fs @ gs') @ t'" using gs'(2) t(1) m(1) len by simp
  moreover have "list_all (frame_ok M seg) gs'" using gs'(1) ok(2) by (auto simp: prefix_def)
  ultimately show ?thesis using gs' m(2) ok(1) by (auto simp: log_file_def)
qed

lemma prefix_map_encode:
  assumes "prefix gs (map encode_manifest es)"
  shows "\<exists>es'. gs = map encode_manifest es' \<and> prefix es' es"
  using assms by (auto simp: prefix_def map_eq_append_conv)

lemma crash_source:
  assumes "crash_view v v'" "v' n = Some f'"
  obtains f where "v n = Some f" "crash_file f f'"
  using assms unfolding crash_view_def by (metis option.distinct(1) option.exhaust option.inject)

lemma crash_settled: "crash_view v v' \<Longrightarrow> settled v'"
  unfolding settled_def by (auto elim!: crash_source simp: crash_file_def)

lemma crash_segment:
  assumes "segment_file tidy g" "crash_file g g'"
  shows "segment_file False g'"
proof -
  obtain gs where "log_file False MAX_ENCODED_FRAME_PAYLOAD True gs [] g'"
    using assms crash_log unfolding segment_file_def by blast
  then have "log_file False MAX_ENCODED_FRAME_PAYLOAD True [] gs g'" by (auto simp: log_file_def)
  then show ?thesis unfolding segment_file_def by blast
qed

lemma crash_without_manifest:
  assumes ok: "dir_ok tidy es es' v" and crash: "crash_view v v'" and none: "v' MANIFEST_NAME = None"
  shows "v' = Map.empty"
proof
  fix n
  show "v' n = None"
  proof (cases "v MANIFEST_NAME")
    case None
    then show ?thesis using dir_okD(1) [OF ok] crash by (auto simp: crash_view_def)
  next
    case (Some f)
    then have "\<not> fl_entry f" using crash none unfolding crash_view_def by force
    then have "n = MANIFEST_NAME \<or> v n = None" using dir_okD(2) [OF ok Some] by blast
    then show ?thesis using none crash by (auto simp: crash_view_def)
  qed
qed

text \<open>After a crash the directory is again one of a recording, with every durable manifest entry.\<close>

lemma crash_dir_ok:
  assumes ok: "dir_ok tidy es es' v" and crash: "crash_view v v'"
  shows "\<exists>fs. dir_ok False fs [] v' \<and> (v' MANIFEST_NAME \<noteq> None \<longrightarrow> prefix es fs \<and> prefix fs (es @ es')) \<and> settled v'"
proof (cases "v' MANIFEST_NAME")
  case None
  then show ?thesis using crash_without_manifest [OF ok crash] dir_ok_empty crash_settled [OF crash] by auto
next
  case (Some f')
  note settled = crash_settled [OF crash]
  obtain f where f: "v MANIFEST_NAME = Some f" "crash_file f f'" using crash_source [OF crash Some] by blast
  have "log_file tidy MAX_MANIFEST_PAYLOAD False (map encode_manifest es) (map encode_manifest es') f"
    using dir_okD(2) [OF ok f(1)] by (simp add: manifest_file_def)
  then obtain gs where gs: "prefix gs (map encode_manifest es')" "log_file False MAX_MANIFEST_PAYLOAD False (map encode_manifest es @ gs) [] f'"
    using crash_log f(2) by blast
  obtain es'' where es'': "gs = map encode_manifest es''" "prefix es'' es'" using prefix_map_encode [OF gs(1)] by blast
  obtain zs where zs: "es' = es'' @ zs" using es''(2) by (auto simp: prefix_def)
  have "dir_ok False (es @ es'') [] v'"
  proof (rule dir_okI)
    show "v' MANIFEST_NAME = Some f'" by (rule Some)
    show "manifest_file False (es @ es'') [] f'" using gs(2) es''(1) by (simp add: manifest_file_def)
    show "fl_entry f' \<or> dom v' = {MANIFEST_NAME}" using f(2) by (auto simp: crash_file_def)
    show "list_all entry_ok ((es @ es'') @ [])" "sorted (committed_segments ((es @ es'') @ []))"
      using dir_okD(3,4) [OF ok] zs by (auto simp: committed_append sorted_append)
    show "\<exists>g. v' (segment_name k) = Some g \<and> fl_entry g" if "k \<in> set (committed_segments ((es @ es'') @ []))" for k
    proof -
      have "k \<in> set (committed_segments (es @ es'))" using that zs by (auto simp: committed_append)
      then obtain g where "v (segment_name k) = Some g" "fl_entry g" using dir_okD(5) [OF ok] by blast
      then show ?thesis using crash unfolding crash_view_def crash_file_def by fastforce
    qed
    show "segment_file False g' \<and> (\<exists>k. n = segment_name k \<and> (fl_bytes g' = [] \<or> k \<in> set (committed_segments (es @ es''))))"
      if g': "v' n = Some g'" and n: "n \<noteq> MANIFEST_NAME" for n g'
    proof -
      obtain g where g: "v n = Some g" "crash_file g g'" using crash_source [OF crash g'] by blast
      obtain k where k: "segment_file tidy g" "n = segment_name k" "fl_bytes g = [] \<or> k \<in> set (committed_segments es)"
        using dir_okD(6) [OF ok g(1) n] by blast
      have "fl_bytes g' = [] \<or> k \<in> set (committed_segments (es @ es''))" using k(3) g(2) by (auto simp: crash_file_def committed_append)
      then show ?thesis using k(2) crash_segment [OF k(1) g(2)] by blast
    qed
  qed
  then show ?thesis using settled zs by (intro exI [of _ "es @ es''"]) auto
qed

end
