(* ===== verification/Recorder_Flush.thy ===== *)
theory Recorder_Flush
  imports Recorder_Logs
begin

text \<open>
  The operations of the coordinator on the recording of one recorder: closing and opening segments, and
  flushing the queue. They keep the directory of the recording well-formed whatever fails, leave all other
  recorders and directories alone, and flushing appends exactly the queued events in order.
\<close>

section \<open>Frames\<close>

text \<open>What an operation on one recorder leaves alone.\<close>

definition frame :: "recorder_id \<Rightarrow> coordinator \<Rightarrow> coordinator \<Rightarrow> bool" where
  "frame i s s' \<longleftrightarrow> (\<forall>j. j \<noteq> i \<longrightarrow> get_recorder s' j = get_recorder s j)
     \<and> only_dir (recorder_directory i) (co_world s) (co_world s') \<and> co_receipts s' = co_receipts s"

lemma frame_refl [simp]: "frame i s s"
  by (simp add: frame_def)

lemma frame_trans: "frame i s s1 \<Longrightarrow> frame i s1 s2 \<Longrightarrow> frame i s s2"
  unfolding frame_def by (metis only_dir_trans)

lemma get_put [simp]: "get_recorder (put_recorder i r s) j = (if j = i then Some r else get_recorder s j)"
  by (simp add: get_recorder_def put_recorder_def map_of_bt_insert)

lemma put_world [simp]: "co_world (put_recorder i r s) = co_world s" "co_receipts (put_recorder i r s) = co_receipts s"
  by (simp_all add: put_recorder_def)

lemma get_update [simp]: "get_recorder (update_recorder i f s) j = (if j = i then map_option f (get_recorder s i) else get_recorder s j)"
  by (auto simp: update_recorder_def split: option.split)

lemma update_world [simp]: "co_world (update_recorder i f s) = co_world s" "co_receipts (update_recorder i f s) = co_receipts s"
  by (simp_all add: update_recorder_def split: option.split)

lemma get_world [simp]: "get_recorder (s\<lparr>co_world := w\<rparr>) j = get_recorder s j"
  by (simp add: get_recorder_def)

lemma frame_put: "frame i s (put_recorder i r s)" and frame_update: "frame i s (update_recorder i f s)"
  by (simp_all add: frame_def)

lemma frame_world: "only_dir (recorder_directory i) (co_world s) w \<Longrightarrow> frame i s (s\<lparr>co_world := w\<rparr>)"
  by (simp add: frame_def)

abbreviation files :: "coordinator \<Rightarrow> recorder_id \<Rightarrow> string \<Rightarrow> stored_file option" where
  "files s i \<equiv> view (co_world s) (recorder_directory i)"

abbreviation quiet :: "coordinator \<Rightarrow> bool" where
  "quiet s \<equiv> w_faults (co_world s) = []"

section \<open>Storage without faults\<close>

lemma next_fault_quiet: "w_faults w = [] \<Longrightarrow> next_fault w = (NoFault, w)"
  by (simp add: next_fault_def)

lemma update_file_faults [simp]: "w_faults (update_file p g w) = w_faults w"
  by (simp add: update_file_def put_file_def split: option.split)

definition calm :: "(world \<Rightarrow> (recorder_error + 'a) \<times> world) \<Rightarrow> bool" where
  "calm f \<longleftrightarrow> (\<forall>w. w_faults w = [] \<longrightarrow> (\<exists>a w'. f w = (Inr a, w') \<and> w_faults w' = []))"

lemma calm_io_step: "(\<And>w. w_faults (effect w) = w_faults w) \<Longrightarrow> calm (io_step p effect)"
  by (simp add: calm_def io_step_def next_fault_quiet)

lemma calm_then: "calm f \<Longrightarrow> calm g \<Longrightarrow> calm (io_then f g)"
  unfolding calm_def io_then_def by (metis (no_types, lifting) old.prod.case sum.case(2))

lemma calm_ops: "calm (open_append p)" "calm (sync_all p)" "calm (sync_directory d)" "calm (truncate_file p n)" "calm (remove_file p)"
  by (simp_all add: open_append_def sync_all_def sync_directory_def truncate_file_def remove_file_def put_file_def calm_io_step)

lemma calm_done: "calm (\<lambda>w. (Inr a, w))"
  by (simp add: calm_def)

lemma calm_write_all: "calm (write_all p bs)"
  by (simp add: calm_def write_all_def next_fault_quiet)

lemma calm_write_frame: "length payload \<le> maximum \<Longrightarrow> calm (write_frame p k payload maximum)"
  using calm_then [OF calm_write_all calm_then [OF calm_write_all calm_done], of p "frame_header k payload" p payload]
  by (simp add: write_frame_def [abs_def])

lemma calm_write_frames: "list_all (frame_ok MAX_ENCODED_FRAME_PAYLOAD True) fs \<Longrightarrow> calm (write_frames p fs)"
proof (induction fs)
  case (Cons f fs)
  obtain k q where f: "f = (k, q)" by (cases f)
  have "write_frames p (f # fs) = io_then (write_frame p k q MAX_ENCODED_FRAME_PAYLOAD) (write_frames p fs)"
    by (rule ext) (simp add: f)
  moreover have "length q \<le> MAX_ENCODED_FRAME_PAYLOAD" using Cons.prems by (simp add: f frame_ok_def)
  ultimately show ?case using Cons calm_then [OF calm_write_frame Cons.IH] by simp
qed (simp add: calm_def)

lemma calm_commit_batch: "list_all (frame_ok MAX_ENCODED_FRAME_PAYLOAD True) fs \<Longrightarrow> calm (commit_batch p fs)"
  unfolding commit_batch_def by (intro calm_then calm_write_frames calm_ops)

lemma calm_write_manifest_frame: "calm (write_manifest_frame p e)"
  unfolding write_manifest_frame_def by (intro calm_then calm_write_frame calm_ops manifest_payload_fits)

section \<open>The state of one recorder\<close>

definition config_fits :: "recorder_config \<Rightarrow> bool" where
  "config_fits c \<longleftrightarrow> config_ok c \<and> ql_max_events (rc_queue c) < 2 ^ 64 \<and> ql_max_bytes (rc_queue c) < 2 ^ 64"

text \<open>The bounds of the queue; a limit of the largest \<open>usize\<close> is none, as the sum saturates there.\<close>

definition bytes_fit :: "recorder_config \<Rightarrow> nat \<Rightarrow> bool" where
  "bytes_fit c n \<longleftrightarrow> n \<le> ql_max_bytes (rc_queue c) \<or> ql_max_bytes (rc_queue c) = 2 ^ 64 - 1"

definition queue_ok :: "recorder \<Rightarrow> bool" where
  "queue_ok r \<longleftrightarrow> (\<forall>e \<in> set (re_queue r). validate_event e = Inr ())
     \<and> re_queue_bytes r = sum_list (map event_queue_bytes (re_queue r))
     \<and> (re_queue r \<noteq> [] \<longrightarrow> (\<exists>c. re_config r = Some c \<and> length (re_queue r) \<le> ql_max_events (rc_queue c) \<and> bytes_fit c (re_queue_bytes r)))"

text \<open>A recorder whose directory is well-formed, perhaps with incomplete records.\<close>

definition held :: "coordinator \<Rightarrow> recorder_id \<Rightarrow> recorder \<Rightarrow> bool" where
  "held s i r \<longleftrightarrow> get_recorder s i = Some r \<and> re_id r = i \<and> re_directory r = recorder_directory i \<and> queue_ok r
     \<and> (\<exists>es es'. dir_ok False es es' (files s i))"

text \<open>A recorder that records into segment \<open>k\<close>.\<close>

definition recording :: "coordinator \<Rightarrow> recorder_id \<Rightarrow> recorder \<Rightarrow> manifest_entry list \<Rightarrow> u64 \<Rightarrow> recorder_config \<Rightarrow> bool" where
  "recording s i r es k c \<longleftrightarrow> held s i r \<and> dir_ok True es [] (files s i) \<and> re_state r = Recording
     \<and> k \<in> set (committed_segments es) \<and> (\<forall>j \<in> set (committed_segments es). j \<le> k)
     \<and> re_segment_index r = Some k \<and> re_segment r = Some (segment_path (recorder_directory i) k)
     \<and> re_manifest r = Some (recorder_directory i, MANIFEST_NAME) \<and> re_config r = Some c \<and> config_fits c"

lemma recordingD:
  assumes "recording s i r es k c"
  shows "held s i r" "get_recorder s i = Some r" "re_id r = i" "re_directory r = recorder_directory i" "queue_ok r"
    "dir_ok True es [] (files s i)" "re_state r = Recording" "k \<in> set (committed_segments es)" "\<forall>j \<in> set (committed_segments es). j \<le> k"
    "re_segment_index r = Some k" "re_segment r = Some (recorder_directory i, segment_name k)"
    "re_manifest r = Some (recorder_directory i, MANIFEST_NAME)" "re_config r = Some c" "config_fits c"
  using assms by (auto simp: recording_def held_def segment_path_def)

lemma recording_manifest:
  assumes "dir_ok tidy es [] v" "k \<in> set (committed_segments es)"
  shows "\<exists>f. v MANIFEST_NAME = Some f \<and> fl_entry f"
proof -
  obtain g where g: "v (segment_name k) = Some g" using dir_okD(5) [OF assms(1), of k] assms(2) by auto
  then obtain f where "v MANIFEST_NAME = Some f" using dir_okD(1) [OF assms(1)] by (cases "v MANIFEST_NAME") auto
  then show ?thesis using dir_okD(2) [OF assms(1)] g by (metis domI segment_name_neq(1) singletonD)
qed

text \<open>The recorded bytes by segment.\<close>

definition segdata :: "(string \<Rightarrow> stored_file option) \<Rightarrow> u64 \<Rightarrow> u8 list" where
  "segdata v k = (case v (segment_name k) of None \<Rightarrow> [] | Some g \<Rightarrow> fl_bytes g)"

lemma segdata_steps:
  "segdata (opened n v) = segdata v" "segdata (synced n v) = segdata v" "segdata (entries_synced v) = segdata v"
  "segdata (appended MANIFEST_NAME bs v) = segdata v"
  by (auto simp: fun_eq_iff segdata_def opened_def synced_def entries_synced_def appended_def split: option.split)

lemma queue_ok_cong: "re_queue r' = re_queue r \<Longrightarrow> re_queue_bytes r' = re_queue_bytes r \<Longrightarrow> re_config r' = re_config r \<Longrightarrow> queue_ok r' = queue_ok r"
  by (simp add: queue_ok_def)

section \<open>Closing and opening segments\<close>

lemma lift_io_cases:
  assumes "lift_io f s = (x, s')"
  obtains w where "f (co_world s) = (x, w)" "s' = s\<lparr>co_world := w\<rparr>"
  using assms by (cases "f (co_world s)") (auto simp: lift_io_def)

lemma directory_not_Nil [simp]: "recorder_directory i \<noteq> []"
  by (simp add: recorder_directory_def)

lemma calm_lift: "calm f \<Longrightarrow> quiet s \<Longrightarrow> \<exists>a s'. lift_io f s = (Inr a, s') \<and> quiet s'"
  unfolding calm_def lift_io_def by (metis (no_types, lifting) case_prod_conv coordinator.select_convs(3) coordinator.surjective coordinator.update_convs(3))

text \<open>The manifest frame of an action on a directory that is tidy.\<close>

lemma manifest_frame_effect:
  assumes ok: "dir_ok True es [] (files s i)" and man: "files s i MANIFEST_NAME = Some f" and e: "entry_ok e"
    "\<forall>k \<in> set (entry_opens e). (\<forall>j \<in> set (committed_segments es). j \<le> k) \<and> (\<exists>g. files s i (segment_name k) = Some g \<and> fl_entry g)"
    and run: "lift_io (write_manifest_frame (recorder_directory i, MANIFEST_NAME) e) s = (x, s')"
  shows "frame i s s' \<and> (\<forall>j. get_recorder s' j = get_recorder s j) \<and> (\<exists>fs fs'. dir_ok False fs fs' (files s' i))
    \<and> (\<not> isl x \<longrightarrow> dir_ok True (es @ [e]) [] (files s' i) \<and> segdata (files s' i) = segdata (files s i)) \<and> (quiet s \<longrightarrow> \<not> isl x \<and> quiet s')"
proof -
  let ?d = "recorder_directory i"
  obtain w where w: "write_manifest_frame (?d, MANIFEST_NAME) e (co_world s) = (x, w)" "s' = s\<lparr>co_world := w\<rparr>"
    using run by (rule lift_io_cases)
  note step = write_manifest_frame_effect [OF w(1)]
  have full: "dir_ok True (es @ [e]) [] (files s' i) \<and> segdata (files s' i) = segdata (files s i)"
    if "view w ?d = synced MANIFEST_NAME (appended MANIFEST_NAME (log_bytes [encode_manifest e]) (files s i))"
    using append_manifest_ok(2) [OF ok man e] that w(2) by (simp add: segdata_steps)
  have "\<exists>fs fs'. dir_ok False fs fs' (files s' i)"
    using step full dir_ok_untidy append_manifest_ok(1) [OF ok man e] w(2) by (metis coordinator.select_convs(3) coordinator.surjective coordinator.update_convs(3))
  moreover have "\<not> isl x \<longrightarrow> dir_ok True (es @ [e]) [] (files s' i) \<and> segdata (files s' i) = segdata (files s i)" using step full by blast
  moreover have "frame i s s' \<and> (\<forall>j. get_recorder s' j = get_recorder s j)" using step w(2) by (simp add: frame_world)
  moreover have "\<not> isl x \<and> quiet s'" if "quiet s" using calm_lift [OF calm_write_manifest_frame that] run by (metis Pair_inject isl_def sum.distinct(1))
  ultimately show ?thesis by blast
qed

text \<open>One step on the directory of a recorder.\<close>

lemma lift_step:
  assumes step: "dir_step (recorder_directory i) g f" and calm: "calm f" and run: "lift_io f s = (x, s')"
  shows "frame i s s' \<and> (\<forall>j. get_recorder s' j = get_recorder s j) \<and> (files s' i = g (files s i) \<or> isl x \<and> files s' i = files s i)
    \<and> (quiet s \<longrightarrow> \<not> isl x \<and> quiet s')"
proof -
  obtain w where w: "f (co_world s) = (x, w)" "s' = s\<lparr>co_world := w\<rparr>" using run by (rule lift_io_cases)
  have "\<not> isl x \<and> quiet s'" if "quiet s" using calm_lift [OF calm that] run by (metis Pair_inject isl_def sum.distinct(1))
  then show ?thesis using dir_step_view [OF step w(1)] w(2) by (auto simp: frame_world)
qed

lemma sync_effect:
  assumes "dir_ok True es [] (files s i)" and run: "lift_io (sync_all (recorder_directory i, n)) s = (x, s')"
  shows "frame i s s' \<and> (\<forall>j. get_recorder s' j = get_recorder s j) \<and> files s' i = files s i \<and> (quiet s \<longrightarrow> \<not> isl x \<and> quiet s')"
  using lift_step [OF sync_all_step calm_ops(2) run] synced_tidy [OF assms(1)] by auto

lemma sync_directory_effect:
  assumes "dir_ok tidy es es' (files s i)" and run: "lift_io (sync_directory (recorder_directory i)) s = (x, s')"
  shows "frame i s s' \<and> (\<forall>j. get_recorder s' j = get_recorder s j) \<and> dir_ok tidy es es' (files s' i) \<and> segdata (files s' i) = segdata (files s i)
    \<and> (\<forall>n. files s' i n = None \<longleftrightarrow> files s i n = None) \<and> (\<not> isl x \<longrightarrow> (\<forall>n f. files s' i n = Some f \<longrightarrow> fl_entry f)) \<and> (quiet s \<longrightarrow> \<not> isl x \<and> quiet s')"
proof -
  note step = lift_step [OF sync_directory_step [OF directory_not_Nil] calm_ops(3) run]
  have "dir_ok tidy es es' (files s' i)" using step assms(1) entries_synced_ok by metis
  then show ?thesis using step by (auto simp: segdata_steps entries_synced_def)
qed

lemma close_segment_effect:
  assumes rec: "recording s i r es k c" and run: "close_segment i s = (x, s')"
  shows "frame i s s' \<and> (isl x \<longrightarrow> held s' i r)
    \<and> (\<not> isl x \<longrightarrow> held s' i (r\<lparr>re_segment := None\<rparr>) \<and> dir_ok True (es @ [SegmentClose k (re_segment_frames r) (re_segment_bytes r)]) [] (files s' i) \<and> segdata (files s' i) = segdata (files s i))
    \<and> (quiet s \<longrightarrow> \<not> isl x \<and> quiet s')"
proof -
  note R = recordingD [OF rec]
  let ?d = "recorder_directory i" and ?e = "SegmentClose k (re_segment_frames r) (re_segment_bytes r)"
  obtain x1 s1 where 1: "lift_io (sync_all (?d, segment_name k)) s = (x1, s1)" by force
  note sync = sync_effect [OF R(6) 1]
  obtain x2 s2 where 2: "lift_io (write_manifest_frame (?d, MANIFEST_NAME) ?e) s1 = (x2, s2)" by force
  have ok1: "dir_ok True es [] (files s1 i)" using sync R(6) by simp
  obtain f where "files s1 i MANIFEST_NAME = Some f" using recording_manifest [OF ok1 R(8)] by blast
  note man = manifest_frame_effect [OF ok1 this _ _ 2, simplified]
  have "x = x1 \<and> s' = s1 \<and> isl x1 \<or> \<not> isl x1 \<and> (x = x2 \<and> s' = s2 \<and> isl x2 \<or> \<not> isl x \<and> \<not> isl x2 \<and> s' = update_recorder i (\<lambda>r. r\<lparr>re_segment := None\<rparr>) s2)"
    using run 1 2 R by (cases x1; cases x2) (auto simp: close_segment_def m_bind_def)
  moreover have "held s1 i r" using R sync by (simp add: held_def)
  moreover have "held s2 i r" using R sync man by (simp add: held_def)
  moreover have "held (update_recorder i (\<lambda>r. r\<lparr>re_segment := None\<rparr>) s2) i (r\<lparr>re_segment := None\<rparr>)"
    using calculation(3) queue_ok_cong [of "r\<lparr>re_segment := None\<rparr>" r] by (simp add: held_def)
  moreover have "frame i s s1" "frame i s s2" "frame i s (update_recorder i (\<lambda>r. r\<lparr>re_segment := None\<rparr>) s2)"
    using sync man frame_trans frame_update by blast+
  ultimately show ?thesis using sync man by auto
qed

lemma open_segment_effect:
  assumes ok: "dir_ok True es [] (files s i)" and man: "files s i MANIFEST_NAME = Some f" "fl_entry f"
    and run: "lift_io (open_append (recorder_directory i, segment_name k)) s = (x, s')"
  shows "frame i s s' \<and> (\<forall>j. get_recorder s' j = get_recorder s j) \<and> dir_ok True es [] (files s' i) \<and> segdata (files s' i) = segdata (files s i)
    \<and> (\<not> isl x \<longrightarrow> files s' i (segment_name k) \<noteq> None) \<and> (quiet s \<longrightarrow> \<not> isl x \<and> quiet s')"
proof -
  note step = lift_step [OF open_append_step calm_ops(1) run]
  have "dir_ok True es [] (files s' i)" using step ok open_segment_ok [OF ok man] by metis
  moreover have "opened n v n \<noteq> None" for n v by (simp add: opened_def)
  ultimately show ?thesis using step by (auto simp: segdata_steps)
qed

lemma reopen_manifest:
  assumes "files s i MANIFEST_NAME = Some f" and run: "lift_io (open_append (recorder_directory i, MANIFEST_NAME)) s = (x, s')"
  shows "frame i s s' \<and> (\<forall>j. get_recorder s' j = get_recorder s j) \<and> files s' i = files s i"
proof -
  have "opened MANIFEST_NAME (files s i) = files s i" using assms(1) by (simp add: opened_def)
  then show ?thesis using lift_step [OF open_append_step calm_ops(1) run] by auto
qed

lemma m_bind_assoc: "m_bind (m_bind a b) c = m_bind a (\<lambda>x. m_bind (b x) c)"
  by (rule ext) (auto simp: m_bind_def split: sum.splits prod.splits)

text \<open>
  A new segment: opened, synchronized, its entry made durable, and only then named by the manifest. The
  operations of \<open>start\<close>, \<open>rotate\<close> and reconciliation in sequence.
\<close>

definition prepare_segment :: "recorder_id \<Rightarrow> u64 \<Rightarrow> unit action" where
  "prepare_segment i k =
     (let d = recorder_directory i in
      m_bind (lift_io (open_append (segment_path d k))) (\<lambda>_.
      m_bind (lift_io (sync_all (segment_path d k))) (\<lambda>_. lift_io (sync_directory d))))"

definition new_segment :: "recorder_id \<Rightarrow> u64 \<Rightarrow> manifest_entry \<Rightarrow> unit action" where
  "new_segment i k e = m_bind (prepare_segment i k) (\<lambda>_. lift_io (write_manifest_frame (recorder_directory i, MANIFEST_NAME) e))"

lemma prepare_segment_effect:
  assumes ok: "dir_ok True es [] (files s i)" and man: "files s i MANIFEST_NAME = Some f" "fl_entry f"
    and run: "prepare_segment i k s = (x, s')"
  shows "frame i s s' \<and> (\<forall>j. get_recorder s' j = get_recorder s j) \<and> dir_ok True es [] (files s' i) \<and> segdata (files s' i) = segdata (files s i)
    \<and> (\<not> isl x \<longrightarrow> (\<exists>g. files s' i (segment_name k) = Some g \<and> fl_entry g) \<and> files s' i MANIFEST_NAME \<noteq> None) \<and> (quiet s \<longrightarrow> \<not> isl x \<and> quiet s')"
proof -
  let ?d = "recorder_directory i" and ?n = "segment_name k"
  obtain x1 s1 where 1: "lift_io (open_append (?d, ?n)) s = (x1, s1)" by force
  note opened = open_segment_effect [OF ok man 1]
  obtain x2 s2 where 2: "lift_io (sync_all (?d, ?n)) s1 = (x2, s2)" by force
  have ok1: "dir_ok True es [] (files s1 i)" using opened by blast
  note sync = sync_effect [OF ok1 2]
  obtain x3 s3 where 3: "lift_io (sync_directory ?d) s2 = (x3, s3)" by force
  have ok2: "dir_ok True es [] (files s2 i)" using ok1 sync by simp
  note dir = sync_directory_effect [OF ok2 3]
  have there: "(\<exists>g. files s3 i ?n = Some g \<and> fl_entry g) \<and> files s3 i MANIFEST_NAME \<noteq> None" if a: "\<not> isl x1" "\<not> isl x3"
  proof -
    have "files s3 i ?n \<noteq> None" using opened sync dir a(1) by simp
    then obtain g where g: "files s3 i ?n = Some g" "fl_entry g" using dir a(2) by blast
    have ok3: "dir_ok True es [] (files s3 i)" using dir by blast
    have "files s3 i MANIFEST_NAME \<noteq> None" using dir_okD(1) [OF ok3] g(1) by fastforce
    then show ?thesis using g by blast
  qed
  have "isl x \<and> isl x1 \<and> s' = s1 \<or> isl x \<and> \<not> isl x1 \<and> isl x2 \<and> s' = s2 \<or> \<not> isl x1 \<and> \<not> isl x2 \<and> x = x3 \<and> s' = s3"
    using run 1 2 3 by (cases x1; cases x2) (auto simp: prepare_segment_def m_bind_def Let_def segment_path_def)
  moreover have "frame i s s1" "frame i s s2" "frame i s s3" using opened sync dir frame_trans by blast+
  ultimately show ?thesis using opened sync dir there by (elim disjE) auto
qed

lemma new_segment_effect:
  assumes ok: "dir_ok True es [] (files s i)" and man: "files s i MANIFEST_NAME = Some f" "fl_entry f"
    and e: "entry_ok e" "entry_opens e = [k]" "\<forall>j \<in> set (committed_segments es). j \<le> k"
    and run: "new_segment i k e s = (x, s')"
  shows "frame i s s' \<and> (\<forall>j. get_recorder s' j = get_recorder s j) \<and> (\<exists>fs fs'. dir_ok False fs fs' (files s' i))
    \<and> (\<not> isl x \<longrightarrow> dir_ok True (es @ [e]) [] (files s' i) \<and> segdata (files s' i) = segdata (files s i)) \<and> (quiet s \<longrightarrow> \<not> isl x \<and> quiet s')"
proof -
  obtain x1 s1 where 1: "prepare_segment i k s = (x1, s1)" by force
  note prep = prepare_segment_effect [OF ok man 1]
  have ok1: "dir_ok True es [] (files s1 i)" using prep by blast
  show ?thesis
  proof (cases x1)
    case (Inl er)
    then have "x = Inl er" "s' = s1" using run 1 by (auto simp: new_segment_def m_bind_def)
    then show ?thesis using prep Inl dir_ok_untidy [OF ok1] by auto
  next
    case (Inr u)
    then obtain g f1 where g: "files s1 i (segment_name k) = Some g" "fl_entry g" "files s1 i MANIFEST_NAME = Some f1" using prep by auto
    have "lift_io (write_manifest_frame (recorder_directory i, MANIFEST_NAME) e) s1 = (x, s')" using run 1 Inr by (simp add: new_segment_def m_bind_def)
    from manifest_frame_effect [OF ok1 g(3) e(1) _ this] show ?thesis
      using prep e(2,3) g(1,2) frame_trans [of i s s1 s'] by auto
  qed
qed

lemma open_next_eq:
  assumes "get_recorder s i = Some r" "re_directory r = recorder_directory i" "re_state r = Recording" "re_segment_index r = Some k"
    "re_manifest r = Some (recorder_directory i, MANIFEST_NAME)"
  shows "open_next_segment i s = (case checked_add k 1 of
      None \<Rightarrow> (Inl (FormatLimit ''segment index exhausted''), s)
    | Some j \<Rightarrow> m_bind (new_segment i j (SegmentOpen j)) (\<lambda>_ s'. (Inr (), update_recorder i (\<lambda>r. r\<lparr>re_segment := Some (segment_path (recorder_directory i) j),
        re_segment_index := Some j, re_segment_frames := 0, re_segment_bytes := 0\<rparr>) s')) s)"
  using assms by (auto simp: open_next_segment_def new_segment_def prepare_segment_def m_bind_def Let_def split: option.split sum.split prod.split)

definition in_segment :: "u64 \<Rightarrow> recorder_id \<Rightarrow> recorder \<Rightarrow> recorder" where
  "in_segment k i r = r\<lparr>re_segment := Some (segment_path (recorder_directory i) k), re_segment_index := Some k, re_segment_frames := 0, re_segment_bytes := 0\<rparr>"

lemma open_next_effect:
  assumes h: "held s i r" "dir_ok True es [] (files s i)" "k \<in> set (committed_segments es)" "\<forall>j \<in> set (committed_segments es). j \<le> k"
    and r: "re_state r = Recording" "re_segment_index r = Some k" "re_manifest r = Some (recorder_directory i, MANIFEST_NAME)"
      "re_config r = Some c" "config_fits c"
    and run: "open_next_segment i s = (x, s')"
  shows "frame i s s' \<and> (isl x \<longrightarrow> held s' i r)
    \<and> (\<not> isl x \<longrightarrow> (\<exists>es'. recording s' i (in_segment (k + 1) i r) es' (k + 1) c) \<and> unat (k + 1) = unat k + 1 \<and> segdata (files s' i) = segdata (files s i))
    \<and> (quiet s \<and> unat k + 1 < 2 ^ 64 \<longrightarrow> \<not> isl x \<and> quiet s')"
proof -
  have g: "get_recorder s i = Some r" "re_directory r = recorder_directory i" "re_id r = i" "queue_ok r" using h(1) by (simp_all add: held_def)
  note eq = open_next_eq [OF g(1,2) r(1,2,3)]
  show ?thesis
  proof (cases "checked_add k 1")
    case None
    then have "x = Inl (FormatLimit ''segment index exhausted'')" "s' = s" "\<not> unat k + 1 < 2 ^ 64"
      using run eq by (auto simp: checked_add_def split: if_splits)
    then show ?thesis using h by auto
  next
    case (Some j)
    then have j: "j = k + 1" "unat (k + 1) = unat k + 1" by (auto simp: checked_add_def unat_word_ariths split: if_splits)
    obtain x2 s2 where 2: "new_segment i j (SegmentOpen j) s = (x2, s2)" by force
    have le: "\<forall>j' \<in> set (committed_segments es). j' \<le> j" using h(4) j by (auto simp: word_le_nat_alt)
    obtain f where f: "files s i MANIFEST_NAME = Some f" "fl_entry f" using recording_manifest [OF h(2,3)] by blast
    note new = new_segment_effect [OF h(2) f _ _ le 2, simplified]
    show ?thesis
    proof (cases x2)
      case (Inl e)
      then have "x = Inl e" "s' = s2" using run eq Some 2 by (auto simp: m_bind_def)
      moreover have "held s2 i r" using h(1) new by (simp add: held_def)
      ultimately show ?thesis using new Inl by auto
    next
      case (Inr u2)
      then have x: "x = Inr ()" "s' = update_recorder i (in_segment j i) s2" using run eq Some 2 by (auto simp: m_bind_def in_segment_def [abs_def])
      have "queue_ok (in_segment j i r)" using g(4) queue_ok_cong [of "in_segment j i r" r] by (simp add: in_segment_def)
      then have "recording s' i (in_segment j i r) (es @ [SegmentOpen j]) j c"
        using x new g r Inr le by (auto simp: recording_def held_def in_segment_def committed_append)
      moreover have "frame i s s'" using x new frame_trans frame_update by blast
      ultimately show ?thesis using x j new Inr by auto
    qed
  qed
qed

lemma rotate_effect:
  assumes rec: "recording s i r es k c" and run: "rotate_inner i s = (x, s')"
  shows "frame i s s' \<and> (isl x \<longrightarrow> (\<exists>r'. held s' i r'))
    \<and> (\<not> isl x \<longrightarrow> (\<exists>es'. recording s' i (in_segment (k + 1) i r) es' (k + 1) c) \<and> unat (k + 1) = unat k + 1 \<and> segdata (files s' i) = segdata (files s i))
    \<and> (quiet s \<and> unat k + 1 < 2 ^ 64 \<longrightarrow> \<not> isl x \<and> quiet s')"
proof -
  note R = recordingD [OF rec]
  let ?c = "SegmentClose k (re_segment_frames r) (re_segment_bytes r)" and ?r = "r\<lparr>re_segment := None\<rparr>"
  obtain x1 s1 where 1: "close_segment i s = (x1, s1)" by force
  note close = close_segment_effect [OF rec 1]
  show ?thesis
  proof (cases x1)
    case (Inl e)
    then have "x = Inl e" "s' = s1" using run 1 by (auto simp: rotate_inner_def m_bind_def)
    then show ?thesis using close Inl by auto
  next
    case (Inr u)
    then have h: "held s1 i ?r" "dir_ok True (es @ [?c]) [] (files s1 i)" "segdata (files s1 i) = segdata (files s i)" "frame i s s1" "quiet s \<longrightarrow> quiet s1"
      using close by auto
    have com: "k \<in> set (committed_segments (es @ [?c]))" "\<forall>j \<in> set (committed_segments (es @ [?c])). j \<le> k"
      using R(8,9) by (auto simp: committed_append)
    have "open_next_segment i s1 = (x, s')" using run 1 Inr by (simp add: rotate_inner_def m_bind_def)
    note opened = open_next_effect [OF h(1,2) com _ _ _ _ R(14) this, simplified, OF R(7,10,12,13)]
    have eq: "in_segment (k + 1) i ?r = in_segment (k + 1) i r" by (simp add: in_segment_def)
    show ?thesis using opened [unfolded eq] h(3-5) frame_trans [OF h(4)] by auto
  qed
qed

section \<open>Flushing the queue\<close>

definition event_record :: "record_event \<Rightarrow> u8 \<times> u8 list" where
  "event_record e = (case encoded_event e of Inr f \<Rightarrow> f | Inl _ \<Rightarrow> (0, []))"

lemma event_record_ok:
  assumes "validate_event e = Inr ()"
  shows "encoded_event e = Inr (event_record e)" "frame_ok MAX_ENCODED_FRAME_PAYLOAD True (event_record e)"
    "\<exists>n. framed_len (length (snd (event_record e))) = Inr n"
proof -
  obtain bs where bs: "encoded_event e = Inr (kind_of_event e, bs)" "frame_ok MAX_ENCODED_FRAME_PAYLOAD True (kind_of_event e, bs)"
    using validated_events_encode [OF assms] by blast
  then show "encoded_event e = Inr (event_record e)" "frame_ok MAX_ENCODED_FRAME_PAYLOAD True (event_record e)" by (simp_all add: event_record_def)
  have "length bs < 2 ^ 40" using bs(2) by (simp add: frame_ok_def MAX_ENCODED_FRAME_PAYLOAD_def MAX_PAYLOAD_BYTES_def)
  then have "framed_len (length bs) = Inr (24 + of_nat (length bs))"
    by (simp add: framed_len_def word_try_from_def checked_add_def HEADER_LEN_def unat_of_nat take_bit_nat_eq_self ok_or_def)
  then show "\<exists>n. framed_len (length (snd (event_record e))) = Inr n" using bs(1) by (simp add: event_record_def)
qed

text \<open>A batch is a prefix of the queue, and not empty unless the first event does not fit into the segment.\<close>

lemma flush_batch_prefix:
  assumes "\<forall>e \<in> set es. validate_event e = Inr ()"
  shows "\<exists>m n b. flush_batch policy frames bytes es = Inr (map event_record (take m es), n, b, sum_list (map event_queue_bytes (take m es)))
    \<and> m \<le> length es \<and> (es \<noteq> [] \<and> (\<forall>z f. \<not> should_rotate policy frames bytes z f) \<longrightarrow> m > 0)"
  using assms
proof (induction es arbitrary: frames bytes)
  case (Cons e es)
  have valid: "validate_event e = Inr ()" using Cons.prems by simp
  obtain z where z: "framed_len (length (snd (event_record e))) = Inr z" using event_record_ok(3) [OF valid] by blast
  let ?one = "if counts_as_frame e then 1 else 0 :: u64"
  obtain m n b where IH: "flush_batch policy (saturating_add frames ?one) (saturating_add bytes z) es
      = Inr (map event_record (take m es), n, b, sum_list (map event_queue_bytes (take m es)))" "m \<le> length es"
    using Cons.IH [of "saturating_add frames ?one" "saturating_add bytes z"] Cons.prems by auto
  show ?case
  proof (cases "should_rotate policy frames bytes z (counts_as_frame e)")
    case True
    then show ?thesis using event_record_ok(1) [OF valid] z
      by (intro exI [of _ 0]) (auto simp: split_beta)
  next
    case False
    then show ?thesis using event_record_ok(1) [OF valid] z IH
      by (intro exI [of _ "Suc m"]) (auto simp: split_beta Let_def)
  qed
qed simp

lemma fresh_no_rotation: "config_fits c \<Longrightarrow> \<not> should_rotate (rc_segments c) 0 0 z f"
  by (auto simp: should_rotate_def config_fits_def config_ok_def is_some_and_def split: option.splits)

lemma commit_effect:
  assumes rec: "recording s i r es k c" and frames: "list_all (frame_ok MAX_ENCODED_FRAME_PAYLOAD True) fs"
    and run: "lift_io (commit_batch (recorder_directory i, segment_name k) fs) s = (x, s')"
  shows "frame i s s' \<and> (\<forall>j. get_recorder s' j = get_recorder s j) \<and> held s' i r
    \<and> (\<not> isl x \<longrightarrow> recording s' i r es k c \<and> segdata (files s' i) = (segdata (files s i))(k := segdata (files s i) k @ log_bytes fs))
    \<and> (quiet s \<longrightarrow> \<not> isl x \<and> quiet s')"
proof -
  note R = recordingD [OF rec]
  let ?d = "recorder_directory i" and ?n = "segment_name k"
  obtain w where w: "commit_batch (?d, ?n) fs (co_world s) = (x, w)" "s' = s\<lparr>co_world := w\<rparr>" using run by (rule lift_io_cases)
  note step = commit_batch_effect [OF frames w(1)]
  obtain g where g: "files s i ?n = Some g" using dir_okD(5) [OF R(6), of k] R(8) by auto
  have full: "recording s' i r es k c \<and> segdata (files s' i) = (segdata (files s i))(k := segdata (files s i) k @ log_bytes fs)"
    if v: "view w ?d = synced ?n (appended ?n (log_bytes fs) (files s i))"
  proof
    have ok: "dir_ok True es [] (files s' i)" using append_segment_ok(2) [OF R(6,8) frames] v w(2) by simp
    then have "held s' i r" using R w(2) dir_ok_untidy unfolding held_def by fastforce
    then show "recording s' i r es k c" using rec ok by (simp add: recording_def)
    show "segdata (files s' i) = (segdata (files s i))(k := segdata (files s i) k @ log_bytes fs)"
      using v w(2) g by (auto simp: segdata_def synced_def appended_def fun_eq_iff)
  qed
  have "held s' i r"
  proof (cases "view w ?d = synced ?n (appended ?n (log_bytes fs) (files s i))")
    case False
    then obtain m where "view w ?d = appended ?n (take m (log_bytes fs)) (files s i)" using step by blast
    then have "dir_ok False es [] (files s' i)" using append_segment_ok(1) [OF R(6,8) frames] w(2) by simp
    then show ?thesis using R w(2) unfolding held_def by fastforce
  qed (use full recordingD(1) in blast)
  moreover have "\<not> isl x \<and> quiet s'" if "quiet s" using calm_lift [OF calm_commit_batch [OF frames] that] run by (metis Pair_inject isl_def sum.distinct(1))
  ultimately show ?thesis using step w(2) full by (auto simp: frame_world)
qed

text \<open>Everything recorded up to a segment, in order.\<close>

definition hist :: "(string \<Rightarrow> stored_file option) \<Rightarrow> u64 \<Rightarrow> u8 list" where
  "hist v k = concat (map (\<lambda>j. segdata v (of_nat j)) [0..<Suc (unat k)])"

lemma hist_next: "unat (k + 1) = unat k + 1 \<Longrightarrow> segdata v (k + 1) = [] \<Longrightarrow> hist v (k + 1) = hist v k"
proof -
  assume k: "unat (k + 1) = unat k + 1" and empty: "segdata v (k + 1) = []"
  have "(of_nat (unat k + 1) :: u64) = k + 1" by (simp flip: k)
  then have "segdata v (of_nat (unat k + 1)) = []" using empty by (simp only:)
  then show ?thesis by (simp add: hist_def k)
qed

lemma hist_append:
  assumes "segdata v' = (segdata v)(k := segdata v k @ bs)"
  shows "hist v' k = hist v k @ bs"
proof -
  have "segdata v' (of_nat j) = segdata v (of_nat j)" if "j < unat k" for j
  proof -
    have "unat (of_nat j :: u64) = j" using that unat_lt2p_any [of k] by (intro unat_of_nat_u64) simp
    then have "of_nat j \<noteq> k" using that by auto
    then show ?thesis using assms by simp
  qed
  then have before: "map (\<lambda>j. segdata v' (of_nat j)) [0..<unat k] = map (\<lambda>j. segdata v (of_nat j)) [0..<unat k]" by simp
  have "segdata v' k = segdata v k @ bs" using assms by simp
  then show ?thesis by (simp add: hist_def before)
qed

lemma segdata_unopened:
  assumes "dir_ok tidy es [] v" "\<forall>j \<in> set (committed_segments es). j \<le> k" "unat (k + 1) = unat k + 1"
  shows "segdata v (k + 1) = []"
proof (cases "v (segment_name (k + 1))")
  case (Some g)
  have "k + 1 \<notin> set (committed_segments es)" using assms(2,3) by (auto simp: word_le_nat_alt)
  then show ?thesis using dir_okD(6) [OF assms(1) Some] Some by (auto simp: segdata_def)
qed (simp add: segdata_def)

definition fresh :: "recorder \<Rightarrow> bool" where
  "fresh r \<longleftrightarrow> re_segment_frames r = 0 \<and> re_segment_bytes r = 0 \<and> re_queue r \<noteq> []"

definition failed :: "coordinator \<Rightarrow> recorder_id \<Rightarrow> bool" where
  "failed s i \<longleftrightarrow> (\<exists>r. held s i r \<and> re_state r = Failed)"

lemma mark_failed_effect:
  assumes "held s i r"
  shows "frame i s (mark_failed i e s) \<and> failed (mark_failed i e s) i"
proof -
  let ?r = "r\<lparr>re_state := Failed, re_failure := Some e, re_manifest := None, re_segment := None\<rparr>"
  have "held (mark_failed i e s) i ?r" using assms queue_ok_cong [of ?r r] by (auto simp: held_def mark_failed_def)
  then show ?thesis unfolding failed_def mark_failed_def by (intro conjI frame_update exI [of _ ?r]) auto
qed

lemma queue_ok_drop:
  assumes "queue_ok r" "m \<le> length (re_queue r)"
  shows "queue_ok (batch_written m n b (sum_list (map event_queue_bytes (take m (re_queue r)))) r)"
proof -
  let ?q = "re_queue r"
  have split: "sum_list (map event_queue_bytes ?q) = sum_list (map event_queue_bytes (take m ?q)) + sum_list (map event_queue_bytes (drop m ?q))"
    by (metis append_take_drop_id map_append sum_list.append)
  have bytes: "re_queue_bytes r - sum_list (map event_queue_bytes (take m ?q)) = sum_list (map event_queue_bytes (drop m ?q))"
    using assms(1) split by (simp add: queue_ok_def)
  have valid: "\<forall>e \<in> set (drop m ?q). validate_event e = Inr ()" using assms(1) by (auto simp: queue_ok_def dest: in_set_dropD)
  have limits: "\<exists>c. re_config r = Some c \<and> length (drop m ?q) \<le> ql_max_events (rc_queue c) \<and> bytes_fit c (sum_list (map event_queue_bytes (drop m ?q)))"
    if rest: "drop m ?q \<noteq> []"
  proof -
    obtain c where "re_config r = Some c" "length ?q \<le> ql_max_events (rc_queue c)" "bytes_fit c (re_queue_bytes r)"
      using assms(1) rest by (fastforce simp: queue_ok_def)
    then show ?thesis using bytes by (intro exI [of _ c]) (auto simp: bytes_fit_def intro: order_trans [OF diff_le_self])
  qed
  show ?thesis unfolding queue_ok_def batch_written_def using valid limits bytes by simp
qed

text \<open>The post-condition of the loop of \<open>flush\<close>.\<close>

definition flushed :: "recorder_id \<Rightarrow> u8 list \<Rightarrow> recorder_config \<Rightarrow> usize \<Rightarrow> coordinator \<Rightarrow> (recorder_error + usize) \<Rightarrow> coordinator \<Rightarrow> bool" where
  "flushed i bytes c m s x s' \<longleftrightarrow> frame i s s' \<and> (isl x \<longrightarrow> failed s' i)
     \<and> (\<not> isl x \<longrightarrow> x = Inr m \<and> (\<exists>r es k. recording s' i r es k c \<and> re_queue r = [] \<and> hist (files s' i) k = bytes))"

lemma flushed_after: "frame i s s1 \<Longrightarrow> flushed i bytes c m s1 x s' \<Longrightarrow> flushed i bytes c m s x s'"
  unfolding flushed_def using frame_trans by blast

text \<open>One round of the loop: it fails, rotates into a fresh segment, or commits some events.\<close>

definition round_fails :: "recorder_id \<Rightarrow> recorder \<Rightarrow> u64 \<Rightarrow> coordinator \<Rightarrow> ((recorder_error + usize) \<times> coordinator) option \<Rightarrow> bool" where
  "round_fails i r k s y \<longleftrightarrow> (\<exists>e s'. y = Some (Inl e, s') \<and> frame i s s' \<and> failed s' i \<and> \<not> (quiet s \<and> (unat k + 1 < 2 ^ 64 \<or> fresh r)))"

definition round_rotates :: "recorder_id \<Rightarrow> recorder \<Rightarrow> u64 \<Rightarrow> recorder_config \<Rightarrow> coordinator \<Rightarrow> coordinator \<Rightarrow> bool" where
  "round_rotates i r k c s s1 \<longleftrightarrow> frame i s s1 \<and> \<not> fresh r \<and> unat (k + 1) = unat k + 1 \<and> (quiet s \<longrightarrow> quiet s1)
     \<and> hist (files s1 i) (k + 1) = hist (files s i) k \<and> (\<exists>es1. recording s1 i (in_segment (k + 1) i r) es1 (k + 1) c)"

definition round_commits :: "recorder_id \<Rightarrow> recorder \<Rightarrow> manifest_entry list \<Rightarrow> u64 \<Rightarrow> recorder_config \<Rightarrow> nat \<Rightarrow> coordinator \<Rightarrow> coordinator \<Rightarrow> bool" where
  "round_commits i r es k c m s s1 \<longleftrightarrow> 0 < m \<and> m \<le> length (re_queue r) \<and> frame i s s1 \<and> (quiet s \<longrightarrow> quiet s1)
     \<and> hist (files s1 i) k = hist (files s i) k @ log_bytes (map event_record (take m (re_queue r)))
     \<and> (\<exists>r1. recording s1 i r1 es k c \<and> re_queue r1 = drop m (re_queue r))"

lemma flush_rotates:
  assumes rec: "recording s i r es k c" and queue: "re_queue r \<noteq> []"
    and batch: "flush_batch (rc_segments c) (re_segment_frames r) (re_segment_bytes r) (re_queue r) = Inr ([], a, b, q)"
    and stale: "\<not> fresh r"
  shows "round_fails i r k s (flush_loop (Suc n) i written s)
    \<or> (\<exists>s1. flush_loop (Suc n) i written s = flush_loop n i written s1 \<and> round_rotates i r k c s s1)"
proof -
  note R = recordingD [OF rec]
  obtain x1 s1 where 1: "rotate_inner i s = (x1, s1)" by force
  note rot = rotate_effect [OF rec 1]
  have loop: "flush_loop (Suc n) i written s = (case x1 of Inl e \<Rightarrow> Some (Inl e, mark_failed i e s1) | Inr _ \<Rightarrow> flush_loop n i written s1)"
    using R queue batch 1 by (auto simp: on_error_def split: sum.split)
  show ?thesis
  proof (cases x1)
    case (Inl e)
    then obtain r1 where "held s1 i r1" using rot by auto
    then have "frame i s (mark_failed i e s1)" "failed (mark_failed i e s1) i" using mark_failed_effect [of s1 i r1 e] rot frame_trans by blast+
    then show ?thesis using loop Inl rot stale by (auto simp: round_fails_def)
  next
    case (Inr u)
    have k1: "unat (k + 1) = unat k + 1" and data: "segdata (files s1 i) = segdata (files s i)" using rot Inr by auto
    have "hist (files s1 i) (k + 1) = hist (files s i) k"
      using hist_next [OF k1, of "files s1 i"] segdata_unopened [OF R(6,9) k1] data by (simp add: hist_def)
    moreover have "unat k + 1 < 2 ^ 64" using k1 unat_lt2p_any [of "k + 1"] by simp
    ultimately show ?thesis using loop Inr rot stale k1 by (auto simp: round_rotates_def)
  qed
qed

lemma flush_commits:
  assumes rec: "recording s i r es k c" and queue: "re_queue r \<noteq> []" and m: "0 < m" "m \<le> length (re_queue r)"
    and batch: "flush_batch (rc_segments c) (re_segment_frames r) (re_segment_bytes r) (re_queue r)
      = Inr (map event_record (take m (re_queue r)), a, b, sum_list (map event_queue_bytes (take m (re_queue r))))"
  shows "round_fails i r k s (flush_loop (Suc n) i written s)
    \<or> (\<exists>s1. flush_loop (Suc n) i written s = flush_loop n i (written + m) s1 \<and> round_commits i r es k c m s s1)"
proof -
  note R = recordingD [OF rec]
  let ?fs = "map event_record (take m (re_queue r))"
  let ?w = "batch_written m a b (sum_list (map event_queue_bytes (take m (re_queue r))))"
  have frames: "list_all (frame_ok MAX_ENCODED_FRAME_PAYLOAD True) ?fs"
    using R(5) event_record_ok(2) by (auto simp: list_all_iff queue_ok_def dest: in_set_takeD)
  obtain x1 s1 where 1: "lift_io (commit_batch (recorder_directory i, segment_name k) ?fs) s = (x1, s1)" by force
  note com = commit_effect [OF rec frames 1]
  have len: "length ?fs = m" "?fs \<noteq> []" using m queue by auto
  have loop: "flush_loop (Suc n) i written s = (case x1 of Inl e \<Rightarrow> Some (Inl e, mark_failed i e s1)
      | Inr _ \<Rightarrow> flush_loop n i (written + m) (update_recorder i ?w s1))"
    using R queue batch len 1 by (auto simp: on_error_def split: sum.split)
  show ?thesis
  proof (cases x1)
    case (Inl e)
    then have "frame i s (mark_failed i e s1)" "failed (mark_failed i e s1) i" using mark_failed_effect [of s1 i r e] com frame_trans by blast+
    then show ?thesis using loop Inl com by (auto simp: round_fails_def)
  next
    case (Inr u)
    then have rec1: "recording s1 i r es k c" and data: "segdata (files s1 i) = (segdata (files s i))(k := segdata (files s i) k @ log_bytes ?fs)"
      using com by auto
    have "queue_ok (?w r)" using R(5) m(2) by (rule queue_ok_drop)
    then have "recording (update_recorder i ?w s1) i (?w r) es k c \<and> re_queue (?w r) = drop m (re_queue r)"
      using rec1 by (auto simp: recording_def held_def batch_written_def)
    moreover have "frame i s (update_recorder i ?w s1)" using com frame_trans frame_update by blast
    ultimately show ?thesis using loop Inr com hist_append [OF data] m unfolding round_commits_def by auto
  qed
qed

lemma flush_loop_effect:
  assumes "recording s i r es k c" "2 * length (re_queue r) < n + (if fresh r then 1 else 0)"
  shows "\<exists>x s'. flush_loop n i written s = Some (x, s')
    \<and> flushed i (hist (files s i) k @ log_bytes (map event_record (re_queue r))) c (written + length (re_queue r)) s x s'
    \<and> (quiet s \<and> unat k + length (re_queue r) < 2 ^ 64 + (if fresh r then 1 else 0) \<longrightarrow> \<not> isl x \<and> quiet s')"
  using assms
proof (induction n arbitrary: s r es k written)
  case 0
  then show ?case by (auto simp: fresh_def split: if_splits)
next
  case (Suc n)
  note R = recordingD [OF Suc.prems(1)]
  show ?case
  proof (cases "re_queue r = []")
    case True
    then show ?thesis using R Suc.prems(1) by (auto simp: flushed_def)
  next
    case False
    have valid: "\<forall>e \<in> set (re_queue r). validate_event e = Inr ()" using R(5) by (simp add: queue_ok_def)
    obtain m a b where batch: "flush_batch (rc_segments c) (re_segment_frames r) (re_segment_bytes r) (re_queue r)
        = Inr (map event_record (take m (re_queue r)), a, b, sum_list (map event_queue_bytes (take m (re_queue r))))"
      "m \<le> length (re_queue r)" "(\<forall>z f. \<not> should_rotate (rc_segments c) (re_segment_frames r) (re_segment_bytes r) z f) \<longrightarrow> m > 0"
      using flush_batch_prefix [OF valid] False by blast
    have "m = 0 \<Longrightarrow> \<not> fresh r" using batch(3) fresh_no_rotation [OF R(14)] by (auto simp: fresh_def)
    then consider (fails) "round_fails i r k s (flush_loop (Suc n) i written s)"
      | (rotates) s1 where "flush_loop (Suc n) i written s = flush_loop n i written s1" "round_rotates i r k c s s1"
      | (commits) s1 where "flush_loop (Suc n) i written s = flush_loop n i (written + m) s1" "round_commits i r es k c m s s1"
      using flush_rotates [OF Suc.prems(1) False, of a b 0 n written] flush_commits [OF Suc.prems(1) False _ batch(2,1), of n written] batch(1)
      by (cases "m = 0") auto
    then show ?thesis
    proof cases
      case fails
      moreover have "unat k + 1 < 2 ^ 64" if "unat k + length (re_queue r) < 2 ^ 64" using that False by (cases "re_queue r") auto
      ultimately show ?thesis by (auto simp: round_fails_def flushed_def simp del: flush_loop.simps)
    next
      case rotates
      let ?r = "in_segment (k + 1) i r"
      have q: "re_queue ?r = re_queue r" "fresh ?r" using False by (simp_all add: in_segment_def fresh_def)
      obtain es1 where rec1: "recording s1 i ?r es1 (k + 1) c" using rotates(2) by (auto simp: round_rotates_def)
      then obtain x s' where IH: "flush_loop n i written s1 = Some (x, s')"
        "flushed i (hist (files s1 i) (k + 1) @ log_bytes (map event_record (re_queue r))) c (written + length (re_queue r)) s1 x s'"
        "quiet s1 \<and> unat (k + 1) + length (re_queue r) < 2 ^ 64 + 1 \<longrightarrow> \<not> isl x \<and> quiet s'"
        using Suc.IH [OF rec1, of written] q Suc.prems(2) rotates(2) by (auto simp: round_rotates_def)
      then show ?thesis using rotates flushed_after by (auto simp: round_rotates_def simp del: flush_loop.simps)
    next
      case commits
      then obtain r1 where r1: "recording s1 i r1 es k c" "re_queue r1 = drop m (re_queue r)" by (auto simp: round_commits_def)
      have m: "0 < m" "m \<le> length (re_queue r)" "frame i s s1" "quiet s \<longrightarrow> quiet s1"
        and h: "hist (files s1 i) k = hist (files s i) k @ log_bytes (map event_record (take m (re_queue r)))"
        using commits(2) by (auto simp: round_commits_def)
      have "2 * length (re_queue r1) < n + (if fresh r1 then 1 else 0)"
        using Suc.prems(2) m(1,2) r1(2) by (auto split: if_splits)
      from Suc.IH [OF r1(1) this, of "written + m"] obtain x s' where IH: "flush_loop n i (written + m) s1 = Some (x, s')"
        "flushed i (hist (files s1 i) k @ log_bytes (map event_record (re_queue r1))) c (written + m + length (re_queue r1)) s1 x s'"
        "quiet s1 \<and> unat k + length (re_queue r1) < 2 ^ 64 + (if fresh r1 then 1 else 0) \<longrightarrow> \<not> isl x \<and> quiet s'"
        by blast
      have "map event_record (re_queue r) = map event_record (take m (re_queue r)) @ map event_record (drop m (re_queue r))"
        by (metis append_take_drop_id map_append)
      then have "flushed i (hist (files s i) k @ log_bytes (map event_record (re_queue r))) c (written + length (re_queue r)) s x s'"
        using flushed_after [OF m(3) IH(2)] h r1(2) m(2) by simp
      moreover have "\<not> isl x \<and> quiet s'" if "quiet s" "unat k + length (re_queue r) < 2 ^ 64 + (if fresh r then 1 else 0)"
        using that IH(3) m r1(2) by (auto split: if_splits)
      ultimately show ?thesis using commits(1) IH(1) by (simp del: flush_loop.simps)
    qed
  qed
qed

lemma flush_effect:
  assumes rec: "recording s i r es k c"
  shows "\<exists>x s'. flush i s = Some (x, s')
    \<and> flushed i (hist (files s i) k @ log_bytes (map event_record (re_queue r))) c (length (re_queue r)) s x s'
    \<and> (quiet s \<and> unat k + length (re_queue r) < 2 ^ 64 \<longrightarrow> \<not> isl x \<and> quiet s')"
  using flush_loop_effect [OF rec, of "2 * length (re_queue r) + 1" 0] recordingD(2,7) [OF rec] by (auto simp: flush_def split: if_splits)

end
