(* ===== verification/Recorder_Recovery.thy ===== *)
theory Recorder_Recovery
  imports Recorder_Logs
begin

text \<open>
  Recovery of one recording: cutting its files to their complete records, removing empty segments that no entry of the
  manifest names, and what the repair of a directory keeps after a crash.
\<close>

section \<open>Cutting files to their complete records\<close>

definition cut_at :: "usize \<Rightarrow> bool \<Rightarrow> nat \<Rightarrow> stored_file \<Rightarrow> bool" where
  "cut_at M seg c f \<longleftrightarrow> (\<exists>fs t. fl_bytes f = log_bytes fs @ t \<and> torn M seg t \<and> list_all (frame_ok M seg) fs \<and> c = length (log_bytes fs))"

definition cut_file :: "nat \<Rightarrow> stored_file \<Rightarrow> stored_file" where
  "cut_file c f = f\<lparr>fl_bytes := take c (fl_bytes f), fl_synced := length (take c (fl_bytes f))\<rparr>"

lemma cut_file_twice: "cut_file c (cut_file c f) = cut_file c f"
  by (simp add: cut_file_def)

definition trims :: "(string \<Rightarrow> nat) \<Rightarrow> (string \<Rightarrow> stored_file option) \<Rightarrow> (string \<Rightarrow> stored_file option) \<Rightarrow> bool" where
  "trims c v v' \<longleftrightarrow> (\<forall>n. v' n = v n \<or> v' n = map_option (cut_file (c n)) (v n))"

lemma truncate_all_effect:
  assumes "\<And>n. c n < 2 ^ 64" "\<forall>(p, m) \<in> set ts. fst p = d \<and> m = of_nat (c (snd p))"
    and "trims c v (view w d)" "truncate_all ts w = (r, w')"
  shows "only_dir d w w' \<and> trims c v (view w' d)
    \<and> (\<forall>n. view w d n = map_option (cut_file (c n)) (v n) \<longrightarrow> view w' d n = map_option (cut_file (c n)) (v n))
    \<and> (\<not> isl r \<longrightarrow> (\<forall>(p, m) \<in> set ts. view w' d (snd p) = map_option (cut_file (c (snd p))) (v (snd p))))"
  using assms(2-4)
proof (induction ts arbitrary: w)
  case (Cons t ts)
  obtain n where t: "t = ((d, n), of_nat (c n))" using Cons.prems(1) by (cases t) auto
  obtain r1 w1 where 1: "truncate_file (d, n) (of_nat (c n)) w = (r1, w1)" by force
  have "cut_file (c n) = (\<lambda>f. f\<lparr>fl_bytes := take (unat (of_nat (c n) :: u64)) (fl_bytes f), fl_synced := length (take (unat (of_nat (c n) :: u64)) (fl_bytes f))\<rparr>)"
    by (rule ext) (simp add: cut_file_def unat_of_nat_u64 [OF assms(1)])
  then have step: "only_dir d w w1" "view w1 d = (view w d)(n := map_option (cut_file (c n)) (view w d n)) \<or> isl r1 \<and> view w1 d = view w d"
    using dir_step_view [OF truncate_file_step 1] by auto
  have cut: "map_option (cut_file (c n)) (view w d n) = map_option (cut_file (c n)) (v n)"
    using Cons.prems(2) by (cases "v n") (auto simp: trims_def cut_file_twice dest: spec [of _ n])
  have trims: "trims c v (view w1 d)"
    unfolding trims_def using step(2) Cons.prems(2) [unfolded trims_def] cut by (metis fun_upd_apply)
  have keep: "view w1 d m = map_option (cut_file (c m)) (v m)" if "view w d m = map_option (cut_file (c m)) (v m)" for m
    using step(2) cut that by auto
  show ?case
  proof (cases r1)
    case (Inl e)
    then show ?thesis using Cons.prems(3) 1 t step(1) trims keep by (auto simp: io_then_def)
  next
    case (Inr u)
    then have rest: "truncate_all ts w1 = (r, w')" and here: "view w1 d n = map_option (cut_file (c n)) (v n)"
      using Cons.prems(3) 1 t step(2) cut by (auto simp: io_then_def)
    have IH: "only_dir d w1 w' \<and> trims c v (view w' d)
      \<and> (\<forall>n. view w1 d n = map_option (cut_file (c n)) (v n) \<longrightarrow> view w' d n = map_option (cut_file (c n)) (v n))
      \<and> (\<not> isl r \<longrightarrow> (\<forall>(p, m) \<in> set ts. view w' d (snd p) = map_option (cut_file (c (snd p))) (v (snd p))))"
      using Cons.IH [OF _ trims rest] Cons.prems(1) by simp
    then show ?thesis using t here keep only_dir_trans [OF step(1)] by auto
  qed
qed simp

lemma remove_all_effect:
  assumes "\<forall>p \<in> set ps. fst p = d" "remove_all_files ps w = (r, w')"
  shows "only_dir d w w' \<and> (\<forall>n. view w' d n = view w d n \<or> view w' d n = None \<and> (d, n) \<in> set ps)"
  using assms
proof (induction ps arbitrary: w)
  case (Cons p ps)
  obtain n where p: "p = (d, n)" using Cons.prems(1) by (cases p) auto
  obtain r1 w1 where 1: "remove_file (d, n) w = (r1, w1)" by force
  note step = dir_step_view [OF remove_file_step 1]
  show ?case
  proof (cases r1)
    case (Inl e)
    then show ?thesis using Cons.prems(2) 1 p step by (auto simp: io_then_def split: if_splits)
  next
    case (Inr u)
    then have rest: "remove_all_files ps w1 = (r, w')" using Cons.prems(2) 1 p by (simp add: io_then_def)
    have IH: "only_dir d w1 w' \<and> (\<forall>n. view w' d n = view w1 d n \<or> view w' d n = None \<and> (d, n) \<in> set ps)"
      using Cons.IH [OF _ rest] Cons.prems(1) by simp
    then show ?thesis using step p only_dir_trans by (auto simp: fun_upd_def split: if_splits)
  qed
qed simp

section \<open>Inspecting a directory\<close>

lemma segment_limit: "MAX_ENCODED_FRAME_PAYLOAD < 2 ^ 64" "MAX_MANIFEST_PAYLOAD < 2 ^ 64"
  by (simp_all add: MAX_ENCODED_FRAME_PAYLOAD_def MAX_PAYLOAD_BYTES_def MAX_MANIFEST_PAYLOAD_def)

lemma scan_segment_cut:
  assumes "cut_at MAX_ENCODED_FRAME_PAYLOAD True c f" "length (fl_bytes f) < 2 ^ 64"
  shows "\<exists>scan. scan_segment p (fl_bytes f) = Inr scan \<and> rs_valid_bytes scan = of_nat c \<and> rs_truncated_bytes scan = of_nat (length (fl_bytes f) - c)
    \<and> c \<le> length (fl_bytes f)"
proof -
  obtain fs t where f: "fl_bytes f = log_bytes fs @ t" "torn MAX_ENCODED_FRAME_PAYLOAD True t" "list_all (frame_ok MAX_ENCODED_FRAME_PAYLOAD True) fs"
    "c = length (log_bytes fs)"
    using assms(1) by (auto simp: cut_at_def)
  then show ?thesis using scan_file_log [OF f(3,2) segment_limit(1), of p False] assms(2) by (simp add: scan_segment_def)
qed

lemma of_nat_zero_u64: "n < 2 ^ 64 \<Longrightarrow> (of_nat n :: u64) = 0 \<longleftrightarrow> n = 0"
proof
  assume n: "n < 2 ^ 64" and "(of_nat n :: u64) = 0"
  then have "unat (of_nat n :: u64) = 0" by simp
  then show "n = 0" by (simp only: unat_of_nat_u64 [OF n])
qed simp

lemma inspect_segments_ok:
  assumes "\<forall>(k, n) \<in> set L. n = segment_name k \<and> (\<exists>g. view w d n = Some g \<and> cut_at MAX_ENCODED_FRAME_PAYLOAD True (c n) g
      \<and> length (fl_bytes g) < 2 ^ 64 \<and> (fl_bytes g = [] \<or> k \<in> set com))"
  shows "\<exists>segs ts ab. inspect_segments w d com L = Inr (segs, ts, ab)
    \<and> map rv_index segs = filter (\<lambda>k. k \<in> set com) (map fst L)
    \<and> (\<forall>(p, m) \<in> set ts. fst p = d \<and> m = of_nat (c (snd p)))
    \<and> (\<forall>p \<in> set ab. \<exists>k. p = (d, segment_name k) \<and> k \<notin> set com)
    \<and> (\<forall>(k, n) \<in> set L. \<forall>g. view w d n = Some g \<and> c n \<noteq> length (fl_bytes g) \<longrightarrow> ((d, n), of_nat (c n)) \<in> set ts)"
  using assms
proof (induction L)
  case (Cons x L)
  obtain k where x: "x = (k, segment_name k)" using Cons.prems by (cases x) auto
  let ?n = "segment_name k"
  obtain g where g: "view w d ?n = Some g" "cut_at MAX_ENCODED_FRAME_PAYLOAD True (c ?n) g" "length (fl_bytes g) < 2 ^ 64" "fl_bytes g = [] \<or> k \<in> set com"
    using Cons.prems x by auto
  obtain scan where scan: "scan_segment (d, ?n) (fl_bytes g) = Inr scan" "rs_valid_bytes scan = of_nat (c ?n)"
    "rs_truncated_bytes scan = of_nat (length (fl_bytes g) - c ?n)" "c ?n \<le> length (fl_bytes g)"
    using scan_segment_cut [OF g(2,3), of "(d, ?n)"] by blast
  obtain segs ts ab where IH: "inspect_segments w d com L = Inr (segs, ts, ab)" "map rv_index segs = filter (\<lambda>k. k \<in> set com) (map fst L)"
    "\<forall>(p, m) \<in> set ts. fst p = d \<and> m = of_nat (c (snd p))" "\<forall>p \<in> set ab. \<exists>k. p = (d, segment_name k) \<and> k \<notin> set com"
    "\<forall>(k, n) \<in> set L. \<forall>g. view w d n = Some g \<and> c n \<noteq> length (fl_bytes g) \<longrightarrow> ((d, n), of_nat (c n)) \<in> set ts"
    using Cons.IH Cons.prems by auto
  have read: "read_file w (d, ?n) = Inr (fl_bytes g)" using g(1) by (simp add: read_file_def view_def)
  have torn: "rs_truncated_bytes scan > 0 \<longleftrightarrow> c ?n \<noteq> length (fl_bytes g)"
    using scan(3,4) g(3) of_nat_zero_u64 [of "length (fl_bytes g) - c ?n"] by (auto simp: word_gt_0)
  show ?case
  proof (cases "k \<in> set com")
    case True
    then show ?thesis using IH read scan torn x g(1) by (auto simp: result_simps)
  next
    case False
    then have "fl_bytes g = []" "c ?n = 0" using g(4) scan(4) by auto
    then show ?thesis using False IH read scan x g(1) by (auto simp: result_simps)
  qed
qed simp

lemma map_filter_mem: "y \<in> set (List.map_filter f xs) \<longleftrightarrow> (\<exists>x \<in> set xs. f x = Some y)"
  by (induction xs) (auto split: option.split)

lemma segment_files_iff: "(k, n) \<in> set (segment_files w d) \<longleftrightarrow> parse_segment_name n = Some k \<and> view w d n \<noteq> None"
proof -
  have "(k, n) \<in> set (segment_files w d) \<longleftrightarrow> parse_segment_name n = Some k \<and> (\<exists>f. ((d, n), f) \<in> set (w_files w))"
    by (force simp: segment_files_def map_filter_mem split: if_splits)
  moreover have "(\<exists>f. ((d, n), f) \<in> set (w_files w)) \<longleftrightarrow> view w d n \<noteq> None"
    unfolding view_def get_file_def by (metis map_of_SomeD not_None_eq weak_map_of_SomeI)
  ultimately show ?thesis by blast
qed

lemma decode_entries_encoded:
  "list_all entry_ok es \<Longrightarrow> decode_entries p (map (\<lambda>(k, q). \<lparr>sf_kind = k, sf_payload = q\<rparr>) (map encode_manifest es)) = Inr es"
proof (induction es)
  case (Cons e es)
  obtain k q where e: "encode_manifest e = (k, q)" by (cases "encode_manifest e")
  have "decode_manifest \<lparr>sf_kind = k, sf_payload = q\<rparr> p = Inr e" using Cons.prems e by (intro decode_encoded_manifest) simp
  then show ?case using Cons e by simp
qed simp

text \<open>The limits of the records of a file, by its name.\<close>

definition name_limit :: "string \<Rightarrow> usize \<times> bool" where
  "name_limit n = (if n = MANIFEST_NAME then (MAX_MANIFEST_PAYLOAD, False) else (MAX_ENCODED_FRAME_PAYLOAD, True))"

definition name_cut :: "string \<Rightarrow> nat \<Rightarrow> stored_file \<Rightarrow> bool" where
  "name_cut n c f \<longleftrightarrow> cut_at (fst (name_limit n)) (snd (name_limit n)) c f"

definition small :: "(string \<Rightarrow> stored_file option) \<Rightarrow> bool" where
  "small v \<longleftrightarrow> (\<forall>n f. v n = Some f \<longrightarrow> length (fl_bytes f) < 2 ^ 64)"

lemma log_file_cut: "log_file tidy M seg fs gs f \<Longrightarrow> cut_at M seg (length (log_bytes (fs @ gs))) f"
  unfolding log_file_def cut_at_def by blast

lemma cut_at_le: "cut_at M seg c f \<Longrightarrow> c \<le> length (fl_bytes f)"
  by (auto simp: cut_at_def)

lemma dir_ok_cuts:
  assumes ok: "dir_ok tidy es [] v" and small: "small v"
  shows "\<exists>c. (\<forall>n. c n < 2 ^ 64) \<and> (\<forall>n f. v n = Some f \<longrightarrow> name_cut n (c n) f)
    \<and> (v MANIFEST_NAME \<noteq> None \<longrightarrow> c MANIFEST_NAME = length (log_bytes (map encode_manifest es)))"
proof -
  have "\<exists>c. c < 2 ^ 64 \<and> (\<forall>f. v n = Some f \<longrightarrow> name_cut n c f)
    \<and> (n = MANIFEST_NAME \<and> v n \<noteq> None \<longrightarrow> c = length (log_bytes (map encode_manifest es)))" for n
  proof (cases "v n")
    case (Some f)
    have "\<exists>c. name_cut n c f \<and> (n = MANIFEST_NAME \<longrightarrow> c = length (log_bytes (map encode_manifest es)))"
    proof (cases "n = MANIFEST_NAME")
      case True
      then show ?thesis using dir_okD(2) [OF ok, of f] Some
        by (auto simp: name_cut_def name_limit_def manifest_file_def dest!: log_file_cut)
    next
      case False
      then show ?thesis using dir_okD(6) [OF ok Some]
        by (auto simp: name_cut_def name_limit_def segment_file_def dest!: log_file_cut)
    qed
    then obtain c where c: "name_cut n c f" "n = MANIFEST_NAME \<longrightarrow> c = length (log_bytes (map encode_manifest es))" by blast
    moreover have "c < 2 ^ 64" using c(1) small Some cut_at_le by (fastforce simp: name_cut_def small_def)
    ultimately show ?thesis using Some by auto
  qed (auto intro: exI [of _ 0])
  then show ?thesis by metis
qed

lemma listed_segments:
  assumes ok: "dir_ok tidy es [] (view w d)" and small: "small (view w d)" and c: "\<And>n f. view w d n = Some f \<Longrightarrow> name_cut n (c n) f"
  shows "\<forall>(k, n) \<in> set (segment_files w d). n = segment_name k \<and> (\<exists>g. view w d n = Some g \<and> cut_at MAX_ENCODED_FRAME_PAYLOAD True (c n) g
      \<and> length (fl_bytes g) < 2 ^ 64 \<and> (fl_bytes g = [] \<or> k \<in> set (committed_segments es)))"
proof (intro ballI)
  fix x assume x: "x \<in> set (segment_files w d)"
  obtain k n where kn: "x = (k, n)" by (cases x)
  obtain g where g: "parse_segment_name n = Some k" "view w d n = Some g" using x kn segment_files_iff by fastforce
  then have n: "n \<noteq> MANIFEST_NAME" by auto
  then obtain j where j: "n = segment_name j" "fl_bytes g = [] \<or> j \<in> set (committed_segments es)" using dir_okD(6) [OF ok g(2)] by blast
  then have "j = k" using g(1) by simp
  then show "case x of (k, n) \<Rightarrow> n = segment_name k \<and> (\<exists>g. view w d n = Some g \<and> cut_at MAX_ENCODED_FRAME_PAYLOAD True (c n) g
      \<and> length (fl_bytes g) < 2 ^ 64 \<and> (fl_bytes g = [] \<or> k \<in> set (committed_segments es)))"
    using j kn g c [OF g(2)] n small by (auto simp: name_cut_def name_limit_def small_def)
qed

lemma repair_plan_ok:
  assumes ok: "dir_ok tidy es [] (view w d)" and man: "view w d MANIFEST_NAME = Some f" and small: "small (view w d)"
    and c: "\<And>n f. view w d n = Some f \<Longrightarrow> name_cut n (c n) f" "c MANIFEST_NAME = length (log_bytes (map encode_manifest es))"
  shows "\<exists>report ts ab. repair_plan w d = Inr (report, ts, ab)
    \<and> set (map rv_index (rp_segments report)) = set (committed_segments es)
    \<and> (\<forall>(p, m) \<in> set ts. fst p = d \<and> m = of_nat (c (snd p)))
    \<and> (\<forall>p \<in> set ab. \<exists>k. p = (d, segment_name k) \<and> k \<notin> set (committed_segments es))
    \<and> (\<forall>n g. view w d n = Some g \<and> c n \<noteq> length (fl_bytes g) \<longrightarrow> ((d, n), of_nat (c n)) \<in> set ts)"
proof -
  let ?com = "committed_segments es" and ?mp = "(d, MANIFEST_NAME)"
  obtain t where f: "fl_bytes f = log_bytes (map encode_manifest es) @ t" "torn MAX_MANIFEST_PAYLOAD False t"
    "list_all (frame_ok MAX_MANIFEST_PAYLOAD False) (map encode_manifest es)"
    using dir_okD(2) [OF ok man] by (auto simp: manifest_file_def log_file_def)
  have len: "length (log_bytes (map encode_manifest es) @ t) < 2 ^ 64" using small man f(1) unfolding small_def by fastforce
  have read: "read_file w ?mp = Inr (log_bytes (map encode_manifest es) @ t)" using man f(1) by (simp add: read_file_def view_def)
  note scan = scan_file_log [OF f(3,2) segment_limit(2) len, of ?mp True]
  have entries: "list_all entry_ok es" using dir_okD(3) [OF ok] by simp
  obtain segs ts ab where in_dir: "inspect_segments w d ?com (segment_files w d) = Inr (segs, ts, ab)"
    "map rv_index segs = filter (\<lambda>k. k \<in> set ?com) (map fst (segment_files w d))"
    "\<forall>(p, m) \<in> set ts. fst p = d \<and> m = of_nat (c (snd p))" "\<forall>p \<in> set ab. \<exists>k. p = (d, segment_name k) \<and> k \<notin> set ?com"
    "\<forall>(k, n) \<in> set (segment_files w d). \<forall>g. view w d n = Some g \<and> c n \<noteq> length (fl_bytes g) \<longrightarrow> ((d, n), of_nat (c n)) \<in> set ts"
    using inspect_segments_ok [OF listed_segments [OF ok small c(1)]] by blast
  let ?ts = "if (of_nat (length t) :: u64) > 0 then ts @ [(?mp, of_nat (c MANIFEST_NAME))] else ts"
  let ?report = "\<lparr>rp_manifest_records = of_nat (length (map (\<lambda>(k, q). \<lparr>sf_kind = k, sf_payload = q\<rparr>) (map encode_manifest es))),
    rp_manifest_truncated_bytes = of_nat (length t), rp_segments = segs\<rparr>"
  have plan: "repair_plan w d = Inr (?report, ?ts, ab)"
    using scan in_dir(1) decode_entries_encoded [OF entries, of ?mp] by (simp add: repair_plan_def read scan_manifest_def c(2))
  have "set (map rv_index segs) = set ?com"
  proof -
    have "k \<in> set (map fst (segment_files w d))" if "k \<in> set ?com" for k
    proof -
      have "(k, segment_name k) \<in> set (segment_files w d)" using dir_okD(5) [OF ok, of k] that by (auto simp: segment_files_iff)
      then show ?thesis by force
    qed
    then show ?thesis unfolding in_dir(2) by auto
  qed
  moreover have "((d, n), of_nat (c n)) \<in> set ?ts" if g: "view w d n = Some g" "c n \<noteq> length (fl_bytes g)" for n g
  proof (cases "n = MANIFEST_NAME")
    case True
    then have "length t \<noteq> 0" "length t < 2 ^ 64" using g man f(1) c(2) len by auto
    then show ?thesis using True of_nat_zero_u64 [of "length t"] by (simp add: word_gt_0)
  next
    case False
    then obtain k where "n = segment_name k" using dir_okD(6) [OF ok g(1)] by blast
    then have "(k, n) \<in> set (segment_files w d)" using g(1) by (simp add: segment_files_iff)
    then show ?thesis using in_dir(5) g by fastforce
  qed
  moreover have "\<forall>(p, m) \<in> set ?ts. fst p = d \<and> m = of_nat (c (snd p))" using in_dir(3) by auto
  ultimately show ?thesis using plan in_dir(4) by (intro exI [of _ ?report] exI [of _ ?ts] exI [of _ ab]) auto
qed

text \<open>What repair leaves of a file: all of it, or its complete records; an empty file can go.\<close>

definition kept_records :: "string \<Rightarrow> stored_file \<Rightarrow> stored_file option \<Rightarrow> bool" where
  "kept_records n g x \<longleftrightarrow> x = None \<and> fl_bytes g = []
     \<or> (\<exists>g'. x = Some g' \<and> (fl_bytes g' = fl_bytes g \<or> (\<exists>c. name_cut n c g \<and> fl_bytes g' = take c (fl_bytes g))))"

lemma log_file_cut_file:
  assumes "log_file False M seg fs gs f"
  shows "log_file b M seg (fs @ gs) [] (cut_file (length (log_bytes (fs @ gs))) f)"
  using assms by (auto simp: log_file_def cut_file_def)

lemma cut_unique:
  assumes "cut_at M seg c f" "log_file tidy M seg fs gs f" "M < 2 ^ 64"
  shows "c = length (log_bytes (fs @ gs))"
proof -
  obtain hs t where c: "fl_bytes f = log_bytes hs @ t" "torn M seg t" "list_all (frame_ok M seg) hs" "c = length (log_bytes hs)"
    using assms(1) by (auto simp: cut_at_def)
  obtain u where f: "fl_bytes f = log_bytes (fs @ gs) @ u" "torn M seg u" "list_all (frame_ok M seg) (fs @ gs)"
    using assms(2) by (auto simp: log_file_def)
  have "prefix hs (fs @ gs)" "prefix (fs @ gs) hs" using c f assms(3) log_prefix_unique by metis+
  then have "hs = fs @ gs" by (rule prefix_order.antisym)
  then show ?thesis using c(4) by simp
qed

lemma trims_dir_ok:
  assumes ok: "dir_ok False es [] v" and set: "settled v" and cuts: "\<And>n f. v n = Some f \<Longrightarrow> name_cut n (c n) f" and trims: "trims c v v'"
  shows "dir_ok False es [] v'"
    and "(\<And>n g. v n = Some g \<Longrightarrow> c n \<noteq> length (fl_bytes g) \<Longrightarrow> v' n = Some (cut_file (c n) g)) \<Longrightarrow> dir_ok True es [] v'"
    and "\<And>n g. v n = Some g \<Longrightarrow> kept_records n g (v' n)"
proof -
  define h where "h n f = (if v' n = v n then f else cut_file (c n) f)" for n f
  have v': "v' n = map_option (h n) (v n)" for n
    using trims by (cases "v n") (auto simp: trims_def h_def dest: spec [of _ n])
  have entry: "fl_entry g \<Longrightarrow> fl_entry (h n g)" for n g by (simp add: h_def cut_file_def)
  have seg: "segment_file b (cut_file (c (segment_name k)) g)" if g: "v (segment_name k) = Some g" for b k g
  proof -
    obtain fs where fs: "log_file False MAX_ENCODED_FRAME_PAYLOAD True [] fs g" using dir_okD(6) [OF ok g] by (auto simp: segment_file_def)
    have "c (segment_name k) = length (log_bytes fs)"
      using cut_unique [OF _ fs segment_limit(1)] cuts [OF g] by (simp add: name_cut_def name_limit_def)
    then have "log_file b MAX_ENCODED_FRAME_PAYLOAD True fs [] (cut_file (c (segment_name k)) g)" using log_file_cut_file [OF fs] by simp
    then have "log_file b MAX_ENCODED_FRAME_PAYLOAD True [] fs (cut_file (c (segment_name k)) g)" by (auto simp: log_file_def)
    then show ?thesis by (auto simp: segment_file_def)
  qed
  have man: "manifest_file b es [] (cut_file (c MANIFEST_NAME) f)" if f: "v MANIFEST_NAME = Some f" for b f
  proof -
    have fs: "log_file False MAX_MANIFEST_PAYLOAD False (map encode_manifest es) [] f" using dir_okD(2) [OF ok f] by (simp add: manifest_file_def)
    have "c MANIFEST_NAME = length (log_bytes (map encode_manifest es))"
      using cut_unique [OF _ fs segment_limit(2)] cuts [OF f] by (simp add: name_cut_def name_limit_def)
    then show ?thesis using log_file_cut_file [OF fs] by (simp add: manifest_file_def)
  qed
  show "dir_ok False es [] v'"
    by (rule dir_ok_contents [OF ok v']) (use entry seg man in \<open>auto simp: h_def cut_file_def\<close>)
  show "dir_ok True es [] v'" if all: "\<And>n g. v n = Some g \<Longrightarrow> c n \<noteq> length (fl_bytes g) \<Longrightarrow> v' n = Some (cut_file (c n) g)"
  proof (rule dir_ok_contents [OF ok, where h = "\<lambda>n. cut_file (c n)"])
    fix n
    show "v' n = map_option (cut_file (c n)) (v n)"
    proof (cases "v n")
      case (Some g)
      show ?thesis
      proof (cases "c n = length (fl_bytes g)")
        case True
        then have "cut_file (c n) g = g" using Some set by (simp add: cut_file_def settled_def)
        then show ?thesis using Some v' [of n] by (simp add: h_def split: if_splits)
      qed (use Some all [OF Some] in simp)
    qed (simp add: v')
  qed (use seg man in \<open>auto simp: cut_file_def\<close>)
  show "kept_records n g (v' n)" if "v n = Some g" for n g
    using that trims [unfolded trims_def, rule_format, of n] cuts [OF that] by (auto simp: kept_records_def cut_file_def)
qed

section \<open>Repair\<close>

lemma repair_effect:
  assumes ok: "dir_ok False es [] (view w d)" and set: "settled (view w d)" and man: "view w d MANIFEST_NAME = Some f"
    and small: "small (view w d)" and d: "d \<noteq> []" and run: "repair_recording d w = (r, w')"
  shows "only_dir d w w' \<and> dir_ok False es [] (view w' d)
    \<and> (\<forall>n g. view w d n = Some g \<longrightarrow> kept_records n g (view w' d n))
    \<and> (\<forall>report. r = Inr report \<longrightarrow> dir_ok True es [] (view w' d) \<and> view w' d MANIFEST_NAME \<noteq> None
         \<and> set (map rv_index (rp_segments report)) = set (committed_segments es))"
proof -
  obtain c where c: "\<And>n. c n < 2 ^ 64" "\<And>n f. view w d n = Some f \<Longrightarrow> name_cut n (c n) f"
    "c MANIFEST_NAME = length (log_bytes (map encode_manifest es))"
    using dir_ok_cuts [OF ok small] man by auto
  obtain report ts ab where plan: "repair_plan w d = Inr (report, ts, ab)"
    "set (map rv_index (rp_segments report)) = set (committed_segments es)"
    "\<forall>(p, m) \<in> set ts. fst p = d \<and> m = of_nat (c (snd p))"
    "\<forall>p \<in> set ab. \<exists>k. p = (d, segment_name k) \<and> k \<notin> set (committed_segments es)"
    "\<forall>n g. view w d n = Some g \<and> c n \<noteq> length (fl_bytes g) \<longrightarrow> ((d, n), of_nat (c n)) \<in> set ts"
    using repair_plan_ok [OF ok man small c(2,3)] by blast
  obtain r1 w1 where 1: "truncate_all ts w = (r1, w1)" by force
  have refl: "trims c (view w d) (view w d)" by (simp add: trims_def)
  note cut = truncate_all_effect [OF c(1) plan(3) refl 1]
  have trims: "trims c (view w d) (view w1 d)" using cut by blast
  have ok1: "dir_ok False es [] (view w1 d)" using trims_dir_ok(1) [OF ok set _ trims] c(2) by blast
  have kept1: "kept_records n g (view w1 d n)" if "view w d n = Some g" for n g
    using trims_dir_ok(3) [OF ok set _ trims that] c(2) by blast
  have tidy1: "dir_ok True es [] (view w1 d)" if r1: "\<not> isl r1"
  proof (rule trims_dir_ok(2) [OF ok set _ trims])
    show "view w1 d n = Some (cut_file (c n) g)" if "view w d n = Some g" "c n \<noteq> length (fl_bytes g)" for n g
      using that cut plan(5) r1 by fastforce
  qed (rule c(2))
  obtain r2 w2 where 2: "remove_all_files ab w1 = (r2, w2)" by force
  have "\<forall>p \<in> set ab. fst p = d" using plan(4) by fastforce
  note gone = remove_all_effect [OF this 2]
  have keep: "view w2 d n = view w1 d n" if "(d, n) \<notin> set ab" for n using gone that by blast
  have named: "(d, MANIFEST_NAME) \<notin> set ab" "k \<in> set (committed_segments es) \<Longrightarrow> (d, segment_name k) \<notin> set ab" for k
    using plan(4) by fastforce+
  have drop: "dir_ok b es [] (view w2 d)" if "dir_ok b es [] (view w1 d)" for b
    by (rule dir_ok_drop [OF that]) (use gone keep named in auto)
  have empty: "fl_bytes g = []" if "view w d n = Some g" "(d, n) \<in> set ab" for n g
    using dir_okD(6) [OF ok that(1)] plan(4) that(2) by fastforce
  have kept: "kept_records n g (view w2 d n)" if g: "view w d n = Some g" for n g
  proof (cases "(d, n) \<in> set ab")
    case True
    then have "fl_bytes g = []" "view w2 d n = view w1 d n \<or> view w2 d n = None"
      using empty [OF g] gone [THEN conjunct2, rule_format, of n] by auto
    then show ?thesis using kept1 [OF g] by (auto simp: kept_records_def)
  qed (use kept1 [OF g] keep in simp)
  obtain r3 w3 where 3: "sync_directory d w2 = (r3, w3)" by force
  note step3 = dir_step_view [OF sync_directory_step [OF d] 3]
  have ok3: "dir_ok b es [] (view w3 d)" if "dir_ok b es [] (view w2 d)" for b
    using step3 that entries_synced_ok by metis
  have kept3: "kept_records n g (view w3 d n)" if g: "view w d n = Some g" for n g
    using step3 kept [OF g] by (auto simp: kept_records_def entries_synced_def)
  have man3: "view w3 d MANIFEST_NAME \<noteq> None" if "view w2 d MANIFEST_NAME \<noteq> None"
    using step3 that by (auto simp: entries_synced_def)
  have man2: "view w2 d MANIFEST_NAME \<noteq> None"
    using keep [OF named(1)] cut man unfolding trims_def by (metis map_option_is_None option.distinct(1))
  have "isl r \<and> isl r1 \<and> w' = w1 \<or> \<not> isl r1 \<and> (isl r \<and> w' = w2 \<or> r = Inr report \<and> w' = w2 \<or> r = Inr report \<and> w' = w3 \<or> isl r \<and> w' = w3)"
    using run 1 2 3 plan(1) by (cases r1; cases r2; cases r3) (auto simp: repair_recording_def io_then_def split: if_splits)
  moreover have "only_dir d w w1" "only_dir d w w2" "only_dir d w w3"
    using cut gone step3 only_dir_trans by blast+
  ultimately show ?thesis
    using ok1 tidy1 drop ok3 kept1 kept kept3 man2 man3 plan(2) by (elim disjE conjE; simp add: isl_def) auto
qed

end
