(* ===== verification/Recorder_Runs.thy ===== *)
theory Recorder_Runs
  imports Recorder_Flush Recorder_Recovery
begin

text \<open>
  The invariant of the recorder coordinator, and that every call keeps it whatever I/O operation fails in the
  call: every recorder is recording, stopped or failed with a directory that repair can restore, a call
  concerns one recorder only, and a receipt is kept for every action that took effect.
\<close>

section \<open>Directories of recorders\<close>

lemma hex_value_append: "hex_value n (xs @ ys) = Option.bind (hex_value n xs) (\<lambda>m. hex_value m ys)"
  by (induction n xs rule: hex_value.induct) (simp_all add: Let_def)

lemma hex_digit_value: "d < 16 \<Longrightarrow> hex_value n [char_of (if d < 10 then 48 + d else 87 + d)] = Some (16 * n + d)"
  by (auto simp: Let_def)

lemma hex_digits_value: "hex_value a (hex_digits k n) = Some (16 ^ k * a + n mod 16 ^ k)"
proof (induction k arbitrary: n)
  case (Suc k)
  have "16 * (n div 16 mod 16 ^ k) + n mod 16 = n mod 16 ^ Suc k" by (simp add: mod_mult2_eq)
  then show ?case using Suc hex_digit_value [of "n mod 16"] by (simp add: hex_value_append algebra_simps del: hex_value.simps)
qed simp

lemma hex_digits_length [simp]: "length (hex_digits k n) = k"
  by (induction k arbitrary: n) auto

lemma char_of_plus: "m < 256 \<Longrightarrow> m \<noteq> 43 \<Longrightarrow> char_of m \<noteq> CHR ''+''" for m :: nat
proof
  assume m: "m < 256" "m \<noteq> 43" and eq: "char_of m = CHR ''+''"
  have "of_char (char_of m) = (of_char CHR ''+'' :: nat)" by (simp only: eq)
  then show False using m by simp
qed

lemma hex_digits_characters: "c \<in> set (hex_digits k n) \<Longrightarrow> c \<noteq> CHR ''+''"
proof (induction k arbitrary: n)
  case (Suc k)
  have "char_of (if n mod 16 < 10 then 48 + n mod 16 else 87 + n mod 16) \<noteq> CHR ''+''" by (rule char_of_plus) (auto split: if_splits)
  then show ?case using Suc by auto
qed simp

lemma directory_id: "i \<noteq> 0 \<Longrightarrow> recorder_id_from_directory (recorder_directory i) = Some i"
proof -
  assume i: "i \<noteq> 0"
  obtain c cs where ds: "hex_digits 32 (unat i) = c # cs" by (cases "hex_digits 32 (unat i)") (use hex_digits_length [of 32 "unat i"] in auto)
  then have "c \<noteq> CHR ''+''" using hex_digits_characters [of c 32 "unat i"] by simp
  moreover have "unat i < 16 ^ 32" using unat_lt2p_any [of i] by simp
  then have "hex_value 0 (hex_digits 32 (unat i)) = Some (unat i)" by (simp add: hex_digits_value del: hex_digits.simps)
  moreover have "(word_try_from (unat i) :: u128 option) = Some i" using unat_lt2p_any [of i] by (simp add: word_try_from_def)
  moreover have "strip_prefix ''recorder-'' (recorder_directory i) = Some (hex_digits 32 (unat i))"
    by (simp add: strip_prefix_def recorder_directory_def)
  ultimately show ?thesis using i ds by (simp add: recorder_id_from_directory_def Let_def del: hex_digits.simps)
qed

lemma directory_inject [simp]: "recorder_directory i = recorder_directory j \<longleftrightarrow> i = j"
proof -
  have "hex_value 0 (hex_digits 32 (unat k)) = Some (unat k)" for k :: u128
    using unat_lt2p_any [of k] by (simp add: hex_digits_value del: hex_digits.simps)
  then show ?thesis by (metis append_same_eq option.inject recorder_directory_def same_append_eq unsigned_word_eqI)
qed

section \<open>The invariant\<close>

definition index_ok :: "manifest_entry list \<Rightarrow> u64 option \<Rightarrow> bool" where
  "index_ok es index \<longleftrightarrow> (case index of None \<Rightarrow> committed_segments es = [] | Some k \<Rightarrow> \<forall>j \<in> set (committed_segments es). j \<le> k)"

definition stopped :: "coordinator \<Rightarrow> recorder_id \<Rightarrow> recorder \<Rightarrow> bool" where
  "stopped s i r \<longleftrightarrow> held s i r \<and> re_state r = Stopped \<and> files s i MANIFEST_NAME \<noteq> None
     \<and> (re_manifest r = None \<or> re_manifest r = Some (recorder_directory i, MANIFEST_NAME))
     \<and> (\<exists>es. dir_ok True es [] (files s i) \<and> index_ok es (re_segment_index r))"

definition recorder_inv :: "coordinator \<Rightarrow> recorder_id \<Rightarrow> bool" where
  "recorder_inv s i \<longleftrightarrow> (case get_recorder s i of
       None \<Rightarrow> dir_ok True [] [] (files s i)
     | Some r \<Rightarrow> failed s i \<or> stopped s i r \<or> (\<exists>es k c. recording s i r es k c))"

definition world_ok :: "world \<Rightarrow> bool" where
  "world_ok w \<longleftrightarrow> (\<forall>d. map_of (w_dirs w) d = None \<longrightarrow> view w d = Map.empty)
     \<and> (\<forall>d. map_of (w_dirs w) d \<noteq> None \<longrightarrow> (\<exists>i. i \<noteq> 0 \<and> d = recorder_directory i))"

definition coord_inv :: "coordinator \<Rightarrow> bool" where
  "coord_inv s \<longleftrightarrow> world_ok (co_world s) \<and> (\<forall>i. i \<noteq> 0 \<longrightarrow> recorder_inv s i)"

text \<open>What a call on a recorder leaves alone; receipts are only added.\<close>

definition affects :: "recorder_id \<Rightarrow> coordinator \<Rightarrow> coordinator \<Rightarrow> bool" where
  "affects i s s' \<longleftrightarrow> (\<forall>j. j \<noteq> i \<longrightarrow> get_recorder s' j = get_recorder s j)
     \<and> only_dir (recorder_directory i) (co_world s) (co_world s')
     \<and> (\<forall>x a. map_of (co_receipts s) x = Some a \<longrightarrow> map_of (co_receipts s') x = Some a)"

lemma frame_affects: "frame i s s' \<Longrightarrow> affects i s s'"
  by (simp add: frame_def affects_def)

lemma held_cong: "get_recorder s' i = get_recorder s i \<Longrightarrow> files s' i = files s i \<Longrightarrow> held s' i r = held s i r"
  by (simp add: held_def)

lemma recorder_inv_cong:
  assumes "get_recorder s' i = get_recorder s i" "files s' i = files s i"
  shows "recorder_inv s' i = recorder_inv s i"
proof -
  have "failed s' i = failed s i" using held_cong [OF assms] by (simp add: failed_def)
  moreover have "stopped s' i = stopped s i" using assms held_cong [OF assms] by (intro ext) (simp add: stopped_def)
  moreover have "recording s' i = recording s i" using assms held_cong [OF assms] by (intro ext) (simp add: recording_def)
  ultimately show ?thesis using assms by (cases "get_recorder s i") (simp_all add: recorder_inv_def)
qed

lemma coord_inv_step:
  assumes inv: "coord_inv s" and aff: "affects i s s'" and i: "i \<noteq> 0" "recorder_inv s' i"
    and dir: "files s' i = Map.empty \<or> map_of (w_dirs (co_world s')) (recorder_directory i) \<noteq> None"
  shows "coord_inv s'"
proof -
  let ?d = "recorder_directory i"
  have w: "world_ok (co_world s)" using inv by (simp add: coord_inv_def)
  have only: "only_dir ?d (co_world s) (co_world s')" using aff by (simp add: affects_def)
  have "view (co_world s') d = Map.empty" if none: "map_of (w_dirs (co_world s')) d = None" for d
  proof (cases "d = ?d")
    case False
    then have "map_of (w_dirs (co_world s)) d = None" "view (co_world s') d = view (co_world s) d"
      using only none unfolding only_dir_def dirs_kept_def by metis+
    then show ?thesis using w by (simp add: world_ok_def)
  qed (use dir none in auto)
  moreover have "\<exists>j. j \<noteq> 0 \<and> d = recorder_directory j" if "map_of (w_dirs (co_world s')) d \<noteq> None" for d
  proof (cases "d = ?d")
    case False
    then have "map_of (w_dirs (co_world s)) d \<noteq> None" using only that unfolding only_dir_def dirs_kept_def by metis
    then show ?thesis using w by (simp add: world_ok_def)
  qed (use i in blast)
  moreover have "recorder_inv s' j" if j: "j \<noteq> 0" "j \<noteq> i" for j
  proof -
    have "get_recorder s' j = get_recorder s j" "files s' j = files s j"
      using aff j(2) only by (simp_all add: affects_def only_dir_def)
    then show ?thesis using inv j(1) recorder_inv_cong [of s' j s] by (simp add: coord_inv_def)
  qed
  ultimately show ?thesis using i(2) by (metis coord_inv_def world_ok_def)
qed

text \<open>A directory with files is known, before and after.\<close>

lemma known_directory:
  assumes "world_ok (co_world s)" "files s i \<noteq> Map.empty" "only_dir (recorder_directory i) (co_world s) (co_world s')"
  shows "map_of (w_dirs (co_world s')) (recorder_directory i) \<noteq> None"
proof -
  have "map_of (w_dirs (co_world s)) (recorder_directory i) \<noteq> None" using assms(1,2) by (auto simp: world_ok_def)
  then show ?thesis using assms(3) by (simp add: only_dir_def dirs_kept_def)
qed

lemma call_keeps_inv:
  assumes inv: "coord_inv s" and aff: "affects i s s'" and i: "i \<noteq> 0" "recorder_inv s' i" and files: "files s i \<noteq> Map.empty"
  shows "coord_inv s'"
  using coord_inv_step [OF inv aff i] known_directory [of s i s'] inv aff files by (simp add: coord_inv_def affects_def)

lemma failed_inv: "failed s i \<Longrightarrow> recorder_inv s i"
  by (auto simp: recorder_inv_def failed_def held_def)

lemma recording_inv: "recording s i r es k c \<Longrightarrow> recorder_inv s i"
  using recordingD(2) by (fastforce simp: recorder_inv_def)

lemma recording_files: "recording s i r es k c \<Longrightarrow> files s i \<noteq> Map.empty"
  using recording_manifest [OF recordingD(6,8)] by fastforce

lemma flush_inv:
  assumes inv: "coord_inv s" and i: "i \<noteq> 0" and rec: "recording s i r es k c" and run: "flush i s = Some (x, s')"
  shows "coord_inv s' \<and> frame i s s' \<and> (isl x \<longrightarrow> failed s' i) \<and> (\<not> isl x \<longrightarrow> (\<exists>r' es' k'. recording s' i r' es' k' c \<and> re_queue r' = []))"
proof -
  have f: "flushed i (hist (files s i) k @ log_bytes (map event_record (re_queue r))) c (length (re_queue r)) s x s'"
    using flush_effect [OF rec] run by auto
  then have "recorder_inv s' i" using failed_inv recording_inv unfolding flushed_def by (cases "isl x") blast+
  then have "coord_inv s'" using call_keeps_inv [OF inv frame_affects i] f recording_files [OF rec] by (simp add: flushed_def)
  then show ?thesis using f unfolding flushed_def by blast
qed

section \<open>Calls\<close>

lemma rotate_call:
  assumes inv: "coord_inv s" and i: "i \<noteq> 0" and rec: "recording s i r es k c" and run: "on_error (rotate_inner i) (mark_failed i) s = (x, s')"
  shows "coord_inv s' \<and> frame i s s'"
proof -
  obtain x1 s1 where 1: "rotate_inner i s = (x1, s1)" by force
  note rot = rotate_effect [OF rec 1]
  have "frame i s s' \<and> recorder_inv s' i"
  proof (cases x1)
    case (Inl e)
    then obtain r1 where "held s1 i r1" using rot by auto
    then show ?thesis using run 1 Inl rot mark_failed_effect [of s1 i r1 e] frame_trans failed_inv by (auto simp: on_error_def)
  next
    case (Inr u)
    then have "s' = s1" using run 1 by (auto simp: on_error_def)
    then show ?thesis using rot Inr recording_inv by auto
  qed
  then show ?thesis using call_keeps_inv [OF inv frame_affects i] recording_files [OF rec] by blast
qed

text \<open>The calls that need a recorder that records; on any other they change nothing.\<close>

lemma inv_cases:
  assumes "coord_inv s" "i \<noteq> 0" "get_recorder s i = Some r"
  obtains (Failed) "failed s i" "re_state r = Failed" | (Stopped) "stopped s i r" "re_state r = Stopped"
    | (Recording) es k c where "recording s i r es k c" "re_state r = Recording"
proof -
  have "failed s i \<or> stopped s i r \<or> (\<exists>es k c. recording s i r es k c)" 
  proof -
    have "recorder_inv s i" using assms(1,2) by (simp add: coord_inv_def)
    then show ?thesis using assms(3) by (simp add: recorder_inv_def)
  qed
  moreover have "failed s i \<Longrightarrow> re_state r = Failed" using assms(3) by (auto simp: failed_def held_def)
  moreover have "stopped s i r \<Longrightarrow> re_state r = Stopped" by (simp add: stopped_def)
  ultimately show ?thesis using that recordingD(7) by blast
qed

lemma flush_call:
  assumes inv: "coord_inv s" and i: "i \<noteq> 0"
  shows "\<exists>x s'. flush i s = Some (x, s') \<and> coord_inv s' \<and> frame i s s'"
proof (cases "get_recorder s i")
  case None
  then show ?thesis using inv by (simp add: flush_def)
next
  case (Some r)
  then show ?thesis
  proof (cases rule: inv_cases [OF inv i Some])
    case (3 es k c)
    then show ?thesis using flush_effect [OF 3(1)] flush_inv [OF inv i 3(1)] by blast
  qed (use inv in \<open>simp_all add: flush_def\<close>)
qed

lemma rotate_call_total:
  assumes inv: "coord_inv s" and i: "i \<noteq> 0"
  shows "\<exists>x s'. recorder_rotate i s = Some (x, s') \<and> coord_inv s' \<and> frame i s s'"
proof (cases "get_recorder s i")
  case None
  then show ?thesis using inv by (simp add: recorder_rotate_def flush_def)
next
  case (Some r)
  then show ?thesis
  proof (cases rule: inv_cases [OF inv i Some])
    case (3 es k c)
    obtain x1 s1 where 1: "flush i s = Some (x1, s1)" using flush_effect [OF 3(1)] by blast
    note f = flush_inv [OF inv i 3(1) 1]
    show ?thesis
    proof (cases x1)
      case (Inl e)
      then show ?thesis using 1 f by (auto simp: recorder_rotate_def)
    next
      case (Inr m)
      then obtain r1 es1 k1 where rec1: "recording s1 i r1 es1 k1 c" using f by auto
      obtain x2 s2 where 2: "on_error (rotate_inner i) (mark_failed i) s1 = (x2, s2)" by force
      then show ?thesis using 1 Inr f rotate_call [OF _ i rec1 2] frame_trans by (auto simp: recorder_rotate_def)
    qed
  qed (use inv in \<open>simp_all add: recorder_rotate_def flush_def\<close>)
qed

lemma enqueue_call:
  assumes inv: "coord_inv s" and i: "i \<noteq> 0" and run: "enqueue i e s = (x, s')"
  shows "coord_inv s' \<and> frame i s s'"
proof (cases "s' = s")
  case True
  then show ?thesis using inv by simp
next
  case False
  then obtain r c where r: "get_recorder s i = Some r" "re_state r = Recording" "re_config r = Some c" "validate_event e = Inr ()"
    "length (re_queue r) \<noteq> ql_max_events (rc_queue c)" "min (re_queue_bytes r + event_queue_bytes e) (2 ^ 64 - 1) \<le> ql_max_bytes (rc_queue c)"
    "s' = put_recorder i (r\<lparr>re_queue := re_queue r @ [e], re_queue_bytes := re_queue_bytes r + event_queue_bytes e\<rparr>) s"
    using run by (auto simp: enqueue_def split: option.splits sum.splits if_splits)
  obtain es k where rec: "recording s i r es k c" using inv_cases [OF inv i r(1)] r(2,3) by (metis option.inject recorder_state.distinct(3,5) recorder_state.distinct(1) recordingD(13))
  let ?r = "r\<lparr>re_queue := re_queue r @ [e], re_queue_bytes := re_queue_bytes r + event_queue_bytes e\<rparr>"
  have fits: "config_fits c" "queue_ok r" using recordingD(5,14) [OF rec] by blast+
  have "bytes_fit c (re_queue_bytes r + event_queue_bytes e)" using r(6) fits(1) by (auto simp: bytes_fit_def config_fits_def min_def split: if_splits)
  moreover have "length (re_queue r) < ql_max_events (rc_queue c)"
    using r(3,5) fits by (cases "re_queue r = []") (auto simp: queue_ok_def config_fits_def config_ok_def)
  ultimately have "queue_ok ?r" using r(3,4) fits(2) by (auto simp: queue_ok_def)
  then have "recording s' i ?r es k c" using rec r(7) by (simp add: recording_def held_def)
  then have "recorder_inv s' i" by (rule recording_inv)
  moreover have "frame i s s'" using r(7) frame_put by simp
  ultimately show ?thesis using call_keeps_inv [OF inv frame_affects i] recording_files [OF rec] by blast
qed

lemma append_call:
  assumes inv: "coord_inv s" and i: "i \<noteq> 0"
  shows "\<exists>x s'. recorder_append i e s = Some (x, s') \<and> coord_inv s' \<and> frame i s s'"
proof -
  obtain x1 s1 where 1: "enqueue i e s = (x1, s1)" by force
  have e: "coord_inv s1" "frame i s s1" using enqueue_call [OF inv i 1] by blast+
  obtain x2 s2 where 2: "flush i s1 = Some (x2, s2)" "coord_inv s2" "frame i s1 s2" using flush_call [OF e(1) i] by blast
  show ?thesis using 1 2 e frame_trans by (cases x1) (auto simp: recorder_append_def)
qed

text \<open>A call that records its receipt when it is applied.\<close>

definition takes_effect :: "recorder_id \<Rightarrow> action_receipt_id \<Rightarrow> action_kind \<Rightarrow> coordinator \<Rightarrow> (recorder_error + action_outcome) \<Rightarrow> coordinator \<Rightarrow> bool" where
  "takes_effect i rcpt kind s x s' \<longleftrightarrow> (\<forall>j. j \<noteq> i \<longrightarrow> get_recorder s' j = get_recorder s j)
     \<and> only_dir (recorder_directory i) (co_world s) (co_world s')
     \<and> co_receipts s' = (if isl x then co_receipts s else bt_insert rcpt (i, kind) (co_receipts s))
     \<and> (\<not> isl x \<longrightarrow> x = Inr Applied)"

lemma applies_affects: "takes_effect i rcpt kind s x s' \<Longrightarrow> map_of (co_receipts s) rcpt = None \<Longrightarrow> affects i s s'"
  by (auto simp: takes_effect_def affects_def map_of_bt_insert)

lemma applies_after: "frame i s s1 \<Longrightarrow> takes_effect i rcpt kind s1 x s' \<Longrightarrow> takes_effect i rcpt kind s x s'"
  using only_dir_trans [of "recorder_directory i" "co_world s" "co_world s1" "co_world s'"] by (auto simp: takes_effect_def frame_def)

lemma applies_error: "frame i s s' \<Longrightarrow> isl x \<Longrightarrow> takes_effect i rcpt kind s x s'"
  by (simp add: takes_effect_def frame_def)

lemma applies_done: "frame i s s' \<Longrightarrow> takes_effect i rcpt kind s (Inr Applied) (insert_receipt rcpt (i, kind) s')"
  by (simp add: takes_effect_def frame_def insert_receipt_def get_recorder_def)

lemma applies_update: "takes_effect i rcpt kind s x s' \<Longrightarrow> takes_effect i rcpt kind s x (update_recorder i f s')"
  by (simp add: takes_effect_def)

lemma applies_put: "takes_effect i rcpt kind s x s' \<Longrightarrow> takes_effect i rcpt kind s x (put_recorder i r s')"
  by (simp add: takes_effect_def)

lemma get_receipts [simp]: "get_recorder (insert_receipt x a s) j = get_recorder s j" "co_world (insert_receipt x a s) = co_world s"
  by (simp_all add: insert_receipt_def get_recorder_def)

lemma index_ok_append [simp]: "entry_opens e = [] \<Longrightarrow> index_ok (es @ [e]) k = index_ok es k"
  by (cases k) (simp_all add: index_ok_def committed_append)

text \<open>The writer of the manifest for \<open>stop\<close>: the one the recorder has, or a new one.\<close>

lemma stop_writer_effect:
  assumes h: "held s i r" "files s i MANIFEST_NAME = Some f"
    and man: "re_manifest r = Some (recorder_directory i, MANIFEST_NAME) \<or> re_manifest r = None \<and> re_state r = Stopped"
    and run: "(case re_manifest r of Some mp \<Rightarrow> m_result (Inr mp)
      | None \<Rightarrow> m_bind (lift_io (open_append (recorder_directory i, MANIFEST_NAME))) (\<lambda>_. m_result (Inr (recorder_directory i, MANIFEST_NAME))))
      (put_recorder i (r\<lparr>re_manifest := None\<rparr>) s) = (x1, s1)"
  shows "frame i s s1 \<and> held s1 i (r\<lparr>re_manifest := None\<rparr>) \<and> files s1 i = files s i \<and> (isl x1 \<longrightarrow> re_state r = Stopped)
    \<and> (\<not> isl x1 \<longrightarrow> x1 = Inr (recorder_directory i, MANIFEST_NAME))"
proof -
  let ?d = "recorder_directory i" and ?r = "r\<lparr>re_manifest := None\<rparr>"
  let ?s = "put_recorder i ?r s"
  have "frame i s s1 \<and> get_recorder s1 i = Some ?r \<and> files s1 i = files s i \<and> (isl x1 \<longrightarrow> re_state r = Stopped) \<and> (\<not> isl x1 \<longrightarrow> x1 = Inr (?d, MANIFEST_NAME))"
  proof (cases "re_manifest r")
    case None
    obtain x0 s0 where 0: "lift_io (open_append (?d, MANIFEST_NAME)) ?s = (x0, s0)" by force
    have "frame i ?s s0 \<and> (\<forall>j. get_recorder s0 j = get_recorder ?s j) \<and> files s0 i = files s i"
      using reopen_manifest [of ?s i f x0 s0] 0 h(2) by simp
    moreover have "s1 = s0" "\<not> isl x1 \<longrightarrow> x1 = Inr (?d, MANIFEST_NAME)" using run 0 None by (auto simp: m_bind_def m_result_def split: sum.splits)
    ultimately show ?thesis using None man frame_trans [OF frame_put] by auto
  next
    case (Some mp)
    then have "s1 = ?s" "x1 = Inr (?d, MANIFEST_NAME)" using run man by (auto simp: m_result_def)
    then show ?thesis using frame_put by simp
  qed
  moreover have "queue_ok ?r" using h(1) queue_ok_cong [of ?r r] by (simp add: held_def)
  ultimately show ?thesis using h(1) by (simp add: held_def)
qed

lemma stop_manifest_effect:
  assumes h: "held s i r" "dir_ok True es [] (files s i)" "files s i MANIFEST_NAME = Some f" "index_ok es (re_segment_index r)" and rcpt: "rcpt \<noteq> 0"
    and man: "re_manifest r = Some (recorder_directory i, MANIFEST_NAME) \<or> re_manifest r = None \<and> re_state r = Stopped"
    and run: "stop_manifest i rcpt s = (x, s')"
  shows "takes_effect i rcpt ActionStop s x s' \<and> recorder_inv s' i"
proof -
  let ?d = "recorder_directory i" and ?r = "r\<lparr>re_manifest := None\<rparr>" and ?e = "EntryStop rcpt"
  have g: "get_recorder s i = Some r" "re_directory r = ?d" "re_id r = i" "queue_ok r" using h(1) by (simp_all add: held_def)
  let ?s = "put_recorder i ?r s"
  obtain x1 s1 where 1: "(case re_manifest r of Some mp \<Rightarrow> m_result (Inr mp) | None \<Rightarrow> m_bind (lift_io (open_append (?d, MANIFEST_NAME))) (\<lambda>_. m_result (Inr (?d, MANIFEST_NAME)))) ?s = (x1, s1)"
    by force
  note opened = stop_writer_effect [OF h(1,3) man 1]
  have ok1: "dir_ok True es [] (files s1 i)" "files s1 i MANIFEST_NAME = Some f" using opened h(2,3) by simp_all
  have held1: "held s1 i ?r" using opened by blast
  show ?thesis
  proof (cases "isl x1")
    case True
    then have "s' = s1" "isl x" using run g(1,2) 1 by (auto simp: stop_manifest_def Let_def m_bind_def split: sum.splits)
    moreover have "stopped s1 i ?r" using opened True held1 ok1 h(4) by (auto simp: stopped_def)
    moreover have "get_recorder s1 i = Some ?r" using held1 by (simp add: held_def)
    ultimately show ?thesis using opened applies_error by (auto simp: recorder_inv_def)
  next
    case False
    obtain x2 s2 where 2: "lift_io (write_manifest_frame (?d, MANIFEST_NAME) ?e) s1 = (x2, s2)" by force
    note frame2 = manifest_frame_effect [OF ok1 _ _ 2, simplified, OF rcpt]
    have held2: "held s2 i ?r" using held1 frame2 by (simp add: held_def)
    have fr: "frame i s s2" using opened frame2 frame_trans by blast
    let ?f = "\<lambda>r. r\<lparr>re_state := Stopped, re_manifest := None, re_segment := None, re_queue := [], re_queue_bytes := 0\<rparr>"
    show ?thesis
    proof (cases x2)
      case (Inl e)
      then have "x = Inl e" "s' = mark_failed i e s2" using run g(1,2) 1 2 opened False by (auto simp: stop_manifest_def Let_def m_bind_def on_error_def)
      then show ?thesis using mark_failed_effect [OF held2] fr frame_trans failed_inv by (auto intro!: applies_error)
    next
      case (Inr u)
      then have x: "x = Inr Applied" "s' = update_recorder i ?f (insert_receipt rcpt (i, ActionStop) s2)"
        using run g(1,2) 1 2 opened False by (auto simp: stop_manifest_def Let_def m_bind_def on_error_def)
      have "files s2 i MANIFEST_NAME \<noteq> None" using dir_okD(1) [of True "es @ [?e]" "[]" "files s2 i"] frame2 Inr by auto
      then have "stopped s' i (?f ?r)" using x frame2 Inr held2 h(4) by (auto simp: stopped_def held_def queue_ok_def)
      moreover have "get_recorder s' i = Some (?f ?r)" using x held2 by (simp add: held_def)
      ultimately show ?thesis using x fr by (auto simp: recorder_inv_def intro!: applies_update applies_done)
    qed
  qed
qed

lemma stop_recording:
  assumes inv: "coord_inv s" and i: "i \<noteq> 0" and rcpt: "rcpt \<noteq> 0" "map_of (co_receipts s) rcpt = None" and rec: "recording s i r es k c"
  shows "\<exists>x s'. recorder_stop i rcpt s = Some (x, s') \<and> coord_inv s' \<and> takes_effect i rcpt ActionStop s x s'"
proof -
  have get: "get_recorder s i = Some r" "re_state r = Recording" using recordingD(2,7) [OF rec] by blast+
  obtain x1 s1 where 1: "flush i s = Some (x1, s1)" using flush_effect [OF rec] by blast
  note f = flush_inv [OF inv i rec 1]
  show ?thesis
  proof (cases x1)
    case (Inl e)
    then show ?thesis using 1 f rcpt(2) get by (auto simp: recorder_stop_def receipt_outcome_def intro!: applies_error)
  next
    case (Inr m)
    then obtain r1 es1 k1 where rec1: "recording s1 i r1 es1 k1 c" using f by auto
    obtain x2 s2 where 2: "close_segment i s1 = (x2, s2)" by force
    note close = close_segment_effect [OF rec1 2] and R = recordingD [OF rec1]
    have run: "recorder_stop i rcpt s = Some (case x2 of Inl e \<Rightarrow> (Inl e, mark_failed i e s2) | Inr _ \<Rightarrow> stop_manifest i rcpt s2)"
      using 1 2 Inr rcpt(2) get by (auto simp: recorder_stop_def receipt_outcome_def m_bind_def on_error_def split: sum.split)
    have "\<exists>x s'. recorder_stop i rcpt s = Some (x, s') \<and> takes_effect i rcpt ActionStop s1 x s' \<and> recorder_inv s' i"
    proof (cases x2)
      case (Inl e)
      then have "held s2 i r1" "frame i s1 s2" using close by auto
      then show ?thesis using run Inl mark_failed_effect [of s2 i r1 e] frame_trans failed_inv by (auto intro!: applies_error)
    next
      case (Inr u)
      let ?r = "r1\<lparr>re_segment := None\<rparr>" and ?es = "es1 @ [SegmentClose k1 (re_segment_frames r1) (re_segment_bytes r1)]"
      have c: "held s2 i ?r" "dir_ok True ?es [] (files s2 i)" "frame i s1 s2" using close Inr by auto
      obtain f where f: "files s2 i MANIFEST_NAME = Some f" using recording_manifest [OF c(2), of k1] R(8) by (auto simp: committed_append)
      have idx: "index_ok ?es (re_segment_index ?r)" using R(9,10) by (simp add: index_ok_def committed_append)
      have man: "re_manifest ?r = Some (recorder_directory i, MANIFEST_NAME) \<or> re_manifest ?r = None \<and> re_state ?r = Stopped" using R(12) by simp
      obtain x s' where 4: "stop_manifest i rcpt s2 = (x, s')" by force
      show ?thesis using run Inr 4 stop_manifest_effect [OF c(1,2) f idx rcpt(1) man 4] applies_after [OF c(3)] by auto
    qed
    then obtain x s' where res: "recorder_stop i rcpt s = Some (x, s')" "takes_effect i rcpt ActionStop s1 x s'" "recorder_inv s' i" by blast
    have ap: "takes_effect i rcpt ActionStop s x s'" using applies_after res(2) f by blast
    then have "coord_inv s'" using call_keeps_inv [OF inv applies_affects i res(3)] rcpt(2) recording_files [OF rec] by blast
    then show ?thesis using res(1) ap by blast
  qed
qed

lemma stop_call:
  assumes inv: "coord_inv s" and i: "i \<noteq> 0" and rcpt: "rcpt \<noteq> 0" "map_of (co_receipts s) rcpt = None"
  shows "\<exists>x s'. recorder_stop i rcpt s = Some (x, s') \<and> coord_inv s' \<and> takes_effect i rcpt ActionStop s x s'"
proof (cases "get_recorder s i")
  case None
  then show ?thesis using inv rcpt by (auto simp: recorder_stop_def receipt_outcome_def intro!: applies_error)
next
  case (Some r)
  then show ?thesis
  proof (cases rule: inv_cases [OF inv i Some])
    case 1
    then show ?thesis using inv rcpt Some by (auto simp: recorder_stop_def receipt_outcome_def intro!: applies_error)
  next
    case 2
    then obtain es f where st: "held s i r" "dir_ok True es [] (files s i)" "files s i MANIFEST_NAME = Some f" "index_ok es (re_segment_index r)"
      "re_manifest r = Some (recorder_directory i, MANIFEST_NAME) \<or> re_manifest r = None \<and> re_state r = Stopped"
      by (auto simp: stopped_def)
    obtain x s' where run: "stop_manifest i rcpt s = (x, s')" by force
    note eff = stop_manifest_effect [OF st(1-4) rcpt(1) st(5) run]
    have "files s i \<noteq> Map.empty" using st(3) by auto
    then have "coord_inv s'" using call_keeps_inv [OF inv applies_affects i] eff rcpt(2) by blast
    then show ?thesis using run eff rcpt(2) Some 2(2) by (simp add: recorder_stop_def receipt_outcome_def)
  next
    case (3 es k c)
    then show ?thesis using stop_recording [OF inv i rcpt] by blast
  qed
qed

section \<open>Starting\<close>

definition ready :: "coordinator \<Rightarrow> recorder_id \<Rightarrow> manifest_entry list \<Rightarrow> bool" where
  "ready s i es \<longleftrightarrow> dir_ok True es [] (files s i)
     \<and> (case get_recorder s i of None \<Rightarrow> es = [] | Some r \<Rightarrow> stopped s i r \<and> index_ok es (re_segment_index r))"

lemma ready_inv: "ready s i es \<Longrightarrow> recorder_inv s i"
  by (auto simp: ready_def recorder_inv_def split: option.splits)

lemma inv_ready:
  assumes inv: "coord_inv s" and i: "i \<noteq> 0" and st: "\<And>r. get_recorder s i = Some r \<Longrightarrow> re_state r = Stopped"
  shows "\<exists>es. ready s i es"
proof (cases "get_recorder s i")
  case None
  then show ?thesis using inv i by (auto simp: ready_def coord_inv_def recorder_inv_def)
next
  case (Some r)
  then show ?thesis
    by (cases rule: inv_cases [OF inv i Some]) (use st [OF Some] Some in \<open>auto simp: ready_def stopped_def\<close>)
qed

lemma ready_step:
  assumes ready: "ready s i es" and get: "\<forall>j. get_recorder s' j = get_recorder s j" and ok: "dir_ok True es [] (files s' i)"
    and man: "files s i MANIFEST_NAME \<noteq> None \<Longrightarrow> files s' i MANIFEST_NAME \<noteq> None"
  shows "ready s' i es"
proof (cases "get_recorder s i")
  case None
  then show ?thesis using assms by (simp add: ready_def)
next
  case (Some r)
  then have st: "stopped s i r" "index_ok es (re_segment_index r)" using ready by (simp_all add: ready_def)
  have "dir_ok False es [] (files s' i)" using ok by (rule dir_ok_untidy)
  then have "held s' i r" using st(1) get by (auto simp: stopped_def held_def)
  then have "stopped s' i r" using st man ok by (auto simp: stopped_def)
  then show ?thesis using Some get ok st(2) by (simp add: ready_def)
qed

lemma mark_or_insert_failed_effect:
  assumes get: "get_recorder s i = None \<or> (\<exists>r. get_recorder s i = Some r \<and> re_id r = i \<and> re_directory r = recorder_directory i \<and> queue_ok r)"
    and ok: "dir_ok False es es' (files s i)"
  shows "frame i s (mark_or_insert_failed i (recorder_directory i) e s) \<and> failed (mark_or_insert_failed i (recorder_directory i) e s) i"
proof (cases "get_recorder s i")
  case None
  let ?r = "recorder_failed i (recorder_directory i) e"
  have "held (put_recorder i ?r s) i ?r" using ok by (auto simp: held_def recorder_failed_def queue_ok_def)
  then show ?thesis using None frame_put by (auto simp: mark_or_insert_failed_def failed_def recorder_failed_def)
next
  case (Some r)
  then have "held s i r" using get ok by (auto simp: held_def)
  then show ?thesis using Some mark_failed_effect by (simp add: mark_or_insert_failed_def)
qed

lemma ready_mark:
  assumes "ready s i es" "\<forall>j. get_recorder s' j = get_recorder s j" "dir_ok False fs fs' (files s' i)"
  shows "frame i s' (mark_or_insert_failed i (recorder_directory i) e s') \<and> failed (mark_or_insert_failed i (recorder_directory i) e s') i"
proof (rule mark_or_insert_failed_effect [OF _ assms(3)])
  show "get_recorder s' i = None \<or> (\<exists>r. get_recorder s' i = Some r \<and> re_id r = i \<and> re_directory r = recorder_directory i \<and> queue_ok r)"
    using assms(1,2) by (cases "get_recorder s i") (auto simp: ready_def stopped_def held_def)
qed

lemma on_error_bind: "m_bind (on_error a h) (\<lambda>x. on_error (b x) h) = on_error (m_bind a b) h"
  by (rule ext) (auto simp: m_bind_def on_error_def split: sum.splits prod.splits)

lemma start_files_eq: "start_files i (recorder_directory i) k e = on_error (new_segment i k e) (mark_or_insert_failed i (recorder_directory i))"
  by (simp add: start_files_def new_segment_def prepare_segment_def Let_def on_error_bind m_bind_assoc)

lemma saturating_add_le: "j \<le> k \<Longrightarrow> j \<le> saturating_add k 1" for j k :: u64
  using word_n1_ge [of j] by (auto simp: saturating_add_def word_le_nat_alt unat_word_ariths split: if_splits)

lemma next_index_le:
  assumes "ready s i es" "j \<in> set (committed_segments es)"
  shows "j \<le> next_start_index i s"
  using assms saturating_add_le
  by (auto simp: ready_def next_start_index_def index_ok_def split: option.splits)

text \<open>The last part of \<open>start\<close>, with the manifest in place.\<close>

lemma start_segment:
  assumes ready: "ready s i es" and man: "files s i MANIFEST_NAME = Some f" "fl_entry f" and rcpt: "rcpt \<noteq> 0" and c: "config_fits c"
    and k: "k = next_start_index i s" and run: "start_files i (recorder_directory i) k (EntryStart rcpt c k) s = (x, s')"
  shows "frame i s s' \<and> (isl x \<longrightarrow> failed s' i)
    \<and> (\<not> isl x \<longrightarrow> dir_ok True (es @ [EntryStart rcpt c k]) [] (files s' i) \<and> segdata (files s' i) = segdata (files s i)
      \<and> (\<forall>j \<in> set (committed_segments es). j \<le> k))"
proof -
  have ok: "dir_ok True es [] (files s i)" using ready by (simp add: ready_def)
  have e: "entry_ok (EntryStart rcpt c k)" using rcpt c by (simp add: config_fits_def)
  have le: "\<forall>j \<in> set (committed_segments es). j \<le> k" using next_index_le [OF ready] k by blast
  obtain x1 s1 where 1: "new_segment i k (EntryStart rcpt c k) s = (x1, s1)" by force
  note new = new_segment_effect [OF ok man e _ le 1, simplified]
  show ?thesis
  proof (cases x1)
    case (Inl er)
    obtain fs fs' where "dir_ok False fs fs' (files s1 i)" using new by blast
    then have "frame i s1 (mark_or_insert_failed i (recorder_directory i) er s1) \<and> failed (mark_or_insert_failed i (recorder_directory i) er s1) i"
      using ready_mark [OF ready] new by blast
    then show ?thesis using run 1 Inl new frame_trans by (auto simp: start_files_eq on_error_def)
  next
    case (Inr u)
    then show ?thesis using run 1 new le by (auto simp: start_files_eq on_error_def)
  qed
qed

text \<open>Creating the directory and the manifest.\<close>

definition known :: "coordinator \<Rightarrow> recorder_id \<Rightarrow> bool" where
  "known s i \<longleftrightarrow> map_of (w_dirs (co_world s)) (recorder_directory i) \<noteq> None"

lemma known_frame: "frame i s s' \<Longrightarrow> known s i \<Longrightarrow> known s' i"
  by (simp add: known_def frame_def only_dir_def dirs_kept_def)

lemma create_directory_effect:
  assumes ready: "ready s i es" and run: "lift_io (create_dir_all_durable (recorder_directory i)) s = (x, s')"
  shows "frame i s s' \<and> ready s' i es \<and> (\<not> isl x \<longrightarrow> known s' i) \<and> segdata (files s' i) = segdata (files s i)
    \<and> (files s i = Map.empty \<longrightarrow> files s' i = Map.empty)"
proof -
  obtain w where w: "create_dir_all_durable (recorder_directory i) (co_world s) = (x, w)" "s' = s\<lparr>co_world := w\<rparr>" using run by (rule lift_io_cases)
  note eff = create_dir_effect [OF w(1) directory_not_Nil]
  have ok: "dir_ok True es [] (files s i)" using ready by (simp add: ready_def)
  have "dir_ok True es [] (files s' i)" using eff ok entries_synced_ok [OF ok] w(2) by auto
  moreover have "files s i n = None \<longleftrightarrow> files s' i n = None" for n using eff w(2) by (auto simp: entries_synced_def)
  moreover have "segdata (files s' i) = segdata (files s i)" using eff w(2) by (auto simp: segdata_steps)
  ultimately show ?thesis using ready_step [OF ready] eff w(2) frame_world by (auto simp: known_def fun_eq_iff)
qed

lemma manifest_in_place:
  assumes ready: "ready s i es" and known: "known s i" and d: "d = recorder_directory i"
    and run: "m_bind (lift_io (open_append (d, MANIFEST_NAME))) (\<lambda>_. m_bind (on_error (lift_io (sync_all (d, MANIFEST_NAME))) (mark_or_insert_failed i d))
      (\<lambda>_. lift_io (sync_directory d))) s = (x, s')"
  shows "frame i s s' \<and> known s' i \<and> (isl x \<longrightarrow> recorder_inv s' i)
    \<and> (\<not> isl x \<longrightarrow> ready s' i es \<and> segdata (files s' i) = segdata (files s i) \<and> (\<exists>f. files s' i MANIFEST_NAME = Some f \<and> fl_entry f))"
proof -
  have ok: "dir_ok True es [] (files s i)" using ready by (simp add: ready_def)
  obtain x1 s1 where 1: "lift_io (open_append (d, MANIFEST_NAME)) s = (x1, s1)" by force
  note op = lift_step [OF open_append_step calm_ops(1) 1 [unfolded d]]
  have ok1: "dir_ok True es [] (files s1 i)" using op ok open_manifest_ok [OF ok] by auto
  have ready1: "ready s1 i es" by (rule ready_step [OF ready _ ok1]) (use op in \<open>auto simp: opened_def\<close>)
  obtain x2 s2 where 2: "lift_io (sync_all (d, MANIFEST_NAME)) s1 = (x2, s2)" by force
  note sy = sync_effect [OF ok1 2 [unfolded d]]
  have ok2: "dir_ok True es [] (files s2 i)" using sy ok1 by simp
  have ready2: "ready s2 i es" by (rule ready_step [OF ready1 _ ok2]) (use sy in auto)
  obtain x3 s3 where 3: "lift_io (sync_directory d) s2 = (x3, s3)" by force
  note di = sync_directory_effect [OF ok2 3 [unfolded d]]
  have ready3: "ready s3 i es" by (rule ready_step [OF ready2]) (use di in auto)
  have data: "segdata (files s3 i) = segdata (files s i)" using op sy di by (auto simp: segdata_steps)
  have fr: "frame i s s1" "frame i s s2" "frame i s s3" using op sy di frame_trans by blast+
  have mark: "frame i s2 (mark_or_insert_failed i d e s2) \<and> failed (mark_or_insert_failed i d e s2) i" for e
    using ready_mark [OF ready2 _ dir_ok_untidy [OF ok2]] d by simp
  have durable: "\<exists>f. files s3 i MANIFEST_NAME = Some f \<and> fl_entry f" if "\<not> isl x1" "\<not> isl x3"
  proof -
    have "files s1 i MANIFEST_NAME \<noteq> None" using op that(1) by (auto simp: opened_def)
    then obtain f where "files s3 i MANIFEST_NAME = Some f" using sy di by fastforce
    then show ?thesis using di that(2) by blast
  qed
  consider "isl x1" "isl x" "s' = s1" | e where "isl x" "s' = mark_or_insert_failed i d e s2" | "\<not> isl x1" "x = x3" "s' = s3"
    using run 1 2 3 by (cases x1; cases x2) (auto simp: m_bind_def on_error_def)
  then show ?thesis
  proof cases
    case 1
    then show ?thesis using fr(1) known known_frame ready_inv [OF ready1] by auto
  next
    case 2
    then show ?thesis using frame_trans [OF fr(2)] mark [of e] known known_frame failed_inv by auto
  next
    case 3
    then show ?thesis using fr(3) known known_frame ready_inv [OF ready3] ready3 durable data by auto
  qed
qed

lemma start_new_effect:
  assumes inv: "coord_inv s" and i: "i \<noteq> 0" and ready: "ready s i es" and rcpt: "rcpt \<noteq> 0" "map_of (co_receipts s) rcpt = None"
    and c: "config_fits c" and run: "start_new i rcpt c s = (x, s')"
  shows "takes_effect i rcpt ActionStart s x s' \<and> coord_inv s'
    \<and> (\<not> isl x \<longrightarrow> segdata (files s' i) = segdata (files s i) \<and> (\<exists>r k. recording s' i r (es @ [EntryStart rcpt c k]) k c \<and> re_queue r = []))"
proof -
  let ?d = "recorder_directory i" and ?mp = "(recorder_directory i, MANIFEST_NAME)"
  let ?place = "m_bind (lift_io (open_append ?mp)) (\<lambda>_. m_bind (on_error (lift_io (sync_all ?mp)) (mark_or_insert_failed i ?d)) (\<lambda>_. lift_io (sync_directory ?d)))"
  let ?rec = "\<lambda>k. \<lparr>re_id = i, re_directory = ?d, re_state = Recording, re_config = Some c, re_queue = [], re_queue_bytes = 0,
    re_manifest = Some ?mp, re_segment = Some (segment_path ?d k), re_segment_index = Some k, re_segment_frames = 0, re_segment_bytes = 0, re_failure = None\<rparr>"
  let ?last = "\<lambda>s. let k = next_start_index i s in m_bind (start_files i ?d k (EntryStart rcpt c k)) (\<lambda>_ s'. (Inr Applied,
    insert_receipt rcpt (i, ActionStart) (put_recorder i (?rec k) s'))) s"
  have eq: "start_new i rcpt c = m_bind (lift_io (create_dir_all_durable ?d)) (\<lambda>_. m_bind ?place (\<lambda>_. ?last))"
    by (simp add: start_new_def Let_def m_bind_assoc)
  obtain x1 s1 where 1: "lift_io (create_dir_all_durable ?d) s = (x1, s1)" by force
  note cr = create_directory_effect [OF ready 1]
  have world: "world_ok (co_world s)" using inv by (simp add: coord_inv_def)
  have keep: "coord_inv s''" if "affects i s s''" "recorder_inv s'' i" "known s'' i" for s''
    using coord_inv_step [OF inv that(1) i that(2)] that(3) by (simp add: known_def)
  show ?thesis
  proof (cases x1)
    case (Inl e)
    then have x: "x = Inl e" "s' = s1" using run eq 1 by (auto simp: m_bind_def)
    have "files s1 i = Map.empty \<or> known s1 i"
    proof (cases "files s i = Map.empty")
      case False
      then show ?thesis using known_directory [OF world False, of s1] cr by (simp add: known_def frame_def)
    qed (use cr in blast)
    then have "coord_inv s1" using coord_inv_step [OF inv frame_affects i ready_inv] cr by (auto simp: known_def)
    then show ?thesis using x cr applies_error by auto
  next
    case (Inr u)
    then have ready1: "ready s1 i es" and known1: "known s1 i" and fr1: "frame i s s1" using cr by auto
    obtain x2 s2 where 2: "?place s1 = (x2, s2)" by force
    note pl = manifest_in_place [OF ready1 known1 refl 2]
    have fr2: "frame i s s2" using fr1 pl frame_trans by blast
    show ?thesis
    proof (cases x2)
      case (Inl e)
      then have "x = Inl e" "s' = s2" using run eq 1 2 Inr by (auto simp: m_bind_def)
      then show ?thesis using pl Inl fr2 keep [OF frame_affects [OF fr2]] applies_error by auto
    next
      case inr2: (Inr u2)
      then obtain f where ready2: "ready s2 i es" and man: "files s2 i MANIFEST_NAME = Some f" "fl_entry f" using pl by auto
      define k where "k = next_start_index i s2"
      obtain x3 s3 where 3: "start_files i ?d k (EntryStart rcpt c k) s2 = (x3, s3)" by force
      note st = start_segment [OF ready2 man rcpt(1) c k_def 3]
      have fr3: "frame i s s3" "known s3 i" using fr2 st frame_trans pl known_frame by blast+
      show ?thesis
      proof (cases x3)
        case (Inl e)
        then have "x = Inl e" "s' = s3" using run eq 1 2 3 Inr inr2 by (auto simp: m_bind_def Let_def k_def)
        then show ?thesis using st Inl fr3 keep [OF frame_affects [OF fr3(1)] failed_inv] applies_error by auto
      next
        case inr3: (Inr u3)
        then have x: "x = Inr Applied" "s' = insert_receipt rcpt (i, ActionStart) (put_recorder i (?rec k) s3)"
          using run eq 1 2 3 Inr inr2 by (auto simp: m_bind_def Let_def k_def)
        have ok: "dir_ok True (es @ [EntryStart rcpt c k]) [] (files s' i)" using st inr3 x by simp
        have rec: "recording s' i (?rec k) (es @ [EntryStart rcpt c k]) k c"
          using x ok dir_ok_untidy [OF ok] st inr3 c by (auto simp: recording_def held_def queue_ok_def committed_append)
        then have ri: "recorder_inv s' i" by (rule recording_inv)
        have data: "segdata (files s' i) = segdata (files s i)" using st inr3 pl inr2 cr x by simp
        have ap: "takes_effect i rcpt ActionStart s x s'" using x applies_done frame_trans [OF fr3(1) frame_put] by simp
        have "known s' i" using fr3(2) x by (simp add: known_def)
        then have "coord_inv s'" using ri keep [OF applies_affects [OF ap rcpt(2)]] by blast
        moreover have "\<exists>r k. recording s' i r (es @ [EntryStart rcpt c k]) k c \<and> re_queue r = []" using rec by (intro exI [of _ "?rec k"] exI [of _ k]) simp
        ultimately show ?thesis using ap data by blast
      qed
    qed
  qed
qed

lemma start_call:
  assumes inv: "coord_inv s" and i: "i \<noteq> 0" and rcpt: "rcpt \<noteq> 0" "map_of (co_receipts s) rcpt = None"
    and c: "ql_max_events (rc_queue c) < 2 ^ 64" "ql_max_bytes (rc_queue c) < 2 ^ 64" and run: "recorder_start i rcpt c s = (x, s')"
  shows "takes_effect i rcpt ActionStart s x s' \<and> coord_inv s'"
proof (cases "config_ok c \<and> (\<forall>r. get_recorder s i = Some r \<longrightarrow> re_state r = Stopped)")
  case True
  then obtain es where "ready s i es" using inv_ready [OF inv i] by blast
  moreover have "config_fits c" using True c by (simp add: config_fits_def)
  moreover have "config_validate c = Inr ()" using True by (auto simp: config_validate_def config_ok_def)
  then have "start_new i rcpt c s = (x, s')"
    using run rcpt(2) True by (auto simp: recorder_start_def receipt_outcome_def m_bind_def m_result_def split: option.splits)
  ultimately show ?thesis using start_new_effect [OF inv i _ rcpt] by blast
next
  case False
  then have "isl x \<and> s' = s"
    using run rcpt(2) by (auto simp: recorder_start_def receipt_outcome_def m_bind_def m_result_def config_validate_def config_ok_def split: option.splits if_splits)
  then show ?thesis using inv applies_error by auto
qed

end
