(* ===== verification/Recorder_Crash.thy ===== *)
theory Recorder_Crash
  imports Recorder_Runs
begin

text \<open>
  Crashes and restarts: reconciling the recordings that a crash left restores the invariant of the
  coordinator, so it holds over every sequence of calls, faults, crashes and restarts.
\<close>

section \<open>Replaying a manifest\<close>

definition replay_ok :: "manifest_entry list \<Rightarrow> replayed \<Rightarrow> bool" where
  "replay_ok es y \<longleftrightarrow> ry_latest_open y = (if committed_segments es = [] then None else Some (last (committed_segments es)))
     \<and> (\<forall>c. ry_config y = Some c \<longrightarrow> config_fits c) \<and> ry_state y \<noteq> Failed \<and> (ry_state y = Recording \<longrightarrow> committed_segments es \<noteq> [])"

lemma stage_receipt_same:
  assumes "stage_receipt receipts rcpt a y = Inr y'"
  shows "ry_config y' = ry_config y \<and> ry_state y' = ry_state y \<and> ry_latest_open y' = ry_latest_open y"
  using assms by (auto simp: stage_receipt_def split: option.splits if_splits)

lemma replay_entry_ok:
  assumes "replay_ok es y" "entry_ok e" "replay_entry receipts i e y = Inr y'"
  shows "replay_ok (es @ [e]) y'"
  using assms by (cases e) (auto simp: replay_ok_def committed_append config_fits_def result_simps dest!: stage_receipt_same)

lemma replay_frames_ok:
  assumes "replay_ok es y" "list_all entry_ok es'"
    and "replay_frames receipts i mp (map (\<lambda>(k, q). \<lparr>sf_kind = k, sf_payload = q\<rparr>) (map encode_manifest es')) y = Inr y'"
  shows "replay_ok (es @ es') y'"
  using assms
proof (induction es' arbitrary: es y)
  case (Cons e es')
  obtain k q where e: "encode_manifest e = (k, q)" by (cases "encode_manifest e")
  have "decode_manifest \<lparr>sf_kind = k, sf_payload = q\<rparr> mp = Inr e" using Cons.prems e by (intro decode_encoded_manifest) simp
  then obtain y1 where y1: "replay_entry receipts i e y = Inr y1"
    "replay_frames receipts i mp (map (\<lambda>(k, q). \<lparr>sf_kind = k, sf_payload = q\<rparr>) (map encode_manifest es')) y1 = Inr y'"
    using Cons.prems(3) e by (auto simp: result_simps)
  then have "replay_ok (es @ [e]) y1" using replay_entry_ok Cons.prems by simp
  then show ?case using Cons.IH [of "es @ [e]" y1] Cons.prems(2) y1(2) by simp
qed simp

lemma replay_start_ok: "replay_ok [] replay_start"
  by (simp add: replay_ok_def replay_start_def)

lemma max_segment_index:
  assumes "set (map rv_index segments) = set (committed_segments es)"
  shows "index_ok es (max_segment segments)"
proof (cases segments)
  case Nil
  then show ?thesis using assms by (simp add: max_segment_def index_ok_def)
next
  case (Cons g gs)
  have start: "m \<le> fold max xs m" for m :: u64 and xs
    by (induction xs arbitrary: m) (auto intro: order_trans [OF max.cobounded2])
  have max: "x \<in> set xs \<or> x = m \<Longrightarrow> x \<le> fold max xs m" for x m :: u64 and xs
    by (induction xs arbitrary: m) (auto intro: order_trans [OF _ start])
  have "j \<le> fold max (map rv_index gs) (rv_index g)" if "j \<in> set (committed_segments es)" for j
    using that Cons by (intro max) (auto simp flip: assms)
  then show ?thesis using Cons by (simp add: max_segment_def index_ok_def)
qed

lemma last_sorted: "sorted xs \<Longrightarrow> j \<in> set xs \<Longrightarrow> j \<le> last xs"
  by (induction xs) auto

text \<open>The segment that recording continues with is at or after every segment of the manifest.\<close>

lemma active_index_ok:
  assumes y: "replay_ok es y" and sorted: "sorted (committed_segments es)" and idx: "index_ok es m" and j: "j \<in> set (committed_segments es)"
  shows "j \<le> active_index y m"
proof -
  have last: "ry_latest_open y = Some (last (committed_segments es))" using y j by (auto simp: replay_ok_def)
  have "j \<le> (case m of None \<Rightarrow> 0 | Some k \<Rightarrow> saturating_add k 1)"
    using idx j saturating_add_le by (cases m) (auto simp: index_ok_def)
  then show ?thesis using last last_sorted [OF sorted j] by (simp add: active_index_def Let_def)
qed

lemma resumed_segment:
  assumes "replay_ok es y" "\<not> (ry_latest_open y \<noteq> Some k \<or> map_of (ry_closed y) k \<noteq> None)"
  shows "k \<in> set (committed_segments es)"
  using assms by (auto simp: replay_ok_def split: if_splits)

section \<open>Reconciling one recording\<close>

lemma lift_scan: "lift_io (scan_in f p) s = (and_then (read_file (co_world s) p) (f p), s)"
  by (simp add: lift_io_def scan_in_def)

definition resumes :: "recorder_id \<Rightarrow> manifest_entry list \<Rightarrow> u64 \<Rightarrow> coordinator \<Rightarrow> (recorder_error + raw_scan) \<Rightarrow> coordinator \<Rightarrow> bool" where
  "resumes i es k s x s' \<longleftrightarrow> frame i s s' \<and> (\<forall>j. get_recorder s' j = get_recorder s j) \<and> (\<exists>fs fs'. dir_ok False fs fs' (files s' i))
     \<and> (\<not> isl x \<longrightarrow> (\<exists>fs. dir_ok True fs [] (files s' i) \<and> k \<in> set (committed_segments fs) \<and> (\<forall>j \<in> set (committed_segments fs). j \<le> k)))"

lemma resume_effect:
  assumes ok: "dir_ok True es [] (files s i)" and man: "files s i MANIFEST_NAME = Some f" "fl_entry f" and y: "replay_ok es y"
    and le: "\<forall>j \<in> set (committed_segments es). j \<le> k" and run: "resume_recording (recorder_directory i) y k s = (x, s')"
  shows "resumes i es k s x s'"
proof -
  let ?d = "recorder_directory i" and ?reopens = "ry_latest_open y \<noteq> Some k \<or> map_of (ry_closed y) k \<noteq> None"
  let ?frame = "if ?reopens then lift_io (write_manifest_frame (?d, MANIFEST_NAME) (SegmentOpen k)) else m_result (Inr ())"
  let ?rest = "m_bind (lift_io (scan_in scan_segment (segment_path ?d k))) (\<lambda>scan. m_bind (lift_io (open_append (?d, MANIFEST_NAME))) (\<lambda>_.
    m_bind ?frame (\<lambda>_. m_result (Inr scan))))"
  have eq: "resume_recording ?d y k = m_bind (prepare_segment i k) (\<lambda>_. ?rest)"
    by (simp add: resume_recording_def prepare_segment_def Let_def m_bind_assoc)
  obtain x1 s1 where 1: "prepare_segment i k s = (x1, s1)" by force
  note prep = prepare_segment_effect [OF ok man 1]
  have ok1: "dir_ok True es [] (files s1 i)" using prep by blast
  show ?thesis
  proof (cases x1)
    case (Inl e)
    then show ?thesis using run eq 1 prep dir_ok_untidy [OF ok1] by (auto simp: m_bind_def resumes_def)
  next
    case (Inr u)
    then obtain g f1 where g: "files s1 i (segment_name k) = Some g" "fl_entry g" "files s1 i MANIFEST_NAME = Some f1" using prep by auto
    obtain x5 s5 where 5: "lift_io (open_append (?d, MANIFEST_NAME)) s1 = (x5, s5)" by force
    note re = reopen_manifest [OF g(3) 5]
    have ok5: "dir_ok True es [] (files s5 i)" "dir_ok False es [] (files s5 i)" "dir_ok False es [] (files s1 i)"
      using re ok1 dir_ok_untidy by simp_all
    obtain x6 s6 where 6: "?frame s5 = (x6, s6)" by force
    have fr: "frame i s s5" using prep re frame_trans by blast
    have done6: "frame i s s6 \<and> (\<forall>j. get_recorder s6 j = get_recorder s j) \<and> (\<exists>fs fs'. dir_ok False fs fs' (files s6 i))
      \<and> (\<not> isl x6 \<longrightarrow> (\<exists>fs. dir_ok True fs [] (files s6 i) \<and> k \<in> set (committed_segments fs) \<and> (\<forall>j \<in> set (committed_segments fs). j \<le> k)))"
    proof (cases ?reopens)
      case True
      then have w: "frame i s5 s6 \<and> (\<forall>j. get_recorder s6 j = get_recorder s5 j) \<and> (\<exists>fs fs'. dir_ok False fs fs' (files s6 i))
        \<and> (\<not> isl x6 \<longrightarrow> dir_ok True (es @ [SegmentOpen k]) [] (files s6 i))"
        using manifest_frame_effect [OF ok5(1), of f1 "SegmentOpen k" x6 s6] 6 re g le by simp
      have "frame i s s6" using frame_trans [OF fr] w by blast
      moreover have "\<forall>j. get_recorder s6 j = get_recorder s j" using w prep re by simp
      moreover have "k \<in> set (committed_segments (es @ [SegmentOpen k]))" "\<forall>j \<in> set (committed_segments (es @ [SegmentOpen k])). j \<le> k"
        using le by (auto simp: committed_append)
      ultimately show ?thesis using w by blast
    next
      case False
      then have "s6 = s5" using 6 by (auto simp: m_result_def)
      then show ?thesis using False resumed_segment [OF y, of k] fr prep re ok5 le by auto
    qed
    have rest: "?rest s1 = (x, s')" using run eq 1 Inr by (simp add: m_bind_def)
    consider "isl x" "s' = s1" | "isl x" "s' = s5" | "isl x \<longleftrightarrow> isl x6" "s' = s6"
    proof -
      obtain x4 where "lift_io (scan_in scan_segment (segment_path ?d k)) s1 = (x4, s1)" by (simp add: lift_scan)
      then show ?thesis using rest 5 6 that
        by (cases x4; cases x5; cases x6) (auto simp: m_bind_def m_result_def simp del: if_split)
    qed
    then show ?thesis by cases (use prep re fr ok5 done6 in \<open>auto simp: resumes_def\<close>)
  qed
qed

definition crashed :: "coordinator \<Rightarrow> recorder_id \<Rightarrow> bool" where
  "crashed s i \<longleftrightarrow> (\<exists>es. dir_ok False es [] (files s i)) \<and> settled (files s i) \<and> small (files s i)"

definition reconciles :: "recorder_id \<Rightarrow> coordinator \<Rightarrow> (recorder_error + 'a) \<Rightarrow> coordinator \<Rightarrow> bool" where
  "reconciles i s x s' \<longleftrightarrow> (\<forall>j. j \<noteq> i \<longrightarrow> get_recorder s' j = get_recorder s j) \<and> only_dir (recorder_directory i) (co_world s) (co_world s')
     \<and> (isl x \<longrightarrow> (\<exists>fs fs'. dir_ok False fs fs' (files s' i))) \<and> (\<not> isl x \<longrightarrow> recorder_inv s' i)"

lemma get_reconciled [simp]: "get_recorder (reconciled i d y r s) j = (if j = i then Some r else get_recorder s j)" "co_world (reconciled i d y r s) = co_world s"
  by (simp_all add: reconciled_def get_recorder_def put_recorder_def map_of_bt_insert)

lemma scan_tidy_manifest:
  assumes ok: "dir_ok True es [] (files s i)" and man: "files s i MANIFEST_NAME = Some f" "length (fl_bytes f) < 2 ^ 64"
  shows "\<exists>scan. lift_io (scan_in scan_manifest (recorder_directory i, MANIFEST_NAME)) s = (Inr scan, s)
    \<and> rs_frames scan = map (\<lambda>(k, q). \<lparr>sf_kind = k, sf_payload = q\<rparr>) (map encode_manifest es)"
proof -
  have f: "fl_bytes f = log_bytes (map encode_manifest es) @ []" "list_all (frame_ok MAX_MANIFEST_PAYLOAD False) (map encode_manifest es)"
    using dir_okD(2) [OF ok man(1)] by (auto simp: manifest_file_def log_file_def)
  have "read_file (co_world s) (recorder_directory i, MANIFEST_NAME) = Inr (fl_bytes f)" using man(1) by (simp add: read_file_def view_def)
  then show ?thesis
    using scan_file_log [OF f(2) torn_Nil segment_limit(2), of "(recorder_directory i, MANIFEST_NAME)" True] man(2) f(1)
    by (auto simp: lift_scan scan_manifest_def)
qed

text \<open>What follows the repair and the scan of the manifest.\<close>

lemma reconcile_replayed:
  assumes ok: "dir_ok True es [] (files s i)" and man: "files s i MANIFEST_NAME = Some f" and idx: "index_ok es (max_segment (rp_segments report))"
    and y: "replay_ok es y" and run: "reconcile_state i (recorder_directory i) report y s = (x, s')"
  shows "reconciles i s x s'"
proof -
  let ?d = "recorder_directory i" and ?k = "active_index y (max_segment (rp_segments report))"
  define r where "r = \<lparr>re_id = i, re_directory = ?d, re_state = ry_state y, re_config = ry_config y, re_queue = [], re_queue_bytes = 0,
    re_manifest = None, re_segment = None, re_segment_index = max_segment (rp_segments report), re_segment_frames = 0, re_segment_bytes = 0, re_failure = None\<rparr>"
  note run = run [unfolded reconcile_state_def, folded r_def]
  have un: "dir_ok False es [] (files s i)" using ok by (rule dir_ok_untidy)
  show ?thesis
  proof (cases "ry_state y = Recording")
    case False
    then have x: "\<not> isl x" "s' = reconciled i ?d y r s" "ry_state y = Stopped" using run y by (cases "ry_state y"; auto simp: replay_ok_def Let_def)+
    then have "stopped s' i r" using un ok man idx by (auto simp: stopped_def held_def queue_ok_def r_def)
    then show ?thesis using x by (auto simp: reconciles_def recorder_inv_def)
  next
    case rec: True
    show ?thesis
    proof (cases "ry_config y")
      case None
      then show ?thesis using run rec un by (auto simp: m_result_def reconciles_def)
    next
      case (Some c)
      obtain x1 s1 where 1: "resume_recording ?d y ?k s = (x1, s1)" by force
      have com: "committed_segments es \<noteq> []" using y rec by (simp add: replay_ok_def)
      obtain f1 where f1: "files s i MANIFEST_NAME = Some f1" "fl_entry f1"
        using recording_manifest [OF ok, of "last (committed_segments es)"] com by auto
      have "sorted (committed_segments es)" using dir_okD(4) [OF ok] by simp
      then have le: "\<forall>j \<in> set (committed_segments es). j \<le> ?k" using active_index_ok [OF y _ idx] by blast
      note res = resume_effect [OF ok f1 y le 1, unfolded resumes_def]
      show ?thesis
      proof (cases x1)
        case (Inl e)
        then show ?thesis using run rec Some 1 res by (auto simp: m_bind_def Let_def reconciles_def frame_def)
      next
        case (Inr scan)
        let ?r = "r\<lparr>re_manifest := Some (?d, MANIFEST_NAME), re_segment := Some (segment_path ?d ?k), re_segment_index := Some ?k,
          re_segment_frames := rs_media_frames scan, re_segment_bytes := rs_valid_bytes scan\<rparr>"
        have x: "x = Inr report" "s' = reconciled i ?d y ?r s1" using run rec Some 1 Inr by (auto simp: m_bind_def Let_def)
        obtain fs where fs: "dir_ok True fs [] (files s1 i)" "?k \<in> set (committed_segments fs)" "\<forall>j \<in> set (committed_segments fs). j \<le> ?k"
          using res Inr by auto
        have "config_fits c" using y Some by (simp add: replay_ok_def)
        then have "recording s' i ?r fs ?k c"
          using x fs rec Some dir_ok_untidy [OF fs(1)] by (auto simp: recording_def held_def queue_ok_def r_def)
        then have "recorder_inv s' i" by (rule recording_inv)
        then show ?thesis using x res by (simp add: reconciles_def frame_def)
      qed
    qed
  qed
qed

lemma kept_small:
  assumes "kept_records n g (Some g')" "length (fl_bytes g) < 2 ^ 64"
  shows "length (fl_bytes g') < 2 ^ 64"
  using assms by (auto simp: kept_records_def)

lemma reconcile_effect:
  assumes crashed: "crashed s i" and run: "reconcile_recorder i (recorder_directory i) s = (x, s')"
  shows "reconciles i s x s'"
proof -
  let ?d = "recorder_directory i"
  obtain es where es: "dir_ok False es [] (files s i)" "settled (files s i)" "small (files s i)" using crashed by (auto simp: crashed_def)
  obtain x1 s1 where 1: "lift_io (repair_recording ?d) s = (x1, s1)" by force
  obtain w1 where w1: "repair_recording ?d (co_world s) = (x1, w1)" "s1 = s\<lparr>co_world := w1\<rparr>" using 1 by (rule lift_io_cases)
  show ?thesis
  proof (cases "files s i MANIFEST_NAME")
    case None
    then have "get_file (co_world s) (?d, MANIFEST_NAME) = None" by (simp add: view_def)
    then have "isl x1" "s1 = s" using w1 by (auto simp: repair_recording_def repair_plan_def read_file_def Let_def)
    then show ?thesis using run 1 es(1) by (auto simp: reconcile_recorder_def m_bind_def reconciles_def split: sum.splits)
  next
    case (Some f)
    note rep = repair_effect [OF es(1,2) Some es(3) directory_not_Nil w1(1)]
    have some: "\<exists>fs fs'. dir_ok False fs fs' (files s1 i)" using rep w1(2) by simp blast
    show ?thesis
    proof (cases x1)
      case (Inl e)
      then have "x = Inl e" "s' = s1" using run 1 by (auto simp: reconcile_recorder_def m_bind_def)
      then show ?thesis using w1(2) rep some by (simp add: reconciles_def)
    next
      case (Inr report)
      then have ok1: "dir_ok True es [] (files s1 i)" and idx: "index_ok es (max_segment (rp_segments report))"
        using rep w1(2) max_segment_index by auto
      obtain f1 where f1: "files s1 i MANIFEST_NAME = Some f1" using rep Inr w1(2) by auto
      have "kept_records MANIFEST_NAME f (files s1 i MANIFEST_NAME)" using rep Some w1(2) by simp
      then have "length (fl_bytes f1) < 2 ^ 64" using kept_small f1 es(3) Some by (metis small_def)
      then obtain scan where scan: "lift_io (scan_in scan_manifest (?d, MANIFEST_NAME)) s1 = (Inr scan, s1)"
        "rs_frames scan = map (\<lambda>(k, q). \<lparr>sf_kind = k, sf_payload = q\<rparr>) (map encode_manifest es)"
        using scan_tidy_manifest [OF ok1 f1] by blast
      have entries: "list_all entry_ok es" using dir_okD(3) [OF es(1)] by simp
      have after: "reconciles i s1 x s' \<Longrightarrow> reconciles i s x s'"
        using rep w1(2) only_dir_trans [of ?d "co_world s" w1 "co_world s'"] by (auto simp: reconciles_def)
      show ?thesis
      proof (cases "replay_frames (co_receipts s1) i (?d, MANIFEST_NAME) (rs_frames scan) replay_start")
        case (Inl e)
        then have "x = Inl e" "s' = s1" using run 1 Inr scan(1) by (auto simp: reconcile_recorder_def m_bind_def m_result_def)
        then show ?thesis using after some by (auto simp: reconciles_def)
      next
        case inr: (Inr y)
        have "replay_ok es y" using replay_frames_ok [OF replay_start_ok entries] inr scan(2) by simp
        moreover have "reconcile_state i ?d report y s1 = (x, s')" using run 1 Inr scan(1) inr by (auto simp: reconcile_recorder_def m_bind_def m_result_def)
        ultimately show ?thesis using after reconcile_replayed [OF ok1 f1 idx] by blast
      qed
    qed
  qed
qed

section \<open>Reopening\<close>

text \<open>While the directories \<open>ds\<close> are still to be reconciled.\<close>

definition reopening :: "string list \<Rightarrow> coordinator \<Rightarrow> bool" where
  "reopening ds s \<longleftrightarrow> world_ok (co_world s) \<and> (\<forall>d \<in> set ds. map_of (w_dirs (co_world s)) d \<noteq> None)
     \<and> (\<forall>i. i \<noteq> 0 \<longrightarrow> (if recorder_directory i \<in> set ds then crashed s i else recorder_inv s i))"

lemma crashed_cong: "files s' i = files s i \<Longrightarrow> crashed s' i = crashed s i"
  by (simp add: crashed_def)

lemma reopening_step:
  assumes re: "reopening (recorder_directory i # ds) s" and i: "i \<noteq> 0" "recorder_directory i \<notin> set ds" and rc: "reconciles i s x s'"
    and s'': "s'' = (if isl x then put_recorder i (recorder_failed i (recorder_directory i) e) s' else s')"
  shows "reopening ds s''"
proof -
  let ?d = "recorder_directory i"
  have same: "get_recorder s'' j = get_recorder s j" "files s'' j = files s j" if "j \<noteq> i" for j
    using rc that s'' by (auto simp: reconciles_def only_dir_def)
  have only: "only_dir ?d (co_world s) (co_world s'')" using rc s'' by (simp add: reconciles_def)
  have inv: "recorder_inv s'' i"
  proof (cases "isl x")
    case True
    then have "held s'' i (recorder_failed i ?d e)" using rc s'' by (auto simp: reconciles_def held_def recorder_failed_def queue_ok_def)
    then show ?thesis by (intro failed_inv) (auto simp: failed_def recorder_failed_def)
  qed (use rc s'' in \<open>simp add: reconciles_def\<close>)
  have w: "world_ok (co_world s)" "map_of (w_dirs (co_world s)) ?d \<noteq> None" using re by (auto simp: reopening_def)
  have "world_ok (co_world s'')"
    unfolding world_ok_def
  proof (intro conjI allI impI)
    fix d assume none: "map_of (w_dirs (co_world s'')) d = None"
    then have d: "d \<noteq> ?d" "map_of (w_dirs (co_world s)) d = None" using only w(2) unfolding only_dir_def dirs_kept_def by metis+
    then show "view (co_world s'') d = Map.empty" using only w(1) by (simp add: only_dir_def world_ok_def)
  next
    fix d assume "map_of (w_dirs (co_world s'')) d \<noteq> None"
    then have "map_of (w_dirs (co_world s)) d \<noteq> None" using only w(2) unfolding only_dir_def dirs_kept_def by metis
    then show "\<exists>j. j \<noteq> 0 \<and> d = recorder_directory j" using w(1) by (simp add: world_ok_def)
  qed
  moreover have "map_of (w_dirs (co_world s'')) d \<noteq> None" if "d \<in> set ds" for d
    using re that only unfolding reopening_def only_dir_def dirs_kept_def by (metis list.set_intros(2))
  moreover have "if recorder_directory j \<in> set ds then crashed s'' j else recorder_inv s'' j" if j: "j \<noteq> 0" for j
  proof (cases "j = i")
    case False
    have "if recorder_directory j \<in> set ds then crashed s j else recorder_inv s j" using re j False by (auto simp: reopening_def split: if_splits)
    then show ?thesis using crashed_cong [OF same(2) [OF False]] recorder_inv_cong [OF same [OF False]] by simp
  qed (use inv i(2) in simp)
  ultimately show ?thesis unfolding reopening_def by blast
qed

lemma reconcile_all_effect:
  assumes "reopening ds s" "distinct ds" "reconcile_all ds report s = (report', s')"
  shows "reopening [] s'"
  using assms
proof (induction ds arbitrary: report s)
  case (Cons d ds)
  obtain i where i: "i \<noteq> 0" "d = recorder_directory i" using Cons.prems(1) by (auto simp: reopening_def world_ok_def)
  obtain x s1 where 1: "reconcile_recorder i d s = (x, s1)" by force
  have "crashed s i" using Cons.prems(1) i by (auto simp: reopening_def)
  then have rc: "reconciles i s x s1" using reconcile_effect 1 i(2) by blast
  have nin: "recorder_directory i \<notin> set ds" using Cons.prems(2) i(2) by simp
  note step = reopening_step [OF Cons.prems(1) [unfolded i(2)] i(1) nin rc refl]
  show ?case
  proof (cases x)
    case (Inl e)
    then have "reopening ds (put_recorder i (recorder_failed i d e) s1)" using step [of e] i(2) by simp
    then show ?thesis using Cons.IH Cons.prems(2,3) 1 i Inl by (auto simp: directory_id)
  next
    case (Inr rv)
    then have "reopening ds s1" using step by simp
    then show ?thesis using Cons.IH Cons.prems(2,3) 1 i Inr by (auto simp: directory_id)
  qed
qed simp

end
