(* ===== verification/Recorder_Growth.thy ===== *)
theory Recorder_Growth
  imports Recorder
begin

text \<open>
  The calls of the recorder coordinator only ever append: whatever a call does, and wherever it fails, a file keeps its
  bytes, what was synchronized stays synchronized, and a durable directory entry stays durable. Only
  recovery truncates and removes. The proof follows the structure of the calls and needs no invariant.
\<close>

definition grown :: "stored_file \<Rightarrow> stored_file \<Rightarrow> bool" where
  "grown f f' \<longleftrightarrow> prefix (fl_bytes f) (fl_bytes f') \<and> prefix (take (fl_synced f) (fl_bytes f)) (take (fl_synced f') (fl_bytes f'))
     \<and> (fl_entry f \<longrightarrow> fl_entry f')"

definition grows :: "world \<Rightarrow> world \<Rightarrow> bool" where
  "grows w w' \<longleftrightarrow> (\<forall>p f. get_file w p = Some f \<longrightarrow> (\<exists>f'. get_file w' p = Some f' \<and> grown f f'))"

lemma grown_refl [simp]: "grown f f"
  by (simp add: grown_def)

lemma grown_trans: "grown f g \<Longrightarrow> grown g h \<Longrightarrow> grown f h"
  unfolding grown_def by (metis prefix_order.trans)

lemma grows_refl [simp]: "grows w w"
  by (simp add: grows_def)

lemma grows_trans: "grows w w1 \<Longrightarrow> grows w1 w2 \<Longrightarrow> grows w w2"
  unfolding grows_def using grown_trans by blast

lemma grows_same: "w_files w' = w_files w \<Longrightarrow> grows w w'"
  by (simp add: grows_def get_file_def)

lemma grows_update: "(\<And>f. grown f (g f)) \<Longrightarrow> grows w (update_file p g w)"
  by (auto simp: grows_def update_file_def put_file_def get_file_def map_of_bt_insert split: option.split)

lemma grown_steps: "grown f (f\<lparr>fl_synced := length (fl_bytes f)\<rparr>)" "grown f (f\<lparr>fl_bytes := fl_bytes f @ bs\<rparr>)" "grown f (f\<lparr>fl_entry := True\<rparr>)"
  by (simp_all add: grown_def take_is_prefix)

definition keeps :: "(world \<Rightarrow> 'a \<times> world) \<Rightarrow> bool" where
  "keeps f \<longleftrightarrow> (\<forall>w. grows w (snd (f w)))"

lemma keeps_io_step: "(\<And>w. grows w (effect w)) \<Longrightarrow> keeps (io_step p effect)"
proof -
  assume effect: "\<And>w. grows w (effect w)"
  have "grows w (snd (io_step p effect w))" for w
  proof -
    obtain x w1 where 1: "next_fault w = (x, w1)" by force
    have "grows w w1" using next_fault_same [OF 1] by (intro grows_same) simp
    then show ?thesis using 1 effect [of w1] grows_trans by (auto simp: io_step_def split: io_fault.split)
  qed
  then show ?thesis by (simp add: keeps_def)
qed

lemma keeps_write_all: "keeps (write_all p bs)"
proof -
  have "grows w (snd (write_all p bs w))" for w
  proof -
    obtain x w1 where 1: "next_fault w = (x, w1)" by force
    have "grows w w1" using next_fault_same [OF 1] by (intro grows_same) simp
    moreover have "grows w1 (update_file p (\<lambda>f. f\<lparr>fl_bytes := fl_bytes f @ cs\<rparr>) w1)" for cs by (rule grows_update) (rule grown_steps)
    ultimately show ?thesis using 1 grows_trans by (fastforce simp: write_all_def split: io_fault.split)
  qed
  then show ?thesis by (simp add: keeps_def)
qed

lemma keeps_then: "keeps f \<Longrightarrow> keeps g \<Longrightarrow> keeps (io_then f g)"
proof -
  assume fg: "keeps f" "keeps g"
  have "grows w (snd (io_then f g w))" for w
  proof -
    obtain x w1 where 1: "f w = (x, w1)" by force
    have "grows w w1" "grows w1 (snd (g w1))" using fg 1 unfolding keeps_def by (metis snd_conv)+
    then show ?thesis using 1 grows_trans by (auto simp: io_then_def split: sum.split)
  qed
  then show ?thesis by (simp add: keeps_def)
qed

lemma keeps_result: "keeps (\<lambda>w. (r, w))"
  by (simp add: keeps_def)

lemma keeps_open_append: "keeps (open_append p)"
  unfolding open_append_def
  by (rule keeps_io_step) (auto simp: grows_def put_file_def get_file_def map_of_bt_insert)

lemma keeps_sync_all: "keeps (sync_all p)"
  unfolding sync_all_def by (intro keeps_io_step grows_update grown_steps)

lemma keeps_sync_directory: "keeps (sync_directory d)"
  unfolding sync_directory_def
proof (rule keeps_io_step)
  fix w
  show "grows w (if d = [] then w\<lparr>w_dirs := map (\<lambda>(n, _). (n, True)) (w_dirs w)\<rparr>
      else w\<lparr>w_files := map (\<lambda>(p, f). (p, if fst p = d then f\<lparr>fl_entry := True\<rparr> else f)) (w_files w)\<rparr>)"
    by (auto simp: grows_def get_file_def map_of_map_values [of "\<lambda>p f. if fst p = d then f\<lparr>fl_entry := True\<rparr> else f"] grown_steps)
qed

lemma keeps_create_dir: "keeps (create_dir_all_durable d)"
proof -
  have make: "keeps (io_step (d, []) (\<lambda>w. w\<lparr>w_dirs := bt_insert d False (w_dirs w)\<rparr>))" by (intro keeps_io_step grows_same) simp
  have "grows w (snd (create_dir_all_durable d w))" for w
    using keeps_then [OF make keeps_then [OF keeps_sync_directory [of "[]"] keeps_sync_directory [of d]]] keeps_sync_directory [of d]
    by (simp add: create_dir_all_durable_def keeps_def)
  then show ?thesis by (simp add: keeps_def)
qed

lemma keeps_write_frame: "keeps (write_frame p k payload maximum)"
proof -
  have "keeps (io_then (write_all p (frame_header k payload)) (io_then (write_all p payload)
      (\<lambda>w. (Inr (of_nat HEADER_LEN + of_nat (length payload)) :: recorder_error + u64, w))))"
    by (intro keeps_then keeps_write_all keeps_result)
  then show ?thesis by (simp add: keeps_def write_frame_def)
qed

lemma keeps_write_frames: "keeps (write_frames p fs)"
proof (induction fs)
  case (Cons f fs)
  obtain k q where f: "f = (k, q)" by force
  have "write_frames p (f # fs) = io_then (write_frame p k q MAX_ENCODED_FRAME_PAYLOAD) (write_frames p fs)" by (rule ext) (simp add: f)
  then show ?case using keeps_then [OF keeps_write_frame Cons.IH] by simp
qed (simp add: keeps_def)

lemmas keeps_ops = keeps_open_append keeps_sync_all keeps_sync_directory keeps_create_dir keeps_write_frame keeps_write_frames keeps_then

lemma keeps_records: "keeps (write_manifest_frame p e)" "keeps (commit_batch p batch)"
  unfolding write_manifest_frame_def commit_batch_def by (intro keeps_ops)+

section \<open>The calls\<close>

definition preserves :: "(coordinator \<Rightarrow> 'a \<times> coordinator) \<Rightarrow> bool" where
  "preserves m \<longleftrightarrow> (\<forall>s. grows (co_world s) (co_world (snd (m s))))"

lemma preserves_step: "preserves m \<Longrightarrow> m s = (x, s') \<Longrightarrow> grows (co_world s) (co_world s')"
  unfolding preserves_def by (metis snd_conv)

lemma preserves_lift: "keeps f \<Longrightarrow> preserves (lift_io f)"
  by (simp add: preserves_def keeps_def lift_io_def split_beta)

lemma preserves_result: "preserves (m_result r)" "preserves (\<lambda>s. (r, s))"
  by (simp_all add: preserves_def m_result_def)

lemma preserves_bind: "preserves m \<Longrightarrow> (\<And>a. preserves (f a)) \<Longrightarrow> preserves (m_bind m f)"
proof -
  assume m: "preserves m" and f: "\<And>a. preserves (f a)"
  have "grows (co_world s) (co_world (snd (m_bind m f s)))" for s
  proof -
    obtain x s1 where 1: "m s = (x, s1)" by force
    note step = preserves_step [OF m 1]
    show ?thesis
    proof (cases x)
      case (Inr a)
      then show ?thesis using 1 step f [of a] grows_trans by (auto simp: m_bind_def preserves_def)
    qed (use 1 step in \<open>simp add: m_bind_def\<close>)
  qed
  then show ?thesis by (simp add: preserves_def)
qed

lemma preserves_on_error: "preserves m \<Longrightarrow> (\<And>e s. co_world (h e s) = co_world s) \<Longrightarrow> preserves (on_error m h)"
proof -
  assume m: "preserves m" and h: "\<And>e s. co_world (h e s) = co_world s"
  have "grows (co_world s) (co_world (snd (on_error m h s)))" for s
  proof -
    obtain x s1 where 1: "m s = (x, s1)" by force
    show ?thesis using preserves_step [OF m 1] 1 h by (simp add: on_error_def split: sum.split)
  qed
  then show ?thesis by (simp add: preserves_def)
qed

lemma worlds [simp]:
  "co_world (put_recorder i r s) = co_world s" "co_world (update_recorder i f s) = co_world s" "co_world (mark_failed i e s) = co_world s"
  "co_world (mark_or_insert_failed i d e s) = co_world s" "co_world (insert_receipt x a s) = co_world s"
  by (simp_all add: put_recorder_def update_recorder_def mark_failed_def mark_or_insert_failed_def insert_receipt_def split: option.split)

lemma preserves_pure: "(\<And>s. co_world (h s) = co_world s) \<Longrightarrow> preserves (\<lambda>s. (r, h s))"
  by (simp add: preserves_def)

lemmas preserves_rules = preserves_bind preserves_on_error preserves_lift preserves_result keeps_ops keeps_records

text \<open>Calls that look at the state before they start.\<close>

lemma preserves_state: "(\<And>s0. preserves (m s0)) \<Longrightarrow> f = (\<lambda>s. m s s) \<Longrightarrow> preserves f"
  by (simp add: preserves_def)

lemma preserves_close_segment: "preserves (close_segment i)"
proof (rule preserves_state)
  let ?rest = "\<lambda>r index. case re_manifest r of None \<Rightarrow> m_result (Inl (InvalidState i (re_state r) ''close segment''))
    | Some mp \<Rightarrow> m_bind (lift_io (write_manifest_frame mp (SegmentClose index (re_segment_frames r) (re_segment_bytes r)))) (\<lambda>_ s'.
        (Inr (), update_recorder i (\<lambda>r. r\<lparr>re_segment := None\<rparr>) s'))"
  let ?m = "\<lambda>s0. case get_recorder s0 i of None \<Rightarrow> m_result (Inl (UnknownRecorder i))
    | Some r \<Rightarrow> (case re_segment_index r of None \<Rightarrow> m_result (Inl (InvalidState i (re_state r) ''close segment''))
      | Some index \<Rightarrow> m_bind (case re_segment r of None \<Rightarrow> m_result (Inr ()) | Some p \<Rightarrow> lift_io (sync_all p)) (\<lambda>_. ?rest r index))"
  show "preserves (?m s0)" for s0
    by (auto split: option.split intro!: preserves_rules preserves_pure)
  show "close_segment i = (\<lambda>s. ?m s s)" by (rule ext) (simp add: close_segment_def m_result_def split: option.split)
qed

lemma preserves_open_next: "preserves (open_next_segment i)"
proof (rule preserves_state)
  let ?open = "\<lambda>r index. m_bind (lift_io (open_append (segment_path (re_directory r) index))) (\<lambda>_.
    m_bind (lift_io (sync_all (segment_path (re_directory r) index))) (\<lambda>_.
    m_bind (lift_io (sync_directory (re_directory r))) (\<lambda>_.
      case re_manifest r of None \<Rightarrow> m_result (Inl (InvalidState i (re_state r) ''rotate''))
      | Some mp \<Rightarrow> m_bind (lift_io (write_manifest_frame mp (SegmentOpen index))) (\<lambda>_ s'.
          (Inr (), update_recorder i (\<lambda>r'. r'\<lparr>re_segment := Some (segment_path (re_directory r) index), re_segment_index := Some index,
            re_segment_frames := 0, re_segment_bytes := 0\<rparr>) s')))))"
  let ?m = "\<lambda>s0. case get_recorder s0 i of None \<Rightarrow> m_result (Inl (UnknownRecorder i))
    | Some r \<Rightarrow> if re_state r \<noteq> Recording then m_result (Inl (InvalidState i (re_state r) ''rotate''))
      else case Option.bind (re_segment_index r) (\<lambda>index. checked_add index 1) of
          None \<Rightarrow> m_result (Inl (FormatLimit ''segment index exhausted'')) | Some index \<Rightarrow> ?open r index"
  show "preserves (?m s0)" for s0
    by (auto split: option.split intro!: preserves_rules preserves_pure)
  show "open_next_segment i = (\<lambda>s. ?m s s)" by (rule ext) (simp add: open_next_segment_def m_result_def Let_def split: option.split)
qed

lemma preserves_rotate: "preserves (on_error (rotate_inner i) (mark_failed i))"
  unfolding rotate_inner_def by (intro preserves_rules preserves_close_segment preserves_open_next worlds)

lemma preserves_start: "preserves (recorder_start i rcpt c)"
proof -
  have files: "preserves (start_files i d k e)" for d k e
    unfolding start_files_def by (intro preserves_rules worlds)
  let ?start = "\<lambda>d index. m_bind (start_files i d index (EntryStart rcpt c index)) (\<lambda>_ s'.
    (Inr Applied, insert_receipt rcpt (i, ActionStart) (put_recorder i
      \<lparr>re_id = i, re_directory = d, re_state = Recording, re_config = Some c, re_queue = [], re_queue_bytes = 0,
       re_manifest = Some (d, MANIFEST_NAME), re_segment = Some (segment_path d index), re_segment_index = Some index,
       re_segment_frames = 0, re_segment_bytes = 0, re_failure = None\<rparr> s')))"
  have "preserves (?start d index)" for d index by (intro preserves_rules files preserves_pure) simp
  then have "preserves (\<lambda>s. ?start d (next_start_index i s) s)" for d
    by (rule preserves_state [where m = "\<lambda>s0. ?start d (next_start_index i s0)", OF _ refl])
  then have new: "preserves (start_new i rcpt c)"
    unfolding start_new_def Let_def by (intro preserves_rules worlds)
  let ?act = "\<lambda>s0 outcome. case outcome of Some x \<Rightarrow> m_result (Inr x)
    | None \<Rightarrow> (case get_recorder s0 i of Some r \<Rightarrow> if re_state r \<noteq> Stopped then m_result (Inl (InvalidState i (re_state r) ''start''))
        else start_new i rcpt c | None \<Rightarrow> start_new i rcpt c)"
  have "preserves (m_bind (m_result (receipt_outcome i rcpt ActionStart s0)) (?act s0))" for s0
    by (auto split: option.split intro!: preserves_rules new)
  then have "preserves (\<lambda>s. m_bind (m_result (receipt_outcome i rcpt ActionStart s)) (?act s) s)"
    by (rule preserves_state [where m = "\<lambda>s0. m_bind (m_result (receipt_outcome i rcpt ActionStart s0)) (?act s0)", OF _ refl])
  then show ?thesis unfolding recorder_start_def by (intro preserves_rules)
qed

lemma preserves_stop_manifest: "preserves (stop_manifest i rcpt)"
proof -
  let ?m = "\<lambda>r. m_bind (case re_manifest r of Some mp \<Rightarrow> m_result (Inr mp) | None \<Rightarrow> m_bind (lift_io (open_append (re_directory r, MANIFEST_NAME)))
      (\<lambda>_. m_result (Inr (re_directory r, MANIFEST_NAME)))) (\<lambda>mp.
    m_bind (on_error (lift_io (write_manifest_frame mp (EntryStop rcpt))) (mark_failed i)) (\<lambda>_ s'.
      (Inr Applied, update_recorder i (\<lambda>r. r\<lparr>re_state := Stopped, re_manifest := None, re_segment := None, re_queue := [],
         re_queue_bytes := 0\<rparr>) (insert_receipt rcpt (i, ActionStop) s'))))"
  have m: "preserves (?m r)" for r
    by (cases "re_manifest r") (auto intro!: preserves_rules preserves_pure)
  have "grows (co_world s) (co_world (snd (stop_manifest i rcpt s)))" for s
  proof (cases "get_recorder s i")
    case (Some r)
    then have "stop_manifest i rcpt s = ?m r (put_recorder i (r\<lparr>re_manifest := None\<rparr>) s)" by (simp add: stop_manifest_def Let_def)
    then show ?thesis using m [of r] unfolding preserves_def by (metis worlds(1))
  qed (simp add: stop_manifest_def)
  then show ?thesis by (simp add: preserves_def)
qed

lemma flush_loop_grows: "flush_loop n i written s = Some (x, s') \<Longrightarrow> grows (co_world s) (co_world s')"
proof (induction n arbitrary: written s)
  case (Suc n)
  have com: "preserves (on_error (lift_io (commit_batch p batch)) (mark_failed i))" for p batch by (intro preserves_rules worlds)
  from Suc.prems show ?case
    by (auto split: option.splits sum.splits if_splits prod.splits dest!: Suc.IH preserves_step [OF com] preserves_step [OF preserves_rotate]
        intro: grows_trans)
qed simp

lemma flush_grows: "flush i s = Some (x, s') \<Longrightarrow> grows (co_world s) (co_world s')"
  by (auto simp: flush_def simp del: flush_loop.simps split: option.splits if_splits dest: flush_loop_grows)

lemma enqueue_world: "enqueue i e s = (x, s') \<Longrightarrow> co_world s' = co_world s"
  by (auto simp: enqueue_def split: option.splits sum.splits if_splits)

lemma append_grows:
  assumes "recorder_append i e s = Some (x, s')"
  shows "grows (co_world s) (co_world s')"
proof -
  obtain y s1 where 1: "enqueue i e s = (y, s1)" by force
  then have "s' = s1 \<or> (\<exists>z. flush i s1 = Some (z, s'))" using assms by (cases y) (auto simp: recorder_append_def)
  then show ?thesis using enqueue_world [OF 1] flush_grows by (metis grows_refl)
qed

lemma rotate_grows:
  assumes "recorder_rotate i s = Some (x, s')"
  shows "grows (co_world s) (co_world s')"
proof -
  obtain y s1 where 1: "flush i s = Some (y, s1)" using assms by (auto simp: recorder_rotate_def)
  have "s' = s1 \<or> on_error (rotate_inner i) (mark_failed i) s1 = (x, s')" using assms 1 by (auto simp: recorder_rotate_def split: sum.splits)
  then show ?thesis using flush_grows [OF 1] preserves_step [OF preserves_rotate] grows_trans by blast
qed

lemma stop_grows:
  assumes "recorder_stop i rcpt s = Some (x, s')"
  shows "grows (co_world s) (co_world s')"
proof -
  have closing: "preserves (m_bind (on_error (close_segment i) (mark_failed i)) (\<lambda>_. stop_manifest i rcpt))"
    by (intro preserves_rules preserves_close_segment preserves_stop_manifest worlds)
  consider "s' = s" | "stop_manifest i rcpt s = (x, s')"
    | y s1 where "flush i s = Some (y, s1)" "s' = s1 \<or> m_bind (on_error (close_segment i) (mark_failed i)) (\<lambda>_. stop_manifest i rcpt) s1 = (x, s')"
  proof (cases "flush i s")
    case None
    then show ?thesis using assms that by (auto simp: recorder_stop_def split: sum.splits option.splits recorder_state.splits)
  next
    case (Some z)
    obtain y s1 where "z = (y, s1)" by force
    then show ?thesis using Some assms that by (cases y) (auto simp: recorder_stop_def split: sum.splits option.splits recorder_state.splits)
  qed
  then show ?thesis
  proof cases
    case 2
    then show ?thesis using preserves_step [OF preserves_stop_manifest] by blast
  next
    case 3
    then show ?thesis using flush_grows preserves_step [OF closing] grows_trans by blast
  qed simp
qed

end
