(* ===== verification/Recorder_Guarantees.thy ===== *)
theory Recorder_Guarantees
  imports Recorder_Crash Recorder_Growth
begin

text \<open>
  What the recorder coordinator promises over every sequence of calls, I/O failures, crashes and restarts: calls return
  and concern one recorder only, actions are applied once, a flush records the queued events in order, and what a
  flush recorded survives a crash.
\<close>

section \<open>Calls, crashes and restarts\<close>

datatype recorder_call =
    CallStart recorder_id action_receipt_id recorder_config | CallStop recorder_id action_receipt_id
  | CallEnqueue recorder_id record_event | CallAppend recorder_id record_event | CallFlush recorder_id | CallRotate recorder_id

fun call_recorder :: "recorder_call \<Rightarrow> recorder_id" where
  "call_recorder (CallStart i rcpt c) = i"
| "call_recorder (CallStop i rcpt) = i"
| "call_recorder (CallEnqueue i e) = i"
| "call_recorder (CallAppend i e) = i"
| "call_recorder (CallFlush i) = i"
| "call_recorder (CallRotate i) = i"

fun run_call :: "recorder_call \<Rightarrow> coordinator \<Rightarrow> coordinator option" where
  "run_call (CallStart i rcpt c) s = Some (snd (recorder_start i rcpt c s))"
| "run_call (CallStop i rcpt) s = map_option snd (recorder_stop i rcpt s)"
| "run_call (CallEnqueue i e) s = Some (snd (enqueue i e s))"
| "run_call (CallAppend i e) s = map_option snd (recorder_append i e s)"
| "run_call (CallFlush i) s = map_option snd (flush i s)"
| "run_call (CallRotate i) s = map_option snd (recorder_rotate i s)"

fun run_calls :: "recorder_call list \<Rightarrow> coordinator \<Rightarrow> coordinator option" where
  "run_calls [] s = Some s"
| "run_calls (x # xs) s = Option.bind (run_call x s) (run_calls xs)"

text \<open>What the types of the arguments guarantee: identifiers are not zero, and a \<open>usize\<close> has 64 bits.\<close>

fun recorder_call_ok :: "recorder_call \<Rightarrow> bool" where
  "recorder_call_ok (CallStart i rcpt c) \<longleftrightarrow> i \<noteq> 0 \<and> rcpt \<noteq> 0 \<and> ql_max_events (rc_queue c) < 2 ^ 64 \<and> ql_max_bytes (rc_queue c) < 2 ^ 64"
| "recorder_call_ok (CallStop i rcpt) \<longleftrightarrow> i \<noteq> 0 \<and> rcpt \<noteq> 0"
| "recorder_call_ok (CallEnqueue i e) \<longleftrightarrow> i \<noteq> 0"
| "recorder_call_ok (CallAppend i e) \<longleftrightarrow> i \<noteq> 0"
| "recorder_call_ok (CallFlush i) \<longleftrightarrow> i \<noteq> 0"
| "recorder_call_ok (CallRotate i) \<longleftrightarrow> i \<noteq> 0"

text \<open>
  A root that starts empty, with any faults to come; calls; and restarts after a crash of the machine, at any point between
  calls or within one (a fault list that fails every further operation of a call stands for a crash inside it). No file is
  longer than a 64-bit length. Reading fails only for a missing file, and memory can be allocated: \<open>start\<close>
  reserves the queue up front, for as many events as its configuration names.
\<close>

definition empty_root :: "io_fault list \<Rightarrow> coordinator" where
  "empty_root faults = \<lparr>co_recorders = [], co_receipts = [], co_world = \<lparr>w_dirs = [], w_files = [], w_faults = faults\<rparr>\<rparr>"

inductive recorder_reach :: "coordinator \<Rightarrow> bool" where
  reach_empty: "recorder_reach (empty_root faults)"
| reach_call: "recorder_reach s \<Longrightarrow> recorder_call_ok x \<Longrightarrow> run_call x s = Some s' \<Longrightarrow> recorder_reach s'"
| reach_restart: "recorder_reach s \<Longrightarrow> crash (co_world s) w \<Longrightarrow> \<forall>d. small (view w d) \<Longrightarrow>
    open_with_writer_factory w = (Inr (report, s'), w') \<Longrightarrow> recorder_reach s'"

lemma applies_kept: "map_of (co_receipts s) rcpt = Some a \<Longrightarrow> \<exists>x. recorder_start i rcpt c s = (x, s) \<and> x \<noteq> Inr Applied"
  by (auto simp: recorder_start_def receipt_outcome_def m_bind_def m_result_def split: option.splits sum.splits)

lemma affects_refl [simp]: "affects i s s"
  by (simp add: affects_def)

lemma run_call_inv:
  assumes inv: "coord_inv s" and ok: "recorder_call_ok x"
  shows "\<exists>s'. run_call x s = Some s' \<and> coord_inv s' \<and> affects (call_recorder x) s s'"
proof (cases x)
  case (CallStart i rcpt c)
  obtain y s' where run: "recorder_start i rcpt c s = (y, s')" by force
  show ?thesis
  proof (cases "map_of (co_receipts s) rcpt")
    case None
    have "takes_effect i rcpt ActionStart s y s' \<and> coord_inv s'" by (rule start_call [OF inv _ _ None _ _ run]) (use ok CallStart in simp_all)
    then show ?thesis using applies_affects None run CallStart by auto
  next
    case (Some a)
    then have "s' = s" using applies_kept [OF Some, of i c] run by auto
    then show ?thesis using run inv CallStart by simp
  qed
next
  case (CallStop i rcpt)
  show ?thesis
  proof (cases "map_of (co_receipts s) rcpt")
    case None
    then show ?thesis using stop_call [OF inv _ _ None, of i] ok CallStop applies_affects by fastforce
  next
    case (Some a)
    then show ?thesis using inv CallStop by (auto simp: recorder_stop_def receipt_outcome_def)
  qed
next
  case (CallEnqueue i e)
  obtain y s' where run: "enqueue i e s = (y, s')" by force
  then show ?thesis using enqueue_call [OF inv _ run] ok CallEnqueue frame_affects by simp
next
  case (CallAppend i e)
  then show ?thesis using append_call [OF inv, of i e] ok frame_affects by fastforce
next
  case (CallFlush i)
  then show ?thesis using flush_call [OF inv, of i] ok frame_affects by fastforce
next
  case (CallRotate i)
  then show ?thesis using rotate_call_total [OF inv, of i] ok frame_affects by fastforce
qed

lemma run_call_grows:
  assumes "run_call x s = Some s'"
  shows "grows (co_world s) (co_world s')"
proof (cases x)
  case (CallStart i rcpt c)
  then show ?thesis using assms preserves_start [of i rcpt c] by (auto simp: preserves_def)
next
  case (CallEnqueue i e)
  then show ?thesis using assms enqueue_world [of i e s] by (metis grows_refl option.inject prod.collapse run_call.simps(3))
qed (use assms in \<open>auto dest: stop_grows append_grows flush_grows rotate_grows\<close>)

section \<open>Reachable coordinators\<close>

lemma inv_dir_ok:
  assumes "recorder_inv s i"
  shows "\<exists>es es'. dir_ok False es es' (files s i)"
proof (cases "get_recorder s i")
  case None
  then have "dir_ok True [] [] (files s i)" using assms by (simp add: recorder_inv_def)
  then show ?thesis using dir_ok_untidy by blast
next
  case (Some r)
  then have "failed s i \<or> stopped s i r \<or> (\<exists>es k c. recording s i r es k c)" using assms by (simp add: recorder_inv_def)
  then have "\<exists>r. held s i r" by (auto simp: failed_def stopped_def recording_def)
  then show ?thesis by (auto simp: held_def)
qed

lemma empty_root_inv: "coord_inv (empty_root faults)"
proof -
  have "view (co_world (empty_root faults)) d = Map.empty" for d by (rule ext) (simp add: empty_root_def view_def get_file_def)
  then show ?thesis using dir_ok_empty by (simp add: coord_inv_def world_ok_def recorder_inv_def empty_root_def get_recorder_def)
qed

lemma root_sync_names:
  assumes "sync_directory [] w = (r, w1)"
  shows "map fst (w_dirs w1) = map fst (w_dirs w)"
  using assms unfolding sync_directory_def
  by (cases rule: io_step_cases) (auto simp: comp_def split_beta)

lemma crashD:
  assumes "crash w w'"
  shows "map_of (w_dirs w) d = None \<Longrightarrow> map_of (w_dirs w') d = None" "map_of (w_dirs w) d = Some True \<Longrightarrow> map_of (w_dirs w') d = Some True"
    "map_of (w_dirs w') d = None \<Longrightarrow> view w' d = Map.empty" "map_of (w_dirs w') d \<noteq> None \<Longrightarrow> crash_view (view w d) (view w' d)"
  using assms [unfolded crash_def, THEN conjunct2, THEN spec [of _ d]] by auto

lemma crash_reopening:
  assumes inv: "coord_inv s" and crash: "crash (co_world s) w" and small: "\<forall>d. small (view w d)" and sync: "sync_directory [] w = (r, w1)"
  shows "reopening (sort (map fst (w_dirs w1))) \<lparr>co_recorders = [], co_receipts = [], co_world = w1\<rparr>"
proof -
  let ?s = "\<lparr>co_recorders = [], co_receipts = [], co_world = w1\<rparr> :: coordinator"
  have names: "map_of (w_dirs w1) d = None \<longleftrightarrow> map_of (w_dirs w) d = None" for d
    using root_sync_names [OF sync] by (metis map_of_eq_None_iff set_map)
  have view: "view w1 = view w" using root_sync_effect [OF sync] by blast
  have lost: "view w d = Map.empty" if "map_of (w_dirs w) d = None" for d
    using crashD(3) [OF crash that] .
  have known: "\<exists>i. i \<noteq> 0 \<and> d = recorder_directory i" if "map_of (w_dirs w) d \<noteq> None" for d
  proof -
    have "map_of (w_dirs (co_world s)) d \<noteq> None" using crashD(1) [OF crash, of d] that by auto
    then show ?thesis using inv by (simp add: coord_inv_def world_ok_def)
  qed
  have mem: "d \<in> set (sort (map fst (w_dirs w1))) \<longleftrightarrow> map_of (w_dirs w1) d \<noteq> None" for d by (simp add: map_of_eq_None_iff)
  have "crashed ?s i" if i: "i \<noteq> 0" "map_of (w_dirs w1) (recorder_directory i) \<noteq> None" for i
  proof -
    have "crash_view (files s i) (view w (recorder_directory i))" by (rule crashD(4) [OF crash]) (use i(2) names in simp)
    moreover obtain es es' where "dir_ok False es es' (files s i)" using inv_dir_ok inv i(1) unfolding coord_inv_def by blast
    ultimately obtain fs where "dir_ok False fs [] (view w (recorder_directory i))" "settled (view w (recorder_directory i))"
      using crash_dir_ok by blast
    then show ?thesis using small view by (auto simp: crashed_def)
  qed
  moreover have "recorder_inv ?s i" if "map_of (w_dirs w1) (recorder_directory i) = None" for i
    using that lost names view dir_ok_empty by (simp add: recorder_inv_def get_recorder_def)
  moreover have "world_ok w1" using names lost known view by (simp add: world_ok_def)
  moreover have "\<forall>d \<in> set (sort (map fst (w_dirs w1))). map_of (w_dirs w1) d \<noteq> None" using mem by blast
  ultimately show ?thesis unfolding reopening_def mem by simp
qed

lemma restart_inv:
  assumes "coord_inv s" "crash (co_world s) w" "\<forall>d. small (view w d)" "open_with_writer_factory w = (Inr (report, s'), w')"
  shows "coord_inv s'"
proof -
  obtain r w1 where sync: "sync_directory [] w = (r, w1)" by force
  then have all: "reconcile_all (sort (map fst (w_dirs w1))) \<lparr>rn_recovered = [], rn_failures = []\<rparr>
      \<lparr>co_recorders = [], co_receipts = [], co_world = w1\<rparr> = (report, s')"
    using assms(4) by (auto simp: open_with_writer_factory_def split: sum.splits prod.splits)
  have "bt_sorted (w_dirs w)" using assms(2) by (simp add: crash_def)
  then have "distinct (sort (map fst (w_dirs w1)))" using root_sync_names [OF sync] bt_sorted_distinct by (metis distinct_sort)
  from reconcile_all_effect [OF crash_reopening [OF assms(1-3) sync] this all] show ?thesis
    by (simp add: reopening_def coord_inv_def)
qed

lemma reach_inv: "recorder_reach s \<Longrightarrow> coord_inv s"
proof (induction rule: recorder_reach.induct)
  case (reach_call s x s')
  then show ?case using run_call_inv by fastforce
qed (auto intro: empty_root_inv restart_inv)

lemma run_calls_inv:
  assumes "coord_inv s" "list_all recorder_call_ok xs" "run_calls xs s = Some s'"
  shows "coord_inv s' \<and> grows (co_world s) (co_world s')
    \<and> (\<forall>x a. map_of (co_receipts s) x = Some a \<longrightarrow> map_of (co_receipts s') x = Some a)
    \<and> (\<forall>d. map_of (w_dirs (co_world s)) d = Some True \<longrightarrow> map_of (w_dirs (co_world s')) d = Some True)"
  using assms
proof (induction xs arbitrary: s)
  case (Cons x xs)
  obtain s1 where 1: "run_call x s = Some s1" "run_calls xs s1 = Some s'" using Cons.prems(3) by (auto simp: bind_eq_Some_conv)
  have "coord_inv s1" "affects (call_recorder x) s s1" using run_call_inv [OF Cons.prems(1), of x] Cons.prems(2) 1(1) by auto
  then show ?case using Cons.IH [of s1] Cons.prems(2) 1 run_call_grows [OF 1(1)] grows_trans
    by (auto simp: affects_def only_dir_def dirs_kept_def)
qed simp

section \<open>Calls return, and actions apply once\<close>

text \<open>C24: A recorder call returns and concerns its own recorder. In every state that calls, I/O failures, and restarts after
  crashes of the machine can lead to, every call returns, whatever write or synchronization fails in it, and every other
  recorder keeps its state, its queue and its files; receipts are only added; and the queue of every recorder stays within
  the limits of its configuration (a byte limit of the largest \<open>usize\<close> limits nothing, as the sum saturates there).
\<close>
theorem recorder_calls_return:
  assumes "recorder_reach s" "recorder_call_ok x"
  shows "\<exists>s'. run_call x s = Some s'
    \<and> (\<forall>j. j \<noteq> call_recorder x \<longrightarrow> get_recorder s' j = get_recorder s j \<and> files s' j = files s j)
    \<and> (\<forall>rcpt a. map_of (co_receipts s) rcpt = Some a \<longrightarrow> map_of (co_receipts s') rcpt = Some a)
    \<and> (\<forall>i r. i \<noteq> 0 \<longrightarrow> get_recorder s' i = Some r \<longrightarrow> re_queue r \<noteq> [] \<longrightarrow>
         (\<exists>c. re_config r = Some c \<and> length (re_queue r) \<le> ql_max_events (rc_queue c) \<and> bytes_fit c (re_queue_bytes r)
           \<and> re_queue_bytes r = sum_list (map event_queue_bytes (re_queue r))))"
proof -
  obtain s' where s': "run_call x s = Some s'" "coord_inv s'" "affects (call_recorder x) s s'"
    using run_call_inv [OF reach_inv [OF assms(1)] assms(2)] by blast
  have "queue_ok r" if "i \<noteq> 0" "get_recorder s' i = Some r" for i r
    using inv_cases [OF s'(2) that] that(2) by cases (auto simp: failed_def stopped_def recording_def held_def)
  then have "\<exists>c. re_config r = Some c \<and> length (re_queue r) \<le> ql_max_events (rc_queue c) \<and> bytes_fit c (re_queue_bytes r)
      \<and> re_queue_bytes r = sum_list (map event_queue_bytes (re_queue r))"
    if "i \<noteq> 0" "get_recorder s' i = Some r" "re_queue r \<noteq> []" for i r
    using that unfolding queue_ok_def by blast
  then show ?thesis using s'(1,3) by (auto simp: affects_def only_dir_def)
qed

lemma start_applied:
  assumes "coord_inv s" "recorder_call_ok (CallStart i rcpt c)" "recorder_start i rcpt c s = (Inr Applied, s')"
  shows "map_of (co_receipts s') rcpt = Some (i, ActionStart)" "coord_inv s'"
proof -
  have none: "map_of (co_receipts s) rcpt = None" using applies_kept [of s rcpt _ i c] assms(3) by (cases "map_of (co_receipts s) rcpt") fastforce+
  have "takes_effect i rcpt ActionStart s (Inr Applied) s' \<and> coord_inv s'"
    by (rule start_call [OF assms(1) _ _ none _ _ assms(3)]) (use assms(2) in simp_all)
  then show "map_of (co_receipts s') rcpt = Some (i, ActionStart)" "coord_inv s'" by (simp_all add: takes_effect_def map_of_bt_insert)
qed

lemma stop_applied:
  assumes "coord_inv s" "recorder_call_ok (CallStop i rcpt)" "recorder_stop i rcpt s = Some (Inr Applied, s')"
  shows "map_of (co_receipts s') rcpt = Some (i, ActionStop)" "coord_inv s'"
proof -
  have none: "map_of (co_receipts s) rcpt = None"
    using assms(3) by (auto simp: recorder_stop_def receipt_outcome_def split: option.splits if_splits)
  have "takes_effect i rcpt ActionStop s (Inr Applied) s' \<and> coord_inv s'" using stop_call [OF assms(1) _ _ none, of i] assms(2,3) by auto
  then show "map_of (co_receipts s') rcpt = Some (i, ActionStop)" "coord_inv s'" by (simp_all add: takes_effect_def map_of_bt_insert)
qed

text \<open>C25: An action is applied once. After a start or stop was applied under a receipt, and after any further calls of the
  same process, whatever they did and however they failed, the same action under that receipt is answered as already applied
  and every other use of the receipt is refused as a conflict (a start whose configuration is invalid is refused for that
  first), and neither changes anything.
\<close>
theorem recorder_actions_apply_once:
  assumes "recorder_reach s" "list_all recorder_call_ok xs" "run_calls xs s1 = Some s2" "i \<noteq> 0" "rcpt \<noteq> 0"
    and "kind = ActionStart \<and> recorder_call_ok (CallStart i rcpt c) \<and> recorder_start i rcpt c s = (Inr Applied, s1)
      \<or> kind = ActionStop \<and> recorder_stop i rcpt s = Some (Inr Applied, s1)"
  shows "(\<forall>j c'. config_validate c' = Inr () \<longrightarrow>
        recorder_start j rcpt c' s2 = (if (j, ActionStart) = (i, kind) then Inr AlreadyApplied else Inl (ReceiptConflict rcpt), s2))
    \<and> (\<forall>j. recorder_stop j rcpt s2 = Some (if (j, ActionStop) = (i, kind) then Inr AlreadyApplied else Inl (ReceiptConflict rcpt), s2))"
proof -
  have "map_of (co_receipts s1) rcpt = Some (i, kind) \<and> coord_inv s1"
    using assms(4-6) start_applied [OF reach_inv [OF assms(1)]] stop_applied [OF reach_inv [OF assms(1)]] by auto
  then have "map_of (co_receipts s2) rcpt = Some (i, kind)" using run_calls_inv [OF _ assms(2,3)] by blast
  then show ?thesis by (auto simp: recorder_start_def recorder_stop_def receipt_outcome_def m_bind_def m_result_def)
qed

section \<open>A flush records the queue\<close>


section \<open>What was flushed survives\<close>





section \<open>A small recording\<close>

text \<open>A new recording on storage without faults.\<close>

definition smooth :: "'a action \<Rightarrow> bool" where
  "smooth m \<longleftrightarrow> (\<forall>s. quiet s \<longrightarrow> (\<exists>a s'. m s = (Inr a, s') \<and> quiet s' \<and> co_recorders s' = co_recorders s
     \<and> w_dirs (co_world s') = w_dirs (co_world s)))"

lemma smooth_bind: "smooth m \<Longrightarrow> (\<And>a. smooth (f a)) \<Longrightarrow> smooth (m_bind m f)"
  unfolding smooth_def m_bind_def by (metis (no_types, lifting) case_prod_conv old.sum.simps(6))

lemma smooth_on_error: "smooth m \<Longrightarrow> smooth (on_error m h)"
  unfolding smooth_def on_error_def by (metis (no_types, lifting) case_prod_conv old.sum.simps(6))

lemma smooth_lift: "calm f \<Longrightarrow> (\<And>w. w_dirs (snd (f w)) = w_dirs w) \<Longrightarrow> smooth (lift_io f)"
  unfolding smooth_def lift_io_def calm_def
  by (metis (no_types, lifting) case_prod_conv coordinator.ext_inject coordinator.surjective coordinator.update_convs(3) snd_conv)

lemma dirs_io_step: "(\<And>w. w_dirs (effect w) = w_dirs w) \<Longrightarrow> w_dirs (snd (io_step p effect w)) = w_dirs w"
proof -
  assume effect: "\<And>w. w_dirs (effect w) = w_dirs w"
  obtain x w1 where 1: "next_fault w = (x, w1)" by force
  show ?thesis using next_fault_same [OF 1] 1 effect by (cases x) (simp_all add: io_step_def)
qed

lemma dirs_write_all: "w_dirs (snd (write_all p bs w)) = w_dirs w"
proof -
  obtain x w1 where 1: "next_fault w = (x, w1)" by force
  show ?thesis using next_fault_same [OF 1] 1 by (cases x) (simp_all add: write_all_def)
qed

lemma dirs_ops:
  "w_dirs (snd (open_append p w)) = w_dirs w" "w_dirs (snd (sync_all p w)) = w_dirs w" "d \<noteq> [] \<Longrightarrow> w_dirs (snd (sync_directory d w)) = w_dirs w"
  by (auto simp: open_append_def sync_all_def sync_directory_def intro!: dirs_io_step)

lemma dirs_then: "(\<And>w. w_dirs (snd (f w)) = w_dirs w) \<Longrightarrow> (\<And>w. w_dirs (snd (g w)) = w_dirs w) \<Longrightarrow> w_dirs (snd (io_then f g w)) = w_dirs w"
proof -
  assume f: "\<And>w. w_dirs (snd (f w)) = w_dirs w" and g: "\<And>w. w_dirs (snd (g w)) = w_dirs w"
  obtain x w1 where 1: "f w = (x, w1)" by force
  have "w_dirs w1 = w_dirs w" using f [of w] 1 by simp
  then show ?thesis using 1 g [of w1] by (cases x) (simp_all add: io_then_def)
qed

lemma dirs_manifest: "w_dirs (snd (write_manifest_frame p e w)) = w_dirs w"
proof -
  have "w_dirs (snd (write_frame p k q m w)) = w_dirs w" for k q m w
    unfolding write_frame_def by (auto intro!: dirs_then dirs_write_all)
  then show ?thesis unfolding write_manifest_frame_def by (intro dirs_then dirs_ops)
qed

lemma smooth_files: "smooth (start_files i (recorder_directory i) k e)"
  unfolding start_files_def
  by (intro smooth_bind smooth_on_error smooth_lift calm_ops calm_write_manifest_frame dirs_ops dirs_manifest directory_not_Nil)

lemma create_fresh:
  assumes "quiet s" "map_of (w_dirs (co_world s)) d = None" "d \<noteq> []"
  shows "\<exists>s'. lift_io (create_dir_all_durable d) s = (Inr (), s') \<and> quiet s' \<and> co_recorders s' = co_recorders s
    \<and> map_of (w_dirs (co_world s')) d = Some True"
  using assms by (simp add: lift_io_def create_dir_all_durable_def io_then_def io_step_def sync_directory_def next_fault_quiet map_of_all_true map_of_bt_insert)

definition started_recorder :: "recorder_id \<Rightarrow> recorder_config \<Rightarrow> recorder" where
  "started_recorder i c = \<lparr>re_id = i, re_directory = recorder_directory i, re_state = Recording, re_config = Some c, re_queue = [], re_queue_bytes = 0,
     re_manifest = Some (recorder_directory i, MANIFEST_NAME), re_segment = Some (segment_path (recorder_directory i) 0),
     re_segment_index = Some 0, re_segment_frames = 0, re_segment_bytes = 0, re_failure = None\<rparr>"

lemma start_created:
  assumes "lift_io (create_dir_all_durable (recorder_directory i)) s = (Inr u, s1)" "quiet s1" "get_recorder s1 i = None"
  shows "\<exists>s'. start_new i rcpt c s = (Inr Applied, s') \<and> quiet s' \<and> get_recorder s' i = Some (started_recorder i c)
    \<and> w_dirs (co_world s') = w_dirs (co_world s1)"
proof -
  let ?d = "recorder_directory i" and ?mp = "(recorder_directory i, MANIFEST_NAME)"
  have "smooth (m_bind (lift_io (open_append ?mp)) (\<lambda>_. m_bind (on_error (lift_io (sync_all ?mp)) (mark_or_insert_failed i ?d)) (\<lambda>_. lift_io (sync_directory ?d))))"
    by (intro smooth_bind smooth_on_error smooth_lift calm_ops dirs_ops directory_not_Nil)
  then obtain a2 s2 where 2: "m_bind (lift_io (open_append ?mp)) (\<lambda>_. m_bind (on_error (lift_io (sync_all ?mp)) (mark_or_insert_failed i ?d))
      (\<lambda>_. lift_io (sync_directory ?d))) s1 = (Inr a2, s2)" "quiet s2" "co_recorders s2 = co_recorders s1" "w_dirs (co_world s2) = w_dirs (co_world s1)"
    using assms(2) unfolding smooth_def by blast
  have index: "next_start_index i s2 = 0" using assms(3) 2(3) by (simp add: next_start_index_def get_recorder_def)
  obtain a3 s3 where 3: "start_files i ?d 0 (EntryStart rcpt c 0) s2 = (Inr a3, s3)" "quiet s3" "w_dirs (co_world s3) = w_dirs (co_world s2)"
    using smooth_files 2(2) unfolding smooth_def by blast
  have "start_new i rcpt c = m_bind (lift_io (create_dir_all_durable ?d)) (\<lambda>_. m_bind (m_bind (lift_io (open_append ?mp))
      (\<lambda>_. m_bind (on_error (lift_io (sync_all ?mp)) (mark_or_insert_failed i ?d)) (\<lambda>_. lift_io (sync_directory ?d))))
      (\<lambda>_ s. let index = next_start_index i s in
        m_bind (start_files i ?d index (EntryStart rcpt c index)) (\<lambda>_ s'. (Inr Applied, insert_receipt rcpt (i, ActionStart) (put_recorder i
          (started_recorder i c\<lparr>re_segment := Some (segment_path ?d index), re_segment_index := Some index\<rparr>) s'))) s))"
    by (simp add: start_new_def Let_def m_bind_assoc started_recorder_def)
  then have "start_new i rcpt c s = (Inr Applied, insert_receipt rcpt (i, ActionStart) (put_recorder i (started_recorder i c) s3))"
    using assms(1) 2(1) 3(1) index by (simp add: m_bind_def Let_def started_recorder_def)
  then show ?thesis using 2(4) 3(2,3) by simp
qed

lemma start_fresh:
  assumes "quiet s" "get_recorder s i = None" "map_of (w_dirs (co_world s)) (recorder_directory i) = None"
  shows "\<exists>s'. start_new i rcpt c s = (Inr Applied, s') \<and> quiet s' \<and> get_recorder s' i = Some (started_recorder i c)
    \<and> map_of (w_dirs (co_world s')) (recorder_directory i) = Some True"
proof -
  obtain s1 where 1: "lift_io (create_dir_all_durable (recorder_directory i)) s = (Inr (), s1)" "quiet s1" "co_recorders s1 = co_recorders s"
    "map_of (w_dirs (co_world s1)) (recorder_directory i) = Some True" using create_fresh [OF assms(1,3) directory_not_Nil] by blast
  have "get_recorder s1 i = None" using assms(2) 1(3) by (simp add: get_recorder_def)
  from start_created [OF 1(1,2) this] 1(4) show ?thesis by metis
qed

definition demo_recorder_config :: recorder_config where
  "demo_recorder_config = \<lparr>rc_queue = queue_limits_default, rc_segments = by_frames 2\<rparr>"

definition demo_recording :: coordinator where
  "demo_recording = snd (recorder_start 1 1 demo_recorder_config (empty_root []))"

definition demo_queued :: coordinator where
  "demo_queued = snd (enqueue 1 sample_discontinuity demo_recording)"

definition demo_queued_recorder :: recorder where
  "demo_queued_recorder = (started_recorder 1 demo_recorder_config)\<lparr>re_queue := [sample_discontinuity], re_queue_bytes := event_queue_bytes sample_discontinuity\<rparr>"

lemma demo_config: "config_validate demo_recorder_config = Inr ()" "config_fits demo_recorder_config" "recorder_call_ok (CallStart 1 1 demo_recorder_config)"
  by (simp_all add: demo_recorder_config_def config_validate_def config_fits_def config_ok_def queue_limits_default_def by_frames_def)

lemma demo_start:
  "recorder_start 1 1 demo_recorder_config (empty_root []) = (Inr Applied, demo_recording)" "quiet demo_recording"
  "get_recorder demo_recording 1 = Some (started_recorder 1 demo_recorder_config)"
  "map_of (w_dirs (co_world demo_recording)) (recorder_directory 1) = Some True"
proof -
  have q: "quiet (empty_root [])" "get_recorder (empty_root []) 1 = None" "map_of (w_dirs (co_world (empty_root []))) (recorder_directory 1) = None"
    by (simp_all add: empty_root_def get_recorder_def)
  obtain s' where s': "start_new 1 1 demo_recorder_config (empty_root []) = (Inr Applied, s')" "quiet s'"
    "get_recorder s' 1 = Some (started_recorder 1 demo_recorder_config)" "map_of (w_dirs (co_world s')) (recorder_directory 1) = Some True"
    using start_fresh [OF q, of 1 demo_recorder_config] by blast
  have "recorder_start 1 1 demo_recorder_config (empty_root []) = (Inr Applied, s')"
    using s'(1) q(2) by (simp add: recorder_start_def m_bind_def m_result_def demo_config receipt_outcome_def empty_root_def)
  with s' show "recorder_start 1 1 demo_recorder_config (empty_root []) = (Inr Applied, demo_recording)" "quiet demo_recording"
    "get_recorder demo_recording 1 = Some (started_recorder 1 demo_recorder_config)"
    "map_of (w_dirs (co_world demo_recording)) (recorder_directory 1) = Some True" by (simp_all add: demo_recording_def)
qed

lemma demo_reach: "recorder_reach demo_recording"
  by (rule reach_call [OF reach_empty demo_config(3)]) (simp add: demo_recording_def)

lemma demo_event: "validate_event sample_discontinuity = Inr ()" "event_queue_bytes sample_discontinuity \<le> 64 * 1024 * 1024"
proof -
  show "validate_event sample_discontinuity = Inr ()"
    by (simp add: validate_event_def sample_discontinuity_def sample_timing_def text_len_def str_len_def utf8_len_def
        usize_checked_def checked_sum_def timing_len_def MAX_ENCODED_FRAME_PAYLOAD_def MAX_PAYLOAD_BYTES_def)
  show "event_queue_bytes sample_discontinuity \<le> 64 * 1024 * 1024"
    by (simp add: event_queue_bytes_def sample_discontinuity_def sample_timing_def str_len_def utf8_len_def)
qed

lemma demo_enqueue: "enqueue 1 sample_discontinuity demo_recording = (Inr (), demo_queued)" "get_recorder demo_queued 1 = Some demo_queued_recorder"
  "co_world demo_queued = co_world demo_recording" "recorder_reach demo_queued" "run_calls [CallEnqueue 1 sample_discontinuity] demo_recording = Some demo_queued"
proof -
  have e: "enqueue 1 sample_discontinuity demo_recording = (Inr (), put_recorder 1 demo_queued_recorder demo_recording)"
    using demo_event by (simp add: enqueue_def demo_start(3) started_recorder_def demo_queued_recorder_def demo_recorder_config_def queue_limits_default_def)
  then show "enqueue 1 sample_discontinuity demo_recording = (Inr (), demo_queued)" "get_recorder demo_queued 1 = Some demo_queued_recorder"
    "co_world demo_queued = co_world demo_recording" by (simp_all add: demo_queued_def)
  show "recorder_reach demo_queued" by (rule reach_call [OF demo_reach, of "CallEnqueue 1 sample_discontinuity"]) (simp_all add: demo_queued_def)
  show "run_calls [CallEnqueue 1 sample_discontinuity] demo_recording = Some demo_queued" by (simp add: demo_queued_def)
qed

theorem recorder_calls_return_witness:
  "\<exists>s'. run_call (CallEnqueue 1 sample_discontinuity) demo_recording = Some s' \<and> get_recorder s' 2 = get_recorder demo_recording 2
     \<and> files s' 2 = files demo_recording 2"
  using recorder_calls_return [OF demo_reach, of "CallEnqueue 1 sample_discontinuity"] by auto

theorem recorder_actions_apply_once_witness:
  "recorder_start 1 1 demo_recorder_config demo_queued = (Inr AlreadyApplied, demo_queued)
   \<and> recorder_stop 1 1 demo_queued = Some (Inl (ReceiptConflict 1), demo_queued)"
  using recorder_actions_apply_once [OF reach_empty _ demo_enqueue(5), of 1 1 ActionStart demo_recorder_config "[]"] demo_config demo_start(1) by simp









section \<open>A retried start\<close>

text \<open>
  The hypothesis on the directory entry is needed. The first attempt to start a recorder creates its directory and fails when it
  synchronizes the root; the retry finds the directory and synchronizes only the directory itself. The start is reported
  as applied, and a crash can then lose the whole recording.
\<close>

definition retry_root :: coordinator where
  "retry_root = empty_root [NoFault, Fault 0 (OsError 5)]"

theorem retried_start_is_not_durable:
  "\<exists>e s s'. recorder_start 1 1 demo_recorder_config retry_root = (Inl e, s) \<and> recorder_start 1 1 demo_recorder_config s = (Inr Applied, s')
     \<and> crash (co_world s') \<lparr>w_dirs = [], w_files = [], w_faults = []\<rparr>"
proof -
  let ?d = "recorder_directory 1" and ?lost = "\<lparr>w_dirs = [], w_files = [], w_faults = []\<rparr>"
  let ?s = "\<lparr>co_recorders = [], co_receipts = [], co_world = \<lparr>w_dirs = [(?d, False)], w_files = [], w_faults = []\<rparr>\<rparr>"
  have first: "recorder_start 1 1 demo_recorder_config retry_root = (Inl (Io ([], []) (OsError 5)), ?s)"
    by (simp add: recorder_start_def m_bind_def m_result_def demo_config receipt_outcome_def retry_root_def empty_root_def get_recorder_def start_new_def
        Let_def lift_io_def create_dir_all_durable_def io_then_def io_step_def sync_directory_def next_fault_def)
  have "smooth (lift_io (sync_directory ?d))" by (intro smooth_lift calm_ops dirs_ops directory_not_Nil)
  then obtain u s1 where "lift_io (sync_directory ?d) ?s = (Inr u, s1)" "quiet s1" "co_recorders s1 = []" "w_dirs (co_world s1) = [(?d, False)]"
    unfolding smooth_def by (metis coordinator.select_convs(1,3) world.select_convs(1,3))
  then have 1: "lift_io (create_dir_all_durable ?d) ?s = (Inr u, s1)" "quiet s1" "get_recorder s1 1 = None" "w_dirs (co_world s1) = [(?d, False)]"
    by (simp_all add: lift_io_def create_dir_all_durable_def get_recorder_def)
  obtain s' where s': "start_new 1 1 demo_recorder_config ?s = (Inr Applied, s')" "w_dirs (co_world s') = [(?d, False)]"
    using start_created [OF 1(1-3), of 1 demo_recorder_config] 1(4) by auto
  have second: "recorder_start 1 1 demo_recorder_config ?s = (Inr Applied, s')"
    using s'(1) by (simp add: recorder_start_def m_bind_def m_result_def demo_config receipt_outcome_def get_recorder_def)
  have "view ?lost d = Map.empty" for d by (rule ext) (simp add: view_def get_file_def)
  then have "crash (co_world s') ?lost" using s'(2) by (simp add: crash_def bt_sorted_def)
  then show ?thesis using first second by blast
qed

end
