(* ===== verification/Spec2Isabelle.thy ===== *)
theory Spec2Isabelle
  imports Lifecycle Scheduler Switcher Auth Graph Engine_Runs Playlist Schedules Triggers Programmed_Go
    Replay_Decks Preview_Leases Record_Scan Recorder_Guarantees
begin

text \<open>
  FreeMix is a live production system: a video switcher with overlays, stingers, streams and
  recordings, driven by durable commands and rendered frame by frame. This development models the
  deterministic core of it and proves what the core promises to its clients.

  \<^bold>\<open>The parts and how they interact.\<close> A client sends a command with an idempotency key. The engine
  (\<open>crates/services/fm-engine\<close>) schedules it for the next frame, asks the command machine
  (\<open>crates/foundation/fm-command\<close>) to apply it to the durable show, and keeps the receipt. The show
  holds a desired switcher (\<open>crates/features/fm-switcher\<close>), which takes every change at once. At each
  frame the engine advances its clock (\<open>crates/media/fm-clock\<close>) to the deadline of the frame, drains
  the due actions from the scheduler (\<open>crates/media/fm-scheduler\<close>) and applies them to a second,
  realized switcher, which moves by transitions and fades. Beside that path, the media graph
  (\<open>crates/media/fm-graph\<close>) is validated against the capabilities of the machine
  (\<open>crates/foundation/fm-capabilities\<close>) and compiled to an execution plan, and
  \<open>crates/services/fm-auth\<close> decides who may send what. Around the engine stand the features that
  prepare commands and media for it: automation (\<open>crates/features/fm-automation\<close>) turns shortcuts,
  events, timers and programmed GOs into command intents, with the action queue of the scheduler;
  playback (\<open>crates/media/fm-playback\<close>) moves clips between their marks and runs playlists; replay
  (\<open>crates/media/fm-replay\<close>) keeps a catalog of recorded segments, a synchronized timeline of the
  cameras and two decks; the recorder (\<open>crates/media/fm-record\<close>) writes media events to durable segment
  files and recovers them after a crash. The media values they exchange, and the leases of shared
  preview images, are those of \<open>crates/media/fm-frame\<close>, and the types that all crates share are in
  \<open>crates/foundation/fm-types\<close>.

  \<^bold>\<open>Conventions.\<close> A Rust integer is a word of its width, and the checked and saturating operations
  are those of the source (theory \<open>Prelude\<close>). A \<open>Result\<close> is a sum with the error on the left. A call
  on \<open>&mut self\<close> returns the result and the state after the call, so that what an early return leaves
  behind is visible. Where the source can panic (\<open>expect\<close>, an overflowing operator in a checked build,
  \<open>unreachable!\<close>) the model returns an option whose \<open>None\<close> is the panic, and the theorems that give a
  \<open>Some\<close> say that the panic does not happen. A \<open>BTreeMap\<close> is an association list in ascending key
  order (theory \<open>BTree\<close>), a \<open>HashMap\<close> a partial function, a \<open>HashSet\<close> a set, a \<open>VecDeque\<close> a list. A
  string whose bytes matter is a list of Unicode scalar values. The recorder coordinator keeps its
  recorders and receipts in \<open>HashMap\<close>s, which are ordered maps here, because the only function that walks
  them sorts the result. Code outside the repository is an argument of the operations: the frame decoder
  of playback is one. The storage below the recorder is an explicit state of directories and files
  with a list of faults that the following operations take; a crash of the machine is a relation on it
  that loses what was not synchronized.

  \<^bold>\<open>The theories.\<close>
  \<^item> \<open>Media_Types\<close>: \<open>fm-types\<close>. Rates are in lowest terms; an accepted input order is a permutation.
  \<^item> \<open>Clock\<close>: \<open>fm-clock\<close> (\<open>clock.rs\<close>, \<open>cadence.rs\<close>, \<open>mapping.rs\<close>). The frame found for a time is the latest
    one that has started; frame times and frame numbers are inverse; frame durations add up without
    drift; the affine mapping of clock domains and its inverse agree within their rounding.
  \<^item> \<open>Command\<close> and \<open>Lifecycle\<close>: \<open>fm-command\<close>. A command commits its draft, revision and events together
    or not at all; a repeated key returns the first receipt; two-phase execution equals one-step
    execution and refuses stale decisions; every interleaving numbers its events without a gap. An
    accepted revision passes through its realization states in order. The locale
    \<open>idempotent_receiver\<close> states what a client of the machine may rely on.
  \<^item> \<open>Scheduler_Queues\<close> and \<open>Scheduler\<close>: \<open>fm-scheduler\<close>. Frames are realized one after the other at the
    deadlines of the cadence; a scheduled action is delivered exactly once, at its frame, in the order
    of scheduling; input queues are bounded and first in, first out. The locale \<open>timed_queue\<close> is the
    contract between the action queue and the scheduler.
  \<^item> \<open>Switcher_Fades\<close> and \<open>Switcher\<close>: \<open>fm-switcher\<close>. Every command and every frame keeps the switcher
    consistent and never panics; a refused command changes nothing; transitions, Fade-to-Black and
    overlay fades take exactly their duration. The locales \<open>frame_countdown\<close> and \<open>automatic_fade\<close>
    state what anything that moves with the frames has in common.
  \<^item> \<open>Auth\<close>: \<open>fm-auth\<close>. A pairing code is redeemed at most once, and the production policy is the
    documented table of roles and permissions.
  \<^item> \<open>Capabilities\<close>: \<open>fm-capabilities\<close>. The report of the matcher is compatible exactly when every
    requirement is satisfied, and more registrations never lose compatibility.
  \<^item> \<open>Graph_Search\<close> and \<open>Graph\<close>: \<open>fm-graph\<close>. The compiler accepts exactly the well-formed graphs within
    their budget, and its plan orders the nodes by their dependencies; the depth-first search finds a
    cycle exactly when there is one. The locale \<open>closed_digraph\<close> states what the search needs of a graph.
  \<^item> \<open>Show\<close>: \<open>state.rs\<close> of \<open>fm-engine\<close>. A show that was constructed stays well formed.
  \<^item> \<open>Engine\<close>: \<open>engine.rs\<close> of \<open>fm-engine\<close>, with the rejections and their texts. \<open>Settle\<close> defines where a
    moving switcher is heading, \<open>Engine_Refinement\<close> shows that an accepted command does to the settled
    runtime what it did to the show, and \<open>Engine_Runs\<close> proves the properties of every run: the show is a
    specification of the runtime, a frame does not fail, the runtime converges to the show, an idle
    engine can be saved and restored, and a stale preparation is refused. All but the last hold for runs
    without the one stinger command described below.
  \<^item> \<open>Transport\<close> and \<open>Playlist\<close>: \<open>fm-playback\<close>. No sequence of calls panics or moves the cursor out of the
    marks, looping playback at any speed is modular arithmetic, and every programmed GO runs at most
    once, in the order of the coordinates over the whole run.
  \<^item> \<open>Automation\<close>, \<open>Schedules\<close>, \<open>Triggers\<close>, \<open>Programmed_Go\<close>: \<open>fm-automation\<close>. A macro makes at most the attempts
    its retry policy allows; a repeating schedule reports every boundary exactly once over any successful
    polls; an event arms each matching trigger once; an action of a programmed GO fires at most once.
  \<^item> \<open>Replay_Storage\<close>, \<open>Replay_Timeline\<close>, \<open>Replay_Decks\<close>: \<open>fm-replay\<close>. Reclamation never takes an open or
    protected segment; the quad view shows the latest frames and the exact skew between them; export
    jobs only move forward; the decks stay within their event, and linked decks stay aligned.
  \<^item> \<open>Frames\<close> and \<open>Preview_Leases\<close>: \<open>fm-frame\<close>. The validated media values, and the registry of shared
    images: every lease that was issued is outstanding or was ended exactly once.
  \<^item> \<open>Record_Format\<close> and \<open>Record_Scan\<close>: \<open>format.rs\<close> and \<open>types.rs\<close> of \<open>fm-record\<close>. The scan of a file recovers
    every complete record in front of a torn one, a single changed byte is reported at its record, the
    manifest codec accepts exactly its own encodings, and the encoding of events is injective.
  \<^item> \<open>Recorder_Storage\<close> and \<open>Recorder\<close>: \<open>coordinator.rs\<close> of \<open>fm-record\<close> and the part of \<open>format.rs\<close> that
    writes, on the storage described above.
  \<^item> \<open>Recorder_Logs\<close> states what a recording directory holds at any time and which of it is durable;
    \<open>Recorder_Recovery\<close> shows what repair keeps of it; \<open>Recorder_Flush\<close> treats the operations of one
    recorder; \<open>Recorder_Runs\<close> has the invariant of the coordinator under every call, \<open>Recorder_Crash\<close>
    that a restart restores it, and \<open>Recorder_Growth\<close> that calls only append. \<open>Recorder_Guarantees\<close> holds the
    results over all runs: calls return and concern one recorder, an action under a receipt is applied
    once, a flush records exactly the queued events in order, and what it recorded survives a crash.

  \<^bold>\<open>Bounds.\<close> The depth-first search of the graph takes its recursion depth as an argument, and its caller
  passes the number of nodes plus one, which a path without a repeated node cannot exceed; that it is
  enough is part of the termination property. A transition is at most 3600 frames long, by the check
  the engine makes, and so are the fades; 3600 frames are therefore the bound after which the
  runtime has converged. The loop of a flush takes fuel, and its caller passes twice the length of the
  queue plus one, since between two batches there is at most one rotation; that flushing returns with
  the whole queue recorded shows that this is enough. The loops that read a file have a termination
  measure, the number of bytes left. Numbers of frames, revisions and nanoseconds are 64 bits wide, and a
  property about further progress assumes that the counters have room for it.

  \<^bold>\<open>Side conditions.\<close> The properties of engine runs leave out the stinger described below; those of
  schedules speak of successful polls; the skew of the quad view is exact below 2 to the 63 nanoseconds; a
  deck is not asked to seek by an offset of 2 to the 127 nanoseconds or more, and cued events are well formed. The
  consuming builder of the switcher (\<open>with_streams\<close>) is only used for construction, and inputs are
  reordered through the show and not through its desired switcher, as everywhere in the repository.
  The recorder assumes that memory can be allocated and that reading only fails for a missing file; that
  a flushed recording survives assumes that the entry of its directory was synchronized.

  \<^bold>\<open>What the proofs showed.\<close>
  \<^item> A stinger without media that keeps Program is accepted during a T-bar move and fails the next frame
    (end of \<open>Engine_Runs\<close>); the properties of the runs exclude it by name.
  \<^item> Stopping a recording that is not running emits no event, after which the engine's own snapshots are
    refused.
  \<^item> The report of a duplicate connection in a graph names the second copy for a third one.
  \<^item> A poll that fails at one schedule loses all schedules behind it, and their names stay taken
    (\<open>Schedules\<close>).
  \<^item> The skew of a quad view is computed in 64 signed bits before it saturates, and can overflow.
  \<^item> A replay list that is added may name an event twice, which appending refuses.
  \<^item> Seeking by a large frame number overflows 128 signed bits (\<open>Replay_Decks\<close>).
  \<^item> A start that is retried after a failed synchronization of the root is applied without its directory
    being durable (end of \<open>Recorder_Guarantees\<close>).
  \<^item> Starting a recorder with an unlimited queue writes the start entry and then panics on the reservation.
  \<^item> A recording that is resumed after a crash of the process alone trusts manifest entries that
    were never synchronized; the properties speak of crashes of the machine.

  \<^bold>\<open>What is not modelled.\<close> Display texts and plain getters of the modelled crates, except where a
  rejection carries the text. Within the modelled crates: \<open>controller.rs\<close> of \<open>fm-automation\<close>, which scales
  in floating point; \<open>inspect_recovery\<close> of \<open>fm-replay\<close>, which looks at the file system; creation of the
  root directory and failing reads in \<open>fm-record\<close>. Crates that process samples or pixels in floating
  point (\<open>fm-audio\<close>, \<open>fm-video\<close>, \<open>fm-color\<close>, \<open>fm-compositor\<close>, \<open>fm-scopes\<close>, \<open>fm-titles\<close>, \<open>fm-telestrator\<close>,
  \<open>fm-virtual-set\<close>), that talk to devices, databases, sockets or processes (\<open>fm-io-*\<close>, \<open>fm-codec-*\<close>, \<open>fm-gpu\<close>,
  \<open>fm-persistence\<close>, \<open>fm-plugin-host\<close>, \<open>fm-dsp-host\<close>, \<open>fm-client\<close>, the applications) or that draw
  (\<open>fm-ui-egui\<close>, \<open>freemix-studio\<close>). Still open among the deterministic crates, in the order in which
  they matter to the core: \<open>fm-control\<close> and \<open>fm-server\<close> with \<open>fm-protocol\<close>, \<open>fm-model\<close>, \<open>fm-ptz\<close>, \<open>fm-guest\<close>,
  \<open>fm-social\<close>, \<open>fm-presentations\<close>, \<open>fm-observability\<close>, \<open>fm-data\<close>, \<open>fm-ui-model\<close>.
\<close>

end
